(* ===== verification/Prelude.thy ===== *)
theory Prelude
  imports Main "HOL-Library.Word"
begin

text \<open>
  Shared vocabulary of the development: machine integers, faults as values, sequences of
  actions, the \<^verbatim>\<open>while (true)\<close> loops of the control timers, and the generic lemmas about them.

  \<^item> A fault is what the code does not survive: a call through an empty
    \<^verbatim>\<open>shared_ptr\<close>, a failed \<^verbatim>\<open>assert\<close>, an access outside a container, a division by 0.  Every operation
    that can fault returns \<open>fault + 'a\<close>.
  \<^item> An action is a function \<open>'s \<Rightarrow> 's result\<close>; \<open>seq\<close> runs a list of actions, as the
    statements of a block are run, and stops at the first fault.
  \<^item> A loop body returns \<open>Break\<close> or \<open>Continue\<close>; \<open>run_loop\<close> iterates it.  A loop that
    never breaks is the value \<open>None\<close>, so that returning is a theorem and not an assumption.
\<close>

section \<open>Machine integers\<close>

type_synonym u8 = "8 word"
type_synonym u16 = "16 word"
type_synonym u32 = "32 word"
type_synonym u64 = "64 word"

section \<open>Faults and sequences of actions\<close>

datatype fault = NullPointer | AssertionFailed | OutOfRange | DivideByZero

type_synonym 'a result = "fault + 'a"
type_synonym 's action = "'s \<Rightarrow> 's result"

definition ensure :: "bool \<Rightarrow> 's action" where
  "ensure b s = (if b then Inr s else Inl AssertionFailed)"

definition modify :: "('s \<Rightarrow> 's) \<Rightarrow> 's action" where
  "modify f s = Inr (f s)"

definition and_then :: "'a result \<Rightarrow> ('a \<Rightarrow> 'b result) \<Rightarrow> 'b result" where
  "and_then r f = (case r of Inl e \<Rightarrow> Inl e | Inr x \<Rightarrow> f x)"

fun seq :: "'s action list \<Rightarrow> 's action" where
  "seq [] s = Inr s"
| "seq (a # as) s = and_then (a s) (seq as)"

definition returns :: "'a result \<Rightarrow> bool" where
  "returns r = (case r of Inl _ \<Rightarrow> False | Inr _ \<Rightarrow> True)"

named_theorems action_simps \<open>evaluation of actions and their sequences\<close>

section \<open>Loops with break and continue\<close>

datatype 's flow = Break 's | Continue 's

definition break_with :: "'s result \<Rightarrow> 's flow result" where
  "break_with r = and_then r (\<lambda>s. Inr (Break s))"

definition continue_with :: "'s result \<Rightarrow> 's flow result" where
  "continue_with r = and_then r (\<lambda>s. Inr (Continue s))"

partial_function (option) run_loop :: "('s \<Rightarrow> 's flow result) \<Rightarrow> 's \<Rightarrow> 's result option" where
  "run_loop body s =
     (case body s of
        Inl e \<Rightarrow> Some (Inl e)
      | Inr f \<Rightarrow> (case f of Break s' \<Rightarrow> Some (Inr s') | Continue s' \<Rightarrow> run_loop body s'))"

declare run_loop.simps [code]

text \<open>What a pass of the loop guarantees: no fault, \<open>B\<close> on breaking, \<open>C\<close> on continuing.\<close>

definition flow_spec :: "('s \<Rightarrow> bool) \<Rightarrow> ('s \<Rightarrow> bool) \<Rightarrow> 's flow result \<Rightarrow> bool" where
  "flow_spec B C r =
     (case r of Inl e \<Rightarrow> False | Inr f \<Rightarrow> (case f of Break s \<Rightarrow> B s | Continue s \<Rightarrow> C s))"

definition result_spec :: "('a \<Rightarrow> bool) \<Rightarrow> 'a result \<Rightarrow> bool" where
  "result_spec P r = (case r of Inl e \<Rightarrow> False | Inr x \<Rightarrow> P x)"

section \<open>Lemmas on actions\<close>

lemma and_then_simps [simp, action_simps]:
  "and_then (Inl e) f = Inl e"
  "and_then (Inr x) f = f x"
  by (simp_all add: and_then_def)

lemma and_then_eq_Inr [simp]:
  "and_then r f = Inr y \<longleftrightarrow> (\<exists>x. r = Inr x \<and> f x = Inr y)"
  by (cases r) auto

lemma and_then_assoc: "and_then (and_then r f) g = and_then r (\<lambda>x. and_then (f x) g)"
  by (cases r) auto

lemma ensure_simps [simp, action_simps]:
  "ensure True s = Inr s"
  "ensure False s = Inl AssertionFailed"
  by (simp_all add: ensure_def)

lemma ensure_eq_Inr [simp]: "ensure b s = Inr t \<longleftrightarrow> b \<and> t = s"
  by (auto simp: ensure_def)

lemma modify_apply [simp, action_simps]: "modify f s = Inr (f s)"
  by (simp add: modify_def)

lemma seq_append: "seq (xs @ ys) s = and_then (seq xs s) (seq ys)"
  by (induction xs arbitrary: s) (auto simp: and_then_assoc [symmetric] and_then_def split: sum.splits)

lemma and_then_seq_Nil [simp]: "and_then r (seq []) = r"
  by (cases r) simp_all

lemma returns_simps [simp, action_simps]:
  "returns (Inr x)"
  "\<not> returns (Inl e)"
  by (simp_all add: returns_def)

lemma returns_iff: "returns r \<longleftrightarrow> (\<exists>x. r = Inr x)"
  by (cases r) auto

lemma map_sum_eq_Inr: "map_sum f g r = Inr y \<longleftrightarrow> (\<exists>x. r = Inr x \<and> y = g x)"
  by (cases r) auto

lemma break_with_simps [simp, action_simps]:
  "break_with (Inl e) = Inl e"
  "break_with (Inr s) = Inr (Break s)"
  by (simp_all add: break_with_def)

lemma continue_with_simps [simp, action_simps]:
  "continue_with (Inl e) = Inl e"
  "continue_with (Inr s) = Inr (Continue s)"
  by (simp_all add: continue_with_def)

lemma flow_spec_simps [simp]:
  "\<not> flow_spec B C (Inl e)"
  "flow_spec B C (Inr (Break s)) = B s"
  "flow_spec B C (Inr (Continue s)) = C s"
  by (simp_all add: flow_spec_def)

lemma result_spec_simps [simp]:
  "\<not> result_spec P (Inl e)"
  "result_spec P (Inr x) = P x"
  by (simp_all add: result_spec_def)

lemma result_spec_iff: "result_spec P r \<longleftrightarrow> (\<exists>x. r = Inr x \<and> P x)"
  by (cases r) auto

lemma result_spec_mono:
  assumes "result_spec P r" "\<And>x. P x \<Longrightarrow> Q x"
  shows "result_spec Q r"
  using assms by (auto simp: result_spec_iff)

lemma flow_spec_mono:
  assumes "flow_spec B C r" "\<And>s. B s \<Longrightarrow> B' s" "\<And>s. C s \<Longrightarrow> C' s"
  shows "flow_spec B' C' r"
  using assms by (auto simp: flow_spec_def split: sum.splits flow.splits)

lemma flow_spec_and_then:
  "flow_spec B C (and_then r f) \<longleftrightarrow> result_spec (\<lambda>x. flow_spec B C (f x)) r"
  by (cases r) auto

lemma flow_spec_with:
  "flow_spec B C (break_with r) \<longleftrightarrow> result_spec B r"
  "flow_spec B C (continue_with r) \<longleftrightarrow> result_spec C r"
  by (cases r; simp)+

lemma result_spec_and_then:
  "result_spec P (and_then r f) \<longleftrightarrow> result_spec (\<lambda>x. result_spec P (f x)) r"
  by (cases r) auto

lemma result_spec_ensure: "result_spec P (ensure b s) \<longleftrightarrow> b \<and> P s"
  by (simp add: ensure_def)

lemma result_spec_seq:
  "result_spec P (seq [] s) \<longleftrightarrow> P s"
  "result_spec P (seq (a # as) s) \<longleftrightarrow> result_spec (\<lambda>t. result_spec P (seq as t)) (a s)"
  by (simp_all add: result_spec_and_then)

text \<open>The rules that reduce a pass of a loop to the calls it makes.\<close>

lemmas spec_rules = flow_spec_and_then flow_spec_with result_spec_and_then result_spec_ensure
  result_spec_seq

lemma run_loop_Inl: "body s = Inl e \<Longrightarrow> run_loop body s = Some (Inl e)"
  by (simp add: run_loop.simps [of body s])

lemma run_loop_Break: "body s = Inr (Break s') \<Longrightarrow> run_loop body s = Some (Inr s')"
  by (simp add: run_loop.simps [of body s])

lemma run_loop_Continue: "body s = Inr (Continue s') \<Longrightarrow> run_loop body s = run_loop body s'"
  by (simp add: run_loop.simps [of body s])

section \<open>Lemmas on words\<close>

lemma word_ge_1: "(1::u32) \<le> x \<longleftrightarrow> x \<noteq> 0"
  by (metis linorder_not_le word_gt_0 word_less_1)

lemma unat_pred: "cur < i \<Longrightarrow> unat (i - 1) = unat i - 1" for i :: "'a::len word"
  by (rule unat_minus_one) (auto simp: word_less_nat_alt)

lemma unat_pred_less: "cur < i \<Longrightarrow> unat (i - 1) < unat i" for i :: "'a::len word"
  by (simp add: unat_pred word_less_nat_alt)

lemma u32_less: "unat (w :: u32) < 2 ^ 32" "uint w < 2 ^ 32"
  by (rule order_less_le_trans [OF unsigned_less]; simp)+

lemma unat_ucast_small: "unat w < 2 ^ LENGTH('b) \<Longrightarrow> unat (ucast w :: 'b::len word) = unat w"
  by (simp add: unsigned_ucast_eq take_bit_nat_eq_self)

section \<open>The contract of a control loop\<close>

text \<open>
  The interface between a loop body and the loop around it.  The body keeps the invariant
  \<open>inv\<close> (which may speak of the inputs \<open>env\<close> of this activation), never faults
  under it, and every \<open>Continue\<close> lowers \<open>rank\<close>.  Then the loop returns, without a
  fault, in a state that satisfies the invariant; \<open>loop_induct\<close> is the induction rule
  for whatever else is to be shown of it.
\<close>

locale control_loop =
  fixes body :: "'env \<Rightarrow> 's \<Rightarrow> 's flow result"
    and inv :: "'env \<Rightarrow> 's \<Rightarrow> bool"
    and rank :: "'env \<Rightarrow> 's \<Rightarrow> nat"
  assumes body_spec:
    "inv env s \<Longrightarrow> flow_spec (inv env) (\<lambda>s'. inv env s' \<and> rank env s' < rank env s) (body env s)"
begin

lemma body_cases [consumes 1, case_names break continue]:
  assumes "inv env s"
  obtains t where "body env s = Inr (Break t)" "inv env t"
  | t where "body env s = Inr (Continue t)" "inv env t" "rank env t < rank env s"
  using body_spec [OF assms] by (auto simp: flow_spec_def split: sum.splits flow.splits)

lemma loop_induct [consumes 1, case_names break continue]:
  assumes "inv env s"
    and brk: "\<And>s s'. inv env s \<Longrightarrow> body env s = Inr (Break s') \<Longrightarrow> inv env s' \<Longrightarrow> P s s'"
    and cont: "\<And>s s' t. inv env s \<Longrightarrow> body env s = Inr (Continue s') \<Longrightarrow> inv env s' \<Longrightarrow>
                 run_loop (body env) s' = Some (Inr t) \<Longrightarrow> P s' t \<Longrightarrow> P s t"
  shows "\<exists>t. run_loop (body env) s = Some (Inr t) \<and> inv env t \<and> P s t"
  using \<open>inv env s\<close>
proof (induction "rank env s" arbitrary: s rule: less_induct)
  case less
  from less.prems show ?case
  proof (cases rule: body_cases)
    case (break t)
    with less.prems show ?thesis
      using brk by (auto simp: run_loop_Break)
  next
    case (continue s')
    obtain t where t: "run_loop (body env) s' = Some (Inr t)" "inv env t" "P s' t"
      using less.hyps [OF continue(3,2)] by blast
    with continue less.prems show ?thesis
      using cont by (auto simp: run_loop_Continue)
  qed
qed

lemma loop_returns:
  assumes "inv env s"
  shows "\<exists>t. run_loop (body env) s = Some (Inr t) \<and> inv env t"
  using loop_induct [OF assms, of "\<lambda>_ _. True"] by blast

text \<open>A property \<open>J\<close> that every \<open>Continue\<close> keeps and every \<open>Break\<close> turns into \<open>Q\<close>.\<close>

lemma loop_spec:
  assumes "inv env s" "J s"
    and step: "\<And>s. inv env s \<Longrightarrow> J s \<Longrightarrow> flow_spec Q J (body env s)"
  shows "\<exists>t. run_loop (body env) s = Some (Inr t) \<and> inv env t \<and> Q t"
proof -
  have "\<exists>t. run_loop (body env) s = Some (Inr t) \<and> inv env t \<and> (J s \<longrightarrow> Q t)"
    using assms(1)
  proof (rule loop_induct)
    fix s s' assume "inv env s" "body env s = Inr (Break s')"
    with step [of s] show "J s \<longrightarrow> Q s'" by auto
  next
    fix s s' t assume "inv env s" "body env s = Inr (Continue s')" "J s' \<longrightarrow> Q t"
    with step [of s] show "J s \<longrightarrow> Q t" by auto
  qed
  with \<open>J s\<close> show ?thesis by blast
qed

end

section \<open>Lists\<close>

lemma find_append_None: "find P xs = None \<Longrightarrow> find P (xs @ ys) = find P ys"
  by (induction xs) (auto split: if_splits)

section \<open>Little-endian integers\<close>

definition put32 :: "nat \<Rightarrow> u8 list" where
  "put32 v = map (\<lambda>k. word_of_nat (v div 256 ^ k)) [0..<4]"

definition put16 :: "nat \<Rightarrow> u8 list" where
  "put16 v = map (\<lambda>k. word_of_nat (v div 256 ^ k)) [0..<2]"

fun get_le :: "u8 list \<Rightarrow> nat" where
  "get_le [] = 0"
| "get_le (b # bs) = unat b + 256 * get_le bs"

definition get32 :: "u8 list \<Rightarrow> nat \<Rightarrow> nat" where
  "get32 bs pos = get_le (take 4 (drop pos bs))"

definition get16 :: "u8 list \<Rightarrow> nat \<Rightarrow> nat" where
  "get16 bs pos = get_le (take 2 (drop pos bs))"

lemma get_le_put: "get_le (map (\<lambda>k. word_of_nat (v div 256 ^ k)) [0..<m]) = v mod 256 ^ m"
proof (induction m arbitrary: v)
  case (Suc m)
  have "map (\<lambda>k. word_of_nat (v div 256 ^ k) :: u8) [0..<Suc m] =
     word_of_nat v # map (\<lambda>k. word_of_nat (v div 256 div 256 ^ k)) [0..<m]"
    by (simp add: upt_conv_Cons map_Suc_upt [symmetric] div_mult2_eq del: upt_Suc)
  then have "get_le (map (\<lambda>k. word_of_nat (v div 256 ^ k)) [0..<Suc m]) = v mod 256 + 256 * (v div 256 mod 256 ^ m)"
    using Suc.IH [of "v div 256"] by (simp add: unat_of_nat)
  then show ?case by (simp add: mod_mult2_eq)
qed simp

lemma put_length [simp]: "length (put32 v) = 4" "length (put16 v) = 2"
  by (simp_all add: put32_def put16_def)

lemma get_put:
  "v < 2 ^ 32 \<Longrightarrow> get32 (pre @ put32 v @ post) (length pre) = v"
  "v < 2 ^ 16 \<Longrightarrow> get16 (pre @ put16 v @ post) (length pre) = v"
  by (simp_all add: get32_def get16_def put32_def put16_def get_le_put del: upt_rec_numeral)

lemma get_le_zeros: "list_all (\<lambda>b. b = 0) bs \<Longrightarrow> get_le bs = 0"
  by (induction bs) auto

lemma put32_0: "put32 0 = replicate 4 0"
  by (simp add: put32_def map_replicate_const)

lemma concat_zeros: "concat (replicate k (put32 0)) = replicate (4 * k) 0"
  by (induction k) (simp_all add: put32_0 replicate_add [symmetric])

lemma get32_zeros: "get32 (pre @ replicate k 0) (length pre + i) = 0"
  unfolding get32_def by (rule get_le_zeros) (auto simp: list_all_iff dest!: in_set_takeD in_set_dropD)

section \<open>The contract of a request loop\<close>

text \<open>
  The interface between a store that knows what it misses and a client that requests it: as
  long as something is missing, a step succeeds, keeps the invariant and leaves one item less.
  Then as many steps as items were missing leave nothing missing.
\<close>

fun iterate_step :: "('s \<Rightarrow> 's option) \<Rightarrow> nat \<Rightarrow> 's \<Rightarrow> 's" where
  "iterate_step step 0 s = s"
| "iterate_step step (Suc k) s = (case step s of None \<Rightarrow> s | Some s' \<Rightarrow> iterate_step step k s')"

lemma iterate_keeps:
  assumes "\<And>s s'. step s = Some s' \<Longrightarrow> f s' = f s"
  shows "f (iterate_step step k s) = f s"
  using assms by (induction k arbitrary: s) (auto split: option.split)

locale request_loop =
  fixes step :: "'s \<Rightarrow> 's option"
    and inv :: "'s \<Rightarrow> bool"
    and left :: "'s \<Rightarrow> nat"
  assumes step_done: "inv s \<Longrightarrow> left s = 0 \<Longrightarrow> step s = None"
    and step_left: "inv s \<Longrightarrow> left s \<noteq> 0 \<Longrightarrow> \<exists>s'. step s = Some s' \<and> inv s' \<and> left s' = left s - 1"
begin

lemma iterate_done:
  assumes "inv s"
  shows "inv (iterate_step step (left s) s) \<and> left (iterate_step step (left s) s) = 0
    \<and> step (iterate_step step (left s) s) = None"
  using assms
proof (induction "left s" arbitrary: s)
  case 0
  with step_done [of s] show ?case by simp
next
  case (Suc k)
  then obtain s' where s': "step s = Some s'" "inv s'" "left s' = left s - 1"
    using step_left [of s] by auto
  with Suc.hyps(2) have "k = left s'" by simp
  with Suc.hyps(1) [OF this s'(2)] s'(1) Suc.hyps(2) show ?case by (metis iterate_step.simps(2) option.simps(5))
qed

lemma iterate_keeps_inv:
  assumes "inv s" "\<And>s s'. inv s \<Longrightarrow> step s = Some s' \<Longrightarrow> f s' = f s"
  shows "f (iterate_step step k s) = f s"
  using assms(1)
proof (induction k arbitrary: s)
  case (Suc k)
  show ?case
  proof (cases "step s")
    case (Some s')
    with Suc.prems step_done [of s] have "left s \<noteq> 0" by auto
    with Some Suc.prems step_left [of s] have "inv s'" by auto
    with Some Suc assms(2) show ?thesis by simp
  qed simp
qed simp

end

section \<open>The contract of a refinement\<close>

text \<open>
  A component refines a more abstract one when every operation, applied to related states,
  returns and leaves related states, provided the operation is enabled on the abstract side.
  Then every enabled sequence of operations runs without a fault and ends in related states.
\<close>

fun enabled_run :: "('e \<Rightarrow> 'a \<Rightarrow> bool) \<Rightarrow> ('e \<Rightarrow> 'a \<Rightarrow> 'a) \<Rightarrow> 'e list \<Rightarrow> 'a \<Rightarrow> bool" where
  "enabled_run en astep [] a = True"
| "enabled_run en astep (e # es) a = (en e a \<and> enabled_run en astep es (astep e a))"

locale forward_simulation =
  fixes cstep :: "'e \<Rightarrow> 'c action"
    and astep :: "'e \<Rightarrow> 'a \<Rightarrow> 'a"
    and en :: "'e \<Rightarrow> 'a \<Rightarrow> bool"
    and rel :: "'c \<Rightarrow> 'a \<Rightarrow> bool"
  assumes simulates: "rel c a \<Longrightarrow> en e a \<Longrightarrow> result_spec (\<lambda>c'. rel c' (astep e a)) (cstep e c)"
begin

lemma run_simulates:
  assumes "rel c a" "enabled_run en astep es a"
  shows "\<exists>c'. seq (map cstep es) c = Inr c' \<and> rel c' (fold astep es a)"
  using assms
proof (induction es arbitrary: c a)
  case Nil
  then show ?case by simp
next
  case (Cons e es)
  then obtain c1 where "cstep e c = Inr c1" "rel c1 (astep e a)"
    using simulates [of c a e] by (auto simp: result_spec_iff)
  with Cons.IH [of c1 "astep e a"] Cons.prems show ?case by simp
qed

end

end
