(* ===== verification/SwitchBase.thy ===== *)
theory SwitchBase
  imports Prelude
begin

text \<open>
  The interface of the switch controllers and their common base class:
  \<^verbatim>\<open>p2sp/download/SwitchControllerInterface.h\<close> and the class
  \<^verbatim>\<open>SwitchController::ControlMode\<close> of \<^verbatim>\<open>SwitchController.h/.cpp\<close>.

  A control mode decides once a second which of the two sources of a download, HTTP and
  P2P, runs and which is paused.  It reads the rest of the program only through the
  getters of \<^verbatim>\<open>IGlobalControlTarget\<close>, \<^verbatim>\<open>IHTTPControlTarget\<close>, \<^verbatim>\<open>IP2PControlTarget\<close>,
  \<^verbatim>\<open>BootStrapGeneralConfig\<close> and \<^verbatim>\<open>ProxyModule\<close>; what they return during one activation of
  the timer is the record \<open>env\<close>.  It acts on the rest of the program through
  \<^verbatim>\<open>Pause\<close>, \<^verbatim>\<open>Resume\<close>, \<^verbatim>\<open>SetDownloadMode\<close>, \<^verbatim>\<open>SetDownloadPriority\<close> and the notifications
  of the global provider, which are part of the state below.

  Clocks (\<^verbatim>\<open>framework::timer::TickCounter\<close>, not part of the repository): a counter is the
  moment of its last \<^verbatim>\<open>reset()\<close>, and what \<^verbatim>\<open>elapsed()\<close> returns for it is the parameter
  \<open>elapsed\<close> of the environment.
\<close>

section \<open>Enumerations of the interface\<close>

datatype JumpBWType =
    JBW_NORMAL | JBW_HTTP_MORE | JBW_HTTP_ONLY | JBW_HTTP_PREFERRED
  | JBW_P2P_MORE | JBW_VOD_P2P_ONLY | JBW_P2P_INCREASE_CONNECT

datatype P2PDwonloadMode = NORMAL_MODE | CONTINUOUS_MODE | FAST_MODE

text \<open>The three priorities of \<^verbatim>\<open>protocol::RequestSubPiecePacket\<close> the code names.\<close>

datatype priority = PUSH_PRIORITY | PRIORITY_10 | DEFAULT_PRIORITY

datatype DownloadLevel = PASSIVE_DOWNLOAD_LEVEL | POSITIVELY_DOWNLOAD_LEVEL

section \<open>What one activation of the control timer reads\<close>

type_synonym moment = u32

record env =
  now :: moment
  elapsed :: "moment \<Rightarrow> u32"
  \<comment> \<open>the global data provider\<close>
  GetBWType :: JumpBWType
  GetDownloadLevel :: DownloadLevel
  GetBandWidth :: u32
  GetDataRate :: u32
  GetRestPlayableTime :: u32
  HasRID :: bool
  IsDrag :: bool
  IsStartFromNonZero :: bool
  IsHeadOnly :: bool
  \<comment> \<open>the control targets\<close>
  http_speed :: "nat \<Rightarrow> u32"
  p2p_speed :: u32
  GetConnectedPeersCount :: u32
  GetPooledPeersCount :: u32
  GetActivePeersCount :: u32
  GetAvailableBlockPeerCount :: u32
  \<comment> \<open>the proxy module and the bootstrap configuration\<close>
  IsDownloadSpeedLimited :: bool
  GetMinDownloadSpeedToBeEnsuredInKBps :: u32
  GetWaitTimeForTinydragInDownloadMode :: u32
  GetHttpDownloadSpeedLimitInKBps :: u32
  GetRestTimeEnoughLaunchP2P10 :: u32
  GetRestTimeEnoughLaunchP2P0 :: u32
  GetRestTimeNeedCheckP2P :: u32
  ShouldPreventHttpPredownload :: bool
  GetWaitTimeForTinydrag :: u32
  \<comment> \<open>builds with a memory pool: its left capacity; builds without: \<open>None\<close>\<close>
  left_capacity :: "u32 option"
  \<comment> \<open>debug builds: the number in the file \<^verbatim>\<open>switch.ini\<close>, when there is one\<close>
  switch_ini :: "int option"

section \<open>What a control mode acts upon\<close>

record p2p_target =
  is_p2p_pausing :: bool
  dl_mode :: P2PDwonloadMode
  download_priority :: priority

text \<open>The notifications a controller sends to the global provider and to the HTTP targets.\<close>

datatype notice =
    OnStateMachineType nat
  | OnStateMachineState string
  | SetSwitchState nat nat nat nat
  | SetSpeedLimitInKBps u32
  | NoticeLeave2300
  | NoticeLeave2000
  | SetDragHttpStatus int
  | ReportUseBakHost
  | ReportBakHostFail

section \<open>The state of a control mode\<close>

datatype HttpState = HTTP_NONE | HTTP_STOPPED | HTTP_DOWNLOADING | HTTP_PAUSING
datatype P2PState = P2P_NONE | P2P_STOPPED | P2P_DOWNLOADING | P2P_PAUSING
datatype TimerUsingState =
  TIMER_USING_NONE | TIMER_USING_X | TIMER_USING_Y | TIMER_USING_Z | TIMER_USING_H | TIMER_USING_T
datatype TimerState = TIMER_NONE | TIMER_STARTED | TIMER_STOPPED
datatype RIDState = RID_NONE | RID_GOT

text \<open>
  \<open>http_st\<close> to \<open>rid_st\<close> are the members of \<^verbatim>\<open>SwitchController::State\<close> (written without their trailing underscore), \<open>is_running\<close> and
  \<open>is_paused_by_sdk\<close> those of \<^verbatim>\<open>ControlMode\<close>.  \<open>https\<close> holds, for each HTTP downloader of the
  driver (\<^verbatim>\<open>DownloadDriver::url_indexer_\<close>, in its order), whether it is pausing;
  \<open>p2p_dl\<close> is the P2P downloader of the driver, if there is one; \<open>notices\<close> are the
  notifications sent so far.
\<close>

record control_mode =
  http_st :: HttpState
  p2p_st :: P2PState
  timer_using :: TimerUsingState
  timer_st :: TimerState
  rid_st :: RIDState
  is_running :: bool
  is_paused_by_sdk :: bool
  https :: "bool list"
  p2p_dl :: "p2p_target option"
  notices :: "notice list"

section \<open>The calls on the targets\<close>

text \<open>
  \<^verbatim>\<open>DownloadDriver::GetHTTPControlTarget\<close> is the first HTTP downloader of the driver.
  The calls below take the position of the downloader they are made on.
\<close>

definition has_http :: "'a control_mode_scheme \<Rightarrow> bool" where
  "has_http s = (https s \<noteq> [])"

definition has_p2p :: "'a control_mode_scheme \<Rightarrow> bool" where
  "has_p2p s = (p2p_dl s \<noteq> None)"

definition set_pausing_http :: "nat \<Rightarrow> bool \<Rightarrow> ('a control_mode_scheme) action" where
  "set_pausing_http i b s =
     (if i < length (https s) then Inr (s\<lparr>https := (https s)[i := b]\<rparr>) else Inl NullPointer)"

abbreviation http_Pause_at :: "nat \<Rightarrow> ('a control_mode_scheme) action" where
  "http_Pause_at i \<equiv> set_pausing_http i True"
abbreviation http_Resume_at :: "nat \<Rightarrow> ('a control_mode_scheme) action" where
  "http_Resume_at i \<equiv> set_pausing_http i False"
abbreviation http_Pause :: "('a control_mode_scheme) action" where
  "http_Pause \<equiv> http_Pause_at 0"
abbreviation http_Resume :: "('a control_mode_scheme) action" where
  "http_Resume \<equiv> http_Resume_at 0"

definition update_p2p :: "(p2p_target \<Rightarrow> p2p_target) \<Rightarrow> ('a control_mode_scheme) action" where
  "update_p2p f s =
     (case p2p_dl s of
        None \<Rightarrow> Inl NullPointer
      | Some t \<Rightarrow> Inr (s\<lparr>p2p_dl := Some (f t)\<rparr>))"

definition p2p_Pause :: "('a control_mode_scheme) action" where
  "p2p_Pause = update_p2p (\<lambda>t. t\<lparr>is_p2p_pausing := True\<rparr>)"

definition p2p_Resume :: "('a control_mode_scheme) action" where
  "p2p_Resume = update_p2p (\<lambda>t. t\<lparr>is_p2p_pausing := False\<rparr>)"

definition p2p_SetDownloadMode :: "P2PDwonloadMode \<Rightarrow> ('a control_mode_scheme) action" where
  "p2p_SetDownloadMode m = update_p2p (\<lambda>t. t\<lparr>dl_mode := m\<rparr>)"

definition p2p_SetDownloadPriority :: "priority \<Rightarrow> ('a control_mode_scheme) action" where
  "p2p_SetDownloadPriority p = update_p2p (\<lambda>t. t\<lparr>download_priority := p\<rparr>)"

definition notify :: "notice \<Rightarrow> ('a control_mode_scheme) action" where
  "notify n s = Inr (s\<lparr>notices := notices s @ [n]\<rparr>)"

definition cond :: "bool \<Rightarrow> 's action \<Rightarrow> 's action" where
  "cond b a s = (if b then a s else Inr s)"

abbreviation set_http :: "HttpState \<Rightarrow> ('a control_mode_scheme) action" where
  "set_http h \<equiv> modify (http_st_update (\<lambda>_. h))"
abbreviation set_p2p :: "P2PState \<Rightarrow> ('a control_mode_scheme) action" where
  "set_p2p p \<equiv> modify (p2p_st_update (\<lambda>_. p))"
abbreviation set_timer :: "TimerUsingState \<Rightarrow> TimerState \<Rightarrow> ('a control_mode_scheme) action" where
  "set_timer u t \<equiv> modify (\<lambda>s. s\<lparr>timer_using := u, timer_st := t\<rparr>)"

section \<open>ControlMode\<close>

definition ControlMode_Start :: "('a control_mode_scheme) action" where
  "ControlMode_Start s = (if is_running s then Inr s else Inr (s\<lparr>is_running := True\<rparr>))"

definition ControlMode_Stop :: "('a control_mode_scheme) action" where
  "ControlMode_Stop s = (if \<not> is_running s then Inr s else Inr (s\<lparr>is_running := False\<rparr>))"

definition ResumeOrPause :: "bool \<Rightarrow> ('a control_mode_scheme) action" where
  "ResumeOrPause neer_pause s =
     (if \<not> is_running s then Inr s
      else if neer_pause then
        seq [cond (has_p2p s) (seq [p2p_Pause, set_p2p P2P_PAUSING]),
             cond (has_http s) (seq [http_Pause, set_http HTTP_PAUSING]),
             modify (\<lambda>s. s\<lparr>is_paused_by_sdk := True\<rparr>)] s
      else Inr (s\<lparr>is_paused_by_sdk := False\<rparr>))"

text \<open>The common beginning of the three \<^verbatim>\<open>Start\<close> functions: pause what exists, then the first state.\<close>

definition start_state :: "('a control_mode_scheme) action" where
  "start_state = seq [
     (\<lambda>s. cond (has_http s) http_Pause s),
     (\<lambda>s. cond (has_p2p s) p2p_Pause s),
     modify (\<lambda>s. s\<lparr>
       http_st := (if has_http s then HTTP_PAUSING else HTTP_NONE),
       p2p_st := (if has_p2p s then P2P_PAUSING else P2P_NONE),
       rid_st := (if has_p2p s then RID_GOT else RID_NONE),
       timer_st := TIMER_NONE,
       timer_using := TIMER_USING_NONE\<rparr>)]"

section \<open>The displayed state\<close>

primrec code_http :: "HttpState \<Rightarrow> nat" where
  "code_http HTTP_NONE = 0"
| "code_http HTTP_STOPPED = 1"
| "code_http HTTP_DOWNLOADING = 2"
| "code_http HTTP_PAUSING = 3"

primrec code_p2p :: "P2PState \<Rightarrow> nat" where
  "code_p2p P2P_NONE = 0"
| "code_p2p P2P_STOPPED = 1"
| "code_p2p P2P_DOWNLOADING = 2"
| "code_p2p P2P_PAUSING = 3"

primrec code_timer_using :: "TimerUsingState \<Rightarrow> nat" where
  "code_timer_using TIMER_USING_NONE = 0"
| "code_timer_using TIMER_USING_X = 1"
| "code_timer_using TIMER_USING_Y = 2"
| "code_timer_using TIMER_USING_Z = 3"
| "code_timer_using TIMER_USING_H = 4"
| "code_timer_using TIMER_USING_T = 5"

primrec code_timer :: "TimerState \<Rightarrow> nat" where
  "code_timer TIMER_NONE = 0"
| "code_timer TIMER_STARTED = 1"
| "code_timer TIMER_STOPPED = 2"

primrec code_rid :: "RIDState \<Rightarrow> nat" where
  "code_rid RID_NONE = 0"
| "code_rid RID_GOT = 1"

definition digit :: "nat \<Rightarrow> char" where
  "digit n = char_of (48 + n)"

definition state_string :: "'a control_mode_scheme \<Rightarrow> string" where
  "state_string s =
     [CHR ''<'', digit (code_http (http_st s)), digit (code_p2p (p2p_st s)),
      digit (code_timer_using (timer_using s)), digit (code_timer (timer_st s)),
      digit (code_rid (rid_st s)), CHR ''>'']"

section \<open>Agreement of the recorded state with the targets\<close>

text \<open>
  The state a controller records is the state its targets are in: a source is
  \<open>HTTP_DOWNLOADING\<close> (\<open>P2P_DOWNLOADING\<close>) exactly when its downloader exists and is
  not pausing, \<open>HTTP_PAUSING\<close> (\<open>P2P_PAUSING\<close>) only when it exists and pauses, and the
  values \<open>HTTP_STOPPED\<close> and \<open>P2P_STOPPED\<close> are never used.  \<open>i\<close> is the HTTP downloader in use.
\<close>

definition http_agrees :: "nat \<Rightarrow> 'a control_mode_scheme \<Rightarrow> bool" where
  "http_agrees i s =
     (http_st s \<noteq> HTTP_STOPPED \<and>
      (http_st s = HTTP_NONE \<longrightarrow> https s = []) \<and>
      (http_st s = HTTP_DOWNLOADING \<longrightarrow> i < length (https s) \<and> \<not> https s ! i) \<and>
      (http_st s = HTTP_PAUSING \<longrightarrow> i < length (https s) \<and> https s ! i))"

definition p2p_is_pausing :: "'a control_mode_scheme \<Rightarrow> bool option" where
  "p2p_is_pausing s = map_option is_p2p_pausing (p2p_dl s)"

definition p2p_agrees :: "'a control_mode_scheme \<Rightarrow> bool" where
  "p2p_agrees s =
     (p2p_st s \<noteq> P2P_STOPPED \<and>
      (p2p_st s = P2P_NONE \<longrightarrow> p2p_is_pausing s \<noteq> Some False) \<and>
      (p2p_st s = P2P_DOWNLOADING \<longrightarrow> p2p_is_pausing s = Some False) \<and>
      (p2p_st s = P2P_PAUSING \<longrightarrow> p2p_is_pausing s = Some True))"

text \<open>The controller is in one of the named states \<^verbatim>\<open>hp\<close>.\<close>

definition in_state :: "HttpState \<Rightarrow> P2PState \<Rightarrow> 'a control_mode_scheme \<Rightarrow> bool" where
  "in_state h p s = (http_st s = h \<and> p2p_st s = p)"

text \<open>Somebody downloads: the purpose of every state but the waiting ones.\<close>

definition downloading :: "'a control_mode_scheme \<Rightarrow> bool" where
  "downloading s = (http_st s = HTTP_DOWNLOADING \<or> p2p_st s = P2P_DOWNLOADING)"

text \<open>
  What \<^verbatim>\<open>DownloadDriver\<close> guarantees of the inputs: it creates the P2P downloader only with a
  RID and only when the bandwidth type is not \<open>JBW_HTTP_ONLY\<close> (\<^verbatim>\<open>DownloadDriver.cpp\<close>, lines 437
  and 1623), and HTTP downloaders only when it is not \<open>JBW_VOD_P2P_ONLY\<close> (line 462).
\<close>

definition driver_ok :: "env \<Rightarrow> 'a control_mode_scheme \<Rightarrow> bool" where
  "driver_ok env s =
     ((has_p2p s \<longrightarrow> HasRID env \<and> GetBWType env \<noteq> JBW_HTTP_ONLY) \<and>
      (has_http s \<longrightarrow> GetBWType env \<noteq> JBW_VOD_P2P_ONLY))"

section \<open>A sample environment\<close>

text \<open>
  The inputs the examples start from: one peer, a data rate of 100 KB/s, sources that
  deliver nothing, one millisecond per moment.
\<close>

definition env0 :: env where
  "env0 = \<lparr>now = 0, elapsed = (\<lambda>m. 0 - m),
     GetBWType = JBW_NORMAL, GetDownloadLevel = POSITIVELY_DOWNLOAD_LEVEL,
     GetBandWidth = 204800, GetDataRate = 102400, GetRestPlayableTime = 20000,
     HasRID = True, IsDrag = False, IsStartFromNonZero = False, IsHeadOnly = False,
     http_speed = (\<lambda>_. 0), p2p_speed = 0, GetConnectedPeersCount = 1,
     GetPooledPeersCount = 1, GetActivePeersCount = 1, GetAvailableBlockPeerCount = 1,
     IsDownloadSpeedLimited = False, GetMinDownloadSpeedToBeEnsuredInKBps = 50,
     GetWaitTimeForTinydragInDownloadMode = 5, GetHttpDownloadSpeedLimitInKBps = 0,
     GetRestTimeEnoughLaunchP2P10 = 20, GetRestTimeEnoughLaunchP2P0 = 30,
     GetRestTimeNeedCheckP2P = 30, ShouldPreventHttpPredownload = True,
     GetWaitTimeForTinydrag = 5, left_capacity = None, switch_ini = None\<rparr>"

text \<open>The same inputs at moment \<open>n\<close>.\<close>

definition env_at :: "moment \<Rightarrow> env" where
  "env_at n = env0\<lparr>now := n, elapsed := (\<lambda>m. n - m)\<rparr>"

definition p2p_target0 :: p2p_target where
  "p2p_target0 = \<lparr>is_p2p_pausing = True, dl_mode = NORMAL_MODE, download_priority = DEFAULT_PRIORITY\<rparr>"

section \<open>Lemmas on the calls\<close>

lemma cond_simps [simp, action_simps]:
  "cond True a s = a s"
  "cond False a s = Inr s"
  by (simp_all add: cond_def)

lemma notify_apply [simp, action_simps]: "notify n s = Inr (s\<lparr>notices := notices s @ [n]\<rparr>)"
  by (simp add: notify_def)

lemma set_pausing_http_ok [simp]:
  "i < length (https s) \<Longrightarrow> set_pausing_http i b s = Inr (s\<lparr>https := (https s)[i := b]\<rparr>)"
  by (simp add: set_pausing_http_def)

lemma update_p2p_Some [simp]:
  "p2p_dl s = Some t \<Longrightarrow> update_p2p f s = Inr (s\<lparr>p2p_dl := Some (f t)\<rparr>)"
  by (simp add: update_p2p_def)

lemma update_p2p_None [simp]: "p2p_dl s = None \<Longrightarrow> update_p2p f s = Inl NullPointer"
  by (simp add: update_p2p_def)

lemmas p2p_call_defs = p2p_Pause_def p2p_Resume_def p2p_SetDownloadMode_def p2p_SetDownloadPriority_def

lemmas agree_defs = http_agrees_def p2p_agrees_def p2p_is_pausing_def

lemma has_simps:
  "has_http s \<longleftrightarrow> 0 < length (https s)"
  "has_p2p s \<longleftrightarrow> (\<exists>t. p2p_dl s = Some t)"
  by (auto simp: has_http_def has_p2p_def)

lemma set_pausing_spec:
  "result_spec P (set_pausing_http i b s) \<longleftrightarrow>
     i < length (https s) \<and> P (s\<lparr>https := (https s)[i := b]\<rparr>)"
  by (simp add: set_pausing_http_def)

lemma update_p2p_spec:
  "result_spec P (update_p2p f s) \<longleftrightarrow>
     (\<exists>t. p2p_dl s = Some t \<and> P (s\<lparr>p2p_dl := Some (f t)\<rparr>))"
  by (simp add: update_p2p_def split: option.splits)

lemma cond_spec: "result_spec P (cond b a s) \<longleftrightarrow> (if b then result_spec P (a s) else P s)"
  by (cases b) simp_all

text \<open>The rules that reduce a statement about a block of a control mode to its state.\<close>

lemmas target_specs = spec_rules set_pausing_spec update_p2p_spec cond_spec p2p_call_defs Let_def

text \<open>
  Pausing by the SDK, as far as the first HTTP downloader is the one in use: afterwards
  nothing downloads, and the recorded state still agrees with the targets.
\<close>

lemma ResumeOrPause_pauses:
  assumes "is_running s" "http_agrees 0 s" "p2p_agrees s"
  shows "result_spec (\<lambda>t. http_agrees 0 t \<and> p2p_agrees t \<and> \<not> downloading t
           \<and> is_paused_by_sdk t \<and> is_running t) (ResumeOrPause True s)"
  using assms
  by (auto simp: ResumeOrPause_def target_specs has_simps agree_defs downloading_def
      split: option.splits)

lemma ResumeOrPause_resumes:
  assumes "is_running s"
  shows "ResumeOrPause False s = Inr (s\<lparr>is_paused_by_sdk := False\<rparr>)"
  using assms by (simp add: ResumeOrPause_def)

lemma start_state_agrees:
  "result_spec (\<lambda>t. http_agrees 0 t \<and> p2p_agrees t \<and> is_running t = is_running s
     \<and> timer_using t = TIMER_USING_NONE \<and> timer_st t = TIMER_NONE
     \<and> length (https t) = length (https s) \<and> has_p2p t = has_p2p s
     \<and> is_paused_by_sdk t = is_paused_by_sdk s
     \<and> http_st t \<in> {HTTP_NONE, HTTP_PAUSING}
     \<and> (p2p_st t = P2P_NONE \<longleftrightarrow> \<not> has_p2p s)) (start_state s)"
  by (auto simp: start_state_def target_specs has_simps agree_defs split: option.splits)

end
