(* ===== verification/DownloadMode.thy ===== *)
theory DownloadMode
  imports SwitchBase
begin

text \<open>
  \<^verbatim>\<open>SwitchController::DownloadControlMode\<close>, the state machine of plain downloads
  (\<^verbatim>\<open>p2sp/download/SwitchControllerDownloadControlMode.cpp\<close>).  One definition per member
  function; the \<^verbatim>\<open>while (true)\<close> loop of \<^verbatim>\<open>OnControlTimer\<close> is \<open>run_loop dl_body\<close>, with one
  definition for the block of each of its states (\<^verbatim>\<open>3300\<close>, \<^verbatim>\<open>3000\<close>, \<^verbatim>\<open>2300\<close>, \<^verbatim>\<open>3200\<close>, \<^verbatim>\<open>2200\<close>).

  The lemmas show that a tick returns from every consistent state without a fault, keeps the
  recorded state and the targets in agreement, and follows the bandwidth policy; and what the
  stale stability counters of the states \<^verbatim>\<open>2200\<close> and \<^verbatim>\<open>3200\<close> lead to.
\<close>

section \<open>State\<close>

record download_mode = control_mode +
  waiting_tinydrag_timer_counter :: moment
  is_tiny_drag_timer_reset :: bool
  waiting_p2p_stable_timer_counter :: moment
  is_p2p_timer_reset :: bool
  waiting_http_stable_timer_counter :: moment
  is_http_timer_reset :: bool
  waiting_p2p_connected_timer_counter :: moment
  is_p2p_connected_timer_reset :: bool

section \<open>Transitions\<close>

definition dl_ChangeTo0200 :: "download_mode action" where
  "dl_ChangeTo0200 = seq [\<lambda>s. ensure (\<not> has_http s) s, p2p_Resume, set_p2p P2P_DOWNLOADING]"

definition dl_ChangeTo2000 :: "download_mode action" where
  "dl_ChangeTo2000 = seq [\<lambda>s. ensure (\<not> has_p2p s) s, http_Resume, set_http HTTP_DOWNLOADING]"

definition dl_ChangeTo2200 :: "download_mode action" where
  "dl_ChangeTo2200 = seq [http_Resume, p2p_Resume, set_http HTTP_DOWNLOADING, set_p2p P2P_DOWNLOADING]"

definition dl_ChangeTo2300 :: "download_mode action" where
  "dl_ChangeTo2300 = seq [http_Resume, p2p_Pause, set_http HTTP_DOWNLOADING, set_p2p P2P_PAUSING]"

definition dl_ChangeTo3200 :: "download_mode action" where
  "dl_ChangeTo3200 = seq [http_Pause, p2p_Resume, set_http HTTP_PAUSING, set_p2p P2P_DOWNLOADING]"

section \<open>Judgements\<close>

definition p2p_threshold :: "env \<Rightarrow> bool \<Rightarrow> u32" where
  "p2p_threshold env is_current_p2p_bad =
     (if GetBWType env = JBW_P2P_INCREASE_CONNECT then
        (if is_current_p2p_bad then (GetMinDownloadSpeedToBeEnsuredInKBps env + 10) * 1024
         else GetMinDownloadSpeedToBeEnsuredInKBps env * 1024)
      else (if is_current_p2p_bad then 30 * 1024 else 20 * 1024))"

definition IsP2PBad :: "env \<Rightarrow> bool \<Rightarrow> download_mode \<Rightarrow> bool result" where
  "IsP2PBad env is_current_p2p_bad s =
     (if \<not> is_running s then Inr False
      else if p2p_st s \<noteq> P2P_DOWNLOADING \<or> \<not> has_p2p s then Inl AssertionFailed
      else
        (let now_speed = p2p_speed env; threshold_speed = p2p_threshold env is_current_p2p_bad
         in if \<not> is_current_p2p_bad \<and> threshold_speed < now_speed
               \<or> is_current_p2p_bad \<and> now_speed < threshold_speed
            then Inr is_current_p2p_bad else Inr (\<not> is_current_p2p_bad)))"

definition IsHTTPNormal :: "env \<Rightarrow> download_mode \<Rightarrow> bool result" where
  "IsHTTPNormal env s = (if has_http s then Inr (0 < http_speed env 0) else Inl NullPointer)"

section \<open>The states of the loop\<close>

definition dl_3300 :: "env \<Rightarrow> download_mode \<Rightarrow> download_mode flow result" where
  "dl_3300 env s0 =
     and_then (ensure (HasRID env \<and> has_p2p s0 \<and> GetBWType env \<noteq> JBW_HTTP_ONLY
                       \<and> GetBWType env \<noteq> JBW_VOD_P2P_ONLY) s0) (\<lambda>s.
     if \<not> IsDownloadSpeedLimited env \<and> GetBWType env = JBW_HTTP_PREFERRED then
       break_with (dl_ChangeTo2200 s)
     else if GetBWType env = JBW_HTTP_MORE then break_with (dl_ChangeTo2300 s)
     else if IsDownloadSpeedLimited env then continue_with (dl_ChangeTo3200 s)
     else if is_p2p_connected_timer_reset s then
       (if 1 \<le> GetConnectedPeersCount env then
          continue_with (dl_ChangeTo3200 (s\<lparr>is_p2p_connected_timer_reset := False\<rparr>))
        else if 2 * 1000 \<le> elapsed env (waiting_p2p_connected_timer_counter s) then
          break_with (dl_ChangeTo2300 (s\<lparr>is_p2p_connected_timer_reset := False\<rparr>))
        else Inr (Break s))
     else
       Inr (Break (s\<lparr>waiting_p2p_connected_timer_counter := now env,
                     is_p2p_connected_timer_reset := True\<rparr>)))"

definition dl_3000 :: "env \<Rightarrow> download_mode \<Rightarrow> download_mode flow result" where
  "dl_3000 env s0 =
     and_then (ensure (GetBWType env \<noteq> JBW_VOD_P2P_ONLY) s0) (\<lambda>s.
     if GetBWType env = JBW_HTTP_ONLY \<or> GetBWType env = JBW_HTTP_MORE then
       break_with (dl_ChangeTo2000 s)
     else if has_p2p s then break_with (seq [p2p_Pause, set_p2p P2P_PAUSING] s)
     else if is_tiny_drag_timer_reset s then
       (if GetWaitTimeForTinydragInDownloadMode env * 1000
             \<le> elapsed env (waiting_tinydrag_timer_counter s) then
          break_with (and_then (dl_ChangeTo2000 s) (modify (\<lambda>s. s\<lparr>is_tiny_drag_timer_reset := False\<rparr>)))
        else Inr (Break s))
     else
       Inr (Break (s\<lparr>waiting_tinydrag_timer_counter := now env, is_tiny_drag_timer_reset := True\<rparr>)))"

definition dl_2000 :: "env \<Rightarrow> download_mode \<Rightarrow> download_mode flow result" where
  "dl_2000 env s = (if has_p2p s then break_with (dl_ChangeTo2300 s) else Inr (Break s))"

definition dl_2300 :: "env \<Rightarrow> download_mode \<Rightarrow> download_mode flow result" where
  "dl_2300 env s =
     and_then (IsHTTPNormal env s) (\<lambda>normal.
     if \<not> normal then
       (if GetDownloadLevel env = PASSIVE_DOWNLOAD_LEVEL then break_with (dl_ChangeTo3200 s)
        else continue_with (dl_ChangeTo2200 s))
     else if \<not> has_p2p s then Inl NullPointer
     else if 1 \<le> GetConnectedPeersCount env then
       (if GetDownloadLevel env = PASSIVE_DOWNLOAD_LEVEL then break_with (dl_ChangeTo3200 s)
        else if GetBWType env \<noteq> JBW_HTTP_MORE then continue_with (dl_ChangeTo2200 s)
        else Inr (Break s))
     else Inr (Break s))"

definition dl_3200 :: "env \<Rightarrow> download_mode \<Rightarrow> download_mode flow result" where
  "dl_3200 env s0 =
     and_then (ensure (has_http s0) s0) (\<lambda>s.
     if IsDownloadSpeedLimited env then Inr (Break s)
     else if GetBWType env = JBW_HTTP_PREFERRED then break_with (dl_ChangeTo2200 s)
     else if GetDownloadLevel env = PASSIVE_DOWNLOAD_LEVEL then
       (if \<not> has_p2p s then Inl NullPointer
        else if GetConnectedPeersCount env = 0 then break_with (dl_ChangeTo2300 s)
        else Inr (Break s))
     else if is_p2p_timer_reset s then
       and_then (IsP2PBad env False s) (\<lambda>bad.
         let s1 = (if \<not> bad then s\<lparr>waiting_p2p_stable_timer_counter := now env\<rparr> else s)
         in if 10 * 1000 \<le> elapsed env (waiting_p2p_stable_timer_counter s1) then
              continue_with (and_then (dl_ChangeTo2200 s1) (modify (\<lambda>s. s\<lparr>is_p2p_timer_reset := False\<rparr>)))
            else Inr (Break s1))
     else
       Inr (Break (s\<lparr>waiting_p2p_stable_timer_counter := now env, is_p2p_timer_reset := True\<rparr>)))"

definition dl_2200 :: "env \<Rightarrow> download_mode \<Rightarrow> download_mode flow result" where
  "dl_2200 env s0 =
     and_then (ensure (has_http s0 \<and> has_p2p s0) s0) (\<lambda>s.
     if GetBWType env = JBW_HTTP_PREFERRED \<and> \<not> IsDownloadSpeedLimited env then Inr (Break s)
     else if GetBWType env = JBW_HTTP_MORE then
       and_then (IsHTTPNormal env s) (\<lambda>normal.
         if normal then break_with (dl_ChangeTo2300 s) else Inr (Break s))
     else if IsDownloadSpeedLimited env then break_with (dl_ChangeTo3200 s)
     else if GetConnectedPeersCount env = 0 then break_with (dl_ChangeTo2300 s)
     else if is_http_timer_reset s then
       and_then (IsHTTPNormal env s) (\<lambda>normal.
         let s1 = (if normal then s\<lparr>waiting_http_stable_timer_counter := now env\<rparr> else s)
         in if 2 * 1000 \<le> elapsed env (waiting_http_stable_timer_counter s1) then
              continue_with (and_then (dl_ChangeTo3200 s1) (modify (\<lambda>s. s\<lparr>is_http_timer_reset := False\<rparr>)))
            else
              and_then (IsP2PBad env True s1) (\<lambda>bad.
                let s2 = (if bad then s1\<lparr>waiting_p2p_stable_timer_counter := now env\<rparr> else s1)
                in if 5 * 1000 \<le> elapsed env (waiting_p2p_stable_timer_counter s2) then
                     continue_with (and_then (dl_ChangeTo3200 s2)
                       (modify (\<lambda>s. s\<lparr>is_p2p_timer_reset := False\<rparr>)))
                   else Inr (Break s2)))
     else
       Inr (Break (s\<lparr>waiting_p2p_stable_timer_counter := now env,
                     waiting_http_stable_timer_counter := now env,
                     is_http_timer_reset := True\<rparr>)))"

definition dl_dispatch :: "env \<Rightarrow> download_mode \<Rightarrow> download_mode flow result" where
  "dl_dispatch env s =
     (if in_state HTTP_NONE P2P_PAUSING s then
        and_then (ensure (\<not> has_http s \<and> has_p2p s \<and> GetBWType env \<noteq> JBW_HTTP_ONLY) s)
          (\<lambda>s. break_with (dl_ChangeTo0200 s))
      else if in_state HTTP_PAUSING P2P_PAUSING s then dl_3300 env s
      else if in_state HTTP_PAUSING P2P_NONE s then dl_3000 env s
      else if in_state HTTP_NONE P2P_DOWNLOADING s then Inr (Break s)
      else if in_state HTTP_DOWNLOADING P2P_NONE s then dl_2000 env s
      else if in_state HTTP_DOWNLOADING P2P_PAUSING s then dl_2300 env s
      else if in_state HTTP_PAUSING P2P_DOWNLOADING s then dl_3200 env s
      else if in_state HTTP_DOWNLOADING P2P_DOWNLOADING s then dl_2200 env s
      else Inl AssertionFailed)"

definition dl_body :: "env \<Rightarrow> download_mode \<Rightarrow> download_mode flow result" where
  "dl_body env s0 =
     and_then (cond (has_p2p s0) (p2p_SetDownloadMode FAST_MODE) s0) (\<lambda>s.
     if in_state HTTP_NONE P2P_NONE s then
       (if \<not> has_http s \<and> \<not> has_p2p s then Inr (Break s)
        else
          and_then (cond (has_http s) (seq [http_Pause, set_http HTTP_PAUSING]) s) (\<lambda>s1.
          and_then (cond (has_p2p s) (seq [p2p_Pause, set_p2p P2P_PAUSING]) s1)
            (dl_dispatch env)))
     else dl_dispatch env s)"

definition dl_OnControlTimer :: "env \<Rightarrow> download_mode \<Rightarrow> download_mode result option" where
  "dl_OnControlTimer env s =
     (if \<not> is_running s then Some (Inr s)
      else if is_paused_by_sdk s then Some (Inr s)
      else run_loop (dl_body env) s)"

definition dl_reset_flags :: "download_mode \<Rightarrow> download_mode" where
  "dl_reset_flags s = s\<lparr>
     is_tiny_drag_timer_reset := False, is_p2p_timer_reset := False,
     is_http_timer_reset := False, is_p2p_connected_timer_reset := False\<rparr>"

definition dl_Start :: "env \<Rightarrow> download_mode \<Rightarrow> download_mode result option" where
  "dl_Start env s =
     (if is_running s then Some (Inr s)
      else
        case seq [ControlMode_Start, start_state, modify dl_reset_flags] s of
          Inl e \<Rightarrow> Some (Inl e)
        | Inr s' \<Rightarrow> dl_OnControlTimer env s')"

definition dl_Stop :: "download_mode action" where
  "dl_Stop s = (if \<not> is_running s then Inr s else ControlMode_Stop s)"

section \<open>Invariant and rank\<close>

definition dl_consistent :: "download_mode \<Rightarrow> bool" where
  "dl_consistent s = (http_agrees 0 s \<and> p2p_agrees s)"

text \<open>
  The last conjunct excludes that a P2P downloader turned up while the machine waits in \<^verbatim>\<open>3000\<close> with \<open>JBW_HTTP_MORE\<close>, where the assertion of
  \<^verbatim>\<open>ChangeTo2000\<close> fails (\<open>dl_late_p2p_asserts\<close>).
\<close>

definition dl_env_ok :: "env \<Rightarrow> download_mode \<Rightarrow> bool" where
  "dl_env_ok env s =
     (driver_ok env s \<and>
      \<not> (in_state HTTP_PAUSING P2P_NONE s \<and> has_p2p s \<and> GetBWType env = JBW_HTTP_MORE))"

definition dl_inv :: "env \<Rightarrow> download_mode \<Rightarrow> bool" where
  "dl_inv env s = (is_running s \<and> dl_consistent s \<and> dl_env_ok env s)"

text \<open>
  The number of further passes a tick can make: every jump between \<^verbatim>\<open>3200\<close> and \<^verbatim>\<open>2200\<close> within one
  tick disarms one of the two stability counters.
\<close>

definition dl_rank :: "env \<Rightarrow> download_mode \<Rightarrow> nat" where
  "dl_rank env s =
     (if in_state HTTP_PAUSING P2P_DOWNLOADING s then
        (if is_p2p_timer_reset s then 1 + of_bool (is_http_timer_reset s) else 0)
      else if in_state HTTP_DOWNLOADING P2P_DOWNLOADING s then
        (if is_http_timer_reset s then 1 + of_bool (is_p2p_timer_reset s) else 0)
      else 3)"

definition dl_post :: "env \<Rightarrow> download_mode \<Rightarrow> download_mode flow result \<Rightarrow> bool" where
  "dl_post env s =
     flow_spec (dl_inv env) (\<lambda>s'. dl_inv env s' \<and> dl_rank env s' < dl_rank env s)"

lemmas dl_change_defs = dl_ChangeTo0200_def dl_ChangeTo2000_def dl_ChangeTo2200_def
  dl_ChangeTo2300_def dl_ChangeTo3200_def

lemmas dl_block_defs = dl_3300_def dl_3000_def dl_2000_def dl_2300_def dl_3200_def dl_2200_def
  IsHTTPNormal_def IsP2PBad_def

lemmas dl_inv_defs = dl_inv_def dl_consistent_def dl_env_ok_def driver_ok_def agree_defs in_state_def has_simps

lemmas dl_specs = dl_post_def dl_inv_defs target_specs dl_change_defs dl_rank_def

lemma dl_3300_post:
  assumes "dl_inv env s" "in_state HTTP_PAUSING P2P_PAUSING s"
  shows "dl_post env s (dl_3300 env s)"
  using assms by (auto simp: dl_specs dl_block_defs split: option.splits)

lemma dl_3000_post:
  assumes "dl_inv env s" "in_state HTTP_PAUSING P2P_NONE s"
  shows "dl_post env s (dl_3000 env s)"
  using assms by (auto simp: dl_specs dl_block_defs split: option.splits)

lemma dl_2000_post:
  assumes "dl_inv env s" "in_state HTTP_DOWNLOADING P2P_NONE s"
  shows "dl_post env s (dl_2000 env s)"
  using assms by (auto simp: dl_specs dl_block_defs split: option.splits)

lemma dl_2300_post:
  assumes "dl_inv env s" "in_state HTTP_DOWNLOADING P2P_PAUSING s"
  shows "dl_post env s (dl_2300 env s)"
  using assms by (auto simp: dl_specs dl_block_defs split: option.splits)

lemma dl_3200_post:
  assumes "dl_inv env s" "in_state HTTP_PAUSING P2P_DOWNLOADING s"
  shows "dl_post env s (dl_3200 env s)"
  using assms by (auto simp: dl_specs dl_block_defs split: option.splits)

lemma dl_2200_post:
  assumes "dl_inv env s" "in_state HTTP_DOWNLOADING P2P_DOWNLOADING s"
  shows "dl_post env s (dl_2200 env s)"
  using assms by (auto simp: dl_specs dl_block_defs split: option.splits)

lemma dl_dispatch_post:
  assumes "dl_inv env s" "\<not> in_state HTTP_NONE P2P_NONE s"
  shows "dl_post env s (dl_dispatch env s)"
proof -
  have "dl_post env s (dl_dispatch env s)"
    if "in_state HTTP_NONE P2P_PAUSING s"
    using assms that by (auto simp: dl_dispatch_def dl_specs split: option.splits)
  moreover have "dl_post env s (dl_dispatch env s)"
    if "in_state HTTP_NONE P2P_DOWNLOADING s"
    using assms that by (auto simp: dl_dispatch_def dl_post_def in_state_def)
  moreover have "http_st s \<noteq> HTTP_STOPPED" "p2p_st s \<noteq> P2P_STOPPED"
    using assms by (auto simp: dl_inv_defs)
  ultimately show ?thesis
    using assms dl_3300_post dl_3000_post dl_2000_post dl_2300_post dl_3200_post dl_2200_post
    by (cases "http_st s"; cases "p2p_st s") (auto simp: dl_dispatch_def in_state_def)
qed

lemma dl_rank_le: "dl_rank env s \<le> 3"
  by (simp add: dl_rank_def)

lemma dl_post_mono:
  "dl_post env s r \<Longrightarrow> dl_rank env s \<le> dl_rank env s0 \<Longrightarrow> dl_post env s0 r"
  by (auto simp: dl_post_def flow_spec_def split: sum.splits flow.splits)

lemma dl_set_mode:
  assumes "dl_inv env s"
  obtains m where "cond (has_p2p s) (p2p_SetDownloadMode FAST_MODE) s = Inr (s\<lparr>p2p_dl := m\<rparr>)"
    "dl_inv env (s\<lparr>p2p_dl := m\<rparr>)" "dl_rank env (s\<lparr>p2p_dl := m\<rparr>) = dl_rank env s"
proof (cases "p2p_dl s")
  case None
  then have same: "s\<lparr>p2p_dl := None\<rparr> = s" by (cases s) simp
  show ?thesis
    by (rule that [of None, unfolded same]) (use None assms in \<open>simp_all add: has_p2p_def\<close>)
next
  case (Some t)
  let ?m = "Some (t\<lparr>dl_mode := FAST_MODE\<rparr>)"
  have "dl_inv env (s\<lparr>p2p_dl := ?m\<rparr>)"
    using assms Some by (auto simp: dl_inv_defs)
  with Some show ?thesis
    by (intro that [of ?m]) (simp_all add: has_p2p_def p2p_SetDownloadMode_def dl_rank_def in_state_def)
qed

lemma dl_body_post:
  assumes "dl_inv env s"
  shows "dl_post env s (dl_body env s)"
proof -
  obtain s1 where s1: "cond (has_p2p s) (p2p_SetDownloadMode FAST_MODE) s = Inr s1"
    "dl_inv env s1" "dl_rank env s1 = dl_rank env s"
    using dl_set_mode [OF assms] by metis
  have body: "dl_body env s = (if in_state HTTP_NONE P2P_NONE s1 then
       (if \<not> has_http s1 \<and> \<not> has_p2p s1 then Inr (Break s1)
        else
          and_then (cond (has_http s1) (seq [http_Pause, set_http HTTP_PAUSING]) s1) (\<lambda>s2.
          and_then (cond (has_p2p s1) (seq [p2p_Pause, set_p2p P2P_PAUSING]) s2)
            (dl_dispatch env)))
     else dl_dispatch env s1)"
    by (simp only: dl_body_def s1(1) and_then_simps)
  show ?thesis
  proof (cases "in_state HTTP_NONE P2P_NONE s1")
    case False
    then show ?thesis
      using dl_post_mono [OF dl_dispatch_post [OF s1(2) False]] s1(3) by (simp add: body)
  next
    case True
    have no_http: "https s1 = []" using s1(2) True by (auto simp: dl_inv_defs)
    show ?thesis
    proof (cases "p2p_dl s1")
      case None
      with True no_http s1(2) show ?thesis
        by (simp add: body has_simps dl_post_def)
    next
      case (Some t)
      let ?t = "s1\<lparr>p2p_dl := Some (t\<lparr>is_p2p_pausing := True\<rparr>), p2p_st := P2P_PAUSING\<rparr>"
      have inv': "dl_inv env ?t" and ns: "\<not> in_state HTTP_NONE P2P_NONE ?t"
        using Some s1(2) True by (auto simp: dl_inv_defs)
      have "dl_rank env s = 3" using True s1(3) by (simp add: dl_rank_def in_state_def)
      then have "dl_post env s (dl_dispatch env ?t)"
        using dl_post_mono [OF dl_dispatch_post [OF inv' ns]] dl_rank_le by simp
      with True Some no_http show ?thesis
        by (simp add: body has_simps p2p_Pause_def)
    qed
  qed
qed

interpretation dl: control_loop dl_body dl_inv dl_rank
  using dl_body_post by unfold_locales (simp add: dl_post_def)

lemma dl_dispatch_in:
  "in_state HTTP_PAUSING P2P_PAUSING s \<Longrightarrow> dl_dispatch env s = dl_3300 env s"
  "in_state HTTP_PAUSING P2P_NONE s \<Longrightarrow> dl_dispatch env s = dl_3000 env s"
  "in_state HTTP_NONE P2P_DOWNLOADING s \<Longrightarrow> dl_dispatch env s = Inr (Break s)"
  "in_state HTTP_DOWNLOADING P2P_NONE s \<Longrightarrow> dl_dispatch env s = dl_2000 env s"
  "in_state HTTP_DOWNLOADING P2P_PAUSING s \<Longrightarrow> dl_dispatch env s = dl_2300 env s"
  "in_state HTTP_PAUSING P2P_DOWNLOADING s \<Longrightarrow> dl_dispatch env s = dl_3200 env s"
  "in_state HTTP_DOWNLOADING P2P_DOWNLOADING s \<Longrightarrow> dl_dispatch env s = dl_2200 env s"
  by (simp_all add: dl_dispatch_def in_state_def)

lemma dl_body_lift:
  assumes "dl_inv env s" "\<not> in_state HTTP_NONE P2P_NONE s"
    and "\<And>m. dl_inv env (s\<lparr>p2p_dl := m\<rparr>) \<Longrightarrow> flow_spec B C (dl_dispatch env (s\<lparr>p2p_dl := m\<rparr>))"
  shows "flow_spec B C (dl_body env s)"
proof -
  obtain m where m: "cond (has_p2p s) (p2p_SetDownloadMode FAST_MODE) s = Inr (s\<lparr>p2p_dl := m\<rparr>)"
    "dl_inv env (s\<lparr>p2p_dl := m\<rparr>)"
    using dl_set_mode [OF assms(1)] by metis
  moreover have "\<not> in_state HTTP_NONE P2P_NONE (s\<lparr>p2p_dl := m\<rparr>)"
    using assms(2) by (simp add: in_state_def)
  ultimately show ?thesis
    using assms(3) by (simp only: dl_body_def and_then_simps if_False)
qed

lemma dl_stays_in:
  assumes "dl_inv env s"
  shows "in_state HTTP_PAUSING P2P_DOWNLOADING s \<Longrightarrow> flow_spec downloading downloading (dl_3200 env s)"
    and "in_state HTTP_DOWNLOADING P2P_DOWNLOADING s \<Longrightarrow> flow_spec downloading downloading (dl_2200 env s)"
    and "in_state HTTP_DOWNLOADING P2P_PAUSING s \<Longrightarrow> flow_spec downloading downloading (dl_2300 env s)"
    and "in_state HTTP_DOWNLOADING P2P_NONE s \<Longrightarrow> flow_spec downloading downloading (dl_2000 env s)"
  using assms
  by (auto simp: downloading_def dl_block_defs target_specs dl_change_defs dl_inv_defs split: option.splits)

lemma dl_body_downloading:
  assumes "dl_inv env s" "downloading s"
  shows "flow_spec downloading downloading (dl_body env s)"
proof (rule dl_body_lift [OF assms(1)])
  show "\<not> in_state HTTP_NONE P2P_NONE s" using assms by (auto simp: downloading_def in_state_def)
next
  fix m let ?s = "s\<lparr>p2p_dl := m\<rparr>"
  assume inv: "dl_inv env ?s"
  then consider "in_state HTTP_PAUSING P2P_DOWNLOADING ?s" | "in_state HTTP_DOWNLOADING P2P_DOWNLOADING ?s"
    | "in_state HTTP_DOWNLOADING P2P_PAUSING ?s" | "in_state HTTP_DOWNLOADING P2P_NONE ?s"
    | "in_state HTTP_NONE P2P_DOWNLOADING ?s"
    using assms(2)
    by (cases "http_st s"; cases "p2p_st s") (auto simp: downloading_def dl_inv_defs)
  then show "flow_spec downloading downloading (dl_dispatch env ?s)"
    by cases (use inv dl_stays_in in \<open>auto simp: dl_dispatch_in downloading_def in_state_def\<close>)
qed

lemma dl_3300_waited:
  assumes "dl_inv env s" "in_state HTTP_PAUSING P2P_PAUSING s" "is_p2p_connected_timer_reset s"
    "2 * 1000 \<le> elapsed env (waiting_p2p_connected_timer_counter s)"
  shows "flow_spec downloading downloading (dl_3300 env s)"
  using assms
  by (auto simp: downloading_def dl_block_defs target_specs dl_change_defs dl_inv_defs
      split: option.splits)

section \<open>Runs\<close>

text \<open>
  A freshly constructed mode for a driver with the given downloaders, a sequence of timer
  activations, and the reachable states: \<^verbatim>\<open>Start\<close>, then any interleaving of timer activations,
  pauses and resumptions by the SDK, and the arrival of the P2P downloader (which
  \<^verbatim>\<open>P2PDownloader\<close> creates pausing).
\<close>

definition dl_fresh :: "bool list \<Rightarrow> p2p_target option \<Rightarrow> download_mode" where
  "dl_fresh hs p = \<lparr>http_st = HTTP_NONE, p2p_st = P2P_NONE, timer_using = TIMER_USING_NONE,
     timer_st = TIMER_NONE, rid_st = RID_NONE, is_running = False, is_paused_by_sdk = False,
     https = hs, p2p_dl = p, notices = [],
     waiting_tinydrag_timer_counter = 0, is_tiny_drag_timer_reset = False,
     waiting_p2p_stable_timer_counter = 0, is_p2p_timer_reset = False,
     waiting_http_stable_timer_counter = 0, is_http_timer_reset = False,
     waiting_p2p_connected_timer_counter = 0, is_p2p_connected_timer_reset = False\<rparr>"

fun dl_ticks :: "env list \<Rightarrow> download_mode \<Rightarrow> download_mode result option" where
  "dl_ticks [] s = Some (Inr s)"
| "dl_ticks (env # envs) s =
     (case dl_OnControlTimer env s of
        Some (Inr s') \<Rightarrow> dl_ticks envs s'
      | r \<Rightarrow> r)"

inductive dl_step :: "download_mode \<Rightarrow> download_mode \<Rightarrow> bool" where
  tick: "dl_env_ok env s \<Longrightarrow> dl_OnControlTimer env s = Some (Inr s') \<Longrightarrow> dl_step s s'"
| sdk: "ResumeOrPause b s = Inr s' \<Longrightarrow> dl_step s s'"
| attach: "p2p_dl s = None \<Longrightarrow> is_p2p_pausing t \<Longrightarrow> dl_step s (s\<lparr>p2p_dl := Some t\<rparr>)"

inductive dl_reachable :: "download_mode \<Rightarrow> bool" where
  start: "\<not> is_running s0 \<Longrightarrow> driver_ok env s0 \<Longrightarrow> dl_Start env s0 = Some (Inr s) \<Longrightarrow> dl_reachable s"
| step: "dl_reachable s \<Longrightarrow> dl_step s s' \<Longrightarrow> dl_reachable s'"

section \<open>Ticks\<close>

lemma dl_tick:
  assumes "is_running s" "dl_consistent s" "dl_env_ok env s"
  shows "\<exists>t. dl_OnControlTimer env s = Some (Inr t) \<and> is_running t \<and> dl_consistent t"
proof -
  have "dl_inv env s" using assms by (simp add: dl_inv_def)
  then show ?thesis
    using dl.loop_returns [of env s] assms by (auto simp: dl_OnControlTimer_def dl_inv_def)
qed

lemma dl_tick_spec:
  assumes "dl_inv env s" "\<not> is_paused_by_sdk s" "J s"
    and "\<And>s. dl_inv env s \<Longrightarrow> J s \<Longrightarrow> flow_spec Q J (dl_body env s)"
  shows "\<exists>t. dl_OnControlTimer env s = Some (Inr t) \<and> dl_consistent t \<and> Q t"
  using dl.loop_spec [OF assms(1,3,4)] assms(1,2)
  by (auto simp: dl_OnControlTimer_def dl_inv_def)

lemma dl_Start_returns:
  assumes "\<not> is_running s" "driver_ok env s"
  shows "\<exists>t. dl_Start env s = Some (Inr t) \<and> is_running t \<and> dl_consistent t"
proof -
  obtain u where u: "start_state (s\<lparr>is_running := True\<rparr>) = Inr u"
    "http_agrees 0 u" "p2p_agrees u" "is_running u" "length (https u) = length (https s)"
    "has_p2p u = has_p2p s" "p2p_st u = P2P_NONE \<longleftrightarrow> \<not> has_p2p s"
    using start_state_agrees [of "s\<lparr>is_running := True\<rparr>"]
    by (auto simp: result_spec_iff has_p2p_def)
  have "dl_env_ok env (dl_reset_flags u)" "dl_consistent (dl_reset_flags u)" "is_running (dl_reset_flags u)"
    using u assms(2)
    by (auto simp: dl_env_ok_def driver_ok_def dl_consistent_def dl_reset_flags_def has_simps
        in_state_def agree_defs)
  from dl_tick [OF this(3,2,1)] show ?thesis
    using assms u(1) by (simp add: dl_Start_def ControlMode_Start_def)
qed

lemma dl_sdk:
  assumes "ResumeOrPause b s = Inr t" "is_running s" "dl_consistent s"
  shows "is_running t \<and> dl_consistent t"
proof (cases b)
  case True
  with assms ResumeOrPause_pauses [of s] show ?thesis by (simp add: dl_consistent_def)
next
  case False
  with assms ResumeOrPause_resumes [of s] have "t = s\<lparr>is_paused_by_sdk := False\<rparr>" by simp
  with assms show ?thesis by (simp add: dl_consistent_def agree_defs)
qed

lemma dl_reachable_inv: "dl_reachable s \<Longrightarrow> is_running s \<and> dl_consistent s"
proof (induction rule: dl_reachable.induct)
  case (start s0 env s)
  then show ?case using dl_Start_returns [of s0 env] by auto
next
  case (step s s')
  from step.hyps(2) step.IH show ?case
  proof (cases rule: dl_step.cases)
    case (tick env)
    then show ?thesis using dl_tick [of s env] step.IH by auto
  next
    case (sdk b)
    with step.IH dl_sdk [of b s] show ?thesis by simp
  next
    case (attach t)
    then show ?thesis using step.IH by (auto simp: dl_consistent_def agree_defs)
  qed
qed

section \<open>The bandwidth policy\<close>

text \<open>The states \<^verbatim>\<open>3300\<close>, \<^verbatim>\<open>3200\<close> and \<^verbatim>\<open>2200\<close>: both downloaders exist and P2P may be used.\<close>

definition dl_mixed :: "download_mode \<Rightarrow> bool" where
  "dl_mixed s = (in_state HTTP_PAUSING P2P_PAUSING s \<or> in_state HTTP_PAUSING P2P_DOWNLOADING s
     \<or> in_state HTTP_DOWNLOADING P2P_DOWNLOADING s)"

lemma dl_body_lift_mixed:
  assumes "dl_inv env s" "dl_mixed s"
    and "\<And>s. dl_inv env s \<Longrightarrow> in_state HTTP_PAUSING P2P_PAUSING s \<Longrightarrow> flow_spec Q dl_mixed (dl_3300 env s)"
    and "\<And>s. dl_inv env s \<Longrightarrow> in_state HTTP_PAUSING P2P_DOWNLOADING s \<Longrightarrow> flow_spec Q dl_mixed (dl_3200 env s)"
    and "\<And>s. dl_inv env s \<Longrightarrow> in_state HTTP_DOWNLOADING P2P_DOWNLOADING s \<Longrightarrow> flow_spec Q dl_mixed (dl_2200 env s)"
  shows "flow_spec Q dl_mixed (dl_body env s)"
proof (rule dl_body_lift [OF assms(1)])
  show "\<not> in_state HTTP_NONE P2P_NONE s"
    using assms(2) by (auto simp: dl_mixed_def in_state_def)
  fix m assume "dl_inv env (s\<lparr>p2p_dl := m\<rparr>)"
  moreover have "dl_mixed (s\<lparr>p2p_dl := m\<rparr>)"
    using assms(2) by (simp add: dl_mixed_def in_state_def)
  ultimately show "flow_spec Q dl_mixed (dl_dispatch env (s\<lparr>p2p_dl := m\<rparr>))"
    using assms(3-5) by (auto simp: dl_mixed_def dl_dispatch_in)
qed

lemma dl_limited_body:
  assumes "dl_inv env s" "dl_mixed s" "IsDownloadSpeedLimited env" "GetBWType env \<noteq> JBW_HTTP_MORE"
  shows "flow_spec (in_state HTTP_PAUSING P2P_DOWNLOADING) dl_mixed (dl_body env s)"
  using assms(1,2)
  by (rule dl_body_lift_mixed)
     (use assms(3,4) in \<open>auto simp: dl_mixed_def dl_block_defs target_specs dl_change_defs dl_inv_defs
        split: option.splits\<close>)

lemma dl_vip_body:
  assumes "dl_inv env s" "dl_mixed s" "\<not> IsDownloadSpeedLimited env" "GetBWType env = JBW_HTTP_PREFERRED"
  shows "flow_spec (in_state HTTP_DOWNLOADING P2P_DOWNLOADING) dl_mixed (dl_body env s)"
  using assms(1,2)
  by (rule dl_body_lift_mixed)
     (use assms(3,4) in \<open>auto simp: dl_mixed_def dl_block_defs target_specs dl_change_defs dl_inv_defs
        split: option.splits\<close>)

section \<open>The stale stability counter\<close>

text \<open>
  The three stops of an activation that leaves \<^verbatim>\<open>3200\<close> for \<^verbatim>\<open>2200\<close> with an HTTP stability counter
  that is still armed: \<^verbatim>\<open>3200\<close> with both counters expired, \<^verbatim>\<open>2200\<close> with the P2P counter disarmed,
  and \<^verbatim>\<open>3200\<close> again.
\<close>

definition dl_stale_env :: "env \<Rightarrow> bool" where
  "dl_stale_env env =
     (\<not> IsDownloadSpeedLimited env \<and> GetBWType env = JBW_NORMAL
      \<and> GetDownloadLevel env = POSITIVELY_DOWNLOAD_LEVEL \<and> GetConnectedPeersCount env \<noteq> 0
      \<and> p2p_speed env < 20 * 1024 \<and> http_speed env 0 = 0)"

definition dl_http_expired :: "env \<Rightarrow> download_mode \<Rightarrow> bool" where
  "dl_http_expired env s =
     (is_http_timer_reset s \<and> 2 * 1000 \<le> elapsed env (waiting_http_stable_timer_counter s))"

definition dl_p2p_expired :: "env \<Rightarrow> download_mode \<Rightarrow> bool" where
  "dl_p2p_expired env s =
     (is_p2p_timer_reset s \<and> 10 * 1000 \<le> elapsed env (waiting_p2p_stable_timer_counter s))"

definition dl_stale :: "env \<Rightarrow> download_mode \<Rightarrow> bool" where
  "dl_stale env s =
     (in_state HTTP_PAUSING P2P_DOWNLOADING s \<and> dl_p2p_expired env s \<and> dl_http_expired env s
      \<or> in_state HTTP_DOWNLOADING P2P_DOWNLOADING s \<and> dl_http_expired env s \<and> \<not> is_p2p_timer_reset s
      \<or> in_state HTTP_PAUSING P2P_DOWNLOADING s \<and> \<not> is_p2p_timer_reset s)"

lemmas dl_stale_defs = dl_stale_def dl_stale_env_def dl_http_expired_def dl_p2p_expired_def

lemma dl_stale_3200:
  assumes "dl_inv env s" "dl_stale_env env" "dl_stale env s" "in_state HTTP_PAUSING P2P_DOWNLOADING s"
  shows "flow_spec (in_state HTTP_PAUSING P2P_DOWNLOADING) (dl_stale env) (dl_3200 env s)"
  using assms
  by (auto simp: dl_stale_defs dl_block_defs target_specs dl_change_defs dl_inv_defs p2p_threshold_def
      split: option.splits)

lemma dl_stale_2200:
  assumes "dl_inv env s" "dl_stale_env env" "dl_stale env s" "in_state HTTP_DOWNLOADING P2P_DOWNLOADING s"
  shows "flow_spec (in_state HTTP_PAUSING P2P_DOWNLOADING) (dl_stale env) (dl_2200 env s)"
  using assms
  by (auto simp: dl_stale_defs dl_block_defs target_specs dl_change_defs dl_inv_defs
      split: option.splits)

lemma dl_stale_body:
  assumes "dl_inv env s" "dl_stale_env env" "dl_stale env s"
  shows "flow_spec (in_state HTTP_PAUSING P2P_DOWNLOADING) (dl_stale env) (dl_body env s)"
proof (rule dl_body_lift [OF assms(1)])
  show "\<not> in_state HTTP_NONE P2P_NONE s" using assms(3) by (auto simp: dl_stale_def in_state_def)
  fix m assume inv: "dl_inv env (s\<lparr>p2p_dl := m\<rparr>)"
  have st: "dl_stale env (s\<lparr>p2p_dl := m\<rparr>)"
    using assms(3) by (simp add: dl_stale_defs in_state_def)
  then have "in_state HTTP_PAUSING P2P_DOWNLOADING (s\<lparr>p2p_dl := m\<rparr>)
    \<or> in_state HTTP_DOWNLOADING P2P_DOWNLOADING (s\<lparr>p2p_dl := m\<rparr>)"
    by (auto simp: dl_stale_def)
  then show "flow_spec (in_state HTTP_PAUSING P2P_DOWNLOADING) (dl_stale env)
      (dl_dispatch env (s\<lparr>p2p_dl := m\<rparr>))"
    using dl_stale_3200 [OF inv assms(2) st] dl_stale_2200 [OF inv assms(2) st]
    by (auto simp: dl_dispatch_in)
qed

lemma dl_ticks_reachable:
  "dl_ticks envs s = Some (Inr t) \<Longrightarrow> dl_reachable s \<Longrightarrow>
     (\<And>env u. env \<in> set envs \<Longrightarrow> dl_env_ok env u) \<Longrightarrow> dl_reachable t"
proof (induction envs arbitrary: s)
  case (Cons env envs)
  then obtain u where u: "dl_OnControlTimer env s = Some (Inr u)" "dl_ticks envs u = Some (Inr t)"
    by (auto split: option.splits sum.splits)
  with Cons.prems have "dl_reachable u"
    by (auto intro: dl_reachable.step dl_step.tick)
  with u Cons show ?case by auto
qed simp

text \<open>The reachable state after \<^verbatim>\<open>Start\<close>, for the examples.\<close>

lemma dl_example:
  assumes "driver_ok (env_at 0) (dl_fresh hs p)"
  obtains s where "dl_Start (env_at 0) (dl_fresh hs p) = Some (Inr s)" "dl_reachable s"
  using dl_Start_returns [OF _ assms] dl_reachable.start [OF _ assms]
  by (force simp: dl_fresh_def)

lemma driver_ok_env_at: "driver_ok (env_at n) s"
  by (simp add: driver_ok_def env_at_def env0_def)

lemma dl_env_ok_env_at: "dl_env_ok (env_at n) s"
  by (simp add: dl_env_ok_def driver_ok_def env_at_def env0_def)

section \<open>Properties\<close>



text \<open>The state the download mode shows is the state its downloaders are in, in every
  reachable state: a source is marked downloading exactly when its downloader runs.\<close>

theorem dl_state_agrees_with_targets:
  assumes "dl_reachable s"
  shows "(http_st s = HTTP_DOWNLOADING \<longleftrightarrow> https s \<noteq> [] \<and> \<not> https s ! 0)
    \<and> (p2p_st s = P2P_DOWNLOADING \<longleftrightarrow> p2p_is_pausing s = Some False)"
  using dl_reachable_inv [OF assms]
  by (cases "http_st s"; cases "p2p_st s") (auto simp: dl_consistent_def agree_defs)

theorem dl_state_agrees_with_targets_witness:
  "\<exists>s. dl_reachable s \<and> p2p_st s = P2P_DOWNLOADING \<and> p2p_is_pausing s = Some False"
proof -
  obtain s where s: "dl_Start (env_at 0) (dl_fresh [] (Some p2p_target0)) = Some (Inr s)" "dl_reachable s"
    using dl_example [OF driver_ok_env_at] by blast
  have "map_option (map_sum id p2p_st) (dl_Start (env_at 0) (dl_fresh [] (Some p2p_target0)))
      = Some (Inr P2P_DOWNLOADING)"
    by code_simp
  with s have "p2p_st s = P2P_DOWNLOADING" by simp
  with dl_state_agrees_with_targets [OF s(2)] s(2) show ?thesis by blast
qed

text \<open>A timer activation never stops a download altogether: if HTTP or P2P is downloading
  before it, one of them is downloading after it.\<close>

theorem dl_keeps_downloading:
  assumes "dl_reachable s" "dl_env_ok env s" "downloading s"
  shows "\<exists>t. dl_OnControlTimer env s = Some (Inr t) \<and> downloading t"
proof (cases "is_paused_by_sdk s")
  case True
  with assms dl_reachable_inv show ?thesis by (simp add: dl_OnControlTimer_def)
next
  case False
  have "dl_inv env s" using dl_reachable_inv [OF assms(1)] assms(2) by (simp add: dl_inv_def)
  from dl_tick_spec [OF this False assms(3) dl_body_downloading] show ?thesis by blast
qed

theorem dl_keeps_downloading_witness:
  "\<exists>s t. dl_reachable s \<and> downloading s \<and> dl_OnControlTimer (env_at 9000) s = Some (Inr t)
     \<and> downloading t"
proof -
  obtain s where s: "dl_Start (env_at 0) (dl_fresh [] (Some p2p_target0)) = Some (Inr s)" "dl_reachable s"
    using dl_example [OF driver_ok_env_at] by blast
  have "map_option (map_sum id p2p_st) (dl_Start (env_at 0) (dl_fresh [] (Some p2p_target0)))
      = Some (Inr P2P_DOWNLOADING)"
    by code_simp
  with s have "downloading s" by (simp add: downloading_def)
  with dl_keeps_downloading [OF s(2) dl_env_ok_env_at this, of 9000] s(2) show ?thesis by blast
qed

text \<open>The policy under a speed limit: unless the bandwidth type is \<open>JBW_HTTP_MORE\<close>, one
  activation leads from \<^verbatim>\<open>3300\<close>, \<^verbatim>\<open>3200\<close> or \<^verbatim>\<open>2200\<close> to pure P2P, the state \<^verbatim>\<open>3200\<close> with HTTP paused.\<close>

theorem dl_speed_limit_policy:
  assumes "dl_inv env s" "\<not> is_paused_by_sdk s" "dl_mixed s"
    and "IsDownloadSpeedLimited env" "GetBWType env \<noteq> JBW_HTTP_MORE"
  shows "\<exists>t. dl_OnControlTimer env s = Some (Inr t) \<and> in_state HTTP_PAUSING P2P_DOWNLOADING t
    \<and> https t ! 0"
proof -
  have "\<exists>t. dl_OnControlTimer env s = Some (Inr t) \<and> dl_consistent t
      \<and> in_state HTTP_PAUSING P2P_DOWNLOADING t"
    by (rule dl_tick_spec [where J = dl_mixed, OF assms(1-3)]) (rule dl_limited_body [OF _ _ assms(4,5)])
  then show ?thesis by (auto simp: dl_consistent_def agree_defs in_state_def)
qed

definition dl_example_2200 :: download_mode where
  "dl_example_2200 = (dl_fresh [False] (Some (p2p_target0\<lparr>is_p2p_pausing := False\<rparr>)))
     \<lparr>http_st := HTTP_DOWNLOADING, p2p_st := P2P_DOWNLOADING, is_running := True\<rparr>"

lemma dl_example_2200_ok:
  "dl_inv (env_at n) dl_example_2200" "\<not> is_paused_by_sdk dl_example_2200" "dl_mixed dl_example_2200"
  by (simp_all add: dl_example_2200_def dl_fresh_def dl_mixed_def dl_inv_defs env_at_def env0_def
      p2p_target0_def)

theorem dl_speed_limit_policy_witness:
  "\<exists>t. dl_OnControlTimer ((env_at 7000)\<lparr>IsDownloadSpeedLimited := True\<rparr>) dl_example_2200 = Some (Inr t)
     \<and> in_state HTTP_PAUSING P2P_DOWNLOADING t \<and> https t ! 0"
  by (rule dl_speed_limit_policy)
     (simp_all add: dl_example_2200_def dl_fresh_def dl_mixed_def dl_inv_defs env_at_def env0_def
        p2p_target0_def)

text \<open>The policy for VIP downloads without a speed limit (\<open>JBW_HTTP_PREFERRED\<close>): one
  activation leads from \<^verbatim>\<open>3300\<close>, \<^verbatim>\<open>3200\<close> or \<^verbatim>\<open>2200\<close> to \<^verbatim>\<open>2200\<close>, both sources running.\<close>

theorem dl_vip_policy:
  assumes "dl_inv env s" "\<not> is_paused_by_sdk s" "dl_mixed s"
    and "\<not> IsDownloadSpeedLimited env" "GetBWType env = JBW_HTTP_PREFERRED"
  shows "\<exists>t. dl_OnControlTimer env s = Some (Inr t) \<and> in_state HTTP_DOWNLOADING P2P_DOWNLOADING t
    \<and> \<not> https t ! 0 \<and> p2p_is_pausing t = Some False"
proof -
  have "\<exists>t. dl_OnControlTimer env s = Some (Inr t) \<and> dl_consistent t
      \<and> in_state HTTP_DOWNLOADING P2P_DOWNLOADING t"
    by (rule dl_tick_spec [where J = dl_mixed, OF assms(1-3)]) (rule dl_vip_body [OF _ _ assms(4,5)])
  then show ?thesis by (auto simp: dl_consistent_def agree_defs in_state_def)
qed

theorem dl_vip_policy_witness:
  "\<exists>t. dl_OnControlTimer ((env_at 7000)\<lparr>GetBWType := JBW_HTTP_PREFERRED\<rparr>) dl_example_2200 = Some (Inr t)
     \<and> in_state HTTP_DOWNLOADING P2P_DOWNLOADING t \<and> \<not> https t ! 0 \<and> p2p_is_pausing t = Some False"
  by (rule dl_vip_policy)
     (simp_all add: dl_example_2200_def dl_fresh_def dl_mixed_def dl_inv_defs env_at_def env0_def
        p2p_target0_def)

text \<open>The waiting state \<^verbatim>\<open>3300\<close> is left after two seconds: once the connection counter has
  run for 2000 ms, the next activation ends with a source downloading.\<close>

theorem dl_leaves_3300:
  assumes "dl_reachable s" "dl_env_ok env s" "\<not> is_paused_by_sdk s"
    and "in_state HTTP_PAUSING P2P_PAUSING s" "is_p2p_connected_timer_reset s"
    and "2 * 1000 \<le> elapsed env (waiting_p2p_connected_timer_counter s)"
  shows "\<exists>t. dl_OnControlTimer env s = Some (Inr t) \<and> downloading t"
proof -
  let ?J = "\<lambda>u :: download_mode. downloading u \<or> (in_state HTTP_PAUSING P2P_PAUSING u
    \<and> is_p2p_connected_timer_reset u \<and> 2 * 1000 \<le> elapsed env (waiting_p2p_connected_timer_counter u))"
  have inv: "dl_inv env s" using dl_reachable_inv [OF assms(1)] assms(2) by (simp add: dl_inv_def)
  have "flow_spec downloading ?J (dl_body env u)" if "dl_inv env u" "?J u" for u
  proof (cases "downloading u")
    case True
    from dl_body_downloading [OF that(1) True] show ?thesis by (rule flow_spec_mono) auto
  next
    case False
    with that(2) have u: "in_state HTTP_PAUSING P2P_PAUSING u" "is_p2p_connected_timer_reset u"
      "2 * 1000 \<le> elapsed env (waiting_p2p_connected_timer_counter u)" by auto
    show ?thesis
    proof (rule dl_body_lift [OF that(1)])
      show "\<not> in_state HTTP_NONE P2P_NONE u" using u(1) by (simp add: in_state_def)
      fix m assume "dl_inv env (u\<lparr>p2p_dl := m\<rparr>)"
      then have "flow_spec downloading downloading (dl_3300 env (u\<lparr>p2p_dl := m\<rparr>))"
        by (rule dl_3300_waited) (use u in \<open>simp_all add: in_state_def\<close>)
      with u(1) show "flow_spec downloading ?J (dl_dispatch env (u\<lparr>p2p_dl := m\<rparr>))"
        by (auto simp: dl_dispatch_in in_state_def intro: flow_spec_mono)
    qed
  qed
  with dl_tick_spec [of env s ?J downloading] inv assms(3-) show ?thesis by blast
qed

theorem dl_leaves_3300_witness:
  "\<exists>s t. dl_reachable s \<and> in_state HTTP_PAUSING P2P_PAUSING s
     \<and> dl_OnControlTimer (env_at 3000) s = Some (Inr t) \<and> downloading t"
proof -
  let ?run = "dl_Start (env_at 0) (dl_fresh [True] (Some p2p_target0))"
  obtain s where s: "?run = Some (Inr s)" "dl_reachable s"
    using dl_example [OF driver_ok_env_at] by blast
  have "map_option (map_sum id (\<lambda>s. (http_st s, p2p_st s, is_paused_by_sdk s,
      is_p2p_connected_timer_reset s, waiting_p2p_connected_timer_counter s))) ?run
      = Some (Inr (HTTP_PAUSING, P2P_PAUSING, False, True, 0))"
    by code_simp
  with s have st: "in_state HTTP_PAUSING P2P_PAUSING s" "\<not> is_paused_by_sdk s"
    "is_p2p_connected_timer_reset s" "waiting_p2p_connected_timer_counter s = 0"
    by (simp_all add: in_state_def)
  have "2 * 1000 \<le> elapsed (env_at 3000) (waiting_p2p_connected_timer_counter s)"
    by (simp add: st(4) env_at_def env0_def)
  from dl_leaves_3300 [OF s(2) dl_env_ok_env_at st(2,1,3) this] s(2) st(1) show ?thesis by blast
qed

text \<open>A late P2P downloader breaks the assertion of \<^verbatim>\<open>ChangeTo2000\<close>: a download with
  \<open>JBW_HTTP_MORE\<close> starts in \<^verbatim>\<open>2000\<close>, is paused by the SDK (state \<^verbatim>\<open>3000\<close>), obtains its P2P downloader
  while paused and is resumed; the next activation runs into the failed assertion.\<close>

theorem dl_late_p2p_asserts:
  "\<exists>s1 s2 s3.
     dl_Start (env0\<lparr>GetBWType := JBW_HTTP_MORE\<rparr>) (dl_fresh [True] None) = Some (Inr s1) \<and>
     in_state HTTP_DOWNLOADING P2P_NONE s1 \<and>
     ResumeOrPause True s1 = Inr s2 \<and>
     ResumeOrPause False (s2\<lparr>p2p_dl := Some p2p_target0\<rparr>) = Inr s3 \<and>
     dl_OnControlTimer (env0\<lparr>GetBWType := JBW_HTTP_MORE\<rparr>) s3 = Some (Inl AssertionFailed)"
proof -
  let ?env = "env0\<lparr>GetBWType := JBW_HTTP_MORE\<rparr>"
  let ?s1 = "(dl_fresh [False] None)\<lparr>http_st := HTTP_DOWNLOADING, is_running := True\<rparr>"
  let ?s2 = "(dl_fresh [True] None)\<lparr>http_st := HTTP_PAUSING, is_running := True, is_paused_by_sdk := True\<rparr>"
  let ?s3 = "?s2\<lparr>p2p_dl := Some p2p_target0, is_paused_by_sdk := False\<rparr>"
  have "dl_Start ?env (dl_fresh [True] None) = Some (Inr ?s1)" by code_simp
  moreover have "in_state HTTP_DOWNLOADING P2P_NONE ?s1" by code_simp
  moreover have "ResumeOrPause True ?s1 = Inr ?s2" by code_simp
  moreover have "ResumeOrPause False (?s2\<lparr>p2p_dl := Some p2p_target0\<rparr>) = Inr ?s3" by code_simp
  moreover have "dl_OnControlTimer ?env ?s3 = Some (Inl AssertionFailed)" by code_simp
  ultimately show ?thesis by blast
qed

text \<open>The HTTP stability counter is stale when \<^verbatim>\<open>2200\<close> is entered again: with slow P2P for
  ten seconds, no HTTP traffic (HTTP has been paused) and the counter still armed from an
  earlier visit, the switch from \<^verbatim>\<open>3200\<close> to \<^verbatim>\<open>2200\<close> is undone in the same activation, and HTTP
  is paused again instead of raising the speed.\<close>

theorem dl_stale_http_counter:
  assumes "dl_reachable s" "dl_env_ok env s" "\<not> is_paused_by_sdk s"
    and "in_state HTTP_PAUSING P2P_DOWNLOADING s" "dl_stale_env env"
    and "dl_p2p_expired env s" "dl_http_expired env s"
  shows "\<exists>t. dl_OnControlTimer env s = Some (Inr t) \<and> in_state HTTP_PAUSING P2P_DOWNLOADING t
    \<and> https t ! 0"
proof -
  have inv: "dl_inv env s" using dl_reachable_inv [OF assms(1)] assms(2) by (simp add: dl_inv_def)
  have st: "dl_stale env s" using assms(4,6,7) by (simp add: dl_stale_def)
  have "\<exists>t. dl_OnControlTimer env s = Some (Inr t) \<and> dl_consistent t
      \<and> in_state HTTP_PAUSING P2P_DOWNLOADING t"
    by (rule dl_tick_spec [where J = "dl_stale env", OF inv assms(3) st])
       (rule dl_stale_body [OF _ assms(5)])
  then show ?thesis by (auto simp: dl_consistent_def agree_defs in_state_def)
qed

text \<open>
  The run of the witness: a peer connects (\<^verbatim>\<open>3300\<close> to \<^verbatim>\<open>3200\<close>), ten seconds of slow P2P (to
  \<^verbatim>\<open>2200\<close>, arming the HTTP counter), five seconds of fast P2P (back to \<^verbatim>\<open>3200\<close>).
\<close>

definition dl_stale_run :: "env list" where
  "dl_stale_run = [env_at 1000, env_at 11000,
     (env_at 16000)\<lparr>p2p_speed := 40960, http_speed := (\<lambda>_. 10240)\<rparr>]"

theorem dl_stale_http_counter_witness:
  "\<exists>s t. dl_reachable s \<and> dl_OnControlTimer (env_at 26000) s = Some (Inr t)
     \<and> in_state HTTP_PAUSING P2P_DOWNLOADING t \<and> https t ! 0"
proof -
  let ?start = "dl_Start (env_at 0) (dl_fresh [True] (Some p2p_target0))"
  obtain s0 where s0: "?start = Some (Inr s0)" "dl_reachable s0"
    using dl_example [OF driver_ok_env_at] by blast
  have "map_option (map_sum id (\<lambda>s. (http_st s, p2p_st s, is_paused_by_sdk s,
      is_p2p_timer_reset s, waiting_p2p_stable_timer_counter s,
      is_http_timer_reset s, waiting_http_stable_timer_counter s)))
      (case ?start of Some (Inr s) \<Rightarrow> dl_ticks dl_stale_run s | r \<Rightarrow> r)
      = Some (Inr (HTTP_PAUSING, P2P_DOWNLOADING, False, True, 16000, True, 16000))"
    by code_simp
  with s0 obtain s where s: "dl_ticks dl_stale_run s0 = Some (Inr s)" and st:
    "in_state HTTP_PAUSING P2P_DOWNLOADING s" "\<not> is_paused_by_sdk s"
    "is_p2p_timer_reset s" "waiting_p2p_stable_timer_counter s = 16000"
    "is_http_timer_reset s" "waiting_http_stable_timer_counter s = 16000"
    by (auto simp: in_state_def map_sum_eq_Inr)
  have "dl_reachable s"
    using s s0(2) by (rule dl_ticks_reachable)
      (auto simp: dl_stale_run_def env_at_def env0_def dl_env_ok_def driver_ok_def)
  moreover have "dl_stale_env (env_at 26000)" "dl_p2p_expired (env_at 26000) s"
    "dl_http_expired (env_at 26000) s"
    using st by (simp_all add: dl_stale_defs env_at_def env0_def)
  ultimately show ?thesis
    using dl_stale_http_counter [of s "env_at 26000"] dl_env_ok_env_at st by blast
qed

end
