(* ===== verification/PushMode.thy ===== *)
theory PushMode
  imports SwitchBase
begin

text \<open>
  \<^verbatim>\<open>SwitchController::OpenServicePushControlMode\<close>, the state machine of background pushes
  (\<^verbatim>\<open>p2sp/download/SwitchControllerOpenServicePushControlMode.cpp\<close>): P2P is tried first for ten
  seconds (timer X), then judged after twenty more (timer Y); afterwards the states \<^verbatim>\<open>3200\<close>,
  \<^verbatim>\<open>2200\<close> and \<^verbatim>\<open>2300\<close> follow the available peers and the P2P speed with a hysteresis.

  The lemmas show that an activation returns without a fault, what holds of the state it
  ends in, and that a pause by the SDK while a timer runs leads to a state the machine does
  not know.
\<close>

section \<open>State\<close>

record push_mode = control_mode +
  time_counter_x :: moment
  time_counter_y :: moment
  x_ms :: u32
  y_ms :: u32

definition in_timed_state ::
  "HttpState \<Rightarrow> P2PState \<Rightarrow> TimerUsingState \<Rightarrow> TimerState \<Rightarrow> 'a control_mode_scheme \<Rightarrow> bool" where
  "in_timed_state h p u t s = (http_st s = h \<and> p2p_st s = p \<and> timer_using s = u \<and> timer_st s = t)"

section \<open>The states of the loop\<close>

definition push_3300 :: "env \<Rightarrow> push_mode \<Rightarrow> push_mode flow result" where
  "push_3300 env s =
     continue_with (seq [p2p_Resume,
       modify (\<lambda>s. s\<lparr>time_counter_x := now env, x_ms := 10000\<rparr>),
       set_p2p P2P_DOWNLOADING, set_timer TIMER_USING_X TIMER_STARTED] s)"

definition push_3211 :: "env \<Rightarrow> push_mode \<Rightarrow> push_mode flow result" where
  "push_3211 env s =
     (if x_ms s \<le> elapsed env (time_counter_x s) then Inr (Continue (s\<lparr>timer_st := TIMER_STOPPED\<rparr>))
      else Inr (Break s))"

definition push_3212 :: "env \<Rightarrow> push_mode \<Rightarrow> push_mode flow result" where
  "push_3212 env s =
     (if \<not> has_p2p s then Inl NullPointer
      else if GetConnectedPeersCount env = 0 \<or> GetPooledPeersCount env = 0 then
        continue_with (seq [http_Resume, p2p_Pause, set_http HTTP_DOWNLOADING, set_p2p P2P_PAUSING,
          set_timer TIMER_USING_NONE TIMER_NONE] s)
      else
        Inr (Continue (s\<lparr>y_ms := 20 * 1000, time_counter_y := now env,
          timer_using := TIMER_USING_Y, timer_st := TIMER_STARTED\<rparr>)))"

definition push_3221 :: "env \<Rightarrow> push_mode \<Rightarrow> push_mode flow result" where
  "push_3221 env s =
     (if y_ms s \<le> elapsed env (time_counter_y s) then Inr (Continue (s\<lparr>timer_st := TIMER_STOPPED\<rparr>))
      else Inr (Break s))"

definition push_3222 :: "env \<Rightarrow> push_mode \<Rightarrow> push_mode flow result" where
  "push_3222 env s =
     (if \<not> has_p2p s then Inl NullPointer
      else if 1 \<le> GetActivePeersCount env \<and> 10 * 1024 \<le> p2p_speed env then
        continue_with (set_timer TIMER_USING_NONE TIMER_NONE s)
      else if GetActivePeersCount env = 0 then
        continue_with (seq [http_Resume, p2p_Pause, set_http HTTP_DOWNLOADING, set_p2p P2P_PAUSING,
          set_timer TIMER_USING_NONE TIMER_NONE] s)
      else
        continue_with (seq [http_Resume, set_http HTTP_DOWNLOADING,
          set_timer TIMER_USING_NONE TIMER_NONE] s))"

definition push_2200 :: "env \<Rightarrow> push_mode \<Rightarrow> push_mode flow result" where
  "push_2200 env s =
     (if \<not> has_p2p s \<or> \<not> has_http s then Inl NullPointer
      else if GetAvailableBlockPeerCount env = 0 then
        continue_with (seq [p2p_Pause, set_p2p P2P_PAUSING] s)
      else if 20 * 1024 \<le> p2p_speed env then
        continue_with (seq [http_Pause, set_http HTTP_PAUSING] s)
      else Inr (Break s))"

definition push_3200 :: "env \<Rightarrow> push_mode \<Rightarrow> push_mode flow result" where
  "push_3200 env s =
     (if \<not> has_p2p s then Inl NullPointer
      else if GetAvailableBlockPeerCount env = 0 then
        continue_with (seq [http_Resume, p2p_Pause, set_http HTTP_DOWNLOADING, set_p2p P2P_PAUSING] s)
      else if p2p_speed env < 10 * 1024 then
        continue_with (seq [http_Resume, set_http HTTP_DOWNLOADING] s)
      else Inr (Break s))"

definition push_2300 :: "env \<Rightarrow> push_mode \<Rightarrow> push_mode flow result" where
  "push_2300 env s =
     (if \<not> has_p2p s then Inl NullPointer
      else if 1 \<le> GetAvailableBlockPeerCount env then
        continue_with (seq [p2p_Resume, set_p2p P2P_DOWNLOADING] s)
      else Inr (Break s))"

definition push_body :: "env \<Rightarrow> push_mode \<Rightarrow> push_mode flow result" where
  "push_body env s0 =
     and_then (ensure (has_http s0) s0) (\<lambda>s.
     if in_timed_state HTTP_PAUSING P2P_PAUSING TIMER_USING_NONE TIMER_NONE s then push_3300 env s
     else if in_timed_state HTTP_PAUSING P2P_DOWNLOADING TIMER_USING_X TIMER_STARTED s then push_3211 env s
     else if in_timed_state HTTP_PAUSING P2P_DOWNLOADING TIMER_USING_X TIMER_STOPPED s then push_3212 env s
     else if in_timed_state HTTP_PAUSING P2P_DOWNLOADING TIMER_USING_Y TIMER_STARTED s then push_3221 env s
     else if in_timed_state HTTP_PAUSING P2P_DOWNLOADING TIMER_USING_Y TIMER_STOPPED s then push_3222 env s
     else if in_timed_state HTTP_DOWNLOADING P2P_DOWNLOADING TIMER_USING_NONE TIMER_NONE s then push_2200 env s
     else if in_timed_state HTTP_PAUSING P2P_DOWNLOADING TIMER_USING_NONE TIMER_NONE s then push_3200 env s
     else if in_timed_state HTTP_DOWNLOADING P2P_PAUSING TIMER_USING_NONE TIMER_NONE s then push_2300 env s
     else Inl AssertionFailed)"

section \<open>Member functions\<close>

definition push_OnControlTimer :: "env \<Rightarrow> push_mode \<Rightarrow> push_mode result option" where
  "push_OnControlTimer env s =
     (if \<not> is_running s then Some (Inr s)
      else if is_paused_by_sdk s then Some (Inr s)
      else run_loop (push_body env) s)"

definition push_Start :: "env \<Rightarrow> push_mode \<Rightarrow> push_mode result option" where
  "push_Start env s =
     (if is_running s then Some (Inr s)
      else
        case seq [ControlMode_Start, start_state,
                  (\<lambda>s. ensure (has_http s) s), (\<lambda>s. ensure (has_p2p s) s),
                  p2p_SetDownloadPriority PUSH_PRIORITY, p2p_SetDownloadMode FAST_MODE] s of
          Inl e \<Rightarrow> Some (Inl e)
        | Inr s' \<Rightarrow> push_OnControlTimer env s')"

definition push_Stop :: "push_mode action" where
  "push_Stop s = (if \<not> is_running s then Inr s else ControlMode_Stop s)"

section \<open>Invariant and rank\<close>

definition push_known :: "push_mode \<Rightarrow> bool" where
  "push_known s =
     (in_timed_state HTTP_PAUSING P2P_PAUSING TIMER_USING_NONE TIMER_NONE s
      \<or> in_timed_state HTTP_PAUSING P2P_DOWNLOADING TIMER_USING_X TIMER_STARTED s
      \<or> in_timed_state HTTP_PAUSING P2P_DOWNLOADING TIMER_USING_X TIMER_STOPPED s
      \<or> in_timed_state HTTP_PAUSING P2P_DOWNLOADING TIMER_USING_Y TIMER_STARTED s
      \<or> in_timed_state HTTP_PAUSING P2P_DOWNLOADING TIMER_USING_Y TIMER_STOPPED s
      \<or> in_timed_state HTTP_DOWNLOADING P2P_DOWNLOADING TIMER_USING_NONE TIMER_NONE s
      \<or> in_timed_state HTTP_PAUSING P2P_DOWNLOADING TIMER_USING_NONE TIMER_NONE s
      \<or> in_timed_state HTTP_DOWNLOADING P2P_PAUSING TIMER_USING_NONE TIMER_NONE s)"

definition push_inv :: "env \<Rightarrow> push_mode \<Rightarrow> bool" where
  "push_inv env s = (is_running s \<and> push_known s \<and> http_agrees 0 s \<and> p2p_agrees s)"

text \<open>
  The number of further passes: at most five to get through the timers, and at most two
  between \<^verbatim>\<open>2300\<close>, \<^verbatim>\<open>2200\<close> and \<^verbatim>\<open>3200\<close>, whose guards exclude each other while the inputs
  stay the same.
\<close>

definition push_rank :: "env \<Rightarrow> push_mode \<Rightarrow> nat" where
  "push_rank env s =
     (case (timer_using s, timer_st s) of
        (TIMER_USING_X, TIMER_STARTED) \<Rightarrow> 6
      | (TIMER_USING_X, _) \<Rightarrow> 5
      | (TIMER_USING_Y, TIMER_STARTED) \<Rightarrow> 4
      | (TIMER_USING_Y, _) \<Rightarrow> 3
      | _ \<Rightarrow>
        if in_state HTTP_PAUSING P2P_PAUSING s then 7
        else if GetAvailableBlockPeerCount env = 0 then of_bool (p2p_st s = P2P_DOWNLOADING)
        else if in_state HTTP_DOWNLOADING P2P_PAUSING s then 2
        else if in_state HTTP_DOWNLOADING P2P_DOWNLOADING s then of_bool (20 * 1024 \<le> p2p_speed env)
        else of_bool (p2p_speed env < 10 * 1024))"

lemmas push_block_defs = push_3300_def push_3211_def push_3212_def push_3221_def push_3222_def
  push_2200_def push_3200_def push_2300_def

lemmas push_inv_defs = push_inv_def push_known_def agree_defs in_timed_state_def in_state_def has_simps

lemmas push_specs = push_inv_defs target_specs push_block_defs push_rank_def

section \<open>One pass\<close>

text \<open>What the state of the machine satisfies when a pass breaks: the hysteresis.\<close>

definition push_settled :: "env \<Rightarrow> push_mode \<Rightarrow> bool" where
  "push_settled env s =
     (timer_using s = TIMER_USING_NONE \<longrightarrow>
        (if in_state HTTP_DOWNLOADING P2P_PAUSING s then GetAvailableBlockPeerCount env = 0
         else if in_state HTTP_DOWNLOADING P2P_DOWNLOADING s then
           GetAvailableBlockPeerCount env \<noteq> 0 \<and> p2p_speed env < 20 * 1024
         else if in_state HTTP_PAUSING P2P_DOWNLOADING s then
           GetAvailableBlockPeerCount env \<noteq> 0 \<and> 10 * 1024 \<le> p2p_speed env
         else False))"

definition push_post :: "env \<Rightarrow> push_mode \<Rightarrow> push_mode flow result \<Rightarrow> bool" where
  "push_post env s =
     flow_spec (\<lambda>t. push_inv env t \<and> push_settled env t \<and> downloading t)
       (\<lambda>t. push_inv env t \<and> push_rank env t < push_rank env s)"

lemma push_gap: "p2p_speed env < 10240 \<Longrightarrow> \<not> 20480 \<le> p2p_speed env"
proof
  assume "p2p_speed env < 10240" "20480 \<le> p2p_speed env"
  then have "(20480 :: u32) < 10240" by (rule le_less_trans [rotated])
  then show False by simp
qed

lemma push_body_post:
  assumes "push_inv env s"
  shows "push_post env s (push_body env s)"
proof -
  from assms consider
     "in_timed_state HTTP_PAUSING P2P_PAUSING TIMER_USING_NONE TIMER_NONE s"
   | "in_timed_state HTTP_PAUSING P2P_DOWNLOADING TIMER_USING_X TIMER_STARTED s"
   | "in_timed_state HTTP_PAUSING P2P_DOWNLOADING TIMER_USING_X TIMER_STOPPED s"
   | "in_timed_state HTTP_PAUSING P2P_DOWNLOADING TIMER_USING_Y TIMER_STARTED s"
   | "in_timed_state HTTP_PAUSING P2P_DOWNLOADING TIMER_USING_Y TIMER_STOPPED s"
   | "in_timed_state HTTP_DOWNLOADING P2P_DOWNLOADING TIMER_USING_NONE TIMER_NONE s"
   | "in_timed_state HTTP_PAUSING P2P_DOWNLOADING TIMER_USING_NONE TIMER_NONE s"
   | "in_timed_state HTTP_DOWNLOADING P2P_PAUSING TIMER_USING_NONE TIMER_NONE s"
    unfolding push_inv_def push_known_def by blast
  then show ?thesis
    using assms push_gap [of env]
    by cases (auto simp: push_post_def push_body_def push_specs push_settled_def downloading_def
        word_ge_1 split: option.splits)
qed

interpretation push: control_loop push_body push_inv push_rank
proof
  fix env s assume "push_inv env s"
  from push_body_post [OF this]
  show "flow_spec (push_inv env) (\<lambda>t. push_inv env t \<and> push_rank env t < push_rank env s) (push_body env s)"
    unfolding push_post_def by (rule flow_spec_mono) auto
qed

lemma push_tick:
  assumes "push_inv env s" "\<not> is_paused_by_sdk s"
  shows "\<exists>t. push_OnControlTimer env s = Some (Inr t) \<and> push_inv env t \<and> push_settled env t \<and> downloading t"
proof -
  have "flow_spec (\<lambda>t. push_settled env t \<and> downloading t) (\<lambda>_. True) (push_body env u)"
    if "push_inv env u" for u
    using push_body_post [OF that] unfolding push_post_def by (rule flow_spec_mono) auto
  then show ?thesis
    using push.loop_spec [where J = "\<lambda>_. True", OF assms(1)] assms
    by (simp add: push_OnControlTimer_def push_inv_def)
qed

lemma push_inv_env: "push_inv env s \<longleftrightarrow> push_inv env' s"
  by (simp add: push_inv_def)

section \<open>Runs\<close>

text \<open>
  \<^verbatim>\<open>Start\<close> with both downloaders present (its assertions), then timer activations and pauses or
  resumptions by the SDK, the pauses in states without a running timer.
\<close>

definition push_fresh :: push_mode where
  "push_fresh = \<lparr>http_st = HTTP_NONE, p2p_st = P2P_NONE, timer_using = TIMER_USING_NONE,
     timer_st = TIMER_NONE, rid_st = RID_NONE, is_running = False, is_paused_by_sdk = False,
     https = [True], p2p_dl = Some p2p_target0, notices = [],
     time_counter_x = 0, time_counter_y = 0, x_ms = 0, y_ms = 0\<rparr>"

inductive push_step :: "push_mode \<Rightarrow> push_mode \<Rightarrow> bool" where
  tick: "push_OnControlTimer env s = Some (Inr s') \<Longrightarrow> push_step s s'"
| pause: "timer_using s = TIMER_USING_NONE \<Longrightarrow> ResumeOrPause True s = Inr s' \<Longrightarrow> push_step s s'"
| resume: "ResumeOrPause False s = Inr s' \<Longrightarrow> push_step s s'"

inductive push_reachable :: "push_mode \<Rightarrow> bool" where
  start: "\<not> is_running s0 \<Longrightarrow> has_http s0 \<Longrightarrow> has_p2p s0 \<Longrightarrow> \<not> is_paused_by_sdk s0 \<Longrightarrow>
    push_Start env s0 = Some (Inr s) \<Longrightarrow> push_reachable s"
| step: "push_reachable s \<Longrightarrow> push_step s s' \<Longrightarrow> push_reachable s'"

lemma push_Start_returns:
  assumes "\<not> is_running s" "has_http s" "has_p2p s" "\<not> is_paused_by_sdk s"
  shows "\<exists>t. push_Start env s = Some (Inr t) \<and> push_inv env t \<and> push_settled env t \<and> downloading t"
proof -
  have "result_spec (\<lambda>u. push_inv env u \<and> \<not> is_paused_by_sdk u)
     (seq [ControlMode_Start, start_state, (\<lambda>s. ensure (has_http s) s), (\<lambda>s. ensure (has_p2p s) s),
        p2p_SetDownloadPriority PUSH_PRIORITY, p2p_SetDownloadMode FAST_MODE] s)"
    using assms
    by (auto simp: ControlMode_Start_def start_state_def target_specs push_inv_defs)
  then obtain u where "push_inv env u" "\<not> is_paused_by_sdk u" and u:
     "seq [ControlMode_Start, start_state, (\<lambda>s. ensure (has_http s) s), (\<lambda>s. ensure (has_p2p s) s),
        p2p_SetDownloadPriority PUSH_PRIORITY, p2p_SetDownloadMode FAST_MODE] s = Inr u"
    unfolding result_spec_iff by blast
  moreover have "push_Start env s = push_OnControlTimer env u"
    using assms(1) by (simp only: push_Start_def u sum.case if_False)
  ultimately show ?thesis using push_tick [of env u] by simp
qed

lemma push_pause:
  assumes "push_inv env s" "ResumeOrPause True s = Inr t" "timer_using s = TIMER_USING_NONE"
  shows "push_inv env t"
proof -
  have "result_spec (push_inv env) (ResumeOrPause True s)"
    using assms(1,3) by (auto simp: ResumeOrPause_def push_inv_defs target_specs)
  with assms(2) show ?thesis by simp
qed

lemma push_reachable_inv: "push_reachable s \<Longrightarrow> push_inv env s"
proof (induction rule: push_reachable.induct)
  case (start s0 env' s)
  then show ?case using push_Start_returns [of s0 env'] push_inv_env by auto
next
  case (step s s')
  from step.hyps(2) show ?case
  proof (cases rule: push_step.cases)
    case (tick env')
    show ?thesis
    proof (cases "is_paused_by_sdk s")
      case True
      with tick step.IH show ?thesis by (auto simp: push_OnControlTimer_def push_inv_def)
    next
      case False
      with tick push_tick [of env' s] step.IH push_inv_env show ?thesis by fastforce
    qed
  next
    case pause
    with step.IH show ?thesis by (blast intro: push_pause)
  next
    case resume
    with step.IH have "s' = s\<lparr>is_paused_by_sdk := False\<rparr>"
      by (simp add: ResumeOrPause_resumes push_inv_def)
    with step.IH show ?thesis by (simp add: push_inv_defs)
  qed
qed

section \<open>Properties\<close>

text \<open>A timer activation of the push mode returns: in every reachable state and for all
  inputs the loop ends without a failed assertion or an empty target, something is
  downloading, and the machine is in a state it knows.\<close>

theorem push_tick_returns:
  assumes "push_reachable s" "\<not> is_paused_by_sdk s"
  shows "\<exists>t. push_OnControlTimer env s = Some (Inr t) \<and> push_known t \<and> downloading t
    \<and> http_agrees 0 t \<and> p2p_agrees t"
  using push_tick [OF push_reachable_inv [OF assms(1)] assms(2)] by (auto simp: push_inv_def)

lemma push_example:
  obtains s where "push_Start (env_at 0) push_fresh = Some (Inr s)" "push_reachable s"
    "\<not> is_paused_by_sdk s" "timer_using s = TIMER_USING_X"
proof -
  have ok: "\<not> is_running push_fresh" "has_http push_fresh" "has_p2p push_fresh"
    "\<not> is_paused_by_sdk push_fresh"
    by (simp_all add: push_fresh_def has_http_def has_p2p_def)
  obtain s where s: "push_Start (env_at 0) push_fresh = Some (Inr s)"
    using push_Start_returns [OF ok] by blast
  have "map_option (map_sum id (\<lambda>s. (is_paused_by_sdk s, timer_using s)))
      (push_Start (env_at 0) push_fresh) = Some (Inr (False, TIMER_USING_X))"
    by code_simp
  with s show ?thesis
    using that [OF s push_reachable.start [OF ok s]] by simp
qed

theorem push_tick_returns_witness:
  "\<exists>s t. push_reachable s \<and> push_OnControlTimer (env_at 10000) s = Some (Inr t)
     \<and> push_known t \<and> downloading t \<and> http_agrees 0 t \<and> p2p_agrees t"
proof -
  obtain s where s: "push_reachable s" "\<not> is_paused_by_sdk s" using push_example by blast
  from push_tick_returns [OF s, of "env_at 10000"] s(1) show ?thesis by blast
qed

text \<open>The hysteresis of the push mode: once the start-up timers are over, an activation
  ends in \<^verbatim>\<open>2300\<close> only without available peers, in \<^verbatim>\<open>2200\<close> only with peers and a P2P speed below
  20 KB/s, in \<^verbatim>\<open>3200\<close> only with peers and a P2P speed of at least 10 KB/s.\<close>

theorem push_hysteresis:
  assumes "push_reachable s" "\<not> is_paused_by_sdk s"
    and "push_OnControlTimer env s = Some (Inr t)" "timer_using t = TIMER_USING_NONE"
  shows "(in_state HTTP_DOWNLOADING P2P_PAUSING t \<and> GetAvailableBlockPeerCount env = 0)
    \<or> (in_state HTTP_DOWNLOADING P2P_DOWNLOADING t \<and> GetAvailableBlockPeerCount env \<noteq> 0
        \<and> p2p_speed env < 20 * 1024)
    \<or> (in_state HTTP_PAUSING P2P_DOWNLOADING t \<and> GetAvailableBlockPeerCount env \<noteq> 0
        \<and> 10 * 1024 \<le> p2p_speed env)"
  using push_tick [OF push_reachable_inv [OF assms(1)] assms(2), of env] assms(3,4)
  by (auto simp: push_settled_def split: if_splits)

theorem push_hysteresis_witness:
  "\<exists>s t. push_reachable s \<and> push_OnControlTimer ((env_at 10000)\<lparr>GetConnectedPeersCount := 0\<rparr>) s = Some (Inr t)
     \<and> in_state HTTP_DOWNLOADING P2P_DOWNLOADING t"
proof -
  let ?env = "(env_at 10000)\<lparr>GetConnectedPeersCount := 0\<rparr>"
  obtain s where s: "push_Start (env_at 0) push_fresh = Some (Inr s)" "push_reachable s"
    "\<not> is_paused_by_sdk s" using push_example by blast
  have "map_option (map_sum id timer_using) (case push_Start (env_at 0) push_fresh of
      Some (Inr s) \<Rightarrow> push_OnControlTimer ?env s | r \<Rightarrow> r) = Some (Inr TIMER_USING_NONE)"
    by code_simp
  with s(1) obtain t where t: "push_OnControlTimer ?env s = Some (Inr t)" "timer_using t = TIMER_USING_NONE"
    by (auto simp: map_sum_eq_Inr)
  from push_hysteresis [OF s(2,3) t] s(2) t(1) show ?thesis
    by (auto simp: env_at_def env0_def)
qed

text \<open>Pausing a push while a start-up timer runs breaks it: \<^verbatim>\<open>ResumeOrPause\<close> records
  \<^verbatim>\<open>33\<close> but leaves the timer fields, and after the resumption the next activation finds a
  state it does not know (the assertion at the end of the loop).\<close>

theorem push_pause_during_timer_asserts:
  assumes "push_reachable s" "\<not> is_paused_by_sdk s" "timer_using s \<noteq> TIMER_USING_NONE"
  shows "\<exists>s1 s2. ResumeOrPause True s = Inr s1 \<and> ResumeOrPause False s1 = Inr s2
    \<and> push_OnControlTimer env s2 = Some (Inl AssertionFailed)"
proof -
  have inv: "push_inv env s" by (rule push_reachable_inv [OF assms(1)])
  have "result_spec (\<lambda>s1. result_spec (\<lambda>s2. push_body env s2 = Inl AssertionFailed \<and> is_running s2
      \<and> \<not> is_paused_by_sdk s2) (ResumeOrPause False s1)) (ResumeOrPause True s)"
    using inv assms(3)
    by (auto simp: ResumeOrPause_def push_inv_defs target_specs push_body_def)
  then obtain s1 s2 where "ResumeOrPause True s = Inr s1" "ResumeOrPause False s1 = Inr s2"
    "push_body env s2 = Inl AssertionFailed" "is_running s2" "\<not> is_paused_by_sdk s2"
    unfolding result_spec_iff by blast
  moreover from this have "push_OnControlTimer env s2 = Some (Inl AssertionFailed)"
    by (simp add: push_OnControlTimer_def run_loop_Inl)
  ultimately show ?thesis by blast
qed

theorem push_pause_during_timer_asserts_witness:
  "\<exists>s s1 s2. push_reachable s \<and> ResumeOrPause True s = Inr s1 \<and> ResumeOrPause False s1 = Inr s2
    \<and> push_OnControlTimer env0 s2 = Some (Inl AssertionFailed)"
proof -
  obtain s where s: "push_reachable s" "\<not> is_paused_by_sdk s" "timer_using s = TIMER_USING_X"
    using push_example by blast
  then show ?thesis using push_pause_during_timer_asserts [OF s(1,2), of env0] by auto
qed

end
