(* ===== verification/HttpTargets.thy ===== *)
theory HttpTargets
  imports Prelude
begin

text \<open>
  \<^verbatim>\<open>p2sp::HttpTargetsManager\<close> (\<^verbatim>\<open>p2sp/download/HttpTargetsManager.h/.cpp\<close>): the HTTP downloaders
  of a video, tried one after the other; when all have been tried, the fastest is used.

  A target is its position in the vector \<^verbatim>\<open>http_targets_\<close>.  The speed a target shows when it is
  asked is the argument \<open>speed\<close>; the code casts it to \<^verbatim>\<open>boost::int32_t\<close>, which is \<open>sint\<close> here.

  The lemmas show that after all targets have been tried the current one is the first of
  those with the greatest speed shown at the time they were left.
\<close>

section \<open>State and operations\<close>

record http_targets =
  targets_size :: nat
  current_http_target_index :: nat
  best_http_target_index :: nat
  best_http_target_speed :: int
  trying_http_targets :: bool

definition HttpTargetsManager :: http_targets where
  "HttpTargetsManager = \<lparr>targets_size = 0, current_http_target_index = 0,
     best_http_target_index = 0, best_http_target_speed = 0, trying_http_targets = True\<rparr>"

definition SetHttpTargets :: "nat \<Rightarrow> http_targets action" where
  "SetHttpTargets n m =
     and_then (ensure (targets_size m = 0) m)
       (\<lambda>m. Inr (m\<lparr>targets_size := n, current_http_target_index := 0\<rparr>))"

definition UpdateBestHttpTarget :: "(nat \<Rightarrow> u32) \<Rightarrow> http_targets action" where
  "UpdateBestHttpTarget speed m =
     (let i = current_http_target_index m in
      if targets_size m \<le> i then Inl OutOfRange
      else if i = 0 \<or> best_http_target_speed m < sint (speed i)
      then Inr (m\<lparr>best_http_target_index := i, best_http_target_speed := sint (speed i)\<rparr>)
      else Inr m)"

definition HaveNextHttpTarget :: "http_targets \<Rightarrow> bool" where
  "HaveNextHttpTarget m =
     (if targets_size m = 0 then False
      else trying_http_targets m \<and> current_http_target_index m \<noteq> targets_size m - 1)"

definition MoveNextHttpTarget :: "(nat \<Rightarrow> u32) \<Rightarrow> http_targets action" where
  "MoveNextHttpTarget speed = seq [
     \<lambda>m. ensure (targets_size m \<noteq> 0) m,
     \<lambda>m. ensure (trying_http_targets m) m,
     \<lambda>m. ensure (current_http_target_index m \<noteq> targets_size m - 1) m,
     UpdateBestHttpTarget speed,
     modify (\<lambda>m. m\<lparr>current_http_target_index := current_http_target_index m + 1\<rparr>)]"

definition MoveBestHttpTarget :: "(nat \<Rightarrow> u32) \<Rightarrow> http_targets action" where
  "MoveBestHttpTarget speed m =
     (if \<not> trying_http_targets m then Inr m
      else seq [
        \<lambda>m. ensure (targets_size m \<noteq> 0) m,
        \<lambda>m. ensure (current_http_target_index m = targets_size m - 1) m,
        UpdateBestHttpTarget speed,
        modify (\<lambda>m. m\<lparr>trying_http_targets := False,
          current_http_target_index := best_http_target_index m\<rparr>)] m)"

definition GetCurrentHttpTarget :: "http_targets \<Rightarrow> nat option" where
  "GetCurrentHttpTarget m =
     (if targets_size m \<noteq> 0 then Some (current_http_target_index m) else None)"

section \<open>Trying all targets\<close>

text \<open>Leaving one target after the other; \<open>vs ! i\<close> is the speed target \<open>i\<close> shows when it is left.\<close>

fun try_targets :: "u32 list \<Rightarrow> http_targets \<Rightarrow> http_targets result" where
  "try_targets [] m = Inr m"
| "try_targets [v] m = MoveBestHttpTarget (\<lambda>_. v) m"
| "try_targets (v # vs) m = and_then (MoveNextHttpTarget (\<lambda>_. v) m) (try_targets vs)"

section \<open>Invariant\<close>

definition targets_ok :: "http_targets \<Rightarrow> bool" where
  "targets_ok m =
     (targets_size m \<noteq> 0 \<longrightarrow>
        current_http_target_index m < targets_size m \<and>
        (current_http_target_index m \<noteq> 0 \<and> trying_http_targets m \<longrightarrow>
           best_http_target_index m < current_http_target_index m))"

lemmas targets_defs = UpdateBestHttpTarget_def MoveNextHttpTarget_def MoveBestHttpTarget_def
  HaveNextHttpTarget_def GetCurrentHttpTarget_def SetHttpTargets_def Let_def

lemma SetHttpTargets_spec:
  "targets_size m = 0 \<Longrightarrow> trying_http_targets m \<Longrightarrow>
     result_spec (\<lambda>m'. targets_ok m' \<and> targets_size m' = n \<and> current_http_target_index m' = 0
       \<and> trying_http_targets m') (SetHttpTargets n m)"
  by (auto simp: targets_defs spec_rules targets_ok_def)

lemma MoveNext_spec:
  "targets_ok m \<Longrightarrow> HaveNextHttpTarget m \<Longrightarrow>
     result_spec (\<lambda>m'. targets_ok m' \<and> targets_size m' = targets_size m
       \<and> current_http_target_index m' = Suc (current_http_target_index m)
       \<and> current_http_target_index m' < targets_size m
       \<and> trying_http_targets m') (MoveNextHttpTarget speed m)"
  by (auto simp: targets_defs spec_rules targets_ok_def split: if_splits)

lemma MoveBest_spec:
  "targets_ok m \<Longrightarrow> targets_size m \<noteq> 0 \<Longrightarrow> \<not> HaveNextHttpTarget m \<Longrightarrow>
     result_spec (\<lambda>m'. targets_ok m' \<and> targets_size m' = targets_size m
       \<and> current_http_target_index m' < targets_size m \<and> \<not> trying_http_targets m') (MoveBestHttpTarget speed m)"
  by (auto simp: targets_defs spec_rules targets_ok_def split: if_splits)

section \<open>The best target\<close>

text \<open>\<open>first_max b vs\<close>: \<open>b\<close> is the first position of a greatest value of \<open>vs\<close>.\<close>

definition first_max :: "nat \<Rightarrow> int list \<Rightarrow> bool" where
  "first_max b vs =
     (b < length vs \<and> list_all (\<lambda>v. v \<le> vs ! b) vs \<and> list_all (\<lambda>v. v < vs ! b) (take b vs))"

text \<open>\<open>best_of m us\<close>: \<open>m\<close> has left the targets before the current one with the speeds \<open>us\<close>.\<close>

definition best_of :: "http_targets \<Rightarrow> int list \<Rightarrow> bool" where
  "best_of m us =
     (trying_http_targets m \<and> current_http_target_index m = length us \<and>
      (us \<noteq> [] \<longrightarrow> first_max (best_http_target_index m) us
         \<and> best_http_target_speed m = us ! best_http_target_index m))"

lemma first_max_snoc:
  "first_max b (us @ [v]) \<longleftrightarrow>
     (if us = [] then b = 0
      else (first_max b us \<and> v \<le> us ! b) \<or> (b = length us \<and> list_all (\<lambda>u. u < v) us))"
  by (auto simp: first_max_def nth_append list_all_iff take_Suc less_Suc_eq)

lemma UpdateBest_best_of:
  assumes "best_of m us" "length us < targets_size m"
  shows "result_spec (\<lambda>m'. first_max (best_http_target_index m') (us @ [sint v])
     \<and> best_http_target_speed m' = (us @ [sint v]) ! best_http_target_index m'
     \<and> m' = m\<lparr>best_http_target_index := best_http_target_index m', best_http_target_speed := best_http_target_speed m'\<rparr>)
     (UpdateBestHttpTarget (\<lambda>_. v) m)"
proof (cases "us = []")
  case True
  with assms show ?thesis
    by (simp add: best_of_def UpdateBestHttpTarget_def first_max_snoc first_max_def)
next
  case False
  with assms have b: "first_max (best_http_target_index m) us" "best_http_target_index m < length us"
      "best_http_target_speed m = us ! best_http_target_index m" "current_http_target_index m = length us"
    by (auto simp: best_of_def first_max_def)
  then have all: "list_all (\<lambda>u. u \<le> us ! best_http_target_index m) us"
    by (simp add: first_max_def)
  then have "list_all (\<lambda>u. u < sint v) us" if "us ! best_http_target_index m < sint v"
    using that by (auto simp: list_all_iff)
  then show ?thesis
    using False b assms(2) by (auto simp: UpdateBestHttpTarget_def Let_def first_max_snoc nth_append)
qed

lemma try_targets_best:
  assumes "best_of m us" "targets_size m = length us + length vs" "vs \<noteq> []"
  shows "result_spec (\<lambda>m'. first_max (current_http_target_index m') (us @ map sint vs)
    \<and> \<not> trying_http_targets m' \<and> targets_size m' = targets_size m) (try_targets vs m)"
  using assms
proof (induction vs arbitrary: m us rule: induct_list012)
  case (2 v)
  have "result_spec (\<lambda>m'. first_max (best_http_target_index m') (us @ [sint v])
     \<and> m' = m\<lparr>best_http_target_index := best_http_target_index m', best_http_target_speed := best_http_target_speed m'\<rparr>)
     (UpdateBestHttpTarget (\<lambda>_. v) m)"
    using UpdateBest_best_of [OF 2(1), of v] 2(2) by (auto simp: result_spec_iff)
  then obtain m' where m': "UpdateBestHttpTarget (\<lambda>_. v) m = Inr m'"
     "first_max (best_http_target_index m') (us @ [sint v])" "targets_size m' = targets_size m"
    by (auto simp: result_spec_iff) (metis http_targets.select_convs(1) http_targets.surjective http_targets.update_convs(3,4))
  with 2 show ?case
    by (simp add: MoveBestHttpTarget_def best_of_def)
next
  case (3 v w vs)
  obtain m' where m': "UpdateBestHttpTarget (\<lambda>_. v) m = Inr m'"
     "first_max (best_http_target_index m') (us @ [sint v])"
     "best_http_target_speed m' = (us @ [sint v]) ! best_http_target_index m'"
     "m' = m\<lparr>best_http_target_index := best_http_target_index m', best_http_target_speed := best_http_target_speed m'\<rparr>"
    using UpdateBest_best_of [OF 3(3), of v] 3(4) by (auto simp: result_spec_iff)
  let ?m = "m'\<lparr>current_http_target_index := current_http_target_index m' + 1\<rparr>"
  have f: "targets_size m' = targets_size m" "current_http_target_index m' = current_http_target_index m"
     "trying_http_targets m' = trying_http_targets m"
    by (subst m'(4), simp)+
  have "MoveNextHttpTarget (\<lambda>_. v) m = Inr ?m"
    using 3 m'(1) by (simp add: MoveNextHttpTarget_def best_of_def)
  moreover have "best_of ?m (us @ [sint v])"
    using 3(3) m' f by (simp add: best_of_def)
  ultimately show ?case
    using 3(2) [of ?m "us @ [sint v]"] 3(4) f by simp
qed simp

text \<open>After all HTTP targets have been tried one after the other, the manager's current
  target is the first of those that showed the greatest speed when they were left, and no
  assertion or index check failed on the way.\<close>

theorem fastest_target_is_used:
  assumes "targets_size m = length vs" "vs \<noteq> []" "current_http_target_index m = 0" "trying_http_targets m"
  shows "\<exists>m'. try_targets vs m = Inr m' \<and> first_max (current_http_target_index m') (map sint vs)"
proof -
  have "best_of m []" using assms by (simp add: best_of_def)
  from try_targets_best [OF this] assms show ?thesis by (auto simp: result_spec_iff)
qed

theorem fastest_target_is_used_witness:
  "\<exists>m'. try_targets [10, 30, 20] (HttpTargetsManager\<lparr>targets_size := 3\<rparr>) = Inr m'
     \<and> first_max (current_http_target_index m') [10, 30, 20]"
  using fastest_target_is_used [of "HttpTargetsManager\<lparr>targets_size := 3\<rparr>" "[10, 30, 20]"]
  by (simp add: HttpTargetsManager_def)

end
