(* ===== verification/VideoMode.thy ===== *)
theory VideoMode
  imports SwitchBase HttpTargets
begin

text \<open>
  \<^verbatim>\<open>SwitchController::OpenServiceVideoControlMode\<close>, the state machine of video on demand
  (\<^verbatim>\<open>p2sp/download/SwitchControllerOpenServiceVideoControlMode.cpp\<close>).  One definition per member
  function; the loop of \<^verbatim>\<open>OnControlTimer\<close> is \<open>run_loop vid_body\<close>, with one definition for the
  block of each of its states.

  The HTTP target in use is \<^verbatim>\<open>http_target_manager_.GetCurrentHttpTarget()\<close>: the class has its own
  \<^verbatim>\<open>GetHTTPControlTarget\<close>, which hides that of \<^verbatim>\<open>ControlMode\<close> (the first downloader of the driver)
  but does not override it.  The targets of the manager are the downloaders \<open>https\<close> of the
  driver at the time of \<^verbatim>\<open>Start\<close>, in the same order.

  Comparisons of an unsigned speed with \<^verbatim>\<open>0.8 * x\<close>, \<^verbatim>\<open>0.5 * x\<close>, \<^verbatim>\<open>0.2 * x\<close> and \<^verbatim>\<open>n * data_rate_v\<close> are
  written as the integer comparisons they are: the products are far below \<^verbatim>\<open>2^53\<close>, and where
  the exact product is an integer the rounded one is that integer.

  The lemmas show that a tick returns without a fault under the stated conditions, that the
  machine starts with the source the request asks for, when it leaves pure P2P, and the
  confusion of the two \<^verbatim>\<open>GetHTTPControlTarget\<close>.
\<close>

section \<open>State\<close>

datatype HTTPSPEED = http_fast | http_checking | http_slow
datatype HTTPSTASUS = http_unknown | http_bad_once | http_bad | http_good
datatype P2PSTATUS = p2p_unknown | p2p_bad | p2p_good

record video_mode = control_mode +
  time_counter_x :: moment
  time_counter_y :: moment
  time_counter_h :: moment
  is_timer_h_reset :: bool
  time_counter_2200 :: moment
  time_counter_2300 :: moment
  time_counter_3200 :: moment
  is_memory_full :: bool
  is_p2p_start :: bool
  http_status :: HTTPSTASUS
  p2p_status :: P2PSTATUS
  p2p_failed_times :: int
  http_target_manager :: http_targets

section \<open>The current HTTP target\<close>

definition vid_target :: "video_mode \<Rightarrow> nat option" where
  "vid_target s = GetCurrentHttpTarget (http_target_manager s)"

abbreviation vid_has_http :: "video_mode \<Rightarrow> bool" where
  "vid_has_http s \<equiv> vid_target s \<noteq> None"

definition vid_http_Pause :: "video_mode action" where
  "vid_http_Pause s = (case vid_target s of None \<Rightarrow> Inl NullPointer | Some i \<Rightarrow> http_Pause_at i s)"

definition vid_http_Resume :: "video_mode action" where
  "vid_http_Resume s = (case vid_target s of None \<Rightarrow> Inl NullPointer | Some i \<Rightarrow> http_Resume_at i s)"

definition vid_http_speed :: "env \<Rightarrow> video_mode \<Rightarrow> u32 result" where
  "vid_http_speed env s =
     (case vid_target s of None \<Rightarrow> Inl NullPointer | Some i \<Rightarrow> Inr (http_speed env i))"

text \<open>Reading a getter of the P2P target.\<close>

definition read_p2p :: "'a \<Rightarrow> video_mode \<Rightarrow> 'a result" where
  "read_p2p x s = (if has_p2p s then Inr x else Inl NullPointer)"

section \<open>Policy\<close>

definition PrefersSavingServerBandwidth :: "env \<Rightarrow> bool" where
  "PrefersSavingServerBandwidth env =
     (case GetBWType env of
        JBW_NORMAL \<Rightarrow> True
      | JBW_HTTP_MORE \<Rightarrow> True
      | JBW_P2P_MORE \<Rightarrow> True
      | JBW_VOD_P2P_ONLY \<Rightarrow> True
      | JBW_P2P_INCREASE_CONNECT \<Rightarrow> True
      | JBW_HTTP_ONLY \<Rightarrow> False
      | JBW_HTTP_PREFERRED \<Rightarrow> False)"

definition CalcDownloadPriority :: "env \<Rightarrow> priority" where
  "CalcDownloadPriority env =
     (if GetRestPlayableTime env < 15000 then PRIORITY_10 else DEFAULT_PRIORITY)"

definition NeedHttpStart :: "env \<Rightarrow> bool" where
  "NeedHttpStart env =
     (IsHeadOnly env \<or> IsDrag env \<or> IsStartFromNonZero env \<or>
      GetBWType env = JBW_HTTP_MORE \<or> \<not> PrefersSavingServerBandwidth env)"

section \<open>Judgements\<close>

definition set_http_status :: "HTTPSTASUS \<Rightarrow> video_mode \<Rightarrow> video_mode" where
  "set_http_status h s = s\<lparr>http_status := h\<rparr>"

text \<open>
  The three-way judgement of \<^verbatim>\<open>Check2300HttpSpeed\<close> before \<^verbatim>\<open>http_status_\<close> is updated:
  \<open>http_fast\<close> where the code returns it, \<open>http_slow\<close> where it sets \<^verbatim>\<open>is_http_speed_slow\<close>.
\<close>

definition judge_2300 :: "env \<Rightarrow> video_mode \<Rightarrow> u32 \<Rightarrow> HTTPSPEED" where
  "judge_2300 env s speed =
     (let is_drag = IsDrag env \<or> IsStartFromNonZero env;
          data_rate = GetDataRate env;
          t = elapsed env (time_counter_2300 s)
      in
        if 5 * uint speed > 4 * uint (GetBandWidth env) then http_fast
        else if \<not> is_drag \<and> p2p_status s = p2p_unknown then
          (if 4000 \<le> t then (if speed < data_rate then http_slow else http_fast)
           else if 3000 \<le> t then (if speed < data_rate * 8 div 10 then http_slow else http_checking)
           else if 2000 \<le> t then (if speed < data_rate * 5 div 10 then http_slow else http_checking)
           else http_checking)
        else
          (if 10000 \<le> t then (if speed < data_rate then http_slow else http_fast)
           else if 5000 \<le> t then (if speed < data_rate div 2 then http_slow else http_checking)
           else http_checking))"

definition Check2300HttpSpeed :: "env \<Rightarrow> video_mode \<Rightarrow> (HTTPSPEED \<times> video_mode) result" where
  "Check2300HttpSpeed env s =
     and_then (read_p2p (GetConnectedPeersCount env) s) (\<lambda>peer_count.
     and_then (vid_http_speed env s) (\<lambda>speed.
       Inr (case judge_2300 env s speed of
              http_fast \<Rightarrow> (http_fast, set_http_status http_good s)
            | http_checking \<Rightarrow> (http_checking, s)
            | http_slow \<Rightarrow>
                (http_slow,
                 set_http_status
                   (case http_status s of
                      http_unknown \<Rightarrow>
                        (if IsDrag env \<or> IsStartFromNonZero env then http_bad else http_bad_once)
                    | http_bad_once \<Rightarrow> http_bad
                    | http_bad \<Rightarrow> http_bad
                    | http_good \<Rightarrow> http_bad) s))))"

text \<open>\<^verbatim>\<open>data_rate_v\<close> in tenths.\<close>

definition data_rate_v10 :: "u32 \<Rightarrow> int" where
  "data_rate_v10 data_rate_inkbps =
     (if data_rate_inkbps < 700 then 10
      else if data_rate_inkbps < 1200 then 12
      else if data_rate_inkbps < 1500 then 15
      else 18)"

definition Is2300RestTimeEnough :: "env \<Rightarrow> video_mode \<Rightarrow> bool result" where
  "Is2300RestTimeEnough env s =
     and_then (read_p2p (GetConnectedPeersCount env) s) (\<lambda>peer_count.
       let data_rate_v10 = data_rate_v10 (GetDataRate env div 1024 * 8);
           rest_play_time_inms = GetRestPlayableTime env
       in Inr (
            10 * uint rest_play_time_inms \<ge> uint (GetRestTimeEnoughLaunchP2P10 env * 1000) * data_rate_v10
              \<and> peer_count > 10
          \<or> rest_play_time_inms \<ge> GetRestTimeEnoughLaunchP2P0 env * 1000 \<and> peer_count > 0))"

definition Is2200RestTimeEnough :: "env \<Rightarrow> bool" where
  "Is2200RestTimeEnough env = (50000 \<le> GetRestPlayableTime env)"

definition Is3200P2pSlow :: "env \<Rightarrow> video_mode \<Rightarrow> (bool \<times> video_mode) result" where
  "Is3200P2pSlow env s =
     (let data_rate = GetDataRate env; band_width = GetBandWidth env
      in
        if 10000 \<le> elapsed env (time_counter_3200 s) then
          and_then (read_p2p (p2p_speed env) s) (\<lambda>speed.
            let s' = (if speed > data_rate * 11 div 10 \<or> speed > band_width * 8 div 10
                      then s\<lparr>time_counter_x := now env\<rparr> else s)
            in Inr (elapsed env (time_counter_x s') > 5000, s'))
        else if 5000 \<le> elapsed env (time_counter_3200 s) then
          and_then (read_p2p (p2p_speed env) s) (\<lambda>speed.
            Inr (speed < data_rate div 2 \<and> speed < band_width * 8 div 10, s))
        else Inr (False, s))"

section \<open>Transitions\<close>

definition vid_ChangeTo2200 :: "env \<Rightarrow> video_mode action" where
  "vid_ChangeTo2200 env = seq [
     vid_http_Resume, p2p_Resume,
     set_http HTTP_DOWNLOADING, set_p2p P2P_DOWNLOADING, set_timer TIMER_USING_NONE TIMER_NONE,
     modify (\<lambda>s. s\<lparr>time_counter_2200 := now env, time_counter_x := now env, time_counter_y := now env\<rparr>)]"

definition vid_ChangeTo3200 :: "env \<Rightarrow> bool \<Rightarrow> video_mode action" where
  "vid_ChangeTo3200 env start = seq [
     modify (\<lambda>s. s\<lparr>is_p2p_start := start\<rparr>),
     p2p_Resume, vid_http_Pause,
     set_http HTTP_PAUSING, set_p2p P2P_DOWNLOADING, set_timer TIMER_USING_NONE TIMER_NONE,
     modify (\<lambda>s. s\<lparr>time_counter_3200 := now env, time_counter_x := now env, time_counter_y := now env\<rparr>)]"

definition vid_ChangeTo2300 :: "env \<Rightarrow> video_mode action" where
  "vid_ChangeTo2300 env = seq [
     p2p_Pause, vid_http_Resume,
     set_http HTTP_DOWNLOADING, set_p2p P2P_PAUSING, set_timer TIMER_USING_NONE TIMER_NONE,
     modify (\<lambda>s. s\<lparr>time_counter_2300 := now env, time_counter_x := now env, time_counter_y := now env\<rparr>)]"

definition vid_ChangeTo2000 :: "video_mode action" where
  "vid_ChangeTo2000 = seq [
     \<lambda>s. ensure (\<not> has_p2p s) s,
     vid_http_Resume,
     set_http HTTP_DOWNLOADING, set_p2p P2P_NONE, set_timer TIMER_USING_NONE TIMER_NONE]"

definition vid_ChangeTo0200 :: "video_mode action" where
  "vid_ChangeTo0200 = seq [
     p2p_Resume,
     \<lambda>s. ensure (http_st s = HTTP_NONE) s,
     set_p2p P2P_DOWNLOADING, set_timer TIMER_USING_NONE TIMER_NONE]"

section \<open>The memory pool\<close>

text \<open>\<open>left\<close> is \<^verbatim>\<open>protocol::SubPieceContent::get_left_capacity()\<close>; the result says whether to stop here.\<close>

definition CheckMemory :: "env \<Rightarrow> u32 \<Rightarrow> video_mode \<Rightarrow> (bool \<times> video_mode) result" where
  "CheckMemory env left s =
     (if \<not> is_memory_full s then
        (if left < 1024 then
           and_then (seq [
             modify (\<lambda>s. s\<lparr>is_memory_full := True\<rparr>),
             (if vid_has_http s then seq [vid_http_Pause, set_http HTTP_PAUSING] else set_http HTTP_NONE),
             (if has_p2p s then seq [p2p_Pause, set_p2p P2P_PAUSING] else set_p2p P2P_NONE),
             set_timer TIMER_USING_NONE TIMER_NONE] s) (\<lambda>s'. Inr (True, s'))
         else Inr (False, s))
      else
        (if 1280 \<le> left then
           and_then (modify (\<lambda>s. s\<lparr>is_memory_full := False\<rparr>) s) (\<lambda>s.
           if \<not> vid_has_http s then
             and_then (seq [p2p_Resume, set_http HTTP_NONE, set_p2p P2P_DOWNLOADING,
               set_timer TIMER_USING_NONE TIMER_NONE] s) (\<lambda>s'. Inr (True, s'))
           else if \<not> has_p2p s then
             and_then (seq [vid_http_Resume, set_http HTTP_DOWNLOADING, set_p2p P2P_NONE,
               set_timer TIMER_USING_NONE TIMER_NONE] s) (\<lambda>s'. Inr (True, s'))
           else
             and_then (seq [p2p_Resume, set_http HTTP_PAUSING, set_p2p P2P_DOWNLOADING,
               set_timer TIMER_USING_NONE TIMER_NONE,
               modify (\<lambda>s. s\<lparr>time_counter_3200 := now env\<rparr>)] s) (\<lambda>s'. Inr (True, s')))
         else Inr (True, s)))"

section \<open>The states of the loop\<close>

definition vid_3000 :: "env \<Rightarrow> video_mode \<Rightarrow> video_mode flow result" where
  "vid_3000 env s =
     (if NeedHttpStart env then break_with (vid_ChangeTo2000 s)
      else if has_p2p s then
        continue_with (seq [set_p2p P2P_PAUSING, set_timer TIMER_USING_NONE TIMER_NONE] s)
      else if \<not> ShouldPreventHttpPredownload env \<or> is_timer_h_reset s then
        (if \<not> ShouldPreventHttpPredownload env
            \<or> elapsed env (time_counter_h s) > GetWaitTimeForTinydrag env * 1000 then
           continue_with (seq [vid_ChangeTo2000, modify (\<lambda>s. s\<lparr>is_timer_h_reset := False\<rparr>)] s)
         else Inr (Break s))
      else Inr (Break (s\<lparr>time_counter_h := now env, is_timer_h_reset := True\<rparr>)))"

definition vid_3300 :: "env \<Rightarrow> video_mode \<Rightarrow> video_mode flow result" where
  "vid_3300 env s =
     (if NeedHttpStart env then break_with (vid_ChangeTo2300 env s)
      else continue_with (vid_ChangeTo3200 env True s))"

definition vid_2200 :: "env \<Rightarrow> video_mode \<Rightarrow> video_mode flow result" where
  "vid_2200 env s0 =
     and_then (seq [p2p_SetDownloadMode NORMAL_MODE, p2p_SetDownloadPriority (CalcDownloadPriority env)] s0) (\<lambda>s1.
     and_then (vid_http_speed env s1) (\<lambda>speed.
       let data_rate = GetDataRate env; band_width = GetBandWidth env;
           s2 = (if p2p_speed env < data_rate * 12 div 10 \<and> p2p_speed env < band_width * 7 div 10
                 then s1\<lparr>time_counter_x := now env\<rparr> else s1);
           s3 = (if speed < data_rate * 11 div 10 \<and> speed < band_width * 7 div 10
                 then s2\<lparr>time_counter_y := now env\<rparr> else s2);
           fast_http_download = 5000 \<le> elapsed env (time_counter_y s3);
           fast_p2p_download = 5000 \<le> elapsed env (time_counter_x s3);
           s4 = (if fast_http_download then set_http_status http_good s3 else s3)
       in break_with (
            if PrefersSavingServerBandwidth env then
              (if fast_p2p_download \<or> Is2200RestTimeEnough env then vid_ChangeTo3200 env False s4
               else if fast_http_download then vid_ChangeTo2300 env s4
               else Inr s4)
            else
              (if fast_http_download \<or> Is2200RestTimeEnough env then vid_ChangeTo2300 env s4
               else if fast_p2p_download then vid_ChangeTo3200 env False s4
               else Inr s4))))"

definition mode_3200 :: "env \<Rightarrow> video_mode \<Rightarrow> P2PDwonloadMode" where
  "mode_3200 env s =
     (let rest = GetRestPlayableTime env; t = elapsed env (time_counter_3200 s)
      in
        if is_p2p_start s \<and> t \<le> 8000 \<and> rest \<le> 30000 then
          (if t \<le> 4000 then FAST_MODE else CONTINUOUS_MODE)
        else
          (if rest \<le> 30000 then NORMAL_MODE
           else if rest \<le> 70000 \<and> p2p_speed env < GetDataRate env then NORMAL_MODE
           else FAST_MODE))"

definition p2p_fails :: "video_mode \<Rightarrow> video_mode" where
  "p2p_fails s = s\<lparr>p2p_failed_times := p2p_failed_times s + 1, p2p_status := p2p_bad\<rparr>"

text \<open>\<^verbatim>\<open>rest < 15000 && Is3200P2pSlow() || rest < 10000\<close>, with the effect of the call when it is made.\<close>

definition rest_is_short :: "env \<Rightarrow> video_mode \<Rightarrow> (bool \<times> video_mode) result" where
  "rest_is_short env s =
     (let rest = GetRestPlayableTime env
      in if rest < 15000 then
           and_then (Is3200P2pSlow env s) (\<lambda>(slow, s'). Inr (slow \<or> rest < 10000, s'))
         else Inr (rest < 10000, s))"

definition vid_3200 :: "env \<Rightarrow> video_mode \<Rightarrow> video_mode flow result" where
  "vid_3200 env s0 =
     and_then (seq [p2p_SetDownloadMode (mode_3200 env s0),
                    p2p_SetDownloadPriority (CalcDownloadPriority env)] s0) (\<lambda>s.
     if http_status s = http_good then
       and_then (rest_is_short env s) (\<lambda>(short, s').
         break_with (if short then vid_ChangeTo2300 env (p2p_fails s') else Inr s'))
     else if GetRestPlayableTime env < GetRestTimeNeedCheckP2P env * 1000 then
       and_then (Is3200P2pSlow env s) (\<lambda>(slow, s').
         break_with
           (if slow then
              (if http_status s' = http_bad_once \<or> http_status s' = http_unknown
               then vid_ChangeTo2300 env (p2p_fails s')
               else vid_ChangeTo2200 env (p2p_fails s'))
            else Inr s'))
     else Inr (Break s))"

definition head_too_slow :: "env \<Rightarrow> u32 \<Rightarrow> u32 \<Rightarrow> bool" where
  "head_too_slow env t speed =
     (5000 \<le> t \<and> (5 * uint speed < 4 * uint (GetBandWidth env) \<or> 5 * uint speed < 4 * uint (GetDataRate env)) \<or>
      3000 \<le> t \<and> (2 * uint speed < uint (GetBandWidth env) \<or> 2 * uint speed < uint (GetDataRate env)) \<or>
      2000 \<le> t \<and> (5 * uint speed < uint (GetBandWidth env) \<or> 5 * uint speed < uint (GetDataRate env)))"

definition on_manager :: "(http_targets \<Rightarrow> http_targets result) \<Rightarrow> video_mode action" where
  "on_manager f s =
     and_then (f (http_target_manager s)) (\<lambda>m. Inr (s\<lparr>http_target_manager := m\<rparr>))"

text \<open>\<^verbatim>\<open>case http_slow\<close> of the state \<^verbatim>\<open>2300\<close>.\<close>

definition vid_2300_slow :: "env \<Rightarrow> video_mode action" where
  "vid_2300_slow env s =
     (let rest_time = GetRestPlayableTime env;
          urgent_to_download = rest_time < 30 * 1000 \<or> rest_time = - 1
      in
        if PrefersSavingServerBandwidth env \<or> urgent_to_download then
          (if p2p_status s = p2p_unknown then
             seq [vid_ChangeTo3200 env True,
                  cond (IsDrag env \<or> IsStartFromNonZero env) (notify (SetDragHttpStatus 2))] s
           else
             and_then (ensure (p2p_status s = p2p_bad) s) (\<lambda>s.
             if HaveNextHttpTarget (http_target_manager s) then
               seq [vid_http_Pause, on_manager (MoveNextHttpTarget (http_speed env)), vid_http_Resume,
                    modify (\<lambda>s. s\<lparr>time_counter_2300 := now env\<rparr>), notify ReportUseBakHost] s
             else
               seq [cond (1 < targets_size (http_target_manager s)) (notify ReportBakHostFail),
                    on_manager (MoveBestHttpTarget (http_speed env)), vid_ChangeTo2200 env] s))
        else Inr s)"

definition vid_2300_fast :: "env \<Rightarrow> video_mode action" where
  "vid_2300_fast env s =
     and_then
       (if PrefersSavingServerBandwidth env then
          and_then (Is2300RestTimeEnough env s) (\<lambda>enough.
            if enough \<and> p2p_failed_times s < 3 then vid_ChangeTo3200 env True s else Inr s)
        else Inr s)
       (cond (IsDrag env \<or> IsStartFromNonZero env) (notify (SetDragHttpStatus 1)))"

definition vid_2300_checking :: "env \<Rightarrow> video_mode action" where
  "vid_2300_checking env s =
     (if p2p_status s = p2p_unknown \<and> PrefersSavingServerBandwidth env then
        and_then (Is2300RestTimeEnough env s) (\<lambda>enough.
          if enough then vid_ChangeTo3200 env True s else Inr s)
      else Inr s)"

definition vid_2300 :: "env \<Rightarrow> video_mode \<Rightarrow> video_mode flow result" where
  "vid_2300 env s =
     and_then (read_p2p (GetConnectedPeersCount env) s) (\<lambda>peers.
     if peers = 0 then Inr (Break s)
     else if IsHeadOnly env then
       and_then (vid_http_speed env s) (\<lambda>speed.
         if head_too_slow env (elapsed env (time_counter_2300 s)) speed
         then break_with (vid_ChangeTo2200 env s) else Inr (Break s))
     else
       and_then (Check2300HttpSpeed env s) (\<lambda>(speed, s').
         break_with (and_then
           (case speed of
              http_slow \<Rightarrow> vid_2300_slow env s'
            | http_fast \<Rightarrow> vid_2300_fast env s'
            | http_checking \<Rightarrow> vid_2300_checking env s')
           (\<lambda>t. cond (\<not> in_state HTTP_DOWNLOADING P2P_PAUSING t) (notify NoticeLeave2300) t))))"

definition vid_2000 :: "env \<Rightarrow> video_mode \<Rightarrow> video_mode flow result" where
  "vid_2000 env s =
     (if has_p2p s then
        and_then (ensure (GetBWType env \<noteq> JBW_HTTP_ONLY) s) (\<lambda>s.
          continue_with (seq [(if NeedHttpStart env then vid_ChangeTo2300 env else vid_ChangeTo3200 env True),
                              notify NoticeLeave2000] s))
      else Inr (Break s))"

definition vid_at :: "HttpState \<Rightarrow> P2PState \<Rightarrow> video_mode \<Rightarrow> bool" where
  "vid_at h p s = (in_state h p s \<and> timer_using s = TIMER_USING_NONE \<and> timer_st s = TIMER_NONE)"

definition vid_0000 :: "video_mode \<Rightarrow> video_mode" where
  "vid_0000 s =
     (if vid_at HTTP_NONE P2P_NONE s then
        s\<lparr>http_st := (if vid_has_http s then HTTP_PAUSING else http_st s),
          p2p_st := (if has_p2p s then P2P_PAUSING else p2p_st s)\<rparr>
      else s)"

definition vid_dispatch :: "env \<Rightarrow> video_mode \<Rightarrow> video_mode flow result" where
  "vid_dispatch env s =
     (if vid_at HTTP_NONE P2P_PAUSING s \<and> has_p2p s then break_with (vid_ChangeTo0200 s)
      else if vid_at HTTP_PAUSING P2P_NONE s then vid_3000 env s
      else if vid_at HTTP_PAUSING P2P_PAUSING s then vid_3300 env s
      else if vid_at HTTP_DOWNLOADING P2P_DOWNLOADING s then vid_2200 env s
      else if vid_at HTTP_PAUSING P2P_DOWNLOADING s then vid_3200 env s
      else if vid_at HTTP_DOWNLOADING P2P_PAUSING s then vid_2300 env s
      else if vid_at HTTP_DOWNLOADING P2P_NONE s then vid_2000 env s
      else Inr (Break s))"

definition vid_body :: "env \<Rightarrow> video_mode \<Rightarrow> video_mode flow result" where
  "vid_body env s = vid_dispatch env (vid_0000 s)"

section \<open>Timer, start and stop\<close>

definition notify_switch_state :: "video_mode action" where
  "notify_switch_state s =
     notify (SetSwitchState (code_http (http_st s)) (code_p2p (p2p_st s))
       (code_timer_using (timer_using s)) (code_timer (timer_st s))) s"

definition external_control :: "env \<Rightarrow> int \<Rightarrow> video_mode action" where
  "external_control env switch_type = seq [
     (if switch_type = 2200 then vid_ChangeTo2200 env
      else if switch_type = 2300 then vid_ChangeTo2300 env
      else if switch_type = 3200 then vid_ChangeTo3200 env False
      else Inr),
     notify_switch_state]"

definition vid_memory :: "env \<Rightarrow> video_mode \<Rightarrow> (bool \<times> video_mode) result" where
  "vid_memory env s =
     (case left_capacity env of None \<Rightarrow> Inr (False, s) | Some left \<Rightarrow> CheckMemory env left s)"

definition vid_OnControlTimer :: "env \<Rightarrow> video_mode \<Rightarrow> video_mode result option" where
  "vid_OnControlTimer env s =
     (if \<not> is_running s then Some (Inr s)
      else if is_paused_by_sdk s then Some (Inr s)
      else case switch_ini env of
             Some switch_type \<Rightarrow> Some (external_control env switch_type s)
           | None \<Rightarrow>
               (case vid_memory env s of
                  Inl e \<Rightarrow> Some (Inl e)
                | Inr r \<Rightarrow> if fst r then Some (Inr (snd r)) else run_loop (vid_body env) (snd r)))"

definition vid_initial :: "video_mode \<Rightarrow> video_mode" where
  "vid_initial s = s\<lparr>
     http_st := (if vid_has_http s then HTTP_PAUSING else HTTP_NONE),
     p2p_st := (if has_p2p s then P2P_PAUSING else P2P_NONE),
     rid_st := (if has_p2p s then RID_GOT else RID_NONE),
     timer_st := TIMER_NONE, timer_using := TIMER_USING_NONE,
     is_memory_full := False, http_status := http_unknown, p2p_status := p2p_unknown,
     p2p_failed_times := 0, is_timer_h_reset := False\<rparr>"

definition vid_start_actions :: "env \<Rightarrow> video_mode action" where
  "vid_start_actions env = seq [
     ControlMode_Start,
     \<lambda>s. on_manager (SetHttpTargets (length (https s))) s,
     \<lambda>s. cond (vid_has_http s) vid_http_Pause s,
     \<lambda>s. cond (has_p2p s) p2p_Pause s,
     modify vid_initial,
     \<lambda>s. cond (\<not> vid_has_http s \<and> has_p2p s) p2p_Resume s,
     \<lambda>s. cond (vid_has_http s) (notify (SetSpeedLimitInKBps (GetHttpDownloadSpeedLimitInKBps env))) s]"

definition vid_Start :: "env \<Rightarrow> video_mode \<Rightarrow> video_mode result option" where
  "vid_Start env s =
     (if is_running s then Some (Inr s)
      else case vid_start_actions env s of
             Inl e \<Rightarrow> Some (Inl e)
           | Inr s' \<Rightarrow> vid_OnControlTimer env s')"

definition vid_Stop :: "video_mode action" where
  "vid_Stop s = (if \<not> is_running s then Inr s else ControlMode_Stop s)"

section \<open>Invariant and rank\<close>

text \<open>
  The state is one of those the loop knows; a source marked as downloading runs; with a single
  HTTP target, and once P2P has been started or HTTP exists, a source marked as pausing pauses.
  As long as targets are being tried, no target but the current one runs.
\<close>

definition vid_sources_agree :: "video_mode \<Rightarrow> bool" where
  "vid_sources_agree s =
     ((http_st s = HTTP_DOWNLOADING \<longrightarrow> \<not> https s ! current_http_target_index (http_target_manager s)) \<and>
      (length (https s) = 1 \<longrightarrow> http_agrees 0 s) \<and>
      (trying_http_targets (http_target_manager s) \<longrightarrow>
         (\<forall>j<length (https s). j \<noteq> current_http_target_index (http_target_manager s) \<longrightarrow> https s ! j)) \<and>
      (is_memory_full s \<longrightarrow> http_st s \<noteq> HTTP_DOWNLOADING) \<and>
      (p2p_st s = P2P_DOWNLOADING \<longrightarrow> p2p_is_pausing s = Some False) \<and>
      (http_st s \<noteq> HTTP_NONE \<or> p2p_st s \<noteq> P2P_PAUSING \<longrightarrow> p2p_agrees s))"

definition vid_ok :: "video_mode \<Rightarrow> bool" where
  "vid_ok s =
     (is_running s \<and> timer_using s = TIMER_USING_NONE \<and> timer_st s = TIMER_NONE \<and>
      targets_ok (http_target_manager s) \<and>
      targets_size (http_target_manager s) = length (https s) \<and>
      (http_st s = HTTP_NONE \<longleftrightarrow> https s = []) \<and> http_st s \<noteq> HTTP_STOPPED \<and>
      p2p_st s \<noteq> P2P_STOPPED \<and> (p2p_st s \<noteq> P2P_NONE \<longrightarrow> has_p2p s) \<and>
      p2p_status s \<noteq> p2p_good \<and> vid_sources_agree s)"

text \<open>
  The last conjunct excludes that a P2P downloader turned up while the machine waits in \<^verbatim>\<open>3000\<close>
  and HTTP is to start, where the assertion of \<^verbatim>\<open>ChangeTo2000\<close> fails (as in the download mode).
\<close>

definition vid_env_ok :: "env \<Rightarrow> video_mode \<Rightarrow> bool" where
  "vid_env_ok env s =
     (driver_ok env s \<and> \<not> (in_state HTTP_PAUSING P2P_NONE s \<and> has_p2p s \<and> NeedHttpStart env))"

definition vid_inv :: "env \<Rightarrow> video_mode \<Rightarrow> bool" where
  "vid_inv env s = (vid_ok s \<and> vid_env_ok env s \<and> \<not> is_memory_full s)"

definition vid_rank :: "env \<Rightarrow> video_mode \<Rightarrow> nat" where
  "vid_rank env s =
     (if in_state HTTP_PAUSING P2P_NONE s then 2
      else if in_state HTTP_DOWNLOADING P2P_NONE s \<or> in_state HTTP_PAUSING P2P_PAUSING s then 1
      else 0)"

section \<open>Rules for the calls\<close>

lemma vid_http_spec:
  "result_spec P (vid_http_Pause s) \<longleftrightarrow> (\<exists>i. vid_target s = Some i \<and> result_spec P (http_Pause_at i s))"
  "result_spec P (vid_http_Resume s) \<longleftrightarrow> (\<exists>i. vid_target s = Some i \<and> result_spec P (http_Resume_at i s))"
  by (auto simp: vid_http_Pause_def vid_http_Resume_def split: option.splits)

lemma vid_http_speed_spec:
  "result_spec P (vid_http_speed env s) \<longleftrightarrow> (\<exists>i. vid_target s = Some i \<and> P (http_speed env i))"
  by (auto simp: vid_http_speed_def split: option.splits)

lemma read_p2p_spec: "result_spec P (read_p2p x s) \<longleftrightarrow> has_p2p s \<and> P x"
  by (simp add: read_p2p_def)

lemma on_manager_spec:
  "result_spec P (on_manager f s) \<longleftrightarrow>
     result_spec (\<lambda>m. P (s\<lparr>http_target_manager := m\<rparr>)) (f (http_target_manager s))"
  by (simp add: on_manager_def result_spec_and_then)

lemma vid_target_Some:
  "vid_target s = Some i \<longleftrightarrow>
     targets_size (http_target_manager s) \<noteq> 0 \<and> i = current_http_target_index (http_target_manager s)"
  by (auto simp: vid_target_def GetCurrentHttpTarget_def)

lemmas vid_specs = target_specs vid_http_spec vid_http_speed_spec read_p2p_spec on_manager_spec
  vid_target_Some set_http_status_def

lemmas vid_changes = vid_ChangeTo2200_def vid_ChangeTo3200_def vid_ChangeTo2300_def
  vid_ChangeTo2000_def vid_ChangeTo0200_def

lemmas vid_inv_defs = vid_inv_def vid_ok_def vid_env_ok_def driver_ok_def vid_sources_agree_def
  agree_defs has_simps in_state_def targets_ok_def

section \<open>The transitions keep the invariant\<close>

text \<open>What a transition between the states with both sources needs of the state before it.\<close>

definition vid_pre :: "env \<Rightarrow> video_mode \<Rightarrow> bool" where
  "vid_pre env s =
     (is_running s \<and> targets_ok (http_target_manager s) \<and>
      targets_size (http_target_manager s) = length (https s) \<and> https s \<noteq> [] \<and> has_p2p s \<and>
      driver_ok env s \<and> p2p_status s \<noteq> p2p_good \<and> \<not> is_memory_full s \<and>
      (trying_http_targets (http_target_manager s) \<longrightarrow>
         (\<forall>j<length (https s). j \<noteq> current_http_target_index (http_target_manager s) \<longrightarrow> https s ! j)))"

lemmas vid_keep = vid_inv_def vid_env_ok_def vid_ok_def in_state_def has_p2p_def has_http_def
  driver_ok_def vid_sources_agree_def agree_defs

lemma vid_inv_pre:
  "vid_inv env s \<Longrightarrow> https s \<noteq> [] \<Longrightarrow> has_p2p s \<Longrightarrow> vid_pre env s"
  by (simp add: vid_inv_def vid_ok_def vid_env_ok_def vid_pre_def vid_sources_agree_def)

lemma vid_pre_current:
  assumes "vid_pre env s"
  shows "current_http_target_index (http_target_manager s) < length (https s)"
    "vid_target s = Some (current_http_target_index (http_target_manager s))"
    "length (https s) = Suc 0 \<Longrightarrow> current_http_target_index (http_target_manager s) = 0"
    "\<exists>p. p2p_dl s = Some p"
  using assms by (auto simp: vid_pre_def targets_ok_def vid_target_Some has_p2p_def)

lemma vid_target_update [simp]:
  "vid_target (s\<lparr>p2p_dl := x\<rparr>) = vid_target s"
  "vid_target (s\<lparr>is_p2p_start := b\<rparr>) = vid_target s"
  "vid_target (s\<lparr>is_p2p_start := b, p2p_dl := x\<rparr>) = vid_target s"
  "vid_target (s\<lparr>https := hs\<rparr>) = vid_target s"
  by (simp_all add: vid_target_def)

lemma vid_inv_update [simp]:
  "vid_inv env (s\<lparr>time_counter_x := v\<rparr>) = vid_inv env s"
  "vid_inv env (s\<lparr>time_counter_y := v\<rparr>) = vid_inv env s"
  "vid_inv env (s\<lparr>time_counter_2300 := v\<rparr>) = vid_inv env s"
  "vid_inv env (s\<lparr>time_counter_h := v\<rparr>) = vid_inv env s"
  "vid_inv env (s\<lparr>is_timer_h_reset := b\<rparr>) = vid_inv env s"
  "vid_inv env (s\<lparr>http_status := h\<rparr>) = vid_inv env s"
  "vid_inv env (s\<lparr>notices := n\<rparr>) = vid_inv env s"
  by (simp_all add: vid_keep)

lemma vid_pre_update [simp]:
  "vid_pre env (s\<lparr>time_counter_x := v\<rparr>) = vid_pre env s"
  "vid_pre env (s\<lparr>time_counter_y := v\<rparr>) = vid_pre env s"
  "vid_pre env (s\<lparr>http_status := h\<rparr>) = vid_pre env s"
  "vid_pre env (s\<lparr>notices := n\<rparr>) = vid_pre env s"
  "vid_pre env s \<Longrightarrow> vid_pre env (p2p_fails s)"
  by (simp_all add: vid_pre_def driver_ok_def has_http_def has_p2p_def p2p_fails_def)

lemma vid_ChangeTo_spec:
  assumes "vid_pre env s"
  shows "result_spec (\<lambda>t. vid_inv env t \<and> in_state HTTP_DOWNLOADING P2P_DOWNLOADING t) (vid_ChangeTo2200 env s)"
    "result_spec (\<lambda>t. vid_inv env t \<and> in_state HTTP_PAUSING P2P_DOWNLOADING t) (vid_ChangeTo3200 env b s)"
    "result_spec (\<lambda>t. vid_inv env t \<and> in_state HTTP_DOWNLOADING P2P_PAUSING t) (vid_ChangeTo2300 env s)"
  using vid_pre_current [OF assms] assms
  by (auto simp: vid_ChangeTo2200_def vid_ChangeTo3200_def vid_ChangeTo2300_def
      vid_http_Resume_def vid_http_Pause_def p2p_call_defs vid_keep vid_pre_def)

lemma vid_transition:
  assumes "vid_pre env s"
  shows "result_spec (vid_inv env) (vid_ChangeTo2200 env s)"
    "result_spec (vid_inv env) (vid_ChangeTo3200 env b s)"
    "result_spec (vid_inv env) (vid_ChangeTo2300 env s)"
  using vid_ChangeTo_spec [OF assms] by (auto simp: result_spec_iff)

lemma vid_inv_p2p_settings:
  assumes "vid_inv env s" "p2p_dl s = Some p"
  shows "vid_inv env (s\<lparr>p2p_dl := Some (p\<lparr>dl_mode := m, download_priority := q\<rparr>)\<rparr>)"
proof -
  have "p2p_is_pausing (s\<lparr>p2p_dl := Some (p\<lparr>dl_mode := m, download_priority := q\<rparr>)\<rparr>) = p2p_is_pausing s"
    using assms(2) by (simp add: p2p_is_pausing_def)
  with assms show ?thesis
    by (auto simp: vid_inv_def vid_env_ok_def vid_ok_def in_state_def has_p2p_def has_http_def
        driver_ok_def vid_sources_agree_def http_agrees_def p2p_agrees_def)
qed

lemma vid_2200_inv:
  assumes "vid_inv env s" "https s \<noteq> []" "has_p2p s"
  shows "flow_spec (vid_inv env) (\<lambda>_. False) (vid_2200 env s)"
proof -
  obtain p where p: "p2p_dl s = Some p" using assms(3) by (auto simp: has_p2p_def)
  let ?s = "s\<lparr>p2p_dl := Some (p\<lparr>dl_mode := NORMAL_MODE, download_priority := CalcDownloadPriority env\<rparr>)\<rparr>"
  have s: "vid_inv env ?s" by (rule vid_inv_p2p_settings [OF assms(1) p])
  have pre: "vid_pre env ?s" using s assms(2) by (simp add: vid_inv_pre has_p2p_def)
  show ?thesis
    using p s pre vid_pre_current(2) [OF pre]
    by (simp add: vid_2200_def p2p_call_defs vid_http_speed_def Let_def flow_spec_with
         set_http_status_def vid_transition)
qed


lemma vid_p2p_prepare:
  assumes "vid_inv env s" "https s \<noteq> []" "has_p2p s"
  obtains p where "p2p_dl s = Some p"
    and "\<And>m q. vid_inv env (s\<lparr>p2p_dl := Some (p\<lparr>dl_mode := m, download_priority := q\<rparr>)\<rparr>)"
    and "\<And>m q. vid_pre env (s\<lparr>p2p_dl := Some (p\<lparr>dl_mode := m, download_priority := q\<rparr>)\<rparr>)"
proof -
  obtain p where p: "p2p_dl s = Some p" using assms(3) by (auto simp: has_p2p_def)
  have "vid_inv env (s\<lparr>p2p_dl := Some (p\<lparr>dl_mode := m, download_priority := q\<rparr>)\<rparr>)" for m q
    by (rule vid_inv_p2p_settings [OF assms(1) p])
  moreover from this have "vid_pre env (s\<lparr>p2p_dl := Some (p\<lparr>dl_mode := m, download_priority := q\<rparr>)\<rparr>)" for m q
    by (rule vid_inv_pre) (use assms(2) in \<open>simp_all add: has_p2p_def\<close>)
  ultimately show ?thesis using that p by blast
qed

lemma Is3200P2pSlow_returns:
  assumes "vid_inv env s" "vid_pre env s"
  shows "\<exists>slow t. Is3200P2pSlow env s = Inr (slow, t) \<and> vid_inv env t \<and> vid_pre env t"
  using assms
  by (auto simp: Is3200P2pSlow_def Let_def read_p2p_def vid_pre_def has_p2p_def has_http_def driver_ok_def)

lemma rest_is_short_returns:
  assumes "vid_inv env s" "vid_pre env s"
  shows "\<exists>short t. rest_is_short env s = Inr (short, t) \<and> vid_inv env t \<and> vid_pre env t"
  using Is3200P2pSlow_returns [OF assms] assms by (auto simp: rest_is_short_def Let_def)

lemma vid_3200_inv:
  assumes "vid_inv env s" "https s \<noteq> []" "has_p2p s"
  shows "flow_spec (vid_inv env) (\<lambda>_. False) (vid_3200 env s)"
proof -
  obtain p where p: "p2p_dl s = Some p"
    and inv: "vid_inv env (s\<lparr>p2p_dl := Some (p\<lparr>dl_mode := m, download_priority := q\<rparr>)\<rparr>)"
    and pre: "vid_pre env (s\<lparr>p2p_dl := Some (p\<lparr>dl_mode := m, download_priority := q\<rparr>)\<rparr>)" for m q
    using vid_p2p_prepare [OF assms] by metis
  let ?s = "s\<lparr>p2p_dl := Some (p\<lparr>dl_mode := mode_3200 env s, download_priority := CalcDownloadPriority env\<rparr>)\<rparr>"
  have s: "vid_inv env ?s" "vid_pre env ?s" by (rule inv, rule pre)
  from Is3200P2pSlow_returns [OF s] obtain slow t where t: "Is3200P2pSlow env ?s = Inr (slow, t)"
    "vid_inv env t" "vid_pre env t" by blast
  from rest_is_short_returns [OF s] obtain short u where u: "rest_is_short env ?s = Inr (short, u)"
    "vid_inv env u" "vid_pre env u" by blast
  show ?thesis
    using p s(1) t u by (simp add: vid_3200_def p2p_call_defs flow_spec_with vid_transition)
qed

lemma Check2300HttpSpeed_returns:
  assumes "vid_inv env s" "vid_pre env s"
  shows "\<exists>speed t. Check2300HttpSpeed env s = Inr (speed, t) \<and> vid_inv env t \<and> vid_pre env t
    \<and> p2p_st t = p2p_st s \<and> http_st t = http_st s"
  using assms vid_pre_current(2) [OF assms(2)] assms(2) [unfolded vid_pre_def]
  by (auto simp: Check2300HttpSpeed_def read_p2p_def vid_http_speed_def set_http_status_def
      split: HTTPSPEED.splits)

lemma result_spec_cond_notify:
  "result_spec (vid_inv env) (cond b (notify n) s) = vid_inv env s"
  by (cases b) simp_all

lemma result_spec_cond_notify2:
  assumes "result_spec (vid_inv env) r"
  shows "result_spec (vid_inv env) (and_then r (\<lambda>t. cond (b t) (notify n) t))"
  using assms by (simp add: result_spec_and_then result_spec_cond_notify)

lemma vid_2300_fast_inv:
  assumes "vid_inv env s" "vid_pre env s"
  shows "result_spec (vid_inv env) (vid_2300_fast env s)"
  using assms
  by (auto simp: vid_2300_fast_def result_spec_and_then result_spec_cond_notify Is2300RestTimeEnough_def
      read_p2p_def Let_def vid_transition vid_pre_def)

lemma vid_2300_checking_inv:
  assumes "vid_inv env s" "vid_pre env s"
  shows "result_spec (vid_inv env) (vid_2300_checking env s)"
proof -
  have "has_p2p s" using assms(2) by (simp add: vid_pre_def)
  with assms show ?thesis
    by (simp add: vid_2300_checking_def result_spec_and_then Is2300RestTimeEnough_def
      read_p2p_def Let_def vid_transition)
qed

lemma vid_move_next:
  assumes "vid_inv env s" "vid_pre env s" "HaveNextHttpTarget (http_target_manager s)"
    and st: "http_st s = HTTP_DOWNLOADING"
  shows "result_spec (\<lambda>t. vid_inv env t \<and> http_st t = HTTP_DOWNLOADING) (seq [vid_http_Pause,
     on_manager (MoveNextHttpTarget speed), vid_http_Resume,
     modify (\<lambda>s. s\<lparr>time_counter_2300 := now env\<rparr>), notify ReportUseBakHost] s)"
proof -
  let ?m = "http_target_manager s"
  have "targets_ok ?m" using assms(2) by (simp add: vid_pre_def)
  from MoveNext_spec [OF this assms(3), of speed] obtain m where m: "MoveNextHttpTarget speed ?m = Inr m"
    "targets_ok m" "targets_size m = targets_size ?m"
    "current_http_target_index m = Suc (current_http_target_index ?m)"
    "current_http_target_index m < targets_size m"
    by (auto simp: result_spec_iff)
  have tr: "trying_http_targets ?m" using assms(3) by (auto simp: HaveNextHttpTarget_def split: if_splits)
  have n: "length (https s) \<noteq> Suc 0" "targets_size m = length (https s)" "https s \<noteq> []"
    using m assms(2) by (auto simp: vid_pre_def)
  have u: "vid_target (s\<lparr>https := hs, http_target_manager := m\<rparr>) = Some (current_http_target_index m)" for hs
    using n by (simp add: vid_target_def GetCurrentHttpTarget_def)
  let ?i = "current_http_target_index ?m" and ?j = "current_http_target_index m"
  have "seq [vid_http_Pause, on_manager (MoveNextHttpTarget speed), vid_http_Resume,
     modify (\<lambda>s. s\<lparr>time_counter_2300 := now env\<rparr>), notify ReportUseBakHost] s =
     Inr (s\<lparr>https := (https s)[?i := True, ?j := False], http_target_manager := m,
       time_counter_2300 := now env, notices := notices s @ [ReportUseBakHost]\<rparr>)"
    using m n u vid_pre_current(1,2) [OF assms(2)]
    by (simp add: vid_http_Pause_def vid_http_Resume_def on_manager_def)
  moreover have "vid_inv env (s\<lparr>https := (https s)[?i := True, ?j := False], http_target_manager := m,
       time_counter_2300 := now env, notices := notices s @ [ReportUseBakHost]\<rparr>)"
    using m n assms(1) st tr by (auto simp: vid_keep nth_list_update)
  ultimately show ?thesis using st by (simp only: result_spec_simps) simp
qed

lemma vid_move_best:
  assumes "vid_pre env s" "\<not> HaveNextHttpTarget (http_target_manager s)"
  shows "result_spec (\<lambda>t. vid_inv env t \<and> http_st t = HTTP_DOWNLOADING)
     (seq [on_manager (MoveBestHttpTarget speed), vid_ChangeTo2200 env] s)"
proof -
  have m: "targets_ok (http_target_manager s)" "targets_size (http_target_manager s) \<noteq> 0"
    using assms(1) by (auto simp: vid_pre_def)
  from MoveBest_spec [OF m assms(2), of speed] obtain m where m: "MoveBestHttpTarget speed (http_target_manager s) = Inr m"
    "targets_ok m" "targets_size m = targets_size (http_target_manager s)" "\<not> trying_http_targets m"
    by (auto simp: result_spec_iff)
  then have "vid_pre env (s\<lparr>http_target_manager := m\<rparr>)"
    using assms(1) by (simp add: vid_pre_def driver_ok_def has_http_def has_p2p_def)
  from vid_ChangeTo_spec(1) [OF this] m(1) show ?thesis
    by (auto simp: result_spec_seq on_manager_def in_state_def elim: result_spec_mono)
qed

text \<open>With P2P found bad, a slow HTTP download tries the next target, or the best one along with P2P.\<close>

lemma vid_2300_slow_bad:
  assumes "vid_inv env s" "vid_pre env s" "http_st s = HTTP_DOWNLOADING" "p2p_status s \<noteq> p2p_unknown"
  shows "result_spec (\<lambda>t. vid_inv env t \<and> http_st t = HTTP_DOWNLOADING) (vid_2300_slow env s)"
proof -
  have "p2p_status s = p2p_bad"
    using assms(2,4) by (cases "p2p_status s") (simp_all add: vid_pre_def)
  moreover have "result_spec (\<lambda>t. vid_inv env t \<and> http_st t = HTTP_DOWNLOADING)
     (seq [cond b (notify ReportBakHostFail), on_manager (MoveBestHttpTarget (http_speed env)), vid_ChangeTo2200 env] s)"
    if "\<not> HaveNextHttpTarget (http_target_manager s)" for b
    using vid_move_best [of env "s\<lparr>notices := n\<rparr>" "http_speed env" for n] vid_move_best [of env s] that assms(2)
    by (cases b) (simp_all add: result_spec_seq)
  ultimately show ?thesis
    using assms vid_move_next [OF assms(1,2) _ assms(3)]
    by (simp add: vid_2300_slow_def Let_def del: seq.simps)
qed

lemma vid_2300_slow_inv:
  assumes "vid_inv env s" "vid_pre env s" "http_st s = HTTP_DOWNLOADING"
  shows "result_spec (vid_inv env) (vid_2300_slow env s)"
proof (cases "p2p_status s = p2p_unknown")
  case True
  have "result_spec (vid_inv env) (seq [vid_ChangeTo3200 env True, cond b (notify n)] s)" for b n
    using vid_transition(2) [OF assms(2), of True]
    by (simp add: result_spec_seq result_spec_and_then result_spec_cond_notify)
  with True assms show ?thesis by (simp add: vid_2300_slow_def Let_def del: seq.simps)
next
  case False
  from vid_2300_slow_bad [OF assms False] show ?thesis by (rule result_spec_mono) simp
qed

lemma vid_2300_inv:
  assumes "vid_inv env s" "https s \<noteq> []" "has_p2p s" "http_st s = HTTP_DOWNLOADING"
  shows "flow_spec (vid_inv env) (\<lambda>_. False) (vid_2300 env s)"
proof -
  have pre: "vid_pre env s" by (rule vid_inv_pre [OF assms(1-3)])
  from Check2300HttpSpeed_returns [OF assms(1) pre] obtain speed t where t:
    "Check2300HttpSpeed env s = Inr (speed, t)" "vid_inv env t" "vid_pre env t" "http_st t = http_st s" by blast
  show ?thesis
    using assms t pre vid_pre_current(2) [OF pre]
    by (auto simp: vid_2300_def read_p2p_def vid_http_speed_def flow_spec_with vid_transition
        result_spec_cond_notify2 vid_2300_slow_inv vid_2300_fast_inv vid_2300_checking_inv
        split: HTTPSPEED.split)
qed

definition vid_post :: "env \<Rightarrow> video_mode \<Rightarrow> video_mode flow result \<Rightarrow> bool" where
  "vid_post env s =
     flow_spec (vid_inv env) (\<lambda>t. vid_inv env t \<and> vid_rank env t < vid_rank env s)"

lemma vid_post_break: "flow_spec (vid_inv env) (\<lambda>_. False) r \<Longrightarrow> vid_post env s r"
  unfolding vid_post_def by (erule flow_spec_mono) auto

lemma vid_inv_target:
  assumes "vid_inv env s" "https s \<noteq> []"
  shows "vid_target s = Some (current_http_target_index (http_target_manager s))"
    "current_http_target_index (http_target_manager s) < length (https s)"
    "length (https s) = Suc 0 \<Longrightarrow> current_http_target_index (http_target_manager s) = 0"
  using assms by (auto simp: vid_inv_def vid_ok_def targets_ok_def vid_target_Some)

lemma vid_ChangeTo2000_inv:
  assumes "vid_inv env s" "https s \<noteq> []" "\<not> has_p2p s"
  shows "result_spec (\<lambda>t. vid_inv env t \<and> in_state HTTP_DOWNLOADING P2P_NONE t) (vid_ChangeTo2000 s)"
  using assms vid_inv_target [OF assms(1,2)]
  by (auto simp: vid_ChangeTo2000_def vid_http_Resume_def vid_keep)

lemma vid_3000_inv:
  assumes "vid_inv env s" "in_state HTTP_PAUSING P2P_NONE s"
  shows "vid_post env s (vid_3000 env s)"
proof (cases "has_p2p s")
  case True
  then have "\<not> NeedHttpStart env"
    using assms by (simp add: vid_inv_def vid_env_ok_def)
  moreover have "vid_inv env (s\<lparr>p2p_st := P2P_PAUSING, timer_using := TIMER_USING_NONE, timer_st := TIMER_NONE\<rparr>)"
    using assms True by (auto simp: vid_keep)
  ultimately show ?thesis
    using assms(2) True by (simp add: vid_3000_def vid_post_def vid_rank_def in_state_def)
next
  case False
  have h: "https s \<noteq> []" using assms by (auto simp: vid_inv_def vid_ok_def in_state_def)
  from vid_ChangeTo2000_inv [OF assms(1) h False] obtain t where t: "vid_ChangeTo2000 s = Inr t"
    "vid_inv env t" "in_state HTTP_DOWNLOADING P2P_NONE t"
    by (auto simp: result_spec_iff)
  show ?thesis
    using assms t False by (simp add: vid_3000_def vid_post_def vid_rank_def in_state_def)
qed

lemma vid_3300_inv:
  assumes "vid_inv env s" "in_state HTTP_PAUSING P2P_PAUSING s"
  shows "vid_post env s (vid_3300 env s)"
proof -
  have "vid_pre env s"
    using assms by (intro vid_inv_pre) (auto simp: vid_inv_def vid_ok_def in_state_def)
  from vid_ChangeTo_spec(3) [OF this] vid_ChangeTo_spec(2) [OF this, of True] assms(2)
  show ?thesis
    by (auto simp: vid_3300_def vid_post_def vid_rank_def in_state_def result_spec_iff)
qed

lemma vid_2000_inv:
  assumes "vid_inv env s" "in_state HTTP_DOWNLOADING P2P_NONE s"
  shows "vid_post env s (vid_2000 env s)"
proof (cases "has_p2p s")
  case True
  then have pre: "vid_pre env s" and "GetBWType env \<noteq> JBW_HTTP_ONLY"
    using assms by (auto simp: vid_inv_def vid_ok_def in_state_def vid_env_ok_def driver_ok_def intro!: vid_inv_pre)
  moreover have "result_spec (\<lambda>t. vid_inv env t \<and> vid_rank env t = 0)
     ((if NeedHttpStart env then vid_ChangeTo2300 env else vid_ChangeTo3200 env True) s)"
    using vid_ChangeTo_spec(3) [OF pre] vid_ChangeTo_spec(2) [OF pre, of True]
    by (auto simp: vid_rank_def in_state_def elim!: result_spec_mono)
  moreover have "vid_rank env (t\<lparr>notices := n\<rparr>) = vid_rank env t" for t n
    by (simp add: vid_rank_def in_state_def)
  moreover have "vid_rank env s = 1" using assms(2) by (simp add: vid_rank_def in_state_def)
  ultimately show ?thesis
    using True by (simp add: vid_2000_def vid_post_def flow_spec_with result_spec_seq result_spec_and_then
      del: seq.simps)
next
  case False
  with assms show ?thesis by (simp add: vid_2000_def vid_post_def)
qed

lemma vid_ChangeTo0200_inv:
  assumes "vid_inv env s" "in_state HTTP_NONE P2P_PAUSING s"
  shows "result_spec (vid_inv env) (vid_ChangeTo0200 s)"
  using assms by (auto simp: vid_ChangeTo0200_def p2p_call_defs vid_keep update_p2p_def)

lemma vid_0000_inv:
  assumes "vid_inv env s"
  shows "vid_inv env (vid_0000 s)"
proof (cases "in_state HTTP_NONE P2P_NONE s")
  case True
  then have "https s = []" "vid_target s = None"
    using assms by (simp_all add: vid_inv_def vid_ok_def vid_target_def GetCurrentHttpTarget_def in_state_def)
  with True assms show ?thesis by (simp add: vid_0000_def vid_at_def vid_keep)
next
  case False
  with assms show ?thesis by (simp add: vid_0000_def vid_at_def)
qed

lemma vid_0000_id: "\<not> in_state HTTP_NONE P2P_NONE s \<Longrightarrow> vid_0000 s = s"
  by (simp add: vid_0000_def vid_at_def)

lemma vid_dispatch_inv:
  assumes inv: "vid_inv env s"
  shows "vid_post env s (vid_dispatch env s)"
proof -
  have at: "vid_at h p s \<longleftrightarrow> in_state h p s" for h p
    using inv by (simp add: vid_at_def vid_inv_def vid_ok_def)
  have st: "http_st s = HTTP_NONE \<longleftrightarrow> https s = []" "p2p_st s \<noteq> P2P_NONE \<Longrightarrow> has_p2p s"
    using inv by (simp_all add: vid_inv_def vid_ok_def)
  show ?thesis
    using inv st vid_3000_inv [OF inv] vid_3300_inv [OF inv] vid_2000_inv [OF inv]
      vid_2200_inv [OF inv, THEN vid_post_break] vid_3200_inv [OF inv, THEN vid_post_break]
      vid_2300_inv [OF inv, THEN vid_post_break] vid_ChangeTo0200_inv [OF inv]
    by (auto simp: vid_dispatch_def at in_state_def vid_post_break flow_spec_with)
qed

lemma vid_body_inv:
  assumes "vid_inv env s"
  shows "vid_post env s (vid_body env s)"
proof (cases "in_state HTTP_NONE P2P_NONE s")
  case True
  then have st: "http_st (vid_0000 s) = HTTP_NONE" "p2p_st (vid_0000 s) \<noteq> P2P_DOWNLOADING"
    using assms by (auto simp: vid_0000_def vid_at_def in_state_def vid_inv_def vid_ok_def vid_target_def GetCurrentHttpTarget_def)
  with vid_0000_inv [OF assms] vid_ChangeTo0200_inv [of env "vid_0000 s"]
  show ?thesis
    by (auto simp: vid_body_def vid_dispatch_def vid_at_def in_state_def vid_post_def flow_spec_with
        intro: flow_spec_mono)
next
  case False
  with vid_dispatch_inv [OF assms] vid_0000_id show ?thesis by (simp add: vid_body_def)
qed

interpretation vid: control_loop vid_body vid_inv vid_rank
  by standard (use vid_body_inv vid_post_def in auto)

section \<open>Memory, start and ticks\<close>

text \<open>What a timer activation needs besides \<open>vid_env_ok\<close>: no external control through
  \<^verbatim>\<open>switch.ini\<close>, and something to resume when the memory pool recovers.\<close>

definition vid_tick_ok :: "env \<Rightarrow> video_mode \<Rightarrow> bool" where
  "vid_tick_ok env s =
     (vid_env_ok env s \<and> switch_ini env = None \<and>
      (is_memory_full s \<longrightarrow> left_capacity env \<noteq> None \<and> (has_http s \<or> has_p2p s)))"

lemma vid_ok_target:
  assumes "vid_ok s"
  shows "vid_target s = (if https s = [] then None else Some (current_http_target_index (http_target_manager s)))"
    "https s \<noteq> [] \<Longrightarrow> current_http_target_index (http_target_manager s) < length (https s)"
    "length (https s) = Suc 0 \<Longrightarrow> current_http_target_index (http_target_manager s) = 0"
  using assms by (auto simp: vid_ok_def targets_ok_def vid_target_def GetCurrentHttpTarget_def)

text \<open>The four combinations of sources a driver can have.\<close>

lemma vid_sources_cases:
  obtains "https s = []" "p2p_dl s = None"
  | p where "https s = []" "p2p_dl s = Some p"
  | "https s \<noteq> []" "p2p_dl s = None"
  | p where "https s \<noteq> []" "p2p_dl s = Some p"
  by (cases "p2p_dl s"; cases "https s = []") auto

lemma vid_ok_parts:
  assumes "vid_ok s"
  shows "is_running s" "targets_ok (http_target_manager s)"
    "targets_size (http_target_manager s) = length (https s)" "p2p_status s \<noteq> p2p_good"
    "trying_http_targets (http_target_manager s) \<Longrightarrow> j < length (https s) \<Longrightarrow>
       j \<noteq> current_http_target_index (http_target_manager s) \<Longrightarrow> https s ! j"
  using assms by (simp_all add: vid_ok_def vid_sources_agree_def)

lemmas vid_memory_defs = CheckMemory_def vid_http_Pause_def vid_http_Resume_def p2p_call_defs vid_ok_def
  has_p2p_def vid_sources_agree_def agree_defs downloading_def

lemma vid_memory_low:
  assumes "vid_ok s" "\<not> is_memory_full s" "left < 1024"
  shows "\<exists>t. CheckMemory env left s = Inr (True, t) \<and> vid_ok t \<and> is_memory_full t \<and> \<not> downloading t"
proof -
  have tgt: "vid_target (s\<lparr>is_memory_full := b\<rparr>) = vid_target s" for b by (simp add: vid_target_def)
  note facts = assms(2,3) vid_ok_target [OF assms(1)] vid_ok_parts [OF assms(1)] tgt
  show ?thesis
    by (cases s rule: vid_sources_cases) (use facts in \<open>simp_all add: vid_memory_defs nth_list_update\<close>)
qed

lemma vid_memory_recovers:
  assumes "vid_ok s" "is_memory_full s" "1280 \<le> left" "https s \<noteq> [] \<or> p2p_dl s \<noteq> None"
  shows "\<exists>t. CheckMemory env left s = Inr (True, t) \<and> vid_ok t \<and> \<not> is_memory_full t \<and> downloading t"
proof -
  have tgt: "vid_target (s\<lparr>is_memory_full := b\<rparr>) = vid_target s" for b by (simp add: vid_target_def)
  have "length (https s) = 1 \<Longrightarrow> https s ! 0"
    using assms(1,2) by (cases "http_st s") (auto simp: vid_ok_def vid_sources_agree_def http_agrees_def)
  note facts = assms(2-4) vid_ok_target [OF assms(1)] vid_ok_parts [OF assms(1)] tgt this
  show ?thesis
    by (cases s rule: vid_sources_cases) (use facts in \<open>simp_all add: vid_memory_defs nth_list_update\<close>)
qed

lemma vid_memory_cases:
  assumes "vid_ok s" "vid_tick_ok env s"
  obtains t where "vid_memory env s = Inr (True, t)" "vid_ok t"
  | "vid_memory env s = Inr (False, s)" "\<not> is_memory_full s"
proof (cases "left_capacity env")
  case None
  with assms(2) that(2) show ?thesis by (simp add: vid_memory_def vid_tick_ok_def)
next
  case (Some left)
  consider "\<not> is_memory_full s" "\<not> left < 1024" | "\<not> is_memory_full s" "left < 1024"
    | "is_memory_full s" "1280 \<le> left" | "is_memory_full s" "\<not> 1280 \<le> left" by blast
  then show ?thesis
  proof cases
    case 1
    with Some that(2) show ?thesis by (simp add: vid_memory_def CheckMemory_def)
  next
    case 2
    with Some that(1) vid_memory_low [OF assms(1)] show ?thesis by (auto simp: vid_memory_def)
  next
    case 3
    with assms(2) have "https s \<noteq> [] \<or> p2p_dl s \<noteq> None"
      by (auto simp: vid_tick_ok_def has_http_def has_p2p_def)
    with 3 Some that(1) vid_memory_recovers [OF assms(1)] show ?thesis by (auto simp: vid_memory_def)
  next
    case 4
    with Some that(1) assms(1) show ?thesis by (simp add: vid_memory_def CheckMemory_def)
  qed
qed

lemma vid_tick:
  assumes "vid_ok s" "vid_tick_ok env s"
  shows "\<exists>t. vid_OnControlTimer env s = Some (Inr t) \<and> vid_ok t"
proof -
  have sw: "switch_ini env = None" using assms(2) by (simp add: vid_tick_ok_def)
  show ?thesis
  proof (cases rule: vid_memory_cases [OF assms])
    case 1
    with assms(1) sw show ?thesis by (auto simp: vid_OnControlTimer_def)
  next
    case 2
    with assms have "vid_inv env s" by (simp add: vid_inv_def vid_tick_ok_def)
    from vid.loop_returns [OF this] 2 assms(1) sw show ?thesis
      by (auto simp: vid_OnControlTimer_def vid_inv_def)
  qed
qed

text \<open>A tick whose memory check lets the loop run.\<close>

lemma vid_tick_spec:
  assumes "vid_inv env s" "switch_ini env = None" "left_capacity env = None" "\<not> is_paused_by_sdk s"
    and "J s" "\<And>u. vid_inv env u \<Longrightarrow> J u \<Longrightarrow> flow_spec Q J (vid_body env u)"
  shows "\<exists>t. vid_OnControlTimer env s = Some (Inr t) \<and> vid_ok t \<and> Q t"
proof -
  have "is_running s" using assms(1) by (simp add: vid_inv_def vid_ok_def)
  with vid.loop_spec [of env s J Q, OF assms(1,5,6)] assms(2-4) show ?thesis
    by (auto simp: vid_OnControlTimer_def vid_memory_def vid_inv_def)
qed

section \<open>Runs\<close>

text \<open>
  \<^verbatim>\<open>Start\<close> of a freshly constructed mode, all HTTP downloaders pausing (a new \<^verbatim>\<open>HttpConnection\<close>
  is), then any interleaving of timer activations, pauses and resumptions by the SDK, and
  the arrival of the P2P downloader.
\<close>

definition vid_fresh :: "bool list \<Rightarrow> p2p_target option \<Rightarrow> video_mode" where
  "vid_fresh hs p = \<lparr>http_st = HTTP_NONE, p2p_st = P2P_NONE, timer_using = TIMER_USING_NONE,
     timer_st = TIMER_NONE, rid_st = RID_NONE, is_running = False, is_paused_by_sdk = False,
     https = hs, p2p_dl = p, notices = [],
     time_counter_x = 0, time_counter_y = 0, time_counter_h = 0, is_timer_h_reset = False,
     time_counter_2200 = 0, time_counter_2300 = 0, time_counter_3200 = 0, is_memory_full = False,
     is_p2p_start = False, http_status = http_unknown, p2p_status = p2p_unknown,
     p2p_failed_times = 0, http_target_manager = HttpTargetsManager\<rparr>"

fun vid_ticks :: "env list \<Rightarrow> video_mode \<Rightarrow> video_mode result option" where
  "vid_ticks [] s = Some (Inr s)"
| "vid_ticks (env # envs) s =
     (case vid_OnControlTimer env s of
        Some (Inr s') \<Rightarrow> vid_ticks envs s'
      | r \<Rightarrow> r)"

inductive vid_step :: "video_mode \<Rightarrow> video_mode \<Rightarrow> bool" where
  tick: "vid_tick_ok env s \<Longrightarrow> vid_OnControlTimer env s = Some (Inr s') \<Longrightarrow> vid_step s s'"
| sdk: "ResumeOrPause b s = Inr s' \<Longrightarrow> vid_step s s'"
| attach: "p2p_dl s = None \<Longrightarrow> is_p2p_pausing t \<Longrightarrow> vid_step s (s\<lparr>p2p_dl := Some t\<rparr>)"

inductive vid_reachable :: "video_mode \<Rightarrow> bool" where
  start: "list_all id hs \<Longrightarrow> driver_ok env (vid_fresh hs p) \<Longrightarrow> switch_ini env = None \<Longrightarrow>
    vid_Start env (vid_fresh hs p) = Some (Inr s) \<Longrightarrow> vid_reachable s"
| step: "vid_reachable s \<Longrightarrow> vid_step s s' \<Longrightarrow> vid_reachable s'"

lemma vid_start_actions_ok:
  assumes "list_all id hs"
  shows "\<exists>t. vid_start_actions env (vid_fresh hs p) = Inr t \<and> vid_ok t \<and> \<not> is_memory_full t
    \<and> https t = hs \<and> (has_p2p t \<longleftrightarrow> p \<noteq> None) \<and> \<not> is_paused_by_sdk t
    \<and> p2p_st t = (if p = None then P2P_NONE else P2P_PAUSING)"
proof -
  have hs: "j < length hs \<Longrightarrow> hs ! j" for j using assms by (simp add: list_all_length)
  have "hs[0 := True] = hs" by (cases hs) (use assms in auto)
  then show ?thesis
    by (cases "vid_fresh hs p" rule: vid_sources_cases)
       (auto simp: vid_start_actions_def vid_fresh_def ControlMode_Start_def on_manager_def
         SetHttpTargets_def HttpTargetsManager_def vid_target_def GetCurrentHttpTarget_def has_p2p_def
         vid_http_Pause_def p2p_call_defs vid_initial_def vid_ok_def targets_ok_def
         vid_sources_agree_def agree_defs hs)
qed

lemma vid_Start_returns:
  assumes "list_all id hs" "driver_ok env (vid_fresh hs p)" "switch_ini env = None"
  shows "\<exists>t. vid_Start env (vid_fresh hs p) = Some (Inr t) \<and> vid_ok t"
proof -
  from vid_start_actions_ok [OF assms(1), of env p] obtain t where t:
    "vid_start_actions env (vid_fresh hs p) = Inr t" "vid_ok t" "\<not> is_memory_full t" "https t = hs"
    "has_p2p t \<longleftrightarrow> p \<noteq> None" "p2p_st t = (if p = None then P2P_NONE else P2P_PAUSING)" by blast
  have "vid_tick_ok env t"
    using assms(2,3) t
    by (auto simp: vid_tick_ok_def vid_env_ok_def driver_ok_def in_state_def has_http_def vid_fresh_def has_p2p_def)
  from vid_tick [OF t(2) this] t(1) show ?thesis
    by (simp add: vid_Start_def vid_fresh_def)
qed

lemma vid_sdk:
  assumes "vid_ok s" "ResumeOrPause b s = Inr t"
  shows "vid_ok t"
proof (cases b)
  case True
  note facts = vid_ok_target [OF assms(1)] vid_ok_parts [OF assms(1)]
  have "result_spec vid_ok (ResumeOrPause b s)"
    by (cases s rule: vid_sources_cases)
       (use facts assms(1) True in \<open>auto simp: ResumeOrPause_def vid_ok_def has_p2p_def has_http_def
          p2p_call_defs vid_sources_agree_def agree_defs nth_list_update\<close>)
  with assms(2) show ?thesis by simp
next
  case False
  with assms have "t = s\<lparr>is_paused_by_sdk := False\<rparr>"
    by (simp add: ResumeOrPause_resumes vid_ok_parts(1))
  moreover have "vid_ok (s\<lparr>is_paused_by_sdk := False\<rparr>) = vid_ok s"
    by (simp add: vid_ok_def vid_sources_agree_def agree_defs has_p2p_def)
  ultimately show ?thesis using assms(1) by simp
qed

lemma vid_attach:
  assumes "vid_ok s" "p2p_dl s = None" "is_p2p_pausing t"
  shows "vid_ok (s\<lparr>p2p_dl := Some t\<rparr>)"
proof -
  have "p2p_st s = P2P_NONE" using assms(1,2) by (auto simp: vid_ok_def has_p2p_def)
  with assms show ?thesis by (simp add: vid_ok_def vid_sources_agree_def agree_defs has_p2p_def)
qed

lemma vid_reachable_ok: "vid_reachable s \<Longrightarrow> vid_ok s"
proof (induction rule: vid_reachable.induct)
  case (start hs env p s)
  then show ?case using vid_Start_returns [of hs env p] by auto
next
  case (step s s')
  from step.hyps(2) step.IH show ?case
    by (cases rule: vid_step.cases) (use vid_tick vid_sdk vid_attach in fastforce)+
qed

section \<open>Single passes\<close>

lemma vid_body_at:
  assumes "vid_inv env s"
  shows "in_state HTTP_PAUSING P2P_PAUSING s \<Longrightarrow> vid_body env s = vid_3300 env s"
    "in_state HTTP_PAUSING P2P_DOWNLOADING s \<Longrightarrow> vid_body env s = vid_3200 env s"
    "in_state HTTP_DOWNLOADING P2P_PAUSING s \<Longrightarrow> vid_body env s = vid_2300 env s"
  using assms
  by (simp_all add: vid_body_def vid_0000_def vid_at_def vid_dispatch_def in_state_def vid_inv_def vid_ok_def)

lemma vid_inv_both:
  assumes "vid_inv env s" "in_state h p s" "h \<noteq> HTTP_NONE" "p \<noteq> P2P_NONE"
  shows "https s \<noteq> []" "has_p2p s" "vid_pre env s"
  using assms by (auto simp: vid_inv_def vid_ok_def in_state_def intro!: vid_inv_pre)

text \<open>What a transition changes besides the state and the counters.\<close>

lemma vid_ChangeTo2300_p2p:
  assumes "vid_pre env s"
  shows "result_spec (\<lambda>t. in_state HTTP_DOWNLOADING P2P_PAUSING t \<and> p2p_failed_times t = p2p_failed_times s
    \<and> p2p_status t = p2p_status s) (vid_ChangeTo2300 env s)"
  using vid_pre_current [OF assms]
  by (auto simp: vid_ChangeTo2300_def vid_http_Resume_def p2p_call_defs in_state_def)

lemma vid_ChangeTo3200_fresh:
  assumes "vid_pre env s"
  shows "result_spec (\<lambda>t. in_state HTTP_PAUSING P2P_DOWNLOADING t \<and> http_status t = http_status s
    \<and> time_counter_3200 t = now env) (vid_ChangeTo3200 env b s)"
  using vid_pre_current [OF assms]
  by (auto simp: vid_ChangeTo3200_def vid_http_Pause_def p2p_call_defs in_state_def)

lemma vid_3200_fresh:
  assumes "vid_inv env s" "in_state HTTP_PAUSING P2P_DOWNLOADING s" "http_status s \<noteq> http_good"
    and "elapsed env (time_counter_3200 s) < 5000"
  shows "flow_spec (in_state HTTP_PAUSING P2P_DOWNLOADING) (\<lambda>_. False) (vid_3200 env s)"
proof -
  obtain p where "p2p_dl s = Some p" using vid_inv_both(2) [OF assms(1,2)] by (auto simp: has_p2p_def)
  moreover have "\<not> 10000 \<le> elapsed env (time_counter_3200 s)"
    using less_trans [OF assms(4), of 10000] by (simp add: linorder_not_le)
  ultimately show ?thesis
    using assms(2-) by (simp add: vid_3200_def p2p_call_defs Is3200P2pSlow_def Let_def linorder_not_le [symmetric] in_state_def)
qed

lemma vid_3200_urgent:
  assumes "vid_inv env s" "in_state HTTP_PAUSING P2P_DOWNLOADING s" "http_status s = http_good"
    and "GetRestPlayableTime env < 10000"
  shows "flow_spec (\<lambda>t. in_state HTTP_DOWNLOADING P2P_PAUSING t
     \<and> p2p_failed_times t = p2p_failed_times s + 1 \<and> p2p_status t = p2p_bad) (\<lambda>_. False) (vid_3200 env s)"
proof -
  have st: "https s \<noteq> []" "has_p2p s" using vid_inv_both [OF assms(1,2)] by auto
  obtain p where p: "p2p_dl s = Some p"
    and s: "vid_inv env (s\<lparr>p2p_dl := Some (p\<lparr>dl_mode := m, download_priority := q\<rparr>)\<rparr>)"
      "vid_pre env (s\<lparr>p2p_dl := Some (p\<lparr>dl_mode := m, download_priority := q\<rparr>)\<rparr>)" for m q
    using vid_p2p_prepare [OF assms(1) st] by metis
  let ?s = "s\<lparr>p2p_dl := Some (p\<lparr>dl_mode := mode_3200 env s, download_priority := CalcDownloadPriority env\<rparr>)\<rparr>"
  have "\<exists>slow u. Is3200P2pSlow env ?s = Inr (slow, u) \<and> p2p_failed_times u = p2p_failed_times s \<and> vid_pre env u"
    using s(2) [of "CalcDownloadPriority env" "mode_3200 env s"] p
    by (auto simp: Is3200P2pSlow_def Let_def read_p2p_def has_p2p_def)
  then obtain slow u where u: "Is3200P2pSlow env ?s = Inr (slow, u)" "p2p_failed_times u = p2p_failed_times s" "vid_pre env u"
    by blast
  have "GetRestPlayableTime env < 15000"
    using less_trans [OF assms(4), of 15000] by simp
  with u(1) assms(4) have "rest_is_short env ?s = Inr (True, u)" by (simp add: rest_is_short_def Let_def)
  moreover from vid_ChangeTo2300_p2p [OF vid_pre_update(5) [OF u(3)]]
  have "result_spec (\<lambda>t. in_state HTTP_DOWNLOADING P2P_PAUSING t
     \<and> p2p_failed_times t = p2p_failed_times s + 1 \<and> p2p_status t = p2p_bad) (vid_ChangeTo2300 env (p2p_fails u))"
    by (rule result_spec_mono) (use u(2) in \<open>simp_all add: p2p_fails_def\<close>)
  ultimately show ?thesis using p assms(3) by (simp add: vid_3200_def p2p_call_defs flow_spec_with)
qed

lemma vid_2300_not_3200:
  assumes "vid_inv env s" "in_state HTTP_DOWNLOADING P2P_PAUSING s"
    and "p2p_status s = p2p_bad" "3 \<le> p2p_failed_times s"
  shows "flow_spec (\<lambda>t. http_st t = HTTP_DOWNLOADING) (\<lambda>_. False) (vid_2300 env s)"
proof -
  have pre: "vid_pre env s" using vid_inv_both [OF assms(1,2)] by simp
  note p2p = vid_pre_current(4) [OF pre]
  have "Check2300HttpSpeed env s = Inr (speed, s\<lparr>http_status := h\<rparr>)
      \<Longrightarrow> result_spec (\<lambda>t. http_st t = HTTP_DOWNLOADING) (case speed of
              http_slow \<Rightarrow> vid_2300_slow env (s\<lparr>http_status := h\<rparr>)
            | http_fast \<Rightarrow> vid_2300_fast env (s\<lparr>http_status := h\<rparr>)
            | http_checking \<Rightarrow> vid_2300_checking env (s\<lparr>http_status := h\<rparr>))" for speed h
    using vid_2300_slow_bad [of env "s\<lparr>http_status := h\<rparr>"] assms pre p2p
    by (auto simp: vid_2300_fast_def vid_2300_checking_def in_state_def result_spec_and_then cond_spec
       Is2300RestTimeEnough_def read_p2p_def has_p2p_def Let_def elim: result_spec_mono split: HTTPSPEED.split)
  moreover have "\<exists>speed h. Check2300HttpSpeed env s = Inr (speed, s\<lparr>http_status := h\<rparr>)"
  proof -
    have "\<exists>h. s = s\<lparr>http_status := h\<rparr>" by (rule exI [of _ "http_status s"]) simp
    then show ?thesis
      using p2p vid_pre_current(2) [OF pre]
      by (auto simp: Check2300HttpSpeed_def read_p2p_def vid_http_speed_def set_http_status_def has_p2p_def
        split: HTTPSPEED.splits)
  qed
  ultimately obtain speed u where u: "Check2300HttpSpeed env s = Inr (speed, u)" 
     "result_spec (\<lambda>t. http_st t = HTTP_DOWNLOADING) (case speed of
              http_slow \<Rightarrow> vid_2300_slow env u
            | http_fast \<Rightarrow> vid_2300_fast env u
            | http_checking \<Rightarrow> vid_2300_checking env u)"
    by blast
  have "result_spec (\<lambda>t. http_st t = HTTP_DOWNLOADING) (vid_ChangeTo2200 env s)"
    using vid_ChangeTo_spec(1) [OF pre] by (rule result_spec_mono) (simp add: in_state_def)
  with u assms(2) p2p vid_pre_current(2) [OF pre] show ?thesis
    by (auto simp: vid_2300_def read_p2p_def has_p2p_def vid_http_speed_def flow_spec_with result_spec_and_then
        cond_spec in_state_def elim: result_spec_mono)
qed

section \<open>Properties\<close>


lemma vid_example_start:
  assumes "list_all id hs"
  obtains s where "vid_Start (env_at n) (vid_fresh hs (Some p)) = Some (Inr s)" "vid_reachable s"
proof -
  have ok: "driver_ok (env_at n) (vid_fresh hs (Some p))" "switch_ini (env_at n) = None"
    by (simp_all add: driver_ok_def env_at_def env0_def)
  from vid_Start_returns [OF assms ok] obtain s where s: "vid_Start (env_at n) (vid_fresh hs (Some p)) = Some (Inr s)"
    by blast
  from that [OF s vid_reachable.start [OF assms ok s]] show ?thesis .
qed


text \<open>While backup targets are being tried, at most one HTTP downloader of the video runs,
  in every reachable state.\<close>

theorem vid_one_http_while_trying:
  assumes "vid_reachable s" "trying_http_targets (http_target_manager s)"
    and "i < length (https s)" "j < length (https s)" "\<not> https s ! i" "\<not> https s ! j"
  shows "i = j"
  using vid_ok_parts(5) [OF vid_reachable_ok [OF assms(1)] assms(2)] assms(3-) by metis

text \<open>
  A run with two HTTP targets that deliver nothing: P2P is slow for five seconds, HTTP takes
  over, and after five more seconds the first target is exchanged for the second.
\<close>

definition vid_backup_start :: "video_mode result option" where
  "vid_backup_start = vid_Start (env_at 0) (vid_fresh [True, True] (Some p2p_target0))"

text \<open>Inputs of the normal bandwidth type, without external control or memory pool.\<close>

definition vid_calm :: "env \<Rightarrow> bool" where
  "vid_calm env = (switch_ini env = None \<and> left_capacity env = None \<and> HasRID env
     \<and> GetBWType env = JBW_NORMAL \<and> \<not> NeedHttpStart env)"

lemma vid_calm_tick_ok: "vid_calm env \<Longrightarrow> \<not> is_memory_full u \<Longrightarrow> vid_tick_ok env u"
  by (simp add: vid_calm_def vid_tick_ok_def vid_env_ok_def driver_ok_def)

lemma vid_calm_tick_reachable:
  assumes "vid_reachable s" "\<not> is_memory_full s" "vid_calm env" "vid_OnControlTimer env s = Some (Inr t)"
  shows "vid_reachable t" "\<not> is_memory_full t"
proof -
  show "vid_reachable t"
    using assms vid_calm_tick_ok by (blast intro: vid_reachable.step vid_step.tick)
  have inv: "vid_inv env s"
    using vid_reachable_ok [OF assms(1)] vid_calm_tick_ok [OF assms(3,2)] assms(2)
    by (simp add: vid_inv_def vid_tick_ok_def)
  from vid.loop_returns [OF inv] assms(2-) show "\<not> is_memory_full t"
    by (auto simp: vid_OnControlTimer_def vid_memory_def vid_inv_def vid_calm_def split: if_splits)
qed

lemma vid_calm_ticks_reachable:
  assumes "vid_ticks envs s = Some (Inr t)" "vid_reachable s" "\<not> is_memory_full s" "list_all vid_calm envs"
  shows "vid_reachable t" "\<not> is_memory_full t"
  using assms
proof (induction envs arbitrary: s)
  case (Cons env envs)
  {
    case 1
    then obtain u where "vid_OnControlTimer env s = Some (Inr u)" "vid_ticks envs u = Some (Inr t)"
      by (auto split: option.splits sum.splits)
    with 1 Cons.IH(1) [of u] vid_calm_tick_reachable [of s env u] show ?case by simp
  next
    case 2
    then obtain u where "vid_OnControlTimer env s = Some (Inr u)" "vid_ticks envs u = Some (Inr t)"
      by (auto split: option.splits sum.splits)
    with 2 Cons.IH(2) [of u] vid_calm_tick_reachable [of s env u] show ?case by simp
  }
qed simp_all

lemma vid_calm_env_at: "vid_calm (env_at n)" "vid_calm ((env_at n)\<lparr>GetRestPlayableTime := r\<rparr>)"
  "vid_calm ((env_at n)\<lparr>http_speed := h, GetRestPlayableTime := r\<rparr>)"
  by (simp_all add: vid_calm_def env_at_def env0_def NeedHttpStart_def PrefersSavingServerBandwidth_def)

text \<open>Running the model: ticks after the start with two targets.\<close>

definition vid_run :: "env list \<Rightarrow> video_mode result option" where
  "vid_run envs = (case vid_backup_start of Some (Inr s) \<Rightarrow> vid_ticks envs s | r \<Rightarrow> r)"

lemma vid_backup_start_ok:
  obtains s where "vid_backup_start = Some (Inr s)" "vid_reachable s" "\<not> is_memory_full s"
proof -
  obtain s where s: "vid_backup_start = Some (Inr s)" "vid_reachable s"
    using vid_example_start [of "[True, True]" 0] by (auto simp: vid_backup_start_def)
  have "map_option (map_sum id is_memory_full) vid_backup_start = Some (Inr False)" by code_simp
  then have "\<not> is_memory_full s" unfolding s(1) by simp
  from that [OF s this] show ?thesis .
qed

lemma vid_run_reachable:
  assumes "vid_run envs = Some (Inr s)" "list_all vid_calm envs"
  shows "vid_reachable s" "\<not> is_memory_full s"
proof -
  obtain s0 where s0: "vid_backup_start = Some (Inr s0)" "vid_reachable s0" "\<not> is_memory_full s0"
    using vid_backup_start_ok by blast
  have "vid_ticks envs s0 = Some (Inr s)" using assms(1) unfolding vid_run_def s0(1) by simp
  from vid_calm_ticks_reachable [OF this s0(2,3) assms(2)] show "vid_reachable s" "\<not> is_memory_full s" .
qed

definition vid_backup_envs :: "env list" where
  "vid_backup_envs = [env_at 5000, env_at 10000]"

lemma vid_backup_example:
  obtains s where "vid_run vid_backup_envs = Some (Inr s)" "vid_reachable s"
    "http_st s = HTTP_DOWNLOADING" "https s = [True, False]" "current_http_target_index (http_target_manager s) = 1"
    "trying_http_targets (http_target_manager s)"
proof -
  have "map_option (map_sum id (\<lambda>s. (http_st s, https s, current_http_target_index (http_target_manager s),
      trying_http_targets (http_target_manager s)))) (vid_run vid_backup_envs)
     = Some (Inr (HTTP_DOWNLOADING, [True, False], 1, True))" by code_simp
  then obtain s where s: "vid_run vid_backup_envs = Some (Inr s)" "http_st s = HTTP_DOWNLOADING" "https s = [True, False]"
    "current_http_target_index (http_target_manager s) = 1" "trying_http_targets (http_target_manager s)"
    by (auto simp: map_sum_eq_Inr)
  have "vid_reachable s"
    by (rule vid_run_reachable [OF s(1)]) (simp add: vid_backup_envs_def vid_calm_env_at)
  from that [OF s(1) this s(2-)] show ?thesis .
qed

theorem vid_one_http_while_trying_witness:
  "\<exists>s. vid_reachable s \<and> trying_http_targets (http_target_manager s) \<and> length (https s) = 2
     \<and> (\<forall>i j. i < 2 \<and> j < 2 \<and> \<not> https s ! i \<and> \<not> https s ! j \<longrightarrow> i = j)"
proof -
  obtain s where s: "vid_reachable s" "trying_http_targets (http_target_manager s)" "https s = [True, False]"
    using vid_backup_example by metis
  then show ?thesis using vid_one_http_while_trying [OF s(1,2)] by (intro exI [of _ s]) simp
qed

text \<open>The start policy: from \<^verbatim>\<open>3300\<close> with both sources, one activation starts HTTP alone when
  the request asks for it (head, drag, start from non-zero, bandwidth type \<^verbatim>\<open>1\<close> to \<^verbatim>\<open>3\<close>), and P2P
  alone otherwise (as long as HTTP has not been found good, with a clock that does not jump).\<close>

theorem vid_start_policy:
  assumes "vid_reachable s" "vid_tick_ok env s" "left_capacity env = None" "\<not> is_paused_by_sdk s"
    and "in_state HTTP_PAUSING P2P_PAUSING s" "http_status s \<noteq> http_good" "elapsed env (now env) < 5000"
  shows "\<exists>t. vid_OnControlTimer env s = Some (Inr t) \<and>
    (if NeedHttpStart env then in_state HTTP_DOWNLOADING P2P_PAUSING t
     else in_state HTTP_PAUSING P2P_DOWNLOADING t)"
proof -
  let ?J = "\<lambda>u. http_status u \<noteq> http_good \<and> (in_state HTTP_PAUSING P2P_PAUSING u
    \<or> (\<not> NeedHttpStart env \<and> in_state HTTP_PAUSING P2P_DOWNLOADING u \<and> time_counter_3200 u = now env))"
  let ?Q = "\<lambda>t. if NeedHttpStart env then in_state HTTP_DOWNLOADING P2P_PAUSING t
     else in_state HTTP_PAUSING P2P_DOWNLOADING t"
  have inv: "vid_inv env s" and sw: "switch_ini env = None"
    using vid_reachable_ok [OF assms(1)] assms(2,3) by (auto simp: vid_inv_def vid_tick_ok_def)
  have "flow_spec ?Q ?J (vid_body env u)" if u: "vid_inv env u" "?J u" for u
  proof (cases "in_state HTTP_PAUSING P2P_PAUSING u")
    case True
    have pre: "vid_pre env u" using vid_inv_both [OF u(1) True] by simp
    from vid_ChangeTo2300_p2p [OF pre] vid_ChangeTo3200_fresh [OF pre, of True] u(2)
    show ?thesis
      by (auto simp: vid_body_at [OF u(1)] True vid_3300_def flow_spec_with elim!: result_spec_mono)
  next
    case False
    with u(2) have "\<not> NeedHttpStart env" and st: "in_state HTTP_PAUSING P2P_DOWNLOADING u"
      "http_status u \<noteq> http_good" "time_counter_3200 u = now env" by auto
    with vid_3200_fresh [OF u(1) st(1,2)] assms(7) show ?thesis
      by (auto simp: vid_body_at [OF u(1)] elim: flow_spec_mono)
  qed
  with vid_tick_spec [of env s ?J ?Q, OF inv sw assms(3,4)] assms(5,6) show ?thesis by blast
qed

lemma vid_pause_example:
  obtains s where "vid_reachable s" "in_state HTTP_PAUSING P2P_PAUSING s" "http_status s = http_unknown"
    "\<not> is_paused_by_sdk s" "\<not> is_memory_full s"
proof -
  let ?start = "vid_Start (env_at 0) (vid_fresh [True] (Some p2p_target0))"
  let ?run = "case ?start of Some (Inr s) \<Rightarrow> and_then (ResumeOrPause True s) (ResumeOrPause False) | _ \<Rightarrow> Inl NullPointer"
  obtain s0 where s0: "?start = Some (Inr s0)" "vid_reachable s0"
    using vid_example_start [of "[True]" 0] by auto
  have "map_sum id (\<lambda>s. (http_st s, p2p_st s, http_status s, is_paused_by_sdk s, is_memory_full s)) ?run
     = Inr (HTTP_PAUSING, P2P_PAUSING, http_unknown, False, False)" by code_simp
  then obtain s where s: "?run = Inr s" "in_state HTTP_PAUSING P2P_PAUSING s" "http_status s = http_unknown"
    "\<not> is_paused_by_sdk s" "\<not> is_memory_full s"
    by (auto simp: map_sum_eq_Inr in_state_def)
  then obtain s1 where "ResumeOrPause True s0 = Inr s1" "ResumeOrPause False s1 = Inr s"
    using s0 by auto
  with s0 have "vid_reachable s" by (blast intro: vid_reachable.step vid_step.sdk)
  from that [OF this s(2-)] show ?thesis .
qed

theorem vid_start_policy_witness:
  "\<exists>s t. vid_reachable s \<and> vid_OnControlTimer ((env_at 1000)\<lparr>IsDrag := True\<rparr>) s = Some (Inr t)
     \<and> in_state HTTP_DOWNLOADING P2P_PAUSING t"
proof -
  let ?env = "(env_at 1000)\<lparr>IsDrag := True\<rparr>"
  obtain s where s: "vid_reachable s" "in_state HTTP_PAUSING P2P_PAUSING s" "http_status s = http_unknown"
    "\<not> is_paused_by_sdk s" "\<not> is_memory_full s" using vid_pause_example by metis
  have "vid_tick_ok ?env s" "left_capacity ?env = None" "elapsed ?env (now ?env) < 5000" "NeedHttpStart ?env"
    using s by (simp_all add: vid_tick_ok_def vid_env_ok_def driver_ok_def env_at_def env0_def in_state_def
        NeedHttpStart_def)
  with vid_start_policy [of s ?env] s show ?thesis by auto
qed

text \<open>Pure P2P gives way to HTTP in time: in \<^verbatim>\<open>3200\<close>, with HTTP known to be good and less than
  ten seconds of playable data left, one activation switches to HTTP alone, and the failure of
  P2P is recorded.\<close>

theorem vid_p2p_gives_way:
  assumes "vid_reachable s" "vid_tick_ok env s" "left_capacity env = None" "\<not> is_paused_by_sdk s"
    and "in_state HTTP_PAUSING P2P_DOWNLOADING s" "http_status s = http_good"
    and "GetRestPlayableTime env < 10000"
  shows "\<exists>t. vid_OnControlTimer env s = Some (Inr t) \<and> in_state HTTP_DOWNLOADING P2P_PAUSING t
    \<and> p2p_failed_times t = p2p_failed_times s + 1 \<and> p2p_status t = p2p_bad"
proof -
  let ?Q = "\<lambda>t. in_state HTTP_DOWNLOADING P2P_PAUSING t
    \<and> p2p_failed_times t = p2p_failed_times s + 1 \<and> p2p_status t = p2p_bad"
  have inv: "vid_inv env s" and sw: "switch_ini env = None"
    using vid_reachable_ok [OF assms(1)] assms(2,3) by (auto simp: vid_inv_def vid_tick_ok_def)
  have "flow_spec ?Q (\<lambda>u. u = s) (vid_body env u)" if "u = s" for u
    using vid_3200_urgent [OF inv assms(5-7)] unfolding that
    by (auto simp: vid_body_at [OF inv] assms(5) elim: flow_spec_mono)
  with vid_tick_spec [of env s "\<lambda>u. u = s" ?Q, OF inv sw assms(3,4)] show ?thesis by blast
qed

text \<open>
  A failure of P2P, then fast HTTP in \<^verbatim>\<open>2300\<close> with plenty of buffer: HTTP is good, and P2P takes
  over; with the buffer run down it fails again.
\<close>

definition vid_good_at :: "moment \<Rightarrow> env" where
  "vid_good_at n = (env_at n)\<lparr>http_speed := (\<lambda>_. 204800), GetRestPlayableTime := 60000\<rparr>"

definition vid_urgent_at :: "moment \<Rightarrow> env" where
  "vid_urgent_at n = (env_at n)\<lparr>GetRestPlayableTime := 9000\<rparr>"

lemma vid_calm_at: "vid_calm (vid_good_at n)" "vid_calm (vid_urgent_at n)"
  by (simp_all add: vid_good_at_def vid_urgent_at_def vid_calm_env_at)

lemma vid_good_example:
  obtains s where "vid_reachable s" "in_state HTTP_PAUSING P2P_DOWNLOADING s" "http_status s = http_good"
    "\<not> is_paused_by_sdk s" "\<not> is_memory_full s"
proof -
  let ?envs = "[env_at 5000, vid_good_at 15000]"
  have "map_option (map_sum id (\<lambda>s. (http_st s, p2p_st s, http_status s, is_paused_by_sdk s)))
     (vid_run ?envs) = Some (Inr (HTTP_PAUSING, P2P_DOWNLOADING, http_good, False))" by code_simp
  then obtain s where s: "vid_run ?envs = Some (Inr s)" "in_state HTTP_PAUSING P2P_DOWNLOADING s"
    "http_status s = http_good" "\<not> is_paused_by_sdk s"
    by (auto simp: map_sum_eq_Inr in_state_def)
  have "vid_reachable s" "\<not> is_memory_full s"
    by (rule vid_run_reachable [OF s(1)], simp add: vid_calm_env_at vid_calm_at)+
  from that [OF this(1) s(2-) this(2)] show ?thesis .
qed

theorem vid_p2p_gives_way_witness:
  "\<exists>s t. vid_reachable s \<and> vid_OnControlTimer (vid_urgent_at 16000) s = Some (Inr t)
     \<and> in_state HTTP_DOWNLOADING P2P_PAUSING t \<and> p2p_failed_times t = p2p_failed_times s + 1"
proof -
  obtain s where s: "vid_reachable s" "in_state HTTP_PAUSING P2P_DOWNLOADING s" "http_status s = http_good"
    "\<not> is_paused_by_sdk s" "\<not> is_memory_full s" using vid_good_example by metis
  have "left_capacity (vid_urgent_at 16000) = None" "GetRestPlayableTime (vid_urgent_at 16000) < 10000"
    by (simp_all add: vid_urgent_at_def env_at_def env0_def)
  with vid_p2p_gives_way [of s "vid_urgent_at 16000"] s vid_calm_tick_ok [OF vid_calm_at(2)]
  show ?thesis by blast
qed

text \<open>P2P is given up after three failures: from \<^verbatim>\<open>2300\<close> with three recorded failures of P2P,
  an activation never returns to P2P alone, HTTP keeps downloading.\<close>

theorem vid_p2p_given_up:
  assumes "vid_reachable s" "vid_tick_ok env s" "left_capacity env = None" "\<not> is_paused_by_sdk s"
    and "in_state HTTP_DOWNLOADING P2P_PAUSING s" "p2p_status s = p2p_bad" "3 \<le> p2p_failed_times s"
  shows "\<exists>t. vid_OnControlTimer env s = Some (Inr t) \<and> http_st t = HTTP_DOWNLOADING"
proof -
  let ?Q = "\<lambda>t. http_st t = HTTP_DOWNLOADING"
  have inv: "vid_inv env s" and sw: "switch_ini env = None"
    using vid_reachable_ok [OF assms(1)] assms(2,3) by (auto simp: vid_inv_def vid_tick_ok_def)
  have "flow_spec ?Q (\<lambda>u. u = s) (vid_body env u)" if "u = s" for u
    using vid_2300_not_3200 [OF inv assms(5-7)] unfolding that
    by (auto simp: vid_body_at [OF inv] assms(5) elim: flow_spec_mono)
  with vid_tick_spec [of env s "\<lambda>u. u = s" ?Q, OF inv sw assms(3,4)] show ?thesis by blast
qed

theorem vid_p2p_given_up_witness:
  "\<exists>s t. vid_reachable s \<and> p2p_failed_times s = 3 \<and>
     vid_OnControlTimer (vid_good_at 37000) s = Some (Inr t) \<and> http_st t = HTTP_DOWNLOADING"
proof -
  let ?envs = "[env_at 5000, vid_good_at 15000, vid_urgent_at 16000, vid_good_at 26000, vid_urgent_at 27000]"
  have "map_option (map_sum id (\<lambda>s. (http_st s, p2p_st s, p2p_status s, p2p_failed_times s, is_paused_by_sdk s)))
     (vid_run ?envs) = Some (Inr (HTTP_DOWNLOADING, P2P_PAUSING, p2p_bad, 3, False))" by code_simp
  then obtain s where s: "vid_run ?envs = Some (Inr s)" "in_state HTTP_DOWNLOADING P2P_PAUSING s"
    "p2p_status s = p2p_bad" "p2p_failed_times s = 3" "\<not> is_paused_by_sdk s"
    by (auto simp: map_sum_eq_Inr in_state_def)
  have r: "vid_reachable s" "\<not> is_memory_full s"
    by (rule vid_run_reachable [OF s(1)], simp add: vid_calm_env_at vid_calm_at)+
  have "left_capacity (vid_good_at 37000) = None" by (simp add: vid_good_at_def env_at_def env0_def)
  from vid_p2p_given_up [OF r(1) vid_calm_tick_ok [OF vid_calm_at(1) r(2)] this s(5,2,3)] s(4) r(1)
  show ?thesis by auto
qed

text \<open>Two \<^verbatim>\<open>GetHTTPControlTarget\<close>: a pause by the SDK reaches the first downloader of the
  driver only, so a video that downloads from a backup target keeps downloading over HTTP
  while it is recorded as paused.\<close>

theorem vid_sdk_pause_misses_backup:
  assumes "vid_reachable s" "http_st s = HTTP_DOWNLOADING"
    and "current_http_target_index (http_target_manager s) \<noteq> 0"
  shows "\<exists>t. ResumeOrPause True s = Inr t \<and> http_st t = HTTP_PAUSING \<and> is_paused_by_sdk t
    \<and> \<not> https t ! current_http_target_index (http_target_manager t)"
proof -
  have ok: "vid_ok s" by (rule vid_reachable_ok [OF assms(1)])
  have "https s \<noteq> []" "\<not> https s ! current_http_target_index (http_target_manager s)" "is_running s"
    using ok assms(2) by (auto simp: vid_ok_def vid_sources_agree_def)
  then show ?thesis
    using assms(3)
    by (cases s rule: vid_sources_cases)
       (simp_all add: ResumeOrPause_def has_http_def has_p2p_def p2p_call_defs nth_list_update)
qed

theorem vid_sdk_pause_misses_backup_witness:
  "\<exists>s t. vid_reachable s \<and> ResumeOrPause True s = Inr t \<and> is_paused_by_sdk t
     \<and> \<not> https t ! current_http_target_index (http_target_manager t)"
proof -
  obtain s where s: "vid_reachable s" "http_st s = HTTP_DOWNLOADING"
    "current_http_target_index (http_target_manager s) = 1" using vid_backup_example by metis
  then show ?thesis using vid_sdk_pause_misses_backup [OF s(1,2)] by auto
qed

text \<open>When all targets have been tried, the return to the best one does not pause the last
  one: in this run two HTTP downloaders of one video run at the same time.\<close>

theorem vid_two_http_run:
  "\<exists>s t. vid_run vid_backup_envs = Some (Inr s) \<and> https s = [True, False] \<and>
     vid_OnControlTimer (env_at 15000) s = Some (Inr t) \<and>
     current_http_target_index (http_target_manager t) = 0 \<and> https t = [False, False]"
proof -
  let ?next = "case vid_run vid_backup_envs of Some (Inr s) \<Rightarrow> vid_OnControlTimer (env_at 15000) s | r \<Rightarrow> r"
  obtain s where s: "vid_run vid_backup_envs = Some (Inr s)" "https s = [True, False]" using vid_backup_example by metis
  have "map_option (map_sum id (\<lambda>t. (current_http_target_index (http_target_manager t), https t))) ?next
     = Some (Inr (0, [False, False]))" by code_simp
  then obtain t where "vid_OnControlTimer (env_at 15000) s = Some (Inr t)"
     "current_http_target_index (http_target_manager t) = 0" "https t = [False, False]"
    unfolding s(1) by (auto simp: map_sum_eq_Inr)
  with s show ?thesis by blast
qed

text \<open>The recovery of the memory pool does not expect a video without any source: started
  without a downloader while memory is short, it calls an empty P2P target when memory is back.\<close>

theorem vid_memory_recovery_null:
  "\<exists>s. vid_Start (env0\<lparr>left_capacity := Some 0\<rparr>) (vid_fresh [] None) = Some (Inr s)
     \<and> is_memory_full s
     \<and> vid_OnControlTimer (env0\<lparr>left_capacity := Some 1280\<rparr>) s = Some (Inl NullPointer)"
proof -
  let ?start = "vid_Start (env0\<lparr>left_capacity := Some 0\<rparr>) (vid_fresh [] None)"
  have "map_option (map_sum id is_memory_full) ?start = Some (Inr True)" by code_simp
  then obtain s where s: "?start = Some (Inr s)" "is_memory_full s" by (auto simp: map_sum_eq_Inr)
  have "map_option (map_sum id (\<lambda>_. ()))
     (case ?start of Some (Inr s) \<Rightarrow> vid_OnControlTimer (env0\<lparr>left_capacity := Some 1280\<rparr>) s | r \<Rightarrow> r)
     = Some (Inl NullPointer)" by code_simp
  with s(1) obtain r where "vid_OnControlTimer (env0\<lparr>left_capacity := Some 1280\<rparr>) s = Some r"
     "map_sum id (\<lambda>_. ()) r = Inl NullPointer" by auto
  then have "vid_OnControlTimer (env0\<lparr>left_capacity := Some 1280\<rparr>) s = Some (Inl NullPointer)"
    by (cases r) simp_all
  with s show ?thesis by blast
qed

end
