(* ===== verification/SwitchController.thy ===== *)
theory SwitchController
  imports DownloadMode PushMode VideoMode
begin

text \<open>
  \<^verbatim>\<open>p2sp::SwitchController\<close> (\<^verbatim>\<open>p2sp/download/SwitchController.h/.cpp\<close>): the object that owns one
  control mode, starts and stops it, calls it once a second and hands it the pauses of the SDK.

  \<^item> The interface between the controller and its mode, the virtual functions of
    \<^verbatim>\<open>ControlMode\<close>, is the locale \<open>control_mode_class\<close>; the three modes are interpretations of it,
    and what the controller does is proved once, inside the locale.
  \<^item> A mode's record holds the state of the downloaders it acts upon and the notifications
    sent to the global provider; creating a mode takes the downloaders of the driver.
  \<^item> \<^verbatim>\<open>None\<close> is a loop of the mode that does not end; the theorems show that it does not occur.
\<close>

section \<open>The controller\<close>

datatype ControlModeType =
    CONTROL_MODE_NULL | CONTROL_MODE_DOWNLOAD | CONTROL_MODE_VIDEO_OPENSERVICE
  | CONTROL_MODE_PUSH_OPENSERVICE | CONTROL_MODE_COUNT

primrec mode_code :: "ControlModeType \<Rightarrow> nat" where
  "mode_code CONTROL_MODE_NULL = 0"
| "mode_code CONTROL_MODE_DOWNLOAD = 1"
| "mode_code CONTROL_MODE_VIDEO_OPENSERVICE = 2"
| "mode_code CONTROL_MODE_PUSH_OPENSERVICE = 3"
| "mode_code CONTROL_MODE_COUNT = 4"

definition IsValidControlMode :: "int \<Rightarrow> bool" where
  "IsValidControlMode m =
     (m \<ge> int (mode_code CONTROL_MODE_NULL) \<and> m < int (mode_code CONTROL_MODE_COUNT))"

datatype mode_object = Download download_mode | Video video_mode | Push push_mode

record switch_controller =
  controller_running :: bool
  has_provider :: bool
  mode :: "mode_object option"
  control_timer :: bool

text \<open>A controller created for a driver.\<close>

definition controller_new :: switch_controller where
  "controller_new = \<lparr>controller_running = False, has_provider = True, mode = None, control_timer = False\<rparr>"

definition push_new :: "bool list \<Rightarrow> p2p_target option \<Rightarrow> push_mode" where
  "push_new hs p = push_fresh\<lparr>https := hs, p2p_dl := p\<rparr>"

definition ControlMode_Create ::
    "ControlModeType \<Rightarrow> bool list \<Rightarrow> p2p_target option \<Rightarrow> mode_object result" where
  "ControlMode_Create type hs p =
     (case type of
        CONTROL_MODE_DOWNLOAD \<Rightarrow> Inr (Download (dl_fresh hs p))
      | CONTROL_MODE_VIDEO_OPENSERVICE \<Rightarrow> Inr (Video (vid_fresh hs p))
      | CONTROL_MODE_PUSH_OPENSERVICE \<Rightarrow> Inr (Push (push_new hs p))
      | _ \<Rightarrow> Inl AssertionFailed)"

section \<open>Calls on the mode\<close>

definition wrap :: "('m \<Rightarrow> mode_object) \<Rightarrow> 'm result option \<Rightarrow> mode_object result option" where
  "wrap C r = map_option (map_sum id C) r"

definition tell :: "notice list \<Rightarrow> 'm control_mode_scheme \<Rightarrow> 'm control_mode_scheme" where
  "tell ns s = s\<lparr>notices := notices s @ ns\<rparr>"

definition tell_mode :: "notice list \<Rightarrow> mode_object \<Rightarrow> mode_object" where
  "tell_mode ns m =
     (case m of Download s \<Rightarrow> Download (tell ns s) | Video s \<Rightarrow> Video (tell ns s) | Push s \<Rightarrow> Push (tell ns s))"

definition mode_Start :: "env \<Rightarrow> mode_object \<Rightarrow> mode_object result option" where
  "mode_Start env m =
     (case m of
        Download s \<Rightarrow> wrap Download (dl_Start env s)
      | Video s \<Rightarrow> wrap Video (vid_Start env s)
      | Push s \<Rightarrow> wrap Push (push_Start env s))"

definition mode_Stop :: "mode_object \<Rightarrow> mode_object result" where
  "mode_Stop m =
     (case m of
        Download s \<Rightarrow> map_sum id Download (dl_Stop s)
      | Video s \<Rightarrow> map_sum id Video (vid_Stop s)
      | Push s \<Rightarrow> map_sum id Push (push_Stop s))"

definition mode_ResumeOrPause :: "bool \<Rightarrow> mode_object \<Rightarrow> mode_object result" where
  "mode_ResumeOrPause need_pause m =
     (case m of
        Download s \<Rightarrow> map_sum id Download (ResumeOrPause need_pause s)
      | Video s \<Rightarrow> map_sum id Video (ResumeOrPause need_pause s)
      | Push s \<Rightarrow> map_sum id Push (ResumeOrPause need_pause s))"

text \<open>
  The two notifications of \<^verbatim>\<open>OnTimerElapsed\<close> describe the state before the activation; then the
  mode is called.
\<close>

definition state_notices :: "'m control_mode_scheme \<Rightarrow> notice list" where
  "state_notices s =
     [OnStateMachineState (state_string s),
      SetSwitchState (code_http (http_st s)) (code_p2p (p2p_st s))
        (code_timer_using (timer_using s)) (code_timer (timer_st s))]"

definition reported_tick ::
    "(env \<Rightarrow> 'm control_mode_scheme \<Rightarrow> 'm control_mode_scheme result option) \<Rightarrow>
     env \<Rightarrow> 'm control_mode_scheme \<Rightarrow> 'm control_mode_scheme result option" where
  "reported_tick tick env s = tick env (tell (state_notices s) s)"

definition mode_tick :: "env \<Rightarrow> mode_object \<Rightarrow> mode_object result option" where
  "mode_tick env m =
     (case m of
        Download s \<Rightarrow> wrap Download (reported_tick dl_OnControlTimer env s)
      | Video s \<Rightarrow> wrap Video (reported_tick vid_OnControlTimer env s)
      | Push s \<Rightarrow> wrap Push (reported_tick push_OnControlTimer env s))"

section \<open>Operations of the controller\<close>

definition controller_Start ::
    "env \<Rightarrow> ControlModeType \<Rightarrow> bool list \<Rightarrow> p2p_target option \<Rightarrow>
     switch_controller \<Rightarrow> switch_controller result option" where
  "controller_Start env type hs p c =
     (if controller_running c then Some (Inr c)
      else if \<not> has_provider c then Some (Inl AssertionFailed)
      else if mode c \<noteq> None then Some (Inl AssertionFailed)
      else
        case ControlMode_Create type hs p of
          Inl e \<Rightarrow> Some (Inl e)
        | Inr m \<Rightarrow>
            map_option (map_sum id (\<lambda>m'.
              c\<lparr>controller_running := True, control_timer := True,
                mode := Some (tell_mode [OnStateMachineType (mode_code type)] m')\<rparr>))
              (mode_Start env m))"

definition controller_Stop :: "switch_controller action" where
  "controller_Stop c =
     (if \<not> controller_running c then Inr c
      else
        (let c1 = c\<lparr>has_provider := False, control_timer := False, controller_running := False, mode := None\<rparr>
         in case mode c of
              None \<Rightarrow> Inr c1
            | Some m \<Rightarrow> and_then (mode_Stop m) (\<lambda>_. Inr c1)))"

definition controller_OnTimerElapsed :: "env \<Rightarrow> switch_controller \<Rightarrow> switch_controller result option" where
  "controller_OnTimerElapsed env c =
     (if \<not> controller_running c then Some (Inr c)
      else
        case mode c of
          None \<Rightarrow> Some (Inl NullPointer)
        | Some m \<Rightarrow> map_option (map_sum id (\<lambda>m'. c\<lparr>mode := Some m'\<rparr>)) (mode_tick env m))"

definition ResumeOrPauseDownload :: "bool \<Rightarrow> switch_controller action" where
  "ResumeOrPauseDownload need_pause c =
     (if \<not> controller_running c then Inr c
      else
        case mode c of
          None \<Rightarrow> Inl NullPointer
        | Some m \<Rightarrow> map_sum id (\<lambda>m'. c\<lparr>mode := Some m'\<rparr>) (mode_ResumeOrPause need_pause m))"

section \<open>The contract of a control mode\<close>

text \<open>
  What the controller relies on: under its invariant a mode's timer function returns and keeps
  the invariant, given inputs it is ready for; the SDK may pause it when it is \<open>pausable\<close>;
  stopping it returns; the notifications the controller sends do not matter to it.
\<close>

lemma ResumeOrPause_returns: "\<exists>t. ResumeOrPause b s = Inr t"
  by (auto simp: ResumeOrPause_def has_simps p2p_call_defs cond_def has_http_def)

locale control_mode_class =
  fixes tick :: "env \<Rightarrow> 'm control_mode_scheme \<Rightarrow> 'm control_mode_scheme result option"
    and stop :: "'m control_mode_scheme action"
    and ok :: "'m control_mode_scheme \<Rightarrow> bool"
    and ready :: "env \<Rightarrow> 'm control_mode_scheme \<Rightarrow> bool"
    and pausable :: "'m control_mode_scheme \<Rightarrow> bool"
  assumes tick_ok: "ok s \<Longrightarrow> ready env s \<Longrightarrow> \<exists>t. tick env s = Some (Inr t) \<and> ok t"
    and sdk_ok: "ok s \<Longrightarrow> b \<longrightarrow> pausable s \<Longrightarrow> ResumeOrPause b s = Inr t \<Longrightarrow> ok t"
    and stop_ok: "ok s \<Longrightarrow> \<exists>t. stop s = Inr t"
    and tell_ok: "ok s \<Longrightarrow> ok (tell ns s)"
    and tell_ready: "ready env s \<Longrightarrow> ready env (tell ns s)"
begin

lemma reported_tick_ok:
  "ok s \<Longrightarrow> ready env s \<Longrightarrow> \<exists>t. reported_tick tick env s = Some (Inr t) \<and> ok t"
  using tick_ok tell_ok tell_ready by (simp add: reported_tick_def)

lemma ResumeOrPause_ok:
  "ok s \<Longrightarrow> b \<longrightarrow> pausable s \<Longrightarrow> \<exists>t. ResumeOrPause b s = Inr t \<and> ok t"
  using ResumeOrPause_returns [of b s] sdk_ok by blast

end

definition dl_ok :: "download_mode \<Rightarrow> bool" where
  "dl_ok s = (is_running s \<and> dl_consistent s)"

definition push_ok :: "push_mode \<Rightarrow> bool" where
  "push_ok s = push_inv env0 s"

definition push_pausable :: "push_mode \<Rightarrow> bool" where
  "push_pausable s = (timer_using s = TIMER_USING_NONE)"

interpretation dlc: control_mode_class dl_OnControlTimer dl_Stop dl_ok dl_env_ok "\<lambda>_. True"
proof
  show "\<exists>t. dl_OnControlTimer env s = Some (Inr t) \<and> dl_ok t" if "dl_ok s" "dl_env_ok env s" for s env
    using dl_tick [of s env] that by (auto simp: dl_ok_def)
  show "dl_ok t" if "dl_ok s" "ResumeOrPause b s = Inr t" for s t b
    using dl_sdk [of b s t] that by (simp add: dl_ok_def)
qed (auto simp: dl_Stop_def ControlMode_Stop_def dl_ok_def dl_consistent_def agree_defs tell_def
    dl_env_ok_def driver_ok_def in_state_def has_p2p_def has_http_def)

interpretation vidc: control_mode_class vid_OnControlTimer vid_Stop vid_ok vid_tick_ok "\<lambda>_. True"
proof
  show "\<exists>t. vid_OnControlTimer env s = Some (Inr t) \<and> vid_ok t" if "vid_ok s" "vid_tick_ok env s" for s env
    using vid_tick [of s env] that by simp
  show "vid_ok t" if "vid_ok s" "ResumeOrPause b s = Inr t" for s t b
    using vid_sdk [of s b t] that by simp
qed (auto simp: vid_Stop_def ControlMode_Stop_def vid_ok_def vid_sources_agree_def agree_defs tell_def
    vid_tick_ok_def vid_env_ok_def driver_ok_def in_state_def has_p2p_def has_http_def)

lemma push_sdk_ok:
  assumes "push_ok s" "b \<longrightarrow> push_pausable s" "ResumeOrPause b s = Inr t"
  shows "push_ok t"
proof (cases b)
  case True
  with assms push_pause [of env0 s t] show ?thesis by (simp add: push_ok_def push_pausable_def)
next
  case False
  with assms ResumeOrPause_resumes [of s] have "t = s\<lparr>is_paused_by_sdk := False\<rparr>"
    by (simp add: push_ok_def push_inv_def)
  with assms(1) show ?thesis by (simp add: push_ok_def push_inv_defs)
qed

interpretation pushc: control_mode_class push_OnControlTimer push_Stop push_ok "\<lambda>_ _. True" push_pausable
proof
  show "\<exists>t. push_OnControlTimer env s = Some (Inr t) \<and> push_ok t" if "push_ok s" for s env
  proof (cases "is_paused_by_sdk s")
    case True
    with that show ?thesis by (simp add: push_OnControlTimer_def)
  next
    case False
    then show ?thesis
      using push_tick [of env s] push_inv_env [of env _ env0] that by (auto simp: push_ok_def)
  qed
  show "push_ok t" if "push_ok s" "b \<longrightarrow> push_pausable s" "ResumeOrPause b s = Inr t" for s t b
    by (rule push_sdk_ok [OF that])
qed (auto simp: push_Stop_def ControlMode_Stop_def push_ok_def push_inv_defs tell_def)

section \<open>The controller and its mode\<close>

definition mode_ok :: "mode_object \<Rightarrow> bool" where
  "mode_ok m = (case m of Download s \<Rightarrow> dl_ok s | Video s \<Rightarrow> vid_ok s | Push s \<Rightarrow> push_ok s)"

definition mode_ready :: "env \<Rightarrow> mode_object \<Rightarrow> bool" where
  "mode_ready env m = (case m of Download s \<Rightarrow> dl_env_ok env s | Video s \<Rightarrow> vid_tick_ok env s | Push s \<Rightarrow> True)"

definition mode_pausable :: "mode_object \<Rightarrow> bool" where
  "mode_pausable m = (case m of Download s \<Rightarrow> True | Video s \<Rightarrow> True | Push s \<Rightarrow> push_pausable s)"

lemma mode_tick_ok: "mode_ok m \<Longrightarrow> mode_ready env m \<Longrightarrow> \<exists>m'. mode_tick env m = Some (Inr m') \<and> mode_ok m'"
  using dlc.reported_tick_ok [of "case m of Download s \<Rightarrow> s" env] vidc.reported_tick_ok [of "case m of Video s \<Rightarrow> s" env]
    pushc.reported_tick_ok [of "case m of Push s \<Rightarrow> s" env]
  by (cases m) (auto simp: mode_ok_def mode_ready_def mode_tick_def wrap_def)

lemma mode_ResumeOrPause_ok:
  "mode_ok m \<Longrightarrow> b \<longrightarrow> mode_pausable m \<Longrightarrow> \<exists>m'. mode_ResumeOrPause b m = Inr m' \<and> mode_ok m'"
  using dlc.ResumeOrPause_ok [of "case m of Download s \<Rightarrow> s" b] vidc.ResumeOrPause_ok [of "case m of Video s \<Rightarrow> s" b]
    pushc.ResumeOrPause_ok [of "case m of Push s \<Rightarrow> s" b]
  by (cases m) (auto simp: mode_ok_def mode_pausable_def mode_ResumeOrPause_def)

lemma mode_Stop_ok: "mode_ok m \<Longrightarrow> \<exists>m'. mode_Stop m = Inr m'"
  using dlc.stop_ok [of "case m of Download s \<Rightarrow> s"] vidc.stop_ok [of "case m of Video s \<Rightarrow> s"]
    pushc.stop_ok [of "case m of Push s \<Rightarrow> s"]
  by (cases m) (auto simp: mode_ok_def mode_Stop_def)

lemma tell_mode_ok: "mode_ok m \<Longrightarrow> mode_ok (tell_mode ns m)"
  using dlc.tell_ok vidc.tell_ok pushc.tell_ok by (cases m) (auto simp: mode_ok_def tell_mode_def)

text \<open>What \<^verbatim>\<open>DownloadDriver\<close> provides when it starts the controller in a mode.\<close>

definition start_ok :: "env \<Rightarrow> ControlModeType \<Rightarrow> bool list \<Rightarrow> p2p_target option \<Rightarrow> bool" where
  "start_ok env type hs p =
     ((p \<noteq> None \<longrightarrow> HasRID env \<and> GetBWType env \<noteq> JBW_HTTP_ONLY) \<and>
      (hs \<noteq> [] \<longrightarrow> GetBWType env \<noteq> JBW_VOD_P2P_ONLY) \<and>
      (type = CONTROL_MODE_VIDEO_OPENSERVICE \<longrightarrow> list_all id hs \<and> switch_ini env = None) \<and>
      (type = CONTROL_MODE_PUSH_OPENSERVICE \<longrightarrow> hs \<noteq> [] \<and> p \<noteq> None))"

definition controller_ok :: "switch_controller \<Rightarrow> bool" where
  "controller_ok c = (controller_running c \<and> control_timer c \<and> has_provider c \<and> (\<exists>m. mode c = Some m \<and> mode_ok m))"

lemma mode_Start_ok:
  assumes "start_ok env type hs p" "ControlMode_Create type hs p = Inr m"
  shows "\<exists>m'. mode_Start env m = Some (Inr m') \<and> mode_ok m'"
proof (cases type)
  case CONTROL_MODE_DOWNLOAD
  with assms dl_Start_returns [of "dl_fresh hs p" env] show ?thesis
    by (auto simp: ControlMode_Create_def start_ok_def mode_Start_def wrap_def mode_ok_def dl_ok_def dl_fresh_def
        driver_ok_def has_p2p_def has_http_def)
next
  case CONTROL_MODE_VIDEO_OPENSERVICE
  with assms vid_Start_returns [of hs env p] show ?thesis
    by (auto simp: ControlMode_Create_def start_ok_def mode_Start_def wrap_def mode_ok_def
        driver_ok_def has_p2p_def has_http_def vid_fresh_def)
next
  case CONTROL_MODE_PUSH_OPENSERVICE
  with assms push_Start_returns [of "push_new hs p" env] push_inv_env [of env _ env0] show ?thesis
    by (auto simp: ControlMode_Create_def start_ok_def mode_Start_def wrap_def mode_ok_def push_ok_def push_new_def
        push_fresh_def has_p2p_def has_http_def)
qed (use assms(2) in \<open>simp_all add: ControlMode_Create_def\<close>)

lemma controller_Start_ok:
  assumes "start_ok env type hs p" "type \<in> {CONTROL_MODE_DOWNLOAD, CONTROL_MODE_VIDEO_OPENSERVICE, CONTROL_MODE_PUSH_OPENSERVICE}"
  shows "\<exists>c. controller_Start env type hs p controller_new = Some (Inr c) \<and> controller_ok c"
proof -
  obtain m where m: "ControlMode_Create type hs p = Inr m" using assms(2) by (auto simp: ControlMode_Create_def)
  obtain m' where "mode_Start env m = Some (Inr m')" "mode_ok m'" using mode_Start_ok [OF assms(1) m] by blast
  with m show ?thesis
    by (simp add: controller_Start_def controller_new_def controller_ok_def tell_mode_ok)
qed

text \<open>The states of a controller from its start on.\<close>

inductive controller_reachable :: "switch_controller \<Rightarrow> bool" where
  start: "start_ok env type hs p \<Longrightarrow> controller_Start env type hs p controller_new = Some (Inr c) \<Longrightarrow> controller_reachable c"
| tick: "controller_reachable c \<Longrightarrow> mode c = Some m \<Longrightarrow> mode_ready env m \<Longrightarrow>
    controller_OnTimerElapsed env c = Some (Inr c') \<Longrightarrow> controller_reachable c'"
| sdk: "controller_reachable c \<Longrightarrow> mode c = Some m \<Longrightarrow> b \<longrightarrow> mode_pausable m \<Longrightarrow>
    ResumeOrPauseDownload b c = Inr c' \<Longrightarrow> controller_reachable c'"

lemma controller_tick_ok:
  assumes "controller_ok c" "mode c = Some m" "mode_ready env m"
  shows "\<exists>c'. controller_OnTimerElapsed env c = Some (Inr c') \<and> controller_ok c'"
  using mode_tick_ok [of m env] assms by (auto simp: controller_OnTimerElapsed_def controller_ok_def)

lemma controller_sdk_ok:
  assumes "controller_ok c" "mode c = Some m" "b \<longrightarrow> mode_pausable m"
  shows "\<exists>c'. ResumeOrPauseDownload b c = Inr c' \<and> controller_ok c'"
  using mode_ResumeOrPause_ok [of m b] assms by (auto simp: ResumeOrPauseDownload_def controller_ok_def)

lemma controller_reachable_ok: "controller_reachable c \<Longrightarrow> controller_ok c"
proof (induction rule: controller_reachable.induct)
  case (start env type hs p c)
  then have "ControlMode_Create type hs p \<noteq> Inl AssertionFailed"
    by (auto simp: controller_Start_def controller_new_def)
  then have "type \<in> {CONTROL_MODE_DOWNLOAD, CONTROL_MODE_VIDEO_OPENSERVICE, CONTROL_MODE_PUSH_OPENSERVICE}"
    by (cases type) (auto simp: ControlMode_Create_def)
  with controller_Start_ok [OF start.hyps(1)] start.hyps(2) show ?case by auto
next
  case (tick c m env c')
  then show ?case using controller_tick_ok [of c m env] by auto
next
  case (sdk c m b c')
  then show ?case using controller_sdk_ok [of c m b] by auto
qed

section \<open>Properties\<close>


definition ex_controller :: switch_controller where
  "ex_controller = projr (the (controller_Start (env_at 0) CONTROL_MODE_DOWNLOAD [True] (Some p2p_target0) controller_new))"

lemma ex_controller_start:
  "controller_Start (env_at 0) CONTROL_MODE_DOWNLOAD [True] (Some p2p_target0) controller_new = Some (Inr ex_controller)"
  "controller_reachable ex_controller"
proof -
  have ok: "start_ok (env_at 0) CONTROL_MODE_DOWNLOAD [True] (Some p2p_target0)"
    by (simp add: start_ok_def env_at_def env0_def)
  from controller_Start_ok [OF this]
  show s: "controller_Start (env_at 0) CONTROL_MODE_DOWNLOAD [True] (Some p2p_target0) controller_new = Some (Inr ex_controller)"
    by (auto simp: ex_controller_def)
  show "controller_reachable ex_controller" by (rule controller_reachable.start [OF ok s])
qed


text \<open>\<^verbatim>\<open>Start\<close> returns for each of the three control modes when the driver provides what the mode
  needs, and only for them: \<^verbatim>\<open>IsValidControlMode\<close> also accepts \<^verbatim>\<open>CONTROL_MODE_NULL\<close>, for which
  \<^verbatim>\<open>ControlMode::Create\<close> fails its assertion.\<close>

theorem switch_controller_start_modes:
  assumes "start_ok env type hs p" "IsValidControlMode (int (mode_code type))"
  shows "(\<exists>c. controller_Start env type hs p controller_new = Some (Inr c) \<and> controller_running c \<and> control_timer c)
      \<longleftrightarrow> type \<noteq> CONTROL_MODE_NULL"
    (is "?returns \<longleftrightarrow> _")
proof
  show "type \<noteq> CONTROL_MODE_NULL" if ?returns
    using that by (auto simp: controller_Start_def controller_new_def ControlMode_Create_def)
  show ?returns if "type \<noteq> CONTROL_MODE_NULL"
    using controller_Start_ok [OF assms(1)] that assms(2)
    by (cases type) (auto simp: IsValidControlMode_def controller_ok_def)
qed

theorem switch_controller_start_modes_witness:
  "(\<exists>c. controller_Start (env_at 0) CONTROL_MODE_PUSH_OPENSERVICE [True] (Some p2p_target0) controller_new = Some (Inr c)
      \<and> controller_running c)
   \<and> \<not> (\<exists>c. controller_Start (env_at 0) CONTROL_MODE_NULL [True] (Some p2p_target0) controller_new = Some (Inr c)
      \<and> controller_running c \<and> control_timer c)"
  using switch_controller_start_modes [of "env_at 0" CONTROL_MODE_PUSH_OPENSERVICE "[True]" "Some p2p_target0"]
    switch_controller_start_modes [of "env_at 0" CONTROL_MODE_NULL "[True]" "Some p2p_target0"]
  by (auto simp: start_ok_def env_at_def env0_def IsValidControlMode_def)

end
