(* ===== verification/LiveDriver.thy ===== *)
theory LiveDriver
  imports SwitchBase
begin

text \<open>
  The part of \<^verbatim>\<open>p2sp::LiveDownloadDriver\<close> and \<^verbatim>\<open>p2sp::LiveStream\<close>
  (\<^verbatim>\<open>p2sp/download/LiveDownloadDriver.h/.cpp\<close>, \<^verbatim>\<open>LiveStream.cpp\<close>, \<^verbatim>\<open>LiveDataRateManager.cpp\<close>) that
  the live switch controller works with: the streams of a channel, one for each data rate, each
  with its HTTP and P2P downloader; the records of the periods of HTTP use; the accounting of
  HTTP use that compensates a large upload; the change of the data rate.

  \<^item> A downloader is present or not, and pausing or not: the stream holds its pause flag.  What a
    downloader does while it runs is not modelled; the numbers it reports are part of the
    environment.
  \<^item> The environment is what the getters of the configuration, of the statistics and of the
    downloaders return during one activation of a timer.
  \<^item> The controller's own members are the first fields of the state, since the driver owns the
    controller; the operations on them are in \<open>LiveSwitch\<close>.
\<close>

section \<open>The configuration and the inputs of an activation\<close>

text \<open>The getters of \<^verbatim>\<open>BootStrapGeneralConfig\<close>; the Boolean argument is \<^verbatim>\<open>is_saving_mode\<close>.\<close>

record live_config =
  ShouldUseCDNWhenLargeUpload :: "bool \<Rightarrow> bool"
  GetUseCdnToAccelerateBasedOnHistory :: "bool \<Rightarrow> bool"
  GetUseHttpWhenConnectedNonePeers :: "bool \<Rightarrow> bool"
  GetUseHttpWhenUrgent :: "bool \<Rightarrow> bool"
  GetP2PSpeedThreshold :: "bool \<Rightarrow> u32"
  GetTimeOfAdvancingSwitchingHttp :: "bool \<Rightarrow> u32"
  GetTimeToIgnoreHttpBad :: "bool \<Rightarrow> u32"
  GetRestPlayTimeDelim :: "bool \<Rightarrow> u32"
  GetRestPlayTimeDelimWhenNonePeers :: "bool \<Rightarrow> u32"
  GetEnoughRestPlayTimeDelimWhenNonePeers :: "bool \<Rightarrow> u32"
  GetP2PRestPlayableTimeDelim :: "bool \<Rightarrow> u32"
  GetP2PProtectTimeWhenStart :: "bool \<Rightarrow> u32"
  GetUrgentRestPlayableTimeDelim :: "bool \<Rightarrow> u32"
  GetP2PProtectTimeIfStartAndSpeedIs0 :: "bool \<Rightarrow> u32"
  GetSafeEnoughRestPlayableTime :: "bool \<Rightarrow> u32"
  GetP2PRestPlayableTimeDelimWhenSwitchedWithLargeTime :: "bool \<Rightarrow> u32"
  GetP2PProtectTimeWhenSwitchedWithNotEnoughTime :: "bool \<Rightarrow> u32"
  GetP2PProtectTimeWhenSwitchedWithBuffering :: "bool \<Rightarrow> u32"
  GetP2PProtectTimeIfSpeedIs0 :: "bool \<Rightarrow> u32"

record live_http_config =
  GetSafeRestPlayableTimeDelim :: "bool \<Rightarrow> u32"
  GetHttpProtectTimeWhenLargeUpload :: "bool \<Rightarrow> u32"
  GetUsingCDNOrUdpServerTimeDelim :: "bool \<Rightarrow> u32"
  GetHttpRunningLongEnoughTimeWhenStart :: "bool \<Rightarrow> u32"
  GetHttpProtectTime2WhenStart :: "bool \<Rightarrow> u32"
  GetHttpDownloadBytesDelimWhenStart :: "bool \<Rightarrow> u32"
  GetHttpProtectTimeWhenStart :: "bool \<Rightarrow> u32"
  GetHttpProtectTimeWhenUrgentSwitched :: "bool \<Rightarrow> u32"
  GetHttpRunningLongEnoughTimeWhenUrgentSwitched :: "bool \<Rightarrow> u32"
  GetHttpRunningLongestTimeWhenUrgentSwitched :: "bool \<Rightarrow> u32"
  GetMinIntervalOfCdnAccelerationDelim :: "bool \<Rightarrow> u32"
  GetUploadConnectionCountDelim :: "bool \<Rightarrow> u32"
  GetNotStrictRatioDelimOfUploadToDatarate :: "bool \<Rightarrow> u32"
  GetMaxRestPlayableTime :: u32
  GetMinRestPlayableTime :: u32
  GetShouldJudgeSwitchingDatarateManually :: bool
  GetRestPlayableTimeDelimWhenSwitching :: u32
  GetShouldUseBWType :: bool
  GetDesirableLiveIpPoolSize :: u32
  GetFallBehindSecondsThreshold :: u32

text \<open>\<open>live_left_capacity\<close>: builds with a memory pool, its left capacity; builds without, \<open>None\<close>.\<close>

record live_env =
  live_now :: moment
  live_elapsed :: "moment \<Rightarrow> u32"
  download_time :: u32
  cfg :: live_config
  hcfg :: live_http_config
  RestPlayableTime :: u32
  p2p_NowDownloadSpeed :: u32
  ConnectedPeersCount :: u32
  PooledPeersCount :: u32
  MinFirstBlockID :: u32
  playing_block_id :: u32
  http_TotalDownloadBytes :: u32
  UploadDataBytes :: u32
  MinuteUploadDataSpeed :: u32
  UploadCount :: u32
  UploadSpeed :: u32
  DataRate :: u32
  BWType :: JumpBWType
  Replay :: bool
  SourceType :: u32
  ratio_delim_of_upload_speed_to_datarate :: u32
  small_ratio_delim_of_upload_speed_to_datarate :: u32
  live_left_capacity :: "u32 option"
  stream_download_time :: u32

section \<open>State\<close>

text \<open>\<^verbatim>\<open>LiveStream\<close>: the pause flags of its downloaders and its accounting of HTTP use.\<close>

record live_stream =
  stream_http :: "bool option"
  stream_p2p :: "bool option"
  times_of_use_cdn :: u32
  time_elapsed_use_cdn :: u32
  http_download_bytes_when_changed_to_cdn :: u32
  using_cdn_because_of_large_upload :: bool
  upload_bytes_when_changed_to_cdn :: u32
  download_bytes_use_cdn :: u32
  total_upload_bytes_use_cdn :: u32
  use_cdn_tick_counter :: moment
  stream_is_running :: bool

text \<open>\<^verbatim>\<open>LiveDownloadDriver::HttpDownloadStatistic\<close>: one period of HTTP use.\<close>

record http_stat =
  start_time :: u32
  stop_time :: u32
  start_reason :: u8
  stop_reason :: u8
  download_bytes :: u32
  http_downloaded_bytes_when_start :: u32
  stat_running :: bool

text \<open>
  The members of \<^verbatim>\<open>LiveSwitchController\<close>, then those of \<^verbatim>\<open>LiveDownloadDriver\<close> and of its
  \<^verbatim>\<open>LiveDataRateManager\<close>.
\<close>

record live_state =
  live_http :: HttpState
  live_p2p :: P2PState
  time_counter_2300 :: moment
  time_counter_3200 :: moment
  live_memory_full :: bool
  is_started :: bool
  rest_play_time_when_switched :: u32
  is_http_fast :: bool
  changed_because_of_large_upload :: bool
  blocked_this_time :: bool
  is_too_near :: bool
  is_saving_mode :: bool
  reason_of_using_http :: u8
  reason_of_stoping_http :: u8
  live_streams :: "live_stream list"
  current_data_rate_pos :: nat
  last_data_rate_pos :: nat
  data_rate_timer :: moment
  http_stats :: "http_stat list"
  changed_to_p2p_condition :: u8
  http_download_bytes_when_start :: u32
  changed_to_http_times_when_urgent :: u32
  block_times_when_urgent :: u32
  is_history_upload_good :: bool
  last_advance_using_cdn :: moment
  switch_state :: "HttpState \<times> P2PState"
  ratio_history :: "u32 list"
  cdn_totals :: "u32 \<times> u32 \<times> u32 \<times> u32"

section \<open>The current stream and its downloaders\<close>

definition GetHTTPControlTarget :: "live_state \<Rightarrow> bool option" where
  "GetHTTPControlTarget s =
     (if current_data_rate_pos s < length (live_streams s)
      then stream_http (live_streams s ! current_data_rate_pos s) else None)"

definition GetP2PControlTarget :: "live_state \<Rightarrow> bool option" where
  "GetP2PControlTarget s =
     (if current_data_rate_pos s < length (live_streams s)
      then stream_p2p (live_streams s ! current_data_rate_pos s) else None)"

definition on_stream :: "(live_stream \<Rightarrow> live_stream) \<Rightarrow> live_state action" where
  "on_stream f s =
     (let i = current_data_rate_pos s
      in if i < length (live_streams s)
         then Inr (s\<lparr>live_streams := (live_streams s)[i := f (live_streams s ! i)]\<rparr>)
         else Inl OutOfRange)"

definition live_http_call :: "bool \<Rightarrow> live_state action" where
  "live_http_call pausing s =
     (if GetHTTPControlTarget s = None then Inl NullPointer
      else on_stream (stream_http_update (\<lambda>_. Some pausing)) s)"

definition live_p2p_call :: "bool \<Rightarrow> live_state action" where
  "live_p2p_call pausing s =
     (if GetP2PControlTarget s = None then Inl NullPointer
      else on_stream (stream_p2p_update (\<lambda>_. Some pausing)) s)"

section \<open>Periods of HTTP use\<close>

definition stat_new :: http_stat where
  "stat_new = \<lparr>start_time = 0, stop_time = 0, start_reason = 255, stop_reason = 255,
     download_bytes = 0, http_downloaded_bytes_when_start = 0, stat_running = False\<rparr>"

definition stat_Start :: "u32 \<Rightarrow> u8 \<Rightarrow> u32 \<Rightarrow> http_stat \<Rightarrow> http_stat" where
  "stat_Start t reason bytes h =
     h\<lparr>stat_running := True, start_time := t, start_reason := reason,
       http_downloaded_bytes_when_start := bytes\<rparr>"

definition stat_Stop :: "u32 \<Rightarrow> u8 \<Rightarrow> u32 \<Rightarrow> http_stat \<Rightarrow> http_stat result" where
  "stat_Stop t reason bytes h =
     (if \<not> stat_running h then Inl AssertionFailed
      else if \<not> bytes \<ge> http_downloaded_bytes_when_start h then Inl AssertionFailed
      else Inr (h\<lparr>stat_running := False, stop_time := t, stop_reason := reason,
                  download_bytes := bytes - http_downloaded_bytes_when_start h\<rparr>))"

definition StartHttp :: "live_env \<Rightarrow> u8 \<Rightarrow> live_state action" where
  "StartHttp env reason s =
     (if GetHTTPControlTarget s = None then Inl AssertionFailed
      else Inr (s\<lparr>http_stats := http_stats s @
             [stat_Start (download_time env) reason (http_TotalDownloadBytes env) stat_new]\<rparr>))"

definition StopHttp :: "live_env \<Rightarrow> u8 \<Rightarrow> live_state action" where
  "StopHttp env reason s =
     (if GetHTTPControlTarget s = None then Inl AssertionFailed
      else if http_stats s = [] then Inl AssertionFailed
      else if \<not> stat_running (last (http_stats s)) then Inl AssertionFailed
      else
        and_then (stat_Stop (download_time env) reason (http_TotalDownloadBytes env) (last (http_stats s)))
          (\<lambda>h. Inr (s\<lparr>http_stats := butlast (http_stats s) @ [h]\<rparr>)))"

text \<open>
  The report on the periods of HTTP use when the driver stops: at most
  \<^verbatim>\<open>MaxHttpStatisticCount\<close> of them; a period that has not ended has to be the last one.
\<close>

definition MaxHttpStatisticCount :: nat where
  "MaxHttpStatisticCount = 5"

fun report_stats :: "live_env \<Rightarrow> bool \<Rightarrow> nat \<Rightarrow> nat \<Rightarrow> http_stat list \<Rightarrow> http_stat list result" where
  "report_stats env target sz i [] = Inr []"
| "report_stats env target sz i (h # hs) =
     and_then
       (if stat_running h then
          (if i + 1 \<noteq> sz then Inl AssertionFailed
           else if \<not> target then Inl NullPointer
           else stat_Stop (download_time env) 255 (http_TotalDownloadBytes env) h)
        else Inr h)
       (\<lambda>h'. and_then (report_stats env target sz (i + 1) hs) (\<lambda>hs'. Inr (h' # hs')))"

definition UpdateHttpDownloadStatistic :: "live_env \<Rightarrow> live_state action" where
  "UpdateHttpDownloadStatistic env s =
     and_then (report_stats env (GetHTTPControlTarget s \<noteq> None) (length (http_stats s)) 0
                 (take MaxHttpStatisticCount (http_stats s)))
       (\<lambda>hs. Inr (s\<lparr>http_stats := hs @ drop MaxHttpStatisticCount (http_stats s)\<rparr>))"

section \<open>The accounting of HTTP use because of a large upload\<close>

definition stream_SetUseCdnBecauseOfLargeUpload :: "live_env \<Rightarrow> live_stream \<Rightarrow> live_stream" where
  "stream_SetUseCdnBecauseOfLargeUpload env st =
     st\<lparr>times_of_use_cdn := times_of_use_cdn st + 1,
        use_cdn_tick_counter := live_now env,
        http_download_bytes_when_changed_to_cdn := http_TotalDownloadBytes env,
        using_cdn_because_of_large_upload := True,
        upload_bytes_when_changed_to_cdn := UploadDataBytes env\<rparr>"

text \<open>The common part of \<^verbatim>\<open>SetUseP2P\<close> and \<^verbatim>\<open>CalcCdnAccelerationStatusWhenStop\<close>.\<close>

definition add_cdn_period :: "live_env \<Rightarrow> live_stream \<Rightarrow> live_stream" where
  "add_cdn_period env st =
     st\<lparr>time_elapsed_use_cdn := time_elapsed_use_cdn st + live_elapsed env (use_cdn_tick_counter st),
        download_bytes_use_cdn := download_bytes_use_cdn st +
          (http_TotalDownloadBytes env - http_download_bytes_when_changed_to_cdn st),
        total_upload_bytes_use_cdn := total_upload_bytes_use_cdn st +
          (UploadDataBytes env - upload_bytes_when_changed_to_cdn st)\<rparr>"

definition stream_SetUseP2P :: "live_env \<Rightarrow> live_stream \<Rightarrow> live_stream" where
  "stream_SetUseP2P env st = (add_cdn_period env st)\<lparr>using_cdn_because_of_large_upload := False\<rparr>"

definition stream_CalcCdnAccelerationStatusWhenStop :: "live_env \<Rightarrow> live_stream \<Rightarrow> live_stream" where
  "stream_CalcCdnAccelerationStatusWhenStop env st =
     (if using_cdn_because_of_large_upload st then add_cdn_period env st else st)"

definition HaveUsedCdnToAccelerateLongEnough :: "live_stream \<Rightarrow> bool" where
  "HaveUsedCdnToAccelerateLongEnough st = (times_of_use_cdn st > 0 \<and> time_elapsed_use_cdn st > 30 * 1000)"

definition IsPopular :: "live_env \<Rightarrow> live_stream \<Rightarrow> bool" where
  "IsPopular env st = (stream_p2p st \<noteq> None \<and> PooledPeersCount env \<ge> GetDesirableLiveIpPoolSize (hcfg env))"

text \<open>The entry \<^verbatim>\<open>UpdateCdnAccelerationHistory\<close> adds to the history of the driver, if any.\<close>

definition UpdateCdnAccelerationHistory :: "live_env \<Rightarrow> live_stream \<Rightarrow> u32 list \<Rightarrow> u32 list" where
  "UpdateCdnAccelerationHistory env st history =
     (let is_popular = IsPopular env st;
          long_enough = HaveUsedCdnToAccelerateLongEnough st;
          in_theory = DataRate env * time_elapsed_use_cdn st div 1000
      in if \<not> is_popular \<and> \<not> long_enough then history
         else if is_popular \<and> stream_download_time env < 60 * 1000 \<and> \<not> long_enough then history
         else if long_enough then
           (if in_theory = 0 then history
            else history @ [total_upload_bytes_use_cdn st * 100 div in_theory])
         else history @ [0])"

definition CalcCdnAccelerationStatusWhenStop :: "live_env \<Rightarrow> nat \<Rightarrow> live_state action" where
  "CalcCdnAccelerationStatusWhenStop env i s =
     (if \<not> i < length (live_streams s) then Inl OutOfRange
      else if using_cdn_because_of_large_upload (live_streams s ! i) \<and> stream_http (live_streams s ! i) = None
      then Inl NullPointer
      else
        (let st = stream_CalcCdnAccelerationStatusWhenStop env (live_streams s ! i);
             (times, time, down, up) = cdn_totals s
         in Inr (s\<lparr>live_streams := (live_streams s)[i := st],
                   ratio_history := UpdateCdnAccelerationHistory env st (ratio_history s),
                   cdn_totals := (times + times_of_use_cdn st, time + time_elapsed_use_cdn st,
                     down + download_bytes_use_cdn st, up + total_upload_bytes_use_cdn st)\<rparr>)))"

text \<open>
  \<^verbatim>\<open>CalcHistoryUploadStatus\<close>, with the four delimiters of the configuration as arguments; 255 is
  the constant \<^verbatim>\<open>InitialChangedToP2PConditionWhenStart\<close> that the code multiplies with.
\<close>

definition CalcHistoryUploadStatus :: "u32 \<Rightarrow> u32 \<Rightarrow> u32 \<Rightarrow> u32 \<Rightarrow> u32 list \<Rightarrow> bool" where
  "CalcHistoryUploadStatus min_times large_delim max_delim times_delim history =
     (if length history < unat min_times then False
      else
        (let max_ratio = foldl max 0 history;
             large_count = word_of_nat (length (filter (\<lambda>r. r > large_delim) history)) :: u32
         in max_ratio > max_delim \<or> large_count * 100 \<ge> 255 * times_delim))"

text \<open>The members of the stream that read the downloader fail when there is none.\<close>

definition SetUseCdnBecauseOfLargeUpload :: "live_env \<Rightarrow> live_state action" where
  "SetUseCdnBecauseOfLargeUpload env s =
     (if GetHTTPControlTarget s = None then Inl NullPointer
      else on_stream (stream_SetUseCdnBecauseOfLargeUpload env) s)"

definition SetUseP2P :: "live_env \<Rightarrow> live_state action" where
  "SetUseP2P env s =
     (if GetHTTPControlTarget s = None then Inl NullPointer else on_stream (stream_SetUseP2P env) s)"

definition SubmitChangedToP2PCondition :: "live_env \<Rightarrow> u8 \<Rightarrow> live_state action" where
  "SubmitChangedToP2PCondition env condition s =
     (let s1 = s\<lparr>changed_to_p2p_condition := condition\<rparr>
      in if GetHTTPControlTarget s1 = None then Inl AssertionFailed
         else Inr (s1\<lparr>http_download_bytes_when_start := http_TotalDownloadBytes env\<rparr>))"

definition SubmitChangedToHttpTimesWhenUrgent :: "live_state \<Rightarrow> live_state" where
  "SubmitChangedToHttpTimesWhenUrgent s =
     s\<lparr>changed_to_http_times_when_urgent := changed_to_http_times_when_urgent s + 1\<rparr>"

definition SubmitBlockTimesWhenUseHttpUnderUrgentCondition :: "live_state \<Rightarrow> live_state" where
  "SubmitBlockTimesWhenUseHttpUnderUrgentCondition s =
     s\<lparr>block_times_when_urgent := block_times_when_urgent s + 1\<rparr>"

section \<open>Judgements of the driver\<close>

definition IsUploadSpeedLargeEnough :: "live_env \<Rightarrow> bool" where
  "IsUploadSpeedLargeEnough env =
     (MinuteUploadDataSpeed env > DataRate env * ratio_delim_of_upload_speed_to_datarate env div 100)"

definition IsUploadSpeedSmallEnough :: "live_env \<Rightarrow> bool" where
  "IsUploadSpeedSmallEnough env =
     (MinuteUploadDataSpeed env < DataRate env * small_ratio_delim_of_upload_speed_to_datarate env div 100)"

definition DoesFallBehindTooMuch :: "live_env \<Rightarrow> live_state \<Rightarrow> bool" where
  "DoesFallBehindTooMuch env s =
     (GetP2PControlTarget s \<noteq> None \<and>
      playing_block_id env + GetFallBehindSecondsThreshold (hcfg env) < MinFirstBlockID env)"

definition ShouldUseCdnToAccelerate :: "live_env \<Rightarrow> live_state \<Rightarrow> bool \<times> live_state" where
  "ShouldUseCdnToAccelerate env s =
     (let sav = is_saving_mode s;
          st = live_streams s ! current_data_rate_pos s
      in if \<not> is_history_upload_good s then (False, s)
         else if times_of_use_cdn st \<noteq> 0 \<and>
           live_elapsed env (last_advance_using_cdn s) < GetMinIntervalOfCdnAccelerationDelim (hcfg env) sav * 1000
         then (False, s)
         else if GetP2PControlTarget s \<noteq> None \<and>
           PooledPeersCount env \<ge> GetDesirableLiveIpPoolSize (hcfg env) \<and>
           UploadCount env > GetUploadConnectionCountDelim (hcfg env) sav \<and>
           UploadSpeed env > DataRate env * GetNotStrictRatioDelimOfUploadToDatarate (hcfg env) sav div 100
         then (True, s\<lparr>last_advance_using_cdn := live_now env\<rparr>)
         else (False, s))"

section \<open>The change of the data rate\<close>

text \<open>
  \<^verbatim>\<open>LiveStream::Start\<close> creates fresh downloaders, both pausing (no P2P downloader for
  \<^verbatim>\<open>JBW_HTTP_ONLY\<close>), \<^verbatim>\<open>Stop\<close> destroys them.
\<close>

definition stream_Start :: "live_env \<Rightarrow> live_stream \<Rightarrow> live_stream" where
  "stream_Start env st =
     (if stream_is_running st then st
      else st\<lparr>stream_http := Some True,
              stream_p2p := (if BWType env \<noteq> JBW_HTTP_ONLY then Some True else stream_p2p st),
              stream_is_running := True\<rparr>)"

definition stream_Stop :: "live_stream \<Rightarrow> live_stream" where
  "stream_Stop st =
     (if \<not> stream_is_running st then st
      else st\<lparr>stream_http := None, stream_p2p := None, stream_is_running := False\<rparr>)"

definition SwitchToHigherDataRateIfNeeded :: "live_env \<Rightarrow> u32 \<Rightarrow> live_state \<Rightarrow> bool \<times> live_state" where
  "SwitchToHigherDataRateIfNeeded env rest s =
     (let last = current_data_rate_pos s;
          cur = (if live_elapsed env (data_rate_timer s) > 30 * 1000 \<and>
                    rest > 16 + 4 * word_of_nat last
                 then min (last + 1) (length (live_streams s) - 1) else last);
          s1 = s\<lparr>last_data_rate_pos := last, current_data_rate_pos := cur\<rparr>
      in if last \<noteq> cur then (True, s1\<lparr>data_rate_timer := live_now env\<rparr>) else (False, s1))"

definition SwitchToLowerDataRateIfNeeded :: "live_env \<Rightarrow> u32 \<Rightarrow> live_state \<Rightarrow> bool \<times> live_state" where
  "SwitchToLowerDataRateIfNeeded env rest s =
     (let last = current_data_rate_pos s;
          cur = (if live_elapsed env (data_rate_timer s) > 20 * 1000 \<and>
                    rest < 8 + 4 * word_of_nat last \<and> last \<noteq> 0
                 then last - 1 else last);
          s1 = s\<lparr>last_data_rate_pos := last, current_data_rate_pos := cur\<rparr>
      in if last \<noteq> cur then (True, s1\<lparr>data_rate_timer := live_now env\<rparr>) else (False, s1))"

definition OnDataRateChanged :: "live_env \<Rightarrow> live_state action" where
  "OnDataRateChanged env s =
     (let old = last_data_rate_pos s
      in if \<not> old < length (live_streams s) then Inl OutOfRange
         else
           case stream_http (live_streams s ! old) of
             None \<Rightarrow> Inl NullPointer
           | Some http_paused \<Rightarrow>
               (let p2p_paused = (stream_p2p (live_streams s ! old) = None)
                in seq [CalcCdnAccelerationStatusWhenStop env old,
                        modify (\<lambda>s. s\<lparr>live_streams := map stream_Stop (live_streams s)\<rparr>),
                        on_stream (stream_Start env),
                        cond (\<not> http_paused) (live_http_call False),
                        cond (\<not> p2p_paused) (live_p2p_call False)] s))"

text \<open>The end of \<^verbatim>\<open>LiveDownloadDriver::JumpOrSwitchIfNeeded\<close>.\<close>

definition SwitchDataRateIfNeeded :: "live_env \<Rightarrow> bool \<Rightarrow> live_state action" where
  "SwitchDataRateIfNeeded env AutoSwitchStream s =
     (if \<not> AutoSwitchStream then Inr s
      else
        (case SwitchToHigherDataRateIfNeeded env (RestPlayableTime env) s of
           (True, s1) \<Rightarrow> OnDataRateChanged env s1
         | (False, s1) \<Rightarrow>
             (case SwitchToLowerDataRateIfNeeded env (RestPlayableTime env) s1 of
                (True, s2) \<Rightarrow> OnDataRateChanged env s2
              | (False, s2) \<Rightarrow> Inr s2)))"

end
