(* ===== verification/LiveSwitch.thy ===== *)
theory LiveSwitch
  imports LiveDriver
begin

text \<open>
  \<^verbatim>\<open>p2sp::LiveSwitchController\<close> (\<^verbatim>\<open>p2sp/download/LiveSwitchController.h/.cpp\<close>): the state machine
  that decides once a second whether a live stream is fed by HTTP (state 2300), by P2P (3200) or
  by neither (3300).  A function that returns a Boolean and changes members returns the pair of
  both; early returns are nested conditionals in the order of the code.

  The lemmas show the invariant of the machine (at most one source runs, the pause flags of the
  downloaders and the records of HTTP use agree with the state, no assertion fails), the policy
  of each state, and what a shortage of memory and a change of the data rate do to it.
\<close>

section \<open>Reasons\<close>

datatype StopHttpCondition =
    REST_PLAYABLE_TIME_ENOUGTH | LONG_TIME_USING_CDN | BLOCK | UPLOAD_NOT_LARGE_ENOUGH
  | NO_USE_HTTP_WHEN_URGENT | WORSE_THAN_P2P | REST_PLAYABLE_TIME_NOT_SHORT

datatype StartHttpCondition = START | URGENT | LARGE_UPLOAD | FALL_BEHIND | NONE_PEERS | NO_P2P | DRAG

fun stop_code :: "StopHttpCondition \<Rightarrow> u8" where
  "stop_code REST_PLAYABLE_TIME_ENOUGTH = 0"
| "stop_code LONG_TIME_USING_CDN = 1"
| "stop_code BLOCK = 2"
| "stop_code UPLOAD_NOT_LARGE_ENOUGH = 3"
| "stop_code NO_USE_HTTP_WHEN_URGENT = 4"
| "stop_code WORSE_THAN_P2P = 5"
| "stop_code REST_PLAYABLE_TIME_NOT_SHORT = 6"

fun start_code :: "StartHttpCondition \<Rightarrow> u8" where
  "start_code START = 0"
| "start_code URGENT = 1"
| "start_code LARGE_UPLOAD = 2"
| "start_code FALL_BEHIND = 3"
| "start_code NONE_PEERS = 4"
| "start_code NO_P2P = 5"
| "start_code DRAG = 6"

definition using_because :: "StartHttpCondition \<Rightarrow> live_state \<Rightarrow> live_state" where
  "using_because r s = s\<lparr>reason_of_using_http := start_code r\<rparr>"

definition stopping_because :: "StopHttpCondition \<Rightarrow> live_state \<Rightarrow> live_state" where
  "stopping_because r s = s\<lparr>reason_of_stoping_http := stop_code r\<rparr>"

definition SOURCE_PPLIVE_LIVE2 :: u32 where
  "SOURCE_PPLIVE_LIVE2 = 12"

section \<open>The downloaders\<close>

definition ResumeHttpDownloader :: "live_state action" where
  "ResumeHttpDownloader = seq [modify (\<lambda>s. s\<lparr>live_http := HTTP_DOWNLOADING\<rparr>), live_http_call False]"

definition PauseHttpDownloader :: "live_state action" where
  "PauseHttpDownloader = seq [modify (\<lambda>s. s\<lparr>live_http := HTTP_PAUSING\<rparr>), live_http_call True]"

definition ResumeP2PDownloader :: "live_state action" where
  "ResumeP2PDownloader = seq [modify (\<lambda>s. s\<lparr>live_p2p := P2P_DOWNLOADING\<rparr>), live_p2p_call False]"

definition PauseP2PDownloader :: "live_state action" where
  "PauseP2PDownloader = seq [modify (\<lambda>s. s\<lparr>live_p2p := P2P_PAUSING\<rparr>), live_p2p_call True]"

definition SetChangeToHttpBecauseOfUrgent :: "live_state \<Rightarrow> live_state" where
  "SetChangeToHttpBecauseOfUrgent s =
     (SubmitChangedToHttpTimesWhenUrgent s)\<lparr>changed_because_of_large_upload := False\<rparr>"

section \<open>Transitions\<close>

definition live_ChangeTo3200 :: "live_env \<Rightarrow> live_state action" where
  "live_ChangeTo3200 env =
     seq [PauseHttpDownloader, ResumeP2PDownloader,
          modify (\<lambda>s. s\<lparr>time_counter_3200 := live_now env, rest_play_time_when_switched := RestPlayableTime env\<rparr>),
          \<lambda>s. cond (changed_because_of_large_upload s) (SetUseP2P env) s]"

definition live_ChangeTo2300 :: "live_env \<Rightarrow> live_state action" where
  "live_ChangeTo2300 env =
     seq [PauseP2PDownloader, ResumeHttpDownloader,
          modify (\<lambda>s. s\<lparr>time_counter_2300 := live_now env, rest_play_time_when_switched := RestPlayableTime env,
                       blocked_this_time := False\<rparr>),
          \<lambda>s. cond (changed_because_of_large_upload s) (SetUseCdnBecauseOfLargeUpload env) s]"

definition live_ChangeTo3300 :: "live_state action" where
  "live_ChangeTo3300 =
     seq [modify (\<lambda>s. s\<lparr>is_started := False\<rparr>), PauseP2PDownloader, PauseHttpDownloader]"

section \<open>From P2P to HTTP\<close>

text \<open>Some result with the state after the call: the answer is yes, for this reason.\<close>

definition urgently :: "StartHttpCondition \<Rightarrow> live_state \<Rightarrow> bool \<times> live_state" where
  "urgently r s = (True, using_because r (SetChangeToHttpBecauseOfUrgent s))"

definition for_large_upload :: "live_state \<Rightarrow> bool \<times> live_state" where
  "for_large_upload s = (True, using_because LARGE_UPLOAD (s\<lparr>changed_because_of_large_upload := True\<rparr>))"

definition advance_time :: "live_env \<Rightarrow> bool \<Rightarrow> u32" where
  "advance_time env sav =
     (if p2p_NowDownloadSpeed env < GetP2PSpeedThreshold (cfg env) sav * 1024
      then GetTimeOfAdvancingSwitchingHttp (cfg env) sav else 0)"

text \<open>The part of \<^verbatim>\<open>NeedChangeTo2300\<close> after the test of \<^verbatim>\<open>GetUseHttpWhenUrgent\<close>.\<close>

definition urgent_at_start :: "live_env \<Rightarrow> live_state \<Rightarrow> bool" where
  "urgent_at_start env s =
     (let sav = is_saving_mode s;
          rest = RestPlayableTime env;
          e3200 = live_elapsed env (time_counter_3200 s)
      in (rest < GetP2PRestPlayableTimeDelim (cfg env) sav + advance_time env sav \<and>
          e3200 > GetP2PProtectTimeWhenStart (cfg env) sav) \<or>
         (p2p_NowDownloadSpeed env = 0 \<and>
          rest < GetUrgentRestPlayableTimeDelim (cfg env) sav \<and>
          e3200 > GetP2PProtectTimeIfStartAndSpeedIs0 (cfg env) sav))"

definition urgent_later :: "live_env \<Rightarrow> live_state \<Rightarrow> bool" where
  "urgent_later env s =
     (let sav = is_saving_mode s;
          rest = RestPlayableTime env;
          e3200 = live_elapsed env (time_counter_3200 s);
          switched = rest_play_time_when_switched s
      in (switched > GetSafeEnoughRestPlayableTime (cfg env) sav \<and>
          rest < GetP2PRestPlayableTimeDelimWhenSwitchedWithLargeTime (cfg env) sav + advance_time env sav) \<or>
         (switched > 0 \<and>
          rest < GetP2PRestPlayableTimeDelim (cfg env) sav + advance_time env sav \<and>
          e3200 > GetP2PProtectTimeWhenSwitchedWithNotEnoughTime (cfg env) sav) \<or>
         (switched = 0 \<and> rest = 0 \<and>
          e3200 > GetP2PProtectTimeWhenSwitchedWithBuffering (cfg env) sav) \<or>
         (p2p_NowDownloadSpeed env = 0 \<and>
          rest < GetUrgentRestPlayableTimeDelim (cfg env) sav \<and>
          e3200 > GetP2PProtectTimeIfSpeedIs0 (cfg env) sav \<and>
          switched \<noteq> 0))"

definition no_peers :: "live_env \<Rightarrow> live_state \<Rightarrow> bool" where
  "no_peers env s =
     (let sav = is_saving_mode s
      in ConnectedPeersCount env = 0 \<and>
         (is_started s \<longrightarrow> live_elapsed env (time_counter_3200 s) > 5 * 1000) \<and>
         GetUseHttpWhenConnectedNonePeers (cfg env) sav \<and>
         RestPlayableTime env < GetRestPlayTimeDelimWhenNonePeers (cfg env) sav)"

definition large_upload_now :: "live_env \<Rightarrow> live_state \<Rightarrow> bool" where
  "large_upload_now env s =
     (let sav = is_saving_mode s
      in ShouldUseCDNWhenLargeUpload (cfg env) sav \<and>
         (is_http_fast s \<or> live_elapsed env (time_counter_3200 s) > GetTimeToIgnoreHttpBad (cfg env) sav) \<and>
         RestPlayableTime env > GetRestPlayTimeDelim (cfg env) sav \<and>
         IsUploadSpeedLargeEnough env)"

text \<open>The judgement by the upload history, which remembers when it last said yes.\<close>

definition accelerate_by_history :: "live_env \<Rightarrow> live_state \<Rightarrow> bool \<times> live_state" where
  "accelerate_by_history env s =
     (let sav = is_saving_mode s
      in if GetUseCdnToAccelerateBasedOnHistory (cfg env) sav \<and> ShouldUseCDNWhenLargeUpload (cfg env) sav
         then ShouldUseCdnToAccelerate env s else (False, s))"

definition NeedChangeTo2300 :: "live_env \<Rightarrow> live_state \<Rightarrow> (bool \<times> live_state) result" where
  "NeedChangeTo2300 env s0 =
     (if GetP2PControlTarget s0 = None then Inl NullPointer
      else if DoesFallBehindTooMuch env s0 then Inr (True, using_because FALL_BEHIND s0)
      else
        (let (accelerate, s) = accelerate_by_history env s0
         in if accelerate then Inr (for_large_upload s)
            else if large_upload_now env s then Inr (for_large_upload s)
            else if no_peers env s then Inr (urgently NONE_PEERS s)
            else if \<not> GetUseHttpWhenUrgent (cfg env) (is_saving_mode s) then Inr (False, s)
            else if is_started s then
              (if urgent_at_start env s then Inr (urgently URGENT s) else Inr (False, s))
            else
              (if urgent_later env s then Inr (urgently URGENT s) else Inr (False, s))))"

section \<open>From HTTP to P2P\<close>

definition stop_for :: "StopHttpCondition \<Rightarrow> live_state \<Rightarrow> (bool \<times> live_state) result" where
  "stop_for r s = Inr (True, stopping_because r s)"

text \<open>A reason that is also submitted to the driver.\<close>

definition stop_submitted :: "live_env \<Rightarrow> StopHttpCondition \<Rightarrow> live_state \<Rightarrow> (bool \<times> live_state) result" where
  "stop_submitted env r s = and_then (SubmitChangedToP2PCondition env (stop_code r) s) (stop_for r)"

text \<open>HTTP is used because of the upload: it is left when the upload has become small.\<close>

definition leave_large_upload :: "live_env \<Rightarrow> live_state \<Rightarrow> (bool \<times> live_state) result" where
  "leave_large_upload env s =
     (let sav = is_saving_mode s;
          rest = RestPlayableTime env;
          e2300 = live_elapsed env (time_counter_2300 s)
      in if rest < GetSafeRestPlayableTimeDelim (hcfg env) sav \<and>
            e2300 > GetHttpProtectTimeWhenLargeUpload (hcfg env) sav
         then stop_for UPLOAD_NOT_LARGE_ENOUGH s
         else if IsUploadSpeedSmallEnough env \<and>
            e2300 > GetUsingCDNOrUdpServerTimeDelim (hcfg env) sav * 1000
         then stop_for UPLOAD_NOT_LARGE_ENOUGH s
         else Inr (False, s))"

definition leave_http_at_start :: "live_env \<Rightarrow> live_state \<Rightarrow> (bool \<times> live_state) result" where
  "leave_http_at_start env s =
     (let sav = is_saving_mode s;
          rest = RestPlayableTime env;
          e2300 = live_elapsed env (time_counter_2300 s)
      in if ShouldUseCDNWhenLargeUpload (cfg env) sav \<and> IsUploadSpeedLargeEnough env \<and> rest > 0
         then Inr (False, s)
         else if rest > GetSafeEnoughRestPlayableTime (cfg env) sav
         then stop_submitted env REST_PLAYABLE_TIME_ENOUGTH s
         else if e2300 \<ge> GetHttpRunningLongEnoughTimeWhenStart (hcfg env) sav
         then stop_submitted env LONG_TIME_USING_CDN s
         else if e2300 \<ge> GetHttpProtectTime2WhenStart (hcfg env) sav \<and> GetHTTPControlTarget s = None
         then Inl NullPointer
         else if e2300 \<ge> GetHttpProtectTime2WhenStart (hcfg env) sav \<and>
            http_TotalDownloadBytes env \<le> GetHttpDownloadBytesDelimWhenStart (hcfg env) sav
         then stop_submitted env BLOCK s
         else if rest = 0 \<and> e2300 \<ge> GetHttpProtectTimeWhenStart (hcfg env) sav
         then stop_submitted env BLOCK s
         else Inr (False, s))"

definition note_block :: "live_env \<Rightarrow> live_state \<Rightarrow> live_state" where
  "note_block env s =
     (if RestPlayableTime env = 0 \<and> live_elapsed env (time_counter_2300 s) \<le> 10000 \<and> \<not> blocked_this_time s
      then (SubmitBlockTimesWhenUseHttpUnderUrgentCondition s)\<lparr>blocked_this_time := True\<rparr>
      else s)"

definition leave_http_after_urgency :: "live_env \<Rightarrow> live_state \<Rightarrow> (bool \<times> live_state) result" where
  "leave_http_after_urgency env s0 =
     (let s = note_block env s0;
          sav = is_saving_mode s;
          rest = RestPlayableTime env;
          e2300 = live_elapsed env (time_counter_2300 s)
      in if rest \<le> rest_play_time_when_switched s \<and>
            e2300 > GetHttpProtectTimeWhenUrgentSwitched (hcfg env) sav
         then stop_for WORSE_THAN_P2P s
         else if rest > GetSafeEnoughRestPlayableTime (cfg env) sav
         then stop_for REST_PLAYABLE_TIME_ENOUGTH s
         else if e2300 > GetHttpRunningLongEnoughTimeWhenUrgentSwitched (hcfg env) sav \<and>
            rest > GetSafeRestPlayableTimeDelim (hcfg env) sav
         then stop_for REST_PLAYABLE_TIME_NOT_SHORT s
         else if e2300 \<ge> GetHttpRunningLongestTimeWhenUrgentSwitched (hcfg env) sav
         then stop_for LONG_TIME_USING_CDN s
         else Inr (False, s))"

definition leave_http_unless_urgent :: "live_env \<Rightarrow> live_state \<Rightarrow> (bool \<times> live_state) result" where
  "leave_http_unless_urgent env s =
     (let sav = is_saving_mode s
      in if is_started s then
           (if ShouldUseCDNWhenLargeUpload (cfg env) sav \<and> IsUploadSpeedLargeEnough env \<and>
               RestPlayableTime env > 0
            then Inr (False, s) else stop_for NO_USE_HTTP_WHEN_URGENT s)
         else if ShouldUseCDNWhenLargeUpload (cfg env) sav \<and> changed_because_of_large_upload s
         then leave_large_upload env s
         else stop_for NO_USE_HTTP_WHEN_URGENT s)"

definition NeedChangeTo3200 :: "live_env \<Rightarrow> live_state \<Rightarrow> (bool \<times> live_state) result" where
  "NeedChangeTo3200 env s =
     (if \<not> GetUseHttpWhenUrgent (cfg env) (is_saving_mode s) then leave_http_unless_urgent env s
      else if is_started s then leave_http_at_start env s
      else if \<not> ShouldUseCDNWhenLargeUpload (cfg env) (is_saving_mode s) \<or> \<not> changed_because_of_large_upload s
      then leave_http_after_urgency env s
      else leave_large_upload env s)"

definition NeedChangeTo3300 :: "live_env \<Rightarrow> bool" where
  "NeedChangeTo3300 env = (RestPlayableTime env > GetMaxRestPlayableTime (hcfg env))"

section \<open>The three states\<close>

definition CheckState2300 :: "live_env \<Rightarrow> live_state action" where
  "CheckState2300 env s =
     (if GetHTTPControlTarget s = None \<or> GetP2PControlTarget s = None then Inl AssertionFailed
      else if NeedChangeTo3300 env then live_ChangeTo3300 s
      else if ConnectedPeersCount env = 0 \<and> GetUseHttpWhenConnectedNonePeers (cfg env) (is_saving_mode s) \<and>
        RestPlayableTime env < GetEnoughRestPlayTimeDelimWhenNonePeers (cfg env) (is_saving_mode s)
      then Inr s
      else if DoesFallBehindTooMuch env s then Inr s
      else
        and_then (NeedChangeTo3200 env s) (\<lambda>(need, s1).
          if need then
            (let fast = (if RestPlayableTime env > 20 then True
                         else if RestPlayableTime env < 5 then False else is_http_fast s1)
             in live_ChangeTo3200 env (s1\<lparr>is_started := False, is_http_fast := fast\<rparr>))
          else Inr s1))"

definition CheckState3200 :: "live_env \<Rightarrow> live_state action" where
  "CheckState3200 env s =
     (if GetHTTPControlTarget s = None \<or> GetP2PControlTarget s = None then Inl AssertionFailed
      else if NeedChangeTo3300 env then live_ChangeTo3300 s
      else
        and_then (NeedChangeTo2300 env s) (\<lambda>(need, s1).
          if need then live_ChangeTo2300 env (s1\<lparr>is_started := False\<rparr>) else Inr s1))"

text \<open>\<^verbatim>\<open>CheckState3300\<close> at the start of the stream and later.\<close>

definition start_of_stream :: "live_env \<Rightarrow> live_state action" where
  "start_of_stream env s =
     (let http = GetHTTPControlTarget s \<noteq> None; p2p = GetP2PControlTarget s \<noteq> None
      in if GetShouldJudgeSwitchingDatarateManually (hcfg env) \<and> is_too_near s \<and>
            RestPlayableTime env < GetRestPlayableTimeDelimWhenSwitching (hcfg env) \<and> http
         then live_ChangeTo2300 env (using_because DRAG s)
         else if GetShouldUseBWType (hcfg env) \<and> http \<and> p2p then
           (if (BWType env = JBW_NORMAL \<or> is_saving_mode s) \<and> \<not> Replay env \<and>
               SourceType env = SOURCE_PPLIVE_LIVE2
            then live_ChangeTo3200 env s
            else live_ChangeTo2300 env (using_because START s))
         else if http then ResumeHttpDownloader (using_because START s)
         else if p2p then ResumeP2PDownloader s
         else Inr s)"

definition resume_stream :: "live_env \<Rightarrow> live_state action" where
  "resume_stream env s =
     (let http = GetHTTPControlTarget s \<noteq> None; p2p = GetP2PControlTarget s \<noteq> None
      in if p2p \<and> http then
           (if ConnectedPeersCount env = 0 then ResumeHttpDownloader (using_because NONE_PEERS s)
            else if DoesFallBehindTooMuch env s then ResumeHttpDownloader (using_because FALL_BEHIND s)
            else ResumeP2PDownloader s)
         else if p2p then ResumeP2PDownloader s
         else if http then ResumeHttpDownloader (using_because NO_P2P s)
         else Inr s)"

definition CheckState3300 :: "live_env \<Rightarrow> live_state action" where
  "CheckState3300 env s =
     (if \<not> GetUseHttpWhenUrgent (cfg env) (is_saving_mode s) then
        (if GetP2PControlTarget s \<noteq> None then ResumeP2PDownloader s
         else if GetHTTPControlTarget s \<noteq> None then ResumeHttpDownloader (using_because NO_P2P s)
         else Inr s)
      else if is_started s then start_of_stream env s
      else if RestPlayableTime env < GetMinRestPlayableTime (hcfg env) then resume_stream env s
      else Inr s)"

section \<open>The timer\<close>

text \<open>\<^verbatim>\<open>CheckMemory\<close> answers whether the memory is full; \<open>None\<close> is a build without a pool.\<close>

definition live_CheckMemory :: "live_env \<Rightarrow> live_state \<Rightarrow> (bool \<times> live_state) result" where
  "live_CheckMemory env s =
     (case live_left_capacity env of
        None \<Rightarrow> Inr (False, s)
      | Some left \<Rightarrow>
          if \<not> live_memory_full s then
            (if left < 1024 then
               map_sum id (\<lambda>s. (True, s))
                 (seq [cond (GetHTTPControlTarget s \<noteq> None) PauseHttpDownloader,
                       cond (GetP2PControlTarget s \<noteq> None) PauseP2PDownloader] s)
             else Inr (False, s))
          else if left > 2048 then Inr (False, s\<lparr>live_memory_full := False\<rparr>)
          else Inr (True, s))"

definition live_dispatch :: "live_env \<Rightarrow> live_state action" where
  "live_dispatch env s =
     (if live_http s = HTTP_DOWNLOADING \<and> live_p2p s = P2P_PAUSING then
        and_then (CheckState2300 env s) (\<lambda>s1.
          if live_http s1 \<noteq> HTTP_DOWNLOADING then StopHttp env (reason_of_stoping_http s1) s1 else Inr s1)
      else if live_http s = HTTP_PAUSING \<and> live_p2p s = P2P_DOWNLOADING then
        and_then (CheckState3200 env s) (\<lambda>s1.
          if live_http s1 = HTTP_DOWNLOADING then StartHttp env (reason_of_using_http s1) s1 else Inr s1)
      else if live_http s = HTTP_PAUSING \<and> live_p2p s = P2P_PAUSING then
        and_then (CheckState3300 env s) (\<lambda>s1.
          if live_http s1 = HTTP_DOWNLOADING then StartHttp env (reason_of_using_http s1) s1 else Inr s1)
      else Inr s)"

definition live_OnControlTimer :: "live_env \<Rightarrow> live_state action" where
  "live_OnControlTimer env s =
     and_then (live_CheckMemory env s) (\<lambda>(full, s1). if full then Inr s1 else live_dispatch env s1)"

definition live_OnTimerElapsed :: "live_env \<Rightarrow> live_state action" where
  "live_OnTimerElapsed env =
     seq [live_OnControlTimer env, modify (\<lambda>s. s\<lparr>switch_state := (live_http s, live_p2p s)\<rparr>)]"

section \<open>Start\<close>

text \<open>The members the constructor sets; the others keep the given values.\<close>

definition live_construct :: "live_state \<Rightarrow> live_state" where
  "live_construct s =
     s\<lparr>is_started := True, rest_play_time_when_switched := 0, is_http_fast := True,
       changed_because_of_large_upload := False, blocked_this_time := False\<rparr>"

definition live_Start :: "live_env \<Rightarrow> bool \<Rightarrow> bool \<Rightarrow> live_state action" where
  "live_Start env too_near saving s0 =
     (let s = s0\<lparr>is_too_near := too_near, is_saving_mode := saving\<rparr>;
          http = GetHTTPControlTarget s \<noteq> None; p2p = GetP2PControlTarget s \<noteq> None
      in if \<not> http \<and> \<not> p2p then Inl AssertionFailed
         else
           seq [cond http (live_http_call True), cond p2p (live_p2p_call True),
                modify (\<lambda>s. s\<lparr>live_http := (if http then HTTP_PAUSING else HTTP_NONE),
                              live_p2p := (if p2p then P2P_PAUSING else P2P_NONE)\<rparr>),
                cond (http \<and> \<not> p2p) ResumeHttpDownloader,
                cond (\<not> http \<and> p2p) ResumeP2PDownloader,
                modify (\<lambda>s. s\<lparr>live_memory_full := False\<rparr>),
                live_OnControlTimer env] s)"

section \<open>The downloaders of the current stream\<close>

definition upd_stream :: "(live_stream \<Rightarrow> live_stream) \<Rightarrow> live_state \<Rightarrow> live_state" where
  "upd_stream f s =
     s\<lparr>live_streams := (live_streams s)[current_data_rate_pos s := f (live_streams s ! current_data_rate_pos s)]\<rparr>"

lemma upd_stream_fields [simp]:
  "live_http (upd_stream f s) = live_http s" "live_p2p (upd_stream f s) = live_p2p s"
  "http_stats (upd_stream f s) = http_stats s" "live_memory_full (upd_stream f s) = live_memory_full s"
  "reason_of_using_http (upd_stream f s) = reason_of_using_http s"
  "reason_of_stoping_http (upd_stream f s) = reason_of_stoping_http s"
  "current_data_rate_pos (upd_stream f s) = current_data_rate_pos s"
  "is_started (upd_stream f s) = is_started s" "is_saving_mode (upd_stream f s) = is_saving_mode s"
  "changed_because_of_large_upload (upd_stream f s) = changed_because_of_large_upload s"
  "length (live_streams (upd_stream f s)) = length (live_streams s)"
  by (simp_all add: upd_stream_def)

lemma target_present:
  "GetHTTPControlTarget s = Some b \<Longrightarrow> current_data_rate_pos s < length (live_streams s)"
  "GetP2PControlTarget s = Some b \<Longrightarrow> current_data_rate_pos s < length (live_streams s)"
  by (auto simp: GetHTTPControlTarget_def GetP2PControlTarget_def split: if_splits)

lemma targets_upd_stream:
  "current_data_rate_pos s < length (live_streams s) \<Longrightarrow>
     GetHTTPControlTarget (upd_stream f s) = stream_http (f (live_streams s ! current_data_rate_pos s))"
  "current_data_rate_pos s < length (live_streams s) \<Longrightarrow>
     GetP2PControlTarget (upd_stream f s) = stream_p2p (f (live_streams s ! current_data_rate_pos s))"
  by (simp_all add: upd_stream_def GetHTTPControlTarget_def GetP2PControlTarget_def)

lemma targets_stream:
  "current_data_rate_pos s < length (live_streams s) \<Longrightarrow>
     stream_http (live_streams s ! current_data_rate_pos s) = GetHTTPControlTarget s"
  "current_data_rate_pos s < length (live_streams s) \<Longrightarrow>
     stream_p2p (live_streams s ! current_data_rate_pos s) = GetP2PControlTarget s"
  by (simp_all add: GetHTTPControlTarget_def GetP2PControlTarget_def)

lemma on_stream_eq:
  "current_data_rate_pos s < length (live_streams s) \<Longrightarrow> on_stream f s = Inr (upd_stream f s)"
  by (simp add: on_stream_def upd_stream_def Let_def)

lemma live_http_call_spec:
  assumes "GetHTTPControlTarget s \<noteq> None"
  shows "live_http_call b s = Inr (upd_stream (stream_http_update (\<lambda>_. Some b)) s)"
    and "GetHTTPControlTarget (upd_stream (stream_http_update (\<lambda>_. Some b)) s) = Some b"
    and "GetP2PControlTarget (upd_stream (stream_http_update (\<lambda>_. Some b)) s) = GetP2PControlTarget s"
  using assms target_present(1) [of s]
  by (auto simp: live_http_call_def on_stream_eq targets_upd_stream targets_stream)

lemma live_p2p_call_spec:
  assumes "GetP2PControlTarget s \<noteq> None"
  shows "live_p2p_call b s = Inr (upd_stream (stream_p2p_update (\<lambda>_. Some b)) s)"
    and "GetP2PControlTarget (upd_stream (stream_p2p_update (\<lambda>_. Some b)) s) = Some b"
    and "GetHTTPControlTarget (upd_stream (stream_p2p_update (\<lambda>_. Some b)) s) = GetHTTPControlTarget s"
  using assms target_present(2) [of s]
  by (auto simp: live_p2p_call_def on_stream_eq targets_upd_stream targets_stream)

lemma set_use_spec:
  assumes "GetHTTPControlTarget s \<noteq> None"
  shows "SetUseP2P env s = Inr (upd_stream (stream_SetUseP2P env) s)"
    and "SetUseCdnBecauseOfLargeUpload env s = Inr (upd_stream (stream_SetUseCdnBecauseOfLargeUpload env) s)"
    and "GetHTTPControlTarget (upd_stream (stream_SetUseP2P env) s) = GetHTTPControlTarget s"
    and "GetP2PControlTarget (upd_stream (stream_SetUseP2P env) s) = GetP2PControlTarget s"
    and "GetHTTPControlTarget (upd_stream (stream_SetUseCdnBecauseOfLargeUpload env) s) = GetHTTPControlTarget s"
    and "GetP2PControlTarget (upd_stream (stream_SetUseCdnBecauseOfLargeUpload env) s) = GetP2PControlTarget s"
  using assms target_present(1) [of s]
  by (auto simp: SetUseP2P_def SetUseCdnBecauseOfLargeUpload_def on_stream_eq targets_upd_stream
      targets_stream stream_SetUseP2P_def add_cdn_period_def stream_SetUseCdnBecauseOfLargeUpload_def)

text \<open>
  \<open>moved h p s t\<close>: the machine goes from \<open>s\<close> to \<open>t\<close>, in state \<open>h\<close>, \<open>p\<close>, the pause flags of the
  two downloaders agreeing with it; what the transitions do not touch is kept.
\<close>

definition moved :: "HttpState \<Rightarrow> P2PState \<Rightarrow> live_state \<Rightarrow> live_state \<Rightarrow> bool" where
  "moved h p s t \<longleftrightarrow>
     live_http t = h \<and> live_p2p t = p \<and>
     GetHTTPControlTarget t = Some (h \<noteq> HTTP_DOWNLOADING) \<and> GetP2PControlTarget t = Some (p \<noteq> P2P_DOWNLOADING) \<and>
     http_stats t = http_stats s \<and> live_memory_full t = live_memory_full s \<and>
     reason_of_using_http t = reason_of_using_http s \<and> reason_of_stoping_http t = reason_of_stoping_http s \<and>
     current_data_rate_pos t = current_data_rate_pos s"

definition both_targets :: "live_state \<Rightarrow> bool" where
  "both_targets s = (GetHTTPControlTarget s \<noteq> None \<and> GetP2PControlTarget s \<noteq> None)"

lemmas downloader_defs = ResumeHttpDownloader_def PauseHttpDownloader_def ResumeP2PDownloader_def PauseP2PDownloader_def

lemma targets_update [simp]:
  "GetHTTPControlTarget (s\<lparr>live_http := h\<rparr>) = GetHTTPControlTarget s"
  "GetP2PControlTarget (s\<lparr>live_http := h\<rparr>) = GetP2PControlTarget s"
  "GetHTTPControlTarget (s\<lparr>live_p2p := p\<rparr>) = GetHTTPControlTarget s"
  "GetP2PControlTarget (s\<lparr>live_p2p := p\<rparr>) = GetP2PControlTarget s"
  "GetHTTPControlTarget (s\<lparr>is_started := b\<rparr>) = GetHTTPControlTarget s"
  "GetP2PControlTarget (s\<lparr>is_started := b\<rparr>) = GetP2PControlTarget s"
  "GetHTTPControlTarget (s\<lparr>is_http_fast := b\<rparr>) = GetHTTPControlTarget s"
  "GetP2PControlTarget (s\<lparr>is_http_fast := b\<rparr>) = GetP2PControlTarget s"
  "GetHTTPControlTarget (s\<lparr>is_too_near := b\<rparr>) = GetHTTPControlTarget s"
  "GetP2PControlTarget (s\<lparr>is_too_near := b\<rparr>) = GetP2PControlTarget s"
  "GetHTTPControlTarget (s\<lparr>is_saving_mode := b\<rparr>) = GetHTTPControlTarget s"
  "GetP2PControlTarget (s\<lparr>is_saving_mode := b\<rparr>) = GetP2PControlTarget s"
  "GetHTTPControlTarget (s\<lparr>changed_because_of_large_upload := b\<rparr>) = GetHTTPControlTarget s"
  "GetP2PControlTarget (s\<lparr>changed_because_of_large_upload := b\<rparr>) = GetP2PControlTarget s"
  "GetHTTPControlTarget (s\<lparr>live_memory_full := b\<rparr>) = GetHTTPControlTarget s"
  "GetP2PControlTarget (s\<lparr>live_memory_full := b\<rparr>) = GetP2PControlTarget s"
  "GetHTTPControlTarget (s\<lparr>switch_state := w\<rparr>) = GetHTTPControlTarget s"
  "GetP2PControlTarget (s\<lparr>switch_state := w\<rparr>) = GetP2PControlTarget s"
  "GetHTTPControlTarget (s\<lparr>http_stats := hs\<rparr>) = GetHTTPControlTarget s"
  "GetP2PControlTarget (s\<lparr>http_stats := hs\<rparr>) = GetP2PControlTarget s"
  "GetHTTPControlTarget (s\<lparr>time_counter_2300 := m\<rparr>) = GetHTTPControlTarget s"
  "GetP2PControlTarget (s\<lparr>time_counter_2300 := m\<rparr>) = GetP2PControlTarget s"
  "GetHTTPControlTarget (s\<lparr>time_counter_3200 := m\<rparr>) = GetHTTPControlTarget s"
  "GetP2PControlTarget (s\<lparr>time_counter_3200 := m\<rparr>) = GetP2PControlTarget s"
  "GetHTTPControlTarget (s\<lparr>rest_play_time_when_switched := r\<rparr>) = GetHTTPControlTarget s"
  "GetP2PControlTarget (s\<lparr>rest_play_time_when_switched := r\<rparr>) = GetP2PControlTarget s"
  "GetHTTPControlTarget (s\<lparr>blocked_this_time := b\<rparr>) = GetHTTPControlTarget s"
  "GetP2PControlTarget (s\<lparr>blocked_this_time := b\<rparr>) = GetP2PControlTarget s"
  "GetHTTPControlTarget (using_because why s) = GetHTTPControlTarget s"
  "GetP2PControlTarget (using_because why s) = GetP2PControlTarget s"
  by (simp_all add: GetHTTPControlTarget_def GetP2PControlTarget_def using_because_def)

text \<open>The transitions, when both downloaders exist.\<close>

lemma live_ChangeTo3200_moved:
  assumes "both_targets s"
  shows "result_spec (\<lambda>t. moved HTTP_PAUSING P2P_DOWNLOADING s t \<and> \<not> is_started t = (\<not> is_started s))
    (live_ChangeTo3200 env s)"
  using assms
  by (auto simp: both_targets_def live_ChangeTo3200_def downloader_defs live_http_call_spec
      live_p2p_call_spec moved_def cond_def set_use_spec)

lemma live_ChangeTo2300_moved:
  assumes "both_targets s"
  shows "result_spec (\<lambda>t. moved HTTP_DOWNLOADING P2P_PAUSING s t \<and> \<not> is_started t = (\<not> is_started s))
    (live_ChangeTo2300 env s)"
  using assms
  by (auto simp: both_targets_def live_ChangeTo2300_def downloader_defs live_http_call_spec
      live_p2p_call_spec moved_def cond_def set_use_spec)

lemma live_ChangeTo3300_moved:
  assumes "both_targets s"
  shows "result_spec (\<lambda>t. moved HTTP_PAUSING P2P_PAUSING s t \<and> \<not> is_started t \<and> is_saving_mode t = is_saving_mode s)
    (live_ChangeTo3300 s)"
  using assms
  by (auto simp: both_targets_def live_ChangeTo3300_def downloader_defs live_http_call_spec
      live_p2p_call_spec moved_def)

section \<open>The judgements keep the machine\<close>

definition same_machine :: "live_state \<Rightarrow> live_state \<Rightarrow> bool" where
  "same_machine s t \<longleftrightarrow>
     live_http t = live_http s \<and> live_p2p t = live_p2p s \<and>
     GetHTTPControlTarget t = GetHTTPControlTarget s \<and> GetP2PControlTarget t = GetP2PControlTarget s \<and>
     http_stats t = http_stats s \<and> live_memory_full t = live_memory_full s \<and>
     current_data_rate_pos t = current_data_rate_pos s \<and> is_started t = is_started s \<and>
     is_saving_mode t = is_saving_mode s"

lemma same_machine_refl [simp]: "same_machine s s"
  by (simp add: same_machine_def)

lemma same_machine_trans: "same_machine s t \<Longrightarrow> same_machine t u \<Longrightarrow> same_machine s u"
  by (simp add: same_machine_def)

lemma same_machine_updates:
  "same_machine s (using_because r s)"
  "same_machine s (stopping_because q s)"
  "same_machine s (snd (urgently r s))"
  "same_machine s (snd (for_large_upload s))"
  "same_machine s (note_block env s)"
  "same_machine s (snd (ShouldUseCdnToAccelerate env s))"
  "same_machine s (snd (accelerate_by_history env s))"
  by (auto simp: same_machine_def using_because_def stopping_because_def urgently_def for_large_upload_def
      note_block_def SubmitBlockTimesWhenUseHttpUnderUrgentCondition_def SetChangeToHttpBecauseOfUrgent_def
      SubmitChangedToHttpTimesWhenUrgent_def ShouldUseCdnToAccelerate_def accelerate_by_history_def
      GetHTTPControlTarget_def GetP2PControlTarget_def Let_def split del: if_split split: if_split)

lemma stop_for_machine: "result_spec (\<lambda>(b, t). same_machine s t) (stop_for r s)"
  by (simp add: stop_for_def same_machine_updates)

lemma stop_submitted_machine:
  assumes "both_targets s"
  shows "result_spec (\<lambda>(b, t). same_machine s t) (stop_submitted env r s)"
  using assms
  by (auto simp: stop_submitted_def stop_for_def SubmitChangedToP2PCondition_def both_targets_def
      same_machine_def stopping_because_def GetHTTPControlTarget_def GetP2PControlTarget_def Let_def split: if_splits)

lemma NeedChangeTo2300_machine:
  assumes "both_targets s"
  shows "result_spec (\<lambda>(b, t). same_machine s t) (NeedChangeTo2300 env s)"
proof -
  obtain a s1 where a: "accelerate_by_history env s = (a, s1)" by fastforce
  then have m: "same_machine s s1" using same_machine_updates(7) [of s env] by simp
  have "same_machine s (snd (urgently r s1))" "same_machine s (snd (for_large_upload s1))" for r
    using m same_machine_updates(3,4) same_machine_trans by blast+
  with m a assms show ?thesis
    by (simp add: NeedChangeTo2300_def both_targets_def same_machine_updates case_prod_beta)
qed

lemma leave_http_machine:
  "result_spec (\<lambda>(b, t). same_machine s t) (leave_large_upload env s)"
  "result_spec (\<lambda>(b, t). same_machine s t) (leave_http_unless_urgent env s)"
  by (simp_all add: leave_large_upload_def leave_http_unless_urgent_def Let_def stop_for_machine)

lemma leave_http_at_start_machine:
  assumes "both_targets s"
  shows "result_spec (\<lambda>(b, t). same_machine s t) (leave_http_at_start env s)"
proof -
  have "GetHTTPControlTarget s \<noteq> None" using assms by (simp add: both_targets_def)
  then show ?thesis
    by (simp add: leave_http_at_start_def Let_def stop_submitted_machine [OF assms] del: not_None_eq)
qed

lemma leave_http_after_urgency_machine:
  "result_spec (\<lambda>(b, t). same_machine s t) (leave_http_after_urgency env s)"
proof -
  have "same_machine s (stopping_because r (note_block env s))" for r
    using same_machine_updates(2,5) same_machine_trans by blast
  then show ?thesis
    by (simp add: leave_http_after_urgency_def Let_def stop_for_def same_machine_updates)
qed

lemma NeedChangeTo3200_machine:
  assumes "both_targets s"
  shows "result_spec (\<lambda>(b, t). same_machine s t) (NeedChangeTo3200 env s)"
  using assms by (simp add: NeedChangeTo3200_def leave_http_machine leave_http_at_start_machine
      leave_http_after_urgency_machine)

section \<open>The invariant of the machine\<close>

definition live_agrees :: "live_state \<Rightarrow> bool" where
  "live_agrees s \<longleftrightarrow>
     (live_http s, live_p2p s) \<in> {(HTTP_DOWNLOADING, P2P_PAUSING), (HTTP_PAUSING, P2P_DOWNLOADING), (HTTP_PAUSING, P2P_PAUSING)} \<and>
     GetHTTPControlTarget s = Some (live_http s \<noteq> HTTP_DOWNLOADING) \<and>
     GetP2PControlTarget s = Some (live_p2p s \<noteq> P2P_DOWNLOADING)"

definition live_kept :: "live_state \<Rightarrow> live_state \<Rightarrow> bool" where
  "live_kept s t = (live_agrees t \<and> http_stats t = http_stats s \<and> live_memory_full t = live_memory_full s)"

lemma live_agrees_both: "live_agrees s \<Longrightarrow> both_targets s"
  by (auto simp: live_agrees_def both_targets_def)

lemma moved_kept:
  "moved HTTP_DOWNLOADING P2P_PAUSING s t \<Longrightarrow> live_kept s t"
  "moved HTTP_PAUSING P2P_DOWNLOADING s t \<Longrightarrow> live_kept s t"
  "moved HTTP_PAUSING P2P_PAUSING s t \<Longrightarrow> live_kept s t"
  by (simp_all add: moved_def live_kept_def live_agrees_def)

lemma same_machine_both: "same_machine s t \<Longrightarrow> both_targets t = both_targets s"
  by (simp add: same_machine_def both_targets_def)

lemma same_machine_kept: "same_machine s t \<Longrightarrow> live_agrees s \<Longrightarrow> live_kept s t"
  by (simp add: same_machine_def live_kept_def live_agrees_def)

lemma live_kept_base: "http_stats s' = http_stats s \<Longrightarrow> live_memory_full s' = live_memory_full s \<Longrightarrow> live_kept s' t \<Longrightarrow> live_kept s t"
  by (simp add: live_kept_def)

lemma live_kept_refl: "live_agrees s \<Longrightarrow> live_kept s s"
  by (simp add: live_kept_def)

lemma CheckState2300_kept:
  assumes "live_agrees s"
  shows "result_spec (live_kept s) (CheckState2300 env s)"
proof -
  note both = live_agrees_both [OF assms]
  have change: "result_spec (live_kept s) (live_ChangeTo3200 env (t\<lparr>is_started := False, is_http_fast := f\<rparr>))"
    if t: "same_machine s t" for t f
  proof -
    let ?u = "t\<lparr>is_started := False, is_http_fast := f\<rparr>"
    have "both_targets ?u" using t both by (simp add: both_targets_def same_machine_def)
    from live_ChangeTo3200_moved [OF this] show ?thesis
      by (rule result_spec_mono) (use t in \<open>auto simp: same_machine_def dest!: moved_kept(2) elim!: live_kept_base [rotated 2]\<close>)
  qed
  obtain b t where t: "NeedChangeTo3200 env s = Inr (b, t)" "same_machine s t"
    using NeedChangeTo3200_machine [OF both, of env] by (auto simp: result_spec_iff)
  have "result_spec (live_kept s) (live_ChangeTo3300 s)"
    using live_ChangeTo3300_moved [OF both] by (rule result_spec_mono) (simp add: moved_kept)
  with t both assms change [OF t(2)] same_machine_kept [OF t(2) assms] show ?thesis
    by (simp add: CheckState2300_def both_targets_def live_kept_refl Let_def del: not_None_eq split del: if_split split: if_split)
qed

lemma CheckState3200_kept:
  assumes "live_agrees s"
  shows "result_spec (live_kept s) (CheckState3200 env s)"
proof -
  note both = live_agrees_both [OF assms]
  have change: "result_spec (live_kept s) (live_ChangeTo2300 env (t\<lparr>is_started := False\<rparr>))"
    if t: "same_machine s t" for t
  proof -
    let ?u = "t\<lparr>is_started := False\<rparr>"
    have "both_targets ?u" using t both by (simp add: both_targets_def same_machine_def)
    from live_ChangeTo2300_moved [OF this] show ?thesis
      by (rule result_spec_mono) (use t in \<open>auto simp: same_machine_def dest!: moved_kept(1) elim!: live_kept_base [rotated 2]\<close>)
  qed
  obtain b t where t: "NeedChangeTo2300 env s = Inr (b, t)" "same_machine s t"
    using NeedChangeTo2300_machine [OF both, of env] by (auto simp: result_spec_iff)
  have "result_spec (live_kept s) (live_ChangeTo3300 s)"
    using live_ChangeTo3300_moved [OF both] by (rule result_spec_mono) (simp add: moved_kept)
  with t both assms change [OF t(2)] same_machine_kept [OF t(2) assms] show ?thesis
    by (simp add: CheckState3200_def both_targets_def del: not_None_eq)
qed

lemma resume_moved:
  assumes "both_targets s"
  shows "live_p2p s = P2P_PAUSING \<Longrightarrow> GetP2PControlTarget s = Some True \<Longrightarrow>
      result_spec (moved HTTP_DOWNLOADING P2P_PAUSING s) (ResumeHttpDownloader s)"
    and "live_http s = HTTP_PAUSING \<Longrightarrow> GetHTTPControlTarget s = Some True \<Longrightarrow>
      result_spec (moved HTTP_PAUSING P2P_DOWNLOADING s) (ResumeP2PDownloader s)"
  using assms by (simp_all add: downloader_defs live_http_call_spec live_p2p_call_spec moved_def both_targets_def)

lemma CheckState3300_kept:
  assumes "live_agrees s" "live_http s = HTTP_PAUSING" "live_p2p s = P2P_PAUSING"
  shows "result_spec (live_kept s) (CheckState3300 env s)"
proof -
  have flags: "GetHTTPControlTarget s = Some True" "GetP2PControlTarget s = Some True"
    using assms by (auto simp: live_agrees_def)
  have both: "both_targets (using_because r s)" for r
    using flags by (simp add: both_targets_def)
  have u [simp]: "live_http (using_because r s) = HTTP_PAUSING" "live_p2p (using_because r s) = P2P_PAUSING"
    "http_stats (using_because r s) = http_stats s" "live_memory_full (using_because r s) = live_memory_full s" for r
    using assms by (simp_all add: using_because_def)
  have k: "live_kept (using_because r s) t \<Longrightarrow> live_kept s t" for r t
    by (rule live_kept_base [of "using_because r s"]) simp_all
  have http: "result_spec (live_kept s) (ResumeHttpDownloader (using_because r s))" for r
    using resume_moved(1) [OF both [of r]] flags by (auto dest!: moved_kept(1) k elim!: result_spec_mono)
  have p2p: "result_spec (live_kept s) (ResumeP2PDownloader s)"
    using resume_moved(2) [of s] flags assms by (auto simp: both_targets_def dest!: moved_kept(2) elim!: result_spec_mono)
  have c2300: "result_spec (live_kept s) (live_ChangeTo2300 env (using_because r s))" for r
    using live_ChangeTo2300_moved [OF both [of r], of env] by (auto dest!: moved_kept(1) k elim!: result_spec_mono)
  have c3200: "result_spec (live_kept s) (live_ChangeTo3200 env s)"
    using live_ChangeTo3200_moved [of s env] flags by (auto simp: both_targets_def dest!: moved_kept(2) elim!: result_spec_mono)
  show ?thesis
    using flags assms(1)
    by (simp add: CheckState3300_def start_of_stream_def resume_stream_def Let_def http p2p c2300 c3200 live_kept_refl)
qed

section \<open>The periods of HTTP use\<close>

text \<open>
  All periods but the last have ended; the last one runs exactly when HTTP downloads, and began
  with at most \<open>b\<close> bytes downloaded.
\<close>

definition stats_ok :: "bool \<Rightarrow> u32 \<Rightarrow> http_stat list \<Rightarrow> bool" where
  "stats_ok running b hs \<longleftrightarrow>
     list_all (\<lambda>h. \<not> stat_running h) (butlast hs) \<and>
     (if running then hs \<noteq> [] \<and> stat_running (last hs) \<and> http_downloaded_bytes_when_start (last hs) \<le> b
      else list_all (\<lambda>h. \<not> stat_running h) hs)"

definition live_ok :: "u32 \<Rightarrow> live_state \<Rightarrow> bool" where
  "live_ok b s \<longleftrightarrow>
     live_agrees s \<and> \<not> live_memory_full s \<and> stats_ok (live_http s = HTTP_DOWNLOADING) b (http_stats s)"

definition enough_memory :: "live_env \<Rightarrow> bool" where
  "enough_memory env = (case live_left_capacity env of None \<Rightarrow> True | Some left \<Rightarrow> left \<ge> 1024)"

lemma StartHttp_ok:
  assumes "live_agrees s" "live_http s = HTTP_DOWNLOADING" "\<not> live_memory_full s" "stats_ok False b (http_stats s)"
  shows "result_spec (\<lambda>t. live_ok (http_TotalDownloadBytes env) t \<and> live_http t = live_http s \<and> live_p2p t = live_p2p s)
    (StartHttp env r s)"
  using assms by (auto simp: StartHttp_def live_ok_def live_agrees_def stats_ok_def stat_Start_def)

lemma StopHttp_ok:
  assumes "live_agrees s" "live_http s \<noteq> HTTP_DOWNLOADING" "\<not> live_memory_full s" "stats_ok True b (http_stats s)"
    "b \<le> http_TotalDownloadBytes env"
  shows "result_spec (\<lambda>t. live_ok (http_TotalDownloadBytes env) t \<and> live_http t = live_http s \<and> live_p2p t = live_p2p s)
    (StopHttp env r s)"
  using assms by (auto simp: StopHttp_def live_ok_def live_agrees_def stats_ok_def stat_Stop_def)

lemma stats_ok_mono: "stats_ok d b hs \<Longrightarrow> b \<le> c \<Longrightarrow> stats_ok d c hs"
  by (auto simp: stats_ok_def)

lemma live_ok_mono: "live_ok b s \<Longrightarrow> b \<le> c \<Longrightarrow> live_ok c s"
  by (auto simp: live_ok_def intro: stats_ok_mono)

text \<open>One activation of the timer.  \<open>Q\<close> is what the check of the state guarantees.\<close>

lemma live_step_http_on:
  assumes "live_ok b s" "b \<le> http_TotalDownloadBytes env"
    and chk: "result_spec (live_kept s) r"
    and off: "live_http s \<noteq> HTTP_DOWNLOADING"
  shows "result_spec (live_ok (http_TotalDownloadBytes env))
    (and_then r (\<lambda>t. if live_http t = HTTP_DOWNLOADING then StartHttp env (reason_of_using_http t) t else Inr t))"
proof -
  obtain t where t: "r = Inr t" "live_kept s t" using chk by (auto simp: result_spec_iff)
  have st: "stats_ok False b (http_stats t)" "\<not> live_memory_full t" "live_agrees t"
    using assms t(2) by (auto simp: live_ok_def live_kept_def)
  show ?thesis
  proof (cases "live_http t = HTTP_DOWNLOADING")
    case True
    with t st StartHttp_ok [OF st(3) True st(2,1), of env "reason_of_using_http t"] show ?thesis
      by (auto elim: result_spec_mono)
  next
    case False
    with t st assms(2) stats_ok_mono show ?thesis by (auto simp: live_ok_def)
  qed
qed

lemma live_step_http_off:
  assumes "live_ok b s" "b \<le> http_TotalDownloadBytes env"
    and chk: "result_spec (live_kept s) r"
    and on: "live_http s = HTTP_DOWNLOADING"
  shows "result_spec (live_ok (http_TotalDownloadBytes env))
    (and_then r (\<lambda>t. if live_http t \<noteq> HTTP_DOWNLOADING then StopHttp env (reason_of_stoping_http t) t else Inr t))"
proof -
  obtain t where t: "r = Inr t" "live_kept s t" using chk by (auto simp: result_spec_iff)
  have st: "stats_ok True b (http_stats t)" "\<not> live_memory_full t" "live_agrees t"
    using assms t(2) by (auto simp: live_ok_def live_kept_def)
  show ?thesis
  proof (cases "live_http t = HTTP_DOWNLOADING")
    case False
    with t st StopHttp_ok [OF st(3) False st(2,1) assms(2), of "reason_of_stoping_http t"] show ?thesis
      by (auto elim: result_spec_mono)
  next
    case True
    with t st assms(2) stats_ok_mono show ?thesis by (auto simp: live_ok_def)
  qed
qed

lemma live_dispatch_ok:
  assumes "live_ok b s" "b \<le> http_TotalDownloadBytes env"
  shows "result_spec (live_ok (http_TotalDownloadBytes env)) (live_dispatch env s)"
proof -
  have ag: "live_agrees s" using assms by (simp add: live_ok_def)
  then consider "live_http s = HTTP_DOWNLOADING" "live_p2p s = P2P_PAUSING"
    | "live_http s = HTTP_PAUSING" "live_p2p s = P2P_DOWNLOADING"
    | "live_http s = HTTP_PAUSING" "live_p2p s = P2P_PAUSING" by (auto simp: live_agrees_def)
  then show ?thesis
  proof cases
    case 1
    with live_step_http_off [OF assms CheckState2300_kept [OF ag]] show ?thesis by (simp add: live_dispatch_def)
  next
    case 2
    with live_step_http_on [OF assms CheckState3200_kept [OF ag]] show ?thesis by (simp add: live_dispatch_def)
  next
    case 3
    with live_step_http_on [OF assms CheckState3300_kept [OF ag]] show ?thesis by (simp add: live_dispatch_def)
  qed
qed

lemma live_CheckMemory_enough:
  "enough_memory env \<Longrightarrow> \<not> live_memory_full s \<Longrightarrow> live_CheckMemory env s = Inr (False, s)"
  by (auto simp: enough_memory_def live_CheckMemory_def split: option.splits)

lemma live_OnControlTimer_enough:
  "enough_memory env \<Longrightarrow> \<not> live_memory_full s \<Longrightarrow> live_OnControlTimer env s = live_dispatch env s"
  by (simp add: live_OnControlTimer_def live_CheckMemory_enough)

lemma live_tick_ok:
  assumes "live_ok b s" "b \<le> http_TotalDownloadBytes env" "enough_memory env"
  shows "result_spec (live_ok (http_TotalDownloadBytes env)) (live_OnTimerElapsed env s)"
proof -
  have "result_spec (live_ok (http_TotalDownloadBytes env)) (live_OnControlTimer env s)"
    using live_dispatch_ok [OF assms(1,2)] assms by (simp add: live_OnControlTimer_enough live_ok_def)
  then show ?thesis
    by (auto simp: live_OnTimerElapsed_def result_spec_iff live_ok_def live_agrees_def)
qed

section \<open>Runs\<close>

text \<open>
  The states of a channel with both downloaders: \<^verbatim>\<open>Start\<close>, then activations of the timer while
  the memory suffices.  The first argument is the number of bytes the HTTP downloader had
  reported at the last activation; it does not decrease.
\<close>

inductive live_reachable :: "u32 \<Rightarrow> live_state \<Rightarrow> bool" where
  start: "both_targets s0 \<Longrightarrow> http_stats s0 = [] \<Longrightarrow> enough_memory env \<Longrightarrow>
    live_Start env near saving (live_construct s0) = Inr s \<Longrightarrow> live_reachable (http_TotalDownloadBytes env) s"
| tick: "live_reachable b s \<Longrightarrow> b \<le> http_TotalDownloadBytes env \<Longrightarrow> enough_memory env \<Longrightarrow>
    live_OnTimerElapsed env s = Inr t \<Longrightarrow> live_reachable (http_TotalDownloadBytes env) t"

fun live_ticks :: "live_env list \<Rightarrow> live_state action" where
  "live_ticks [] s = Inr s"
| "live_ticks (env # envs) s = and_then (live_OnTimerElapsed env s) (live_ticks envs)"

lemma live_Start_ok:
  assumes "both_targets s" "http_stats s = []" "enough_memory env"
  shows "result_spec (live_ok (http_TotalDownloadBytes env)) (live_Start env near saving s)"
proof -
  have pos: "GetHTTPControlTarget s \<noteq> None" "GetP2PControlTarget s \<noteq> None"
    using assms by (auto simp: both_targets_def)
  let ?s1 = "s\<lparr>is_too_near := near, is_saving_mode := saving\<rparr>"
  let ?s2 = "upd_stream (stream_p2p_update (\<lambda>_. Some True)) (upd_stream (stream_http_update (\<lambda>_. Some True)) ?s1)"
  let ?s3 = "?s2\<lparr>live_http := HTTP_PAUSING, live_p2p := P2P_PAUSING, live_memory_full := False\<rparr>"
  have t1: "GetHTTPControlTarget ?s1 \<noteq> None" "GetP2PControlTarget ?s1 \<noteq> None"
    using pos by simp_all
  have eq: "live_Start env near saving s = live_OnControlTimer env ?s3"
    using t1 by (simp add: live_Start_def Let_def cond_def live_http_call_spec live_p2p_call_spec
        del: not_None_eq)
  have "live_ok 0 ?s3"
    using t1 assms(2) by (simp add: live_ok_def live_agrees_def stats_ok_def live_http_call_spec live_p2p_call_spec
        del: not_None_eq)
  from live_dispatch_ok [OF this, of env] show ?thesis
    unfolding eq using assms(3) by (simp add: live_OnControlTimer_enough)
qed

lemma live_reachable_ok: "live_reachable b s \<Longrightarrow> live_ok b s"
proof (induction rule: live_reachable.induct)
  case (start s0 env near saving s)
  have "both_targets (live_construct s0)" "http_stats (live_construct s0) = []"
    using start by (simp_all add: both_targets_def live_construct_def)
  from live_Start_ok [OF this start.hyps(3), of near saving] start.hyps(4) show ?case by simp
next
  case (tick b s env t)
  with live_tick_ok [of b s env] show ?case by simp
qed

text \<open>The tick as the check of the current state.\<close>

lemma live_tick_2300:
  assumes "live_reachable b s" "enough_memory env" "live_http s = HTTP_DOWNLOADING"
    and "CheckState2300 env s = Inr t" "live_http t \<noteq> HTTP_DOWNLOADING" "b \<le> http_TotalDownloadBytes env"
  shows "\<exists>u. live_OnTimerElapsed env s = Inr u \<and> live_ok (http_TotalDownloadBytes env) u \<and>
    live_http u = live_http t \<and> live_p2p u = live_p2p t"
proof -
  have ok: "live_ok b s" by (rule live_reachable_ok [OF assms(1)])
  then have s: "live_agrees s" "\<not> live_memory_full s" "live_p2p s = P2P_PAUSING"
    using assms(3) by (auto simp: live_ok_def live_agrees_def)
  obtain u where u: "live_OnTimerElapsed env s = Inr u" "live_ok (http_TotalDownloadBytes env) u"
    using live_tick_ok [OF ok assms(6,2)] by (auto simp: result_spec_iff)
  moreover have "live_http u = live_http t \<and> live_p2p u = live_p2p t"
    using u(1) s assms(3-5)
    by (auto simp: live_OnTimerElapsed_def live_OnControlTimer_enough [OF assms(2)] live_dispatch_def StopHttp_def split: if_splits)
  ultimately show ?thesis by blast
qed

lemma live_tick_3200:
  assumes "live_reachable b s" "enough_memory env" "live_p2p s = P2P_DOWNLOADING"
    and "CheckState3200 env s = Inr t" "b \<le> http_TotalDownloadBytes env"
  shows "\<exists>u. live_OnTimerElapsed env s = Inr u \<and> live_ok (http_TotalDownloadBytes env) u \<and>
    live_http u = live_http t \<and> live_p2p u = live_p2p t \<and> is_started u = is_started t \<and> is_saving_mode u = is_saving_mode t"
proof -
  have ok: "live_ok b s" by (rule live_reachable_ok [OF assms(1)])
  then have s: "live_agrees s" "\<not> live_memory_full s" "live_http s = HTTP_PAUSING"
    using assms(3) by (auto simp: live_ok_def live_agrees_def)
  obtain u where u: "live_OnTimerElapsed env s = Inr u" "live_ok (http_TotalDownloadBytes env) u"
    using live_tick_ok [OF ok assms(5,2)] by (auto simp: result_spec_iff)
  moreover have "live_http u = live_http t \<and> live_p2p u = live_p2p t \<and> is_started u = is_started t
    \<and> is_saving_mode u = is_saving_mode t"
    using u(1) s assms(3,4)
    by (auto simp: live_OnTimerElapsed_def live_OnControlTimer_enough [OF assms(2)] live_dispatch_def StartHttp_def split: if_splits)
  ultimately show ?thesis by blast
qed

section \<open>An example run\<close>

text \<open>
  A channel with two data rates that starts with P2P; P2P stalls and HTTP takes over.  The clock
  is \<open>n\<close>, the buffer holds \<open>rest\<close> seconds, P2P has \<open>peers\<close> peers and the HTTP downloader has
  reported \<open>bytes\<close> bytes.
\<close>

definition ex_config :: live_config where
  "ex_config = \<lparr>ShouldUseCDNWhenLargeUpload = (\<lambda>_. False), GetUseCdnToAccelerateBasedOnHistory = (\<lambda>_. False),
     GetUseHttpWhenConnectedNonePeers = (\<lambda>_. True), GetUseHttpWhenUrgent = (\<lambda>_. True),
     GetP2PSpeedThreshold = (\<lambda>_. 20), GetTimeOfAdvancingSwitchingHttp = (\<lambda>_. 5), GetTimeToIgnoreHttpBad = (\<lambda>_. 180000),
     GetRestPlayTimeDelim = (\<lambda>_. 20), GetRestPlayTimeDelimWhenNonePeers = (\<lambda>_. 10),
     GetEnoughRestPlayTimeDelimWhenNonePeers = (\<lambda>_. 20), GetP2PRestPlayableTimeDelim = (\<lambda>_. 15),
     GetP2PProtectTimeWhenStart = (\<lambda>_. 15000), GetUrgentRestPlayableTimeDelim = (\<lambda>_. 10),
     GetP2PProtectTimeIfStartAndSpeedIs0 = (\<lambda>_. 10000), GetSafeEnoughRestPlayableTime = (\<lambda>_. 45),
     GetP2PRestPlayableTimeDelimWhenSwitchedWithLargeTime = (\<lambda>_. 10),
     GetP2PProtectTimeWhenSwitchedWithNotEnoughTime = (\<lambda>_. 15000),
     GetP2PProtectTimeWhenSwitchedWithBuffering = (\<lambda>_. 30000), GetP2PProtectTimeIfSpeedIs0 = (\<lambda>_. 10000)\<rparr>"

definition ex_http_config :: live_http_config where
  "ex_http_config = \<lparr>GetSafeRestPlayableTimeDelim = (\<lambda>_. 10), GetHttpProtectTimeWhenLargeUpload = (\<lambda>_. 10000),
     GetUsingCDNOrUdpServerTimeDelim = (\<lambda>_. 30), GetHttpRunningLongEnoughTimeWhenStart = (\<lambda>_. 300000),
     GetHttpProtectTime2WhenStart = (\<lambda>_. 6000), GetHttpDownloadBytesDelimWhenStart = (\<lambda>_. 0),
     GetHttpProtectTimeWhenStart = (\<lambda>_. 10000), GetHttpProtectTimeWhenUrgentSwitched = (\<lambda>_. 20000),
     GetHttpRunningLongEnoughTimeWhenUrgentSwitched = (\<lambda>_. 60000), GetHttpRunningLongestTimeWhenUrgentSwitched = (\<lambda>_. 180000),
     GetMinIntervalOfCdnAccelerationDelim = (\<lambda>_. 60), GetUploadConnectionCountDelim = (\<lambda>_. 10),
     GetNotStrictRatioDelimOfUploadToDatarate = (\<lambda>_. 100), GetMaxRestPlayableTime = 120, GetMinRestPlayableTime = 60,
     GetShouldJudgeSwitchingDatarateManually = False, GetRestPlayableTimeDelimWhenSwitching = 3, GetShouldUseBWType = True,
     GetDesirableLiveIpPoolSize = 500, GetFallBehindSecondsThreshold = 240\<rparr>"

definition ex_env :: "u32 \<Rightarrow> u32 \<Rightarrow> u32 \<Rightarrow> u32 \<Rightarrow> live_env" where
  "ex_env n rest peers bytes = \<lparr>live_now = n, live_elapsed = (\<lambda>m. n - m), download_time = n, cfg = ex_config, hcfg = ex_http_config,
     RestPlayableTime = rest, p2p_NowDownloadSpeed = 0, ConnectedPeersCount = peers, PooledPeersCount = 30,
     MinFirstBlockID = 100, playing_block_id = 100, http_TotalDownloadBytes = bytes, UploadDataBytes = 0,
     MinuteUploadDataSpeed = 0, UploadCount = 0, UploadSpeed = 0, DataRate = 50000, BWType = JBW_NORMAL, Replay = False,
     SourceType = 12, ratio_delim_of_upload_speed_to_datarate = 200, small_ratio_delim_of_upload_speed_to_datarate = 100,
     live_left_capacity = None, stream_download_time = n\<rparr>"

definition ex_stream :: "bool \<Rightarrow> bool \<Rightarrow> live_stream" where
  "ex_stream running with_p2p = \<lparr>stream_http = (if running then Some True else None),
     stream_p2p = (if running \<and> with_p2p then Some True else None), times_of_use_cdn = 0, time_elapsed_use_cdn = 0,
     http_download_bytes_when_changed_to_cdn = 0, using_cdn_because_of_large_upload = False,
     upload_bytes_when_changed_to_cdn = 0, download_bytes_use_cdn = 0, total_upload_bytes_use_cdn = 0,
     use_cdn_tick_counter = 0, stream_is_running = running\<rparr>"

definition ex_state :: "bool \<Rightarrow> live_state" where
  "ex_state with_p2p = \<lparr>live_http = HTTP_NONE, live_p2p = P2P_NONE, time_counter_2300 = 0, time_counter_3200 = 0,
     live_memory_full = False, is_started = True, rest_play_time_when_switched = 0, is_http_fast = True,
     changed_because_of_large_upload = False, blocked_this_time = False, is_too_near = False, is_saving_mode = False,
     reason_of_using_http = 0, reason_of_stoping_http = 0, live_streams = [ex_stream True with_p2p, ex_stream False with_p2p],
     current_data_rate_pos = 0, last_data_rate_pos = 0, data_rate_timer = 0, http_stats = [],
     changed_to_p2p_condition = 255, http_download_bytes_when_start = 0, changed_to_http_times_when_urgent = 0,
     block_times_when_urgent = 0, is_history_upload_good = False, last_advance_using_cdn = 0,
     switch_state = (HTTP_NONE, P2P_NONE), ratio_history = [], cdn_totals = (0, 0, 0, 0)\<rparr>"

definition ex_started :: live_state where
  "ex_started = projr (live_Start (ex_env 0 30 5 0) False False (live_construct (ex_state True)))"

definition ex_stalled :: live_state where
  "ex_stalled = projr (live_OnTimerElapsed (ex_env 20000 9 5 1000) ex_started)"

definition ex_http_only :: live_state where
  "ex_http_only = projr (live_Start (ex_env 0 30 5 0) False False (live_construct (ex_state False)))"

lemma ex_start: "live_Start (ex_env 0 30 5 0) False False (live_construct (ex_state True)) = Inr ex_started"
  "live_p2p ex_started = P2P_DOWNLOADING \<and> is_started ex_started \<and> \<not> is_saving_mode ex_started \<and> time_counter_3200 ex_started = 0"
  by code_simp+

lemma ex_stall: "live_OnTimerElapsed (ex_env 20000 9 5 1000) ex_started = Inr ex_stalled"
  "live_http ex_stalled = HTTP_DOWNLOADING \<and> \<not> is_started ex_stalled \<and> \<not> is_saving_mode ex_stalled \<and> time_counter_2300 ex_stalled = 20000"
  "\<not> changed_because_of_large_upload ex_stalled \<and> length (http_stats ex_stalled) = 1 \<and> current_data_rate_pos ex_stalled = 0"
  by code_simp+

lemma ex_reachable: "live_reachable 0 ex_started" "live_reachable 1000 ex_stalled"
proof -
  have "http_TotalDownloadBytes (ex_env 0 30 5 0) = 0" "http_TotalDownloadBytes (ex_env 20000 9 5 1000) = 1000"
    by (simp_all add: ex_env_def)
  moreover have "both_targets (ex_state True)" "http_stats (ex_state True) = []" by code_simp+
  moreover have "enough_memory (ex_env 0 30 5 0)" "enough_memory (ex_env 20000 9 5 1000)" by code_simp+
  ultimately show "live_reachable 0 ex_started" "live_reachable 1000 ex_stalled"
    using live_reachable.start [OF _ _ _ ex_start(1)] live_reachable.tick [of 0 ex_started, OF _ _ _ ex_stall(1)] by auto
qed

section \<open>Properties\<close>

text \<open>C7: In every state a live channel with both downloaders reaches by \<^verbatim>\<open>Start\<close> and activations of
  the timer (the HTTP byte count not decreasing, enough memory), the next activation returns: no
  assertion fails, those of \<^verbatim>\<open>StopHttp\<close> on the record of the current period of HTTP use included.
  Afterwards HTTP runs exactly in state 2300 and P2P exactly in state 3200, never both, and a
  record of HTTP use is open exactly while HTTP downloads, the last one.\<close>

theorem live_tick_safe:
  assumes "live_reachable b s" "b \<le> http_TotalDownloadBytes env" "enough_memory env"
  shows "\<exists>t. live_OnTimerElapsed env s = Inr t \<and>
    (GetHTTPControlTarget t = Some False) = (live_http t = HTTP_DOWNLOADING) \<and>
    (GetP2PControlTarget t = Some False) = (live_p2p t = P2P_DOWNLOADING) \<and>
    \<not> (GetHTTPControlTarget t = Some False \<and> GetP2PControlTarget t = Some False) \<and>
    \<not> (\<exists>h\<in>set (butlast (http_stats t)). stat_running h) \<and>
    (http_stats t \<noteq> [] \<and> stat_running (last (http_stats t))) = (live_http t = HTTP_DOWNLOADING)"
proof -
  obtain t where t: "live_OnTimerElapsed env s = Inr t" "live_ok (http_TotalDownloadBytes env) t"
    using live_tick_ok [OF live_reachable_ok [OF assms(1)] assms(2,3)] by (auto simp: result_spec_iff)
  then have "live_agrees t" "stats_ok (live_http t = HTTP_DOWNLOADING) (http_TotalDownloadBytes env) (http_stats t)"
    by (auto simp: live_ok_def)
  moreover from this(2) have "\<not> (\<exists>h\<in>set (butlast (http_stats t)). stat_running h)"
    "(http_stats t \<noteq> [] \<and> stat_running (last (http_stats t))) = (live_http t = HTTP_DOWNLOADING)"
    by (auto simp: stats_ok_def list_all_iff split: if_splits)
  ultimately show ?thesis using t(1) by (auto simp: live_agrees_def)
qed

theorem live_tick_safe_witness:
  "live_reachable 1000 ex_stalled \<and> (\<exists>t. live_OnTimerElapsed (ex_env 21000 9 5 2000) ex_stalled = Inr t \<and>
     \<not> (GetHTTPControlTarget t = Some False \<and> GetP2PControlTarget t = Some False) \<and>
     (GetHTTPControlTarget t = Some False) = (live_http t = HTTP_DOWNLOADING))"
proof -
  have "1000 \<le> http_TotalDownloadBytes (ex_env 21000 9 5 2000)" "enough_memory (ex_env 21000 9 5 2000)" by code_simp+
  from live_tick_safe [OF ex_reachable(2) this] ex_reachable(2) show ?thesis by blast
qed

lemma leave_http_longest:
  assumes "\<not> is_started s" "GetUseHttpWhenUrgent (cfg env) (is_saving_mode s)"
    "\<not> (ShouldUseCDNWhenLargeUpload (cfg env) (is_saving_mode s) \<and> changed_because_of_large_upload s)"
    "live_elapsed env (time_counter_2300 s) \<ge> GetHttpRunningLongestTimeWhenUrgentSwitched (hcfg env) (is_saving_mode s)"
  shows "\<exists>t. NeedChangeTo3200 env s = Inr (True, t)"
proof -
  have "is_saving_mode (note_block env s) = is_saving_mode s" "time_counter_2300 (note_block env s) = time_counter_2300 s"
    by (simp_all add: note_block_def SubmitBlockTimesWhenUseHttpUnderUrgentCondition_def)
  with assms show ?thesis
    by (simp add: NeedChangeTo3200_def leave_http_after_urgency_def Let_def stop_for_def)
qed

lemma CheckState2300_leaves:
  assumes "live_agrees s" "NeedChangeTo3200 env s = Inr (True, t)" "\<not> NeedChangeTo3300 env"
    "ConnectedPeersCount env \<noteq> 0" "\<not> DoesFallBehindTooMuch env s"
  shows "\<exists>u. CheckState2300 env s = Inr u \<and> live_http u = HTTP_PAUSING \<and> live_p2p u = P2P_DOWNLOADING"
proof -
  note both = live_agrees_both [OF assms(1)]
  have "same_machine s t" using NeedChangeTo3200_machine [OF both, of env] assms(2) by simp
  then have b: "both_targets (t\<lparr>is_started := False, is_http_fast := f\<rparr>)" for f
    using both by (simp add: both_targets_def same_machine_def)
  have "\<exists>u. live_ChangeTo3200 env (t\<lparr>is_started := False, is_http_fast := f\<rparr>) = Inr u \<and>
     live_http u = HTTP_PAUSING \<and> live_p2p u = P2P_DOWNLOADING" for f
    using live_ChangeTo3200_moved [OF b, of f env] by (auto simp: result_spec_iff moved_def)
  with both assms show ?thesis by (simp add: CheckState2300_def both_targets_def Let_def del: not_None_eq)
qed

text \<open>C8: HTTP that was switched on in an urgent situation, and not for a large upload, is left for P2P
  at the latest when it has run for \<^verbatim>\<open>GetHttpRunningLongestTimeWhenUrgentSwitched\<close>, provided that P2P
  has a peer, the player does not fall behind and the buffer is not above its maximum: the next
  activation of the timer ends in state 3200.\<close>

theorem live_http_use_is_bounded:
  assumes "live_reachable b s" "b \<le> http_TotalDownloadBytes env" "enough_memory env"
    and "live_http s = HTTP_DOWNLOADING" "\<not> is_started s"
    and "GetUseHttpWhenUrgent (cfg env) (is_saving_mode s)"
    and "\<not> (ShouldUseCDNWhenLargeUpload (cfg env) (is_saving_mode s) \<and> changed_because_of_large_upload s)"
    and "live_elapsed env (time_counter_2300 s) \<ge> GetHttpRunningLongestTimeWhenUrgentSwitched (hcfg env) (is_saving_mode s)"
    and "RestPlayableTime env \<le> GetMaxRestPlayableTime (hcfg env)"
    and "ConnectedPeersCount env \<noteq> 0" "\<not> DoesFallBehindTooMuch env s"
  shows "\<exists>t. live_OnTimerElapsed env s = Inr t \<and> live_http t = HTTP_PAUSING \<and> live_p2p t = P2P_DOWNLOADING
    \<and> GetHTTPControlTarget t = Some True \<and> GetP2PControlTarget t = Some False"
proof -
  obtain t where t: "NeedChangeTo3200 env s = Inr (True, t)" using leave_http_longest [OF assms(5-8)] by blast
  have ag: "live_agrees s" using live_reachable_ok [OF assms(1)] by (simp add: live_ok_def)
  have "\<not> NeedChangeTo3300 env" using assms(9) by (simp add: NeedChangeTo3300_def not_less)
  from CheckState2300_leaves [OF ag t this assms(10,11)]
  obtain u where u: "CheckState2300 env s = Inr u" "live_http u = HTTP_PAUSING" "live_p2p u = P2P_DOWNLOADING" by blast
  with live_tick_2300 [OF assms(1,3,4) u(1) _ assms(2)] show ?thesis
    by (auto simp: live_ok_def live_agrees_def)
qed

theorem live_http_use_is_bounded_witness:
  "live_reachable 1000 ex_stalled \<and> (\<exists>t. live_OnTimerElapsed (ex_env 200000 12 5 90000) ex_stalled = Inr t \<and>
     live_http t = HTTP_PAUSING \<and> live_p2p t = P2P_DOWNLOADING)"
proof -
  let ?env = "ex_env 200000 12 5 90000"
  have "1000 \<le> http_TotalDownloadBytes ?env" "enough_memory ?env" by code_simp+
  moreover have "GetUseHttpWhenUrgent (cfg ?env) (is_saving_mode ex_stalled)"
    "\<not> (ShouldUseCDNWhenLargeUpload (cfg ?env) (is_saving_mode ex_stalled) \<and> changed_because_of_large_upload ex_stalled)"
    "live_elapsed ?env (time_counter_2300 ex_stalled) \<ge> GetHttpRunningLongestTimeWhenUrgentSwitched (hcfg ?env) (is_saving_mode ex_stalled)"
    "RestPlayableTime ?env \<le> GetMaxRestPlayableTime (hcfg ?env)"
    "ConnectedPeersCount ?env \<noteq> 0" "\<not> DoesFallBehindTooMuch ?env ex_stalled" by code_simp+
  ultimately show ?thesis
    using live_http_use_is_bounded [of 1000 ex_stalled ?env] ex_stall(2) ex_reachable(2) by blast
qed

lemma CheckState3200_need:
  assumes "live_agrees s" "\<not> NeedChangeTo3300 env" "NeedChangeTo2300 env s = Inr (True, t)"
  shows "\<exists>u. CheckState3200 env s = Inr u \<and> live_http u = HTTP_DOWNLOADING \<and> live_p2p u = P2P_PAUSING"
proof -
  note both = live_agrees_both [OF assms(1)]
  have "same_machine s t" using NeedChangeTo2300_machine [OF both, of env] assms(3) by simp
  then have "both_targets (t\<lparr>is_started := False\<rparr>)" using both by (simp add: both_targets_def same_machine_def)
  from live_ChangeTo2300_moved [OF this, of env] both assms show ?thesis
    by (auto simp: CheckState3200_def both_targets_def result_spec_iff moved_def)
qed

lemma accelerate_keeps:
  "accelerate_by_history env s = (a, t) \<Longrightarrow> is_started t = is_started s \<and> is_saving_mode t = is_saving_mode s \<and>
     time_counter_3200 t = time_counter_3200 s \<and> rest_play_time_when_switched t = rest_play_time_when_switched s"
  by (auto simp: accelerate_by_history_def ShouldUseCdnToAccelerate_def Let_def split: if_splits)

lemma stalled_needs_http:
  assumes "both_targets s" "p2p_NowDownloadSpeed env = 0"
    and "GetUseHttpWhenUrgent (cfg env) (is_saving_mode s)"
    and "RestPlayableTime env < GetUrgentRestPlayableTimeDelim (cfg env) (is_saving_mode s)"
    and "live_elapsed env (time_counter_3200 s) > GetP2PProtectTimeIfStartAndSpeedIs0 (cfg env) (is_saving_mode s)"
    and "live_elapsed env (time_counter_3200 s) > GetP2PProtectTimeIfSpeedIs0 (cfg env) (is_saving_mode s)"
    and "is_started s \<or> rest_play_time_when_switched s \<noteq> 0"
  shows "\<exists>t. NeedChangeTo2300 env s = Inr (True, t)"
proof -
  obtain a s1 where a: "accelerate_by_history env s = (a, s1)" by fastforce
  note k = accelerate_keeps [OF a]
  have u: "if is_started s1 then urgent_at_start env s1 else urgent_later env s1"
    using assms k by (auto simp: urgent_at_start_def urgent_later_def Let_def)
  have "GetUseHttpWhenUrgent (cfg env) (is_saving_mode s1)" using assms(3) k by simp
  with u a assms(1) show ?thesis
    by (simp add: NeedChangeTo2300_def both_targets_def urgently_def for_large_upload_def split: if_splits)
qed

text \<open>P2P that has stalled gives way to HTTP: in state 3200, with the P2P speed 0, less than
  \<^verbatim>\<open>GetUrgentRestPlayableTimeDelim\<close> seconds in the buffer and the protection times of P2P over, the
  next activation of the timer ends in state 2300 with an open record of HTTP use, if the
  configuration allows HTTP in urgent situations and the buffer was not empty at the last switch.\<close>

theorem live_stalled_p2p_gives_way:
  assumes "live_reachable b s" "b \<le> http_TotalDownloadBytes env" "enough_memory env"
    and "live_p2p s = P2P_DOWNLOADING" "p2p_NowDownloadSpeed env = 0"
    and "GetUseHttpWhenUrgent (cfg env) (is_saving_mode s)"
    and "RestPlayableTime env < GetUrgentRestPlayableTimeDelim (cfg env) (is_saving_mode s)"
    and "live_elapsed env (time_counter_3200 s) > GetP2PProtectTimeIfStartAndSpeedIs0 (cfg env) (is_saving_mode s)"
    and "live_elapsed env (time_counter_3200 s) > GetP2PProtectTimeIfSpeedIs0 (cfg env) (is_saving_mode s)"
    and "is_started s \<or> rest_play_time_when_switched s \<noteq> 0"
    and "RestPlayableTime env \<le> GetMaxRestPlayableTime (hcfg env)"
  shows "\<exists>t. live_OnTimerElapsed env s = Inr t \<and> live_http t = HTTP_DOWNLOADING \<and> live_p2p t = P2P_PAUSING
    \<and> http_stats t \<noteq> [] \<and> stat_running (last (http_stats t))"
proof -
  have ag: "live_agrees s" using live_reachable_ok [OF assms(1)] by (simp add: live_ok_def)
  obtain t where t: "NeedChangeTo2300 env s = Inr (True, t)"
    using stalled_needs_http [OF live_agrees_both [OF ag] assms(5-10)] by blast
  have "\<not> NeedChangeTo3300 env" using assms(11) by (simp add: NeedChangeTo3300_def not_less)
  from CheckState3200_need [OF ag this t]
  obtain u where u: "CheckState3200 env s = Inr u" "live_http u = HTTP_DOWNLOADING" "live_p2p u = P2P_PAUSING" by blast
  with live_tick_3200 [OF assms(1,3,4) u(1) assms(2)] show ?thesis
    by (auto simp: live_ok_def stats_ok_def)
qed

theorem live_stalled_p2p_gives_way_witness:
  "live_reachable 0 ex_started \<and> (\<exists>t. live_OnTimerElapsed (ex_env 20000 9 5 1000) ex_started = Inr t \<and>
     live_http t = HTTP_DOWNLOADING \<and> live_p2p t = P2P_PAUSING \<and> http_stats t \<noteq> [] \<and> stat_running (last (http_stats t)))"
proof -
  let ?env = "ex_env 20000 9 5 1000"
  have "0 \<le> http_TotalDownloadBytes ?env" "enough_memory ?env" "p2p_NowDownloadSpeed ?env = 0" by code_simp+
  moreover have "GetUseHttpWhenUrgent (cfg ?env) (is_saving_mode ex_started)"
    "RestPlayableTime ?env < GetUrgentRestPlayableTimeDelim (cfg ?env) (is_saving_mode ex_started)"
    "live_elapsed ?env (time_counter_3200 ex_started) > GetP2PProtectTimeIfStartAndSpeedIs0 (cfg ?env) (is_saving_mode ex_started)"
    "live_elapsed ?env (time_counter_3200 ex_started) > GetP2PProtectTimeIfSpeedIs0 (cfg ?env) (is_saving_mode ex_started)"
    "RestPlayableTime ?env \<le> GetMaxRestPlayableTime (hcfg ?env)" by code_simp+
  ultimately show ?thesis
    using live_stalled_p2p_gives_way [of 0 ex_started ?env] ex_start(2) ex_reachable(1) by blast
qed

lemma live_tick_3300:
  assumes "live_ok b s" "enough_memory env" "live_http s = HTTP_PAUSING" "live_p2p s = P2P_PAUSING"
    and "b \<le> http_TotalDownloadBytes env"
  shows "\<exists>t u. CheckState3300 env s = Inr t \<and> live_OnTimerElapsed env s = Inr u \<and>
    live_ok (http_TotalDownloadBytes env) u \<and> live_http u = live_http t \<and> live_p2p u = live_p2p t"
proof -
  have s: "live_agrees s" "\<not> live_memory_full s" using assms(1) by (auto simp: live_ok_def)
  obtain t where t: "CheckState3300 env s = Inr t"
    using CheckState3300_kept [OF s(1) assms(3,4), of env] by (auto simp: result_spec_iff)
  obtain u where u: "live_OnTimerElapsed env s = Inr u" "live_ok (http_TotalDownloadBytes env) u"
    using live_tick_ok [OF assms(1,5,2)] by (auto simp: result_spec_iff)
  moreover have "live_http u = live_http t \<and> live_p2p u = live_p2p t"
    using u(1) s t assms(3,4)
    by (auto simp: live_OnTimerElapsed_def live_OnControlTimer_enough [OF assms(2)] live_dispatch_def StartHttp_def split: if_splits)
  ultimately show ?thesis using t by blast
qed

lemma live_3200_full_buffer:
  assumes "live_reachable b s" "b \<le> http_TotalDownloadBytes env" "enough_memory env"
    and "live_p2p s = P2P_DOWNLOADING" "RestPlayableTime env > GetMaxRestPlayableTime (hcfg env)"
  shows "\<exists>t. live_OnTimerElapsed env s = Inr t \<and> live_ok (http_TotalDownloadBytes env) t \<and>
    live_http t = HTTP_PAUSING \<and> live_p2p t = P2P_PAUSING \<and> \<not> is_started t \<and> is_saving_mode t = is_saving_mode s"
proof -
  have both: "both_targets s" using live_reachable_ok [OF assms(1)] by (simp add: live_ok_def live_agrees_both)
  obtain t where t: "live_ChangeTo3300 s = Inr t" "live_http t = HTTP_PAUSING" "live_p2p t = P2P_PAUSING"
    "\<not> is_started t" "is_saving_mode t = is_saving_mode s"
    using live_ChangeTo3300_moved [OF both] by (auto simp: result_spec_iff moved_def)
  then have "CheckState3200 env s = Inr t"
    using both assms(5) by (simp add: CheckState3200_def both_targets_def NeedChangeTo3300_def del: not_None_eq)
  with live_tick_3200 [OF assms(1,3,4) _ assms(2)] t show ?thesis by auto
qed

text \<open>A full buffer stops both sources (3300).  With HTTP allowed in urgent situations they stay
  stopped until the buffer falls below its minimum.  With HTTP not allowed there is no such
  hysteresis: the next activation resumes P2P whatever the buffer holds, so that with the buffer
  still full the machine alternates between 3200 and 3300 every second.\<close>

theorem live_full_buffer_policy:
  assumes "live_reachable b s" "b \<le> http_TotalDownloadBytes env" "enough_memory env"
    and "http_TotalDownloadBytes env \<le> http_TotalDownloadBytes env'" "enough_memory env'"
    and "live_p2p s = P2P_DOWNLOADING" "RestPlayableTime env > GetMaxRestPlayableTime (hcfg env)"
  shows "\<exists>t u. live_OnTimerElapsed env s = Inr t \<and> GetHTTPControlTarget t = Some True \<and> GetP2PControlTarget t = Some True
    \<and> live_OnTimerElapsed env' t = Inr u
    \<and> (GetUseHttpWhenUrgent (cfg env') (is_saving_mode s) \<longrightarrow> GetMinRestPlayableTime (hcfg env') \<le> RestPlayableTime env' \<longrightarrow>
         GetHTTPControlTarget u = Some True \<and> GetP2PControlTarget u = Some True)
    \<and> (\<not> GetUseHttpWhenUrgent (cfg env') (is_saving_mode s) \<longrightarrow>
         GetHTTPControlTarget u = Some True \<and> GetP2PControlTarget u = Some False)"
proof -
  obtain t where t: "live_OnTimerElapsed env s = Inr t" "live_ok (http_TotalDownloadBytes env) t"
    "live_http t = HTTP_PAUSING" "live_p2p t = P2P_PAUSING" "\<not> is_started t" "is_saving_mode t = is_saving_mode s"
    using live_3200_full_buffer [OF assms(1-3,6,7)] by blast
  obtain c u where u: "CheckState3300 env' t = Inr c" "live_OnTimerElapsed env' t = Inr u"
    "live_ok (http_TotalDownloadBytes env') u" "live_http u = live_http c" "live_p2p u = live_p2p c"
    using live_tick_3300 [OF t(2) assms(5) t(3,4) assms(4)] by blast
  have ag: "live_agrees t" "live_agrees u" using t(2) u(3) by (auto simp: live_ok_def)
  have "GetUseHttpWhenUrgent (cfg env') (is_saving_mode s) \<Longrightarrow> GetMinRestPlayableTime (hcfg env') \<le> RestPlayableTime env' \<Longrightarrow> c = t"
    using u(1) t by (auto simp: CheckState3300_def split: if_splits)
  moreover have "\<not> GetUseHttpWhenUrgent (cfg env') (is_saving_mode s) \<Longrightarrow> live_http c = HTTP_PAUSING \<and> live_p2p c = P2P_DOWNLOADING"
  proof -
    assume no: "\<not> GetUseHttpWhenUrgent (cfg env') (is_saving_mode s)"
    have f: "GetHTTPControlTarget t = Some True" "GetP2PControlTarget t = Some True"
      using ag(1) t(3,4) by (auto simp: live_agrees_def)
    then have "CheckState3300 env' t = ResumeP2PDownloader t" using no t(6) by (simp add: CheckState3300_def del: not_None_eq)
    then show ?thesis using u(1) resume_moved(2) [OF live_agrees_both [OF ag(1)] t(3) f(1)]
      by (auto simp: result_spec_iff moved_def)
  qed
  ultimately show ?thesis
    using t u ag by (auto simp: live_agrees_def)
qed

theorem live_full_buffer_policy_witness:
  "live_reachable 0 ex_started \<and> (\<exists>t u. live_OnTimerElapsed (ex_env 1000 121 5 0) ex_started = Inr t \<and>
     live_OnTimerElapsed ((ex_env 2000 121 5 0)\<lparr>cfg := ex_config\<lparr>GetUseHttpWhenUrgent := \<lambda>_. False\<rparr>\<rparr>) t = Inr u \<and>
     GetP2PControlTarget t = Some True \<and> GetP2PControlTarget u = Some False)"
proof -
  let ?env = "ex_env 1000 121 5 0" and ?env' = "(ex_env 2000 121 5 0)\<lparr>cfg := ex_config\<lparr>GetUseHttpWhenUrgent := \<lambda>_. False\<rparr>\<rparr>"
  have "0 \<le> http_TotalDownloadBytes ?env" "enough_memory ?env" "http_TotalDownloadBytes ?env \<le> http_TotalDownloadBytes ?env'"
    "enough_memory ?env'" "RestPlayableTime ?env > GetMaxRestPlayableTime (hcfg ?env)"
    "\<not> GetUseHttpWhenUrgent (cfg ?env') (is_saving_mode ex_started)" by code_simp+
  then show ?thesis
    using live_full_buffer_policy [of 0 ex_started ?env ?env'] ex_start(2) ex_reachable(1) by blast
qed

definition live_stuck :: "live_state \<Rightarrow> bool" where
  "live_stuck s = (GetHTTPControlTarget s = Some True \<and> GetP2PControlTarget s = None \<and>
     live_http s = HTTP_PAUSING \<and> live_p2p s = P2P_NONE)"

lemma live_stuck_tick:
  assumes "live_stuck s"
  shows "\<exists>t. live_OnTimerElapsed env s = Inr t \<and> live_stuck t"
proof -
  have "result_spec (\<lambda>(full, t). live_stuck t) (live_CheckMemory env s)"
    using assms by (simp add: live_CheckMemory_def live_stuck_def cond_def PauseHttpDownloader_def
        live_http_call_spec split: option.split)
  then obtain full t where t: "live_CheckMemory env s = Inr (full, t)" "live_stuck t"
    by (auto simp: result_spec_iff)
  moreover from t(2) have "live_dispatch env t = Inr t" by (simp add: live_dispatch_def live_stuck_def)
  ultimately show ?thesis
    by (simp add: live_OnTimerElapsed_def live_OnControlTimer_def live_stuck_def)
qed

lemma live_stuck_ticks: "live_stuck s \<Longrightarrow> \<exists>t. live_ticks envs s = Inr t \<and> live_stuck t"
proof (induction envs arbitrary: s)
  case (Cons env envs)
  with live_stuck_tick [OF Cons.prems, of env] show ?case by auto
qed simp

text \<open>A shortage of memory stops a live channel without P2P for good: the activation pauses HTTP and
  leaves a state that no branch of \<^verbatim>\<open>OnControlTimer\<close> handles, and no number of later activations,
  however much memory there is, resumes it.\<close>

theorem live_memory_shortage_stops_http_channel:
  assumes "GetHTTPControlTarget s \<noteq> None" "GetP2PControlTarget s = None"
    and "live_http s = HTTP_DOWNLOADING" "live_p2p s = P2P_NONE" "\<not> live_memory_full s"
    and "live_left_capacity env = Some left" "left < 1024"
  shows "\<exists>t. live_OnTimerElapsed env s = Inr t \<and>
    (\<forall>envs. \<exists>u. live_ticks envs t = Inr u \<and> GetHTTPControlTarget u = Some True \<and> live_http u = HTTP_PAUSING)"
proof -
  have "\<exists>t. live_OnTimerElapsed env s = Inr t \<and> live_stuck t"
    using assms by (simp add: live_OnTimerElapsed_def live_OnControlTimer_def live_CheckMemory_def cond_def
        PauseHttpDownloader_def live_http_call_spec live_stuck_def del: not_None_eq)
  with live_stuck_ticks show ?thesis by (metis live_stuck_def)
qed

theorem live_memory_shortage_stops_http_channel_witness:
  "\<exists>t. live_OnTimerElapsed ((ex_env 1000 30 5 0)\<lparr>live_left_capacity := Some 1000\<rparr>) ex_http_only = Inr t \<and>
     (\<exists>u. live_ticks [(ex_env 2000 29 5 0)\<lparr>live_left_capacity := Some 9000\<rparr>] t = Inr u \<and> live_http u = HTTP_PAUSING)"
proof -
  let ?env = "(ex_env 1000 30 5 0)\<lparr>live_left_capacity := Some 1000\<rparr>"
  have "GetHTTPControlTarget ex_http_only \<noteq> None" "GetP2PControlTarget ex_http_only = None"
    "live_http ex_http_only = HTTP_DOWNLOADING" "live_p2p ex_http_only = P2P_NONE" "\<not> live_memory_full ex_http_only"
    "live_left_capacity ?env = Some 1000" "(1000 :: u32) < 1024" by code_simp+
  from live_memory_shortage_stops_http_channel [OF this] show ?thesis by blast
qed

lemma report_open_period:
  "\<exists>g\<in>set hs. stat_running g \<Longrightarrow> i + length hs < sz \<Longrightarrow>
     report_stats env target sz i (hs @ [h]) = Inl AssertionFailed"
proof (induction hs arbitrary: i)
  case (Cons g hs)
  then show ?case by (cases "stat_running g") auto
qed simp

lemma live_shortage_2300:
  assumes "live_reachable b s" "live_http s = HTTP_DOWNLOADING" "live_left_capacity env = Some left" "left < 1024"
  shows "\<exists>t. live_OnTimerElapsed env s = Inr t \<and> live_agrees t \<and> live_http t = HTTP_PAUSING \<and> live_p2p t = P2P_PAUSING
    \<and> \<not> live_memory_full t \<and> http_stats t = http_stats s \<and> is_started t = is_started s \<and> is_saving_mode t = is_saving_mode s"
proof -
  have s: "live_agrees s" "\<not> live_memory_full s" using live_reachable_ok [OF assms(1)] by (auto simp: live_ok_def)
  then have "GetHTTPControlTarget s \<noteq> None" "GetP2PControlTarget s \<noteq> None" by (auto simp: live_agrees_def)
  with s assms(2-4) show ?thesis
    by (simp add: live_OnTimerElapsed_def live_OnControlTimer_def live_CheckMemory_def cond_def downloader_defs
        live_http_call_spec live_p2p_call_spec live_agrees_def del: not_None_eq)
qed

lemma live_resume_without_peers:
  assumes "live_agrees t" "live_http t = HTTP_PAUSING" "live_p2p t = P2P_PAUSING" "\<not> live_memory_full t" "\<not> is_started t"
    and "enough_memory env" "GetUseHttpWhenUrgent (cfg env) (is_saving_mode t)"
    and "RestPlayableTime env < GetMinRestPlayableTime (hcfg env)" "ConnectedPeersCount env = 0"
  shows "\<exists>u h. live_OnTimerElapsed env t = Inr u \<and> http_stats u = http_stats t @ [h] \<and> live_http u = HTTP_DOWNLOADING
    \<and> GetHTTPControlTarget u = Some False"
proof -
  have f: "GetHTTPControlTarget t \<noteq> None" "GetP2PControlTarget t \<noteq> None" using assms(1) by (auto simp: live_agrees_def)
  let ?r = "using_because NONE_PEERS t"
  let ?c = "upd_stream (stream_http_update (\<lambda>_. Some False)) (?r\<lparr>live_http := HTTP_DOWNLOADING\<rparr>)"
  have "CheckState3300 env t = ResumeHttpDownloader ?r"
    using assms f by (simp add: CheckState3300_def resume_stream_def Let_def del: not_None_eq)
  also have "\<dots> = Inr ?c" using f by (simp add: ResumeHttpDownloader_def live_http_call_spec del: not_None_eq)
  finally have "CheckState3300 env t = Inr ?c" .
  moreover have "GetHTTPControlTarget ?c = Some False" using f by (simp add: live_http_call_spec del: not_None_eq)
  moreover have "http_stats ?c = http_stats t" by (simp add: using_because_def)
  ultimately show ?thesis
    using assms by (simp add: live_OnTimerElapsed_def live_OnControlTimer_enough live_dispatch_def StartHttp_def)
qed

text \<open>A shortage of memory during state 2300 pauses HTTP without closing the record of its use.  When
  the memory suffices again and HTTP is resumed, a second record is opened beside the first, and
  the report that the driver makes when it stops fails its assertion that only the last record
  can be open.\<close>

theorem live_memory_shortage_breaks_report:
  assumes "live_reachable b s" "live_http s = HTTP_DOWNLOADING" "\<not> is_started s" "length (http_stats s) < 5"
    and "live_left_capacity env = Some left" "left < 1024"
    and "enough_memory env'" "GetUseHttpWhenUrgent (cfg env') (is_saving_mode s)"
    and "RestPlayableTime env' < GetMinRestPlayableTime (hcfg env')" "ConnectedPeersCount env' = 0"
  shows "\<exists>t u. live_OnTimerElapsed env s = Inr t \<and> live_OnTimerElapsed env' t = Inr u
    \<and> UpdateHttpDownloadStatistic env'' u = Inl AssertionFailed"
proof -
  have st: "http_stats s \<noteq> []" "stat_running (last (http_stats s))"
    using live_reachable_ok [OF assms(1)] assms(2) by (auto simp: live_ok_def stats_ok_def)
  obtain t where t: "live_OnTimerElapsed env s = Inr t" "live_agrees t" "live_http t = HTTP_PAUSING" "live_p2p t = P2P_PAUSING"
    "\<not> live_memory_full t" "http_stats t = http_stats s" "\<not> is_started t" "is_saving_mode t = is_saving_mode s"
    using live_shortage_2300 [OF assms(1,2,5,6)] assms(3) by auto
  obtain u h where u: "live_OnTimerElapsed env' t = Inr u" "http_stats u = http_stats t @ [h]"
    using live_resume_without_peers [OF t(2-5,7) assms(7)] assms(8-10) t(8) by auto
  have split: "take MaxHttpStatisticCount (http_stats u) = http_stats s @ [h]"
    using u(2) t(6) assms(4) by (simp add: MaxHttpStatisticCount_def)
  have "\<exists>g\<in>set (http_stats s). stat_running g" using st last_in_set by blast
  from report_open_period [OF this, of 0]
  have "report_stats env'' (GetHTTPControlTarget u \<noteq> None) (length (http_stats u)) 0 (http_stats s @ [h]) = Inl AssertionFailed"
    using u(2) t(6) by simp
  then have "UpdateHttpDownloadStatistic env'' u = Inl AssertionFailed"
    unfolding UpdateHttpDownloadStatistic_def split by simp
  with t(1) u(1) show ?thesis by blast
qed

theorem live_memory_shortage_breaks_report_witness:
  "live_reachable 1000 ex_stalled \<and>
   (\<exists>t u. live_OnTimerElapsed ((ex_env 21000 8 0 2000)\<lparr>live_left_capacity := Some 1000\<rparr>) ex_stalled = Inr t \<and>
     live_OnTimerElapsed (ex_env 22000 8 0 2000) t = Inr u \<and>
     UpdateHttpDownloadStatistic (ex_env 23000 9 0 3000) u = Inl AssertionFailed)"
proof -
  let ?env = "(ex_env 21000 8 0 2000)\<lparr>live_left_capacity := Some 1000\<rparr>" and ?env' = "ex_env 22000 8 0 2000"
  have "length (http_stats ex_stalled) < 5" "live_left_capacity ?env = Some 1000" "(1000 :: u32) < 1024"
    "enough_memory ?env'" "GetUseHttpWhenUrgent (cfg ?env') (is_saving_mode ex_stalled)"
    "RestPlayableTime ?env' < GetMinRestPlayableTime (hcfg ?env')" "ConnectedPeersCount ?env' = 0" by code_simp+
  then show ?thesis
    using live_memory_shortage_breaks_report [of 1000 ex_stalled ?env 1000 ?env'] ex_stall(2) ex_reachable(2) by blast
qed

lemma CalcCdnAccelerationStatusWhenStop_keeps:
  assumes "i < length (live_streams s)" "stream_http (live_streams s ! i) \<noteq> None"
  shows "result_spec (\<lambda>t. length (live_streams t) = length (live_streams s) \<and>
      live_streams t ! Suc i = live_streams s ! Suc i \<and> current_data_rate_pos t = current_data_rate_pos s \<and>
      live_http t = live_http s \<and> live_p2p t = live_p2p s \<and> http_stats t = http_stats s)
    (CalcCdnAccelerationStatusWhenStop env i s)"
proof -
  obtain a b c d where "cdn_totals s = (a, b, c, d)" by (rule prod_cases4)
  with assms show ?thesis by (simp add: CalcCdnAccelerationStatusWhenStop_def Let_def del: not_None_eq)
qed

text \<open>A change of the data rate in state 2300 starts P2P beside HTTP: \<^verbatim>\<open>OnDataRateChanged\<close> takes a P2P
  downloader that exists for one that was running.  The machine stays in state 2300, with both
  downloaders of the new stream running; and the record of HTTP use, begun with the bytes of the
  old downloader, cannot be closed before the new one has downloaded as many.\<close>

theorem live_data_rate_change_runs_both:
  assumes "live_reachable b s" "live_http s = HTTP_DOWNLOADING"
    and "i = current_data_rate_pos s" "Suc i < length (live_streams s)"
    and "stream_is_running (live_streams s ! i)" "\<not> stream_is_running (live_streams s ! Suc i)"
    and "live_elapsed env (data_rate_timer s) > 30 * 1000" "RestPlayableTime env > 16 + 4 * word_of_nat i"
    and "BWType env \<noteq> JBW_HTTP_ONLY"
    and "http_TotalDownloadBytes env' < http_downloaded_bytes_when_start (last (http_stats s))"
  shows "\<exists>t. SwitchDataRateIfNeeded env True s = Inr t \<and> live_http t = HTTP_DOWNLOADING \<and> live_p2p t = P2P_PAUSING
    \<and> GetHTTPControlTarget t = Some False \<and> GetP2PControlTarget t = Some False
    \<and> StopHttp env' r t = Inl AssertionFailed"
proof -
  have s: "live_agrees s" "http_stats s \<noteq> []" using live_reachable_ok [OF assms(1)] assms(2)
    by (auto simp: live_ok_def stats_ok_def)
  then have f: "GetHTTPControlTarget s = Some False" "GetP2PControlTarget s = Some True" "live_p2p s = P2P_PAUSING"
    using assms(2) by (auto simp: live_agrees_def)
  have i: "i < length (live_streams s)" "i \<noteq> Suc i" using assms(4) by simp_all
  then have st: "stream_http (live_streams s ! i) = Some False" "stream_p2p (live_streams s ! i) = Some True"
    using f assms(3) by (simp_all add: GetHTTPControlTarget_def GetP2PControlTarget_def)
  let ?s1 = "s\<lparr>last_data_rate_pos := i, current_data_rate_pos := Suc i, data_rate_timer := live_now env\<rparr>"
  have sw: "SwitchDataRateIfNeeded env True s = OnDataRateChanged env ?s1"
    using assms(3,4,7,8) by (simp add: SwitchDataRateIfNeeded_def SwitchToHigherDataRateIfNeeded_def Let_def)
  obtain ss where c: "CalcCdnAccelerationStatusWhenStop env i ?s1 = Inr ss" "length (live_streams ss) = length (live_streams s)"
    "live_streams ss ! Suc i = live_streams s ! Suc i" "current_data_rate_pos ss = Suc i"
    "live_http ss = live_http s" "live_p2p ss = live_p2p s" "http_stats ss = http_stats s"
    using CalcCdnAccelerationStatusWhenStop_keeps [of i ?s1 env] i st by (force simp: result_spec_iff)
  let ?s2 = "ss\<lparr>live_streams := map stream_Stop (live_streams ss)\<rparr>"
  let ?s3 = "upd_stream (stream_Start env) ?s2"
  have pos: "current_data_rate_pos ?s2 < length (live_streams ?s2)" using c assms(4) by simp
  have "live_streams ?s2 ! Suc i = live_streams s ! Suc i"
    using c assms(4,6) by (simp add: stream_Stop_def)
  then have t3: "GetHTTPControlTarget ?s3 = Some True" "GetP2PControlTarget ?s3 = Some True"
    using targets_upd_stream [OF pos, of "stream_Start env"] c(4) assms(6,9) by (simp_all add: stream_Start_def)
  have cond: "cond True (live_p2p_call False) = live_p2p_call False" "cond True (live_http_call False) = live_http_call False"
    by (simp_all add: cond_def fun_eq_iff)
  have chg: "OnDataRateChanged env ?s1 =
      seq [live_http_call False, live_p2p_call False] ?s3"
    using i st c pos by (simp add: OnDataRateChanged_def Let_def on_stream_eq cond)
  have fin: "\<exists>t. seq [live_http_call False, live_p2p_call False] ?s3 = Inr t \<and> GetHTTPControlTarget t = Some False
      \<and> GetP2PControlTarget t = Some False \<and> live_http t = live_http ?s3 \<and> live_p2p t = live_p2p ?s3 \<and> http_stats t = http_stats ?s3"
    using t3 by (simp add: live_http_call_spec live_p2p_call_spec)
  with chg sw c s(2) assms(2,10) f(3) show ?thesis
    by (auto simp: StopHttp_def stat_Stop_def)
qed

theorem live_data_rate_change_runs_both_witness:
  "live_reachable 1000 ex_stalled \<and> (\<exists>t. SwitchDataRateIfNeeded (ex_env 40000 20 5 3000) True ex_stalled = Inr t \<and>
     GetHTTPControlTarget t = Some False \<and> GetP2PControlTarget t = Some False \<and>
     StopHttp (ex_env 41000 20 5 10) 0 t = Inl AssertionFailed)"
proof -
  let ?env = "ex_env 40000 20 5 3000" and ?env' = "ex_env 41000 20 5 10"
  have "0 = current_data_rate_pos ex_stalled" "Suc 0 < length (live_streams ex_stalled)"
    "stream_is_running (live_streams ex_stalled ! 0)" "\<not> stream_is_running (live_streams ex_stalled ! Suc 0)"
    "live_elapsed ?env (data_rate_timer ex_stalled) > 30 * 1000" "RestPlayableTime ?env > 16 + 4 * word_of_nat 0"
    "BWType ?env \<noteq> JBW_HTTP_ONLY"
    "http_TotalDownloadBytes ?env' < http_downloaded_bytes_when_start (last (http_stats ex_stalled))" by code_simp+
  from live_data_rate_change_runs_both [OF ex_reachable(2) _ this, of 0] ex_stall(2) ex_reachable(2) show ?thesis by blast
qed

lemma foldl_max_greater: "foldl max a xs > (m :: u32) \<longleftrightarrow> a > m \<or> (\<exists>r\<in>set xs. r > m)"
  by (induction xs arbitrary: a) (auto simp: less_max_iff_disj)

text \<open>The share of large uploads in the history never counts with the default configuration: the
  code compares it with 255 times the delimiter instead of the number of records, and the history
  holds at most 50 records.  The history is good only if its largest ratio exceeds
  \<^verbatim>\<open>GetMaxRatioOfUploadToDownloadDelim\<close>, even when every upload was large.\<close>

theorem upload_share_never_counts:
  assumes "length history \<le> 50"
  shows "CalcHistoryUploadStatus min_times large_delim max_delim 60 history \<longleftrightarrow>
    unat min_times \<le> length history \<and> (\<exists>r\<in>set history. r > max_delim)"
proof -
  let ?n = "length (filter (\<lambda>r. r > large_delim) history)"
  have "?n \<le> 50" using assms length_filter_le [of "\<lambda>r. r > large_delim" history] by linarith
  then have "unat (word_of_nat ?n * 100 :: u32) = ?n * 100"
    by (simp add: unat_word_ariths unat_of_nat)
  then have "\<not> (word_of_nat ?n * 100 :: u32) \<ge> 255 * 60"
    using \<open>?n \<le> 50\<close> by (simp add: word_le_nat_alt)
  then show ?thesis
    by (auto simp: CalcHistoryUploadStatus_def Let_def foldl_max_greater)
qed

theorem upload_share_never_counts_witness:
  "\<not> CalcHistoryUploadStatus 3 100 300 60 [200, 200, 200, 200, 200]"
  using upload_share_never_counts [of "[200, 200, 200, 200, 200]" 3 100 300] by simp

end
