(* ===== verification/Measure.thy ===== *)
theory Measure
  imports Prelude
begin

text \<open>
  The measuring instruments of the peer, \<^verbatim>\<open>measure/ByteSpeedMeter.h/.cpp\<close> and
  \<^verbatim>\<open>measure/CycleBuffer.h/.cpp\<close>: the speeds the switch controllers read come from the former.

  \<^item> \<open>speed_meter\<close> has the members of \<^verbatim>\<open>ByteSpeedMeter\<close>, one definition per member function.
    The tick count, which the code reads from \<^verbatim>\<open>TickCounter\<close>, is an argument (milliseconds,
    64 bits).  Its abstract specification is the log of all submissions; the ring of sixty
    counters refines it.
  \<^item> \<open>cycle_buffer\<close> has the members of \<^verbatim>\<open>CycleBuffer\<close>; the width of \<^verbatim>\<open>size_t\<close>, which decides what
    \<^verbatim>\<open>Average\<close> makes of a negative sum, is an argument.
\<close>

section \<open>ByteSpeedMeter\<close>

record speed_meter =
  start_time :: u64
  total_bytes :: u32
  history_bytes :: "u32 list"
  current_sec :: u32
  meter_running :: bool

definition HISTORY_INTERVAL_IN_SEC :: u32 where
  "HISTORY_INTERVAL_IN_SEC = 60"

definition meter_Clear :: "speed_meter \<Rightarrow> speed_meter" where
  "meter_Clear m = m\<lparr>start_time := 0, total_bytes := 0, current_sec := 0, history_bytes := replicate 60 0\<rparr>"

definition meter_new :: speed_meter where
  "meter_new = meter_Clear \<lparr>start_time = 0, total_bytes = 0, history_bytes = [], current_sec = 0, meter_running = False\<rparr>"

definition GetPositionFromSeconds :: "u32 \<Rightarrow> u32" where
  "GetPositionFromSeconds seconds = seconds mod HISTORY_INTERVAL_IN_SEC"

text \<open>The loop of \<^verbatim>\<open>UpdateTickCount\<close>: \<^verbatim>\<open>for (i = curr_sec; i > current_sec_; i--)\<close>.\<close>

function zero_from :: "u32 \<Rightarrow> u32 \<Rightarrow> u32 list \<Rightarrow> u32 list" where
  "zero_from i cur h =
     (if i > cur then zero_from (i - 1) cur (h[unat (GetPositionFromSeconds i) := 0]) else h)"
  by auto
termination
  by (relation "measure (\<lambda>(i, _). unat i)") (auto intro: unat_pred_less)

declare zero_from.simps [simp del]

definition UpdateTickCount :: "u32 \<Rightarrow> speed_meter \<Rightarrow> speed_meter" where
  "UpdateTickCount curr_sec m =
     m\<lparr>history_bytes :=
         (if curr_sec - current_sec m \<ge> HISTORY_INTERVAL_IN_SEC then replicate 60 0
          else zero_from curr_sec (current_sec m) (history_bytes m)),
       current_sec := curr_sec\<rparr>"

definition CheckTickCount :: "u64 \<Rightarrow> speed_meter \<Rightarrow> speed_meter" where
  "CheckTickCount tick m =
     (let curr_sec = ucast (tick div 1000)
      in if curr_sec = current_sec m then m else UpdateTickCount curr_sec m)"

definition meter_Start :: "u64 \<Rightarrow> speed_meter \<Rightarrow> speed_meter" where
  "meter_Start tick m =
     (if meter_running m then m
      else (CheckTickCount tick ((meter_Clear m)\<lparr>start_time := tick\<rparr>))\<lparr>meter_running := True\<rparr>)"

definition meter_Stop :: "speed_meter \<Rightarrow> speed_meter" where
  "meter_Stop m = (if \<not> meter_running m then m else (meter_Clear m)\<lparr>meter_running := False\<rparr>)"

definition SubmitBytes :: "u64 \<Rightarrow> u32 \<Rightarrow> speed_meter \<Rightarrow> speed_meter" where
  "SubmitBytes tick bytes m =
     (let m1 = CheckTickCount tick m;
          p = unat (GetPositionFromSeconds (current_sec m1))
      in m1\<lparr>total_bytes := total_bytes m1 + bytes,
            history_bytes := (history_bytes m1)[p := history_bytes m1 ! p + bytes]\<rparr>)"

definition GetElapsedTimeInMilliSeconds :: "u64 \<Rightarrow> speed_meter \<Rightarrow> u32" where
  "GetElapsedTimeInMilliSeconds tick m =
     (let ms = ucast (tick - start_time m) in if ms \<le> 0 then 1 else ms)"

definition AverageByteSpeed :: "u64 \<Rightarrow> speed_meter \<Rightarrow> u32" where
  "AverageByteSpeed tick m =
     (if \<not> meter_running m then 0
      else word_of_int (1000 * uint (total_bytes m) div uint (GetElapsedTimeInMilliSeconds tick m)))"

text \<open>
  The loop of \<^verbatim>\<open>CalcSpeedInDuration\<close>, \<^verbatim>\<open>for (i = last_sec; i > low; i--)\<close>.  The sum is
  a signed 64-bit number in the code; \<open>sum_down_bound\<close> shows that it fits.
\<close>

function sum_down :: "u32 \<Rightarrow> u32 \<Rightarrow> u32 list \<Rightarrow> int" where
  "sum_down i low h =
     (if i > low then uint (h ! unat (GetPositionFromSeconds i)) + sum_down (i - 1) low h else 0)"
  by auto
termination
  by (relation "measure (\<lambda>(i, _). unat i)") (auto intro: unat_pred_less)

declare sum_down.simps [simp del]

definition CalcSpeedInDuration :: "u32 \<Rightarrow> u64 \<Rightarrow> speed_meter \<Rightarrow> u32 \<times> speed_meter" where
  "CalcSpeedInDuration duration tick m =
     (let m1 = CheckTickCount tick m;
          last_sec = current_sec m1 - 1;
          bytes_in_recent = sum_down last_sec (last_sec - duration) (history_bytes m1);
          elapsed_time = GetElapsedTimeInMilliSeconds tick m1
      in (if elapsed_time > duration * 1000 then word_of_int (bytes_in_recent div uint duration)
          else word_of_int (1000 * bytes_in_recent div uint elapsed_time), m1))"

definition SecondByteSpeed :: "u64 \<Rightarrow> speed_meter \<Rightarrow> u32 \<times> speed_meter" where
  "SecondByteSpeed = CalcSpeedInDuration 1"

definition CurrentByteSpeed :: "u64 \<Rightarrow> speed_meter \<Rightarrow> u32 \<times> speed_meter" where
  "CurrentByteSpeed = CalcSpeedInDuration 5"

definition RecentByteSpeed :: "u64 \<Rightarrow> speed_meter \<Rightarrow> u32 \<times> speed_meter" where
  "RecentByteSpeed = CalcSpeedInDuration 20"

definition RecentMinuteByteSpeed :: "u64 \<Rightarrow> speed_meter \<Rightarrow> u32 \<times> speed_meter" where
  "RecentMinuteByteSpeed = CalcSpeedInDuration HISTORY_INTERVAL_IN_SEC"

section \<open>The log of submissions\<close>

text \<open>The abstract meter: the second of the last call and the bytes submitted, second by second.\<close>

record byte_log =
  started_at :: u64
  now_sec :: nat
  entries :: "(nat \<times> nat) list"

datatype meter_event = Submit u64 u32 | Query u64

definition event_sec :: "meter_event \<Rightarrow> nat" where
  "event_sec e = (case e of Submit t b \<Rightarrow> unat t div 1000 | Query t \<Rightarrow> unat t div 1000)"

definition meter_step :: "meter_event \<Rightarrow> speed_meter action" where
  "meter_step e m = (case e of Submit t b \<Rightarrow> Inr (SubmitBytes t b m) | Query t \<Rightarrow> Inr (CheckTickCount t m))"

definition log_step :: "meter_event \<Rightarrow> byte_log \<Rightarrow> byte_log" where
  "log_step e a =
     (case e of
        Submit t b \<Rightarrow> a\<lparr>now_sec := event_sec e, entries := (event_sec e, unat b) # entries a\<rparr>
      | Query t \<Rightarrow> a\<lparr>now_sec := event_sec e\<rparr>)"

definition log_new :: "u64 \<Rightarrow> byte_log" where
  "log_new t0 = \<lparr>started_at = t0, now_sec = unat t0 div 1000, entries = []\<rparr>"

text \<open>Calls arrive in the order of time, and before the seconds exceed 32 bits.\<close>

definition in_order :: "meter_event \<Rightarrow> byte_log \<Rightarrow> bool" where
  "in_order e a = (now_sec a \<le> event_sec e \<and> event_sec e < 2 ^ 32)"

definition bytes_in :: "(nat \<times> nat) list \<Rightarrow> nat \<Rightarrow> nat" where
  "bytes_in es s = sum_list (map snd (filter (\<lambda>e. fst e = s) es))"

definition meter_rel :: "speed_meter \<Rightarrow> byte_log \<Rightarrow> bool" where
  "meter_rel m a =
     (meter_running m \<and> start_time m = started_at a \<and>
      unat (current_sec m) = now_sec a \<and> length (history_bytes m) = 60 \<and>
      (\<forall>e \<in> set (entries a). fst e \<le> now_sec a) \<and>
      total_bytes m = of_nat (sum_list (map snd (entries a))) \<and>
      (\<forall>s \<le> now_sec a. now_sec a < s + 60 \<longrightarrow> history_bytes m ! (s mod 60) = of_nat (bytes_in (entries a) s)))"

lemma unat_position: "unat (GetPositionFromSeconds i) = unat i mod 60"
  by (simp add: GetPositionFromSeconds_def HISTORY_INTERVAL_IN_SEC_def unat_mod)

lemma same_slot:
  fixes s t n :: nat
  assumes "s \<le> n" "n < s + 60" "t \<le> n" "n < t + 60"
  shows "s mod 60 = t mod 60 \<longleftrightarrow> s = t"
proof
  assume eq: "s mod 60 = t mod 60"
  have "60 dvd (t - s)" "60 dvd (s - t)" using eq by (metis mod_eq_dvd_iff_nat nat_le_linear diff_is_0_eq dvd_0_right)+
  with assms show "s = t" by (auto dest!: dvd_imp_le)
qed simp

lemma length_zero_from [simp]: "length (zero_from i cur h) = length h"
  by (induction i cur h rule: zero_from.induct) (subst zero_from.simps, simp)

lemma zero_from_nth:
  assumes "length h = 60" "unat i \<le> n" "n < unat cur + 60" "s \<le> n" "n < s + 60"
  shows "zero_from i cur h ! (s mod 60) = (if unat cur < s \<and> s \<le> unat i then 0 else h ! (s mod 60))"
  using assms
proof (induction i cur h rule: zero_from.induct)
  case (1 i cur h)
  show ?case
  proof (cases "i > cur")
    case True
    then have i: "unat (i - 1) = unat i - 1" "unat cur < unat i"
      by (auto simp: unat_pred word_less_nat_alt)
    have "zero_from i cur h ! (s mod 60) = zero_from (i - 1) cur (h[unat i mod 60 := 0]) ! (s mod 60)"
      using True by (subst zero_from.simps) (simp add: unat_position)
    also have "\<dots> = (if unat cur < s \<and> s \<le> unat i - 1 then 0 else h[unat i mod 60 := 0] ! (s mod 60))"
      using 1 True i by (simp add: unat_position)
    also have "\<dots> = (if unat cur < s \<and> s \<le> unat i then 0 else h ! (s mod 60))"
    proof (cases "s = unat i")
      case True
      with i "1.prems" show ?thesis by simp
    next
      case False
      with i "1.prems" same_slot [of s n "unat i"] show ?thesis by auto
    qed
    finally show ?thesis .
  next
    case False
    then show ?thesis by (subst zero_from.simps) (auto simp: word_less_nat_alt)
  qed
qed

lemma bytes_in_later: "\<forall>e \<in> set es. fst e \<le> n \<Longrightarrow> n < s \<Longrightarrow> bytes_in es s = 0"
  by (induction es) (auto simp: bytes_in_def)

lemma unat_sec: "unat tick div 1000 < 2 ^ 32 \<Longrightarrow> unat (ucast (tick div 1000 :: u64) :: u32) = unat tick div 1000"
  by (simp add: unat_ucast_small unat_div)

lemma CheckTickCount_rel:
  assumes rel: "meter_rel m a" and le: "now_sec a \<le> unat tick div 1000" "unat tick div 1000 < 2 ^ 32"
  shows "meter_rel (CheckTickCount tick m) (a\<lparr>now_sec := unat tick div 1000\<rparr>)"
proof -
  define new :: u32 where "new = ucast (tick div 1000)"
  have new: "unat new = unat tick div 1000" using unat_sec [OF le(2)] by (simp add: new_def)
  have cur: "unat (current_sec m) = now_sec a" "unat (current_sec m) \<le> unat new"
    using rel le new by (auto simp: meter_rel_def)
  note chk = CheckTickCount_def [of tick m, folded new_def, unfolded Let_def] UpdateTickCount_def
  have later: "\<forall>e \<in> set (entries a). fst e \<le> unat new" using rel cur by (auto simp: meter_rel_def)
  have dist: "HISTORY_INTERVAL_IN_SEC \<le> new - current_sec m \<longleftrightarrow> unat (current_sec m) + 60 \<le> unat new"
    using cur(2) by (auto simp: HISTORY_INTERVAL_IN_SEC_def word_le_nat_alt unat_sub)
  consider "new = current_sec m" | "new \<noteq> current_sec m" "unat (current_sec m) + 60 \<le> unat new"
    | "new \<noteq> current_sec m" "unat new < unat (current_sec m) + 60" by linarith
  then show ?thesis
  proof cases
    case 1
    with rel new show ?thesis by (simp add: chk meter_rel_def)
  next
    case 2
    with rel new later cur bytes_in_later [of "entries a" "now_sec a"] show ?thesis
      by (auto simp: chk dist meter_rel_def)
  next
    case 3
    have "(zero_from new (current_sec m) (history_bytes m)) ! (s mod 60) = of_nat (bytes_in (entries a) s)"
      if "s \<le> unat new" "unat new < s + 60" for s
      using zero_from_nth [of "history_bytes m" new "unat new" "current_sec m" s] that 3(2) rel cur
        bytes_in_later [of "entries a" "now_sec a" s]
      by (auto simp: meter_rel_def)
    with 3 rel new later cur show ?thesis by (auto simp: chk dist meter_rel_def)
  qed
qed

lemma SubmitBytes_rel:
  assumes rel: "meter_rel m a" and le: "now_sec a \<le> unat tick div 1000" "unat tick div 1000 < 2 ^ 32"
  shows "meter_rel (SubmitBytes tick b m)
           (a\<lparr>now_sec := unat tick div 1000, entries := (unat tick div 1000, unat b) # entries a\<rparr>)"
proof -
  have "meter_rel (CheckTickCount tick m) (a\<lparr>now_sec := unat tick div 1000\<rparr>)"
    by (rule CheckTickCount_rel [OF assms])
  then show ?thesis
    using same_slot [of "unat tick div 1000" "unat tick div 1000"]
    by (auto simp: meter_rel_def SubmitBytes_def Let_def unat_position bytes_in_def nth_list_update)
qed

interpretation meter: forward_simulation meter_step log_step in_order meter_rel
proof
  show "result_spec (\<lambda>m'. meter_rel m' (log_step e a)) (meter_step e m)" if "meter_rel m a" "in_order e a" for m a e
    using that CheckTickCount_rel SubmitBytes_rel
    by (cases e) (auto simp: meter_step_def log_step_def in_order_def event_sec_def)
qed

lemma zero_from_zeroes: "zero_from i cur (replicate 60 0) = replicate 60 0"
proof -
  have "h = replicate 60 0 \<Longrightarrow> zero_from i cur h = replicate 60 0" for h
  proof (induction i cur h rule: zero_from.induct)
    case (1 i cur h)
    then show ?case by (subst zero_from.simps) (simp add: unat_position list_update_same_conv)
  qed
  then show ?thesis by simp
qed

lemma meter_Start_rel:
  assumes "unat t0 div 1000 < 2 ^ 32"
  shows "meter_rel (meter_Start t0 meter_new) (log_new t0)"
  using unat_sec [OF assms]
  by (auto simp: meter_rel_def meter_Start_def meter_new_def meter_Clear_def log_new_def CheckTickCount_def
      UpdateTickCount_def Let_def bytes_in_def zero_from_zeroes)

lemma sum_down_eq: "sum_down i low h = (\<Sum>s\<in>{unat low<..unat i}. uint (h ! (s mod 60)))"
proof (induction i low h rule: sum_down.induct)
  case (1 i low h)
  show ?case
  proof (cases "i > low")
    case True
    then have "{unat low<..unat i} = insert (unat i) {unat low<..unat (i - 1)}"
      by (auto simp: unat_pred word_less_nat_alt)
    moreover have "unat i \<notin> {unat low<..unat (i - 1)}" using unat_pred_less [OF True] by simp
    ultimately show ?thesis using 1 True by (subst sum_down.simps) (simp add: unat_position)
  next
    case False
    then show ?thesis by (subst sum_down.simps) (simp add: word_less_nat_alt)
  qed
qed

text \<open>The sum of a minute, even in milliseconds, fits in the signed 64 bits of the code.\<close>

lemma sum_down_bound:
  assumes "unat i \<le> unat low + 60"
  shows "0 \<le> sum_down i low h \<and> 1000 * sum_down i low h < 2 ^ 63"
proof -
  have "sum_down i low h \<le> (\<Sum>s\<in>{unat low<..unat i}. 2 ^ 32)"
    unfolding sum_down_eq by (rule sum_mono) (rule less_imp_le [OF u32_less(2)])
  also have "\<dots> \<le> 60 * 2 ^ 32" using assms by simp
  finally show ?thesis by (simp add: sum_down_eq sum_nonneg)
qed

section \<open>Speeds\<close>

text \<open>
  What a speed over \<open>d\<close> seconds means: the bytes of the last \<open>d\<close> complete seconds divided by
  \<open>d\<close>, or by the time since the start where that is shorter.
\<close>

definition window_bytes :: "byte_log \<Rightarrow> nat \<Rightarrow> nat" where
  "window_bytes a d = (\<Sum>s\<in>{now_sec a - d..<now_sec a}. bytes_in (entries a) s)"

definition logged_bytes :: "byte_log \<Rightarrow> nat" where
  "logged_bytes a = sum_list (map snd (entries a))"

definition spec_speed :: "nat \<Rightarrow> nat \<Rightarrow> nat \<Rightarrow> nat" where
  "spec_speed d elapsed bytes = (if elapsed > 1000 * d then bytes div d else 1000 * bytes div elapsed)"

lemma bytes_in_le: "bytes_in es s \<le> sum_list (map snd es)"
  by (induction es) (auto simp: bytes_in_def)

lemma bytes_in_Cons: "bytes_in (e # es) s = bytes_in es s + (if s = fst e then snd e else 0)"
  by (auto simp: bytes_in_def)

lemma sum_bytes_in: "finite A \<Longrightarrow> (\<Sum>s\<in>A. bytes_in es s) = sum_list (map snd (filter (\<lambda>e. fst e \<in> A) es))"
proof (induction es)
  case Nil
  then show ?case by (simp add: bytes_in_def)
next
  case (Cons e es)
  then show ?case by (simp add: bytes_in_Cons sum.distrib sum.delta)
qed

lemma window_bytes_filter:
  "window_bytes a d = sum_list (map snd (filter (\<lambda>e. now_sec a - d \<le> fst e \<and> fst e < now_sec a) (entries a)))"
  using sum_bytes_in [of "{now_sec a - d..<now_sec a}" "entries a"] by (simp add: window_bytes_def)

lemma window_low:
  assumes "d < unat (cur :: u32)"
  shows "unat (cur - 1) = unat cur - 1" "unat (cur - 1 - of_nat d) = unat cur - 1 - d"
proof -
  show p: "unat (cur - 1) = unat cur - 1" using unat_pred [of 0 cur] assms by (simp add: word_less_nat_alt)
  have d: "unat (of_nat d :: u32) = d"
    using assms u32_less(1) [of cur] by (simp add: unat_of_nat)
  have "(of_nat d :: u32) \<le> cur - 1" using assms p d by (simp add: word_le_nat_alt)
  then show "unat (cur - 1 - of_nat d) = unat cur - 1 - d" using p d by (simp add: unat_sub)
qed

text \<open>The sum the code forms: the second sixty seconds ago has lost its counter to the current one.\<close>

lemma sum_down_window:
  assumes rel: "meter_rel m a" and d: "0 < d" "d \<le> 60" "d < now_sec a" and small: "logged_bytes a < 2 ^ 32"
  shows "sum_down (current_sec m - 1) (current_sec m - 1 - of_nat d) (history_bytes m) =
    int (window_bytes a d) - (if d = 60 then int (bytes_in (entries a) (now_sec a - 60)) - int (bytes_in (entries a) (now_sec a)) else 0)"
    (is "?sum = _")
proof -
  let ?n = "now_sec a"
  define f where "f s = int (bytes_in (entries a) s)" for s
  have n: "unat (current_sec m) = ?n" using rel by (simp add: meter_rel_def)
  have cell: "uint (history_bytes m ! (s mod 60)) = f s" if "s \<le> ?n" "?n < s + 60" for s
  proof -
    have "bytes_in (entries a) s < 2 ^ 32" using small bytes_in_le [of "entries a" s] by (simp add: logged_bytes_def)
    with rel that show ?thesis by (simp add: meter_rel_def f_def uint_nat unat_of_nat)
  qed
  have "?sum = (\<Sum>s\<in>{?n - 1 - d<..?n - 1}. uint (history_bytes m ! (s mod 60)))"
    using window_low [of d "current_sec m"] n d by (simp add: sum_down_eq)
  also have "{?n - 1 - d<..?n - 1} = {?n - d..<?n}" using d by auto
  also have "(\<Sum>s\<in>{?n - d..<?n}. uint (history_bytes m ! (s mod 60))) =
      (\<Sum>s\<in>{?n - d..<?n}. if s = ?n - 60 then f ?n else f s)"
  proof (rule sum.cong)
    fix s assume s: "s \<in> {?n - d..<?n}"
    show "uint (history_bytes m ! (s mod 60)) = (if s = ?n - 60 then f ?n else f s)"
    proof (cases "s = ?n - 60")
      case True
      with d s have "60 \<le> ?n" by auto
      then have "(?n - 60) mod 60 = ?n mod 60" by (simp add: le_mod_geq)
      with True cell [of ?n] show ?thesis by simp
    next
      case False
      with s d cell [of s] show ?thesis by auto
    qed
  qed simp
  also have "\<dots> = (\<Sum>s\<in>{?n - d..<?n}. f s) - (if d = 60 then f (?n - 60) - f ?n else 0)"
  proof -
    have "(\<Sum>s\<in>{?n - d..<?n}. if s = ?n - 60 then f ?n else f s) =
        (\<Sum>s\<in>{?n - d..<?n}. f s + (if s = ?n - 60 then f ?n - f (?n - 60) else 0))"
      by (rule sum.cong) auto
    also have "\<dots> = (\<Sum>s\<in>{?n - d..<?n}. f s) + (if ?n - 60 \<in> {?n - d..<?n} then f ?n - f (?n - 60) else 0)"
      by (simp add: sum.distrib sum.delta')
    also have "?n - 60 \<in> {?n - d..<?n} \<longleftrightarrow> d = 60" using d by auto
    finally show ?thesis by auto
  qed
  finally show ?thesis by (simp add: f_def window_bytes_def)
qed

lemma CalcSpeed_window:
  assumes rel: "meter_rel m a" and d: "0 < d" "d \<le> 60" "d < unat tick div 1000" and small: "logged_bytes a < 2 ^ 32"
    and now: "in_order (Query tick) a" and since: "started_at a < tick" "unat tick - unat (started_at a) < 2 ^ 32"
  defines "a' \<equiv> log_step (Query tick) a"
  shows "fst (CalcSpeedInDuration (of_nat d) tick m) = of_nat (spec_speed d (unat tick - unat (started_at a))
      (if d = 60 then window_bytes a' 59 + bytes_in (entries a) (now_sec a') else window_bytes a' d))"
proof -
  let ?m = "CheckTickCount tick m" and ?e = "unat tick - unat (started_at a)"
  have n: "now_sec a' = unat tick div 1000" by (simp add: a'_def log_step_def event_sec_def)
  have rel': "meter_rel ?m a'"
    using CheckTickCount_rel [OF rel, of tick] now by (simp add: a'_def log_step_def in_order_def event_sec_def)
  have d': "unat (of_nat d :: u32) = d" using d(2) by (simp add: unat_of_nat)
  have "unat (tick - started_at a) = ?e" using since(1) by (intro unat_sub) simp
  then have "unat (ucast (tick - started_at a) :: u32) = ?e" using since(2) by (simp add: unat_ucast_small)
  moreover have "?e > 0" using since(1) by (simp add: word_less_nat_alt)
  moreover have "start_time ?m = started_at a" using rel' by (simp add: meter_rel_def a'_def log_step_def)
  ultimately have elapsed: "unat (GetElapsedTimeInMilliSeconds tick ?m) = ?e"
    by (auto simp: GetElapsedTimeInMilliSeconds_def Let_def)
  have thousand: "unat (of_nat d * 1000 :: u32) = 1000 * d"
    using d(2) d' by (simp add: unat_word_ariths)
  have split: "window_bytes a' 60 = window_bytes a' 59 + bytes_in (entries a) (now_sec a' - 60)" if "d = 60"
  proof -
    have "{now_sec a' - 60..<now_sec a'} = insert (now_sec a' - 60) {now_sec a' - 59..<now_sec a'}"
      "now_sec a' - 60 \<notin> {now_sec a' - 59..<now_sec a'}" using d n that by auto
    then show ?thesis by (simp add: window_bytes_def a'_def log_step_def)
  qed
  define w where "w = (if d = 60 then window_bytes a' 59 + bytes_in (entries a) (now_sec a') else window_bytes a' d)"
  have "sum_down (current_sec ?m - 1) (current_sec ?m - 1 - of_nat d) (history_bytes ?m) = int w"
    using sum_down_window [OF rel' d(1,2)] d(3) n small split by (auto simp: w_def a'_def log_step_def logged_bytes_def)
  then have "fst (CalcSpeedInDuration (of_nat d) tick m) =
      (if 1000 * d < ?e then of_int (int w div int d) else of_int (1000 * int w div int ?e))"
    by (simp add: CalcSpeedInDuration_def Let_def word_less_nat_alt uint_nat elapsed thousand d' del: of_int_of_nat_eq)
  also have "int w div int d = int (w div d)" by (simp add: zdiv_int)
  also have "1000 * int w div int ?e = int (1000 * w div ?e)" by (simp add: zdiv_int)
  also have "(if 1000 * d < ?e then of_int (int (w div d)) else of_int (int (1000 * w div ?e))) =
      (of_nat (spec_speed d ?e w) :: u32)"
    by (simp add: spec_speed_def)
  finally show ?thesis by (simp only: w_def)
qed

lemma started_at_run [simp]: "started_at (fold log_step es a) = started_at a"
  by (induction es arbitrary: a) (auto simp: log_step_def split: meter_event.splits)

lemma AverageByteSpeed_rel:
  assumes rel: "meter_rel m a" and small: "logged_bytes a < 2 ^ 32"
    and since: "started_at a < tick" "unat tick - unat (started_at a) < 2 ^ 32"
  shows "AverageByteSpeed tick m = of_nat (1000 * logged_bytes a div (unat tick - unat (started_at a)))"
proof -
  let ?e = "unat tick - unat (started_at a)"
  have "unat (tick - started_at a) = ?e" using since(1) by (intro unat_sub) simp
  then have u: "unat (ucast (tick - started_at a) :: u32) = ?e" using since(2) by (simp add: unat_ucast_small)
  have "?e > 0" using since(1) by (simp add: word_less_nat_alt)
  with u have "\<not> (ucast (tick - started_at a) :: u32) \<le> 0" by (auto simp: word_le_nat_alt)
  then have "uint (GetElapsedTimeInMilliSeconds tick m) = int ?e"
    using rel u by (simp add: GetElapsedTimeInMilliSeconds_def meter_rel_def uint_nat)
  moreover have "uint (total_bytes m) = int (logged_bytes a)"
    using rel small by (simp add: meter_rel_def logged_bytes_def uint_nat unat_of_nat)
  ultimately have "AverageByteSpeed tick m = of_int (1000 * int (logged_bytes a) div int ?e)"
    using rel by (simp add: AverageByteSpeed_def meter_rel_def)
  also have "1000 * int (logged_bytes a) div int ?e = int (1000 * logged_bytes a div ?e)" by (simp add: zdiv_int)
  finally show ?thesis by simp
qed

section \<open>Properties of ByteSpeedMeter\<close>

text \<open>C24: The speed meter refines the log of everything submitted: after any sequence of submissions and
  queries in the order of time, its speeds over one, five and twenty seconds are the bytes the log
  has in that many complete seconds before the query, per second (or per time since the start,
  where that is shorter), its average speed is all bytes over the whole time, and its total is the sum of
  the log, all to 32 bits.  The query comes after the twentieth second of the tick count and less than
  \<open>2^32\<close> ms after the start, with less than \<open>2^32\<close> bytes submitted.\<close>

theorem speed_meter_refines_log:
  assumes "unat t0 div 1000 < 2 ^ 32" "enabled_run in_order log_step evs (log_new t0)"
    and "a = fold log_step evs (log_new t0)" "a' = log_step (Query tick) a" "in_order (Query tick) a"
    and "logged_bytes a < 2 ^ 32" "20 < unat tick div 1000"
    and "t0 < tick" "unat tick - unat t0 = elapsed" "elapsed < 2 ^ 32"
  shows "\<exists>m. seq (map meter_step evs) (meter_Start t0 meter_new) = Inr m
    \<and> fst (SecondByteSpeed tick m) = of_nat (spec_speed 1 elapsed (window_bytes a' 1))
    \<and> fst (CurrentByteSpeed tick m) = of_nat (spec_speed 5 elapsed (window_bytes a' 5))
    \<and> fst (RecentByteSpeed tick m) = of_nat (spec_speed 20 elapsed (window_bytes a' 20))
    \<and> AverageByteSpeed tick m = of_nat (1000 * logged_bytes a div elapsed)
    \<and> total_bytes m = of_nat (logged_bytes a)"
proof -
  obtain m where m: "seq (map meter_step evs) (meter_Start t0 meter_new) = Inr m" "meter_rel m a"
    using meter.run_simulates [OF meter_Start_rel assms(2)] assms(1,3) by blast
  have st: "started_at a = t0" using assms(3) by (simp add: log_new_def)
  note speed = CalcSpeed_window [OF m(2) _ _ _ assms(6,5), unfolded st, OF _ _ _ assms(8), unfolded assms(9),
      OF _ _ _ assms(10), folded assms(4)]
  have "fst (SecondByteSpeed tick m) = of_nat (spec_speed 1 elapsed (window_bytes a' 1))"
    using speed [of 1] assms(7) by (simp add: SecondByteSpeed_def)
  moreover have "fst (CurrentByteSpeed tick m) = of_nat (spec_speed 5 elapsed (window_bytes a' 5))"
    using speed [of 5] assms(7) by (simp add: CurrentByteSpeed_def)
  moreover have "fst (RecentByteSpeed tick m) = of_nat (spec_speed 20 elapsed (window_bytes a' 20))"
    using speed [of 20] assms(7) by (simp add: RecentByteSpeed_def)
  moreover have "AverageByteSpeed tick m = of_nat (1000 * logged_bytes a div elapsed)"
    using AverageByteSpeed_rel [OF m(2) assms(6)] assms(8-10) st by simp
  moreover have "total_bytes m = of_nat (logged_bytes a)" using m(2) by (simp add: meter_rel_def logged_bytes_def)
  ultimately show ?thesis using m(1) by blast
qed

definition ex_events :: "meter_event list" where
  "ex_events = [Submit 100000 500, Query 101000, Submit 103900 2000, Submit 104000 40]"

theorem speed_meter_refines_log_witness:
  "\<exists>m. seq (map meter_step ex_events) (meter_Start 100000 meter_new) = Inr m
    \<and> fst (CurrentByteSpeed 105000 m) = 508 \<and> fst (RecentByteSpeed 105000 m) = 508 \<and> fst (SecondByteSpeed 105000 m) = 40"
  using speed_meter_refines_log [of 100000 ex_events "fold log_step ex_events (log_new 100000)"
      "log_step (Query 105000) (fold log_step ex_events (log_new 100000))" 105000 5000]
  by (auto simp: ex_events_def log_new_def log_step_def event_sec_def in_order_def logged_bytes_def
      window_bytes_filter spec_speed_def)

text \<open>The speed over a minute is not that of the last sixty complete seconds: the ring has sixty
  counters, the current second uses the counter of the second sixty seconds ago, and
  \<^verbatim>\<open>RecentMinuteByteSpeed\<close> adds the bytes of the unfinished current second in its place.\<close>

theorem minute_speed_counts_current_second:
  assumes "unat t0 div 1000 < 2 ^ 32" "enabled_run in_order log_step evs (log_new t0)"
    and "a = fold log_step evs (log_new t0)" "a' = log_step (Query tick) a" "in_order (Query tick) a"
    and "logged_bytes a < 2 ^ 32" "60 < unat tick div 1000"
    and "t0 < tick" "unat tick - unat t0 = elapsed" "elapsed < 2 ^ 32"
  shows "\<exists>m. seq (map meter_step evs) (meter_Start t0 meter_new) = Inr m
    \<and> fst (RecentMinuteByteSpeed tick m) =
        of_nat (spec_speed 60 elapsed (window_bytes a' 59 + bytes_in (entries a') (now_sec a')))"
proof -
  obtain m where m: "seq (map meter_step evs) (meter_Start t0 meter_new) = Inr m" "meter_rel m a"
    using meter.run_simulates [OF meter_Start_rel assms(2)] assms(1,3) by blast
  have st: "started_at a = t0" using assms(3) by (simp add: log_new_def)
  have "entries a' = entries a" using assms(4) by (simp add: log_step_def)
  then show ?thesis
    using CalcSpeed_window [OF m(2) _ _ _ assms(6,5), of 60] m(1) st assms(4,7-10)
    by (simp add: RecentMinuteByteSpeed_def HISTORY_INTERVAL_IN_SEC_def)
qed

theorem minute_speed_counts_current_second_witness:
  "\<exists>m. seq (map meter_step [Submit 100000 600, Submit 160500 120]) (meter_Start 100000 meter_new) = Inr m
    \<and> fst (RecentMinuteByteSpeed 160500 m) = 2"
  using minute_speed_counts_current_second [of 100000 "[Submit 100000 600, Submit 160500 120]"
      "fold log_step [Submit 100000 600, Submit 160500 120] (log_new 100000)"
      "log_step (Query 160500) (fold log_step [Submit 100000 600, Submit 160500 120] (log_new 100000))" 160500 60500]
  by (auto simp: log_new_def log_step_def event_sec_def in_order_def logged_bytes_def
      window_bytes_filter spec_speed_def bytes_in_def)

text \<open>Before the tick count has reached \<open>d + 1\<close> seconds the speed over \<open>d\<close> seconds reads zero, whatever has
  been submitted: the lower bound \<^verbatim>\<open>last_sec - duration\<close> of the loop wraps around below zero and the
  loop body is never run.\<close>

theorem early_speed_is_zero:
  assumes "0 < unat tick div 1000" "unat tick div 1000 \<le> d" "d \<le> 60"
  shows "fst (CalcSpeedInDuration (of_nat d) tick m) = 0"
proof -
  define cur :: u32 where "cur = current_sec (CheckTickCount tick m)"
  have n: "unat cur = unat tick div 1000"
    using unat_sec [of tick] assms by (auto simp: cur_def CheckTickCount_def UpdateTickCount_def Let_def)
  have d: "unat (of_nat d :: u32) = d" using assms(3) by (simp add: unat_of_nat)
  have p: "unat (cur - 1) = unat cur - 1" using unat_pred [of 0 cur] assms n by (simp add: word_less_nat_alt)
  have "cur - 1 < of_nat d" using assms n d p by (simp add: word_less_nat_alt)
  then have "\<not> cur - 1 > cur - 1 - of_nat d"
    by (metis linorder_not_less word_sub_le_iff linorder_not_le order_less_imp_le)
  then have "sum_down (cur - 1) (cur - 1 - of_nat d) h = 0" for h by (subst sum_down.simps) simp
  then show ?thesis by (simp add: CalcSpeedInDuration_def Let_def flip: cur_def)
qed

theorem early_speed_is_zero_witness:
  "total_bytes (SubmitBytes 15000 1000000 (meter_Start 10000 meter_new)) = 1000000 \<and>
   fst (CalcSpeedInDuration (of_nat 20) 20000 (SubmitBytes 15000 1000000 (meter_Start 10000 meter_new))) = 0"
  using early_speed_is_zero [of 20000 20 "SubmitBytes 15000 1000000 (meter_Start 10000 meter_new)"]
  by (simp add: SubmitBytes_def Let_def CheckTickCount_def UpdateTickCount_def meter_Start_def meter_new_def meter_Clear_def)

section \<open>CycleBuffer\<close>

record cycle_buffer =
  data :: "u32 list"
  capacity :: u32

definition cycle_new :: "u32 \<Rightarrow> cycle_buffer" where
  "cycle_new n = \<lparr>data = [], capacity = n\<rparr>"

text \<open>Popping the front of an empty deque, which a capacity of zero leads to, is a fault.\<close>

definition Push :: "u32 \<Rightarrow> cycle_buffer action" where
  "Push val b =
     (if length (data b) = unat (capacity b)
      then (case data b of [] \<Rightarrow> Inl OutOfRange | _ # rest \<Rightarrow> Inr (b\<lparr>data := rest @ [val]\<rparr>))
      else Inr (b\<lparr>data := data b @ [val]\<rparr>))"

text \<open>
  \<^verbatim>\<open>std::accumulate(begin, end, 0)\<close> adds in a variable of type \<^verbatim>\<open>int\<close>: the sum modulo \<open>2^32\<close>,
  read as a signed number.
\<close>

definition accumulate :: "u32 list \<Rightarrow> u32" where
  "accumulate xs = foldl (+) 0 xs"

text \<open>
  The division by \<^verbatim>\<open>data_.size()\<close> converts the \<^verbatim>\<open>int\<close> to \<^verbatim>\<open>size_t\<close>, a word of the width of the
  platform, and the result to 32 bits.
\<close>

definition Average :: "'w::len itself \<Rightarrow> cycle_buffer \<Rightarrow> u32" where
  "Average size_t b =
     (if data b = [] then 0
      else ucast (scast (accumulate (data b)) div (of_nat (length (data b)) :: 'w word)))"

definition MaxValue :: "cycle_buffer \<Rightarrow> u32" where
  "MaxValue b = (if data b = [] then 0 else Max (set (data b)))"

definition MinValue :: "cycle_buffer \<Rightarrow> u32" where
  "MinValue b = (if data b = [] then 0 else Min (set (data b)))"

definition Count :: "cycle_buffer \<Rightarrow> u32" where
  "Count b = of_nat (length (data b))"

definition Sum :: "cycle_buffer \<Rightarrow> u32" where
  "Sum b = (if data b = [] then 0 else accumulate (data b))"

definition cycle_Clear :: "cycle_buffer \<Rightarrow> cycle_buffer" where
  "cycle_Clear b = b\<lparr>data := []\<rparr>"

text \<open>The buffer refines the list of everything pushed: it holds the last \<open>capacity\<close> values.\<close>

definition last_n :: "nat \<Rightarrow> 'a list \<Rightarrow> 'a list" where
  "last_n n xs = drop (length xs - n) xs"

definition cycle_rel :: "u32 \<Rightarrow> cycle_buffer \<Rightarrow> u32 list \<Rightarrow> bool" where
  "cycle_rel n b xs = (0 < n \<and> capacity b = n \<and> data b = last_n (unat n) xs)"

lemma length_last_n [simp]: "length (last_n n xs) = min n (length xs)"
  by (simp add: last_n_def)

lemma set_last_n: "set (last_n n xs) \<subseteq> set xs"
  by (simp add: last_n_def set_drop_subset)

lemma last_n_snoc: "0 < n \<Longrightarrow>
  last_n n (xs @ [x]) = (if length xs < n then last_n n xs @ [x] else tl (last_n n xs) @ [x])"
  by (auto simp: last_n_def Suc_diff_le tl_drop drop_Suc)

interpretation cyc: forward_simulation Push "\<lambda>v xs. xs @ [v]" "\<lambda>_ _. True" "cycle_rel n" for n
proof
  fix b xs v
  assume rel: "cycle_rel n b xs"
  then have n: "0 < unat n" by (simp add: cycle_rel_def word_less_nat_alt)
  show "result_spec (\<lambda>b'. cycle_rel n b' (xs @ [v])) (Push v b)"
  proof (cases "length xs < unat n")
    case True
    with rel n show ?thesis by (simp add: Push_def cycle_rel_def last_n_snoc)
  next
    case False
    with rel n have len: "length (data b) = unat n" by (simp add: cycle_rel_def)
    with n obtain x rest where "data b = x # rest" by (cases "data b") auto
    moreover from this rel have "last_n (unat n) xs = x # rest" by (simp add: cycle_rel_def)
    ultimately show ?thesis using rel n False len by (simp add: Push_def cycle_rel_def last_n_snoc)
  qed
qed

lemma fold_snoc [simp]: "fold (\<lambda>v xs. xs @ [v]) ys xs = xs @ ys"
  by (induction ys arbitrary: xs) auto

lemma accumulate_of_nat: "accumulate xs = of_nat (sum_list (map unat xs))"
proof -
  have "foldl (+) a xs = a + of_nat (sum_list (map unat xs))" for a :: u32
    by (induction xs arbitrary: a) (auto simp: add.assoc)
  then show ?thesis by (simp add: accumulate_def)
qed

lemma scast_nonneg:
  fixes w :: u32
  assumes "unat w < 2 ^ 31" "32 \<le> LENGTH('w)"
  shows "unat (scast w :: 'w::len word) = unat w"
proof -
  have "int (unat w) < int (2 ^ 31)" using assms(1) by (simp only: of_nat_less_iff)
  then have "uint w < 2 ^ 31" by simp
  then have "signed_take_bit 31 (uint w) = uint w"
    by (intro signed_take_bit_int_eq_self) (rule order_trans [of _ 0], simp_all)
  then have "sint w = uint w" by (simp add: sint_uint)
  then have "(scast w :: 'w word) = ucast w" by (simp only: scast_eq ucast_eq)
  moreover have "(2::nat) ^ 32 \<le> 2 ^ LENGTH('w)" using assms(2) by (rule power_increasing) simp
  then have "unat w < 2 ^ LENGTH('w)" using u32_less(1) [of w] by linarith
  ultimately show ?thesis by (simp add: unat_ucast_small)
qed

lemma mean_bounds:
  fixes xs :: "nat list"
  assumes "xs \<noteq> []"
  shows "Min (set xs) \<le> sum_list xs div length xs" "sum_list xs div length xs \<le> Max (set xs)"
proof -
  have "length xs * Min (set xs) \<le> sum_list xs"
    using sum_list_mono [of xs "\<lambda>_. Min (set xs)" "\<lambda>x. x"] by (simp add: sum_list_triv)
  then show "Min (set xs) \<le> sum_list xs div length xs" using assms by (simp add: less_eq_div_iff_mult_less_eq mult.commute)
  have "sum_list xs \<le> length xs * Max (set xs)"
    using sum_list_mono [of xs "\<lambda>x. x" "\<lambda>_. Max (set xs)"] by (simp add: sum_list_triv)
  then show "sum_list xs div length xs \<le> Max (set xs)"
    by (metis assms div_le_mono length_0_conv nonzero_mult_div_cancel_left)
qed

lemma unat_Min_Max:
  assumes "xs \<noteq> ([] :: u32 list)"
  shows "unat (Min (set xs)) = Min (set (map unat xs))" "unat (Max (set xs)) = Max (set (map unat xs))"
  using assms mono_Min_commute [of unat "set xs"] mono_Max_commute [of unat "set xs"]
  by (simp_all add: mono_def word_le_nat_alt)

lemma Average_exact:
  assumes "data b \<noteq> []" "sum_list (map unat (data b)) < 2 ^ 31" "length (data b) < 2 ^ 32" "32 \<le> LENGTH('w)"
  shows "unat (Average TYPE('w::len) b) = sum_list (map unat (data b)) div length (data b)"
proof -
  let ?s = "sum_list (map unat (data b))" and ?n = "length (data b)"
  have "unat (accumulate (data b)) = ?s" using assms(2) by (simp add: accumulate_of_nat unat_of_nat)
  then have s: "unat (scast (accumulate (data b)) :: 'w word) = ?s"
    using scast_nonneg [of "accumulate (data b)", where 'w = 'w] assms(2,4) by simp
  have "(2::nat) ^ 32 \<le> 2 ^ LENGTH('w)" using assms(4) by (rule power_increasing) simp
  then have n: "unat (of_nat ?n :: 'w word) = ?n" using assms(3) by (simp add: unat_of_nat)
  have "?s div ?n < 2 ^ 32" by (rule le_less_trans [OF div_le_dividend]) (use assms(2) in simp)
  then have "unat (scast (accumulate (data b)) div of_nat ?n :: 'w word) < 2 ^ LENGTH(32)"
    using s n assms(2) by (simp add: unat_div)
  from unat_ucast_small [OF this] show ?thesis using assms(1) s n by (simp add: Average_def unat_div)
qed

section \<open>Properties of CycleBuffer\<close>

text \<open>After any pushes a buffer of non-zero capacity holds the last values pushed, at most its capacity,
  and as long as their sum is below \<open>2^31\<close> its \<^verbatim>\<open>Sum\<close> is their sum, its \<^verbatim>\<open>Average\<close> their mean rounded
  down, on 32 and on 64 bits alike, and the average lies between its minimum and its maximum.\<close>

theorem cycle_buffer_average_bounds:
  assumes "0 < n" "xs \<noteq> []" "sum_list (map unat (last_n (unat n) xs)) < 2 ^ 31" "32 \<le> LENGTH('w::len)"
  shows "\<exists>b. seq (map Push xs) (cycle_new n) = Inr b
    \<and> data b = last_n (unat n) xs \<and> Count b \<le> n
    \<and> unat (Sum b) = sum_list (map unat (data b))
    \<and> unat (Average TYPE('w) b) = sum_list (map unat (data b)) div length (data b)
    \<and> MinValue b \<le> Average TYPE('w) b \<and> Average TYPE('w) b \<le> MaxValue b"
proof -
  have "cycle_rel n (cycle_new n) []" using assms(1) by (simp add: cycle_rel_def cycle_new_def last_n_def)
  moreover have "enabled_run (\<lambda>_ _. True) f ys a" for f :: "u32 \<Rightarrow> u32 list \<Rightarrow> u32 list" and ys a
    by (induction ys arbitrary: a) auto
  ultimately obtain b where b: "seq (map Push xs) (cycle_new n) = Inr b" "data b = last_n (unat n) xs"
    using cyc.run_simulates [of n "cycle_new n" "[]" xs] by (auto simp: cycle_rel_def)
  have "length (data b) \<noteq> 0" using b(2) assms(1,2) by (auto simp: word_less_nat_alt)
  then have ne: "data b \<noteq> []" by simp
  have len: "length (data b) \<le> unat n" "length (data b) < 2 ^ 32" using b(2) u32_less(1) [of n] by auto
  note avg = Average_exact [OF ne _ len(2) assms(4)]
  have "MinValue b \<le> Average TYPE('w) b" "Average TYPE('w) b \<le> MaxValue b"
    using avg mean_bounds [of "map unat (data b)"] unat_Min_Max [OF ne] ne assms(3) b(2)
    by (simp_all add: MinValue_def MaxValue_def word_le_nat_alt)
  moreover have "Count b \<le> n" using len by (simp add: Count_def word_le_nat_alt unat_of_nat)
  ultimately show ?thesis
    using b assms(3) ne avg
    by (simp add: Sum_def accumulate_of_nat unat_of_nat)
qed

theorem cycle_buffer_average_bounds_witness:
  "\<exists>b. seq (map Push [100, 7, 8, 20]) (cycle_new 3) = Inr b \<and> data b = [7, 8, 20]
    \<and> unat (Average TYPE(64) b) = 11 \<and> unat (Average TYPE(32) b) = 11"
  using cycle_buffer_average_bounds [of 3 "[100, 7, 8, 20]", where 'w = 64]
    cycle_buffer_average_bounds [of 3 "[100, 7, 8, 20]", where 'w = 32]
  by (auto simp: last_n_def)

text \<open>On 64 bits a sum of \<open>2^31\<close> or more makes the average exceed every value it is formed of.\<close>

lemma Average_above_maximum:
  "\<exists>b. seq (map Push [0x40000000, 0x40000000]) (cycle_new 30) = Inr b
    \<and> MaxValue b = 0x40000000 \<and> Average TYPE(64) b = 0xC0000000 \<and> Average TYPE(32) b = 0x40000000"
  by (simp add: cycle_new_def Push_def MaxValue_def Average_def accumulate_def)

end
