(* ===== verification/LiveBlock.thy ===== *)
theory LiveBlock
  imports Prelude
begin

text \<open>
  \<^verbatim>\<open>storage::LiveBlockNode\<close> and \<^verbatim>\<open>storage::HeaderSubPiece\<close> (\<^verbatim>\<open>storage/LiveBlockNode.h/.cpp\<close>,
  \<^verbatim>\<open>storage/HeaderSubPiece.h/.cpp\<close>): one block of a live channel, its subpieces as they arrive, its
  header (subpiece 0) and the validation of its pieces against the checksums of the header.

  \<^item> A subpiece is the list of its bytes; an empty \<^verbatim>\<open>LiveSubPieceBuffer\<close> is \<open>None\<close>.  Indices of
    subpieces and pieces are \<open>nat\<close>; they stay far below the \<open>2^16\<close> of their type in the code, as the
    bounds on the header show, and the one loop that could run over is kept on 16 bits.
  \<^item> MD5, the checksum and two constants come from libraries: they are the fields of \<open>protocol_lib\<close>.
    An RID is its 16 bytes in the order of the archive, which is also their order in memory.
  \<^item> \<^verbatim>\<open>IsHeaderValid\<close> and \<^verbatim>\<open>IsPieceValid\<close> are \<^verbatim>\<open>const\<close> in the code but write mutable members; they
    return the new state here.
\<close>

section \<open>The header subpiece\<close>

record protocol_lib =
  Md5 :: "u8 list \<Rightarrow> u8 list"
  check_sum_new :: "u8 list \<Rightarrow> u32"
  LIVE_SUB_PIECE_SIZE :: nat
  SUBPIECE_COUNT_IN_ONE_CHECK :: nat

definition BlockHashSizeInBytes :: nat where "BlockHashSizeInBytes = 16"

definition SubPiecesPerPiece :: nat where "SubPiecesPerPiece = 16"

definition SubPieceSizeInBytes :: nat where "SubPieceSizeInBytes = 1400"

definition PiecesCheckSumOffset :: nat where
  "PiecesCheckSumOffset = 4 * 4 + 16 + SubPiecesPerPiece"

definition MaximumPiecesPerBlock :: nat where
  "MaximumPiecesPerBlock = (SubPieceSizeInBytes - PiecesCheckSumOffset) div 4"

lemmas header_constants = BlockHashSizeInBytes_def SubPiecesPerPiece_def SubPieceSizeInBytes_def
  PiecesCheckSumOffset_def MaximumPiecesPerBlock_def

record header_subpiece =
  block_hash :: "u8 list"
  header_rid :: "u8 list"
  block_header_length :: nat
  data_length :: nat
  header_block_id :: nat
  version :: nat
  pieces_checksum :: "nat list"

definition Load :: "u8 list \<Rightarrow> header_subpiece" where
  "Load bs =
     \<lparr>block_hash = take BlockHashSizeInBytes bs, header_rid = take 16 (drop 16 bs),
      block_header_length = get32 bs 32, data_length = get32 bs 36, header_block_id = get32 bs 40,
      version = get32 bs 44,
      pieces_checksum = map (\<lambda>i. get32 bs (PiecesCheckSumOffset + 4 * i)) [0..<MaximumPiecesPerBlock]\<rparr>"

text \<open>The object in memory: the members in their order, without padding.\<close>

definition header_image :: "header_subpiece \<Rightarrow> u8 list" where
  "header_image h =
     block_hash h @ header_rid h @ put32 (block_header_length h) @ put32 (data_length h) @
     put32 (header_block_id h) @ put32 (version h) @ concat (map put32 (pieces_checksum h))"

definition VerifyBlockHash :: "protocol_lib \<Rightarrow> header_subpiece \<Rightarrow> bool" where
  "VerifyBlockHash lib h =
     (Md5 lib (take (block_header_length h - BlockHashSizeInBytes)
        (drop BlockHashSizeInBytes (header_image h))) = block_hash h)"

definition header_IsValid :: "protocol_lib \<Rightarrow> header_subpiece \<Rightarrow> bool" where
  "header_IsValid lib h =
     (if block_header_length h < PiecesCheckSumOffset then False
      else if block_header_length h > SubPieceSizeInBytes then False
      else if data_length h < block_header_length h then False
      else if data_length h > MaximumPiecesPerBlock * SubPiecesPerPiece * SubPieceSizeInBytes then False
      else VerifyBlockHash lib h)"

section \<open>The block\<close>

record live_block =
  sub_pieces :: "u8 list option list"
  header :: "header_subpiece option"
  live_block_id :: nat
  block_rid :: "u8 list"
  block_header_validated :: bool
  validated_pieces :: "nat set"
  checksum_failed_times :: u32

definition live_block_new :: "nat \<Rightarrow> u8 list \<Rightarrow> live_block" where
  "live_block_new b r =
     \<lparr>sub_pieces = [], header = None, live_block_id = b, block_rid = r, block_header_validated = False,
      validated_pieces = {}, checksum_failed_times = 0\<rparr>"

definition GetPieceIndex :: "nat \<Rightarrow> nat result" where
  "GetPieceIndex i = (if i = 0 then Inl AssertionFailed else Inr ((i - 1) div SubPiecesPerPiece))"

definition GetFirstSubPieceIndex :: "nat \<Rightarrow> nat" where
  "GetFirstSubPieceIndex p = SubPiecesPerPiece * p + 1"

definition HasSubPiece :: "nat \<Rightarrow> live_block \<Rightarrow> bool" where
  "HasSubPiece i b = (if i \<ge> length (sub_pieces b) then False else sub_pieces b ! i \<noteq> None)"

definition IsComplete :: "live_block \<Rightarrow> bool" where
  "IsComplete b = (header b \<noteq> None \<and> list_all (\<lambda>s. s \<noteq> None) (sub_pieces b))"

definition live_IsEmpty :: "live_block \<Rightarrow> bool" where
  "live_IsEmpty b = list_all (\<lambda>s. s = None) (sub_pieces b)"

definition GetBlock :: "live_block \<Rightarrow> u8 list list result" where
  "GetBlock b = (if \<not> IsComplete b then Inl AssertionFailed else Inr (map the (sub_pieces b)))"

definition GetBuffer :: "nat \<Rightarrow> live_block \<Rightarrow> u8 list option result" where
  "GetBuffer i b = (if i < length (sub_pieces b) then Inr (sub_pieces b ! i) else Inl AssertionFailed)"

text \<open>The loop of \<^verbatim>\<open>GetNextMissingSubPiece\<close>, whose index has 16 bits.\<close>

partial_function (option) scan_missing :: "u8 list option list \<Rightarrow> u16 \<Rightarrow> u16 option" where
  "scan_missing xs i =
     (if unat i < length xs then (if xs ! unat i = None then Some i else scan_missing xs (i + 1)) else Some i)"

declare scan_missing.simps [code]

definition GetNextMissingSubPiece :: "live_block \<Rightarrow> nat result option" where
  "GetNextMissingSubPiece b =
     (if IsComplete b then Some (Inl AssertionFailed)
      else map_option (\<lambda>i. Inr (unat i)) (scan_missing (sub_pieces b) 0))"

definition GetMissingSubPieceCount :: "live_block \<Rightarrow> nat" where
  "GetMissingSubPieceCount b = length (filter (\<lambda>s. s = None) (sub_pieces b))"

definition GetExistSubPieceCount :: "live_block \<Rightarrow> nat" where
  "GetExistSubPieceCount b = length (filter (\<lambda>s. s \<noteq> None) (sub_pieces b))"

definition GetBlockSizeInBytes :: "protocol_lib \<Rightarrow> live_block \<Rightarrow> nat" where
  "GetBlockSizeInBytes lib b =
     (case header b of None \<Rightarrow> 0 | Some h \<Rightarrow> data_length h + LIVE_SUB_PIECE_SIZE lib)"

definition GetSubPiecesCount :: "live_block \<Rightarrow> nat" where
  "GetSubPiecesCount b = (case header b of None \<Rightarrow> 0 | Some _ \<Rightarrow> length (sub_pieces b))"

definition DropSubPiece :: "nat \<Rightarrow> live_block \<Rightarrow> live_block" where
  "DropSubPiece i b = (if i < length (sub_pieces b) then b\<lparr>sub_pieces := (sub_pieces b)[i := None]\<rparr> else b)"

definition IsHeaderValid :: "protocol_lib \<Rightarrow> live_block \<Rightarrow> bool \<times> live_block" where
  "IsHeaderValid lib b =
     (if \<not> block_header_validated b
      then
        let v = (case header b of
                   None \<Rightarrow> False
                 | Some h \<Rightarrow> header_IsValid lib h \<and> live_block_id b = header_block_id h \<and> block_rid b = header_rid h)
        in (v, b\<lparr>block_header_validated := v\<rparr>)
      else (True, b))"

definition real_subpieces_count :: "protocol_lib \<Rightarrow> header_subpiece \<Rightarrow> nat" where
  "real_subpieces_count lib h =
     (1 + (data_length h + LIVE_SUB_PIECE_SIZE lib - 1) div LIVE_SUB_PIECE_SIZE lib) mod 2 ^ 16"

definition resize :: "nat \<Rightarrow> 'a option list \<Rightarrow> 'a option list" where
  "resize n xs = take n xs @ replicate (n - length xs) None"

definition CheckHeadSubPiece :: "protocol_lib \<Rightarrow> live_block \<Rightarrow> live_block result" where
  "CheckHeadSubPiece lib b =
     (if header b \<noteq> None then Inl AssertionFailed
      else
        case sub_pieces b ! 0 of
          None \<Rightarrow> Inl AssertionFailed
        | Some bs \<Rightarrow>
            if length bs \<noteq> SubPieceSizeInBytes then Inl AssertionFailed
            else
              let (v, b1) = IsHeaderValid lib (b\<lparr>header := Some (Load bs)\<rparr>)
              in if \<not> v then Inr (DropSubPiece 0 (b1\<lparr>header := None\<rparr>))
                 else
                   let n = real_subpieces_count lib (Load bs)
                   in if length (sub_pieces b1) > n then Inl AssertionFailed
                      else Inr (b1\<lparr>sub_pieces := resize n (sub_pieces b1)\<rparr>))"

text \<open>
  The subpieces of a piece: from its first to its last, which for the last piece of a block with
  a header is the last of the block.
\<close>

definition piece_range :: "nat \<Rightarrow> live_block \<Rightarrow> nat list" where
  "piece_range p b =
     [GetFirstSubPieceIndex p ..< min (GetFirstSubPieceIndex p + SubPiecesPerPiece) (length (sub_pieces b))]"

definition IsPieceComplete :: "nat \<Rightarrow> live_block \<Rightarrow> bool result" where
  "IsPieceComplete p b =
     (if p \<ge> MaximumPiecesPerBlock then Inl AssertionFailed
      else
        let first = GetFirstSubPieceIndex p;
            last = first + SubPiecesPerPiece - 1
        in if first \<ge> length (sub_pieces b) then Inr False
           else if last \<ge> length (sub_pieces b) \<and> header b = None then Inr False
           else Inr (list_all (\<lambda>i. sub_pieces b ! i \<noteq> None) (piece_range p b)))"

definition piece_data :: "nat \<Rightarrow> live_block \<Rightarrow> u8 list" where
  "piece_data p b = concat (map (\<lambda>i. case sub_pieces b ! i of None \<Rightarrow> [] | Some bs \<Rightarrow> bs) (piece_range p b))"

definition GetPieceChecksum :: "nat \<Rightarrow> header_subpiece \<Rightarrow> nat result" where
  "GetPieceChecksum p h = (if p < MaximumPiecesPerBlock then Inr (pieces_checksum h ! p) else Inl AssertionFailed)"

definition piece_lengths_ok :: "nat \<Rightarrow> live_block \<Rightarrow> bool" where
  "piece_lengths_ok p b =
     list_all (\<lambda>i. case sub_pieces b ! i of None \<Rightarrow> True | Some bs \<Rightarrow> length bs \<le> SubPieceSizeInBytes) (piece_range p b)"

definition IsPieceValid :: "protocol_lib \<Rightarrow> nat \<Rightarrow> live_block \<Rightarrow> (bool \<times> live_block) result" where
  "IsPieceValid lib p b =
     (if p \<ge> MaximumPiecesPerBlock then Inl AssertionFailed
      else if p \<in> validated_pieces b then Inr (True, b)
      else
        let (v, b1) = IsHeaderValid lib b
        in if \<not> v then Inr (False, b1)
           else
             and_then (IsPieceComplete p b1) (\<lambda>complete.
               if \<not> complete then Inr (False, b1)
               else if \<not> piece_lengths_ok p b1 then Inl AssertionFailed
               else
                 case header b1 of
                   None \<Rightarrow> Inl NullPointer
                 | Some h \<Rightarrow>
                     and_then (GetPieceChecksum p h) (\<lambda>expected.
                       if expected = unat (check_sum_new lib (piece_data p b1))
                       then Inr (True, b1\<lparr>validated_pieces := insert p (validated_pieces b1)\<rparr>)
                       else Inr (False, b1\<lparr>checksum_failed_times := checksum_failed_times b1 + 1\<rparr>))))"

definition DropPiece :: "nat \<Rightarrow> live_block \<Rightarrow> live_block result" where
  "DropPiece p b =
     (if p \<ge> MaximumPiecesPerBlock then Inl AssertionFailed
      else if GetFirstSubPieceIndex p \<ge> length (sub_pieces b) then Inl AssertionFailed
      else Inr (fold DropSubPiece (piece_range p b) b))"

text \<open>\<^verbatim>\<open>if (IsPieceComplete(p) && !IsPieceValid(p)) DropPiece(p)\<close>, and the loop over the pieces.\<close>

definition check_piece :: "protocol_lib \<Rightarrow> nat \<Rightarrow> live_block \<Rightarrow> live_block result" where
  "check_piece lib p b =
     and_then (IsPieceComplete p b) (\<lambda>complete.
       if \<not> complete then Inr b
       else and_then (IsPieceValid lib p b) (\<lambda>(valid, b1). if valid then Inr b1 else DropPiece p b1))"

definition DropDataIfNecessary :: "protocol_lib \<Rightarrow> nat \<Rightarrow> live_block \<Rightarrow> live_block result" where
  "DropDataIfNecessary lib i b =
     (if i = 0
      then
        if header b = None then Inr b
        else
          let (v, b1) = IsHeaderValid lib b
          in if \<not> v then Inr b1
             else and_then (GetPieceIndex (GetSubPiecesCount b1 - 1)) (\<lambda>p.
                    seq (map (check_piece lib) [0..<p + 1]) b1)
      else
        if header b = None then Inr b
        else and_then (GetPieceIndex i) (\<lambda>p. check_piece lib p b))"

definition AddSubPiece :: "protocol_lib \<Rightarrow> nat \<Rightarrow> u8 list \<Rightarrow> live_block \<Rightarrow> (bool \<times> live_block) result" where
  "AddSubPiece lib i buf b =
     (if i < length (sub_pieces b) \<and> sub_pieces b ! i \<noteq> None then Inr (False, b)
      else if i \<ge> length (sub_pieces b) \<and> header b \<noteq> None then Inl AssertionFailed
      else
        let grown = (if i \<ge> length (sub_pieces b) then resize (i + 1) (sub_pieces b) else sub_pieces b);
            b1 = b\<lparr>sub_pieces := grown[i := Some buf]\<rparr>
        in and_then (if i = 0 then CheckHeadSubPiece lib b1 else Inr b1) (\<lambda>b2.
             and_then (DropDataIfNecessary lib i b2) (\<lambda>b3. Inr (True, b3))))"

section \<open>Pieces\<close>

definition lib_ok :: "protocol_lib \<Rightarrow> bool" where
  "lib_ok lib = (LIVE_SUB_PIECE_SIZE lib = 1400 \<and> SUBPIECE_COUNT_IN_ONE_CHECK lib = 16)"

definition piece_full :: "nat \<Rightarrow> live_block \<Rightarrow> bool" where
  "piece_full p b =
     (GetFirstSubPieceIndex p < length (sub_pieces b) \<and> list_all (\<lambda>i. sub_pieces b ! i \<noteq> None) (piece_range p b))"

definition piece_good :: "protocol_lib \<Rightarrow> header_subpiece \<Rightarrow> nat \<Rightarrow> live_block \<Rightarrow> bool" where
  "piece_good lib h p b = (pieces_checksum h ! p = unat (check_sum_new lib (piece_data p b)))"

lemma set_piece_range: "set (piece_range p b) = {j. 0 < j \<and> j < length (sub_pieces b) \<and> (j - 1) div 16 = p}"
  by (auto simp: piece_range_def GetFirstSubPieceIndex_def SubPiecesPerPiece_def)

lemma piece_full_iff:
  "piece_full p b \<longleftrightarrow> 16 * p + 1 < length (sub_pieces b) \<and>
     (\<forall>j. 0 < j \<longrightarrow> j < length (sub_pieces b) \<longrightarrow> (j - 1) div 16 = p \<longrightarrow> sub_pieces b ! j \<noteq> None)"
  by (auto simp: piece_full_def list_all_iff set_piece_range GetFirstSubPieceIndex_def SubPiecesPerPiece_def)

lemma piece_fields [simp]:
  "piece_range p (b\<lparr>validated_pieces := v\<rparr>) = piece_range p b"
  "piece_range p (b\<lparr>block_header_validated := w\<rparr>) = piece_range p b"
  "piece_range p (b\<lparr>checksum_failed_times := t\<rparr>) = piece_range p b"
  "piece_full p (b\<lparr>validated_pieces := v\<rparr>) = piece_full p b"
  "piece_full p (b\<lparr>checksum_failed_times := t\<rparr>) = piece_full p b"
  "piece_data p (b\<lparr>validated_pieces := v\<rparr>) = piece_data p b"
  "piece_data p (b\<lparr>checksum_failed_times := t\<rparr>) = piece_data p b"
  by (simp_all add: piece_range_def piece_full_def piece_data_def)

lemma piece_cong:
  assumes "length (sub_pieces b') = length (sub_pieces b)"
    and "\<And>j. j \<in> set (piece_range p b) \<Longrightarrow> sub_pieces b' ! j = sub_pieces b ! j"
  shows "piece_full p b' = piece_full p b" "piece_data p b' = piece_data p b" "piece_good lib h p b' = piece_good lib h p b"
proof -
  have r: "piece_range p b' = piece_range p b" using assms(1) by (simp add: piece_range_def)
  show "piece_full p b' = piece_full p b" using assms r by (auto simp: piece_full_def list_all_iff)
  show d: "piece_data p b' = piece_data p b"
    unfolding piece_data_def r by (rule arg_cong [of _ _ concat]) (use assms(2) in simp)
  show "piece_good lib h p b' = piece_good lib h p b" by (simp add: piece_good_def d)
qed

lemma fold_DropSubPiece:
  "fold DropSubPiece is b = b\<lparr>sub_pieces := map (\<lambda>j. if j \<in> set is then None else sub_pieces b ! j) [0..<length (sub_pieces b)]\<rparr>"
proof (induction "is" arbitrary: b)
  case Nil
  then show ?case by (simp add: map_nth)
next
  case (Cons i "is")
  show ?case unfolding fold.simps comp_apply Cons.IH
    by (auto simp: DropSubPiece_def intro!: live_block.equality nth_equalityI)
qed

definition drop_piece :: "nat \<Rightarrow> live_block \<Rightarrow> live_block" where
  "drop_piece p b = fold DropSubPiece (piece_range p b) b"

lemma drop_piece_simps [simp]:
  "length (sub_pieces (drop_piece p b)) = length (sub_pieces b)"
  "header (drop_piece p b) = header b"
  "live_block_id (drop_piece p b) = live_block_id b"
  "block_rid (drop_piece p b) = block_rid b"
  "block_header_validated (drop_piece p b) = block_header_validated b"
  "validated_pieces (drop_piece p b) = validated_pieces b"
  "checksum_failed_times (drop_piece p b) = checksum_failed_times b"
  "j < length (sub_pieces b) \<Longrightarrow>
     sub_pieces (drop_piece p b) ! j = (if 0 < j \<and> (j - 1) div 16 = p then None else sub_pieces b ! j)"
  by (auto simp: drop_piece_def fold_DropSubPiece set_piece_range)

section \<open>The invariant\<close>

definition header_matches :: "protocol_lib \<Rightarrow> live_block \<Rightarrow> header_subpiece \<Rightarrow> bool" where
  "header_matches lib b h = (header_IsValid lib h \<and> live_block_id b = header_block_id h \<and> block_rid b = header_rid h)"

text \<open>
  A block with a header, up to the pieces in \<open>A\<close>, which may be complete without being validated
  yet: the header is subpiece 0 and valid, the size is that of the header, and a piece is recorded as
  validated only when it is complete and its checksum right.
\<close>

definition headed :: "protocol_lib \<Rightarrow> nat set \<Rightarrow> header_subpiece \<Rightarrow> live_block \<Rightarrow> bool" where
  "headed lib A h b =
     (header b = Some h \<and> block_header_validated b \<and> header_matches lib b h \<and>
      length (sub_pieces b) = real_subpieces_count lib h \<and>
      (\<exists>bs. sub_pieces b ! 0 = Some bs \<and> Load bs = h) \<and>
      (\<forall>p \<in> validated_pieces b. piece_full p b \<and> piece_good lib h p b) \<and>
      (\<forall>p. piece_full p b \<longrightarrow> p \<in> validated_pieces b \<or> p \<in> A))"

definition short_subpieces :: "live_block \<Rightarrow> bool" where
  "short_subpieces b = (\<forall>i < length (sub_pieces b). \<forall>bs. sub_pieces b ! i = Some bs \<longrightarrow> length bs \<le> SubPieceSizeInBytes)"

definition headless :: "live_block \<Rightarrow> bool" where
  "headless b =
     (header b = None \<and> \<not> block_header_validated b \<and> validated_pieces b = {} \<and> \<not> HasSubPiece 0 b
      \<and> length (sub_pieces b) \<le> 2 ^ 16)"

definition block_ok :: "protocol_lib \<Rightarrow> live_block \<Rightarrow> bool" where
  "block_ok lib b = (short_subpieces b \<and> (case header b of None \<Rightarrow> headless b | Some h \<Rightarrow> headed lib {} h b))"

lemma real_count_bounds:
  assumes "lib_ok lib" "header_IsValid lib h"
  shows "2 \<le> real_subpieces_count lib h" "real_subpieces_count lib h \<le> 5409"
    "real_subpieces_count lib h = 1 + (data_length h + 1399) div 1400"
proof -
  have d: "48 \<le> data_length h" "data_length h \<le> 7571200"
    using assms(2) by (auto simp: header_IsValid_def header_constants split: if_splits)
  then have "1 + (data_length h + 1399) div 1400 \<le> 5409" by linarith
  then show c: "real_subpieces_count lib h = 1 + (data_length h + 1399) div 1400"
    using assms(1) by (simp add: real_subpieces_count_def lib_ok_def)
  then show "2 \<le> real_subpieces_count lib h" "real_subpieces_count lib h \<le> 5409" using d by linarith+
qed

lemma headed_bounds:
  assumes "lib_ok lib" "headed lib A h b"
  shows "2 \<le> length (sub_pieces b)" "length (sub_pieces b) \<le> 5409"
    and "0 < j \<Longrightarrow> j < length (sub_pieces b) \<Longrightarrow> (j - 1) div 16 < 338"
    and "piece_full p b \<Longrightarrow> p < 338"
proof -
  have "header_IsValid lib h" using assms(2) by (simp add: headed_def header_matches_def)
  note c = real_count_bounds [OF assms(1) this]
  show l: "2 \<le> length (sub_pieces b)" "length (sub_pieces b) \<le> 5409" using c assms(2) by (simp_all add: headed_def)
  show "(j - 1) div 16 < 338" if "0 < j" "j < length (sub_pieces b)"
    using that l by linarith
  show "p < 338" if "piece_full p b" using that l by (simp add: piece_full_iff)
qed

lemma maximum_pieces [simp]: "MaximumPiecesPerBlock = 338"
  by (simp add: header_constants)

lemma IsPieceComplete_headed: "header b \<noteq> None \<Longrightarrow> p < 338 \<Longrightarrow> IsPieceComplete p b = Inr (piece_full p b)"
  by (auto simp: IsPieceComplete_def piece_full_def Let_def)

lemma IsHeaderValid_headed: "headed lib A h b \<Longrightarrow> IsHeaderValid lib b = (True, b)"
  by (simp add: headed_def IsHeaderValid_def)

lemma short_piece: "short_subpieces b \<Longrightarrow> piece_lengths_ok p b"
  by (auto simp: short_subpieces_def piece_lengths_ok_def list_all_iff set_piece_range split: option.split)

lemma IsPieceValid_headed:
  assumes "headed lib A h b" "short_subpieces b" "p < 338" "piece_full p b"
  shows "IsPieceValid lib p b =
    Inr (if p \<in> validated_pieces b then (True, b)
         else if piece_good lib h p b then (True, b\<lparr>validated_pieces := insert p (validated_pieces b)\<rparr>)
         else (False, b\<lparr>checksum_failed_times := checksum_failed_times b + 1\<rparr>))"
  using assms(3,4) short_piece [OF assms(2)] IsHeaderValid_headed [OF assms(1)] assms(1)
  by (simp add: IsPieceValid_def IsPieceComplete_headed GetPieceChecksum_def piece_good_def headed_def)

text \<open>What \<open>check_piece\<close> makes of a block with a header.\<close>

definition checked :: "protocol_lib \<Rightarrow> header_subpiece \<Rightarrow> nat \<Rightarrow> live_block \<Rightarrow> live_block" where
  "checked lib h p b =
     (if \<not> piece_full p b \<or> p \<in> validated_pieces b then b
      else if piece_good lib h p b then b\<lparr>validated_pieces := insert p (validated_pieces b)\<rparr>
      else drop_piece p (b\<lparr>checksum_failed_times := checksum_failed_times b + 1\<rparr>))"

lemma check_piece_eq:
  assumes "headed lib A h b" "short_subpieces b" "p < 338"
  shows "check_piece lib p b = Inr (checked lib h p b)"
proof (cases "piece_full p b")
  case False
  with assms show ?thesis by (simp add: check_piece_def IsPieceComplete_headed checked_def headed_def)
next
  case True
  then have "GetFirstSubPieceIndex p < length (sub_pieces b)" by (simp add: piece_full_def)
  with True assms IsPieceValid_headed [OF assms True] show ?thesis
    by (simp add: check_piece_def IsPieceComplete_headed checked_def headed_def DropPiece_def drop_piece_def)
qed

text \<open>A change to a piece that is not validated.\<close>

lemma headed_change:
  assumes "headed lib A h b" "p \<notin> validated_pieces b"
    and same: "header b' = header b" "live_block_id b' = live_block_id b" "block_rid b' = block_rid b"
      "block_header_validated b' = block_header_validated b" "validated_pieces b' = validated_pieces b"
      "sub_pieces b' ! 0 = sub_pieces b ! 0"
    and len: "length (sub_pieces b') = length (sub_pieces b)"
    and nth: "\<And>q j. q \<noteq> p \<Longrightarrow> j \<in> set (piece_range q b) \<Longrightarrow> sub_pieces b' ! j = sub_pieces b ! j"
    and B: "A - {p} \<subseteq> B" "piece_full p b' \<Longrightarrow> p \<in> B"
  shows "headed lib B h b'"
proof -
  note other = piece_cong [OF len nth]
  have "piece_full q b' \<and> piece_good lib h q b'" if "q \<in> validated_pieces b" for q
  proof -
    from that assms(2) have "q \<noteq> p" by auto
    from other(1,3) [OF this] that assms(1) show ?thesis by (simp add: headed_def)
  qed
  moreover have "q \<in> validated_pieces b \<or> q \<in> B" if "piece_full q b'" for q
  proof (cases "q = p")
    case True
    with that B(2) show ?thesis by simp
  next
    case False
    with that other(1) [OF False] have "piece_full q b" by simp
    with assms(1) have "q \<in> validated_pieces b \<or> q \<in> A" by (simp add: headed_def)
    with B(1) False show ?thesis by blast
  qed
  ultimately show ?thesis using assms(1) same len by (simp add: headed_def header_matches_def)
qed

lemma checked_headed:
  assumes "headed lib (insert p A) h b" "short_subpieces b" "2 \<le> length (sub_pieces b)"
  shows "headed lib A h (checked lib h p b)" "short_subpieces (checked lib h p b)"
proof -
  consider "\<not> piece_full p b \<or> p \<in> validated_pieces b"
    | "piece_full p b" "p \<notin> validated_pieces b" "piece_good lib h p b"
    | "piece_full p b" "p \<notin> validated_pieces b" "\<not> piece_good lib h p b" by blast
  then have "headed lib A h (checked lib h p b) \<and> short_subpieces (checked lib h p b)"
  proof cases
    case 1
    with assms show ?thesis by (auto simp: checked_def headed_def)
  next
    case 2
    with assms show ?thesis
      by (auto simp: checked_def headed_def header_matches_def short_subpieces_def piece_good_def)
  next
    case 3
    let ?b = "drop_piece p (b\<lparr>checksum_failed_times := checksum_failed_times b + 1\<rparr>)"
    have "\<not> piece_full p ?b"
    proof
      assume f: "piece_full p ?b"
      from f have "16 * p + 1 < length (sub_pieces b)" by (simp add: piece_full_iff)
      with f show False unfolding piece_full_iff by (auto dest!: spec [of _ "16 * p + 1"])
    qed
    moreover have "sub_pieces ?b ! 0 = sub_pieces b ! 0" using assms(3) by (subst drop_piece_simps) auto
    ultimately have "headed lib A h ?b"
      by (intro headed_change [OF assms(1) 3(2)]) (auto simp: set_piece_range)
    moreover have "short_subpieces ?b" using assms(2) by (auto simp: short_subpieces_def)
    ultimately show ?thesis using 3 by (simp add: checked_def)
  qed
  then show "headed lib A h (checked lib h p b)" "short_subpieces (checked lib h p b)" by simp_all
qed

lemma check_pieces:
  assumes "lib_ok lib" "headed lib (set ps \<union> A) h b" "short_subpieces b" "\<forall>p \<in> set ps. p < 338"
  shows "seq (map (check_piece lib) ps) b = Inr (fold (checked lib h) ps b)
    \<and> headed lib A h (fold (checked lib h) ps b) \<and> short_subpieces (fold (checked lib h) ps b)"
  using assms(2-)
proof (induction ps arbitrary: b)
  case Nil
  then show ?case by simp
next
  case (Cons p ps)
  have "headed lib (insert p (set ps \<union> A)) h b" using Cons.prems(1) by simp
  moreover have "check_piece lib p b = Inr (checked lib h p b)"
    by (rule check_piece_eq [OF Cons.prems(1,2)]) (use Cons.prems(3) in simp)
  ultimately show ?case
    using Cons.IH [of "checked lib h p b"] checked_headed headed_bounds(1) [OF assms(1) Cons.prems(1)] Cons.prems(2,3)
    by simp
qed

section \<open>Adding a subpiece\<close>

definition stored :: "nat \<Rightarrow> u8 list \<Rightarrow> live_block \<Rightarrow> live_block" where
  "stored i buf b = b\<lparr>sub_pieces := (resize (max (i + 1) (length (sub_pieces b))) (sub_pieces b))[i := Some buf]\<rparr>"

lemma length_resize [simp]: "length (resize n xs) = n"
  by (simp add: resize_def)

lemma nth_resize: "j < n \<Longrightarrow> resize n xs ! j = (if j < length xs then xs ! j else None)"
  by (auto simp: resize_def nth_append)

lemma resize_same [simp]: "resize (length xs) xs = xs"
  by (simp add: resize_def)

lemma stored_simps [simp]:
  "length (sub_pieces (stored i buf b)) = max (i + 1) (length (sub_pieces b))"
  "header (stored i buf b) = header b"
  "live_block_id (stored i buf b) = live_block_id b"
  "block_rid (stored i buf b) = block_rid b"
  "block_header_validated (stored i buf b) = block_header_validated b"
  "validated_pieces (stored i buf b) = validated_pieces b"
  "j < max (i + 1) (length (sub_pieces b)) \<Longrightarrow> sub_pieces (stored i buf b) ! j =
     (if j = i then Some buf else if j < length (sub_pieces b) then sub_pieces b ! j else None)"
  by (auto simp: stored_def nth_resize)

lemma nth_resize_stored:
  assumes "i < n" "j < n"
  shows "resize n (sub_pieces (stored i buf b)) ! j =
    (if j = i then Some buf else if j < length (sub_pieces b) then sub_pieces b ! j else None)"
proof (cases "j < max (i + 1) (length (sub_pieces b))")
  case True
  with assms(2) show ?thesis by (subst nth_resize) auto
next
  case False
  with assms(2) show ?thesis by (subst nth_resize) auto
qed

lemma stored_short: "short_subpieces b \<Longrightarrow> length buf \<le> 1400 \<Longrightarrow> short_subpieces (stored i buf b)"
  by (auto simp: short_subpieces_def SubPieceSizeInBytes_def)

lemma AddSubPiece_cases:
  "AddSubPiece lib i buf b =
     (if HasSubPiece i b then Inr (False, b)
      else if i \<ge> length (sub_pieces b) \<and> header b \<noteq> None then Inl AssertionFailed
      else and_then (if i = 0 then CheckHeadSubPiece lib (stored i buf b) else Inr (stored i buf b)) (\<lambda>b2.
             and_then (DropDataIfNecessary lib i b2) (\<lambda>b3. Inr (True, b3))))"
proof -
  have g: "(if i \<ge> length (sub_pieces b) then resize (i + 1) (sub_pieces b) else sub_pieces b) =
      resize (max (i + 1) (length (sub_pieces b))) (sub_pieces b)"
    by (auto simp: max_def not_le)
  have has: "HasSubPiece i b \<longleftrightarrow> i < length (sub_pieces b) \<and> sub_pieces b ! i \<noteq> None"
    by (auto simp: HasSubPiece_def)
  show ?thesis by (simp only: AddSubPiece_def stored_def Let_def g has)
qed

text \<open>A subpiece of a block whose header is not known yet is kept as it is.\<close>

lemma AddSubPiece_headless:
  assumes "headless b" "i \<noteq> 0" "\<not> HasSubPiece i b"
  shows "AddSubPiece lib i buf b = Inr (True, stored i buf b)"
  using assms by (simp add: AddSubPiece_cases headless_def DropDataIfNecessary_def)

lemma headed_missing:
  assumes "headed lib A h b" "i < length (sub_pieces b)" "\<not> HasSubPiece i b"
  shows "0 < i" "\<not> piece_full ((i - 1) div 16) b"
proof -
  have "sub_pieces b ! i = None" "\<exists>bs. sub_pieces b ! 0 = Some bs"
    using assms by (auto simp: HasSubPiece_def headed_def)
  then show i: "0 < i" by (cases i) auto
  then show "\<not> piece_full ((i - 1) div 16) b" using assms(2) \<open>sub_pieces b ! i = None\<close> by (auto simp: piece_full_iff)
qed

text \<open>With a header, the piece of the new subpiece is checked once it is complete.\<close>

lemma AddSubPiece_headed:
  assumes "lib_ok lib" "headed lib {} h b" "short_subpieces b" "length buf \<le> 1400"
    and "i < length (sub_pieces b)" "\<not> HasSubPiece i b"
  shows "AddSubPiece lib i buf b = Inr (True, checked lib h ((i - 1) div 16) (stored i buf b))"
    and "headed lib {} h (checked lib h ((i - 1) div 16) (stored i buf b))"
    and "short_subpieces (checked lib h ((i - 1) div 16) (stored i buf b))"
proof -
  let ?p = "(i - 1) div 16" and ?s = "stored i buf b"
  note i = headed_missing(1) [OF assms(2,5,6)]
  have len: "length (sub_pieces ?s) = length (sub_pieces b)" using assms(5) by simp
  have new: "?p \<notin> validated_pieces b" using headed_missing(2) [OF assms(2,5,6)] assms(2) by (auto simp: headed_def)
  have "sub_pieces ?s ! 0 = sub_pieces b ! 0" using i assms(5) by (subst stored_simps) auto
  with len have hd: "headed lib {?p} h ?s"
    by (intro headed_change [OF assms(2) new]) (auto simp: set_piece_range)
  note sh = stored_short [OF assms(3,4), of i]
  have two: "2 \<le> length (sub_pieces ?s)" using headed_bounds(1) [OF assms(1,2)] len by simp
  show "headed lib {} h (checked lib h ?p ?s)" "short_subpieces (checked lib h ?p ?s)"
    using checked_headed [OF hd sh two] by simp_all
  have "?p < 338" using headed_bounds(3) [OF assms(1,2) i assms(5)] .
  from check_piece_eq [OF hd sh this] show "AddSubPiece lib i buf b = Inr (True, checked lib h ?p ?s)"
    using assms(2,5,6) i
    by (simp add: AddSubPiece_cases DropDataIfNecessary_def GetPieceIndex_def SubPiecesPerPiece_def headed_def)
qed

text \<open>A header that is not that of the block is dropped.\<close>

lemma AddSubPiece_bad_header:
  assumes "headless b" "length buf = 1400" "\<not> header_matches lib b (Load buf)"
  shows "AddSubPiece lib 0 buf b = Inr (True, DropSubPiece 0 (stored 0 buf b))"
proof -
  let ?s = "stored 0 buf b"
  have b: "header b = None" "\<not> block_header_validated b" "\<not> HasSubPiece 0 b" using assms(1) by (simp_all add: headless_def)
  have "IsHeaderValid lib (?s\<lparr>header := Some (Load buf)\<rparr>) = (False, ?s\<lparr>header := Some (Load buf)\<rparr>)"
    using b assms(3) by (auto simp: IsHeaderValid_def Let_def header_matches_def intro!: live_block.equality)
  then have "CheckHeadSubPiece lib ?s = Inr (DropSubPiece 0 (?s\<lparr>header := None\<rparr>))"
    using b assms(2) by (simp add: CheckHeadSubPiece_def SubPieceSizeInBytes_def)
  moreover have "?s\<lparr>header := None\<rparr> = ?s" using b by (auto intro!: live_block.equality)
  ultimately have "CheckHeadSubPiece lib ?s = Inr (DropSubPiece 0 ?s)" by (simp only:)
  then show ?thesis using b by (simp add: AddSubPiece_cases DropDataIfNecessary_def DropSubPiece_def)
qed

text \<open>The header of the block sets its size; the pieces that were complete before are checked.\<close>

definition with_header :: "protocol_lib \<Rightarrow> u8 list \<Rightarrow> live_block \<Rightarrow> live_block" where
  "with_header lib buf b =
     (stored 0 buf b)\<lparr>header := Some (Load buf), block_header_validated := True,
        sub_pieces := resize (real_subpieces_count lib (Load buf)) (sub_pieces (stored 0 buf b))\<rparr>"

lemma with_header_headed:
  assumes "lib_ok lib" "headless b" "short_subpieces b" "length buf = 1400" "header_matches lib b (Load buf)"
    and "length (sub_pieces b) \<le> real_subpieces_count lib (Load buf)"
  shows "headed lib (set [0..<(real_subpieces_count lib (Load buf) - 2) div 16 + 1]) (Load buf) (with_header lib buf b)"
    and "short_subpieces (with_header lib buf b)"
proof -
  let ?n = "real_subpieces_count lib (Load buf)" and ?w = "with_header lib buf b"
  have n: "2 \<le> ?n" using real_count_bounds [OF assms(1)] assms(5) by (simp add: header_matches_def)
  have len: "length (sub_pieces ?w) = ?n" by (simp add: with_header_def)
  have nth: "sub_pieces ?w ! j = (if j = 0 then Some buf else if j < length (sub_pieces b) then sub_pieces b ! j else None)"
    if "j < ?n" for j
    using that by (simp add: with_header_def nth_resize_stored)
  have "p \<in> set [0..<(?n - 2) div 16 + 1]" if "piece_full p ?w" for p using that len n by (auto simp: piece_full_iff)
  moreover have "header ?w = Some (Load buf)" "block_header_validated ?w" "header_matches lib ?w (Load buf)"
    "validated_pieces ?w = {}"
    using assms(2,5) by (simp_all add: with_header_def headless_def header_matches_def)
  moreover have "sub_pieces ?w ! 0 = Some buf" using nth [of 0] n by simp
  ultimately show "headed lib (set [0..<(?n - 2) div 16 + 1]) (Load buf) ?w"
    using len unfolding headed_def by blast
  show "short_subpieces ?w" using assms(3,4) len nth by (auto simp: short_subpieces_def SubPieceSizeInBytes_def)
qed

lemma AddSubPiece_header:
  assumes "lib_ok lib" "headless b" "short_subpieces b" "length buf = 1400" "header_matches lib b (Load buf)"
    and "length (sub_pieces b) \<le> real_subpieces_count lib (Load buf)"
  defines "r \<equiv> fold (checked lib (Load buf)) [0..<(real_subpieces_count lib (Load buf) - 2) div 16 + 1] (with_header lib buf b)"
  shows "AddSubPiece lib 0 buf b = Inr (True, r)" "headed lib {} (Load buf) r" "short_subpieces r"
proof -
  let ?h = "Load buf" and ?w = "with_header lib buf b"
  let ?n = "real_subpieces_count lib ?h"
  note w = with_header_headed [OF assms(1-6)]
  have n: "2 \<le> ?n" "?n \<le> 5409" using real_count_bounds [OF assms(1)] assms(5) by (simp_all add: header_matches_def)
  have "(?n - 2) div 16 + 1 \<le> 338" using n by linarith
  then have "\<forall>p \<in> set [0..<(?n - 2) div 16 + 1]. p < 338" by auto
  moreover have "headed lib (set [0..<(?n - 2) div 16 + 1] \<union> {}) ?h ?w" using w(1) by (simp only: Un_empty_right)
  ultimately have chk: "seq (map (check_piece lib) [0..<(?n - 2) div 16 + 1]) ?w = Inr r
      \<and> headed lib {} ?h r \<and> short_subpieces r"
    unfolding r_def using check_pieces [OF assms(1) _ w(2)] by blast
  then show "headed lib {} ?h r" "short_subpieces r" by simp_all
  have sp: "length (sub_pieces (stored 0 buf b)) \<le> ?n" "sub_pieces (stored 0 buf b) ! 0 = Some buf"
    using assms(6) n by simp_all
  have "CheckHeadSubPiece lib (stored 0 buf b) = Inr ?w"
    using assms(2,4,5) sp
    by (simp add: CheckHeadSubPiece_def headless_def IsHeaderValid_def header_matches_def SubPieceSizeInBytes_def
        with_header_def Let_def del: stored_simps(1))
  moreover have "DropDataIfNecessary lib 0 ?w = Inr r"
    using chk w(1) IsHeaderValid_headed [OF w(1)] n
    by (simp add: DropDataIfNecessary_def headed_def GetSubPiecesCount_def GetPieceIndex_def SubPiecesPerPiece_def
        numeral_2_eq_2 del: upt_Suc)
  moreover have "\<not> HasSubPiece 0 b" "header b = None" using assms(2) by (simp_all add: headless_def)
  ultimately show "AddSubPiece lib 0 buf b = Inr (True, r)" by (simp add: AddSubPiece_cases)
qed

section \<open>Blocks in use\<close>

text \<open>A subpiece that the assertions of the code admit.\<close>

definition addable :: "protocol_lib \<Rightarrow> nat \<Rightarrow> u8 list \<Rightarrow> live_block \<Rightarrow> bool" where
  "addable lib i buf b =
     (i < 2 ^ 16 \<and> length buf \<le> 1400 \<and> (header b \<noteq> None \<longrightarrow> i < length (sub_pieces b)) \<and>
      (header b = None \<and> i = 0 \<longrightarrow> length buf = 1400 \<and>
         (header_matches lib b (Load buf) \<longrightarrow> length (sub_pieces b) \<le> real_subpieces_count lib (Load buf))))"

lemma block_ok_new: "block_ok lib (live_block_new i r)"
  by (simp add: block_ok_def live_block_new_def headless_def short_subpieces_def HasSubPiece_def)

lemma block_ok_headless: "block_ok lib b \<Longrightarrow> header b = None \<Longrightarrow> headless b \<and> short_subpieces b"
  by (simp add: block_ok_def)

lemma block_ok_headed: "block_ok lib b \<Longrightarrow> header b = Some h \<Longrightarrow> headed lib {} h b \<and> short_subpieces b"
  by (simp add: block_ok_def)

lemma headless_stored:
  assumes "headless b" "i \<noteq> 0" "i < 2 ^ 16"
  shows "headless (stored i buf b)"
  using assms by (auto simp: headless_def HasSubPiece_def)

lemma headless_bad_header:
  assumes "headless b" "short_subpieces b"
  shows "headless (DropSubPiece 0 (stored 0 buf b))" "short_subpieces (DropSubPiece 0 (stored 0 buf b))"
  using assms by (auto simp: headless_def HasSubPiece_def DropSubPiece_def short_subpieces_def nth_list_update split: if_splits)

text \<open>What adding a subpiece keeps: the identity of the block and, once there is a header, the header and every
  complete piece.\<close>

definition extends :: "live_block \<Rightarrow> live_block \<Rightarrow> bool" where
  "extends b b' =
     (live_block_id b' = live_block_id b \<and> block_rid b' = block_rid b \<and>
      (header b \<noteq> None \<longrightarrow>
         header b' = header b \<and> length (sub_pieces b') = length (sub_pieces b) \<and> sub_pieces b' ! 0 = sub_pieces b ! 0 \<and>
         (\<forall>p. piece_full p b \<longrightarrow> (\<forall>j \<in> set (piece_range p b). sub_pieces b' ! j = sub_pieces b ! j))))"

lemma extends_refl: "extends b b"
  by (simp add: extends_def)

lemma checked_ids [simp]:
  "live_block_id (checked lib h p b) = live_block_id b" "block_rid (checked lib h p b) = block_rid b"
  "header (checked lib h p b) = header b" "length (sub_pieces (checked lib h p b)) = length (sub_pieces b)"
  by (simp_all add: checked_def)

lemma fold_checked_ids:
  "live_block_id (fold (checked lib h) ps b) = live_block_id b" "block_rid (fold (checked lib h) ps b) = block_rid b"
  by (induction ps arbitrary: b) simp_all

lemma checked_nth:
  "j < length (sub_pieces b) \<Longrightarrow> \<not> (0 < j \<and> (j - 1) div 16 = p) \<Longrightarrow> sub_pieces (checked lib h p b) ! j = sub_pieces b ! j"
  by (auto simp: checked_def)

lemma checked_extends:
  assumes "headed lib A h b" "i < length (sub_pieces b)" "\<not> HasSubPiece i b"
  shows "extends b (checked lib h ((i - 1) div 16) (stored i buf b))"
proof -
  let ?p = "(i - 1) div 16"
  note miss = headed_missing [OF assms]
  have len: "length (sub_pieces (stored i buf b)) = length (sub_pieces b)" using assms(2) by simp
  have keep: "sub_pieces (checked lib h ?p (stored i buf b)) ! j = sub_pieces b ! j"
    if "j < length (sub_pieces b)" "j \<noteq> i" "\<not> (0 < j \<and> (j - 1) div 16 = ?p)" for j
    using checked_nth [of j "stored i buf b" ?p lib h] that len by simp
  have "sub_pieces (checked lib h ?p (stored i buf b)) ! j = sub_pieces b ! j"
    if "piece_full q b" "j \<in> set (piece_range q b)" for q j
  proof (rule keep)
    have "q \<noteq> ?p" using that(1) miss(2) by auto
    then show "\<not> (0 < j \<and> (j - 1) div 16 = ?p)" "j \<noteq> i" "j < length (sub_pieces b)"
      using that(2) by (auto simp: set_piece_range)
  qed
  moreover have "sub_pieces (checked lib h ?p (stored i buf b)) ! 0 = sub_pieces b ! 0"
    using keep [of 0] miss(1) assms(2) by fastforce
  ultimately show ?thesis using len by (simp add: extends_def)
qed

lemma AddSubPiece_ok:
  assumes "lib_ok lib" "block_ok lib b" "addable lib i buf b"
  shows "result_spec (\<lambda>(r, b'). r = (\<not> HasSubPiece i b) \<and> block_ok lib b' \<and> extends b b') (AddSubPiece lib i buf b)"
proof (cases "HasSubPiece i b")
  case True
  with assms show ?thesis by (simp add: AddSubPiece_cases extends_refl)
next
  case new: False
  show ?thesis
  proof (cases "header b")
    case None
    then have b: "headless b" "short_subpieces b" using block_ok_headless [OF assms(2)] by simp_all
    consider "i \<noteq> 0" | "i = 0" "header_matches lib b (Load buf)" | "i = 0" "\<not> header_matches lib b (Load buf)" by blast
    then show ?thesis
    proof cases
      case 1
      with b assms(3) new None AddSubPiece_headless [OF b(1) 1 new] headless_stored [OF b(1) 1] stored_short [OF b(2)]
      show ?thesis by (simp add: addable_def block_ok_def extends_def)
    next
      case 2
      with assms(3) None have "length buf = 1400" "length (sub_pieces b) \<le> real_subpieces_count lib (Load buf)"
        by (auto simp: addable_def)
      from AddSubPiece_header [OF assms(1) b this(1) 2(2) this(2)] 2(1) new None show ?thesis
        by (auto simp: block_ok_def headed_def extends_def fold_checked_ids with_header_def)
    next
      case 3
      with assms(3) None have "length buf = 1400" by (auto simp: addable_def)
      from AddSubPiece_bad_header [OF b(1) this 3(2)] headless_bad_header [OF b, of buf] 3(1) new None
      show ?thesis by (auto simp: block_ok_def DropSubPiece_def extends_def)
    qed
  next
    case (Some h)
    with block_ok_headed [OF assms(2) this] AddSubPiece_headed [OF assms(1), of h b buf i] assms(3) new
      checked_extends [of lib "{}" h b i buf]
    show ?thesis by (auto simp: addable_def block_ok_def headed_def)
  qed
qed

inductive live_reachable :: "protocol_lib \<Rightarrow> nat \<Rightarrow> u8 list \<Rightarrow> live_block \<Rightarrow> bool" for lib i0 r where
  new: "live_reachable lib i0 r (live_block_new i0 r)"
| add: "live_reachable lib i0 r b \<Longrightarrow> addable lib i buf b \<Longrightarrow> AddSubPiece lib i buf b = Inr (x, b') \<Longrightarrow>
    live_reachable lib i0 r b'"

lemma live_block_reachable_ok: "live_reachable lib i0 r b \<Longrightarrow> lib_ok lib \<Longrightarrow> block_ok lib b"
proof (induction rule: live_reachable.induct)
  case new
  show ?case by (rule block_ok_new)
next
  case (add b i buf x b')
  with AddSubPiece_ok [of lib b i buf] show ?case by simp
qed

section \<open>The next missing subpiece\<close>

lemma scan_missing_eq:
  assumes "length xs < 2 ^ 16" "i \<le> length xs" "\<forall>j < i. xs ! j \<noteq> None"
  shows "scan_missing xs (of_nat i) = Some (of_nat (length (takeWhile (\<lambda>s. s \<noteq> None) xs)))"
  using assms
proof (induction "length xs - i" arbitrary: i)
  case 0
  then have "i = length xs" by simp
  with "0.prems" have "takeWhile (\<lambda>s. s \<noteq> None) xs = xs" by (auto simp: takeWhile_eq_all_conv in_set_conv_nth)
  then have "length (takeWhile (\<lambda>s. s \<noteq> None) xs) = length xs" by (rule arg_cong)
  with \<open>i = length xs\<close> "0.prems"(1) show ?case by (simp add: scan_missing.simps [of xs] unat_of_nat del: not_None_eq)
next
  case (Suc k)
  have i: "unat (of_nat i :: u16) = i" "i < length xs" using Suc by (simp_all add: unat_of_nat)
  show ?case
  proof (cases "xs ! i")
    case None
    with i Suc.prems(3) have "takeWhile (\<lambda>s. s \<noteq> None) xs = take i xs"
      by (intro takeWhile_eq_take_P_nth) auto
    with i have "length (takeWhile (\<lambda>s. s \<noteq> None) xs) = i" by (simp del: not_None_eq)
    with None i show ?thesis by (simp add: scan_missing.simps [of xs])
  next
    case (Some s)
    with Suc.prems(3) have "\<forall>j < Suc i. xs ! j \<noteq> None" by (auto simp: less_Suc_eq)
    with Suc.hyps(1) [of "Suc i"] Suc.hyps(2) Suc.prems i Some show ?thesis
      by (simp add: scan_missing.simps [of xs "of_nat i"] add.commute)
  qed
qed

lemma GetNextMissing_eq:
  assumes "lib_ok lib" "block_ok lib b" "\<not> IsComplete b"
  shows "GetNextMissingSubPiece b = Some (Inr (length (takeWhile (\<lambda>s. s \<noteq> None) (sub_pieces b))))"
proof (cases "header b")
  case None
  then have "\<not> HasSubPiece 0 b" using block_ok_headless [OF assms(2)] by (simp add: headless_def)
  then have "takeWhile (\<lambda>s. s \<noteq> None) (sub_pieces b) = []" "scan_missing (sub_pieces b) 0 = Some 0"
    by (cases "sub_pieces b"; simp add: HasSubPiece_def scan_missing.simps [of _ 0])+
  with assms(3) show ?thesis by (simp add: GetNextMissingSubPiece_def)
next
  case (Some h)
  then have "length (sub_pieces b) \<le> 5409"
    using headed_bounds(2) [OF assms(1)] block_ok_headed [OF assms(2)] by blast
  moreover have "length (takeWhile (\<lambda>s. s \<noteq> None) (sub_pieces b)) \<le> length (sub_pieces b)" by (rule length_takeWhile_le)
  ultimately show ?thesis using scan_missing_eq [of "sub_pieces b" 0] assms(3)
    by (simp add: GetNextMissingSubPiece_def unat_of_nat)
qed

section \<open>Filling a block from an honest source\<close>

text \<open>
  One request: the next missing subpiece is asked for and comes from the source.  The source is
  honest: its subpiece 0 is a valid header of the block, its pieces have the checksums of that
  header, and what the block has so far agrees with it.
\<close>

definition live_step :: "protocol_lib \<Rightarrow> (nat \<Rightarrow> u8 list) \<Rightarrow> live_block \<Rightarrow> live_block option" where
  "live_step lib src b =
     (if IsComplete b then None
      else
        case GetNextMissingSubPiece b of
          Some (Inr i) \<Rightarrow> (case AddSubPiece lib i (src i) b of Inr (_, b') \<Rightarrow> Some b' | Inl _ \<Rightarrow> None)
        | _ \<Rightarrow> None)"

definition source_count :: "protocol_lib \<Rightarrow> (nat \<Rightarrow> u8 list) \<Rightarrow> nat" where
  "source_count lib src = real_subpieces_count lib (Load (src 0))"

definition honest_source :: "protocol_lib \<Rightarrow> (nat \<Rightarrow> u8 list) \<Rightarrow> bool" where
  "honest_source lib src =
     (lib_ok lib \<and> header_IsValid lib (Load (src 0)) \<and> length (src 0) = 1400 \<and> (\<forall>i. length (src i) \<le> 1400) \<and>
      (\<forall>p. 16 * p + 1 < source_count lib src \<longrightarrow>
         pieces_checksum (Load (src 0)) ! p =
           unat (check_sum_new lib (concat (map src [16 * p + 1..<min (16 * p + 17) (source_count lib src)])))))"

definition agrees :: "protocol_lib \<Rightarrow> (nat \<Rightarrow> u8 list) \<Rightarrow> live_block \<Rightarrow> bool" where
  "agrees lib src b =
     (header_matches lib b (Load (src 0)) \<and> (header b = None \<or> header b = Some (Load (src 0))) \<and>
      length (sub_pieces b) \<le> source_count lib src \<and>
      (\<forall>i < length (sub_pieces b). sub_pieces b ! i = None \<or> sub_pieces b ! i = Some (src i)))"

definition live_inv :: "protocol_lib \<Rightarrow> (nat \<Rightarrow> u8 list) \<Rightarrow> live_block \<Rightarrow> bool" where
  "live_inv lib src b = (honest_source lib src \<and> block_ok lib b \<and> agrees lib src b)"

definition live_left :: "protocol_lib \<Rightarrow> (nat \<Rightarrow> u8 list) \<Rightarrow> live_block \<Rightarrow> nat" where
  "live_left lib src b = source_count lib src - GetExistSubPieceCount b"

lemma source_count_ge: "honest_source lib src \<Longrightarrow> 2 \<le> source_count lib src"
  using real_count_bounds(1) [of lib "Load (src 0)"] by (simp add: honest_source_def source_count_def)

lemma exist_card: "GetExistSubPieceCount b = card {i. i < length (sub_pieces b) \<and> sub_pieces b ! i \<noteq> None}"
  by (simp add: GetExistSubPieceCount_def length_filter_conv_card del: not_None_eq)

lemma exist_le: "GetExistSubPieceCount b \<le> length (sub_pieces b)"
  by (simp add: GetExistSubPieceCount_def)

lemma honest_good:
  assumes "honest_source lib src" "piece_full p b" "length (sub_pieces b) = source_count lib src"
    and "\<forall>i < length (sub_pieces b). sub_pieces b ! i = None \<or> sub_pieces b ! i = Some (src i)"
  shows "piece_good lib (Load (src 0)) p b"
proof -
  have "(case sub_pieces b ! i of None \<Rightarrow> [] | Some bs \<Rightarrow> bs) = src i" if "i \<in> set (piece_range p b)" for i
  proof -
    have "i < length (sub_pieces b)" using that by (simp add: set_piece_range)
    with assms(4) have "sub_pieces b ! i = None \<or> sub_pieces b ! i = Some (src i)" by (simp only:)
    moreover have "sub_pieces b ! i \<noteq> None"
      using that assms(2) by (simp add: piece_full_def list_all_iff del: not_None_eq)
    ultimately show ?thesis by auto
  qed
  then have "piece_data p b = concat (map src (piece_range p b))"
    by (simp add: piece_data_def cong: map_cong)
  then show ?thesis using assms(1-3)
    by (simp add: piece_good_def honest_source_def piece_full_iff piece_range_def GetFirstSubPieceIndex_def
        SubPiecesPerPiece_def add.commute)
qed

lemma checked_good:
  assumes "piece_full p b \<longrightarrow> piece_good lib h p b"
  shows "sub_pieces (checked lib h p b) = sub_pieces b" "header (checked lib h p b) = header b"
    "live_block_id (checked lib h p b) = live_block_id b" "block_rid (checked lib h p b) = block_rid b"
  using assms by (simp_all add: checked_def)

lemma fold_checked_good:
  assumes "\<And>p c. p \<in> set ps \<Longrightarrow> sub_pieces c = sub_pieces b \<Longrightarrow> piece_full p c \<longrightarrow> piece_good lib h p c"
  shows "sub_pieces (fold (checked lib h) ps b) = sub_pieces b \<and> header (fold (checked lib h) ps b) = header b \<and>
    live_block_id (fold (checked lib h) ps b) = live_block_id b \<and> block_rid (fold (checked lib h) ps b) = block_rid b"
  using assms
proof (induction ps arbitrary: b)
  case Nil
  then show ?case by simp
next
  case (Cons p ps)
  have c: "sub_pieces (checked lib h p b) = sub_pieces b" "header (checked lib h p b) = header b"
    "live_block_id (checked lib h p b) = live_block_id b" "block_rid (checked lib h p b) = block_rid b"
    using checked_good [of p b lib h] Cons.prems [of p b] by simp_all
  show ?case using Cons.IH [of "checked lib h p b"] Cons.prems c by simp
qed

text \<open>The effect of an honest answer: subpiece \<open>i\<close> is there, nothing else has changed.\<close>

lemma answer_counts:
  assumes "sub_pieces b' = resize n (sub_pieces (stored i buf b))" "length (sub_pieces b) \<le> n" "i < n" "\<not> HasSubPiece i b"
  shows "GetExistSubPieceCount b' = GetExistSubPieceCount b + 1"
proof -
  let ?S = "{j. j < length (sub_pieces b) \<and> sub_pieces b ! j \<noteq> None}"
  have "{j. j < length (sub_pieces b') \<and> sub_pieces b' ! j \<noteq> None} = insert i ?S"
    using assms by (auto simp: nth_resize_stored split: if_splits)
  moreover have "i \<notin> ?S" using assms(4) by (auto simp: HasSubPiece_def)
  ultimately show ?thesis by (simp add: exist_card)
qed

lemma honest_answer:
  assumes inv: "live_inv lib src b" and "\<not> IsComplete b"
  shows "\<exists>b' i n. live_step lib src b = Some b' \<and> live_inv lib src b' \<and> i < n \<and> \<not> HasSubPiece i b
    \<and> length (sub_pieces b) \<le> n \<and> sub_pieces b' = resize n (sub_pieces (stored i (src i) b))"
proof -
  have h: "honest_source lib src" "lib_ok lib" "length (src 0) = 1400" "\<And>i. length (src i) \<le> 1400"
    and ok: "block_ok lib b" and a: "agrees lib src b"
    using inv by (auto simp: live_inv_def honest_source_def)
  let ?N = "source_count lib src" and ?i = "length (takeWhile (\<lambda>s. s \<noteq> None) (sub_pieces b))" and ?h = "Load (src 0)"
  note N = source_count_ge [OF h(1)]
  note nxt = GetNextMissing_eq [OF h(2) ok assms(2)]
  have good: "piece_full p c \<longrightarrow> piece_good lib ?h p c"
    if "length (sub_pieces c) = ?N" "\<forall>j < ?N. sub_pieces c ! j = None \<or> sub_pieces c ! j = Some (src j)" for c p
    using honest_good [OF h(1)] that by simp
  show ?thesis
  proof (cases "header b")
    case None
    then have b: "headless b" "short_subpieces b" using block_ok_headless [OF ok] by simp_all
    have "?i = 0" using b(1) by (cases "sub_pieces b") (auto simp: headless_def HasSubPiece_def)
    have m: "header_matches lib b ?h" "length (sub_pieces b) \<le> real_subpieces_count lib ?h"
      using a by (simp_all add: agrees_def source_count_def)
    let ?w = "with_header lib (src 0) b"
    let ?r = "fold (checked lib ?h) [0..<(real_subpieces_count lib ?h - 2) div 16 + 1] ?w"
    note add = AddSubPiece_header [OF h(2) b h(3) m]
    have w: "sub_pieces ?w = resize ?N (sub_pieces (stored 0 (src 0) b))" "header ?w = Some ?h"
      "live_block_id ?w = live_block_id b" "block_rid ?w = block_rid b"
      by (simp_all add: with_header_def source_count_def)
    have agree: "\<forall>j < ?N. sub_pieces ?w ! j = None \<or> sub_pieces ?w ! j = Some (src j)"
      using a N by (auto simp: w(1) nth_resize_stored agrees_def)
    have r: "sub_pieces ?r = sub_pieces ?w \<and> header ?r = header ?w \<and>
        live_block_id ?r = live_block_id ?w \<and> block_rid ?r = block_rid ?w"
      by (rule fold_checked_good) (use good agree w(1) in simp)
    have "live_step lib src b = Some ?r" using nxt \<open>?i = 0\<close> assms(2) add(1) by (simp add: live_step_def)
    moreover have "agrees lib src ?r" using r w agree m(1) by (simp add: agrees_def header_matches_def)
    then have "live_inv lib src ?r" using h(1) add(2,3) by (simp add: live_inv_def block_ok_def headed_def)
    moreover have "\<not> HasSubPiece 0 b" using b(1) by (simp add: headless_def)
    ultimately show ?thesis using r w(1) N a by (intro exI [of _ ?r] exI [of _ 0] exI [of _ ?N]) (simp add: agrees_def)
  next
    case (Some h')
    then have h': "header b = Some ?h" using a by (simp add: agrees_def)
    then have b: "headed lib {} ?h b" "short_subpieces b" using block_ok_headed [OF ok] by simp_all
    have len: "length (sub_pieces b) = ?N" using b(1) by (simp add: headed_def source_count_def)
    have "\<not> list_all (\<lambda>s. s \<noteq> None) (sub_pieces b)" using assms(2) h' by (simp add: IsComplete_def)
    then have "takeWhile (\<lambda>s. s \<noteq> None) (sub_pieces b) \<noteq> sub_pieces b"
      by (metis list_all_iff takeWhile_eq_all_conv)
    then have i: "?i < length (sub_pieces b)"
      by (metis (no_types, lifting) le_neq_implies_less length_takeWhile_le takeWhile_eq_take take_all_iff order_refl)
    have miss: "\<not> HasSubPiece ?i b" using nth_length_takeWhile [OF i] i by (simp add: HasSubPiece_def)
    let ?s = "stored ?i (src ?i) b"
    let ?r = "checked lib ?h ((?i - 1) div 16) ?s"
    note add = AddSubPiece_headed [OF h(2) b h(4) i miss]
    have s: "length (sub_pieces ?s) = ?N" using i len by simp
    have agree: "\<forall>j < ?N. sub_pieces ?s ! j = None \<or> sub_pieces ?s ! j = Some (src j)"
      using a i len by (auto simp: agrees_def)
    note r = checked_good [OF good [OF s agree]]
    have "live_step lib src b = Some ?r" using nxt assms(2) add(1) by (simp add: live_step_def)
    moreover have "agrees lib src ?r" using r s agree a h' by (simp add: agrees_def header_matches_def)
    then have "live_inv lib src ?r" using h(1) add(2,3) by (simp add: live_inv_def block_ok_def headed_def)
    moreover have "sub_pieces ?r = resize ?N (sub_pieces ?s)" using r(1) s resize_same [of "sub_pieces ?s"] by simp
    ultimately show ?thesis using i miss len by (intro exI [of _ ?r] exI [of _ ?i] exI [of _ ?N]) simp
  qed
qed

lemma complete_iff_none_left:
  assumes "live_inv lib src b"
  shows "IsComplete b \<longleftrightarrow> live_left lib src b = 0"
proof
  have a: "length (sub_pieces b) \<le> source_count lib src" and ok: "block_ok lib b" and h: "honest_source lib src"
    using assms by (simp_all add: live_inv_def agrees_def)
  show "live_left lib src b = 0" if c: "IsComplete b"
  proof -
    have "header b = Some (Load (src 0))" using c assms by (auto simp: live_inv_def agrees_def IsComplete_def)
    then have "length (sub_pieces b) = source_count lib src"
      using block_ok_headed [OF ok] by (auto simp: headed_def source_count_def)
    moreover have "filter (\<lambda>s. s \<noteq> None) (sub_pieces b) = sub_pieces b"
      using c by (simp add: IsComplete_def filter_id_conv list_all_iff)
    ultimately show ?thesis by (simp add: live_left_def GetExistSubPieceCount_def)
  qed
  show "IsComplete b" if "live_left lib src b = 0"
  proof -
    have e: "GetExistSubPieceCount b = length (sub_pieces b)" "length (sub_pieces b) = source_count lib src"
      using that a exist_le [of b] by (simp_all add: live_left_def)
    have all: "list_all (\<lambda>s. s \<noteq> None) (sub_pieces b)"
    proof (rule ccontr)
      assume "\<not> list_all (\<lambda>s. s \<noteq> None) (sub_pieces b)"
      then obtain s where "s \<in> set (sub_pieces b)" "\<not> s \<noteq> None" by (auto simp: list_all_iff)
      from length_filter_less [of s _ "\<lambda>s. s \<noteq> None", OF this] e(1) show False by (simp add: GetExistSubPieceCount_def)
    qed
    have "2 \<le> length (sub_pieces b)"
      using e(2) source_count_ge [OF h] by simp
    with all have "HasSubPiece 0 b" by (cases "sub_pieces b") (auto simp: HasSubPiece_def)
    then have "header b \<noteq> None" using block_ok_headless [OF ok] by (auto simp: headless_def)
    with all show ?thesis by (simp add: IsComplete_def)
  qed
qed

interpretation lreq: request_loop "live_step lib src" "live_inv lib src" "live_left lib src" for lib src
proof
  show "live_step lib src b = None" if "live_inv lib src b" "live_left lib src b = 0" for b
    using complete_iff_none_left that by (simp add: live_step_def)
  show "\<exists>b'. live_step lib src b = Some b' \<and> live_inv lib src b' \<and> live_left lib src b' = live_left lib src b - 1"
    if "live_inv lib src b" "live_left lib src b \<noteq> 0" for b
  proof -
    have "\<not> IsComplete b" using complete_iff_none_left [OF that(1)] that(2) by simp
    from honest_answer [OF that(1) this] show ?thesis
      using answer_counts by (fastforce simp: live_left_def)
  qed
qed

section \<open>A sample block\<close>

definition sample_lib :: protocol_lib where
  "sample_lib = \<lparr>Md5 = \<lambda>_. replicate 16 0, check_sum_new = \<lambda>bs. of_nat (length bs),
     LIVE_SUB_PIECE_SIZE = 1400, SUBPIECE_COUNT_IN_ONE_CHECK = 16\<rparr>"

definition sized_header :: "nat \<Rightarrow> nat \<Rightarrow> nat \<Rightarrow> u8 list" where
  "sized_header i dl cs =
     replicate 16 0 @ replicate 16 1 @ put32 48 @ put32 dl @ put32 i @ put32 0 @ put32 cs @ replicate 1348 0"

definition sample_header :: "nat \<Rightarrow> nat \<Rightarrow> u8 list" where
  "sample_header i cs = sized_header i 1400 cs"

lemma sized_header_fields:
  assumes "i < 2 ^ 32" "dl < 2 ^ 32" "cs < 2 ^ 32"
  shows "length (sized_header i dl cs) = 1400" "block_hash (Load (sized_header i dl cs)) = replicate 16 0"
    "header_rid (Load (sized_header i dl cs)) = replicate 16 1" "block_header_length (Load (sized_header i dl cs)) = 48"
    "data_length (Load (sized_header i dl cs)) = dl" "header_block_id (Load (sized_header i dl cs)) = i"
    "pieces_checksum (Load (sized_header i dl cs)) ! 0 = cs"
  using get_put(1) [of 48 "replicate 16 0 @ replicate 16 1" "put32 dl @ put32 i @ put32 0 @ put32 cs @ replicate 1348 0"]
    get_put(1) [of dl "replicate 16 0 @ replicate 16 1 @ put32 48" "put32 i @ put32 0 @ put32 cs @ replicate 1348 0"]
    get_put(1) [of i "replicate 16 0 @ replicate 16 1 @ put32 48 @ put32 dl" "put32 0 @ put32 cs @ replicate 1348 0"]
    get_put(1) [of cs "replicate 16 0 @ replicate 16 1 @ put32 48 @ put32 dl @ put32 i @ put32 0" "replicate 1348 0"] assms
  by (simp_all add: sized_header_def Load_def header_constants)

lemma sized_header_ok:
  assumes "i < 2 ^ 32" "48 \<le> dl" "dl \<le> 7571200" "cs < 2 ^ 32"
  shows "header_IsValid sample_lib (Load (sized_header i dl cs))"
    "real_subpieces_count sample_lib (Load (sized_header i dl cs)) = 1 + (dl + 1399) div 1400"
proof -
  show v: "header_IsValid sample_lib (Load (sized_header i dl cs))"
    using sized_header_fields [of i dl cs] assms
    by (simp add: header_IsValid_def VerifyBlockHash_def header_constants sample_lib_def)
  show "real_subpieces_count sample_lib (Load (sized_header i dl cs)) = 1 + (dl + 1399) div 1400"
    using real_count_bounds(3) [OF _ v] sized_header_fields(5) [of i dl cs] assms by (simp add: lib_ok_def sample_lib_def)
qed

lemma sample_header_fields:
  assumes "i < 2 ^ 32" "cs < 2 ^ 32"
  shows "length (sample_header i cs) = 1400" "header_rid (Load (sample_header i cs)) = replicate 16 1"
    "header_block_id (Load (sample_header i cs)) = i" "pieces_checksum (Load (sample_header i cs)) ! 0 = cs"
  using sized_header_fields [of i 1400 cs] assms by (simp_all add: sample_header_def)

lemma sample_header_ok:
  assumes "i < 2 ^ 32" "cs < 2 ^ 32"
  shows "header_IsValid sample_lib (Load (sample_header i cs))" "real_subpieces_count sample_lib (Load (sample_header i cs)) = 2"
  using sized_header_ok [of i 1400 cs] assms by (simp_all add: sample_header_def)

lemma sample_lib_ok: "lib_ok sample_lib"
  by (simp add: lib_ok_def sample_lib_def)

definition sample_source :: "nat \<Rightarrow> nat \<Rightarrow> u8 list" where
  "sample_source i j = (if j = 0 then sample_header i 3 else [10, 20, 30])"

lemma sample_source_honest:
  assumes "i < 2 ^ 32"
  shows "honest_source sample_lib (sample_source i)" "source_count sample_lib (sample_source i) = 2"
proof -
  show c: "source_count sample_lib (sample_source i) = 2"
    using sample_header_ok(2) [OF assms, of 3] by (simp add: source_count_def sample_source_def)
  have one: "concat (map (sample_source i) [Suc 0..<2]) = [10, 20, 30]" by (simp add: upt_rec sample_source_def)
  show "honest_source sample_lib (sample_source i)"
    using sample_header_ok(1) [OF assms, of 3] sample_header_fields(1,4) [OF assms, of 3] c sample_lib_ok one
    by (auto simp: honest_source_def sample_source_def [of i 0] sample_source_def [of i "Suc _"]
        sample_lib_def split: nat.split) (simp add: sample_source_def)
qed

text \<open>Block 5 with its header, and with the data of its only piece; \<open>cs\<close> is the checksum in the header.\<close>

definition sample_rid :: "u8 list" where
  "sample_rid = replicate 16 1"

definition sample_b1 :: "nat \<Rightarrow> live_block" where
  "sample_b1 cs =
     \<lparr>sub_pieces = [Some (sample_header 5 cs), None], header = Some (Load (sample_header 5 cs)), live_block_id = 5,
      block_rid = sample_rid, block_header_validated = True, validated_pieces = {}, checksum_failed_times = 0\<rparr>"

definition sample_b2 :: live_block where
  "sample_b2 = (sample_b1 3)\<lparr>sub_pieces := [Some (sample_header 5 3), Some [10, 20, 30]], validated_pieces := {0}\<rparr>"

lemma sample_matches:
  assumes "cs < 2 ^ 32" "live_block_id b = 5" "block_rid b = sample_rid"
  shows "header_matches sample_lib b (Load (sample_header 5 cs))"
  using assms sample_header_ok(1) [of 5 cs] sample_header_fields(2,3) [of 5 cs]
  by (simp add: header_matches_def sample_rid_def)

lemma sample_add_header:
  assumes "cs < 2 ^ 32"
  shows "AddSubPiece sample_lib 0 (sample_header 5 cs) (live_block_new 5 sample_rid) = Inr (True, sample_b1 cs)"
proof -
  let ?b = "live_block_new 5 sample_rid" and ?hd = "sample_header 5 cs"
  have two: "real_subpieces_count sample_lib (Load ?hd) = 2" using sample_header_ok(2) [of 5 cs] assms by simp
  have w: "with_header sample_lib ?hd ?b = sample_b1 cs"
    by (simp add: with_header_def stored_def live_block_new_def sample_b1_def resize_def two numeral_2_eq_2)
  have "\<not> piece_full 0 (sample_b1 cs)" by (auto simp: piece_full_iff sample_b1_def)
  then have "checked sample_lib (Load ?hd) 0 (sample_b1 cs) = sample_b1 cs" by (simp add: checked_def)
  moreover have "header_matches sample_lib ?b (Load ?hd)"
    using sample_matches [OF assms, of ?b] by (simp add: live_block_new_def)
  moreover have "headless ?b" "short_subpieces ?b" "sub_pieces ?b = []"
    by (simp_all add: headless_def live_block_new_def HasSubPiece_def short_subpieces_def)
  ultimately show ?thesis
    using AddSubPiece_header(1) [OF sample_lib_ok, of ?b ?hd] sample_header_fields(1) [of 5 cs] assms two w by simp
qed

lemma sample_reachable: "cs < 2 ^ 32 \<Longrightarrow> live_reachable sample_lib 5 sample_rid (sample_b1 cs)"
  using sample_header_fields(1) [of 5 cs]
  by (intro live_reachable.add [OF live_reachable.new _ sample_add_header]) (auto simp: addable_def live_block_new_def)

lemma sample_piece: "piece_data 0 (stored 1 [10, 20, 30] (sample_b1 cs)) = [10, 20, 30]"
  "piece_full 0 (stored 1 [10, 20, 30] (sample_b1 cs))"
  by (simp_all add: piece_data_def piece_full_def piece_range_def GetFirstSubPieceIndex_def SubPiecesPerPiece_def stored_def
      sample_b1_def resize_def numeral_2_eq_2)

lemma sample_good:
  assumes "cs < 2 ^ 32"
  shows "piece_good sample_lib (Load (sample_header 5 cs)) 0 (stored 1 [10, 20, 30] (sample_b1 cs)) \<longleftrightarrow> cs = 3"
  using sample_header_fields(4) [of 5 cs] assms unfolding piece_good_def sample_piece(1) by (auto simp: sample_lib_def)

lemma sample_addable: "addable sample_lib 1 [10, 20, 30] (sample_b1 cs)" "\<not> HasSubPiece 1 (sample_b1 cs)"
  by (simp_all add: addable_def sample_b1_def HasSubPiece_def)

lemma sample_add_data:
  "AddSubPiece sample_lib 1 [10, 20, 30] (sample_b1 3) = Inr (True, sample_b2)"
  "live_reachable sample_lib 5 sample_rid sample_b2" "IsComplete sample_b2"
proof -
  have "headed sample_lib {} (Load (sample_header 5 3)) (sample_b1 3)" "short_subpieces (sample_b1 3)"
    using block_ok_headed [OF live_block_reachable_ok [OF sample_reachable [of 3] sample_lib_ok]]
    by (simp_all add: sample_b1_def)
  note add = AddSubPiece_headed(1) [OF sample_lib_ok this, of "[10, 20, 30]" 1]
  have "checked sample_lib (Load (sample_header 5 3)) 0 (stored 1 [10, 20, 30] (sample_b1 3)) = sample_b2"
    using sample_good [of 3] sample_piece(2) [of 3]
    by (simp add: checked_def sample_b2_def) (simp add: stored_def sample_b1_def resize_def numeral_2_eq_2)
  then show a: "AddSubPiece sample_lib 1 [10, 20, 30] (sample_b1 3) = Inr (True, sample_b2)"
    using add sample_addable(2) [of 3] by (simp add: sample_b1_def)
  show "live_reachable sample_lib 5 sample_rid sample_b2"
    by (rule live_reachable.add [OF sample_reachable sample_addable(1) a]) simp
  show "IsComplete sample_b2" by (simp add: IsComplete_def sample_b2_def sample_b1_def)
qed

section \<open>Properties\<close>

text \<open>C1: A live block that is complete is authentic, whatever subpieces arrived in whatever order: its header
  is valid (sizes, MD5) and names this block and this channel, the number of its subpieces is that
  of the header's data length, and the bytes of every group of sixteen subpieces have the checksum
  the header gives for it.\<close>

theorem live_block_complete_is_authentic:
  assumes "lib_ok lib" "live_reachable lib i r b" "IsComplete b"
  shows "\<exists>h ss. header b = Some h \<and> header_matches lib b h \<and> GetBlock b = Inr ss \<and> Load (ss ! 0) = h
    \<and> length ss = 1 + (data_length h + 1399) div 1400
    \<and> (\<forall>p. 16 * p + 1 < length ss \<longrightarrow>
         pieces_checksum h ! p = unat (check_sum_new lib (concat (take 16 (drop (16 * p + 1) ss)))))"
proof -
  obtain h where h: "header b = Some h" using assms(3) by (auto simp: IsComplete_def)
  then have hd: "headed lib {} h b" using block_ok_headed live_block_reachable_ok assms(1,2) by blast
  define ss where "ss = map the (sub_pieces b)"
  have len: "length ss = length (sub_pieces b)" by (simp add: ss_def)
  have all: "sub_pieces b ! j = Some (ss ! j)" if "j < length (sub_pieces b)" for j
    using that assms(3) by (auto simp: ss_def IsComplete_def list_all_length)
  have "pieces_checksum h ! p = unat (check_sum_new lib (concat (take 16 (drop (16 * p + 1) ss))))"
    if p: "16 * p + 1 < length ss" for p
  proof -
    have full: "piece_full p b" using p all len by (auto simp: piece_full_iff)
    have "piece_data p b = concat (map (\<lambda>j. ss ! j) (piece_range p b))"
      unfolding piece_data_def by (rule arg_cong [of _ _ concat]) (auto simp: all set_piece_range)
    also have "map (\<lambda>j. ss ! j) (piece_range p b) = take 16 (drop (16 * p + 1) ss)"
      by (rule nth_equalityI)
        (auto simp: piece_range_def GetFirstSubPieceIndex_def SubPiecesPerPiece_def len, subst nth_upt, auto)
    finally show ?thesis using hd full by (auto simp: headed_def piece_good_def)
  qed
  moreover have "length ss = 1 + (data_length h + 1399) div 1400"
    using hd real_count_bounds(3) [OF assms(1)] len by (simp add: headed_def header_matches_def)
  moreover have "Load (ss ! 0) = h" using hd headed_bounds(1) [OF assms(1) hd] all [of 0] by (auto simp: headed_def)
  moreover have "GetBlock b = Inr ss" using assms(3) by (simp add: GetBlock_def ss_def)
  moreover have "header_matches lib b h" using hd by (simp add: headed_def)
  ultimately show ?thesis using h by blast
qed

theorem live_block_complete_is_authentic_witness:
  "lib_ok sample_lib \<and> live_reachable sample_lib 5 sample_rid sample_b2 \<and> IsComplete sample_b2 \<and>
   (\<exists>h ss. header sample_b2 = Some h \<and> GetBlock sample_b2 = Inr ss \<and> length ss = 2
      \<and> pieces_checksum h ! 0 = unat (check_sum_new sample_lib (concat (take 16 (drop 1 ss)))))"
proof -
  obtain h ss where a: "header sample_b2 = Some h" "GetBlock sample_b2 = Inr ss"
      "\<forall>p. 16 * p + 1 < length ss \<longrightarrow>
         pieces_checksum h ! p = unat (check_sum_new sample_lib (concat (take 16 (drop (16 * p + 1) ss))))"
    using live_block_complete_is_authentic [OF sample_lib_ok sample_add_data(2,3)] by blast
  then have "length ss = 2" by (auto simp: GetBlock_def sample_b2_def split: if_splits)
  with a show ?thesis using sample_lib_ok sample_add_data(2,3) by (auto dest!: spec [of _ 0])
qed

text \<open>C28: A subpiece that completes a piece with a wrong checksum is taken, but all subpieces of that piece are
  dropped again, so that they are missing and will be requested anew; the failure is counted, and no other
  subpiece is touched.\<close>

theorem live_block_drops_bad_piece:
  assumes "lib_ok lib" "live_reachable lib i0 r b" "header b = Some h" "addable lib i buf b" "\<not> HasSubPiece i b"
    and "piece_full ((i - 1) div 16) (stored i buf b)" "\<not> piece_good lib h ((i - 1) div 16) (stored i buf b)"
  shows "\<exists>b'. AddSubPiece lib i buf b = Inr (True, b')
    \<and> (\<forall>j. HasSubPiece j b' \<longleftrightarrow> HasSubPiece j b \<and> (j = 0 \<or> (j - 1) div 16 \<noteq> (i - 1) div 16))
    \<and> checksum_failed_times b' = checksum_failed_times b + 1"
proof -
  let ?p = "(i - 1) div 16"
  have b: "headed lib {} h b" "short_subpieces b" and i: "length buf \<le> 1400" "i < length (sub_pieces b)"
    using block_ok_headed [OF live_block_reachable_ok [OF assms(2,1)] assms(3)] assms(3,4) by (simp_all add: addable_def)
  note miss = headed_missing [OF b(1) i(2) assms(5)]
  have "?p \<notin> validated_pieces b" using miss(2) b(1) by (auto simp: headed_def)
  then have "checked lib h ?p (stored i buf b) =
      drop_piece ?p ((stored i buf b)\<lparr>checksum_failed_times := checksum_failed_times b + 1\<rparr>)"
    using assms(6,7) by (simp add: checked_def stored_def)
  moreover have "HasSubPiece j (drop_piece ?p ((stored i buf b)\<lparr>checksum_failed_times := t\<rparr>)) \<longleftrightarrow>
      HasSubPiece j b \<and> (j = 0 \<or> (j - 1) div 16 \<noteq> ?p)" for j t
    using i(2) miss(1) by (auto simp: HasSubPiece_def)
  ultimately show ?thesis using AddSubPiece_headed(1) [OF assms(1) b i assms(5)] by simp
qed

theorem live_block_drops_bad_piece_witness:
  "\<exists>b'. AddSubPiece sample_lib 1 [10, 20, 30] (sample_b1 4) = Inr (True, b')
    \<and> HasSubPiece 0 b' \<and> \<not> HasSubPiece 1 b' \<and> checksum_failed_times b' = 1"
proof -
  have "\<exists>b'. AddSubPiece sample_lib 1 [10, 20, 30] (sample_b1 4) = Inr (True, b')
    \<and> (\<forall>j. HasSubPiece j b' \<longleftrightarrow> HasSubPiece j (sample_b1 4) \<and> (j = 0 \<or> (j - 1) div 16 \<noteq> (1 - 1) div 16))
    \<and> checksum_failed_times b' = checksum_failed_times (sample_b1 4) + 1"
    by (rule live_block_drops_bad_piece [OF sample_lib_ok sample_reachable _ sample_addable])
      (use sample_good [of 4] sample_piece(2) [of 4] in \<open>simp_all add: sample_b1_def [of 4, THEN arg_cong, of header]\<close>)
  moreover have "HasSubPiece 0 (sample_b1 4)" "checksum_failed_times (sample_b1 4) = 0"
    by (simp_all add: HasSubPiece_def sample_b1_def)
  ultimately show ?thesis by auto
qed

text \<open>C27: Requests to an honest source complete a block: asking again and again for the next missing subpiece,
  whatever agreeing subpieces the block has already, and whether its header is known or not, it is complete after
  exactly as many answers as subpieces were missing, and then holds the subpieces of the source.\<close>

theorem live_block_requests_complete:
  assumes "honest_source lib src" "block_ok lib b" "agrees lib src b"
    and "b' = iterate_step (live_step lib src) (source_count lib src - GetExistSubPieceCount b) b"
  shows "IsComplete b' \<and> GetBlock b' = Inr (map src [0..<source_count lib src])"
proof -
  have inv: "live_inv lib src b" using assms(1-3) by (simp add: live_inv_def)
  have fin: "live_inv lib src b'" "live_left lib src b' = 0"
    using lreq.iterate_done [OF inv] assms(4) by (simp_all add: live_left_def)
  then have c: "IsComplete b'" using complete_iff_none_left by blast
  have len: "length (sub_pieces b') = source_count lib src"
    using fin exist_le [of b'] by (simp add: live_left_def live_inv_def agrees_def)
  have "map the (sub_pieces b') = map src [0..<source_count lib src]"
  proof (rule nth_equalityI)
    fix j assume "j < length (map the (sub_pieces b'))"
    then have j: "j < length (sub_pieces b')" by simp
    with fin(1) have "sub_pieces b' ! j = None \<or> sub_pieces b' ! j = Some (src j)" by (simp add: live_inv_def agrees_def)
    moreover have "sub_pieces b' ! j \<noteq> None" using c j by (simp add: IsComplete_def list_all_length del: not_None_eq)
    ultimately show "map the (sub_pieces b') ! j = map src [0..<source_count lib src] ! j" using j len by auto
  qed (simp add: len)
  with c show ?thesis by (simp add: GetBlock_def)
qed

theorem live_block_requests_complete_witness:
  "IsComplete (iterate_step (live_step sample_lib (sample_source 5)) 2 (live_block_new 5 sample_rid))"
  using live_block_requests_complete [of sample_lib "sample_source 5" "live_block_new 5 sample_rid"]
    sample_source_honest [of 5] block_ok_new [of sample_lib 5 sample_rid] sample_matches [of 3 "live_block_new 5 sample_rid"]
  by (simp add: agrees_def GetExistSubPieceCount_def) (simp add: live_block_new_def sample_source_def)

end
