(* ===== verification/LiveCache.thy ===== *)
theory LiveCache
  imports LiveBlock
begin

text \<open>
  \<^verbatim>\<open>storage::LiveCacheManager\<close> (\<^verbatim>\<open>storage/LiveCacheManager.h/.cpp\<close>): the blocks of a live channel that
  are in memory.

  \<^item> The map \<^verbatim>\<open>block_nodes_\<close> is an association list sorted by the block id.  Block ids are \<open>nat\<close>, reduced
    to 32 bits where the code adds to them; the interval between blocks is the (positive, 16-bit)
    \<^verbatim>\<open>live_interval_\<close>.
  \<^item> The queries that validate a header or a piece write members of the block; they return the new
    cache.  On a cache that satisfies the invariant they change nothing (\<open>cache_query_pure\<close>).
\<close>

section \<open>State and operations\<close>

record live_cache =
  block_nodes :: "(nat \<times> live_block) list"
  live_interval :: nat
  cache_rid :: "u8 list"
  block_checksum_failed_times :: "(nat \<times> u32) list"

definition live_cache_new :: "nat \<Rightarrow> u8 list \<Rightarrow> live_cache result" where
  "live_cache_new iv r =
     (if iv = 0 then Inl AssertionFailed
      else Inr \<lparr>block_nodes = [], live_interval = iv, cache_rid = r, block_checksum_failed_times = []\<rparr>)"

text \<open>Insertion into, or change of, a sorted map.\<close>

fun put_sorted :: "nat \<Rightarrow> 'v \<Rightarrow> (nat \<times> 'v) list \<Rightarrow> (nat \<times> 'v) list" where
  "put_sorted k v [] = [(k, v)]"
| "put_sorted k v ((k', v') # xs) =
     (if k = k' then (k, v) # xs else if k < k' then (k, v) # (k', v') # xs else (k', v') # put_sorted k v xs)"

definition node :: "nat \<Rightarrow> live_cache \<Rightarrow> live_block option" where
  "node k c = map_of (block_nodes c) k"

definition set_node :: "nat \<Rightarrow> live_block \<Rightarrow> live_cache \<Rightarrow> live_cache" where
  "set_node k b c = c\<lparr>block_nodes := put_sorted k b (block_nodes c)\<rparr>"

definition cache_IsEmpty :: "live_cache \<Rightarrow> bool" where
  "cache_IsEmpty c = (length (block_nodes c) = 0)"

definition BlockExists :: "nat \<Rightarrow> live_cache \<Rightarrow> bool" where
  "BlockExists k c = (node k c \<noteq> None)"

definition EnsureBlockExists :: "nat \<Rightarrow> live_cache \<Rightarrow> live_cache" where
  "EnsureBlockExists k c = (if node k c = None then set_node k (live_block_new k (cache_rid c)) c else c)"

definition cache_AddSubPiece ::
    "protocol_lib \<Rightarrow> nat \<Rightarrow> nat \<Rightarrow> u8 list \<Rightarrow> live_cache \<Rightarrow> (bool \<times> live_cache) result" where
  "cache_AddSubPiece lib k i buf c =
     (let c1 = EnsureBlockExists k c
      in case node k c1 of
           None \<Rightarrow> Inl NullPointer
         | Some b \<Rightarrow> and_then (AddSubPiece lib i buf b) (\<lambda>(added, b'). Inr (added, set_node k b' c1)))"

definition cache_HasSubPiece :: "nat \<Rightarrow> nat \<Rightarrow> live_cache \<Rightarrow> bool" where
  "cache_HasSubPiece k i c = (case node k c of None \<Rightarrow> False | Some b \<Rightarrow> HasSubPiece i b)"

definition cache_GetBlock :: "nat \<Rightarrow> live_cache \<Rightarrow> u8 list list result" where
  "cache_GetBlock k c = (case node k c of None \<Rightarrow> Inr [] | Some b \<Rightarrow> GetBlock b)"

definition cache_GetSubPiece :: "nat \<Rightarrow> nat \<Rightarrow> live_cache \<Rightarrow> u8 list option result" where
  "cache_GetSubPiece k i c = (case node k c of None \<Rightarrow> Inr None | Some b \<Rightarrow> GetBuffer i b)"

text \<open>The loop of \<^verbatim>\<open>GetSubPieces\<close> over the indices from the first to the last.\<close>

fun get_buffers :: "nat list \<Rightarrow> live_block \<Rightarrow> u8 list list result" where
  "get_buffers [] b = Inr []"
| "get_buffers (i # is) b =
     and_then (GetBuffer i b) (\<lambda>s.
       case s of
         None \<Rightarrow> Inl AssertionFailed
       | Some bs \<Rightarrow> and_then (get_buffers is b) (\<lambda>rest. Inr (bs # rest)))"

definition GetSubPieces :: "nat \<Rightarrow> nat \<Rightarrow> nat \<Rightarrow> live_cache \<Rightarrow> u8 list list result" where
  "GetSubPieces k i j c =
     (if j < i then Inl AssertionFailed
      else case node k c of None \<Rightarrow> Inl AssertionFailed | Some b \<Rightarrow> get_buffers [i..<j + 1] b)"

definition HasCompleteBlock :: "nat \<Rightarrow> live_cache \<Rightarrow> bool" where
  "HasCompleteBlock k c = (case node k c of None \<Rightarrow> False | Some b \<Rightarrow> IsComplete b)"

definition cache_IsPieceComplete :: "nat \<Rightarrow> nat \<Rightarrow> live_cache \<Rightarrow> bool result" where
  "cache_IsPieceComplete k p c = (case node k c of None \<Rightarrow> Inr False | Some b \<Rightarrow> IsPieceComplete p b)"

definition cache_IsPieceValid :: "protocol_lib \<Rightarrow> nat \<Rightarrow> nat \<Rightarrow> live_cache \<Rightarrow> (bool \<times> live_cache) result" where
  "cache_IsPieceValid lib k p c =
     (case node k c of
        None \<Rightarrow> Inr (False, c)
      | Some b \<Rightarrow> and_then (IsPieceValid lib p b) (\<lambda>(v, b'). Inr (v, set_node k b' c)))"

definition IsBlockHeaderValid :: "protocol_lib \<Rightarrow> nat \<Rightarrow> live_cache \<Rightarrow> bool \<times> live_cache" where
  "IsBlockHeaderValid lib k c =
     (case node k c of
        None \<Rightarrow> (False, c)
      | Some b \<Rightarrow> (let (v, b') = IsHeaderValid lib b in (v, set_node k b' c)))"

definition cache_GetBlockSizeInBytes :: "protocol_lib \<Rightarrow> nat \<Rightarrow> live_cache \<Rightarrow> nat" where
  "cache_GetBlockSizeInBytes lib k c = (case node k c of None \<Rightarrow> 0 | Some b \<Rightarrow> GetBlockSizeInBytes lib b)"

definition cache_GetSubPiecesCount :: "nat \<Rightarrow> live_cache \<Rightarrow> nat" where
  "cache_GetSubPiecesCount k c = (case node k c of None \<Rightarrow> 0 | Some b \<Rightarrow> GetSubPiecesCount b)"

definition next_id :: "nat \<Rightarrow> live_cache \<Rightarrow> nat" where
  "next_id k c = (k + live_interval c) mod 2 ^ 32"

partial_function (option) cache_GetNextMissingSubPiece :: "live_cache \<Rightarrow> nat \<Rightarrow> (nat \<times> nat) result option" where
  "cache_GetNextMissingSubPiece c k =
     (case node k c of
        None \<Rightarrow> Some (Inr (k, 0))
      | Some b \<Rightarrow>
          if \<not> IsComplete b
          then map_option (\<lambda>r. and_then r (\<lambda>i. Inr (k, i))) (GetNextMissingSubPiece b)
          else cache_GetNextMissingSubPiece c (next_id k c))"

declare cache_GetNextMissingSubPiece.simps [code]

definition GetDataRate :: "protocol_lib \<Rightarrow> live_cache \<Rightarrow> nat" where
  "GetDataRate lib c =
     (if length (block_nodes c) = 0 then 0
      else (sum_list (map (\<lambda>(k, b). GetBlockSizeInBytes lib b) (block_nodes c)) mod 2 ^ 32)
             div (length (block_nodes c) * live_interval c))"

definition GetCacheSize :: "live_cache \<Rightarrow> nat" where
  "GetCacheSize c = length (block_nodes c) mod 2 ^ 16"

definition GetCacheFirstBlockId :: "live_cache \<Rightarrow> nat" where
  "GetCacheFirstBlockId c = (case block_nodes c of [] \<Rightarrow> 0 | (k, _) # _ \<Rightarrow> k)"

definition GetCacheLastBlockId :: "live_cache \<Rightarrow> nat" where
  "GetCacheLastBlockId c = (if block_nodes c = [] then 0 else fst (last (block_nodes c)))"

definition RemoveBlock :: "nat \<Rightarrow> live_cache \<Rightarrow> bool \<times> live_cache" where
  "RemoveBlock k c = (node k c \<noteq> None, c\<lparr>block_nodes := filter (\<lambda>(k', _). k' \<noteq> k) (block_nodes c)\<rparr>)"

definition cache_GetChecksumFailedTimes :: "live_cache \<Rightarrow> u32 \<times> live_cache" where
  "cache_GetChecksumFailedTimes c =
     (let ft = fold (\<lambda>(k, b) m. if checksum_failed_times b \<noteq> 0 then put_sorted k (checksum_failed_times b) m else m)
                 (block_nodes c) (block_checksum_failed_times c)
      in (foldl (\<lambda>t (_, n). t + n) 0 ft, c\<lparr>block_checksum_failed_times := ft\<rparr>))"

definition cache_GetMissingSubPieceCount :: "nat \<Rightarrow> live_cache \<Rightarrow> nat" where
  "cache_GetMissingSubPieceCount k c = (case node k c of None \<Rightarrow> 0 | Some b \<Rightarrow> GetMissingSubPieceCount b)"

definition cache_GetExistSubPieceCount :: "nat \<Rightarrow> live_cache \<Rightarrow> nat" where
  "cache_GetExistSubPieceCount k c = (case node k c of None \<Rightarrow> 0 | Some b \<Rightarrow> GetExistSubPieceCount b)"

section \<open>Sorted maps\<close>

lemma map_of_put_sorted: "sorted_wrt (<) (map fst m) \<Longrightarrow> map_of (put_sorted k v m) = (map_of m)(k \<mapsto> v)"
proof (induction m)
  case (Cons e m)
  have "map_of m k = None" if "k < fst e"
    using that Cons.prems by (force simp: map_of_eq_None_iff)
  with Cons show ?case by (cases e) (auto simp: fun_eq_iff)
qed simp

lemma put_sorted_keys: "fst ` set (put_sorted k v m) = insert k (fst ` set m)"
proof (induction m)
  case (Cons e m)
  then show ?case by (cases e) (simp, blast)
qed simp

lemma sorted_put_sorted: "sorted_wrt (<) (map fst m) \<Longrightarrow> sorted_wrt (<) (map fst (put_sorted k v m))"
proof (induction m)
  case (Cons e m)
  then show ?case using put_sorted_keys [of k v m] by (cases e) (auto simp flip: set_map)
qed simp

lemma put_sorted_same: "sorted_wrt (<) (map fst m) \<Longrightarrow> map_of m k = Some v \<Longrightarrow> put_sorted k v m = m"
proof (induction m)
  case (Cons e m)
  have "k \<in> fst ` set m" if "k \<noteq> fst e" using Cons.prems(2) that by (cases e) (force dest!: map_of_SomeD)
  with Cons show ?case by (cases e) fastforce
qed simp

section \<open>The invariant\<close>

definition cache_ok :: "protocol_lib \<Rightarrow> live_cache \<Rightarrow> bool" where
  "cache_ok lib c =
     (lib_ok lib \<and> 0 < live_interval c \<and> live_interval c < 2 ^ 16 \<and> length (cache_rid c) = 16 \<and>
      sorted_wrt (<) (map fst (block_nodes c)) \<and>
      (\<forall>k b. node k c = Some b \<longrightarrow> k < 2 ^ 32 \<and> block_ok lib b \<and> live_block_id b = k \<and> block_rid b = cache_rid c))"

lemma node_set_node:
  "sorted_wrt (<) (map fst (block_nodes c)) \<Longrightarrow> node j (set_node k b c) = (if j = k then Some b else node j c)"
  by (simp add: node_def set_node_def map_of_put_sorted)

lemma set_node_same: "cache_ok lib c \<Longrightarrow> node k c = Some b \<Longrightarrow> set_node k b c = c"
  by (simp add: set_node_def node_def cache_ok_def put_sorted_same)

lemma set_node_simps [simp]:
  "block_nodes (set_node k b c) = put_sorted k b (block_nodes c)"
  "live_interval (set_node k b c) = live_interval c" "cache_rid (set_node k b c) = cache_rid c"
  by (simp_all add: set_node_def)

lemma set_node_ok:
  assumes "cache_ok lib c" "k < 2 ^ 32" "block_ok lib b" "live_block_id b = k" "block_rid b = cache_rid c"
  shows "cache_ok lib (set_node k b c)"
proof -
  have s: "sorted_wrt (<) (map fst (block_nodes c))" using assms(1) by (simp add: cache_ok_def)
  from assms node_set_node [OF s] sorted_put_sorted [OF s] show ?thesis
    by (auto simp: cache_ok_def split: if_splits)
qed

lemma EnsureBlockExists_ok:
  assumes "cache_ok lib c" "k < 2 ^ 32"
  shows "cache_ok lib (EnsureBlockExists k c)"
    and "node k (EnsureBlockExists k c) =
      Some (case node k c of Some b \<Rightarrow> b | None \<Rightarrow> live_block_new k (cache_rid c))"
    and "j \<noteq> k \<Longrightarrow> node j (EnsureBlockExists k c) = node j c"
proof -
  have s: "sorted_wrt (<) (map fst (block_nodes c))" using assms(1) by (simp add: cache_ok_def)
  have "cache_ok lib (set_node k (live_block_new k (cache_rid c)) c)"
    by (rule set_node_ok [OF assms block_ok_new]) (simp_all add: live_block_new_def)
  with assms(1) show "cache_ok lib (EnsureBlockExists k c)" by (simp add: EnsureBlockExists_def)
  show "node k (EnsureBlockExists k c) = Some (case node k c of Some b \<Rightarrow> b | None \<Rightarrow> live_block_new k (cache_rid c))"
    "j \<noteq> k \<Longrightarrow> node j (EnsureBlockExists k c) = node j c"
    by (auto simp: EnsureBlockExists_def node_set_node [OF s])
qed

text \<open>The block of a channel to which a subpiece is added, which may be new.\<close>

definition target :: "nat \<Rightarrow> live_cache \<Rightarrow> live_block" where
  "target k c = (case node k c of Some b \<Rightarrow> b | None \<Rightarrow> live_block_new k (cache_rid c))"

lemma cache_AddSubPiece_ok:
  assumes "cache_ok lib c" "k < 2 ^ 32" "addable lib i buf (target k c)"
  shows "\<exists>b'. AddSubPiece lib i buf (target k c) = Inr (\<not> HasSubPiece i (target k c), b') \<and> block_ok lib b' \<and>
    extends (target k c) b' \<and>
    cache_AddSubPiece lib k i buf c = Inr (\<not> HasSubPiece i (target k c), set_node k b' (EnsureBlockExists k c)) \<and>
    cache_ok lib (set_node k b' (EnsureBlockExists k c)) \<and>
    (\<forall>j. node j (set_node k b' (EnsureBlockExists k c)) = (if j = k then Some b' else node j c))"
proof -
  let ?c = "EnsureBlockExists k c"
  note e = EnsureBlockExists_ok [OF assms(1,2), folded target_def]
  have lib: "lib_ok lib" using assms(1) by (simp add: cache_ok_def)
  have t: "block_ok lib (target k c)" "live_block_id (target k c) = k" "block_rid (target k c) = cache_rid ?c"
    using e(1,2) by (auto simp: cache_ok_def)
  obtain b' where b': "AddSubPiece lib i buf (target k c) = Inr (\<not> HasSubPiece i (target k c), b')" "block_ok lib b'" "extends (target k c) b'"
    using AddSubPiece_ok [OF lib t(1) assms(3)] by (auto simp: result_spec_iff)
  have ok: "cache_ok lib (set_node k b' ?c)"
    using set_node_ok [OF e(1) assms(2) b'(2)] b'(3) t by (simp add: extends_def)
  have "sorted_wrt (<) (map fst (block_nodes ?c))" using e(1) by (simp add: cache_ok_def)
  with e(3) have "\<forall>j. node j (set_node k b' ?c) = (if j = k then Some b' else node j c)" by (simp add: node_set_node)
  moreover have "cache_AddSubPiece lib k i buf c = Inr (\<not> HasSubPiece i (target k c), set_node k b' ?c)"
    using e(2) b'(1) by (simp add: cache_AddSubPiece_def Let_def)
  ultimately show ?thesis using b' ok by blast
qed

section \<open>Queries\<close>

lemma IsHeaderValid_ok: "block_ok lib b \<Longrightarrow> IsHeaderValid lib b = (header b \<noteq> None, b)"
proof (cases "header b")
  case None
  moreover assume "block_ok lib b"
  ultimately have "\<not> block_header_validated b" using block_ok_headless by (simp add: headless_def)
  with None show ?thesis by (auto simp: IsHeaderValid_def Let_def intro!: live_block.equality)
next
  case (Some h)
  moreover assume "block_ok lib b"
  ultimately show ?thesis using block_ok_headed IsHeaderValid_headed by fastforce
qed

lemma IsPieceValid_ok:
  assumes "lib_ok lib" "block_ok lib b" "p < 338"
  shows "IsPieceValid lib p b = Inr (header b \<noteq> None \<and> piece_full p b, b)"
proof (cases "header b")
  case None
  with assms block_ok_headless [OF assms(2)] IsHeaderValid_ok [OF assms(2)] show ?thesis
    by (simp add: IsPieceValid_def headless_def)
next
  case (Some h)
  have hd: "headed lib {} h b" using block_ok_headed [OF assms(2) Some] by simp
  then have "p \<in> validated_pieces b \<longleftrightarrow> piece_full p b" by (auto simp: headed_def)
  with Some assms IsHeaderValid_ok [OF assms(2)] show ?thesis
    by (simp add: IsPieceValid_def IsPieceComplete_headed)
qed

definition has_header :: "nat \<Rightarrow> live_cache \<Rightarrow> bool" where
  "has_header k c = (case node k c of None \<Rightarrow> False | Some b \<Rightarrow> header b \<noteq> None)"

definition piece_ready :: "nat \<Rightarrow> nat \<Rightarrow> live_cache \<Rightarrow> bool" where
  "piece_ready k p c = (case node k c of None \<Rightarrow> False | Some b \<Rightarrow> header b \<noteq> None \<and> piece_full p b)"

lemma cache_query_pure:
  assumes "cache_ok lib c"
  shows "IsBlockHeaderValid lib k c = (has_header k c, c)"
    and "p < 338 \<Longrightarrow> cache_IsPieceValid lib k p c = Inr (piece_ready k p c, c)"
    and "p < 338 \<Longrightarrow> has_header k c \<Longrightarrow> cache_IsPieceComplete k p c = Inr (piece_ready k p c)"
proof -
  have lib: "lib_ok lib" using assms by (simp add: cache_ok_def)
  have b: "block_ok lib b" "set_node k b c = c" if "node k c = Some b" for b
    using that assms set_node_same by (auto simp: cache_ok_def)
  show "IsBlockHeaderValid lib k c = (has_header k c, c)"
    using b IsHeaderValid_ok by (auto simp: IsBlockHeaderValid_def has_header_def split: option.split)
  show "cache_IsPieceValid lib k p c = Inr (piece_ready k p c, c)" if "p < 338"
    using b IsPieceValid_ok [OF lib _ that] by (auto simp: cache_IsPieceValid_def piece_ready_def split: option.split)
  show "cache_IsPieceComplete k p c = Inr (piece_ready k p c)" if "p < 338" "has_header k c"
    using that IsPieceComplete_headed
    by (auto simp: cache_IsPieceComplete_def piece_ready_def has_header_def split: option.splits)
qed

section \<open>The next missing subpiece of the channel\<close>

text \<open>The ids the search visits.\<close>

definition nth_id :: "nat \<Rightarrow> nat \<Rightarrow> live_cache \<Rightarrow> nat" where
  "nth_id start j c = (start + j * live_interval c) mod 2 ^ 32"

lemma next_nth_id: "next_id (nth_id start j c) c = nth_id start (Suc j) c"
  by (simp add: next_id_def nth_id_def mod_add_left_eq add.assoc add.commute [of "live_interval c"])

lemma nth_id_inj:
  assumes "cache_ok lib c" "nth_id start a c = nth_id start b c" "a \<le> b" "b < 2 ^ 16"
  shows "a = b"
proof (rule ccontr)
  assume "a \<noteq> b"
  with assms(3) have ab: "a < b" by simp
  have iv: "0 < live_interval c" "live_interval c < 2 ^ 16" using assms(1) by (simp_all add: cache_ok_def)
  have le: "start + a * live_interval c \<le> start + b * live_interval c" using ab by simp
  have "2 ^ 32 dvd (start + b * live_interval c) - (start + a * live_interval c)"
    using assms(2) mod_eq_dvd_iff_nat [OF le] unfolding nth_id_def by metis
  then have "2 ^ 32 dvd (b - a) * live_interval c" by (simp add: diff_mult_distrib)
  moreover have "0 < (b - a) * live_interval c" using ab iv by simp
  ultimately have "2 ^ 32 \<le> (b - a) * live_interval c" by (rule dvd_imp_le)
  moreover have "(b - a) * live_interval c < 2 ^ 16 * 2 ^ 16"
    using assms(4) iv by (intro mult_strict_mono) auto
  ultimately show False by simp
qed

lemma some_block_missing:
  assumes "cache_ok lib c" "length (block_nodes c) < 2 ^ 16"
  shows "\<exists>k \<le> length (block_nodes c). \<not> HasCompleteBlock (nth_id start k c) c"
proof (rule ccontr)
  let ?n = "length (block_nodes c)"
  assume "\<not> ?thesis"
  then have all: "HasCompleteBlock (nth_id start k c) c" if "k \<le> ?n" for k using that by blast
  have "(\<lambda>k. nth_id start k c) ` {..?n} \<subseteq> fst ` set (block_nodes c)"
  proof
    fix x assume "x \<in> (\<lambda>k. nth_id start k c) ` {..?n}"
    then obtain k where "k \<le> ?n" "x = nth_id start k c" by auto
    with all [of k] have "node x c \<noteq> None" by (auto simp: HasCompleteBlock_def split: option.splits)
    then show "x \<in> fst ` set (block_nodes c)" by (simp add: node_def map_of_eq_None_iff)
  qed
  then have "card ((\<lambda>k. nth_id start k c) ` {..?n}) \<le> card (fst ` set (block_nodes c))" by (rule card_mono [rotated]) simp
  also have "\<dots> \<le> ?n" by (metis card_length length_map set_map)
  finally have "card ((\<lambda>k. nth_id start k c) ` {..?n}) \<le> ?n" .
  moreover have "inj_on (\<lambda>k. nth_id start k c) {..?n}"
  proof (rule inj_onI)
    fix a b assume a: "a \<in> {..?n}" "b \<in> {..?n}" and eq: "nth_id start a c = nth_id start b c"
    then have "a < 2 ^ 16" "b < 2 ^ 16" using assms(2) by auto
    then show "a = b"
      using nth_id_inj [OF assms(1) eq] nth_id_inj [OF assms(1) eq [symmetric]] nat_le_linear [of a b] by metis
  qed
  ultimately show False by (simp add: card_image)
qed

lemma search_complete:
  assumes "\<forall>j < k. HasCompleteBlock (nth_id start j c) c"
  shows "cache_GetNextMissingSubPiece c (nth_id start 0 c) = cache_GetNextMissingSubPiece c (nth_id start k c)"
  using assms
proof (induction k)
  case (Suc k)
  then obtain b where "node (nth_id start k c) c = Some b" "IsComplete b"
    by (auto simp: HasCompleteBlock_def split: option.splits)
  then have "cache_GetNextMissingSubPiece c (nth_id start k c) = cache_GetNextMissingSubPiece c (nth_id start (Suc k) c)"
    by (subst cache_GetNextMissingSubPiece.simps) (simp add: next_nth_id)
  with Suc show ?case by simp
qed simp

lemma search_stop:
  assumes "cache_ok lib c" "\<not> HasCompleteBlock k c"
  shows "\<exists>s. cache_GetNextMissingSubPiece c k = Some (Inr (k, s)) \<and> \<not> cache_HasSubPiece k s c
    \<and> (\<forall>i < s. cache_HasSubPiece k i c)"
proof (cases "node k c")
  case None
  then show ?thesis by (subst cache_GetNextMissingSubPiece.simps) (simp add: cache_HasSubPiece_def)
next
  case (Some b)
  let ?s = "length (takeWhile (\<lambda>x. x \<noteq> None) (sub_pieces b))"
  have b: "lib_ok lib" "block_ok lib b" "\<not> IsComplete b" using assms Some by (auto simp: cache_ok_def HasCompleteBlock_def)
  have "cache_GetNextMissingSubPiece c k = Some (Inr (k, ?s))"
    using Some b(3) GetNextMissing_eq [OF b] by (subst cache_GetNextMissingSubPiece.simps) simp
  moreover have "\<not> HasSubPiece ?s b" using nth_length_takeWhile [of "\<lambda>x. x \<noteq> None" "sub_pieces b"] by (auto simp: HasSubPiece_def)
  moreover have "HasSubPiece i b" if "i < ?s" for i
  proof -
    have "i < length (sub_pieces b)" using that length_takeWhile_le order_less_le_trans by blast
    moreover have "takeWhile (\<lambda>x. x \<noteq> None) (sub_pieces b) ! i \<noteq> None"
      using nth_mem [OF that] set_takeWhileD [of _ "\<lambda>x. x \<noteq> None"] by metis
    then have "sub_pieces b ! i \<noteq> None" using takeWhile_nth [OF that] by simp
    ultimately show ?thesis by (simp add: HasSubPiece_def)
  qed
  ultimately show ?thesis using Some by (auto simp: cache_HasSubPiece_def)
qed

section \<open>Property\<close>

text \<open>The search for what to download next returns: from a start block on, it passes the complete blocks in
  steps of the interval and stops at the first that is not complete, naming its first missing subpiece (the
  header of a block that does not exist yet).  The ids may wrap around; the cache has less than \<open>2^16\<close> blocks,
  the range of its size.\<close>

theorem next_missing_subpiece_found:
  assumes "cache_ok lib c" "length (block_nodes c) < 2 ^ 16" "start < 2 ^ 32"
  shows "\<exists>k s. cache_GetNextMissingSubPiece c start = Some (Inr (nth_id start k c, s))
    \<and> (\<forall>j < k. HasCompleteBlock (nth_id start j c) c) \<and> \<not> HasCompleteBlock (nth_id start k c) c
    \<and> \<not> cache_HasSubPiece (nth_id start k c) s c \<and> (\<forall>i < s. cache_HasSubPiece (nth_id start k c) i c)"
proof -
  define k where "k = (LEAST k. \<not> HasCompleteBlock (nth_id start k c) c)"
  have k: "\<not> HasCompleteBlock (nth_id start k c) c"
  proof -
    obtain n where "\<not> HasCompleteBlock (nth_id start n c) c" using some_block_missing [OF assms(1,2)] by blast
    then show ?thesis unfolding k_def by (rule LeastI)
  qed
  have "HasCompleteBlock (nth_id start j c) c" if "j < k" for j
    using not_less_Least [OF that [unfolded k_def]] by simp
  moreover from this have "cache_GetNextMissingSubPiece c start = cache_GetNextMissingSubPiece c (nth_id start k c)"
    using search_complete [of k start c] assms(3) by (simp add: nth_id_def)
  ultimately show ?thesis using search_stop [OF assms(1) k] k by auto
qed

definition sample_cache :: live_cache where
  "sample_cache = \<lparr>block_nodes = [(5, sample_b2)], live_interval = 5, cache_rid = sample_rid, block_checksum_failed_times = []\<rparr>"

lemma sample_cache_ok: "cache_ok sample_lib sample_cache"
  using live_block_reachable_ok [OF sample_add_data(2) sample_lib_ok] sample_lib_ok
  by (auto simp: cache_ok_def sample_cache_def node_def sample_rid_def sample_b2_def sample_b1_def split: if_splits)

theorem next_missing_subpiece_found_witness:
  "HasCompleteBlock 5 sample_cache \<and> cache_GetNextMissingSubPiece sample_cache 5 = Some (Inr (10, 0))"
proof -
  obtain k s where k: "cache_GetNextMissingSubPiece sample_cache 5 = Some (Inr (nth_id 5 k sample_cache, s))"
      "\<forall>j < k. HasCompleteBlock (nth_id 5 j sample_cache) sample_cache"
      "\<not> HasCompleteBlock (nth_id 5 k sample_cache) sample_cache"
      "\<forall>i < s. cache_HasSubPiece (nth_id 5 k sample_cache) i sample_cache"
    using next_missing_subpiece_found [OF sample_cache_ok, of 5] by (auto simp: sample_cache_def)
  have h: "HasCompleteBlock x sample_cache \<longleftrightarrow> x = 5" for x
    using sample_add_data(3) by (simp add: HasCompleteBlock_def sample_cache_def node_def)
  have n: "nth_id 5 0 sample_cache = 5" "nth_id 5 1 sample_cache = 10" by (simp_all add: nth_id_def sample_cache_def)
  have "k = 1"
  proof (rule ccontr)
    assume "k \<noteq> 1"
    moreover have "k \<noteq> 0" using k(3) h n by (cases k) auto
    ultimately have "HasCompleteBlock (nth_id 5 1 sample_cache) sample_cache" using k(2) by simp
    with h n show False by simp
  qed
  moreover have "s = 0"
  proof (rule ccontr)
    assume "s \<noteq> 0"
    with k(4) n \<open>k = 1\<close> show False by (auto simp: cache_HasSubPiece_def sample_cache_def node_def)
  qed
  ultimately show ?thesis using k(1) n h by simp
qed

end
