(* ===== verification/LiveAnnounce.thy ===== *)
theory LiveAnnounce
  imports LiveCache
begin

text \<open>
  \<^verbatim>\<open>storage::LiveAnnouceMapBuilder\<close> (\<^verbatim>\<open>storage/LiveAnnounceMapBuilder.h/.cpp\<close>): the message in which a
  peer of a live channel tells another which pieces it can upload.

  \<^item> \<open>announce\<close> has the members of \<^verbatim>\<open>protocol::LiveAnnounceMap\<close> that the builder writes and the two
    counters of the builder itself.
  \<^item> The cache is threaded through, since its queries write; \<open>cache_query_pure\<close> shows that they do
    not change it.
\<close>

section \<open>The builder\<close>

record announce =
  request_block_id :: nat
  block_info_count :: nat
  announce_interval :: nat
  subpiece_nos :: "(nat \<times> nat) list"
  subpiece_map :: "(nat \<times> bool list) list"
  accumulated_packet_size :: nat
  additional_bits :: nat

definition ResetState :: "live_cache \<Rightarrow> announce \<Rightarrow> announce" where
  "ResetState c a =
     a\<lparr>block_info_count := 0, announce_interval := live_interval c, subpiece_map := [], subpiece_nos := [],
       additional_bits := 0, accumulated_packet_size := 4 + 2 + 4 + 2 + 2\<rparr>"

definition MaximumPacketSizeAllowed :: "protocol_lib \<Rightarrow> announce \<Rightarrow> nat" where
  "MaximumPacketSizeAllowed lib a =
     (if additional_bits a > 0 then LIVE_SUB_PIECE_SIZE lib - 1 else LIVE_SUB_PIECE_SIZE lib)"

text \<open>\<^verbatim>\<open>std::map::insert\<close> keeps an existing entry.\<close>

definition map_insert :: "nat \<Rightarrow> 'v \<Rightarrow> (nat \<times> 'v) list \<Rightarrow> (nat \<times> 'v) list" where
  "map_insert k v m = (if map_of m k = None then put_sorted k v m else m)"

fun piece_bits :: "protocol_lib \<Rightarrow> nat \<Rightarrow> nat list \<Rightarrow> live_cache \<Rightarrow> (bool list \<times> live_cache) result" where
  "piece_bits lib k [] c = Inr ([], c)"
| "piece_bits lib k (p # ps) c =
     and_then (cache_IsPieceComplete k p c) (\<lambda>complete.
       and_then (if complete then cache_IsPieceValid lib k p c else Inr (False, c)) (\<lambda>(eligible_for_upload, c1).
         and_then (piece_bits lib k ps c1) (\<lambda>(bits, c2). Inr (eligible_for_upload # bits, c2))))"

definition TryAddBlockToAnnounceMap ::
    "protocol_lib \<Rightarrow> nat \<Rightarrow> live_cache \<Rightarrow> announce \<Rightarrow> (bool \<times> live_cache \<times> announce) result" where
  "TryAddBlockToAnnounceMap lib k c a =
     (let (valid, c1) = IsBlockHeaderValid lib k c;
          sps = LIVE_SUB_PIECE_SIZE lib;
          subpieces_count = ((cache_GetBlockSizeInBytes lib k c1 + sps - 1) div sps) mod 2 ^ 16;
          check = SUBPIECE_COUNT_IN_ONE_CHECK lib;
          num_of_pieces = (subpieces_count - 1 + check - 1) div check
      in if \<not> valid \<or> subpieces_count < 1 \<or> \<not> cache_HasSubPiece k 0 c1 then Inl AssertionFailed
         else
           and_then (piece_bits lib k [0..<num_of_pieces] c1) (\<lambda>(bits, c2).
             let new_packet_size = accumulated_packet_size a + 2 + (subpieces_count + additional_bits a) div 8;
                 a1 = a\<lparr>additional_bits := (subpieces_count + additional_bits a) mod 8\<rparr>
             in if new_packet_size > MaximumPacketSizeAllowed lib a1 then Inr (False, c2, a1)
                else
                  Inr (True, c2,
                    a1\<lparr>accumulated_packet_size := new_packet_size, block_info_count := block_info_count a + 1,
                       subpiece_nos := map_insert k subpieces_count (subpiece_nos a),
                       subpiece_map := map_insert k (True # bits) (subpiece_map a)\<rparr>)))"

partial_function (option) build_loop ::
    "protocol_lib \<Rightarrow> nat \<Rightarrow> nat \<Rightarrow> live_cache \<Rightarrow> announce \<Rightarrow> (live_cache \<times> announce) result option" where
  "build_loop lib last_id k c a =
     (if k \<le> last_id
      then
        (case IsBlockHeaderValid lib k c of (valid, c1) \<Rightarrow>
           if valid
           then
             (case TryAddBlockToAnnounceMap lib k c1 a of
                Inl e \<Rightarrow> Some (Inl e)
              | Inr r \<Rightarrow>
                  (case r of (ok, c2, a2) \<Rightarrow>
                     if \<not> ok then Some (Inr (c2, a2)) else build_loop lib last_id (next_id k c2) c2 a2))
           else if block_info_count a > 0 then Some (Inr (c1, a))
           else build_loop lib last_id (next_id k c1) c1 a)
      else Some (Inr (c, a)))"

declare build_loop.simps [code]

definition build_checks :: "protocol_lib \<Rightarrow> live_cache \<times> announce \<Rightarrow> (live_cache \<times> announce) result" where
  "build_checks lib = (\<lambda>(c, a).
     if accumulated_packet_size a \<le> MaximumPacketSizeAllowed lib a \<and>
        block_info_count a = length (subpiece_nos a) \<and> block_info_count a = length (subpiece_map a)
     then Inr (c, a) else Inl AssertionFailed)"

definition Build :: "protocol_lib \<Rightarrow> nat \<Rightarrow> live_cache \<Rightarrow> announce \<Rightarrow> (live_cache \<times> announce) result option" where
  "Build lib request c a =
     (let a1 = ResetState c a
      in if cache_IsEmpty c then Some (Inr (c, a1))
         else
           let a2 = a1\<lparr>request_block_id := request\<rparr>;
               first = GetCacheFirstBlockId c;
               last_id = GetCacheLastBlockId c
           in if request > last_id then Some (Inr (c, a2))
              else
                map_option (\<lambda>r. and_then r (build_checks lib))
                  (build_loop lib last_id (if request < first then first else request) c a2))"

section \<open>One block\<close>

definition count_of :: "live_cache \<Rightarrow> nat \<Rightarrow> nat" where
  "count_of c k = cache_GetSubPiecesCount k c"

definition bits_of :: "live_cache \<Rightarrow> nat \<Rightarrow> bool list" where
  "bits_of c k = True # map (\<lambda>p. piece_ready k p c) [0..<(count_of c k + 14) div 16]"

lemma piece_bits_eq:
  assumes "cache_ok lib c" "has_header k c" "\<forall>p \<in> set ps. p < 338"
  shows "piece_bits lib k ps c = Inr (map (\<lambda>p. piece_ready k p c) ps, c)"
  using assms(3)
proof (induction ps)
  case (Cons p ps)
  then have p: "p < 338" by simp
  with Cons cache_query_pure(2,3) [OF assms(1) p] assms(2) show ?case by (cases "piece_ready k p c") simp_all
qed simp

lemma headed_node:
  assumes "cache_ok lib c" "has_header k c"
  obtains b h where "node k c = Some b" "header b = Some h" "headed lib {} h b" "2 \<le> count_of c k" "count_of c k \<le> 5409"
    "count_of c k = length (sub_pieces b)" "cache_GetBlockSizeInBytes lib k c = data_length h + 1400"
    "count_of c k = 1 + (data_length h + 1399) div 1400"
proof -
  obtain b h where n: "node k c = Some b" "header b = Some h" using assms(2) by (auto simp: has_header_def split: option.splits)
  have lib: "lib_ok lib" "block_ok lib b" using assms(1) n(1) by (auto simp: cache_ok_def)
  then have hd: "headed lib {} h b" using block_ok_headed n(2) by blast
  have "count_of c k = length (sub_pieces b)" using n by (simp add: count_of_def cache_GetSubPiecesCount_def GetSubPiecesCount_def)
  moreover have "cache_GetBlockSizeInBytes lib k c = data_length h + 1400"
    using n lib(1) by (simp add: cache_GetBlockSizeInBytes_def GetBlockSizeInBytes_def lib_ok_def)
  moreover have "length (sub_pieces b) = 1 + (data_length h + 1399) div 1400"
    using hd real_count_bounds(3) [OF lib(1)] by (simp add: headed_def header_matches_def)
  ultimately show ?thesis using that [OF n hd] headed_bounds(1,2) [OF lib(1) hd] by simp
qed

lemma TryAdd_eq:
  fixes a :: announce
  assumes "cache_ok lib c" "has_header k c"
  defines "n \<equiv> accumulated_packet_size a + 2 + (count_of c k + additional_bits a) div 8"
    and "r \<equiv> (count_of c k + additional_bits a) mod 8"
  shows "TryAddBlockToAnnounceMap lib k c a =
    Inr (if n > (if r > 0 then 1399 else 1400) then (False, c, a\<lparr>additional_bits := r\<rparr>)
         else (True, c, a\<lparr>additional_bits := r, accumulated_packet_size := n, block_info_count := block_info_count a + 1,
                 subpiece_nos := map_insert k (count_of c k) (subpiece_nos a),
                 subpiece_map := map_insert k (bits_of c k) (subpiece_map a)\<rparr>))"
proof -
  obtain b h where b: "node k c = Some b" "headed lib {} h b" "2 \<le> count_of c k" "count_of c k \<le> 5409"
      "cache_GetBlockSizeInBytes lib k c = data_length h + 1400" "count_of c k = 1 + (data_length h + 1399) div 1400"
    using headed_node [OF assms(1,2)] by metis
  have lib: "LIVE_SUB_PIECE_SIZE lib = 1400" "SUBPIECE_COUNT_IN_ONE_CHECK lib = 16"
    using assms(1) by (simp_all add: cache_ok_def lib_ok_def)
  have "(data_length h + 1400 + 1400 - 1) div 1400 = count_of c k" using b(6) by simp
  then have cnt: "((cache_GetBlockSizeInBytes lib k c + 1400 - 1) div 1400) mod 2 ^ 16 = count_of c k"
    using b(4,5) by simp
  have "(count_of c k - 1 + 16 - 1) div 16 = (count_of c k + 14) div 16" using b(3) by simp
  moreover have "(count_of c k + 14) div 16 \<le> 338" using b(4) by linarith
  then have "piece_bits lib k [0..<(count_of c k + 14) div 16] c =
      Inr (map (\<lambda>p. piece_ready k p c) [0..<(count_of c k + 14) div 16], c)"
    by (intro piece_bits_eq [OF assms(1,2)]) auto
  moreover have "cache_HasSubPiece k 0 c"
    using b(1,2,3) headed_bounds(1) [OF _ b(2)] assms(1) by (auto simp: cache_HasSubPiece_def HasSubPiece_def headed_def cache_ok_def)
  ultimately show ?thesis
    using cache_query_pure(1) [OF assms(1), of k] assms(2) b(3) cnt lib unfolding n_def r_def
    by (simp add: TryAddBlockToAnnounceMap_def MaximumPacketSizeAllowed_def bits_of_def Let_def)
qed

section \<open>The loop\<close>

definition subpieces_of :: "live_cache \<Rightarrow> nat list \<Rightarrow> nat" where
  "subpieces_of c ks = sum_list (map (count_of c) ks)"

text \<open>The message after the blocks \<open>ks\<close> have been added, the counter of odd bits aside.\<close>

definition holds_blocks :: "live_cache \<Rightarrow> nat list \<Rightarrow> announce \<Rightarrow> bool" where
  "holds_blocks c ks a =
     (block_info_count a = length ks \<and> subpiece_nos a = map (\<lambda>k. (k, count_of c k)) ks \<and>
      subpiece_map a = map (\<lambda>k. (k, bits_of c k)) ks \<and>
      accumulated_packet_size a = 14 + 2 * length ks + subpieces_of c ks div 8 \<and>
      14 + 2 * length ks + (subpieces_of c ks + 7) div 8 \<le> 1400)"

definition building :: "live_cache \<Rightarrow> nat list \<Rightarrow> announce \<Rightarrow> bool" where
  "building c ks a = (holds_blocks c ks a \<and> additional_bits a = subpieces_of c ks mod 8)"

definition fits :: "live_cache \<Rightarrow> nat list \<Rightarrow> bool" where
  "fits c ks = (14 + 2 * length ks + (subpieces_of c ks + 7) div 8 \<le> 1400)"

lemma put_sorted_last: "\<forall>e \<in> set m. fst e < k \<Longrightarrow> put_sorted k v m = m @ [(k, v)]"
  by (induction m) auto

lemma map_insert_last: "\<forall>e \<in> set m. fst e < k \<Longrightarrow> map_insert k v m = m @ [(k, v)]"
proof -
  assume a: "\<forall>e \<in> set m. fst e < k"
  then have "map_of m k = None" by (auto simp: map_of_eq_None_iff)
  with a show ?thesis by (simp add: map_insert_def put_sorted_last)
qed

lemma size_step:
  fixes n s m :: nat
  shows "14 + 2 * n + s div 8 + 2 + (m + s mod 8) div 8 = 14 + 2 * Suc n + (s + m) div 8"
    and "(m + s mod 8) mod 8 = (s + m) mod 8"
    and "((if s mod 8 > 0 then 1399 else 1400) < 14 + 2 * n + s div 8) \<longleftrightarrow> \<not> 14 + 2 * n + (s + 7) div 8 \<le> 1400"
proof -
  have "(m + s mod 8 + s div 8 * 8) div 8 = s div 8 + (m + s mod 8) div 8" by (rule div_mult_self1) simp
  moreover have "m + s mod 8 + s div 8 * 8 = s + m" using div_mult_mod_eq [of s 8] by linarith
  ultimately show "14 + 2 * n + s div 8 + 2 + (m + s mod 8) div 8 = 14 + 2 * Suc n + (s + m) div 8" by simp
  show "(m + s mod 8) mod 8 = (s + m) mod 8" by (simp add: mod_add_right_eq add.commute)
  have "(s + 7) div 8 = s div 8 + (if s mod 8 > 0 then 1 else 0)" by presburger
  then show "((if s mod 8 > 0 then 1399 else 1400) < 14 + 2 * n + s div 8) \<longleftrightarrow> \<not> 14 + 2 * n + (s + 7) div 8 \<le> 1400"
    by (simp add: not_le)
qed

lemma add_block:
  assumes "cache_ok lib c" "has_header k c" "building c ks a" "\<forall>j \<in> set ks. j < k"
  shows "\<exists>a'. TryAddBlockToAnnounceMap lib k c a = Inr (fits c (ks @ [k]), c, a')
    \<and> request_block_id a' = request_block_id a
    \<and> (if fits c (ks @ [k]) then building c (ks @ [k]) a'
       else holds_blocks c ks a' \<and> additional_bits a' = subpieces_of c (ks @ [k]) mod 8)"
proof -
  let ?s = "subpieces_of c ks" and ?m = "count_of c k" and ?n = "length ks"
  have a: "accumulated_packet_size a = 14 + 2 * ?n + ?s div 8" "additional_bits a = ?s mod 8"
    using assms(3) by (simp_all add: building_def holds_blocks_def)
  have s: "subpieces_of c (ks @ [k]) = ?s + ?m" by (simp add: subpieces_of_def)
  have f: "14 + 2 * Suc ?n + (?s + ?m + 7) div 8 \<le> 1400 \<longleftrightarrow> fits c (ks @ [k])" by (simp add: fits_def s)
  note eq = TryAdd_eq [OF assms(1,2), of a, unfolded a size_step(1,2), unfolded size_step(3), unfolded f]
  show ?thesis
  proof (cases "fits c (ks @ [k])")
    case True
    then have "14 + 2 * Suc ?n + (?s + ?m + 7) div 8 \<le> 1400" by (simp only: f)
    with True eq assms(3,4) s show ?thesis
      by (simp add: building_def holds_blocks_def map_insert_last)
  next
    case False
    with eq assms(3) s show ?thesis by (simp add: building_def holds_blocks_def)
  qed
qed

text \<open>A run of \<open>n\<close> blocks from \<open>k\<close> on, in steps of the interval.\<close>

definition blocks_from :: "live_cache \<Rightarrow> nat \<Rightarrow> nat \<Rightarrow> nat list" where
  "blocks_from c k n = map (\<lambda>j. k + j * live_interval c) [0..<n]"

lemma blocks_from_Suc: "blocks_from c k (Suc n) = blocks_from c k n @ [k + n * live_interval c]"
  by (simp add: blocks_from_def)

lemma blocks_from_less: "0 < live_interval c \<Longrightarrow> j \<in> set (blocks_from c k n) \<Longrightarrow> j < k + n * live_interval c"
  by (auto simp: blocks_from_def)

text \<open>
  How the loop ends: with the \<open>n\<close> blocks from \<open>k\<close> on in the message, which all have headers; the next one is
  beyond the last block, has no header, or does not fit.
\<close>

definition loop_end :: "live_cache \<Rightarrow> nat \<Rightarrow> nat \<Rightarrow> nat \<Rightarrow> announce \<Rightarrow> bool" where
  "loop_end c last_id k n a =
     ((\<forall>j \<in> set (blocks_from c k n). has_header j c \<and> j \<le> last_id) \<and>
      (let ks = blocks_from c k n; next = k + n * live_interval c
       in (building c ks a \<and> (next > last_id \<or> \<not> has_header next c)) \<or>
          (has_header next c \<and> next \<le> last_id \<and> holds_blocks c ks a \<and> \<not> fits c (ks @ [next]) \<and>
           additional_bits a = subpieces_of c (ks @ [next]) mod 8)))"

lemma build_loop_step:
  assumes "cache_ok lib c" "last_id + live_interval c < 2 ^ 32" "k \<le> last_id"
  shows "build_loop lib last_id k c a =
    (if has_header k c
     then (case TryAddBlockToAnnounceMap lib k c a of
             Inl e \<Rightarrow> Some (Inl e)
           | Inr (ok, c2, a2) \<Rightarrow>
               if \<not> ok then Some (Inr (c2, a2)) else build_loop lib last_id (next_id k c2) c2 a2)
     else if block_info_count a > 0 then Some (Inr (c, a)) else build_loop lib last_id (k + live_interval c) c a)"
proof -
  have "next_id k c = k + live_interval c" using assms(2,3) by (simp add: next_id_def)
  with cache_query_pure(1) [OF assms(1)] assms(3) show ?thesis
    by (subst build_loop.simps) (simp split: prod.split)
qed

lemma build_run:
  assumes "cache_ok lib c" "last_id + live_interval c < 2 ^ 32"
    and "building c (blocks_from c k n) a" "0 < n \<or> has_header k c"
    and "\<forall>j \<in> set (blocks_from c k n). has_header j c \<and> j \<le> last_id"
  shows "\<exists>n' a'. build_loop lib last_id (k + n * live_interval c) c a = Some (Inr (c, a'))
    \<and> loop_end c last_id k n' a' \<and> request_block_id a' = request_block_id a"
  using assms(3-)
proof (induction "Suc last_id - (k + n * live_interval c)" arbitrary: n a rule: less_induct)
  case less
  let ?k = "k + n * live_interval c" and ?ks = "blocks_from c k n"
  have iv: "0 < live_interval c" using assms(1) by (simp add: cache_ok_def)
  consider "?k > last_id" | "?k \<le> last_id" "\<not> has_header ?k c" | "?k \<le> last_id" "has_header ?k c" by linarith
  then show ?case
  proof cases
    case 1
    then have "build_loop lib last_id ?k c a = Some (Inr (c, a))" by (subst build_loop.simps) simp
    moreover have "loop_end c last_id k n a" using 1 less.prems by (simp add: loop_end_def)
    ultimately show ?thesis by blast
  next
    case 2
    then have "0 < n" using less.prems(2) by (cases n) auto
    then have "block_info_count a > 0" using less.prems(1) by (simp add: building_def holds_blocks_def blocks_from_def)
    then have "build_loop lib last_id ?k c a = Some (Inr (c, a))"
      using 2 by (simp add: build_loop_step [OF assms(1,2) 2(1)])
    moreover have "loop_end c last_id k n a" using 2 less.prems by (simp add: loop_end_def)
    ultimately show ?thesis by blast
  next
    case 3
    obtain a' where a': "TryAddBlockToAnnounceMap lib ?k c a = Inr (fits c (?ks @ [?k]), c, a')"
        "request_block_id a' = request_block_id a"
        "if fits c (?ks @ [?k]) then building c (?ks @ [?k]) a'
         else holds_blocks c ?ks a' \<and> additional_bits a' = subpieces_of c (?ks @ [?k]) mod 8"
      using add_block [OF assms(1) 3(2) less.prems(1)] blocks_from_less [OF iv] by blast
    have nxt: "next_id ?k c = k + Suc n * live_interval c"
      using 3(1) assms(2) by (simp add: next_id_def algebra_simps)
    show ?thesis
    proof (cases "fits c (?ks @ [?k])")
      case True
      have "\<exists>n' b. build_loop lib last_id (k + Suc n * live_interval c) c a' = Some (Inr (c, b))
          \<and> loop_end c last_id k n' b \<and> request_block_id b = request_block_id a'"
      proof (rule less.hyps)
        show "Suc last_id - (k + Suc n * live_interval c) < Suc last_id - ?k" using 3(1) iv by simp
        show "building c (blocks_from c k (Suc n)) a'" using a'(3) True by (simp add: blocks_from_Suc)
        show "\<forall>j \<in> set (blocks_from c k (Suc n)). has_header j c \<and> j \<le> last_id"
          using less.prems(3) 3 by (auto simp: blocks_from_Suc)
      qed simp
      with a' True 3 nxt show ?thesis by (auto simp: build_loop_step [OF assms(1,2) 3(1)])
    next
      case False
      have "loop_end c last_id k n a'" using a'(3) False 3 less.prems(3) by (simp add: loop_end_def)
      with a' False 3 show ?thesis by (auto simp: build_loop_step [OF assms(1,2) 3(1)])
    qed
  qed
qed

lemma build_from:
  assumes "cache_ok lib c" "last_id + live_interval c < 2 ^ 32" "building c [] a"
  shows "\<exists>m n a'. build_loop lib last_id k c a = Some (Inr (c, a')) \<and> (\<forall>j < m. \<not> has_header (k + j * live_interval c) c)
    \<and> loop_end c last_id (k + m * live_interval c) n a' \<and> request_block_id a' = request_block_id a"
proof (induction "Suc last_id - k" arbitrary: k rule: less_induct)
  case less
  have iv: "0 < live_interval c" using assms(1) by (simp add: cache_ok_def)
  have none: "blocks_from c x 0 = []" for x by (simp add: blocks_from_def)
  consider "k > last_id" | "k \<le> last_id" "\<not> has_header k c" | "k \<le> last_id" "has_header k c" by linarith
  then show ?case
  proof cases
    case 1
    then have "build_loop lib last_id k c a = Some (Inr (c, a))" by (subst build_loop.simps) simp
    moreover have "loop_end c last_id (k + 0 * live_interval c) 0 a" using 1 assms(3) by (simp add: loop_end_def none)
    ultimately show ?thesis by (intro exI [of _ 0]) auto
  next
    case 2
    have "block_info_count a = 0" using assms(3) by (simp add: building_def holds_blocks_def)
    then have eq: "build_loop lib last_id k c a = build_loop lib last_id (k + live_interval c) c a"
      using 2 by (simp add: build_loop_step [OF assms(1,2) 2(1)])
    have "Suc last_id - (k + live_interval c) < Suc last_id - k" using 2(1) iv by simp
    from less [OF this] obtain m n a' where m: "build_loop lib last_id (k + live_interval c) c a = Some (Inr (c, a'))"
        "\<forall>j < m. \<not> has_header (k + live_interval c + j * live_interval c) c"
        "loop_end c last_id (k + live_interval c + m * live_interval c) n a'" "request_block_id a' = request_block_id a"
      by blast
    have "\<not> has_header (k + j * live_interval c) c" if "j < Suc m" for j
      using that 2(2) m(2) by (cases j) (auto simp: algebra_simps)
    with eq m show ?thesis by (intro exI [of _ "Suc m"] exI [of _ n] exI [of _ a']) (simp add: algebra_simps)
  next
    case 3
    have "\<exists>n' a'. build_loop lib last_id (k + 0 * live_interval c) c a = Some (Inr (c, a'))
      \<and> loop_end c last_id k n' a' \<and> request_block_id a' = request_block_id a"
      by (rule build_run [OF assms(1,2)]) (use assms(3) 3 none in auto)
    then obtain n' a' where "build_loop lib last_id k c a = Some (Inr (c, a'))" "loop_end c last_id k n' a'"
      "request_block_id a' = request_block_id a" by auto
    then show ?thesis by (intro exI [of _ 0] exI [of _ n'] exI [of _ a']) simp
  qed
qed

section \<open>Properties\<close>

lemma holds_size: "holds_blocks c ks a \<Longrightarrow> accumulated_packet_size a \<le> 1400"
  using div_le_mono [of "subpieces_of c ks" "subpieces_of c ks + 7" 8] by (simp add: holds_blocks_def)

lemma reset_building: "building c [] ((ResetState c a)\<lparr>request_block_id := r\<rparr>)"
  by (simp add: building_def holds_blocks_def ResetState_def subpieces_of_def)

lemma Build_result:
  assumes "cache_ok lib c" "\<not> cache_IsEmpty c" "request \<le> GetCacheLastBlockId c"
    and "GetCacheLastBlockId c + live_interval c < 2 ^ 32"
  shows "\<exists>m n a'. (\<forall>j < m. \<not> has_header (max request (GetCacheFirstBlockId c) + j * live_interval c) c)
    \<and> loop_end c (GetCacheLastBlockId c) (max request (GetCacheFirstBlockId c) + m * live_interval c) n a'
    \<and> Build lib request c a =
        Some (if accumulated_packet_size a' = 1400 \<and> additional_bits a' > 0 then Inl AssertionFailed else Inr (c, a'))
    \<and> request_block_id a' = request"
proof -
  let ?a = "(ResetState c a)\<lparr>request_block_id := request\<rparr>"
  have st: "(if request < GetCacheFirstBlockId c then GetCacheFirstBlockId c else request) = max request (GetCacheFirstBlockId c)"
    by simp
  obtain m n a' where r: "build_loop lib (GetCacheLastBlockId c) (max request (GetCacheFirstBlockId c)) c ?a = Some (Inr (c, a'))"
      "\<forall>j < m. \<not> has_header (max request (GetCacheFirstBlockId c) + j * live_interval c) c"
      "loop_end c (GetCacheLastBlockId c) (max request (GetCacheFirstBlockId c) + m * live_interval c) n a'"
      "request_block_id a' = request_block_id ?a"
    using build_from [OF assms(1,4) reset_building] by blast
  have "holds_blocks c (blocks_from c (max request (GetCacheFirstBlockId c) + m * live_interval c) n) a'"
    using r(3) by (auto simp: loop_end_def Let_def building_def)
  then have h: "accumulated_packet_size a' \<le> 1400" "block_info_count a' = length (subpiece_nos a')"
    "block_info_count a' = length (subpiece_map a')"
    using holds_size by (auto simp: holds_blocks_def)
  have "LIVE_SUB_PIECE_SIZE lib = 1400" using assms(1) by (simp add: cache_ok_def lib_ok_def)
  with h have "build_checks lib (c, a') =
      (if accumulated_packet_size a' = 1400 \<and> additional_bits a' > 0 then Inl AssertionFailed else Inr (c, a'))"
    by (auto simp: build_checks_def MaximumPacketSizeAllowed_def)
  then have "Build lib request c a =
      Some (if accumulated_packet_size a' = 1400 \<and> additional_bits a' > 0 then Inl AssertionFailed else Inr (c, a'))"
    using r(1) assms(2,3) st by (simp add: Build_def Let_def)
  moreover have "request_block_id a' = request" using r(4) by simp
  ultimately show ?thesis using r(2,3) by blast
qed


lemma sample_cache_header: "has_header k sample_cache \<longleftrightarrow> k = 5"
  by (simp add: has_header_def sample_cache_def node_def sample_b2_def sample_b1_def)

lemma sample_cache_count: "count_of sample_cache 5 = 2"
  by (simp add: count_of_def cache_GetSubPiecesCount_def GetSubPiecesCount_def sample_cache_def node_def sample_b2_def sample_b1_def)

lemma sample_cache_Build: "\<exists>a'. Build sample_lib 5 sample_cache a = Some (Inr (sample_cache, a')) \<and> subpiece_map a' \<noteq> [] \<and>
    subpiece_map a' = [(5, bits_of sample_cache 5)]"
proof -
  have c: "GetCacheLastBlockId sample_cache = 5" "GetCacheFirstBlockId sample_cache = 5" "live_interval sample_cache = 5"
    "\<not> cache_IsEmpty sample_cache"
    by (simp_all add: GetCacheLastBlockId_def GetCacheFirstBlockId_def sample_cache_def cache_IsEmpty_def)
  obtain m n a' where r: "\<forall>j < m. \<not> has_header (5 + j * 5) sample_cache" "loop_end sample_cache 5 (5 + m * 5) n a'"
      "Build sample_lib 5 sample_cache a =
        Some (if accumulated_packet_size a' = 1400 \<and> additional_bits a' > 0 then Inl AssertionFailed else Inr (sample_cache, a'))"
    using Build_result [OF sample_cache_ok c(4), of 5 a] c by auto
  have cnt: "count_of sample_cache 5 = 2"
    by (simp add: count_of_def cache_GetSubPiecesCount_def GetSubPiecesCount_def sample_cache_def node_def sample_b2_def sample_b1_def)
  have "m = 0" using r(1) sample_cache_header [of 5] by (cases m) auto
  have "n = 1"
  proof (cases n)
    case 0
    with r(2) \<open>m = 0\<close> cnt show ?thesis
      by (simp add: loop_end_def blocks_from_def sample_cache_header fits_def subpieces_of_def)
  next
    case (Suc n')
    with r(2) \<open>m = 0\<close> have "\<forall>j < n. 5 + j * 5 = (5::nat)"
      by (auto simp: loop_end_def blocks_from_def sample_cache_header c(3))
    with Suc show ?thesis by (cases n') auto
  qed
  with r(2) \<open>m = 0\<close> have "holds_blocks sample_cache [5] a'"
    by (auto simp: loop_end_def Let_def blocks_from_def building_def)
  with r(3) cnt show ?thesis by (simp add: holds_blocks_def subpieces_of_def)
qed

definition sample_announce :: announce where
  "sample_announce = \<lparr>request_block_id = 0, block_info_count = 0, announce_interval = 0, subpiece_nos = [], subpiece_map = [],
    accumulated_packet_size = 0, additional_bits = 0\<rparr>"


text \<open>Blocks of which only the header has arrived: three of 3680 subpieces and one of two.\<close>

definition head_block :: "nat \<Rightarrow> nat \<Rightarrow> live_block" where
  "head_block k n =
     \<lparr>sub_pieces = Some (sized_header k ((n - 1) * 1400) 0) # replicate (n - 1) None,
      header = Some (Load (sized_header k ((n - 1) * 1400) 0)), live_block_id = k, block_rid = sample_rid,
      block_header_validated = True, validated_pieces = {}, checksum_failed_times = 0\<rparr>"

definition full_cache :: live_cache where
  "full_cache = \<lparr>block_nodes = [(10, head_block 10 3680), (11, head_block 11 3680), (12, head_block 12 3680), (13, head_block 13 2)],
     live_interval = 1, cache_rid = sample_rid, block_checksum_failed_times = []\<rparr>"

lemma head_block_ok:
  assumes "k < 2 ^ 32" "2 \<le> n" "n \<le> 5409"
  shows "block_ok sample_lib (head_block k n)"
proof -
  let ?d = "(n - 1) * 1400"
  have d: "48 \<le> ?d" "?d \<le> 7571200" using assms by auto
  have "1 + (?d + 1399) div 1400 = n" using assms(2) by (simp add: algebra_simps)
  then have n: "real_subpieces_count sample_lib (Load (sized_header k ?d 0)) = n"
    using sized_header_ok(2) [OF assms(1) d, of 0] by simp
  have "\<not> piece_full p (head_block k n)" for p
    by (auto simp: piece_full_iff head_block_def intro!: exI [of _ "16 * p + 1"])
  moreover have "header_matches sample_lib (head_block k n) (Load (sized_header k ?d 0))"
    using sized_header_ok(1) [OF assms(1) d, of 0] sized_header_fields(3,6) [of k ?d 0] assms(1) d
    by (simp add: header_matches_def head_block_def sample_rid_def)
  ultimately have "headed sample_lib {} (Load (sized_header k ?d 0)) (head_block k n)"
    using n assms(2) by (auto simp: headed_def head_block_def)
  moreover have "short_subpieces (head_block k n)"
    using sized_header_fields(1) [of k ?d 0] assms(1) d
    by (auto simp: short_subpieces_def head_block_def SubPieceSizeInBytes_def nth_Cons' split: if_splits)
  ultimately show ?thesis by (simp add: block_ok_def head_block_def)
qed

lemma full_cache_node:
  "node k full_cache = (if k \<in> {10, 11, 12} then Some (head_block k 3680) else if k = 13 then Some (head_block 13 2) else None)"
  by (auto simp: node_def full_cache_def)

lemma full_cache_ok: "cache_ok sample_lib full_cache"
proof -
  have "live_block_id (head_block k n) = k" "block_rid (head_block k n) = sample_rid" for k n by (simp_all add: head_block_def)
  then show ?thesis using sample_lib_ok head_block_ok
    by (auto simp: cache_ok_def full_cache_node full_cache_def [THEN arg_cong, of live_interval]
      full_cache_def [THEN arg_cong, of cache_rid] full_cache_def [THEN arg_cong, of block_nodes] sample_rid_def [THEN arg_cong, of length]
      split: if_splits)
qed

lemma full_cache_counts:
  "has_header k full_cache \<longleftrightarrow> k \<in> {10, 11, 12, 13}"
  "count_of full_cache 10 = 3680" "count_of full_cache 11 = 3680" "count_of full_cache 12 = 3680" "count_of full_cache 13 = 2"
  by (auto simp: has_header_def full_cache_node count_of_def cache_GetSubPiecesCount_def GetSubPiecesCount_def head_block_def)

text \<open>The final assertion of \<^verbatim>\<open>Build\<close> can fail: a block that does not fit any more has already changed the count
  of odd bits when it is rejected, and with the message at exactly 1400 bytes (three blocks of 3680 subpieces) the
  limit of 1399 that follows from it is exceeded.\<close>

theorem announce_map_exactly_full_asserts:
  "cache_ok sample_lib full_cache \<and> Build sample_lib 10 full_cache sample_announce = Some (Inl AssertionFailed)"
proof -
  have c: "GetCacheLastBlockId full_cache = 13" "GetCacheFirstBlockId full_cache = 10" "live_interval full_cache = 1"
    "\<not> cache_IsEmpty full_cache"
    by (simp_all add: GetCacheLastBlockId_def GetCacheFirstBlockId_def full_cache_def cache_IsEmpty_def)
  obtain m n a' where r: "\<forall>j < m. \<not> has_header (10 + j) full_cache" "loop_end full_cache 13 (10 + m) n a'"
      "Build sample_lib 10 full_cache sample_announce =
        Some (if accumulated_packet_size a' = 1400 \<and> additional_bits a' > 0 then Inl AssertionFailed else Inr (full_cache, a'))"
    using Build_result [OF full_cache_ok c(4), of 10 sample_announce] c by auto
  have "m = 0" using r(1) full_cache_counts(1) [of 10] by (cases m) auto
  have e: "loop_end full_cache 13 10 n a'" using r(2) \<open>m = 0\<close> by simp
  have bl: "blocks_from full_cache 10 i = map (\<lambda>j. 10 + j) [0..<i]" for i by (simp add: blocks_from_def c(3))
  have bs: "blocks_from full_cache 10 0 = []" "blocks_from full_cache 10 1 = [10]" "blocks_from full_cache 10 2 = [10, 11]"
    "blocks_from full_cache 10 3 = [10, 11, 12]" "blocks_from full_cache 10 4 = [10, 11, 12, 13]"
    by (simp_all add: bl upt_rec)
  note eval = c(3) full_cache_counts fits_def subpieces_of_def
  have "\<forall>j < n. 10 + j \<le> (13::nat)" using e by (auto simp: loop_end_def bl)
  from this [rule_format, of 4] have "n \<le> 4" by (cases "4 < n") auto
  then consider "n = 0" | "n = 1" | "n = 2" | "n = 3" | "n = 4" by linarith
  then have "n = 3"
  proof cases
    case 1 with e bs(1) show ?thesis by (simp add: loop_end_def eval)
  next
    case 2 with e bs(2) show ?thesis by (simp add: loop_end_def eval)
  next
    case 3 with e bs(3) show ?thesis by (simp add: loop_end_def eval)
  next
    case 4 then show ?thesis .
  next
    case 5 with e bs(5) show ?thesis by (auto simp: loop_end_def building_def holds_blocks_def eval)
  qed
  then have "blocks_from full_cache 10 n = [10, 11, 12]" using bs(4) by simp
  with e \<open>n = 3\<close> have "accumulated_packet_size a' = 1400 \<and> additional_bits a' > 0"
    by (auto simp: loop_end_def Let_def c(3) full_cache_counts holds_blocks_def subpieces_of_def)
  with r(3) full_cache_ok show ?thesis by simp
qed

end
