(* ===== verification/LivePlay.thy ===== *)
theory LivePlay
  imports LiveAnnounce
begin

text \<open>
  \<^verbatim>\<open>storage::LiveInstance\<close> (\<^verbatim>\<open>storage/LiveInstance.h/.cpp\<close>) and \<^verbatim>\<open>storage::LivePosition\<close>: a live channel with its
  cache and the streams that play it; every subpiece that arrives, and a timer, push what can be
  played to the streams.

  \<^item> A stream has its start and its playing position and receives data by \<^verbatim>\<open>OnRecvLivePiece\<close>; \<open>received\<close>
    is the sequence of these calls (block id, buffers, progress in percent).  \<^verbatim>\<open>LiveStream::OnRecvLivePiece\<close>
    returns true.  That the driver may jump to another position when it is called is not modelled.
  \<^item> The set of streams is an association list, in the order of the pointers.
\<close>

section \<open>Streams and the instance\<close>

record play_stream =
  pos_block :: nat
  pos_index :: nat
  start_block :: nat
  received :: "(nat \<times> u8 list list \<times> nat) list"

definition SetBlockId :: "nat \<Rightarrow> play_stream \<Rightarrow> play_stream" where
  "SetBlockId k s = s\<lparr>pos_block := k, pos_index := 0\<rparr>"

definition AdvanceSubPieceIndexTo :: "nat \<Rightarrow> play_stream action" where
  "AdvanceSubPieceIndexTo i s = (if pos_index s < i then Inr (s\<lparr>pos_index := i\<rparr>) else Inl AssertionFailed)"

definition OnRecvLivePiece :: "nat \<Rightarrow> u8 list list \<Rightarrow> nat \<Rightarrow> play_stream \<Rightarrow> bool \<times> play_stream" where
  "OnRecvLivePiece k bufs percentage s = (True, s\<lparr>received := received s @ [(k, bufs, percentage)]\<rparr>)"

definition FlvHeaderSizeInBytes :: nat where
  "FlvHeaderSizeInBytes = 13"

definition RemoveFlashHeader :: "u8 list list \<Rightarrow> u8 list list result" where
  "RemoveFlashHeader bufs =
     (case bufs of
        [] \<Rightarrow> Inl AssertionFailed
      | x # xs \<Rightarrow>
          if length x > FlvHeaderSizeInBytes then Inr (drop FlvHeaderSizeInBytes x # xs) else Inl AssertionFailed)"

definition SendSubPieces :: "live_cache \<Rightarrow> nat \<Rightarrow> play_stream \<Rightarrow> (bool \<times> play_stream) result" where
  "SendSubPieces c last_index s =
     (if pos_index s = 0 \<and> last_index = 0 then Inr (True, s)
      else if pos_index s > last_index then Inl AssertionFailed
      else
        let is_first_block = (pos_block s = start_block s);
            start_index = (if pos_index s = 0 then 1 else pos_index s)
        in and_then (GetSubPieces (pos_block s) start_index last_index c) (\<lambda>bufs.
             let total = cache_GetSubPiecesCount (pos_block s) c;
                 subpieces_downloaded = pos_index s + length bufs
             in if bufs = [] \<or> total = 0 \<or> subpieces_downloaded > total then Inl AssertionFailed
                else
                  and_then (if \<not> is_first_block \<and> start_index = 1 then RemoveFlashHeader bufs else Inr bufs) (\<lambda>bufs'.
                    Inr (OnRecvLivePiece (pos_block s) bufs' ((subpieces_downloaded * 100 div total) mod 256) s))))"

definition PushDataToDownloaderDriver :: "live_cache \<Rightarrow> play_stream \<Rightarrow> play_stream result option" where
  "PushDataToDownloaderDriver c s =
     (if \<not> cache_HasSubPiece (pos_block s) (pos_index s) c then Some (Inr s)
      else if HasCompleteBlock (pos_block s) c
      then
        Some (and_then (SendSubPieces c ((cache_GetSubPiecesCount (pos_block s) c - 1) mod 2 ^ 16) s) (\<lambda>(sent, s1).
          if \<not> sent then Inr s1
          else if live_interval c = 0 then Inl AssertionFailed
          else Inr (SetBlockId (next_id (pos_block s1) c) s1)))
      else
        map_option (\<lambda>r. and_then r (\<lambda>(missing_block, missing_index).
          if missing_block = pos_block s \<and> missing_index > pos_index s
          then
            and_then (GetPieceIndex missing_index) (\<lambda>p.
              let last_to_send = GetFirstSubPieceIndex p - 1
              in if last_to_send \<ge> pos_index s
                 then
                   and_then (SendSubPieces c last_to_send s) (\<lambda>(sent, s1).
                     if sent then AdvanceSubPieceIndexTo (last_to_send + 1) s1 else Inr s1)
                 else Inr s)
          else Inl AssertionFailed))
          (cache_GetNextMissingSubPiece c (pos_block s)))"

text \<open>
  \<open>listener\<close>: a listener for the end is registered; \<open>stopped_notices\<close>: how often it was told
  (\<^verbatim>\<open>OnLiveInstanceStopped\<close>).
\<close>

record live_instance =
  instance_cache :: live_cache
  streams :: "(nat \<times> play_stream) list"
  play_timer :: bool
  stop_timer :: bool
  listener :: bool
  stopped_notices :: nat

definition live_instance_new :: "u8 list \<Rightarrow> nat \<Rightarrow> live_instance result" where
  "live_instance_new r iv =
     and_then (live_cache_new iv r) (\<lambda>c.
       Inr \<lparr>instance_cache = c, streams = [], play_timer = False, stop_timer = False, listener = False,
            stopped_notices = 0\<rparr>)"

definition instance_Start :: "bool \<Rightarrow> live_instance \<Rightarrow> live_instance" where
  "instance_Start stopped_event_listener li = li\<lparr>listener := stopped_event_listener, play_timer := True\<rparr>"

definition instance_Stop :: "live_instance \<Rightarrow> live_instance" where
  "instance_Stop li =
     (let li1 = li\<lparr>play_timer := False\<rparr>
      in if listener li1 then li1\<lparr>stopped_notices := stopped_notices li1 + 1\<rparr> else li1)"

text \<open>\<^verbatim>\<open>PushDataToDownloaderDrivers\<close>: one stream after the other.\<close>

fun push_all :: "live_cache \<Rightarrow> (nat \<times> play_stream) list \<Rightarrow> (nat \<times> play_stream) list result option" where
  "push_all c [] = Some (Inr [])"
| "push_all c ((i, s) # ss) =
     (case PushDataToDownloaderDriver c s of
        None \<Rightarrow> None
      | Some (Inl e) \<Rightarrow> Some (Inl e)
      | Some (Inr s') \<Rightarrow> map_option (\<lambda>r. and_then r (\<lambda>ss'. Inr ((i, s') # ss'))) (push_all c ss))"

definition PushDataToDownloaderDrivers :: "live_instance \<Rightarrow> live_instance result option" where
  "PushDataToDownloaderDrivers li =
     map_option (map_sum id (\<lambda>ss. li\<lparr>streams := ss\<rparr>)) (push_all (instance_cache li) (streams li))"

definition instance_AddSubPiece ::
    "protocol_lib \<Rightarrow> nat \<Rightarrow> nat \<Rightarrow> u8 list \<Rightarrow> live_instance \<Rightarrow> live_instance result option" where
  "instance_AddSubPiece lib k i buf li =
     (case cache_AddSubPiece lib k i buf (instance_cache li) of
        Inl e \<Rightarrow> Some (Inl e)
      | Inr (added, c) \<Rightarrow>
          if \<not> added then Some (Inr (li\<lparr>instance_cache := c\<rparr>))
          else PushDataToDownloaderDrivers (li\<lparr>instance_cache := c\<rparr>))"

definition AttachStream :: "nat \<Rightarrow> play_stream \<Rightarrow> live_instance \<Rightarrow> live_instance" where
  "AttachStream i s li =
     li\<lparr>streams := (if map_of (streams li) i = None then put_sorted i s (streams li) else streams li), stop_timer := False\<rparr>"

text \<open>
  Builds for the PC client start the stop timer (120 seconds, once) when the last stream leaves; others stop at
  once.
\<close>

definition DetachStream :: "bool \<Rightarrow> nat \<Rightarrow> live_instance \<Rightarrow> live_instance result" where
  "DetachStream pc_client i li =
     (if map_of (streams li) i = None then Inl AssertionFailed
      else
        let ss = filter (\<lambda>(j, _). j \<noteq> i) (streams li); li1 = li\<lparr>streams := ss\<rparr>
        in if ss \<noteq> [] then Inr li1
           else if pc_client then Inr (li1\<lparr>stop_timer := True\<rparr>) else Inr (instance_Stop li1))"

definition instance_OnTimerElapsed :: "bool \<Rightarrow> live_instance \<Rightarrow> live_instance result option" where
  "instance_OnTimerElapsed is_play_timer li =
     (if is_play_timer then PushDataToDownloaderDrivers li else Some (Inr (instance_Stop (li\<lparr>stop_timer := False\<rparr>))))"

definition GetNextIncompleteBlock :: "nat \<Rightarrow> live_instance \<Rightarrow> (nat \<times> nat) result option" where
  "GetNextIncompleteBlock start_piece_id li = cache_GetNextMissingSubPiece (instance_cache li) start_piece_id"

definition BuildAnnounceMap ::
    "protocol_lib \<Rightarrow> nat \<Rightarrow> live_instance \<Rightarrow> announce \<Rightarrow> (live_instance \<times> announce) result option" where
  "BuildAnnounceMap lib k li a =
     map_option (map_sum id (\<lambda>(c, a'). (li\<lparr>instance_cache := c\<rparr>, a'))) (Build lib k (instance_cache li) a)"

definition GetAllPlayPoints :: "live_instance \<Rightarrow> (nat \<times> nat) list" where
  "GetAllPlayPoints li = map (\<lambda>(_, s). (pos_block s, pos_index s)) (streams li)"

section \<open>What a push sends\<close>

text \<open>The subpieces \<open>i\<close> to \<open>j\<close> of a block, as the player gets them.\<close>

definition chunk :: "play_stream \<Rightarrow> nat \<Rightarrow> nat \<Rightarrow> live_block \<Rightarrow> u8 list list" where
  "chunk s i j b =
     (let raw = map (\<lambda>n. the (sub_pieces b ! n)) [i..<j + 1]
      in if pos_block s \<noteq> start_block s \<and> i = 1 then drop FlvHeaderSizeInBytes (hd raw) # tl raw else raw)"

definition progress :: "play_stream \<Rightarrow> nat \<Rightarrow> live_block \<Rightarrow> nat" where
  "progress s j b = (pos_index s + (j + 1 - max 1 (pos_index s))) * 100 div length (sub_pieces b) mod 256"

lemma get_buffers_eq:
  assumes "\<forall>i \<in> set is. HasSubPiece i b"
  shows "get_buffers is b = Inr (map (\<lambda>n. the (sub_pieces b ! n)) is)"
  using assms by (induction "is") (auto simp: GetBuffer_def HasSubPiece_def split: if_splits)

lemma SendSubPieces_eq:
  assumes "node (pos_block s) c = Some b" "header b \<noteq> None" "max 1 (pos_index s) \<le> j" "j < length (sub_pieces b)"
    and "\<forall>i \<in> {max 1 (pos_index s)..j}. HasSubPiece i b"
    and "pos_block s \<noteq> start_block s \<longrightarrow> 13 < length (the (sub_pieces b ! 1))"
  shows "SendSubPieces c j s =
    Inr (True, s\<lparr>received := received s @
      [(pos_block s, chunk s (max 1 (pos_index s)) j b, progress s j b)]\<rparr>)"
proof -
  define i where "i = max 1 (pos_index s)"
  define raw where "raw = map (\<lambda>n. the (sub_pieces b ! n)) [i..<j + 1]"
  have i: "(if pos_index s = 0 then 1 else pos_index s) = i" "i \<le> j" "pos_index s \<le> j" "\<not> (pos_index s = 0 \<and> j = 0)"
    using assms(3) by (auto simp: i_def)
  have "\<forall>n \<in> set [i..<j + 1]. HasSubPiece n b" using assms(5) by (auto simp: i_def)
  from get_buffers_eq [OF this] have get: "GetSubPieces (pos_block s) i j c = Inr raw"
    unfolding GetSubPieces_def raw_def using assms(1) i(2) by simp
  have tot: "cache_GetSubPiecesCount (pos_block s) c = length (sub_pieces b)"
    using assms(1,2) by (auto simp: cache_GetSubPiecesCount_def GetSubPiecesCount_def)
  have ne: "raw \<noteq> []" "length raw = j + 1 - i" using i(2) by (auto simp: raw_def)
  have le: "pos_index s + length raw \<le> length (sub_pieces b)" using assms(3,4) ne(2) by (auto simp: i_def)
  have ch: "chunk s i j b = (if pos_block s \<noteq> start_block s \<and> i = 1 then drop 13 (hd raw) # tl raw else raw)"
    unfolding chunk_def raw_def Let_def FlvHeaderSizeInBytes_def by (rule refl)
  have strip: "(if \<not> pos_block s = start_block s \<and> i = 1 then RemoveFlashHeader raw else Inr raw) = Inr (chunk s i j b)"
  proof (cases "pos_block s \<noteq> start_block s \<and> i = 1")
    case True
    then have "[i..<j + 1] = 1 # [2..<j + 1]" using i(2) by (simp add: upt_conv_Cons numeral_2_eq_2 del: upt_Suc)
    then obtain rest where "raw = the (sub_pieces b ! 1) # rest" by (auto simp: raw_def simp del: upt_Suc)
    with True assms(6) ch show ?thesis by (simp add: RemoveFlashHeader_def FlvHeaderSizeInBytes_def)
  next
    case False
    then show ?thesis by (auto simp: ch)
  qed
  have "progress s j b = (pos_index s + length raw) * 100 div length (sub_pieces b) mod 256"
    by (simp add: progress_def ne(2) i_def)
  with get tot ne(1) le i strip assms(4) show ?thesis
    by (auto simp: SendSubPieces_def Let_def OnRecvLivePiece_def simp flip: i_def)
qed

section \<open>The position of a stream\<close>

text \<open>
  A stream is at the header of a block or at the first subpiece of a piece, with a header and all pieces
  before it in the cache.
\<close>

definition stream_ok :: "live_cache \<Rightarrow> play_stream \<Rightarrow> bool" where
  "stream_ok c s =
     (pos_block s < 2 ^ 32 \<and>
      (pos_index s = 0 \<or>
       (\<exists>b p. node (pos_block s) c = Some b \<and> header b \<noteq> None \<and> pos_index s = 16 * p + 1 \<and>
          pos_index s < length (sub_pieces b) \<and> (\<forall>q < p. piece_full q b))))"

text \<open>The subpiece 1 of a block begins with an FLV header, which is removed from all blocks but the first.\<close>

definition flv_ok :: "live_cache \<Rightarrow> play_stream \<Rightarrow> bool" where
  "flv_ok c s =
     (pos_block s = start_block s \<or>
      (case node (pos_block s) c of None \<Rightarrow> True | Some b \<Rightarrow> HasSubPiece 1 b \<longrightarrow> 13 < length (the (sub_pieces b ! 1))))"

text \<open>
  One push: nothing to send, or the subpieces from the position on up to \<open>j\<close>, all of them in complete pieces;
  \<open>j\<close> is the last of the block, or the last before the piece with the first gap.
\<close>

definition pushed :: "live_cache \<Rightarrow> play_stream \<Rightarrow> nat \<Rightarrow> live_block \<Rightarrow> play_stream" where
  "pushed c s j b =
     s\<lparr>received := received s @
        (if max 1 (pos_index s) \<le> j
         then [(pos_block s, chunk s (max 1 (pos_index s)) j b, progress s j b)]
         else []),
       pos_block := (if IsComplete b then next_id (pos_block s) c else pos_block s),
       pos_index := (if IsComplete b then 0 else j + 1)\<rparr>"

lemma present_headed:
  assumes "cache_ok lib c" "stream_ok c s" "cache_HasSubPiece (pos_block s) (pos_index s) c"
  obtains b h where "node (pos_block s) c = Some b" "header b = Some h" "headed lib {} h b" "lib_ok lib" "block_ok lib b"
    "pos_index s < length (sub_pieces b)"
proof -
  obtain b where b: "node (pos_block s) c = Some b" "HasSubPiece (pos_index s) b"
    using assms(3) by (auto simp: cache_HasSubPiece_def split: option.splits)
  have ok: "lib_ok lib" "block_ok lib b" using assms(1) b(1) by (auto simp: cache_ok_def)
  have "header b \<noteq> None"
  proof (cases "pos_index s = 0")
    case True
    with b(2) block_ok_headless [OF ok(2)] show ?thesis by (auto simp: headless_def)
  next
    case False
    with assms(2) b(1) show ?thesis by (auto simp: stream_ok_def)
  qed
  then obtain h where "header b = Some h" by blast
  moreover have "pos_index s < length (sub_pieces b)" using b(2) by (auto simp: HasSubPiece_def split: if_splits)
  ultimately show ?thesis using that [OF b(1)] ok block_ok_headed by blast
qed

lemma full_piece_has: "piece_full p b \<Longrightarrow> 0 < j \<Longrightarrow> j < length (sub_pieces b) \<Longrightarrow> (j - 1) div 16 = p \<Longrightarrow> HasSubPiece j b"
  by (auto simp: piece_full_iff HasSubPiece_def)

lemma push_complete:
  assumes "cache_ok lib c" "stream_ok c s" "flv_ok c s" "cache_HasSubPiece (pos_block s) (pos_index s) c"
    and "node (pos_block s) c = Some b" "IsComplete b"
  shows "PushDataToDownloaderDriver c s = Some (Inr (pushed c s (length (sub_pieces b) - 1) b))"
proof -
  obtain h where b: "header b = Some h" "headed lib {} h b" "lib_ok lib" "pos_index s < length (sub_pieces b)"
    using present_headed [OF assms(1,2,4)] assms(5) by (metis option.inject)
  have len: "2 \<le> length (sub_pieces b)" "length (sub_pieces b) \<le> 5409" using headed_bounds [OF b(3,2)] by simp_all
  have has: "HasSubPiece i b" if "i < length (sub_pieces b)" for i
    using that assms(6) by (simp add: IsComplete_def HasSubPiece_def list_all_length)
  let ?j = "length (sub_pieces b) - 1"
  have flv: "pos_block s \<noteq> start_block s \<longrightarrow> 13 < length (the (sub_pieces b ! 1))"
    using assms(3,5) has [of 1] len by (auto simp: flv_ok_def)
  have send: "SendSubPieces c ?j s =
      Inr (True, s\<lparr>received := received s @ [(pos_block s, chunk s (max 1 (pos_index s)) ?j b, progress s ?j b)]\<rparr>)"
    by (rule SendSubPieces_eq [OF assms(5) _ _ _ _ flv]) (use b(1,4) len has in auto)
  have cnt: "(cache_GetSubPiecesCount (pos_block s) c - 1) mod 2 ^ 16 = ?j"
    using assms(5) b(1) len by (simp add: cache_GetSubPiecesCount_def GetSubPiecesCount_def)
  have "max 1 (pos_index s) \<le> ?j" "live_interval c \<noteq> 0" using len b(4) assms(1) by (auto simp: cache_ok_def)
  with send cnt assms(4-6) show ?thesis
    by (simp add: PushDataToDownloaderDriver_def HasCompleteBlock_def pushed_def SetBlockId_def)
qed

text \<open>
  A block with a gap, first at subpiece \<open>m\<close>: sent is what comes before the piece of \<open>m\<close>.
\<close>

lemma push_incomplete:
  assumes "cache_ok lib c" "stream_ok c s" "flv_ok c s" "cache_HasSubPiece (pos_block s) (pos_index s) c"
    and "node (pos_block s) c = Some b" "\<not> IsComplete b"
  shows "\<exists>p. 16 * p + 1 < length (sub_pieces b) \<and> pos_index s \<le> 16 * p + 1 \<and> (\<forall>q < p. piece_full q b) \<and> \<not> piece_full p b \<and>
    PushDataToDownloaderDriver c s = Some (Inr (if pos_index s \<le> 16 * p then pushed c s (16 * p) b else s))"
proof -
  obtain h where b: "header b = Some h" "headed lib {} h b" "lib_ok lib" "block_ok lib b" "pos_index s < length (sub_pieces b)"
    using present_headed [OF assms(1,2,4)] assms(5) by (metis option.inject)
  obtain m where m: "cache_GetNextMissingSubPiece c (pos_block s) = Some (Inr (pos_block s, m))"
      "\<not> HasSubPiece m b" "\<forall>i < m. HasSubPiece i b"
    using search_stop [OF assms(1), of "pos_block s"] assms(5,6) by (auto simp: HasCompleteBlock_def cache_HasSubPiece_def)
  define p where "p = (m - 1) div 16"
  have "HasSubPiece 0 b" using b(2) headed_bounds(1) [OF b(3,2)] by (auto simp: headed_def HasSubPiece_def)
  then have m0: "0 < m" using m(2) by (cases m) auto
  have len: "m < length (sub_pieces b)"
  proof (rule ccontr)
    assume "\<not> m < length (sub_pieces b)"
    then have "\<forall>i < length (sub_pieces b). HasSubPiece i b" using m(3) by auto
    then have "IsComplete b" using b(1) by (simp add: IsComplete_def list_all_length HasSubPiece_def)
    with assms(6) show False by simp
  qed
  have p: "16 * p + 1 \<le> m" "m < 16 * p + 17" using m0 unfolding p_def by linarith+
  have gap: "\<not> piece_full p b" using full_piece_has [of p b m] m(2) m0 len by (auto simp: p_def)
  have full: "piece_full q b" if "q < p" for q
  proof -
    have "HasSubPiece j b" if "0 < j" "(j - 1) div 16 = q" for j
    proof -
      have "j < m" using that p \<open>q < p\<close> by linarith
      then show ?thesis using m(3) by blast
    qed
    then show ?thesis using that p len by (auto simp: piece_full_iff HasSubPiece_def split: if_splits)
  qed
  have pos: "pos_index s \<le> 16 * p + 1"
  proof (cases "pos_index s = 0")
    case False
    then obtain p' where p': "pos_index s = 16 * p' + 1" "\<forall>q < p'. piece_full q b"
      using assms(2,5) by (auto simp: stream_ok_def)
    with gap have "p' \<le> p" by (metis not_le)
    with p' show ?thesis by simp
  qed simp
  have "HasSubPiece (pos_index s) b" using assms(4,5) by (simp add: cache_HasSubPiece_def)
  then have less: "pos_index s < m" using pos p m(2) by (cases "pos_index s = m") auto
  have gp: "GetPieceIndex m = Inr p" using m0 by (simp add: GetPieceIndex_def p_def SubPiecesPerPiece_def)
  have "PushDataToDownloaderDriver c s =
      Some (if pos_index s \<le> 16 * p
            then and_then (SendSubPieces c (16 * p) s) (\<lambda>(sent, s1). if sent then AdvanceSubPieceIndexTo (16 * p + 1) s1 else Inr s1)
            else Inr s)"
    using assms(4-6) m(1) less gp
    by (simp add: PushDataToDownloaderDriver_def HasCompleteBlock_def GetFirstSubPieceIndex_def SubPiecesPerPiece_def Let_def)
  moreover have "and_then (SendSubPieces c (16 * p) s) (\<lambda>(sent, s1). if sent then AdvanceSubPieceIndexTo (16 * p + 1) s1 else Inr s1) =
      Inr (pushed c s (16 * p) b)" if le: "pos_index s \<le> 16 * p"
  proof (cases "p = 0")
    case True
    with le assms(6) show ?thesis by (simp add: SendSubPieces_def AdvanceSubPieceIndexTo_def pushed_def)
  next
    case False
    then have "max 1 (pos_index s) \<le> 16 * p" using le by auto
    moreover have "\<forall>i \<in> {max 1 (pos_index s)..16 * p}. HasSubPiece i b" "HasSubPiece 1 b" using m(3) p False by auto
    moreover from this have "pos_block s \<noteq> start_block s \<longrightarrow> 13 < length (the (sub_pieces b ! 1))"
      using assms(3,5) by (auto simp: flv_ok_def)
    ultimately show ?thesis
      using SendSubPieces_eq [OF assms(5), of "16 * p"] b(1) p len le assms(6)
      by (simp add: AdvanceSubPieceIndexTo_def pushed_def)
  qed
  ultimately show ?thesis using p len full gap pos by (intro exI [of _ p]) auto
qed

lemma pushed_stream_ok:
  assumes "cache_ok lib c" "stream_ok c s" "node (pos_block s) c = Some b" "header b \<noteq> None"
    and "IsComplete b \<or> (j = 16 * p \<and> 16 * p + 1 < length (sub_pieces b) \<and> (\<forall>q < p. piece_full q b))"
  shows "stream_ok c (pushed c s j b)"
  using assms by (auto simp: stream_ok_def pushed_def next_id_def)

section \<open>A channel that is downloaded and played\<close>

text \<open>Subpieces arrive in any order, and pushes happen at any time.\<close>

inductive playing :: "protocol_lib \<Rightarrow> live_cache \<Rightarrow> play_stream \<Rightarrow> bool" for lib where
  start: "lib_ok lib \<Longrightarrow> live_cache_new iv r = Inr c \<Longrightarrow> iv < 2 ^ 16 \<Longrightarrow> length r = 16 \<Longrightarrow> k < 2 ^ 32 \<Longrightarrow>
    playing lib c \<lparr>pos_block = k, pos_index = 0, start_block = k, received = []\<rparr>"
| add: "playing lib c s \<Longrightarrow> k < 2 ^ 32 \<Longrightarrow> addable lib i buf (target k c) \<Longrightarrow>
    cache_AddSubPiece lib k i buf c = Inr (x, c') \<Longrightarrow> playing lib c' s"
| push: "playing lib c s \<Longrightarrow> flv_ok c s \<Longrightarrow> PushDataToDownloaderDriver c s = Some (Inr s') \<Longrightarrow> playing lib c s'"

lemma extends_full: "extends b b' \<Longrightarrow> header b \<noteq> None \<Longrightarrow> piece_full p b \<Longrightarrow> piece_full p b'"
  using piece_cong(1) [of b' b p] by (simp add: extends_def)

lemma add_stream_ok:
  assumes "stream_ok c s" "extends (target k c) b'" "\<forall>j. node j c' = (if j = k then Some b' else node j c)"
  shows "stream_ok c' s"
proof (cases "pos_index s = 0")
  case True
  with assms(1) show ?thesis by (simp add: stream_ok_def)
next
  case False
  then obtain b p where b: "node (pos_block s) c = Some b" "header b \<noteq> None" "pos_index s = 16 * p + 1"
      "pos_index s < length (sub_pieces b)" "\<forall>q < p. piece_full q b" "pos_block s < 2 ^ 32"
    using assms(1) by (auto simp: stream_ok_def)
  show ?thesis
  proof (cases "pos_block s = k")
    case True
    then have "extends b b'" using assms(2) b(1) by (simp add: target_def)
    note e = this
    then have "header b' \<noteq> None" "length (sub_pieces b') = length (sub_pieces b)" using b(2) by (simp_all add: extends_def)
    moreover have "\<forall>q < p. piece_full q b'" using extends_full [OF e b(2)] b(5) by blast
    moreover have "node (pos_block s) c' = Some b'" using assms(3) True by simp
    ultimately show ?thesis using b(3,4,6) unfolding stream_ok_def by (metis (no_types))
  next
    case False
    with b assms(3) show ?thesis by (auto simp: stream_ok_def)
  qed
qed

text \<open>What a push does in a consistent state.\<close>

definition sends_good :: "protocol_lib \<Rightarrow> live_cache \<Rightarrow> play_stream \<Rightarrow> play_stream \<Rightarrow> bool" where
  "sends_good lib c s s' =
     (\<exists>b h j. node (pos_block s) c = Some b \<and> header b = Some h \<and> header_matches lib b h \<and> s' = pushed c s j b \<and>
        pos_index s \<le> j \<and> j < length (sub_pieces b) \<and> (IsComplete b \<longrightarrow> j = length (sub_pieces b) - 1) \<and>
        (\<forall>i. 0 < i \<and> i \<le> j \<longrightarrow> HasSubPiece i b \<and> piece_good lib h ((i - 1) div 16) b))"

lemma push_ok:
  assumes "cache_ok lib c" "stream_ok c s" "flv_ok c s"
  shows "\<exists>s'. PushDataToDownloaderDriver c s = Some (Inr s') \<and> stream_ok c s' \<and> (s' = s \<or> sends_good lib c s s')"
proof (cases "cache_HasSubPiece (pos_block s) (pos_index s) c")
  case False
  with assms(2) show ?thesis by (simp add: PushDataToDownloaderDriver_def)
next
  case True
  obtain b h where b: "node (pos_block s) c = Some b" "header b = Some h" "headed lib {} h b" "lib_ok lib"
      "pos_index s < length (sub_pieces b)"
    using present_headed [OF assms(1,2) True] by metis
  have m: "header_matches lib b h" using b(3) by (simp add: headed_def)
  have good: "HasSubPiece i b \<and> piece_good lib h ((i - 1) div 16) b"
    if "piece_full ((i - 1) div 16) b" "0 < i" "i < length (sub_pieces b)" for i
    using that b(3) full_piece_has [OF that(1,2,3)] by (auto simp: headed_def)
  show ?thesis
  proof (cases "IsComplete b")
    case True
    have "piece_full ((i - 1) div 16) b" if "0 < i" "i < length (sub_pieces b)" for i
    proof -
      have "16 * ((i - 1) div 16) + 1 \<le> i" using that by linarith
      with True that show ?thesis by (auto simp: piece_full_iff IsComplete_def list_all_length)
    qed
    with good have "\<forall>i. 0 < i \<and> i \<le> length (sub_pieces b) - 1 \<longrightarrow> HasSubPiece i b \<and> piece_good lib h ((i - 1) div 16) b"
      using b(5) by auto
    moreover have "pos_index s \<le> length (sub_pieces b) - 1" "length (sub_pieces b) - 1 < length (sub_pieces b)" using b(5) by auto
    ultimately have "sends_good lib c s (pushed c s (length (sub_pieces b) - 1) b)"
      using b(1,2) m unfolding sends_good_def by blast
    moreover have "stream_ok c (pushed c s (length (sub_pieces b) - 1) b)"
      using pushed_stream_ok [OF assms(1,2) b(1)] b(2) True by simp
    ultimately show ?thesis using push_complete [OF assms \<open>cache_HasSubPiece _ _ c\<close> b(1) True] by blast
  next
    case False
    obtain p where p: "16 * p + 1 < length (sub_pieces b)" "\<forall>q < p. piece_full q b"
        "PushDataToDownloaderDriver c s = Some (Inr (if pos_index s \<le> 16 * p then pushed c s (16 * p) b else s))"
      using push_incomplete [OF assms True b(1) False] by blast
    show ?thesis
    proof (cases "pos_index s \<le> 16 * p")
      case le: True
      have "HasSubPiece i b \<and> piece_good lib h ((i - 1) div 16) b" if "0 < i" "i \<le> 16 * p" for i
        using good [of i] p that by auto
      then have "sends_good lib c s (pushed c s (16 * p) b)"
        unfolding sends_good_def using b(1,2) m p(1) False le by (intro exI [of _ b] exI [of _ h] exI [of _ "16 * p"]) auto
      moreover have "stream_ok c (pushed c s (16 * p) b)" using pushed_stream_ok [OF assms(1,2) b(1)] b(2) p by auto
      ultimately show ?thesis using p(3) le by auto
    next
      case False
      with p(3) assms(2) show ?thesis by auto
    qed
  qed
qed

lemma playing_ok: "playing lib c s \<Longrightarrow> cache_ok lib c \<and> stream_ok c s"
proof (induction rule: playing.induct)
  case (start iv r c k)
  then show ?case by (auto simp: cache_ok_def live_cache_new_def node_def stream_ok_def split: if_splits)
next
  case (add c s k i buf x c')
  then obtain b' where b': "extends (target k c) b'" "cache_ok lib c'" "\<forall>j. node j c' = (if j = k then Some b' else node j c)"
    using cache_AddSubPiece_ok [of lib c k i buf] by auto
  with add.IH add_stream_ok [of c s k b' c'] show ?case by blast
next
  case (push c s s')
  with push_ok [of lib c s] show ?case by auto
qed

text \<open>The sample channel: its block 5 arrives as a header and one subpiece.\<close>

definition sample_stream :: play_stream where
  "sample_stream = \<lparr>pos_block = 5, pos_index = 0, start_block = 5, received = []\<rparr>"

lemma sample_playing: "playing sample_lib sample_cache sample_stream"
proof -
  let ?x = "\<lparr>block_nodes = [], live_interval = 5, cache_rid = sample_rid, block_checksum_failed_times = []\<rparr>" and ?hd = "sample_header 5 3"
  let ?z = "\<lparr>block_nodes = [(5, sample_b1 3)], live_interval = 5, cache_rid = sample_rid, block_checksum_failed_times = []\<rparr>"
  let ?y = "?x\<lparr>block_nodes := [(5, live_block_new 5 sample_rid)]\<rparr>"
  have e: "EnsureBlockExists 5 ?x = ?y" "node 5 ?y = Some (live_block_new 5 sample_rid)" "set_node 5 (sample_b1 3) ?y = ?z"
    "EnsureBlockExists 5 ?z = ?z" "node 5 ?z = Some (sample_b1 3)" "set_node 5 sample_b2 ?z = sample_cache"
    by (simp_all add: EnsureBlockExists_def node_def set_node_def sample_cache_def)
  have p: "playing sample_lib ?x sample_stream"
    unfolding sample_stream_def by (rule playing.start [OF sample_lib_ok, of 5 sample_rid]) (simp_all add: sample_rid_def live_cache_new_def)
  have t: "target 5 ?x = live_block_new 5 sample_rid" "target 5 ?z = sample_b1 3"
    by (simp_all add: target_def node_def)
  have "addable sample_lib 0 ?hd (live_block_new 5 sample_rid)"
    using sample_header_fields(1) [of 5 3] by (simp add: addable_def live_block_new_def)
  then have a: "addable sample_lib 0 ?hd (target 5 ?x)" "addable sample_lib 1 [10, 20, 30] (target 5 ?z)"
    unfolding t using sample_addable(1) by blast+
  have "cache_AddSubPiece sample_lib 5 0 ?hd ?x = Inr (True, ?z)"
    unfolding cache_AddSubPiece_def e(1) e(2) Let_def option.case sample_add_header [of 3, simplified] by (simp add: set_node_def)
  from playing.add [OF p _ a(1) this] have q: "playing sample_lib ?z sample_stream" by simp
  have "cache_AddSubPiece sample_lib 5 1 [10, 20, 30] ?z = Inr (True, sample_cache)"
    unfolding cache_AddSubPiece_def e(4) e(5) Let_def option.case sample_add_data(1) by (simp add: e(6))
  from playing.add [OF q _ a(2) this] show ?thesis by simp
qed

lemma sample_flv: "flv_ok sample_cache sample_stream"
  by (simp add: flv_ok_def sample_stream_def)

lemma sample_node: "node (pos_block sample_stream) sample_cache = Some sample_b2"
  by (simp add: node_def sample_stream_def sample_cache_def)

section \<open>Properties\<close>



text \<open>A whole block that is sent in one push is announced to the driver with less than 100 percent, since the
  header is not sent and not counted: with \<open>n\<close> subpieces the progress is \<open>(n - 1) * 100 div n\<close>, and the position
  is on the next block all the same.  (The driver looks for a better position only at 100 percent.)\<close>

theorem whole_block_progress_below_100:
  assumes "playing lib c s" "flv_ok c s" "node (pos_block s) c = Some b" "IsComplete b" "pos_index s = 0"
  shows "\<exists>s' bufs pct. PushDataToDownloaderDriver c s = Some (Inr s')
    \<and> received s' = received s @ [(pos_block s, bufs, pct)] \<and> length bufs = length (sub_pieces b) - 1
    \<and> pct = (length (sub_pieces b) - 1) * 100 div length (sub_pieces b) \<and> pct < 100
    \<and> pos_block s' = next_id (pos_block s) c \<and> pos_index s' = 0"
proof -
  let ?n = "length (sub_pieces b)"
  have ok: "cache_ok lib c" "stream_ok c s" using playing_ok [OF assms(1)] by simp_all
  have ne: "0 < ?n" using ok(1) assms(3,4) block_ok_headed headed_bounds(1) by (fastforce simp: cache_ok_def IsComplete_def)
  then have has: "cache_HasSubPiece (pos_block s) (pos_index s) c"
    using assms(3-5) by (simp add: cache_HasSubPiece_def HasSubPiece_def IsComplete_def list_all_length)
  from present_headed [OF ok has] assms(3) obtain h where "headed lib {} h b" "lib_ok lib" by (metis option.inject)
  then have n: "2 \<le> ?n" using headed_bounds by blast
  let ?pct = "(?n - 1) * 100 div ?n"
  have "(?n - 1) * 100 < 100 * ?n" using n by simp
  then have pct: "?pct < 100" using n by (metis less_mult_imp_div_less)
  have "length (chunk s 1 (?n - 1) b) = ?n - 1" using n by (auto simp: chunk_def Let_def)
  moreover have "progress s (?n - 1) b = ?pct" using pct n assms(5) by (simp add: progress_def)
  moreover have "max 1 (pos_index s) = 1" using assms(5) by simp
  ultimately show ?thesis
    using push_complete [OF ok assms(2) has assms(3,4)] assms(4) n pct by (simp add: pushed_def)
qed

theorem whole_block_progress_below_100_witness:
  "\<exists>s' bufs. PushDataToDownloaderDriver sample_cache sample_stream = Some (Inr s')
    \<and> received s' = [(5, bufs, 50)] \<and> pos_block s' = 10"
proof -
  have "length (sub_pieces sample_b2) = 2" "(2 - 1) * 100 div 2 = (50 :: nat)" by (simp_all add: sample_b2_def)
  then show ?thesis
    using whole_block_progress_below_100 [OF sample_playing sample_flv sample_node sample_add_data(3)]
    by (auto simp: sample_stream_def next_id_def sample_cache_def)
qed

end
