(* ===== verification/LiveMemory.thy ===== *)
theory LiveMemory
  imports LivePlay "HOL-Library.Multiset"
begin

text \<open>
  \<^verbatim>\<open>storage::LiveInstanceMemoryConsumer\<close> (\<^verbatim>\<open>storage/LiveInstanceMemoryConsumer.h/.cpp\<close>): which blocks of a live
  channel stay in memory.  Every block has a score for uploading and for the players; a channel asks for
  memory according to the scores, and drops the blocks with the least scores when it gets less.

  \<^item> The scores are an association list sorted by the block id, as the map of the code.  Sizes (\<^verbatim>\<open>size_t\<close>) are
    \<open>nat\<close>; they do not overflow 64 bits.
  \<^item> The loops run over the block ids from the first to the last in steps of the interval, in 32-bit arithmetic;
    a loop that does not end is \<open>None\<close>.
\<close>

section \<open>Scores\<close>

definition ExpectedP2PCoverageInSeconds :: nat where
  "ExpectedP2PCoverageInSeconds = 120"

definition PlayPointRelevantRangeInSeconds :: nat where
  "PlayPointRelevantRangeInSeconds = 120"

definition MostWantedBlocksScoreBar :: nat where
  "MostWantedBlocksScoreBar = 3"

definition GetDistanceScore :: "nat \<Rightarrow> nat \<Rightarrow> nat \<Rightarrow> nat result" where
  "GetDistanceScore distance effective_range score_base =
     (if effective_range = 0 \<or> score_base = 0 then Inl AssertionFailed
      else Inr (if distance \<ge> effective_range then 0
                else max 1 (score_base * (effective_range - distance) div effective_range)))"

fun find_relevant :: "int \<Rightarrow> nat list \<Rightarrow> nat \<Rightarrow> int" where
  "find_relevant i [] k = i - 1"
| "find_relevant i (p # ps) k = (if p > k then i - 1 else find_relevant (i + 1) ps k)"

definition FindMostRelevantPlayPointIndex :: "nat list \<Rightarrow> nat \<Rightarrow> int" where
  "FindMostRelevantPlayPointIndex sorted_play_points k = find_relevant 0 sorted_play_points k"

definition GetSortedPlayPoints :: "live_instance \<Rightarrow> nat list" where
  "GetSortedPlayPoints li = sort (map fst (GetAllPlayPoints li))"

text \<open>The loop over the play points at and before the block, the nearest first.\<close>

fun relevance_loop :: "nat \<Rightarrow> nat list \<Rightarrow> nat \<Rightarrow> nat result" where
  "relevance_loop k [] acc = Inr acc"
| "relevance_loop k (p # ps) acc =
     and_then (GetDistanceScore ((k - p) mod 2 ^ 32) PlayPointRelevantRangeInSeconds 10) (\<lambda>s.
       if s = 0 then Inr acc else relevance_loop k ps (acc + s))"

definition relevance_score :: "nat list \<Rightarrow> nat \<Rightarrow> nat result" where
  "relevance_score points k =
     (let i = FindMostRelevantPlayPointIndex points k
      in if i \<ge> 0
         then if points ! nat i > k then Inl AssertionFailed else relevance_loop k (rev (take (nat i + 1) points)) 0
         else Inr 0)"

definition block_score :: "nat list \<Rightarrow> nat \<Rightarrow> nat \<Rightarrow> nat result" where
  "block_score points last_block k =
     and_then (GetDistanceScore (last_block - k) ExpectedP2PCoverageInSeconds 5) (\<lambda>upload.
       and_then (relevance_score points k) (\<lambda>relevance. Inr (upload + relevance)))"

partial_function (option) score_loop ::
    "live_cache \<Rightarrow> nat list \<Rightarrow> nat \<Rightarrow> nat \<Rightarrow> (nat \<times> nat) list \<Rightarrow> (nat \<times> nat) list result option" where
  "score_loop c points last_block k scores =
     (if k \<le> GetCacheLastBlockId c
      then if k > last_block then Some (Inl AssertionFailed)
           else if \<not> BlockExists k c then score_loop c points last_block (next_id k c) scores
           else (case block_score points last_block k of
                   Inl e \<Rightarrow> Some (Inl e)
                 | Inr s \<Rightarrow> score_loop c points last_block (next_id k c) (put_sorted k s scores))
      else Some (Inr scores))"

declare score_loop.simps [code]

definition BuildBlocksImportanceScore :: "live_instance \<Rightarrow> (nat \<times> nat) list result option" where
  "BuildBlocksImportanceScore li =
     (let c = instance_cache li
      in if GetCacheSize c = 0 then Some (Inr [])
         else score_loop c (GetSortedPlayPoints li) (GetCacheLastBlockId c) (GetCacheFirstBlockId c) [])"

section \<open>Memory usage and quota\<close>

datatype MemoryUsagePriority = NONE | LOW | NORMAL | HIGH

record memory_usage =
  minimum_size :: nat
  desirable_size :: nat
  priority :: MemoryUsagePriority

partial_function (option) average_loop :: "protocol_lib \<Rightarrow> live_cache \<Rightarrow> nat \<Rightarrow> nat \<times> nat \<Rightarrow> (nat \<times> nat) option" where
  "average_loop lib c k acc =
     (if k \<le> GetCacheLastBlockId c
      then let size = cache_GetBlockSizeInBytes lib k c
           in average_loop lib c (next_id k c) (if size > 0 then (fst acc + 1, snd acc + size) else acc)
      else Some acc)"

declare average_loop.simps [code]

definition GetAverageBlockSize :: "protocol_lib \<Rightarrow> live_instance \<Rightarrow> nat option" where
  "GetAverageBlockSize lib li =
     (let c = instance_cache li
      in if GetCacheSize c = 0 then Some 0
         else map_option (\<lambda>(blocks, bytes). if blocks = 0 then 0 else bytes div blocks)
                (average_loop lib c (GetCacheFirstBlockId c) (0, 0)))"

definition GetMemoryUsage :: "protocol_lib \<Rightarrow> live_instance \<Rightarrow> memory_usage result option" where
  "GetMemoryUsage lib li =
     (case BuildBlocksImportanceScore li of
        None \<Rightarrow> None
      | Some (Inl e) \<Rightarrow> Some (Inl e)
      | Some (Inr scores) \<Rightarrow>
          let desirable = length (filter (\<lambda>(_, s). s > 0) scores);
              minimum = length (filter (\<lambda>(_, s). s > 0 \<and> s \<ge> MostWantedBlocksScoreBar) scores);
              p = (if desirable > 0 then if minimum > 0 then HIGH else NORMAL else LOW)
          in map_option (\<lambda>avg. Inr \<lparr>minimum_size = minimum * avg, desirable_size = desirable * avg, priority = p\<rparr>)
               (GetAverageBlockSize lib li))"

definition GetBlocksQuota :: "protocol_lib \<Rightarrow> nat \<Rightarrow> live_instance \<Rightarrow> nat option" where
  "GetBlocksQuota lib quota li =
     (if quota = 0 then Some 0
      else map_option (\<lambda>avg. if avg = 0 then 0 else (quota + avg - 1) div avg) (GetAverageBlockSize lib li))"

text \<open>The first loop of \<^verbatim>\<open>SetMemoryQuota\<close>: blocks without a score, or with score 0, are dropped.\<close>

partial_function (option) drop_loop ::
    "nat \<Rightarrow> live_cache \<Rightarrow> (nat \<times> nat) list \<Rightarrow> (live_cache \<times> (nat \<times> nat) list) option" where
  "drop_loop k c scores =
     (if k \<le> GetCacheLastBlockId c
      then case map_of scores k of
             Some s \<Rightarrow>
               if s = 0
               then (let c1 = snd (RemoveBlock k c)
                     in drop_loop (next_id k c1) c1 (filter (\<lambda>(j, _). j \<noteq> k) scores))
               else drop_loop (next_id k c) c scores
           | None \<Rightarrow> (let c1 = snd (RemoveBlock k c) in drop_loop (next_id k c1) c1 scores)
      else Some (c, scores))"

declare drop_loop.simps [code]

text \<open>The second phase: the blocks with the least scores, in the order of the multimap.\<close>

definition drop_least :: "nat \<Rightarrow> (nat \<times> nat) list \<Rightarrow> live_cache \<Rightarrow> live_cache" where
  "drop_least blocks_to_remove scores c =
     fold (\<lambda>(k, _) c. snd (RemoveBlock k c)) (take blocks_to_remove (sort_key snd scores)) c"

definition SetMemoryQuota :: "protocol_lib \<Rightarrow> nat \<Rightarrow> live_instance \<Rightarrow> live_instance result option" where
  "SetMemoryQuota lib quota li =
     (case GetBlocksQuota lib quota li of
        None \<Rightarrow> None
      | Some blocks_quota \<Rightarrow>
          let c = instance_cache li
          in if GetCacheSize c \<le> blocks_quota then Some (Inr li)
             else
               (case BuildBlocksImportanceScore li of
                  None \<Rightarrow> None
                | Some (Inl e) \<Rightarrow> Some (Inl e)
                | Some (Inr scores) \<Rightarrow>
                    map_option (\<lambda>(c1, scores1).
                      Inr (li\<lparr>instance_cache :=
                        (if GetCacheSize c1 > blocks_quota
                         then drop_least (GetCacheSize c1 - blocks_quota) scores1 c1 else c1)\<rparr>))
                      (drop_loop (GetCacheFirstBlockId c) c scores)))"

section \<open>The score of a play point\<close>

definition point_score :: "nat \<Rightarrow> nat \<Rightarrow> nat" where
  "point_score k p = (if p \<le> k \<and> k - p < 120 then max 1 (10 * (120 - (k - p)) div 120) else 0)"

definition upload_score :: "nat \<Rightarrow> nat \<Rightarrow> nat" where
  "upload_score last_block k = (if last_block - k < 120 then max 1 (5 * (120 - (last_block - k)) div 120) else 0)"

definition score_of :: "nat list \<Rightarrow> nat \<Rightarrow> nat \<Rightarrow> nat" where
  "score_of points last_block k = upload_score last_block k + sum_list (map (point_score k) points)"

lemma find_relevant_eq:
  "sorted points \<Longrightarrow> find_relevant i points k = i + int (length (filter (\<lambda>p. p \<le> k) points)) - 1"
proof (induction points arbitrary: i)
  case (Cons p ps)
  have "filter (\<lambda>q. q \<le> k) ps = []" if "k < p"
    using that Cons.prems by (auto simp: filter_empty_conv)
  with Cons show ?case by auto
qed simp

lemma take_le_filter: "sorted ps \<Longrightarrow> take (length (filter (\<lambda>p. p \<le> k) ps)) ps = filter (\<lambda>p. p \<le> k) ps" for k :: nat
proof (induction ps)
  case (Cons p ps)
  have "filter (\<lambda>q. q \<le> k) ps = []" if "k < p"
    using that Cons.prems by (auto simp: filter_empty_conv)
  with Cons show ?case by auto
qed simp

text \<open>The loop stops at the first play point that is too far; those before it are still farther.\<close>

lemma relevance_loop_eq:
  assumes "sorted (rev ps)" "\<forall>p \<in> set ps. p \<le> k" "k < 2 ^ 32"
  shows "relevance_loop k ps acc = Inr (acc + sum_list (map (point_score k) ps))"
  using assms(1,2)
proof (induction ps arbitrary: acc)
  case (Cons p ps)
  have p: "p \<le> k" "sorted (rev ps)" "\<forall>q \<in> set ps. q \<le> p" using Cons.prems by (auto simp: sorted_append)
  have s: "GetDistanceScore ((k - p) mod 2 ^ 32) PlayPointRelevantRangeInSeconds 10 = Inr (point_score k p)"
    using p(1) assms(3) by (simp add: GetDistanceScore_def PlayPointRelevantRangeInSeconds_def point_score_def)
  show ?case
  proof (cases "point_score k p = 0")
    case True
    then have "120 \<le> k - p" using p(1) by (simp add: point_score_def split: if_splits)
    then have "\<forall>q \<in> set ps. point_score k q = 0" using p(3) by (auto simp: point_score_def)
    then have "sum_list (map (point_score k) ps) = 0" by (simp add: sum_list_eq_0_iff)
    with True s show ?thesis by simp
  next
    case False
    with s Cons.IH [OF p(2)] Cons.prems(2) show ?thesis by simp
  qed
qed simp

lemma relevance_score_eq:
  assumes "sorted points" "k < 2 ^ 32"
  shows "relevance_score points k = Inr (sum_list (map (point_score k) points))"
proof -
  let ?n = "length (filter (\<lambda>p. p \<le> k) points)"
  have i: "FindMostRelevantPlayPointIndex points k = int ?n - 1"
    by (simp add: FindMostRelevantPlayPointIndex_def find_relevant_eq [OF assms(1)])
  have rest: "sum_list (map (point_score k) (filter (\<lambda>p. p \<le> k) points)) = sum_list (map (point_score k) points)"
    by (induction points) (simp_all add: point_score_def)
  show ?thesis
  proof (cases "?n = 0")
    case True
    with i rest show ?thesis by (simp add: relevance_score_def)
  next
    case False
    then have n: "nat (int ?n - 1) + 1 = ?n" "nat (int ?n - 1) < ?n" by linarith+
    have "points ! nat (int ?n - 1) = filter (\<lambda>p. p \<le> k) points ! nat (int ?n - 1)"
      using n(2) nth_take [OF n(2), of points] take_le_filter [OF assms(1), of k] by simp
    moreover have "\<dots> \<in> set (filter (\<lambda>p. p \<le> k) points)" using n(2) by (rule nth_mem)
    ultimately have "points ! nat (int ?n - 1) \<le> k" by simp
    moreover have "sorted (rev (rev (filter (\<lambda>p. p \<le> k) points)))"
      using sorted_filter [of "\<lambda>x. x" points] assms(1) by simp
    then have "relevance_loop k (rev (filter (\<lambda>p. p \<le> k) points)) 0 =
        Inr (0 + sum_list (map (point_score k) (rev (filter (\<lambda>p. p \<le> k) points))))"
      by (rule relevance_loop_eq) (use assms(2) in auto)
    then have "relevance_loop k (rev (filter (\<lambda>p. p \<le> k) points)) 0 = Inr (sum_list (map (point_score k) points))"
      unfolding rev_map [symmetric] sum_list_rev rest by simp
    moreover have "rev (take (nat (int ?n - 1) + 1) points) = rev (filter (\<lambda>p. p \<le> k) points)"
      unfolding n(1) take_le_filter [OF assms(1)] ..
    ultimately show ?thesis using i False by (simp add: relevance_score_def Let_def)
  qed
qed

lemma block_score_eq:
  "sorted points \<Longrightarrow> k < 2 ^ 32 \<Longrightarrow> block_score points last_block k = Inr (score_of points last_block k)"
  by (simp add: block_score_def GetDistanceScore_def ExpectedP2PCoverageInSeconds_def relevance_score_eq score_of_def
      upload_score_def)

section \<open>The loops over the blocks\<close>

text \<open>
  The ids of the blocks of a channel are congruent modulo the interval, so that the loops meet all of them.
\<close>

definition on_grid :: "nat \<Rightarrow> live_cache \<Rightarrow> bool" where
  "on_grid g c =
     (0 < live_interval c \<and> sorted_wrt (<) (map fst (block_nodes c)) \<and>
      (\<forall>k \<in> fst ` set (block_nodes c). k mod live_interval c = g \<and> k + live_interval c < 2 ^ 32))"

definition blocks_at :: "nat \<Rightarrow> live_cache \<Rightarrow> (nat \<times> live_block) list" where
  "blocks_at k c = filter (\<lambda>(j, _). k \<le> j) (block_nodes c)"

lemma filter_sorted_split:
  fixes k m :: nat
  assumes "sorted_wrt (<) (map fst xs)" "\<forall>j \<in> fst ` set xs. (k \<le> j) = (j = k \<or> m \<le> j)" "k < m"
  shows "filter (\<lambda>(j, _). k \<le> j) xs =
    (case map_of xs k of None \<Rightarrow> [] | Some v \<Rightarrow> [(k, v)]) @ filter (\<lambda>(j, _). m \<le> j) xs"
  using assms(1,2)
proof (induction xs)
  case (Cons x xs)
  obtain i v where x: "x = (i, v)" by (cases x)
  have IH: "filter (\<lambda>(j, _). k \<le> j) xs = (case map_of xs k of None \<Rightarrow> [] | Some v \<Rightarrow> [(k, v)]) @ filter (\<lambda>(j, _). m \<le> j) xs"
    using Cons by simp
  have gt: "\<forall>j \<in> fst ` set xs. i < j" using Cons.prems(1) x by auto
  have none: "map_of xs k = None" if "k \<le> i" using gt that unfolding map_of_eq_None_iff by (metis leD)
  show ?case
  proof (cases "i = k")
    case True
    with none IH x assms(3) show ?thesis by simp
  next
    case False
    then have "(k \<le> i) = (m \<le> i)" using Cons.prems(2) x by auto
    with False none IH x show ?thesis by (cases "k \<le> i") auto
  qed
qed simp

lemma blocks_at_step:
  assumes "on_grid g c" "k mod live_interval c = g"
  shows "blocks_at k c = (case node k c of None \<Rightarrow> [] | Some b \<Rightarrow> [(k, b)]) @ blocks_at (k + live_interval c) c"
proof -
  have "j = k \<or> k + live_interval c \<le> j" if "j \<in> fst ` set (block_nodes c)" "k \<le> j" for j
  proof -
    have "live_interval c dvd j - k" using assms that by (metis mod_eq_dvd_iff_nat on_grid_def)
    then show ?thesis using that(2) by (cases "j = k") (auto dest: dvd_imp_le)
  qed
  then have "\<forall>j \<in> fst ` set (block_nodes c). (k \<le> j) = (j = k \<or> k + live_interval c \<le> j)" by auto
  then show ?thesis
    unfolding blocks_at_def node_def using assms(1) by (intro filter_sorted_split) (auto simp: on_grid_def)
qed

lemma last_id:
  assumes "sorted_wrt (<) (map fst (block_nodes c))" "block_nodes c \<noteq> []"
  shows "GetCacheLastBlockId c \<in> fst ` set (block_nodes c)" "\<forall>j \<in> fst ` set (block_nodes c). j \<le> GetCacheLastBlockId c"
proof -
  obtain xs x where xs: "block_nodes c = xs @ [x]" using assms(2) by (meson rev_exhaust)
  then show "GetCacheLastBlockId c \<in> fst ` set (block_nodes c)" "\<forall>j \<in> fst ` set (block_nodes c). j \<le> GetCacheLastBlockId c"
    using assms(1) by (auto simp: GetCacheLastBlockId_def sorted_wrt_append less_imp_le)
qed

lemma le_last_iff:
  assumes "on_grid g c" "0 < k \<or> block_nodes c \<noteq> []"
  shows "k \<le> GetCacheLastBlockId c \<longleftrightarrow> blocks_at k c \<noteq> []"
proof (cases "block_nodes c = []")
  case True
  with assms(2) show ?thesis by (simp add: blocks_at_def GetCacheLastBlockId_def)
next
  case False
  note l = last_id [OF _ False]
  from l(1) obtain b where "(GetCacheLastBlockId c, b) \<in> set (block_nodes c)" using assms(1) by (auto simp: on_grid_def)
  with l(2) assms(1) show ?thesis by (fastforce simp: blocks_at_def on_grid_def filter_empty_conv)
qed

lemma next_id_grid:
  assumes "on_grid g c" "block_nodes c \<noteq> []" "k \<le> GetCacheLastBlockId c"
  shows "next_id k c = k + live_interval c"
  using last_id(1) [of c] assms by (force simp: on_grid_def next_id_def)

lemma score_loop_eq:
  assumes "on_grid g c" "block_nodes c \<noteq> []" "sorted points" "k mod live_interval c = g" "\<forall>j \<in> fst ` set scores. j < k"
    and "sorted_wrt (<) (map fst scores)"
  shows "score_loop c points (GetCacheLastBlockId c) k scores =
    Some (Inr (scores @ map (\<lambda>(j, _). (j, score_of points (GetCacheLastBlockId c) j)) (blocks_at k c)))"
  using assms(4-)
proof (induction "Suc (GetCacheLastBlockId c) - k" arbitrary: k scores rule: less_induct)
  case less
  let ?l = "GetCacheLastBlockId c" and ?iv = "live_interval c"
  show ?case
  proof (cases "k \<le> ?l")
    case False
    with le_last_iff [OF assms(1), of k] assms(2) show ?thesis by (subst score_loop.simps) simp
  next
    case True
    have iv: "0 < ?iv" using assms(1) by (simp add: on_grid_def)
    note nx = next_id_grid [OF assms(1,2) True]
    have k: "k < 2 ^ 32" using last_id(1) [OF _ assms(2)] assms(1) True by (force simp: on_grid_def)
    have IH: "score_loop c points ?l (k + ?iv) sc =
        Some (Inr (sc @ map (\<lambda>(j, _). (j, score_of points ?l j)) (blocks_at (k + ?iv) c)))"
      if "\<forall>j \<in> fst ` set sc. j < k + ?iv" "sorted_wrt (<) (map fst sc)" for sc
      using True iv less.prems(1) that by (intro less.hyps) auto
    show ?thesis
    proof (cases "node k c")
      case None
      have "\<forall>j \<in> fst ` set scores. j < k + ?iv" using less.prems(2) by auto
      from IH [OF this less.prems(3)] None True nx blocks_at_step [OF assms(1) less.prems(1)] show ?thesis
        by (subst score_loop.simps) (simp add: BlockExists_def)
    next
      case (Some b)
      let ?sc = "scores @ [(k, score_of points ?l k)]"
      have "\<forall>j \<in> fst ` set ?sc. j < k + ?iv" using less.prems(2) iv by auto
      moreover have "sorted_wrt (<) (map fst ?sc)" using less.prems(2,3) by (simp add: sorted_wrt_append)
      moreover have "put_sorted k (score_of points ?l k) scores = ?sc" using less.prems(2) by (simp add: put_sorted_last)
      ultimately show ?thesis
        using IH [of ?sc] Some True nx blocks_at_step [OF assms(1) less.prems(1)] block_score_eq [OF assms(3) k, of ?l]
        by (subst score_loop.simps) (simp add: BlockExists_def)
    qed
  qed
qed

definition count_size :: "protocol_lib \<Rightarrow> nat \<times> nat \<Rightarrow> nat \<times> live_block \<Rightarrow> nat \<times> nat" where
  "count_size lib acc e =
     (if GetBlockSizeInBytes lib (snd e) > 0 then (fst acc + 1, snd acc + GetBlockSizeInBytes lib (snd e)) else acc)"

lemma average_loop_eq:
  assumes "on_grid g c" "block_nodes c \<noteq> []" "k mod live_interval c = g"
  shows "average_loop lib c k acc = Some (foldl (count_size lib) acc (blocks_at k c))"
  using assms(3)
proof (induction "Suc (GetCacheLastBlockId c) - k" arbitrary: k acc rule: less_induct)
  case less
  show ?case
  proof (cases "k \<le> GetCacheLastBlockId c")
    case False
    with le_last_iff [OF assms(1), of k] assms(2) show ?thesis by (subst average_loop.simps) simp
  next
    case True
    have IH: "average_loop lib c (k + live_interval c) a =
        Some (foldl (count_size lib) a (blocks_at (k + live_interval c) c))" for a
      using True assms(1) less.prems by (intro less.hyps) (auto simp: on_grid_def)
    show ?thesis
      using True IH next_id_grid [OF assms(1,2) True] blocks_at_step [OF assms(1) less.prems]
      by (subst average_loop.simps) (auto simp: cache_GetBlockSizeInBytes_def count_size_def split: option.splits)
  qed
qed

text \<open>The table of the scores of the blocks in the cache.\<close>

definition score_table :: "(nat \<Rightarrow> nat) \<Rightarrow> (nat \<times> live_block) list \<Rightarrow> (nat \<times> nat) list" where
  "score_table sc nodes = map (\<lambda>(j, _). (j, sc j)) nodes"

lemma map_of_score_table: "map_of (score_table sc nodes) k = (if k \<in> fst ` set nodes then Some (sc k) else None)"
  by (induction nodes) (auto simp: score_table_def)

lemma filter_score_table:
  "filter (\<lambda>(j, _). P j) (score_table sc nodes) = score_table sc (filter (\<lambda>(j, _). P j) nodes)"
  by (induction nodes) (auto simp: score_table_def)

lemma on_grid_filter: "on_grid g c \<Longrightarrow> on_grid g (c\<lparr>block_nodes := filter P (block_nodes c)\<rparr>)"
  by (auto simp: on_grid_def sorted_wrt_map sorted_wrt_filter)

lemma node_keys: "node k c \<noteq> None \<longleftrightarrow> k \<in> fst ` set (block_nodes c)"
  by (simp add: node_def map_of_eq_None_iff)

lemma filter_keys:
  "(\<And>j. j \<in> fst ` set xs \<Longrightarrow> P j = Q j) \<Longrightarrow> filter (\<lambda>(j, _). P j) xs = filter (\<lambda>(j, _). Q j) xs"
  "filter (\<lambda>(j, _). P j) (filter (\<lambda>(j, _). Q j) xs) = filter (\<lambda>(j, _). Q j \<and> P j) xs"
  by (induction xs) auto

definition positive_from :: "(nat \<Rightarrow> nat) \<Rightarrow> nat \<Rightarrow> live_cache \<Rightarrow> live_cache" where
  "positive_from sc k c = c\<lparr>block_nodes := filter (\<lambda>(j, _). j < k \<or> 0 < sc j) (block_nodes c)\<rparr>"

lemma drop_loop_eq:
  assumes "on_grid g c" "k mod live_interval c = g" "0 < k \<or> block_nodes c \<noteq> []" "\<forall>j \<in> fst ` set (block_nodes c). j \<le> n"
  shows "drop_loop k c (score_table sc (block_nodes c)) =
    Some (positive_from sc k c, score_table sc (block_nodes (positive_from sc k c)))"
  using assms
proof (induction "Suc n - k" arbitrary: k c rule: less_induct)
  case less
  let ?iv = "live_interval c" and ?t = "score_table sc (block_nodes c)"
  note grid = less.prems(1)
  show ?case
  proof (cases "k \<le> GetCacheLastBlockId c")
    case False
    then have "blocks_at k c = []" using le_last_iff [OF grid less.prems(3)] by simp
    then have "\<forall>(j, b) \<in> set (block_nodes c). j < k" by (auto simp: blocks_at_def filter_empty_conv)
    then have "filter (\<lambda>(j, _). j < k \<or> 0 < sc j) (block_nodes c) = block_nodes c" by (auto intro!: filter_True)
    then have "positive_from sc k c = c" by (simp add: positive_from_def)
    with False show ?thesis by (subst drop_loop.simps) simp
  next
    case True
    have ne: "block_nodes c \<noteq> []" using True le_last_iff [OF grid less.prems(3)] by (auto simp: blocks_at_def)
    have iv: "0 < ?iv" and s: "sorted_wrt (<) (map fst (block_nodes c))" using grid by (simp_all add: on_grid_def)
    have kn: "k \<le> n" using True last_id(1) [OF s ne] less.prems(4) by force
    have nx: "next_id k c' = k + ?iv" if "live_interval c' = ?iv" for c'
      using next_id_grid [OF grid ne True] that by (simp add: next_id_def)
    have gap: "j < k \<or> j = k \<or> k + ?iv \<le> j" if "j \<in> fst ` set (block_nodes c)" for j
    proof (cases "k \<le> j")
      case True
      have "?iv dvd j - k" using grid less.prems(2) that True by (metis mod_eq_dvd_iff_nat on_grid_def)
      then show ?thesis using True by (cases "j = k") (auto dest: dvd_imp_le)
    qed simp
    have IH: "drop_loop (k + ?iv) c' (score_table sc (block_nodes c')) =
        Some (positive_from sc (k + ?iv) c', score_table sc (block_nodes (positive_from sc (k + ?iv) c')))"
      if "c' = c\<lparr>block_nodes := filter P (block_nodes c)\<rparr>" for c' P
      using less.prems that kn iv by (intro less.hyps) (auto simp: on_grid_filter)
    let ?r = "snd (RemoveBlock k c)"
    have r: "?r = c\<lparr>block_nodes := filter (\<lambda>(j, _). j \<noteq> k) (block_nodes c)\<rparr>" by (simp add: RemoveBlock_def)
    have rt: "filter (\<lambda>(j, _). j \<noteq> k) ?t = score_table sc (block_nodes ?r)" by (simp add: r filter_score_table)
    have drop: "positive_from sc (k + ?iv) ?r = positive_from sc k c" if "k \<in> fst ` set (block_nodes c) \<longrightarrow> sc k = 0"
    proof -
      have "filter (\<lambda>(j, _). j \<noteq> k \<and> (j < k + ?iv \<or> 0 < sc j)) (block_nodes c) =
          filter (\<lambda>(j, _). j < k \<or> 0 < sc j) (block_nodes c)"
        by (rule filter_keys(1)) (use gap that iv in fastforce)
      then show ?thesis by (simp add: positive_from_def r filter_keys(2) del: filter_filter)
    qed
    consider (keep) "k \<in> fst ` set (block_nodes c)" "sc k \<noteq> 0" | (zero) "k \<in> fst ` set (block_nodes c)" "sc k = 0"
      | (absent) "k \<notin> fst ` set (block_nodes c)" by blast
    then show ?thesis
    proof cases
      case keep
      have "positive_from sc (k + ?iv) c = positive_from sc k c"
      proof -
        have "filter (\<lambda>(j, _). j < k + ?iv \<or> 0 < sc j) (block_nodes c) = filter (\<lambda>(j, _). j < k \<or> 0 < sc j) (block_nodes c)"
          by (rule filter_keys(1)) (use gap keep iv in fastforce)
        then show ?thesis by (simp add: positive_from_def)
      qed
      then show ?thesis
        using True keep nx IH [of c "\<lambda>_. True"] by (subst drop_loop.simps) (simp add: map_of_score_table)
    next
      case zero
      then show ?thesis
        using True nx [of ?r] IH [of ?r, OF r] drop rt by (subst drop_loop.simps) (simp add: map_of_score_table Let_def r)
    next
      case absent
      then have "filter (\<lambda>(j, _). j \<noteq> k) (block_nodes c) = block_nodes c" by (force intro!: filter_True)
      then have "?r = c" by (simp add: r)
      then show ?thesis
        using True absent nx IH [of c "\<lambda>_. True"] drop by (subst drop_loop.simps) (simp add: map_of_score_table Let_def)
    qed
  qed
qed

lemma fold_RemoveBlock:
  "fold (\<lambda>(k, _) c. snd (RemoveBlock k c)) xs c = c\<lparr>block_nodes := filter (\<lambda>(j, _). j \<notin> fst ` set xs) (block_nodes c)\<rparr>"
proof (induction xs arbitrary: c)
  case (Cons x xs)
  then show ?case by (cases x) (auto simp: RemoveBlock_def filter_filter intro!: arg_cong [of _ _ "\<lambda>n. block_nodes_update n c"] filter_cong)
qed simp

section \<open>What a quota leaves\<close>

definition channel_ok :: "live_instance \<Rightarrow> bool" where
  "channel_ok li = ((\<exists>g. on_grid g (instance_cache li)) \<and> length (block_nodes (instance_cache li)) < 2 ^ 16)"

definition importance :: "live_instance \<Rightarrow> nat \<Rightarrow> nat" where
  "importance li = score_of (GetSortedPlayPoints li) (GetCacheLastBlockId (instance_cache li))"

definition average_size :: "protocol_lib \<Rightarrow> live_cache \<Rightarrow> nat" where
  "average_size lib c =
     (case foldl (count_size lib) (0, 0) (block_nodes c) of (n, bytes) \<Rightarrow> if n = 0 then 0 else bytes div n)"

lemma all_blocks:
  assumes "on_grid g c" "block_nodes c \<noteq> []"
  shows "blocks_at (GetCacheFirstBlockId c) c = block_nodes c" "GetCacheFirstBlockId c mod live_interval c = g"
    "\<forall>(j, _) \<in> set (block_nodes c). GetCacheFirstBlockId c \<le> j"
proof -
  obtain k b xs where xs: "block_nodes c = (k, b) # xs" using assms(2) by (cases "block_nodes c") auto
  then show "GetCacheFirstBlockId c mod live_interval c = g" using assms(1) by (simp add: GetCacheFirstBlockId_def on_grid_def)
  have "\<forall>(j, _) \<in> set (block_nodes c). k \<le> j" using assms(1) xs by (auto simp: on_grid_def less_imp_le)
  then show "\<forall>(j, _) \<in> set (block_nodes c). GetCacheFirstBlockId c \<le> j" using xs by (simp add: GetCacheFirstBlockId_def)
  then show "blocks_at (GetCacheFirstBlockId c) c = block_nodes c"
    by (auto simp: blocks_at_def intro!: filter_True)
qed

lemma BuildScores_eq:
  assumes "channel_ok li"
  shows "BuildBlocksImportanceScore li = Some (Inr (score_table (importance li) (block_nodes (instance_cache li))))"
proof (cases "block_nodes (instance_cache li) = []")
  case True
  then show ?thesis by (simp add: BuildBlocksImportanceScore_def GetCacheSize_def score_table_def)
next
  case False
  obtain g where g: "on_grid g (instance_cache li)" using assms by (auto simp: channel_ok_def)
  have "sorted (GetSortedPlayPoints li)" by (simp add: GetSortedPlayPoints_def)
  from score_loop_eq [OF g False this all_blocks(2) [OF g False], of "[]"] all_blocks(1) [OF g False] show ?thesis
    using assms False by (simp add: BuildBlocksImportanceScore_def GetCacheSize_def channel_ok_def importance_def score_table_def Let_def)
qed

lemma average_eq:
  assumes "channel_ok li"
  shows "GetAverageBlockSize lib li = Some (average_size lib (instance_cache li))"
proof (cases "block_nodes (instance_cache li) = []")
  case True
  then show ?thesis by (simp add: GetAverageBlockSize_def GetCacheSize_def average_size_def)
next
  case False
  obtain g where g: "on_grid g (instance_cache li)" using assms by (auto simp: channel_ok_def)
  from average_loop_eq [OF g False all_blocks(2) [OF g False], of lib "(0, 0)"] all_blocks(1) [OF g False] show ?thesis
    using assms False by (simp add: GetAverageBlockSize_def GetCacheSize_def channel_ok_def average_size_def)
qed

definition blocks_quota :: "protocol_lib \<Rightarrow> nat \<Rightarrow> live_cache \<Rightarrow> nat" where
  "blocks_quota lib quota c =
     (if quota = 0 \<or> average_size lib c = 0 then 0 else (quota + average_size lib c - 1) div average_size lib c)"

lemma quota_eq: "channel_ok li \<Longrightarrow> GetBlocksQuota lib quota li = Some (blocks_quota lib quota (instance_cache li))"
  by (simp add: GetBlocksQuota_def average_eq blocks_quota_def)

text \<open>The blocks that stay when \<open>q\<close> blocks may stay: those with a positive score, and of these the best.\<close>

definition surviving :: "(nat \<Rightarrow> nat) \<Rightarrow> nat \<Rightarrow> (nat \<times> live_block) list \<Rightarrow> (nat \<times> live_block) list" where
  "surviving sc q nodes =
     (let pos = filter (\<lambda>(j, _). 0 < sc j) nodes;
          gone = take (length pos - q) (sort_key snd (score_table sc pos))
      in filter (\<lambda>(j, _). j \<notin> fst ` set gone) pos)"

lemma SetMemoryQuota_eq:
  assumes "channel_ok li"
  defines "c \<equiv> instance_cache li"
  shows "SetMemoryQuota lib quota li =
    Some (Inr (if length (block_nodes c) \<le> blocks_quota lib quota c then li
               else li\<lparr>instance_cache := c\<lparr>block_nodes := surviving (importance li) (blocks_quota lib quota c) (block_nodes c)\<rparr>\<rparr>))"
proof (cases "length (block_nodes c) \<le> blocks_quota lib quota c")
  case True
  with assms quota_eq [OF assms(1)] show ?thesis
    by (simp add: SetMemoryQuota_def GetCacheSize_def channel_ok_def c_def)
next
  case False
  let ?sc = "importance li" and ?q = "blocks_quota lib quota c"
  have ne: "block_nodes c \<noteq> []" using False by auto
  obtain g where g: "on_grid g c" using assms by (auto simp: channel_ok_def)
  define f where "f = GetCacheFirstBlockId c"
  let ?p = "positive_from ?sc f c"
  have first: "\<forall>(j, _) \<in> set (block_nodes c). f \<le> j"
    using all_blocks(3) [OF g ne] by (simp add: f_def)
  define pos where "pos = filter (\<lambda>(j, _). 0 < ?sc j) (block_nodes c)"
  have "filter (\<lambda>(j, _). j < f \<or> 0 < ?sc j) (block_nodes c) = pos"
    unfolding pos_def by (rule filter_keys(1)) (use first in auto)
  then have p: "?p = c\<lparr>block_nodes := pos\<rparr>" by (simp add: positive_from_def)
  have "\<forall>j \<in> fst ` set (block_nodes c). j \<le> GetCacheLastBlockId c" using last_id(2) [OF _ ne] g by (simp add: on_grid_def)
  from drop_loop_eq [OF g _ _ this, of f ?sc] all_blocks(2) [OF g ne] ne
  have loop: "drop_loop f c (score_table ?sc (block_nodes c)) = Some (?p, score_table ?sc (block_nodes ?p))"
    by (simp add: f_def)
  have len: "length pos < 2 ^ 16"
    unfolding pos_def by (rule order_le_less_trans [OF length_filter_le]) (use assms(1) in \<open>simp add: channel_ok_def c_def\<close>)
  have "(if GetCacheSize ?p > ?q then drop_least (GetCacheSize ?p - ?q) (score_table ?sc (block_nodes ?p)) ?p else ?p) =
      c\<lparr>block_nodes := surviving ?sc ?q (block_nodes c)\<rparr>"
    unfolding p using len
    by (auto simp: GetCacheSize_def drop_least_def fold_RemoveBlock surviving_def Let_def filter_True simp flip: pos_def)
  moreover have "GetCacheSize c = length (block_nodes c)" using assms(1) by (simp add: GetCacheSize_def channel_ok_def c_def)
  ultimately show ?thesis
    using False quota_eq [OF assms(1)] BuildScores_eq [OF assms(1)] loop
    by (simp add: SetMemoryQuota_def Let_def flip: c_def f_def)
qed

text \<open>Dropping the first \<open>n\<close> of a list with distinct keys.\<close>

lemma filter_not_taken:
  assumes "distinct (map fst xs)"
  shows "filter (\<lambda>(j, _). j \<notin> fst ` set (take n xs)) xs = drop n xs"
  using assms
proof (induction xs arbitrary: n)
  case (Cons x xs)
  show ?case
  proof (cases n)
    case (Suc m)
    have "filter (\<lambda>(j, _). j \<notin> fst ` set (take (Suc m) (x # xs))) xs = filter (\<lambda>(j, _). j \<notin> fst ` set (take m xs)) xs"
    proof (rule filter_keys(1))
      fix j assume "j \<in> fst ` set xs"
      moreover have "fst x \<notin> fst ` set xs" using Cons.prems by simp
      ultimately have "j \<noteq> fst x" by metis
      then show "(j \<notin> fst ` set (take (Suc m) (x # xs))) = (j \<notin> fst ` set (take m xs))" by simp
    qed
    also have "\<dots> = drop m xs" using Cons by simp
    finally show ?thesis unfolding Suc by (cases x) simp
  qed simp
qed simp

lemma survivors:
  fixes sc :: "nat \<Rightarrow> nat" and nodes :: "(nat \<times> live_block) list"
  assumes "sorted_wrt (<) (map fst nodes)"
  defines "pos \<equiv> filter (\<lambda>(j, _). 0 < sc j) nodes"
  shows "length (surviving sc q nodes) = min q (length pos)"
    and "set (surviving sc q nodes) \<subseteq> set pos"
    and "a \<in> set (surviving sc q nodes) \<Longrightarrow> b \<in> set nodes - set (surviving sc q nodes) \<Longrightarrow> sc (fst b) \<le> sc (fst a)"
proof -
  define T where "T = score_table sc pos"
  define S where "S = sort_key snd T"
  define n where "n = length pos - q"
  have dist: "distinct (map fst pos)" unfolding pos_def
    by (rule distinct_map_filter) (use assms(1) strict_sorted_iff in blast)
  have keys: "map fst T = map fst pos" by (simp add: T_def score_table_def case_prod_beta)
  have S: "mset S = mset T" "sorted (map snd S)" by (simp_all add: S_def)
  have "mset (map fst S) = mset (map fst T)" using S(1) by simp
  then have dS: "distinct (map fst S)" using dist keys mset_eq_imp_distinct_iff by metis
  let ?P = "\<lambda>(j, _). j \<notin> fst ` set (take n S)"
  have surv: "surviving sc q nodes = filter (\<lambda>(j, _). j \<notin> fst ` set (take n S)) pos"
    by (simp add: surviving_def Let_def S_def T_def n_def pos_def)
  have "score_table sc (surviving sc q nodes) = filter ?P T" by (simp add: surv T_def filter_score_table)
  moreover have "mset (filter ?P T) = mset (drop n S)"
    using filter_not_taken [OF dS, of n] S(1) by (metis mset_filter)
  ultimately have kept: "mset (score_table sc (surviving sc q nodes)) = mset (drop n S)" by simp
  have "length (surviving sc q nodes) = length (drop n S)"
    using arg_cong [OF kept, of size] by (simp add: score_table_def)
  then show "length (surviving sc q nodes) = min q (length pos)"
    by (simp add: S_def T_def score_table_def n_def min_def)
  show "set (surviving sc q nodes) \<subseteq> set pos" by (auto simp: surv)
  assume a: "a \<in> set (surviving sc q nodes)" and b: "b \<in> set nodes - set (surviving sc q nodes)"
  have "(fst a, sc (fst a)) \<in> set (score_table sc (surviving sc q nodes))"
    using a unfolding score_table_def by (auto simp: case_prod_beta)
  then have a': "(fst a, sc (fst a)) \<in> set (drop n S)" using arg_cong [OF kept, of set_mset] by simp
  show "sc (fst b) \<le> sc (fst a)"
  proof (cases "0 < sc (fst b)")
    case False
    then show ?thesis by simp
  next
    case True
    then have "b \<in> set pos" using b by (auto simp: pos_def case_prod_beta)
    then have "fst b \<in> fst ` set (take n S)" using b by (auto simp: surv case_prod_beta)
    then obtain v where v: "(fst b, v) \<in> set (take n S)" by force
    then have "(fst b, v) \<in> set T" using arg_cong [OF S(1), of set_mset] by (auto dest: in_set_takeD)
    then have "v = sc (fst b)" by (auto simp: T_def score_table_def)
    moreover have "sorted (map snd (take n S) @ map snd (drop n S))" using S(2) by (simp flip: map_append)
    then have "\<forall>x \<in> set (take n S). \<forall>y \<in> set (drop n S). snd x \<le> snd y" by (auto simp: sorted_append)
    with v a' have "v \<le> sc (fst a)" by fastforce
    ultimately show ?thesis by simp
  qed
qed

lemma play_point_importance:
  assumes "k \<in> set (GetSortedPlayPoints li)"
  shows "10 \<le> importance li k"
proof -
  have "point_score k k \<le> sum_list (map (point_score k) (GetSortedPlayPoints li))"
    using assms by (intro member_le_sum_list) auto
  then show ?thesis by (simp add: importance_def score_of_def point_score_def)
qed

lemma wanted_count:
  "length (filter (\<lambda>(_, s). 0 < s \<and> 3 \<le> s) (score_table sc nodes)) = length (filter (\<lambda>(j, _). 3 \<le> sc j) nodes)"
  by (induction nodes) (auto simp: score_table_def)

lemma wanted_positive: "length (filter (\<lambda>(j, _). 3 \<le> sc j) nodes) \<le> length (filter (\<lambda>(j, _). 0 < sc j) nodes)" for sc :: "nat \<Rightarrow> nat"
  by (induction nodes) auto

lemma quota_covers: "n * avg \<le> quota \<Longrightarrow> 0 < avg \<Longrightarrow> n \<le> (quota + avg - 1) div avg" for n :: nat
proof -
  assume a: "n * avg \<le> quota" "0 < avg"
  then have "n * avg div avg \<le> (quota + avg - 1) div avg" by (intro div_le_mono) linarith
  with a(2) show ?thesis by simp
qed

text \<open>Samples: a channel with two blocks, an old one and the one that is played.\<close>

definition sample_channel :: live_instance where
  "sample_channel =
     \<lparr>instance_cache = \<lparr>block_nodes = [(5, sample_b2), (200, sample_b2)], live_interval = 5, cache_rid = sample_rid,
        block_checksum_failed_times = []\<rparr>,
      streams = [(0, \<lparr>pos_block = 200, pos_index = 0, start_block = 200, received = []\<rparr>)], play_timer = True,
      stop_timer = False, listener = True, stopped_notices = 0\<rparr>"

lemma sample_channel_ok: "channel_ok sample_channel"
  by (auto simp: channel_ok_def on_grid_def sample_channel_def)

lemma sample_size: "GetBlockSizeInBytes sample_lib sample_b2 = 2800"
  using sized_header_fields(5) [of 5 1400 3]
  by (simp add: GetBlockSizeInBytes_def sample_b2_def sample_b1_def sample_header_def sample_lib_def)

lemma sample_average: "average_size sample_lib (instance_cache sample_channel) = 2800"
proof -
  have "foldl (count_size sample_lib) (0, 0) (block_nodes (instance_cache sample_channel)) = (2, 5600)"
    by (simp add: count_size_def sample_channel_def sample_size)
  then show ?thesis by (simp add: average_size_def)
qed

lemma sample_importance: "importance sample_channel 5 = 0" "importance sample_channel 200 = 15"
  by (simp_all add: importance_def score_of_def upload_score_def point_score_def GetSortedPlayPoints_def GetAllPlayPoints_def
      GetCacheLastBlockId_def sample_channel_def)

text \<open>A quota of at least the minimum keeps the wanted blocks.\<close>

lemma wanted_blocks_stay:
  assumes "channel_ok li" "GetMemoryUsage lib li = Some (Inr u)" "minimum_size u \<le> quota"
    and "0 < average_size lib (instance_cache li)"
    and "(k, b) \<in> set (block_nodes (instance_cache li))" "3 \<le> importance li k \<or> k \<in> set (GetSortedPlayPoints li)"
  shows "\<exists>li'. SetMemoryQuota lib quota li = Some (Inr li') \<and> (k, b) \<in> set (block_nodes (instance_cache li'))"
proof -
  let ?sc = "importance li" and ?nodes = "block_nodes (instance_cache li)" and ?avg = "average_size lib (instance_cache li)"
  let ?q = "blocks_quota lib quota (instance_cache li)" and ?wanted = "\<lambda>(j, _). 3 \<le> importance li j"
  have k: "3 \<le> ?sc k" using assms(6) play_point_importance by fastforce
  have s: "sorted_wrt (<) (map fst ?nodes)" using assms(1) by (auto simp: channel_ok_def on_grid_def)
  have min: "minimum_size u = length (filter ?wanted ?nodes) * ?avg"
    using assms(2) BuildScores_eq [OF assms(1)] average_eq [OF assms(1)]
    by (auto simp: GetMemoryUsage_def Let_def MostWantedBlocksScoreBar_def wanted_count)
  have "filter ?wanted ?nodes \<noteq> []" using assms(5) k by (auto simp: filter_empty_conv)
  then have "0 < minimum_size u" using min assms(4) by simp
  then have "0 < quota" using assms(3) by linarith
  then have q: "length (filter ?wanted ?nodes) \<le> ?q"
    using quota_covers [of _ ?avg quota] min assms(3,4) by (simp add: blocks_quota_def)
  note set = SetMemoryQuota_eq [OF assms(1), of lib quota]
  show ?thesis
  proof (cases "length ?nodes \<le> ?q")
    case True
    with set assms(5) show ?thesis by simp
  next
    case False
    have "(k, b) \<in> set (surviving ?sc ?q ?nodes)"
    proof (rule ccontr)
      assume gone: "(k, b) \<notin> set (surviving ?sc ?q ?nodes)"
      have "\<forall>a \<in> set (surviving ?sc ?q ?nodes). 3 \<le> ?sc (fst a)"
        using survivors(3) [OF s, where sc = ?sc and q = ?q and b = "(k, b)"] gone assms(5) k by fastforce
      then have all: "set (surviving ?sc ?q ?nodes) \<subseteq> set (filter ?wanted ?nodes) - {(k, b)}"
        using survivors(2) [OF s, of ?sc ?q] gone by (auto simp: subset_iff)
      have d: "distinct ?nodes" using s by (metis distinct_map strict_sorted_iff)
      have "(k, b) \<in> set (filter ?wanted ?nodes)" using assms(5) k by simp
      then have "card (set (filter ?wanted ?nodes) - {(k, b)}) < card (set (filter ?wanted ?nodes))"
        by (intro card_Diff1_less) simp_all
      moreover have "card (set (filter ?wanted ?nodes)) = length (filter ?wanted ?nodes)"
        using d by (intro distinct_card distinct_filter)
      moreover have "card (set (surviving ?sc ?q ?nodes)) = length (surviving ?sc ?q ?nodes)"
        using d unfolding surviving_def Let_def by (intro distinct_card distinct_filter)
      ultimately have less: "length (surviving ?sc ?q ?nodes) < length (filter ?wanted ?nodes)"
        using card_mono [OF _ all] by simp
      have "length (filter ?wanted ?nodes) \<le> length (filter (\<lambda>(j, _). 0 < ?sc j) ?nodes)"
        by (rule wanted_positive)
      with less q survivors(1) [OF s, of ?sc ?q] show False by simp
    qed
    with False set show ?thesis by simp
  qed
qed

section \<open>Properties\<close>

text \<open>A quota is kept by dropping the least important blocks.  \<^verbatim>\<open>SetMemoryQuota\<close> returns; a channel within its
  quota is not changed; otherwise at most as many blocks stay as the quota allows, only blocks with a positive
  score, no fewer than there are of these or the quota allows, and no dropped block is more important than one that
  stays, where the importance is the upload score plus the sum of the scores for all players.\<close>

theorem quota_drops_least_important:
  assumes "channel_ok li" "q = blocks_quota lib quota (instance_cache li)" "nodes = block_nodes (instance_cache li)"
  shows "\<exists>li'. SetMemoryQuota lib quota li = Some (Inr li') \<and>
    (if length nodes \<le> q then li' = li
     else length (block_nodes (instance_cache li')) = min q (length (filter (\<lambda>(k, _). 0 < importance li k) nodes)) \<and>
       set (block_nodes (instance_cache li')) \<subseteq> set nodes \<and>
       (\<forall>a \<in> set (block_nodes (instance_cache li')). 0 < importance li (fst a) \<and>
         (\<forall>b \<in> set nodes - set (block_nodes (instance_cache li')). importance li (fst b) \<le> importance li (fst a))))"
proof -
  have s: "sorted_wrt (<) (map fst nodes)" using assms(1) by (auto simp: channel_ok_def on_grid_def assms(3))
  note surv = survivors [OF s, where sc = "importance li" and q = q]
  have set: "SetMemoryQuota lib quota li =
    Some (Inr (if length nodes \<le> q then li else li\<lparr>instance_cache := instance_cache li\<lparr>block_nodes := surviving (importance li) q nodes\<rparr>\<rparr>))"
    using SetMemoryQuota_eq [OF assms(1), of lib quota] by (simp add: assms(2,3))
  show ?thesis
  proof (cases "length nodes \<le> q")
    case True
    with set show ?thesis by simp
  next
    case False
    have "\<forall>a \<in> set (surviving (importance li) q nodes). 0 < importance li (fst a)"
      "set (surviving (importance li) q nodes) \<subseteq> set nodes" using surv(2) by (auto simp: subset_iff)
    with False set surv(1,3) show ?thesis by (intro exI [of _ "li\<lparr>instance_cache := instance_cache li\<lparr>block_nodes := surviving (importance li) q nodes\<rparr>\<rparr>"]) simp
  qed
qed

theorem quota_drops_least_important_witness:
  "\<exists>li'. SetMemoryQuota sample_lib 2800 sample_channel = Some (Inr li') \<and>
    length (block_nodes (instance_cache li')) = 1 \<and>
    (\<forall>a \<in> set (block_nodes (instance_cache li')). 0 < importance sample_channel (fst a))"
proof -
  have "blocks_quota sample_lib 2800 (instance_cache sample_channel) = 1" by (simp add: blocks_quota_def sample_average)
  moreover have "length (block_nodes (instance_cache sample_channel)) = 2"
    "length (filter (\<lambda>(k, _). 0 < importance sample_channel k) (block_nodes (instance_cache sample_channel))) = 1"
    using sample_importance by (simp_all add: sample_channel_def [THEN arg_cong, of "\<lambda>x. block_nodes (instance_cache x)"])
  ultimately show ?thesis
    using quota_drops_least_important [OF sample_channel_ok refl refl, of sample_lib 2800] by auto
qed

text \<open>The minimum a channel asks for is enough to keep what it needs: when it gets a quota of at least the
  \<^verbatim>\<open>GetMinimumSize\<close> of its own \<^verbatim>\<open>GetMemoryUsage\<close>, every block of importance 3 or more stays, and so does the block
  at the playing position of every stream.\<close>

theorem most_wanted_blocks_stay:
  assumes "channel_ok li" "GetMemoryUsage lib li = Some (Inr u)" "minimum_size u \<le> quota"
    and "0 < average_size lib (instance_cache li)"
    and "(k, b) \<in> set (block_nodes (instance_cache li))" "3 \<le> importance li k \<or> k \<in> set (GetSortedPlayPoints li)"
  shows "\<exists>li'. SetMemoryQuota lib quota li = Some (Inr li') \<and> (k, b) \<in> set (block_nodes (instance_cache li'))"
  by (rule wanted_blocks_stay [OF assms])

theorem most_wanted_blocks_stay_witness:
  "\<exists>li'. SetMemoryQuota sample_lib 2800 sample_channel = Some (Inr li') \<and> (200, sample_b2) \<in> set (block_nodes (instance_cache li'))"
proof -
  let ?n = "block_nodes (instance_cache sample_channel)"
  have n: "?n = [(5, sample_b2), (200, sample_b2)]" by (simp add: sample_channel_def)
  obtain u where u: "GetMemoryUsage sample_lib sample_channel = Some (Inr u)" "minimum_size u = 2800"
    using BuildScores_eq [OF sample_channel_ok] average_eq [OF sample_channel_ok, of sample_lib] sample_average sample_importance
    by (auto simp: GetMemoryUsage_def Let_def MostWantedBlocksScoreBar_def score_table_def n)
  show ?thesis
    by (rule most_wanted_blocks_stay [OF sample_channel_ok u(1)])
      (use u(2) sample_average sample_importance n in simp_all)
qed

text \<open>As long as no block of a channel has its header, every quota, however large, drops all its blocks, those at
  the playing positions too, since the average block size is taken to be 0.\<close>

theorem headerless_channel_loses_all:
  assumes "channel_ok li" "\<forall>(k, b) \<in> set (block_nodes (instance_cache li)). header b = None"
  shows "\<exists>li'. SetMemoryQuota lib quota li = Some (Inr li') \<and> block_nodes (instance_cache li') = []"
proof -
  have "foldl (count_size lib) acc xs = acc" if "\<forall>(k, b) \<in> set xs. header b = None" for acc xs
    using that by (induction xs) (auto simp: count_size_def GetBlockSizeInBytes_def)
  then have "blocks_quota lib quota (instance_cache li) = 0" using assms(2) by (simp add: blocks_quota_def average_size_def)
  moreover have "surviving (importance li) 0 (block_nodes (instance_cache li)) = []"
  proof -
    have "sorted_wrt (<) (map fst (block_nodes (instance_cache li)))" using assms(1) by (auto simp: channel_ok_def on_grid_def)
    from survivors(1) [OF this, of "importance li" 0] show ?thesis by simp
  qed
  ultimately show ?thesis using SetMemoryQuota_eq [OF assms(1), of lib quota] by simp
qed

definition headless_channel :: live_instance where
  "headless_channel =
     sample_channel\<lparr>instance_cache := (instance_cache sample_channel)\<lparr>block_nodes := [(200, live_block_new 200 sample_rid)]\<rparr>\<rparr>"

theorem headerless_channel_loses_all_witness:
  "GetAllPlayPoints headless_channel = [(200, 0)] \<and> BlockExists 200 (instance_cache headless_channel) \<and>
   (\<exists>li'. SetMemoryQuota sample_lib (20 * 1024 * 1024) headless_channel = Some (Inr li') \<and>
      \<not> BlockExists 200 (instance_cache li'))"
proof -
  have "channel_ok headless_channel" by (auto simp: channel_ok_def on_grid_def headless_channel_def sample_channel_def)
  then have "\<exists>li'. SetMemoryQuota sample_lib (20 * 1024 * 1024) headless_channel = Some (Inr li') \<and> block_nodes (instance_cache li') = []"
    by (rule headerless_channel_loses_all) (simp add: headless_channel_def live_block_new_def)
  moreover have "GetAllPlayPoints headless_channel = [(200, 0)]" "BlockExists 200 (instance_cache headless_channel)"
    by (simp_all add: GetAllPlayPoints_def headless_channel_def sample_channel_def BlockExists_def node_def)
  ultimately show ?thesis by (auto simp: BlockExists_def node_def)
qed

end
