(* ===== verification/MemoryQuota.thy ===== *)
theory MemoryQuota
  imports LiveMemory
begin

text \<open>
  \<^verbatim>\<open>storage::MemoryQuotaAssigner\<close> (\<^verbatim>\<open>storage/MemoryQuotaAssigner.h/.cpp\<close>) and \<^verbatim>\<open>storage::MemoryConsumptionMonitor\<close>:
  the memory of the storage is divided among its consumers (\<^verbatim>\<open>IMemoryConsumer\<close>).

  \<^item> A consumer is its place in the vector of consumers; its \<^verbatim>\<open>GetMemoryUsage\<close> is an input, and the result is the
    sequence of the calls of \<^verbatim>\<open>SetMemoryQuota\<close> (consumer, quota).  The locale \<open>memory_consumer\<close> at the end connects
    this with the states of consumers, and is interpreted by the live channels.
  \<^item> The code scales with a \<^verbatim>\<open>double\<close> ratio when the memory does not suffice.  The truncated product is the parameter
    \<open>scaled left needed d\<close>; \<open>scaled_ok\<close> says what the code relies on: it is at most \<open>d\<close>, and exceeds the exact
    quotient by less than 1.  When the memory suffices the ratio \<^verbatim>\<open>1.00000001f\<close> is exactly 1, since a \<^verbatim>\<open>float\<close> has no
    such digit, and the product is exact.
\<close>

section \<open>The assigner\<close>

type_synonym scaling = "nat \<Rightarrow> nat \<Rightarrow> nat \<Rightarrow> nat"

definition scaled_ok :: "scaling \<Rightarrow> bool" where
  "scaled_ok scaled =
     (\<forall>left needed d. 0 < left \<and> left < needed \<and> d \<le> needed \<and> needed < 2 ^ 32 \<longrightarrow>
        scaled left needed d \<le> d \<and> scaled left needed d * needed \<le> left * d + needed)"

record entry =
  consumer :: nat
  usage :: memory_usage
  quota :: nat

record assigner =
  consumption_entries :: "MemoryUsagePriority \<Rightarrow> entry list"
  quota_left :: nat
  calls :: "(nat \<times> nat) list"

text \<open>\<^verbatim>\<open>BuildConsumptionEntries\<close>: one consumer after the other.\<close>

definition build_entry :: "nat \<times> memory_usage \<Rightarrow> assigner action" where
  "build_entry cu a =
     (case cu of (i, u) \<Rightarrow>
        if priority u = NONE
        then if minimum_size u \<noteq> 0 \<or> desirable_size u \<noteq> 0 then Inl AssertionFailed
             else Inr (a\<lparr>calls := calls a @ [(i, 0)]\<rparr>)
        else
          let e = \<lparr>consumer = i, usage = u, quota = minimum_size u\<rparr>
          in Inr (a\<lparr>quota_left := (if quota_left a > minimum_size u then quota_left a - minimum_size u else 0),
                   consumption_entries :=
                     (consumption_entries a)(priority u := consumption_entries a (priority u) @ [e])\<rparr>))"

definition BuildConsumptionEntries :: "memory_usage list \<Rightarrow> assigner action" where
  "BuildConsumptionEntries us a = seq (map build_entry (List.enumerate 0 us)) (a\<lparr>consumption_entries := (\<lambda>_. [])\<rparr>)"

definition additional :: "entry \<Rightarrow> nat" where
  "additional e = desirable_size (usage e) - minimum_size (usage e)"

definition entries_ok :: "entry list \<Rightarrow> bool" where
  "entries_ok es = list_all (\<lambda>e. minimum_size (usage e) \<le> desirable_size (usage e)) es"

text \<open>
  \<^verbatim>\<open>AssignQuotaUpToDesirableBytes\<close>: from the highest priority to the lowest, over the priorities that have entries.
\<close>

fun assign_priorities :: "scaling \<Rightarrow> MemoryUsagePriority list \<Rightarrow> assigner action" where
  "assign_priorities scaled [] a = Inr a"
| "assign_priorities scaled (p # ps) a =
     (let es = consumption_entries a p; needed = sum_list (map additional es) mod 2 ^ 32
      in if \<not> entries_ok es \<or> quota_left a = 0 then Inl AssertionFailed
         else
           let give = (if needed > quota_left a then scaled (quota_left a) needed else (\<lambda>d. d));
               a1 = a\<lparr>quota_left := (if needed > quota_left a then 0 else quota_left a - needed),
                      consumption_entries :=
                        (consumption_entries a)(p := map (\<lambda>e. e\<lparr>quota := quota e + give (additional e)\<rparr>) es)\<rparr>
           in if quota_left a1 = 0 then Inr a1 else assign_priorities scaled ps a1)"

definition AssignQuotaUpToDesirableBytes :: "scaling \<Rightarrow> assigner action" where
  "AssignQuotaUpToDesirableBytes scaled a =
     (if quota_left a = 0 then Inr a
      else assign_priorities scaled (filter (\<lambda>p. consumption_entries a p \<noteq> []) [HIGH, NORMAL, LOW]) a)"

definition tell_quotas :: "assigner \<Rightarrow> (nat \<times> nat) list" where
  "tell_quotas a = calls a @ concat (map (\<lambda>p. map (\<lambda>e. (consumer e, quota e)) (consumption_entries a p)) [LOW, NORMAL, HIGH])"

definition AssignQuota :: "scaling \<Rightarrow> nat \<Rightarrow> memory_usage list \<Rightarrow> (nat \<times> nat) list result" where
  "AssignQuota scaled overall_bytes us =
     and_then
       (seq [BuildConsumptionEntries us, AssignQuotaUpToDesirableBytes scaled]
          \<lparr>consumption_entries = (\<lambda>_. []), quota_left = overall_bytes, calls = []\<rparr>)
       (\<lambda>a. Inr (tell_quotas a))"

section \<open>Every consumer gets what it must have\<close>

text \<open>Usages that a consumer may report.\<close>

definition usage_ok :: "memory_usage \<Rightarrow> bool" where
  "usage_ok u = (minimum_size u \<le> desirable_size u \<and> (priority u = NONE \<longrightarrow> desirable_size u = 0))"

text \<open>The entry lists after building: the consumers of each priority in their order.\<close>

definition entries_of :: "(nat \<times> memory_usage) list \<Rightarrow> MemoryUsagePriority \<Rightarrow> entry list" where
  "entries_of cus p =
     map (\<lambda>(i, u). \<lparr>consumer = i, usage = u, quota = minimum_size u\<rparr>) (filter (\<lambda>(i, u). priority u = p) cus)"

definition minimum_of :: "(nat \<times> memory_usage) list \<Rightarrow> nat" where
  "minimum_of cus = sum_list (map (\<lambda>(i, u). minimum_size u) cus)"

lemma build_eq:
  assumes "list_all (\<lambda>(i, u). usage_ok u) cus"
  shows "seq (map build_entry cus) a =
    Inr (a\<lparr>consumption_entries := (\<lambda>p. consumption_entries a p @ (if p = NONE then [] else entries_of cus p)),
           quota_left := quota_left a - minimum_of cus,
           calls := calls a @ map (\<lambda>(i, u). (i, 0)) (filter (\<lambda>(i, u). priority u = NONE) cus)\<rparr>)"
  using assms
proof (induction cus arbitrary: a)
  case Nil
  have "(\<lambda>p. consumption_entries a p @ (if p = NONE then [] else entries_of [] p)) = consumption_entries a"
    by (simp add: entries_of_def fun_eq_iff)
  then show ?case by (simp add: minimum_of_def)
next
  case (Cons cu cus)
  obtain i u where cu: "cu = (i, u)" by (cases cu)
  show ?case
  proof (cases "priority u = NONE")
    case True
    with Cons.prems cu have "minimum_size u = 0" "desirable_size u = 0" by (simp_all add: usage_ok_def)
    with True Cons cu show ?thesis
      by (simp add: build_entry_def entries_of_def minimum_of_def fun_eq_iff)
  next
    case False
    with Cons cu show ?thesis
      by (simp add: build_entry_def entries_of_def minimum_of_def fun_eq_iff Let_def)
  qed
qed

text \<open>An entry whose quota is what its consumer may get.\<close>

definition served :: "entry \<Rightarrow> entry \<Rightarrow> bool" where
  "served e0 e =
     (consumer e = consumer e0 \<and> usage e = usage e0 \<and> minimum_size (usage e0) \<le> quota e \<and> quota e \<le> desirable_size (usage e0))"

definition fresh :: "entry list \<Rightarrow> bool" where
  "fresh es = list_all (\<lambda>e. quota e = minimum_size (usage e)) es"

definition quotas :: "entry list \<Rightarrow> nat" where
  "quotas es = sum_list (map quota es)"

text \<open>No entry of a lower priority gets more than its minimum while one of a higher priority lacks something.\<close>

definition gives_way :: "entry list \<Rightarrow> entry list \<Rightarrow> bool" where
  "gives_way lower higher =
     ((\<exists>e \<in> set higher. quota e < desirable_size (usage e)) \<longrightarrow> fresh lower)"

lemma served_refl: "entries_ok es \<Longrightarrow> fresh es \<Longrightarrow> list_all2 served es es"
  by (induction es) (auto simp: served_def entries_ok_def fresh_def)

lemma sum_scaled:
  assumes "\<forall>e \<in> set es. give (additional e) * needed \<le> left * additional e + needed"
  shows "sum_list (map (\<lambda>e. give (additional e)) es) * needed \<le> left * sum_list (map additional es) + length es * needed"
  using assms by (induction es) (auto simp: algebra_simps)

lemma give_more:
  assumes "entries_ok es" "fresh es" "\<forall>e \<in> set es. give (additional e) \<le> additional e"
  shows "list_all2 served es (map (\<lambda>e. e\<lparr>quota := quota e + give (additional e)\<rparr>) es)"
    and "quotas (map (\<lambda>e. e\<lparr>quota := quota e + give (additional e)\<rparr>) es) =
      quotas es + sum_list (map (\<lambda>e. give (additional e)) es)"
  using assms
  by (induction es) (auto simp: served_def entries_ok_def fresh_def quotas_def additional_def list_all2_map2)

lemma member_le_total: "e \<in> set es \<Longrightarrow> additional e \<le> sum_list (map additional es)"
  by (induction es) auto

text \<open>The entries \<open>E\<close> of the priorities \<open>ps\<close>, highest first, and what becomes of them with \<open>left\<close> bytes to give.\<close>

definition assigned ::
    "nat \<Rightarrow> MemoryUsagePriority list \<Rightarrow> (MemoryUsagePriority \<Rightarrow> entry list) \<Rightarrow> (MemoryUsagePriority \<Rightarrow> entry list) \<Rightarrow> bool" where
  "assigned left ps E E' =
     ((\<forall>p. if p \<in> set ps then list_all2 served (E p) (E' p) else E' p = E p) \<and>
      sum_list (map (\<lambda>p. quotas (E' p)) ps) \<le> sum_list (map (\<lambda>p. quotas (E p) + length (E p)) ps) + left \<and>
      sorted_wrt (\<lambda>p p'. gives_way (E' p') (E' p)) ps)"

definition unassigned :: "MemoryUsagePriority list \<Rightarrow> (MemoryUsagePriority \<Rightarrow> entry list) \<Rightarrow> bool" where
  "unassigned ps E =
     (distinct ps \<and> (\<forall>p \<in> set ps. entries_ok (E p) \<and> fresh (E p) \<and> sum_list (map additional (E p)) < 2 ^ 32))"

lemma gives_way_fresh: "fresh es \<Longrightarrow> gives_way es es'"
  by (simp add: gives_way_def)

lemma unassigned_Cons:
  "unassigned (p # ps) E \<longleftrightarrow>
     p \<notin> set ps \<and> entries_ok (E p) \<and> fresh (E p) \<and> sum_list (map additional (E p)) < 2 ^ 32 \<and> unassigned ps E"
  by (auto simp: unassigned_def)

lemma unassigned_other: "p \<notin> set ps \<Longrightarrow> unassigned ps (E(p := es)) = unassigned ps E"
  by (auto simp: unassigned_def)

lemma assigned_stop:
  assumes "unassigned (p # ps) E" "list_all2 served (E p) new" "quotas new \<le> quotas (E p) + length (E p) + left"
  shows "assigned left (p # ps) E (E(p := new))"
proof -
  have p: "p \<notin> set ps" and rest: "\<forall>p' \<in> set ps. fresh (E p') \<and> entries_ok (E p')"
    using assms(1) by (auto simp: unassigned_def)
  have other: "map (\<lambda>q. quotas ((E(p := new)) q)) ps = map (\<lambda>q. quotas (E q)) ps" using p by simp
  have "sum_list (map (\<lambda>q. quotas (E q)) ps) \<le> sum_list (map (\<lambda>q. quotas (E q) + length (E q)) ps)"
    by (rule sum_list_mono) simp
  then have "sum_list (map (\<lambda>q. quotas ((E(p := new)) q)) (p # ps)) \<le>
      sum_list (map (\<lambda>q. quotas (E q) + length (E q)) (p # ps)) + left"
    using assms(3) unfolding list.map other by simp
  moreover have "sorted_wrt (\<lambda>q q'. gives_way ((E(p := new)) q') ((E(p := new)) q)) (p # ps)"
    using rest p by (auto intro!: gives_way_fresh simp: sorted_wrt_iff_nth_less)
  ultimately show ?thesis
    using assms(2) p rest served_refl unfolding assigned_def by auto
qed

lemma assigned_step:
  assumes "unassigned (p # ps) E" "list_all2 served (E p) new" "quotas new \<le> quotas (E p) + length (E p) + n" "n \<le> left"
    and "\<forall>e \<in> set new. \<not> quota e < desirable_size (usage e)" "assigned (left - n) ps (E(p := new)) E'"
  shows "assigned left (p # ps) E E'"
proof -
  have p: "p \<notin> set ps" using assms(1) by (simp add: unassigned_def)
  have E': "E' p = new" using assms(6) p by (auto simp: assigned_def split: if_splits)
  have "if q \<in> set (p # ps) then list_all2 served (E q) (E' q) else E' q = E q" for q
    using assms(2,6) p E' by (cases "q = p") (auto simp: assigned_def split: if_splits)
  moreover have "map (\<lambda>q. quotas ((E(p := new)) q) + length ((E(p := new)) q)) ps = map (\<lambda>q. quotas (E q) + length (E q)) ps"
    using p by simp
  from assms(6) [unfolded assigned_def this]
  have "sum_list (map (\<lambda>q. quotas (E' q)) ps) \<le> sum_list (map (\<lambda>q. quotas (E q) + length (E q)) ps) + (left - n)"
    by blast
  moreover have "sorted_wrt (\<lambda>q q'. gives_way (E' q') (E' q)) (p # ps)"
    using assms(5,6) E' by (simp add: assigned_def gives_way_def)
  ultimately show ?thesis using assms(3,4) E' by (simp add: assigned_def)
qed

lemma assign_ok:
  assumes "scaled_ok scaled" "unassigned ps (consumption_entries a)" "0 < quota_left a"
  shows "\<exists>a'. assign_priorities scaled ps a = Inr a' \<and> calls a' = calls a \<and>
    assigned (quota_left a) ps (consumption_entries a) (consumption_entries a')"
  using assms(2-)
proof (induction ps arbitrary: a)
  case Nil
  then show ?case by (simp add: assigned_def)
next
  case (Cons p ps)
  let ?E = "consumption_entries a" and ?es = "consumption_entries a p"
  define n where "n = sum_list (map additional ?es)"
  have es: "entries_ok ?es" "fresh ?es" "n mod 2 ^ 32 = n" "n < 2 ^ 32" "p \<notin> set ps" "unassigned ps ?E"
    using Cons.prems(1) by (simp_all add: unassigned_Cons n_def)
  define give where "give = (if n > quota_left a then scaled (quota_left a) n else (\<lambda>d. d))"
  define new where "new = map (\<lambda>e. e\<lparr>quota := quota e + give (additional e)\<rparr>) ?es"
  define a1 where "a1 = a\<lparr>quota_left := (if n > quota_left a then 0 else quota_left a - n), consumption_entries := ?E(p := new)\<rparr>"
  have step: "assign_priorities scaled (p # ps) a = (if quota_left a1 = 0 then Inr a1 else assign_priorities scaled ps a1)"
    using es Cons.prems(2) by (simp add: Let_def a1_def new_def give_def flip: n_def)
  have s: "give (additional e) \<le> additional e" "n > quota_left a \<Longrightarrow> give (additional e) * n \<le> quota_left a * additional e + n"
    if "e \<in> set ?es" for e
    using assms(1) Cons.prems(2) es(4) member_le_total [OF that] by (auto simp: scaled_ok_def give_def n_def)
  note more = give_more [OF es(1,2), of give, folded new_def]
  have served: "list_all2 served ?es new" using more(1) s(1) by blast
  have total: "quotas new = quotas ?es + sum_list (map (\<lambda>e. give (additional e)) ?es)" using more(2) s(1) by blast
  have "sum_list (map (\<lambda>e. give (additional e)) ?es) \<le> length ?es + quota_left a \<and>
      (n \<le> quota_left a \<longrightarrow> sum_list (map (\<lambda>e. give (additional e)) ?es) = n)"
  proof (cases "n > quota_left a")
    case True
    have "sum_list (map (\<lambda>e. give (additional e)) ?es) * n \<le> (quota_left a + length ?es) * n"
      using sum_scaled [of ?es give n "quota_left a"] s(2) [OF _ True] by (simp add: distrib_right flip: n_def)
    with True show ?thesis by simp
  next
    case False
    then show ?thesis by (simp add: give_def n_def)
  qed
  with total have bound: "quotas new \<le> quotas ?es + length ?es + quota_left a"
    "n \<le> quota_left a \<Longrightarrow> quotas new \<le> quotas ?es + length ?es + n" by simp_all
  show ?case
  proof (cases "quota_left a1 = 0")
    case True
    then show ?thesis
      using step assigned_stop [OF Cons.prems(1) served bound(1)] by (auto simp: a1_def)
  next
    case False
    then have n: "n \<le> quota_left a" "quota_left a1 = quota_left a - n" by (auto simp: a1_def split: if_splits)
    have full: "\<forall>e \<in> set new. \<not> quota e < desirable_size (usage e)"
      using n(1) es(2) by (auto simp: new_def give_def additional_def fresh_def list_all_iff)
    have "unassigned ps (consumption_entries a1)" using es(5,6) by (simp add: a1_def unassigned_other)
    from Cons.IH [OF this] False obtain a' where a': "assign_priorities scaled ps a1 = Inr a'" "calls a' = calls a1"
        "assigned (quota_left a1) ps (consumption_entries a1) (consumption_entries a')" by auto
    have "assigned (quota_left a - n) ps (?E(p := new)) (consumption_entries a')"
      using a'(3) unfolding n(2) by (simp add: a1_def)
    from assigned_step [OF Cons.prems(1) served bound(2) [OF n(1)] n(1) full this] show ?thesis
      using step False a'(1,2) by (simp add: a1_def)
  qed
qed

section \<open>The result\<close>

text \<open>The values of the enumeration order the priorities.\<close>

fun rank :: "MemoryUsagePriority \<Rightarrow> nat" where
  "rank NONE = 0" | "rank LOW = 10" | "rank NORMAL = 20" | "rank HIGH = 30"

lemma rank_eq: "rank p = rank q \<longleftrightarrow> p = q"
  by (cases p; cases q) simp_all

instantiation MemoryUsagePriority :: linorder
begin

definition less_eq_MemoryUsagePriority :: "MemoryUsagePriority \<Rightarrow> MemoryUsagePriority \<Rightarrow> bool" where
  "less_eq_MemoryUsagePriority p q = (rank p \<le> rank q)"

definition less_MemoryUsagePriority :: "MemoryUsagePriority \<Rightarrow> MemoryUsagePriority \<Rightarrow> bool" where
  "less_MemoryUsagePriority p q = (rank p < rank q)"

instance
  by standard (auto simp: less_eq_MemoryUsagePriority_def less_MemoryUsagePriority_def rank_eq)

end

definition numbered :: "memory_usage list \<Rightarrow> (nat \<times> memory_usage) list" where
  "numbered us = List.enumerate 0 us"

lemma in_numbered: "(i, u) \<in> set (numbered us) \<longleftrightarrow> i < length us \<and> u = us ! i"
  by (auto simp: numbered_def in_set_enumerate_eq)

definition start_entries :: "memory_usage list \<Rightarrow> MemoryUsagePriority \<Rightarrow> entry list" where
  "start_entries us p = (if p = NONE then [] else entries_of (numbered us) p)"

lemma start_entry:
  assumes "e \<in> set (start_entries us p)"
  shows "consumer e < length us" "usage e = us ! consumer e" "priority (usage e) = p" "quota e = minimum_size (usage e)" "p \<noteq> NONE"
  using assms by (auto simp: start_entries_def entries_of_def in_numbered split: if_splits)

lemma served_entry:
  assumes "list_all2 served (start_entries us p) es" "e \<in> set es"
  shows "consumer e < length us" "usage e = us ! consumer e" "priority (usage e) = p"
    "minimum_size (usage e) \<le> quota e" "quota e \<le> desirable_size (usage e)"
proof -
  obtain e0 where "e0 \<in> set (start_entries us p)" "served e0 e" using assms by (metis in_set_conv_nth list_all2_conv_all_nth)
  with start_entry [of e0 us p] show "consumer e < length us" "usage e = us ! consumer e" "priority (usage e) = p"
    "minimum_size (usage e) \<le> quota e" "quota e \<le> desirable_size (usage e)" by (auto simp: served_def)
qed

lemma sum_enumerate: "(\<Sum>(i, u) \<leftarrow> List.enumerate n us. f u) = (\<Sum>u \<leftarrow> us. f u)" for f :: "'u \<Rightarrow> nat"
  by (induction us arbitrary: n) auto

text \<open>The calls: first those with 0, then the entries from the lowest priority to the highest.\<close>

definition result_calls :: "memory_usage list \<Rightarrow> (MemoryUsagePriority \<Rightarrow> entry list) \<Rightarrow> (nat \<times> nat) list" where
  "result_calls us E =
     map (\<lambda>(i, u). (i, 0)) (filter (\<lambda>(i, u). priority u = NONE) (numbered us)) @
     concat (map (\<lambda>p. map (\<lambda>e. (consumer e, quota e)) (E p)) [LOW, NORMAL, HIGH])"

definition good_result :: "nat \<Rightarrow> memory_usage list \<Rightarrow> (MemoryUsagePriority \<Rightarrow> entry list) \<Rightarrow> bool" where
  "good_result left us E =
     ((\<forall>p. list_all2 served (start_entries us p) (E p)) \<and>
      (\<Sum>p \<leftarrow> [HIGH, NORMAL, LOW]. quotas (E p)) \<le>
        (\<Sum>p \<leftarrow> [HIGH, NORMAL, LOW]. quotas (start_entries us p) + length (start_entries us p)) + left \<and>
      gives_way (E NORMAL) (E HIGH) \<and> gives_way (E LOW) (E HIGH) \<and> gives_way (E LOW) (E NORMAL))"

lemma start_unassigned:
  assumes "\<forall>u \<in> set us. usage_ok u" "(\<Sum>u \<leftarrow> us. desirable_size u) < 2 ^ 32"
  shows "entries_ok (start_entries us p)" "fresh (start_entries us p)"
    "sum_list (map additional (start_entries us p)) < 2 ^ 32"
proof -
  have u: "usage e \<in> set us" if "e \<in> set (start_entries us p)" for e
    using start_entry(1,2) [OF that] by (metis nth_mem)
  then show "entries_ok (start_entries us p)" using assms(1) by (auto simp: entries_ok_def list_all_iff usage_ok_def)
  show "fresh (start_entries us p)" using start_entry(4) by (auto simp: fresh_def list_all_iff)
  have "sum_list (map additional (entries_of cus p)) \<le> (\<Sum>(i, u) \<leftarrow> cus. desirable_size u)" for cus
    by (induction cus) (auto simp: entries_of_def additional_def)
  from this [of "numbered us"] have "sum_list (map additional (entries_of (numbered us) p)) < 2 ^ 32"
    unfolding numbered_def sum_enumerate using assms(2) by linarith
  then show "sum_list (map additional (start_entries us p)) < 2 ^ 32" by (simp add: start_entries_def)
qed

lemma start_totals:
  assumes "\<forall>u \<in> set us. usage_ok u"
  shows "(\<Sum>p \<leftarrow> [HIGH, NORMAL, LOW]. quotas (start_entries us p)) = (\<Sum>u \<leftarrow> us. minimum_size u)"
    "(\<Sum>p \<leftarrow> [HIGH, NORMAL, LOW]. length (start_entries us p)) \<le> length us"
    "minimum_of (numbered us) = (\<Sum>u \<leftarrow> us. minimum_size u)"
proof -
  have "(\<Sum>p \<leftarrow> [HIGH, NORMAL, LOW]. quotas (entries_of cus p)) = minimum_of cus"
    if "\<forall>(i, u) \<in> set cus. usage_ok u" for cus
    using that
  proof (induction cus)
    case (Cons cu cus)
    obtain i u where cu: "cu = (i, u)" by (cases cu)
    then have "priority u = NONE \<longrightarrow> minimum_size u = 0" using Cons.prems by (auto simp: usage_ok_def)
    with Cons cu show ?case by (cases "priority u") (auto simp: entries_of_def quotas_def minimum_of_def)
  qed (simp add: entries_of_def quotas_def minimum_of_def)
  moreover have "\<forall>(i, u) \<in> set (numbered us). usage_ok u" using assms by (auto simp: in_numbered)
  moreover show m: "minimum_of (numbered us) = (\<Sum>u \<leftarrow> us. minimum_size u)"
    by (simp add: minimum_of_def numbered_def sum_enumerate)
  ultimately show "(\<Sum>p \<leftarrow> [HIGH, NORMAL, LOW]. quotas (start_entries us p)) = (\<Sum>u \<leftarrow> us. minimum_size u)"
    by (simp add: start_entries_def)
  have "length (entries_of cus HIGH) + length (entries_of cus NORMAL) + length (entries_of cus LOW) \<le> length cus" for cus
    by (induction cus) (auto simp: entries_of_def)
  from this [of "numbered us"] show "(\<Sum>p \<leftarrow> [HIGH, NORMAL, LOW]. length (start_entries us p)) \<le> length us"
    by (simp add: start_entries_def numbered_def)
qed

lemma sum_list_filter_zero:
  "\<forall>x \<in> set xs. \<not> P x \<longrightarrow> f x = 0 \<Longrightarrow> sum_list (map f (filter P xs)) = sum_list (map f xs)" for f :: "'b \<Rightarrow> nat"
  by (induction xs) auto

lemma assigned_good:
  assumes "assigned left (filter (\<lambda>p. start_entries us p \<noteq> []) [HIGH, NORMAL, LOW]) (start_entries us) E"
    and "\<And>p. list_all2 served (start_entries us p) (start_entries us p)"
  shows "good_result left us E"
proof -
  let ?P = "\<lambda>p. start_entries us p \<noteq> []" and ?all = "[HIGH, NORMAL, LOW]"
  have served: "list_all2 served (start_entries us p) (E p)" for p
    using assms by (cases "p \<in> set (filter ?P ?all)") (simp_all add: assigned_def)
  have none: "E p = []" if "start_entries us p = []" for p using served [of p] that by simp
  have "sum_list (map (\<lambda>p. quotas (E p)) (filter ?P ?all)) = sum_list (map (\<lambda>p. quotas (E p)) ?all)"
    by (rule sum_list_filter_zero) (simp add: none quotas_def)
  moreover have "sum_list (map (\<lambda>p. quotas (start_entries us p) + length (start_entries us p)) (filter ?P ?all)) =
      sum_list (map (\<lambda>p. quotas (start_entries us p) + length (start_entries us p)) ?all)"
    by (rule sum_list_filter_zero) (simp add: quotas_def)
  ultimately have total: "(\<Sum>p \<leftarrow> ?all. quotas (E p)) \<le> (\<Sum>p \<leftarrow> ?all. quotas (start_entries us p) + length (start_entries us p)) + left"
    using assms(1) unfolding assigned_def by metis
  have "sorted_wrt (\<lambda>p p'. gives_way (E p') (E p)) (filter ?P ?all)" using assms(1) by (simp add: assigned_def)
  moreover have "gives_way (E p') (E p)" if "start_entries us p = [] \<or> start_entries us p' = []" for p p'
    using that none by (auto simp: gives_way_def fresh_def)
  ultimately have "gives_way (E NORMAL) (E HIGH) \<and> gives_way (E LOW) (E HIGH) \<and> gives_way (E LOW) (E NORMAL)"
    by (auto split: if_splits)
  with served total show ?thesis by (simp add: good_result_def)
qed

text \<open>No priority is served before those above it have all they want.\<close>

lemma AssignQuota_good:
  assumes "scaled_ok scaled" "\<forall>u \<in> set us. usage_ok u" "(\<Sum>u \<leftarrow> us. desirable_size u) < 2 ^ 32"
  shows "\<exists>E. AssignQuota scaled overall_bytes us = Inr (result_calls us E) \<and>
    good_result (overall_bytes - (\<Sum>u \<leftarrow> us. minimum_size u)) us E"
proof -
  let ?a = "\<lparr>consumption_entries = start_entries us, quota_left = overall_bytes - minimum_of (numbered us),
      calls = map (\<lambda>(i, u). (i, 0)) (filter (\<lambda>(i, u). priority u = NONE) (numbered us))\<rparr>"
  let ?left = "overall_bytes - minimum_of (numbered us)"
  note start = start_unassigned [OF assms(2,3)]
  have "list_all (\<lambda>(i, u). usage_ok u) (numbered us)" using assms(2) by (auto simp: list_all_iff in_numbered)
  from build_eq [OF this] have build: "BuildConsumptionEntries us \<lparr>consumption_entries = \<lambda>_. [], quota_left = overall_bytes, calls = []\<rparr> = Inr ?a"
    by (simp add: BuildConsumptionEntries_def start_entries_def [abs_def] numbered_def)
  have self: "list_all2 served (start_entries us p) (start_entries us p)" for p
    using start by (intro served_refl) auto
  have "\<exists>a'. AssignQuotaUpToDesirableBytes scaled ?a = Inr a' \<and> calls a' = calls ?a \<and>
      good_result ?left us (consumption_entries a')"
  proof (cases "?left = 0")
    case True
    have "good_result 0 us (start_entries us)" using self start(2) by (simp add: good_result_def gives_way_fresh)
    with True show ?thesis by (simp add: AssignQuotaUpToDesirableBytes_def)
  next
    case False
    let ?ps = "filter (\<lambda>p. start_entries us p \<noteq> []) [HIGH, NORMAL, LOW]"
    have "unassigned ?ps (start_entries us)" using start by (auto simp: unassigned_def)
    from assign_ok [OF assms(1), of ?ps ?a] this False obtain a' where
      a': "assign_priorities scaled ?ps ?a = Inr a'" "calls a' = calls ?a"
        "assigned ?left ?ps (start_entries us) (consumption_entries a')" by auto
    have "good_result ?left us (consumption_entries a')" by (rule assigned_good [OF a'(3) self])
    with a' False show ?thesis by (auto simp: AssignQuotaUpToDesirableBytes_def simp del: filter.simps)
  qed
  then obtain a' where a': "AssignQuotaUpToDesirableBytes scaled ?a = Inr a'" "calls a' = calls ?a"
      "good_result ?left us (consumption_entries a')" by blast
  have "AssignQuota scaled overall_bytes us = Inr (tell_quotas a')" using build a'(1) by (simp add: AssignQuota_def)
  moreover have "tell_quotas a' = result_calls us (consumption_entries a')" using a'(2) by (simp add: tell_quotas_def result_calls_def)
  ultimately show ?thesis using a'(3) start_totals(3) [OF assms(2)] by auto
qed

lemma map_consumer: "list_all2 served es0 es \<Longrightarrow> map consumer es = map consumer es0"
  by (induction rule: list_all2_induct) (simp_all add: served_def)

lemma result_consumers:
  assumes "good_result left us E"
  shows "mset (map fst (result_calls us E)) = mset [0..<length us]"
proof -
  have "map consumer (E p) = map consumer (start_entries us p)" for p
    using assms by (intro map_consumer) (simp add: good_result_def)
  moreover have "map consumer (start_entries us p) = map fst (filter (\<lambda>(i, u). priority u = p) (numbered us))" if "p \<noteq> NONE" for p
    using that by (simp add: start_entries_def entries_of_def case_prod_beta comp_def)
  ultimately have "map fst (result_calls us E) =
      concat (map (\<lambda>p. map fst (filter (\<lambda>(i, u). priority u = p) (numbered us))) [NONE, LOW, NORMAL, HIGH])"
    by (simp add: result_calls_def comp_def case_prod_beta)
  moreover have "mset (concat (map (\<lambda>p. map fst (filter (\<lambda>(i, u). priority u = p) cus)) [NONE, LOW, NORMAL, HIGH])) =
      mset (map fst cus)" for cus :: "(nat \<times> memory_usage) list"
  proof (induction cus)
    case (Cons cu cus)
    then show ?case by (cases "priority (snd cu)") (auto simp: case_prod_beta)
  qed simp
  moreover have "map fst (numbered us) = [0..<length us]" by (simp add: numbered_def enumerate_eq_zip)
  ultimately show ?thesis by metis
qed

lemma result_entry:
  assumes "good_result left us E" "(i, q) \<in> set (result_calls us E)"
  shows "i < length us \<and> (q = 0 \<and> priority (us ! i) = NONE \<or>
    (\<exists>p e. e \<in> set (E p) \<and> consumer e = i \<and> quota e = q \<and> usage e = us ! i \<and> p = priority (us ! i) \<and>
       minimum_size (us ! i) \<le> q \<and> q \<le> desirable_size (us ! i)))"
proof -
  have served: "list_all2 served (start_entries us p) (E p)" for p using assms(1) by (simp add: good_result_def)
  consider "q = 0" "i < length us" "priority (us ! i) = NONE" | p e where "e \<in> set (E p)" "consumer e = i" "quota e = q"
    using assms(2) by (auto simp: result_calls_def in_numbered)
  then show ?thesis
  proof cases
    case 1
    then show ?thesis by simp
  next
    case (2 p e)
    with served_entry [OF served 2(1)] show ?thesis by auto
  qed
qed

section \<open>The monitor\<close>

text \<open>
  \<^verbatim>\<open>MemoryConsumptionMonitor::AssignQuota\<close> with the states of the consumers: they are asked for their usage and told their quota.
\<close>

fun ask_all :: "('s \<Rightarrow> 'a result option) \<Rightarrow> 's list \<Rightarrow> 'a list result option" where
  "ask_all get [] = Some (Inr [])"
| "ask_all get (s # ss) =
     (case get s of
        None \<Rightarrow> None
      | Some (Inl e) \<Rightarrow> Some (Inl e)
      | Some (Inr u) \<Rightarrow>
          (case ask_all get ss of None \<Rightarrow> None | Some (Inl e) \<Rightarrow> Some (Inl e) | Some (Inr us) \<Rightarrow> Some (Inr (u # us))))"

fun tell_all :: "(nat \<Rightarrow> 's \<Rightarrow> 's result option) \<Rightarrow> (nat \<times> nat) list \<Rightarrow> 's list \<Rightarrow> 's list result option" where
  "tell_all set_quota [] ss = Some (Inr ss)"
| "tell_all set_quota ((i, q) # qs) ss =
     (case set_quota q (ss ! i) of
        None \<Rightarrow> None
      | Some (Inl e) \<Rightarrow> Some (Inl e)
      | Some (Inr s) \<Rightarrow> tell_all set_quota qs (ss[i := s]))"

definition monitor_AssignQuota ::
    "('s \<Rightarrow> memory_usage result option) \<Rightarrow> (nat \<Rightarrow> 's \<Rightarrow> 's result option) \<Rightarrow> scaling \<Rightarrow> nat \<Rightarrow> 's list \<Rightarrow> 's list result option" where
  "monitor_AssignQuota get_usage set_quota scaled overall_quota_in_bytes ss =
     (case ask_all get_usage ss of
        None \<Rightarrow> None
      | Some (Inl e) \<Rightarrow> Some (Inl e)
      | Some (Inr us) \<Rightarrow>
          (case AssignQuota scaled overall_quota_in_bytes us of
             Inl e \<Rightarrow> Some (Inl e)
           | Inr qs \<Rightarrow> tell_all set_quota qs ss))"

section \<open>How the memory is shared\<close>

lemma AssignQuota_shares:
  assumes "scaled_ok scaled" "\<forall>u \<in> set us. usage_ok u" "(\<Sum>u \<leftarrow> us. desirable_size u) < 2 ^ 32"
  shows "\<exists>qs. AssignQuota scaled overall_bytes us = Inr qs \<and> mset (map fst qs) = mset [0..<length us] \<and>
    (\<forall>(i, q) \<in> set qs. minimum_size (us ! i) \<le> q \<and> q \<le> desirable_size (us ! i)) \<and>
    (\<Sum>(i, q) \<leftarrow> qs. q) \<le> max overall_bytes (\<Sum>u \<leftarrow> us. minimum_size u) + length us \<and>
    (\<forall>(i, q) \<in> set qs. \<forall>(j, r) \<in> set qs.
       q < desirable_size (us ! i) \<and> priority (us ! j) < priority (us ! i) \<longrightarrow> r = minimum_size (us ! j))"
proof -
  let ?min = "\<Sum>u \<leftarrow> us. minimum_size u"
  obtain E where E: "AssignQuota scaled overall_bytes us = Inr (result_calls us E)" "good_result (overall_bytes - ?min) us E"
    using AssignQuota_good [OF assms] by blast
  note entry = result_entry [OF E(2)]
  have none_wanted: "minimum_size (us ! i) = 0 \<and> desirable_size (us ! i) = 0" if "i < length us" "priority (us ! i) = NONE" for i
    using assms(2) that nth_mem [OF that(1)] by (auto simp: usage_ok_def)
  have bounds: "minimum_size (us ! i) \<le> q \<and> q \<le> desirable_size (us ! i)" if "(i, q) \<in> set (result_calls us E)" for i q
  proof (cases "priority (us ! i) = NONE")
    case True
    from entry [OF that] have "i < length us" by blast
    with none_wanted True have none: "minimum_size (us ! i) = 0" "desirable_size (us ! i) = 0" by blast+
    with entry [OF that] have "q = 0" by auto
    with none show ?thesis by simp
  next
    case False
    with entry [OF that] show ?thesis by blast
  qed
  have "(\<Sum>(i, q) \<leftarrow> result_calls us E. q) = (\<Sum>p \<leftarrow> [HIGH, NORMAL, LOW]. quotas (E p))"
    by (simp add: result_calls_def quotas_def case_prod_beta comp_def)
  also have "\<dots> \<le> (\<Sum>p \<leftarrow> [HIGH, NORMAL, LOW]. quotas (start_entries us p)) +
      (\<Sum>p \<leftarrow> [HIGH, NORMAL, LOW]. length (start_entries us p)) + (overall_bytes - ?min)"
    using E(2) by (simp add: good_result_def)
  also have "\<dots> \<le> max overall_bytes ?min + length us"
    using start_totals(1,2) [OF assms(2)] by linarith
  finally have total: "(\<Sum>(i, q) \<leftarrow> result_calls us E. q) \<le> max overall_bytes ?min + length us" .
  have lower: "r = minimum_size (us ! j)"
    if q: "(i, q) \<in> set (result_calls us E)" and r: "(j, r) \<in> set (result_calls us E)"
      and less: "q < desirable_size (us ! i)" "priority (us ! j) < priority (us ! i)" for i q j r
  proof (cases "priority (us ! j) = NONE")
    case True
    from entry [OF r] have "j < length us" by blast
    with none_wanted True have "minimum_size (us ! j) = 0" "desirable_size (us ! j) = 0" by blast+
    with bounds [OF r] show ?thesis by simp
  next
    case False
    have "i < length us" using entry [OF q] by blast
    then have "priority (us ! i) = NONE \<Longrightarrow> desirable_size (us ! i) = 0" by (simp add: none_wanted)
    with less(1) have "priority (us ! i) \<noteq> NONE" by linarith
    with entry [OF q] obtain e where e: "e \<in> set (E (priority (us ! i)))" "quota e = q" "usage e = us ! i" by auto
    from entry [OF r] False obtain f where f: "f \<in> set (E (priority (us ! j)))" "quota f = r" "usage f = us ! j" by auto
    have "gives_way (E (priority (us ! j))) (E (priority (us ! i)))"
      using less(2) False E(2) unfolding good_result_def less_MemoryUsagePriority_def
      by (cases "priority (us ! i)"; cases "priority (us ! j)") simp_all
    moreover have "\<exists>e \<in> set (E (priority (us ! i))). quota e < desirable_size (usage e)" using e less(1) by (intro bexI [of _ e]) simp_all
    ultimately have "fresh (E (priority (us ! j)))" by (simp add: gives_way_def)
    with f show ?thesis by (auto simp: fresh_def list_all_iff)
  qed
  show ?thesis using E(1) result_consumers [OF E(2)] bounds total lower by blast
qed

section \<open>Consumers with their states\<close>

text \<open>
  What the monitor expects of an \<^verbatim>\<open>IMemoryConsumer\<close>: it reports a reasonable usage, and a quota of at least the
  minimum it reported lets it keep the data it needs.  \<open>needs s k\<close>: it has the data \<open>k\<close> and needs it.
\<close>

locale memory_consumer =
  fixes ok :: "'s \<Rightarrow> bool"
    and get_usage :: "'s \<Rightarrow> memory_usage result option"
    and set_quota :: "nat \<Rightarrow> 's \<Rightarrow> 's result option"
    and needs :: "'s \<Rightarrow> 'k \<Rightarrow> bool"
    and holds :: "'s \<Rightarrow> 'k \<Rightarrow> bool"
  assumes reports: "ok s \<Longrightarrow> \<exists>u. get_usage s = Some (Inr u) \<and> usage_ok u"
    and takes: "ok s \<Longrightarrow> \<exists>s'. set_quota q s = Some (Inr s')"
    and keeps: "ok s \<Longrightarrow> get_usage s = Some (Inr u) \<Longrightarrow> minimum_size u \<le> q \<Longrightarrow> set_quota q s = Some (Inr s') \<Longrightarrow>
      needs s k \<Longrightarrow> holds s' k"
begin

lemma ask_all_ok:
  "list_all ok ss \<Longrightarrow> \<exists>us. ask_all get_usage ss = Some (Inr us) \<and> length us = length ss \<and> (\<forall>u \<in> set us. usage_ok u) \<and>
     (\<forall>i < length ss. get_usage (ss ! i) = Some (Inr (us ! i)))"
proof (induction ss)
  case (Cons s ss)
  then obtain us where us: "ask_all get_usage ss = Some (Inr us)" "length us = length ss" "\<forall>u \<in> set us. usage_ok u"
    "\<forall>i < length ss. get_usage (ss ! i) = Some (Inr (us ! i))" by auto
  moreover obtain u where "get_usage s = Some (Inr u)" "usage_ok u" using Cons.prems reports by fastforce
  ultimately show ?case by (intro exI [of _ "u # us"]) (auto simp: nth_Cons split: nat.split)
qed simp

lemma tell_all_ok:
  assumes "distinct (map fst qs)" "\<forall>(i, q) \<in> set qs. i < length ss \<and> ok (ss ! i)"
  shows "\<exists>ss'. tell_all set_quota qs ss = Some (Inr ss') \<and> length ss' = length ss \<and>
    (\<forall>(i, q) \<in> set qs. set_quota q (ss ! i) = Some (Inr (ss' ! i))) \<and>
    (\<forall>i. i \<notin> fst ` set qs \<longrightarrow> ss' ! i = ss ! i)"
  using assms
proof (induction qs arbitrary: ss)
  case (Cons iq qs)
  obtain i q where iq: "iq = (i, q)" by (cases iq)
  with Cons.prems takes obtain s' where s': "set_quota q (ss ! i) = Some (Inr s')" by fastforce
  let ?ss = "ss[i := s']"
  have i: "i < length ss" "i \<notin> fst ` set qs" "distinct (map fst qs)" using Cons.prems iq by auto
  have same: "?ss ! j = ss ! j" if "(j, r) \<in> set qs" for j r using that i(2) by (metis fst_conv image_eqI nth_list_update_neq)
  then have "\<forall>(j, r) \<in> set qs. j < length ?ss \<and> ok (?ss ! j)" using Cons.prems by fastforce
  from Cons.IH [OF i(3) this] obtain ss' where
    ss': "tell_all set_quota qs ?ss = Some (Inr ss')" "length ss' = length ss"
      "\<forall>(j, r) \<in> set qs. set_quota r (?ss ! j) = Some (Inr (ss' ! j))" "\<forall>j. j \<notin> fst ` set qs \<longrightarrow> ss' ! j = ?ss ! j"
    by auto
  have "\<forall>(j, r) \<in> set qs. set_quota r (ss ! j) = Some (Inr (ss' ! j))" using ss'(3) same by fastforce
  moreover have "ss' ! i = s'" using ss'(4) i by simp
  moreover have "\<forall>j. j \<notin> fst ` set (iq # qs) \<longrightarrow> ss' ! j = ss ! j" using ss'(4) iq by (simp add: nth_list_update)
  ultimately show ?case using s' ss'(1,2) iq by auto
qed simp

lemma monitor_keeps:
  assumes "scaled_ok scaled" "list_all ok ss" "\<And>us. ask_all get_usage ss = Some (Inr us) \<Longrightarrow> (\<Sum>u \<leftarrow> us. desirable_size u) < 2 ^ 32"
  shows "\<exists>ss'. monitor_AssignQuota get_usage set_quota scaled overall ss = Some (Inr ss') \<and> length ss' = length ss \<and>
    (\<forall>i < length ss. \<forall>k. needs (ss ! i) k \<longrightarrow> holds (ss' ! i) k)"
proof -
  obtain us where us: "ask_all get_usage ss = Some (Inr us)" "length us = length ss" "\<forall>u \<in> set us. usage_ok u"
    "\<forall>i < length ss. get_usage (ss ! i) = Some (Inr (us ! i))" using ask_all_ok [OF assms(2)] by blast
  from AssignQuota_shares [OF assms(1) us(3) assms(3) [OF us(1)], of overall] obtain qs where
    qs: "AssignQuota scaled overall us = Inr qs" "mset (map fst qs) = mset [0..<length us]"
      "\<forall>(i, q) \<in> set qs. minimum_size (us ! i) \<le> q \<and> q \<le> desirable_size (us ! i)" by blast
  have dist: "distinct (map fst qs)" using qs(2) by (metis distinct_upt mset_eq_imp_distinct_iff)
  have keys: "fst ` set qs = {0..<length ss}" using mset_eq_setD [OF qs(2)] us(2) by simp
  have "\<forall>(i, q) \<in> set qs. i < length ss \<and> ok (ss ! i)"
  proof clarify
    fix i q assume "(i, q) \<in> set qs"
    then have "i \<in> fst ` set qs" by (rule image_eqI [rotated]) simp
    with keys assms(2) show "i < length ss \<and> ok (ss ! i)" by (simp add: list_all_length)
  qed
  from tell_all_ok [OF dist this] obtain ss' where
    ss': "tell_all set_quota qs ss = Some (Inr ss')" "length ss' = length ss"
      "\<forall>(i, q) \<in> set qs. set_quota q (ss ! i) = Some (Inr (ss' ! i))" by blast
  have "holds (ss' ! i) k" if i: "i < length ss" and k: "needs (ss ! i) k" for i k
  proof -
    from i keys obtain q where q: "(i, q) \<in> set qs" by (metis atLeastLessThan_iff imageE le0 prod.collapse)
    with qs(3) ss'(3) have "minimum_size (us ! i) \<le> q" "set_quota q (ss ! i) = Some (Inr (ss' ! i))" by auto
    with keeps us(4) i k assms(2) show ?thesis by (metis list_all_length)
  qed
  with us(1) qs(1) ss'(1,2) show ?thesis by (auto simp: monitor_AssignQuota_def)
qed

end

text \<open>The live channels are consumers.  They need the blocks of importance 3 and more and those being played.\<close>

definition live_ok :: "protocol_lib \<Rightarrow> live_instance \<Rightarrow> bool" where
  "live_ok lib li =
     (channel_ok li \<and> (block_nodes (instance_cache li) \<noteq> [] \<longrightarrow> 0 < average_size lib (instance_cache li)))"

definition live_holds :: "live_instance \<Rightarrow> nat \<times> live_block \<Rightarrow> bool" where
  "live_holds li kb = (kb \<in> set (block_nodes (instance_cache li)))"

definition live_needs :: "live_instance \<Rightarrow> nat \<times> live_block \<Rightarrow> bool" where
  "live_needs li kb = (live_holds li kb \<and> (3 \<le> importance li (fst kb) \<or> fst kb \<in> set (GetSortedPlayPoints li)))"

lemma wanted_le_positive:
  "length (filter (\<lambda>(_, s). 0 < s \<and> 3 \<le> s) scores) \<le> length (filter (\<lambda>(_, s). 0 < s) scores)" for scores :: "(nat \<times> nat) list"
  by (induction scores) auto

interpretation live_consumer: memory_consumer "live_ok lib" "GetMemoryUsage lib" "SetMemoryQuota lib" live_needs live_holds
  for lib :: protocol_lib
proof unfold_locales
  fix s q assume s: "live_ok lib s"
  then have ok: "channel_ok s" by (simp add: live_ok_def)
  show "\<exists>u. GetMemoryUsage lib s = Some (Inr u) \<and> usage_ok u"
    using BuildScores_eq [OF ok] average_eq [OF ok, of lib]
    by (simp add: GetMemoryUsage_def Let_def usage_ok_def MostWantedBlocksScoreBar_def wanted_le_positive)
  show "\<exists>s'. SetMemoryQuota lib q s = Some (Inr s')" by (simp add: SetMemoryQuota_eq [OF ok])
next
  fix s u q s' k
  assume s: "live_ok lib s" and u: "GetMemoryUsage lib s = Some (Inr u)" "minimum_size u \<le> q"
    and s': "SetMemoryQuota lib q s = Some (Inr s')" and k: "live_needs s k"
  then have "\<exists>li'. SetMemoryQuota lib q s = Some (Inr li') \<and> (fst k, snd k) \<in> set (block_nodes (instance_cache li'))"
    by (intro wanted_blocks_stay [OF _ u]) (auto simp: live_ok_def live_needs_def live_holds_def)
  with s' show "live_holds s' k" by (simp add: live_holds_def)
qed

section \<open>Properties\<close>

text \<open>C23: The memory is shared by priority.  Every consumer is told its quota exactly once; it is at least its minimum
  and at most what it wants (0 for those that want nothing); all together get no more than the given memory, or
  the sum of the minima where that is more, up to a byte for each consumer from rounding; and while a consumer
  does not get all it wants, none of a lower priority gets more than its minimum.\<close>

theorem memory_is_shared_by_priority:
  assumes "scaled_ok scaled" "\<forall>u \<in> set us. usage_ok u" "(\<Sum>u \<leftarrow> us. desirable_size u) < 2 ^ 32"
  shows "\<exists>qs. AssignQuota scaled overall_bytes us = Inr qs \<and> mset (map fst qs) = mset [0..<length us] \<and>
    (\<forall>(i, q) \<in> set qs. minimum_size (us ! i) \<le> q \<and> q \<le> desirable_size (us ! i)) \<and>
    (\<Sum>(i, q) \<leftarrow> qs. q) \<le> max overall_bytes (\<Sum>u \<leftarrow> us. minimum_size u) + length us \<and>
    (\<forall>(i, q) \<in> set qs. \<forall>(j, r) \<in> set qs.
       q < desirable_size (us ! i) \<and> priority (us ! j) < priority (us ! i) \<longrightarrow> r = minimum_size (us ! j))"
  by (rule AssignQuota_shares [OF assms])

definition exact_scaling :: scaling where
  "exact_scaling left needed d = left * d div needed"

lemma exact_scaling_ok: "scaled_ok exact_scaling"
proof -
  have "left * d div needed \<le> d" if "left < needed" for left needed d :: nat
  proof -
    have "left * d div needed \<le> needed * d div needed" using that by (intro div_le_mono) simp
    with that show ?thesis by simp
  qed
  moreover have "left * d div needed * needed \<le> left * d + needed" for left needed d :: nat
    by (simp add: trans_le_add1)
  ultimately show ?thesis by (simp add: scaled_ok_def exact_scaling_def)
qed

definition sample_usages :: "memory_usage list" where
  "sample_usages =
     [\<lparr>minimum_size = 100, desirable_size = 400, priority = NORMAL\<rparr>, \<lparr>minimum_size = 50, desirable_size = 250, priority = HIGH\<rparr>,
      \<lparr>minimum_size = 0, desirable_size = 0, priority = NONE\<rparr>, \<lparr>minimum_size = 10, desirable_size = 60, priority = LOW\<rparr>]"

theorem memory_is_shared_by_priority_witness:
  "\<exists>qs. AssignQuota exact_scaling 500 sample_usages = Inr qs \<and> mset (map fst qs) = mset [0..<4] \<and>
    (\<Sum>(i, q) \<leftarrow> qs. q) \<le> 504"
proof -
  have "\<forall>u \<in> set sample_usages. usage_ok u" "(\<Sum>u \<leftarrow> sample_usages. desirable_size u) < 2 ^ 32"
    by (simp_all add: sample_usages_def usage_ok_def)
  from memory_is_shared_by_priority [OF exact_scaling_ok this, of 500] obtain qs where
    "AssignQuota exact_scaling 500 sample_usages = Inr qs" "mset (map fst qs) = mset [0..<length sample_usages]"
    "(\<Sum>(i, q) \<leftarrow> qs. q) \<le> max 500 (\<Sum>u \<leftarrow> sample_usages. minimum_size u) + length sample_usages" by blast
  moreover have "length sample_usages = 4" "(\<Sum>u \<leftarrow> sample_usages. minimum_size u) = 160" by (simp_all add: sample_usages_def)
  ultimately show ?thesis by (intro exI [of _ qs]) simp
qed



end
