(* ===== verification/LiveTime.thy ===== *)
theory LiveTime
  imports Prelude
begin

text \<open>
  The two clocks of a live channel: \<^verbatim>\<open>storage::LivePointTracker\<close> (\<^verbatim>\<open>storage/LivePointTracker.h\<close>), which knows
  where the live broadcast is, and \<^verbatim>\<open>p2sp::RestTimeTracker\<close> (\<^verbatim>\<open>p2sp/download/LiveRestTimeTracker.h/.cpp\<close>), which
  knows for how many seconds the player has data.

  \<^item> A \<^verbatim>\<open>TickCounter\<close> of the framework is the moment of its start or reset, \<open>None\<close> when it is not running.  What
    \<^verbatim>\<open>elapsed()\<close> returns at a later moment is the parameter \<open>elapsed\<close>; \<open>clock_ok\<close> says that these are the
    milliseconds between the two, as long as 32 bits hold them.
  \<^item> The order of live positions is that of \<^verbatim>\<open>protocol::LiveSubPieceInfo\<close>, a parameter; \<open>order_ok\<close> says that
    positions at the start of a block are ordered by the block id.
  \<^item> All numbers are 32-bit words as in the code.
\<close>

section \<open>The live point\<close>

type_synonym moment = nat
type_synonym position = "u32 \<times> u16"

record clock =
  elapsed :: "moment \<Rightarrow> moment \<Rightarrow> u32"

definition clock_ok :: "clock \<Rightarrow> bool" where
  "clock_ok cl = (\<forall>t0 t. t0 \<le> t \<and> t - t0 < 2 ^ 32 \<longrightarrow> unat (elapsed cl t0 t) = t - t0)"

definition order_ok :: "(position \<Rightarrow> position \<Rightarrow> bool) \<Rightarrow> bool" where
  "order_ok lt = (\<forall>a b. lt (a, 0) (b, 0) \<longleftrightarrow> a < b)"

record point_tracker =
  tracker_interval :: u16
  live_point_start :: position
  ticks_since_set :: "moment option"

definition point_tracker_new :: "u16 \<Rightarrow> point_tracker result" where
  "point_tracker_new iv =
     (if iv = 0 then Inl AssertionFailed
      else Inr \<lparr>tracker_interval = iv, live_point_start = (0, 0), ticks_since_set = None\<rparr>)"

definition current_point :: "clock \<Rightarrow> moment \<Rightarrow> bool \<Rightarrow> point_tracker \<Rightarrow> position result" where
  "current_point cl now adjustment_needed tr =
     (let iv = ucast (tracker_interval tr) :: u32 in
      case ticks_since_set tr of
        None \<Rightarrow> Inr (live_point_start tr)
      | Some t0 \<Rightarrow>
          if iv = 0 then Inl AssertionFailed
          else
            let ticks = elapsed cl t0 now + (if adjustment_needed then 500 * iv else 0);
                incremental_blocks = ticks div (iv * 1000)
            in Inr (fst (live_point_start tr) + iv * incremental_blocks, snd (live_point_start tr)))"

definition GetCurrentLivePoint :: "clock \<Rightarrow> moment \<Rightarrow> point_tracker \<Rightarrow> position result" where
  "GetCurrentLivePoint cl now tr = current_point cl now True tr"

definition SetCurrentLivePoint ::
    "clock \<Rightarrow> (position \<Rightarrow> position \<Rightarrow> bool) \<Rightarrow> moment \<Rightarrow> position \<Rightarrow> point_tracker action" where
  "SetCurrentLivePoint cl lt now p tr =
     (if snd p \<noteq> 0 then Inl AssertionFailed
      else
        and_then (current_point cl now False tr) (\<lambda>cur.
          if lt cur p then Inr (tr\<lparr>ticks_since_set := Some now, live_point_start := p\<rparr>) else Inr tr))"

section \<open>The rest time\<close>

record progress =
  block_id :: u32
  percentage :: u32
  progress_interval :: u32

definition progress_le :: "progress \<Rightarrow> progress \<Rightarrow> bool" where
  "progress_le p q = (if block_id p = block_id q then percentage p \<le> percentage q else block_id p \<le> block_id q)"

definition DistanceInSeconds :: "progress \<Rightarrow> progress \<Rightarrow> u32 result" where
  "DistanceInSeconds p last_reset =
     (if \<not> progress_le last_reset p then Inl AssertionFailed
      else if percentage p > percentage last_reset
      then Inr (block_id p - block_id last_reset + (percentage p - percentage last_reset) * progress_interval p div 100)
      else Inr (block_id p - block_id last_reset - (percentage last_reset - percentage p) * progress_interval p div 100))"

record rest_tracker =
  ticks_since_reset :: moment
  current_progress :: progress
  last_reset_progress :: progress
  rest_time :: u32
  rest_interval :: u32
  paused :: bool
  need_calculate :: bool
  pausing_time :: u32

definition rest_Reset :: "moment \<Rightarrow> rest_tracker \<Rightarrow> rest_tracker" where
  "rest_Reset now r =
     r\<lparr>last_reset_progress := current_progress r, ticks_since_reset := now, rest_time := 0, pausing_time := 0\<rparr>"

definition rest_Start :: "moment \<Rightarrow> u32 \<Rightarrow> u32 \<Rightarrow> rest_tracker \<Rightarrow> rest_tracker" where
  "rest_Start now block iv r =
     rest_Reset now (r\<lparr>rest_interval := iv,
       current_progress := \<lparr>block_id = block, percentage = 0, progress_interval = iv\<rparr>\<rparr>)"

definition UpdateCurrentProgress :: "u32 \<Rightarrow> u32 \<Rightarrow> rest_tracker action" where
  "UpdateCurrentProgress block pct r =
     (if pct > 100 then Inl AssertionFailed
      else Inr (r\<lparr>current_progress := \<lparr>block_id = block, percentage = pct, progress_interval = rest_interval r\<rparr>\<rparr>))"

definition CalculateRestTime :: "clock \<Rightarrow> moment \<Rightarrow> rest_tracker action" where
  "CalculateRestTime cl now r =
     and_then (DistanceInSeconds (current_progress r) (last_reset_progress r)) (\<lambda>d.
       let downloaded = d + pausing_time r;
           elapsed_seconds = elapsed cl (ticks_since_reset r) now div 1000
       in if elapsed_seconds \<ge> downloaded then Inr (rest_Reset now r)
          else Inr (r\<lparr>rest_time := downloaded - elapsed_seconds\<rparr>))"

definition GetRestTimeInSeconds :: "clock \<Rightarrow> moment \<Rightarrow> rest_tracker \<Rightarrow> (u32 \<times> rest_tracker) result" where
  "GetRestTimeInSeconds cl now r =
     and_then (if need_calculate r then CalculateRestTime cl now r else Inr r) (\<lambda>r'. Inr (rest_time r', r'))"

definition UpdatePausingTime :: "rest_tracker \<Rightarrow> rest_tracker" where
  "UpdatePausingTime r = (if paused r then r\<lparr>pausing_time := pausing_time r + 1\<rparr> else r)"

definition OnPause :: "bool \<Rightarrow> rest_tracker \<Rightarrow> rest_tracker" where
  "OnPause p r = r\<lparr>paused := p\<rparr>"

definition SetRestTimeInSecond :: "u32 \<Rightarrow> rest_tracker \<Rightarrow> rest_tracker" where
  "SetRestTimeInSecond t r = r\<lparr>need_calculate := False, rest_time := t\<rparr>"

section \<open>The live point is the latest announced\<close>

text \<open>
  A peer hears of live points: the announcement \<open>(t, b)\<close> says that at the moment \<open>t\<close> the broadcast was at
  block \<open>b\<close>.  From then on it moves on by a block of \<open>iv\<close> seconds every \<open>iv\<close> seconds.
\<close>

definition extrapolated :: "nat \<Rightarrow> moment \<Rightarrow> moment \<times> nat \<Rightarrow> nat" where
  "extrapolated iv now a = snd a + iv * ((now - fst a) div (iv * 1000))"

definition latest :: "nat \<Rightarrow> moment \<Rightarrow> (moment \<times> nat) list \<Rightarrow> nat" where
  "latest iv now as = Max (insert 0 (extrapolated iv now ` set as))"

text \<open>Announcements are of blocks of one channel, that is congruent modulo the interval, and not of block 0.\<close>

inductive tracked :: "clock \<Rightarrow> (position \<Rightarrow> position \<Rightarrow> bool) \<Rightarrow> u16 \<Rightarrow> moment \<Rightarrow> (moment \<times> nat) list \<Rightarrow> point_tracker \<Rightarrow> bool"
  for cl lt iv where
  new: "point_tracker_new iv = Inr tr \<Longrightarrow> tracked cl lt iv now [] tr"
| wait: "tracked cl lt iv now as tr \<Longrightarrow> now \<le> now' \<Longrightarrow> tracked cl lt iv now' as tr"
| announce: "tracked cl lt iv now as tr \<Longrightarrow> 0 < b \<Longrightarrow> \<forall>a \<in> set as. unat b mod unat iv = snd a mod unat iv \<Longrightarrow>
    SetCurrentLivePoint cl lt now (b, 0) tr = Inr tr' \<Longrightarrow> tracked cl lt iv now ((now, unat b) # as) tr'"

text \<open>The tracker holds an announcement that no other one overtakes.\<close>

definition holds_latest :: "u16 \<Rightarrow> moment \<Rightarrow> (moment \<times> nat) list \<Rightarrow> point_tracker \<Rightarrow> bool" where
  "holds_latest iv now as tr =
     (tracker_interval tr = iv \<and> iv \<noteq> 0 \<and> snd (live_point_start tr) = 0 \<and>
      (case ticks_since_set tr of
         None \<Rightarrow> as = [] \<and> live_point_start tr = (0, 0)
       | Some t0 \<Rightarrow>
           t0 \<le> now \<and> (t0, unat (fst (live_point_start tr))) \<in> set as \<and>
           (\<forall>a \<in> set as. \<forall>t \<ge> now. extrapolated (unat iv) t a \<le>
              extrapolated (unat iv) t (t0, unat (fst (live_point_start tr))))))"

text \<open>The block ids stay below \<open>2 ^ 32\<close>, and the time in milliseconds, with half an interval, too.\<close>

definition in_range :: "u16 \<Rightarrow> moment \<Rightarrow> (moment \<times> nat) list \<Rightarrow> bool" where
  "in_range iv now as = (now + 500 * unat iv < 2 ^ 32 \<and> (\<forall>a \<in> set as. snd a + now + unat iv < 2 ^ 32))"

lemma in_range_mono: "in_range iv now as \<Longrightarrow> now' \<le> now \<Longrightarrow> set as' \<subseteq> set as \<Longrightarrow> in_range iv now' as'"
  by (fastforce simp: in_range_def)

lemma div_step: "iv * (x div (iv * 1000)) \<le> x" for x :: nat
proof -
  have "iv * (x div (iv * 1000)) \<le> (iv * 1000) * (x div (iv * 1000))" by simp
  also have "\<dots> \<le> x" by (rule times_div_less_eq_dividend)
  finally show ?thesis .
qed

lemma unat_mult_small: "unat a * unat b < 2 ^ 32 \<Longrightarrow> unat (a * b) = unat a * unat b" for a b :: u32
  by (simp add: unat_word_ariths)

lemma unat_add_small: "unat a + unat b < 2 ^ 32 \<Longrightarrow> unat (a + b) = unat a + unat b" for a b :: u32
  by (simp add: unat_word_ariths)

lemma current_point_eq:
  fixes adjustment_needed :: bool
  assumes "clock_ok cl" "ticks_since_set tr = Some t0" "t0 \<le> now" "tracker_interval tr = iv" "iv \<noteq> 0"
    and "now + 500 * unat iv < 2 ^ 32" "unat (fst (live_point_start tr)) + now + unat iv < 2 ^ 32"
  defines "adj \<equiv> if adjustment_needed then 500 * unat iv else 0"
  shows "\<exists>w. current_point cl now adjustment_needed tr = Inr (w, snd (live_point_start tr)) \<and>
    unat w = unat (fst (live_point_start tr)) + unat iv * ((now - t0 + adj) div (unat iv * 1000))"
proof -
  let ?iv = "ucast iv :: u32" and ?adj = "if adjustment_needed then 500 * ucast iv else 0 :: u32"
  have lt: "unat iv < 2 ^ 16" by (rule order_less_le_trans [OF unsigned_less]) simp
  then have iv: "unat ?iv = unat iv" "unat iv < 2 ^ 16" by (simp_all add: unat_ucast_small)
  then have "?iv \<noteq> 0" using assms(5) by (metis unat_eq_zero)
  have "unat (500 * ?iv) = 500 * unat iv" "unat (?iv * 1000) = unat iv * 1000"
    using iv unat_mult_small [of 500 ?iv] unat_mult_small [of ?iv 1000] by simp_all
  then have parts: "unat ?adj = adj" "unat (?iv * 1000) = unat iv * 1000" by (simp_all add: adj_def)
  have e: "unat (elapsed cl t0 now) = now - t0" using assms(1,3,6) by (simp add: clock_ok_def)
  have adj: "adj \<le> 500 * unat iv" by (simp add: adj_def)
  let ?ticks = "elapsed cl t0 now + ?adj"
  have ticks: "unat ?ticks = now - t0 + adj"
    using unat_add_small [of "elapsed cl t0 now" ?adj] e parts(1) adj assms(6) by simp
  let ?inc = "?ticks div (?iv * 1000)"
  have inc: "unat ?inc = (now - t0 + adj) div (unat iv * 1000)"
    unfolding unat_div ticks parts(2) ..
  have bound: "unat iv * ((now - t0 + adj) div (unat iv * 1000)) \<le> now + unat iv"
  proof -
    have "1000 * (unat iv * ((now - t0 + adj) div (unat iv * 1000))) \<le> now - t0 + adj"
      using times_div_less_eq_dividend [of "unat iv * 1000" "now - t0 + adj"] by (simp add: ac_simps)
    with adj show ?thesis by linarith
  qed
  have small: "unat ?iv * unat ?inc < 2 ^ 32" using bound assms(7) iv inc by simp
  have mult: "unat (?iv * ?inc) = unat iv * ((now - t0 + adj) div (unat iv * 1000))"
    using unat_mult_small [OF small] iv inc by simp
  have "unat (fst (live_point_start tr) + ?iv * ?inc) =
      unat (fst (live_point_start tr)) + unat iv * ((now - t0 + adj) div (unat iv * 1000))"
    using unat_add_small [of "fst (live_point_start tr)" "?iv * ?inc"] mult bound assms(7) by simp
  moreover have "current_point cl now adjustment_needed tr =
      Inr (fst (live_point_start tr) + ?iv * ?inc, snd (live_point_start tr))"
    using assms(2,4) \<open>?iv \<noteq> 0\<close> by (simp add: current_point_def Let_def)
  ultimately show ?thesis by blast
qed

lemma rejected_behind:
  fixes b c x y M iv :: nat
  assumes "b \<le> c + iv * (x div M)"
  shows "b + iv * (y div M) \<le> c + iv * ((x + y) div M)"
proof -
  have "x div M + y div M \<le> (x + y) div M" using div_add1_eq [of x y M] by linarith
  then have "iv * (x div M + y div M) \<le> iv * ((x + y) div M)" by (rule mult_le_mono2)
  with assms show ?thesis by (simp add: distrib_left)
qed

lemma accepted_ahead:
  fixes b c x y M iv :: nat
  assumes "c + iv * (x div M) < b" "b mod iv = c mod iv" "0 < M"
  shows "c + iv * ((x + y) div M) \<le> b + iv * (y div M)"
proof -
  let ?d = "c + iv * (x div M)"
  have "iv dvd b - ?d" using assms(1,2) by (simp add: mod_eq_dvd_iff_nat [symmetric])
  then have "iv \<le> b - ?d" using assms(1) by (intro dvd_imp_le) simp_all
  moreover have "(x mod M + y mod M) div M < 2"
    using assms(3) by (intro less_mult_imp_div_less) (simp add: add_strict_mono mult_2)
  then have "(x + y) div M \<le> x div M + y div M + 1" using div_add1_eq [of x y M] by linarith
  then have "iv * ((x + y) div M) \<le> iv * (x div M + y div M + 1)" by (rule mult_le_mono2)
  then have "iv * ((x + y) div M) \<le> iv * (x div M) + iv * (y div M) + iv" by (simp add: distrib_left)
  ultimately show ?thesis using assms(1) by linarith
qed

lemma extrapolated_behind:
  assumes "t0 \<le> now" "now \<le> t" "b \<le> extrapolated iv now (t0, c)"
  shows "extrapolated iv t (now, b) \<le> extrapolated iv t (t0, c)"
  using rejected_behind [of b c iv "now - t0" "iv * 1000" "t - now"] assms by (simp add: extrapolated_def)

lemma extrapolated_ahead:
  assumes "t0 \<le> now" "now \<le> t" "extrapolated iv now (t0, c) < b" "b mod iv = c mod iv" "0 < iv"
  shows "extrapolated iv t (t0, c) \<le> extrapolated iv t (now, b)"
  using accepted_ahead [of c iv "now - t0" "iv * 1000" b "t - now"] assms by (simp add: extrapolated_def)

lemma announce_holds:
  assumes "clock_ok cl" "order_ok lt" "holds_latest iv now as tr" "in_range iv now ((now, unat b) # as)" "0 < b"
    and "\<forall>a \<in> set as. unat b mod unat iv = snd a mod unat iv"
  shows "\<exists>tr'. SetCurrentLivePoint cl lt now (b, 0) tr = Inr tr' \<and> holds_latest iv now ((now, unat b) # as) tr'"
proof (cases "ticks_since_set tr")
  case None
  with assms(3) have "as = []" "live_point_start tr = (0, 0)" by (simp_all add: holds_latest_def)
  with None assms(2,3,5) show ?thesis
    by (simp add: SetCurrentLivePoint_def current_point_def order_ok_def holds_latest_def)
next
  case (Some t0)
  let ?c = "unat (fst (live_point_start tr))" and ?iv = "unat iv"
  have h: "tracker_interval tr = iv" "iv \<noteq> 0" "snd (live_point_start tr) = 0" "t0 \<le> now" "(t0, ?c) \<in> set as"
    and best: "\<forall>a \<in> set as. \<forall>t \<ge> now. extrapolated ?iv t a \<le> extrapolated ?iv t (t0, ?c)"
    using assms(3) Some by (auto simp: holds_latest_def)
  have iv: "0 < ?iv" using h(2) by (simp add: unat_gt_0)
  have "now + 500 * ?iv < 2 ^ 32" "?c + now + ?iv < 2 ^ 32" using assms(4) h(5) by (auto simp: in_range_def)
  from current_point_eq [OF assms(1) Some h(4,1,2) this, of False] obtain w where
    w: "current_point cl now False tr = Inr (w, 0)" "unat w = extrapolated ?iv now (t0, ?c)"
    using h(3) by (auto simp: extrapolated_def)
  show ?thesis
  proof (cases "w < b")
    case True
    then have "SetCurrentLivePoint cl lt now (b, 0) tr = Inr (tr\<lparr>ticks_since_set := Some now, live_point_start := (b, 0)\<rparr>)"
      using w(1) assms(2) by (simp add: SetCurrentLivePoint_def order_ok_def)
    moreover have "extrapolated ?iv t (t0, ?c) \<le> extrapolated ?iv t (now, unat b)" if "now \<le> t" for t
      using extrapolated_ahead [OF h(4) that _ _ iv, of ?c "unat b"] True w(2) assms(6) h(5) by (simp add: word_less_nat_alt)
    with best have "\<forall>a \<in> set as. \<forall>t \<ge> now. extrapolated ?iv t a \<le> extrapolated ?iv t (now, unat b)"
      using order_trans by blast
    ultimately show ?thesis using h by (simp add: holds_latest_def)
  next
    case False
    then have "SetCurrentLivePoint cl lt now (b, 0) tr = Inr tr"
      using w(1) assms(2) by (simp add: SetCurrentLivePoint_def order_ok_def)
    moreover have "\<forall>t \<ge> now. extrapolated ?iv t (now, unat b) \<le> extrapolated ?iv t (t0, ?c)"
      using extrapolated_behind [OF h(4)] False w(2) by (simp add: word_less_nat_alt not_less)
    ultimately show ?thesis using h best Some by (simp add: holds_latest_def)
  qed
qed

lemma tracked_holds:
  assumes "tracked cl lt iv now as tr" "clock_ok cl" "order_ok lt" "in_range iv now as"
  shows "holds_latest iv now as tr"
  using assms
proof (induction rule: tracked.induct)
  case (new tr now)
  then show ?case by (auto simp: point_tracker_new_def holds_latest_def split: if_splits)
next
  case (wait now as tr now')
  then have "holds_latest iv now as tr" using in_range_mono [of iv now' as now as] by blast
  with wait.hyps show ?case by (auto simp: holds_latest_def split: option.splits)
next
  case (announce now as tr b tr')
  then have "holds_latest iv now as tr" using in_range_mono [of iv now "(now, unat b) # as" now as] by auto
  with announce.hyps announce.prems announce_holds [of cl lt iv now as tr b] show ?case by auto
qed

lemma latest_held:
  assumes "holds_latest iv now as tr"
  shows "latest (unat iv) now as =
    (case ticks_since_set tr of
       None \<Rightarrow> 0
     | Some t0 \<Rightarrow> extrapolated (unat iv) now (t0, unat (fst (live_point_start tr))))"
proof (cases "ticks_since_set tr")
  case None
  with assms show ?thesis by (simp add: holds_latest_def latest_def)
next
  case (Some t0)
  let ?a = "(t0, unat (fst (live_point_start tr)))"
  have a: "?a \<in> set as" "\<forall>a \<in> set as. extrapolated (unat iv) now a \<le> extrapolated (unat iv) now ?a"
    using assms Some by (auto simp: holds_latest_def)
  have "latest (unat iv) now as = extrapolated (unat iv) now ?a"
    unfolding latest_def by (rule Max_eqI) (use a in auto)
  with Some show ?thesis by simp
qed

section \<open>The rest time is what is buffered\<close>

text \<open>
  What has been received between two progress reports, in hundredths of a second.
\<close>

definition received_media :: "progress \<Rightarrow> progress \<Rightarrow> int" where
  "received_media p q =
     100 * (int (unat (block_id p)) - int (unat (block_id q))) +
     int (unat (progress_interval p)) * (int (unat (percentage p)) - int (unat (percentage q)))"

text \<open>A later report: more of the same block, or a later block of the channel.\<close>

definition later_progress :: "progress \<Rightarrow> progress \<Rightarrow> bool" where
  "later_progress p q =
     (percentage p \<le> 100 \<and> progress_interval p = progress_interval q \<and> 0 < progress_interval p \<and> unat (progress_interval p) < 2 ^ 16 \<and>
      (block_id p = block_id q \<and> percentage q \<le> percentage p \<or>
       unat (block_id q) + unat (progress_interval q) \<le> unat (block_id p)))"

inductive rest_run :: "clock \<Rightarrow> moment \<Rightarrow> rest_tracker \<Rightarrow> bool" for cl where
  start: "0 < iv \<Longrightarrow> unat iv < 2 ^ 16 \<Longrightarrow> rest_run cl now (rest_Start now block iv r)"
| wait: "rest_run cl now r \<Longrightarrow> now \<le> now' \<Longrightarrow> rest_run cl now' r"
| update: "rest_run cl now r \<Longrightarrow> UpdateCurrentProgress block pct r = Inr r' \<Longrightarrow>
    later_progress (current_progress r') (current_progress r) \<Longrightarrow> rest_run cl now r'"
| pause: "rest_run cl now r \<Longrightarrow> rest_run cl now (OnPause p r)"
| tick: "rest_run cl now r \<Longrightarrow> rest_run cl now (UpdatePausingTime r)"
| get: "rest_run cl now r \<Longrightarrow> GetRestTimeInSeconds cl now r = Inr (t, r') \<Longrightarrow> rest_run cl now r'"

definition rest_ok :: "moment \<Rightarrow> rest_tracker \<Rightarrow> bool" where
  "rest_ok now r =
     (ticks_since_reset r \<le> now \<and> later_progress (current_progress r) (last_reset_progress r) \<and>
      percentage (last_reset_progress r) \<le> 100 \<and> rest_interval r = progress_interval (current_progress r))"

lemma later_trans: "later_progress p q \<Longrightarrow> later_progress q s \<Longrightarrow> later_progress p s"
  by (auto simp: later_progress_def)

lemma rest_run_ok: "rest_run cl now r \<Longrightarrow> rest_ok now r"
proof (induction rule: rest_run.induct)
  case (start iv now block r)
  then show ?case by (simp add: rest_ok_def rest_Start_def rest_Reset_def later_progress_def)
next
  case (update now r block pct r')
  then have "last_reset_progress r' = last_reset_progress r" "ticks_since_reset r' = ticks_since_reset r"
    "rest_interval r' = progress_interval (current_progress r')"
    by (auto simp: UpdateCurrentProgress_def split: if_splits)
  with update later_trans show ?case by (auto simp: rest_ok_def)
next
  case (get now r t r')
  then have "r' = r \<or> r' = rest_Reset now r \<or> (\<exists>x. r' = r\<lparr>rest_time := x\<rparr>)"
    by (auto simp: GetRestTimeInSeconds_def CalculateRestTime_def Let_def split: if_splits)
  with get.IH show ?case by (auto simp: rest_ok_def rest_Reset_def later_progress_def)
qed (auto simp: rest_ok_def OnPause_def UpdatePausingTime_def)

lemma part_of_interval:
  assumes "unat a \<le> 100" "unat (iv :: u32) < 2 ^ 16"
  shows "unat (a * iv div 100) = unat a * unat iv div 100" "unat a * unat iv div 100 \<le> unat iv"
proof -
  have le: "unat a * unat iv \<le> 100 * unat iv" using assms(1) by (rule mult_le_mono1)
  have "100 * unat iv < 2 ^ 32" using assms(2) by simp
  with le have "unat a * unat iv < 2 ^ 32" by (rule order_le_less_trans)
  then have "unat (a * iv) = unat a * unat iv" by (rule unat_mult_small)
  then show "unat (a * iv div 100) = unat a * unat iv div 100" by (simp add: unat_div)
  show "unat a * unat iv div 100 \<le> unat iv" using div_le_mono [OF le, of 100] by simp
qed

lemma unat_diff: "b \<le> a \<Longrightarrow> unat (a - b) = unat a - unat b" for a b :: u32
  by (simp add: unat_sub)

lemma rounded:
  fixes B X :: nat
  shows "\<bar>100 * int (B + X div 100) - (100 * int B + int X)\<bar> < 100"
    and "X div 100 \<le> B \<Longrightarrow> \<bar>100 * int (B - X div 100) - (100 * int B - int X)\<bar> < 100"
proof -
  define q where "q = X div 100"
  have "100 * q \<le> X" "X < 100 * q + 100" unfolding q_def by linarith+
  then have q: "100 * int q \<le> int X" "int X < 100 * int q + 100" by linarith+
  have "int (B + q) = int B + int q" by simp
  with q show "\<bar>100 * int (B + X div 100) - (100 * int B + int X)\<bar> < 100"
    unfolding q_def [symmetric] abs_less_iff by (auto intro!: conjI)
  assume "X div 100 \<le> B"
  then have "int (B - q) = int B - int q" by (simp add: q_def of_nat_diff)
  with q show "\<bar>100 * int (B - X div 100) - (100 * int B - int X)\<bar> < 100"
    unfolding q_def [symmetric] abs_less_iff by (auto intro!: conjI)
qed

lemma distance_eq:
  assumes "later_progress p q" "percentage q \<le> 100" "unat (block_id p) + unat (progress_interval p) < 2 ^ 32"
  shows "\<exists>d. DistanceInSeconds p q = Inr d \<and> \<bar>100 * int (unat d) - received_media p q\<bar> < 100
    \<and> unat d \<le> unat (block_id p) - unat (block_id q) + unat (progress_interval p)"
proof -
  let ?iv = "unat (progress_interval p)" and ?b = "unat (block_id p)" and ?g = "unat (block_id q)"
  let ?c = "unat (percentage p)" and ?e = "unat (percentage q)"
  have iv: "?iv < 2 ^ 16" and c: "?c \<le> 100" "?e \<le> 100"
    using assms(1,2) by (auto simp: later_progress_def word_le_nat_alt)
  have blocks: "block_id q \<le> block_id p" "?g \<le> ?b" "block_id p = block_id q \<and> ?e \<le> ?c \<or> ?g + ?iv \<le> ?b"
    using assms(1) by (auto simp: later_progress_def word_le_nat_alt)
  have le: "progress_le q p"
  proof (cases "block_id p = block_id q")
    case True
    moreover have "0 < ?iv" using assms(1) by (auto simp: later_progress_def word_less_nat_alt)
    ultimately show ?thesis using blocks(3) by (auto simp: progress_le_def word_le_nat_alt)
  next
    case False
    then show ?thesis using blocks(1) by (simp add: progress_le_def)
  qed
  show ?thesis
  proof (cases "percentage p > percentage q")
    case True
    let ?a = "percentage p - percentage q"
    have a: "unat ?a = ?c - ?e" using True by (simp add: unat_diff)
    then have x: "unat (?a * progress_interval p div 100) = (?c - ?e) * ?iv div 100" "(?c - ?e) * ?iv div 100 \<le> ?iv"
      using part_of_interval [of ?a "progress_interval p"] iv c by simp_all
    let ?d = "block_id p - block_id q + ?a * progress_interval p div 100"
    have d: "unat ?d = (?b - ?g) + (?c - ?e) * ?iv div 100"
      using unat_add_small [of "block_id p - block_id q" "?a * progress_interval p div 100"] x assms(3) blocks(1)
      by (simp add: unat_diff)
    have "received_media p q = 100 * int (?b - ?g) + int ((?c - ?e) * ?iv)"
      using True blocks(2) by (simp add: received_media_def word_less_nat_alt of_nat_diff algebra_simps)
    then have "\<bar>100 * int (unat ?d) - received_media p q\<bar> < 100" unfolding d by (simp only: rounded(1))
    moreover have "DistanceInSeconds p q = Inr ?d" using True le by (simp add: DistanceInSeconds_def)
    moreover have "unat ?d \<le> ?b - ?g + ?iv" unfolding d using x(2) by simp
    ultimately show ?thesis by blast
  next
    case False
    let ?a = "percentage q - percentage p"
    have a: "unat ?a = ?e - ?c" using False by (simp add: unat_diff)
    then have x: "unat (?a * progress_interval p div 100) = (?e - ?c) * ?iv div 100" "(?e - ?c) * ?iv div 100 \<le> ?iv"
      using part_of_interval [of ?a "progress_interval p"] iv c by simp_all
    let ?d = "block_id p - block_id q - ?a * progress_interval p div 100"
    have "(?e - ?c) * ?iv div 100 \<le> ?b - ?g" using x(2) blocks(3) by auto
    then have fit: "?a * progress_interval p div 100 \<le> block_id p - block_id q" "(?e - ?c) * ?iv div 100 \<le> ?b - ?g"
      using x(1) blocks(1) by (simp_all add: word_le_nat_alt unat_diff)
    have d: "unat ?d = (?b - ?g) - (?e - ?c) * ?iv div 100"
      using unat_diff [OF fit(1)] x(1) blocks(1) by (simp add: unat_diff)
    have "received_media p q = 100 * int (?b - ?g) - int ((?e - ?c) * ?iv)"
      using False blocks(2) by (simp add: received_media_def word_less_nat_alt of_nat_diff algebra_simps)
    then have "\<bar>100 * int (unat ?d) - received_media p q\<bar> < 100" unfolding d using rounded(2) [OF fit(2)] by (simp only:)
    moreover have "DistanceInSeconds p q = Inr ?d" using False le by (simp add: DistanceInSeconds_def)
    moreover have "unat ?d \<le> ?b - ?g + ?iv" unfolding d by simp
    ultimately show ?thesis by blast
  qed
qed

lemma nearest:
  fixes b iv x :: nat
  assumes "0 < iv"
  shows "\<bar>1000 * int (b + iv * ((x + 500 * iv) div (iv * 1000))) - (1000 * int b + int x)\<bar> \<le> 500 * int iv"
proof -
  define y where "y = iv * ((x + 500 * iv) div (iv * 1000))"
  have "1000 * y \<le> x + 500 * iv" "x + 500 * iv < 1000 * y + 1000 * iv"
  proof -
    have y: "1000 * y = iv * 1000 * ((x + 500 * iv) div (iv * 1000))" by (simp add: y_def)
    show "1000 * y \<le> x + 500 * iv" unfolding y by (rule times_div_less_eq_dividend)
    show "x + 500 * iv < 1000 * y + 1000 * iv"
      using dividend_less_times_div [of "iv * 1000" "x + 500 * iv"] assms unfolding y by simp
  qed
  then have "1000 * int y \<le> int x + 500 * int iv" "int x + 500 * int iv < 1000 * int y + 1000 * int iv" by linarith+
  moreover have "int (b + y) = int b + int y" by simp
  ultimately show ?thesis unfolding y_def [symmetric] abs_le_iff by (auto intro!: conjI)
qed

section \<open>Properties\<close>

text \<open>The clock and the order of a concrete system.\<close>

definition plain_clock :: clock where
  "plain_clock = \<lparr>elapsed = \<lambda>t0 t. word_of_nat (t - t0)\<rparr>"

definition lexicographic :: "position \<Rightarrow> position \<Rightarrow> bool" where
  "lexicographic p q = (fst p < fst q \<or> fst p = fst q \<and> snd p < snd q)"

lemma plain_ok: "clock_ok plain_clock" "order_ok lexicographic"
  by (simp_all add: clock_ok_def plain_clock_def order_ok_def lexicographic_def take_bit_nat_eq_self unat_of_nat del: of_nat_diff)

text \<open>C33: The live point is the latest one the announcements give.  Each announcement, extrapolated by one block per
  interval since it was heard, gives a live point; the tracker, which keeps one announcement only, always answers
  the greatest of them (without adjustment), and \<^verbatim>\<open>GetCurrentLivePoint\<close> answers the block nearest to the exact
  position of such an announcement: within half an interval.\<close>

theorem live_point_is_latest_announced:
  assumes "clock_ok cl" "order_ok lt" "tracked cl lt iv now as tr" "in_range iv now as"
  shows "(\<exists>w. current_point cl now False tr = Inr (w, 0) \<and> unat w = latest (unat iv) now as) \<and>
    (as \<noteq> [] \<longrightarrow> (\<exists>w t b. GetCurrentLivePoint cl now tr = Inr (w, 0) \<and> (t, b) \<in> set as \<and>
      extrapolated (unat iv) now (t, b) = latest (unat iv) now as \<and>
      \<bar>1000 * int (unat w) - (1000 * int b + int (now - t))\<bar> \<le> 500 * int (unat iv)))"
proof -
  have h: "holds_latest iv now as tr" by (rule tracked_holds [OF assms(3,1,2,4)])
  show ?thesis
  proof (cases "ticks_since_set tr")
    case None
    with h show ?thesis using latest_held [OF h] by (auto simp: holds_latest_def current_point_def)
  next
    case (Some t0)
    let ?b = "unat (fst (live_point_start tr))" and ?iv = "unat iv"
    have a: "t0 \<le> now" "tracker_interval tr = iv" "iv \<noteq> 0" "snd (live_point_start tr) = 0" "(t0, ?b) \<in> set as"
      using h Some by (auto simp: holds_latest_def)
    have r: "now + 500 * ?iv < 2 ^ 32" "?b + now + ?iv < 2 ^ 32" using assms(4) a(5) by (auto simp: in_range_def)
    note cur = current_point_eq [OF assms(1) Some a(1-3) r]
    have lat: "latest ?iv now as = extrapolated ?iv now (t0, ?b)" using latest_held [OF h] Some by simp
    have 1: "\<exists>w. current_point cl now False tr = Inr (w, 0) \<and> unat w = latest ?iv now as"
      using cur [of False] a(4) lat by (simp add: extrapolated_def)
    obtain w where w: "GetCurrentLivePoint cl now tr = Inr (w, 0)"
        "unat w = ?b + ?iv * ((now - t0 + 500 * ?iv) div (?iv * 1000))"
      using cur [of True] a(4) by (auto simp: GetCurrentLivePoint_def)
    have "\<bar>1000 * int (unat w) - (1000 * int ?b + int (now - t0))\<bar> \<le> 500 * int ?iv"
      unfolding w(2) using nearest [of ?iv] a(3) by (simp add: unat_gt_0)
    with w(1) a(5) lat [symmetric] have "\<exists>w t b. GetCurrentLivePoint cl now tr = Inr (w, 0) \<and> (t, b) \<in> set as \<and>
        extrapolated ?iv now (t, b) = latest ?iv now as \<and> \<bar>1000 * int (unat w) - (1000 * int b + int (now - t))\<bar> \<le> 500 * int ?iv"
      by blast
    with 1 show ?thesis by blast
  qed
qed

definition sample_tracker :: "u32 \<Rightarrow> moment \<Rightarrow> point_tracker" where
  "sample_tracker b t = \<lparr>tracker_interval = 5, live_point_start = (b, 0), ticks_since_set = Some t\<rparr>"

lemma sample_tracked: "tracked plain_clock lexicographic 5 12000 [(4000, 105), (0, 95)] (sample_tracker 105 4000)"
proof -
  let ?new = "\<lparr>tracker_interval = 5, live_point_start = (0, 0), ticks_since_set = None\<rparr>"
  have "tracked plain_clock lexicographic 5 0 [] ?new" by (rule tracked.new) (simp add: point_tracker_new_def)
  from tracked.announce [OF this, of 95 "sample_tracker 95 0"]
  have "tracked plain_clock lexicographic 5 0 [(0, 95)] (sample_tracker 95 0)"
    by (simp add: SetCurrentLivePoint_def current_point_def lexicographic_def sample_tracker_def)
  then have "tracked plain_clock lexicographic 5 4000 [(0, 95)] (sample_tracker 95 0)" by (rule tracked.wait) simp
  from tracked.announce [OF this, of 105 "sample_tracker 105 4000"]
  have "tracked plain_clock lexicographic 5 4000 [(4000, 105), (0, 95)] (sample_tracker 105 4000)"
    by (simp add: SetCurrentLivePoint_def current_point_def lexicographic_def sample_tracker_def plain_clock_def)
  then show ?thesis by (rule tracked.wait) simp
qed

theorem live_point_is_latest_announced_witness:
  "current_point plain_clock 12000 False (sample_tracker 105 4000) = Inr (110, 0) \<and>
   GetCurrentLivePoint plain_clock 12000 (sample_tracker 105 4000) = Inr (115, 0) \<and>
   latest 5 12000 [(4000, 105), (0, 95)] = 110"
proof -
  have "in_range 5 12000 [(4000, 105), (0, 95)]" by (simp add: in_range_def)
  from live_point_is_latest_announced [OF plain_ok sample_tracked this] show ?thesis
    by (auto simp: current_point_def GetCurrentLivePoint_def sample_tracker_def plain_clock_def Let_def)
qed

text \<open>The rest time is what is buffered.  While the reports of progress move forward, the query never fails its
  assertion and returns the seconds of media received since the last reset (to within a second), plus the
  seconds of pause, minus the seconds elapsed, and zero where this is negative.\<close>

theorem rest_time_is_what_is_buffered:
  assumes "clock_ok cl" "rest_run cl now r" "need_calculate r" "now - ticks_since_reset r < 2 ^ 32"
    and "unat (block_id (current_progress r)) + 2 * unat (rest_interval r) + unat (pausing_time r) < 2 ^ 32"
  shows "\<exists>t r' d. GetRestTimeInSeconds cl now r = Inr (t, r') \<and>
    \<bar>100 * d - received_media (current_progress r) (last_reset_progress r)\<bar> < 100 \<and>
    int (unat t) = max 0 (d + int (unat (pausing_time r)) - int ((now - ticks_since_reset r) div 1000))"
proof -
  let ?p = "current_progress r" and ?q = "last_reset_progress r" and ?e = "elapsed cl (ticks_since_reset r) now div 1000"
  have ok: "ticks_since_reset r \<le> now" "later_progress ?p ?q" "percentage ?q \<le> 100" "rest_interval r = progress_interval ?p"
    using rest_run_ok [OF assms(2)] by (simp_all add: rest_ok_def)
  obtain d where d: "DistanceInSeconds ?p ?q = Inr d" "\<bar>100 * int (unat d) - received_media ?p ?q\<bar> < 100"
      "unat d \<le> unat (block_id ?p) - unat (block_id ?q) + unat (progress_interval ?p)"
    using distance_eq [OF ok(2,3)] assms(5) ok(4) by auto
  have e: "unat ?e = (now - ticks_since_reset r) div 1000" using assms(1,4) ok(1) by (simp add: clock_ok_def unat_div)
  have s: "unat (d + pausing_time r) = unat d + unat (pausing_time r)"
    using unat_add_small [of d "pausing_time r"] d(3) assms(5) ok(4) by simp
  show ?thesis
  proof (cases "?e \<ge> d + pausing_time r")
    case True
    then have "GetRestTimeInSeconds cl now r = Inr (0, rest_Reset now r)"
      using d(1) assms(3) by (simp add: GetRestTimeInSeconds_def CalculateRestTime_def rest_Reset_def)
    moreover have "unat d + unat (pausing_time r) \<le> (now - ticks_since_reset r) div 1000"
      using True unfolding word_le_nat_alt s e .
    then have "int (unat (0 :: u32)) = max 0 (int (unat d) + int (unat (pausing_time r)) - int ((now - ticks_since_reset r) div 1000))"
      unfolding unat_0 by linarith
    ultimately show ?thesis using d(2) by blast
  next
    case False
    let ?t = "d + pausing_time r - ?e"
    have "GetRestTimeInSeconds cl now r = Inr (?t, r\<lparr>rest_time := ?t\<rparr>)"
      using False d(1) assms(3) by (simp add: GetRestTimeInSeconds_def CalculateRestTime_def)
    moreover have "unat ?t = unat d + unat (pausing_time r) - (now - ticks_since_reset r) div 1000"
      using unat_diff [of ?e "d + pausing_time r"] False s e by simp
    moreover have "(now - ticks_since_reset r) div 1000 < unat d + unat (pausing_time r)"
      using False unfolding word_le_nat_alt s e by simp
    ultimately have "int (unat ?t) = max 0 (int (unat d) + int (unat (pausing_time r)) - int ((now - ticks_since_reset r) div 1000))"
      by linarith
    moreover note \<open>GetRestTimeInSeconds cl now r = _\<close>
    ultimately show ?thesis using d(2) by blast
  qed
qed

definition sample_rest :: "u32 \<Rightarrow> u32 \<Rightarrow> rest_tracker" where
  "sample_rest b pct =
     \<lparr>ticks_since_reset = 0, current_progress = \<lparr>block_id = b, percentage = pct, progress_interval = 5\<rparr>,
      last_reset_progress = \<lparr>block_id = 100, percentage = 0, progress_interval = 5\<rparr>, rest_time = 0, rest_interval = 5,
      paused = False, need_calculate = True, pausing_time = 0\<rparr>"

lemma sample_rest_run: "rest_run plain_clock 4000 (sample_rest 105 40)"
proof -
  have "rest_run plain_clock 0 (rest_Start 0 100 5 (sample_rest 100 0))" by (rule rest_run.start) simp_all
  moreover have "rest_Start 0 100 5 (sample_rest 100 0) = sample_rest 100 0"
    by (simp add: rest_Start_def rest_Reset_def sample_rest_def)
  ultimately have "rest_run plain_clock 0 (sample_rest 100 0)" by simp
  then have "rest_run plain_clock 4000 (sample_rest 100 0)" by (rule rest_run.wait) simp
  moreover have "UpdateCurrentProgress 105 40 (sample_rest 100 0) = Inr (sample_rest 105 40)"
    by (simp add: UpdateCurrentProgress_def sample_rest_def)
  ultimately show ?thesis
    by (rule rest_run.update) (simp add: sample_rest_def later_progress_def)
qed

theorem rest_time_is_what_is_buffered_witness:
  "\<exists>r'. GetRestTimeInSeconds plain_clock 4000 (sample_rest 105 40) = Inr (3, r')"
proof -
  have "\<exists>t r' d. GetRestTimeInSeconds plain_clock 4000 (sample_rest 105 40) = Inr (t, r') \<and>
      \<bar>100 * d - received_media (current_progress (sample_rest 105 40)) (last_reset_progress (sample_rest 105 40))\<bar> < 100 \<and>
      int (unat t) = max 0 (d + int (unat (pausing_time (sample_rest 105 40))) -
        int ((4000 - ticks_since_reset (sample_rest 105 40)) div 1000))"
    by (rule rest_time_is_what_is_buffered [OF plain_ok(1) sample_rest_run]) (simp_all add: sample_rest_def)
  then obtain t r' d where a: "GetRestTimeInSeconds plain_clock 4000 (sample_rest 105 40) = Inr (t, r')"
      "\<bar>100 * d - 700\<bar> < 100" "int (unat t) = max 0 (d - 4)"
    by (auto simp: sample_rest_def received_media_def)
  from a(1) have "t = 3"
    by (simp add: GetRestTimeInSeconds_def CalculateRestTime_def DistanceInSeconds_def progress_le_def sample_rest_def
        plain_clock_def)
  with a(1) show ?thesis by blast
qed

end
