(* ===== verification/BlockNode.thy ===== *)
theory BlockNode
  imports Prelude "HOL-Library.AList"
begin

text \<open>
  \<^verbatim>\<open>storage::BlockNode\<close> (\<^verbatim>\<open>storage/BlockNode.h/.cpp\<close>): the subpieces of one block of a resource,
  in memory or on disk, and the form in which a block is described in the configuration file.

  \<^item> The map \<^verbatim>\<open>subpieces_\<close> is an association list without duplicate keys; its size is its length.
    A \<^verbatim>\<open>protocol::SubPieceBuffer\<close> is a value of the type parameter; \<^verbatim>\<open>IsValid\<close> is an argument of the
    operation that calls it.
  \<^item> Numbers of subpieces are \<open>nat\<close>, with the reductions to 8, 16 and 32 bits written out where a
    variable of the code can wrap: the counters of \<^verbatim>\<open>GetNextNullSubPiece\<close> and \<^verbatim>\<open>Parse\<close>, the
    decrement of a piece counter and the sums of offsets.
  \<^item> Buffers are lists of bytes, integers in them little-endian.  \<^verbatim>\<open>memcpy2\<close> checks the sizes it is
    given; a check that fails is a fault of the model.
  \<^item> \<^verbatim>\<open>access_counter_\<close> is the moment of its last reset, given as the argument \<open>t\<close>.

  The lemmas show that the piece counters count the subpieces in memory, that the search for
  the next missing subpiece finds the least one, that a block is saved completely, what the
  description of a block is read back as, and where the cache and the re-download leave the
  counters and the map in disagreement.
\<close>

section \<open>State\<close>

text \<open>\<^verbatim>\<open>ALL\<close> is a keyword of the logic and is written \<open>ALL_STATE\<close>.\<close>

datatype BlockNodeState = EMPTY | DOWNLOADING | MEM | SAVING | DISK | READING | ALL_STATE

record 'b block_node =
  subpieces :: "(nat \<times> 'b) list"
  piece_count :: "nat list"
  node_state :: BlockNodeState
  total_subpiece_count :: nat
  last_piece_capacity :: nat
  index :: nat
  need_write :: bool
  access_counter :: u32

text \<open>The constants of \<^verbatim>\<open>storage/storage_base.h\<close>.\<close>

definition subpiece_num_per_piece_g :: nat where
  "subpiece_num_per_piece_g = 2 ^ 7"

definition has_key :: "('k \<times> 'v) list \<Rightarrow> 'k \<Rightarrow> bool" where
  "has_key m k = (map_of m k \<noteq> None)"

section \<open>Queries\<close>

definition IsBlockSavedOnDisk :: "'b block_node \<Rightarrow> bool" where
  "IsBlockSavedOnDisk n = (node_state n = ALL_STATE \<or> node_state n = DISK \<or> node_state n = READING)"

definition GetCurrSubPieceCount :: "'b block_node \<Rightarrow> nat" where
  "GetCurrSubPieceCount n = length (subpieces n)"

definition GetCurrNullSubPieceCount :: "'b block_node \<Rightarrow> nat" where
  "GetCurrNullSubPieceCount n =
     (if length (subpieces n) \<le> total_subpiece_count n then total_subpiece_count n - length (subpieces n)
      else 2 ^ 32 + total_subpiece_count n - length (subpieces n))"

definition GetTotalSubpieceCountInBlock :: "'b block_node \<Rightarrow> nat" where
  "GetTotalSubpieceCountInBlock n = total_subpiece_count n"

text \<open>\<open>timeout\<close> is \<^verbatim>\<open>BLOCK_ACCESS_TIMEOUT\<close>, which depends on the platform; \<open>now\<close> is the clock in
  milliseconds.\<close>

definition IsAccessTimeout :: "u32 \<Rightarrow> u32 \<Rightarrow> 'b block_node \<Rightarrow> bool" where
  "IsAccessTimeout timeout now n = (now - access_counter n > timeout * 1000)"

definition IsFull :: "'b block_node \<Rightarrow> bool" where
  "IsFull n = (length (subpieces n) = total_subpiece_count n \<or> IsBlockSavedOnDisk n)"

definition IsEmpty :: "'b block_node \<Rightarrow> bool" where
  "IsEmpty n = (length (subpieces n) = 0 \<and> \<not> IsBlockSavedOnDisk n)"

definition IsSaving :: "'b block_node \<Rightarrow> bool" where
  "IsSaving n = (node_state n = SAVING)"

definition NeedWrite :: "'b block_node \<Rightarrow> bool" where
  "NeedWrite n = need_write n"

definition IsPieceFull :: "nat \<Rightarrow> 'b block_node \<Rightarrow> bool result" where
  "IsPieceFull p n =
     (if \<not> p < length (piece_count n) then Inl AssertionFailed
      else if p = length (piece_count n) - 1 then Inr (piece_count n ! p = last_piece_capacity n)
      else Inr (piece_count n ! p = subpiece_num_per_piece_g))"

definition HasPiece :: "nat \<Rightarrow> 'b block_node \<Rightarrow> bool result" where
  "HasPiece p n = (if p < length (piece_count n) then IsPieceFull p n else Inl AssertionFailed)"

definition HasSubPiece :: "nat \<Rightarrow> 'b block_node \<Rightarrow> bool" where
  "HasSubPiece i n = (IsBlockSavedOnDisk n \<or> has_key (subpieces n) i)"

definition HasSubPieceInMem :: "nat \<Rightarrow> 'b block_node \<Rightarrow> bool result" where
  "HasSubPieceInMem i n =
     (if i \<le> total_subpiece_count n - 1 then Inr (has_key (subpieces n) i) else Inl AssertionFailed)"

section \<open>Construction\<close>

definition piece_capacity :: "nat \<Rightarrow> nat \<Rightarrow> nat" where
  "piece_capacity subpiece_num p =
     (if p = (subpiece_num + subpiece_num_per_piece_g - 1) mod 2 ^ 32 div subpiece_num_per_piece_g - 1
      then (subpiece_num - 1) mod subpiece_num_per_piece_g + 1 else subpiece_num_per_piece_g)"

definition Create :: "nat \<Rightarrow> nat \<Rightarrow> bool \<Rightarrow> u32 \<Rightarrow> 'b block_node result" where
  "Create i subpiece_num is_full_disk t =
     (if subpiece_num = 0 then Inl AssertionFailed
      else
        (let count = (subpiece_num + subpiece_num_per_piece_g - 1) mod 2 ^ 32 div subpiece_num_per_piece_g
         in Inr \<lparr>subpieces = [],
                 piece_count = (if is_full_disk then map (piece_capacity subpiece_num) [0..<count]
                                else replicate count 0),
                 node_state = (if is_full_disk then DISK else EMPTY),
                 total_subpiece_count = subpiece_num,
                 last_piece_capacity = (subpiece_num - 1) mod subpiece_num_per_piece_g + 1,
                 index = i, need_write = False, access_counter = t\<rparr>))"

section \<open>Subpieces\<close>

definition AddSubpiece :: "u32 \<Rightarrow> nat \<Rightarrow> 'b \<Rightarrow> 'b block_node \<Rightarrow> (bool \<times> 'b block_node) result" where
  "AddSubpiece t i buf n =
     (if \<not> i \<le> total_subpiece_count n - 1 then Inl AssertionFailed
      else
        (let n1 = (if node_state n = EMPTY then n\<lparr>node_state := DOWNLOADING\<rparr> else n)
         in if has_key (subpieces n1) i then Inr (False, n1)
            else
              (let p = i div subpiece_num_per_piece_g
               in if \<not> p < length (piece_count n1) then Inl OutOfRange
                  else
                    (let n2 = n1\<lparr>subpieces := (i, buf) # subpieces n1, access_counter := t,
                                 piece_count := (piece_count n1)[p := (piece_count n1 ! p + 1) mod 2 ^ 32]\<rparr>
                     in Inr (True, if IsFull n2 \<and> \<not> need_write n2
                                   then n2\<lparr>need_write := True, node_state := MEM\<rparr> else n2)))))"

definition LoadSubPieceBuffer :: "u32 \<Rightarrow> nat \<Rightarrow> 'b \<Rightarrow> 'b block_node \<Rightarrow> (bool \<times> 'b block_node) result" where
  "LoadSubPieceBuffer t i buf n =
     (if node_state n \<noteq> READING then Inl AssertionFailed
      else if has_key (subpieces n) i then Inr (False, n)
      else
        (let n1 = n\<lparr>subpieces := (i, buf) # subpieces n, access_counter := t\<rparr>
         in Inr (True, if length (subpieces n1) = total_subpiece_count n1
                       then n1\<lparr>node_state := ALL_STATE\<rparr> else n1)))"

definition SetBlockReading :: "'b block_node \<Rightarrow> bool \<times> 'b block_node" where
  "SetBlockReading n =
     (if node_state n = DISK then (True, n\<lparr>node_state := READING\<rparr>) else (False, n))"

text \<open>An empty \<^verbatim>\<open>SubPieceBuffer\<close> is \<open>None\<close>; \<open>valid\<close> is \<^verbatim>\<open>IsValid(SUB_PIECE_SIZE)\<close>.\<close>

definition GetSubPiece ::
    "('b \<Rightarrow> bool) \<Rightarrow> u32 \<Rightarrow> nat \<Rightarrow> 'b block_node \<Rightarrow> ('b option \<times> 'b block_node) result" where
  "GetSubPiece valid t i n =
     (if \<not> i \<le> total_subpiece_count n - 1 then Inl AssertionFailed
      else
        case map_of (subpieces n) i of
          None \<Rightarrow> Inr (None, n)
        | Some buf \<Rightarrow> if valid buf then Inr (Some buf, n\<lparr>access_counter := t\<rparr>) else Inr (None, n))"

section \<open>The next missing subpiece\<close>

text \<open>The inner loop, whose counter has 16 bits.\<close>

partial_function (option) scan_null :: "nat \<Rightarrow> (nat \<times> 'b) list \<Rightarrow> nat \<Rightarrow> nat option option" where
  "scan_null cnt m i =
     (if i < cnt then
        (if \<not> has_key m i then Some (Some i) else scan_null cnt m ((i + 1) mod 2 ^ 16))
      else Some None)"

declare scan_null.simps [code]

fun next_null :: "'b block_node \<Rightarrow> nat \<Rightarrow> nat list \<Rightarrow> nat option result option" where
  "next_null n start [] = Some (Inr None)"
| "next_null n start (p # ps) =
     (let startindex = (if p = start div subpiece_num_per_piece_g then start
                        else p * subpiece_num_per_piece_g)
      in if piece_count n ! p = 0 then Some (Inr (Some startindex))
         else
           case IsPieceFull p n of
             Inl e \<Rightarrow> Some (Inl e)
           | Inr True \<Rightarrow> next_null n start ps
           | Inr False \<Rightarrow>
               (case scan_null (total_subpiece_count n) (subpieces n) (startindex mod 2 ^ 16) of
                  None \<Rightarrow> None
                | Some (Some i) \<Rightarrow> Some (Inr (Some i))
                | Some None \<Rightarrow> next_null n start ps))"

definition GetNextNullSubPiece :: "nat \<Rightarrow> 'b block_node \<Rightarrow> nat option result option" where
  "GetNextNullSubPiece start n =
     next_null n start [start div subpiece_num_per_piece_g ..< length (piece_count n)]"

section \<open>The cache\<close>

definition dec32 :: "nat \<Rightarrow> nat" where
  "dec32 c = (if c = 0 then 2 ^ 32 - 1 else c - 1)"

definition erase_subpiece :: "nat \<Rightarrow> 'b block_node \<Rightarrow> 'b block_node result" where
  "erase_subpiece i n =
     (let n1 = n\<lparr>subpieces := AList.delete i (subpieces n)\<rparr>;
          p = i div subpiece_num_per_piece_g
      in if IsBlockSavedOnDisk n1 then Inr n1
         else if \<not> p < length (piece_count n1) then Inl OutOfRange
         else Inr (n1\<lparr>piece_count := (piece_count n1)[p := dec32 (piece_count n1 ! p)]\<rparr>))"

function clear_from :: "nat \<Rightarrow> nat \<Rightarrow> 'b block_node \<Rightarrow> 'b block_node result" where
  "clear_from play i n =
     (if i \<le> play \<and> i < length (subpieces n) then
        (if \<not> has_key (subpieces n) i then clear_from play (i + 1) n
         else case erase_subpiece i n of Inl e \<Rightarrow> Inl e | Inr n' \<Rightarrow> clear_from play (i + 1) n')
      else Inr n)"
  by pat_completeness auto

lemma erase_subpiece_length:
  "erase_subpiece i n = Inr n' \<Longrightarrow> length (subpieces n') \<le> length (subpieces n)"
  by (auto simp: erase_subpiece_def Let_def AList.length_delete_le split: if_splits)

termination clear_from
proof (relation "measure (\<lambda>(play, i, n). length (subpieces n) - i)")
  fix play i :: nat and n n' :: "'b block_node"
  assume "i \<le> play \<and> i < length (subpieces n)" "erase_subpiece i n = Inr n'"
  with erase_subpiece_length [of i n n']
  show "((play, i + 1, n'), (play, i, n)) \<in> measure (\<lambda>(play, i, n). length (subpieces n) - i)"
    by simp arith
qed auto

declare clear_from.simps [simp del]

definition ClearBlockMemCache :: "u32 \<Rightarrow> nat \<Rightarrow> 'b block_node \<Rightarrow> 'b block_node result" where
  "ClearBlockMemCache t play n =
     and_then (clear_from play 0 (n\<lparr>access_counter := t\<rparr>)) (\<lambda>n'.
       Inr (if node_state n' = ALL_STATE then n'\<lparr>node_state := DISK\<rparr> else n'))"

section \<open>Saving\<close>

definition OnWriteFinish :: "'b block_node \<Rightarrow> 'b block_node" where
  "OnWriteFinish n =
     (if node_state n = SAVING then n\<lparr>subpieces := [], node_state := DISK\<rparr> else n)"

text \<open>The entries inserted into \<^verbatim>\<open>buffer_set\<close>: the block's index, the subpiece's index, the buffer.\<close>

definition GetBufferForSave :: "'b block_node \<Rightarrow> (((nat \<times> nat) \<times> 'b) list \<times> 'b block_node) result" where
  "GetBufferForSave n =
     (if \<not> need_write n then Inr ([], n)
      else
        (let n1 = n\<lparr>need_write := False\<rparr>
         in case node_state n1 of
              ALL_STATE \<Rightarrow> Inr ([], n1\<lparr>node_state := DISK, subpieces := []\<rparr>)
            | MEM \<Rightarrow>
                (if list_all (has_key (subpieces n1)) [0..<length (subpieces n1)]
                 then Inr (map (\<lambda>i. ((index n1, i), the (map_of (subpieces n1) i))) [0..<length (subpieces n1)],
                           n1\<lparr>node_state := SAVING\<rparr>)
                 else Inl AssertionFailed)
            | _ \<Rightarrow> Inr ([], n1)))"

definition ResetForReDownload :: "'b block_node \<Rightarrow> 'b block_node result" where
  "ResetForReDownload n =
     (if node_state n \<noteq> READING then Inl AssertionFailed
      else Inr (n\<lparr>node_state := EMPTY, piece_count := map (\<lambda>_. 0) (piece_count n)\<rparr>))"

section \<open>Bytes\<close>

text \<open>The checks of \<^verbatim>\<open>base::util::memcpy2\<close> (\<^verbatim>\<open>base/util.h\<close>) on the sizes.\<close>

definition memcpy2_ok :: "nat \<Rightarrow> nat \<Rightarrow> bool" where
  "memcpy2_ok numberOfElements count =
     (count = 0 \<or> (count \<le> 0x3FFFFFFF \<and> numberOfElements \<le> 0x3FFFFFFF \<and> count \<le> numberOfElements))"

text \<open>Appending to a temporary buffer of a given size.\<close>

definition append_bytes :: "nat \<Rightarrow> u8 list \<Rightarrow> u8 list \<Rightarrow> u8 list result" where
  "append_bytes tmp_buffer_size bs out =
     (if memcpy2_ok (tmp_buffer_size - length out) (length bs) then Inr (out @ bs)
      else Inl AssertionFailed)"

section \<open>Writing the description of a block\<close>

definition piece_buffer :: "nat \<Rightarrow> 'b block_node \<Rightarrow> u8 list" where
  "piece_buffer p n =
     (if IsBlockSavedOnDisk n then
        (let num_blocks = (piece_count n ! p + 31) div 32
         in put32 (piece_count n ! p) @ concat (replicate num_blocks (put32 0)))
      else replicate 4 0)"

definition write_piece ::
    "'b block_node \<Rightarrow> nat \<Rightarrow> nat \<times> u8 list \<Rightarrow> (nat \<times> u8 list) result" where
  "write_piece n p = (\<lambda>(tmp_buffer_size, out).
     and_then (append_bytes tmp_buffer_size (put16 p) out) (\<lambda>out.
     let piecebuf = piece_buffer p n;
         size = (if length out + length piecebuf + 1024 > tmp_buffer_size
                 then tmp_buffer_size * 2 else tmp_buffer_size)
     in and_then (append_bytes size (put32 (length piecebuf)) out) (\<lambda>out.
        and_then (append_bytes size piecebuf out) (\<lambda>out. Inr (size, out)))))"

fun write_pieces ::
    "'b block_node \<Rightarrow> nat list \<Rightarrow> nat \<times> u8 list \<Rightarrow> (nat \<times> u8 list) result" where
  "write_pieces n [] st = Inr st"
| "write_pieces n (p # ps) st = and_then (write_piece n p st) (write_pieces n ps)"

definition NullBlockToBuffer :: "u8 list" where
  "NullBlockToBuffer = replicate 4 0"

text \<open>The counter of the loop has 16 bits: with \<open>2 ^ 16\<close> pieces or more it wraps and the loop
  doubles its buffer until the check of \<^verbatim>\<open>memcpy2\<close> on its size fails.\<close>

definition ToBuffer :: "'b block_node \<Rightarrow> u8 list result" where
  "ToBuffer n =
     (if \<not> length (piece_count n) < 2 ^ 16 then Inl AssertionFailed
      else
        and_then (append_bytes (2 * 1024 * 32) (put32 (total_subpiece_count n)) []) (\<lambda>out.
        and_then (write_pieces n [0..<length (piece_count n)] (2 * 1024 * 32, out)) (\<lambda>(size, out).
          Inr out)))"

section \<open>Reading the description of a block\<close>

text \<open>\<open>None\<close>: \<^verbatim>\<open>CheckBuf\<close> returns false; otherwise the two numbers it stores.\<close>

definition CheckBuf :: "u8 list \<Rightarrow> (nat \<times> nat) option result" where
  "CheckBuf bs =
     (if length bs < 4 then Inr None
      else
        (let max_num_subpiece = get32 bs 0
         in if max_num_subpiece = 0 then
              (if length bs = 4 then Inr (Some (0, 0)) else Inl AssertionFailed)
            else Inr (Some (max_num_subpiece, length bs - 4))))"

text \<open>The loop that reads the words of the bit set; its counter has 8 bits.\<close>

partial_function (option) read_words :: "nat \<Rightarrow> u8 list \<Rightarrow> nat \<Rightarrow> nat list \<Rightarrow> nat list option" where
  "read_words count bs i acc =
     (if i < count then read_words count bs ((i + 1) mod 2 ^ 8) (acc @ [get32 bs (4 + i * 4)])
      else Some acc)"

declare read_words.simps [code]

text \<open>
  \<^verbatim>\<open>subpiece_set\<close> after \<^verbatim>\<open>resize(bitcount, true)\<close> and \<^verbatim>\<open>flip()\<close> has \<^verbatim>\<open>count() < bitcount\<close> unless each
  of the first \<open>bitcount\<close> bits comes from a word and is 0.
\<close>

definition all_present :: "nat list \<Rightarrow> nat \<Rightarrow> bool" where
  "all_present ws bitcount =
     (bitcount \<le> 32 * length ws \<and>
      list_all (\<lambda>k. even (ws ! (k div 32) div 2 ^ (k mod 32))) [0..<bitcount])"

datatype parsed = ReturnFalse | Left nat "nat list"

text \<open>
  One pass of the loop of \<^verbatim>\<open>Parse\<close> over the piece buffers: \<open>buf\<close> are the bytes after the first
  four, \<open>pc\<close> the piece counters so far.  \<open>Break\<close> and \<open>Continue\<close> carry the offset and the
  counters; \<open>None\<close> is the inner loop that does not end.
\<close>

definition parse_piece ::
    "u8 list \<Rightarrow> nat \<Rightarrow> nat list \<Rightarrow> ((nat \<times> nat list) flow option) result option" where
  "parse_piece buf offset0 pc =
     (if offset0 + 6 > length buf then Some (Inl AssertionFailed)
      else
        (let piece_index = get16 buf offset0;
             piecebuflen = get32 buf (offset0 + 2);
             offset = offset0 + 6
         in if piece_index > length pc then Some (Inl AssertionFailed)
            else if piecebuflen = 0 then Some (Inl AssertionFailed)
            else if (offset + piecebuflen) mod 2 ^ 32 > length buf then Some (Inl AssertionFailed)
            else if piecebuflen > 0x3FFFFFFF then Some (Inl AssertionFailed)
            else
              (let piecebuf = take piecebuflen (drop offset buf);
                   offset = offset + piecebuflen
               in case CheckBuf piecebuf of
                    Inl e \<Rightarrow> Some (Inl e)
                  | Inr None \<Rightarrow> Some (Inr None)
                  | Inr (Some (bitcount, bitbuffersize)) \<Rightarrow>
                      if bitbuffersize = 0 then Some (Inr (Some (Break (offset, pc))))
                      else
                        (case read_words (bitbuffersize div 4) piecebuf 0 [] of
                           None \<Rightarrow> None
                         | Some ws \<Rightarrow>
                             if \<not> all_present ws bitcount then Some (Inr (Some (Break (offset, pc))))
                             else if \<not> piece_index < length pc then Some (Inl OutOfRange)
                             else Some (Inr (Some (Continue (offset, pc[piece_index := bitcount]))))))))"

partial_function (option) parse_pieces ::
    "u8 list \<Rightarrow> nat \<Rightarrow> nat list \<Rightarrow> parsed result option" where
  "parse_pieces buf offset pc =
     (if offset < length buf then
        (case parse_piece buf offset pc of
           None \<Rightarrow> None
         | Some (Inl e) \<Rightarrow> Some (Inl e)
         | Some (Inr None) \<Rightarrow> Some (Inr ReturnFalse)
         | Some (Inr (Some (Break (offset', pc')))) \<Rightarrow> Some (Inr (Left offset' pc'))
         | Some (Inr (Some (Continue (offset', pc')))) \<Rightarrow> parse_pieces buf offset' pc')
      else Some (Inr (Left offset pc)))"

declare parse_pieces.simps [code]

text \<open>
  \<open>None\<close> inside the result: \<^verbatim>\<open>Parse\<close> returns false; \<open>Some None\<close>: it returns true with an empty
  pointer.
\<close>

definition Parse :: "u32 \<Rightarrow> nat \<Rightarrow> u8 list \<Rightarrow> 'b block_node option option result option" where
  "Parse t i blockinfo_buf =
     (case CheckBuf blockinfo_buf of
        Inl e \<Rightarrow> Some (Inl e)
      | Inr None \<Rightarrow> Some (Inr None)
      | Inr (Some (total_count, pieces_buffer_size)) \<Rightarrow>
          if pieces_buffer_size = 0 then Some (Inr (Some None))
          else
            (case Create i total_count False t of
               Inl e \<Rightarrow> Some (Inl e)
             | Inr node \<Rightarrow>
                 (case parse_pieces (drop 4 blockinfo_buf) 0 (piece_count node) of
                    None \<Rightarrow> None
                  | Some (Inl e) \<Rightarrow> Some (Inl e)
                  | Some (Inr ReturnFalse) \<Rightarrow> Some (Inr None)
                  | Some (Inr (Left offset pc)) \<Rightarrow>
                      if offset < pieces_buffer_size then Some (Inr (Some None))
                      else Some (Inr (Some (Some (node\<lparr>piece_count := pc, node_state := DISK\<rparr>)))))))"

section \<open>Invariant\<close>

text \<open>
  The keys of the map; the number of pieces of a block with \<open>total\<close> subpieces and the
  capacity of each; \<open>2 ^ 22\<close> subpieces of 1 KB are the most a file with a 32-bit length can have.
\<close>

abbreviation keys :: "'b block_node \<Rightarrow> nat list" where
  "keys n \<equiv> map fst (subpieces n)"

definition pieces_of :: "nat \<Rightarrow> nat" where
  "pieces_of cnt = (cnt + 127) div 128"

definition capacity :: "nat \<Rightarrow> nat \<Rightarrow> nat" where
  "capacity cnt p = (if p = pieces_of cnt - 1 then (cnt - 1) mod 128 + 1 else 128)"

definition bn_shape :: "'b block_node \<Rightarrow> bool" where
  "bn_shape n =
     (0 < total_subpiece_count n \<and> total_subpiece_count n \<le> 2 ^ 22 \<and>
      length (piece_count n) = pieces_of (total_subpiece_count n) \<and>
      last_piece_capacity n = (total_subpiece_count n - 1) mod 128 + 1 \<and>
      distinct (keys n) \<and> list_all (\<lambda>i. i < total_subpiece_count n) (keys n))"

definition count_in_piece :: "nat \<Rightarrow> 'b block_node \<Rightarrow> nat" where
  "count_in_piece p n = length (filter (\<lambda>i. i div 128 = p) (keys n))"

text \<open>In memory the counters count the map; for a block on disk they are the capacities.\<close>

definition bn_mem_ok :: "'b block_node \<Rightarrow> bool" where
  "bn_mem_ok n =
     (bn_shape n \<and> \<not> IsBlockSavedOnDisk n \<and>
      list_all (\<lambda>p. piece_count n ! p = count_in_piece p n) [0..<length (piece_count n)])"

definition bn_disk_ok :: "'b block_node \<Rightarrow> bool" where
  "bn_disk_ok n =
     (bn_shape n \<and> IsBlockSavedOnDisk n \<and>
      list_all (\<lambda>p. piece_count n ! p = capacity (total_subpiece_count n) p) [0..<length (piece_count n)])"

section \<open>Counting\<close>

lemma per_piece [simp]: "subpiece_num_per_piece_g = 128"
  by (simp add: subpiece_num_per_piece_g_def)

lemma has_key_iff: "has_key m k \<longleftrightarrow> k \<in> set (map fst m)"
  by (auto simp: has_key_def map_of_eq_None_iff)

lemma pieces_of_alt: "0 < cnt \<Longrightarrow> pieces_of cnt = (cnt - 1) div 128 + 1"
  unfolding pieces_of_def by arith

lemma piece_range:
  assumes "0 < cnt" "p < pieces_of cnt"
  shows "{i. i < cnt \<and> i div 128 = p} = {p * 128..<p * 128 + capacity cnt p}"
proof -
  define l where "l = (cnt - 1) div 128"
  define r where "r = (cnt - 1) mod 128"
  have c: "cnt = l * 128 + r + 1" "r < 128"
    using assms(1) div_mult_mod_eq [of "cnt - 1" 128] by (simp_all add: l_def r_def)
  have pl: "p \<le> l" using assms by (simp add: pieces_of_alt l_def)
  have cap: "capacity cnt p = (if p = l then r + 1 else 128)"
    using assms(1) by (simp add: capacity_def pieces_of_alt l_def r_def)
  have d: "i div 128 = p \<longleftrightarrow> p * 128 \<le> i \<and> i < p * 128 + 128" for i :: nat by arith
  show ?thesis
  proof (cases "p = l")
    case True
    then show ?thesis using c cap by (auto simp: d)
  next
    case False
    with pl have "p * 128 + 128 \<le> l * 128" by arith
    then show ?thesis using c cap False by (auto simp: d)
  qed
qed

lemma count_le_capacity:
  assumes "bn_shape n" "p < length (piece_count n)"
  shows "count_in_piece p n = card {i \<in> set (keys n). i div 128 = p}"
    "count_in_piece p n = capacity (total_subpiece_count n) p \<longleftrightarrow>
       (\<forall>i<total_subpiece_count n. i div 128 = p \<longrightarrow> i \<in> set (keys n))"
proof -
  let ?t = "total_subpiece_count n"
  let ?K = "{i \<in> set (keys n). i div 128 = p}" and ?P = "{i. i < ?t \<and> i div 128 = p}"
  have "distinct (keys n)" using assms(1) by (simp add: bn_shape_def)
  then show c: "count_in_piece p n = card ?K"
    unfolding count_in_piece_def by (metis distinct_card distinct_filter set_filter)
  have sub: "?K \<subseteq> ?P" using assms(1) by (auto simp: bn_shape_def list_all_iff)
  have "?P = {p * 128..<p * 128 + capacity ?t p}"
    using assms by (intro piece_range) (simp_all add: bn_shape_def)
  then have P: "finite ?P" "card ?P = capacity ?t p" by simp_all
  have "card ?K = card ?P \<longleftrightarrow> ?K = ?P" using card_subset_eq [OF P(1) sub] by auto
  with c P(2) show "count_in_piece p n = capacity ?t p \<longleftrightarrow>
       (\<forall>i<?t. i div 128 = p \<longrightarrow> i \<in> set (keys n))"
    using sub by auto
qed

lemma IsPieceFull_eq:
  assumes "bn_shape n" "p < length (piece_count n)"
  shows "IsPieceFull p n = Inr (piece_count n ! p = capacity (total_subpiece_count n) p)"
  using assms by (simp add: IsPieceFull_def capacity_def bn_shape_def)

lemma IsPieceFull_mem:
  assumes "bn_mem_ok n" "p < length (piece_count n)"
  shows "IsPieceFull p n = Inr (\<forall>i<total_subpiece_count n. i div 128 = p \<longrightarrow> has_key (subpieces n) i)"
proof -
  have "bn_shape n" "piece_count n ! p = count_in_piece p n"
    using assms by (simp_all add: bn_mem_ok_def list_all_length)
  with count_le_capacity(2) [of n p] IsPieceFull_eq [of n p] assms(2) show ?thesis
    by (simp add: has_key_iff)
qed

lemma empty_piece:
  assumes "bn_mem_ok n" "p < length (piece_count n)" "piece_count n ! p = 0" "i div 128 = p"
  shows "\<not> has_key (subpieces n) i"
proof -
  have "bn_shape n" "count_in_piece p n = 0" using assms by (simp_all add: bn_mem_ok_def list_all_length)
  then have "{i \<in> set (keys n). i div 128 = p} = {}"
    using count_le_capacity(1) [of n p] assms(2) by simp
  with assms(4) show ?thesis by (auto simp: has_key_iff)
qed

section \<open>The next missing subpiece\<close>

text \<open>The reference: the least missing subpiece from \<open>start\<close> on.\<close>

definition first_missing :: "nat \<Rightarrow> 'b block_node \<Rightarrow> nat option" where
  "first_missing start n = find (\<lambda>i. \<not> has_key (subpieces n) i) [start..<total_subpiece_count n]"

lemma scan_null_eq:
  assumes "cnt < 2 ^ 16"
  shows "scan_null cnt m i = Some (find (\<lambda>i. \<not> has_key m i) [i..<cnt])"
proof (induction "cnt - i" arbitrary: i)
  case 0
  then show ?case by (simp add: scan_null.simps)
next
  case (Suc k)
  then have "i < cnt" "(i + 1) mod 2 ^ 16 = Suc i" using assms by simp_all
  with Suc.hyps(1) [of "Suc i"] Suc.hyps(2) show ?case
    by (simp add: scan_null.simps [of cnt m i] upt_conv_Cons)
qed

lemma find_upt_skip:
  assumes "\<And>i. a \<le> i \<Longrightarrow> i < b \<Longrightarrow> i < c \<Longrightarrow> \<not> P i" "a \<le> b"
  shows "find P [a..<c] = find P [b..<c]"
proof (cases "b \<le> c")
  case True
  then have "[a..<c] = [a..<b] @ [b..<c]" using assms(2) upt_add_eq_append [of a b "c - b"] by simp
  moreover have "find P [a..<b] = None" using assms(1) True by (auto simp: find_None_iff)
  ultimately show ?thesis by (simp add: find_append_None)
next
  case False
  then have "find P [a..<c] = None" using assms(1) by (auto simp: find_None_iff)
  with False show ?thesis by simp
qed

lemma first_missing_full_piece:
  assumes "\<And>i. i < total_subpiece_count n \<Longrightarrow> i div 128 = p \<Longrightarrow> has_key (subpieces n) i" "s div 128 = p"
  shows "first_missing s n = first_missing (Suc p * 128) n"
  unfolding first_missing_def
proof (rule find_upt_skip)
  fix i assume i: "s \<le> i" "i < Suc p * 128" "i < total_subpiece_count n"
  have "i div 128 = p"
    using div_le_mono [OF i(1), of 128] less_mult_imp_div_less [OF i(2)] assms(2) by simp
  with assms(1) i(3) show "\<not> \<not> has_key (subpieces n) i" by blast
next
  show "s \<le> Suc p * 128" using dividend_less_div_times [of 128 s] assms(2) by simp
qed

lemma first_missing_hit:
  assumes "\<not> has_key (subpieces n) i" "i < total_subpiece_count n"
  shows "first_missing i n = Some i"
  using assms by (simp add: first_missing_def upt_conv_Cons)

lemma next_null_Cons:
  assumes "s = (if p = start div 128 then start else p * 128)" "IsPieceFull p n = Inr b"
    and "scan_null (total_subpiece_count n) (subpieces n) (s mod 2 ^ 16) = Some r"
  shows "next_null n start (p # ps) =
     (if piece_count n ! p = 0 then Some (Inr (Some s))
      else if b then next_null n start ps
      else case r of Some i \<Rightarrow> Some (Inr (Some i)) | None \<Rightarrow> next_null n start ps)"
  using assms by (cases "p = start div 128"; cases b) (auto simp: Let_def split: option.split)

lemma next_null_eq:
  assumes ok: "bn_mem_ok n" and small: "total_subpiece_count n < 2 ^ 16"
    and start: "start < total_subpiece_count n"
    and p: "start div 128 \<le> p" "p \<le> length (piece_count n)"
  shows "next_null n start [p..<length (piece_count n)] =
    Some (Inr (first_missing (if p = start div 128 then start else p * 128) n))"
  using p
proof (induction "length (piece_count n) - p" arbitrary: p)
  case 0
  have len: "length (piece_count n) = (total_subpiece_count n - 1) div 128 + 1"
    using ok by (simp add: bn_mem_ok_def bn_shape_def pieces_of_alt)
  have "p = length (piece_count n)" using 0 by simp
  moreover from this have "p \<noteq> start div 128" "total_subpiece_count n \<le> p * 128" using start len by arith+
  ultimately show ?case by (simp add: first_missing_def)
next
  case (Suc k)
  let ?t = "total_subpiece_count n"
  define s where "s = (if p = start div 128 then start else p * 128)"
  have p: "p < length (piece_count n)" using Suc.hyps(2) by simp
  have len: "length (piece_count n) = (?t - 1) div 128 + 1"
    using ok by (simp add: bn_mem_ok_def bn_shape_def pieces_of_alt)
  have "p * 128 \<le> (?t - 1) div 128 * 128" using p len by (intro mult_right_mono) simp_all
  then have "p * 128 < ?t" using div_times_less_eq_dividend [of "?t - 1" 128] start by linarith
  then have s: "s < ?t" "s div 128 = p" using start by (auto simp: s_def)
  have le: "s \<le> Suc p * 128" using dividend_less_div_times [of 128 s] s(2) by simp
  have IH: "next_null n start [Suc p..<length (piece_count n)] = Some (Inr (first_missing (Suc p * 128) n))"
    using Suc.hyps(1) [of "Suc p"] Suc.hyps(2) Suc.prems p by auto
  have sm: "s mod 2 ^ 16 = s" using s(1) small by simp
  have pf: "IsPieceFull p n = Inr (\<forall>i<?t. i div 128 = p \<longrightarrow> has_key (subpieces n) i)"
    by (rule IsPieceFull_mem [OF ok p])
  have step: "next_null n start [p..<length (piece_count n)] =
     (if piece_count n ! p = 0 then Some (Inr (Some s))
      else if \<forall>i<?t. i div 128 = p \<longrightarrow> has_key (subpieces n) i
      then next_null n start [Suc p..<length (piece_count n)]
      else case first_missing s n of Some i \<Rightarrow> Some (Inr (Some i))
           | None \<Rightarrow> next_null n start [Suc p..<length (piece_count n)])"
    using next_null_Cons [OF s_def pf, of "first_missing s n" "[Suc p..<length (piece_count n)]"]
      scan_null_eq [OF small, of "subpieces n" s] sm p
    by (simp add: upt_conv_Cons first_missing_def [symmetric])
  consider (empty) "piece_count n ! p = 0"
    | (full) "piece_count n ! p \<noteq> 0" "\<forall>i<?t. i div 128 = p \<longrightarrow> has_key (subpieces n) i"
    | (part) "piece_count n ! p \<noteq> 0" "\<not> (\<forall>i<?t. i div 128 = p \<longrightarrow> has_key (subpieces n) i)" by blast
  then have "next_null n start [p..<length (piece_count n)] = Some (Inr (first_missing s n))"
  proof cases
    case empty
    with first_missing_hit [OF empty_piece [OF ok p empty s(2)] s(1)] step show ?thesis by simp
  next
    case full
    then have "first_missing s n = first_missing (Suc p * 128) n"
      by (intro first_missing_full_piece s(2)) blast
    with full step IH show ?thesis by presburger
  next
    case part
    have "first_missing (Suc p * 128) n = None" if "first_missing s n = None"
      using that le by (auto simp: first_missing_def find_None_iff)
    with step part IH show ?thesis by (cases "first_missing s n") auto
  qed
  then show ?case by (simp add: s_def)
qed

section \<open>Adding subpieces\<close>

text \<open>What adding a subpiece does to a block in memory.\<close>

lemma bn_mem_parts:
  assumes "bn_mem_ok n"
  shows "bn_shape n" "\<not> IsBlockSavedOnDisk n" "p < length (piece_count n) \<Longrightarrow> piece_count n ! p = count_in_piece p n"
  using assms by (auto simp: bn_mem_ok_def list_all_length)

lemma count_in_piece_le:
  assumes "bn_shape n"
  shows "count_in_piece p n \<le> 2 ^ 22"
proof -
  have d: "distinct (keys n)" and t: "total_subpiece_count n \<le> 2 ^ 22"
    "set (keys n) \<subseteq> {..<total_subpiece_count n}"
    using assms by (auto simp: bn_shape_def list_all_iff)
  have "count_in_piece p n \<le> length (keys n)" by (simp add: count_in_piece_def)
  also have "length (keys n) = card (set (keys n))" using distinct_card [OF d] by simp
  also have "\<dots> \<le> total_subpiece_count n" using card_mono [OF _ t(2)] by simp
  finally show ?thesis using t(1) by simp
qed

lemma piece_of_subpiece:
  assumes "bn_shape n" "i < total_subpiece_count n"
  shows "i div 128 < length (piece_count n)"
proof -
  have "length (piece_count n) = (total_subpiece_count n - 1) div 128 + 1"
    using assms(1) by (simp add: bn_shape_def pieces_of_alt)
  moreover have "i div 128 \<le> (total_subpiece_count n - 1) div 128"
    using assms(2) by (intro div_le_mono) simp
  ultimately show ?thesis by simp
qed

lemma IsFull_mem:
  assumes "bn_shape n"
  shows "length (subpieces n) = total_subpiece_count n \<longleftrightarrow> (\<forall>i<total_subpiece_count n. has_key (subpieces n) i)"
proof -
  let ?t = "total_subpiece_count n"
  have d: "distinct (keys n)" and sub: "set (keys n) \<subseteq> {..<?t}"
    using assms by (auto simp: bn_shape_def list_all_iff)
  have "length (subpieces n) = card (set (keys n))" using distinct_card [OF d] by simp
  moreover have "card (set (keys n)) = ?t \<longleftrightarrow> set (keys n) = {..<?t}"
    using card_subset_eq [OF finite_lessThan sub] by auto
  ultimately show ?thesis using sub by (auto simp: has_key_iff)
qed

definition added :: "u32 \<Rightarrow> nat \<Rightarrow> 'b \<Rightarrow> 'b block_node \<Rightarrow> 'b block_node" where
  "added t i buf n =
     (let n1 = n\<lparr>subpieces := (i, buf) # subpieces n, access_counter := t,
        piece_count := (piece_count n)[i div 128 := piece_count n ! (i div 128) + 1],
        node_state := (if node_state n = EMPTY then DOWNLOADING else node_state n)\<rparr>
      in if length (subpieces n) + 1 = total_subpiece_count n \<and> \<not> need_write n
         then n1\<lparr>need_write := True, node_state := MEM\<rparr> else n1)"

lemma AddSubpiece_eq:
  assumes "bn_mem_ok n" "i < total_subpiece_count n" "\<not> has_key (subpieces n) i"
  shows "AddSubpiece t i buf n = Inr (True, added t i buf n)"
proof -
  note ok = bn_mem_parts [OF assms(1)]
  have p: "i div 128 < length (piece_count n)" by (rule piece_of_subpiece [OF ok(1) assms(2)])
  have "piece_count n ! (i div 128) + 1 < 2 ^ 32"
    using ok(3) [OF p] count_in_piece_le [OF ok(1), of "i div 128"] by simp
  then show ?thesis
    using p ok(2) assms(2,3)
    by (auto simp: AddSubpiece_def added_def IsFull_def IsBlockSavedOnDisk_def Let_def)
qed

lemma added_ok:
  assumes "bn_mem_ok n" "i < total_subpiece_count n" "\<not> has_key (subpieces n) i"
  shows "bn_mem_ok (added t i buf n)"
    "subpieces (added t i buf n) = (i, buf) # subpieces n"
    "total_subpiece_count (added t i buf n) = total_subpiece_count n" "index (added t i buf n) = index n"
proof -
  note ok = bn_mem_parts [OF assms(1)]
  show f: "subpieces (added t i buf n) = (i, buf) # subpieces n"
    "total_subpiece_count (added t i buf n) = total_subpiece_count n" "index (added t i buf n) = index n"
    by (simp_all add: added_def Let_def)
  have c: "count_in_piece p (added t i buf n) = (if i div 128 = p then 1 else 0) + count_in_piece p n" for p
    by (simp add: count_in_piece_def f(1))
  have g: "piece_count (added t i buf n) = (piece_count n)[i div 128 := piece_count n ! (i div 128) + 1]"
    "last_piece_capacity (added t i buf n) = last_piece_capacity n"
    by (simp_all add: added_def Let_def)
  have "\<not> IsBlockSavedOnDisk (added t i buf n)"
    using ok(2) by (auto simp: added_def Let_def IsBlockSavedOnDisk_def)
  moreover have "bn_shape (added t i buf n)"
    using ok(1) assms(2,3) by (simp add: bn_shape_def f g has_key_iff)
  ultimately show "bn_mem_ok (added t i buf n)"
    using ok(3) by (auto simp: bn_mem_ok_def list_all_length c g nth_list_update)
qed

fun add_all :: "u32 \<Rightarrow> (nat \<times> 'b) list \<Rightarrow> 'b block_node \<Rightarrow> 'b block_node result" where
  "add_all t [] n = Inr n"
| "add_all t ((i, buf) # xs) n = and_then (AddSubpiece t i buf n) (\<lambda>(_, n'). add_all t xs n')"

lemma Create_ok:
  assumes "0 < cnt" "cnt \<le> 2 ^ 22"
  shows "\<exists>n. Create i cnt False t = Inr n \<and> bn_mem_ok n \<and> subpieces n = [] \<and> total_subpiece_count n = cnt
    \<and> index n = i \<and> \<not> need_write n \<and> node_state n = EMPTY"
proof -
  have "(cnt + 127) mod 2 ^ 32 = cnt + 127" using assms(2) by simp
  then show ?thesis
    using assms by (auto simp: Create_def bn_mem_ok_def bn_shape_def pieces_of_def IsBlockSavedOnDisk_def
        list_all_length count_in_piece_def)
qed

text \<open>Adding distinct subpieces: the map grows by them, and the block asks for a write exactly when full.\<close>

lemma add_all_ok:
  assumes "bn_mem_ok n" "distinct (map fst xs @ keys n)" "list_all (\<lambda>i. i < total_subpiece_count n) (map fst xs)"
    and "need_write n \<longleftrightarrow> length (subpieces n) = total_subpiece_count n"
    and "need_write n \<Longrightarrow> node_state n = MEM"
  shows "\<exists>m. add_all t xs n = Inr m \<and> bn_mem_ok m \<and> subpieces m = rev xs @ subpieces n
    \<and> total_subpiece_count m = total_subpiece_count n \<and> index m = index n
    \<and> (need_write m \<longleftrightarrow> length (subpieces m) = total_subpiece_count m) \<and> (need_write m \<longrightarrow> node_state m = MEM)"
  using assms
proof (induction xs arbitrary: n)
  case (Cons x xs)
  obtain i buf where x: "x = (i, buf)" by (cases x)
  let ?n = "added t i buf n"
  have i: "i < total_subpiece_count n" "\<not> has_key (subpieces n) i"
    using Cons.prems(2,3) by (auto simp: x has_key_iff)
  note add = AddSubpiece_eq [OF Cons.prems(1) i] and ok = added_ok [OF Cons.prems(1) i]
  have "length (subpieces n) \<noteq> total_subpiece_count n"
    using IsFull_mem [OF bn_mem_parts(1) [OF Cons.prems(1)]] i by blast
  then have "\<not> need_write n" using Cons.prems(4) by blast
  then have w: "need_write ?n \<longleftrightarrow> length (subpieces ?n) = total_subpiece_count ?n" "need_write ?n \<Longrightarrow> node_state ?n = MEM"
    by (auto simp: added_def Let_def split: if_splits)
  have "\<exists>m. add_all t xs ?n = Inr m \<and> bn_mem_ok m \<and> subpieces m = rev xs @ subpieces ?n
    \<and> total_subpiece_count m = total_subpiece_count ?n \<and> index m = index ?n
    \<and> (need_write m \<longleftrightarrow> length (subpieces m) = total_subpiece_count m) \<and> (need_write m \<longrightarrow> node_state m = MEM)"
    by (rule Cons.IH [OF ok(1) _ _ w]) (use Cons.prems(2,3) in \<open>auto simp: ok(2,3) x\<close>)
  then show ?case using add by (auto simp: x ok(2-4))
qed simp

lemma GetBufferForSave_full:
  assumes "bn_mem_ok n" "need_write n" "node_state n = MEM" "length (subpieces n) = total_subpiece_count n"
  shows "GetBufferForSave n =
    Inr (map (\<lambda>i. ((index n, i), the (map_of (subpieces n) i))) [0..<total_subpiece_count n],
         n\<lparr>need_write := False, node_state := SAVING\<rparr>)"
proof -
  have "\<forall>i<total_subpiece_count n. has_key (subpieces n) i"
    using IsFull_mem [OF bn_mem_parts(1) [OF assms(1)]] assms(4) by blast
  then show ?thesis using assms by (auto simp: GetBufferForSave_def list_all_iff)
qed

section \<open>Clearing the cache\<close>

lemma keys_delete: "map fst (AList.delete k m) = removeAll k (map fst m)"
  by (induction m) auto

lemma erase_subpiece_ok:
  assumes "i div 128 < length (piece_count n)"
  shows "\<exists>m. erase_subpiece i n = Inr m \<and> keys m = removeAll i (keys n) \<and> node_state m = node_state n
    \<and> total_subpiece_count m = total_subpiece_count n \<and> length (piece_count m) = length (piece_count n)"
  using assms by (simp add: erase_subpiece_def Let_def keys_delete IsBlockSavedOnDisk_def)

lemma clear_from_half:
  assumes "set (keys n) = {i..<c}" "distinct (keys n)" "c \<le> play" "i \<le> (c + 1) div 2"
    and "\<And>j. j < c \<Longrightarrow> j div 128 < length (piece_count n)"
  shows "\<exists>m. clear_from play i n = Inr m \<and> set (keys m) = {(c + 1) div 2..<c} \<and> distinct (keys m)
    \<and> node_state m = node_state n \<and> total_subpiece_count m = total_subpiece_count n"
  using assms
proof (induction "c - i" arbitrary: i n rule: less_induct)
  case less
  have len: "length (subpieces n) = c - i"
    using distinct_card [OF less.prems(2)] less.prems(1) by simp
  show ?case
  proof (cases "i < c - i")
    case True
    then have i: "i < c" "has_key (subpieces n) i" "i \<le> play" using less.prems by (auto simp: has_key_iff)
    obtain m where m: "erase_subpiece i n = Inr m" "keys m = removeAll i (keys n)" "node_state m = node_state n"
      "total_subpiece_count m = total_subpiece_count n" "length (piece_count m) = length (piece_count n)"
      using erase_subpiece_ok [OF less.prems(5) [OF i(1)]] by blast
    have "set (keys m) = {Suc i..<c}" using m(2) less.prems(1) i(1) by auto
    moreover have "distinct (keys m)" using m(2) less.prems(2) by (simp add: distinct_removeAll)
    moreover have "c - Suc i < c - i" "Suc i \<le> (c + 1) div 2" using True i(1) by auto
    ultimately obtain u where "clear_from play (Suc i) m = Inr u" "set (keys u) = {(c + 1) div 2..<c}"
      "distinct (keys u)" "node_state u = node_state m" "total_subpiece_count u = total_subpiece_count m"
      using less.hyps [of "Suc i" m] less.prems(3,5) m(5) by auto
    with m i True len show ?thesis by (subst clear_from.simps) simp
  next
    case False
    then have "i = (c + 1) div 2" using less.prems(4) by linarith
    with False less.prems len show ?thesis by (subst clear_from.simps) simp
  qed
qed

section \<open>Bytes and buffers\<close>

lemma memcpy2_ok_le: "count \<le> sz \<Longrightarrow> sz \<le> 0x3FFFFFFF \<Longrightarrow> memcpy2_ok sz count"
  by (simp add: memcpy2_ok_def)

section \<open>Writing\<close>

definition piece_entry :: "'b block_node \<Rightarrow> nat \<Rightarrow> u8 list" where
  "piece_entry n p = put16 p @ put32 (length (piece_buffer p n)) @ piece_buffer p n"

lemma piece_buffer_le:
  assumes "piece_count n ! p \<le> 128"
  shows "4 \<le> length (piece_buffer p n)" "length (piece_buffer p n) \<le> 20"
proof -
  have "(piece_count n ! p + 31) div 32 \<le> 4" using assms by simp
  then show "4 \<le> length (piece_buffer p n)" "length (piece_buffer p n) \<le> 20"
    by (simp_all add: piece_buffer_def Let_def concat_zeros)
qed

definition room :: "nat \<Rightarrow> u8 list \<Rightarrow> bool" where
  "room sz out = (length out + 1018 \<le> sz \<and> sz \<le> 65536 + 4 * (length out + 1024))"

lemma write_piece_ok:
  assumes "room sz out" "piece_count n ! p \<le> 128" "length out + 26 \<le> 2 ^ 20"
  shows "\<exists>sz'. write_piece n p (sz, out) = Inr (sz', out @ piece_entry n p) \<and> room sz' (out @ piece_entry n p)"
proof -
  note l = piece_buffer_le [OF assms(2)]
  define pl where "pl = length (piece_buffer p n)"
  define sz' where "sz' = (if length out + 2 + pl + 1024 > sz then sz * 2 else sz)"
  have pl: "4 \<le> pl" "pl \<le> 20" using l by (simp_all add: pl_def)
  have r: "length out + 1018 \<le> sz" "sz \<le> 65536 + 4 * (length out + 1024)" using assms(1) by (simp_all add: room_def)
  have r': "length out + 6 + pl + 1018 \<le> sz'" "sz' \<le> 65536 + 4 * (length out + 6 + pl + 1024)"
    using r pl by (auto simp: sz'_def)
  have big: "sz \<le> 0x3FFFFFFF" "sz' \<le> 0x3FFFFFFF" using r r' pl assms(3) by auto
  have "append_bytes sz (put16 p) out = Inr (out @ put16 p)"
    using r big by (simp add: append_bytes_def memcpy2_ok_le)
  moreover have "append_bytes sz' (put32 pl) (out @ put16 p) = Inr (out @ put16 p @ put32 pl)"
    using r' pl big by (simp add: append_bytes_def memcpy2_ok_le)
  moreover have "append_bytes sz' (piece_buffer p n) (out @ put16 p @ put32 pl) = Inr (out @ piece_entry n p)"
    using r' pl big by (simp add: append_bytes_def memcpy2_ok_le piece_entry_def pl_def [symmetric])
  ultimately have "write_piece n p (sz, out) = Inr (sz', out @ piece_entry n p)"
    by (simp add: write_piece_def Let_def pl_def [symmetric] sz'_def)
  moreover have "room sz' (out @ piece_entry n p)"
    using r' by (simp add: room_def piece_entry_def pl_def [symmetric])
  ultimately show ?thesis by blast
qed

lemma piece_entry_le: "piece_count n ! p \<le> 128 \<Longrightarrow> length (piece_entry n p) \<le> 26"
  using piece_buffer_le(2) [of n p] by (simp add: piece_entry_def)

lemma write_pieces_ok:
  assumes "room sz out" "\<forall>p\<in>set ps. piece_count n ! p \<le> 128" "length out + 26 * length ps \<le> 2 ^ 20"
  shows "\<exists>sz'. write_pieces n ps (sz, out) = Inr (sz', out @ concat (map (piece_entry n) ps))"
  using assms
proof (induction ps arbitrary: sz out)
  case (Cons p ps)
  then have p: "piece_count n ! p \<le> 128" "length out + 26 \<le> 2 ^ 20" by auto
  obtain sz' where "write_piece n p (sz, out) = Inr (sz', out @ piece_entry n p)" "room sz' (out @ piece_entry n p)"
    using write_piece_ok [OF Cons.prems(1) p] by blast
  moreover have "length (out @ piece_entry n p) + 26 * length ps \<le> 2 ^ 20"
    using Cons.prems(3) piece_entry_le [OF p(1)] by simp
  ultimately show ?case using Cons.IH [of sz' "out @ piece_entry n p"] Cons.prems(2) by auto
qed simp

definition bn_pieces_ok :: "'b block_node \<Rightarrow> bool" where
  "bn_pieces_ok n = (bn_shape n \<and> list_all (\<lambda>c. c \<le> 128) (piece_count n))"

lemma pieces_le: "bn_shape n \<Longrightarrow> length (piece_count n) \<le> 2 ^ 15"
  using div_le_mono [of "total_subpiece_count n + 127" "2 ^ 22 + 127" 128]
  by (simp add: bn_shape_def pieces_of_def)

lemma ToBuffer_eq:
  assumes "bn_pieces_ok n"
  shows "ToBuffer n = Inr (put32 (total_subpiece_count n) @
    concat (map (piece_entry n) [0..<length (piece_count n)]))"
proof -
  let ?out = "put32 (total_subpiece_count n)"
  have len: "length (piece_count n) \<le> 2 ^ 15" using assms pieces_le by (auto simp: bn_pieces_ok_def)
  moreover have "\<forall>p\<in>set [0..<length (piece_count n)]. piece_count n ! p \<le> 128"
    using assms by (auto simp: bn_pieces_ok_def list_all_length)
  ultimately obtain sz' where "write_pieces n [0..<length (piece_count n)] (65536, ?out) =
     Inr (sz', ?out @ concat (map (piece_entry n) [0..<length (piece_count n)]))"
    using write_pieces_ok [of 65536 ?out "[0..<length (piece_count n)]" n] by (auto simp: room_def)
  moreover have "append_bytes (2 * 1024 * 32) ?out [] = Inr ?out"
    by (simp add: append_bytes_def memcpy2_ok_def)
  ultimately show ?thesis using len by (simp add: ToBuffer_def)
qed

section \<open>Reading\<close>

lemma read_words_eq:
  assumes "count < 256" "i \<le> count"
  shows "read_words count bs i acc = Some (acc @ map (\<lambda>i. get32 bs (4 + i * 4)) [i..<count])"
  using assms(2)
proof (induction "count - i" arbitrary: i acc)
  case 0
  then show ?case by (simp add: read_words.simps)
next
  case (Suc k)
  then have "i < count" "(i + 1) mod 2 ^ 8 = Suc i" using assms(1) by simp_all
  with Suc.hyps(1) [of "Suc i"] Suc.hyps(2) show ?case
    by (simp add: read_words.simps [of count bs i acc] upt_conv_Cons)
qed

lemma all_present_zeros: "c \<le> 32 * k \<Longrightarrow> all_present (map (\<lambda>_. 0) [0..<k]) c"
  by (auto simp: all_present_def list_all_iff)

lemma take_drop_mid: "take (length b) (drop (length a) (a @ b @ c)) = b"
  by simp

text \<open>The entry of a saved piece is read back, that of a piece in memory ends the loop.\<close>

lemma parse_piece_header:
  assumes "p < 2 ^ 16" "p \<le> length pc" "piece_count n ! p \<le> 128"
    and "length (pre @ piece_entry n p @ post) < 2 ^ 32"
  shows "parse_piece (pre @ piece_entry n p @ post) (length pre) pc =
    (case CheckBuf (piece_buffer p n) of
       Inl e \<Rightarrow> Some (Inl e)
     | Inr None \<Rightarrow> Some (Inr None)
     | Inr (Some (bitcount, bitbuffersize)) \<Rightarrow>
         if bitbuffersize = 0 then Some (Inr (Some (Break (length pre + length (piece_entry n p), pc))))
         else
           (case read_words (bitbuffersize div 4) (piece_buffer p n) 0 [] of
              None \<Rightarrow> None
            | Some ws \<Rightarrow>
                if \<not> all_present ws bitcount then Some (Inr (Some (Break (length pre + length (piece_entry n p), pc))))
                else if \<not> p < length pc then Some (Inl OutOfRange)
                else Some (Inr (Some (Continue (length pre + length (piece_entry n p), pc[p := bitcount]))))))"
proof -
  define pb where "pb = piece_buffer p n"
  have pb: "4 \<le> length pb" "length pb \<le> 20" using piece_buffer_le [OF assms(3)] by (simp_all add: pb_def)
  let ?buf = "pre @ put16 p @ put32 (length pb) @ pb @ post"
  have e: "pre @ piece_entry n p @ post = ?buf" by (simp add: piece_entry_def pb_def)
  have g16: "get16 ?buf (length pre) = p" by (rule get_put(2) [OF assms(1)])
  have g32: "get32 ?buf (length pre + 2) = length pb"
    using get_put(1) [of "length pb" "pre @ put16 p" "pb @ post"] pb by simp
  have tk: "take (length pb) (drop (length pre + 6) ?buf) = pb"
    using take_drop_mid [of pb "pre @ put16 p @ put32 (length pb)" post] by simp
  have len: "length pre + 6 + length pb + length post < 2 ^ 32" using assms(4) unfolding e by simp
  have el: "length pre + length (piece_entry n p) = length pre + 6 + length pb"
    by (simp add: piece_entry_def pb_def)
  have ne: "length pb \<noteq> 0" using pb(1) by linarith
  have sum: "(length pre + 6 + length pb) mod 2 ^ 32 = length pre + 6 + length pb" using len by simp
  show ?thesis
    unfolding e el pb_def [symmetric] parse_piece_def Let_def g16 g32 tk sum
    using assms(2) pb ne by simp
qed

lemma piece_buffer_saved:
  assumes "IsBlockSavedOnDisk n" "0 < piece_count n ! p" "piece_count n ! p \<le> 128"
  shows "CheckBuf (piece_buffer p n) = Inr (Some (piece_count n ! p, 4 * ((piece_count n ! p + 31) div 32)))"
    "read_words ((piece_count n ! p + 31) div 32) (piece_buffer p n) 0 [] =
       Some (map (\<lambda>_. 0) [0..<(piece_count n ! p + 31) div 32])"
proof -
  let ?c = "piece_count n ! p" and ?k = "(piece_count n ! p + 31) div 32"
  have pb: "piece_buffer p n = put32 ?c @ replicate (4 * ?k) 0"
    using assms(1) by (simp add: piece_buffer_def Let_def concat_zeros)
  have "get32 (piece_buffer p n) 0 = ?c"
    using get_put(1) [of ?c "[]" "replicate (4 * ?k) 0"] assms(3) by (simp add: pb)
  then show "CheckBuf (piece_buffer p n) = Inr (Some (?c, 4 * ?k))"
    using assms(2) by (simp add: CheckBuf_def Let_def pb)
  have "get32 (piece_buffer p n) (4 + i * 4) = 0" for i
    using get32_zeros [of "put32 ?c" "4 * ?k" "i * 4"] by (simp add: pb)
  then show "read_words ?k (piece_buffer p n) 0 [] = Some (map (\<lambda>_. 0) [0..<?k])"
    using read_words_eq [of ?k 0 "piece_buffer p n" "[]"] assms(3) by simp
qed

lemma parse_piece_saved:
  assumes "IsBlockSavedOnDisk n" "0 < piece_count n ! p" "piece_count n ! p \<le> 128" "p < 2 ^ 16" "p < length pc"
    and "length (pre @ piece_entry n p @ post) < 2 ^ 32"
  shows "parse_piece (pre @ piece_entry n p @ post) (length pre) pc =
    Some (Inr (Some (Continue (length pre + length (piece_entry n p), pc[p := piece_count n ! p]))))"
proof -
  have "piece_count n ! p \<le> 32 * ((piece_count n ! p + 31) div 32)" "(piece_count n ! p + 31) div 32 \<noteq> 0"
    using assms(2) by arith+
  then show ?thesis
    using parse_piece_header [of p pc n pre post] piece_buffer_saved [OF assms(1-3)] assms(3-) all_present_zeros
    by simp
qed

lemma parse_piece_unsaved:
  assumes "\<not> IsBlockSavedOnDisk n" "piece_count n ! p \<le> 128" "p < 2 ^ 16" "p < length pc"
    and "length (pre @ piece_entry n p @ post) < 2 ^ 32"
  shows "parse_piece (pre @ piece_entry n p @ post) (length pre) pc =
    Some (Inr (Some (Break (length pre + length (piece_entry n p), pc))))"
proof -
  have "piece_buffer p n = replicate 4 0" using assms(1) by (simp add: piece_buffer_def)
  moreover have "CheckBuf (replicate 4 0) = Inr (Some (0, 0))"
    by (simp add: CheckBuf_def get32_def Let_def get_le_zeros list_all_length)
  ultimately show ?thesis using parse_piece_header [of p pc n pre post] assms(2-) by simp
qed

lemma parse_pieces_saved:
  assumes "IsBlockSavedOnDisk n" "list_all (\<lambda>c. 0 < c \<and> c \<le> 128) (piece_count n)"
    and "length (piece_count n) \<le> 2 ^ 15" "length pc = length (piece_count n)"
    and "k \<le> length pc" "length (pre @ concat (map (piece_entry n) [k..<length pc])) < 2 ^ 32"
  shows "parse_pieces (pre @ concat (map (piece_entry n) [k..<length pc])) (length pre) pc =
    Some (Inr (Left (length (pre @ concat (map (piece_entry n) [k..<length pc])))
      (take k pc @ drop k (piece_count n))))"
  using assms(4-)
proof (induction "length pc - k" arbitrary: k pre pc)
  case 0
  then have "k = length pc" by simp
  with 0 show ?case by (subst parse_pieces.simps) simp
next
  case (Suc j)
  let ?rest = "concat (map (piece_entry n) [Suc k..<length pc])"
  let ?pc = "pc[k := piece_count n ! k]"
  have k: "k < length pc" using Suc.hyps(2) by simp
  have split: "concat (map (piece_entry n) [k..<length pc]) = piece_entry n k @ ?rest"
    using k by (simp add: upt_conv_Cons)
  have c: "0 < piece_count n ! k" "piece_count n ! k \<le> 128" "k < 2 ^ 16"
    using assms(2,3) k Suc.prems(1) by (simp_all add: list_all_length)
  have step: "parse_piece (pre @ piece_entry n k @ ?rest) (length pre) pc =
    Some (Inr (Some (Continue (length pre + length (piece_entry n k), ?pc))))"
    using Suc.prems(3) unfolding split by (rule parse_piece_saved [OF assms(1) c k])
  have "length pre < length (pre @ piece_entry n k @ ?rest)" by (simp add: piece_entry_def)
  then have "parse_pieces (pre @ piece_entry n k @ ?rest) (length pre) pc =
     parse_pieces ((pre @ piece_entry n k) @ ?rest) (length (pre @ piece_entry n k)) ?pc"
    by (subst parse_pieces.simps) (simp add: step)
  also have "\<dots> = Some (Inr (Left (length ((pre @ piece_entry n k) @ ?rest)) (take (Suc k) ?pc @ drop (Suc k) (piece_count n))))"
  proof -
    have "j = length ?pc - Suc k" using Suc.hyps(2) by simp
    from Suc.hyps(1) [OF this, of "pre @ piece_entry n k"] k Suc.prems(1) Suc.prems(3) [unfolded split]
    show ?thesis by simp
  qed
  also have "take (Suc k) ?pc @ drop (Suc k) (piece_count n) = take k pc @ drop k (piece_count n)"
    using k Suc.prems(1) by (simp add: take_Suc_conv_app_nth Cons_nth_drop_Suc)
  finally show ?case by (simp add: split)
qed

lemma parse_pieces_unsaved:
  assumes "\<not> IsBlockSavedOnDisk n" "list_all (\<lambda>c. c \<le> 128) (piece_count n)"
    and "0 < length pc" "length pc = length (piece_count n)"
    and "length (concat (map (piece_entry n) [0..<length pc])) < 2 ^ 32"
  shows "parse_pieces (concat (map (piece_entry n) [0..<length pc])) 0 pc =
    Some (Inr (Left (length (piece_entry n 0)) pc))"
proof -
  let ?rest = "concat (map (piece_entry n) [Suc 0..<length pc])"
  have split: "concat (map (piece_entry n) [0..<length pc]) = [] @ piece_entry n 0 @ ?rest"
    using assms(3) by (simp add: upt_conv_Cons)
  have "parse_piece ([] @ piece_entry n 0 @ ?rest) (length ([] :: u8 list)) pc =
    Some (Inr (Some (Break (length ([] :: u8 list) + length (piece_entry n 0), pc))))"
    using assms(5) unfolding split
    by (intro parse_piece_unsaved [OF assms(1)]) (use assms in \<open>auto simp: list_all_length\<close>)
  moreover have "0 < length (piece_entry n 0 @ ?rest)" by (simp add: piece_entry_def)
  ultimately show ?thesis by (subst parse_pieces.simps) (simp add: split)
qed

lemma entries_length:
  assumes "bn_pieces_ok n"
  shows "length (concat (map (piece_entry n) [0..<length (piece_count n)])) \<le> 26 * length (piece_count n)"
proof -
  have "length (concat (map (piece_entry n) ps)) \<le> 26 * length ps" if "\<forall>p\<in>set ps. piece_count n ! p \<le> 128" for ps
    using that by (induction ps) (auto dest: piece_entry_le)
  from this [of "[0..<length (piece_count n)]"] assms show ?thesis
    by (auto simp: bn_pieces_ok_def list_all_length)
qed

text \<open>The beginning of \<^verbatim>\<open>Parse\<close> on what \<^verbatim>\<open>ToBuffer\<close> wrote.\<close>

lemma Parse_written:
  assumes "bn_pieces_ok n"
    and "parse_pieces (concat (map (piece_entry n) [0..<length (piece_count n)])) 0
      (replicate (length (piece_count n)) 0) = Some (Inr (Left off pc))"
  shows "Parse t (index n) (put32 (total_subpiece_count n) @ concat (map (piece_entry n) [0..<length (piece_count n)])) =
    (if off < length (concat (map (piece_entry n) [0..<length (piece_count n)])) then Some (Inr (Some None))
     else Some (Inr (Some (Some \<lparr>subpieces = [], piece_count = pc, node_state = DISK,
       total_subpiece_count = total_subpiece_count n, last_piece_capacity = last_piece_capacity n,
       index = index n, need_write = False, access_counter = t\<rparr>))))"
proof -
  let ?t = "total_subpiece_count n"
  define e where "e = concat (map (piece_entry n) [0..<length (piece_count n)])"
  have sh: "0 < ?t" "?t \<le> 2 ^ 22" "length (piece_count n) = pieces_of ?t"
    "last_piece_capacity n = (?t - 1) mod 128 + 1"
    using assms(1) by (simp_all add: bn_pieces_ok_def bn_shape_def)
  have "0 < length (piece_count n)" using sh by (simp add: pieces_of_def)
  then have e: "0 < length e" by (simp add: e_def upt_conv_Cons piece_entry_def)
  have "get32 (put32 ?t @ e) 0 = ?t" using get_put(1) [of ?t "[]" e] sh(2) by simp
  then have check: "CheckBuf (put32 ?t @ e) = Inr (Some (?t, length e))"
    using sh(1) by (simp add: CheckBuf_def Let_def)
  have "(?t + 127) mod 2 ^ 32 div 128 = length (piece_count n)" using sh(2,3) by (simp add: pieces_of_def)
  then have create: "Create (index n) ?t False t = Inr \<lparr>subpieces = [],
      piece_count = replicate (length (piece_count n)) 0, node_state = EMPTY, total_subpiece_count = ?t,
      last_piece_capacity = last_piece_capacity n, index = index n, need_write = False, access_counter = t\<rparr>"
    using sh(1,4) by (simp add: Create_def Let_def add.commute)
  show ?thesis
    using e assms(2) unfolding e_def [symmetric] by (simp add: Parse_def check create)
qed

section \<open>Requesting what is missing\<close>

text \<open>
  The client's side of the search: repeat asking for the next missing subpiece and adding it.
  \<open>f i\<close> is the buffer received for subpiece \<open>i\<close>.
\<close>

definition request_step :: "(nat \<Rightarrow> 'b) \<Rightarrow> u32 \<Rightarrow> 'b block_node \<Rightarrow> 'b block_node option" where
  "request_step f t n =
     (case GetNextNullSubPiece 0 n of
        Some (Inr (Some i)) \<Rightarrow> (case AddSubpiece t i (f i) n of Inr (True, n') \<Rightarrow> Some n' | _ \<Rightarrow> None)
      | _ \<Rightarrow> None)"

definition requestable :: "'b block_node \<Rightarrow> bool" where
  "requestable n =
     (bn_mem_ok n \<and> total_subpiece_count n < 2 ^ 16 \<and>
      (need_write n \<longleftrightarrow> length (subpieces n) = total_subpiece_count n))"

lemma subpieces_le: "bn_shape n \<Longrightarrow> length (subpieces n) \<le> total_subpiece_count n"
proof -
  assume "bn_shape n"
  then have d: "distinct (keys n)" and sub: "set (keys n) \<subseteq> {..<total_subpiece_count n}"
    by (auto simp: bn_shape_def list_all_iff)
  have "length (subpieces n) = card (set (keys n))" using distinct_card [OF d] by simp
  with card_mono [OF _ sub] show ?thesis by simp
qed

interpretation req: request_loop "request_step f t" requestable GetCurrNullSubPieceCount for f t
proof
  fix n :: "'a block_node" assume n: "requestable n"
  then have ok: "bn_mem_ok n" "total_subpiece_count n < 2 ^ 16" "0 < total_subpiece_count n"
    by (auto simp: requestable_def bn_mem_ok_def bn_shape_def)
  have search: "GetNextNullSubPiece 0 n = Some (Inr (first_missing 0 n))"
    using next_null_eq [OF ok, of 0] by (simp add: GetNextNullSubPiece_def)
  note sh = bn_mem_parts(1) [OF ok(1)]
  show "GetCurrNullSubPieceCount n = 0 \<Longrightarrow> request_step f t n = None"
  proof -
    assume "GetCurrNullSubPieceCount n = 0"
    then have "length (subpieces n) = total_subpiece_count n"
      using subpieces_le [OF sh] by (simp add: GetCurrNullSubPieceCount_def)
    then have "first_missing 0 n = None"
      using IsFull_mem [OF sh] by (auto simp: first_missing_def find_None_iff)
    with search show ?thesis by (simp add: request_step_def)
  qed
  show "GetCurrNullSubPieceCount n \<noteq> 0 \<Longrightarrow> \<exists>n'. request_step f t n = Some n' \<and> requestable n'
      \<and> GetCurrNullSubPieceCount n' = GetCurrNullSubPieceCount n - 1"
  proof -
    assume "GetCurrNullSubPieceCount n \<noteq> 0"
    then have less: "length (subpieces n) \<noteq> total_subpiece_count n" by (auto simp: GetCurrNullSubPieceCount_def)
    then obtain i where i: "first_missing 0 n = Some i"
      using IsFull_mem [OF sh] by (cases "first_missing 0 n") (auto simp: first_missing_def find_None_iff)
    then have m: "i < total_subpiece_count n" "\<not> has_key (subpieces n) i"
      by (auto simp: first_missing_def find_Some_iff)
    have "requestable (added t i (f i) n)"
      using n less added_ok [OF ok(1) m, of t "f i"]
      by (auto simp: requestable_def added_def Let_def split: if_splits)
    moreover have "request_step f t n = Some (added t i (f i) n)"
      using search i AddSubpiece_eq [OF ok(1) m, of t "f i"] by (simp add: request_step_def)
    ultimately show ?thesis
      using less subpieces_le [OF sh] added_ok(2,3) [OF ok(1) m, of t "f i"] by (auto simp: GetCurrNullSubPieceCount_def)
  qed
qed

lemma request_step_total:
  "request_step f t n = Some n' \<Longrightarrow> total_subpiece_count n' = total_subpiece_count n"
  by (auto simp: request_step_def AddSubpiece_def Let_def split: option.splits sum.splits if_splits bool.splits)

lemma GetNextNullSubPiece_eq:
  assumes "bn_mem_ok n" "total_subpiece_count n < 2 ^ 16" "start < total_subpiece_count n"
  shows "GetNextNullSubPiece start n = Some (Inr (first_missing start n))"
proof -
  have "start div 128 < length (piece_count n)"
    by (rule piece_of_subpiece [OF bn_mem_parts(1) [OF assms(1)] assms(3)])
  with next_null_eq [OF assms, of "start div 128"] show ?thesis by (simp add: GetNextNullSubPiece_def)
qed

section \<open>Examples\<close>

definition sample_node :: "BlockNodeState \<Rightarrow> nat \<Rightarrow> nat list \<Rightarrow> (nat \<times> nat) list \<Rightarrow> nat block_node" where
  "sample_node st cnt pc m = \<lparr>subpieces = m, piece_count = pc, node_state = st, total_subpiece_count = cnt,
     last_piece_capacity = (cnt - 1) mod 128 + 1, index = 5, need_write = False, access_counter = 0\<rparr>"

lemmas sample_defs = sample_node_def bn_mem_ok_def bn_disk_ok_def bn_shape_def pieces_of_def capacity_def
  count_in_piece_def IsBlockSavedOnDisk_def

lemma sample_mem: "bn_mem_ok (sample_node DOWNLOADING 3 [2] [(2, 20), (0, 10)])"
  by (simp add: sample_defs)

lemma sample_full: "bn_mem_ok (sample_node MEM 3 [3] [(1, 11), (2, 20), (0, 10)])"
  by (simp add: sample_defs)

lemma sample_two_pieces: "bn_mem_ok (sample_node DOWNLOADING 129 [1, 0] [(0, 10)])"
  by (simp add: sample_defs upt_rec)

lemma sample_disk: "bn_disk_ok (sample_node DISK 129 [128, 1] [])"
  by (simp add: sample_defs upt_rec)

section \<open>Properties of blocks in memory\<close>

text \<open>The piece counters count: for a block in memory, a piece is reported as present exactly
  when every subpiece of it is in the map.\<close>

theorem HasPiece_iff_all_subpieces:
  assumes "bn_mem_ok n" "p < length (piece_count n)"
  shows "HasPiece p n = Inr (\<forall>i<total_subpiece_count n. i div 128 = p \<longrightarrow> has_key (subpieces n) i)"
  using IsPieceFull_mem [OF assms] assms(2) by (simp add: HasPiece_def)

theorem HasPiece_iff_all_subpieces_witness:
  "HasPiece 0 (sample_node MEM 3 [3] [(1, 11), (2, 20), (0, 10)]) = Inr True"
proof -
  have "has_key [(1, 11), (2, 20), (0, 10 :: nat)] i" if "i < 3" for i :: nat
    using that by (auto simp: has_key_iff less_Suc_eq numeral_3_eq_3)
  with HasPiece_iff_all_subpieces [OF sample_full, of 0] show ?thesis by (simp add: sample_node_def)
qed

text \<open>The search for the next missing subpiece agrees with the reference: for a block of fewer
  than \<^verbatim>\<open>2^16\<close> subpieces in memory it returns, and yields the least missing subpiece from the start
  on, or none if there is none.\<close>

theorem GetNextNullSubPiece_least:
  assumes "bn_mem_ok n" "total_subpiece_count n < 2 ^ 16" "start < total_subpiece_count n"
  shows "GetNextNullSubPiece start n = Some (Inr (first_missing start n))"
  by (rule GetNextNullSubPiece_eq [OF assms])

theorem GetNextNullSubPiece_least_witness:
  "GetNextNullSubPiece 0 (sample_node DOWNLOADING 3 [2] [(2, 20), (0, 10)]) = Some (Inr (Some 1))"
  using GetNextNullSubPiece_least [OF sample_mem, of 0]
  by (simp add: sample_node_def first_missing_def upt_rec has_key_def)

text \<open>Requesting fills the block: when the next missing subpiece is requested and added as often
  as subpieces are missing, the block is full and asks to be written.\<close>

theorem requests_fill_block:
  assumes "requestable n"
  shows "\<exists>m. iterate_step (request_step f t) (GetCurrNullSubPieceCount n) n = m \<and> IsFull m \<and> need_write m
    \<and> total_subpiece_count m = total_subpiece_count n"
proof -
  let ?m = "iterate_step (request_step f t) (GetCurrNullSubPieceCount n) n"
  have m: "requestable ?m" "GetCurrNullSubPieceCount ?m = 0"
    using req.iterate_done [OF assms, of f t] by simp_all
  then have "length (subpieces ?m) = total_subpiece_count ?m"
    using subpieces_le [of ?m] by (simp add: requestable_def bn_mem_ok_def GetCurrNullSubPieceCount_def)
  moreover have "total_subpiece_count ?m = total_subpiece_count n" by (rule iterate_keeps) (rule request_step_total)
  ultimately show ?thesis using m(1) by (simp add: IsFull_def requestable_def)
qed

theorem requests_fill_block_witness:
  "\<exists>m. iterate_step (request_step (\<lambda>i. i) 0) 1 (sample_node DOWNLOADING 3 [2] [(2, 20), (0, 10)]) = m
     \<and> IsFull m \<and> need_write m"
proof -
  have "requestable (sample_node DOWNLOADING 3 [2] [(2, 20), (0, 10)])"
    using sample_mem by (simp add: requestable_def sample_node_def)
  from requests_fill_block [OF this, of "\<lambda>i. i" 0] show ?thesis
    by (auto simp: GetCurrNullSubPieceCount_def sample_node_def)
qed

text \<open>A block is saved completely: when the distinct subpieces of a block are added in any
  order, the block asks to be written exactly after the last one, the buffer to save then
  holds every subpiece in order, and after the write the block has every subpiece on disk.\<close>

theorem block_filled_and_saved:
  assumes "0 < cnt" "cnt \<le> 2 ^ 22" "distinct (map fst xs)" "set (map fst xs) = {..<cnt}"
  shows "\<exists>n m. and_then (Create b cnt False t) (add_all t xs) = Inr n \<and> need_write n \<and> node_state n = MEM
    \<and> GetBufferForSave n = Inr (map (\<lambda>i. ((b, i), the (map_of (rev xs) i))) [0..<cnt], m)
    \<and> node_state (OnWriteFinish m) = DISK \<and> (\<forall>i. HasSubPiece i (OnWriteFinish m))"
proof -
  obtain n0 :: "'a block_node" where n0: "Create b cnt False t = Inr n0" "bn_mem_ok n0" "subpieces n0 = []"
    "total_subpiece_count n0 = cnt" "index n0 = b" "\<not> need_write n0"
    using Create_ok [OF assms(1,2)] by metis
  have "\<exists>n. add_all t xs n0 = Inr n \<and> bn_mem_ok n \<and> subpieces n = rev xs @ subpieces n0
    \<and> total_subpiece_count n = total_subpiece_count n0 \<and> index n = index n0
    \<and> (need_write n \<longleftrightarrow> length (subpieces n) = total_subpiece_count n) \<and> (need_write n \<longrightarrow> node_state n = MEM)"
    by (rule add_all_ok [OF n0(2)]) (use n0 assms in \<open>auto simp: list_all_iff\<close>)
  then obtain n where n: "add_all t xs n0 = Inr n" "bn_mem_ok n" "subpieces n = rev xs"
    "total_subpiece_count n = cnt" "index n = b" "need_write n \<longleftrightarrow> length xs = cnt" "need_write n \<longrightarrow> node_state n = MEM"
    using n0 by auto
  have "length xs = card (set (map fst xs))" using distinct_card [OF assms(3)] by simp
  then have len: "length xs = cnt" using assms(4) by simp
  with n(6,7) have w: "need_write n" "node_state n = MEM" by simp_all
  from GetBufferForSave_full [OF n(2) w] n len
  have "GetBufferForSave n = Inr (map (\<lambda>i. ((b, i), the (map_of (rev xs) i))) [0..<cnt],
      n\<lparr>need_write := False, node_state := SAVING\<rparr>)" by simp
  with n0(1) n(1) w show ?thesis
    by (simp add: OnWriteFinish_def HasSubPiece_def IsBlockSavedOnDisk_def)
qed

theorem block_filled_and_saved_witness:
  "\<exists>n m. and_then (Create 7 2 False 0) (add_all 0 [(1, CHR ''b''), (0, CHR ''a'')]) = Inr n \<and> need_write n
     \<and> GetBufferForSave n = Inr ([((7, 0), CHR ''a''), ((7, 1), CHR ''b'')], m)"
proof -
  have "set (map fst [(1 :: nat, CHR ''b''), (0, CHR ''a'')]) = {..<2}" by auto
  from block_filled_and_saved [OF _ _ _ this, of 7 0] show ?thesis by (auto simp: upt_rec)
qed

text \<open>\<^verbatim>\<open>ClearBlockMemCache\<close> clears only half of a block: the bound of its loop is the shrinking size
  of the map, so of a block completely in memory the upper half of the subpieces stays.\<close>

theorem ClearBlockMemCache_keeps_half:
  assumes "bn_mem_ok n" "length (subpieces n) = total_subpiece_count n" "total_subpiece_count n \<le> play"
  shows "\<exists>m. ClearBlockMemCache t play n = Inr m \<and> length (subpieces m) = total_subpiece_count n div 2
    \<and> set (keys m) = {(total_subpiece_count n + 1) div 2..<total_subpiece_count n}"
proof -
  let ?c = "total_subpiece_count n" and ?n = "n\<lparr>access_counter := t\<rparr>"
  note ok = bn_mem_parts [OF assms(1)]
  have k: "set (keys ?n) = {0..<?c}" "distinct (keys ?n)"
    using IsFull_mem [OF ok(1)] assms(2) ok(1) by (auto simp: has_key_iff bn_shape_def list_all_iff)
  have "\<exists>m. clear_from play 0 ?n = Inr m \<and> set (keys m) = {(?c + 1) div 2..<?c} \<and> distinct (keys m)
    \<and> node_state m = node_state ?n \<and> total_subpiece_count m = total_subpiece_count ?n"
    by (rule clear_from_half [OF k assms(3)]) (use piece_of_subpiece [OF ok(1)] in simp_all)
  then obtain m where m: "clear_from play 0 ?n = Inr m" "set (keys m) = {(?c + 1) div 2..<?c}"
    "distinct (keys m)" "node_state m = node_state n" by auto
  have "length (subpieces m) = ?c div 2" using distinct_card [OF m(3)] m(2) by simp
  moreover have "node_state m \<noteq> ALL_STATE" using ok(2) m(4) by (simp add: IsBlockSavedOnDisk_def)
  ultimately show ?thesis using m by (simp add: ClearBlockMemCache_def)
qed

theorem ClearBlockMemCache_keeps_half_witness:
  "\<exists>m. ClearBlockMemCache 0 2048 (sample_node MEM 3 [3] [(1, 11), (2, 20), (0, 10)]) = Inr m
     \<and> length (subpieces m) = 1"
  using ClearBlockMemCache_keeps_half [OF sample_full, of 2048 0] by (auto simp: sample_node_def)

text \<open>A block that failed while being read does not recover: \<^verbatim>\<open>ResetForReDownload\<close> zeroes the
  counters but keeps the subpieces already loaded, so the search yields a subpiece that is in
  the map, and adding it is refused, again and again.\<close>

theorem ResetForReDownload_livelock:
  assumes "bn_shape n" "node_state n = READING" "has_key (subpieces n) j"
  shows "\<exists>m m'. ResetForReDownload n = Inr m \<and> GetNextNullSubPiece j m = Some (Inr (Some j))
    \<and> AddSubpiece t j buf m = Inr (False, m') \<and> GetNextNullSubPiece j m' = Some (Inr (Some j))"
proof -
  let ?m = "n\<lparr>node_state := EMPTY, piece_count := map (\<lambda>_. 0) (piece_count n)\<rparr>"
  have j: "j < total_subpiece_count n" using assms(1,3) by (auto simp: bn_shape_def list_all_iff has_key_iff)
  have p: "j div 128 < length (piece_count n)" by (rule piece_of_subpiece [OF assms(1) j])
  have next_j: "GetNextNullSubPiece j u = Some (Inr (Some j))" if "piece_count u = map (\<lambda>_. 0) (piece_count n)" for u :: "'a block_node"
    using p that by (simp add: GetNextNullSubPiece_def upt_conv_Cons Let_def)
  have "ResetForReDownload n = Inr ?m" using assms(2) by (simp add: ResetForReDownload_def)
  moreover have "AddSubpiece t j buf ?m = Inr (False, ?m\<lparr>node_state := DOWNLOADING\<rparr>)"
    using j assms(3) by (auto simp: AddSubpiece_def Let_def)
  ultimately show ?thesis using next_j [of ?m] next_j [of "?m\<lparr>node_state := DOWNLOADING\<rparr>"] by auto
qed

theorem ResetForReDownload_livelock_witness:
  "\<exists>m m'. ResetForReDownload (sample_node READING 3 [3] [(0, 10)]) = Inr m
     \<and> GetNextNullSubPiece 0 m = Some (Inr (Some 0)) \<and> AddSubpiece 0 0 77 m = Inr (False, m')"
proof -
  let ?n = "sample_node READING 3 [3] [(0, 10)]"
  have "bn_shape ?n" "node_state ?n = READING" "has_key (subpieces ?n) 0"
    by (simp_all add: sample_defs has_key_def)
  from ResetForReDownload_livelock [OF this, of 0 77] show ?thesis by blast
qed

section \<open>Properties of the description of a block\<close>

lemma disk_counts:
  assumes "bn_disk_ok n"
  shows "list_all (\<lambda>c. 0 < c \<and> c \<le> 128) (piece_count n)" "bn_pieces_ok n"
proof -
  have "(total_subpiece_count n - 1) mod 128 < 128" by simp
  then have c: "0 < capacity (total_subpiece_count n) p \<and> capacity (total_subpiece_count n) p \<le> 128" for p
    by (auto simp: capacity_def)
  show "list_all (\<lambda>c. 0 < c \<and> c \<le> 128) (piece_count n)"
    using assms c by (auto simp: bn_disk_ok_def list_all_length)
  then show "bn_pieces_ok n"
    using assms by (simp add: bn_pieces_ok_def bn_disk_ok_def list_all_length)
qed

lemma mem_counts:
  assumes "bn_mem_ok n"
  shows "bn_pieces_ok n"
proof -
  note ok = bn_mem_parts [OF assms]
  have "count_in_piece p n \<le> 128" if p: "p < length (piece_count n)" for p
  proof -
    have sub: "{i \<in> set (keys n). i div 128 = p} \<subseteq> {p * 128..<p * 128 + 128}"
      using div_times_less_eq_dividend [of _ 128] dividend_less_div_times [of 128] by fastforce
    show ?thesis
      using count_le_capacity(1) [OF ok(1) p] card_mono [OF _ sub] by simp
  qed
  with ok show ?thesis by (simp add: bn_pieces_ok_def list_all_length)
qed

text \<open>C29: The description of a block on disk is read back: \<^verbatim>\<open>ToBuffer\<close> does not overrun its temporary
  buffer, and \<^verbatim>\<open>Parse\<close> of what it wrote returns a block on disk with the same counters.\<close>

theorem Parse_ToBuffer_saved:
  assumes "bn_disk_ok n"
  shows "\<exists>bs m. ToBuffer n = Inr bs \<and> Parse t (index n) bs = Some (Inr (Some (Some m)))
    \<and> piece_count m = piece_count n \<and> total_subpiece_count m = total_subpiece_count n
    \<and> last_piece_capacity m = last_piece_capacity n \<and> index m = index n \<and> node_state m = DISK \<and> bn_disk_ok m"
proof -
  note ok = disk_counts [OF assms]
  let ?e = "concat (map (piece_entry n) [0..<length (piece_count n)])"
  have len: "length (piece_count n) \<le> 2 ^ 15" using ok(2) pieces_le by (auto simp: bn_pieces_ok_def)
  have "length ?e < 2 ^ 32" using entries_length [OF ok(2)] len by simp
  then have "parse_pieces ?e 0 (replicate (length (piece_count n)) 0) = Some (Inr (Left (length ?e) (piece_count n)))"
    using parse_pieces_saved [of n "replicate (length (piece_count n)) 0" 0 "[]"] ok(1) len assms
    by (simp add: bn_disk_ok_def)
  from Parse_written [OF ok(2) this, of t] ToBuffer_eq [OF ok(2)] assms show ?thesis
    by (auto simp: bn_disk_ok_def bn_shape_def IsBlockSavedOnDisk_def)
qed

lemma Parse_ToBuffer_mem:
  assumes "bn_mem_ok n"
  shows "ToBuffer n = Inr (put32 (total_subpiece_count n) @ concat (map (piece_entry n) [0..<length (piece_count n)]))"
    "parse_pieces (concat (map (piece_entry n) [0..<length (piece_count n)])) 0
      (replicate (length (piece_count n)) 0) =
      Some (Inr (Left (length (piece_entry n 0)) (replicate (length (piece_count n)) 0)))"
    "bn_pieces_ok n"
proof -
  show ok: "bn_pieces_ok n" by (rule mem_counts [OF assms])
  show "ToBuffer n = Inr (put32 (total_subpiece_count n) @ concat (map (piece_entry n) [0..<length (piece_count n)]))"
    by (rule ToBuffer_eq [OF ok])
  have len: "length (piece_count n) \<le> 2 ^ 15" "0 < length (piece_count n)"
    using ok pieces_le by (auto simp: bn_pieces_ok_def bn_shape_def pieces_of_def)
  then have "length (concat (map (piece_entry n) [0..<length (piece_count n)])) < 2 ^ 32"
    using entries_length [OF ok] by simp
  then show "parse_pieces (concat (map (piece_entry n) [0..<length (piece_count n)])) 0
      (replicate (length (piece_count n)) 0) =
      Some (Inr (Left (length (piece_entry n 0)) (replicate (length (piece_count n)) 0)))"
    using parse_pieces_unsaved [of n "replicate (length (piece_count n)) 0"] ok len assms
    by (simp add: bn_pieces_ok_def bn_mem_ok_def)
qed

theorem Parse_ToBuffer_saved_witness:
  "\<exists>bs m. ToBuffer (sample_node DISK 129 [128, 1] []) = Inr bs
     \<and> Parse 0 5 bs = Some (Inr (Some (Some m))) \<and> piece_count (m :: nat block_node) = [128, 1]"
  using Parse_ToBuffer_saved [OF sample_disk, of 0] by (auto simp: sample_node_def)

text \<open>A block that is still in memory and has more than one piece is discarded when its
  description is read back, as the comment in \<^verbatim>\<open>Parse\<close> says.\<close>

theorem Parse_ToBuffer_unsaved_discarded:
  assumes "bn_mem_ok n" "128 < total_subpiece_count n"
  shows "\<exists>bs. ToBuffer n = Inr bs \<and> (Parse t (index n) bs :: 'b block_node option option result option) = Some (Inr (Some None))"
proof -
  note w = Parse_ToBuffer_mem [OF assms(1)]
  have "length (piece_count n) \<ge> 2"
    using assms bn_mem_parts(1) [OF assms(1)] by (simp add: bn_shape_def pieces_of_def)
  then have "0 < length (piece_count n)" "Suc 0 < length (piece_count n)" by linarith+
  then have "length (piece_entry n 0) < length (concat (map (piece_entry n) [0..<length (piece_count n)]))"
    by (simp add: upt_conv_Cons [of 0] upt_conv_Cons [of "Suc 0"] piece_entry_def)
  with Parse_written [OF w(3,2)] w(1) show ?thesis by auto
qed

theorem Parse_ToBuffer_unsaved_discarded_witness:
  "\<exists>bs. ToBuffer (sample_node DOWNLOADING 129 [1, 0] [(0, 10)]) = Inr bs
     \<and> (Parse 0 5 bs :: nat block_node option option result option) = Some (Inr (Some None))"
  using Parse_ToBuffer_unsaved_discarded [OF sample_two_pieces, of 0] by (simp add: sample_node_def)

text \<open>A block that is still in memory and has a single piece (a short last block) is read back
  as a block on disk: the loop of \<^verbatim>\<open>Parse\<close> breaks at the end of the buffer, which is taken for success,
  and every subpiece is reported as present although nothing was saved.\<close>

theorem Parse_ToBuffer_unsaved_taken_as_saved:
  assumes "bn_mem_ok n" "total_subpiece_count n \<le> 128"
  shows "\<exists>bs m. ToBuffer n = Inr bs \<and> Parse t (index n) bs = Some (Inr (Some (Some m)))
    \<and> IsBlockSavedOnDisk m \<and> (\<forall>i. HasSubPiece i m)"
proof -
  note w = Parse_ToBuffer_mem [OF assms(1)]
  have "length (piece_count n) = 1"
    using assms bn_mem_parts(1) [OF assms(1)] by (simp add: bn_shape_def pieces_of_alt)
  with Parse_written [OF w(3,2), of t] w(1) show ?thesis
    by (auto simp: IsBlockSavedOnDisk_def HasSubPiece_def)
qed

theorem Parse_ToBuffer_unsaved_taken_as_saved_witness:
  "\<exists>bs m. ToBuffer (sample_node DOWNLOADING 3 [2] [(2, 20), (0, 10)]) = Inr bs
     \<and> Parse 0 5 bs = Some (Inr (Some (Some m))) \<and> HasSubPiece 1 (m :: nat block_node)"
  using Parse_ToBuffer_unsaved_taken_as_saved [OF sample_mem, of 0] by (auto simp: sample_node_def)

text \<open>The range check of \<^verbatim>\<open>Parse\<close> on the piece index is off by one: a description of a block with
  one piece that names the piece with index 1 leads to an access outside \<^verbatim>\<open>piece_count_\<close>.\<close>

theorem Parse_index_off_by_one:
  "(Parse 0 0 (put32 1 @ put16 1 @ put32 8 @ put32 1 @ put32 0) :: 'b block_node option option result option)
     = Some (Inl OutOfRange)"
proof -
  let ?n = "\<lparr>subpieces = [], piece_count = [1, 1], node_state = DISK, total_subpiece_count = 129,
     last_piece_capacity = 1, index = 0, need_write = False, access_counter = 0\<rparr> :: 'b block_node"
  let ?e = "put16 1 @ put32 8 @ put32 1 @ put32 0"
  have e: "piece_entry ?n 1 = ?e"
    by (simp add: piece_entry_def piece_buffer_def IsBlockSavedOnDisk_def Let_def)
  have saved: "IsBlockSavedOnDisk ?n" by (simp add: IsBlockSavedOnDisk_def)
  have "all_present [0] 1" by (simp add: all_present_def)
  then have "parse_piece ?e 0 [0] = Some (Inl OutOfRange)"
    using parse_piece_header [of 1 "[0]" ?n "[]" "[]"] piece_buffer_saved [OF saved, of 1]
    unfolding e by (simp add: saved)
  then have pp: "parse_pieces ?e 0 [0] = Some (Inl OutOfRange)"
    by (subst parse_pieces.simps) simp
  have "get32 (put32 1 @ ?e) 0 = 1" using get_put(1) [of 1 "[]" ?e] by simp
  then have check: "CheckBuf (put32 1 @ ?e) = Inr (Some (1, 14))" by (simp add: CheckBuf_def Let_def)
  show ?thesis
    unfolding Parse_def check by (simp add: Create_def Let_def pp [simplified])
qed

end
