(* ===== verification/SubPieceManager.thy ===== *)
theory SubPieceManager
  imports BlockNode
begin

text \<open>
  \<^verbatim>\<open>storage::SubPieceManager\<close> (\<^verbatim>\<open>storage/SubPieceManager.h/.cpp\<close>): the blocks of one resource, those that are
  complete (a bit map) and those that have a \<^verbatim>\<open>BlockNode\<close>; and the arithmetic between positions, blocks, pieces and
  subpieces.

  \<^item> \<^verbatim>\<open>protocol::BlockMap\<close>, the buffers, the hashes and the order of \<^verbatim>\<open>protocol::SubPieceInfo\<close> are library code: the
    operations used are the fields of \<open>resource_lib\<close>, and \<open>block_map_ok\<close> says what is relied on.  A
    \<^verbatim>\<open>protocol::RidInfo\<close> is what its getters return.
  \<^item> A \<^verbatim>\<open>SubPieceInfo\<close> is the pair of block and subpiece index.  Numbers are \<open>nat\<close>; where a 32-bit computation can wrap,
    the reduction is written out.
  \<^item> The two builds, with and without \<^verbatim>\<open>DISK_MODE\<close>, are both modelled.  What is posted to the storage thread is a result
    of the operation.

  The lemmas show the bit map and the nodes agree and that every operation keeps this, that requesting what is missing
  completes the file, that with a disk nothing is lost, and what the description of a resource is read back as.
\<close>

section \<open>Parameters and state\<close>

text \<open>\<open>bm_bits\<close> is only used to state what is relied on: the contents of a bit map.\<close>

record ('m, 'b, 'c, 'h) resource_lib =
  bm_Create :: "nat \<Rightarrow> 'm"
  bm_SetAll :: "bool \<Rightarrow> 'm \<Rightarrow> 'm"
  bm_HasBlock :: "'m \<Rightarrow> nat \<Rightarrow> bool"
  bm_Set :: "nat \<Rightarrow> 'm \<Rightarrow> 'm"
  bm_Reset :: "nat \<Rightarrow> 'm \<Rightarrow> 'm"
  bm_IsFull :: "'m \<Rightarrow> bool"
  bm_GetCount :: "'m \<Rightarrow> nat"
  bm_bits :: "'m \<Rightarrow> bool list"
  info_le :: "nat \<times> nat \<Rightarrow> nat \<times> nat \<Rightarrow> bool"
  buffer_IsValid :: "'b \<Rightarrow> bool"
  buffer_Length :: "'b \<Rightarrow> nat"
  buffer_of :: "'c \<Rightarrow> nat \<Rightarrow> 'b"
  md5_of_buffers :: "'b list \<Rightarrow> 'h"
  rid_of_md5s :: "'h list \<Rightarrow> 'h"
  md5_is_empty :: "'h \<Rightarrow> bool"
  md5_empty :: 'h

definition block_map_ok :: "('m, 'b, 'c, 'h) resource_lib \<Rightarrow> bool" where
  "block_map_ok lib =
     ((\<forall>n b. bm_bits lib (bm_SetAll lib b (bm_Create lib n)) = replicate n b) \<and>
      (\<forall>m b. bm_bits lib (bm_SetAll lib b m) = map (\<lambda>_. b) (bm_bits lib m)) \<and>
      (\<forall>m i. i < length (bm_bits lib m) \<longrightarrow> bm_HasBlock lib m i = bm_bits lib m ! i) \<and>
      (\<forall>m i. bm_bits lib (bm_Set lib i m) = (bm_bits lib m)[i := True]) \<and>
      (\<forall>m i. bm_bits lib (bm_Reset lib i m) = (bm_bits lib m)[i := False]) \<and>
      (\<forall>m. bm_IsFull lib m = list_all (\<lambda>b. b) (bm_bits lib m)) \<and>
      (\<forall>m. bm_GetCount lib m = length (filter (\<lambda>b. b) (bm_bits lib m))) \<and>
      (\<forall>a b. info_le lib a b = (fst a < fst b \<or> fst a = fst b \<and> snd a \<le> snd b)))"

record 'h rid_info =
  file_length :: nat
  block_size :: nat
  block_count :: nat
  block_md5_s :: "'h list"
  rid :: 'h

definition HasRID :: "('m, 'b, 'c, 'h) resource_lib \<Rightarrow> 'h rid_info \<Rightarrow> bool" where
  "HasRID lib r = (\<not> md5_is_empty lib (rid r))"

record ('m, 'b, 'h) resource_blocks =
  the_rid :: "'h rid_info"
  file_subpieces :: nat
  last_block_capacity :: nat
  last_subpiece_info :: "nat \<times> nat"
  last_subpiece_size :: nat
  blocks :: "'b block_node option list"
  block_bit_map :: 'm
  blocks_count :: nat
  download_bytes :: nat
  md5_hash_failed :: nat
  need_verify_block :: bool

definition bytes_num_per_subpiece_g :: nat where
  "bytes_num_per_subpiece_g = 1024"

definition bytes_num_per_piece_g :: nat where
  "bytes_num_per_piece_g = bytes_num_per_subpiece_g * subpiece_num_per_piece_g"

section \<open>Construction\<close>

text \<open>\<open>verify\<close> is the outcome of the random draw against the configured percentage.\<close>

definition spm_new ::
    "('m, 'b, 'c, 'h) resource_lib \<Rightarrow> bool \<Rightarrow> 'h rid_info \<Rightarrow> bool \<Rightarrow> ('m, 'b, 'h) resource_blocks result" where
  "spm_new lib verify r b_full_file =
     (if block_size r = 0 then Inl DivideByZero
      else
        let last_index = dec32 (file_length r) mod block_size r div bytes_num_per_subpiece_g
        in Inr \<lparr>the_rid = r\<lparr>block_md5_s :=
                  block_md5_s r @ replicate (block_count r - length (block_md5_s r)) (md5_empty lib)\<rparr>,
                file_subpieces = (file_length r + 1024 - 1) mod 2 ^ 32 div 1024,
                last_block_capacity = last_index + 1,
                last_subpiece_info = (dec32 (block_count r), last_index),
                last_subpiece_size = dec32 (file_length r) mod 1024 + 1,
                blocks = replicate (block_count r) None,
                block_bit_map = bm_SetAll lib b_full_file (bm_Create lib (block_count r)),
                blocks_count = (if b_full_file then block_count r else 0),
                download_bytes = (if b_full_file then file_length r else 0),
                md5_hash_failed = 0, need_verify_block = verify\<rparr>)"

section \<open>Queries\<close>

definition get_block :: "nat \<Rightarrow> ('m, 'b, 'h) resource_blocks \<Rightarrow> 'b block_node option result" where
  "get_block b m = (if b < length (blocks m) then Inr (blocks m ! b) else Inl OutOfRange)"

definition put_block :: "nat \<Rightarrow> 'b block_node option \<Rightarrow> ('m, 'b, 'h) resource_blocks \<Rightarrow> ('m, 'b, 'h) resource_blocks" where
  "put_block b node m = m\<lparr>blocks := (blocks m)[b := node]\<rparr>"

definition HasFullBlock :: "('m, 'b, 'c, 'h) resource_lib \<Rightarrow> nat \<Rightarrow> ('m, 'b, 'h) resource_blocks \<Rightarrow> bool" where
  "HasFullBlock lib b m = bm_HasBlock lib (block_bit_map m) b"

definition IsSubPieceValid ::
    "('m, 'b, 'c, 'h) resource_lib \<Rightarrow> nat \<times> nat \<Rightarrow> 'b \<Rightarrow> ('m, 'b, 'h) resource_blocks \<Rightarrow> bool" where
  "IsSubPieceValid lib info buf m =
     (if \<not> info_le lib info (last_subpiece_info m) then False
      else if info = last_subpiece_info m then buffer_Length lib buf = last_subpiece_size m
      else buffer_Length lib buf = 1024)"

definition spm_HasSubPiece ::
    "('m, 'b, 'c, 'h) resource_lib \<Rightarrow> nat \<times> nat \<Rightarrow> ('m, 'b, 'h) resource_blocks \<Rightarrow> bool result" where
  "spm_HasSubPiece lib info m =
     (if HasFullBlock lib (fst info) m then Inr True
      else and_then (get_block (fst info) m) (\<lambda>slot.
        Inr (case slot of None \<Rightarrow> False | Some n \<Rightarrow> HasSubPiece (snd info) n)))"

definition spm_HasSubPieceInMem :: "nat \<times> nat \<Rightarrow> ('m, 'b, 'h) resource_blocks \<Rightarrow> bool result" where
  "spm_HasSubPieceInMem info m =
     and_then (get_block (fst info) m) (\<lambda>slot.
       case slot of None \<Rightarrow> Inr False | Some n \<Rightarrow> HasSubPieceInMem (snd info) n)"

definition spm_HasPiece ::
    "('m, 'b, 'c, 'h) resource_lib \<Rightarrow> nat \<times> nat \<Rightarrow> ('m, 'b, 'h) resource_blocks \<Rightarrow> bool result" where
  "spm_HasPiece lib piece m =
     (if HasFullBlock lib (fst piece) m then Inr True
      else and_then (get_block (fst piece) m) (\<lambda>slot.
        case slot of None \<Rightarrow> Inr False | Some n \<Rightarrow> HasPiece (snd piece) n))"

definition IsBlockDataInMemCache :: "nat \<Rightarrow> ('m, 'b, 'h) resource_blocks \<Rightarrow> bool result" where
  "IsBlockDataInMemCache b m =
     and_then (get_block b m) (\<lambda>slot. Inr (case slot of None \<Rightarrow> False | Some n \<Rightarrow> \<not> IsEmpty n))"

definition spm_IsBlockSavedOnDisk ::
    "('m, 'b, 'c, 'h) resource_lib \<Rightarrow> nat \<Rightarrow> ('m, 'b, 'h) resource_blocks \<Rightarrow> bool result" where
  "spm_IsBlockSavedOnDisk lib b m =
     and_then (get_block b m) (\<lambda>slot.
       Inr (case slot of None \<Rightarrow> HasFullBlock lib b m | Some n \<Rightarrow> IsBlockSavedOnDisk n))"

definition DownloadingBlock :: "u32 \<Rightarrow> u32 \<Rightarrow> nat \<Rightarrow> ('m, 'b, 'h) resource_blocks \<Rightarrow> bool" where
  "DownloadingBlock timeout now b m =
     (b < length (blocks m) \<and>
      (case blocks m ! b of
         None \<Rightarrow> False
       | Some n \<Rightarrow> NeedWrite n \<and> \<not> IsFull n \<and> \<not> IsAccessTimeout timeout now n))"

definition spm_IsFull :: "('m, 'b, 'c, 'h) resource_lib \<Rightarrow> ('m, 'b, 'h) resource_blocks \<Rightarrow> bool" where
  "spm_IsFull lib m = bm_IsFull lib (block_bit_map m)"

definition spm_IsEmpty :: "('m, 'b, 'h) resource_blocks \<Rightarrow> bool" where
  "spm_IsEmpty m = (blocks_count m = 0)"

definition GetDownloadedBlockCount :: "('m, 'b, 'c, 'h) resource_lib \<Rightarrow> ('m, 'b, 'h) resource_blocks \<Rightarrow> nat" where
  "GetDownloadedBlockCount lib m = bm_GetCount lib (block_bit_map m)"

definition IsFullFile :: "('m, 'b, 'c, 'h) resource_lib \<Rightarrow> ('m, 'b, 'h) resource_blocks \<Rightarrow> bool" where
  "IsFullFile lib m =
     (bm_IsFull lib (block_bit_map m) \<and>
      list_all (\<lambda>slot. case slot of None \<Rightarrow> True | Some n \<Rightarrow> \<not> (NeedWrite n \<or> IsSaving n)) (blocks m))"

definition spm_GetTotalSubpieceCountInBlock :: "nat \<Rightarrow> ('m, 'b, 'h) resource_blocks \<Rightarrow> nat result" where
  "spm_GetTotalSubpieceCountInBlock b m =
     and_then (get_block b m) (\<lambda>slot.
       Inr (case slot of None \<Rightarrow> 0 | Some n \<Rightarrow> GetTotalSubpieceCountInBlock n))"

section \<open>Positions\<close>

text \<open>\<open>None\<close>: the function returns false.\<close>

definition PosToSubPieceInfo :: "nat \<Rightarrow> ('m, 'b, 'h) resource_blocks \<Rightarrow> (nat \<times> nat) option result" where
  "PosToSubPieceInfo position m =
     (let r = the_rid m
      in if position \<ge> file_length r then Inr None
         else if block_size r = 0 then Inl DivideByZero
         else Inr (Some (position div block_size r, position mod block_size r div bytes_num_per_subpiece_g)))"

definition PosToPieceInfo :: "nat \<Rightarrow> ('m, 'b, 'h) resource_blocks \<Rightarrow> (nat \<times> nat) option result" where
  "PosToPieceInfo position m =
     (let r = the_rid m
      in if position \<ge> file_length r then Inr None
         else if block_size r = 0 then Inl DivideByZero
         else Inr (Some (position div block_size r, position mod block_size r div bytes_num_per_piece_g)))"

definition PosToPieceInfoEx :: "nat \<Rightarrow> ('m, 'b, 'h) resource_blocks \<Rightarrow> (nat \<times> nat \<times> nat) option result" where
  "PosToPieceInfoEx position m =
     (let r = the_rid m
      in if position \<ge> file_length r then Inr None
         else if block_size r = 0 then Inl DivideByZero
         else Inr (Some (position div block_size r, position mod block_size r div bytes_num_per_piece_g,
                position mod block_size r mod bytes_num_per_piece_g div bytes_num_per_subpiece_g)))"

definition SubPieceInfoToPieceInfoEx :: "nat \<times> nat \<Rightarrow> nat \<times> nat \<times> nat" where
  "SubPieceInfoToPieceInfoEx info =
     (fst info, snd info div subpiece_num_per_piece_g, snd info mod subpiece_num_per_piece_g)"

definition PieceInfoToSubPieceInfo :: "nat \<times> nat \<Rightarrow> nat \<times> nat" where
  "PieceInfoToSubPieceInfo piece = (fst piece, snd piece * subpiece_num_per_piece_g)"

definition PieceInfoExToSubPieceInfo :: "nat \<times> nat \<times> nat \<Rightarrow> nat \<times> nat" where
  "PieceInfoExToSubPieceInfo piece = (case piece of (b, p, s) \<Rightarrow> (b, p * subpiece_num_per_piece_g + s))"

definition SubPieceInfoToPosition :: "nat \<times> nat \<Rightarrow> ('m, 'b, 'h) resource_blocks \<Rightarrow> nat" where
  "SubPieceInfoToPosition info m =
     (fst info * block_size (the_rid m) + snd info * bytes_num_per_subpiece_g) mod 2 ^ 32"

definition GetBlockSubPieceCount :: "nat \<Rightarrow> ('m, 'b, 'h) resource_blocks \<Rightarrow> nat" where
  "GetBlockSubPieceCount b m =
     (if b = fst (last_subpiece_info m) then snd (last_subpiece_info m) + 1
      else block_size (the_rid m) div bytes_num_per_subpiece_g)"

text \<open>The offset and the length of a block, and of a subpiece.\<close>

definition GetBlockPosition :: "nat \<Rightarrow> ('m, 'b, 'h) resource_blocks \<Rightarrow> (nat \<times> nat) result" where
  "GetBlockPosition b m =
     (let r = the_rid m
      in if \<not> b \<le> fst (last_subpiece_info m) then Inl AssertionFailed
         else if block_size r = 0 then Inl DivideByZero
         else Inr (b * block_size r mod 2 ^ 32,
                if b = file_length r div block_size r then file_length r mod block_size r else block_size r))"

definition GetSubPiecePosition ::
    "('m, 'b, 'c, 'h) resource_lib \<Rightarrow> nat \<times> nat \<Rightarrow> ('m, 'b, 'h) resource_blocks \<Rightarrow> (nat \<times> nat) result" where
  "GetSubPiecePosition lib info m =
     (if \<not> info_le lib info (last_subpiece_info m) then Inl AssertionFailed
      else
        let len = (if info = last_subpiece_info m
                   then dec32 (file_length (the_rid m)) mod bytes_num_per_subpiece_g + 1 else bytes_num_per_subpiece_g);
            offset = SubPieceInfoToPosition info m
        in if (offset + len) mod 2 ^ 32 \<le> file_length (the_rid m) then Inr (offset, len) else Inl AssertionFailed)"

text \<open>The next subpiece, and whether it is one of the file.\<close>

definition IncSubPieceInfo :: "nat \<times> nat \<Rightarrow> ('m, 'b, 'h) resource_blocks \<Rightarrow> bool \<times> (nat \<times> nat)" where
  "IncSubPieceInfo info m =
     (let next_info = (if snd info = dec32 (block_size (the_rid m) div bytes_num_per_subpiece_g)
                       then (fst info + 1, 0) else (fst info, snd info + 1))
      in (SubPieceInfoToPosition next_info m < file_length (the_rid m), next_info))"

section \<open>Subpieces\<close>

definition capacity_for_add :: "nat \<Rightarrow> ('m, 'b, 'h) resource_blocks \<Rightarrow> nat" where
  "capacity_for_add b m =
     (if b \<noteq> length (blocks m) - 1 then block_size (the_rid m) div bytes_num_per_subpiece_g else last_block_capacity m)"

text \<open>\<^verbatim>\<open>AddSubPiece\<close> first creates the node if there is none.\<close>

definition node_for_add ::
    "u32 \<Rightarrow> nat \<Rightarrow> ('m, 'b, 'h) resource_blocks \<Rightarrow> ('b block_node \<times> ('m, 'b, 'h) resource_blocks) result" where
  "node_for_add t b m =
     and_then (get_block b m) (\<lambda>slot.
       case slot of
         Some n \<Rightarrow> Inr (n, m)
       | None \<Rightarrow>
           and_then (Create b (capacity_for_add b m) False t) (\<lambda>n.
             Inr (n, put_block b (Some n) (m\<lparr>blocks_count := (blocks_count m + 1) mod 2 ^ 32\<rparr>))))"

definition spm_AddSubPiece ::
    "('m, 'b, 'c, 'h) resource_lib \<Rightarrow> u32 \<Rightarrow> nat \<times> nat \<Rightarrow> 'b \<Rightarrow> ('m, 'b, 'h) resource_blocks \<Rightarrow>
     (bool \<times> ('m, 'b, 'h) resource_blocks) result" where
  "spm_AddSubPiece lib t info buf m =
     (if HasFullBlock lib (fst info) m then Inr (False, m)
      else if \<not> buffer_IsValid lib buf then Inr (False, m)
      else and_then (node_for_add t (fst info) m) (\<lambda>(n, m1).
        if IsFull n then Inl AssertionFailed
        else and_then (AddSubpiece t (snd info) buf n) (\<lambda>(_, n1).
          let m2 = put_block (fst info) (Some n1)
                (m1\<lparr>download_bytes := (download_bytes m1 + buffer_Length lib buf) mod 2 ^ 32\<rparr>)
          in Inr (True, if IsFull n1 then m2\<lparr>block_bit_map := bm_Set lib (fst info) (block_bit_map m2)\<rparr> else m2))))"

text \<open>
  The storing part of \<^verbatim>\<open>Instance::AsyncAddSubPiece\<close> (\<^verbatim>\<open>storage/Instance.cpp\<close>), through which all subpieces come; the result says
  whether the subpiece was added, which the code then tells the download drivers within its sending limit.
\<close>

definition AsyncAddSubPiece ::
    "('m, 'b, 'c, 'h) resource_lib \<Rightarrow> u32 \<Rightarrow> nat \<times> nat \<Rightarrow> 'b \<Rightarrow> ('m, 'b, 'h) resource_blocks \<Rightarrow>
     (bool \<times> ('m, 'b, 'h) resource_blocks) result" where
  "AsyncAddSubPiece lib t info buf m =
     (if \<not> IsSubPieceValid lib info buf m then Inr (False, m)
      else and_then (spm_HasSubPiece lib info m) (\<lambda>has.
        if has then Inr (False, m) else spm_AddSubPiece lib t info buf m))"

definition spm_LoadSubPiece ::
    "('m, 'b, 'c, 'h) resource_lib \<Rightarrow> u32 \<Rightarrow> nat \<times> nat \<Rightarrow> 'c \<Rightarrow> ('m, 'b, 'h) resource_blocks \<Rightarrow>
     (bool \<times> ('m, 'b, 'h) resource_blocks) result" where
  "spm_LoadSubPiece lib t info con m =
     and_then (get_block (fst info) m) (\<lambda>slot.
       case slot of
         None \<Rightarrow> Inr (True, m)
       | Some n \<Rightarrow>
           let subpiece_size = (if info = last_subpiece_info m then last_subpiece_size m else 1024)
           in and_then (LoadSubPieceBuffer t (snd info) (buffer_of lib con subpiece_size) n) (\<lambda>(loaded, n1).
                Inr (loaded, put_block (fst info) (Some n1) m)))"

definition spm_GetSubPiece ::
    "('m, 'b, 'c, 'h) resource_lib \<Rightarrow> u32 \<Rightarrow> nat \<times> nat \<Rightarrow> ('m, 'b, 'h) resource_blocks \<Rightarrow>
     ('b option \<times> ('m, 'b, 'h) resource_blocks) result" where
  "spm_GetSubPiece lib t info m =
     and_then (get_block (fst info) m) (\<lambda>slot.
       case slot of
         None \<Rightarrow> Inr (None, m)
       | Some n \<Rightarrow> and_then (GetSubPiece (buffer_IsValid lib) t (snd info) n) (\<lambda>(buf, n1).
                     Inr (buf, put_block (fst info) (Some n1) m)))"

definition spm_SetBlockReading ::
    "('m, 'b, 'c, 'h) resource_lib \<Rightarrow> u32 \<Rightarrow> nat \<Rightarrow> ('m, 'b, 'h) resource_blocks \<Rightarrow>
     (bool \<times> ('m, 'b, 'h) resource_blocks) result" where
  "spm_SetBlockReading lib t b m =
     and_then (get_block b m) (\<lambda>slot.
     and_then
       (case slot of
          Some n \<Rightarrow> Inr n
        | None \<Rightarrow> if \<not> HasFullBlock lib b m then Inl AssertionFailed
                 else Create b (GetBlockSubPieceCount b m) True t) (\<lambda>n.
       case SetBlockReading n of (was_set, n1) \<Rightarrow> Inr (was_set, put_block b (Some n1) m)))"

section \<open>The next missing subpiece\<close>

fun spm_next_null ::
    "('m, 'b, 'c, 'h) resource_lib \<Rightarrow> ('m, 'b, 'h) resource_blocks \<Rightarrow> nat \<times> nat \<Rightarrow> nat list \<Rightarrow>
     (nat \<times> nat) option result option" where
  "spm_next_null lib m start [] = Some (Inr None)"
| "spm_next_null lib m start (b # bs) =
     (if HasFullBlock lib b m then spm_next_null lib m start bs
      else
        let s = (if b = fst start then snd start else 0)
        in case blocks m ! b of
             None \<Rightarrow> Some (Inr (Some (b, s)))
           | Some n \<Rightarrow>
               if IsFull n then Some (Inl AssertionFailed)
               else (case GetNextNullSubPiece s n of
                       None \<Rightarrow> None
                     | Some (Inl e) \<Rightarrow> Some (Inl e)
                     | Some (Inr (Some i)) \<Rightarrow> Some (Inr (Some (b, i)))
                     | Some (Inr None) \<Rightarrow> spm_next_null lib m start bs))"

definition spm_GetNextNullSubPiece ::
    "('m, 'b, 'c, 'h) resource_lib \<Rightarrow> nat \<times> nat \<Rightarrow> ('m, 'b, 'h) resource_blocks \<Rightarrow> (nat \<times> nat) option result option" where
  "spm_GetNextNullSubPiece lib start m = spm_next_null lib m start [fst start ..< length (blocks m)]"

section \<open>Leaving memory\<close>

text \<open>The buffers posted to \<^verbatim>\<open>Resource::ThreadPendingHashBlock\<close>, if any.\<close>

type_synonym 'b posted = "((nat \<times> nat) \<times> 'b) list option"

definition WriteBlockToResource ::
    "('m, 'b, 'c, 'h) resource_lib \<Rightarrow> nat \<Rightarrow> ('m, 'b, 'h) resource_blocks \<Rightarrow>
     ('b posted \<times> ('m, 'b, 'h) resource_blocks) result" where
  "WriteBlockToResource lib b m =
     and_then (get_block b m) (\<lambda>slot.
       case slot of
         None \<Rightarrow> Inr (None, m)
       | Some n \<Rightarrow>
           if \<not> NeedWrite n \<or> \<not> IsFull n \<or> \<not> HasFullBlock lib b m then Inl AssertionFailed
           else and_then (GetBufferForSave n) (\<lambda>(bufs, n1).
                  Inr (if bufs = [] then None else Some bufs, put_block b (Some n1) m)))"

definition evict_to_disk ::
    "('m, 'b, 'c, 'h) resource_lib \<Rightarrow> nat \<Rightarrow> 'b block_node \<Rightarrow> ('m, 'b, 'h) resource_blocks \<Rightarrow>
     ('b posted \<times> ('m, 'b, 'h) resource_blocks) result" where
  "evict_to_disk lib b n m =
     and_then (if NeedWrite n \<and> IsFull n then WriteBlockToResource lib b m else Inr (None, m)) (\<lambda>(p, m1).
     and_then (get_block b m1) (\<lambda>slot.
       case slot of
         None \<Rightarrow> Inl NullPointer
       | Some n1 \<Rightarrow>
           if IsFull n1 then
             (if HasFullBlock lib b m1 then Inr (p, put_block b None m1) else Inl AssertionFailed)
           else Inr (p, m1)))"

text \<open>The end of both branches without a disk: half of the cache of the block is cleared.\<close>

definition clear_block ::
    "('m, 'b, 'c, 'h) resource_lib \<Rightarrow> u32 \<Rightarrow> nat \<Rightarrow> 'b block_node \<Rightarrow> ('m, 'b, 'h) resource_blocks \<Rightarrow>
     ('m, 'b, 'h) resource_blocks result" where
  "clear_block lib t b n m =
     and_then (ClearBlockMemCache t (block_size (the_rid m) div bytes_num_per_subpiece_g) n) (\<lambda>n1.
       let m1 = (if HasFullBlock lib b m \<and> \<not> IsFull n1
                 then m\<lparr>block_bit_map := bm_Reset lib b (block_bit_map m)\<rparr> else m)
       in Inr (put_block b (if IsEmpty n1 then None else Some n1) m1))"

definition evict_without_disk ::
    "('m, 'b, 'c, 'h) resource_lib \<Rightarrow> u32 \<Rightarrow> nat \<Rightarrow> 'b block_node \<Rightarrow> ('m, 'b, 'h) resource_blocks \<Rightarrow>
     ('m, 'b, 'h) resource_blocks result" where
  "evict_without_disk lib t b n m =
     (if \<not> need_verify_block m then clear_block lib t b n m
      else if NeedWrite n \<and> IsFull n then
        and_then (GetBufferForSave n) (\<lambda>(bufs, n1).
          if bufs = [] \<or> length bufs \<noteq> GetBlockSubPieceCount b m then Inr (put_block b (Some n1) m)
          else if \<not> b < length (block_md5_s (the_rid m)) then Inl OutOfRange
          else clear_block lib t b n1
            (if block_md5_s (the_rid m) ! b \<noteq> md5_of_buffers lib (map snd bufs)
             then m\<lparr>md5_hash_failed := md5_hash_failed m + 1\<rparr> else m))
      else Inr m)"

definition RemoveBlockDataFromMemCache ::
    "bool \<Rightarrow> ('m, 'b, 'c, 'h) resource_lib \<Rightarrow> u32 \<Rightarrow> nat \<Rightarrow> ('m, 'b, 'h) resource_blocks \<Rightarrow>
     ('b posted \<times> ('m, 'b, 'h) resource_blocks) result" where
  "RemoveBlockDataFromMemCache disk_mode lib t b m =
     and_then (get_block b m) (\<lambda>slot.
       case slot of
         None \<Rightarrow> Inr (None, m)
       | Some n \<Rightarrow>
           if disk_mode then evict_to_disk lib b n m
           else and_then (evict_without_disk lib t b n m) (\<lambda>m1. Inr (None, m1)))"

text \<open>\<^verbatim>\<open>SaveAllBlock\<close>, with the list of what is posted.\<close>

definition save_block ::
    "bool \<Rightarrow> ('m, 'b, 'c, 'h) resource_lib \<Rightarrow> u32 \<Rightarrow> nat \<Rightarrow>
     ((nat \<times> nat) \<times> 'b) list list \<times> ('m, 'b, 'h) resource_blocks \<Rightarrow>
     (((nat \<times> nat) \<times> 'b) list list \<times> ('m, 'b, 'h) resource_blocks) result" where
  "save_block disk_mode lib t b = (\<lambda>(ps, m).
     and_then (RemoveBlockDataFromMemCache disk_mode lib t b m) (\<lambda>(p, m1).
     and_then (get_block b m1) (\<lambda>slot.
     and_then
       (case slot of
          Some n \<Rightarrow> if \<not> IsFull n
                    then and_then (ClearBlockMemCache t (block_size (the_rid m1) div bytes_num_per_subpiece_g) n)
                           (\<lambda>n1. Inr (put_block b (Some n1) m1))
                    else Inr m1
        | None \<Rightarrow> Inr m1) (\<lambda>m2.
       Inr (case p of None \<Rightarrow> ps | Some bufs \<Rightarrow> ps @ [bufs], m2)))))"

definition SaveAllBlock ::
    "bool \<Rightarrow> ('m, 'b, 'c, 'h) resource_lib \<Rightarrow> u32 \<Rightarrow> ('m, 'b, 'h) resource_blocks \<Rightarrow>
     (((nat \<times> nat) \<times> 'b) list list \<times> ('m, 'b, 'h) resource_blocks) result" where
  "SaveAllBlock disk_mode lib t m = seq (map (save_block disk_mode lib t) [0..<length (blocks m)]) ([], m)"

section \<open>Reports of the storage thread\<close>

definition RemoveBlockInfo ::
    "('m, 'b, 'c, 'h) resource_lib \<Rightarrow> nat \<Rightarrow> ('m, 'b, 'h) resource_blocks \<Rightarrow> ('m, 'b, 'h) resource_blocks result" where
  "RemoveBlockInfo lib b m =
     (let m1 = (if HasFullBlock lib b m then m\<lparr>block_bit_map := bm_Reset lib b (block_bit_map m)\<rparr> else m)
      in and_then (get_block b m1) (\<lambda>slot.
           case slot of
             None \<Rightarrow> Inl AssertionFailed
           | Some n \<Rightarrow> Inr (put_block b None (m1\<lparr>blocks_count := dec32 (blocks_count m1)\<rparr>))))"

definition OnWriteBlockFinish ::
    "('m, 'b, 'c, 'h) resource_lib \<Rightarrow> nat \<Rightarrow> ('m, 'b, 'h) resource_blocks \<Rightarrow> ('m, 'b, 'h) resource_blocks result" where
  "OnWriteBlockFinish lib b m =
     and_then (get_block b m) (\<lambda>slot.
       case slot of
         None \<Rightarrow> Inr m
       | Some n \<Rightarrow> if HasFullBlock lib b m then Inr (put_block b None m) else Inl AssertionFailed)"

definition OnReportBlockReadFailed ::
    "('m, 'b, 'c, 'h) resource_lib \<Rightarrow> nat \<times> nat \<Rightarrow> ('m, 'b, 'h) resource_blocks \<Rightarrow> ('m, 'b, 'h) resource_blocks result" where
  "OnReportBlockReadFailed lib info m =
     (let m1 = m\<lparr>block_bit_map := bm_Reset lib (fst info) (block_bit_map m)\<rparr>
      in and_then (get_block (fst info) m1) (\<lambda>slot.
           case slot of
             None \<Rightarrow> Inr m1
           | Some n \<Rightarrow> and_then (ResetForReDownload n) (\<lambda>n1. Inr (put_block (fst info) (Some n1) m1))))"

text \<open>The resource's id from the hashes of its blocks.\<close>

definition GenerateRid ::
    "('m, 'b, 'c, 'h) resource_lib \<Rightarrow> ('m, 'b, 'h) resource_blocks \<Rightarrow> (bool \<times> ('m, 'b, 'h) resource_blocks) result" where
  "GenerateRid lib m =
     (let r = the_rid m; hs = take (block_count r) (block_md5_s r)
      in if HasRID lib r \<or> \<not> IsFullFile lib m then Inr (False, m)
         else if list_ex (md5_is_empty lib) hs then Inr (False, m)
         else if length (block_md5_s r) < block_count r then Inl OutOfRange
         else Inr (True, m\<lparr>the_rid := r\<lparr>rid := rid_of_md5s lib hs\<rparr>\<rparr>))"

section \<open>The description of a resource\<close>

definition block_buffer :: "nat \<Rightarrow> ('m, 'b, 'h) resource_blocks \<Rightarrow> u8 list result" where
  "block_buffer b m = (case blocks m ! b of None \<Rightarrow> Inr NullBlockToBuffer | Some n \<Rightarrow> ToBuffer n)"

definition write_block ::
    "('m, 'b, 'c, 'h) resource_lib \<Rightarrow> ('m, 'b, 'h) resource_blocks \<Rightarrow> nat \<Rightarrow> nat \<times> u8 list \<Rightarrow> (nat \<times> u8 list) result" where
  "write_block lib m b = (\<lambda>(tmp_buffer_size, out).
     if HasFullBlock lib b m then Inr (tmp_buffer_size, out)
     else
       and_then (append_bytes tmp_buffer_size (put32 b) out) (\<lambda>out.
       and_then (block_buffer b m) (\<lambda>block_buf.
       and_then (append_bytes tmp_buffer_size (put32 (length block_buf)) out) (\<lambda>out.
         let size = (if tmp_buffer_size < length out + length block_buf + 256 then tmp_buffer_size * 2
                     else tmp_buffer_size)
         in and_then (append_bytes size block_buf out) (\<lambda>out. Inr (size, out))))))"

definition spm_ToBuffer ::
    "('m, 'b, 'c, 'h) resource_lib \<Rightarrow> ('m, 'b, 'h) resource_blocks \<Rightarrow> u8 list result" where
  "spm_ToBuffer lib m =
     and_then (seq (map (write_block lib m) [0..<length (blocks m)]) (16 * 1024, [])) (\<lambda>(_, out). Inr out)"

text \<open>
  The loop of \<^verbatim>\<open>Parse\<close>: the manager so far and the number of subpieces that are missing.  \<open>None\<close> inside the
  result: \<^verbatim>\<open>Parse\<close> returns an empty pointer; \<open>None\<close> outside: it does not return.
\<close>

definition parsed_block ::
    "('m, 'b, 'c, 'h) resource_lib \<Rightarrow> nat \<Rightarrow> 'b block_node option \<Rightarrow> ('m, 'b, 'h) resource_blocks \<times> nat \<Rightarrow>
     ('m, 'b, 'h) resource_blocks \<times> nat" where
  "parsed_block lib b node = (\<lambda>(m, missing).
     let m1 = put_block b node (m\<lparr>block_bit_map := bm_Reset lib b (block_bit_map m)\<rparr>)
     in case node of
          Some n \<Rightarrow> (m1, (missing + GetCurrNullSubPieceCount n) mod 2 ^ 32)
        | None \<Rightarrow> (m1\<lparr>blocks_count := dec32 (blocks_count m1)\<rparr>,
                   (missing + GetBlockSubPieceCount b m) mod 2 ^ 32))"

function parse_blocks ::
    "('m, 'b, 'c, 'h) resource_lib \<Rightarrow> u32 \<Rightarrow> u8 list \<Rightarrow> nat \<Rightarrow> ('m, 'b, 'h) resource_blocks \<times> nat \<Rightarrow>
     (('m, 'b, 'h) resource_blocks \<times> nat) option result option" where
  "parse_blocks lib t buf offset acc =
     (if offset < length buf then
        (if offset + 8 > length buf then Some (Inl AssertionFailed)
         else
           let b = get32 buf offset; blockbuflen = get32 buf (offset + 4); offset1 = offset + 8
           in if b \<ge> length (blocks (fst acc)) then Some (Inl AssertionFailed)
              else if blockbuflen = 0 then Some (Inl AssertionFailed)
              else if (offset1 + blockbuflen) mod 2 ^ 32 > length buf then Some (Inl AssertionFailed)
              else if blockbuflen > 0x3FFFFFFF then Some (Inl AssertionFailed)
              else
                (case Parse t b (take blockbuflen (drop offset1 buf)) of
                   None \<Rightarrow> None
                 | Some (Inl e) \<Rightarrow> Some (Inl e)
                 | Some (Inr None) \<Rightarrow> Some (Inr None)
                 | Some (Inr (Some node)) \<Rightarrow> parse_blocks lib t buf (offset1 + blockbuflen) (parsed_block lib b node acc)))
      else if offset = length buf then Some (Inr (Some acc)) else Some (Inl AssertionFailed))"
  by pat_completeness auto

termination parse_blocks
  by (relation "measure (\<lambda>(lib, t, buf, offset, acc). length buf - offset)") auto

declare parse_blocks.simps [simp del]

definition parsed_download_bytes :: "bool \<Rightarrow> nat \<Rightarrow> nat \<Rightarrow> nat" where
  "parsed_download_bytes has_last flen missing =
     nat ((if has_last then int flen - int missing * int bytes_num_per_subpiece_g
           else int flen - ((int missing - 1) * int bytes_num_per_subpiece_g + int (flen mod bytes_num_per_subpiece_g)))
          mod 2 ^ 32)"

definition spm_Parse ::
    "('m, 'b, 'c, 'h) resource_lib \<Rightarrow> bool \<Rightarrow> u32 \<Rightarrow> u8 list \<Rightarrow> 'h rid_info \<Rightarrow>
     ('m, 'b, 'h) resource_blocks option result option" where
  "spm_Parse lib verify t cfgfile_buf r =
     (case spm_new lib verify r True of
        Inl e \<Rightarrow> Some (Inl e)
      | Inr m0 \<Rightarrow>
          (case parse_blocks lib t cfgfile_buf 0 (m0\<lparr>block_bit_map := bm_SetAll lib True (block_bit_map m0)\<rparr>, 0) of
             None \<Rightarrow> None
           | Some (Inl e) \<Rightarrow> Some (Inl e)
           | Some (Inr None) \<Rightarrow> Some (Inr None)
           | Some (Inr (Some (m, missing))) \<Rightarrow>
               (case spm_HasSubPiece lib (last_subpiece_info m) m of
                  Inl e \<Rightarrow> Some (Inl e)
                | Inr has_last \<Rightarrow>
                    Some (Inr (Some (m\<lparr>download_bytes :=
                      parsed_download_bytes has_last (file_length (the_rid m)) missing\<rparr>))))))"

section \<open>Invariant\<close>

text \<open>What a \<^verbatim>\<open>RidInfo\<close> with a file length looks like: fewer than \<open>2 ^ 16\<close> subpieces in a block.\<close>

definition rid_ok :: "'h rid_info \<Rightarrow> bool" where
  "rid_ok r =
     (0 < file_length r \<and> file_length r < 2 ^ 32 \<and> 0 < block_size r \<and> block_size r mod 1024 = 0 \<and> block_size r < 2 ^ 26 \<and>
      block_count r = (file_length r + block_size r - 1) div block_size r)"

text \<open>The number of subpieces of a block.\<close>

definition cap :: "'h rid_info \<Rightarrow> nat \<Rightarrow> nat" where
  "cap r b = (if b = block_count r - 1 then (file_length r - 1) mod block_size r div 1024 + 1 else block_size r div 1024)"

definition sm_shape :: "('m, 'b, 'c, 'h) resource_lib \<Rightarrow> ('m, 'b, 'h) resource_blocks \<Rightarrow> bool" where
  "sm_shape lib m =
     (block_map_ok lib \<and> rid_ok (the_rid m) \<and>
      length (blocks m) = block_count (the_rid m) \<and> length (bm_bits lib (block_bit_map m)) = block_count (the_rid m) \<and>
      last_subpiece_info m = (block_count (the_rid m) - 1, (file_length (the_rid m) - 1) mod block_size (the_rid m) div 1024) \<and>
      last_block_capacity m = cap (the_rid m) (block_count (the_rid m) - 1) \<and>
      last_subpiece_size m = (file_length (the_rid m) - 1) mod 1024 + 1)"

text \<open>A node belongs to its place, and its bit says whether it is full.\<close>

definition node_fits :: "('m, 'b, 'c, 'h) resource_lib \<Rightarrow> ('m, 'b, 'h) resource_blocks \<Rightarrow> nat \<Rightarrow> 'b block_node \<Rightarrow> bool" where
  "node_fits lib m b n =
     (total_subpiece_count n = cap (the_rid m) b \<and> index n = b \<and> HasFullBlock lib b m = IsFull n)"

definition all_nodes :: "(nat \<Rightarrow> 'b block_node \<Rightarrow> bool) \<Rightarrow> ('m, 'b, 'h) resource_blocks \<Rightarrow> bool" where
  "all_nodes P m = (\<forall>b < length (blocks m). \<forall>n. blocks m ! b = Some n \<longrightarrow> P b n)"

definition sm_mem_ok :: "('m, 'b, 'c, 'h) resource_lib \<Rightarrow> ('m, 'b, 'h) resource_blocks \<Rightarrow> bool" where
  "sm_mem_ok lib m = (sm_shape lib m \<and> all_nodes (\<lambda>b n. bn_mem_ok n \<and> node_fits lib m b n) m)"

lemma rid_ok_facts:
  assumes "rid_ok r"
  shows "0 < block_count r" "block_count r = (file_length r - 1) div block_size r + 1"
    "(block_count r - 1) * block_size r < file_length r" "file_length r \<le> block_count r * block_size r"
    "block_count r \<le> 2 ^ 22"
proof -
  let ?f = "file_length r" and ?s = "block_size r"
  have s: "0 < ?s" "0 < ?f" "?f < 2 ^ 32" "?s mod 1024 = 0" using assms by (simp_all add: rid_ok_def)
  have "block_count r = (?f + ?s - 1) div ?s" using assms by (simp add: rid_ok_def)
  also have "?f + ?s - 1 = (?f - 1) + ?s" using s by simp
  also have "((?f - 1) + ?s) div ?s = (?f - 1) div ?s + 1" using s(1) by (intro div_add_self2) simp
  finally show c: "block_count r = (?f - 1) div ?s + 1" .
  then show "0 < block_count r" by simp
  have "(?f - 1) div ?s * ?s \<le> ?f - 1" by (rule div_times_less_eq_dividend)
  then have "(?f - 1) div ?s * ?s < ?f" using s(2) by linarith
  then show "(block_count r - 1) * ?s < ?f" using c by simp
  have "?f - 1 < ((?f - 1) div ?s + 1) * ?s" using dividend_less_div_times [OF s(1), of "?f - 1"] by simp
  then have "?f \<le> ((?f - 1) div ?s + 1) * ?s" using s(2) by linarith
  then show "?f \<le> block_count r * ?s" using c by simp
  have "1024 dvd ?s" using s(4) by (rule mod_0_imp_dvd)
  then have "1024 \<le> ?s" using s(1) by (rule dvd_imp_le)
  then have "(?f - 1) div ?s \<le> (?f - 1) div 1024" using s(1) by (intro div_le_mono2) simp_all
  moreover have "(?f - 1) div 1024 < 2 ^ 22" using s(3) by (simp add: div_less_iff_less_mult)
  ultimately show "block_count r \<le> 2 ^ 22" using c by linarith
qed

lemma cap_bounds:
  assumes "rid_ok r"
  shows "0 < cap r b" "cap r b \<le> block_size r div 1024" "cap r b < 2 ^ 16" "cap r b \<le> 2 ^ 22"
proof -
  let ?s = "block_size r"
  obtain k where k: "?s = 1024 * k" using assms by (auto simp: rid_ok_def mod_eq_0_iff_dvd dvd_def)
  have s: "0 < k" "k < 2 ^ 16" using assms k by (simp_all add: rid_ok_def)
  have "(file_length r - 1) mod ?s div 1024 < k"
    using s k by (subst div_less_iff_less_mult) (auto simp: mult.commute)
  then have "0 < cap r b \<and> cap r b \<le> k" using s by (simp add: cap_def k)
  with s k show "0 < cap r b" "cap r b \<le> ?s div 1024" "cap r b < 2 ^ 16" "cap r b \<le> 2 ^ 22" by auto
qed

lemma block_map_facts:
  assumes "block_map_ok lib"
  shows "bm_bits lib (bm_SetAll lib b (bm_Create lib n)) = replicate n b"
    "bm_bits lib (bm_SetAll lib b bm) = map (\<lambda>_. b) (bm_bits lib bm)"
    "bm_IsFull lib bm = list_all (\<lambda>b. b) (bm_bits lib bm)"
  using assms unfolding block_map_ok_def by blast+

lemma has_full_bit: "block_map_ok lib \<Longrightarrow> b < length (bm_bits lib (block_bit_map m)) \<Longrightarrow> HasFullBlock lib b m = bm_bits lib (block_bit_map m) ! b"
  by (simp add: block_map_ok_def HasFullBlock_def)

lemma bits_set [simp]: "block_map_ok lib \<Longrightarrow> bm_bits lib (bm_Set lib b bm) = (bm_bits lib bm)[b := True]"
  by (simp add: block_map_ok_def)

lemma bits_reset [simp]: "block_map_ok lib \<Longrightarrow> bm_bits lib (bm_Reset lib b bm) = (bm_bits lib bm)[b := False]"
  by (simp add: block_map_ok_def)

lemma info_le_eq: "block_map_ok lib \<Longrightarrow> info_le lib a b \<longleftrightarrow> fst a < fst b \<or> fst a = fst b \<and> snd a \<le> snd b"
  unfolding block_map_ok_def by blast

lemma has_full_set:
  assumes ok: "block_map_ok lib" and c: "c < length (bm_bits lib bm)"
  shows "bm_HasBlock lib (bm_Set lib b bm) c = (c = b \<or> bm_HasBlock lib bm c)"
    "bm_HasBlock lib (bm_Reset lib b bm) c = (c \<noteq> b \<and> bm_HasBlock lib bm c)"
proof -
  have has: "bm_HasBlock lib x c = bm_bits lib x ! c" if "length (bm_bits lib x) = length (bm_bits lib bm)" for x
    using ok c that unfolding block_map_ok_def by simp
  show "bm_HasBlock lib (bm_Set lib b bm) c = (c = b \<or> bm_HasBlock lib bm c)"
    "bm_HasBlock lib (bm_Reset lib b bm) c = (c \<noteq> b \<and> bm_HasBlock lib bm c)"
    using c by (cases "b = c"; simp add: has ok)+
qed

lemma sm_shapeD:
  assumes "sm_shape lib m"
  shows "block_map_ok lib" "rid_ok (the_rid m)" "length (blocks m) = block_count (the_rid m)"
    "length (bm_bits lib (block_bit_map m)) = block_count (the_rid m)"
    "fst (last_subpiece_info m) = block_count (the_rid m) - 1"
    "snd (last_subpiece_info m) + 1 = cap (the_rid m) (block_count (the_rid m) - 1)"
  using assms by (simp_all add: sm_shape_def cap_def)

lemma put_block_simps [simp]:
  "the_rid (put_block b slot m) = the_rid m" "block_bit_map (put_block b slot m) = block_bit_map m"
  "last_subpiece_info (put_block b slot m) = last_subpiece_info m"
  "last_block_capacity (put_block b slot m) = last_block_capacity m"
  "last_subpiece_size (put_block b slot m) = last_subpiece_size m"
  "blocks (put_block b slot m) = (blocks m)[b := slot]" "blocks_count (put_block b slot m) = blocks_count m"
  "download_bytes (put_block b slot m) = download_bytes m" "need_verify_block (put_block b slot m) = need_verify_block m"
  by (simp_all add: put_block_def)

lemma HasFullBlock_put [simp]: "HasFullBlock lib c (put_block b slot m) = HasFullBlock lib c m"
  by (simp add: HasFullBlock_def)

lemma all_nodesD: "all_nodes P m \<Longrightarrow> b < length (blocks m) \<Longrightarrow> blocks m ! b = Some n \<Longrightarrow> P b n"
  by (simp add: all_nodes_def)

lemma capacity_eq:
  assumes "sm_shape lib m" "b < block_count (the_rid m)"
  shows "capacity_for_add b m = cap (the_rid m) b" "GetBlockSubPieceCount b m = cap (the_rid m) b"
  using assms by (auto simp: capacity_for_add_def GetBlockSubPieceCount_def sm_shape_def cap_def bytes_num_per_subpiece_g_def)

section \<open>What is missing\<close>

definition lacks :: "('m, 'b, 'c, 'h) resource_lib \<Rightarrow> ('m, 'b, 'h) resource_blocks \<Rightarrow> nat \<times> nat \<Rightarrow> bool" where
  "lacks lib m info =
     (\<not> HasFullBlock lib (fst info) m \<and>
      (case blocks m ! fst info of None \<Rightarrow> True | Some n \<Rightarrow> \<not> has_key (subpieces n) (snd info)))"

text \<open>The subpieces of the blocks in order, from a start on; the reference definition of the search.\<close>

definition infos_from :: "'h rid_info \<Rightarrow> nat \<times> nat \<Rightarrow> nat list \<Rightarrow> (nat \<times> nat) list" where
  "infos_from r start bs = concat (map (\<lambda>b. map (Pair b) [(if b = fst start then snd start else 0)..<cap r b]) bs)"

definition first_lacking ::
    "('m, 'b, 'c, 'h) resource_lib \<Rightarrow> nat \<times> nat \<Rightarrow> ('m, 'b, 'h) resource_blocks \<Rightarrow> (nat \<times> nat) option" where
  "first_lacking lib start m =
     find (lacks lib m) (infos_from (the_rid m) start [fst start..<block_count (the_rid m)])"

lemma find_append: "find P (xs @ ys) = (case find P xs of None \<Rightarrow> find P ys | Some x \<Rightarrow> Some x)"
  by (induction xs) auto

lemma find_pairs: "find P (map (Pair b) xs) = map_option (Pair b) (find (\<lambda>x. P (b, x)) xs)"
  by (induction xs) auto

lemma next_lacking:
  assumes "sm_mem_ok lib m" "\<forall>b \<in> set bs. b < block_count (the_rid m)" "snd start < cap (the_rid m) (fst start)"
  shows "spm_next_null lib m start bs = Some (Inr (find (lacks lib m) (infos_from (the_rid m) start bs)))"
  using assms(2)
proof (induction bs)
  case Nil
  then show ?case by (simp add: infos_from_def)
next
  case (Cons b bs)
  note sh = sm_shapeD [OF assms(1) [unfolded sm_mem_ok_def, THEN conjunct1]]
  have b: "b < length (blocks m)" using Cons.prems sh(3) by simp
  let ?s = "if b = fst start then snd start else 0"
  have IH: "spm_next_null lib m start bs = Some (Inr (find (lacks lib m) (infos_from (the_rid m) start bs)))"
    using Cons by simp
  have split: "find (lacks lib m) (infos_from (the_rid m) start (b # bs)) =
      (case find (\<lambda>s. lacks lib m (b, s)) [?s..<cap (the_rid m) b] of
         None \<Rightarrow> find (lacks lib m) (infos_from (the_rid m) start bs) | Some s \<Rightarrow> Some (b, s))"
    by (simp add: infos_from_def find_append find_pairs split: option.split)
  have s: "?s < cap (the_rid m) b" using assms(3) cap_bounds(1) [OF sh(2)] by simp
  show ?case
  proof (cases "HasFullBlock lib b m")
    case True
    then have "find (\<lambda>s. lacks lib m (b, s)) [?s..<cap (the_rid m) b] = None" by (auto simp: find_None_iff lacks_def)
    with split have "find (lacks lib m) (infos_from (the_rid m) start (b # bs)) =
      find (lacks lib m) (infos_from (the_rid m) start bs)" by simp
    with True IH show ?thesis by simp
  next
    case nofull: False
    show ?thesis
    proof (cases "blocks m ! b")
      case None
      then have "find (\<lambda>s. lacks lib m (b, s)) [?s..<cap (the_rid m) b] = Some ?s"
        using nofull s by (simp add: lacks_def upt_conv_Cons)
      with split nofull None show ?thesis by simp
    next
      case (Some n)
      with assms(1) b have n: "bn_mem_ok n" "total_subpiece_count n = cap (the_rid m) b" "IsFull n = HasFullBlock lib b m"
        by (auto simp: sm_mem_ok_def node_fits_def dest: all_nodesD)
      have "GetNextNullSubPiece ?s n = Some (Inr (first_missing ?s n))"
        by (rule GetNextNullSubPiece_eq [OF n(1)]) (use n(2) s cap_bounds(3) [OF sh(2)] in simp_all)
      moreover have "first_missing ?s n = find (\<lambda>s. lacks lib m (b, s)) [?s..<cap (the_rid m) b]"
        using nofull Some n(2) by (simp add: first_missing_def lacks_def)
      ultimately show ?thesis using split nofull Some n(3) IH by (simp add: Let_def split: option.split)
    qed
  qed
qed

section \<open>Adding\<close>

lemma node_for_add_eq:
  fixes m :: "('m, 'b, 'h) resource_blocks"
  assumes "sm_shape lib m" "b < block_count (the_rid m)"
  shows "\<exists>n k. node_for_add t b m = Inr (n, (put_block b (Some n) m)\<lparr>blocks_count := k\<rparr>) \<and>
    (case blocks m ! b of
       None \<Rightarrow> bn_mem_ok n \<and> subpieces n = [] \<and> total_subpiece_count n = cap (the_rid m) b \<and> index n = b \<and>
         \<not> need_write n \<and> node_state n = EMPTY
     | Some n' \<Rightarrow> n = n')"
proof (cases "blocks m ! b")
  case None
  note sh = sm_shapeD [OF assms(1)]
  obtain n :: "'b block_node" where n: "Create b (cap (the_rid m) b) False t = Inr n" "bn_mem_ok n" "subpieces n = []"
    "total_subpiece_count n = cap (the_rid m) b" "index n = b" "\<not> need_write n" "node_state n = EMPTY"
    using Create_ok [OF cap_bounds(1,4) [OF sh(2)], of b b t] by blast
  let ?k = "(blocks_count m + 1) mod 2 ^ 32"
  have "put_block b (Some n) (m\<lparr>blocks_count := ?k\<rparr>) = (put_block b (Some n) m)\<lparr>blocks_count := ?k\<rparr>"
    by (simp add: put_block_def)
  with None n assms(2) sh(3) have "node_for_add t b m = Inr (n, (put_block b (Some n) m)\<lparr>blocks_count := ?k\<rparr>)"
    by (simp add: node_for_add_def get_block_def capacity_eq [OF assms])
  with None n show ?thesis by (intro exI [of _ n] exI [of _ ?k]) simp
next
  case (Some n)
  have "(blocks m)[b := Some n] = blocks m" using Some by (metis list_update_id)
  then have "put_block b (Some n) m = m" by (simp add: put_block_def)
  then have "(put_block b (Some n) m)\<lparr>blocks_count := blocks_count m\<rparr> = m" by simp
  with Some assms sm_shapeD(3) [OF assms(1)] show ?thesis
    by (intro exI [of _ n] exI [of _ "blocks_count m"]) (simp add: node_for_add_def get_block_def)
qed

lemma all_nodes_put:
  assumes "all_nodes P m" "\<And>c n. c \<noteq> b \<Longrightarrow> c < length (blocks m) \<Longrightarrow> P c n \<Longrightarrow> Q c n" "Q b n"
    and "blocks m' = (blocks m)[b := Some n]"
  shows "all_nodes Q m'"
  unfolding all_nodes_def
proof (intro allI impI)
  fix c k assume c: "c < length (blocks m')" "blocks m' ! c = Some k"
  show "Q c k"
  proof (cases "c = b")
    case True
    with c assms(3,4) show ?thesis by simp
  next
    case False
    with c assms(4) have "blocks m ! c = Some k" "c < length (blocks m)" by simp_all
    with assms(1,2) False show ?thesis by (auto dest: all_nodesD)
  qed
qed

lemma IsFull_keys:
  assumes "bn_shape n" "\<not> IsBlockSavedOnDisk n"
  shows "IsFull n \<longleftrightarrow> length (subpieces n) = total_subpiece_count n"
  using assms by (simp add: IsFull_def)

text \<open>Adding a missing subpiece only depends on its block, and only changes it.\<close>

lemma spm_AddSubPiece_step:
  assumes shape: "sm_shape lib m" and b: "b < block_count (the_rid m)" and s: "s < cap (the_rid m) b"
    and nofull: "\<not> HasFullBlock lib b m" and valid: "buffer_IsValid lib buf"
    and node: "\<And>n. blocks m ! b = Some n \<Longrightarrow>
      bn_mem_ok n \<and> total_subpiece_count n = cap (the_rid m) b \<and> index n = b \<and> \<not> has_key (subpieces n) s"
  shows "\<exists>n m'. spm_AddSubPiece lib t (b, s) buf m = Inr (True, m') \<and> sm_shape lib m' \<and> the_rid m' = the_rid m \<and>
    blocks m' = (blocks m)[b := Some (added t s buf n)] \<and>
    download_bytes m' = (download_bytes m + buffer_Length lib buf) mod 2 ^ 32 \<and>
    (\<forall>c < block_count (the_rid m). HasFullBlock lib c m' = (if c = b then IsFull (added t s buf n) else HasFullBlock lib c m)) \<and>
    bn_mem_ok n \<and> total_subpiece_count n = cap (the_rid m) b \<and> index n = b \<and> \<not> has_key (subpieces n) s \<and>
    (case blocks m ! b of None \<Rightarrow> subpieces n = [] \<and> \<not> need_write n \<and> node_state n = EMPTY | Some n' \<Rightarrow> n = n')"
proof -
  note sh = sm_shapeD [OF shape]
  obtain n k where n0: "node_for_add t b m = Inr (n, (put_block b (Some n) m)\<lparr>blocks_count := k\<rparr>)"
    and slot: "case blocks m ! b of
       None \<Rightarrow> bn_mem_ok n \<and> subpieces n = [] \<and> total_subpiece_count n = cap (the_rid m) b \<and> index n = b \<and>
         \<not> need_write n \<and> node_state n = EMPTY
     | Some n' \<Rightarrow> n = n'"
    using node_for_add_eq [OF shape b, of t] by blast
  define m1 where "m1 = (put_block b (Some n) m)\<lparr>blocks_count := k\<rparr>"
  note n = n0 [folded m1_def] m1_def
  have ok: "bn_mem_ok n" "total_subpiece_count n = cap (the_rid m) b" "index n = b" "\<not> has_key (subpieces n) s"
    and from_slot: "case blocks m ! b of None \<Rightarrow> subpieces n = [] \<and> \<not> need_write n \<and> node_state n = EMPTY | Some n' \<Rightarrow> n = n'"
    using slot node by (cases "blocks m ! b"; simp add: has_key_def)+
  have st: "s < total_subpiece_count n" using s ok(2) by simp
  note after = added_ok [OF ok(1) st ok(4), of t buf]
  have notfull: "\<not> IsFull n"
    using IsFull_mem [OF bn_mem_parts(1) [OF ok(1)]] st ok(4) bn_mem_parts(2) [OF ok(1)] by (auto simp: IsFull_def)
  let ?n = "added t s buf n"
  let ?m2 = "put_block b (Some ?n) (m1\<lparr>download_bytes := (download_bytes m1 + buffer_Length lib buf) mod 2 ^ 32\<rparr>)"
  let ?m = "if IsFull ?n then ?m2\<lparr>block_bit_map := bm_Set lib b (block_bit_map ?m2)\<rparr> else ?m2"
  have add: "spm_AddSubPiece lib t (b, s) buf m = Inr (True, ?m)"
    using nofull valid n(1) notfull AddSubpiece_eq [OF ok(1) st ok(4), of t buf] by (simp add: spm_AddSubPiece_def Let_def)
  have fields: "the_rid ?m = the_rid m" "blocks ?m = (blocks m)[b := Some ?n]"
    "download_bytes ?m = (download_bytes m + buffer_Length lib buf) mod 2 ^ 32"
    "last_subpiece_info ?m = last_subpiece_info m" "last_block_capacity ?m = last_block_capacity m"
    "last_subpiece_size ?m = last_subpiece_size m"
    "length (bm_bits lib (block_bit_map ?m)) = length (bm_bits lib (block_bit_map m))"
    using sh(1) by (simp_all add: n(2))
  have full: "HasFullBlock lib c ?m = (if c = b then IsFull ?n else HasFullBlock lib c m)" if "c < block_count (the_rid m)" for c
    using that sh(4) nofull has_full_set(1) [OF sh(1), of c "block_bit_map m" b] by (cases "c = b") (simp_all add: HasFullBlock_def n(2))
  have "sm_shape lib ?m" using shape unfolding sm_shape_def fields by simp
  with add fields(1-3) full ok from_slot show ?thesis by blast
qed

lemma spm_AddSubPiece_ok:
  assumes "sm_mem_ok lib m" "b < block_count (the_rid m)" "s < cap (the_rid m) b" "lacks lib m (b, s)" "buffer_IsValid lib buf"
  shows "\<exists>m'. spm_AddSubPiece lib t (b, s) buf m = Inr (True, m') \<and> sm_mem_ok lib m' \<and> the_rid m' = the_rid m \<and>
    download_bytes m' = (download_bytes m + buffer_Length lib buf) mod 2 ^ 32 \<and>
    (\<forall>c i. c < block_count (the_rid m) \<longrightarrow> i < cap (the_rid m) c \<longrightarrow> lacks lib m' (c, i) = (lacks lib m (c, i) \<and> (c, i) \<noteq> (b, s)))"
proof -
  have shape: "sm_shape lib m" and nodes: "all_nodes (\<lambda>b n. bn_mem_ok n \<and> node_fits lib m b n) m"
    using assms(1) by (simp_all add: sm_mem_ok_def)
  note sh = sm_shapeD [OF shape]
  have b: "b < length (blocks m)" using assms(2) sh(3) by simp
  have nofull: "\<not> HasFullBlock lib b m" using assms(4) by (simp add: lacks_def)
  have slot: "bn_mem_ok n \<and> total_subpiece_count n = cap (the_rid m) b \<and> index n = b \<and> \<not> has_key (subpieces n) s"
    if "blocks m ! b = Some n" for n
    using all_nodesD [OF nodes b that] that assms(4) by (simp add: node_fits_def lacks_def)
  obtain n m' where m': "spm_AddSubPiece lib t (b, s) buf m = Inr (True, m')" "sm_shape lib m'" "the_rid m' = the_rid m"
    "blocks m' = (blocks m)[b := Some (added t s buf n)]"
    "download_bytes m' = (download_bytes m + buffer_Length lib buf) mod 2 ^ 32"
    and full: "\<forall>c < block_count (the_rid m). HasFullBlock lib c m' = (if c = b then IsFull (added t s buf n) else HasFullBlock lib c m)"
    and n: "bn_mem_ok n" "total_subpiece_count n = cap (the_rid m) b" "index n = b" "\<not> has_key (subpieces n) s"
      "case blocks m ! b of None \<Rightarrow> subpieces n = [] \<and> \<not> need_write n \<and> node_state n = EMPTY | Some n' \<Rightarrow> n = n'"
    using spm_AddSubPiece_step [OF shape assms(2,3) nofull assms(5) slot, of t] by blast
  have missing: "has_key (subpieces n) i = (\<not> lacks lib m (b, i))" for i
    using n(5) nofull by (cases "blocks m ! b") (auto simp: lacks_def has_key_def)
  have "s < total_subpiece_count n" using assms(3) n(2) by simp
  note after = added_ok [OF n(1) this n(4), of t buf]
  let ?n = "added t s buf n"
  have "all_nodes (\<lambda>b n. bn_mem_ok n \<and> node_fits lib m' b n) m'"
  proof (rule all_nodes_put [OF nodes _ _ m'(4)])
    show "bn_mem_ok ?n \<and> node_fits lib m' b ?n" using after n full assms(2) by (simp add: node_fits_def m'(3))
    show "bn_mem_ok k \<and> node_fits lib m' c k" if "c \<noteq> b" "c < length (blocks m)" "bn_mem_ok k \<and> node_fits lib m c k" for c k
      using that full sh(3) by (simp add: node_fits_def m'(3))
  qed
  with m'(2) have "sm_mem_ok lib m'" by (simp add: sm_mem_ok_def)
  moreover have "lacks lib m' (c, i) = (lacks lib m (c, i) \<and> (c, i) \<noteq> (b, s))"
    if c: "c < block_count (the_rid m)" "i < cap (the_rid m) c" for c i
  proof (cases "c = b")
    case False
    with full c(1) show ?thesis by (simp add: lacks_def m'(4))
  next
    case True
    have "IsFull ?n \<Longrightarrow> has_key (subpieces ?n) i"
      using IsFull_mem [OF bn_mem_parts(1) [OF after(1)]] bn_mem_parts(2) [OF after(1)] c(2) True after(3) n(2)
      by (auto simp: IsFull_def)
    moreover have "has_key (subpieces ?n) i = (i = s \<or> has_key (subpieces n) i)" using after(2) by (auto simp: has_key_def)
    ultimately show ?thesis using True full c(1) missing [of i] b by (auto simp: lacks_def [of lib m'] m'(4))
  qed
  ultimately show ?thesis using m'(1,3,5) by blast
qed

section \<open>Requesting what is missing\<close>

text \<open>The client's side, as for a block: ask for the next missing subpiece of the file and add what was received.\<close>

definition file_request ::
    "('m, 'b, 'c, 'h) resource_lib \<Rightarrow> (nat \<times> nat \<Rightarrow> 'b) \<Rightarrow> u32 \<Rightarrow> ('m, 'b, 'h) resource_blocks \<Rightarrow>
     ('m, 'b, 'h) resource_blocks option" where
  "file_request lib f t m =
     (case spm_GetNextNullSubPiece lib (0, 0) m of
        Some (Inr (Some info)) \<Rightarrow>
          (case spm_AddSubPiece lib t info (f info) m of Inr (True, m') \<Rightarrow> Some m' | _ \<Rightarrow> None)
      | _ \<Rightarrow> None)"

definition all_infos :: "'h rid_info \<Rightarrow> (nat \<times> nat) list" where
  "all_infos r = concat (map (\<lambda>b. map (Pair b) [0..<cap r b]) [0..<block_count r])"

definition lacking :: "('m, 'b, 'c, 'h) resource_lib \<Rightarrow> ('m, 'b, 'h) resource_blocks \<Rightarrow> (nat \<times> nat) list" where
  "lacking lib m = filter (lacks lib m) (all_infos (the_rid m))"

lemma in_all_infos: "(b, s) \<in> set (all_infos r) \<longleftrightarrow> b < block_count r \<and> s < cap r b"
  by (force simp: all_infos_def)

lemma all_infos_distinct: "distinct (all_infos r)"
proof -
  have "distinct (concat (map (\<lambda>b. map (Pair b) [0..<cap r b]) bs))" if "distinct bs" for bs
    using that by (induction bs) (auto simp: distinct_map inj_on_def)
  then show ?thesis by (simp add: all_infos_def)
qed

lemma infos_from_0: "infos_from r (0, 0) bs = concat (map (\<lambda>b. map (Pair b) [0..<cap r b]) bs)"
  by (induction bs) (simp_all add: infos_from_def)

lemma next_of_file:
  assumes "sm_mem_ok lib m"
  shows "spm_GetNextNullSubPiece lib (0, 0) m = Some (Inr (find (lacks lib m) (all_infos (the_rid m))))"
proof -
  have shape: "sm_shape lib m" using assms by (simp add: sm_mem_ok_def)
  note sh = sm_shapeD [OF shape]
  have "spm_next_null lib m (0, 0) [0..<block_count (the_rid m)] =
      Some (Inr (find (lacks lib m) (infos_from (the_rid m) (0, 0) [0..<block_count (the_rid m)])))"
    by (rule next_lacking [OF assms]) (use cap_bounds(1) [OF sh(2)] in simp_all)
  then show ?thesis by (simp add: spm_GetNextNullSubPiece_def sh(3) infos_from_0 all_infos_def)
qed

lemma filter_minus_one:
  assumes "distinct xs" "x \<in> set xs" "P x" "\<And>y. y \<in> set xs \<Longrightarrow> Q y = (P y \<and> y \<noteq> x)"
  shows "filter Q xs = remove1 x (filter P xs)"
proof -
  have "filter Q xs = filter (\<lambda>y. P y \<and> y \<noteq> x) xs" by (rule filter_cong) (use assms(4) in simp_all)
  also have "\<dots> = removeAll x (filter P xs)" by (simp add: removeAll_filter_not_eq) (metis (no_types))
  also have "\<dots> = remove1 x (filter P xs)" using assms(1) by (simp add: distinct_remove1_removeAll)
  finally show ?thesis .
qed

text \<open>The bytes that are there and those that are missing add up to the same number all the time.\<close>

definition bytes_of :: "('m, 'b, 'c, 'h) resource_lib \<Rightarrow> (nat \<times> nat \<Rightarrow> 'b) \<Rightarrow> (nat \<times> nat) list \<Rightarrow> nat" where
  "bytes_of lib f infos = (\<Sum>info \<leftarrow> infos. buffer_Length lib (f info))"

definition file_inv ::
    "('m, 'b, 'c, 'h) resource_lib \<Rightarrow> (nat \<times> nat \<Rightarrow> 'b) \<Rightarrow> 'h rid_info \<Rightarrow> nat \<Rightarrow> ('m, 'b, 'h) resource_blocks \<Rightarrow> bool" where
  "file_inv lib f r k m =
     (sm_mem_ok lib m \<and> the_rid m = r \<and> (\<forall>info. buffer_IsValid lib (f info)) \<and>
      (download_bytes m + bytes_of lib f (lacking lib m)) mod 2 ^ 32 = k mod 2 ^ 32 \<and>
      (k < 2 ^ 32 \<longrightarrow> download_bytes m < 2 ^ 32))"

interpretation file_req: request_loop "file_request lib f t" "file_inv lib f r k" "\<lambda>m. length (lacking lib m)" for lib f t r k
proof
  fix m assume inv: "file_inv lib f r k m"
  then have ok: "sm_mem_ok lib m" "the_rid m = r" by (simp_all add: file_inv_def)
  note search = next_of_file [OF ok(1)]
  show "length (lacking lib m) = 0 \<Longrightarrow> file_request lib f t m = None"
  proof -
    assume "length (lacking lib m) = 0"
    then have "find (lacks lib m) (all_infos (the_rid m)) = None"
      by (auto simp: lacking_def find_None_iff filter_empty_conv)
    with search show ?thesis by (simp add: file_request_def)
  qed
  show "length (lacking lib m) \<noteq> 0 \<Longrightarrow> \<exists>m'. file_request lib f t m = Some m' \<and> file_inv lib f r k m' \<and>
      length (lacking lib m') = length (lacking lib m) - 1"
  proof -
    assume "length (lacking lib m) \<noteq> 0"
    then obtain b s where i: "find (lacks lib m) (all_infos (the_rid m)) = Some (b, s)"
      by (cases "find (lacks lib m) (all_infos (the_rid m))") (auto simp: lacking_def find_None_iff filter_empty_conv)
    then have "lacks lib m (b, s)" "(b, s) \<in> set (all_infos (the_rid m))" by (auto simp: find_Some_iff)
    then have l: "lacks lib m (b, s)" "b < block_count (the_rid m)" "s < cap (the_rid m) b" by (simp_all add: in_all_infos)
    obtain m' where m': "spm_AddSubPiece lib t (b, s) (f (b, s)) m = Inr (True, m')" "sm_mem_ok lib m'" "the_rid m' = the_rid m"
      "download_bytes m' = (download_bytes m + buffer_Length lib (f (b, s))) mod 2 ^ 32"
      "\<forall>c i. c < block_count (the_rid m) \<longrightarrow> i < cap (the_rid m) c \<longrightarrow> lacks lib m' (c, i) = (lacks lib m (c, i) \<and> (c, i) \<noteq> (b, s))"
      using spm_AddSubPiece_ok [OF ok(1) l(2,3,1), of "f (b, s)" t] inv by (auto simp: file_inv_def)
    have "lacking lib m' = remove1 (b, s) (lacking lib m)"
      unfolding lacking_def m'(3)
    proof (rule filter_minus_one [OF all_infos_distinct])
      show "(b, s) \<in> set (all_infos (the_rid m))" using l by (simp add: in_all_infos)
      show "lacks lib m' y = (lacks lib m y \<and> y \<noteq> (b, s))" if "y \<in> set (all_infos (the_rid m))" for y
      proof -
        obtain c i where y: "y = (c, i)" by (cases y)
        with that have "c < block_count (the_rid m)" "i < cap (the_rid m) c" by (simp_all add: in_all_infos)
        with m'(5) y show ?thesis by blast
      qed
    qed (rule l(1))
    moreover have in_lacking: "(b, s) \<in> set (lacking lib m)" using l by (simp add: lacking_def in_all_infos)
    ultimately have len: "length (lacking lib m') = length (lacking lib m) - 1"
      and bytes: "bytes_of lib f (lacking lib m) = buffer_Length lib (f (b, s)) + bytes_of lib f (lacking lib m')"
      by (simp_all add: length_remove1 bytes_of_def sum_list_map_remove1)
    have "(download_bytes m' + bytes_of lib f (lacking lib m')) mod 2 ^ 32 =
        (download_bytes m + bytes_of lib f (lacking lib m)) mod 2 ^ 32"
      unfolding m'(4) bytes by (metis add.assoc mod_add_left_eq)
    then have "file_inv lib f r k m'" using inv m'(2-4) by (simp add: file_inv_def)
    with m'(1) search i len show ?thesis by (simp add: file_request_def)
  qed
qed

section \<open>Sizes and positions\<close>

text \<open>The size of a subpiece: only the last one of the file may be shorter.\<close>

definition subpiece_bytes :: "'h rid_info \<Rightarrow> nat \<times> nat \<Rightarrow> nat" where
  "subpiece_bytes r info =
     (if info = (block_count r - 1, cap r (block_count r - 1) - 1) then (file_length r - 1) mod 1024 + 1 else 1024)"

lemma last_subpiece:
  assumes "rid_ok r"
  shows "(block_count r - 1) * block_size r + (cap r (block_count r - 1) - 1) * 1024 + ((file_length r - 1) mod 1024 + 1) = file_length r"
proof -
  let ?f = "file_length r - 1" and ?s = "block_size r"
  have f: "0 < file_length r" "1024 dvd ?s" using assms by (auto simp: rid_ok_def)
  have "?f mod ?s mod 1024 = ?f mod 1024" by (rule mod_mod_cancel [OF f(2)])
  then have "?f mod ?s = ?f mod ?s div 1024 * 1024 + ?f mod 1024" using div_mult_mod_eq [of "?f mod ?s" 1024] by simp
  moreover have "?f = ?f div ?s * ?s + ?f mod ?s" by simp
  moreover have c: "cap r (block_count r - 1) - 1 = ?f mod ?s div 1024" by (simp add: cap_def)
  moreover have l: "block_count r - 1 = ?f div ?s" using rid_ok_facts(2) [OF assms] by simp
  ultimately show ?thesis using f(1) unfolding c unfolding l by linarith
qed

lemma subpiece_in_file:
  assumes "rid_ok r" "b < block_count r" "s < cap r b"
  shows "b * block_size r + s * 1024 + subpiece_bytes r (b, s) \<le> file_length r"
    and "(b, s) \<noteq> (block_count r - 1, cap r (block_count r - 1) - 1) \<Longrightarrow> b * block_size r + s * 1024 + 1024 < file_length r"
proof -
  let ?l = "block_count r - 1"
  note last = last_subpiece [OF assms(1)]
  have less: "b * block_size r + s * 1024 + 1024 < file_length r" if other: "(b, s) \<noteq> (?l, cap r ?l - 1)"
  proof (cases "b = ?l")
    case True
    with other assms(3) have "s + 1 \<le> cap r ?l - 1" by auto
    then have "(s + 1) * 1024 \<le> (cap r ?l - 1) * 1024" by (rule mult_le_mono1)
    with last True show ?thesis by simp
  next
    case False
    with assms(2) have "b + 1 \<le> ?l" by simp
    then have "(b + 1) * block_size r \<le> ?l * block_size r" by (rule mult_le_mono1)
    moreover have "(s + 1) * 1024 \<le> block_size r"
    proof -
      have "s + 1 \<le> block_size r div 1024" using assms(3) cap_bounds(2) [OF assms(1), of b] by linarith
      then have "(s + 1) * 1024 \<le> block_size r div 1024 * 1024" by (rule mult_le_mono1)
      then show ?thesis using div_times_less_eq_dividend [of "block_size r" 1024] by linarith
    qed
    ultimately show ?thesis using rid_ok_facts(3) [OF assms(1)] by simp
  qed
  then show "(b, s) \<noteq> (?l, cap r ?l - 1) \<Longrightarrow> b * block_size r + s * 1024 + 1024 < file_length r" .
  show "b * block_size r + s * 1024 + subpiece_bytes r (b, s) \<le> file_length r"
  proof (cases "(b, s) = (?l, cap r ?l - 1)")
    case True
    with last show ?thesis by (simp add: subpiece_bytes_def)
  next
    case False
    with less show ?thesis by (auto simp: subpiece_bytes_def)
  qed
qed

lemma sum_subpieces: "(\<Sum>s \<leftarrow> [0..<k]. 1024) = k * (1024::nat)"
  by (induction k) auto

lemma all_bytes:
  assumes "rid_ok r"
  shows "(\<Sum>info \<leftarrow> all_infos r. subpiece_bytes r info) = file_length r"
proof -
  let ?l = "block_count r - 1"
  have c: "block_count r = Suc ?l" using rid_ok_facts(1) [OF assms] by simp
  have block: "(\<Sum>s \<leftarrow> [0..<cap r b]. subpiece_bytes r (b, s)) = block_size r" if "b < ?l" for b
  proof -
    have "(\<Sum>s \<leftarrow> [0..<cap r b]. subpiece_bytes r (b, s)) = (\<Sum>s \<leftarrow> [0..<cap r b]. 1024)"
      using that by (simp add: subpiece_bytes_def)
    also have "\<dots> = block_size r div 1024 * 1024" using that sum_subpieces [of "cap r b"] by (simp add: cap_def)
    also have "\<dots> = block_size r" using assms by (simp add: rid_ok_def mod_eq_0_iff_dvd)
    finally show ?thesis .
  qed
  have "(\<Sum>b \<leftarrow> [0..<k]. \<Sum>s \<leftarrow> [0..<cap r b]. subpiece_bytes r (b, s)) = k * block_size r" if "k \<le> ?l" for k
    using that by (induction k) (simp_all add: block)
  from this [of ?l] have front: "(\<Sum>b \<leftarrow> [0..<?l]. \<Sum>s \<leftarrow> [0..<cap r b]. subpiece_bytes r (b, s)) = ?l * block_size r" by simp
  define k where "k = cap r ?l - 1"
  have k: "cap r ?l = Suc k" using cap_bounds(1) [OF assms, of ?l] by (simp add: k_def)
  have "(\<Sum>s \<leftarrow> [0..<k]. subpiece_bytes r (?l, s)) = (\<Sum>s \<leftarrow> [0..<k]. 1024)"
    by (intro arg_cong [where f = sum_list] map_cong) (auto simp: subpiece_bytes_def k_def)
  moreover have "subpiece_bytes r (?l, k) = (file_length r - 1) mod 1024 + 1" by (simp add: subpiece_bytes_def k_def)
  ultimately have "(\<Sum>s \<leftarrow> [0..<cap r ?l]. subpiece_bytes r (?l, s)) = k * 1024 + ((file_length r - 1) mod 1024 + 1)"
    using sum_subpieces [of k] unfolding k by simp
  then have "(\<Sum>b \<leftarrow> [0..<Suc ?l]. \<Sum>s \<leftarrow> [0..<cap r b]. subpiece_bytes r (b, s)) = file_length r"
    using front last_subpiece [OF assms] by (simp add: k_def)
  moreover have "(\<Sum>info \<leftarrow> concat (map (\<lambda>b. map (Pair b) [0..<cap r b]) bs). subpiece_bytes r info) =
      (\<Sum>b \<leftarrow> bs. \<Sum>s \<leftarrow> [0..<cap r b]. subpiece_bytes r (b, s))" for bs
    by (induction bs) (simp_all add: comp_def)
  ultimately show ?thesis using c by (simp add: all_infos_def)
qed

section \<open>A new file\<close>

lemma cap_md5s [simp]: "cap (r\<lparr>block_md5_s := hs\<rparr>) b = cap r b"
  by (simp add: cap_def)

lemma all_infos_md5s [simp]: "all_infos (r\<lparr>block_md5_s := hs\<rparr>) = all_infos r"
  by (simp add: all_infos_def)

lemma rid_ok_md5s [simp]: "rid_ok (r\<lparr>block_md5_s := hs\<rparr>) = rid_ok r"
  by (simp add: rid_ok_def)

lemma spm_new_ok:
  fixes lib :: "('m, 'b, 'c, 'h) resource_lib"
  assumes "block_map_ok lib" "rid_ok r"
  shows "\<exists>m. spm_new lib verify r full = Inr m \<and> sm_mem_ok lib m \<and> the_rid m = r\<lparr>block_md5_s := block_md5_s (the_rid m)\<rparr> \<and>
    length (block_md5_s (the_rid m)) \<ge> block_count r \<and> blocks m = replicate (block_count r) None \<and> bm_bits lib (block_bit_map m) = replicate (block_count r) full \<and>
    download_bytes m = (if full then file_length r else 0) \<and> blocks_count m = (if full then block_count r else 0)"
proof -
  have pos: "0 < block_size r" "0 < file_length r" "0 < block_count r"
    using assms(2) rid_ok_facts(1) [OF assms(2)] by (simp_all add: rid_ok_def)
  let ?i = "dec32 (file_length r) mod block_size r div 1024"
  define hs where "hs = block_md5_s r @ replicate (block_count r - length (block_md5_s r)) (md5_empty lib)"
  define m where "m = \<lparr>the_rid = r\<lparr>block_md5_s := hs\<rparr>, file_subpieces = (file_length r + 1024 - 1) mod 2 ^ 32 div 1024,
    last_block_capacity = ?i + 1, last_subpiece_info = (dec32 (block_count r), ?i),
    last_subpiece_size = dec32 (file_length r) mod 1024 + 1, blocks = replicate (block_count r) (None :: 'b block_node option),
    block_bit_map = bm_SetAll lib full (bm_Create lib (block_count r)), blocks_count = (if full then block_count r else 0),
    download_bytes = (if full then file_length r else 0), md5_hash_failed = 0, need_verify_block = verify\<rparr>"
  have new: "spm_new lib verify r full = Inr m"
    using pos by (simp add: spm_new_def Let_def m_def hs_def bytes_num_per_subpiece_g_def)
  have dec: "dec32 (file_length r) = file_length r - 1" "dec32 (block_count r) = block_count r - 1"
    using pos by (simp_all add: dec32_def)
  have "sm_shape lib m"
    using assms pos by (simp add: sm_shape_def m_def dec block_map_facts(1) cap_def)
  moreover have "all_nodes P m" for P by (simp add: all_nodes_def m_def)
  ultimately have "sm_mem_ok lib m" by (simp add: sm_mem_ok_def)
  moreover have "the_rid m = r\<lparr>block_md5_s := block_md5_s (the_rid m)\<rparr>" "length (block_md5_s (the_rid m)) \<ge> block_count r" "blocks m = replicate (block_count r) None"
    "bm_bits lib (block_bit_map m) = replicate (block_count r) full"
    "download_bytes m = (if full then file_length r else 0)" "blocks_count m = (if full then block_count r else 0)"
    by (simp_all add: m_def hs_def block_map_facts(1) [OF assms(1)])
  ultimately show ?thesis using new by blast
qed

lemma nothing_lacking:
  assumes "sm_mem_ok lib m" "lacking lib m = []"
  shows "spm_IsFull lib m" "b < block_count (the_rid m) \<Longrightarrow> HasFullBlock lib b m"
proof -
  have shape: "sm_shape lib m" using assms(1) by (simp add: sm_mem_ok_def)
  note sh = sm_shapeD [OF shape]
  have full: "HasFullBlock lib b m" if b: "b < block_count (the_rid m)" for b
  proof (rule ccontr)
    assume no: "\<not> HasFullBlock lib b m"
    have here: "\<not> lacks lib m (b, s)" if "s < cap (the_rid m) b" for s
      using assms(2) b that by (auto simp: lacking_def filter_empty_conv in_all_infos)
    obtain n where n: "blocks m ! b = Some n"
      using here [OF cap_bounds(1) [OF sh(2)]] no by (cases "blocks m ! b") (auto simp: lacks_def)
    with assms(1) b sh(3) have fit: "bn_mem_ok n" "total_subpiece_count n = cap (the_rid m) b" "HasFullBlock lib b m = IsFull n"
      by (auto simp: sm_mem_ok_def node_fits_def dest: all_nodesD)
    have "\<forall>i < total_subpiece_count n. has_key (subpieces n) i" using here no n fit(2) by (auto simp: lacks_def)
    then have "IsFull n" using IsFull_mem [OF bn_mem_parts(1) [OF fit(1)]] by (simp add: IsFull_def)
    with no fit(3) show False by simp
  qed
  then show "b < block_count (the_rid m) \<Longrightarrow> HasFullBlock lib b m" .
  have "bm_bits lib (block_bit_map m) ! b" if "b < block_count (the_rid m)" for b
    using full [OF that] that has_full_bit [OF sh(1), of b m] unfolding sh(4) by blast
  then show "spm_IsFull lib m" using sh(4) by (simp add: spm_IsFull_def block_map_facts(3) [OF sh(1)] list_all_length)
qed

section \<open>Positions and subpieces\<close>

lemma position_info:
  assumes "rid_ok r" "position < file_length r"
  defines "b \<equiv> position div block_size r" and "s \<equiv> position mod block_size r div 1024"
  shows "b < block_count r" "s < cap r b" "b * block_size r + s * 1024 \<le> position" "position < b * block_size r + s * 1024 + subpiece_bytes r (b, s)"
proof -
  let ?s = "block_size r"
  have r: "0 < ?s" "?s mod 1024 = 0" using assms(1) by (simp_all add: rid_ok_def)
  have count: "block_count r - 1 = (file_length r - 1) div ?s" "0 < block_count r"
    using rid_ok_facts(1,2) [OF assms(1)] by simp_all
  have p: "position \<le> file_length r - 1" using assms(2) by simp
  then have "b \<le> block_count r - 1" unfolding b_def count(1) by (rule div_le_mono)
  then show b: "b < block_count r" using count(2) by simp
  show s: "s < cap r b"
  proof (cases "b = block_count r - 1")
    case True
    then have "position div ?s = (file_length r - 1) div ?s" using count(1) by (simp add: b_def)
    with p have "position mod ?s \<le> (file_length r - 1) mod ?s"
      unfolding minus_div_mult_eq_mod [symmetric] by (simp only: diff_le_mono)
    then show ?thesis using True div_le_mono [of "position mod ?s" "(file_length r - 1) mod ?s" 1024] by (simp add: cap_def s_def)
  next
    case False
    have "position mod ?s < ?s div 1024 * 1024" using r by (simp add: mod_eq_0_iff_dvd)
    then show ?thesis using False by (simp add: cap_def s_def div_less_iff_less_mult)
  qed
  have split: "position = b * ?s + position mod ?s" by (simp add: b_def)
  have sub: "s * 1024 \<le> position mod ?s" "position mod ?s < s * 1024 + 1024"
    using div_times_less_eq_dividend [of "position mod ?s" 1024] dividend_less_div_times [of 1024 "position mod ?s"]
    by (simp_all add: s_def)
  then show "b * ?s + s * 1024 \<le> position" using split by linarith
  show "position < b * ?s + s * 1024 + subpiece_bytes r (b, s)"
  proof (cases "(b, s) = (block_count r - 1, cap r (block_count r - 1) - 1)")
    case True
    then show ?thesis using last_subpiece [OF assms(1)] assms(2) by (simp add: subpiece_bytes_def)
  next
    case False
    then have "subpiece_bytes r (b, s) = 1024" by (simp only: subpiece_bytes_def if_False)
    with split sub show ?thesis by linarith
  qed
qed

lemma subpiece_position:
  assumes "sm_shape lib m" "b < block_count (the_rid m)" "s < cap (the_rid m) b"
  shows "SubPieceInfoToPosition (b, s) m = b * block_size (the_rid m) + s * 1024"
    and "GetSubPiecePosition lib (b, s) m = Inr (b * block_size (the_rid m) + s * 1024, subpiece_bytes (the_rid m) (b, s))"
proof -
  let ?r = "the_rid m"
  note sh = sm_shapeD [OF assms(1)]
  note inside = subpiece_in_file(1) [OF sh(2) assms(2,3)]
  have f: "0 < file_length ?r" "file_length ?r < 2 ^ 32" using sh(2) by (simp_all add: rid_ok_def)
  have pos: "0 < subpiece_bytes ?r (b, s)" by (simp add: subpiece_bytes_def)
  then show p: "SubPieceInfoToPosition (b, s) m = b * block_size ?r + s * 1024"
    using inside f by (simp add: SubPieceInfoToPosition_def bytes_num_per_subpiece_g_def)
  have "b < block_count ?r - 1 \<or> b = block_count ?r - 1 \<and> s \<le> snd (last_subpiece_info m)"
    using assms(2,3) sh(6) by (cases "b = block_count ?r - 1") (simp_all flip: sh(6))
  then have le: "info_le lib (b, s) (last_subpiece_info m)" using sh(5) by (simp add: info_le_eq [OF sh(1)])
  have last: "last_subpiece_info m = (block_count ?r - 1, cap ?r (block_count ?r - 1) - 1)"
    using sh(5,6) by (simp add: prod_eq_iff flip: sh(6))
  have len: "(if (b, s) = last_subpiece_info m then dec32 (file_length ?r) mod 1024 + 1 else 1024) = subpiece_bytes ?r (b, s)"
    using f by (simp only: last subpiece_bytes_def dec32_def) simp
  have "(b * block_size ?r + s * 1024 + subpiece_bytes ?r (b, s)) mod 2 ^ 32 \<le> file_length ?r" using inside f by simp
  then show "GetSubPiecePosition lib (b, s) m = Inr (b * block_size ?r + s * 1024, subpiece_bytes ?r (b, s))"
    by (simp only: GetSubPiecePosition_def Let_def bytes_num_per_subpiece_g_def len p le if_True not_True_eq_False if_False)
qed

lemma next_position:
  assumes "sm_shape lib m" "b < block_count (the_rid m)" "s < cap (the_rid m) b"
    and "block_count (the_rid m) * block_size (the_rid m) < 2 ^ 32"
  defines "q \<equiv> b * block_size (the_rid m) + s * 1024 + 1024"
  shows "\<exists>info. IncSubPieceInfo (b, s) m = (q < file_length (the_rid m), info) \<and>
    (q < file_length (the_rid m) \<longrightarrow> PosToSubPieceInfo q m = Inr (Some info))"
proof -
  let ?r = "the_rid m" and ?s = "block_size (the_rid m)"
  note sh = sm_shapeD [OF assms(1)]
  obtain k where k: "?s = k * 1024" "0 < k" using sh(2) by (auto simp: rid_ok_def mod_eq_0_iff_dvd dvd_def mult.commute)
  have s: "s < k" using assms(3) cap_bounds(2) [OF sh(2), of b] k(1) by simp
  have "(s + 1) * 1024 \<le> ?s" using s k(1) by simp
  moreover have "(b + 1) * ?s \<le> block_count ?r * ?s" using assms(2) by (intro mult_le_mono1) simp
  ultimately have q: "q < 2 ^ 32" using assms(4) by (simp add: q_def)
  show ?thesis
  proof (cases "s = k - 1")
    case True
    then have q_eq: "q = (b + 1) * ?s" using k by (simp add: q_def add_mult_distrib diff_mult_distrib)
    then have "IncSubPieceInfo (b, s) m = (q < file_length ?r, (b + 1, 0))"
      using True k q by (simp add: IncSubPieceInfo_def SubPieceInfoToPosition_def Let_def bytes_num_per_subpiece_g_def dec32_def)
    moreover have "PosToSubPieceInfo q m = Inr (Some (b + 1, 0))" if "q < file_length ?r"
      using that k q_eq by (simp add: PosToSubPieceInfo_def Let_def del: mult_Suc)
    ultimately show ?thesis by blast
  next
    case False
    then have s1: "(s + 1) * 1024 < ?s" using s k by simp
    have q_eq: "q = b * ?s + (s + 1) * 1024" by (simp add: q_def)
    then have "IncSubPieceInfo (b, s) m = (q < file_length ?r, (b, s + 1))"
      using False k q by (simp add: IncSubPieceInfo_def SubPieceInfoToPosition_def Let_def bytes_num_per_subpiece_g_def dec32_def)
    moreover have "q div ?s = b" "q mod ?s = (s + 1) * 1024" using s1 by (simp_all add: q_eq)
    then have "PosToSubPieceInfo q m = Inr (Some (b, s + 1))" if "q < file_length ?r"
      using that k by (simp add: PosToSubPieceInfo_def Let_def bytes_num_per_subpiece_g_def)
    ultimately show ?thesis by blast
  qed
qed

section \<open>Clearing a block in memory\<close>

text \<open>Clearing keeps the counters of a block in memory right.\<close>

lemma bn_mem_ok_access [simp]: "bn_mem_ok (n\<lparr>access_counter := t\<rparr>) = bn_mem_ok n"
  by (simp add: bn_mem_ok_def bn_shape_def IsBlockSavedOnDisk_def count_in_piece_def)

lemma removeAll_count:
  assumes "distinct ks" "i \<in> set ks"
  shows "length (filter P (removeAll i ks)) = length (filter P ks) - (if P i then 1 else 0)"
proof -
  have "filter P (removeAll i ks) = remove1 i (filter P ks)"
    using assms(1) by (simp add: distinct_remove1_removeAll removeAll_filter_not_eq filter_filter conj_commute)
  then show ?thesis using assms(2) by (simp add: length_remove1)
qed

lemma erase_subpiece_mem:
  assumes "bn_mem_ok n" "has_key (subpieces n) i"
  shows "\<exists>n'. erase_subpiece i n = Inr n' \<and> bn_mem_ok n' \<and> keys n' = removeAll i (keys n) \<and>
    total_subpiece_count n' = total_subpiece_count n \<and> index n' = index n \<and> node_state n' = node_state n"
proof -
  note ok = bn_mem_parts [OF assms(1)]
  have key: "i \<in> set (keys n)" "distinct (keys n)" using assms(2) ok(1) by (simp_all add: has_key_iff bn_shape_def)
  then have "i < total_subpiece_count n" using ok(1) by (auto simp: bn_shape_def list_all_iff)
  then have p: "i div 128 < length (piece_count n)" by (rule piece_of_subpiece [OF ok(1)])
  define n' where "n' = n\<lparr>subpieces := AList.delete i (subpieces n),
    piece_count := (piece_count n)[i div 128 := dec32 (piece_count n ! (i div 128))]\<rparr>"
  have f: "keys n' = removeAll i (keys n)" "total_subpiece_count n' = total_subpiece_count n" "index n' = index n"
    "node_state n' = node_state n" "last_piece_capacity n' = last_piece_capacity n"
    "piece_count n' = (piece_count n)[i div 128 := dec32 (piece_count n ! (i div 128))]"
    by (simp_all add: n'_def keys_delete)
  have c: "count_in_piece q n' = count_in_piece q n - (if i div 128 = q then 1 else 0)" for q
    unfolding count_in_piece_def f(1) using removeAll_count [OF key(2,1), of "\<lambda>j. j div 128 = q"] by simp
  have pos: "0 < count_in_piece (i div 128) n"
    unfolding count_in_piece_def using key(1) by (auto simp: filter_empty_conv)
  have "erase_subpiece i n = Inr n'"
    using p ok(2) by (simp add: erase_subpiece_def n'_def IsBlockSavedOnDisk_def Let_def)
  moreover have "bn_shape n'" using ok(1) key by (auto simp: bn_shape_def f distinct_removeAll list_all_iff)
  moreover have "piece_count n' ! q = count_in_piece q n'" if "q < length (piece_count n')" for q
    using that ok(3) pos by (auto simp: f(6) c dec32_def nth_list_update)
  ultimately show ?thesis
    using ok(2) f by (auto simp: bn_mem_ok_def list_all_length IsBlockSavedOnDisk_def)
qed

lemma clear_from_mem:
  "bn_mem_ok n \<Longrightarrow> \<exists>n'. clear_from play i n = Inr n' \<and> bn_mem_ok n' \<and> set (keys n') \<subseteq> set (keys n) \<and>
     total_subpiece_count n' = total_subpiece_count n \<and> index n' = index n \<and> node_state n' = node_state n"
proof (induction play i n rule: clear_from.induct)
  case (1 play i n)
  show ?case
  proof (cases "i \<le> play \<and> i < length (subpieces n)")
    case False
    with "1.prems" show ?thesis by (subst clear_from.simps) auto
  next
    case go: True
    show ?thesis
    proof (cases "has_key (subpieces n) i")
      case False
      with go "1.IH"(1) [OF go False "1.prems"] show ?thesis by (subst clear_from.simps) simp
    next
      case True
      obtain m where m: "erase_subpiece i n = Inr m" "bn_mem_ok m" "keys m = removeAll i (keys n)"
        "total_subpiece_count m = total_subpiece_count n" "index m = index n" "node_state m = node_state n"
        using erase_subpiece_mem [OF "1.prems" True] by blast
      from "1.IH"(2) [OF go _ m(1,2)] True obtain n' where
        "clear_from play (i + 1) m = Inr n'" "bn_mem_ok n'" "set (keys n') \<subseteq> set (keys m)"
        "total_subpiece_count n' = total_subpiece_count m" "index n' = index m" "node_state n' = node_state m" by auto
      with go True m show ?thesis by (subst clear_from.simps) auto
    qed
  qed
qed

lemma ClearBlockMemCache_mem:
  assumes "bn_mem_ok n"
  shows "\<exists>n'. ClearBlockMemCache t play n = Inr n' \<and> bn_mem_ok n' \<and> set (keys n') \<subseteq> set (keys n) \<and>
     total_subpiece_count n' = total_subpiece_count n \<and> index n' = index n"
proof -
  obtain n' where n': "clear_from play 0 (n\<lparr>access_counter := t\<rparr>) = Inr n'" "bn_mem_ok n'" "set (keys n') \<subseteq> set (keys n)"
    "total_subpiece_count n' = total_subpiece_count n" "index n' = index n"
    using clear_from_mem [of "n\<lparr>access_counter := t\<rparr>" play 0] assms by auto
  moreover have "node_state n' \<noteq> ALL_STATE" using bn_mem_parts(2) [OF n'(2)] by (auto simp: IsBlockSavedOnDisk_def)
  ultimately show ?thesis by (simp add: ClearBlockMemCache_def)
qed

section \<open>Reclaiming memory without a disk\<close>

lemma sm_mem_put:
  assumes "sm_shape lib m" "all_nodes (\<lambda>b n. bn_mem_ok n \<and> node_fits lib m b n) m" "b < block_count (the_rid m)"
    and "bn_mem_ok n" "total_subpiece_count n = cap (the_rid m) b" "index n = b" "IsFull n \<Longrightarrow> HasFullBlock lib b m"
    and "slot = None \<or> slot = Some n"
  defines "m' \<equiv> put_block b slot (if HasFullBlock lib b m \<and> \<not> IsFull n
                 then m\<lparr>block_bit_map := bm_Reset lib b (block_bit_map m)\<rparr> else m)"
  shows "sm_mem_ok lib m'" "the_rid m' = the_rid m"
    "c < block_count (the_rid m) \<Longrightarrow> HasFullBlock lib c m' = (if c = b then IsFull n else HasFullBlock lib c m)"
    "blocks m' = (blocks m)[b := slot]"
proof -
  note sh = sm_shapeD [OF assms(1)]
  show f: "the_rid m' = the_rid m" "blocks m' = (blocks m)[b := slot]" by (simp_all add: m'_def)
  have g: "last_subpiece_info m' = last_subpiece_info m" "last_block_capacity m' = last_block_capacity m"
    "last_subpiece_size m' = last_subpiece_size m"
    "length (bm_bits lib (block_bit_map m')) = length (bm_bits lib (block_bit_map m))"
    using sh(1) by (simp_all add: m'_def)
  have full: "HasFullBlock lib c m' = (if c = b then IsFull n else HasFullBlock lib c m)" if "c < block_count (the_rid m)" for c
    using that sh(4) assms(7) has_full_set(2) [OF sh(1), of c "block_bit_map m" b]
    by (cases "c = b") (auto simp: HasFullBlock_def m'_def)
  then show "c < block_count (the_rid m) \<Longrightarrow> HasFullBlock lib c m' = (if c = b then IsFull n else HasFullBlock lib c m)" .
  have "all_nodes (\<lambda>b n. bn_mem_ok n \<and> node_fits lib m' b n) m'"
    unfolding all_nodes_def
  proof (intro allI impI)
    fix c k assume c: "c < length (blocks m')" "blocks m' ! c = Some k"
    show "bn_mem_ok k \<and> node_fits lib m' c k"
    proof (cases "c = b")
      case True
      with c f(2) assms(8) have "k = n" by auto
      with assms(3-6) True full show ?thesis by (simp add: node_fits_def f)
    next
      case False
      with c f(2) have "blocks m ! c = Some k" "c < length (blocks m)" by simp_all
      with all_nodesD [OF assms(2)] full False sh(3) show ?thesis by (auto simp: node_fits_def f)
    qed
  qed
  moreover have "sm_shape lib m'" using assms(1) unfolding sm_shape_def f g by simp
  ultimately show "sm_mem_ok lib m'" by (simp add: sm_mem_ok_def)
qed

lemma clear_block_ok:
  assumes "sm_shape lib m" "all_nodes (\<lambda>b n. bn_mem_ok n \<and> node_fits lib m b n) m" "b < block_count (the_rid m)"
    and "bn_mem_ok n" "total_subpiece_count n = cap (the_rid m) b" "index n = b" "HasFullBlock lib b m = IsFull n"
    and "blocks m ! b = Some n0" "subpieces n0 = subpieces n"
  shows "\<exists>m'. clear_block lib t b n m = Inr m' \<and> sm_mem_ok lib m' \<and> the_rid m' = the_rid m \<and>
    (\<forall>c i. c < block_count (the_rid m) \<longrightarrow> i < cap (the_rid m) c \<longrightarrow> lacks lib m (c, i) \<longrightarrow> lacks lib m' (c, i))"
proof -
  note sh = sm_shapeD [OF assms(1)]
  obtain n' where n': "ClearBlockMemCache t (block_size (the_rid m) div bytes_num_per_subpiece_g) n = Inr n'" "bn_mem_ok n'"
    "set (keys n') \<subseteq> set (keys n)" "total_subpiece_count n' = total_subpiece_count n" "index n' = index n"
    using ClearBlockMemCache_mem [OF assms(4)] by blast
  have nofull: "\<not> IsBlockSavedOnDisk n'" "\<not> IsBlockSavedOnDisk n" using bn_mem_parts(2) assms(4) n'(2) by blast+
  have isfull: "IsFull k \<longleftrightarrow> (\<forall>i < total_subpiece_count k. has_key (subpieces k) i)" if "bn_mem_ok k" for k :: "'b block_node"
    using bn_mem_parts [OF that] IsFull_mem [of k] by (simp add: IsFull_def)
  have "IsFull n' \<Longrightarrow> IsFull n"
    using isfull [OF n'(2)] isfull [OF assms(4)] n'(3,4) unfolding has_key_iff by auto
  then have less: "IsFull n' \<Longrightarrow> HasFullBlock lib b m" using assms(7) by simp
  let ?slot = "if IsEmpty n' then None else Some n'"
  let ?m = "put_block b ?slot (if HasFullBlock lib b m \<and> \<not> IsFull n'
                 then m\<lparr>block_bit_map := bm_Reset lib b (block_bit_map m)\<rparr> else m)"
  have slot: "?slot = None \<or> ?slot = Some n'" by simp
  define m' where "m' = ?m"
  note put = sm_mem_put [OF assms(1-3) n'(2) n'(4) [THEN trans, OF assms(5)] n'(5) [THEN trans, OF assms(6)] less slot, folded m'_def]
  have full: "HasFullBlock lib c m' = (if c = b then IsFull n' else HasFullBlock lib c m)" if "c < block_count (the_rid m)" for c
    using put(3) that by blast
  have blocks': "blocks m' = (blocks m)[b := ?slot]" by (simp add: m'_def)
  have "lacks lib m' (c, i)" if c: "c < block_count (the_rid m)" "i < cap (the_rid m) c" "lacks lib m (c, i)" for c i
  proof (cases "c = b")
    case False
    with c full [OF c(1)] show ?thesis by (simp add: lacks_def blocks')
  next
    case True
    with c(3) assms(8,9) have "\<not> HasFullBlock lib b m" "\<not> has_key (subpieces n) i" by (simp_all add: lacks_def)
    then have "\<not> IsFull n'" "\<not> has_key (subpieces n') i" using less n'(3) by (auto simp: has_key_iff)
    moreover have "blocks m' ! b = ?slot" unfolding blocks' using sh(3) assms(3) by simp
    ultimately show ?thesis using True full [OF c(1)] by (simp add: lacks_def)
  qed
  moreover have "clear_block lib t b n m = Inr m'" using n'(1) by (simp add: clear_block_def Let_def m'_def)
  ultimately show ?thesis using put(1,2) by blast
qed

lemma GetBufferForSave_mem:
  assumes "bn_mem_ok n" "NeedWrite n" "IsFull n"
  shows "\<exists>bufs n1. GetBufferForSave n = Inr (bufs, n1) \<and> bn_mem_ok n1 \<and> subpieces n1 = subpieces n \<and>
    total_subpiece_count n1 = total_subpiece_count n \<and> index n1 = index n \<and> IsFull n1"
proof -
  note ok = bn_mem_parts [OF assms(1)]
  have len: "length (subpieces n) = total_subpiece_count n" using assms(3) ok(2) by (simp add: IsFull_def)
  then have keys: "list_all (has_key (subpieces n)) [0..<length (subpieces n)]"
    using IsFull_mem [OF ok(1)] by (simp add: list_all_iff)
  have same: "bn_mem_ok (n\<lparr>need_write := False, node_state := st\<rparr>)" if "st \<notin> {ALL_STATE, DISK, READING}" for st
    using assms(1) that unfolding bn_mem_ok_def bn_shape_def count_in_piece_def IsBlockSavedOnDisk_def by auto
  have "bn_mem_ok (n\<lparr>need_write := False\<rparr>)"
    using assms(1) unfolding bn_mem_ok_def bn_shape_def count_in_piece_def IsBlockSavedOnDisk_def by auto
  with same [of SAVING] assms(2,3) ok(2) keys len show ?thesis
    by (cases "node_state n") (simp_all add: GetBufferForSave_def Let_def NeedWrite_def IsFull_def IsBlockSavedOnDisk_def)
qed

lemma evict_without_disk_ok:
  assumes "sm_mem_ok lib m" "b < block_count (the_rid m)" "block_count (the_rid m) \<le> length (block_md5_s (the_rid m))"
  shows "\<exists>m'. RemoveBlockDataFromMemCache False lib t b m = Inr (None, m') \<and> sm_mem_ok lib m' \<and> the_rid m' = the_rid m \<and>
    (\<forall>c i. c < block_count (the_rid m) \<longrightarrow> i < cap (the_rid m) c \<longrightarrow> lacks lib m (c, i) \<longrightarrow> lacks lib m' (c, i))"
proof (cases "blocks m ! b")
  case None
  with assms show ?thesis by (auto simp: RemoveBlockDataFromMemCache_def get_block_def sm_mem_ok_def sm_shape_def)
next
  case (Some n)
  have shape: "sm_shape lib m" and nodes: "all_nodes (\<lambda>b n. bn_mem_ok n \<and> node_fits lib m b n) m"
    using assms(1) by (simp_all add: sm_mem_ok_def)
  note sh = sm_shapeD [OF shape]
  have b: "b < length (blocks m)" using assms(2) sh(3) by simp
  from all_nodesD [OF nodes b Some] have n: "bn_mem_ok n" "total_subpiece_count n = cap (the_rid m) b" "index n = b"
    "HasFullBlock lib b m = IsFull n" by (simp_all add: node_fits_def)
  have start: "RemoveBlockDataFromMemCache False lib t b m = and_then (evict_without_disk lib t b n m) (\<lambda>m1. Inr (None, m1))"
    using b Some by (simp add: RemoveBlockDataFromMemCache_def get_block_def)
  show ?thesis
  proof (cases "need_verify_block m")
    case False
    with clear_block_ok [OF shape nodes assms(2) n Some refl, of t] start show ?thesis
      by (auto simp: evict_without_disk_def)
  next
    case verify: True
    show ?thesis
    proof (cases "NeedWrite n \<and> IsFull n")
      case False
      with verify start assms(1) show ?thesis by (auto simp: evict_without_disk_def)
    next
      case True
      then obtain bufs n1 where g: "GetBufferForSave n = Inr (bufs, n1)" "bn_mem_ok n1" "subpieces n1 = subpieces n"
        "total_subpiece_count n1 = total_subpiece_count n" "index n1 = index n" "IsFull n1"
        using GetBufferForSave_mem [OF n(1)] by blast
      note fits = g(4) [THEN trans, OF n(2)] g(5) [THEN trans, OF n(3)]
      have full: "HasFullBlock lib b m = IsFull n1" using n(4) True g(6) by simp
      show ?thesis
      proof (cases "bufs = [] \<or> length bufs \<noteq> GetBlockSubPieceCount b m")
        case bad: True
        then have "evict_without_disk lib t b n m = Inr (put_block b (Some n1) m)"
          using verify True g(1) by (simp add: evict_without_disk_def)
        moreover note put = sm_mem_put [OF shape nodes assms(2) g(2) fits, of "Some n1"]
        have "sm_mem_ok lib (put_block b (Some n1) m)" using put(1) g(6) full by simp
        moreover have "lacks lib (put_block b (Some n1) m) (c, i) = lacks lib m (c, i)" for c i
          using Some g(3) b by (cases "c = b") (simp_all add: lacks_def)
        ultimately show ?thesis using start by simp
      next
        case False
        define m1 where "m1 = (if block_md5_s (the_rid m) ! b \<noteq> md5_of_buffers lib (map snd bufs)
             then m\<lparr>md5_hash_failed := md5_hash_failed m + 1\<rparr> else m)"
        have same: "the_rid m1 = the_rid m" "blocks m1 = blocks m" "block_bit_map m1 = block_bit_map m"
          "HasFullBlock lib c m1 = HasFullBlock lib c m" "lacks lib m1 x = lacks lib m x" for c x
          by (simp_all add: m1_def HasFullBlock_def lacks_def)
        have "sm_shape lib m1" using shape by (simp add: m1_def sm_shape_def)
        moreover have "all_nodes (\<lambda>b n. bn_mem_ok n \<and> node_fits lib m1 b n) m1"
          using nodes by (simp add: all_nodes_def node_fits_def same)
        ultimately have "\<exists>m'. clear_block lib t b n1 m1 = Inr m' \<and> sm_mem_ok lib m' \<and> the_rid m' = the_rid m1 \<and>
          (\<forall>c i. c < block_count (the_rid m1) \<longrightarrow> i < cap (the_rid m1) c \<longrightarrow> lacks lib m1 (c, i) \<longrightarrow> lacks lib m' (c, i))"
          by (rule clear_block_ok [where ?n0.0 = n]) (use assms(2) fits g(2,3) full Some in \<open>simp_all add: same\<close>)
        moreover have "evict_without_disk lib t b n m = clear_block lib t b n1 m1"
          using verify True g(1) False assms(2,3) by (simp add: evict_without_disk_def m1_def)
        ultimately show ?thesis using start by (auto simp: same)
      qed
    qed
  qed
qed

section \<open>Examples\<close>

text \<open>A bit map that is a list; a buffer is its length.\<close>

definition sample_rlib :: "(bool list, nat, unit, nat) resource_lib" where
  "sample_rlib =
     \<lparr>bm_Create = (\<lambda>n. replicate n False), bm_SetAll = (\<lambda>b. map (\<lambda>_. b)), bm_HasBlock = (\<lambda>m i. i < length m \<and> m ! i),
      bm_Set = (\<lambda>i m. m[i := True]), bm_Reset = (\<lambda>i m. m[i := False]), bm_IsFull = list_all (\<lambda>b. b),
      bm_GetCount = (\<lambda>m. length (filter (\<lambda>b. b) m)), bm_bits = (\<lambda>m. m),
      info_le = (\<lambda>a b. fst a < fst b \<or> fst a = fst b \<and> snd a \<le> snd b),
      buffer_IsValid = (\<lambda>n. 0 < n \<and> n \<le> 1024), buffer_Length = (\<lambda>n. n), buffer_of = (\<lambda>_ n. n),
      md5_of_buffers = (\<lambda>ns. sum_list ns + 1), rid_of_md5s = (\<lambda>hs. sum_list hs + 1), md5_is_empty = (\<lambda>h. h = 0), md5_empty = 0\<rparr>"

lemma sample_rlib_ok: "block_map_ok sample_rlib"
  by (auto simp: block_map_ok_def sample_rlib_def map_replicate_const)

definition sample_file :: "nat rid_info" where
  "sample_file = \<lparr>file_length = 5000, block_size = 2048, block_count = 3, block_md5_s = [], rid = 0\<rparr>"

lemma sample_file_ok: "rid_ok sample_file"
  by (simp add: rid_ok_def sample_file_def)

text \<open>The first two blocks have two subpieces, the last has one, of 904 bytes.\<close>

lemma sample_cap: "cap sample_file b = (if b = 2 then 1 else 2)"
  by (simp add: cap_def sample_file_def)

lemma sample_infos: "all_infos sample_file = [(0, 0), (0, 1), (1, 0), (1, 1), (2, 0)]"
  by (simp add: all_infos_def sample_cap) (simp add: sample_file_def upt_rec numeral_2_eq_2)

definition sample_new :: "(bool list, nat, nat) resource_blocks" where
  "sample_new = projr (spm_new sample_rlib False sample_file False)"

lemma sample_new_ok:
  "spm_new sample_rlib False sample_file False = Inr sample_new" "sm_mem_ok sample_rlib sample_new"
  "blocks sample_new = replicate 3 None" "b < 3 \<Longrightarrow> HasFullBlock sample_rlib b sample_new = False"
  and sample_new_rid: "cap (the_rid sample_new) b = (if b = 2 then 1 else 2)" "block_count (the_rid sample_new) = 3"
  "block_size (the_rid sample_new) = 2048" "file_length (the_rid sample_new) = 5000" "3 \<le> length (block_md5_s (the_rid sample_new))"
proof -
  from spm_new_ok [OF sample_rlib_ok sample_file_ok, of False False] obtain m where
    m: "spm_new sample_rlib False sample_file False = Inr m" "sm_mem_ok sample_rlib m"
      "the_rid m = sample_file\<lparr>block_md5_s := block_md5_s (the_rid m)\<rparr>" "block_count sample_file \<le> length (block_md5_s (the_rid m))"
      "blocks m = replicate (block_count sample_file) None"
      "bm_bits sample_rlib (block_bit_map m) = replicate (block_count sample_file) False" by blast
  then have new: "sample_new = m" by (simp add: sample_new_def)
  have c: "block_count sample_file = 3" by (simp add: sample_file_def)
  show "spm_new sample_rlib False sample_file False = Inr sample_new" "sm_mem_ok sample_rlib sample_new"
    "blocks sample_new = replicate 3 None" "3 \<le> length (block_md5_s (the_rid sample_new))"
    using m c by (simp_all add: new)
  show "b < 3 \<Longrightarrow> HasFullBlock sample_rlib b sample_new = False"
    using m(6) c has_full_bit [OF sample_rlib_ok, of b m] by (simp add: new)
  show "cap (the_rid sample_new) b = (if b = 2 then 1 else 2)"
    unfolding new by (subst m(3), simp only: cap_md5s sample_cap)
  show "block_count (the_rid sample_new) = 3" "block_size (the_rid sample_new) = 2048" "file_length (the_rid sample_new) = 5000"
    unfolding new by (subst m(3), simp add: sample_file_def)+
qed

section \<open>Properties\<close>



text \<open>C4: Downloading completes the file.  When the next missing subpiece of a new file is requested and added as often as the
  file has subpieces, the bit map is full, every subpiece of the file is reported as present, none is missing, and the
  downloaded bytes are the length of the file.\<close>

theorem requests_complete_file:
  assumes "block_map_ok lib" "rid_ok r"
    and "\<forall>info. buffer_IsValid lib (f info)" "\<forall>info \<in> set (all_infos r). buffer_Length lib (f info) = subpiece_bytes r info"
  shows "\<exists>m0 m. spm_new lib verify r False = Inr m0 \<and> m = iterate_step (file_request lib f t) (length (all_infos r)) m0 \<and>
    spm_IsFull lib m \<and> (\<forall>info \<in> set (all_infos r). spm_HasSubPiece lib info m = Inr True) \<and>
    spm_GetNextNullSubPiece lib (0, 0) m = Some (Inr None) \<and> download_bytes m = file_length r"
proof -
  obtain m0 where m0: "spm_new lib verify r False = Inr m0" "sm_mem_ok lib m0" "the_rid m0 = r\<lparr>block_md5_s := block_md5_s (the_rid m0)\<rparr>"
    "blocks m0 = replicate (block_count r) None" "bm_bits lib (block_bit_map m0) = replicate (block_count r) False" "download_bytes m0 = 0"
    using spm_new_ok [OF assms(1,2), of verify False] by auto
  have infos: "all_infos (the_rid m0) = all_infos r" by (subst m0(3)) simp
  have "lacks lib m0 info" if "info \<in> set (all_infos r)" for info
  proof -
    obtain b s where info: "info = (b, s)" by (rule prod.exhaust)
    with that have "b < block_count r" by (simp add: in_all_infos)
    with info m0(4,5) has_full_bit [OF assms(1), of b m0] show ?thesis by (simp add: lacks_def)
  qed
  then have all: "lacking lib m0 = all_infos r" by (simp add: lacking_def infos)
  have "bytes_of lib f (all_infos r) = file_length r"
    using assms(4) all_bytes [OF assms(2)] by (simp add: bytes_of_def cong: map_cong)
  then have "file_inv lib f (the_rid m0) (file_length r) m0" using m0(2,6) assms(3) all by (simp add: file_inv_def)
  from file_req.iterate_done [OF this, of t] obtain m where
    m: "m = iterate_step (file_request lib f t) (length (all_infos r)) m0" "file_inv lib f (the_rid m0) (file_length r) m" "lacking lib m = []"
    by (simp add: all)
  then have ok: "sm_mem_ok lib m" "the_rid m = the_rid m0" "download_bytes m < 2 ^ 32" "download_bytes m mod 2 ^ 32 = file_length r mod 2 ^ 32"
    using assms(2) by (simp_all add: file_inv_def bytes_of_def rid_ok_def)
  have "download_bytes m = file_length r" using ok(3,4) assms(2) by (simp add: rid_ok_def)
  moreover have "spm_HasSubPiece lib info m = Inr True" if "info \<in> set (all_infos r)" for info
  proof -
    obtain b s where info: "info = (b, s)" by (rule prod.exhaust)
    with that infos ok(2) have "b < block_count (the_rid m)" by (metis in_all_infos)
    with nothing_lacking(2) [OF ok(1) m(3)] info show ?thesis by (simp add: spm_HasSubPiece_def)
  qed
  moreover have "find (lacks lib m) (all_infos (the_rid m)) = None"
    using m(3) by (simp add: lacking_def find_None_iff filter_empty_conv)
  with next_of_file [OF ok(1)] have "spm_GetNextNullSubPiece lib (0, 0) m = Some (Inr None)" by simp
  ultimately show ?thesis using m0(1) m(1) nothing_lacking(1) [OF ok(1) m(3)] by blast
qed

theorem requests_complete_file_witness:
  "\<exists>m. m = iterate_step (file_request sample_rlib (\<lambda>info. if info = (2, 0) then 904 else 1024) 0) 5 sample_new \<and>
     spm_IsFull sample_rlib m \<and> spm_HasSubPiece sample_rlib (2, 0) m = Inr True \<and> download_bytes m = 5000"
proof -
  let ?f = "\<lambda>info. if info = (2, 0) then 904 else (1024 :: nat)"
  have valid: "\<forall>info. buffer_IsValid sample_rlib (?f info)" by (simp add: sample_rlib_def)
  have len: "\<forall>info \<in> set (all_infos sample_file). buffer_Length sample_rlib (?f info) = subpiece_bytes sample_file info"
    by (simp add: sample_infos subpiece_bytes_def sample_cap) (simp add: sample_file_def sample_rlib_def)
  from requests_complete_file [OF sample_rlib_ok sample_file_ok valid len, of False 0] obtain m0 m where
    m: "spm_new sample_rlib False sample_file False = Inr m0"
      "m = iterate_step (file_request sample_rlib ?f 0) (length (all_infos sample_file)) m0" "spm_IsFull sample_rlib m"
      "\<forall>info \<in> set (all_infos sample_file). spm_HasSubPiece sample_rlib info m = Inr True"
      "download_bytes m = file_length sample_file" by blast
  have "m0 = sample_new" using m(1) sample_new_ok(1) by simp
  moreover have "length (all_infos sample_file) = 5" "(2, 0) \<in> set (all_infos sample_file)" by (simp_all add: sample_infos)
  moreover have "file_length sample_file = 5000" by (simp add: sample_file_def)
  ultimately show ?thesis using m(2-5) by (intro exI [of _ m]) simp
qed

text \<open>Without a disk, memory that was reclaimed is downloaded again.  Reclaiming the memory of a block does not fail, leaves the
  nodes, their counters and the bit map consistent and never makes a subpiece appear; the subpieces that were thrown away are
  missing for the search, and requesting what is missing completes the file again.\<close>

theorem reclaimed_memory_is_requested_again:
  assumes "sm_mem_ok lib m" "b < block_count (the_rid m)" "block_count (the_rid m) \<le> length (block_md5_s (the_rid m))"
    and "\<forall>info. buffer_IsValid lib (f info)"
  shows "\<exists>m1 m2. RemoveBlockDataFromMemCache False lib t b m = Inr (None, m1) \<and> sm_mem_ok lib m1 \<and>
    set (lacking lib m) \<subseteq> set (lacking lib m1) \<and>
    m2 = iterate_step (file_request lib f t) (length (lacking lib m1)) m1 \<and> spm_IsFull lib m2"
proof -
  obtain m1 where m1: "RemoveBlockDataFromMemCache False lib t b m = Inr (None, m1)" "sm_mem_ok lib m1" "the_rid m1 = the_rid m"
    "\<forall>c i. c < block_count (the_rid m) \<longrightarrow> i < cap (the_rid m) c \<longrightarrow> lacks lib m (c, i) \<longrightarrow> lacks lib m1 (c, i)"
    using evict_without_disk_ok [OF assms(1-3), of t] by blast
  have sub: "set (lacking lib m) \<subseteq> set (lacking lib m1)" using m1(3,4) by (auto simp: lacking_def in_all_infos)
  have "file_inv lib f (the_rid m1) (download_bytes m1 + bytes_of lib f (lacking lib m1) + 2 ^ 32) m1"
    using m1(2) assms(4) by (simp add: file_inv_def)
  from file_req.iterate_done [OF this, of t] have
    "spm_IsFull lib (iterate_step (file_request lib f t) (length (lacking lib m1)) m1)"
    by (simp add: file_inv_def nothing_lacking(1))
  with m1(1,2) sub show ?thesis by blast
qed

theorem reclaimed_memory_is_requested_again_witness:
  "\<exists>m1 m2. RemoveBlockDataFromMemCache False sample_rlib 0 1 sample_new = Inr (None, m1) \<and>
    m2 = iterate_step (file_request sample_rlib (\<lambda>_. 1024) 0) (length (lacking sample_rlib m1)) m1 \<and> spm_IsFull sample_rlib m2"
proof -
  have "\<forall>info. buffer_IsValid sample_rlib ((\<lambda>_. 1024) info)" by (simp add: sample_rlib_def)
  from reclaimed_memory_is_requested_again [OF sample_new_ok(2) _ _ this, of 1 0] show ?thesis
    by (simp add: sample_new_rid) blast
qed

text \<open>Positions and subpieces agree.  A position of the file lies in the subpiece that \<^verbatim>\<open>PosToSubPieceInfo\<close> returns, between the
  offset and the end that \<^verbatim>\<open>GetSubPiecePosition\<close> gives it, inside the file; \<^verbatim>\<open>PosToPieceInfoEx\<close> converts to the same subpiece; and
  \<^verbatim>\<open>IncSubPieceInfo\<close> yields the subpiece of the position after it, or false at the end of the file.\<close>

theorem positions_and_subpieces_agree:
  assumes "sm_shape lib m" "position < file_length (the_rid m)"
    and "block_count (the_rid m) * block_size (the_rid m) < 2 ^ 32"
  shows "\<exists>info offset len. PosToSubPieceInfo position m = Inr (Some info) \<and> GetSubPiecePosition lib info m = Inr (offset, len) \<and>
    offset \<le> position \<and> position < offset + len \<and> offset + len \<le> file_length (the_rid m) \<and> SubPieceInfoToPosition info m = offset \<and>
    (\<exists>piece. PosToPieceInfoEx position m = Inr (Some piece) \<and> PieceInfoExToSubPieceInfo piece = info \<and>
       SubPieceInfoToPieceInfoEx info = piece) \<and>
    (\<exists>info'. IncSubPieceInfo info m = (offset + 1024 < file_length (the_rid m), info') \<and>
       (offset + 1024 < file_length (the_rid m) \<longrightarrow> PosToSubPieceInfo (offset + 1024) m = Inr (Some info')))"
proof -
  let ?r = "the_rid m" and ?p = "position mod block_size (the_rid m)"
  note sh = sm_shapeD [OF assms(1)]
  define b s where "b = position div block_size ?r" and "s = ?p div 1024"
  note inside = position_info [OF sh(2) assms(2), folded b_def s_def]
  have size: "0 < block_size ?r" using sh(2) by (simp add: rid_ok_def)
  have "?p div (1024 * 128) = s div 128" unfolding s_def by (rule div_mult2_eq)
  moreover have "?p mod (1024 * 128) = 1024 * (s mod 128) + ?p mod 1024" unfolding s_def by (rule mod_mult2_eq)
  then have "?p mod (1024 * 128) div 1024 = s mod 128" by simp
  ultimately have piece: "?p div 131072 = s div 128" "?p mod 131072 div 1024 = s mod 128" by simp_all
  define offset where "offset = b * block_size ?r + s * 1024"
  note at = subpiece_position [OF assms(1) inside(1,2), folded offset_def]
  obtain info' where next_info: "IncSubPieceInfo (b, s) m = (offset + 1024 < file_length ?r, info')"
    "offset + 1024 < file_length ?r \<longrightarrow> PosToSubPieceInfo (offset + 1024) m = Inr (Some info')"
    using next_position [OF assms(1) inside(1,2) assms(3), folded offset_def] by blast
  show ?thesis
  proof (intro exI conjI)
    show "PosToSubPieceInfo position m = Inr (Some (b, s))"
      using assms(2) size by (simp add: PosToSubPieceInfo_def Let_def b_def s_def bytes_num_per_subpiece_g_def)
    show "GetSubPiecePosition lib (b, s) m = Inr (offset, subpiece_bytes ?r (b, s))" by (rule at(2))
    show "offset \<le> position" "position < offset + subpiece_bytes ?r (b, s)" using inside(3,4) by (simp_all add: offset_def)
    show "offset + subpiece_bytes ?r (b, s) \<le> file_length ?r"
      using subpiece_in_file(1) [OF sh(2) inside(1,2)] by (simp add: offset_def)
    show "SubPieceInfoToPosition (b, s) m = offset" by (rule at(1))
    show "PosToPieceInfoEx position m = Inr (Some (b, s div 128, s mod 128))"
      using assms(2) size piece by (simp add: PosToPieceInfoEx_def Let_def b_def bytes_num_per_piece_g_def bytes_num_per_subpiece_g_def)
    show "PieceInfoExToSubPieceInfo (b, s div 128, s mod 128) = (b, s)" "SubPieceInfoToPieceInfoEx (b, s) = (b, s div 128, s mod 128)"
      by (simp_all add: PieceInfoExToSubPieceInfo_def SubPieceInfoToPieceInfoEx_def)
    show "IncSubPieceInfo (b, s) m = (offset + 1024 < file_length ?r, info')"
      "offset + 1024 < file_length ?r \<longrightarrow> PosToSubPieceInfo (offset + 1024) m = Inr (Some info')" by (rule next_info)+
  qed
qed

theorem positions_and_subpieces_agree_witness:
  "\<exists>offset len. PosToSubPieceInfo 4500 sample_new = Inr (Some (2, 0)) \<and>
    GetSubPiecePosition sample_rlib (2, 0) sample_new = Inr (offset, len) \<and> offset \<le> 4500 \<and> 4500 < offset + len"
proof -
  have shape: "sm_shape sample_rlib sample_new" using sample_new_ok(2) by (simp add: sm_mem_ok_def)
  have "PosToSubPieceInfo 4500 sample_new = Inr (Some (2, 0))"
    by (simp add: PosToSubPieceInfo_def sample_new_rid Let_def bytes_num_per_subpiece_g_def)
  with positions_and_subpieces_agree [OF shape, of 4500] show ?thesis by (auto simp: sample_new_rid)
qed

text \<open>The index of a subpiece is not checked against its block.  \<^verbatim>\<open>IsSubPieceValid\<close> only compares with the last subpiece of the
  file, so a subpiece of the right size with an index beyond the end of a block other than the last passes all checks
  before \<^verbatim>\<open>BlockNode::AddSubpiece\<close>, whose assertion fails.\<close>

theorem subpiece_index_beyond_block_asserts:
  assumes "sm_mem_ok lib m" "b < block_count (the_rid m) - 1" "cap (the_rid m) b \<le> s" "\<not> HasFullBlock lib b m"
    and "buffer_Length lib buf = 1024" "buffer_IsValid lib buf"
  shows "AsyncAddSubPiece lib t (b, s) buf m = Inl AssertionFailed"
proof -
  have shape: "sm_shape lib m" and nodes: "all_nodes (\<lambda>b n. bn_mem_ok n \<and> node_fits lib m b n) m"
    using assms(1) by (simp_all add: sm_mem_ok_def)
  note sh = sm_shapeD [OF shape]
  have b: "b < block_count (the_rid m)" using assms(2) by simp
  obtain n k where add: "node_for_add t b m = Inr (n, (put_block b (Some n) m)\<lparr>blocks_count := k\<rparr>)"
    and slot: "case blocks m ! b of
       None \<Rightarrow> bn_mem_ok n \<and> subpieces n = [] \<and> total_subpiece_count n = cap (the_rid m) b \<and> index n = b \<and>
         \<not> need_write n \<and> node_state n = EMPTY
     | Some n' \<Rightarrow> n = n'"
    using node_for_add_eq [OF shape b, of t] by blast
  have n: "bn_mem_ok n \<and> total_subpiece_count n = cap (the_rid m) b \<and> \<not> IsFull n"
  proof (cases "blocks m ! b")
    case None
    with slot cap_bounds(1) [OF sh(2), of b] bn_mem_parts(2) [of n] show ?thesis by (auto simp: IsFull_def)
  next
    case (Some n')
    from all_nodesD [OF nodes _ Some] slot b sh(3) Some assms(4) show ?thesis by (simp add: node_fits_def)
  qed
  then have "\<not> s \<le> total_subpiece_count n - 1" using assms(3) cap_bounds(1) [OF sh(2), of b] by linarith
  then have "AddSubpiece t s buf n = Inl AssertionFailed" by (simp add: AddSubpiece_def)
  then have "spm_AddSubPiece lib t (b, s) buf m = Inl AssertionFailed"
    using assms(4,6) add n by (simp add: spm_AddSubPiece_def)
  moreover have "spm_HasSubPiece lib (b, s) m = Inr False"
  proof (cases "blocks m ! b")
    case None
    with assms(4) b sh(3) show ?thesis by (simp add: spm_HasSubPiece_def get_block_def)
  next
    case (Some n')
    with slot n have "bn_mem_ok n'" "total_subpiece_count n' = cap (the_rid m) b" by simp_all
    then have "\<not> HasSubPiece s n'" using bn_mem_parts [of n'] assms(3)
      by (auto simp: HasSubPiece_def has_key_iff bn_shape_def list_all_iff)
    with Some assms(4) b sh(3) show ?thesis by (simp add: spm_HasSubPiece_def get_block_def)
  qed
  moreover have "(b, s) \<noteq> last_subpiece_info m" using assms(2) sh(5) by (metis fst_conv less_irrefl)
  then have "IsSubPieceValid lib (b, s) buf m"
    using assms(2,5) sh(5) by (simp add: IsSubPieceValid_def info_le_eq [OF sh(1)])
  ultimately show ?thesis by (simp add: AsyncAddSubPiece_def)
qed

theorem subpiece_index_beyond_block_asserts_witness:
  "AsyncAddSubPiece sample_rlib 0 (0, 2) 1024 sample_new = Inl AssertionFailed"
  by (rule subpiece_index_beyond_block_asserts [OF sample_new_ok(2)])
    (simp_all add: sample_new_rid sample_new_ok(4), simp_all add: sample_rlib_def)

end
