(* ===== verification/ResourceStore.thy ===== *)
theory ResourceStore
  imports SubPieceManager
begin

text \<open>
  What \<^verbatim>\<open>storage::SubPieceManager\<close> promises with a disk (\<^verbatim>\<open>DISK_MODE\<close>): it is a store that never loses a subpiece.

  \<^item> The abstract store maps the subpieces to their buffers.  It also records which subpieces have a node in memory and
    which blocks have been handed to the storage thread.
  \<^item> The concrete state is the manager together with what has been posted to the storage thread.  The events are the calls of
    \<^verbatim>\<open>Instance\<close> and \<^verbatim>\<open>Resource\<close>: a subpiece arrives, a block leaves memory, a block is to be read back, a subpiece has been
    read, the storage thread reports a written block, a subpiece is fetched.
  \<^item> An event is enabled when its caller may raise it: in particular a write is reported only for a block that was posted, and
    what is read back is what was written.

  The refinement shows that no assertion of the manager fails in any such run, that it reports exactly the subpieces of the
  store, and that a block has left memory only with all its contents posted.
\<close>

section \<open>The store\<close>

record 'b store =
  held :: "nat \<times> nat \<Rightarrow> 'b option"
  memory :: "nat \<Rightarrow> nat set option"
  saved :: "nat set"

datatype ('b, 'c) store_event =
    Arrive "nat \<times> nat" 'b
  | Evict nat
  | Reading nat
  | Loaded "nat \<times> nat" 'c
  | Written nat
  | Fetch "nat \<times> nat"

definition complete :: "'h rid_info \<Rightarrow> nat \<Rightarrow> 'b store \<Rightarrow> bool" where
  "complete r b a = (\<forall>s < cap r b. held a (b, s) \<noteq> None)"

definition in_range :: "'h rid_info \<Rightarrow> nat \<times> nat \<Rightarrow> bool" where
  "in_range r info = (fst info < block_count r \<and> snd info < cap r (fst info))"

fun store_step :: "'h rid_info \<Rightarrow> ('b, 'c) store_event \<Rightarrow> 'b store \<Rightarrow> 'b store" where
  "store_step r (Arrive info buf) a =
     (if held a info \<noteq> None then a
      else a\<lparr>held := (held a)(info \<mapsto> buf),
             memory := (memory a)(fst info \<mapsto> insert (snd info) (case memory a (fst info) of None \<Rightarrow> {} | Some L \<Rightarrow> L))\<rparr>)"
| "store_step r (Evict b) a =
     (if complete r b a then a\<lparr>memory := (memory a)(b := None), saved := insert b (saved a)\<rparr> else a)"
| "store_step r (Reading b) a = (if memory a b = None then a\<lparr>memory := (memory a)(b \<mapsto> {})\<rparr> else a)"
| "store_step r (Loaded info con) a =
     (case memory a (fst info) of None \<Rightarrow> a | Some L \<Rightarrow> a\<lparr>memory := (memory a)(fst info \<mapsto> insert (snd info) L)\<rparr>)"
| "store_step r (Written b) a = a\<lparr>memory := (memory a)(b := None)\<rparr>"
| "store_step r (Fetch info) a = a"

fun enabled :: "('m, 'b, 'c, 'h) resource_lib \<Rightarrow> 'h rid_info \<Rightarrow> ('b, 'c) store_event \<Rightarrow> 'b store \<Rightarrow> bool" where
  "enabled lib r (Arrive info buf) a =
     (in_range r info \<and> buffer_IsValid lib buf \<and> buffer_Length lib buf = subpiece_bytes r info)"
| "enabled lib r (Evict b) a = (b < block_count r)"
| "enabled lib r (Reading b) a = (b < block_count r \<and> complete r b a)"
| "enabled lib r (Loaded info con) a =
     (in_range r info \<and>
      (case memory a (fst info) of
         None \<Rightarrow> True
       | Some L \<Rightarrow> complete r (fst info) a \<and> snd info \<notin> L \<and> held a info = Some (buffer_of lib con (subpiece_bytes r info))))"
| "enabled lib r (Written b) a = (b < block_count r \<and> b \<in> saved a)"
| "enabled lib r (Fetch info) a = in_range r info"

section \<open>The manager and the storage thread\<close>

type_synonym ('m, 'b, 'h) managed = "('m, 'b, 'h) resource_blocks \<times> (nat \<Rightarrow> ((nat \<times> nat) \<times> 'b) list option)"

fun managed_step ::
    "('m, 'b, 'c, 'h) resource_lib \<Rightarrow> u32 \<Rightarrow> ('b, 'c) store_event \<Rightarrow> ('m, 'b, 'h) managed action" where
  "managed_step lib t (Arrive info buf) (m, disk) =
     and_then (AsyncAddSubPiece lib t info buf m) (\<lambda>(_, m'). Inr (m', disk))"
| "managed_step lib t (Evict b) (m, disk) =
     and_then (RemoveBlockDataFromMemCache True lib t b m) (\<lambda>(p, m').
       Inr (m', case p of None \<Rightarrow> disk | Some bufs \<Rightarrow> disk(b \<mapsto> bufs)))"
| "managed_step lib t (Reading b) (m, disk) =
     and_then (spm_SetBlockReading lib t b m) (\<lambda>(_, m'). Inr (m', disk))"
| "managed_step lib t (Loaded info con) (m, disk) =
     and_then (spm_LoadSubPiece lib t info con m) (\<lambda>(_, m'). Inr (m', disk))"
| "managed_step lib t (Written b) (m, disk) =
     and_then (OnWriteBlockFinish lib b m) (\<lambda>m'. Inr (m', disk))"
| "managed_step lib t (Fetch info) (m, disk) =
     and_then (spm_GetSubPiece lib t info m) (\<lambda>(_, m'). Inr (m', disk))"

section \<open>The relation\<close>

text \<open>The contents of a block as they are posted.\<close>

definition block_contents :: "'h rid_info \<Rightarrow> nat \<Rightarrow> (nat \<times> nat \<Rightarrow> 'b option) \<Rightarrow> ((nat \<times> nat) \<times> 'b) list" where
  "block_contents r b f = map (\<lambda>s. ((b, s), the (f (b, s)))) [0..<cap r b]"

text \<open>A node that is being filled by downloading, and one that is read back from the disk.\<close>

definition filling :: "'h rid_info \<Rightarrow> nat \<Rightarrow> (nat \<times> nat \<Rightarrow> 'b option) \<Rightarrow> 'b block_node \<Rightarrow> bool" where
  "filling r b f n =
     (bn_mem_ok n \<and> (need_write n \<longleftrightarrow> length (subpieces n) = total_subpiece_count n) \<and> (need_write n \<longrightarrow> node_state n = MEM) \<and>
      (\<forall>s < cap r b. f (b, s) = map_of (subpieces n) s))"

definition reading_back :: "'h rid_info \<Rightarrow> nat \<Rightarrow> (nat \<times> nat \<Rightarrow> 'b option) \<Rightarrow> 'b block_node \<Rightarrow> bool" where
  "reading_back r b f n =
     (bn_shape n \<and> \<not> need_write n \<and>
      node_state n = (if length (subpieces n) = total_subpiece_count n then ALL_STATE else READING) \<and>
      (\<forall>s v. map_of (subpieces n) s = Some v \<longrightarrow> f (b, s) = Some v) \<and> (\<forall>s < cap r b. f (b, s) \<noteq> None))"

text \<open>One block: its bit, its slot, what was posted, and the store.\<close>

definition block_rel ::
    "'h rid_info \<Rightarrow> nat \<Rightarrow> bool \<Rightarrow> 'b block_node option \<Rightarrow> ((nat \<times> nat) \<times> 'b) list option \<Rightarrow> (nat \<times> nat \<Rightarrow> 'b option) \<Rightarrow>
     nat set option \<Rightarrow> bool \<Rightarrow> bool" where
  "block_rel r b full slot posted f mem is_saved =
     (full = (\<forall>s < cap r b. f (b, s) \<noteq> None) \<and>
      mem = map_option (\<lambda>n. set (keys n)) slot \<and>
      (is_saved \<longrightarrow> full \<and> posted = Some (block_contents r b f)) \<and>
      (case slot of
         None \<Rightarrow> (full \<longrightarrow> is_saved) \<and> (\<not> full \<longrightarrow> (\<forall>s. f (b, s) = None))
       | Some n \<Rightarrow> total_subpiece_count n = cap r b \<and> index n = b \<and>
           (if is_saved then reading_back r b f n else filling r b f n)))"

definition store_rel ::
    "('m, 'b, 'c, 'h) resource_lib \<Rightarrow> 'h rid_info \<Rightarrow> ('m, 'b, 'h) managed \<Rightarrow> 'b store \<Rightarrow> bool" where
  "store_rel lib r c a =
     (case c of (m, disk) \<Rightarrow>
        sm_shape lib m \<and> the_rid m = r \<and>
        (\<forall>b < block_count r.
           block_rel r b (HasFullBlock lib b m) (blocks m ! b) (disk b) (held a) (memory a b) (b \<in> saved a)))"

lemma store_relD:
  assumes "store_rel lib r (m, disk) a"
  shows "sm_shape lib m" "the_rid m = r"
    "b < block_count r \<Longrightarrow> block_rel r b (HasFullBlock lib b m) (blocks m ! b) (disk b) (held a) (memory a b) (b \<in> saved a)"
  using assms by (simp_all add: store_rel_def)

text \<open>Only one block changes.\<close>

lemma block_rel_other:
  assumes "block_rel r c full slot posted f mem is_saved" "\<And>s. f' (c, s) = f (c, s)"
  shows "block_rel r c full slot posted f' mem is_saved"
proof -
  have "block_contents r c f' = block_contents r c f" by (simp add: block_contents_def assms(2))
  moreover have "reading_back r c f' = reading_back r c f" "filling r c f' = filling r c f"
    by (simp_all add: filling_def [abs_def] reading_back_def [abs_def] assms(2))
  ultimately have "block_rel r c full slot posted f' mem is_saved = block_rel r c full slot posted f mem is_saved"
    by (simp only: block_rel_def assms(2))
  with assms(1) show ?thesis by blast
qed

lemma store_rel_update:
  assumes "store_rel lib r (m, disk) a" "b < block_count r"
    and "sm_shape lib m'" "the_rid m' = r" "\<And>c. c \<noteq> b \<Longrightarrow> c < block_count r \<Longrightarrow> HasFullBlock lib c m' = HasFullBlock lib c m"
    and "blocks m' = (blocks m)[b := slot]" "\<And>c. c \<noteq> b \<Longrightarrow> disk' c = disk c"
    and "\<And>c s. c \<noteq> b \<Longrightarrow> held a' (c, s) = held a (c, s)" "\<And>c. c \<noteq> b \<Longrightarrow> memory a' c = memory a c"
    and "\<And>c. c \<noteq> b \<Longrightarrow> c \<in> saved a' \<longleftrightarrow> c \<in> saved a"
    and "block_rel r b (HasFullBlock lib b m') slot (disk' b) (held a') (memory a' b) (b \<in> saved a')"
  shows "store_rel lib r (m', disk') a'"
  unfolding store_rel_def prod.case
proof (intro conjI allI impI assms(3,4))
  fix c assume c: "c < block_count r"
  note old = store_relD [OF assms(1)]
  show "block_rel r c (HasFullBlock lib c m') (blocks m' ! c) (disk' c) (held a') (memory a' c) (c \<in> saved a')"
  proof (cases "c = b")
    case True
    have "blocks m' ! b = slot" using assms(2,6) sm_shapeD(3) [OF old(1)] old(2) by simp
    with True assms(11) show ?thesis by simp
  next
    case False
    have "block_rel r c (HasFullBlock lib c m) (blocks m ! c) (disk c) (held a') (memory a c) (c \<in> saved a)"
      by (rule block_rel_other [OF old(3) [OF c]]) (rule assms(8) [OF False])
    with False assms(5-7,9,10) c show ?thesis by simp
  qed
qed

text \<open>Nothing but a slot changes in the manager.\<close>

lemma sm_shape_slot: "sm_shape lib m \<Longrightarrow> sm_shape lib (put_block b slot m)"
  by (simp add: sm_shape_def)

section \<open>Single events\<close>

lemma block_relD:
  assumes "block_rel r b full slot posted f mem is_saved"
  shows "full = (\<forall>s < cap r b. f (b, s) \<noteq> None)" "mem = map_option (\<lambda>n. set (keys n)) slot"
    "is_saved \<Longrightarrow> full" "is_saved \<Longrightarrow> posted = Some (block_contents r b f)"
    "slot = None \<Longrightarrow> full \<Longrightarrow> is_saved" "slot = None \<Longrightarrow> \<not> full \<Longrightarrow> f (b, s) = None"
    "slot = Some n \<Longrightarrow> total_subpiece_count n = cap r b \<and> index n = b"
    "slot = Some n \<Longrightarrow> is_saved \<Longrightarrow> reading_back r b f n" "slot = Some n \<Longrightarrow> \<not> is_saved \<Longrightarrow> filling r b f n"
proof -
  show "full = (\<forall>s < cap r b. f (b, s) \<noteq> None)" "mem = map_option (\<lambda>n. set (keys n)) slot"
    "is_saved \<Longrightarrow> full" "is_saved \<Longrightarrow> posted = Some (block_contents r b f)"
    using assms unfolding block_rel_def by blast+
  have slot: "case slot of
         None \<Rightarrow> (full \<longrightarrow> is_saved) \<and> (\<not> full \<longrightarrow> (\<forall>s. f (b, s) = None))
       | Some n \<Rightarrow> total_subpiece_count n = cap r b \<and> index n = b \<and>
           (if is_saved then reading_back r b f n else filling r b f n)"
    using assms unfolding block_rel_def by blast
  show "slot = None \<Longrightarrow> full \<Longrightarrow> is_saved" "slot = None \<Longrightarrow> \<not> full \<Longrightarrow> f (b, s) = None"
    "slot = Some n \<Longrightarrow> total_subpiece_count n = cap r b \<and> index n = b"
    "slot = Some n \<Longrightarrow> is_saved \<Longrightarrow> reading_back r b f n" "slot = Some n \<Longrightarrow> \<not> is_saved \<Longrightarrow> filling r b f n"
    using slot by (simp_all split: option.splits)
qed

lemma filling_full:
  assumes "filling r b f n" "total_subpiece_count n = cap r b"
  shows "IsFull n \<longleftrightarrow> (\<forall>s < cap r b. f (b, s) \<noteq> None)" "has_key (subpieces n) s \<Longrightarrow> s < cap r b"
    "need_write n \<longleftrightarrow> IsFull n" "IsFull n \<Longrightarrow> node_state n = MEM" "node_state n \<noteq> DISK"
    "s < cap r b \<Longrightarrow> has_key (subpieces n) s = (f (b, s) \<noteq> None)"
proof -
  have ok: "bn_shape n" "\<not> IsBlockSavedOnDisk n" using assms(1) bn_mem_parts unfolding filling_def by blast+
  show key: "has_key (subpieces n) s = (f (b, s) \<noteq> None)" if "s < cap r b" for s
    using assms(1) that unfolding filling_def has_key_def by simp
  have len: "IsFull n \<longleftrightarrow> length (subpieces n) = total_subpiece_count n" using ok(2) by (simp add: IsFull_def)
  then show "IsFull n \<longleftrightarrow> (\<forall>s < cap r b. f (b, s) \<noteq> None)" using IsFull_mem [OF ok(1)] key assms(2) by simp
  show "has_key (subpieces n) s \<Longrightarrow> s < cap r b" using ok(1) assms(2) by (auto simp: bn_shape_def list_all_iff has_key_iff)
  show "need_write n \<longleftrightarrow> IsFull n" "IsFull n \<Longrightarrow> node_state n = MEM" "node_state n \<noteq> DISK"
    using assms(1) len ok(2) unfolding filling_def IsBlockSavedOnDisk_def by blast+
qed

lemma reading_back_saved:
  assumes "reading_back r b f n"
  shows "IsBlockSavedOnDisk n" "IsFull n" "\<not> need_write n" "node_state n \<noteq> DISK" "bn_shape n"
  using assms by (auto simp: reading_back_def IsBlockSavedOnDisk_def IsFull_def)

lemma has_subpiece_related:
  assumes "store_rel lib r (m, disk) a" "in_range r (b, s)"
  shows "spm_HasSubPiece lib (b, s) m = Inr (held a (b, s) \<noteq> None)"
proof -
  note rel = store_relD [OF assms(1)]
  have b: "b < block_count r" "s < cap r b" "b < length (blocks m)"
    using assms(2) sm_shapeD(3) [OF rel(1)] rel(2) by (simp_all add: in_range_def)
  note blk = block_relD [OF rel(3) [OF b(1)]]
  show ?thesis
  proof (cases "HasFullBlock lib b m")
    case True
    with blk(1) b(2) show ?thesis by (simp add: spm_HasSubPiece_def)
  next
    case False
    then have unsaved: "b \<notin> saved a" using blk(3) by blast
    show ?thesis
    proof (cases "blocks m ! b")
      case None
      with False blk(6) b(3) show ?thesis by (simp add: spm_HasSubPiece_def get_block_def)
    next
      case (Some n)
      note fill = blk(9) [OF Some unsaved]
      have "\<not> IsBlockSavedOnDisk n" using fill bn_mem_parts(2) unfolding filling_def by blast
      with False Some b(3) filling_full(6) [OF fill _ b(2)] blk(7) [OF Some] show ?thesis
        by (simp add: spm_HasSubPiece_def get_block_def HasSubPiece_def)
    qed
  qed
qed

lemma valid_size:
  assumes "sm_shape lib m"
  shows "(if info = last_subpiece_info m then last_subpiece_size m else 1024) = subpiece_bytes (the_rid m) info"
proof -
  note sh = sm_shapeD [OF assms]
  have last: "last_subpiece_info m = (block_count (the_rid m) - 1, cap (the_rid m) (block_count (the_rid m) - 1) - 1)"
    using sh(5,6) by (simp add: prod_eq_iff flip: sh(6))
  show ?thesis using assms unfolding last subpiece_bytes_def sm_shape_def by simp
qed

lemma valid_subpiece:
  assumes "sm_shape lib m" "in_range (the_rid m) info" "buffer_Length lib buf = subpiece_bytes (the_rid m) info"
  shows "IsSubPieceValid lib info buf m"
proof -
  note sh = sm_shapeD [OF assms(1)]
  have "fst info < block_count (the_rid m) - 1 \<or> fst info = block_count (the_rid m) - 1 \<and> snd info \<le> snd (last_subpiece_info m)"
    using assms(2) sh(6) by (cases "fst info = block_count (the_rid m) - 1") (auto simp: in_range_def less_Suc_eq_le sh(6) [symmetric])
  then have "info_le lib info (last_subpiece_info m)" using sh(5) by (simp add: info_le_eq [OF sh(1)])
  with valid_size [OF assms(1), of info] assms(3) show ?thesis by (simp add: IsSubPieceValid_def split: if_splits)
qed

lemma arrive_simulated:
  fixes lib :: "('m, 'b, 'c, 'h) resource_lib"
  assumes "store_rel lib r (m, disk) a" "enabled lib r (Arrive info buf) a"
  shows "result_spec (\<lambda>c. store_rel lib r c (store_step r (Arrive info buf :: ('b, 'c) store_event) a)) (managed_step lib t (Arrive info buf) (m, disk))"
proof -
  obtain b s where info: "info = (b, s)" by (rule prod.exhaust)
  note rel = store_relD [OF assms(1)]
  have range: "in_range r (b, s)" and valid: "buffer_IsValid lib buf" "buffer_Length lib buf = subpiece_bytes r (b, s)"
    using assms(2) info by simp_all
  then have b: "b < block_count r" "s < cap r b" "b < length (blocks m)"
    using sm_shapeD(3) [OF rel(1)] rel(2) by (simp_all add: in_range_def)
  note blk = block_relD [OF rel(3) [OF b(1)]]
  have ok: "IsSubPieceValid lib (b, s) buf m" using valid_subpiece [OF rel(1)] range valid(2) rel(2) by blast
  note has = has_subpiece_related [OF assms(1) range]
  show ?thesis
  proof (cases "held a (b, s)")
    case (Some v)
    with ok has assms(1) info show ?thesis by (simp add: AsyncAddSubPiece_def)
  next
    case None
    then have nofull: "\<not> HasFullBlock lib b m" using blk(1) b(2) by blast
    then have unsaved: "b \<notin> saved a" using blk(3) by blast
    have slot: "bn_mem_ok n \<and> total_subpiece_count n = cap (the_rid m) b \<and> index n = b \<and> \<not> has_key (subpieces n) s"
      if "blocks m ! b = Some n" for n
      using blk(7,9) [OF that] unsaved filling_full(6) [of r b "held a" n s] b(2) None rel(2) by (auto simp: filling_def)
    obtain n m' where m': "spm_AddSubPiece lib t (b, s) buf m = Inr (True, m')" "sm_shape lib m'" "the_rid m' = the_rid m"
      "blocks m' = (blocks m)[b := Some (added t s buf n)]"
      and full: "\<forall>c < block_count (the_rid m). HasFullBlock lib c m' = (if c = b then IsFull (added t s buf n) else HasFullBlock lib c m)"
      and n: "bn_mem_ok n" "total_subpiece_count n = cap (the_rid m) b" "index n = b" "\<not> has_key (subpieces n) s"
        "case blocks m ! b of None \<Rightarrow> subpieces n = [] \<and> \<not> need_write n \<and> node_state n = EMPTY | Some n' \<Rightarrow> n = n'"
      using spm_AddSubPiece_step [OF rel(1) _ _ nofull valid(1) slot, where t = t] b(1,2) rel(2) by blast
    let ?n = "added t s buf n"
    have st: "s < total_subpiece_count n" using n(2) b(2) rel(2) by simp
    note after = added_ok [OF n(1) st n(4), of t buf]
    have less: "length (subpieces n) < total_subpiece_count n"
      using subpieces_le [OF bn_mem_parts(1) [OF n(1)]] IsFull_mem [OF bn_mem_parts(1) [OF n(1)]] st n(4) le_neq_implies_less by blast
    have before: "\<not> need_write n" "\<forall>i < cap r b. held a (b, i) = map_of (subpieces n) i"
      using n(5) blk(6,9) unsaved nofull less by (cases "blocks m ! b"; simp add: filling_def)+
    let ?f = "(held a)((b, s) \<mapsto> buf)"
    have fill: "filling r b ?f ?n"
      unfolding filling_def
    proof (intro conjI)
      show "bn_mem_ok ?n" by (rule after(1))
      show "need_write ?n \<longleftrightarrow> length (subpieces ?n) = total_subpiece_count ?n" "need_write ?n \<longrightarrow> node_state ?n = MEM"
        using before(1) by (simp_all add: added_def Let_def)
      show "\<forall>i < cap r b. ?f (b, i) = map_of (subpieces ?n) i" using before(2) after(2) by simp
    qed
    have total: "total_subpiece_count ?n = cap r b" "index ?n = b" using after(3,4) n(2,3) rel(2) by simp_all
    let ?a = "a\<lparr>held := ?f, memory := (memory a)(b \<mapsto> insert s (case memory a b of None \<Rightarrow> {} | Some L \<Rightarrow> L))\<rparr>"
    have a: "store_step r (Arrive info buf :: ('b, 'c) store_event) a = ?a" using None info by simp
    have mem: "(case memory a b of None \<Rightarrow> {} | Some L \<Rightarrow> L) = set (keys n)" using blk(2) n(5) by (cases "blocks m ! b") simp_all
    have "store_rel lib r (m', disk) ?a"
    proof (rule store_rel_update [OF assms(1) b(1) m'(2) _ _ m'(4)])
      show "block_rel r b (HasFullBlock lib b m') (Some ?n) (disk b) (held ?a) (memory ?a b) (b \<in> saved ?a)"
        unfolding block_rel_def using full b(1) rel(2) filling_full(1) [OF fill total(1)] fill total unsaved after(2) mem
        by simp
    qed (use m'(3) rel(2) full None in auto)
    moreover have "managed_step lib t (Arrive info buf) (m, disk) = Inr (m', disk)"
      using ok has None m'(1) info by (simp add: AsyncAddSubPiece_def)
    ultimately show ?thesis by (simp only: a result_spec_simps)
  qed
qed

text \<open>Events that do not change the bit map.\<close>

lemma slot_simulated:
  fixes lib :: "('m, 'b, 'c, 'h) resource_lib"
  assumes "store_rel lib r (m, disk) a" "b < block_count r"
    and "\<And>c. c \<noteq> b \<Longrightarrow> disk' c = disk c" "held a' = held a" "\<And>c. c \<noteq> b \<Longrightarrow> memory a' c = memory a c"
    and "\<And>c. c \<noteq> b \<Longrightarrow> c \<in> saved a' \<longleftrightarrow> c \<in> saved a"
    and "block_rel r b (HasFullBlock lib b m) slot (disk' b) (held a) (memory a' b) (b \<in> saved a')"
  shows "store_rel lib r (put_block b slot m, disk') a'"
  by (rule store_rel_update [OF assms(1,2)])
    (use assms store_relD(1,2) [OF assms(1)] in \<open>simp_all add: sm_shape_slot\<close>)

lemma same_block_slot: "blocks m ! b = slot \<Longrightarrow> put_block b slot m = m"
  by (auto simp: put_block_def)

lemma evict_simulated:
  fixes lib :: "('m, 'b, 'c, 'h) resource_lib"
  assumes "store_rel lib r (m, disk) a" "enabled lib r (Evict b) a"
  shows "result_spec (\<lambda>c. store_rel lib r c (store_step r (Evict b :: ('b, 'c) store_event) a)) (managed_step lib t (Evict b) (m, disk))"
proof -
  note rel = store_relD [OF assms(1)]
  have b: "b < block_count r" "b < length (blocks m)" using assms(2) sm_shapeD(3) [OF rel(1)] rel(2) by simp_all
  note blk = block_relD [OF rel(3) [OF b(1)]]
  have full: "HasFullBlock lib b m = complete r b a" using blk(1) by (simp add: complete_def)
  let ?a = "a\<lparr>memory := (memory a)(b := None), saved := insert b (saved a)\<rparr>"
  show ?thesis
  proof (cases "blocks m ! b")
    case None
    then have step: "managed_step lib t (Evict b) (m, disk) = Inr (m, disk)"
      using b(2) by (simp add: RemoveBlockDataFromMemCache_def get_block_def)
    have same: "store_step r (Evict b :: ('b, 'c) store_event) a = a"
    proof (cases "complete r b a")
      case True
      then have "b \<in> saved a" "memory a b = None" using None blk(2,5) full by simp_all
      then have "insert b (saved a) = saved a" "(memory a)(b := None) = memory a" by auto
      with True show ?thesis by simp
    qed simp
    show ?thesis unfolding step same result_spec_simps by (rule assms(1))
  next
    case (Some n)
    have start: "RemoveBlockDataFromMemCache True lib t b m = evict_to_disk lib b n m"
      using Some b(2) by (simp add: RemoveBlockDataFromMemCache_def get_block_def)
    show ?thesis
    proof (cases "b \<in> saved a")
      case True
      note onDisk = reading_back_saved [OF blk(8) [OF Some True]]
      have bit: "HasFullBlock lib b m" by (rule blk(3) [OF True])
      have "evict_to_disk lib b n m = Inr (None, put_block b None m)"
        using onDisk bit Some b(2) by (simp add: evict_to_disk_def NeedWrite_def get_block_def)
      then have "managed_step lib t (Evict b) (m, disk) = Inr (put_block b None m, disk)" using start by simp
      moreover have "store_rel lib r (put_block b None m, disk) ?a"
        by (rule slot_simulated [OF assms(1) b(1)])
          (use blk(1,3,4) True in \<open>simp_all add: block_rel_def\<close>)
      moreover have "store_step r (Evict b :: ('b, 'c) store_event) a = ?a" using bit full by simp
      ultimately show ?thesis by (simp only: result_spec_simps)
    next
      case unsaved: False
      note fill = blk(9) [OF Some unsaved]
      have total: "total_subpiece_count n = cap r b" "index n = b" using blk(7) [OF Some] by simp_all
      note f = filling_full [OF fill total(1)]
      show ?thesis
      proof (cases "IsFull n")
        case False
        then have "evict_to_disk lib b n m = Inr (None, m)"
          using f(3) Some b(2) by (simp add: evict_to_disk_def NeedWrite_def get_block_def)
        moreover have "\<not> complete r b a" using False f(1) by (simp add: complete_def)
        ultimately show ?thesis using start assms(1) by simp
      next
        case True
        then have bit: "HasFullBlock lib b m" and whole: "complete r b a" using f(1) blk(1) full by simp_all
        have mem: "bn_mem_ok n" using fill by (simp add: filling_def)
        have len: "length (subpieces n) = total_subpiece_count n"
          using True bn_mem_parts(2) [OF mem] by (simp add: IsFull_def)
        let ?n = "n\<lparr>need_write := False, node_state := SAVING\<rparr>"
        have "map (\<lambda>i. ((index n, i), the (map_of (subpieces n) i))) [0..<total_subpiece_count n] = block_contents r b (held a)"
          using fill total by (simp add: block_contents_def filling_def)
        then have g: "GetBufferForSave n = Inr (block_contents r b (held a), ?n)"
          using GetBufferForSave_full [OF mem _ _ len] f(3,4) True by simp
        have nonempty: "block_contents r b (held a) \<noteq> []"
          using cap_bounds(1) [of r b] sm_shapeD(2) [OF rel(1)] rel(2) by (simp add: block_contents_def)
        have "IsFull ?n" using len by (simp add: IsFull_def)
        then have "evict_to_disk lib b n m = Inr (Some (block_contents r b (held a)), put_block b None (put_block b (Some ?n) m))"
          using g nonempty True f(3) bit Some b(2)
          by (simp add: evict_to_disk_def WriteBlockToResource_def NeedWrite_def get_block_def)
        moreover have "put_block b None (put_block b (Some ?n) m) = put_block b None m" by (simp add: put_block_def)
        ultimately have "managed_step lib t (Evict b) (m, disk) = Inr (put_block b None m, disk(b \<mapsto> block_contents r b (held a)))"
          using start by simp
        moreover have "store_rel lib r (put_block b None m, disk(b \<mapsto> block_contents r b (held a))) ?a"
          by (rule slot_simulated [OF assms(1) b(1)]) (use blk(1) bit in \<open>simp_all add: block_rel_def\<close>)
        moreover have "store_step r (Evict b :: ('b, 'c) store_event) a = ?a" using whole by simp
        ultimately show ?thesis by (simp only: result_spec_simps)
      qed
    qed
  qed
qed

lemma Create_disk:
  assumes "0 < cnt" "cnt \<le> 2 ^ 22"
  shows "\<exists>n. Create b cnt True t = Inr n \<and> bn_shape n \<and> subpieces n = [] \<and> total_subpiece_count n = cnt \<and> index n = b \<and>
    \<not> need_write n \<and> node_state n = DISK"
proof -
  have "(cnt + 127) mod 2 ^ 32 = cnt + 127" using assms(2) by simp
  then show ?thesis using assms by (auto simp: Create_def bn_shape_def pieces_of_def)
qed

lemma reading_simulated:
  fixes lib :: "('m, 'b, 'c, 'h) resource_lib"
  assumes "store_rel lib r (m, disk) a" "enabled lib r (Reading b) a"
  shows "result_spec (\<lambda>c. store_rel lib r c (store_step r (Reading b :: ('b, 'c) store_event) a)) (managed_step lib t (Reading b) (m, disk))"
proof -
  note rel = store_relD [OF assms(1)]
  have b: "b < block_count r" "b < length (blocks m)" "complete r b a" using assms(2) sm_shapeD(3) [OF rel(1)] rel(2) by simp_all
  note blk = block_relD [OF rel(3) [OF b(1)]]
  have bit: "HasFullBlock lib b m" using b(3) blk(1) by (simp add: complete_def)
  show ?thesis
  proof (cases "blocks m ! b")
    case None
    have is_saved: "b \<in> saved a" by (rule blk(5) [OF None bit])
    have size: "GetBlockSubPieceCount b m = cap r b" using capacity_eq(2) [OF rel(1)] b(1) rel(2) by simp
    have ok: "rid_ok r" using sm_shapeD(2) [OF rel(1)] rel(2) by simp
    obtain n :: "'b block_node" where n: "Create b (cap r b) True t = Inr n" "bn_shape n" "subpieces n = []" "total_subpiece_count n = cap r b"
      "index n = b" "\<not> need_write n" "node_state n = DISK" using Create_disk [OF cap_bounds(1,4) [OF ok]] by blast
    let ?n = "n\<lparr>node_state := READING\<rparr>"
    have "managed_step lib t (Reading b) (m, disk) = Inr (put_block b (Some ?n) m, disk)"
      using None b(2) bit n(1,7) size by (simp add: spm_SetBlockReading_def get_block_def SetBlockReading_def)
    moreover have "store_rel lib r (put_block b (Some ?n) m, disk) (a\<lparr>memory := (memory a)(b \<mapsto> {})\<rparr>)"
    proof (rule slot_simulated [OF assms(1) b(1)])
      have "reading_back r b (held a) ?n"
        using n cap_bounds(1) [OF ok, of b] blk(1) bit by (simp add: reading_back_def bn_shape_def)
      then show "block_rel r b (HasFullBlock lib b m) (Some ?n) (disk b) (held a) (memory (a\<lparr>memory := (memory a)(b \<mapsto> {})\<rparr>) b)
          (b \<in> saved (a\<lparr>memory := (memory a)(b \<mapsto> {})\<rparr>))"
        using blk(1,4) is_saved bit n by (simp add: block_rel_def)
    qed simp_all
    moreover have "store_step r (Reading b :: ('b, 'c) store_event) a = a\<lparr>memory := (memory a)(b \<mapsto> {})\<rparr>" using None blk(2) by simp
    ultimately show ?thesis by (simp only: result_spec_simps)
  next
    case (Some n)
    have "node_state n \<noteq> DISK"
    proof (cases "b \<in> saved a")
      case True
      show ?thesis by (rule reading_back_saved(4) [OF blk(8) [OF Some True]])
    next
      case False
      show ?thesis by (rule filling_full(5) [OF blk(9) [OF Some False]]) (use blk(7) [OF Some] in simp)
    qed
    then have "managed_step lib t (Reading b) (m, disk) = Inr (m, disk)"
      using Some b(2) same_block_slot [OF Some] by (simp add: spm_SetBlockReading_def get_block_def SetBlockReading_def)
    moreover have "store_step r (Reading b :: ('b, 'c) store_event) a = a" using Some blk(2) by simp
    ultimately show ?thesis using assms(1) by (simp only: result_spec_simps)
  qed
qed

lemma loaded_simulated:
  fixes lib :: "('m, 'b, 'c, 'h) resource_lib"
  assumes "store_rel lib r (m, disk) a" "enabled lib r (Loaded info con) a"
  shows "result_spec (\<lambda>c. store_rel lib r c (store_step r (Loaded info con :: ('b, 'c) store_event) a)) (managed_step lib t (Loaded info con) (m, disk))"
proof -
  obtain b s where info: "info = (b, s)" by (rule prod.exhaust)
  note rel = store_relD [OF assms(1)]
  have range: "in_range r (b, s)" using assms(2) info by simp
  then have b: "b < block_count r" "s < cap r b" "b < length (blocks m)"
    using sm_shapeD(3) [OF rel(1)] rel(2) by (simp_all add: in_range_def)
  note blk = block_relD [OF rel(3) [OF b(1)]]
  show ?thesis
  proof (cases "blocks m ! b")
    case None
    then have "managed_step lib t (Loaded info con) (m, disk) = Inr (m, disk)"
      using b(3) info by (simp add: spm_LoadSubPiece_def get_block_def)
    moreover have "store_step r (Loaded info con :: ('b, 'c) store_event) a = a" using None blk(2) info by simp
    ultimately show ?thesis using assms(1) by (simp only: result_spec_simps)
  next
    case (Some n)
    let ?buf = "buffer_of lib con (subpiece_bytes r (b, s))"
    have mem: "memory a b = Some (set (keys n))" using Some blk(2) by simp
    then have en: "complete r b a" "s \<notin> set (keys n)" "held a (b, s) = Some ?buf" using assms(2) info by simp_all
    have is_saved: "b \<in> saved a"
    proof (rule ccontr)
      assume "b \<notin> saved a"
      from filling_full(6) [OF blk(9) [OF Some this] _ b(2)] blk(7) [OF Some] en(2,3) show False by (simp add: has_key_iff)
    qed
    note rb = blk(8) [OF Some is_saved]
    have shape: "bn_shape n" using rb by (simp add: reading_back_def)
    have total: "total_subpiece_count n = cap r b" "index n = b" using blk(7) [OF Some] by simp_all
    have "length (subpieces n) \<noteq> total_subpiece_count n"
      using IsFull_mem [OF shape] en(2) b(2) total(1) by (auto simp: has_key_iff)
    then have reading: "node_state n = READING" using rb by (simp add: reading_back_def)
    let ?n0 = "n\<lparr>subpieces := (s, ?buf) # subpieces n, access_counter := t\<rparr>"
    let ?n = "if length (subpieces ?n0) = total_subpiece_count ?n0 then ?n0\<lparr>node_state := ALL_STATE\<rparr> else ?n0"
    have size: "(if (b, s) = last_subpiece_info m then last_subpiece_size m else 1024) = subpiece_bytes r (b, s)"
      using valid_size [OF rel(1), of "(b, s)"] rel(2) by simp
    have "LoadSubPieceBuffer t s ?buf n = Inr (True, ?n)"
      using reading en(2) by (simp add: LoadSubPieceBuffer_def has_key_iff)
    then have step: "managed_step lib t (Loaded info con) (m, disk) = Inr (put_block b (Some ?n) m, disk)"
      using Some b(3) info by (simp add: spm_LoadSubPiece_def get_block_def size del: length_Cons)
    have fields: "subpieces ?n = (s, ?buf) # subpieces n" "total_subpiece_count ?n = cap r b" "index ?n = b" "need_write ?n = need_write n"
      "piece_count ?n = piece_count n" "last_piece_capacity ?n = last_piece_capacity n"
      "node_state ?n = (if length (subpieces ?n) = total_subpiece_count ?n then ALL_STATE else READING)"
      using reading total by simp_all
    have "bn_shape ?n" using shape en(2) b(2) total(1) unfolding bn_shape_def fields by simp
    moreover have "\<forall>i v. map_of (subpieces ?n) i = Some v \<longrightarrow> held a (b, i) = Some v"
      unfolding fields(1) using rb en(3) by (simp add: reading_back_def)
    ultimately have back': "reading_back r b (held a) ?n"
      using rb unfolding reading_back_def [of r b "held a" ?n] fields(4) fields(7) by (simp add: reading_back_def [of r b "held a" n])
    let ?a = "a\<lparr>memory := (memory a)(b \<mapsto> insert s (set (keys n)))\<rparr>"
    have "store_rel lib r (put_block b (Some ?n) m, disk) ?a"
    proof (rule slot_simulated [OF assms(1) b(1)])
      show "block_rel r b (HasFullBlock lib b m) (Some ?n) (disk b) (held a) (memory ?a b) (b \<in> saved ?a)"
        using blk(1,3,4) is_saved back' unfolding block_rel_def option.case option.map fields(1-3) by simp
    qed simp_all
    moreover have "store_step r (Loaded info con :: ('b, 'c) store_event) a = ?a" using mem info by simp
    ultimately show ?thesis unfolding step by (simp only: result_spec_simps)
  qed
qed

lemma written_simulated:
  fixes lib :: "('m, 'b, 'c, 'h) resource_lib"
  assumes "store_rel lib r (m, disk) a" "enabled lib r (Written b) a"
  shows "result_spec (\<lambda>c. store_rel lib r c (store_step r (Written b :: ('b, 'c) store_event) a)) (managed_step lib t (Written b) (m, disk))"
proof -
  note rel = store_relD [OF assms(1)]
  have b: "b < block_count r" "b < length (blocks m)" "b \<in> saved a" using assms(2) sm_shapeD(3) [OF rel(1)] rel(2) by simp_all
  note blk = block_relD [OF rel(3) [OF b(1)]]
  have bit: "HasFullBlock lib b m" by (rule blk(3) [OF b(3)])
  have "managed_step lib t (Written b) (m, disk) = Inr (put_block b None m, disk)"
    using b(2) bit same_block_slot [of m b None] by (cases "blocks m ! b") (simp_all add: OnWriteBlockFinish_def get_block_def)
  moreover have "store_rel lib r (put_block b None m, disk) (a\<lparr>memory := (memory a)(b := None)\<rparr>)"
    by (rule slot_simulated [OF assms(1) b(1)]) (use blk(1,4) b(3) bit in \<open>simp_all add: block_rel_def\<close>)
  ultimately show ?thesis by simp
qed

lemma fetch_simulated:
  fixes lib :: "('m, 'b, 'c, 'h) resource_lib"
  assumes "store_rel lib r (m, disk) a" "enabled lib r (Fetch info) a"
  shows "result_spec (\<lambda>c. store_rel lib r c (store_step r (Fetch info :: ('b, 'c) store_event) a)) (managed_step lib t (Fetch info) (m, disk))"
    and "\<exists>m'. spm_GetSubPiece lib t info m = Inr (None, m') \<or> (\<exists>buf. spm_GetSubPiece lib t info m = Inr (Some buf, m') \<and> held a info = Some buf)"
proof -
  obtain b s where info: "info = (b, s)" by (rule prod.exhaust)
  note rel = store_relD [OF assms(1)]
  have b: "b < block_count r" "s < cap r b" "b < length (blocks m)"
    using assms(2) sm_shapeD(3) [OF rel(1)] rel(2) info by (simp_all add: in_range_def)
  note blk = block_relD [OF rel(3) [OF b(1)]]
  have "\<exists>p m'. spm_GetSubPiece lib t info m = Inr (p, m') \<and> store_rel lib r (m', disk) a \<and> (p \<noteq> None \<longrightarrow> held a info = p)"
  proof (cases "blocks m ! b")
    case None
    with b(3) info assms(1) show ?thesis by (simp add: spm_GetSubPiece_def get_block_def)
  next
    case (Some n)
    have total: "total_subpiece_count n = cap r b" "index n = b" using blk(7) [OF Some] by simp_all
    let ?n = "n\<lparr>access_counter := t\<rparr>"
    have kind: "if b \<in> saved a then reading_back r b (held a) n else filling r b (held a) n" using blk(8,9) [OF Some] by simp
    have "reading_back r b (held a) ?n = reading_back r b (held a) n" "filling r b (held a) ?n = filling r b (held a) n"
      by (simp_all add: reading_back_def filling_def bn_shape_def)
    with kind have "if b \<in> saved a then reading_back r b (held a) ?n else filling r b (held a) ?n" by simp
    then have "store_rel lib r (put_block b (Some ?n) m, disk) a"
      by (intro slot_simulated [OF assms(1) b(1)])
        (use blk(1-4) Some total in \<open>simp_all add: block_rel_def\<close>)
    moreover have "held a (b, s) = Some v" if "map_of (subpieces n) s = Some v" for v
      using kind that b(2) by (auto simp: reading_back_def filling_def split: if_splits)
    ultimately show ?thesis
      using Some b(2,3) info total(1) assms(1) same_block_slot [OF Some]
      by (cases "map_of (subpieces n) s") (auto simp: spm_GetSubPiece_def get_block_def GetSubPiece_def)
  qed
  then show "\<exists>m'. spm_GetSubPiece lib t info m = Inr (None, m') \<or> (\<exists>buf. spm_GetSubPiece lib t info m = Inr (Some buf, m') \<and> held a info = Some buf)"
    "result_spec (\<lambda>c. store_rel lib r c (store_step r (Fetch info :: ('b, 'c) store_event) a)) (managed_step lib t (Fetch info) (m, disk))"
    by (fastforce simp: not_None_eq, auto)
qed

section \<open>Runs\<close>

interpretation disk_store: forward_simulation "managed_step lib t" "store_step r" "enabled lib r" "store_rel lib r"
  for lib :: "('m, 'b, 'c, 'h) resource_lib" and t r
proof
  fix c :: "('m, 'b, 'h) managed" and a :: "'b store" and e :: "('b, 'c) store_event"
  obtain m disk where c: "c = (m, disk)" by (rule prod.exhaust)
  assume "store_rel lib r c a" "enabled lib r e a"
  then show "result_spec (\<lambda>c'. store_rel lib r c' (store_step r e a)) (managed_step lib t e c)"
    unfolding c
    by (cases e)
      (simp_all only: arrive_simulated evict_simulated reading_simulated loaded_simulated written_simulated fetch_simulated(1))
qed

text \<open>What has arrived, in order; the first buffer of a subpiece counts.\<close>

fun arrivals :: "('b, 'c) store_event list \<Rightarrow> ((nat \<times> nat) \<times> 'b) list" where
  "arrivals [] = []"
| "arrivals (Arrive info buf # es) = (info, buf) # arrivals es"
| "arrivals (_ # es) = arrivals es"

lemma held_step:
  "held (store_step r e a) info = (case held a info of Some v \<Rightarrow> Some v | None \<Rightarrow> map_of (arrivals [e]) info)"
  by (cases e) (auto split: option.splits)

lemma arrivals_Cons: "arrivals (e # es) = arrivals [e] @ arrivals es"
  by (cases e) simp_all

lemma held_run:
  "held (fold (store_step r) es a) info = (case held a info of Some v \<Rightarrow> Some v | None \<Rightarrow> map_of (arrivals es) info)"
proof (induction es arbitrary: a)
  case (Cons e es)
  show ?case
    unfolding fold_Cons comp_def Cons.IH held_step arrivals_Cons [of e es] map_of_append map_add_def
    by (cases "held a info"; cases "map_of (arrivals [e]) info") simp_all
qed (simp split: option.split)

definition empty_store :: "'b store" where
  "empty_store = \<lparr>held = \<lambda>_. None, memory = \<lambda>_. None, saved = {}\<rparr>"

lemma new_related:
  assumes "block_map_ok lib" "rid_ok r" "spm_new lib verify r False = Inr m"
  shows "store_rel lib (the_rid m) (m, \<lambda>_. None) empty_store" "the_rid m = r\<lparr>block_md5_s := block_md5_s (the_rid m)\<rparr>"
proof -
  obtain m' where m': "spm_new lib verify r False = Inr m'" "sm_mem_ok lib m'" "the_rid m' = r\<lparr>block_md5_s := block_md5_s (the_rid m')\<rparr>"
    "blocks m' = replicate (block_count r) None" "bm_bits lib (block_bit_map m') = replicate (block_count r) False"
    using spm_new_ok [OF assms(1,2), of verify False] by blast
  then have m: "m' = m" using assms(3) by simp
  note f = m'(2-) [unfolded m]
  show "the_rid m = r\<lparr>block_md5_s := block_md5_s (the_rid m)\<rparr>" by (rule f(2))
  have shape: "sm_shape lib m" using f(1) by (simp add: sm_mem_ok_def)
  have count: "block_count (the_rid m) = block_count r" by (subst f(2)) simp
  have "\<not> HasFullBlock lib b m" if "b < block_count r" for b
    using that f(4) has_full_bit [OF assms(1), of b m] by simp
  with shape f(3) count cap_bounds(1) [OF sm_shapeD(2) [OF shape]] show "store_rel lib (the_rid m) (m, \<lambda>_. None) empty_store"
    by (auto simp: store_rel_def block_rel_def empty_store_def)
qed

lemma run_related:
  assumes "block_map_ok lib" "rid_ok r" "spm_new lib verify r False = Inr m0"
    and "enabled_run (enabled lib (the_rid m0)) (store_step (the_rid m0)) es empty_store"
  shows "\<exists>m disk a. seq (map (managed_step lib t) es) (m0, \<lambda>_. None) = Inr (m, disk) \<and> store_rel lib (the_rid m0) (m, disk) a \<and>
    a = fold (store_step (the_rid m0)) es empty_store \<and> held a = map_of (arrivals es)"
proof -
  from disk_store.run_simulates [OF new_related(1) [OF assms(1-3)] assms(4), of t] obtain c where
    c: "seq (map (managed_step lib t) es) (m0, \<lambda>_. None) = Inr c"
      "store_rel lib (the_rid m0) c (fold (store_step (the_rid m0)) es empty_store)" by blast
  obtain m disk where "c = (m, disk)" by (rule prod.exhaust)
  moreover have "held (fold (store_step (the_rid m0)) es empty_store) = map_of (arrivals es)"
    by (rule ext) (simp add: held_run empty_store_def)
  ultimately show ?thesis using c by blast
qed

section \<open>Properties\<close>


text \<open>The last block of the example file, of one subpiece, arrives, leaves memory, is written and read back.\<close>

definition sample_events :: "(nat, unit) store_event list" where
  "sample_events = [Arrive (0, 1) 1024, Arrive (2, 0) 904, Evict 2, Written 2, Reading 2, Loaded (2, 0) (), Fetch (2, 0)]"

lemma sample_bytes: "subpiece_bytes (the_rid sample_new) (2, 0) = 904" "subpiece_bytes (the_rid sample_new) (0, 1) = 1024"
  unfolding subpiece_bytes_def sample_new_rid by simp_all

lemma sample_enabled:
  "enabled_run (enabled sample_rlib (the_rid sample_new)) (store_step (the_rid sample_new)) sample_events empty_store"
  by (simp add: sample_events_def empty_store_def in_range_def complete_def sample_new_rid sample_bytes [unfolded One_nat_def])
    (simp add: sample_rlib_def)


text \<open>C38: A block that has left memory cannot be given up.  When a block is complete and leaves memory it is posted to be hashed and
  written, and its node is gone; when the hash turns out to be wrong, the report \<^verbatim>\<open>RemoveBlockInfo\<close> takes the missing node for
  a programming error, and its assertion fails.\<close>

theorem evicted_block_cannot_be_removed:
  fixes lib :: "('m, 'b, 'c, 'h) resource_lib" and es :: "('b, 'c) store_event list"
  assumes "block_map_ok lib" "rid_ok r" "spm_new lib verify r False = Inr m0"
    and "enabled_run (enabled lib (the_rid m0)) (store_step (the_rid m0)) (es @ [Evict b]) empty_store"
    and "\<forall>s < cap r b. map_of (arrivals es) (b, s) \<noteq> None"
  shows "\<exists>m disk. seq (map (managed_step lib t) (es @ [Evict b])) (m0, \<lambda>_. None) = Inr (m, disk) \<and>
    disk b \<noteq> None \<and> RemoveBlockInfo lib b m = Inl AssertionFailed"
proof -
  let ?r = "the_rid m0" and ?es = "es @ [Evict b]"
  obtain m disk a where run: "seq (map (managed_step lib t) ?es) (m0, \<lambda>_. None) = Inr (m, disk)" "store_rel lib ?r (m, disk) a"
    "a = fold (store_step ?r) ?es empty_store"
    using run_related [OF assms(1-4), of t] by blast
  have "b < block_count ?r"
  proof -
    have "enabled_run en st (xs @ [x]) a \<Longrightarrow> en x (fold st xs a)" for en st and x :: "('b, 'c) store_event" and xs and a :: "'b store"
      by (induction xs arbitrary: a) auto
    from this [OF assms(4)] show ?thesis by simp
  qed
  note blk = block_relD [OF store_relD(3) [OF run(2) this]]
  let ?a = "fold (store_step ?r) es empty_store"
  have caps: "cap ?r b = cap r b" by (subst new_related(2) [OF assms(1-3)]) simp
  have "complete ?r b ?a" using assms(5) by (simp add: complete_def held_run empty_store_def caps)
  then have gone: "memory a b = None" "b \<in> saved a" by (simp_all add: run(3))
  then have "blocks m ! b = None" using blk(2) by simp
  then have "RemoveBlockInfo lib b m = Inl AssertionFailed"
    using \<open>b < block_count ?r\<close> sm_shapeD(3) [OF store_relD(1) [OF run(2)]] store_relD(2) [OF run(2)]
    by (simp add: RemoveBlockInfo_def get_block_def Let_def)
  moreover have "disk b \<noteq> None" using blk(4) gone(2) by simp
  ultimately show ?thesis using run(1) by blast
qed

theorem evicted_block_cannot_be_removed_witness:
  "\<exists>m disk. seq (map (managed_step sample_rlib 0) [Arrive (2, 0) 904, Evict 2]) (sample_new, \<lambda>_. None) = Inr (m, disk) \<and>
    RemoveBlockInfo sample_rlib 2 m = Inl AssertionFailed"
proof -
  let ?es = "[Arrive (2, 0) 904] :: (nat, unit) store_event list"
  have "enabled_run (enabled sample_rlib (the_rid sample_new)) (store_step (the_rid sample_new)) (?es @ [Evict 2]) empty_store"
    by (simp add: empty_store_def in_range_def sample_new_rid sample_bytes) (simp add: sample_rlib_def)
  from evicted_block_cannot_be_removed [OF sample_rlib_ok sample_file_ok sample_new_ok(1) this, of 0] show ?thesis
    by (auto simp: sample_cap)
qed

end
