(* ===== verification/ResourceConfig.thy ===== *)
theory ResourceConfig
  imports SubPieceManager
begin

text \<open>
  The description of a resource in its configuration file: what \<^verbatim>\<open>SubPieceManager::Parse\<close> makes of what \<^verbatim>\<open>ToBuffer\<close> wrote
  (\<^verbatim>\<open>storage/SubPieceManager.cpp\<close>).

  The description has an entry for every block that is not complete; what is known of a block that was being downloaded is
  discarded, as the comments of the code say, and a block without an entry is taken to be complete.  The lemmas follow the
  two loops: the writing loop never overruns its temporary buffer (for at most 4096 blocks), and the reading loop consumes
  the entries one by one.
\<close>

section \<open>Writing\<close>

text \<open>The entry of a block that is not complete.\<close>

definition block_bytes :: "('m, 'b, 'h) resource_blocks \<Rightarrow> nat \<Rightarrow> u8 list" where
  "block_bytes m b = projr (block_buffer b m)"

definition block_entry :: "('m, 'b, 'h) resource_blocks \<Rightarrow> nat \<Rightarrow> u8 list" where
  "block_entry m b = put32 b @ put32 (length (block_bytes m b)) @ block_bytes m b"

definition incomplete :: "('m, 'b, 'c, 'h) resource_lib \<Rightarrow> ('m, 'b, 'h) resource_blocks \<Rightarrow> nat list" where
  "incomplete lib m = filter (\<lambda>b. \<not> HasFullBlock lib b m) [0..<block_count (the_rid m)]"

definition space :: "nat \<Rightarrow> u8 list \<Rightarrow> bool" where
  "space sz out = (16384 \<le> sz \<and> length out + 256 \<le> sz \<and> sz \<le> 2 * (length out + 16384))"

lemma block_bytes_ok:
  assumes "sm_mem_ok lib m" "b < block_count (the_rid m)"
  shows "block_buffer b m = Inr (block_bytes m b)" "0 < length (block_bytes m b)" "length (block_bytes m b) \<le> 13316"
proof -
  have shape: "sm_shape lib m" using assms(1) by (simp add: sm_mem_ok_def)
  note sh = sm_shapeD [OF shape]
  have "\<exists>bs. block_buffer b m = Inr bs \<and> 0 < length bs \<and> length bs \<le> 13316"
  proof (cases "blocks m ! b")
    case None
    then show ?thesis by (simp add: block_buffer_def NullBlockToBuffer_def)
  next
    case (Some n)
    with assms sh(3) have n: "bn_mem_ok n" "total_subpiece_count n = cap (the_rid m) b"
      by (auto simp: sm_mem_ok_def node_fits_def dest: all_nodesD)
    note ok = mem_counts [OF n(1)]
    have "length (piece_count n) = (cap (the_rid m) b + 127) div 128"
      using n bn_mem_parts(1) [OF n(1)] by (simp add: bn_shape_def pieces_of_def)
    moreover have "(cap (the_rid m) b + 127) div 128 \<le> (2 ^ 16 + 127) div 128"
      using cap_bounds(3) [OF sh(2), of b] by (intro div_le_mono) simp
    ultimately have "length (piece_count n) \<le> 512" by simp
    then have "length (put32 (total_subpiece_count n) @ concat (map (piece_entry n) [0..<length (piece_count n)])) \<le> 13316"
      using entries_length [OF ok] by simp
    moreover have "0 < length (put32 (total_subpiece_count n) @ concat (map (piece_entry n) [0..<length (piece_count n)]))" by simp
    ultimately show ?thesis using ToBuffer_eq [OF ok] Some by (simp only: block_buffer_def option.case) blast
  qed
  then show "block_buffer b m = Inr (block_bytes m b)" "0 < length (block_bytes m b)" "length (block_bytes m b) \<le> 13316"
    by (auto simp: block_bytes_def)
qed

lemma write_block_ok:
  assumes "sm_mem_ok lib m" "b < block_count (the_rid m)" "space sz out" "length out + 13324 \<le> 2 ^ 28"
  shows "\<exists>sz'. write_block lib m b (sz, out) =
      Inr (sz', out @ (if HasFullBlock lib b m then [] else block_entry m b)) \<and>
    space sz' (out @ (if HasFullBlock lib b m then [] else block_entry m b))"
proof (cases "HasFullBlock lib b m")
  case True
  with assms(3) show ?thesis by (simp add: write_block_def)
next
  case False
  note bb = block_bytes_ok [OF assms(1,2)]
  define l where "l = length (block_bytes m b)"
  define sz' where "sz' = (if sz < length out + 8 + l + 256 then sz * 2 else sz)"
  have l: "l \<le> 13316" using bb(3) by (simp add: l_def)
  have r: "16384 \<le> sz" "length out + 256 \<le> sz" "sz \<le> 2 * (length out + 16384)" using assms(3) by (simp_all add: space_def)
  have r': "16384 \<le> sz'" "length out + 8 + l + 256 \<le> sz'" "sz' \<le> 2 * (length out + 8 + l + 16384)"
    using r l by (auto simp: sz'_def)
  have big: "sz \<le> 0x3FFFFFFF" "sz' \<le> 0x3FFFFFFF" using r r' l assms(4) by auto
  have "append_bytes sz (put32 b) out = Inr (out @ put32 b)"
    using r big by (simp add: append_bytes_def memcpy2_ok_le)
  moreover have "append_bytes sz (put32 l) (out @ put32 b) = Inr (out @ put32 b @ put32 l)"
    using r big by (simp add: append_bytes_def memcpy2_ok_le)
  moreover have "append_bytes sz' (block_bytes m b) (out @ put32 b @ put32 l) = Inr (out @ block_entry m b)"
    using r' big by (simp add: append_bytes_def memcpy2_ok_le block_entry_def l_def [symmetric])
  ultimately have "write_block lib m b (sz, out) = Inr (sz', out @ block_entry m b)"
    using False bb(1) by (simp add: write_block_def Let_def l_def [symmetric] sz'_def add.commute add.left_commute)
  moreover have "space sz' (out @ block_entry m b)" using r' by (simp add: space_def block_entry_def l_def [symmetric])
  ultimately show ?thesis using False by simp
qed

lemma write_blocks_ok:
  assumes "sm_mem_ok lib m" "\<forall>b \<in> set bs. b < block_count (the_rid m)" "space sz out" "length out + 13324 * length bs \<le> 2 ^ 28"
  shows "\<exists>sz'. seq (map (write_block lib m) bs) (sz, out) =
    Inr (sz', out @ concat (map (block_entry m) (filter (\<lambda>b. \<not> HasFullBlock lib b m) bs)))"
  using assms(2-4)
proof (induction bs arbitrary: sz out)
  case (Cons b bs)
  let ?e = "if HasFullBlock lib b m then [] else block_entry m b"
  have b: "b < block_count (the_rid m)" using Cons.prems(1) by simp
  obtain sz' where sz': "write_block lib m b (sz, out) = Inr (sz', out @ ?e)" "space sz' (out @ ?e)"
    using write_block_ok [OF assms(1) b Cons.prems(2)] Cons.prems(3) by auto
  have "length ?e \<le> 13324" using block_bytes_ok(3) [OF assms(1) b] by (simp add: block_entry_def)
  then have "length (out @ ?e) + 13324 * length bs \<le> 2 ^ 28" using Cons.prems(3) by simp
  with Cons.IH [OF _ sz'(2)] Cons.prems(1) sz'(1) show ?case by (auto split: if_splits)
qed simp

lemma spm_ToBuffer_eq:
  assumes "sm_mem_ok lib m" "block_count (the_rid m) \<le> 4096"
  shows "spm_ToBuffer lib m = Inr (concat (map (block_entry m) (incomplete lib m)))"
proof -
  have shape: "sm_shape lib m" using assms(1) by (simp add: sm_mem_ok_def)
  obtain sz' where "seq (map (write_block lib m) [0..<block_count (the_rid m)]) (16384, []) =
      Inr (sz', concat (map (block_entry m) (incomplete lib m)))"
    using write_blocks_ok [OF assms(1), of "[0..<block_count (the_rid m)]" 16384 "[]"] assms(2)
    by (auto simp: space_def incomplete_def)
  then show ?thesis using sm_shapeD(3) [OF shape] by (simp add: spm_ToBuffer_def)
qed

section \<open>Reading\<close>

text \<open>A block whose entry is read back as a block of which nothing is known.\<close>

definition forgotten :: "('m, 'b, 'h) resource_blocks \<Rightarrow> nat \<Rightarrow> bool" where
  "forgotten m b = (\<forall>n. blocks m ! b = Some n \<longrightarrow> 128 < total_subpiece_count n)"

lemma Parse_forgotten:
  assumes "sm_mem_ok lib m" "b < block_count (the_rid m)" "forgotten m b"
  shows "(Parse t b (block_bytes m b) :: 'b block_node option option result option) = Some (Inr (Some None))"
proof (cases "blocks m ! b")
  case None
  have "get32 (replicate 4 0) 0 = 0" using get32_zeros [of "[]" 4 0] by simp
  with None show ?thesis
    by (simp add: block_bytes_def block_buffer_def NullBlockToBuffer_def Parse_def CheckBuf_def)
next
  case (Some n)
  have shape: "sm_shape lib m" using assms(1) by (simp add: sm_mem_ok_def)
  from Some assms(1,2) sm_shapeD(3) [OF shape] have n: "bn_mem_ok n" "index n = b"
    by (auto simp: sm_mem_ok_def node_fits_def dest: all_nodesD)
  have "128 < total_subpiece_count n" using assms(3) Some by (simp add: forgotten_def)
  from Parse_ToBuffer_unsaved_discarded [OF n(1) this, of t] Some n(2) show ?thesis
    by (auto simp: block_bytes_def block_buffer_def)
qed

lemma block_map_at: "parse_blocks lib t buf (length buf) acc = Some (Inr (Some acc))"
  by (subst parse_blocks.simps) simp

lemma parse_blocks_eq:
  assumes "sm_mem_ok lib m" "\<forall>b \<in> set bs. b < block_count (the_rid m) \<and> forgotten m b"
    and "length (blocks (fst acc)) = block_count (the_rid m)"
    and "length pre + 13324 * length bs < 2 ^ 32"
  shows "parse_blocks lib t (pre @ concat (map (block_entry m) bs)) (length pre) acc =
    Some (Inr (Some (fold (\<lambda>b. parsed_block lib b None) bs acc)))"
  using assms(2-4)
proof (induction bs arbitrary: pre acc)
  case Nil
  then show ?case by (simp add: block_map_at)
next
  case (Cons b bs)
  let ?rest = "concat (map (block_entry m) bs)" and ?l = "length (block_bytes m b)"
  let ?buf = "pre @ put32 b @ put32 ?l @ block_bytes m b @ ?rest"
  have b: "b < block_count (the_rid m)" "forgotten m b" using Cons.prems(1) by simp_all
  have shape: "sm_shape lib m" using assms(1) by (simp add: sm_mem_ok_def)
  note bb = block_bytes_ok [OF assms(1) b(1)]
  have b32: "b < 2 ^ 32" using b(1) rid_ok_facts(5) [OF sm_shapeD(2) [OF shape]] by simp
  have g: "get32 ?buf (length pre) = b" using get_put(1) [OF b32, of pre] by simp
  have "get32 ((pre @ put32 b) @ put32 ?l @ block_bytes m b @ ?rest) (length (pre @ put32 b)) = ?l"
    by (rule get_put(1)) (use bb(3) in simp)
  then have g': "get32 ?buf (length pre + 4) = ?l" by simp
  have take: "take ?l (drop (length pre + 8) ?buf) = block_bytes m b"
    by simp
  have IH: "parse_blocks lib t ((pre @ block_entry m b) @ ?rest) (length (pre @ block_entry m b)) (parsed_block lib b None acc) =
      Some (Inr (Some (fold (\<lambda>b. parsed_block lib b None) bs (parsed_block lib b None acc))))"
  proof (rule Cons.IH)
    show "length (blocks (fst (parsed_block lib b None acc))) = block_count (the_rid m)"
      using Cons.prems(2) by (simp add: parsed_block_def case_prod_beta Let_def)
    show "length (pre @ block_entry m b) + 13324 * length bs < 2 ^ 32"
      using Cons.prems(3) bb(3) by (simp add: block_entry_def)
  qed (use Cons.prems(1) in simp)
  have "(length pre + 8 + ?l) mod 2 ^ 32 = length pre + 8 + ?l" using Cons.prems(3) bb(3) by simp
  moreover have "?l \<noteq> 0" "?l \<le> 0x3FFFFFFF" using bb(2,3) by simp_all
  ultimately have "parse_blocks lib t ?buf (length pre) acc =
      parse_blocks lib t ?buf (length pre + 8 + ?l) (parsed_block lib b None acc)"
    using g g' take b(1) Cons.prems(2)
    by (subst parse_blocks.simps) (simp add: Let_def Parse_forgotten [OF assms(1) b, of t])
  with IH show ?case by (simp add: block_entry_def [of m b] add.assoc)
qed

section \<open>The manager that is read back\<close>

lemma parsed_block_None:
  "parsed_block lib b None (m, k) =
     ((put_block b None m)\<lparr>block_bit_map := bm_Reset lib b (block_bit_map m), blocks_count := dec32 (blocks_count m)\<rparr>,
      (k + GetBlockSubPieceCount b m) mod 2 ^ 32)"
  by (simp add: parsed_block_def put_block_def)

definition read_from :: "('m, 'b, 'c, 'h) resource_lib \<Rightarrow> nat list \<Rightarrow> ('m, 'b, 'h) resource_blocks \<Rightarrow> ('m, 'b, 'h) resource_blocks \<Rightarrow> bool" where
  "read_from lib bs m m' =
     (the_rid m' = the_rid m \<and> last_subpiece_info m' = last_subpiece_info m \<and> last_block_capacity m' = last_block_capacity m \<and>
      last_subpiece_size m' = last_subpiece_size m \<and> length (blocks m') = length (blocks m) \<and>
      length (bm_bits lib (block_bit_map m')) = length (bm_bits lib (block_bit_map m)) \<and>
      ((\<forall>slot \<in> set (blocks m). slot = None) \<longrightarrow> (\<forall>slot \<in> set (blocks m'). slot = None)) \<and>
      (\<forall>c < length (bm_bits lib (block_bit_map m)).
         bm_bits lib (block_bit_map m') ! c = (bm_bits lib (block_bit_map m) ! c \<and> c \<notin> set bs)) \<and>
      (length bs \<le> blocks_count m \<longrightarrow> blocks_count m' = blocks_count m - length bs))"

lemma fold_parsed:
  assumes "block_map_ok lib" "k < 2 ^ 32"
  shows "\<exists>m'. fold (\<lambda>b. parsed_block lib b None) bs (m, k) =
      (m', (k + (\<Sum>b \<leftarrow> bs. GetBlockSubPieceCount b m)) mod 2 ^ 32) \<and> read_from lib bs m m'"
  using assms(2)
proof (induction bs arbitrary: m k)
  case Nil
  then show ?case by (simp add: read_from_def)
next
  case (Cons b bs)
  let ?m1 = "(put_block b None m)\<lparr>block_bit_map := bm_Reset lib b (block_bit_map m), blocks_count := dec32 (blocks_count m)\<rparr>"
  let ?k1 = "(k + GetBlockSubPieceCount b m) mod 2 ^ 32"
  have count: "GetBlockSubPieceCount c ?m1 = GetBlockSubPieceCount c m" for c by (simp add: GetBlockSubPieceCount_def)
  obtain m' where m': "fold (\<lambda>b. parsed_block lib b None) bs (?m1, ?k1) = (m', (?k1 + (\<Sum>b \<leftarrow> bs. GetBlockSubPieceCount b m)) mod 2 ^ 32)"
    "read_from lib bs ?m1 m'" using Cons.IH [of ?k1 ?m1] by (auto simp: count)
  have none: "(\<forall>slot \<in> set (blocks m). slot = None) \<Longrightarrow> (\<forall>slot \<in> set (blocks ?m1). slot = None)"
    by (auto dest: set_update_subset_insert [THEN subsetD])
  have bits: "bm_bits lib (block_bit_map ?m1) = (bm_bits lib (block_bit_map m))[b := False]" using assms(1) by simp
  have "read_from lib (b # bs) m m'"
    unfolding read_from_def
  proof (intro conjI allI impI)
    fix c assume c: "c < length (bm_bits lib (block_bit_map m))"
    then have "bm_bits lib (block_bit_map m') ! c = ((bm_bits lib (block_bit_map m))[b := False] ! c \<and> c \<notin> set bs)"
      using m'(2) unfolding read_from_def bits by simp
    with c show "bm_bits lib (block_bit_map m') ! c = (bm_bits lib (block_bit_map m) ! c \<and> c \<notin> set (b # bs))"
      by (cases "c = b") simp_all
  next
    assume "length (b # bs) \<le> blocks_count m"
    then show "blocks_count m' = blocks_count m - length (b # bs)" using m'(2) by (simp add: read_from_def dec32_def)
  qed (use m'(2) none bits in \<open>simp_all add: read_from_def\<close>)
  moreover have "(?k1 + (\<Sum>b \<leftarrow> bs. GetBlockSubPieceCount b m)) mod 2 ^ 32 =
      (k + (\<Sum>b \<leftarrow> b # bs. GetBlockSubPieceCount b m)) mod 2 ^ 32"
    by (simp add: mod_simps add.assoc)
  ultimately show ?case using m'(1) by (simp add: parsed_block_None)
qed

section \<open>The downloaded bytes\<close>

definition bytes_of_block :: "'h rid_info \<Rightarrow> nat \<Rightarrow> nat" where
  "bytes_of_block r b =
     (if b = block_count r - 1 then file_length r - (block_count r - 1) * block_size r else block_size r)"

lemma sum_split: "(\<Sum>x \<leftarrow> filter P xs. f x) + (\<Sum>x \<leftarrow> filter (\<lambda>x. \<not> P x) xs. f x) = (\<Sum>x \<leftarrow> xs. f x)" for f :: "'a \<Rightarrow> nat"
  by (induction xs) auto

lemma sum_blocks:
  assumes "rid_ok r"
  shows "(\<Sum>b \<leftarrow> [0..<block_count r]. bytes_of_block r b) = file_length r"
proof -
  let ?l = "block_count r - 1"
  have c: "block_count r = Suc ?l" using rid_ok_facts(1) [OF assms] by simp
  have "(\<Sum>b \<leftarrow> [0..<k]. bytes_of_block r b) = k * block_size r" if "k \<le> ?l" for k
    using that by (induction k) (simp_all add: bytes_of_block_def)
  from this [of ?l] have "(\<Sum>b \<leftarrow> [0..<Suc ?l]. bytes_of_block r b) = ?l * block_size r + bytes_of_block r ?l" by simp
  also have "\<dots> = file_length r" using rid_ok_facts(3) [OF assms] by (simp add: bytes_of_block_def)
  finally show ?thesis using c by simp
qed

text \<open>The subpieces of a block are worth its bytes, except those of the last block.\<close>

lemma cap_bytes:
  assumes "rid_ok r" "b < block_count r"
  shows "cap r b * 1024 = bytes_of_block r b + (if b = block_count r - 1 then 1023 - (file_length r - 1) mod 1024 else 0)"
proof (cases "b = block_count r - 1")
  case True
  have "0 < cap r b" by (rule cap_bounds(1) [OF assms(1)])
  then have "cap r b * 1024 = (cap r b - 1) * 1024 + 1024" by (simp add: diff_mult_distrib)
  moreover define z where "z = (file_length r - 1) mod 1024"
  have z: "z < 1024" by (simp add: z_def)
  have "file_length r - (block_count r - 1) * block_size r = (cap r b - 1) * 1024 + (z + 1)"
    using last_subpiece [OF assms(1)] unfolding z_def True by linarith
  then have "bytes_of_block r b = (cap r b - 1) * 1024 + (z + 1)" using True by (simp add: bytes_of_block_def)
  moreover have "z + 1 + (1023 - z) = 1024" using z by simp
  ultimately have "cap r b * 1024 = bytes_of_block r b + (1023 - z)" by linarith
  then show ?thesis using True by (simp add: z_def)
next
  case False
  have "block_size r div 1024 * 1024 = block_size r" using assms(1) by (simp add: rid_ok_def mod_eq_0_iff_dvd)
  with False show ?thesis by (simp add: cap_def bytes_of_block_def)
qed

lemma sum_caps:
  assumes "rid_ok r" "\<forall>b \<in> set bs. b < block_count r" "distinct bs"
  shows "(\<Sum>b \<leftarrow> bs. cap r b) * 1024 =
    (\<Sum>b \<leftarrow> bs. bytes_of_block r b) + (if block_count r - 1 \<in> set bs then 1023 - (file_length r - 1) mod 1024 else 0)"
  using assms(2,3)
proof (induction bs)
  case (Cons b bs)
  let ?d = "1023 - (file_length r - 1) mod 1024"
  have "(\<Sum>b \<leftarrow> bs. cap r b) * 1024 = (\<Sum>b \<leftarrow> bs. bytes_of_block r b) + (if block_count r - 1 \<in> set bs then ?d else 0)"
    using Cons by simp
  moreover have "cap r b * 1024 = bytes_of_block r b + (if b = block_count r - 1 then ?d else 0)"
    by (rule cap_bytes [OF assms(1)]) (use Cons.prems in simp)
  moreover have "\<not> (b = block_count r - 1 \<and> block_count r - 1 \<in> set bs)" using Cons.prems by auto
  moreover have "(\<Sum>b \<leftarrow> b # bs. cap r b) * 1024 = cap r b * 1024 + (\<Sum>b \<leftarrow> bs. cap r b) * 1024" by (simp add: add_mult_distrib)
  ultimately show ?case by (auto simp del: One_nat_def)
qed simp

lemma mod_pred: "0 < n \<Longrightarrow> (n - 1) mod 1024 = (if n mod 1024 = 0 then 1023 else n mod 1024 - 1)" for n :: nat
  by (cases n) (auto simp: mod_Suc)

lemma parsed_bytes:
  assumes "rid_ok r" "\<forall>b \<in> set bs. b < block_count r" "distinct bs" "(\<Sum>b \<leftarrow> bs. bytes_of_block r b) \<le> file_length r"
    and "has_last = (block_count r - 1 \<notin> set bs)"
  shows "parsed_download_bytes has_last (file_length r) (\<Sum>b \<leftarrow> bs. cap r b) =
    (file_length r - (\<Sum>b \<leftarrow> bs. bytes_of_block r b) + (if \<not> has_last \<and> file_length r mod 1024 = 0 then 1024 else 0)) mod 2 ^ 32"
proof -
  let ?c = "\<Sum>b \<leftarrow> bs. cap r b" and ?s = "\<Sum>b \<leftarrow> bs. bytes_of_block r b" and ?f = "file_length r"
  have f: "0 < ?f" "?f < 2 ^ 32" using assms(1) by (simp_all add: rid_ok_def)
  note caps = sum_caps [OF assms(1-3)]
  have "(if has_last then int ?f - int ?c * 1024 else int ?f - ((int ?c - 1) * 1024 + int (?f mod 1024))) =
      int (?f - ?s + (if \<not> has_last \<and> ?f mod 1024 = 0 then 1024 else 0))"
  proof (cases has_last)
    case True
    then have "int ?c * 1024 = int ?s" using caps assms(5) by (simp flip: of_nat_mult)
    with True assms(4) show ?thesis by simp
  next
    case False
    then have "int ?c * 1024 = int (?s + (1023 - (?f - 1) mod 1024))" using caps assms(5) by (simp flip: of_nat_mult)
    moreover have "?f mod 1024 < 1024" by simp
    ultimately show ?thesis using False assms(4) mod_pred [OF f(1)] by (auto simp: algebra_simps)
  qed
  moreover have "nat (int n mod 2 ^ 32) = n mod 2 ^ 32" for n by (simp add: nat_mod_distrib)
  ultimately show ?thesis by (simp only: parsed_download_bytes_def bytes_num_per_subpiece_g_def of_nat_numeral)
qed

section \<open>Writing and reading back\<close>

lemma bits_count:
  assumes "block_map_ok lib" "length (bm_bits lib (block_bit_map m)) = k"
  shows "bm_GetCount lib (block_bit_map m) = length (filter (\<lambda>b. HasFullBlock lib b m) [0..<k])"
proof -
  have "bm_GetCount lib (block_bit_map m) = length (filter (\<lambda>b. b) (bm_bits lib (block_bit_map m)))"
    using assms(1) unfolding block_map_ok_def by blast
  also have "bm_bits lib (block_bit_map m) = map (\<lambda>b. HasFullBlock lib b m) [0..<k]"
    by (rule nth_equalityI) (use assms has_full_bit [OF assms(1), of _ m] in simp_all)
  finally show ?thesis by (simp add: filter_map comp_def)
qed

lemma restart_result:
  assumes "sm_mem_ok lib m" "block_count (the_rid m) \<le> 4096"
    and "\<forall>b < block_count (the_rid m). \<not> HasFullBlock lib b m \<longrightarrow> forgotten m b"
  defines "r \<equiv> the_rid m"
  shows "\<exists>bs m'. spm_ToBuffer lib m = Inr bs \<and> spm_Parse lib verify t bs r = Some (Inr (Some m')) \<and> sm_mem_ok lib m' \<and>
    (\<forall>b < block_count r. HasFullBlock lib b m' = HasFullBlock lib b m \<and> blocks m' ! b = None) \<and>
    blocks_count m' = GetDownloadedBlockCount lib m \<and>
    download_bytes m' = (\<Sum>b \<leftarrow> filter (\<lambda>b. HasFullBlock lib b m) [0..<block_count r]. bytes_of_block r b) +
      (if \<not> HasFullBlock lib (block_count r - 1) m \<and> file_length r mod 1024 = 0 then 1024 else 0)"
proof -
  have shape: "sm_shape lib m" using assms(1) by (simp add: sm_mem_ok_def)
  note sh = sm_shapeD [OF shape, folded r_def]
  let ?c = "block_count r" and ?bs = "incomplete lib m" and ?full = "\<lambda>b. HasFullBlock lib b m"
  have bs: "\<forall>b \<in> set ?bs. b < ?c \<and> forgotten m b" "distinct ?bs" "set ?bs = {b. b < ?c \<and> \<not> ?full b}"
    using assms(3) by (auto simp: incomplete_def r_def)
  obtain m0 where m0: "spm_new lib verify r True = Inr m0" "sm_mem_ok lib m0" "the_rid m0 = r\<lparr>block_md5_s := block_md5_s (the_rid m0)\<rparr>"
    "blocks m0 = replicate ?c None" "bm_bits lib (block_bit_map m0) = replicate ?c True" "blocks_count m0 = ?c"
    using spm_new_ok [OF sh(1,2), of verify True] by auto
  define m1 where "m1 = m0\<lparr>block_bit_map := bm_SetAll lib True (block_bit_map m0)\<rparr>"
  have shape0: "sm_shape lib m0" using m0(2) by (simp add: sm_mem_ok_def)
  have bits1: "bm_bits lib (block_bit_map m1) = replicate ?c True"
    by (simp add: m1_def block_map_facts(2) [OF sh(1)] m0(5) map_replicate_const)
  have rid0: "block_count (the_rid m0) = ?c" "cap (the_rid m0) = cap r" "file_length (the_rid m0) = file_length r"
    by (subst m0(3), simp, rule ext, subst m0(3), simp, subst m0(3), simp)
  have shape1: "sm_shape lib m1" using shape0 bits1 rid0(1) unfolding sm_shape_def by (simp add: m1_def)
  have f1: "the_rid m1 = the_rid m0" "blocks m1 = replicate ?c None" "blocks_count m1 = ?c" using m0 by (simp_all add: m1_def)
  have counts: "map (\<lambda>b. GetBlockSubPieceCount b m1) ?bs = map (cap r) ?bs"
    using bs(1) capacity_eq(2) [OF shape1] rid0 f1(1) by simp
  let ?k = "\<Sum>b \<leftarrow> ?bs. cap r b"
  have parts: "(\<Sum>b \<leftarrow> filter ?full [0..<?c]. bytes_of_block r b) + (\<Sum>b \<leftarrow> ?bs. bytes_of_block r b) = file_length r"
    using sum_split [where P = ?full and f = "bytes_of_block r" and xs = "[0..<?c]"] sum_blocks [OF sh(2)]
    by (simp add: incomplete_def r_def)
  have f: "0 < file_length r" "file_length r < 2 ^ 32" using sh(2) by (simp_all add: rid_ok_def)
  have "?k * 1024 \<le> file_length r + 1023" using sum_caps [OF sh(2), of ?bs] bs(1,2) parts by (auto split: if_splits)
  then have k: "?k mod 2 ^ 32 = ?k" using f(2) by simp
  obtain m2 where m2: "fold (\<lambda>b. parsed_block lib b None) ?bs (m1, 0) = (m2, ?k)" "read_from lib ?bs m1 m2"
  proof -
    have "\<exists>m'. fold (\<lambda>b. parsed_block lib b None) ?bs (m1, 0) = (m', ?k) \<and> read_from lib ?bs m1 m'"
      using fold_parsed [OF sh(1), of 0 ?bs m1] unfolding counts add_0 k by simp
    then show ?thesis using that by blast
  qed
  have len: "0 + 13324 * length ?bs < (2::nat) ^ 32"
  proof -
    have "length ?bs \<le> ?c" unfolding incomplete_def r_def using length_filter_le [of _ "[0..<block_count (the_rid m)]"] by simp
    with assms(2) show ?thesis by (simp add: r_def)
  qed
  have parse: "parse_blocks lib t (concat (map (block_entry m) ?bs)) 0 (m1, 0) = Some (Inr (Some (m2, ?k)))"
    using parse_blocks_eq [OF assms(1), where bs = ?bs and acc = "(m1, 0)" and pre = "[]" and t = t] bs(1) f1(2) len m2(1) by (simp add: r_def)
  have rd: "the_rid m2 = the_rid m0" "last_subpiece_info m2 = last_subpiece_info m1" "length (blocks m2) = ?c"
    "length (bm_bits lib (block_bit_map m2)) = ?c" "\<forall>slot \<in> set (blocks m2). slot = None"
    "\<forall>b < ?c. bm_bits lib (block_bit_map m2) ! b = (b \<notin> set ?bs)" "blocks_count m2 = ?c - length ?bs"
    using m2(2) f1 bits1 unfolding read_from_def incomplete_def r_def by (auto intro: length_filter_le [THEN order_trans])
  have none: "blocks m2 ! b = None" if "b < ?c" for b using rd(3,5) that nth_mem by fastforce
  have full2: "HasFullBlock lib b m2 = ?full b" if "b < ?c" for b
    using rd(4,6) that bs(3) has_full_bit [OF sh(1), of b m2] by simp
  have last: "fst (last_subpiece_info m2) = ?c - 1" using sm_shapeD(5) [OF shape1] rd(2) f1(1) rid0(1) by simp
  have c: "?c - 1 < ?c" using rid_ok_facts(1) [OF sh(2)] by simp
  have has: "spm_HasSubPiece lib (last_subpiece_info m2) m2 = Inr (?full (?c - 1))"
    using full2 [OF c] none [OF c] rd(3) c last by (simp add: spm_HasSubPiece_def get_block_def)
  define m' where "m' = m2\<lparr>download_bytes := parsed_download_bytes (?full (?c - 1)) (file_length r) ?k\<rparr>"
  have result: "spm_Parse lib verify t (concat (map (block_entry m) ?bs)) r = Some (Inr (Some m'))"
    using m0(1) parse has rd(1) rid0(3) by (simp add: spm_Parse_def m1_def [symmetric] m'_def)
  have last_in: "?full (?c - 1) = (?c - 1 \<notin> set ?bs)" using bs(3) c by auto
  have "\<forall>b \<in> set ?bs. b < ?c" "(\<Sum>b \<leftarrow> ?bs. bytes_of_block r b) \<le> file_length r" using bs(1) parts by (blast, linarith)
  note counted = parsed_bytes [OF sh(2) this(1) bs(2) this(2) last_in]
  have "download_bytes m' = parsed_download_bytes (?full (?c - 1)) (file_length r) ?k" by (simp add: m'_def)
  then have "download_bytes m' = (file_length r - (\<Sum>b \<leftarrow> ?bs. bytes_of_block r b) +
      (if \<not> ?full (?c - 1) \<and> file_length r mod 1024 = 0 then 1024 else 0)) mod 2 ^ 32" using counted by (rule trans)
  also have "\<dots> = file_length r - (\<Sum>b \<leftarrow> ?bs. bytes_of_block r b) + (if \<not> ?full (?c - 1) \<and> file_length r mod 1024 = 0 then 1024 else 0)"
  proof (cases "\<not> ?full (?c - 1) \<and> file_length r mod 1024 = 0")
    case True
    then have "?c - 1 \<in> set ?bs" using bs(3) c by auto
    then have "bytes_of_block r (?c - 1) \<le> (\<Sum>b \<leftarrow> ?bs. bytes_of_block r b)" by (intro member_le_sum_list) simp_all
    moreover have "0 < bytes_of_block r (?c - 1)" using rid_ok_facts(3) [OF sh(2)] by (simp add: bytes_of_block_def)
    moreover obtain q where q: "file_length r = 1024 * q" using True by (auto simp: mod_eq_0_iff_dvd dvd_def)
    then have "file_length r \<le> 2 ^ 32 - 1024" using f(2) by simp
    ultimately show ?thesis using True f by simp
  next
    case False
    then have "(if \<not> ?full (?c - 1) \<and> file_length r mod 1024 = 0 then 1024 else 0) = (0 :: nat)" by (simp only: if_False)
    then show ?thesis using f by simp
  qed
  finally have bytes: "download_bytes m' = (\<Sum>b \<leftarrow> filter ?full [0..<?c]. bytes_of_block r b) +
      (if \<not> ?full (?c - 1) \<and> file_length r mod 1024 = 0 then 1024 else 0)" using parts by simp
  have shape2: "sm_shape lib m'"
    using shape1 m2(2) rd bits1 unfolding sm_shape_def read_from_def by (simp add: m'_def f1 rid0)
  then have ok: "sm_mem_ok lib m'" using none rd(3) by (simp add: sm_mem_ok_def all_nodes_def m'_def)
  have "length (filter ?full [0..<?c]) + length ?bs = ?c"
    using sum_length_filter_compl [of ?full "[0..<?c]"] by (simp add: incomplete_def r_def)
  then have "blocks_count m' = GetDownloadedBlockCount lib m"
    using rd(7) bits_count [OF sh(1,4)] by (simp add: GetDownloadedBlockCount_def m'_def)
  moreover have "HasFullBlock lib b m' = ?full b \<and> blocks m' ! b = None" if "b < ?c" for b
    using full2 [OF that] none [OF that] by (simp add: HasFullBlock_def m'_def)
  ultimately show ?thesis using spm_ToBuffer_eq [OF assms(1,2)] result ok bytes by blast
qed

section \<open>Properties\<close>

text \<open>C21: A resource survives a restart.  The description of a resource with at most 4096 blocks is written without overrunning its
  buffer, and reading it back gives a consistent manager with exactly the same complete blocks and without nodes: blocks that
  were being downloaded (those of more than one piece) start again from nothing.  The number of blocks is right, and so
  are the downloaded bytes, unless the last block is missing from a file whose length is a multiple of 1024.\<close>

theorem restart_keeps_complete_blocks:
  assumes "sm_mem_ok lib m" "block_count (the_rid m) \<le> 4096"
    and "\<forall>b < block_count (the_rid m). \<not> HasFullBlock lib b m \<longrightarrow>
      (case blocks m ! b of None \<Rightarrow> True | Some n \<Rightarrow> 128 < total_subpiece_count n)"
  shows "\<exists>bs m'. spm_ToBuffer lib m = Inr bs \<and> spm_Parse lib verify t bs (the_rid m) = Some (Inr (Some m')) \<and> sm_mem_ok lib m' \<and>
    (\<forall>b < block_count (the_rid m). HasFullBlock lib b m' = HasFullBlock lib b m \<and> blocks m' ! b = None) \<and>
    blocks_count m' = GetDownloadedBlockCount lib m \<and>
    (HasFullBlock lib (block_count (the_rid m) - 1) m \<or> file_length (the_rid m) mod 1024 \<noteq> 0 \<longrightarrow>
       download_bytes m' = (\<Sum>b \<leftarrow> filter (\<lambda>b. HasFullBlock lib b m) [0..<block_count (the_rid m)]. bytes_of_block (the_rid m) b))"
proof -
  have "\<forall>b < block_count (the_rid m). \<not> HasFullBlock lib b m \<longrightarrow> forgotten m b"
    using assms(3) by (auto simp: forgotten_def split: option.splits)
  from restart_result [OF assms(1,2) this, of verify t] show ?thesis by auto
qed

theorem restart_keeps_complete_blocks_witness:
  "\<exists>bs m'. spm_ToBuffer sample_rlib sample_new = Inr bs \<and>
     spm_Parse sample_rlib False 0 bs (the_rid sample_new) = Some (Inr (Some m')) \<and> download_bytes m' = 0"
proof -
  have "filter (\<lambda>b. HasFullBlock sample_rlib b sample_new) [0..<3] = []" by (auto simp: filter_empty_conv sample_new_ok(4))
  with restart_keeps_complete_blocks [OF sample_new_ok(2), of False 0] show ?thesis
    by (auto simp: sample_new_rid sample_new_ok(3))
qed

text \<open>The bytes of a restarted resource are counted wrongly.  When the last block is missing and the length of the file is a
  multiple of 1024, \<^verbatim>\<open>Parse\<close> counts the last subpiece as having 0 bytes, and 1024 bytes too many as downloaded.\<close>

theorem restart_counts_too_many_bytes:
  assumes "sm_mem_ok lib m" "block_count (the_rid m) \<le> 4096"
    and "\<forall>b < block_count (the_rid m). \<not> HasFullBlock lib b m \<longrightarrow> blocks m ! b = None"
    and "\<not> HasFullBlock lib (block_count (the_rid m) - 1) m" "file_length (the_rid m) mod 1024 = 0"
  shows "\<exists>bs m'. spm_ToBuffer lib m = Inr bs \<and> spm_Parse lib verify t bs (the_rid m) = Some (Inr (Some m')) \<and>
    download_bytes m' =
      (\<Sum>b \<leftarrow> filter (\<lambda>b. HasFullBlock lib b m) [0..<block_count (the_rid m)]. bytes_of_block (the_rid m) b) + 1024"
proof -
  have "\<forall>b < block_count (the_rid m). \<not> HasFullBlock lib b m \<longrightarrow> forgotten m b" using assms(3) by (simp add: forgotten_def)
  from restart_result [OF assms(1,2) this, of verify t] assms(4,5) show ?thesis by auto
qed

definition even_file :: "nat rid_info" where
  "even_file = \<lparr>file_length = 4096, block_size = 2048, block_count = 2, block_md5_s = [], rid = 0\<rparr>"

text \<open>A new file of 4096 bytes: after a restart, 1024 bytes have been downloaded.\<close>

theorem restart_counts_too_many_bytes_witness:
  "\<exists>m bs m'. spm_new sample_rlib False even_file False = Inr m \<and> spm_ToBuffer sample_rlib m = Inr bs \<and>
     spm_Parse sample_rlib False 0 bs (the_rid m) = Some (Inr (Some m')) \<and> download_bytes m' = 1024"
proof -
  have "rid_ok even_file" by (simp add: rid_ok_def even_file_def)
  from spm_new_ok [OF sample_rlib_ok this, of False False] obtain m where
    m: "spm_new sample_rlib False even_file False = Inr m" "sm_mem_ok sample_rlib m"
      "the_rid m = even_file\<lparr>block_md5_s := block_md5_s (the_rid m)\<rparr>" "blocks m = replicate (block_count even_file) None"
      "bm_bits sample_rlib (block_bit_map m) = replicate (block_count even_file) False" by blast
  have r: "block_count (the_rid m) = 2" "file_length (the_rid m) = 4096" by (subst m(3), simp add: even_file_def)+
  have no: "\<not> HasFullBlock sample_rlib b m" if "b < 2" for b
    using that m(5) has_full_bit [OF sample_rlib_ok, of b m] by (simp add: even_file_def)
  then have "filter (\<lambda>b. HasFullBlock sample_rlib b m) [0..<2] = []" by (auto simp: filter_empty_conv)
  with restart_counts_too_many_bytes [OF m(2), of False 0] m(1,4) no r show ?thesis by (auto simp: even_file_def)
qed

end
