(* ===== verification/OrderedMap.thy ===== *)
theory OrderedMap
  imports Prelude
begin

text \<open>
  \<^verbatim>\<open>std::map\<close> with a comparison of its own, as the code uses it for its indexes: a list of entries in the order of the
  comparison \<open>lt\<close>, two keys being the same when neither is less.  \<open>insert\<close> of a key that is there changes nothing, as
  \<^verbatim>\<open>std::map::insert\<close> does; \<open>begin()\<close> is the head of the list.

  The locale \<open>map_order\<close> is what \<^verbatim>\<open>std::map\<close> requires of a comparison (a strict weak order); \<open>index_ok\<close> says that a map is
  the index of a set of objects by an attribute.
\<close>

fun om_insert :: "('i \<Rightarrow> 'i \<Rightarrow> bool) \<Rightarrow> 'i \<Rightarrow> 'v \<Rightarrow> ('i \<times> 'v) list \<Rightarrow> ('i \<times> 'v) list" where
  "om_insert lt k v [] = [(k, v)]"
| "om_insert lt k v (e # m) =
     (if lt k (fst e) then (k, v) # e # m
      else if lt (fst e) k then e # om_insert lt k v m
      else e # m)"

definition om_erase :: "('i \<Rightarrow> 'i \<Rightarrow> bool) \<Rightarrow> 'i \<Rightarrow> ('i \<times> 'v) list \<Rightarrow> ('i \<times> 'v) list" where
  "om_erase lt k m = filter (\<lambda>e. lt k (fst e) \<or> lt (fst e) k) m"

definition om_find :: "('i \<Rightarrow> 'i \<Rightarrow> bool) \<Rightarrow> 'i \<Rightarrow> ('i \<times> 'v) list \<Rightarrow> 'v option" where
  "om_find lt k m = map_option snd (find (\<lambda>e. \<not> lt k (fst e) \<and> \<not> lt (fst e) k) m)"

definition om_sorted :: "('i \<Rightarrow> 'i \<Rightarrow> bool) \<Rightarrow> ('i \<times> 'v) list \<Rightarrow> bool" where
  "om_sorted lt m = sorted_wrt lt (map fst m)"

text \<open>\<open>f\<close> tells the objects of \<open>P\<close> apart.\<close>

definition separates :: "('i \<Rightarrow> 'i \<Rightarrow> bool) \<Rightarrow> ('o \<Rightarrow> 'i) \<Rightarrow> 'o set \<Rightarrow> bool" where
  "separates lt f P = (\<forall>p\<in>P. \<forall>q\<in>P. p \<noteq> q \<longrightarrow> lt (f p) (f q) \<or> lt (f q) (f p))"

definition index_ok :: "('i \<Rightarrow> 'i \<Rightarrow> bool) \<Rightarrow> ('o \<Rightarrow> 'i) \<Rightarrow> 'o set \<Rightarrow> ('i \<times> 'o) list \<Rightarrow> bool" where
  "index_ok lt f P m = (om_sorted lt m \<and> set m = (\<lambda>p. (f p, p)) ` P)"

lemma separates_subset: "separates lt f P \<Longrightarrow> Q \<subseteq> P \<Longrightarrow> separates lt f Q"
  by (auto simp: separates_def)

lemma index_ok_cong:
  assumes "index_ok lt f P m" "\<And>p. p \<in> P \<Longrightarrow> f p = g p"
  shows "index_ok lt g P m"
  using assms by (auto simp: index_ok_def)

lemma om_sorted_filter: "om_sorted lt m \<Longrightarrow> om_sorted lt (filter Q m)"
  by (simp add: om_sorted_def sorted_wrt_map sorted_wrt_filter)

locale map_order =
  fixes lt :: "'i \<Rightarrow> 'i \<Rightarrow> bool"
  assumes irreflexive: "\<not> lt x x"
    and transitive: "lt x y \<Longrightarrow> lt y z \<Longrightarrow> lt x z"
    and weak: "\<not> lt x y \<Longrightarrow> \<not> lt y z \<Longrightarrow> \<not> lt x z"
begin

lemma insert_keeps: "set (om_insert lt k v m) \<subseteq> insert (k, v) (set m)"
  by (induction m) auto

lemma insert_sorted: "om_sorted lt m \<Longrightarrow> om_sorted lt (om_insert lt k v m)"
proof (induction m)
  case (Cons e m)
  have "\<forall>x\<in>set (om_insert lt k v m). lt (fst e) (fst x)" if "lt (fst e) k"
    using that Cons.prems insert_keeps [of k v m] by (auto simp: om_sorted_def)
  with Cons show ?case by (auto simp: om_sorted_def intro: transitive)
qed (simp add: om_sorted_def)

lemma insert_set:
  assumes "\<forall>e\<in>set m. lt k (fst e) \<or> lt (fst e) k"
  shows "set (om_insert lt k v m) = insert (k, v) (set m)"
  using assms by (induction m) auto

lemma index_insert:
  assumes "index_ok lt f P m" "p \<notin> P" "separates lt f (insert p P)"
  shows "index_ok lt f (insert p P) (om_insert lt (f p) p m)"
proof -
  have "\<forall>e\<in>set m. lt (f p) (fst e) \<or> lt (fst e) (f p)"
    using assms by (fastforce simp: index_ok_def separates_def)
  with insert_set [OF this, of p] insert_sorted [of m "f p" p] assms(1) show ?thesis
    by (auto simp: index_ok_def)
qed

lemma index_erase:
  assumes "index_ok lt f P m" "separates lt f (insert p P)"
  shows "index_ok lt f (P - {p}) (om_erase lt (f p) m)"
proof -
  have "set (om_erase lt (f p) m) = (\<lambda>q. (f q, q)) ` (P - {p})"
    using assms irreflexive by (fastforce simp: index_ok_def om_erase_def separates_def)
  with assms(1) show ?thesis by (simp add: index_ok_def om_erase_def om_sorted_filter)
qed

lemma index_find:
  assumes "index_ok lt f P m" "separates lt f P" "p \<in> P"
  shows "om_find lt (f p) m = Some p"
proof -
  have "(f p, p) \<in> set m" using assms by (auto simp: index_ok_def)
  moreover have "\<not> lt (f p) (fst e) \<and> \<not> lt (fst e) (f p) \<longleftrightarrow> e = (f p, p)" if "e \<in> set m" for e
    using that assms irreflexive by (fastforce simp: index_ok_def separates_def)
  ultimately have "find (\<lambda>e. \<not> lt (f p) (fst e) \<and> \<not> lt (fst e) (f p)) m = Some (f p, p)"
    by (induction m) auto
  then show ?thesis by (simp add: om_find_def)
qed

lemma index_find_None:
  assumes "index_ok lt f P m"
  shows "om_find lt k m = None \<longleftrightarrow> (\<forall>p\<in>P. lt k (f p) \<or> lt (f p) k)"
  using assms by (auto simp: om_find_def find_None_iff index_ok_def)

lemma index_find_Some:
  assumes "index_ok lt f P m" "om_find lt k m = Some p"
  shows "p \<in> P" "\<not> lt k (f p)" "\<not> lt (f p) k"
proof -
  from assms(2) obtain e where e: "find (\<lambda>e. \<not> lt k (fst e) \<and> \<not> lt (fst e) k) m = Some e" "p = snd e"
    by (auto simp: om_find_def)
  then have "e \<in> set m" "\<not> lt k (fst e) \<and> \<not> lt (fst e) k"
    by (auto simp: find_Some_iff in_set_conv_nth)
  moreover from this(1) assms(1) e(2) have "fst e = f p" "p \<in> P" by (auto simp: index_ok_def)
  ultimately show "p \<in> P" "\<not> lt k (f p)" "\<not> lt (f p) k" by auto
qed

lemma index_first:
  assumes "index_ok lt f P (e # m)"
  shows "fst e = f (snd e)" "snd e \<in> P" "\<forall>p\<in>P. p \<noteq> snd e \<longrightarrow> lt (f (snd e)) (f p)"
proof -
  have s: "set (e # m) = (\<lambda>p. (f p, p)) ` P" "om_sorted lt (e # m)" using assms by (auto simp: index_ok_def)
  have "e \<in> (\<lambda>p. (f p, p)) ` P" using s(1) by auto
  then show e: "fst e = f (snd e)" "snd e \<in> P" by auto
  show "\<forall>p\<in>P. p \<noteq> snd e \<longrightarrow> lt (f (snd e)) (f p)"
  proof (intro ballI impI)
    fix p assume "p \<in> P" "p \<noteq> snd e"
    then have "(f p, p) \<in> set m" using s(1) by force
    with s(2) show "lt (f (snd e)) (f p)" using e(1) by (auto simp: om_sorted_def)
  qed
qed

lemma index_distinct:
  assumes "index_ok lt f P m"
  shows "distinct (map snd m)" "set (map snd m) = P" "length m = card P"
proof -
  have "distinct xs" if "sorted_wrt lt xs" for xs
    using that irreflexive by (induction xs) auto
  then have "distinct (map fst m)" using assms by (simp add: index_ok_def om_sorted_def)
  moreover have fsts: "map fst m = map f (map snd m)"
    using assms by (auto simp: index_ok_def)
  ultimately have "distinct (map f (map snd m))" by simp
  then show d: "distinct (map snd m)" by (simp add: distinct_map del: map_map)
  show s: "set (map snd m) = P" using assms by (force simp: index_ok_def)
  show "length m = card P" using distinct_card [OF d] s by simp
qed

lemma index_empty: "index_ok lt f {} [] "
  by (simp add: index_ok_def om_sorted_def)

end

interpretation linear: map_order "(<) :: 'k::linorder \<Rightarrow> 'k \<Rightarrow> bool"
  by unfold_locales auto

lemma separates_linear: "separates (<) f P \<longleftrightarrow> inj_on f P" for f :: "'o \<Rightarrow> 'k::linorder"
  unfolding separates_def inj_on_def neq_iff [symmetric] by blast

text \<open>Comparisons that look at one attribute after the other, as the operators \<^verbatim>\<open><\<close> of the code do.\<close>

lemma map_order_flag:
  assumes "map_order lt"
  shows "map_order (\<lambda>x y. if a x \<noteq> a y then a x else lt x y)"
proof -
  note o = map_order.irreflexive [OF assms] map_order.transitive [OF assms] map_order.weak [OF assms]
  show ?thesis by unfold_locales (auto split: if_splits intro: o(2) dest: o(3) simp: o(1))
qed

lemma map_order_up:
  fixes a :: "'i \<Rightarrow> 'r::linorder"
  assumes "map_order lt"
  shows "map_order (\<lambda>x y. if a x \<noteq> a y then a x < a y else lt x y)"
proof -
  note o = map_order.irreflexive [OF assms] map_order.transitive [OF assms] map_order.weak [OF assms]
  show ?thesis by unfold_locales (auto split: if_splits intro: o(2) dest: o(3) simp: o(1))
qed

lemma map_order_down:
  fixes a :: "'i \<Rightarrow> 'r::linorder"
  assumes "map_order lt"
  shows "map_order (\<lambda>x y. if a x \<noteq> a y then a x > a y else lt x y)"
proof -
  note o = map_order.irreflexive [OF assms] map_order.transitive [OF assms] map_order.weak [OF assms]
  show ?thesis by unfold_locales (auto split: if_splits intro: o(2) dest: o(3) simp: o(1))
qed

lemma map_order_last:
  fixes a :: "'i \<Rightarrow> 'r::linorder"
  shows "map_order (\<lambda>x y. a x < a y)" "map_order (\<lambda>x y. a x > a y)"
  by (unfold_locales; auto)+

end
