(* ===== verification/IpPool.thy ===== *)
theory IpPool
  imports OrderedMap
begin

text \<open>
  \<^verbatim>\<open>p2sp::IpPool\<close> (\<^verbatim>\<open>p2sp/p2p/IpPool.h/.cpp\<close>, \<^verbatim>\<open>IpPoolIndex.h/.cpp\<close>): the peers a downloader may connect to, with three
  indexes of them: by when they may be connected, by when they were asked for their peers, and by when they were active.

  \<^item> The code shares one object among the four maps, through \<^verbatim>\<open>shared_ptr\<close>, and changes it in place: \<open>objects\<close> is the
    store of objects and a pointer is a place in it.
  \<^item> \<open>peer_info\<close> is \<^verbatim>\<open>protocol::CandidatePeerInfo\<close>, with the fields the pool uses.  What the address of a peer
    is (\<^verbatim>\<open>GetKeySocketAddr\<close>), the order of addresses and the MD5 of an address are parameters.
  \<^item> \<open>tick\<close> is \<^verbatim>\<open>TickCounter::tick_count()\<close>; the attributes of a peer keep its low 32 bits.
  \<^item> \<^verbatim>\<open>IPPoolIndexUpdating\<close> takes a peer out of the indexes when it is constructed and puts it back, with its two flags
    joined, when it is destroyed: \<open>with_index_updating\<close> runs what is in its scope.
  \<^item> A packet that ends the session with a peer is recorded in \<open>closed_sessions\<close>.

  The lemmas show that the indexes always hold the peers of the pool and nothing else, that the best peer is offered and
  every peer gets its turn, whom the pool drops when it is too large, and that the time a peer is left alone after
  failures does not grow as it is meant to.
\<close>

section \<open>Peers\<close>

record peer_info =
  IP :: u32
  UdpPort :: u16
  DetectIP :: u32
  DetectUdpPort :: u16
  StunIP :: u32
  StunUdpPort :: u16
  PeerVersion :: nat
  UploadPriority :: u8
  TrackerPriority :: u8

record candidate_peer = peer_info +
  last_active_time :: u32
  last_exchange_time :: u32
  exchange_times :: u32
  last_connect_time :: u32
  is_connecting :: bool
  is_connected :: bool
  connect_protect_time :: u32
  connect_protect_time_count :: u32
  connect_protect_time_index :: u32
  connections_attempted :: nat
  should_use_firstly :: bool
  peer_score :: nat
  is_udpserver_from_cdn :: bool

record ('k, 'h) pool_lib =
  GetKeySocketAddr :: "u32 \<Rightarrow> peer_info \<Rightarrow> 'k"
  address_md5 :: "'k \<Rightarrow> 'h"
  local_peer :: peer_info
  CONNECT_INITIAL_PROTECT_TIME :: u32
  CONNECT_FINAL_PROTECT_TIME :: u32
  EXCHANGE_PROTECT_TIME :: u32
  UseExchangePeersFirstly :: bool

definition GetKey :: "('k, 'h) pool_lib \<Rightarrow> candidate_peer \<Rightarrow> 'k" where
  "GetKey lib p = GetKeySocketAddr lib (DetectIP (local_peer lib)) (peer_info.truncate p)"

definition new_peer ::
    "('k, 'h) pool_lib \<Rightarrow> u64 \<Rightarrow> peer_info \<Rightarrow> bool \<Rightarrow> nat \<Rightarrow> bool \<Rightarrow> candidate_peer" where
  "new_peer lib tick info firstly score from_cdn =
     peer_info.extend info
       (candidate_peer.fields (ucast tick) 0 0 0 False False (CONNECT_INITIAL_PROTECT_TIME lib) 0 0 0 firstly score from_cdn)"

definition peer_OnConnectFailed :: "('k, 'h) pool_lib \<Rightarrow> candidate_peer \<Rightarrow> candidate_peer" where
  "peer_OnConnectFailed lib p = p\<lparr>connect_protect_time := CONNECT_FINAL_PROTECT_TIME lib\<rparr>"

definition peer_OnConnectTimeout :: "('k, 'h) pool_lib \<Rightarrow> candidate_peer \<Rightarrow> candidate_peer" where
  "peer_OnConnectTimeout lib p =
     (if connect_protect_time p < CONNECT_FINAL_PROTECT_TIME lib then
        let p1 = (if connect_protect_time_count p = 0
                  then p\<lparr>connect_protect_time := connect_protect_time p * 2,
                         connect_protect_time_index := connect_protect_time_index p + 1,
                         connect_protect_time_count := connect_protect_time_index p + 1\<rparr>
                  else p\<lparr>connect_protect_time_count := connect_protect_time_count p - 1\<rparr>)
        in if connect_protect_time p1 \<ge> CONNECT_FINAL_PROTECT_TIME lib
           then p1\<lparr>connect_protect_time := CONNECT_FINAL_PROTECT_TIME lib\<rparr> else p1
      else p)"

definition peer_OnConnectSucceed :: "('k, 'h) pool_lib \<Rightarrow> candidate_peer \<Rightarrow> candidate_peer" where
  "peer_OnConnectSucceed lib p = p\<lparr>connect_protect_time := CONNECT_INITIAL_PROTECT_TIME lib\<rparr>"

definition CanExchange :: "('k, 'h) pool_lib \<Rightarrow> u64 \<Rightarrow> candidate_peer \<Rightarrow> bool" where
  "CanExchange lib tick p =
     (if last_exchange_time p = 0 then True
      else \<not> tick - ucast (last_exchange_time p) < ucast (EXCHANGE_PROTECT_TIME lib))"

definition CanConnect :: "u64 \<Rightarrow> bool \<Rightarrow> candidate_peer \<Rightarrow> bool" where
  "CanConnect tick is_udpserver p =
     (if is_connected p \<or> is_connecting p then False
      else if last_connect_time p = 0 then True
      else if tick - ucast (last_connect_time p) < ucast (connect_protect_time p) then is_udpserver
      else True)"

text \<open>\<^verbatim>\<open>self->BeCopiedTo(peer)\<close> copies \<open>peer\<close> into \<open>self\<close>.\<close>

definition copy_candidate :: "u64 \<Rightarrow> candidate_peer \<Rightarrow> candidate_peer \<Rightarrow> candidate_peer" where
  "copy_candidate tick peer self =
     self\<lparr>DetectUdpPort := DetectUdpPort peer, IP := IP peer, PeerVersion := PeerVersion peer,
          UdpPort := UdpPort peer, StunIP := StunIP peer, StunUdpPort := StunUdpPort peer,
          last_active_time := ucast tick, connect_protect_time := connect_protect_time peer,
          connect_protect_time_count := connect_protect_time_count peer,
          connect_protect_time_index := connect_protect_time_index peer,
          connections_attempted := connections_attempted peer,
          should_use_firstly := should_use_firstly peer, peer_score := peer_score peer,
          UploadPriority := (if UploadPriority self \<noteq> 1 then UploadPriority peer else UploadPriority self)\<rparr>"

definition BeCopiedTo :: "u64 \<Rightarrow> candidate_peer \<Rightarrow> candidate_peer \<Rightarrow> candidate_peer result" where
  "BeCopiedTo tick peer self =
     (if DetectIP self \<noteq> DetectIP peer then Inl AssertionFailed else Inr (copy_candidate tick peer self))"

section \<open>The orders of the indexes\<close>

record 'k exchange_indicator =
  xi_key :: 'k
  xi_last_exchange_time :: u32
  xi_exchange_times :: u32

definition CompareIndicator :: "'t::linorder \<Rightarrow> 'k::linorder \<Rightarrow> 't \<Rightarrow> 'k \<Rightarrow> bool" where
  "CompareIndicator x keyX y keyY = (if x = y then keyX < keyY else x < y)"

definition exchange_less :: "'k::linorder exchange_indicator \<Rightarrow> 'k exchange_indicator \<Rightarrow> bool" where
  "exchange_less x y = CompareIndicator (xi_last_exchange_time x) (xi_key x) (xi_last_exchange_time y) (xi_key y)"

record 'h connect_indicator =
  ci_key :: 'h
  next_time_to_connect :: u32
  ci_is_connecting :: bool
  ci_is_connected :: bool
  tracker_priority :: u32
  ci_last_active_time :: u32
  ci_should_use_firstly :: bool
  ci_peer_score :: nat
  ci_is_udpserver_from_cdn :: bool

definition ci_CanConnect :: "'h connect_indicator \<Rightarrow> bool" where
  "ci_CanConnect x = (\<not> ci_is_connecting x \<and> \<not> ci_is_connected x)"

definition connect_less :: "'h::linorder connect_indicator \<Rightarrow> 'h connect_indicator \<Rightarrow> bool" where
  "connect_less x y =
     (if ci_CanConnect x \<noteq> ci_CanConnect y then ci_CanConnect x
      else if ci_is_udpserver_from_cdn x \<noteq> ci_is_udpserver_from_cdn y then ci_is_udpserver_from_cdn x
      else if next_time_to_connect x \<noteq> next_time_to_connect y then next_time_to_connect x < next_time_to_connect y
      else if ci_should_use_firstly x \<noteq> ci_should_use_firstly y then ci_should_use_firstly x > ci_should_use_firstly y
      else if tracker_priority x \<noteq> tracker_priority y then tracker_priority x < tracker_priority y
      else if ci_last_active_time x \<noteq> ci_last_active_time y then ci_last_active_time x > ci_last_active_time y
      else if ci_peer_score x \<noteq> ci_peer_score y then ci_peer_score x > ci_peer_score y
      else ci_key x > ci_key y)"

record 'k active_indicator =
  ai_key :: 'k
  ai_active_time :: u32

definition active_less :: "'k::linorder active_indicator \<Rightarrow> 'k active_indicator \<Rightarrow> bool" where
  "active_less x y = CompareIndicator (ai_active_time x) (ai_key x) (ai_active_time y) (ai_key y)"

definition GetExchangeIndicator :: "('k, 'h) pool_lib \<Rightarrow> candidate_peer \<Rightarrow> 'k exchange_indicator" where
  "GetExchangeIndicator lib p =
     \<lparr>xi_key = GetKey lib p, xi_last_exchange_time = last_exchange_time p, xi_exchange_times = exchange_times p\<rparr>"

definition GetConnectIndicator :: "('k, 'h) pool_lib \<Rightarrow> candidate_peer \<Rightarrow> 'h connect_indicator" where
  "GetConnectIndicator lib p =
     \<lparr>ci_key = address_md5 lib (GetKey lib p),
      next_time_to_connect = last_connect_time p + connect_protect_time p,
      ci_is_connecting = is_connecting p, ci_is_connected = is_connected p,
      tracker_priority = 255 - ucast (TrackerPriority p), ci_last_active_time = last_active_time p,
      ci_should_use_firstly = should_use_firstly p, ci_peer_score = peer_score p,
      ci_is_udpserver_from_cdn = is_udpserver_from_cdn p\<rparr>"

definition GetActiveIndicator :: "('k, 'h) pool_lib \<Rightarrow> candidate_peer \<Rightarrow> 'k active_indicator" where
  "GetActiveIndicator lib p = \<lparr>ai_key = GetKey lib p, ai_active_time = last_active_time p\<rparr>"

section \<open>The pool\<close>

record ('k, 'h) ip_pool =
  objects :: "candidate_peer list"
  candidate_peers :: "('k \<times> nat) list"
  exchange_index :: "('k exchange_indicator \<times> nat) list"
  connect_index :: "('h connect_indicator \<times> nat) list"
  active_index :: "('k active_indicator \<times> nat) list"
  pool_running :: bool
  desirable_pool_size :: nat
  black_list :: "'k set"
  should_use_exchange_peers_firstly :: bool
  closed_sessions :: "'k list"

text \<open>A new pool; \<^verbatim>\<open>should_use_exchange_peers_firstly_\<close> is set by \<^verbatim>\<open>Start\<close>.\<close>

definition pool_create :: "nat \<Rightarrow> ('k, 'h) ip_pool" where
  "pool_create desirable =
     \<lparr>objects = [], candidate_peers = [], exchange_index = [], connect_index = [], active_index = [],
      pool_running = False, desirable_pool_size = desirable, black_list = {}, should_use_exchange_peers_firstly = False,
      closed_sessions = []\<rparr>"

definition pool_Start :: "('k, 'h) pool_lib \<Rightarrow> ('k, 'h) ip_pool action" where
  "pool_Start lib s =
     (if pool_running s then Inr s
      else if candidate_peers s \<noteq> [] then Inl AssertionFailed
      else Inr (s\<lparr>pool_running := True, should_use_exchange_peers_firstly := UseExchangePeersFirstly lib\<rparr>))"

definition pool_Stop :: "('k, 'h) ip_pool \<Rightarrow> ('k, 'h) ip_pool" where
  "pool_Stop s = (if \<not> pool_running s then s else s\<lparr>candidate_peers := [], pool_running := False\<rparr>)"

definition AddIndex :: "('k::linorder, 'h::linorder) pool_lib \<Rightarrow> nat \<Rightarrow> ('k, 'h) ip_pool \<Rightarrow> ('k, 'h) ip_pool" where
  "AddIndex lib p s =
     (if \<not> pool_running s then s
      else
        let obj = objects s ! p
        in s\<lparr>exchange_index := om_insert exchange_less (GetExchangeIndicator lib obj) p (exchange_index s),
             connect_index := om_insert connect_less (GetConnectIndicator lib obj) p (connect_index s),
             active_index := om_insert active_less (GetActiveIndicator lib obj) p (active_index s)\<rparr>)"

definition DeleteIndex :: "('k::linorder, 'h::linorder) pool_lib \<Rightarrow> nat \<Rightarrow> ('k, 'h) ip_pool \<Rightarrow> ('k, 'h) ip_pool" where
  "DeleteIndex lib p s =
     (if \<not> pool_running s then s
      else
        let obj = objects s ! p
        in s\<lparr>exchange_index := om_erase exchange_less (GetExchangeIndicator lib obj) (exchange_index s),
             connect_index := om_erase connect_less (GetConnectIndicator lib obj) (connect_index s),
             active_index := om_erase active_less (GetActiveIndicator lib obj) (active_index s)\<rparr>)"

definition change_peer :: "nat \<Rightarrow> (candidate_peer \<Rightarrow> candidate_peer) \<Rightarrow> ('k, 'h) ip_pool \<Rightarrow> ('k, 'h) ip_pool" where
  "change_peer p g s = s\<lparr>objects := (objects s)[p := g (objects s ! p)]\<rparr>"

definition join_flags :: "candidate_peer \<Rightarrow> candidate_peer \<Rightarrow> candidate_peer" where
  "join_flags before p =
     p\<lparr>is_udpserver_from_cdn := is_udpserver_from_cdn p \<or> is_udpserver_from_cdn before,
       should_use_firstly := should_use_firstly p \<or> should_use_firstly before\<rparr>"

definition with_index_updating ::
    "('k::linorder, 'h::linorder) pool_lib \<Rightarrow> nat \<Rightarrow> ('k, 'h) ip_pool action \<Rightarrow> ('k, 'h) ip_pool action" where
  "with_index_updating lib p scope s =
     and_then (scope (DeleteIndex lib p s)) (\<lambda>s1. Inr (AddIndex lib p (change_peer p (join_flags (objects s ! p)) s1)))"

section \<open>Announced peers\<close>

definition IsSelf :: "('k, 'h) pool_lib \<Rightarrow> candidate_peer \<Rightarrow> bool" where
  "IsSelf lib p =
     (let l = local_peer lib
      in IP l = IP p \<and> UdpPort l = UdpPort p \<and> (DetectIP l = 0 \<or> DetectIP l = DetectIP p))"

definition AddPeer ::
    "('k::linorder, 'h::linorder) pool_lib \<Rightarrow> u64 \<Rightarrow> nat \<Rightarrow> ('k, 'h) ip_pool action" where
  "AddPeer lib tick p s =
     (let peer = objects s ! p; key = GetKey lib peer
      in if \<not> pool_running s then Inr s
         else if IsSelf lib peer then Inl AssertionFailed
         else if key \<in> black_list s then Inr s
         else
           case om_find (<) key (candidate_peers s) of
             None \<Rightarrow>
               with_index_updating lib p (modify (\<lambda>t. t\<lparr>candidate_peers := om_insert (<) key p (candidate_peers t)\<rparr>)) s
           | Some q \<Rightarrow>
               with_index_updating lib q
                 (\<lambda>t. and_then (BeCopiedTo tick (objects t ! p) (objects t ! q)) (\<lambda>obj. Inr (change_peer q (\<lambda>_. obj) t))) s)"

text \<open>One candidate of \<^verbatim>\<open>AddCandidatePeers\<close>: the object is created whether it is added or not.\<close>

definition add_candidate ::
    "('k::linorder, 'h::linorder) pool_lib \<Rightarrow> u64 \<Rightarrow> bool \<Rightarrow> (peer_info \<Rightarrow> nat) \<Rightarrow> bool \<Rightarrow> peer_info \<Rightarrow>
     ('k, 'h) ip_pool action" where
  "add_candidate lib tick firstly score from_cdn info s =
     (let peer = new_peer lib tick info (firstly \<and> should_use_exchange_peers_firstly s) (score info) from_cdn;
          s1 = s\<lparr>objects := objects s @ [peer]\<rparr>
      in if IsSelf lib peer then Inr s1 else AddPeer lib tick (length (objects s)) s1)"

text \<open>
  The loop of \<^verbatim>\<open>KickTrivialCandidatePeers\<close> over the index by activity.  The code moves the iterator on before it erases
  a peer, whose own entry is the only one that goes (lemma \<open>kick_loop_ok\<close>), so the entries visited are those at the start.
\<close>

fun kick_loop ::
    "('k::linorder, 'h::linorder) pool_lib \<Rightarrow> nat \<Rightarrow> nat \<Rightarrow> ('k active_indicator \<times> nat) list \<Rightarrow> nat \<Rightarrow>
     ('k, 'h) ip_pool action" where
  "kick_loop lib peers_to_delete max_attempts [] peers_deleted s = Inr s"
| "kick_loop lib peers_to_delete max_attempts ((i, p) # es) peers_deleted s =
     (if \<not> peers_deleted < peers_to_delete then Inr s
      else
        let peer = objects s ! p; key = GetKey lib peer
        in if \<not> is_connected peer \<and> \<not> is_connecting peer then
             let too_many = connections_attempted peer > max_attempts
             in and_then
                  (if too_many
                   then if key \<in> black_list s then Inl AssertionFailed else Inr (s\<lparr>black_list := insert key (black_list s)\<rparr>)
                   else Inr s) (\<lambda>s1.
                if peers_deleted < peers_to_delete \<or> too_many
                then
                  let s2 = DeleteIndex lib p s1
                  in kick_loop lib peers_to_delete max_attempts es (peers_deleted + 1)
                       (s2\<lparr>candidate_peers := om_erase (<) key (candidate_peers s2)\<rparr>)
                else kick_loop lib peers_to_delete max_attempts es peers_deleted s1)
           else kick_loop lib peers_to_delete max_attempts es peers_deleted s)"

definition KickTrivialCandidatePeers :: "('k::linorder, 'h::linorder) pool_lib \<Rightarrow> ('k, 'h) ip_pool action" where
  "KickTrivialCandidatePeers lib s =
     (let n = length (candidate_peers s); desirable = desirable_pool_size s
      in if desirable = 0 \<or> n = 0 then Inr s
         else kick_loop lib (n - desirable) (desirable div n) (active_index s) 0 s)"

definition AddCandidatePeers ::
    "('k::linorder, 'h::linorder) pool_lib \<Rightarrow> u64 \<Rightarrow> bool \<Rightarrow> (peer_info \<Rightarrow> nat) \<Rightarrow> bool \<Rightarrow> peer_info list \<Rightarrow>
     ('k, 'h) ip_pool action" where
  "AddCandidatePeers lib tick firstly score from_cdn infos s =
     (if \<not> pool_running s then Inr s
      else seq (map (add_candidate lib tick firstly score from_cdn) infos @ [KickTrivialCandidatePeers lib]) s)"

section \<open>Peers that are used\<close>

text \<open>The peer offered, or \<open>None\<close> when the function returns false.\<close>

definition GetForConnect ::
    "('k::linorder, 'h::linorder) pool_lib \<Rightarrow> u64 \<Rightarrow> bool \<Rightarrow> ('k, 'h) ip_pool \<Rightarrow>
     (peer_info option \<times> ('k, 'h) ip_pool) result" where
  "GetForConnect lib tick is_udpserver s =
     (if \<not> pool_running s then Inr (None, s)
      else
        case connect_index s of
          [] \<Rightarrow> Inr (None, s)
        | e # _ \<Rightarrow>
            let peer = objects s ! snd e
            in if \<not> CanConnect tick is_udpserver peer then Inr (None, s)
               else and_then
                      (with_index_updating lib (snd e)
                        (modify (change_peer (snd e) (\<lambda>p. p\<lparr>last_connect_time := ucast tick\<rparr>))) s)
                      (\<lambda>s1. Inr (Some (peer_info.truncate peer), s1)))"

definition GetForExchange ::
    "('k::linorder, 'h::linorder) pool_lib \<Rightarrow> u64 \<Rightarrow> ('k, 'h) ip_pool \<Rightarrow> (peer_info option \<times> ('k, 'h) ip_pool) result" where
  "GetForExchange lib tick s =
     (if \<not> pool_running s then Inr (None, s)
      else
        case exchange_index s of
          [] \<Rightarrow> Inr (None, s)
        | e # _ \<Rightarrow>
            let peer = objects s ! snd e
            in if \<not> CanExchange lib tick peer then Inr (None, s)
               else and_then
                      (with_index_updating lib (snd e)
                        (modify (change_peer (snd e) (\<lambda>p. p\<lparr>last_exchange_time := ucast tick\<rparr>))) s)
                      (\<lambda>s1. Inr (Some (peer_info.truncate peer), s1)))"

text \<open>The handlers have the same frame: they look the peer up and change it under the index updating.\<close>

definition on_peer ::
    "('k::linorder, 'h::linorder) pool_lib \<Rightarrow> 'k \<Rightarrow> (candidate_peer \<Rightarrow> candidate_peer) \<Rightarrow> ('k, 'h) ip_pool action" where
  "on_peer lib end_point g s =
     (if \<not> pool_running s then Inr s
      else
        case om_find (<) end_point (candidate_peers s) of
          None \<Rightarrow> Inr s
        | Some p \<Rightarrow> with_index_updating lib p (modify (change_peer p g)) s)"

definition pool_OnConnect :: "('k::linorder, 'h::linorder) pool_lib \<Rightarrow> 'k \<Rightarrow> ('k, 'h) ip_pool action" where
  "pool_OnConnect lib end_point =
     on_peer lib end_point (\<lambda>p.
       peer_OnConnectSucceed lib
         (p\<lparr>is_connecting := True, is_connected := False, connections_attempted := connections_attempted p + 1\<rparr>))"

definition pool_OnConnectFailed :: "('k::linorder, 'h::linorder) pool_lib \<Rightarrow> 'k \<Rightarrow> ('k, 'h) ip_pool action" where
  "pool_OnConnectFailed lib end_point =
     on_peer lib end_point (\<lambda>p. peer_OnConnectFailed lib (p\<lparr>is_connecting := False, is_connected := False\<rparr>))"

definition pool_OnConnectTimeout :: "('k::linorder, 'h::linorder) pool_lib \<Rightarrow> 'k \<Rightarrow> ('k, 'h) ip_pool action" where
  "pool_OnConnectTimeout lib end_point =
     on_peer lib end_point (\<lambda>p. peer_OnConnectTimeout lib (p\<lparr>is_connecting := False, is_connected := False\<rparr>))"

definition pool_OnConnectSucced :: "('k::linorder, 'h::linorder) pool_lib \<Rightarrow> u64 \<Rightarrow> 'k \<Rightarrow> ('k, 'h) ip_pool action" where
  "pool_OnConnectSucced lib tick end_point =
     on_peer lib end_point (\<lambda>p. p\<lparr>last_active_time := ucast tick, is_connecting := False, is_connected := True\<rparr>)"

definition pool_OnDisConnect ::
    "('k::linorder, 'h::linorder) pool_lib \<Rightarrow> u64 \<Rightarrow> 'k \<Rightarrow> bool \<Rightarrow> ('k, 'h) ip_pool action" where
  "pool_OnDisConnect lib tick end_point is_active s =
     (if pool_running s \<and> om_find (<) end_point (candidate_peers s) \<noteq> None \<and> is_active
      then and_then
             (on_peer lib end_point
               (\<lambda>p. p\<lparr>last_active_time := ucast tick, last_connect_time := ucast tick,
                      is_connecting := False, is_connected := False\<rparr>) s)
             (\<lambda>s1. Inr (s1\<lparr>closed_sessions := closed_sessions s1 @ [end_point]\<rparr>))
      else on_peer lib end_point
             (\<lambda>p. p\<lparr>last_active_time := ucast tick, last_connect_time := ucast tick,
                    is_connecting := False, is_connected := False\<rparr>) s)"

definition pool_DisConnectAll :: "('k::linorder, 'h::linorder) pool_lib \<Rightarrow> u64 \<Rightarrow> ('k, 'h) ip_pool action" where
  "pool_DisConnectAll lib tick s = seq (map (\<lambda>e. pool_OnDisConnect lib tick (fst e) True) (candidate_peers s)) s"

definition GetPeerCount :: "('k, 'h) ip_pool \<Rightarrow> nat" where
  "GetPeerCount s = length (candidate_peers s)"

definition GetNotTriedPeerCount :: "('k, 'h) ip_pool \<Rightarrow> nat" where
  "GetNotTriedPeerCount s = length (filter (\<lambda>e. last_connect_time (objects s ! snd e) = 0) (candidate_peers s))"

section \<open>The indexes agree\<close>

text \<open>
  What the pool relies on: the MD5 of different addresses differs, and the address of a peer, its key, is made of the
  four fields that hold addresses and tells the detected IP of the peer.
\<close>

definition pool_lib_ok :: "('k, 'h) pool_lib \<Rightarrow> bool" where
  "pool_lib_ok lib =
     (inj (address_md5 lib) \<and>
      (\<forall>l p q. IP p = IP q \<and> UdpPort p = UdpPort q \<and> DetectIP p = DetectIP q \<and> DetectUdpPort p = DetectUdpPort q \<longrightarrow>
         GetKeySocketAddr lib l p = GetKeySocketAddr lib l q) \<and>
      (\<forall>l p q. GetKeySocketAddr lib l p = GetKeySocketAddr lib l q \<longrightarrow> DetectIP p = DetectIP q))"

definition pointers :: "('k, 'h) ip_pool \<Rightarrow> nat set" where
  "pointers s = set (map snd (candidate_peers s))"

definition key_at :: "('k, 'h) pool_lib \<Rightarrow> ('k, 'h) ip_pool \<Rightarrow> nat \<Rightarrow> 'k" where
  "key_at lib s p = GetKey lib (objects s ! p)"

definition indexed :: "('k::linorder, 'h::linorder) pool_lib \<Rightarrow> nat set \<Rightarrow> ('k, 'h) ip_pool \<Rightarrow> bool" where
  "indexed lib P s =
     (index_ok exchange_less (\<lambda>p. GetExchangeIndicator lib (objects s ! p)) P (exchange_index s) \<and>
      index_ok connect_less (\<lambda>p. GetConnectIndicator lib (objects s ! p)) P (connect_index s) \<and>
      index_ok active_less (\<lambda>p. GetActiveIndicator lib (objects s ! p)) P (active_index s))"

definition pool_inv :: "('k::linorder, 'h::linorder) pool_lib \<Rightarrow> ('k, 'h) ip_pool \<Rightarrow> bool" where
  "pool_inv lib s =
     (pool_running s \<and> pointers s \<subseteq> {..<length (objects s)} \<and> inj_on (key_at lib s) (pointers s) \<and>
      index_ok (<) (key_at lib s) (pointers s) (candidate_peers s) \<and> indexed lib (pointers s) s \<and>
      black_list s \<inter> key_at lib s ` pointers s = {})"

lemma CompareIndicator_order: "map_order (\<lambda>x y. CompareIndicator (a x) (b x) (a y) (b y))"
  unfolding CompareIndicator_def by (rule map_order.intro; auto split: if_splits)

interpretation exchange: map_order exchange_less
  unfolding exchange_less_def by (rule CompareIndicator_order)

interpretation active: map_order active_less
  unfolding active_less_def by (rule CompareIndicator_order)

interpretation connect: map_order connect_less
  unfolding connect_less_def by (intro map_order_flag map_order_up map_order_down map_order_last)

lemma indicator_less:
  "xi_key x \<noteq> xi_key y \<Longrightarrow> exchange_less x y \<or> exchange_less y x"
  "ai_key x' \<noteq> ai_key y' \<Longrightarrow> active_less x' y' \<or> active_less y' x'"
  "ci_key x'' \<noteq> ci_key y'' \<Longrightarrow> connect_less x'' y'' \<or> connect_less y'' x''"
  by (auto simp: exchange_less_def active_less_def connect_less_def CompareIndicator_def)

lemma separates_indicators:
  assumes "pool_lib_ok lib" "inj_on (key_at lib s) P"
  shows "separates exchange_less (\<lambda>p. GetExchangeIndicator lib (objects s ! p)) P"
    "separates connect_less (\<lambda>p. GetConnectIndicator lib (objects s ! p)) P"
    "separates active_less (\<lambda>p. GetActiveIndicator lib (objects s ! p)) P"
proof -
  have "key_at lib s p \<noteq> key_at lib s q" "address_md5 lib (key_at lib s p) \<noteq> address_md5 lib (key_at lib s q)"
    if "p \<in> P" "q \<in> P" "p \<noteq> q" for p q
    using assms that by (auto simp: inj_on_def pool_lib_ok_def dest: injD)
  then show "separates exchange_less (\<lambda>p. GetExchangeIndicator lib (objects s ! p)) P"
    "separates connect_less (\<lambda>p. GetConnectIndicator lib (objects s ! p)) P"
    "separates active_less (\<lambda>p. GetActiveIndicator lib (objects s ! p)) P"
    unfolding separates_def key_at_def
    by (auto intro!: indicator_less simp: GetExchangeIndicator_def GetConnectIndicator_def GetActiveIndicator_def)
qed

lemma index_frame [simp]:
  "objects (AddIndex lib p s) = objects s" "objects (DeleteIndex lib p s) = objects s"
  "candidate_peers (AddIndex lib p s) = candidate_peers s" "candidate_peers (DeleteIndex lib p s) = candidate_peers s"
  "pool_running (AddIndex lib p s) = pool_running s" "pool_running (DeleteIndex lib p s) = pool_running s"
  "black_list (AddIndex lib p s) = black_list s" "black_list (DeleteIndex lib p s) = black_list s"
  "desirable_pool_size (AddIndex lib p s) = desirable_pool_size s"
  "desirable_pool_size (DeleteIndex lib p s) = desirable_pool_size s"
  "should_use_exchange_peers_firstly (AddIndex lib p s) = should_use_exchange_peers_firstly s"
  "should_use_exchange_peers_firstly (DeleteIndex lib p s) = should_use_exchange_peers_firstly s"
  by (simp_all add: AddIndex_def DeleteIndex_def Let_def)

lemma change_peer_frame [simp]:
  "objects (change_peer p g s) = (objects s)[p := g (objects s ! p)]"
  "candidate_peers (change_peer p g s) = candidate_peers s" "pool_running (change_peer p g s) = pool_running s"
  "black_list (change_peer p g s) = black_list s" "desirable_pool_size (change_peer p g s) = desirable_pool_size s"
  "should_use_exchange_peers_firstly (change_peer p g s) = should_use_exchange_peers_firstly s"
  "exchange_index (change_peer p g s) = exchange_index s" "connect_index (change_peer p g s) = connect_index s"
  "active_index (change_peer p g s) = active_index s"
  by (simp_all add: change_peer_def)

lemma DeleteIndex_indexed:
  assumes "pool_lib_ok lib" "pool_running s" "indexed lib P s" "inj_on (key_at lib s) (insert p P)"
  shows "indexed lib (P - {p}) (DeleteIndex lib p s)"
  using assms(3) separates_indicators [OF assms(1,4)] assms(2)
  by (auto simp: indexed_def DeleteIndex_def Let_def intro: exchange.index_erase connect.index_erase active.index_erase)

lemma AddIndex_indexed:
  assumes "pool_lib_ok lib" "pool_running s" "indexed lib P s" "p \<notin> P" "inj_on (key_at lib s) (insert p P)"
  shows "indexed lib (insert p P) (AddIndex lib p s)"
  using assms(3,4) separates_indicators [OF assms(1,5)] assms(2)
  by (auto simp: indexed_def AddIndex_def Let_def intro: exchange.index_insert connect.index_insert active.index_insert)

lemma indexed_frame:
  assumes "\<And>p. p \<in> P \<Longrightarrow> objects t ! p = objects s ! p"
    "exchange_index t = exchange_index s" "connect_index t = connect_index s" "active_index t = active_index s"
  shows "indexed lib P t \<longleftrightarrow> indexed lib P s"
  using assms by (auto simp: indexed_def intro: index_ok_cong)

section \<open>Every operation keeps the indexes\<close>

lemma GetKey_cong:
  assumes "pool_lib_ok lib" "IP p = IP q" "UdpPort p = UdpPort q" "DetectIP p = DetectIP q" "DetectUdpPort p = DetectUdpPort q"
  shows "GetKey lib p = GetKey lib q"
proof -
  have "IP (peer_info.truncate p) = IP (peer_info.truncate q)" "UdpPort (peer_info.truncate p) = UdpPort (peer_info.truncate q)"
    "DetectIP (peer_info.truncate p) = DetectIP (peer_info.truncate q)"
    "DetectUdpPort (peer_info.truncate p) = DetectUdpPort (peer_info.truncate q)"
    using assms by (simp_all add: peer_info.truncate_def)
  with assms(1) show ?thesis unfolding GetKey_def pool_lib_ok_def by blast
qed

lemma GetKey_DetectIP:
  assumes "pool_lib_ok lib" "GetKey lib p = GetKey lib q"
  shows "DetectIP p = DetectIP q"
proof -
  have "DetectIP (peer_info.truncate p) = DetectIP (peer_info.truncate q)"
    using assms unfolding GetKey_def pool_lib_ok_def by blast
  then show ?thesis by (simp add: peer_info.truncate_def)
qed

text \<open>The changes the pool makes to a peer leave its addresses alone.\<close>

definition keeps_address :: "(candidate_peer \<Rightarrow> candidate_peer) \<Rightarrow> bool" where
  "keeps_address g =
     (\<forall>p. IP (g p) = IP p \<and> UdpPort (g p) = UdpPort p \<and> DetectIP (g p) = DetectIP p \<and> DetectUdpPort (g p) = DetectUdpPort p)"

lemma keeps_key: "pool_lib_ok lib \<Longrightarrow> keeps_address g \<Longrightarrow> GetKey lib (g p) = GetKey lib p"
  by (rule GetKey_cong) (auto simp: keeps_address_def)

lemma join_flags_key: "pool_lib_ok lib \<Longrightarrow> GetKey lib (join_flags b p) = GetKey lib p"
  by (rule GetKey_cong) (auto simp: join_flags_def)

lemma updating_ok:
  assumes "pool_lib_ok lib" "pool_inv lib s" "p \<in> pointers s"
    and scope: "scope (DeleteIndex lib p s) = Inr (change_peer p g (DeleteIndex lib p s))"
    and key: "GetKey lib (g (objects s ! p)) = GetKey lib (objects s ! p)"
  shows "\<exists>t. with_index_updating lib p scope s = Inr t \<and> pool_inv lib t \<and>
    objects t = (objects s)[p := join_flags (objects s ! p) (g (objects s ! p))] \<and> candidate_peers t = candidate_peers s \<and>
    black_list t = black_list s \<and> desirable_pool_size t = desirable_pool_size s \<and>
    should_use_exchange_peers_firstly t = should_use_exchange_peers_firstly s"
proof -
  let ?d = "DeleteIndex lib p s"
  let ?c = "change_peer p (join_flags (objects s ! p)) (change_peer p g ?d)"
  let ?P = "pointers s"
  from assms(2) have inv: "pool_running s" "?P \<subseteq> {..<length (objects s)}" "inj_on (key_at lib s) ?P"
    "index_ok (<) (key_at lib s) ?P (candidate_peers s)" "indexed lib ?P s" "black_list s \<inter> key_at lib s ` ?P = {}"
    by (auto simp: pool_inv_def)
  from assms(3) inv(2) have p: "p < length (objects s)" "insert p ?P = ?P" by auto
  have objs: "objects ?c = (objects s)[p := join_flags (objects s ! p) (g (objects s ! p))]" using p(1) by simp
  have keys: "key_at lib ?c q = key_at lib s q" for q
    using p(1) key join_flags_key [OF assms(1)] by (cases "q = p") (simp_all add: key_at_def objs)
  have "insert p (?P - {p}) = ?P" using p(2) by blast
  then have keys': "inj_on (key_at lib ?c) (insert p (?P - {p}))" using inv(3) keys by (simp add: inj_on_def)
  have "inj_on (key_at lib s) (insert p ?P)" unfolding p(2) by (rule inv(3))
  from DeleteIndex_indexed [OF assms(1) inv(1,5) this] have "indexed lib (?P - {p}) ?d" .
  then have "indexed lib (?P - {p}) ?c" by (subst indexed_frame [where s = ?d]) auto
  from AddIndex_indexed [OF assms(1) _ this _ keys'] have "indexed lib ?P (AddIndex lib p ?c)"
    using inv(1) p(2) by (simp add: insert_absorb)
  moreover have "key_at lib (AddIndex lib p ?c) q = key_at lib s q" for q using keys [of q] by (simp add: key_at_def)
  moreover have "pointers (AddIndex lib p ?c) = ?P" by (simp add: pointers_def)
  ultimately have "pool_inv lib (AddIndex lib p ?c)"
    using inv by (simp add: pool_inv_def inj_on_def index_ok_def)
  moreover have "with_index_updating lib p scope s = Inr (AddIndex lib p ?c)"
    by (simp add: with_index_updating_def scope)
  ultimately show ?thesis using objs by simp
qed

lemma on_peer_ok:
  assumes "pool_lib_ok lib" "pool_inv lib s" "keeps_address g"
  shows "\<exists>t. on_peer lib k g s = Inr t \<and> pool_inv lib t \<and> candidate_peers t = candidate_peers s \<and> black_list t = black_list s \<and>
    desirable_pool_size t = desirable_pool_size s \<and>
    should_use_exchange_peers_firstly t = should_use_exchange_peers_firstly s \<and>
    objects t = (case om_find (<) k (candidate_peers s) of
       None \<Rightarrow> objects s
     | Some p \<Rightarrow> (objects s)[p := join_flags (objects s ! p) (g (objects s ! p))])"
proof (cases "om_find (<) k (candidate_peers s)")
  case None
  with assms(2) show ?thesis by (auto simp: on_peer_def)
next
  case (Some p)
  have ix: "index_ok (<) (key_at lib s) (pointers s) (candidate_peers s)" using assms(2) by (simp add: pool_inv_def)
  have p: "p \<in> pointers s" by (rule linear.index_find_Some(1) [OF ix Some])
  have run: "pool_running s" using assms(2) by (simp add: pool_inv_def)
  show ?thesis
    using updating_ok [OF assms(1,2) p, of "modify (change_peer p g)" g] keeps_key [OF assms(1,3)] Some run
    by (auto simp: on_peer_def)
qed

section \<open>Announcing peers\<close>

lemma join_flags_self [simp]: "join_flags p p = p"
  by (simp add: join_flags_def)

text \<open>What an announcement leaves alone in a peer that is already in the pool.\<close>

definition same_use :: "candidate_peer \<Rightarrow> candidate_peer \<Rightarrow> bool" where
  "same_use a b =
     (is_connected a = is_connected b \<and> is_connecting a = is_connecting b \<and> last_connect_time a = last_connect_time b)"

lemma same_use_refl [simp]: "same_use a a"
  by (simp add: same_use_def)

lemma same_use_trans: "same_use a b \<Longrightarrow> same_use b c \<Longrightarrow> same_use a c"
  by (simp add: same_use_def)

lemma copy_candidate_simps:
  "IP (copy_candidate tick peer self) = IP peer" "UdpPort (copy_candidate tick peer self) = UdpPort peer"
  "DetectIP (copy_candidate tick peer self) = DetectIP self"
  "DetectUdpPort (copy_candidate tick peer self) = DetectUdpPort peer"
  "connect_protect_time (copy_candidate tick peer self) = connect_protect_time peer"
  "connections_attempted (copy_candidate tick peer self) = connections_attempted peer"
  "last_active_time (copy_candidate tick peer self) = ucast tick"
  "is_connected (copy_candidate tick peer self) = is_connected self"
  "is_connecting (copy_candidate tick peer self) = is_connecting self"
  "last_connect_time (copy_candidate tick peer self) = last_connect_time self"
  by (simp_all add: copy_candidate_def)

lemma BeCopiedTo_ok:
  assumes "pool_lib_ok lib" "GetKey lib self = GetKey lib peer"
  shows "BeCopiedTo tick peer self = Inr (copy_candidate tick peer self)"
    "GetKey lib (copy_candidate tick peer self) = GetKey lib self" "same_use (copy_candidate tick peer self) self"
proof -
  have d: "DetectIP self = DetectIP peer" by (rule GetKey_DetectIP [OF assms])
  then show "BeCopiedTo tick peer self = Inr (copy_candidate tick peer self)" by (simp add: BeCopiedTo_def)
  have "GetKey lib (copy_candidate tick peer self) = GetKey lib peer"
    by (rule GetKey_cong [OF assms(1)]) (simp_all add: copy_candidate_simps d)
  with assms(2) show "GetKey lib (copy_candidate tick peer self) = GetKey lib self" by simp
  show "same_use (copy_candidate tick peer self) self" by (simp add: same_use_def copy_candidate_simps)
qed

lemma alloc_inv:
  assumes "pool_inv lib s"
  shows "pool_inv lib (s\<lparr>objects := objects s @ [peer]\<rparr>)"
proof -
  let ?t = "s\<lparr>objects := objects s @ [peer]\<rparr>"
  have P: "pointers ?t = pointers s" by (simp add: pointers_def)
  have same: "objects ?t ! q = objects s ! q" if "q \<in> pointers s" for q
    using that assms by (auto simp: pool_inv_def nth_append)
  then have keys: "key_at lib ?t q = key_at lib s q" if "q \<in> pointers s" for q using that by (simp add: key_at_def)
  have "indexed lib (pointers s) ?t \<longleftrightarrow> indexed lib (pointers s) s" by (rule indexed_frame) (use same in auto)
  moreover have "inj_on (key_at lib ?t) (pointers s) \<longleftrightarrow> inj_on (key_at lib s) (pointers s)"
    by (rule inj_on_cong) (rule keys)
  moreover have "index_ok (<) (key_at lib ?t) (pointers s) (candidate_peers s)"
  proof (rule index_ok_cong [where f = "key_at lib s"])
    show "index_ok (<) (key_at lib s) (pointers s) (candidate_peers s)" using assms by (simp add: pool_inv_def)
  qed (simp only: keys)
  moreover have "key_at lib ?t ` pointers s = key_at lib s ` pointers s" by (rule image_cong [OF refl keys])
  ultimately show ?thesis using assms unfolding pool_inv_def P by auto
qed

lemma adding_ok:
  assumes "pool_lib_ok lib" "pool_inv lib s" "p \<notin> pointers s" "p < length (objects s)"
    "key_at lib s p \<notin> black_list s" "om_find (<) (key_at lib s p) (candidate_peers s) = None"
  shows "\<exists>t. with_index_updating lib p
      (modify (\<lambda>t. t\<lparr>candidate_peers := om_insert (<) (key_at lib s p) p (candidate_peers t)\<rparr>)) s = Inr t \<and>
    pool_inv lib t \<and> pointers t = insert p (pointers s) \<and> objects t = objects s \<and> black_list t = black_list s \<and>
    desirable_pool_size t = desirable_pool_size s \<and>
    should_use_exchange_peers_firstly t = should_use_exchange_peers_firstly s"
proof -
  let ?k = "key_at lib s p" and ?P = "pointers s" and ?d = "DeleteIndex lib p s"
  let ?i = "?d\<lparr>candidate_peers := om_insert (<) ?k p (candidate_peers s)\<rparr>"
  let ?c = "change_peer p (join_flags (objects s ! p)) ?i"
  from assms(2) have inv: "pool_running s" "?P \<subseteq> {..<length (objects s)}" "inj_on (key_at lib s) ?P"
    "index_ok (<) (key_at lib s) ?P (candidate_peers s)" "indexed lib ?P s" "black_list s \<inter> key_at lib s ` ?P = {}"
    by (auto simp: pool_inv_def)
  have "\<forall>q\<in>?P. ?k < key_at lib s q \<or> key_at lib s q < ?k"
    using linear.index_find_None [OF inv(4)] assms(6) by blast
  then have fresh: "?k \<notin> key_at lib s ` ?P" by auto
  with inv(3) have keys: "inj_on (key_at lib s) (insert p ?P)" by auto
  have objs: "objects ?c = objects s" using assms(4) by simp
  then have keyc: "key_at lib ?c q = key_at lib s q" for q by (simp add: key_at_def)
  have "indexed lib (?P - {p}) ?d" by (rule DeleteIndex_indexed [OF assms(1) inv(1,5) keys])
  with assms(3) have "indexed lib ?P ?d" by simp
  then have "indexed lib ?P ?c" by (subst indexed_frame [where s = ?d]) (auto simp: assms(4))
  from AddIndex_indexed [OF assms(1) _ this assms(3)] keys have ix: "indexed lib (insert p ?P) (AddIndex lib p ?c)"
    using inv(1) keyc by (simp add: inj_on_def)
  have "index_ok (<) (key_at lib s) (insert p ?P) (om_insert (<) ?k p (candidate_peers s))"
    by (rule linear.index_insert [OF inv(4) assms(3)]) (simp add: separates_linear keys del: inj_on_insert)
  then have cand: "index_ok (<) (key_at lib s) (insert p ?P) (candidate_peers (AddIndex lib p ?c))" by simp
  have P: "pointers (AddIndex lib p ?c) = insert p ?P"
    using linear.index_distinct(2) [OF cand] by (simp add: pointers_def)
  have "key_at lib (AddIndex lib p ?c) q = key_at lib s q" for q using keyc [of q] by (simp add: key_at_def)
  then have "key_at lib (AddIndex lib p ?c) = key_at lib s" by blast
  then have "pool_inv lib (AddIndex lib p ?c)"
    using inv assms(4,5) keys cand ix unfolding pool_inv_def P objs by (simp add: objs)
  moreover have "with_index_updating lib p
      (modify (\<lambda>t. t\<lparr>candidate_peers := om_insert (<) ?k p (candidate_peers t)\<rparr>)) s = Inr (AddIndex lib p ?c)"
    by (simp add: with_index_updating_def)
  ultimately show ?thesis using P objs by simp
qed

lemma AddPeer_found:
  assumes "pool_lib_ok lib" "pool_inv lib s" "\<not> IsSelf lib (objects s ! p)" "key_at lib s p \<notin> black_list s"
    "om_find (<) (key_at lib s p) (candidate_peers s) = Some q"
  shows "\<exists>t. AddPeer lib tick p s = Inr t \<and> pool_inv lib t \<and>
    objects t = (objects s)[q := join_flags (objects s ! q) (copy_candidate tick (objects s ! p) (objects s ! q))] \<and>
    candidate_peers t = candidate_peers s \<and> black_list t = black_list s \<and>
    desirable_pool_size t = desirable_pool_size s \<and>
    should_use_exchange_peers_firstly t = should_use_exchange_peers_firstly s"
proof -
  have run: "pool_running s" and ix: "index_ok (<) (key_at lib s) (pointers s) (candidate_peers s)"
    using assms(2) by (simp_all add: pool_inv_def)
  note found = linear.index_find_Some [OF ix assms(5)]
  then have key: "GetKey lib (objects s ! q) = GetKey lib (objects s ! p)" by (simp add: key_at_def)
  define b where "b = copy_candidate tick (objects s ! p) (objects s ! q)"
  have b: "BeCopiedTo tick (objects s ! p) (objects s ! q) = Inr b" "GetKey lib b = GetKey lib (objects s ! q)"
    using BeCopiedTo_ok [OF assms(1) key, of tick] by (simp_all add: b_def)
  let ?scope = "\<lambda>t. and_then (BeCopiedTo tick (objects t ! p) (objects t ! q)) (\<lambda>obj. Inr (change_peer q (\<lambda>_. obj) t))"
  have add: "AddPeer lib tick p s = with_index_updating lib q ?scope s"
    using run assms(3-5) by (simp add: AddPeer_def Let_def key_at_def)
  have "?scope (DeleteIndex lib q s) = Inr (change_peer q (\<lambda>_. b) (DeleteIndex lib q s))" using b(1) by simp
  from updating_ok [where scope = ?scope and g = "\<lambda>_. b", OF assms(1,2) found(1) this] b(2) add
  show ?thesis by (simp add: b_def)
qed

lemma AddPeer_ok:
  assumes "pool_lib_ok lib" "pool_inv lib s" "p \<notin> pointers s" "p < length (objects s)" "\<not> IsSelf lib (objects s ! p)"
  shows "\<exists>t. AddPeer lib tick p s = Inr t \<and> pool_inv lib t \<and> length (objects t) = length (objects s) \<and>
    pointers s \<subseteq> pointers t \<and> pointers t \<subseteq> insert p (pointers s) \<and> black_list t = black_list s \<and>
    desirable_pool_size t = desirable_pool_size s \<and>
    should_use_exchange_peers_firstly t = should_use_exchange_peers_firstly s \<and>
    (\<forall>q\<in>pointers s. key_at lib t q = key_at lib s q \<and> same_use (objects t ! q) (objects s ! q))"
proof (cases "key_at lib s p \<in> black_list s")
  case True
  with assms show ?thesis by (auto simp: AddPeer_def Let_def pool_inv_def key_at_def)
next
  case False
  have run: "pool_running s" and ix: "index_ok (<) (key_at lib s) (pointers s) (candidate_peers s)"
    using assms(2) by (simp_all add: pool_inv_def)
  show ?thesis
  proof (cases "om_find (<) (key_at lib s p) (candidate_peers s)")
    case None
    have "AddPeer lib tick p s = with_index_updating lib p
        (modify (\<lambda>t. t\<lparr>candidate_peers := om_insert (<) (key_at lib s p) p (candidate_peers t)\<rparr>)) s"
      using run assms(5) False None by (simp add: AddPeer_def Let_def key_at_def)
    with adding_ok [OF assms(1-4) False None] show ?thesis by (auto simp: key_at_def)
  next
    case (Some q)
    note found = linear.index_find_Some [OF ix Some]
    then have key: "GetKey lib (objects s ! q) = GetKey lib (objects s ! p)" by (simp add: key_at_def)
    note b = BeCopiedTo_ok(2,3) [OF assms(1) key, of tick]
    obtain t where t: "AddPeer lib tick p s = Inr t" "pool_inv lib t"
      "objects t = (objects s)[q := join_flags (objects s ! q) (copy_candidate tick (objects s ! p) (objects s ! q))]"
      "candidate_peers t = candidate_peers s"
      "black_list t = black_list s" "desirable_pool_size t = desirable_pool_size s"
      "should_use_exchange_peers_firstly t = should_use_exchange_peers_firstly s"
      using AddPeer_found [OF assms(1,2,5) False Some] by blast
    have P: "pointers t = pointers s" by (simp add: pointers_def t(4))
    have ql: "q < length (objects s)" using found(1) assms(2) by (auto simp: pool_inv_def)
    have "key_at lib t r = key_at lib s r \<and> same_use (objects t ! r) (objects s ! r)" for r
      using ql b join_flags_key [OF assms(1)] by (cases "r = q") (auto simp: key_at_def t(3) join_flags_def same_use_def)
    with t P show ?thesis by auto
  qed
qed

section \<open>Dropping peers\<close>

definition idle :: "('k, 'h) ip_pool \<Rightarrow> nat \<Rightarrow> bool" where
  "idle s p = (\<not> is_connected (objects s ! p) \<and> \<not> is_connecting (objects s ! p))"

lemma removing_ok:
  fixes B :: "'k::linorder set"
  assumes "pool_lib_ok lib" "pool_inv lib s" "p \<in> pointers s" "B \<subseteq> insert (key_at lib s p) (black_list s)"
  defines "t \<equiv> (DeleteIndex lib p (s\<lparr>black_list := B\<rparr>))\<lparr>candidate_peers :=
     om_erase (<) (key_at lib s p) (candidate_peers s)\<rparr>"
  shows "pool_inv lib t" "pointers t = pointers s - {p}" "objects t = objects s" "black_list t = B"
    "desirable_pool_size t = desirable_pool_size s"
    "should_use_exchange_peers_firstly t = should_use_exchange_peers_firstly s"
proof -
  let ?b = "s\<lparr>black_list := B\<rparr>" and ?P = "pointers s"
  from assms(2) have inv: "pool_running s" "?P \<subseteq> {..<length (objects s)}" "inj_on (key_at lib s) ?P"
    "index_ok (<) (key_at lib s) ?P (candidate_peers s)" "indexed lib ?P s" "black_list s \<inter> key_at lib s ` ?P = {}"
    by (auto simp: pool_inv_def)
  show simps: "objects t = objects s" "black_list t = B" "desirable_pool_size t = desirable_pool_size s"
    "should_use_exchange_peers_firstly t = should_use_exchange_peers_firstly s" by (simp_all add: t_def)
  have keys: "key_at lib t q = key_at lib s q" "key_at lib ?b q = key_at lib s q" for q by (simp_all add: key_at_def simps)
  have ins: "insert p ?P = ?P" using assms(3) by blast
  have sep: "separates (<) (key_at lib s) (insert p ?P)" unfolding ins separates_linear by (rule inv(3))
  have cand: "index_ok (<) (key_at lib s) (?P - {p}) (candidate_peers t)"
    using linear.index_erase [OF inv(4) sep] by (simp add: t_def)
  show P: "pointers t = ?P - {p}" using linear.index_distinct(2) [OF cand] by (simp add: pointers_def)
  have run: "pool_running ?b" using inv(1) by simp
  have "indexed lib ?P ?b" by (subst indexed_frame [where s = s]) (auto simp: inv(5))
  moreover have "inj_on (key_at lib ?b) (insert p ?P)" unfolding ins using inv(3) keys by (simp add: inj_on_def)
  ultimately have "indexed lib (?P - {p}) (DeleteIndex lib p ?b)" by (intro DeleteIndex_indexed [OF assms(1) run])
  then have ix: "indexed lib (?P - {p}) t" by (subst indexed_frame [where s = "DeleteIndex lib p ?b"]) (auto simp: t_def)
  have keyt: "key_at lib t = key_at lib s" using keys(1) by blast
  have "inj_on (key_at lib s) (?P - {p})" by (rule inj_on_subset [OF inv(3)]) blast
  moreover have "B \<inter> key_at lib s ` (?P - {p}) = {}"
  proof (rule equals0I)
    fix k assume "k \<in> B \<inter> key_at lib s ` (?P - {p})"
    then obtain q where q: "q \<in> ?P" "q \<noteq> p" "k = key_at lib s q" "k \<in> B" by blast
    from q(1-3) have "k \<noteq> key_at lib s p" using inv(3) assms(3) by (metis inj_onD)
    with q assms(4) inv(6) show False by blast
  qed
  moreover have "?P - {p} \<subseteq> {..<length (objects s)}" using inv(2) by blast
  moreover have "pool_running t" using inv(1) by (simp add: t_def)
  ultimately show "pool_inv lib t" unfolding pool_inv_def P keyt simps using cand ix by blast
qed

lemma kick_loop_ok:
  assumes "pool_lib_ok lib" "pool_inv lib s" "distinct (map snd es)" "set (map snd es) \<subseteq> pointers s"
  shows "\<exists>t. kick_loop lib n m es d s = Inr t \<and> pool_inv lib t \<and> objects t = objects s \<and>
    pointers t = pointers s - set (take (n - d) (filter (idle s) (map snd es))) \<and>
    desirable_pool_size t = desirable_pool_size s \<and>
    should_use_exchange_peers_firstly t = should_use_exchange_peers_firstly s"
  using assms(2-4)
proof (induction es arbitrary: d s)
  case Nil
  then show ?case by auto
next
  case (Cons e es)
  obtain i p where e: "e = (i, p)" by (cases e)
  from Cons.prems(2,3) e have rest: "distinct (map snd es)" "set (map snd es) \<subseteq> pointers s" "p \<in> pointers s"
    "p \<notin> set (map snd es)" by auto
  show ?case
  proof (cases "d < n")
    case False
    with Cons.prems(1) e show ?thesis by auto
  next
    case True
    then have suc: "n - d = Suc (n - Suc d)" by simp
    show ?thesis
    proof (cases "idle s p")
      case False
      from Cons.IH [OF Cons.prems(1) rest(1,2), of d] False e True show ?thesis by (auto simp: idle_def Let_def)
    next
      case True
      let ?k = "key_at lib s p"
      define B where "B = (if connections_attempted (objects s ! p) > m then insert ?k (black_list s) else black_list s)"
      let ?t = "(DeleteIndex lib p (s\<lparr>black_list := B\<rparr>))\<lparr>candidate_peers := om_erase (<) ?k (candidate_peers s)\<rparr>"
      have B: "B \<subseteq> insert ?k (black_list s)" by (auto simp: B_def)
      have nb: "?k \<notin> black_list s" using Cons.prems(1) rest(3) by (auto simp: pool_inv_def)
      note t = removing_ok [OF assms(1) Cons.prems(1) rest(3) B]
      have "kick_loop lib n m (e # es) d s = kick_loop lib n m es (d + 1) ?t"
        using nb True \<open>d < n\<close> e by (simp add: idle_def Let_def B_def key_at_def)
      moreover have "set (map snd es) \<subseteq> pointers ?t" using rest(2,4) unfolding t(2) by blast
      moreover have idle: "idle ?t = idle s" by (auto simp: idle_def t(3))
      ultimately show ?thesis
        using Cons.IH [OF t(1) rest(1), of "d + 1"] True \<open>d < n\<close> e
        by (auto simp: t(2-6) suc)
    qed
  qed
qed

text \<open>The pool's peers in the order of the index by activity.\<close>

definition by_activity :: "('k, 'h) ip_pool \<Rightarrow> nat list" where
  "by_activity s = map snd (active_index s)"

lemma Kick_ok:
  assumes "pool_lib_ok lib" "pool_inv lib s"
  shows "\<exists>t. KickTrivialCandidatePeers lib s = Inr t \<and> pool_inv lib t \<and> objects t = objects s \<and>
    pointers t = pointers s -
      (if desirable_pool_size s = 0 then {}
       else set (take (card (pointers s) - desirable_pool_size s) (filter (idle s) (by_activity s)))) \<and>
    desirable_pool_size t = desirable_pool_size s \<and>
    should_use_exchange_peers_firstly t = should_use_exchange_peers_firstly s"
proof -
  have cand: "index_ok (<) (key_at lib s) (pointers s) (candidate_peers s)"
    and act: "index_ok active_less (\<lambda>p. GetActiveIndicator lib (objects s ! p)) (pointers s) (active_index s)"
    using assms(2) by (simp_all add: pool_inv_def indexed_def)
  note n = linear.index_distinct(3) [OF cand]
  have "pointers s = {}" if "candidate_peers s = []" using that by (simp add: pointers_def)
  then show ?thesis
    using assms(2) kick_loop_ok [OF assms active.index_distinct(1) [OF act],
        of "card (pointers s) - desirable_pool_size s" "desirable_pool_size s div card (pointers s)" 0]
      active.index_distinct(2) [OF act]
    by (auto simp: KickTrivialCandidatePeers_def Let_def by_activity_def n)
qed

section \<open>Sequences of operations\<close>

lemma add_candidate_ok:
  assumes "pool_lib_ok lib" "pool_inv lib s"
  shows "\<exists>t. add_candidate lib tick firstly score from_cdn info s = Inr t \<and> pool_inv lib t \<and>
    pointers s \<subseteq> pointers t \<and> desirable_pool_size t = desirable_pool_size s \<and>
    (\<forall>q\<in>pointers s. key_at lib t q = key_at lib s q \<and> same_use (objects t ! q) (objects s ! q))"
proof -
  define peer where
    "peer = new_peer lib tick info (firstly \<and> should_use_exchange_peers_firstly s) (score info) from_cdn"
  let ?a = "s\<lparr>objects := objects s @ [peer]\<rparr>"
  have a: "pool_inv lib ?a" by (rule alloc_inv [OF assms(2)])
  have P: "pointers ?a = pointers s" by (simp add: pointers_def)
  have fresh: "length (objects s) \<notin> pointers s" using assms(2) by (auto simp: pool_inv_def)
  have keep: "objects ?a ! q = objects s ! q" if "q \<in> pointers s" for q
    using that assms(2) by (auto simp: pool_inv_def nth_append)
  show ?thesis
  proof (cases "IsSelf lib peer")
    case True
    with a P keep show ?thesis by (auto simp: add_candidate_def Let_def peer_def [symmetric] key_at_def)
  next
    case False
    then have "\<not> IsSelf lib (objects ?a ! length (objects s))" by simp
    from AddPeer_ok [OF assms(1) a _ _ this, of tick] fresh P
    obtain t where t: "AddPeer lib tick (length (objects s)) ?a = Inr t" "pool_inv lib t" "pointers s \<subseteq> pointers t"
      "desirable_pool_size t = desirable_pool_size s"
      "\<forall>q\<in>pointers s. key_at lib t q = key_at lib ?a q \<and> same_use (objects t ! q) (objects ?a ! q)" by auto
    have "add_candidate lib tick firstly score from_cdn info s = Inr t"
      using False t(1) by (simp add: add_candidate_def Let_def peer_def [symmetric])
    with t keep show ?thesis by (auto simp: key_at_def)
  qed
qed

lemma add_candidates_ok:
  assumes "pool_lib_ok lib" "pool_inv lib s"
  shows "\<exists>t. seq (map (add_candidate lib tick firstly score from_cdn) infos) s = Inr t \<and> pool_inv lib t \<and>
    pointers s \<subseteq> pointers t \<and> desirable_pool_size t = desirable_pool_size s \<and>
    (\<forall>q\<in>pointers s. key_at lib t q = key_at lib s q \<and> same_use (objects t ! q) (objects s ! q))"
  using assms(2)
proof (induction infos arbitrary: s)
  case Nil
  then show ?case by auto
next
  case (Cons info infos)
  from add_candidate_ok [OF assms(1) Cons.prems] obtain t where t:
    "add_candidate lib tick firstly score from_cdn info s = Inr t" "pool_inv lib t" "pointers s \<subseteq> pointers t"
    "desirable_pool_size t = desirable_pool_size s"
    "\<forall>q\<in>pointers s. key_at lib t q = key_at lib s q \<and> same_use (objects t ! q) (objects s ! q)" by blast
  from Cons.IH [OF t(2)] obtain u where u:
    "seq (map (add_candidate lib tick firstly score from_cdn) infos) t = Inr u" "pool_inv lib u" "pointers t \<subseteq> pointers u"
    "desirable_pool_size u = desirable_pool_size t"
    "\<forall>q\<in>pointers t. key_at lib u q = key_at lib t q \<and> same_use (objects u ! q) (objects t ! q)" by blast
  have "key_at lib u q = key_at lib s q \<and> same_use (objects u ! q) (objects s ! q)" if "q \<in> pointers s" for q
    using that t(3,5) u(5) by (auto intro: same_use_trans)
  with t u show ?case by auto
qed

lemma AddCandidatePeers_ok:
  assumes "pool_lib_ok lib" "pool_inv lib s"
  shows "\<exists>t. AddCandidatePeers lib tick firstly score from_cdn infos s = Inr t \<and> pool_inv lib t"
proof -
  obtain u where u: "seq (map (add_candidate lib tick firstly score from_cdn) infos) s = Inr u" "pool_inv lib u"
    using add_candidates_ok [OF assms] by blast
  obtain t where t: "KickTrivialCandidatePeers lib u = Inr t" "pool_inv lib t" using Kick_ok [OF assms(1) u(2)] by blast
  have "pool_running s" using assms(2) by (simp add: pool_inv_def)
  with u(1) t show ?thesis by (simp add: AddCandidatePeers_def seq_append)
qed

lemma GetForConnect_Cons:
  assumes "pool_lib_ok lib" "pool_inv lib s" "connect_index s = e # es"
  shows "\<exists>r t. GetForConnect lib tick udp s = Inr (r, t) \<and> pool_inv lib t \<and> candidate_peers t = candidate_peers s \<and>
    (if CanConnect tick udp (objects s ! snd e)
     then r = Some (peer_info.truncate (objects s ! snd e)) \<and>
       objects t = (objects s)[snd e := (objects s ! snd e)\<lparr>last_connect_time := ucast tick\<rparr>]
     else r = None \<and> t = s)"
proof -
  have run: "pool_running s"
    and ix: "index_ok connect_less (\<lambda>p. GetConnectIndicator lib (objects s ! p)) (pointers s) (e # es)"
    using assms(2,3) by (simp_all add: pool_inv_def indexed_def)
  from connect.index_first(2) [OF ix] have p: "snd e \<in> pointers s" .
  let ?g = "\<lambda>p. p\<lparr>last_connect_time := ucast tick\<rparr>"
  have key: "GetKey lib (?g (objects s ! snd e)) = GetKey lib (objects s ! snd e)"
    by (rule GetKey_cong [OF assms(1)]) simp_all
  have "join_flags (objects s ! snd e) (?g (objects s ! snd e)) = ?g (objects s ! snd e)"
    by (simp add: join_flags_def)
  with updating_ok [OF assms(1,2) p, of "modify (change_peer (snd e) ?g)" ?g] key assms(2,3) run
  show ?thesis by (auto simp: GetForConnect_def Let_def)
qed

lemma GetForConnect_ok:
  assumes "pool_lib_ok lib" "pool_inv lib s"
  shows "\<exists>r t. GetForConnect lib tick udp s = Inr (r, t) \<and> pool_inv lib t"
proof (cases "connect_index s")
  case Nil
  with assms(2) show ?thesis by (auto simp: GetForConnect_def)
next
  case (Cons e es)
  from GetForConnect_Cons [OF assms this] show ?thesis by blast
qed

lemma GetForExchange_ok:
  assumes "pool_lib_ok lib" "pool_inv lib s"
  shows "\<exists>r t. GetForExchange lib tick s = Inr (r, t) \<and> pool_inv lib t"
proof (cases "exchange_index s")
  case Nil
  with assms(2) show ?thesis by (auto simp: GetForExchange_def)
next
  case (Cons e es)
  have run: "pool_running s"
    and ix: "index_ok exchange_less (\<lambda>p. GetExchangeIndicator lib (objects s ! p)) (pointers s) (e # es)"
    using assms(2) Cons by (simp_all add: pool_inv_def indexed_def)
  from exchange.index_first(2) [OF ix] have p: "snd e \<in> pointers s" .
  let ?g = "\<lambda>p. p\<lparr>last_exchange_time := ucast tick\<rparr>"
  have key: "GetKey lib (?g (objects s ! snd e)) = GetKey lib (objects s ! snd e)"
    by (rule GetKey_cong [OF assms(1)]) simp_all
  with updating_ok [OF assms p, of "modify (change_peer (snd e) ?g)" ?g] key Cons run assms(2)
  show ?thesis by (auto simp: GetForExchange_def Let_def)
qed

lemma closed_sessions_inv [simp]: "pool_inv lib (s\<lparr>closed_sessions := c\<rparr>) = pool_inv lib s"
proof -
  have "pointers (s\<lparr>closed_sessions := c\<rparr>) = pointers s" "key_at lib (s\<lparr>closed_sessions := c\<rparr>) = key_at lib s"
    by (auto simp: pointers_def key_at_def)
  then show ?thesis by (simp add: pool_inv_def indexed_def)
qed

lemma OnDisConnect_ok:
  assumes "pool_lib_ok lib" "pool_inv lib s"
  shows "\<exists>t. pool_OnDisConnect lib tick k is_active s = Inr t \<and> pool_inv lib t"
proof -
  have "keeps_address (\<lambda>p. p\<lparr>last_active_time := ucast tick, last_connect_time := ucast tick,
      is_connecting := False, is_connected := False\<rparr>)" by (simp add: keeps_address_def)
  from on_peer_ok [OF assms this, of k] show ?thesis by (auto simp: pool_OnDisConnect_def)
qed

lemma DisConnectAll_ok:
  assumes "pool_lib_ok lib" "pool_inv lib s"
  shows "\<exists>t. pool_DisConnectAll lib tick s = Inr t \<and> pool_inv lib t"
proof -
  have "\<exists>t. seq (map (\<lambda>e. pool_OnDisConnect lib tick (fst e) True) es) s = Inr t \<and> pool_inv lib t" for es :: "('a \<times> nat) list"
    using assms(2)
  proof (induction es arbitrary: s)
    case (Cons e es)
    obtain t where "pool_OnDisConnect lib tick (fst e) True s = Inr t" "pool_inv lib t"
      using OnDisConnect_ok [OF assms(1) Cons.prems] by blast
    with Cons.IH [of t] show ?case by auto
  qed simp
  then show ?thesis by (simp add: pool_DisConnectAll_def)
qed

lemma keeps_address_handlers:
  "keeps_address (\<lambda>p. peer_OnConnectSucceed lib
     (p\<lparr>is_connecting := True, is_connected := False, connections_attempted := connections_attempted p + 1\<rparr>))"
  "keeps_address (\<lambda>p. peer_OnConnectFailed lib (p\<lparr>is_connecting := False, is_connected := False\<rparr>))"
  "keeps_address (\<lambda>p. peer_OnConnectTimeout lib (p\<lparr>is_connecting := False, is_connected := False\<rparr>))"
  "keeps_address (\<lambda>p. p\<lparr>last_active_time := a, is_connecting := False, is_connected := True\<rparr>)"
  by (simp_all add: keeps_address_def peer_OnConnectSucceed_def peer_OnConnectFailed_def peer_OnConnectTimeout_def Let_def)

text \<open>Everything that is done with a running pool, each at its own time.\<close>

datatype 'k pool_event =
    Announced bool "peer_info \<Rightarrow> nat" bool "peer_info list"
  | AskedForConnect bool
  | AskedForExchange
  | Connecting 'k
  | ConnectFailed 'k
  | ConnectTimeout 'k
  | ConnectSucceeded 'k
  | Disconnected 'k bool
  | DisconnectedAll
  | Kicked

fun pool_step :: "('k::linorder, 'h::linorder) pool_lib \<Rightarrow> u64 \<times> 'k pool_event \<Rightarrow> ('k, 'h) ip_pool action" where
  "pool_step lib (tick, Announced firstly score from_cdn infos) s = AddCandidatePeers lib tick firstly score from_cdn infos s"
| "pool_step lib (tick, AskedForConnect udp) s = and_then (GetForConnect lib tick udp s) (\<lambda>(_, t). Inr t)"
| "pool_step lib (tick, AskedForExchange) s = and_then (GetForExchange lib tick s) (\<lambda>(_, t). Inr t)"
| "pool_step lib (tick, Connecting k) s = pool_OnConnect lib k s"
| "pool_step lib (tick, ConnectFailed k) s = pool_OnConnectFailed lib k s"
| "pool_step lib (tick, ConnectTimeout k) s = pool_OnConnectTimeout lib k s"
| "pool_step lib (tick, ConnectSucceeded k) s = pool_OnConnectSucced lib tick k s"
| "pool_step lib (tick, Disconnected k is_active) s = pool_OnDisConnect lib tick k is_active s"
| "pool_step lib (tick, DisconnectedAll) s = pool_DisConnectAll lib tick s"
| "pool_step lib (tick, Kicked) s = KickTrivialCandidatePeers lib s"

lemma pool_step_ok:
  assumes "pool_lib_ok lib" "pool_inv lib s"
  shows "\<exists>t. pool_step lib e s = Inr t \<and> pool_inv lib t"
proof -
  obtain tick ev where e: "e = (tick, ev)" by (cases e)
  note handlers = keeps_address_handlers [THEN on_peer_ok [OF assms]]
  show ?thesis
  proof (cases ev)
    case (AskedForConnect udp)
    with GetForConnect_ok [OF assms, of tick udp] show ?thesis by (auto simp: e)
  next
    case AskedForExchange
    with GetForExchange_ok [OF assms, of tick] show ?thesis by (auto simp: e)
  qed (use handlers AddCandidatePeers_ok [OF assms] OnDisConnect_ok [OF assms] DisConnectAll_ok [OF assms] Kick_ok [OF assms] in
      \<open>fastforce simp: e pool_OnConnect_def pool_OnConnectFailed_def pool_OnConnectTimeout_def pool_OnConnectSucced_def\<close>)+
qed

lemma pool_steps_ok:
  assumes "pool_lib_ok lib" "pool_inv lib s"
  shows "\<exists>t. seq (map (pool_step lib) es) s = Inr t \<and> pool_inv lib t"
  using assms(2)
proof (induction es arbitrary: s)
  case (Cons e es)
  obtain t where "pool_step lib e s = Inr t" "pool_inv lib t" using pool_step_ok [OF assms(1) Cons.prems] by blast
  with Cons.IH [of t] show ?case by auto
qed simp

section \<open>The pool through its addresses\<close>

definition peer_of :: "('k::linorder, 'h) ip_pool \<Rightarrow> 'k \<Rightarrow> candidate_peer option" where
  "peer_of s k = map_option (\<lambda>p. objects s ! p) (om_find (<) k (candidate_peers s))"

definition pool_run ::
    "('k::linorder, 'h::linorder) pool_lib \<Rightarrow> nat \<Rightarrow> (u64 \<times> 'k pool_event) list \<Rightarrow> ('k, 'h) ip_pool result" where
  "pool_run lib desirable es = and_then (pool_Start lib (pool_create desirable)) (seq (map (pool_step lib) es))"

lemma started_inv: "\<exists>s. pool_Start lib (pool_create n) = Inr s \<and> pool_inv lib s"
  by (simp add: pool_Start_def pool_create_def pool_inv_def pointers_def indexed_def linear.index_empty
      exchange.index_empty connect.index_empty active.index_empty)

lemma pool_run_ok:
  assumes "pool_lib_ok lib"
  shows "\<exists>t. pool_run lib n es = Inr t \<and> pool_inv lib t"
proof -
  obtain s where "pool_Start lib (pool_create n) = Inr s" "pool_inv lib s" using started_inv by blast
  with pool_steps_ok [OF assms, of s es] show ?thesis by (simp add: pool_run_def)
qed

lemma pool_run_inv: "pool_lib_ok lib \<Longrightarrow> pool_run lib n es = Inr s \<Longrightarrow> pool_inv lib s"
  using pool_run_ok [of lib n es] by auto

lemma inv_index:
  assumes "pool_inv lib s"
  shows "index_ok (<) (key_at lib s) (pointers s) (candidate_peers s)" "separates (<) (key_at lib s) (pointers s)"
    "index_ok exchange_less (\<lambda>p. GetExchangeIndicator lib (objects s ! p)) (pointers s) (exchange_index s)"
    "index_ok connect_less (\<lambda>p. GetConnectIndicator lib (objects s ! p)) (pointers s) (connect_index s)"
    "index_ok active_less (\<lambda>p. GetActiveIndicator lib (objects s ! p)) (pointers s) (active_index s)"
  using assms by (auto simp: pool_inv_def indexed_def separates_linear)

lemma peer_of_iff:
  assumes "pool_inv lib s"
  shows "peer_of s k = Some v \<longleftrightarrow> (\<exists>p\<in>pointers s. key_at lib s p = k \<and> objects s ! p = v)"
proof
  assume "peer_of s k = Some v"
  then obtain p where p: "om_find (<) k (candidate_peers s) = Some p" "objects s ! p = v" by (auto simp: peer_of_def)
  from linear.index_find_Some [OF inv_index(1) [OF assms] p(1)] p(2)
  show "\<exists>p\<in>pointers s. key_at lib s p = k \<and> objects s ! p = v" by (intro bexI [of _ p]) auto
next
  assume "\<exists>p\<in>pointers s. key_at lib s p = k \<and> objects s ! p = v"
  then obtain p where "p \<in> pointers s" "key_at lib s p = k" "objects s ! p = v" by blast
  with linear.index_find [OF inv_index(1,2) [OF assms], of p] show "peer_of s k = Some v" by (simp add: peer_of_def)
qed

lemma peer_of_at:
  assumes "pool_inv lib s" "p \<in> pointers s"
  shows "peer_of s (key_at lib s p) = Some (objects s ! p)"
  using peer_of_iff [OF assms(1)] assms(2) by blast

lemma peer_of_changed:
  assumes "pool_inv lib s" "p \<in> pointers s" "candidate_peers t = candidate_peers s" "objects t = (objects s)[p := v]"
  shows "peer_of t j = (if j = key_at lib s p then Some v else peer_of s j)"
proof (cases "om_find (<) j (candidate_peers s)")
  case None
  with linear.index_find [OF inv_index(1,2) [OF assms(1)] assms(2)] have "j \<noteq> key_at lib s p" by auto
  with None show ?thesis by (simp add: peer_of_def assms(3))
next
  case (Some q)
  note q = linear.index_find_Some [OF inv_index(1) [OF assms(1)] Some]
  then have j: "j = key_at lib s q" by simp
  have "q = p \<longleftrightarrow> j = key_at lib s p"
    using q(1) assms(1,2) unfolding j by (auto simp: pool_inv_def inj_on_def)
  moreover have "p < length (objects s)" using assms(1,2) by (auto simp: pool_inv_def)
  ultimately show ?thesis using Some by (auto simp: peer_of_def assms(3,4))
qed

section \<open>Properties\<close>

lemma index_ok_members: "index_ok lt f P m \<Longrightarrow> (i, p) \<in> set m \<longleftrightarrow> p \<in> P \<and> i = f p"
  by (auto simp: index_ok_def)


text \<open>
  The times of the peers make sense at the tick: no next time to connect wraps around, and the clock runs for
  longer than peers that were never tried are protected (10 seconds when they are new).
\<close>

definition clock_ok :: "u64 \<Rightarrow> candidate_peer \<Rightarrow> bool" where
  "clock_ok tick p =
     (unat tick < 2 ^ 32 \<and> unat (last_connect_time p) \<le> unat tick \<and>
      unat (last_connect_time p) + unat (connect_protect_time p) < 2 ^ 32 \<and>
      (last_connect_time p = 0 \<longrightarrow> unat (connect_protect_time p) \<le> unat tick))"

lemma CanConnect_clock:
  assumes "clock_ok tick p"
  shows "CanConnect tick False p \<longleftrightarrow> \<not> is_connected p \<and> \<not> is_connecting p \<and>
    unat (last_connect_time p) + unat (connect_protect_time p) \<le> unat tick"
proof -
  have c: "unat (ucast w :: u64) = unat w" for w :: u32
    using u32_less(1) [of w] by (intro unat_ucast_small) simp
  have le: "(ucast (last_connect_time p) :: u64) \<le> tick" using assms by (simp add: clock_ok_def word_le_nat_alt c)
  have "tick - ucast (last_connect_time p) < ucast (connect_protect_time p) \<longleftrightarrow>
      unat tick - unat (last_connect_time p) < unat (connect_protect_time p)"
    by (simp add: word_less_nat_alt unat_sub [OF le] c)
  then show ?thesis using assms by (auto simp: CanConnect_def clock_ok_def)
qed

lemma next_time_clock:
  assumes "clock_ok tick p"
  shows "unat (next_time_to_connect (GetConnectIndicator lib p)) = unat (last_connect_time p) + unat (connect_protect_time p)"
  using assms by (simp add: GetConnectIndicator_def clock_ok_def unat_word_ariths(1))

text \<open>How the pools are used: with the UDP servers every idle peer may be connected; without them there are no CDN servers.\<close>

definition used_well :: "u64 \<Rightarrow> bool \<Rightarrow> candidate_peer set \<Rightarrow> bool" where
  "used_well tick udp ps = (udp \<or> (\<forall>p\<in>ps. \<not> is_udpserver_from_cdn p \<and> clock_ok tick p))"

lemma head_decides:
  assumes "used_well tick udp {h, p}" "connect_less (GetConnectIndicator lib h) (GetConnectIndicator lib p)"
    "CanConnect tick udp p"
  shows "CanConnect tick udp h"
proof (cases udp)
  case True
  with assms(2,3) show ?thesis
    by (auto simp: CanConnect_def connect_less_def ci_CanConnect_def GetConnectIndicator_def split: if_splits)
next
  case False
  then have w: "clock_ok tick h" "clock_ok tick p" "\<not> is_udpserver_from_cdn h" "\<not> is_udpserver_from_cdn p"
    using assms(1) by (auto simp: used_well_def)
  have p: "\<not> is_connected p" "\<not> is_connecting p" "unat (last_connect_time p) + unat (connect_protect_time p) \<le> unat tick"
    using assms(3) CanConnect_clock [OF w(2)] False by auto
  with assms(2) w(3,4) have "\<not> is_connected h" "\<not> is_connecting h"
    "next_time_to_connect (GetConnectIndicator lib h) \<le> next_time_to_connect (GetConnectIndicator lib p)"
    by (auto simp: connect_less_def ci_CanConnect_def GetConnectIndicator_def split: if_splits)
  moreover from this(3) have "unat (last_connect_time h) + unat (connect_protect_time h) \<le> unat tick"
    using p(3) by (simp add: word_le_nat_alt next_time_clock [OF w(1)] next_time_clock [OF w(2)])
  ultimately show ?thesis using CanConnect_clock [OF w(1)] False by simp
qed

lemma offer_ok:
  assumes "pool_lib_ok lib" "pool_inv lib s" "used_well tick udp ((!) (objects s) ` pointers s)"
  shows "\<exists>r t. GetForConnect lib tick udp s = Inr (r, t) \<and> pool_inv lib t \<and>
    (if \<exists>p\<in>pointers s. CanConnect tick udp (objects s ! p)
     then \<exists>h\<in>pointers s. r = Some (peer_info.truncate (objects s ! h)) \<and> CanConnect tick udp (objects s ! h) \<and>
       (\<forall>q\<in>pointers s. q \<noteq> h \<longrightarrow>
          connect_less (GetConnectIndicator lib (objects s ! h)) (GetConnectIndicator lib (objects s ! q))) \<and>
       candidate_peers t = candidate_peers s \<and>
       objects t = (objects s)[h := (objects s ! h)\<lparr>last_connect_time := ucast tick\<rparr>]
     else r = None \<and> t = s)"
proof (cases "connect_index s")
  case Nil
  with inv_index(4) [OF assms(2)] have "pointers s = {}" by (simp add: index_ok_def)
  with assms(2) Nil show ?thesis by (auto simp: GetForConnect_def)
next
  case (Cons e es)
  note first = connect.index_first [OF inv_index(4) [OF assms(2), unfolded Cons]]
  have hd: "CanConnect tick udp (objects s ! snd e)" if "p \<in> pointers s" "CanConnect tick udp (objects s ! p)" for p
  proof (cases "p = snd e")
    case False
    have "used_well tick udp {objects s ! snd e, objects s ! p}"
      using assms(3) first(2) that(1) by (auto simp: used_well_def)
    moreover have "connect_less (GetConnectIndicator lib (objects s ! snd e)) (GetConnectIndicator lib (objects s ! p))"
      using first(3) that(1) False by blast
    ultimately show ?thesis by (rule head_decides) (rule that(2))
  qed (use that in simp)
  from GetForConnect_Cons [OF assms(1,2) Cons, of tick udp] obtain r t where rt:
    "GetForConnect lib tick udp s = Inr (r, t)" "pool_inv lib t" "candidate_peers t = candidate_peers s"
    "if CanConnect tick udp (objects s ! snd e)
     then r = Some (peer_info.truncate (objects s ! snd e)) \<and>
       objects t = (objects s)[snd e := (objects s ! snd e)\<lparr>last_connect_time := ucast tick\<rparr>]
     else r = None \<and> t = s" by blast
  show ?thesis
  proof (cases "CanConnect tick udp (objects s ! snd e)")
    case True
    with first(2) have ex: "\<exists>p\<in>pointers s. CanConnect tick udp (objects s ! p)" by blast
    from rt(4) True have "r = Some (peer_info.truncate (objects s ! snd e))"
      "objects t = (objects s)[snd e := (objects s ! snd e)\<lparr>last_connect_time := ucast tick\<rparr>]" by simp_all
    with first(2,3) rt(1-3) True show ?thesis unfolding if_P [OF ex] by blast
  next
    case False
    with hd have no: "\<not> (\<exists>p\<in>pointers s. CanConnect tick udp (objects s ! p))" by blast
    from False rt show ?thesis unfolding if_not_P [OF no] by simp
  qed
qed


section \<open>Turns\<close>

definition offer :: "('k::linorder, 'h::linorder) pool_lib \<Rightarrow> u64 \<Rightarrow> ('k, 'h) ip_pool \<Rightarrow> ('k, 'h) ip_pool option" where
  "offer lib tick s = (case GetForConnect lib tick False s of Inr (Some _, t) \<Rightarrow> Some t | _ \<Rightarrow> None)"

text \<open>An ordinary peer, at a time at which it can be offered and then be left alone for a while.\<close>

definition turn_peer :: "u64 \<Rightarrow> candidate_peer \<Rightarrow> bool" where
  "turn_peer tick v =
     (\<not> is_udpserver_from_cdn v \<and> clock_ok tick v \<and> 0 < unat (connect_protect_time v) \<and> 0 < unat tick \<and>
      unat tick + unat (connect_protect_time v) < 2 ^ 32)"

definition tried :: "u64 \<Rightarrow> candidate_peer \<Rightarrow> candidate_peer" where
  "tried tick v = (if CanConnect tick False v then v\<lparr>last_connect_time := ucast tick\<rparr> else v)"

lemma tried_once:
  assumes "turn_peer tick v"
  shows "turn_peer tick (v\<lparr>last_connect_time := ucast tick\<rparr>)" "\<not> CanConnect tick False (v\<lparr>last_connect_time := ucast tick\<rparr>)"
proof -
  have u: "unat (ucast tick :: u32) = unat tick"
    using assms by (intro unat_ucast_small) (simp add: turn_peer_def clock_ok_def)
  then have "(ucast tick :: u32) \<noteq> 0" using assms by (auto simp: turn_peer_def)
  with assms u show t: "turn_peer tick (v\<lparr>last_connect_time := ucast tick\<rparr>)"
    by (simp add: turn_peer_def clock_ok_def)
  then show "\<not> CanConnect tick False (v\<lparr>last_connect_time := ucast tick\<rparr>)"
    by (subst CanConnect_clock) (auto simp: turn_peer_def u)
qed

definition turn_inv :: "('k::linorder, 'h::linorder) pool_lib \<Rightarrow> u64 \<Rightarrow> ('k, 'h) ip_pool \<Rightarrow> bool" where
  "turn_inv lib tick s = (pool_lib_ok lib \<and> pool_inv lib s \<and> (\<forall>p\<in>pointers s. turn_peer tick (objects s ! p)))"

definition waiting :: "u64 \<Rightarrow> ('k, 'h) ip_pool \<Rightarrow> nat set" where
  "waiting tick s = {p \<in> pointers s. CanConnect tick False (objects s ! p)}"

lemma finite_waiting: "finite (waiting tick s)"
  by (simp add: waiting_def pointers_def)

lemma offer_cases:
  assumes "turn_inv lib tick s"
  shows "waiting tick s = {} \<and> GetForConnect lib tick False s = Inr (None, s) \<and> offer lib tick s = None \<or>
    (\<exists>t h. h \<in> waiting tick s \<and> offer lib tick s = Some t \<and> turn_inv lib tick t \<and> waiting tick t = waiting tick s - {h} \<and>
       peer_of t = (peer_of s)(key_at lib s h \<mapsto> (objects s ! h)\<lparr>last_connect_time := ucast tick\<rparr>))"
proof -
  have inv: "pool_lib_ok lib" "pool_inv lib s" "\<And>p. p \<in> pointers s \<Longrightarrow> turn_peer tick (objects s ! p)"
    using assms by (auto simp: turn_inv_def)
  have "used_well tick False ((!) (objects s) ` pointers s)"
    using inv(3) by (auto simp: used_well_def turn_peer_def)
  from offer_ok [OF inv(1,2) this] obtain r t where rt: "GetForConnect lib tick False s = Inr (r, t)" "pool_inv lib t"
    "if \<exists>p\<in>pointers s. CanConnect tick False (objects s ! p)
     then \<exists>h\<in>pointers s. r = Some (peer_info.truncate (objects s ! h)) \<and> CanConnect tick False (objects s ! h) \<and>
       (\<forall>q\<in>pointers s. q \<noteq> h \<longrightarrow>
          connect_less (GetConnectIndicator lib (objects s ! h)) (GetConnectIndicator lib (objects s ! q))) \<and>
       candidate_peers t = candidate_peers s \<and>
       objects t = (objects s)[h := (objects s ! h)\<lparr>last_connect_time := ucast tick\<rparr>]
     else r = None \<and> t = s" by blast
  show ?thesis
  proof (cases "\<exists>p\<in>pointers s. CanConnect tick False (objects s ! p)")
    case False
    with rt show ?thesis by (auto simp: waiting_def offer_def)
  next
    case True
    with rt(3) obtain h where h: "h \<in> pointers s" "r = Some (peer_info.truncate (objects s ! h))"
      "CanConnect tick False (objects s ! h)" "candidate_peers t = candidate_peers s"
      "objects t = (objects s)[h := (objects s ! h)\<lparr>last_connect_time := ucast tick\<rparr>]" by auto
    have len: "h < length (objects s)" using h(1) inv(2) by (auto simp: pool_inv_def)
    have P: "pointers t = pointers s" by (simp add: pointers_def h(4))
    note once = tried_once [OF inv(3) [OF h(1)]]
    have "turn_inv lib tick t"
      using inv rt(2) once(1) len by (auto simp: turn_inv_def P h(5) nth_list_update)
    moreover have "waiting tick t = waiting tick s - {h}"
      using once(2) len by (auto simp: waiting_def P h(5) nth_list_update split: if_splits)
    moreover have "peer_of t = (peer_of s)(key_at lib s h \<mapsto> (objects s ! h)\<lparr>last_connect_time := ucast tick\<rparr>)"
      using peer_of_changed [OF inv(2) h(1,4,5)] by auto
    moreover have "offer lib tick s = Some t" by (simp add: offer_def rt(1) h(2))
    moreover have "h \<in> waiting tick s" using h(1,3) by (simp add: waiting_def)
    ultimately show ?thesis by blast
  qed
qed

interpretation turns: request_loop "offer lib tick" "turn_inv lib tick" "\<lambda>s. card (waiting tick s)"
  for lib :: "('k::linorder, 'h::linorder) pool_lib" and tick
proof
  fix s :: "('k, 'h) ip_pool"
  assume inv: "turn_inv lib tick s"
  { assume "card (waiting tick s) = 0"
    then show "offer lib tick s = None" using offer_cases [OF inv] finite_waiting [of tick s] by auto }
  { assume "card (waiting tick s) \<noteq> 0"
    then have "waiting tick s \<noteq> {}" by auto
    with offer_cases [OF inv] obtain t h where "h \<in> waiting tick s" "offer lib tick s = Some t" "turn_inv lib tick t"
      "waiting tick t = waiting tick s - {h}" by blast
    then show "\<exists>t. offer lib tick s = Some t \<and> turn_inv lib tick t \<and> card (waiting tick t) = card (waiting tick s) - 1"
      by (auto simp: finite_waiting) }
qed

definition settled :: "u64 \<Rightarrow> ('k::linorder, 'h) ip_pool \<Rightarrow> 'k \<Rightarrow> candidate_peer option" where
  "settled tick s k = map_option (tried tick) (peer_of s k)"

lemma offer_settled:
  assumes "turn_inv lib tick s" "offer lib tick s = Some t"
  shows "settled tick t = settled tick s"
proof -
  from offer_cases [OF assms(1)] assms(2) obtain h where h: "h \<in> waiting tick s"
    "peer_of t = (peer_of s)(key_at lib s h \<mapsto> (objects s ! h)\<lparr>last_connect_time := ucast tick\<rparr>)" by auto
  have inv: "pool_inv lib s" "turn_peer tick (objects s ! h)" "h \<in> pointers s" "CanConnect tick False (objects s ! h)"
    using assms(1) h(1) by (auto simp: turn_inv_def waiting_def)
  show ?thesis
    using peer_of_at [OF inv(1,3)] tried_once [OF inv(2)] inv(4) by (auto simp: settled_def h(2) tried_def)
qed


section \<open>Too many peers\<close>

lemma by_activity_sorted:
  assumes "pool_inv lib s"
  shows "sorted_wrt (\<lambda>p q. last_active_time (objects s ! p) \<le> last_active_time (objects s ! q)) (by_activity s)"
proof -
  have ix: "index_ok active_less (\<lambda>p. GetActiveIndicator lib (objects s ! p)) (pointers s) (active_index s)"
    by (rule inv_index(5) [OF assms])
  have "sorted_wrt (\<lambda>e f. active_less (fst e) (fst f)) (active_index s)"
    using ix by (simp add: index_ok_def om_sorted_def sorted_wrt_map)
  moreover have "last_active_time (objects s ! snd e) \<le> last_active_time (objects s ! snd f)"
    if "e \<in> set (active_index s)" "f \<in> set (active_index s)" "active_less (fst e) (fst f)" for e f
    using that ix
    by (auto simp: index_ok_def active_less_def CompareIndicator_def GetActiveIndicator_def split: if_splits)
  ultimately have "sorted_wrt (\<lambda>e f. last_active_time (objects s ! snd e) \<le> last_active_time (objects s ! snd f)) (active_index s)"
    by (rule sorted_wrt_mono_rel [rotated])
  then show ?thesis by (simp add: by_activity_def sorted_wrt_map)
qed

definition busy :: "candidate_peer \<Rightarrow> bool" where
  "busy v = (is_connected v \<or> is_connecting v)"

definition dropped :: "('k, 'h) ip_pool \<Rightarrow> nat set" where
  "dropped s =
     (if desirable_pool_size s = 0 then {}
      else set (take (card (pointers s) - desirable_pool_size s) (filter (idle s) (by_activity s))))"

lemma by_activity_set:
  assumes "pool_inv lib s"
  shows "set (by_activity s) = pointers s" "distinct (by_activity s)"
  using active.index_distinct [OF inv_index(5) [OF assms]] by (simp_all add: by_activity_def)

lemma dropped_idle:
  assumes "pool_inv lib s"
  shows "dropped s \<subseteq> {p \<in> pointers s. idle s p}"
proof
  fix p assume "p \<in> dropped s"
  then have "p \<in> set (take (card (pointers s) - desirable_pool_size s) (filter (idle s) (by_activity s)))"
    by (simp add: dropped_def split: if_splits)
  then have "p \<in> set (filter (idle s) (by_activity s))" by (rule in_set_takeD)
  then show "p \<in> {p \<in> pointers s. idle s p}" using by_activity_set(1) [OF assms] by simp
qed

lemma dropped_oldest:
  assumes "pool_inv lib s" "p \<in> dropped s" "q \<in> pointers s - dropped s" "idle s q"
  shows "last_active_time (objects s ! p) \<le> last_active_time (objects s ! q)"
proof -
  let ?F = "filter (idle s) (by_activity s)" and ?m = "card (pointers s) - desirable_pool_size s"
  have p: "p \<in> set (take ?m ?F)" "dropped s = set (take ?m ?F)" using assms(2) by (auto simp: dropped_def split: if_splits)
  have "q \<in> set ?F" using assms(3,4) by_activity_set(1) [OF assms(1)] by simp
  then have "q \<in> set (take ?m ?F) \<union> set (drop ?m ?F)" by (metis append_take_drop_id set_append)
  with assms(3) p(2) have "q \<in> set (drop ?m ?F)" by auto
  moreover have "sorted_wrt (\<lambda>p q. last_active_time (objects s ! p) \<le> last_active_time (objects s ! q)) (take ?m ?F @ drop ?m ?F)"
    using by_activity_sorted [OF assms(1)] by (simp add: sorted_wrt_filter)
  ultimately show ?thesis using p(1) unfolding sorted_wrt_append by blast
qed

lemma dropped_size:
  assumes "pool_inv lib s" "desirable_pool_size s \<noteq> 0"
  shows "card (pointers s - dropped s) =
    max (min (card (pointers s)) (desirable_pool_size s)) (card {p \<in> pointers s. \<not> idle s p})"
proof -
  let ?P = "pointers s" and ?d = "desirable_pool_size s"
  let ?I = "{p \<in> pointers s. idle s p}" and ?B = "{p \<in> pointers s. \<not> idle s p}"
  let ?F = "filter (idle s) (by_activity s)"
  have fin: "finite ?P" by (simp add: pointers_def)
  note acts = by_activity_set [OF assms(1)]
  have F: "distinct ?F" using acts(2) by simp
  have "length ?F = card ?I" using distinct_card [OF F] acts(1) by simp
  moreover have "card (dropped s) = length (take (card ?P - ?d) ?F)"
    using assms(2) distinct_card [OF distinct_take [OF F, of "card ?P - ?d"]] by (simp add: dropped_def)
  ultimately have "card (dropped s) = min (card ?P - ?d) (card ?I)" by (simp add: min.commute)
  moreover have "card (?P - dropped s) = card ?P - card (dropped s)"
  proof (rule card_Diff_subset)
    show sub: "dropped s \<subseteq> ?P" using dropped_idle [OF assms(1)] by blast
    show "finite (dropped s)" by (rule finite_subset [OF sub fin])
  qed
  moreover have "card (?I \<union> ?B) = card ?I + card ?B" by (rule card_Un_disjoint) (auto simp: fin)
  moreover have "card (?I \<union> ?B) = card ?P" by (rule arg_cong [where f = card]) blast
  ultimately show ?thesis by linarith
qed

lemma busy_count:
  assumes "pool_inv lib s"
  shows "card {k. \<exists>v. peer_of s k = Some v \<and> busy v} = card {p \<in> pointers s. \<not> idle s p}"
proof -
  have "{k. \<exists>v. peer_of s k = Some v \<and> busy v} = key_at lib s ` {p \<in> pointers s. \<not> idle s p}"
    by (auto simp: peer_of_iff [OF assms] busy_def idle_def)
  moreover have "inj_on (key_at lib s) {p \<in> pointers s. \<not> idle s p}"
    using assms by (auto simp: pool_inv_def intro: inj_on_subset)
  ultimately show ?thesis by (simp add: card_image)
qed

lemma peer_count:
  assumes "pool_inv lib s"
  shows "GetPeerCount s = card (pointers s)"
  using linear.index_distinct(3) [OF inv_index(1) [OF assms]] by (simp add: GetPeerCount_def)

text \<open>Dropping peers removes only what is too much: no peer changes, a connected peer and one that is being
  connected stay, a peer that goes was not active later than any idle peer that stays, and the pool comes down to its
  desirable size, or to its busy peers when these are more. A pool with the size 0 is not limited.\<close>

theorem inactive_peers_are_dropped:
  assumes "pool_lib_ok lib" "pool_run lib n es = Inr s"
  shows "\<exists>t. KickTrivialCandidatePeers lib s = Inr t \<and>
    (\<forall>k v. peer_of t k = Some v \<longrightarrow> peer_of s k = Some v) \<and>
    (\<forall>k v. peer_of s k = Some v \<and> busy v \<longrightarrow> peer_of t k = Some v) \<and>
    (\<forall>k v j u. peer_of s k = Some v \<and> peer_of t k = None \<and> peer_of t j = Some u \<and> \<not> busy u \<longrightarrow>
       last_active_time v \<le> last_active_time u) \<and>
    (if desirable_pool_size s = 0 then peer_of t = peer_of s
     else GetPeerCount t = max (min (GetPeerCount s) (desirable_pool_size s)) (card {k. \<exists>v. peer_of s k = Some v \<and> busy v}))"
proof -
  have inv: "pool_inv lib s" by (rule pool_run_inv [OF assms])
  obtain t where t: "KickTrivialCandidatePeers lib s = Inr t" "pool_inv lib t" "objects t = objects s"
    "pointers t = pointers s - dropped s"
    using Kick_ok [OF assms(1) inv] unfolding dropped_def by blast
  have at: "peer_of t k = Some v \<longleftrightarrow> (\<exists>p\<in>pointers s - dropped s. key_at lib s p = k \<and> objects s ! p = v)" for k v
    using peer_of_iff [OF t(2)] by (simp add: t(3,4) key_at_def)
  note as = peer_of_iff [OF inv]
  have keep: "\<forall>k v. peer_of t k = Some v \<longrightarrow> peer_of s k = Some v" by (auto simp: at as)
  have busy: "\<forall>k v. peer_of s k = Some v \<and> busy v \<longrightarrow> peer_of t k = Some v"
    using dropped_idle [OF inv] by (auto simp: at as busy_def idle_def)
  have old: "\<forall>k v j u. peer_of s k = Some v \<and> peer_of t k = None \<and> peer_of t j = Some u \<and> \<not> busy u \<longrightarrow>
      last_active_time v \<le> last_active_time u"
  proof (intro allI impI, elim conjE)
    fix k v j u assume h: "peer_of s k = Some v" "peer_of t k = None" "peer_of t j = Some u" "\<not> busy u"
    obtain p where p: "p \<in> pointers s" "key_at lib s p = k" "objects s ! p = v" using h(1) as by auto
    have "p \<in> dropped s"
    proof (rule ccontr)
      assume "p \<notin> dropped s"
      with p at have "peer_of t k = Some v" by blast
      with h(2) show False by simp
    qed
    moreover obtain q where q: "q \<in> pointers s - dropped s" "objects s ! q = u" using h(3) at by auto
    moreover have "idle s q" using h(4) q(2) by (simp add: busy_def idle_def)
    ultimately show "last_active_time v \<le> last_active_time u" using dropped_oldest [OF inv] p(3) by blast
  qed
  have size: "GetPeerCount t = max (min (GetPeerCount s) (desirable_pool_size s)) (card {k. \<exists>v. peer_of s k = Some v \<and> busy v})"
    if "desirable_pool_size s \<noteq> 0"
    unfolding peer_count [OF inv] peer_count [OF t(2)] busy_count [OF inv] t(4) by (rule dropped_size [OF inv that])
  have "peer_of t = peer_of s" if "desirable_pool_size s = 0"
  proof
    fix k
    have "dropped s = {}" using that by (simp add: dropped_def)
    then have "peer_of t k = Some v \<longleftrightarrow> peer_of s k = Some v" for v by (simp add: at as)
    then show "peer_of t k = peer_of s k" by (cases "peer_of s k"; cases "peer_of t k") auto
  qed
  with size have "if desirable_pool_size s = 0 then peer_of t = peer_of s
     else GetPeerCount t = max (min (GetPeerCount s) (desirable_pool_size s)) (card {k. \<exists>v. peer_of s k = Some v \<and> busy v})"
    by presburger
  with t(1) keep busy old show ?thesis by blast
qed

section \<open>The time a peer is left alone\<close>

text \<open>The defaults of \<^verbatim>\<open>P2SPConfigs.cpp\<close>: 10 seconds at first, two hours at last.\<close>

definition default_times :: "('k, 'h) pool_lib \<Rightarrow> bool" where
  "default_times lib = (CONNECT_INITIAL_PROTECT_TIME lib = 10000 \<and> CONNECT_FINAL_PROTECT_TIME lib = 7200000)"

definition backoff :: "candidate_peer \<Rightarrow> u32 \<times> u32 \<times> u32" where
  "backoff p = (connect_protect_time p, connect_protect_time_count p, connect_protect_time_index p)"

fun backoff_step :: "u32 \<times> u32 \<times> u32 \<Rightarrow> u32 \<times> u32 \<times> u32" where
  "backoff_step (x, c, i) =
     (if x < 7200000 then
        let (x1, c1, i1) = (if c = 0 then (x * 2, i + 1, i + 1) else (x, c - 1, i))
        in (if x1 \<ge> 7200000 then 7200000 else x1, c1, i1)
      else (x, c, i))"

lemma backoff_commutes:
  assumes "default_times lib"
  shows "backoff ((peer_OnConnectTimeout lib ^^ n) p) = (backoff_step ^^ n) (backoff p)"
proof (induction n)
  case (Suc n)
  have "backoff (peer_OnConnectTimeout lib q) = backoff_step (backoff q)" for q
    using assms by (simp add: backoff_def peer_OnConnectTimeout_def default_times_def Let_def)
  with Suc show ?case by simp
qed simp

lemma timeouts_alone_reach_the_limit:
  assumes "default_times lib"
  shows "connect_protect_time ((peer_OnConnectTimeout lib ^^ 55) (new_peer lib tick info firstly score from_cdn)) = 7200000"
proof -
  have "backoff (new_peer lib tick info firstly score from_cdn) = (10000, 0, 0)"
    using assms by (simp add: backoff_def new_peer_def default_times_def peer_info.defs candidate_peer.defs)
  moreover have "fst ((backoff_step ^^ 55) (10000, 0, 0)) = 7200000" by code_simp
  ultimately show ?thesis using backoff_commutes [OF assms, of 55] by (metis backoff_def fst_conv)
qed

definition short :: "('k, 'h) ip_pool \<Rightarrow> bool" where
  "short s = (\<forall>p\<in>pointers s. connect_protect_time (objects s ! p) \<le> 20000)"

lemma on_peer_short:
  assumes "pool_lib_ok lib" "pool_inv lib s" "keeps_address g" "on_peer lib k g s = Inr t" "short s"
    "\<And>p. p \<in> pointers s \<Longrightarrow> key_at lib s p = k \<Longrightarrow> connect_protect_time (g (objects s ! p)) \<le> 20000"
  shows "short t"
proof -
  from on_peer_ok [OF assms(1-3), of k] assms(4) have t: "candidate_peers t = candidate_peers s"
    "objects t = (case om_find (<) k (candidate_peers s) of
       None \<Rightarrow> objects s | Some p \<Rightarrow> (objects s)[p := join_flags (objects s ! p) (g (objects s ! p))])" by auto
  have P: "pointers t = pointers s" by (simp add: pointers_def t(1))
  show ?thesis
  proof (cases "om_find (<) k (candidate_peers s)")
    case None
    with assms(5) t(2) show ?thesis by (simp add: short_def P)
  next
    case (Some p)
    note found = linear.index_find_Some [OF inv_index(1) [OF assms(2)] Some]
    have "p < length (objects s)" using found(1) assms(2) by (auto simp: pool_inv_def)
    moreover have "connect_protect_time (g (objects s ! p)) \<le> 20000" using found by (intro assms(6)) auto
    ultimately show ?thesis using assms(5) by (auto simp: short_def P t(2) Some nth_list_update join_flags_def)
  qed
qed

lemma timeout_short:
  assumes "default_times lib" "connect_protect_time p = 10000"
  shows "connect_protect_time (peer_OnConnectTimeout lib (p\<lparr>is_connecting := False, is_connected := False\<rparr>)) \<le> 20000"
  using assms by (simp add: peer_OnConnectTimeout_def default_times_def Let_def)

lemma attempt_short:
  assumes "pool_lib_ok lib" "default_times lib" "pool_inv lib s" "short s"
  shows "\<exists>t. seq [pool_OnConnect lib k, pool_OnConnectTimeout lib k] s = Inr t \<and> pool_inv lib t \<and> short t"
proof -
  note g = keeps_address_handlers(1) [of lib] and h = keeps_address_handlers(3) [of lib]
  obtain u where u: "pool_OnConnect lib k s = Inr u" "pool_inv lib u"
    using on_peer_ok [OF assms(1,3) g, of k] by (auto simp: pool_OnConnect_def)
  have short: "short u"
    using assms(2) u(1) by (intro on_peer_short [OF assms(1,3) g _ assms(4), of k])
      (auto simp: pool_OnConnect_def peer_OnConnectSucceed_def default_times_def)
  have k: "connect_protect_time (objects u ! p) = 10000" if "p \<in> pointers u" "key_at lib u p = k" for p
  proof -
    from on_peer_ok [OF assms(1,3) g, of k] u(1) have o: "candidate_peers u = candidate_peers s"
      "objects u = (case om_find (<) k (candidate_peers s) of None \<Rightarrow> objects s
       | Some p \<Rightarrow> (objects s)[p := join_flags (objects s ! p) (peer_OnConnectSucceed lib
           ((objects s ! p)\<lparr>is_connecting := True, is_connected := False, connections_attempted := connections_attempted (objects s ! p) + 1\<rparr>))])"
      by (auto simp: pool_OnConnect_def)
    have f: "om_find (<) k (candidate_peers s) = Some p"
      using linear.index_find [OF inv_index(1,2) [OF u(2)] that(1)] that(2) o(1) by simp
    have "p < length (objects s)"
      using linear.index_find_Some(1) [OF inv_index(1) [OF assms(3)] f] assms(3) by (auto simp: pool_inv_def)
    with o(2) f assms(2) show ?thesis by (simp add: join_flags_def peer_OnConnectSucceed_def default_times_def)
  qed
  obtain t where t: "pool_OnConnectTimeout lib k u = Inr t" "pool_inv lib t"
    using on_peer_ok [OF assms(1) u(2) h, of k] by (auto simp: pool_OnConnectTimeout_def)
  have "short t"
    by (rule on_peer_short [OF assms(1) u(2) h t(1) [unfolded pool_OnConnectTimeout_def] short])
      (rule timeout_short [OF assms(2) k])
  with u t show ?thesis by simp
qed

definition attempt :: "u64 \<times> u64 \<times> 'k \<Rightarrow> (u64 \<times> 'k pool_event) list" where
  "attempt = (\<lambda>(a, b, k). [(a, Connecting k), (b, ConnectTimeout k)])"

text \<open>C36: The time a peer is left alone after its connection timed out is meant to double from 10 seconds to two hours
  (and does, when only the timeouts are counted). But \<^verbatim>\<open>OnConnect\<close>, called for every attempt, sets it back to 10
  seconds, so with any number of attempts that all time out it never exceeds 20 seconds.\<close>

theorem backoff_never_grows:
  assumes "pool_lib_ok lib" "default_times lib" "pool_run lib n es = Inr s"
    "\<forall>v\<in>ran (peer_of s). connect_protect_time v \<le> 20000"
  shows "(\<exists>t. seq (map (pool_step lib) (concat (map attempt attempts))) s = Inr t \<and>
      (\<forall>v\<in>ran (peer_of t). connect_protect_time v \<le> 20000)) \<and>
    connect_protect_time ((peer_OnConnectTimeout lib ^^ 55) (new_peer lib tick info firstly score from_cdn)) = 7200000"
proof (rule conjI)
  have "pool_inv lib s" by (rule pool_run_inv [OF assms(1,3)])
  moreover from this have "short s" using assms(4) by (auto simp: short_def ran_def peer_of_iff)
  ultimately have "\<exists>t. seq (map (pool_step lib) (concat (map attempt attempts))) s = Inr t \<and> pool_inv lib t \<and> short t"
  proof (induction attempts arbitrary: s)
    case (Cons a attempts)
    obtain x y k where a: "a = (x, y, k)" by (cases a)
    obtain u where u: "seq [pool_OnConnect lib k, pool_OnConnectTimeout lib k] s = Inr u" "pool_inv lib u" "short u"
      using attempt_short [OF assms(1,2) Cons.prems] by blast
    with Cons.IH [OF u(2,3)] show ?case by (auto simp: a attempt_def)
  qed simp
  then show "\<exists>t. seq (map (pool_step lib) (concat (map attempt attempts))) s = Inr t \<and>
      (\<forall>v\<in>ran (peer_of t). connect_protect_time v \<le> 20000)"
    by (auto simp: short_def ran_def peer_of_iff)
  show "connect_protect_time ((peer_OnConnectTimeout lib ^^ 55) (new_peer lib tick info firstly score from_cdn)) = 7200000"
    by (rule timeouts_alone_reach_the_limit [OF assms(2)])
qed


section \<open>Witnesses\<close>

definition sample_pool_lib :: "(u32, u32) pool_lib" where
  "sample_pool_lib =
     \<lparr>GetKeySocketAddr = \<lambda>_. DetectIP, address_md5 = \<lambda>k. k,
      local_peer = \<lparr>IP = 1, UdpPort = 1, DetectIP = 1, DetectUdpPort = 1, StunIP = 0, StunUdpPort = 0, PeerVersion = 0,
        UploadPriority = 0, TrackerPriority = 0\<rparr>,
      CONNECT_INITIAL_PROTECT_TIME = 10000, CONNECT_FINAL_PROTECT_TIME = 7200000, EXCHANGE_PROTECT_TIME = 120000,
      UseExchangePeersFirstly = False\<rparr>"

definition sample_info :: "u32 \<Rightarrow> peer_info" where
  "sample_info a = \<lparr>IP = a, UdpPort = 9, DetectIP = a, DetectUdpPort = 9, StunIP = 0, StunUdpPort = 0, PeerVersion = 0,
     UploadPriority = 0, TrackerPriority = 0\<rparr>"

definition sample_events :: "(u64 \<times> u32 pool_event) list" where
  "sample_events = [(20000, Announced False (\<lambda>_. 0) False [sample_info 7, sample_info 8])]"

definition sample_pool :: "(u32, u32) ip_pool" where
  "sample_pool = (case pool_run sample_pool_lib 0 sample_events of Inr s \<Rightarrow> s | Inl _ \<Rightarrow> pool_create 0)"

lemma sample_pool_lib_ok: "pool_lib_ok sample_pool_lib"
  by (simp add: pool_lib_ok_def sample_pool_lib_def inj_def)

lemma sample_pool_run: "pool_run sample_pool_lib 0 sample_events = Inr sample_pool"
  using pool_run_ok [OF sample_pool_lib_ok, of 0 sample_events] by (auto simp: sample_pool_def)

lemma sample_peers:
  "candidate_peers sample_pool = [(7, 0), (8, 1)]" "desirable_pool_size sample_pool = 0"
  "objects sample_pool = [new_peer sample_pool_lib 20000 (sample_info 7) False 0 False,
     new_peer sample_pool_lib 20000 (sample_info 8) False 0 False]"
  by code_simp+

lemma sample_view: "peer_of sample_pool k =
  (if k = 7 then Some (new_peer sample_pool_lib 20000 (sample_info 7) False 0 False)
   else if k = 8 then Some (new_peer sample_pool_lib 20000 (sample_info 8) False 0 False) else None)"
  by (auto simp: peer_of_def om_find_def sample_peers)

lemma sample_ran: "ran (peer_of sample_pool) =
  {new_peer sample_pool_lib 20000 (sample_info 7) False 0 False, new_peer sample_pool_lib 20000 (sample_info 8) False 0 False}"
proof -
  have "k = 7 \<or> k = 8" if "peer_of sample_pool k = Some v" for k v
    using that by (simp add: sample_view split: if_splits)
  then have "ran (peer_of sample_pool) = {v. peer_of sample_pool 7 = Some v \<or> peer_of sample_pool 8 = Some v}"
    by (auto simp: ran_def)
  also have "\<dots> = {new_peer sample_pool_lib 20000 (sample_info 7) False 0 False,
      new_peer sample_pool_lib 20000 (sample_info 8) False 0 False}" by (auto simp: sample_view)
  finally show ?thesis .
qed


lemma new_peer_simps:
  "connect_protect_time (new_peer lib tick info f sc cdn) = CONNECT_INITIAL_PROTECT_TIME lib"
  "last_connect_time (new_peer lib tick info f sc cdn) = 0"
  "is_connected (new_peer lib tick info f sc cdn) = False" "is_connecting (new_peer lib tick info f sc cdn) = False"
  "is_udpserver_from_cdn (new_peer lib tick info f sc cdn) = cdn"
  by (simp_all add: new_peer_def peer_info.defs candidate_peer.defs)

lemma sample_turn: "\<forall>v\<in>ran (peer_of sample_pool). turn_peer 30000 v"
  by (simp add: sample_ran turn_peer_def clock_ok_def new_peer_simps) (simp add: sample_pool_lib_def)



theorem inactive_peers_are_dropped_witness:
  "pool_lib_ok sample_pool_lib \<and>
   (\<exists>s t. pool_run sample_pool_lib 2 sample_events = Inr s \<and> KickTrivialCandidatePeers sample_pool_lib s = Inr t)"
proof -
  obtain s where "pool_run sample_pool_lib 2 sample_events = Inr s" using pool_run_ok [OF sample_pool_lib_ok] by blast
  with inactive_peers_are_dropped [OF sample_pool_lib_ok this] sample_pool_lib_ok show ?thesis by blast
qed

theorem backoff_never_grows_witness:
  "default_times sample_pool_lib \<and>
   (\<exists>t. seq (map (pool_step sample_pool_lib) (concat (map attempt [(30000, 40000, 7), (50000, 60000, 7)]))) sample_pool = Inr t \<and>
      connect_protect_time ` ran (peer_of t) \<subseteq> {..20000})"
proof -
  have d: "default_times sample_pool_lib" by (simp add: default_times_def sample_pool_lib_def)
  have "\<forall>v\<in>ran (peer_of sample_pool). connect_protect_time v \<le> 20000"
    by (simp add: sample_ran new_peer_simps) (simp add: sample_pool_lib_def)
  from conjunct1 [OF backoff_never_grows [OF sample_pool_lib_ok d sample_pool_run this]] d show ?thesis by fastforce
qed


end
