(* ===== verification/LiveTasks.thy ===== *)
theory LiveTasks
  imports LiveCache LiveTime
begin

text \<open>
  Who downloads which block of a live channel: \<^verbatim>\<open>p2sp::LiveBlockRequestManager\<close>
  (\<^verbatim>\<open>p2sp/download/LiveBlockRequestManager.h/.cpp\<close>), \<^verbatim>\<open>LiveStream::RequestNextBlock\<close> (\<^verbatim>\<open>p2sp/download/LiveStream.cpp\<close>), the
  state machine of \<^verbatim>\<open>p2sp::LiveHttpDownloader\<close> (\<^verbatim>\<open>p2sp/p2s/LiveHttpDownloader.h/.cpp\<close>) and the block tasks of
  \<^verbatim>\<open>p2sp::LiveAssigner\<close>, the part of the P2P downloader that holds them.

  \<^item> The state is that of a stream with its two downloaders, which call each other through the request manager.
    The result of a call is \<open>None\<close> when a loop does not end, \<open>Some (Inl _)\<close> when it faults.
  \<^item> A \<^verbatim>\<open>LiveSubPieceInfo\<close> is the pair of a block id and a subpiece index; of the blocks themselves the model has the
    cache of theory \<open>LiveCache\<close>.  Pushing to the player, statistics and the text of the request path are left out.
  \<^item> What a call reads from outside is the record \<open>task_env\<close>: the clock, the playing position, the rest time, the
    capacity left in a build with \<^verbatim>\<open>USE_MEMORY_POOL\<close> (\<open>None\<close> without it), and whether \<^verbatim>\<open>HttpClient::Connect\<close> fails before
    it returns, as it does when the socket cannot be opened or the domain is empty.
  \<^item> An HTTP client is open until \<^verbatim>\<open>Close\<close>, which drops the handler: only the open client of the downloader calls
    back, in the order of an HTTP exchange.  This is \<open>enabled\<close>.
\<close>

section \<open>State\<close>

datatype downloader = HttpDownloader | P2PDownloader

type_synonym live_subpiece = "nat \<times> nat"

record block_task =
  task_live_block :: live_subpiece
  task_download :: downloader
  task_timeout :: u32
  task_tick_count :: moment

datatype http_status = Closed | Connecting | SendingRequestHead | RecvingResponseData | Sleeping

record http_connection =
  client_path :: "u8 list \<times> nat"
  client_open :: bool

record live_http =
  http_running :: bool
  http_live_stream :: bool
  http_pausing :: bool
  http_rid :: "u8 list"
  http_tasks :: "live_subpiece list"
  http_state :: http_status
  sleep_timer :: bool
  sleep_interval :: nat
  connect_failed_times :: nat
  is_pms_status_good :: bool
  http_status_code :: nat
  http_client :: "http_connection option"

record live_p2p =
  p2p_pausing :: bool
  p2p_tasks :: "(nat \<times> live_subpiece) list"

record live_stream =
  stream_running :: bool
  requesting_map :: "(nat \<times> block_task) list"
  stream_cache :: live_cache
  http :: live_http
  has_p2p :: bool
  p2p :: live_p2p
  posted_resumes :: nat

record task_env =
  task_clock :: clock
  now :: moment
  playing_block :: nat
  rest_playable_time :: nat
  left_capacity :: "nat option"
  connect_throws :: bool

type_synonym 'a outcome = "'a result option"

definition call :: "'a outcome \<Rightarrow> ('a \<Rightarrow> 'b outcome) \<Rightarrow> 'b outcome" where
  "call r f = (case r of None \<Rightarrow> None | Some (Inl e) \<Rightarrow> Some (Inl e) | Some (Inr x) \<Rightarrow> f x)"

definition returns_to :: "'a outcome \<Rightarrow> 'a \<Rightarrow> bool" where
  "returns_to r x = (r = Some (Inr x))"

definition upd_http :: "(live_http \<Rightarrow> live_http) \<Rightarrow> live_stream \<Rightarrow> live_stream" where
  "upd_http f s = s\<lparr>http := f (http s)\<rparr>"

definition http_new :: "u8 list \<Rightarrow> live_http" where
  "http_new rid =
     \<lparr>http_running = False, http_live_stream = True, http_pausing = True, http_rid = rid, http_tasks = [], http_state = Closed,
      sleep_timer = False, sleep_interval = 1000, connect_failed_times = 0, is_pms_status_good = True, http_status_code = 0,
      http_client = None\<rparr>"

section \<open>The request manager\<close>

definition downloader_IsPausing :: "downloader \<Rightarrow> live_stream \<Rightarrow> bool" where
  "downloader_IsPausing d s = (case d of HttpDownloader \<Rightarrow> http_pausing (http s) | P2PDownloader \<Rightarrow> p2p_pausing (p2p s))"

definition task_IsTimeout :: "task_env \<Rightarrow> downloader \<Rightarrow> live_stream \<Rightarrow> block_task \<Rightarrow> bool" where
  "task_IsTimeout env request_download s t =
     (task_download t \<noteq> request_download \<and>
      (elapsed (task_clock env) (task_tick_count t) (now env) > task_timeout t \<or> downloader_IsPausing (task_download t) s))"

definition IsRequesting :: "nat \<Rightarrow> live_stream \<Rightarrow> bool" where
  "IsRequesting k s = (map_of (requesting_map s) k \<noteq> None)"

definition manager_IsTimeout :: "task_env \<Rightarrow> nat \<Rightarrow> downloader \<Rightarrow> live_stream \<Rightarrow> bool" where
  "manager_IsTimeout env k request_download s =
     (case map_of (requesting_map s) k of None \<Rightarrow> False | Some t \<Rightarrow> task_IsTimeout env request_download s t)"

text \<open>
  \<^verbatim>\<open>OnBlockTimeout\<close> of the two downloaders.  That of the HTTP downloader may call \<^verbatim>\<open>Pause\<close>, which removes all tasks of the
  downloader and so calls \<^verbatim>\<open>RemoveBlockTask\<close> again: \<open>pause\<close> stands for it.
\<close>

fun erase_first :: "nat \<Rightarrow> live_subpiece list \<Rightarrow> live_subpiece list" where
  "erase_first k [] = []"
| "erase_first k (b # bs) = (if fst b = k then bs else b # erase_first k bs)"

definition http_OnBlockTimeout :: "(live_stream \<Rightarrow> live_stream outcome) \<Rightarrow> nat \<Rightarrow> live_stream \<Rightarrow> live_stream outcome" where
  "http_OnBlockTimeout pause k s =
     (if k \<notin> fst ` set (http_tasks (http s)) then Some (Inl AssertionFailed)
      else
        let s1 = upd_http (\<lambda>h. h\<lparr>http_tasks := erase_first k (http_tasks h)\<rparr>) s
        in if \<not> http_pausing (http s1) \<and> http_state (http s1) \<noteq> Closed
           then call (pause s1) (\<lambda>s2. Some (Inr (s2\<lparr>posted_resumes := posted_resumes s2 + 1\<rparr>)))
           else Some (Inr s1))"

definition p2p_OnBlockTimeout :: "nat \<Rightarrow> live_stream \<Rightarrow> live_stream" where
  "p2p_OnBlockTimeout k s = s\<lparr>p2p := (p2p s)\<lparr>p2p_tasks := filter (\<lambda>e. fst e \<noteq> k) (p2p_tasks (p2p s))\<rparr>\<rparr>"

definition task_Timeout :: "(live_stream \<Rightarrow> live_stream outcome) \<Rightarrow> block_task \<Rightarrow> live_stream \<Rightarrow> live_stream outcome" where
  "task_Timeout pause t s =
     (case task_download t of
        HttpDownloader \<Rightarrow> http_OnBlockTimeout pause (fst (task_live_block t)) s
      | P2PDownloader \<Rightarrow> Some (Inr (p2p_OnBlockTimeout (fst (task_live_block t)) s)))"

definition RemoveBlockTask_with :: "(live_stream \<Rightarrow> live_stream outcome) \<Rightarrow> nat \<Rightarrow> live_stream \<Rightarrow> live_stream outcome" where
  "RemoveBlockTask_with pause k s =
     (case map_of (requesting_map s) k of
        None \<Rightarrow> Some (Inr s)
      | Some t \<Rightarrow>
          call (task_Timeout pause t s) (\<lambda>s1.
            Some (Inr (s1\<lparr>requesting_map := filter (\<lambda>e. fst e \<noteq> k) (requesting_map s1)\<rparr>))))"

text \<open>
  The loop \<^verbatim>\<open>while (!block_tasks_.empty()) live_stream_->RemoveBlockTask(block_tasks_.front());\<close> of \<^verbatim>\<open>Pause\<close> and
  \<^verbatim>\<open>DoClose\<close>.  In both the downloader is pausing or closed, so that \<^verbatim>\<open>OnBlockTimeout\<close> does not pause it again
  (\<open>pause_not_called\<close>).
\<close>

partial_function (option) RemoveAllBlockTasks :: "live_stream \<Rightarrow> live_stream outcome" where
  "RemoveAllBlockTasks s =
     (case http_tasks (http s) of
        [] \<Rightarrow> Some (Inr s)
      | b # _ \<Rightarrow>
          if \<not> http_live_stream (http s) then Some (Inl NullPointer)
          else
            (case RemoveBlockTask_with (\<lambda>s. Some (Inr s)) (fst b) s of
               None \<Rightarrow> None
             | Some (Inl e) \<Rightarrow> Some (Inl e)
             | Some (Inr s1) \<Rightarrow> RemoveAllBlockTasks s1))"

declare RemoveAllBlockTasks.simps [code]

definition close_client :: "live_http \<Rightarrow> live_http" where
  "close_client h = h\<lparr>http_client := map_option (\<lambda>c. c\<lparr>client_open := False\<rparr>) (http_client h)\<rparr>"

definition http_Pause :: "live_stream \<Rightarrow> live_stream outcome" where
  "http_Pause s =
     (if http_pausing (http s) then Some (Inr s)
      else
        let s1 = upd_http (\<lambda>h. h\<lparr>http_pausing := True, sleep_timer := (if http_state h = Sleeping then False else sleep_timer h)\<rparr>) s
        in call (RemoveAllBlockTasks s1) (\<lambda>s2. Some (Inr (upd_http (\<lambda>h. (close_client h)\<lparr>http_state := Closed\<rparr>) s2))))"

definition RemoveBlockTask :: "nat \<Rightarrow> live_stream \<Rightarrow> live_stream outcome" where
  "RemoveBlockTask k s = RemoveBlockTask_with http_Pause k s"

lemma pause_not_called:
  assumes "http_pausing (http s) \<or> http_state (http s) = Closed"
  shows "RemoveBlockTask_with pause k s = RemoveBlockTask_with pause' k s"
proof (cases "map_of (requesting_map s) k")
  case (Some t)
  have "task_Timeout pause t s = task_Timeout pause' t s"
    using assms by (cases "task_download t") (auto simp: task_Timeout_def http_OnBlockTimeout_def upd_http_def Let_def)
  with Some show ?thesis by (simp add: RemoveBlockTask_with_def)
qed (simp add: RemoveBlockTask_with_def)

section \<open>The HTTP downloader\<close>

definition client_Close :: "live_stream action" where
  "client_Close s = (if http_client (http s) = None then Inl NullPointer else Inr (upd_http close_client s))"

definition SleepForConnect :: "task_env \<Rightarrow> live_stream action" where
  "SleepForConnect env s =
     and_then (client_Close s) (\<lambda>s1.
       if \<not> http_live_stream (http s1) then Inl NullPointer
       else Inr (upd_http (\<lambda>h. h\<lparr>http_state := Sleeping, sleep_timer := True,
              sleep_interval := (if rest_playable_time env > 2 * live_interval (stream_cache s1)
                                 then live_interval (stream_cache s1) * 1000 else 1000)\<rparr>) s1))"

definition http_OnConnectFailed :: "task_env \<Rightarrow> live_stream action" where
  "http_OnConnectFailed env s =
     (if \<not> http_running (http s) then Inr s
      else
        let s1 = upd_http (\<lambda>h. h\<lparr>connect_failed_times := connect_failed_times h + 1, http_state := Closed\<rparr>) s
        in if connect_failed_times (http s1) > 20 then Inl AssertionFailed else SleepForConnect env s1)"

text \<open>\<^verbatim>\<open>DoConnect\<close> with a task, and a client whose \<^verbatim>\<open>Connect\<close> may call \<^verbatim>\<open>OnConnectFailed\<close> before it returns.\<close>

definition connect_front :: "task_env \<Rightarrow> live_stream action" where
  "connect_front env s =
     (let s1 = upd_http (\<lambda>h. h\<lparr>http_client := Some \<lparr>client_path = (http_rid h, fst (hd (http_tasks h))), client_open = True\<rparr>\<rparr>) s
      in and_then
           (if connect_throws env
            then and_then (http_OnConnectFailed env s1) (\<lambda>s2. Inr (upd_http close_client s2))
            else Inr s1)
           (\<lambda>s3. Inr (upd_http (\<lambda>h. h\<lparr>http_state := Connecting\<rparr>) s3)))"

definition http_PutBlockTask :: "task_env \<Rightarrow> live_subpiece \<Rightarrow> live_stream action" where
  "http_PutBlockTask env b s =
     (let s1 = upd_http (\<lambda>h. h\<lparr>http_tasks := http_tasks h @ [b]\<rparr>) s
      in if http_state (http s1) = Closed
         then if \<not> http_running (http s1) then Inr s1 else connect_front env s1
         else Inr s1)"

definition p2p_PutBlockTask :: "live_subpiece \<Rightarrow> live_stream \<Rightarrow> live_stream" where
  "p2p_PutBlockTask b s =
     (if map_of (p2p_tasks (p2p s)) (fst b) = None
      then s\<lparr>p2p := (p2p s)\<lparr>p2p_tasks := put_sorted (fst b) b (p2p_tasks (p2p s))\<rparr>\<rparr>
      else s)"

definition AddBlockTask :: "task_env \<Rightarrow> live_subpiece \<Rightarrow> downloader \<Rightarrow> live_stream action" where
  "AddBlockTask env b d s =
     (let t = \<lparr>task_live_block = b, task_download = d, task_timeout = 8 * 1000, task_tick_count = now env\<rparr>;
          s1 = s\<lparr>requesting_map := put_sorted (fst b) t (requesting_map s)\<rparr>
      in case d of
           HttpDownloader \<Rightarrow> http_PutBlockTask env b s1
         | P2PDownloader \<Rightarrow> Inr (p2p_PutBlockTask b s1))"

text \<open>\<^verbatim>\<open>LiveStream::RequestNextBlock\<close>: its loop, and its call.  It returns whether a block was given.\<close>

definition pool_exhausted :: "task_env \<Rightarrow> nat \<Rightarrow> bool" where
  "pool_exhausted env k = (case left_capacity env of None \<Rightarrow> False | Some c \<Rightarrow> c < 2048 \<and> k > playing_block env)"

partial_function (option) next_block_loop :: "task_env \<Rightarrow> downloader \<Rightarrow> nat \<Rightarrow> live_stream \<Rightarrow> (bool \<times> live_stream) outcome" where
  "next_block_loop env d start s =
     (case cache_GetNextMissingSubPiece (stream_cache s) start of
        None \<Rightarrow> None
      | Some (Inl e) \<Rightarrow> Some (Inl e)
      | Some (Inr b) \<Rightarrow>
          if pool_exhausted env (fst b) then Some (Inr (False, s))
          else if \<not> IsRequesting (fst b) s
          then Some (and_then (AddBlockTask env b d s) (\<lambda>s1. Inr (True, s1)))
          else if manager_IsTimeout env (fst b) d s
          then call (RemoveBlockTask (fst b) s) (\<lambda>s1. Some (and_then (AddBlockTask env b d s1) (\<lambda>s2. Inr (True, s2))))
          else next_block_loop env d (next_id start (stream_cache s)) s)"

declare next_block_loop.simps [code]

definition stream_RequestNextBlock :: "task_env \<Rightarrow> downloader \<Rightarrow> live_stream \<Rightarrow> (bool \<times> live_stream) outcome" where
  "stream_RequestNextBlock env d s =
     (if \<not> stream_running s then Some (Inl AssertionFailed) else next_block_loop env d (playing_block env) s)"

definition http_RequestNextBlock :: "task_env \<Rightarrow> live_stream \<Rightarrow> live_stream outcome" where
  "http_RequestNextBlock env s =
     (if http_live_stream (http s)
      then call (stream_RequestNextBlock env HttpDownloader s) (\<lambda>r. Some (Inr (snd r)))
      else Some (Inr s))"

definition DoConnect :: "task_env \<Rightarrow> live_stream \<Rightarrow> live_stream outcome" where
  "DoConnect env s =
     (if \<not> http_running (http s) then Some (Inr s)
      else if http_tasks (http s) \<noteq> [] then Some (connect_front env s)
      else http_RequestNextBlock env s)"

lemma PutBlockTask_connects:
  "http_state (http s) = Closed \<Longrightarrow>
   Some (http_PutBlockTask env b s) = DoConnect env (upd_http (\<lambda>h. h\<lparr>http_tasks := http_tasks h @ [b]\<rparr>) s)"
  by (simp add: http_PutBlockTask_def DoConnect_def upd_http_def Let_def)

definition http_Start :: "live_stream \<Rightarrow> live_stream" where
  "http_Start = upd_http (\<lambda>h. h\<lparr>http_running := True\<rparr>)"

definition http_Stop :: "live_stream \<Rightarrow> live_stream" where
  "http_Stop = upd_http (\<lambda>h. h\<lparr>http_running := False, http_live_stream := False\<rparr>)"

definition http_Resume :: "task_env \<Rightarrow> live_stream \<Rightarrow> live_stream outcome" where
  "http_Resume env s =
     (if http_pausing (http s)
      then http_RequestNextBlock env (upd_http (\<lambda>h. h\<lparr>http_pausing := False, http_state := Closed\<rparr>) s)
      else Some (Inr s))"

definition http_OnTimerElapsed :: "task_env \<Rightarrow> live_stream \<Rightarrow> live_stream outcome" where
  "http_OnTimerElapsed env s =
     (let s1 = upd_http (\<lambda>h. h\<lparr>sleep_timer := False\<rparr>) s
      in if \<not> http_running (http s1) then Some (Inr s1)
         else if http_pausing (http s1) then Some (Inr s1)
         else if http_state (http s1) \<noteq> Sleeping then Some (Inl AssertionFailed)
         else
           let s2 = upd_http (\<lambda>h. h\<lparr>http_state := Closed\<rparr>) s1
           in if http_tasks (http s2) \<noteq> [] then DoConnect env s2 else http_RequestNextBlock env s2)"

definition http_OnConnectSucced :: "live_stream action" where
  "http_OnConnectSucced s =
     (let s1 = upd_http (\<lambda>h. h\<lparr>connect_failed_times := 0, is_pms_status_good := True\<rparr>) s
      in if http_state (http s1) \<noteq> Connecting then Inl AssertionFailed
         else if http_client (http s1) = None then Inl NullPointer
         else Inr (upd_http (\<lambda>h. h\<lparr>http_state := SendingRequestHead\<rparr>) s1))"

definition http_OnConnectTimeout :: "task_env \<Rightarrow> live_stream action" where
  "http_OnConnectTimeout env s = http_OnConnectFailed env s"

definition http_DoClose :: "live_stream \<Rightarrow> live_stream outcome" where
  "http_DoClose s =
     call (Some (client_Close s)) (\<lambda>s1. RemoveAllBlockTasks (upd_http (\<lambda>h. h\<lparr>http_state := Closed\<rparr>) s1))"

definition close_and_sleep :: "task_env \<Rightarrow> live_stream \<Rightarrow> live_stream outcome" where
  "close_and_sleep env s = call (http_DoClose s) (\<lambda>s1. Some (SleepForConnect env s1))"

definition http_OnComplete :: "task_env \<Rightarrow> live_stream \<Rightarrow> live_stream outcome" where
  "http_OnComplete env s =
     (if \<not> http_running (http s) then Some (Inr s)
      else
        let s1 = upd_http (\<lambda>h. h\<lparr>http_state := Closed\<rparr>) s
        in case http_tasks (http s1) of
             [] \<Rightarrow> Some (Inl OutOfRange)
           | b # _ \<Rightarrow>
               if \<not> http_live_stream (http s1) then Some (Inl NullPointer)
               else call (RemoveBlockTask (fst b) s1) (\<lambda>s2.
                 if http_tasks (http s2) \<noteq> [] then DoConnect env s2 else http_RequestNextBlock env s2))"

definition http_RequestSubPiece :: "task_env \<Rightarrow> live_stream \<Rightarrow> live_stream outcome" where
  "http_RequestSubPiece env s =
     (case http_tasks (http s) of
        [] \<Rightarrow> Some (Inl AssertionFailed)
      | b # _ \<Rightarrow>
          if \<not> http_running (http s) then Some (Inr s)
          else if \<not> http_live_stream (http s) then Some (Inl NullPointer)
          else if HasCompleteBlock (fst b) (stream_cache s) then http_OnComplete env s
          else if http_client (http s) = None then Some (Inl NullPointer)
          else Some (Inr s))"

definition http_OnRecvHttpHeaderSucced :: "task_env \<Rightarrow> nat \<Rightarrow> live_stream \<Rightarrow> live_stream outcome" where
  "http_OnRecvHttpHeaderSucced env code s =
     (if \<not> http_running (http s) then Some (Inr s)
      else
        let s1 = upd_http (\<lambda>h. h\<lparr>http_status_code := code\<rparr>) s
        in if code = 200 \<or> code = 206
           then http_RequestSubPiece env (upd_http (\<lambda>h. h\<lparr>http_state := RecvingResponseData\<rparr>) s1)
           else close_and_sleep env s1)"

definition http_OnRecvHttpHeaderFailed :: "task_env \<Rightarrow> live_stream \<Rightarrow> live_stream outcome" where
  "http_OnRecvHttpHeaderFailed env s = (if \<not> http_running (http s) then Some (Inr s) else close_and_sleep env s)"

definition http_OnError :: "task_env \<Rightarrow> live_stream \<Rightarrow> live_stream outcome" where
  "http_OnError env s = (if \<not> http_running (http s) then Some (Inr s) else close_and_sleep env s)"

definition received_index :: "protocol_lib \<Rightarrow> nat \<Rightarrow> nat" where
  "received_index lib file_offset = (file_offset div LIVE_SUB_PIECE_SIZE lib) mod 2 ^ 16"

definition http_OnRecvHttpDataSucced ::
    "protocol_lib \<Rightarrow> task_env \<Rightarrow> u8 list \<Rightarrow> nat \<Rightarrow> live_stream \<Rightarrow> live_stream outcome" where
  "http_OnRecvHttpDataSucced lib env buf file_offset s =
     (if \<not> http_running (http s) then Some (Inr s)
      else
        case http_tasks (http s) of
          [] \<Rightarrow> Some (Inl OutOfRange)
        | b # _ \<Rightarrow>
            if \<not> http_live_stream (http s) then Some (Inl NullPointer)
            else
              call (Some (cache_AddSubPiece lib (fst b) (received_index lib file_offset) buf (stream_cache s)))
                (\<lambda>(added, c). http_RequestSubPiece env (s\<lparr>stream_cache := c\<rparr>)))"

definition http_OnDataRateChanged :: "task_env \<Rightarrow> u8 list \<Rightarrow> live_stream \<Rightarrow> live_stream outcome" where
  "http_OnDataRateChanged env rid s =
     (if http_pausing (http s) then Some (Inr (upd_http (\<lambda>h. h\<lparr>http_rid := rid\<rparr>) s))
      else call (http_Pause s) (\<lambda>s1. http_Resume env (upd_http (\<lambda>h. h\<lparr>http_rid := rid\<rparr>) s1)))"

section \<open>The P2P downloader and the stream\<close>

definition set_p2p_pausing :: "bool \<Rightarrow> live_stream \<Rightarrow> live_stream" where
  "set_p2p_pausing b s = s\<lparr>p2p := (p2p s)\<lparr>p2p_pausing := b\<rparr>\<rparr>"

fun RemoveBlockTasks :: "nat list \<Rightarrow> live_stream \<Rightarrow> live_stream outcome" where
  "RemoveBlockTasks [] s = Some (Inr s)"
| "RemoveBlockTasks (k # ks) s = call (RemoveBlockTask k s) (RemoveBlockTasks ks)"

definition CheckBlockComplete :: "live_stream \<Rightarrow> live_stream outcome" where
  "CheckBlockComplete s =
     RemoveBlockTasks (map (\<lambda>e. fst (snd e)) (filter (\<lambda>e. HasCompleteBlock (fst e) (stream_cache s)) (p2p_tasks (p2p s)))) s"

definition stream_new :: "u8 list \<Rightarrow> live_cache \<Rightarrow> live_stream" where
  "stream_new rid c =
     \<lparr>stream_running = False, requesting_map = [], stream_cache = c, http = http_new rid, has_p2p = False,
      p2p = \<lparr>p2p_pausing = True, p2p_tasks = []\<rparr>, posted_resumes = 0\<rparr>"

definition stream_Start :: "bool \<Rightarrow> live_stream \<Rightarrow> live_stream outcome" where
  "stream_Start http_only s =
     (if stream_running s then Some (Inr s)
      else call (http_Pause (http_Start s)) (\<lambda>s1. Some (Inr (s1\<lparr>has_p2p := \<not> http_only, stream_running := True\<rparr>))))"

definition stream_Stop :: "live_stream \<Rightarrow> live_stream" where
  "stream_Stop s = (if \<not> stream_running s then s else (http_Stop s)\<lparr>stream_running := False\<rparr>)"

section \<open>Everything that can happen\<close>

datatype task_event =
    HttpPause | HttpResume | PostedResume | SleepTimer
  | ConnectSucced | ConnectFailed | ConnectTimeout
  | HeaderSucced nat | HeaderFailed | DataSucced "u8 list" nat | DataFailed | RecvTimeout | RequestComplete
  | RateChanged "u8 list"
  | P2PPause | P2PResume | P2PCheckComplete | P2PRequest
  | CacheChanged live_cache
  | StreamStop

fun task_step :: "protocol_lib \<Rightarrow> task_env \<Rightarrow> task_event \<Rightarrow> live_stream \<Rightarrow> live_stream outcome" where
  "task_step lib env HttpPause s = http_Pause s"
| "task_step lib env HttpResume s = http_Resume env s"
| "task_step lib env PostedResume s = http_Resume env (s\<lparr>posted_resumes := posted_resumes s - 1\<rparr>)"
| "task_step lib env SleepTimer s = http_OnTimerElapsed env s"
| "task_step lib env ConnectSucced s = Some (http_OnConnectSucced s)"
| "task_step lib env ConnectFailed s = Some (http_OnConnectFailed env s)"
| "task_step lib env ConnectTimeout s = Some (http_OnConnectTimeout env s)"
| "task_step lib env (HeaderSucced code) s = http_OnRecvHttpHeaderSucced env code s"
| "task_step lib env HeaderFailed s = http_OnRecvHttpHeaderFailed env s"
| "task_step lib env (DataSucced buf off) s = http_OnRecvHttpDataSucced lib env buf off s"
| "task_step lib env DataFailed s = http_OnError env s"
| "task_step lib env RecvTimeout s = http_OnError env s"
| "task_step lib env RequestComplete s = http_OnComplete env s"
| "task_step lib env (RateChanged rid) s = http_OnDataRateChanged env rid s"
| "task_step lib env P2PPause s = Some (Inr (set_p2p_pausing True s))"
| "task_step lib env P2PResume s = Some (Inr (set_p2p_pausing False s))"
| "task_step lib env P2PCheckComplete s = CheckBlockComplete s"
| "task_step lib env P2PRequest s = call (stream_RequestNextBlock env P2PDownloader s) (\<lambda>r. Some (Inr (snd r)))"
| "task_step lib env (CacheChanged c) s = Some (Inr (s\<lparr>stream_cache := c\<rparr>))"
| "task_step lib env StreamStop s = Some (Inr (stream_Stop s))"

definition client_calls_in :: "http_status set \<Rightarrow> live_stream \<Rightarrow> bool" where
  "client_calls_in S s =
     (http_state (http s) \<in> S \<and> (case http_client (http s) of None \<Rightarrow> False | Some c \<Rightarrow> client_open c))"

fun enabled :: "protocol_lib \<Rightarrow> task_event \<Rightarrow> live_stream \<Rightarrow> bool" where
  "enabled lib PostedResume s \<longleftrightarrow> posted_resumes s > 0"
| "enabled lib SleepTimer s \<longleftrightarrow> sleep_timer (http s)"
| "enabled lib ConnectSucced s \<longleftrightarrow> client_calls_in {Connecting} s"
| "enabled lib ConnectFailed s \<longleftrightarrow> client_calls_in {Connecting} s"
| "enabled lib ConnectTimeout s \<longleftrightarrow> client_calls_in {Connecting} s"
| "enabled lib (HeaderSucced code) s \<longleftrightarrow> client_calls_in {SendingRequestHead} s"
| "enabled lib HeaderFailed s \<longleftrightarrow> client_calls_in {SendingRequestHead} s"
| "enabled lib (DataSucced buf off) s \<longleftrightarrow>
     client_calls_in {RecvingResponseData} s \<and>
     (http_tasks (http s) \<noteq> [] \<longrightarrow>
        addable lib (received_index lib off) buf (target (fst (hd (http_tasks (http s)))) (stream_cache s)))"
| "enabled lib DataFailed s \<longleftrightarrow> client_calls_in {RecvingResponseData} s"
| "enabled lib RecvTimeout s \<longleftrightarrow> client_calls_in {SendingRequestHead, RecvingResponseData} s"
| "enabled lib RequestComplete s \<longleftrightarrow> client_calls_in {RecvingResponseData} s"
| "enabled lib (CacheChanged c) s \<longleftrightarrow> cache_ok lib c"
| "enabled lib HttpPause s \<longleftrightarrow> stream_running s"
| "enabled lib HttpResume s \<longleftrightarrow> stream_running s"
| "enabled lib (RateChanged rid) s \<longleftrightarrow> stream_running s"
| "enabled lib StreamStop s \<longleftrightarrow> stream_running s"
| "enabled lib P2PPause s \<longleftrightarrow> stream_running s \<and> has_p2p s"
| "enabled lib P2PResume s \<longleftrightarrow> stream_running s \<and> has_p2p s"
| "enabled lib P2PCheckComplete s \<longleftrightarrow> stream_running s \<and> has_p2p s"
| "enabled lib P2PRequest s \<longleftrightarrow> stream_running s \<and> has_p2p s"

text \<open>
  The states a stream can be in, when the inputs of every event satisfy \<open>E\<close>, and as long as the blocks in memory and
  the tasks are far from \<open>2^16\<close>, the number of blocks the ids of a walk tell apart.
\<close>

definition roomy :: "live_stream \<Rightarrow> bool" where
  "roomy s \<longleftrightarrow> length (block_nodes (stream_cache s)) + length (requesting_map s) < 65000"

inductive task_reachable :: "protocol_lib \<Rightarrow> (task_env \<Rightarrow> bool) \<Rightarrow> live_stream \<Rightarrow> bool" for lib E where
  started: "cache_ok lib c \<Longrightarrow> stream_Start http_only (stream_new rid c) = Some (Inr s) \<Longrightarrow> task_reachable lib E s"
| happened: "task_reachable lib E s \<Longrightarrow> E env \<Longrightarrow> roomy s \<Longrightarrow> enabled lib ev s \<Longrightarrow> task_step lib env ev s = Some (Inr t) \<Longrightarrow>
    task_reachable lib E t"

section \<open>The tasks agree\<close>

text \<open>Which downloader has a block.\<close>

definition holder :: "live_stream \<Rightarrow> nat \<Rightarrow> downloader option" where
  "holder s k = map_option task_download (map_of (requesting_map s) k)"

definition http_ids :: "live_stream \<Rightarrow> nat set" where
  "http_ids s = fst ` set (http_tasks (http s))"

definition p2p_ids :: "live_stream \<Rightarrow> nat set" where
  "p2p_ids s = fst ` set (p2p_tasks (p2p s))"

definition map_inv :: "live_stream \<Rightarrow> bool" where
  "map_inv s \<longleftrightarrow>
     sorted_wrt (<) (map fst (requesting_map s)) \<and>
     (\<forall>k t. map_of (requesting_map s) k = Some t \<longrightarrow> fst (task_live_block t) = k) \<and>
     sorted_wrt (<) (map fst (p2p_tasks (p2p s))) \<and> (\<forall>e\<in>set (p2p_tasks (p2p s)). fst (snd e) = fst e) \<and>
     distinct (map fst (http_tasks (http s))) \<and>
     (\<forall>k. holder s k = Some HttpDownloader \<longleftrightarrow> k \<in> http_ids s) \<and>
     (\<forall>k. holder s k = Some P2PDownloader \<longleftrightarrow> k \<in> p2p_ids s)"

definition in_session :: "http_status \<Rightarrow> bool" where
  "in_session st \<longleftrightarrow> st \<in> {Connecting, SendingRequestHead, RecvingResponseData}"

definition http_inv :: "live_http \<Rightarrow> bool" where
  "http_inv h \<longleftrightarrow>
     length (http_tasks h) \<le> 1 \<and> (\<forall>b\<in>set (http_tasks h). fst b < 2 ^ 32) \<and>
     (http_pausing h \<longrightarrow> http_tasks h = [] \<and> http_state h = Closed) \<and>
     (sleep_timer h \<longleftrightarrow> http_state h = Sleeping) \<and>
     (in_session (http_state h) \<longrightarrow>
        http_tasks h \<noteq> [] \<and>
        http_client h = Some \<lparr>client_path = (http_rid h, fst (hd (http_tasks h))), client_open = True\<rparr>)"

definition tasks_inv :: "protocol_lib \<Rightarrow> live_stream \<Rightarrow> bool" where
  "tasks_inv lib s \<longleftrightarrow>
     cache_ok lib (stream_cache s) \<and> (http_running (http s) \<longleftrightarrow> stream_running s) \<and>
     (http_live_stream (http s) \<longleftrightarrow> stream_running s) \<and> (stream_running s \<longrightarrow> map_inv s \<and> http_inv (http s))"

lemma call_simps [simp]:
  "call (Some (Inr x)) f = f x" "call (Some (Inl e)) f = Some (Inl e)" "call None f = None"
  by (simp_all add: call_def)

lemma sorted_keys_distinct: "sorted_wrt (<) (map fst m) \<Longrightarrow> distinct (map fst m)" for m :: "(nat \<times> 'v) list"
  by (simp add: strict_sorted_iff)

lemma sorted_keys_filter: "sorted_wrt (<) (map fst m) \<Longrightarrow> sorted_wrt (<) (map fst (filter P m))" for m :: "(nat \<times> 'v) list"
  by (simp add: sorted_wrt_map sorted_wrt_filter)

lemma erase_first_filter: "distinct (map fst bs) \<Longrightarrow> erase_first k bs = filter (\<lambda>b. fst b \<noteq> k) bs"
proof (induction bs)
  case (Cons b bs)
  have "filter (\<lambda>b. fst b \<noteq> k) bs = bs" if "fst b = k"
    using that Cons.prems by (auto simp: filter_id_conv image_iff)
  with Cons show ?case by auto
qed simp

lemma map_of_remove: "map_of (filter (\<lambda>e. fst e \<noteq> k) m) j = (if j = k then None else map_of m j)"
  by (induction m) auto

definition dropped :: "nat \<Rightarrow> live_stream \<Rightarrow> live_stream" where
  "dropped k s = s\<lparr>requesting_map := filter (\<lambda>e. fst e \<noteq> k) (requesting_map s),
     http := (http s)\<lparr>http_tasks := filter (\<lambda>b. fst b \<noteq> k) (http_tasks (http s))\<rparr>,
     p2p := (p2p s)\<lparr>p2p_tasks := filter (\<lambda>e. fst e \<noteq> k) (p2p_tasks (p2p s))\<rparr>\<rparr>"

lemma dropped_simps [simp]:
  "stream_running (dropped k s) = stream_running s" "stream_cache (dropped k s) = stream_cache s"
  "has_p2p (dropped k s) = has_p2p s" "posted_resumes (dropped k s) = posted_resumes s"
  "http (dropped k s) = (http s)\<lparr>http_tasks := filter (\<lambda>b. fst b \<noteq> k) (http_tasks (http s))\<rparr>"
  "p2p (dropped k s) = (p2p s)\<lparr>p2p_tasks := filter (\<lambda>e. fst e \<noteq> k) (p2p_tasks (p2p s))\<rparr>"
  "requesting_map (dropped k s) = filter (\<lambda>e. fst e \<noteq> k) (requesting_map s)"
  by (simp_all add: dropped_def)

lemma holder_dropped [simp]: "holder (dropped k s) j = (if j = k then None else holder s j)"
  by (simp add: holder_def map_of_remove)

lemma fst_filter: "fst ` set (filter (\<lambda>e. fst e \<noteq> k) m) = fst ` set m - {k}"
  by auto

lemma dropped_ids [simp]: "http_ids (dropped k s) = http_ids s - {k}" "p2p_ids (dropped k s) = p2p_ids s - {k}"
  by (simp_all add: http_ids_def p2p_ids_def fst_filter del: set_filter)

lemma dropped_inv: "map_inv s \<Longrightarrow> map_inv (dropped k s)"
  unfolding map_inv_def holder_dropped dropped_ids
  by (auto simp: sorted_keys_filter map_of_remove distinct_map_filter)

lemma other_holder_keeps:
  assumes "map_inv s"
  shows "holder s k \<noteq> Some HttpDownloader \<Longrightarrow> filter (\<lambda>b. fst b \<noteq> k) (http_tasks (http s)) = http_tasks (http s)"
    and "holder s k \<noteq> Some P2PDownloader \<Longrightarrow> filter (\<lambda>e. fst e \<noteq> k) (p2p_tasks (p2p s)) = p2p_tasks (p2p s)"
    and "holder s k = None \<Longrightarrow> filter (\<lambda>e. fst e \<noteq> k) (requesting_map s) = requesting_map s"
proof -
  have *: "holder s k = Some HttpDownloader \<longleftrightarrow> k \<in> http_ids s" "holder s k = Some P2PDownloader \<longleftrightarrow> k \<in> p2p_ids s"
    using assms by (auto simp: map_inv_def)
  show "holder s k \<noteq> Some HttpDownloader \<Longrightarrow> filter (\<lambda>b. fst b \<noteq> k) (http_tasks (http s)) = http_tasks (http s)"
    using *(1) by (force simp: filter_id_conv http_ids_def)
  show "holder s k \<noteq> Some P2PDownloader \<Longrightarrow> filter (\<lambda>e. fst e \<noteq> k) (p2p_tasks (p2p s)) = p2p_tasks (p2p s)"
    using *(2) by (force simp: filter_id_conv p2p_ids_def)
  show "holder s k = None \<Longrightarrow> filter (\<lambda>e. fst e \<noteq> k) (requesting_map s) = requesting_map s"
    by (force simp: holder_def filter_id_conv map_of_eq_None_iff)
qed

lemma map_inv_ids:
  assumes "map_inv s"
  shows "k \<in> http_ids s \<longleftrightarrow> holder s k = Some HttpDownloader" "k \<in> p2p_ids s \<longleftrightarrow> holder s k = Some P2PDownloader"
  using assms by (simp_all add: map_inv_def)

lemma remove_plain:
  assumes "map_inv s" "holder s k = Some HttpDownloader \<Longrightarrow> http_pausing (http s) \<or> http_state (http s) = Closed"
  shows "RemoveBlockTask_with pause k s = Some (Inr (dropped k s))"
proof (cases "map_of (requesting_map s) k")
  case None
  then have "holder s k = None" by (simp add: holder_def)
  then have "dropped k s = s" using other_holder_keeps [OF assms(1)] by (simp add: dropped_def)
  with None show ?thesis by (simp add: RemoveBlockTask_with_def)
next
  case (Some t)
  have k: "fst (task_live_block t) = k" using assms(1) Some by (auto simp: map_inv_def)
  show ?thesis
  proof (cases "task_download t")
    case HttpDownloader
    then have h: "holder s k = Some HttpDownloader" by (simp add: holder_def Some)
    then have "k \<in> fst ` set (http_tasks (http s))" "holder s k \<noteq> Some P2PDownloader"
      by (simp_all add: map_inv_ids(1) [OF assms(1)] http_ids_def [symmetric])
    moreover have "distinct (map fst (http_tasks (http s)))" using assms(1) by (simp add: map_inv_def)
    ultimately show ?thesis
      using Some k HttpDownloader assms(2) [OF h] other_holder_keeps(2) [OF assms(1)]
      by (auto simp: RemoveBlockTask_with_def task_Timeout_def http_OnBlockTimeout_def Let_def upd_http_def erase_first_filter
          dropped_def)
  next
    case P2PDownloader
    then have "holder s k = Some P2PDownloader" by (simp add: holder_def Some)
    with Some k P2PDownloader other_holder_keeps(1) [OF assms(1), of k] show ?thesis
      by (simp add: RemoveBlockTask_with_def task_Timeout_def p2p_OnBlockTimeout_def dropped_def)
  qed
qed

text \<open>All blocks of the HTTP downloader are given up.\<close>

definition cleared :: "live_stream \<Rightarrow> live_stream" where
  "cleared s = s\<lparr>requesting_map := filter (\<lambda>e. task_download (snd e) \<noteq> HttpDownloader) (requesting_map s),
     http := (http s)\<lparr>http_tasks := []\<rparr>\<rparr>"

lemma cleared_simps [simp]:
  "stream_running (cleared s) = stream_running s" "stream_cache (cleared s) = stream_cache s"
  "has_p2p (cleared s) = has_p2p s" "posted_resumes (cleared s) = posted_resumes s"
  "http (cleared s) = (http s)\<lparr>http_tasks := []\<rparr>" "p2p (cleared s) = p2p s"
  "requesting_map (cleared s) = filter (\<lambda>e. task_download (snd e) \<noteq> HttpDownloader) (requesting_map s)"
  by (simp_all add: cleared_def)

lemma map_of_filter_value:
  "distinct (map fst m) \<Longrightarrow> map_of (filter (\<lambda>e. P (snd e)) m) k = (case map_of m k of None \<Rightarrow> None | Some v \<Rightarrow> if P v then Some v else None)"
proof (induction m)
  case (Cons e m)
  have "map_of m (fst e) = None" using Cons.prems by (simp add: map_of_eq_None_iff)
  with Cons show ?case by (cases e) auto
qed simp

lemma holder_cleared:
  assumes "map_inv s"
  shows "holder (cleared s) k = (if holder s k = Some HttpDownloader then None else holder s k)"
proof -
  have d: "distinct (map fst (requesting_map s))" using assms by (simp add: map_inv_def sorted_keys_distinct)
  show ?thesis
    unfolding holder_def cleared_simps map_of_filter_value [OF d, of "\<lambda>t. task_download t \<noteq> HttpDownloader"]
    by (auto split: option.split)
qed

lemma cleared_inv:
  assumes "map_inv s"
  shows "map_inv (cleared s)"
proof -
  have d: "distinct (map fst (requesting_map s))" using assms by (simp add: map_inv_def sorted_keys_distinct)
  have "map_of (requesting_map s) k = Some t" if "map_of (requesting_map (cleared s)) k = Some t" for k t
    using that unfolding cleared_simps map_of_filter_value [OF d, of "\<lambda>t. task_download t \<noteq> HttpDownloader"]
    by (auto split: option.splits if_splits)
  moreover have "http_ids (cleared s) = {}" "p2p_ids (cleared s) = p2p_ids s" by (simp_all add: http_ids_def p2p_ids_def)
  ultimately show ?thesis
    using assms unfolding map_inv_def holder_cleared [OF assms]
    by (simp add: sorted_keys_filter map_inv_ids [OF assms])
qed

lemma RemoveAll_cleared:
  assumes "map_inv s" "http_live_stream (http s)" "http_pausing (http s) \<or> http_state (http s) = Closed"
  shows "RemoveAllBlockTasks s = Some (Inr (cleared s))"
  using assms
proof (induction "http_tasks (http s)" arbitrary: s)
  case Nil
  have "holder s k \<noteq> Some HttpDownloader" for k using Nil.prems(1) Nil.hyps [symmetric] by (simp add: map_inv_def http_ids_def)
  then have "task_download (snd e) \<noteq> HttpDownloader" if "e \<in> set (requesting_map s)" for e
  proof -
    have "map_of (requesting_map s) (fst e) = Some (snd e)"
      using that Nil.prems(1) by (simp add: map_inv_def sorted_keys_distinct)
    then show ?thesis using \<open>\<And>k. holder s k \<noteq> Some HttpDownloader\<close> [of "fst e"] by (simp add: holder_def)
  qed
  then have "filter (\<lambda>e. task_download (snd e) \<noteq> HttpDownloader) (requesting_map s) = requesting_map s"
    by (auto simp: filter_id_conv)
  then have "cleared s = s" using Nil.hyps [symmetric] by (simp add: cleared_def)
  with Nil.hyps [symmetric] show ?case by (simp add: RemoveAllBlockTasks.simps [of s])
next
  case (Cons b bs)
  let ?t = "dropped (fst b) s"
  have r: "RemoveBlockTask_with (\<lambda>s. Some (Inr s)) (fst b) s = Some (Inr ?t)"
    using remove_plain [OF Cons.prems(1)] Cons.prems(3) by blast
  have "distinct (map fst (b # bs))" using Cons.prems(1) Cons.hyps(2) by (simp add: map_inv_def)
  then have bs: "filter (\<lambda>c. fst c \<noteq> fst b) bs = bs" by (auto simp: filter_id_conv image_iff)
  then have tt: "bs = http_tasks (http ?t)" by (simp add: Cons.hyps(2) [symmetric])
  have h: "holder s (fst b) = Some HttpDownloader"
    using Cons.prems(1) by (simp add: map_inv_def http_ids_def Cons.hyps(2) [symmetric])
  have "task_download (snd e) = HttpDownloader" if "e \<in> set (requesting_map s)" "fst e = fst b" for e
  proof -
    have "map_of (requesting_map s) (fst e) = Some (snd e)"
      using that(1) Cons.prems(1) by (simp add: map_inv_def sorted_keys_distinct)
    with h that(2) show ?thesis by (simp add: holder_def)
  qed
  then have "filter (\<lambda>e. fst e \<noteq> fst b \<and> task_download (snd e) \<noteq> HttpDownloader) (requesting_map s) =
      filter (\<lambda>e. task_download (snd e) \<noteq> HttpDownloader) (requesting_map s)"
    by (auto intro!: filter_cong)
  then have "cleared ?t = cleared s"
    using other_holder_keeps(2) [OF Cons.prems(1), of "fst b"] h
    by (simp add: cleared_def dropped_def)
  moreover have "RemoveAllBlockTasks ?t = Some (Inr (cleared ?t))"
    using Cons.hyps(1) [OF tt] Cons.prems by (simp add: dropped_inv)
  ultimately show ?case
    using r Cons.prems(2) by (simp add: RemoveAllBlockTasks.simps [of s] Cons.hyps(2) [symmetric])
qed

section \<open>The calls between the downloaders return\<close>

definition paused :: "live_stream \<Rightarrow> live_stream" where
  "paused s =
     (if http_pausing (http s) then s
      else upd_http (\<lambda>h. (close_client h)\<lparr>http_pausing := True, sleep_timer := False, http_state := Closed\<rparr>) (cleared s))"

lemma close_client_simps [simp]:
  "http_running (close_client h) = http_running h" "http_live_stream (close_client h) = http_live_stream h"
  "http_pausing (close_client h) = http_pausing h" "http_rid (close_client h) = http_rid h"
  "http_tasks (close_client h) = http_tasks h" "http_state (close_client h) = http_state h"
  "sleep_timer (close_client h) = sleep_timer h" "connect_failed_times (close_client h) = connect_failed_times h"
  "http_client (close_client h) = None \<longleftrightarrow> http_client h = None"
  by (simp_all add: close_client_def)

lemma upd_http_simps [simp]:
  "http (upd_http f s) = f (http s)" "stream_running (upd_http f s) = stream_running s"
  "requesting_map (upd_http f s) = requesting_map s" "stream_cache (upd_http f s) = stream_cache s"
  "has_p2p (upd_http f s) = has_p2p s" "p2p (upd_http f s) = p2p s" "posted_resumes (upd_http f s) = posted_resumes s"
  by (simp_all add: upd_http_def)

lemma upd_http_twice: "upd_http f (upd_http g s) = upd_http (\<lambda>h. f (g h)) s"
  by (simp add: upd_http_def)

lemma holder_upd [simp]: "holder (upd_http f s) = holder s" "holder (s\<lparr>http := h\<rparr>) = holder s"
  "holder (s\<lparr>posted_resumes := n\<rparr>) = holder s" "holder (s\<lparr>stream_cache := c\<rparr>) = holder s"
  by (simp_all add: holder_def fun_eq_iff)

lemma map_inv_cong:
  assumes "map_inv s" "requesting_map t = requesting_map s" "p2p_tasks (p2p t) = p2p_tasks (p2p s)"
    "http_tasks (http t) = http_tasks (http s)"
  shows "map_inv t"
  using assms by (simp add: map_inv_def holder_def http_ids_def p2p_ids_def)

lemma http_Pause_paused:
  assumes "map_inv s" "http_inv (http s)" "http_live_stream (http s)"
  shows "http_Pause s = Some (Inr (paused s))"
proof (cases "http_pausing (http s)")
  case False
  let ?s1 = "upd_http (\<lambda>h. h\<lparr>http_pausing := True, sleep_timer := (if http_state h = Sleeping then False else sleep_timer h)\<rparr>) s"
  have "map_inv ?s1" by (rule map_inv_cong [OF assms(1)]) simp_all
  then have "RemoveAllBlockTasks ?s1 = Some (Inr (cleared ?s1))"
    using assms(3) by (simp add: RemoveAll_cleared)
  with False assms(2) show ?thesis
    by (simp add: http_Pause_def paused_def Let_def upd_http_def close_client_def cleared_def http_inv_def)
qed (simp add: http_Pause_def paused_def)

lemma paused_inv:
  assumes "map_inv s" "http_inv (http s)"
  shows "map_inv (paused s)" "http_inv (http (paused s))" "http_pausing (http (paused s))"
  using assms map_inv_cong [OF cleared_inv [OF assms(1)]] by (auto simp: paused_def http_inv_def in_session_def)

lemma paused_simps [simp]:
  "stream_running (paused s) = stream_running s" "stream_cache (paused s) = stream_cache s" "has_p2p (paused s) = has_p2p s"
  "http_running (http (paused s)) = http_running (http s)"
  "http_live_stream (http (paused s)) = http_live_stream (http s)"
  "p2p (paused s) = p2p s" "posted_resumes (paused s) = posted_resumes s"
  by (simp_all add: paused_def)

text \<open>A block is taken from its downloader; an HTTP downloader that works on it pauses and posts its resumption.\<close>

definition interrupts :: "nat \<Rightarrow> live_stream \<Rightarrow> bool" where
  "interrupts k s \<longleftrightarrow> holder s k = Some HttpDownloader \<and> \<not> http_pausing (http s) \<and> http_state (http s) \<noteq> Closed"

definition removed :: "nat \<Rightarrow> live_stream \<Rightarrow> live_stream" where
  "removed k s =
     (if interrupts k s
      then (upd_http (\<lambda>h. (close_client h)\<lparr>http_pausing := True, sleep_timer := False, http_state := Closed\<rparr>) (dropped k s))
             \<lparr>posted_resumes := posted_resumes s + 1\<rparr>
      else dropped k s)"

lemma removed_simps [simp]:
  "stream_running (removed k s) = stream_running s" "stream_cache (removed k s) = stream_cache s"
  "has_p2p (removed k s) = has_p2p s" "http_running (http (removed k s)) = http_running (http s)"
  "http_live_stream (http (removed k s)) = http_live_stream (http s)"
  "holder (removed k s) j = (if j = k then None else holder s j)"
  "requesting_map (removed k s) = filter (\<lambda>e. fst e \<noteq> k) (requesting_map s)"
  by (simp_all add: removed_def)

lemma single_task:
  assumes "length bs \<le> 1" "k \<in> fst ` set bs"
  shows "filter (\<lambda>b. fst b \<noteq> k) bs = []"
  using assms by (cases bs) auto

lemma RemoveBlockTask_removed:
  assumes "map_inv s" "http_inv (http s)"
  shows "RemoveBlockTask k s = Some (Inr (removed k s))"
proof (cases "interrupts k s")
  case False
  then show ?thesis
    using remove_plain [OF assms(1), of k http_Pause] by (auto simp: RemoveBlockTask_def removed_def interrupts_def)
next
  case True
  then obtain t where t: "map_of (requesting_map s) k = Some t" "task_download t = HttpDownloader"
    by (auto simp: interrupts_def holder_def)
  have k: "fst (task_live_block t) = k" using assms(1) t(1) by (auto simp: map_inv_def)
  have ids: "k \<in> fst ` set (http_tasks (http s))" "holder s k \<noteq> Some P2PDownloader"
    using True map_inv_ids [OF assms(1), of k] by (auto simp: interrupts_def http_ids_def)
  then have p: "filter (\<lambda>e. fst e \<noteq> k) (p2p_tasks (p2p s)) = p2p_tasks (p2p s)" using other_holder_keeps [OF assms(1)] by blast
  have e: "erase_first k (http_tasks (http s)) = []" "filter (\<lambda>b. fst b \<noteq> k) (http_tasks (http s)) = []"
    using single_task [OF _ ids(1)] assms by (auto simp: http_inv_def map_inv_def erase_first_filter)
  have "RemoveAllBlockTasks u = Some (Inr u)" if "http_tasks (http u) = []" for u
    using that by (simp add: RemoveAllBlockTasks.simps)
  with True t ids k e p assms(2) show ?thesis
    by (simp add: RemoveBlockTask_def RemoveBlockTask_with_def task_Timeout_def http_OnBlockTimeout_def http_Pause_def
        interrupts_def removed_def dropped_def Let_def upd_http_def close_client_def http_inv_def)
qed

lemma removed_inv:
  assumes "map_inv s" "http_inv (http s)"
  shows "map_inv (removed k s)" "http_inv (http (removed k s))"
proof -
  show "map_inv (removed k s)"
    using map_inv_cong [OF dropped_inv [OF assms(1), of k], of "removed k s"] dropped_inv [OF assms(1), of k]
    by (auto simp: removed_def)
  show "http_inv (http (removed k s))"
  proof (cases "holder s k = Some HttpDownloader")
    case False
    then show ?thesis
      using assms(2) other_holder_keeps(1) [OF assms(1), of k] by (simp add: removed_def interrupts_def)
  next
    case True
    then have "filter (\<lambda>b. fst b \<noteq> k) (http_tasks (http s)) = []"
      using map_inv_ids(1) [OF assms(1), of k] assms(2) by (intro single_task) (simp_all add: http_inv_def http_ids_def)
    with True assms(2) show ?thesis
      by (auto simp: removed_def interrupts_def http_inv_def in_session_def)
  qed
qed

text \<open>A block that nobody has is given to a downloader.\<close>

definition new_task :: "task_env \<Rightarrow> live_subpiece \<Rightarrow> downloader \<Rightarrow> block_task" where
  "new_task env b d = \<lparr>task_live_block = b, task_download = d, task_timeout = 8 * 1000, task_tick_count = now env\<rparr>"

definition http_free :: "live_stream \<Rightarrow> bool" where
  "http_free s \<longleftrightarrow> http_tasks (http s) = [] \<and> \<not> http_pausing (http s) \<and> http_state (http s) = Closed \<and> http_running (http s)"

definition added :: "task_env \<Rightarrow> live_subpiece \<Rightarrow> downloader \<Rightarrow> live_stream \<Rightarrow> live_stream" where
  "added env b d s =
     (let s1 = s\<lparr>requesting_map := put_sorted (fst b) (new_task env b d) (requesting_map s)\<rparr>
      in case d of
           P2PDownloader \<Rightarrow> s1\<lparr>p2p := (p2p s)\<lparr>p2p_tasks := put_sorted (fst b) b (p2p_tasks (p2p s))\<rparr>\<rparr>
         | HttpDownloader \<Rightarrow>
             upd_http (\<lambda>h. h\<lparr>http_tasks := [b], http_state := Connecting,
               http_client := Some \<lparr>client_path = (http_rid h, fst b), client_open = True\<rparr>\<rparr>) s1)"

lemma added_simps [simp]:
  "stream_running (added env b d s) = stream_running s" "stream_cache (added env b d s) = stream_cache s"
  "has_p2p (added env b d s) = has_p2p s" "posted_resumes (added env b d s) = posted_resumes s"
  "http_running (http (added env b d s)) = http_running (http s)"
  "http_live_stream (http (added env b d s)) = http_live_stream (http s)"
  "requesting_map (added env b d s) = put_sorted (fst b) (new_task env b d) (requesting_map s)"
  by (simp_all add: added_def Let_def split: downloader.split)

lemma AddBlockTask_added:
  assumes "map_inv s" "holder s (fst b) = None" "\<not> connect_throws env" "d = HttpDownloader \<Longrightarrow> http_free s"
  shows "AddBlockTask env b d s = Inr (added env b d s)"
proof (cases d)
  case HttpDownloader
  with assms show ?thesis
    by (simp add: AddBlockTask_def added_def new_task_def http_PutBlockTask_def connect_front_def http_free_def Let_def upd_http_def)
next
  case P2PDownloader
  have "fst b \<notin> p2p_ids s" using assms(2) by (simp add: map_inv_ids(2) [OF assms(1)])
  then have "map_of (p2p_tasks (p2p s)) (fst b) = None" by (simp add: p2p_ids_def map_of_eq_None_iff)
  with P2PDownloader show ?thesis by (simp add: AddBlockTask_def added_def new_task_def p2p_PutBlockTask_def Let_def)
qed

lemma set_put_sorted: "sorted_wrt (<) (map fst m) \<Longrightarrow> set (put_sorted k v m) \<subseteq> insert (k, v) (set m)"
  by (induction k v m rule: put_sorted.induct) auto

lemma holder_added:
  assumes "map_inv s"
  shows "holder (added env b d s) k = (if k = fst b then Some d else holder s k)"
proof -
  have "sorted_wrt (<) (map fst (requesting_map s))" using assms by (simp add: map_inv_def)
  then show ?thesis by (simp add: holder_def map_of_put_sorted new_task_def)
qed

lemma added_inv:
  assumes "map_inv s" "holder s (fst b) = None" "d = HttpDownloader \<Longrightarrow> http_free s"
  shows "map_inv (added env b d s)"
proof -
  have so: "sorted_wrt (<) (map fst (requesting_map s))" "sorted_wrt (<) (map fst (p2p_tasks (p2p s)))"
    using assms(1) by (simp_all add: map_inv_def)
  have hi: "http_ids (added env b d s) = (if d = HttpDownloader then insert (fst b) (http_ids s) else http_ids s)"
    using assms(3) by (cases d) (simp_all add: added_def http_ids_def http_free_def Let_def)
  have pi: "p2p_ids (added env b d s) = (if d = P2PDownloader then insert (fst b) (p2p_ids s) else p2p_ids s)"
    by (cases d) (simp_all add: added_def p2p_ids_def put_sorted_keys Let_def)
  have tb: "fst (task_live_block t) = k" if "map_of (requesting_map (added env b d s)) k = Some t" for k t
    using that so(1) assms(1) by (auto simp: map_of_put_sorted new_task_def map_inv_def split: if_splits)
  have ht: "distinct (map fst (http_tasks (http (added env b d s))))"
    using assms(1) by (cases d) (simp_all add: added_def Let_def map_inv_def)
  have pt: "sorted_wrt (<) (map fst (p2p_tasks (p2p (added env b d s))))"
    using so(2) by (cases d) (simp_all add: added_def Let_def sorted_put_sorted)
  have pf: "\<forall>e\<in>set (p2p_tasks (p2p (added env b d s))). fst (snd e) = fst e"
  proof (cases d)
    case P2PDownloader
    with set_put_sorted [OF so(2), of "fst b" b] assms(1) show ?thesis by (auto simp: added_def Let_def map_inv_def)
  qed (use assms(1) in \<open>simp add: added_def Let_def map_inv_def\<close>)
  have "fst b \<notin> http_ids s" "fst b \<notin> p2p_ids s" using assms(2) by (simp_all add: map_inv_ids [OF assms(1)])
  then show ?thesis
    unfolding map_inv_def holder_added [OF assms(1)] hi pi
    using so(1) tb ht pt pf by (auto simp: sorted_put_sorted map_inv_ids [OF assms(1)])
qed

lemma added_http_inv:
  assumes "http_inv (http s)" "d = HttpDownloader \<Longrightarrow> http_free s" "fst b < 2 ^ 32"
  shows "http_inv (http (added env b d s))"
  using assms by (cases d) (auto simp: added_def Let_def http_inv_def http_free_def in_session_def)

section \<open>The next block\<close>

text \<open>A downloader may take a block that nobody has, or that the other one has had for too long or while it pauses.\<close>

definition may_take :: "task_env \<Rightarrow> downloader \<Rightarrow> nat \<Rightarrow> live_stream \<Rightarrow> bool" where
  "may_take env d k s \<longleftrightarrow> \<not> IsRequesting k s \<or> manager_IsTimeout env k d s"

definition taken :: "task_env \<Rightarrow> live_subpiece \<Rightarrow> downloader \<Rightarrow> live_stream \<Rightarrow> live_stream" where
  "taken env b d s = added env b d (if IsRequesting (fst b) s then removed (fst b) s else s)"

definition stops_at :: "task_env \<Rightarrow> downloader \<Rightarrow> live_stream \<Rightarrow> nat \<Rightarrow> bool" where
  "stops_at env d s k \<longleftrightarrow> \<not> HasCompleteBlock k (stream_cache s) \<and> (pool_exhausted env k \<or> may_take env d k s)"

definition few_blocks :: "live_stream \<Rightarrow> bool" where
  "few_blocks s \<longleftrightarrow> length (block_nodes (stream_cache s)) + length (requesting_map s) < 2 ^ 16"

lemma nth_id_less: "nth_id start n c < 2 ^ 32"
  by (simp add: nth_id_def)

lemma search_result:
  assumes "cache_ok lib c" "\<forall>j < n. HasCompleteBlock (nth_id start (m + j) c) c" "\<not> HasCompleteBlock (nth_id start (m + n) c) c"
  shows "\<exists>i. cache_GetNextMissingSubPiece c (nth_id start m c) = Some (Inr (nth_id start (m + n) c, i))"
proof -
  have shift: "nth_id (nth_id start m c) j c = nth_id start (m + j) c" for j
    by (simp add: nth_id_def mod_add_left_eq distrib_right add.assoc)
  have "nth_id (nth_id start m c) 0 c = nth_id start m c" by (simp add: nth_id_def)
  then have "cache_GetNextMissingSubPiece c (nth_id start m c) = cache_GetNextMissingSubPiece c (nth_id start (m + n) c)"
    using search_complete [of n "nth_id start m c" c] assms(2) by (simp add: shift)
  with search_stop [OF assms(1,3)] show ?thesis by auto
qed

text \<open>A walk passes only blocks that are complete or taken, and so is short.\<close>

lemma walk_short:
  assumes "cache_ok lib (stream_cache s)" "few_blocks s" "\<forall>j<n. \<not> stops_at env d s (nth_id start j (stream_cache s))"
  shows "n \<le> length (block_nodes (stream_cache s)) + length (requesting_map s)"
proof (rule ccontr)
  let ?c = "stream_cache s" and ?n = "length (block_nodes (stream_cache s)) + length (requesting_map s)"
  let ?keys = "fst ` set (block_nodes ?c) \<union> fst ` set (requesting_map s)"
  assume "\<not> ?thesis"
  with assms(3) have no: "\<not> stops_at env d s (nth_id start j ?c)" if "j \<le> ?n" for j using that by simp
  have "(\<lambda>n. nth_id start n ?c) ` {..?n} \<subseteq> ?keys"
  proof
    fix x assume "x \<in> (\<lambda>n. nth_id start n ?c) ` {..?n}"
    with no have x: "\<not> stops_at env d s x" by auto
    show "x \<in> ?keys"
    proof (cases "HasCompleteBlock x ?c")
      case True
      then have "node x ?c \<noteq> None" by (auto simp: HasCompleteBlock_def split: option.splits)
      then show ?thesis by (simp add: node_def map_of_eq_None_iff)
    next
      case False
      with x have "IsRequesting x s" by (auto simp: stops_at_def may_take_def)
      then show ?thesis by (simp add: IsRequesting_def map_of_eq_None_iff)
    qed
  qed
  then have "card ((\<lambda>n. nth_id start n ?c) ` {..?n}) \<le> card ?keys" by (rule card_mono [rotated]) simp
  also have "\<dots> \<le> card (fst ` set (block_nodes ?c)) + card (fst ` set (requesting_map s))" by (rule card_Un_le)
  also have "\<dots> \<le> ?n" by (intro add_mono; metis card_length length_map set_map)
  finally have "card ((\<lambda>n. nth_id start n ?c) ` {..?n}) \<le> ?n" .
  moreover have "inj_on (\<lambda>n. nth_id start n ?c) {..?n}"
  proof (rule inj_onI)
    fix a b assume a: "a \<in> {..?n}" "b \<in> {..?n}" and eq: "nth_id start a ?c = nth_id start b ?c"
    then have "a < 2 ^ 16" "b < 2 ^ 16" using assms(2) by (auto simp: few_blocks_def)
    then show "a = b"
      using nth_id_inj [OF assms(1) eq] nth_id_inj [OF assms(1) eq [symmetric]] nat_le_linear [of a b] by metis
  qed
  ultimately show False by (simp add: card_image)
qed

lemma some_stop:
  assumes "cache_ok lib (stream_cache s)" "few_blocks s"
  shows "\<exists>n. stops_at env d s (nth_id start n (stream_cache s))"
  using walk_short [OF assms, of "Suc (length (block_nodes (stream_cache s)) + length (requesting_map s))" env d start] by auto

lemma removed_free: "d = HttpDownloader \<Longrightarrow> http_free s \<Longrightarrow> map_inv s \<Longrightarrow> http_free (removed k s)"
  by (simp add: http_free_def removed_def interrupts_def)

text \<open>The loop stops at the first block of the walk where it may, and gives this block to the downloader.\<close>

definition give :: "task_env \<Rightarrow> live_subpiece \<Rightarrow> downloader \<Rightarrow> live_stream \<Rightarrow> live_stream result" where
  "give env b d s = AddBlockTask env b d (if IsRequesting (fst b) s then removed (fst b) s else s)"

lemma at_stop:
  assumes "map_inv s" "http_inv (http s)"
    and found: "cache_GetNextMissingSubPiece (stream_cache s) start = Some (Inr (k, i))" and stop: "stops_at env d s k"
  shows "next_block_loop env d start s =
    Some (if pool_exhausted env k then Inr (False, s) else and_then (give env (k, i) d s) (\<lambda>t. Inr (True, t)))"
proof (cases "pool_exhausted env k")
  case True
  with found show ?thesis by (simp add: next_block_loop.simps [of env d start s])
next
  case False
  show ?thesis
  proof (cases "IsRequesting k s")
    case no: False
    with False found show ?thesis by (simp add: next_block_loop.simps [of env d start s] give_def)
  next
    case yes: True
    then have "manager_IsTimeout env k d s" using stop False by (simp add: stops_at_def may_take_def)
    with False found yes RemoveBlockTask_removed [OF assms(1,2)] show ?thesis
      by (simp add: next_block_loop.simps [of env d start s] give_def)
  qed
qed

lemma next_block_found:
  assumes "cache_ok lib (stream_cache s)" "map_inv s" "http_inv (http s)" "few_blocks s" "start < 2 ^ 32"
  shows "\<exists>n i. next_block_loop env d start s =
      Some (if pool_exhausted env (nth_id start n (stream_cache s)) then Inr (False, s)
            else and_then (give env (nth_id start n (stream_cache s), i) d s) (\<lambda>t. Inr (True, t))) \<and>
    stops_at env d s (nth_id start n (stream_cache s)) \<and>
    (\<forall>j < n. \<not> stops_at env d s (nth_id start j (stream_cache s)))"
proof -
  let ?c = "stream_cache s"
  let ?r = "\<lambda>k i. Some (if pool_exhausted env k then Inr (False, s) else and_then (give env (k, i) d s) (\<lambda>t. Inr (True, t)))"
  define n where "n = (LEAST n. stops_at env d s (nth_id start n ?c))"
  have stop: "stops_at env d s (nth_id start n ?c)"
    unfolding n_def using some_stop [OF assms(1,4)] by (rule LeastI_ex)
  have before: "\<not> stops_at env d s (nth_id start j ?c)" if "j < n" for j
    using not_less_Least [OF that [unfolded n_def]] .
  have "\<exists>i. next_block_loop env d (nth_id start m ?c) s = ?r (nth_id start n ?c) i" if "m \<le> n" for m
    using that
  proof (induction "n - m" arbitrary: m rule: less_induct)
    case less
    have ex: "\<exists>p. \<not> HasCompleteBlock (nth_id start (m + p) ?c) ?c"
      using stop less.prems by (intro exI [of _ "n - m"]) (simp add: stops_at_def)
    define p where "p = (LEAST p. \<not> HasCompleteBlock (nth_id start (m + p) ?c) ?c)"
    have p: "\<not> HasCompleteBlock (nth_id start (m + p) ?c) ?c" unfolding p_def using ex by (rule LeastI_ex)
    have pj: "\<forall>j < p. HasCompleteBlock (nth_id start (m + j) ?c) ?c" unfolding p_def using not_less_Least by blast
    have "p \<le> n - m" unfolding p_def by (rule Least_le) (use stop less.prems in \<open>simp add: stops_at_def\<close>)
    then have le: "m + p \<le> n" using less.prems by simp
    obtain i where i: "cache_GetNextMissingSubPiece ?c (nth_id start m ?c) = Some (Inr (nth_id start (m + p) ?c, i))"
      using search_result [OF assms(1) pj p] by blast
    show ?case
    proof (cases "m + p = n")
      case True
      with at_stop [OF assms(2,3) i] stop show ?thesis by auto
    next
      case False
      with le have lt: "m + p < n" by simp
      then have "\<not> stops_at env d s (nth_id start (m + p) ?c)" by (rule before)
      then have "\<not> pool_exhausted env (nth_id start (m + p) ?c)" "IsRequesting (nth_id start (m + p) ?c) s"
        "\<not> manager_IsTimeout env (nth_id start (m + p) ?c) d s"
        using p by (auto simp: stops_at_def may_take_def)
      then have "next_block_loop env d (nth_id start m ?c) s = next_block_loop env d (nth_id start (Suc m) ?c) s"
        using i by (simp add: next_block_loop.simps [of env d "nth_id start m ?c" s] next_nth_id)
      moreover from lt have "Suc m \<le> n" "n - Suc m < n - m" by simp_all
      ultimately show ?thesis using less.hyps [of "Suc m"] by simp
    qed
  qed
  from this [of 0] have "\<exists>i. next_block_loop env d start s = ?r (nth_id start n ?c) i"
    using assms(5) by (simp add: nth_id_def)
  with stop before show ?thesis by blast
qed

lemma give_taken:
  assumes "map_inv s" "http_inv (http s)" "\<not> connect_throws env" "d = HttpDownloader \<Longrightarrow> http_free s"
  shows "give env b d s = Inr (taken env b d s)"
proof -
  let ?r = "if IsRequesting (fst b) s then removed (fst b) s else s"
  have "map_inv ?r" using removed_inv(1) [OF assms(1,2)] assms(1) by simp
  moreover have "holder ?r (fst b) = None" by (auto simp: holder_def IsRequesting_def map_of_remove)
  moreover have "d = HttpDownloader \<Longrightarrow> http_free ?r" using assms(4) removed_free [OF _ _ assms(1)] by auto
  ultimately show ?thesis unfolding give_def taken_def by (rule AddBlockTask_added [OF _ _ assms(3)])
qed

lemma taken_inv:
  assumes "map_inv s" "http_inv (http s)" "d = HttpDownloader \<Longrightarrow> http_free s" "fst b < 2 ^ 32"
  shows "map_inv (taken env b d s)" "http_inv (http (taken env b d s))"
    "stream_running (taken env b d s) = stream_running s" "stream_cache (taken env b d s) = stream_cache s"
    "http_running (http (taken env b d s)) = http_running (http s)"
    "http_live_stream (http (taken env b d s)) = http_live_stream (http s)"
    "has_p2p (taken env b d s) = has_p2p s"
    "holder (taken env b d s) k = (if k = fst b then Some d else holder s k)"
proof -
  let ?r = "if IsRequesting (fst b) s then removed (fst b) s else s"
  have r: "map_inv ?r" "http_inv (http ?r)" using removed_inv [OF assms(1,2)] assms by auto
  have h: "holder ?r (fst b) = None" by (auto simp: holder_def IsRequesting_def map_of_remove)
  have f: "d = HttpDownloader \<Longrightarrow> http_free ?r" using assms(3) removed_free [OF _ _ assms(1)] by auto
  show "map_inv (taken env b d s)" "http_inv (http (taken env b d s))"
    unfolding taken_def by (rule added_inv [OF r(1) h f] added_http_inv [OF r(2) f assms(4)]; assumption)+
  show "stream_running (taken env b d s) = stream_running s" "stream_cache (taken env b d s) = stream_cache s"
    "http_running (http (taken env b d s)) = http_running (http s)"
    "http_live_stream (http (taken env b d s)) = http_live_stream (http s)"
    "has_p2p (taken env b d s) = has_p2p s"
    "holder (taken env b d s) k = (if k = fst b then Some d else holder s k)"
    using r(1) by (auto simp: taken_def holder_added)
qed

section \<open>Every event is handled\<close>

definition env_ok :: "task_env \<Rightarrow> bool" where
  "env_ok env \<longleftrightarrow> \<not> connect_throws env \<and> playing_block env < 2 ^ 32"

definition lively :: "live_stream \<Rightarrow> bool" where
  "lively s \<longleftrightarrow> (stream_running s \<longrightarrow> http_pausing (http s) \<or> http_state (http s) \<noteq> Closed)"

text \<open>What a handler guarantees: it returns, the invariant holds, and the HTTP downloader has something to do if blocks
  are not refused for want of memory.\<close>

definition handled :: "protocol_lib \<Rightarrow> bool \<Rightarrow> live_stream outcome \<Rightarrow> bool" where
  "handled lib alive r \<longleftrightarrow> (\<exists>t. r = Some (Inr t) \<and> tasks_inv lib t \<and> (alive \<longrightarrow> lively t))"

lemma tasks_invI:
  assumes "cache_ok lib (stream_cache s)" "http_running (http s) \<longleftrightarrow> stream_running s"
    "http_live_stream (http s) \<longleftrightarrow> stream_running s" "map_inv s" "http_inv (http s)"
  shows "tasks_inv lib s"
  using assms by (simp add: tasks_inv_def)

lemma tasks_invD:
  assumes "tasks_inv lib s" "stream_running s"
  shows "cache_ok lib (stream_cache s)" "http_running (http s)" "http_live_stream (http s)" "map_inv s" "http_inv (http s)"
  using assms by (simp_all add: tasks_inv_def)

lemma stream_next_block:
  assumes "tasks_inv lib s" "stream_running s" "few_blocks s" "env_ok env" "d = HttpDownloader \<Longrightarrow> http_free s"
  shows "\<exists>n i. stream_RequestNextBlock env d s =
      Some (Inr (if pool_exhausted env (nth_id (playing_block env) n (stream_cache s)) then (False, s)
                 else (True, taken env (nth_id (playing_block env) n (stream_cache s), i) d s))) \<and>
    stops_at env d s (nth_id (playing_block env) n (stream_cache s)) \<and>
    (\<forall>j < n. \<not> stops_at env d s (nth_id (playing_block env) j (stream_cache s)))"
proof -
  note i = tasks_invD [OF assms(1,2)]
  have e: "\<not> connect_throws env" "playing_block env < 2 ^ 32" using assms(4) by (simp_all add: env_ok_def)
  have g: "and_then (give env b d s) (\<lambda>t. Inr (True, t)) = Inr (True, taken env b d s)" for b
    by (simp add: give_taken [OF i(4,5) e(1) assms(5)])
  show ?thesis
    using next_block_found [OF i(1,4,5) assms(3) e(2), of env d] assms(2)
    unfolding stream_RequestNextBlock_def g by (simp add: if_distrib [of Inr])
qed

lemma taken_ok:
  assumes "tasks_inv lib s" "stream_running s" "d = HttpDownloader \<Longrightarrow> http_free s" "fst b < 2 ^ 32"
  shows "tasks_inv lib (taken env b d s)"
  using tasks_invD [OF assms(1,2)] assms(2) taken_inv [OF tasks_invD(4,5) [OF assms(1,2)] assms(3,4)]
  by (intro tasks_invI) simp_all

lemma http_next_handled:
  assumes "tasks_inv lib s" "stream_running s" "few_blocks s" "env_ok env" "http_free s"
  shows "handled lib (left_capacity env = None) (http_RequestNextBlock env s)"
proof -
  note live = tasks_invD(3) [OF assms(1,2)]
  from stream_next_block [OF assms(1-4), of HttpDownloader] assms(5) obtain n i where
    r: "stream_RequestNextBlock env HttpDownloader s =
      Some (Inr (if pool_exhausted env (nth_id (playing_block env) n (stream_cache s)) then (False, s)
                 else (True, taken env (nth_id (playing_block env) n (stream_cache s), i) HttpDownloader s)))" by blast
  let ?b = "(nth_id (playing_block env) n (stream_cache s), i)"
  have "lively (taken env ?b HttpDownloader s)"
    by (simp add: lively_def taken_def added_def Let_def)
  with r live taken_ok [OF assms(1,2), of HttpDownloader ?b env] assms(1,5) nth_id_less show ?thesis
    by (auto simp: handled_def http_RequestNextBlock_def pool_exhausted_def)
qed

lemma client_open_session:
  assumes "client_calls_in S s"
  shows "http_client (http s) \<noteq> None" "http_state (http s) \<in> S"
  using assms by (auto simp: client_calls_in_def split: option.splits)

lemma SleepForConnect_ok:
  assumes "tasks_inv lib s" "stream_running s" "http_client (http s) \<noteq> None" "\<not> http_pausing (http s)"
  shows "handled lib True (Some (SleepForConnect env s))"
proof -
  note i = tasks_invD [OF assms(1,2)]
  let ?iv = "if rest_playable_time env > 2 * live_interval (stream_cache s) then live_interval (stream_cache s) * 1000 else 1000"
  let ?t = "upd_http (\<lambda>h. (close_client h)\<lparr>http_state := Sleeping, sleep_timer := True, sleep_interval := ?iv\<rparr>) s"
  have "SleepForConnect env s = Inr ?t"
    using assms(3) i(3) by (simp add: SleepForConnect_def client_Close_def upd_http_def close_client_def)
  moreover have "map_inv ?t" by (rule map_inv_cong [OF i(4)]) simp_all
  then have "tasks_inv lib ?t" using i(5) assms(2,4) i by (intro tasks_invI) (auto simp: http_inv_def in_session_def)
  ultimately show ?thesis by (auto simp: handled_def lively_def)
qed

lemma close_and_sleep_ok:
  assumes "tasks_inv lib s" "stream_running s" "http_client (http s) \<noteq> None" "\<not> http_pausing (http s)"
  shows "handled lib True (close_and_sleep env s)"
proof -
  note i = tasks_invD [OF assms(1,2)]
  let ?u = "upd_http (\<lambda>h. (close_client h)\<lparr>http_state := Closed\<rparr>) s"
  have u: "map_inv ?u" by (rule map_inv_cong [OF i(4)]) simp_all
  have "RemoveAllBlockTasks ?u = Some (Inr (cleared ?u))" using u i(3) by (intro RemoveAll_cleared) simp_all
  then have dc: "http_DoClose s = Some (Inr (cleared ?u))"
    using assms(3) by (simp add: http_DoClose_def client_Close_def upd_http_def)
  let ?iv = "if rest_playable_time env > 2 * live_interval (stream_cache s) then live_interval (stream_cache s) * 1000 else 1000"
  let ?t = "upd_http (\<lambda>h. (close_client h)\<lparr>http_state := Sleeping, sleep_timer := True, sleep_interval := ?iv\<rparr>) (cleared ?u)"
  have "SleepForConnect env (cleared ?u) = Inr ?t"
    using assms(3) i(3) by (simp add: SleepForConnect_def client_Close_def upd_http_def close_client_def)
  moreover have "map_inv ?t" by (rule map_inv_cong [OF cleared_inv [OF u]]) simp_all
  then have "tasks_inv lib ?t" using i assms(2,4) by (intro tasks_invI) (simp_all add: http_inv_def in_session_def)
  ultimately show ?thesis using dc by (auto simp: handled_def lively_def close_and_sleep_def)
qed

lemma few_blocks_cong:
  assumes "few_blocks s" "stream_cache t = stream_cache s" "length (requesting_map t) \<le> length (requesting_map s)"
  shows "few_blocks t"
  using assms by (simp add: few_blocks_def)

lemma OnComplete_next:
  assumes "tasks_inv lib s" "stream_running s" "few_blocks s" "in_session (http_state (http s))"
  obtains u where "http_OnComplete env s = http_RequestNextBlock env u" "tasks_inv lib u" "stream_running u" "few_blocks u"
    "http_free u" "stream_cache u = stream_cache s"
proof -
  note i = tasks_invD [OF assms(1,2)]
  from i(5) assms(4) obtain b where b: "http_tasks (http s) = [b]"
    by (cases "http_tasks (http s)") (auto simp: http_inv_def)
  let ?s1 = "upd_http (\<lambda>h. h\<lparr>http_state := Closed\<rparr>) s"
  let ?u = "dropped (fst b) ?s1"
  have m: "map_inv ?s1" by (rule map_inv_cong [OF i(4)]) simp_all
  have "RemoveBlockTask (fst b) ?s1 = Some (Inr ?u)" using remove_plain [OF m] by (simp add: RemoveBlockTask_def)
  then have eq: "http_OnComplete env s = http_RequestNextBlock env ?u"
    using i(2,3) b by (simp add: http_OnComplete_def Let_def)
  have np: "\<not> http_pausing (http s)" "\<not> sleep_timer (http s)" using i(5) assms(4) by (auto simp: http_inv_def in_session_def)
  have "tasks_inv lib ?u"
    using np i assms(2) b dropped_inv [OF m, of "fst b"] by (intro tasks_invI) (simp_all add: http_inv_def in_session_def)
  moreover have "few_blocks ?u" by (rule few_blocks_cong [OF assms(3)]) simp_all
  moreover have "http_free ?u" using np b i(2) by (simp add: http_free_def)
  ultimately show thesis using that [OF eq] assms(2) by simp
qed

lemma OnComplete_ok:
  assumes "tasks_inv lib s" "stream_running s" "few_blocks s" "env_ok env" "in_session (http_state (http s))"
  shows "handled lib (left_capacity env = None) (http_OnComplete env s)"
proof -
  obtain u where "http_OnComplete env s = http_RequestNextBlock env u" "tasks_inv lib u" "stream_running u" "few_blocks u"
    "http_free u" using OnComplete_next [OF assms(1-3,5)] by metis
  with http_next_handled [of lib u env] assms(4) show ?thesis by simp
qed

lemma http_next_cache:
  assumes "tasks_inv lib s" "stream_running s" "few_blocks s" "env_ok env" "http_free s"
    "http_RequestNextBlock env s = Some (Inr t)"
  shows "stream_cache t = stream_cache s"
proof -
  from stream_next_block [OF assms(1-4), of HttpDownloader] assms(5) obtain n i where
    r: "stream_RequestNextBlock env HttpDownloader s =
      Some (Inr (if pool_exhausted env (nth_id (playing_block env) n (stream_cache s)) then (False, s)
                 else (True, taken env (nth_id (playing_block env) n (stream_cache s), i) HttpDownloader s)))" by blast
  have "stream_cache (taken env b d s) = stream_cache s" for b d by (simp add: taken_def)
  with r assms(6) tasks_invD(3) [OF assms(1,2)] show ?thesis by (auto simp: http_RequestNextBlock_def split: if_splits)
qed

lemma RequestSubPiece_cache:
  assumes "tasks_inv lib s" "stream_running s" "few_blocks s" "env_ok env" "in_session (http_state (http s))"
    "http_RequestSubPiece env s = Some (Inr t)"
  shows "stream_cache t = stream_cache s"
proof -
  obtain u where u: "http_OnComplete env s = http_RequestNextBlock env u" "tasks_inv lib u" "stream_running u" "few_blocks u"
    "http_free u" "stream_cache u = stream_cache s" using OnComplete_next [OF assms(1-3,5)] by metis
  have "http_OnComplete env s = Some (Inr t) \<Longrightarrow> stream_cache t = stream_cache s"
    using http_next_cache [OF u(2-4) assms(4) u(5)] u(1,6) by simp
  with assms(6) show ?thesis
    by (auto simp: http_RequestSubPiece_def split: list.splits if_splits)
qed

lemma RequestSubPiece_ok:
  assumes "tasks_inv lib s" "stream_running s" "few_blocks s" "env_ok env" "in_session (http_state (http s))"
  shows "handled lib (left_capacity env = None) (http_RequestSubPiece env s)"
proof -
  note i = tasks_invD [OF assms(1,2)]
  from i(5) assms(5) obtain b where b: "http_tasks (http s) = [b]" "http_client (http s) \<noteq> None"
    by (cases "http_tasks (http s)") (auto simp: http_inv_def)
  have "lively s" using assms(5) by (auto simp: lively_def in_session_def)
  with OnComplete_ok [OF assms] b i(2,3) assms(1) show ?thesis
    by (auto simp: http_RequestSubPiece_def handled_def)
qed

lemma Resume_ok:
  assumes "tasks_inv lib s" "stream_running s" "few_blocks s" "env_ok env"
  shows "handled lib (left_capacity env = None \<and> lively s) (http_Resume env s)"
proof (cases "http_pausing (http s)")
  case True
  note i = tasks_invD [OF assms(1,2)]
  let ?s = "upd_http (\<lambda>h. h\<lparr>http_pausing := False, http_state := Closed\<rparr>) s"
  have "map_inv ?s" by (rule map_inv_cong [OF i(4)]) simp_all
  moreover have h: "http_tasks (http s) = []" "http_state (http s) = Closed" "\<not> sleep_timer (http s)"
    using i(5) True by (auto simp: http_inv_def)
  ultimately have "tasks_inv lib ?s" using i assms(2) by (intro tasks_invI) (simp_all add: http_inv_def in_session_def)
  moreover have "few_blocks ?s" by (rule few_blocks_cong [OF assms(3)]) simp_all
  moreover have "http_free ?s" using h i(2) by (simp add: http_free_def)
  ultimately have "handled lib (left_capacity env = None) (http_RequestNextBlock env ?s)"
    using http_next_handled [OF _ _ _ assms(4)] assms(2) by simp
  with True show ?thesis by (auto simp: http_Resume_def handled_def)
qed (use assms in \<open>simp add: http_Resume_def handled_def\<close>)

lemma Pause_ok:
  assumes "tasks_inv lib s" "stream_running s"
  shows "handled lib True (http_Pause s)"
proof -
  note i = tasks_invD [OF assms(1,2)]
  have "tasks_inv lib (paused s)" using paused_inv [OF i(4,5)] i assms(2) by (intro tasks_invI) simp_all
  with http_Pause_paused [OF i(4,5,3)] paused_inv(3) [OF i(4,5)] show ?thesis by (simp add: handled_def lively_def)
qed

lemma removed_ok:
  assumes "tasks_inv lib s" "stream_running s"
  shows "tasks_inv lib (removed k s)" "lively s \<Longrightarrow> lively (removed k s)"
proof -
  note i = tasks_invD [OF assms(1,2)]
  show "tasks_inv lib (removed k s)" using removed_inv [OF i(4,5)] i assms(2) by (intro tasks_invI) simp_all
  show "lively (removed k s)" if "lively s" using that by (simp add: lively_def removed_def)
qed

lemma RemoveBlockTasks_ok:
  assumes "tasks_inv lib s" "stream_running s" "lively s \<or> \<not> alive"
  shows "handled lib alive (RemoveBlockTasks ks s)"
  using assms
proof (induction ks arbitrary: s)
  case (Cons k ks)
  note r = removed_ok [OF Cons.prems(1,2), of k]
  have "RemoveBlockTask k s = Some (Inr (removed k s))"
    by (rule RemoveBlockTask_removed [OF tasks_invD(4,5) [OF Cons.prems(1,2)]])
  with Cons.IH [OF r(1)] Cons.prems r(2) show ?case by auto
qed (auto simp: handled_def)

definition fails_once_more :: "task_event \<Rightarrow> live_stream \<Rightarrow> bool" where
  "fails_once_more ev s \<longleftrightarrow> ev \<in> {ConnectFailed, ConnectTimeout} \<and> connect_failed_times (http s) \<ge> 20"

lemma roomy_few: "roomy s \<Longrightarrow> few_blocks s"
  by (simp add: roomy_def few_blocks_def)

lemma length_put_sorted: "length (put_sorted k v m) \<le> Suc (length m)"
  by (induction k v m rule: put_sorted.induct) auto

lemma data_stored:
  assumes "tasks_inv lib s" "stream_running s" "roomy s" "k < 2 ^ 32" "addable lib j buf (target k (stream_cache s))"
  obtains c r where "cache_AddSubPiece lib k j buf (stream_cache s) = Inr (r, c)"
    "\<forall>l. l \<noteq> k \<longrightarrow> node l c = node l (stream_cache s)"
    "tasks_inv lib (s\<lparr>stream_cache := c\<rparr>)" "few_blocks (s\<lparr>stream_cache := c\<rparr>)"
proof -
  note i = tasks_invD [OF assms(1,2)]
  from cache_AddSubPiece_ok [OF i(1) assms(4,5)] obtain b where b:
    "cache_AddSubPiece lib k j buf (stream_cache s) =
       Inr (\<not> HasSubPiece j (target k (stream_cache s)), set_node k b (EnsureBlockExists k (stream_cache s)))"
    "cache_ok lib (set_node k b (EnsureBlockExists k (stream_cache s)))"
    "\<forall>l. node l (set_node k b (EnsureBlockExists k (stream_cache s))) = (if l = k then Some b else node l (stream_cache s))"
    by blast
  let ?c = "set_node k b (EnsureBlockExists k (stream_cache s))"
  have "map_inv (s\<lparr>stream_cache := ?c\<rparr>)" by (rule map_inv_cong [OF i(4)]) simp_all
  then have t: "tasks_inv lib (s\<lparr>stream_cache := ?c\<rparr>)" using i b(2) assms(2) by (intro tasks_invI) simp_all
  have "length (block_nodes ?c) \<le> Suc (Suc (length (block_nodes (stream_cache s))))"
    using length_put_sorted [of k b] length_put_sorted [of k "live_block_new k (cache_rid (stream_cache s))"]
    by (simp add: EnsureBlockExists_def) (meson Suc_le_mono le_SucI order_trans)
  then have "few_blocks (s\<lparr>stream_cache := ?c\<rparr>)" using assms(3) by (simp add: roomy_def few_blocks_def)
  with that [OF b(1) _ t] b(3) show thesis by simp
qed

lemma stopped_ok:
  assumes "tasks_inv lib s" "\<not> stream_running s" "enabled lib ev s"
  shows "handled lib True (task_step lib env ev s)"
proof -
  have h: "\<not> http_running (http s)" "\<not> http_live_stream (http s)" using assms(1,2) by (simp_all add: tasks_inv_def)
  have ok: "handled lib True (Some (Inr t))"
    if "stream_cache t = stream_cache s" "stream_running t = stream_running s"
      "http_running (http t) = http_running (http s)" "http_live_stream (http t) = http_live_stream (http s)" for t
    using that assms(1,2) by (simp add: handled_def tasks_inv_def lively_def)
  note defs = http_Resume_def http_RequestNextBlock_def http_OnTimerElapsed_def http_OnConnectFailed_def http_OnConnectTimeout_def
    http_OnRecvHttpHeaderSucced_def http_OnRecvHttpHeaderFailed_def http_OnRecvHttpDataSucced_def http_OnError_def
    http_OnComplete_def Let_def
  show ?thesis
  proof (cases ev)
    case ConnectSucced
    then show ?thesis
      using client_open_session [of "{Connecting}" s] assms(3) by (auto simp: http_OnConnectSucced_def Let_def ok)
  next
    case (CacheChanged c)
    then show ?thesis using assms by (simp add: handled_def tasks_inv_def lively_def)
  qed (use assms h in \<open>simp_all add: defs ok\<close>)
qed

lemma step_ok:
  assumes "tasks_inv lib s" "roomy s" "env_ok env" "enabled lib ev s" "\<not> fails_once_more ev s"
  shows "handled lib (left_capacity env = None \<and> lively s) (task_step lib env ev s)"
proof (cases "stream_running s")
  case False
  then show ?thesis using stopped_ok [OF assms(1) False assms(4)] by (auto simp: handled_def)
next
  case run: True
  note i = tasks_invD [OF assms(1) run] and few = roomy_few [OF assms(2)]
  have weaken: "handled lib True r \<Longrightarrow> handled lib a r" "handled lib (left_capacity env = None) r \<Longrightarrow>
      handled lib (left_capacity env = None \<and> lively s) r" for r a
    by (auto simp: handled_def)
  have np: "\<not> http_pausing (http s)" "http_client (http s) \<noteq> None" "in_session (http_state (http s))" "\<not> sleep_timer (http s)"
    if "client_calls_in S s" "S \<subseteq> {Connecting, SendingRequestHead, RecvingResponseData}" for S
    using client_open_session [OF that(1)] that(2) i(5) by (auto simp: http_inv_def in_session_def)
  have local_ok: "handled lib a (Some (Inr (upd_http f s)))"
    if "http_tasks (f (http s)) = http_tasks (http s)" "http_inv (f (http s))" "http_running (f (http s))"
      "http_live_stream (f (http s))" "a \<longrightarrow> lively (upd_http f s)" for f a
  proof -
    have "map_inv (upd_http f s)" by (rule map_inv_cong [OF i(4)]) (simp_all add: that(1))
    with that i(1) run show ?thesis by (simp add: handled_def tasks_inv_def)
  qed
  have p2p_ok: "handled lib (lively s) (Some (Inr (set_p2p_pausing b s)))" for b
  proof -
    have "map_inv (set_p2p_pausing b s)" by (rule map_inv_cong [OF i(4)]) (simp_all add: set_p2p_pausing_def)
    with i run show ?thesis by (simp add: handled_def tasks_inv_def lively_def set_p2p_pausing_def)
  qed
  have fail: "handled lib True (Some (http_OnConnectFailed env s))" if "client_calls_in {Connecting} s" "connect_failed_times (http s) < 20"
  proof -
    note n = np [OF that(1)]
    let ?s = "upd_http (\<lambda>h. h\<lparr>connect_failed_times := connect_failed_times h + 1, http_state := Closed\<rparr>) s"
    have "map_inv ?s" by (rule map_inv_cong [OF i(4)]) simp_all
    then have "tasks_inv lib ?s" using i run n by (intro tasks_invI) (auto simp: http_inv_def in_session_def)
    with SleepForConnect_ok [of lib ?s env] run n that(2) i(2) show ?thesis by (simp add: http_OnConnectFailed_def Let_def)
  qed
  have err: "handled lib True (close_and_sleep env s)" if "client_calls_in S s" "S \<subseteq> {Connecting, SendingRequestHead, RecvingResponseData}" for S
    using close_and_sleep_ok [OF assms(1) run np(2,1) [OF that]] .
  show ?thesis
  proof (cases ev)
    case HttpPause
    with Pause_ok [OF assms(1) run] show ?thesis by (simp add: weaken(1))
  next
    case HttpResume
    with Resume_ok [OF assms(1) run few assms(3)] show ?thesis by simp
  next
    case PostedResume
    let ?s = "s\<lparr>posted_resumes := posted_resumes s - 1\<rparr>"
    have "map_inv ?s" by (rule map_inv_cong [OF i(4)]) simp_all
    then have "tasks_inv lib ?s" using i run by (intro tasks_invI) simp_all
    moreover have "few_blocks ?s" by (rule few_blocks_cong [OF few]) simp_all
    ultimately have "handled lib (left_capacity env = None \<and> lively ?s) (http_Resume env ?s)"
      using Resume_ok [OF _ _ _ assms(3)] run by simp
    with PostedResume show ?thesis by (simp add: lively_def)
  next
    case SleepTimer
    then have sl: "http_state (http s) = Sleeping" "\<not> http_pausing (http s)" using assms(4) i(5) by (auto simp: http_inv_def)
    let ?s = "upd_http (\<lambda>h. h\<lparr>sleep_timer := False, http_state := Closed\<rparr>) s"
    have m: "map_inv ?s" by (rule map_inv_cong [OF i(4)]) simp_all
    then have t: "tasks_inv lib ?s" using i run sl by (intro tasks_invI) (auto simp: http_inv_def in_session_def)
    have f: "few_blocks ?s" by (rule few_blocks_cong [OF few]) simp_all
    have e: "http_OnTimerElapsed env s = (if http_tasks (http ?s) \<noteq> [] then DoConnect env ?s else http_RequestNextBlock env ?s)"
      using sl i(2) by (simp add: http_OnTimerElapsed_def Let_def upd_http_def)
    show ?thesis
    proof (cases "http_tasks (http s) = []")
      case True
      have "http_free ?s" using True sl i(2) by (simp add: http_free_def)
      with http_next_handled [OF t _ f assms(3)] run e True SleepTimer show ?thesis by (simp add: weaken(2))
    next
      case False
      let ?t = "upd_http (\<lambda>h. h\<lparr>http_client := Some \<lparr>client_path = (http_rid h, fst (hd (http_tasks h))), client_open = True\<rparr>,
          sleep_timer := False, http_state := Connecting\<rparr>) s"
      have "DoConnect env ?s = Some (Inr ?t)"
        using False i(2) assms(3) by (simp add: DoConnect_def connect_front_def env_ok_def Let_def upd_http_def)
      moreover have "handled lib True (Some (Inr ?t))"
        by (rule local_ok) (use False i(2,3,5) sl in \<open>auto simp: http_inv_def in_session_def lively_def\<close>)
      ultimately show ?thesis using e False SleepTimer by (simp add: weaken(1))
    qed
  next
    case ConnectSucced
    then have c: "client_calls_in {Connecting} s" using assms(4) by simp
    let ?t = "upd_http (\<lambda>h. h\<lparr>connect_failed_times := 0, is_pms_status_good := True, http_state := SendingRequestHead\<rparr>) s"
    have "http_OnConnectSucced s = Inr ?t"
      using client_open_session [OF c] by (simp add: http_OnConnectSucced_def Let_def upd_http_def)
    moreover have "handled lib True (Some (Inr ?t))"
      by (rule local_ok) (use np [OF c] i(2,3,5) in \<open>auto simp: http_inv_def in_session_def lively_def\<close>)
    ultimately show ?thesis using ConnectSucced by (simp add: weaken(1))
  next
    case ConnectFailed
    with fail assms(4,5) show ?thesis by (simp add: weaken(1) fails_once_more_def)
  next
    case ConnectTimeout
    with fail assms(4,5) show ?thesis by (simp add: weaken(1) fails_once_more_def http_OnConnectTimeout_def)
  next
    case (HeaderSucced code)
    then have c: "client_calls_in {SendingRequestHead} s" using assms(4) by simp
    let ?u = "upd_http (\<lambda>h. h\<lparr>http_status_code := code\<rparr>) s"
      and ?v = "upd_http (\<lambda>h. h\<lparr>http_status_code := code, http_state := RecvingResponseData\<rparr>) s"
    have "map_inv ?u" "map_inv ?v" by (rule map_inv_cong [OF i(4)]; simp)+
    then have t: "tasks_inv lib ?u" "tasks_inv lib ?v"
      using i run np [OF c] by (auto intro!: tasks_invI simp: http_inv_def in_session_def)
    have f: "few_blocks ?v" by (rule few_blocks_cong [OF few]) simp_all
    have "handled lib (left_capacity env = None) (http_RequestSubPiece env ?v)"
      using RequestSubPiece_ok [OF t(2) _ f assms(3)] run by (simp add: in_session_def)
    moreover have "handled lib True (close_and_sleep env ?u)"
      using close_and_sleep_ok [OF t(1)] run np [OF c] by simp
    ultimately show ?thesis
      using HeaderSucced i(2)
      by (cases "code = 200 \<or> code = 206") (simp_all add: http_OnRecvHttpHeaderSucced_def Let_def upd_http_twice weaken)
  next
    case HeaderFailed
    then show ?thesis using err [of "{SendingRequestHead}"] assms(4) i(2) by (simp add: http_OnRecvHttpHeaderFailed_def weaken(1))
  next
    case (DataSucced buf off)
    then have c: "client_calls_in {RecvingResponseData} s" using assms(4) by simp
    have bne: "http_tasks (http s) \<noteq> []" using np(3) [OF c] i(5) by (auto simp: http_inv_def)
    then obtain b where b: "http_tasks (http s) = [b]"
      using i(5) by (cases "http_tasks (http s)") (auto simp: http_inv_def)
    have ad: "addable lib (received_index lib off) buf (target (fst b) (stream_cache s))" using assms(4) b DataSucced by simp
    have lt: "fst b < 2 ^ 32" using i(5) b by (simp add: http_inv_def)
    obtain c' r where d: "cache_AddSubPiece lib (fst b) (received_index lib off) buf (stream_cache s) = Inr (r, c')"
      "tasks_inv lib (s\<lparr>stream_cache := c'\<rparr>)" "few_blocks (s\<lparr>stream_cache := c'\<rparr>)"
      using data_stored [OF assms(1) run assms(2) lt ad] by metis
    from RequestSubPiece_ok [OF d(2) _ d(3) assms(3)] run np(3) [OF c]
    have "handled lib (left_capacity env = None) (http_RequestSubPiece env (s\<lparr>stream_cache := c'\<rparr>))" by simp
    with DataSucced b d(1) i(2,3) show ?thesis by (simp add: http_OnRecvHttpDataSucced_def weaken(2))
  next
    case DataFailed
    then show ?thesis using err [of "{RecvingResponseData}"] assms(4) i(2) by (simp add: http_OnError_def weaken(1))
  next
    case RecvTimeout
    then show ?thesis using err [of "{SendingRequestHead, RecvingResponseData}"] assms(4) i(2) by (simp add: http_OnError_def weaken(1))
  next
    case RequestComplete
    then show ?thesis using OnComplete_ok [OF assms(1) run few assms(3)] np(3) [of "{RecvingResponseData}"] assms(4) by (simp add: weaken(2))
  next
    case (RateChanged rid)
    show ?thesis
    proof (cases "http_pausing (http s)")
      case True
      then have "handled lib (lively s) (Some (Inr (upd_http (\<lambda>h. h\<lparr>http_rid := rid\<rparr>) s)))"
        by (intro local_ok) (use i(2,3,5) True in \<open>auto simp: http_inv_def in_session_def lively_def\<close>)
      with RateChanged True show ?thesis by (auto simp: http_OnDataRateChanged_def handled_def)
    next
      case False
      let ?s = "upd_http (\<lambda>h. h\<lparr>http_rid := rid\<rparr>) (paused s)"
      note pi = paused_inv [OF i(4,5)]
      have "map_inv ?s" by (rule map_inv_cong [OF pi(1)]) simp_all
      then have t: "tasks_inv lib ?s"
        using i run pi by (intro tasks_invI) (auto simp: http_inv_def in_session_def)
      have "few_blocks ?s" by (rule few_blocks_cong [OF few]) (simp_all add: paused_def)
      from Resume_ok [OF t _ this assms(3)] run have "handled lib (left_capacity env = None \<and> lively ?s) (http_Resume env ?s)" by simp
      moreover have "lively ?s" using pi(3) by (simp add: lively_def)
      ultimately show ?thesis
        using RateChanged False http_Pause_paused [OF i(4,5,3)] by (auto simp: http_OnDataRateChanged_def handled_def)
    qed
  next
    case P2PPause
    with p2p_ok show ?thesis by (auto simp: handled_def)
  next
    case P2PResume
    with p2p_ok show ?thesis by (auto simp: handled_def)
  next
    case P2PCheckComplete
    with RemoveBlockTasks_ok [OF assms(1) run, of "lively s"] show ?thesis by (auto simp: handled_def CheckBlockComplete_def)
  next
    case P2PRequest
    from stream_next_block [OF assms(1) run few assms(3), of P2PDownloader] obtain n j where
      r: "stream_RequestNextBlock env P2PDownloader s =
        Some (Inr (if pool_exhausted env (nth_id (playing_block env) n (stream_cache s)) then (False, s)
                   else (True, taken env (nth_id (playing_block env) n (stream_cache s), j) P2PDownloader s)))"
      by blast
    let ?b = "(nth_id (playing_block env) n (stream_cache s), j)"
    have "lively (taken env ?b P2PDownloader s)" if "lively s"
      using that removed_ok(2) [OF assms(1) run, of "fst ?b"] by (auto simp: lively_def taken_def added_def Let_def)
    with r taken_ok [OF assms(1) run, of P2PDownloader ?b env] nth_id_less assms(1) P2PRequest show ?thesis
      by (auto simp: handled_def)
  next
    case (CacheChanged c)
    have "map_inv (s\<lparr>stream_cache := c\<rparr>)" by (rule map_inv_cong [OF i(4)]) simp_all
    with CacheChanged assms(4) i run show ?thesis by (simp add: handled_def tasks_inv_def lively_def)
  next
    case StreamStop
    then show ?thesis using i(1) run by (simp add: handled_def tasks_inv_def lively_def stream_Stop_def http_Stop_def)
  qed
qed

lemma started_ok:
  assumes "cache_ok lib c" "stream_Start http_only (stream_new rid c) = Some (Inr s)"
  shows "tasks_inv lib s" "lively s" "stream_running s" "http_pausing (http s)" "has_p2p s = (\<not> http_only)"
proof -
  have s: "s = (stream_new rid c)\<lparr>http := (http_new rid)\<lparr>http_running := True\<rparr>, has_p2p := \<not> http_only, stream_running := True\<rparr>"
    using assms(2) by (simp add: stream_Start_def http_Pause_def http_Start_def upd_http_def stream_new_def http_new_def)
  show "tasks_inv lib s" using assms(1)
    by (simp add: s tasks_inv_def map_inv_def http_inv_def stream_new_def http_new_def holder_def http_ids_def p2p_ids_def in_session_def)
  show "lively s" "stream_running s" "http_pausing (http s)" "has_p2p s = (\<not> http_only)"
    by (simp_all add: s lively_def stream_new_def http_new_def)
qed

lemma failed_too_often:
  assumes "tasks_inv lib s" "stream_running s" "enabled lib ev s" "fails_once_more ev s"
  shows "task_step lib env ev s = Some (Inl AssertionFailed)"
  using assms tasks_invD(2) [OF assms(1,2)]
  by (auto simp: fails_once_more_def http_OnConnectTimeout_def http_OnConnectFailed_def Let_def)

lemma reachable_inv:
  assumes "task_reachable lib E s" "\<And>env. E env \<Longrightarrow> env_ok env"
  shows "tasks_inv lib s \<and> ((\<forall>env. E env \<longrightarrow> left_capacity env = None) \<longrightarrow> lively s)"
  using assms(1)
proof (induction rule: task_reachable.induct)
  case (started c http_only rid s)
  then show ?case using started_ok by blast
next
  case (happened s env ev t)
  have "handled lib (left_capacity env = None \<and> lively s) (task_step lib env ev s)"
  proof (cases "fails_once_more ev s \<and> stream_running s")
    case True
    with failed_too_often [of lib s ev env] happened show ?thesis by simp
  next
    case False
    show ?thesis
    proof (cases "stream_running s")
      case True
      with False show ?thesis using step_ok [OF _ happened(3) assms(2) [OF happened(2)] happened(4)] happened.IH by blast
    next
      case stopped: False
      show ?thesis using stopped_ok [OF _ stopped happened(4)] happened.IH by (auto simp: handled_def)
    qed
  qed
  with happened show ?case by (auto simp: handled_def)
qed

section \<open>Properties\<close>


text \<open>C10: What an HTTP response brings is stored under the block that was asked for: the open connection has the
  path of the task at the head of the list, and no other block changes.\<close>

theorem http_data_goes_to_its_block:
  assumes "task_reachable lib E s" "\<And>env. E env \<Longrightarrow> env_ok env" "E env" "roomy s" "enabled lib (DataSucced buf off) s"
    "stream_running s"
  shows "\<exists>t c added. http_client (http s) = Some c \<and> task_step lib env (DataSucced buf off) s = Some (Inr t) \<and>
    fst (client_path c) = http_rid (http s) \<and>
    cache_AddSubPiece lib (snd (client_path c)) (received_index lib off) buf (stream_cache s) = Inr (added, stream_cache t) \<and>
    (\<forall>k. k \<noteq> snd (client_path c) \<longrightarrow> node k (stream_cache t) = node k (stream_cache s))"
proof -
  have ti: "tasks_inv lib s" using reachable_inv [OF assms(1,2)] by blast
  note i = tasks_invD [OF ti assms(6)]
  have c: "client_calls_in {RecvingResponseData} s" using assms(5) by simp
  then have se: "in_session (http_state (http s))" using client_open_session(2) [OF c] by (simp add: in_session_def)
  then obtain b where b: "http_tasks (http s) = [b]"
    "http_client (http s) = Some \<lparr>client_path = (http_rid (http s), fst b), client_open = True\<rparr>"
    using i(5) by (cases "http_tasks (http s)") (auto simp: http_inv_def)
  have lt: "fst b < 2 ^ 32" using i(5) b by (simp add: http_inv_def)
  have ad: "addable lib (received_index lib off) buf (target (fst b) (stream_cache s))" using assms(5) b by simp
  obtain c' r where c': "cache_AddSubPiece lib (fst b) (received_index lib off) buf (stream_cache s) = Inr (r, c')"
    "\<forall>k. k \<noteq> fst b \<longrightarrow> node k c' = node k (stream_cache s)"
    "tasks_inv lib (s\<lparr>stream_cache := c'\<rparr>)" "few_blocks (s\<lparr>stream_cache := c'\<rparr>)"
    using data_stored [OF ti assms(6,4) lt ad] by metis
  have "\<not> fails_once_more (DataSucced buf off) s" by (simp add: fails_once_more_def)
  then obtain t where t: "task_step lib env (DataSucced buf off) s = Some (Inr t)"
    using step_ok [OF ti assms(4) assms(2) [OF assms(3)] assms(5)] by (auto simp: handled_def)
  have "http_RequestSubPiece env (s\<lparr>stream_cache := c'\<rparr>) = Some (Inr t)"
    using t b i(2,3) c'(1) by (simp add: http_OnRecvHttpDataSucced_def)
  then have "stream_cache t = c'"
    using RequestSubPiece_cache [OF c'(3) _ c'(4) assms(2) [OF assms(3)], of t] assms(6) se by simp
  with t b c' show ?thesis by auto
qed

text \<open>C11: When blocks are not refused for want of memory, an HTTP downloader that is not paused is never idle: it
  is asking for a block that is its task, or its timer runs.\<close>

theorem http_never_idles:
  assumes "task_reachable lib E s" "\<And>env. E env \<Longrightarrow> env_ok env \<and> left_capacity env = None"
    "stream_running s" "\<not> http_pausing (http s)"
  shows "(\<exists>k i c. http_tasks (http s) = [(k, i)] \<and> http_client (http s) = Some c \<and> client_open c \<and> snd (client_path c) = k) \<or>
    http_state (http s) = Sleeping \<and> sleep_timer (http s)"
proof -
  have r: "tasks_inv lib s" "lively s" using reachable_inv [OF assms(1)] assms(2) by blast+
  then have h: "http_inv (http s)" using assms(3) by (simp add: tasks_inv_def)
  have "in_session (http_state (http s)) \<or> http_state (http s) = Sleeping"
    using r(2) assms(3,4) by (cases "http_state (http s)") (auto simp: lively_def in_session_def)
  then show ?thesis
  proof
    assume "in_session (http_state (http s))"
    with h have "length (http_tasks (http s)) = 1" "http_client (http s) =
        Some \<lparr>client_path = (http_rid (http s), fst (hd (http_tasks (http s)))), client_open = True\<rparr>"
      by (cases "http_tasks (http s)", auto simp: http_inv_def)+
    then show ?thesis by (auto simp: length_Suc_conv)
  qed (use h in \<open>simp add: http_inv_def\<close>)
qed


lemma next_not_pausing:
  assumes "tasks_inv lib s" "stream_running s" "few_blocks s" "env_ok env" "http_free s"
  shows "\<exists>t. http_RequestNextBlock env s = Some (Inr t) \<and> \<not> http_pausing (http t)"
proof -
  from stream_next_block [OF assms(1-4), of HttpDownloader] assms(5) obtain k b where
    r: "stream_RequestNextBlock env HttpDownloader s =
      Some (Inr (if pool_exhausted env k then (False, s) else (True, taken env b HttpDownloader s)))" by blast
  have "http_free (removed (fst b) s)"
    using removed_free [OF _ assms(5) tasks_invD(4) [OF assms(1,2)]] by simp
  then have "\<not> http_pausing (http (taken env b HttpDownloader s))"
    using assms(5) by (simp add: taken_def added_def http_free_def Let_def)
  with r assms(5) tasks_invD(3) [OF assms(1,2)] show ?thesis
    by (simp add: http_RequestNextBlock_def http_free_def)
qed

lemma resumed_free:
  assumes "tasks_inv lib s" "stream_running s" "http_pausing (http s)" "few_blocks s"
  defines "u \<equiv> upd_http (\<lambda>h. h\<lparr>http_pausing := False, http_state := Closed\<rparr>) s"
  shows "tasks_inv lib u" "http_free u" "few_blocks u" "stream_running u"
    "http_Resume env s = http_RequestNextBlock env u"
proof -
  note i = tasks_invD [OF assms(1,2)]
  have m: "map_inv u" unfolding u_def by (rule map_inv_cong [OF i(4)]) simp_all
  have h: "http_tasks (http s) = []" "http_state (http s) = Closed" "\<not> sleep_timer (http s)"
    using i(5) assms(3) by (auto simp: http_inv_def)
  show "tasks_inv lib u" using i assms(2) m h by (intro tasks_invI) (simp_all add: u_def http_inv_def in_session_def)
  show "http_free u" using h i(2) by (simp add: u_def http_free_def)
  show "few_blocks u" unfolding u_def by (rule few_blocks_cong [OF assms(4)]) simp_all
  show "stream_running u" "http_Resume env s = http_RequestNextBlock env u"
    using assms(2,3) by (simp_all add: u_def http_Resume_def)
qed

text \<open>C39: When the P2P downloader takes over a block that HTTP is downloading, HTTP pauses and posts its own
  resumption.  A pause that the switch controller orders before the posted call runs has no effect, since HTTP is
  pausing already, and the posted call resumes HTTP all the same: it runs although it was told to pause.\<close>

theorem posted_resume_overrides_pause:
  assumes "task_reachable lib E s" "\<And>env. E env \<Longrightarrow> env_ok env" "E env" "roomy s" "stream_running s"
    "in_session (http_state (http s))" "holder s k = Some HttpDownloader"
    "task_step lib env P2PRequest s = Some (Inr t)" "holder t k = Some P2PDownloader"
  shows "task_step lib env HttpPause t = Some (Inr t) \<and> enabled lib PostedResume t \<and>
    (\<exists>u. task_step lib env PostedResume t = Some (Inr u) \<and> \<not> http_pausing (http u))"
proof -
  have ti: "tasks_inv lib s" using reachable_inv [OF assms(1,2)] by blast
  note i = tasks_invD [OF ti assms(5)]
  from stream_next_block [OF ti assms(5) roomy_few [OF assms(4)] assms(2) [OF assms(3)], of P2PDownloader] obtain n m where
    r: "stream_RequestNextBlock env P2PDownloader s =
      Some (Inr (if pool_exhausted env (nth_id (playing_block env) n (stream_cache s)) then (False, s)
                 else (True, taken env (nth_id (playing_block env) n (stream_cache s), m) P2PDownloader s)))" by blast
  let ?b = "(nth_id (playing_block env) n (stream_cache s), m)"
  have "t = (if pool_exhausted env (fst ?b) then s else taken env ?b P2PDownloader s)" using assms(8) r by (auto split: if_splits)
  with assms(7,9) have t: "t = taken env ?b P2PDownloader s" by (auto split: if_splits)
  have b: "fst ?b < 2 ^ 32" using nth_id_less by simp
  have k: "fst ?b = k" using assms(7,9) taken_inv(8) [OF i(4,5) _ b, of P2PDownloader env k] by (auto simp: t split: if_splits)
  have np: "\<not> http_pausing (http s)" using i(5) assms(6) by (auto simp: http_inv_def in_session_def)
  have int: "interrupts k s" using assms(6,7) np by (auto simp: interrupts_def in_session_def)
  have rq: "IsRequesting k s" using assms(7) by (auto simp: IsRequesting_def holder_def)
  have p: "http_pausing (http t)" "posted_resumes t = posted_resumes s + 1" "stream_running t"
    using k int rq assms(5) by (simp_all add: t taken_def added_def removed_def Let_def)
  have ok: "tasks_inv lib t" unfolding t by (rule taken_ok [OF ti assms(5) _ b]) simp
  have "length (requesting_map t) \<le> Suc (length (filter (\<lambda>e. fst e \<noteq> k) (requesting_map s)))"
    using length_put_sorted [of k "new_task env ?b P2PDownloader" "requesting_map (removed k s)"] rq k by (simp add: t taken_def)
  then have "length (requesting_map t) \<le> Suc (length (requesting_map s))" by (meson Suc_le_mono length_filter_le order_trans)
  moreover have "stream_cache t = stream_cache s" by (simp add: t taken_def)
  ultimately have few: "few_blocks t" using assms(4) by (simp add: few_blocks_def roomy_def)
  let ?t = "t\<lparr>posted_resumes := posted_resumes t - 1\<rparr>"
  have "map_inv ?t" by (rule map_inv_cong [OF tasks_invD(4) [OF ok p(3)]]) simp_all
  then have "tasks_inv lib ?t" using tasks_invD [OF ok p(3)] p(3) by (intro tasks_invI) simp_all
  moreover have "few_blocks ?t" by (rule few_blocks_cong [OF few]) simp_all
  ultimately have "\<exists>u. http_Resume env ?t = Some (Inr u) \<and> \<not> http_pausing (http u)"
    using resumed_free(1-4) [of lib ?t] resumed_free(5) [of lib ?t env] next_not_pausing [OF _ _ _ assms(2) [OF assms(3)]] p by simp
  then show ?thesis using p by (simp add: http_Pause_def)
qed

text \<open>C40: A connection that fails before \<^verbatim>\<open>Connect\<close> returns (no socket, or an address without a host) puts the
  downloader to sleep, and \<^verbatim>\<open>DoConnect\<close> then sets its state to connecting; when the timer of the sleep elapses, the
  assertion that the downloader sleeps fails.\<close>

theorem connect_failing_at_once_asserts:
  assumes "task_reachable lib E s" "\<And>env. E env \<Longrightarrow> env_ok env" "roomy s" "stream_running s" "http_pausing (http s)"
    "connect_failed_times (http s) < 20" "connect_throws env" "left_capacity env = None" "playing_block env < 2 ^ 32"
  shows "\<exists>t. task_step lib env HttpResume s = Some (Inr t) \<and> enabled lib SleepTimer t \<and>
    task_step lib later SleepTimer t = Some (Inl AssertionFailed)"
proof -
  have ti: "tasks_inv lib s" using reachable_inv [OF assms(1,2)] by blast
  note f = resumed_free [OF ti assms(4,5) roomy_few [OF assms(3)]]
  let ?u = "upd_http (\<lambda>h. h\<lparr>http_pausing := False, http_state := Closed\<rparr>) s"
  note i = tasks_invD [OF f(1,4)]
  from next_block_found [OF i(1,4,5) f(3) assms(9), of env HttpDownloader] assms(8) obtain k j where
    n: "next_block_loop env HttpDownloader (playing_block env) ?u =
      Some (and_then (give env (k, j) HttpDownloader ?u) (\<lambda>t. Inr (True, t)))" by (auto simp: pool_exhausted_def)
  let ?v = "if IsRequesting k ?u then removed k ?u else ?u"
  have v: "http_free ?v" using f(2) removed_free [OF _ f(2) i(4)] by simp
  moreover have "http_live_stream (http ?v)" using i(3) by simp
  moreover have "connect_failed_times (http ?v) < 20" using assms(6) by (simp add: removed_def)
  ultimately have "\<exists>t. AddBlockTask env (k, j) HttpDownloader ?v = Inr t \<and> sleep_timer (http t) \<and> http_state (http t) = Connecting \<and>
      http_running (http t) \<and> \<not> http_pausing (http t)"
    using assms(7)
    by (simp add: AddBlockTask_def http_PutBlockTask_def connect_front_def http_OnConnectFailed_def SleepForConnect_def
        client_Close_def http_free_def Let_def del: if_split)
  then obtain t where t: "give env (k, j) HttpDownloader ?u = Inr t" "sleep_timer (http t)" "http_state (http t) = Connecting"
    "http_running (http t)" "\<not> http_pausing (http t)" unfolding give_def fst_conv by blast
  have "http_Resume env s = Some (Inr t)"
    using f(4) f(5) [of env] n t(1) i(3) by (simp add: http_RequestNextBlock_def stream_RequestNextBlock_def)
  then show ?thesis using t by (simp add: http_OnTimerElapsed_def Let_def)
qed

text \<open>An HTTP downloader that is refused a block for want of memory stays idle until it is paused and resumed.\<close>

lemma refused_http_stays_idle:
  assumes "tasks_inv lib s" "stream_running s" "few_blocks s" "http_free s" "env_ok env"
    "http_RequestNextBlock env s = Some (Inr t)" "http_tasks (http t) = []"
  shows "t = s" "http_Resume later t = Some (Inr t)"
    "\<not> sleep_timer (http t)" "\<not> client_calls_in {Connecting, SendingRequestHead, RecvingResponseData} t"
proof -
  from stream_next_block [OF assms(1-3,5), of HttpDownloader] assms(4) obtain k b where
    r: "stream_RequestNextBlock env HttpDownloader s =
      Some (Inr (if pool_exhausted env k then (False, s) else (True, taken env b HttpDownloader s)))" by blast
  have "http_tasks (http (taken env b HttpDownloader s)) \<noteq> []" by (simp add: taken_def added_def Let_def)
  with r assms(6,7) tasks_invD(3) [OF assms(1,2)] show t: "t = s"
    by (auto simp: http_RequestNextBlock_def split: if_splits)
  show "http_Resume later t = Some (Inr t)" "\<not> sleep_timer (http t)"
    "\<not> client_calls_in {Connecting, SendingRequestHead, RecvingResponseData} t"
    using assms(4) tasks_invD(5) [OF assms(1,2)] by (auto simp: t http_free_def http_Resume_def http_inv_def client_calls_in_def)
qed

section \<open>Witnesses\<close>

definition sample_stream :: live_stream where
  "sample_stream = (stream_new sample_rid sample_cache)
     \<lparr>http := (http_new sample_rid)\<lparr>http_running := True\<rparr>, has_p2p := True, stream_running := True\<rparr>"

definition sample_env :: "moment \<Rightarrow> bool \<Rightarrow> task_env" where
  "sample_env n throws = \<lparr>task_clock = plain_clock, now = n, playing_block = 10, rest_playable_time = 0, left_capacity = None,
     connect_throws = throws\<rparr>"

definition sample_E :: "task_env \<Rightarrow> bool" where
  "sample_E env \<longleftrightarrow> env_ok env \<and> left_capacity env = None"

definition sample_requested :: live_stream where
  "sample_requested = taken (sample_env 0 False) (10, 0) HttpDownloader
     (upd_http (\<lambda>h. h\<lparr>http_pausing := False, http_state := Closed\<rparr>) sample_stream)"

definition sample_receiving :: live_stream where
  "sample_receiving = upd_http (\<lambda>h. h\<lparr>connect_failed_times := 0, is_pms_status_good := True, http_status_code := 200,
     http_state := RecvingResponseData\<rparr>) sample_requested"

lemma sample_E_ok: "sample_E env \<Longrightarrow> env_ok env" "sample_E (sample_env n False)"
  by (simp_all add: sample_E_def sample_env_def env_ok_def)

lemma sample_started: "task_reachable sample_lib sample_E sample_stream"
  by (rule started [OF sample_cache_ok, of False sample_rid])
    (simp add: stream_Start_def http_Pause_def http_Start_def upd_http_def stream_new_def http_new_def sample_stream_def)

lemma sample_next: "node 10 sample_cache = None" "cache_GetNextMissingSubPiece sample_cache 10 = Some (Inr (10, 0))"
  by (simp_all add: node_def sample_cache_def cache_GetNextMissingSubPiece.simps)

lemma sample_simps:
  "stream_running sample_stream" "http_pausing (http sample_stream)" "roomy sample_stream" "stream_cache sample_stream = sample_cache"
  "has_p2p sample_stream" "requesting_map sample_stream = []" "connect_failed_times (http sample_stream) = 0"
  by (simp_all add: sample_stream_def stream_new_def http_new_def roomy_def sample_cache_def)

lemma sample_resumed: "task_step sample_lib (sample_env 0 False) HttpResume sample_stream = Some (Inr sample_requested)"
  using sample_next
  by (simp add: sample_requested_def http_Resume_def http_RequestNextBlock_def stream_RequestNextBlock_def next_block_loop.simps
      taken_def added_def AddBlockTask_def http_PutBlockTask_def connect_front_def new_task_def pool_exhausted_def sample_env_def
      sample_stream_def stream_new_def http_new_def IsRequesting_def Let_def upd_http_def)

lemma sample_requested_simps:
  "stream_running sample_requested" "http_tasks (http sample_requested) = [(10, 0)]" "http_state (http sample_requested) = Connecting"
  "http_client (http sample_requested) = Some \<lparr>client_path = (sample_rid, 10), client_open = True\<rparr>" "roomy sample_requested"
  "\<not> http_pausing (http sample_requested)" "stream_cache sample_requested = sample_cache" "has_p2p sample_requested"
  "http_running (http sample_requested)" "http_live_stream (http sample_requested)" "connect_failed_times (http sample_requested) = 0"
  "requesting_map sample_requested = [(10, new_task (sample_env 0 False) (10, 0) HttpDownloader)]"
  by (simp_all add: sample_requested_def taken_def added_def sample_stream_def stream_new_def http_new_def roomy_def sample_cache_def
      IsRequesting_def Let_def)

lemma sample_requested_reachable: "task_reachable sample_lib sample_E sample_requested"
  by (rule happened [OF sample_started sample_E_ok(2) sample_simps(3) _ sample_resumed]) (simp add: sample_simps)


theorem http_data_goes_to_its_block_witness:
  "\<exists>t added. task_step sample_lib (sample_env 0 False) (DataSucced [10, 20, 30] 1400) sample_receiving = Some (Inr t) \<and>
     cache_AddSubPiece sample_lib 10 1 [10, 20, 30] sample_cache = Inr (added, stream_cache t)"
proof -
  let ?a = "upd_http (\<lambda>h. h\<lparr>connect_failed_times := 0, is_pms_status_good := True, http_state := SendingRequestHead\<rparr>) sample_requested"
  have a: "task_step sample_lib (sample_env 0 False) ConnectSucced sample_requested = Some (Inr ?a)"
    by (simp add: http_OnConnectSucced_def Let_def sample_requested_simps upd_http_twice)
  have ra: "task_reachable sample_lib sample_E ?a"
    by (rule happened [OF sample_requested_reachable sample_E_ok(2) sample_requested_simps(5) _ a])
      (simp add: client_calls_in_def sample_requested_simps)
  have b: "task_step sample_lib (sample_env 0 False) (HeaderSucced 200) ?a = Some (Inr sample_receiving)"
    using sample_next
    by (simp add: http_OnRecvHttpHeaderSucced_def http_RequestSubPiece_def Let_def sample_requested_simps upd_http_twice
        sample_receiving_def HasCompleteBlock_def)
  have "roomy ?a" using sample_requested_simps(5) by (simp add: roomy_def)
  then have rb: "task_reachable sample_lib sample_E sample_receiving"
    by (rule happened [OF ra sample_E_ok(2) _ _ b]) (simp add: client_calls_in_def sample_requested_simps)
  have i: "received_index sample_lib 1400 = 1" using sample_lib_ok by (simp add: received_index_def lib_ok_def)
  have "addable sample_lib 1 [10, 20, 30] (target 10 sample_cache)"
    using sample_next by (simp add: addable_def target_def live_block_new_def)
  then have en: "enabled sample_lib (DataSucced [10, 20, 30] 1400) sample_receiving"
    by (simp add: client_calls_in_def sample_receiving_def sample_requested_simps i)
  have ro: "roomy sample_receiving" "stream_running sample_receiving"
    using sample_requested_simps(5) by (simp_all add: roomy_def sample_receiving_def sample_requested_simps)
  from http_data_goes_to_its_block [OF rb sample_E_ok(1) sample_E_ok(2) [of 0] ro(1) en ro(2)] show ?thesis
    by (auto simp: sample_receiving_def sample_requested_simps i)
qed

theorem http_never_idles_witness:
  "\<exists>k i c. http_tasks (http sample_requested) = [(k, i)] \<and> http_client (http sample_requested) = Some c \<and> client_open c"
  using http_never_idles [OF sample_requested_reachable _ sample_requested_simps(1,6)] sample_requested_simps(3)
  by (auto simp: sample_E_def)


theorem posted_resume_overrides_pause_witness:
  "\<exists>t u. task_step sample_lib (sample_env 9000 False) P2PRequest sample_requested = Some (Inr t) \<and>
     task_step sample_lib (sample_env 9000 False) HttpPause t = Some (Inr t) \<and>
     task_step sample_lib (sample_env 9000 False) PostedResume t = Some (Inr u) \<and> \<not> http_pausing (http u)"
proof -
  have ti: "tasks_inv sample_lib sample_requested" using reachable_inv [OF sample_requested_reachable sample_E_ok(1)] by blast
  note i = tasks_invD [OF ti sample_requested_simps(1)]
  have "stops_at (sample_env 9000 False) P2PDownloader sample_requested 10"
    using sample_next(1)
    by (simp add: stops_at_def HasCompleteBlock_def sample_requested_simps may_take_def manager_IsTimeout_def task_IsTimeout_def
        new_task_def) (simp add: sample_env_def plain_clock_def)
  then have "next_block_loop (sample_env 9000 False) P2PDownloader 10 sample_requested =
      Some (Inr (True, taken (sample_env 9000 False) (10, 0) P2PDownloader sample_requested))"
    using at_stop [OF i(4,5), of 10 10 0 "sample_env 9000 False" P2PDownloader] sample_next(2)
      give_taken [OF i(4,5), of "sample_env 9000 False" P2PDownloader "(10, 0)"]
    by (simp add: sample_requested_simps pool_exhausted_def) (simp add: sample_env_def)
  then have st: "task_step sample_lib (sample_env 9000 False) P2PRequest sample_requested =
      Some (Inr (taken (sample_env 9000 False) (10, 0) P2PDownloader sample_requested))"
    by (simp add: stream_RequestNextBlock_def sample_requested_simps) (simp add: sample_env_def)
  have h: "holder sample_requested 10 = Some HttpDownloader" by (simp add: holder_def sample_requested_simps new_task_def)
  have "holder (taken (sample_env 9000 False) (10, 0) P2PDownloader sample_requested) 10 = Some P2PDownloader"
    using taken_inv(8) [OF i(4,5), of P2PDownloader "(10, 0)"] by simp
  from posted_resume_overrides_pause [OF sample_requested_reachable sample_E_ok(1) sample_E_ok(2) sample_requested_simps(5,1) _ h st this]
    st show ?thesis by (auto simp: in_session_def sample_requested_simps)
qed

theorem connect_failing_at_once_asserts_witness:
  "\<exists>t. task_step sample_lib (sample_env 0 True) HttpResume sample_stream = Some (Inr t) \<and>
     task_step sample_lib (sample_env 1000 False) SleepTimer t = Some (Inl AssertionFailed)"
  using connect_failing_at_once_asserts [OF sample_started sample_E_ok(1) sample_simps(3,1,2), of "sample_env 0 True" "sample_env 1000 False"]
    sample_simps(7) by (simp add: sample_env_def) blast

end
