(* ===== verification/LivePeers.thy ===== *)
theory LivePeers
  imports LiveAnnounce LiveTime "HOL-Library.Multiset"
begin

text \<open>
  What is asked of which peer of a live channel: \<^verbatim>\<open>p2sp::LivePeerConnection\<close> (\<^verbatim>\<open>p2sp/p2p/LivePeerConnection.h/.cpp\<close>),
  \<^verbatim>\<open>LiveSubPieceRequestManager\<close>, \<^verbatim>\<open>LiveSubPieceCountManager\<close>, \<^verbatim>\<open>LiveConnectionManger\<close> and the way a packet takes through
  \<^verbatim>\<open>LiveP2PDownloader::OnUdpRecv\<close> (\<^verbatim>\<open>LiveP2PDownloader.cpp\<close>).

  \<^item> Connections are shared by pointers: \<open>peers\<close> is the store of connections, a pointer a place in it, \<open>connected\<close> the map
    \<^verbatim>\<open>peers_\<close> from endpoints to pointers.  A request keeps the pointer of its connection, also after the connection has
    been stopped.
  \<^item> An endpoint is a number, in the order of endpoints.  The order of \<^verbatim>\<open>LiveSubPieceInfo\<close> and the transaction ids that
    \<^verbatim>\<open>Packet::NewTransactionID\<close> returns one after the other are parameters.
  \<^item> \<^verbatim>\<open>requesting_count_\<close> and the window are \<open>int\<close>; they stay small, as \<open>requests_within_window\<close> shows.
  \<^item> What a call reads from outside is the record \<open>p2p_env\<close>; the speeds of a connection are those of its statistics.
    Counters that only the reports and the shared memory show are left out.
  \<^item> Packets that are sent are recorded in \<open>sent_packets\<close>.
\<close>

section \<open>State\<close>

type_synonym endpoint = nat
type_synonym live_subpiece = "nat \<times> nat"

record p2p_lib =
  subpiece_less :: "live_subpiece \<Rightarrow> live_subpiece \<Rightarrow> bool"
  transaction_id :: "nat \<Rightarrow> nat"

record p2p_env =
  p2p_clock :: clock
  p2p_now :: moment
  tick_milliseconds :: nat
  playing_block_id :: nat
  rest_seconds :: nat
  upload_limit :: int
  upload_bandwidth :: int
  enhanced_announce_threshold :: nat
  enhanced_announce_copies :: nat
  udpserver_announce_interval :: nat
  lost_prejudge :: bool
  now_speed :: "nat \<Rightarrow> nat"
  minute_speed :: "nat \<Rightarrow> nat"

record peer_config =
  minimum_window :: nat
  maximum_window :: nat
  udpserver_maximum_window :: nat
  udpserver_maximum_requests :: nat

datatype connect_type = ConnectLivePeer | ConnectLiveUdpServer

record live_peer =
  peer_end_point :: endpoint
  peer_connect_type :: connect_type
  peer_config :: peer_config
  peer_running :: bool
  task_set :: "live_subpiece list"
  block_bitmap :: "(nat \<times> bool list) list"
  window_size :: int
  requesting_count :: int
  rtt_max :: nat
  rtt_avg :: nat
  avg_delta_time :: nat
  recv_subpiece_time :: moment
  no_response_time :: nat
  receive_announce_time :: moment
  connect_time :: moment
  bitmap_empty_tick :: nat
  last_received_packet :: nat
  reverse_order_count :: nat
  total_received_count :: nat
  request_map :: "(nat \<times> live_subpiece) list"
  announce_requests :: nat
  announce_responses :: nat
  accumulative_requested :: nat
  received_count :: nat
  max_download_speed :: nat

record request_task =
  request_timeout :: nat
  request_peer :: nat
  request_time :: moment
  request_transaction :: nat

datatype p2p_packet =
    RequestAnnounce (packet_transaction: nat) (packet_block: nat) (packet_bandwidth: int) (packet_end_point: endpoint)
  | RequestSubPiece (packet_transaction: nat) (packet_subpieces: "live_subpiece list") (packet_end_point: endpoint)

record live_session =
  peers :: "live_peer list"
  connected :: "(endpoint \<times> nat) list"
  udpserver_count :: nat
  request_tasks :: "(live_subpiece \<times> request_task) list"
  subpiece_count_map :: "(nat \<times> nat) list"
  session_cache :: live_cache
  transactions :: nat
  sent_packets :: "p2p_packet list"

definition peer :: "live_session \<Rightarrow> nat \<Rightarrow> live_peer" where
  "peer s p = peers s ! p"

definition upd_peer :: "nat \<Rightarrow> (live_peer \<Rightarrow> live_peer) \<Rightarrow> live_session \<Rightarrow> live_session" where
  "upd_peer p f s = s\<lparr>peers := (peers s)[p := f (peers s ! p)]\<rparr>"

definition IsUdpServer :: "live_peer \<Rightarrow> bool" where
  "IsUdpServer pr = (peer_connect_type pr = ConnectLiveUdpServer)"

text \<open>The macro \<^verbatim>\<open>LIMIT_MIN_MAX\<close> of \<^verbatim>\<open>macro.h\<close>, on a value and on a member.\<close>

definition limit_min_max :: "'n::linorder \<Rightarrow> 'n \<Rightarrow> 'n \<Rightarrow> 'n result" where
  "limit_min_max v lo hi =
     (let v1 = (if v > hi then hi else v);
          v2 = (if v1 < lo then lo else v1)
      in if v2 \<ge> lo \<and> v2 \<le> hi then Inr v2 else Inl AssertionFailed)"

section \<open>The maps\<close>

text \<open>\<^verbatim>\<open>std::set\<close> and \<^verbatim>\<open>std::multimap\<close> over subpieces: an entry of a multimap is inserted after those of the same key.\<close>

fun insert_before :: "('k \<Rightarrow> 'k \<Rightarrow> bool) \<Rightarrow> 'k \<Rightarrow> 'k list \<Rightarrow> 'k list" where
  "insert_before lt x [] = [x]"
| "insert_before lt x (y # ys) = (if lt x y then x # y # ys else y # insert_before lt x ys)"

definition set_insert :: "('k \<Rightarrow> 'k \<Rightarrow> bool) \<Rightarrow> 'k \<Rightarrow> 'k list \<Rightarrow> 'k list" where
  "set_insert lt x xs = (if x \<in> set xs then xs else insert_before lt x xs)"

fun multi_insert :: "('k \<Rightarrow> 'k \<Rightarrow> bool) \<Rightarrow> 'k \<Rightarrow> 'v \<Rightarrow> ('k \<times> 'v) list \<Rightarrow> ('k \<times> 'v) list" where
  "multi_insert lt k v [] = [(k, v)]"
| "multi_insert lt k v (e # m) = (if lt k (fst e) then (k, v) # e # m else e # multi_insert lt k v m)"

section \<open>The numbers of subpieces\<close>

fun insert_counts :: "nat \<Rightarrow> nat \<Rightarrow> nat list \<Rightarrow> (nat \<times> nat) list \<Rightarrow> (nat \<times> nat) list" where
  "insert_counts interval k [] m = m"
| "insert_counts interval k (n # ns) m = insert_counts interval ((k + interval) mod 2 ^ 32) ns (map_insert k n m)"

definition SetSubPieceCountMap :: "nat \<Rightarrow> nat list \<Rightarrow> live_session \<Rightarrow> live_session" where
  "SetSubPieceCountMap k ns s =
     s\<lparr>subpiece_count_map := insert_counts (live_interval (session_cache s)) k ns (subpiece_count_map s)\<rparr>"

definition EliminateElapsedSubPieceCountMap :: "nat \<Rightarrow> live_session \<Rightarrow> live_session" where
  "EliminateElapsedSubPieceCountMap k s =
     s\<lparr>subpiece_count_map := dropWhile (\<lambda>e. fst e < k) (subpiece_count_map s)\<rparr>"

definition HasSubPieceCount :: "nat \<Rightarrow> live_session \<Rightarrow> bool" where
  "HasSubPieceCount k s = (map_of (subpiece_count_map s) k \<noteq> None)"

definition GetSubPieceCount :: "nat \<Rightarrow> live_session \<Rightarrow> nat" where
  "GetSubPieceCount k s = (case map_of (subpiece_count_map s) k of None \<Rightarrow> 0 | Some n \<Rightarrow> n)"

section \<open>Requests to a peer\<close>

definition AddRequest :: "p2p_lib \<Rightarrow> p2p_env \<Rightarrow> live_subpiece \<Rightarrow> nat \<Rightarrow> nat \<Rightarrow> nat \<Rightarrow> live_session \<Rightarrow> live_session" where
  "AddRequest lib env sp timeout p tid s =
     s\<lparr>request_tasks := multi_insert (subpiece_less lib) sp
         \<lparr>request_timeout = timeout, request_peer = p, request_time = p2p_now env, request_transaction = tid\<rparr> (request_tasks s)\<rparr>"

definition IsRequestingSubPiece :: "live_subpiece \<Rightarrow> live_session \<Rightarrow> bool" where
  "IsRequestingSubPiece sp s = (\<exists>e\<in>set (request_tasks s). fst e = sp)"

definition GetRequestingCount :: "live_subpiece \<Rightarrow> live_session \<Rightarrow> nat" where
  "GetRequestingCount sp s = length (filter (\<lambda>e. fst e = sp) (request_tasks s))"

definition GetTimeoutAdjustment :: "p2p_env \<Rightarrow> live_peer \<Rightarrow> nat" where
  "GetTimeoutAdjustment env pr =
     (if \<not> peer_running pr then 500
      else if rest_seconds env > 10
      then if (500 + rest_seconds env * 100) mod 2 ^ 32 > 5000 then 5000 else (500 + rest_seconds env * 100) mod 2 ^ 32
      else 500)"

definition asked :: "live_session \<Rightarrow> bool \<Rightarrow> nat \<Rightarrow> live_peer \<Rightarrow> live_subpiece list" where
  "asked s need_check n pr =
     filter (\<lambda>sp. \<not> need_check \<or> \<not> cache_HasSubPiece (fst sp) (snd sp) (session_cache s)) (take n (task_set pr))"

definition peer_asked :: "p2p_env \<Rightarrow> live_subpiece list \<Rightarrow> nat \<Rightarrow> nat \<Rightarrow> live_peer \<Rightarrow> live_peer" where
  "peer_asked env sps tid n pr =
     pr\<lparr>recv_subpiece_time := (if requesting_count pr = 0 then p2p_now env else recv_subpiece_time pr),
       task_set := drop n (task_set pr),
       accumulative_requested := accumulative_requested pr + length sps,
       request_map := (if lost_prejudge env
                       then fold (\<lambda>sp. multi_insert (<) tid sp) sps (request_map pr) else request_map pr),
       requesting_count := requesting_count pr + int (length sps)\<rparr>"

definition RequestSubPieces :: "p2p_lib \<Rightarrow> p2p_env \<Rightarrow> nat \<Rightarrow> bool \<Rightarrow> nat \<Rightarrow> live_session \<Rightarrow> live_session" where
  "RequestSubPieces lib env n need_check p s =
     (let pr = peer s p in
      if \<not> peer_running pr \<or> n = 0 \<or> task_set pr = [] then s
      else
        let sps = asked s need_check n pr in
        if sps = []
        then upd_peer p (\<lambda>q. q\<lparr>recv_subpiece_time := (if requesting_count q = 0 then p2p_now env else recv_subpiece_time q),
               task_set := drop n (task_set q)\<rparr>) s
        else
          let tid = transaction_id lib (transactions s);
              copy_count = max 1 (min 3 (length sps div 2));
              timeout = (rtt_avg pr + GetTimeoutAdjustment env pr) mod 2 ^ 32;
              s1 = s\<lparr>transactions := transactions s + 1,
                     sent_packets := sent_packets s @ replicate copy_count (RequestSubPiece tid sps (peer_end_point pr))\<rparr>;
              s2 = fold (\<lambda>sp. AddRequest lib env sp timeout p tid) sps s1
          in upd_peer p (peer_asked env sps tid n) s2)"

definition request_batch :: "live_peer \<Rightarrow> nat" where
  "request_batch pr = (if IsUdpServer pr then udpserver_maximum_requests (peer_config pr) else 6)"

lemma peer_upd_same [simp]: "p < length (peers s) \<Longrightarrow> peer (upd_peer p f s) p = f (peer s p)"
  by (simp add: peer_def upd_peer_def)

lemma peer_upd_other [simp]: "q \<noteq> p \<Longrightarrow> peer (upd_peer p f s) q = peer s q"
  by (simp add: peer_def upd_peer_def)

lemma upd_peer_simps [simp]:
  "length (peers (upd_peer p f s)) = length (peers s)" "connected (upd_peer p f s) = connected s"
  "request_tasks (upd_peer p f s) = request_tasks s" "transactions (upd_peer p f s) = transactions s"
  "subpiece_count_map (upd_peer p f s) = subpiece_count_map s" "session_cache (upd_peer p f s) = session_cache s"
  "sent_packets (upd_peer p f s) = sent_packets s" "udpserver_count (upd_peer p f s) = udpserver_count s"
  by (simp_all add: upd_peer_def)

lemma AddRequest_simps [simp]:
  "peers (AddRequest lib env sp t p tid s) = peers s" "connected (AddRequest lib env sp t p tid s) = connected s"
  "transactions (AddRequest lib env sp t p tid s) = transactions s"
  "subpiece_count_map (AddRequest lib env sp t p tid s) = subpiece_count_map s"
  "session_cache (AddRequest lib env sp t p tid s) = session_cache s"
  "sent_packets (AddRequest lib env sp t p tid s) = sent_packets s"
  "udpserver_count (AddRequest lib env sp t p tid s) = udpserver_count s"
  by (simp_all add: AddRequest_def)

lemma AddRequests_simps [simp]:
  "peers (fold (\<lambda>sp. AddRequest lib env sp t p tid) sps s) = peers s"
  "connected (fold (\<lambda>sp. AddRequest lib env sp t p tid) sps s) = connected s"
  "transactions (fold (\<lambda>sp. AddRequest lib env sp t p tid) sps s) = transactions s"
  "subpiece_count_map (fold (\<lambda>sp. AddRequest lib env sp t p tid) sps s) = subpiece_count_map s"
  "session_cache (fold (\<lambda>sp. AddRequest lib env sp t p tid) sps s) = session_cache s"
  "sent_packets (fold (\<lambda>sp. AddRequest lib env sp t p tid) sps s) = sent_packets s"
  "udpserver_count (fold (\<lambda>sp. AddRequest lib env sp t p tid) sps s) = udpserver_count s"
  by (induction sps arbitrary: s) simp_all

lemma peers_request:
  "length (peers (RequestSubPieces lib env n c p s)) = length (peers s)"
  by (simp add: RequestSubPieces_def Let_def)

lemma request_shrinks:
  assumes "requesting_count (peer (RequestSubPieces lib env n False p s) p) \<noteq> requesting_count (peer s p)" "task_set (peer s p) \<noteq> []"
  shows "length (task_set (peer (RequestSubPieces lib env n False p s) p)) < length (task_set (peer s p))"
proof (cases "p < length (peers s)")
  case True
  with assms show ?thesis
    by (auto simp: RequestSubPieces_def Let_def peer_asked_def peer_def upd_peer_def split: if_splits)
next
  case False
  with assms(1) show ?thesis by (simp add: RequestSubPieces_def Let_def peer_def upd_peer_def list_update_beyond split: if_splits)
qed

text \<open>The loop of \<^verbatim>\<open>RequestTillFullWindow\<close>; its assertion ends it when a round asks for nothing.\<close>

function till_full :: "p2p_lib \<Rightarrow> p2p_env \<Rightarrow> nat \<Rightarrow> live_session \<Rightarrow> live_session result" where
  "till_full lib env p s =
     (if requesting_count (peer s p) < window_size (peer s p) \<and> task_set (peer s p) \<noteq> []
      then
        if requesting_count (peer (RequestSubPieces lib env (request_batch (peer s p)) False p s) p) = requesting_count (peer s p)
        then Inl AssertionFailed
        else till_full lib env p (RequestSubPieces lib env (request_batch (peer s p)) False p s)
      else Inr s)"
  by auto
termination
  by (relation "measure (\<lambda>(lib, env, p, s). length (task_set (peer s p)))") (auto intro: request_shrinks)

declare till_full.simps [simp del]

definition RequestTillFullWindow :: "p2p_lib \<Rightarrow> p2p_env \<Rightarrow> nat \<Rightarrow> live_session \<Rightarrow> live_session result" where
  "RequestTillFullWindow lib env p s = (if \<not> peer_running (peer s p) then Inr s else till_full lib env p s)"

section \<open>A connection\<close>

definition DoAnnounce :: "p2p_lib \<Rightarrow> p2p_env \<Rightarrow> nat \<Rightarrow> live_session \<Rightarrow> live_session" where
  "DoAnnounce lib env p s =
     (let pr = peer s p in
      if \<not> peer_running pr then s
      else
        let bandwidth = max (upload_limit env) (upload_bandwidth env);
            copies = (if no_response_time pr \<ge> enhanced_announce_threshold env then enhanced_announce_copies env else 1);
            pk = RequestAnnounce (transaction_id lib (transactions s)) (playing_block_id env) bandwidth (peer_end_point pr)
        in upd_peer p (\<lambda>q. q\<lparr>announce_requests := announce_requests q + 1\<rparr>)
             (s\<lparr>transactions := transactions s + 1, sent_packets := sent_packets s @ replicate copies pk\<rparr>))"

definition peer_create :: "p2p_env \<Rightarrow> peer_config \<Rightarrow> endpoint \<Rightarrow> connect_type \<Rightarrow> live_peer" where
  "peer_create env cfg ep ct =
     \<lparr>peer_end_point = ep, peer_connect_type = ct, peer_config = cfg, peer_running = False, task_set = [], block_bitmap = [],
      window_size = 25, requesting_count = 0, rtt_max = 0, rtt_avg = 3000, avg_delta_time = 100,
      recv_subpiece_time = p2p_now env, no_response_time = 0, receive_announce_time = p2p_now env, connect_time = p2p_now env,
      bitmap_empty_tick = tick_milliseconds env, last_received_packet = 0, reverse_order_count = 0, total_received_count = 0,
      request_map = [], announce_requests = 0, announce_responses = 0, accumulative_requested = 0, received_count = 0,
      max_download_speed = 0\<rparr>"

definition peer_Start :: "p2p_lib \<Rightarrow> p2p_env \<Rightarrow> nat \<Rightarrow> live_session \<Rightarrow> live_session" where
  "peer_Start lib env p s =
     upd_peer p (\<lambda>q. q\<lparr>connect_time := p2p_now env\<rparr>)
       (DoAnnounce lib env p (upd_peer p (\<lambda>q. q\<lparr>peer_running := True, receive_announce_time := p2p_now env\<rparr>) s))"

definition peer_Stop :: "nat \<Rightarrow> live_session \<Rightarrow> live_session" where
  "peer_Stop p = upd_peer p (\<lambda>q. q\<lparr>peer_running := False\<rparr>)"

definition next_window :: "nat \<Rightarrow> int \<Rightarrow> int" where
  "next_window speed prev =
     (let w = int (speed div 1024) in if w < prev then (9 * prev + 1 * w) div 10 else w)"

definition limit_window :: "live_peer \<Rightarrow> int \<Rightarrow> int result" where
  "limit_window pr w =
     (let c = peer_config pr
      in limit_min_max w (int (minimum_window c)) (int (if IsUdpServer pr then udpserver_maximum_window c else maximum_window c)))"

definition announce_if_due :: "p2p_lib \<Rightarrow> p2p_env \<Rightarrow> nat \<Rightarrow> live_session \<Rightarrow> live_session" where
  "announce_if_due lib env p s =
     (let s1 = upd_peer p (\<lambda>q. q\<lparr>no_response_time := (no_response_time q + 1000) mod 2 ^ 32\<rparr>) s; pr = peer s1 p
      in if \<not> IsUdpServer pr \<or>
            unat (elapsed (p2p_clock env) (receive_announce_time pr) (p2p_now env)) \<ge> udpserver_announce_interval env * 1000 mod 2 ^ 32
         then DoAnnounce lib env p s1 else s1)"

definition peer_OnP2PTimer :: "p2p_lib \<Rightarrow> p2p_env \<Rightarrow> nat \<Rightarrow> nat \<Rightarrow> live_session \<Rightarrow> live_session result" where
  "peer_OnP2PTimer lib env ticks p s =
     (if \<not> peer_running (peer s p) then Inr s
      else
        and_then
          (if ticks mod 4 = 0
           then
             let s1 = announce_if_due lib env p s; pr = peer s1 p
             in and_then (limit_window pr (next_window (now_speed env p) (window_size pr))) (\<lambda>w.
                  Inr (upd_peer p (\<lambda>q. q\<lparr>max_download_speed := max (max_download_speed pr) (now_speed env p), window_size := w\<rparr>) s1))
           else Inr s)
          (\<lambda>s2. RequestTillFullWindow lib env p s2))"

definition AddAssignedSubPiece :: "p2p_lib \<Rightarrow> live_subpiece \<Rightarrow> nat \<Rightarrow> live_session \<Rightarrow> live_session" where
  "AddAssignedSubPiece lib sp p = upd_peer p (\<lambda>q. q\<lparr>task_set := set_insert (subpiece_less lib) sp (task_set q)\<rparr>)"

definition ClearTaskQueue :: "nat \<Rightarrow> live_session \<Rightarrow> live_session" where
  "ClearTaskQueue p = upd_peer p (\<lambda>q. q\<lparr>task_set := []\<rparr>)"

definition UpdateLastReceived :: "nat \<Rightarrow> live_peer \<Rightarrow> live_peer" where
  "UpdateLastReceived tid q =
     q\<lparr>last_received_packet := max (last_received_packet q) tid,
       reverse_order_count := (if tid < last_received_packet q then reverse_order_count q + 1 else reverse_order_count q),
       total_received_count := total_received_count q + 1\<rparr>"

definition received_one :: "p2p_env \<Rightarrow> nat \<Rightarrow> live_peer \<Rightarrow> live_peer" where
  "received_one env rtt q =
     q\<lparr>no_response_time := 0, requesting_count := requesting_count q - 1, rtt_max := max (rtt_max q) rtt,
       rtt_avg := ((rtt_avg q * 9 + rtt) mod 2 ^ 32) div 10,
       avg_delta_time := max 10 (min 1000
         (((avg_delta_time q * 9 + unat (elapsed (p2p_clock env) (recv_subpiece_time q) (p2p_now env))) mod 2 ^ 32) div 10)),
       recv_subpiece_time := p2p_now env, received_count := received_count q + 1\<rparr>"

definition peer_OnSubPiece :: "p2p_lib \<Rightarrow> p2p_env \<Rightarrow> nat \<Rightarrow> nat \<Rightarrow> live_session \<Rightarrow> live_session result" where
  "peer_OnSubPiece lib env rtt p s =
     (if \<not> peer_running (peer s p) then Inr s else RequestTillFullWindow lib env p (upd_peer p (received_one env rtt) s))"

definition peer_OnSubPieceTimeout :: "p2p_lib \<Rightarrow> p2p_env \<Rightarrow> nat \<Rightarrow> live_session \<Rightarrow> live_session result" where
  "peer_OnSubPieceTimeout lib env p s =
     (if \<not> peer_running (peer s p) then Inr s
      else RequestTillFullWindow lib env p (upd_peer p (\<lambda>q. q\<lparr>requesting_count := requesting_count q - 1\<rparr>) s))"

definition DeleteLostPackets :: "nat \<Rightarrow> nat \<Rightarrow> live_session \<Rightarrow> (nat \<times> live_subpiece) list \<times> live_session" where
  "DeleteLostPackets tid p s =
     (takeWhile (\<lambda>e. fst e < tid) (request_map (peer s p)),
      upd_peer p (\<lambda>q. q\<lparr>request_map := dropWhile (\<lambda>e. fst e < tid) (request_map q)\<rparr>) s)"

section \<open>The bit maps of a peer\<close>

definition HasSubPieceInBitmap :: "live_subpiece \<Rightarrow> live_peer \<Rightarrow> bool result" where
  "HasSubPieceInBitmap sp pr =
     (case map_of (block_bitmap pr) (fst sp) of
        None \<Rightarrow> Inr False
      | Some bits \<Rightarrow>
          let piece_index = (if snd sp = 0 then 0 else (snd sp - 1) div 16 + 1)
          in if piece_index < length bits then Inr (bits ! piece_index) else Inl AssertionFailed)"

definition HasSubPieceInTaskSet :: "live_subpiece \<Rightarrow> live_peer \<Rightarrow> bool" where
  "HasSubPieceInTaskSet sp pr = (sp \<in> set (task_set pr))"

definition GetSubPieceCountInBitmap :: "nat \<Rightarrow> live_peer \<Rightarrow> nat" where
  "GetSubPieceCountInBitmap k pr = (case map_of (block_bitmap pr) k of None \<Rightarrow> 0 | Some bits \<Rightarrow> length (filter id bits))"

definition Get75PercentPointInBitmap :: "nat \<Rightarrow> live_peer \<Rightarrow> nat result" where
  "Get75PercentPointInBitmap interval pr =
     (if block_bitmap pr = [] then Inr 0
      else if interval = 0 then Inl DivideByZero
      else
        let first = fst (hd (block_bitmap pr)); last_id = fst (last (block_bitmap pr))
        in Inr ((first + (last_id - first) * 3 mod 2 ^ 32 div 4) mod 2 ^ 32 div interval * interval))"

definition GetBitmapEmptyTime :: "p2p_env \<Rightarrow> live_peer \<Rightarrow> nat" where
  "GetBitmapEmptyTime env pr =
     (if block_bitmap pr \<noteq> [] then 0 else (tick_milliseconds env + 2 ^ 32 - bitmap_empty_tick pr) mod 2 ^ 32)"

definition note_empty :: "p2p_env \<Rightarrow> bool \<Rightarrow> live_peer \<Rightarrow> live_peer" where
  "note_empty env was_empty q =
     (if \<not> was_empty \<and> block_bitmap q = [] then q\<lparr>bitmap_empty_tick := tick_milliseconds env\<rparr> else q)"

definition EliminateElapsedBlockBitMap :: "p2p_env \<Rightarrow> nat \<Rightarrow> live_peer \<Rightarrow> live_peer" where
  "EliminateElapsedBlockBitMap env k q =
     note_empty env (block_bitmap q = []) (q\<lparr>block_bitmap := dropWhile (\<lambda>e. fst e < k) (block_bitmap q)\<rparr>)"

text \<open>
  \<^verbatim>\<open>OnAnnounce\<close>: the loop that drops the bit maps from the requested block up to the first announced one, and the update.
\<close>

partial_function (option) drop_elapsed :: "nat \<Rightarrow> nat \<Rightarrow> nat \<Rightarrow> (nat \<times> bool list) list \<Rightarrow> (nat \<times> bool list) list option" where
  "drop_elapsed interval first k m =
     (if k < first
      then drop_elapsed interval first ((k + interval) mod 2 ^ 32) (filter (\<lambda>e. fst e \<noteq> k) m)
      else Some m)"

declare drop_elapsed.simps [code]

definition OnAnnounce :: "p2p_env \<Rightarrow> announce \<Rightarrow> nat \<Rightarrow> live_session \<Rightarrow> live_session result option" where
  "OnAnnounce env a p s =
     (if \<not> peer_running (peer s p) then Some (Inr s)
      else
        let s1 = upd_peer p (\<lambda>q. q\<lparr>announce_responses := announce_responses q + 1, receive_announce_time := p2p_now env\<rparr>) s;
            was_empty = (block_bitmap (peer s1 p) = []);
            finish = (\<lambda>m. upd_peer p (\<lambda>q. (note_empty env was_empty (q\<lparr>block_bitmap := m\<rparr>))\<lparr>no_response_time := 0\<rparr>))
        in if block_info_count a > 0
           then
             if subpiece_map a = [] then Some (Inl OutOfRange)
             else
               let first = fst (hd (subpiece_map a));
                   s2 = SetSubPieceCountMap first (map snd (subpiece_nos a)) s1
               in map_option (\<lambda>m. Inr (finish (fold (\<lambda>(k, bits). put_sorted k bits) (subpiece_map a) m) s2))
                    (drop_elapsed (live_interval (session_cache s)) first (request_block_id a) (block_bitmap (peer s1 p)))
           else Some (Inr (finish [] s1)))"

text \<open>
  The score of a peer that served the channel; \<open>speed_score\<close> is the truncated sum \<^verbatim>\<open>0.7 + max_download_speed_ / data_rate\<close>
  of doubles.
\<close>

definition GetServiceScore :: "(nat \<Rightarrow> nat \<Rightarrow> int) \<Rightarrow> nat \<Rightarrow> live_peer \<Rightarrow> int" where
  "GetServiceScore speed_score data_rate pr =
     (if \<not> peer_running pr then 0
      else if announce_requests pr = 0 then 0
      else if announce_responses pr = 0 then (if announce_requests pr \<ge> 3 then - 1 else 0)
      else if accumulative_requested pr = 0 then 0
      else if accumulative_requested pr < 10
      then if received_count pr > accumulative_requested pr div 2 then 1 else 0
      else if received_count pr = 0 \<or> received_count pr * 4 < accumulative_requested pr then - 1
      else if data_rate > 10 * 1000 then speed_score (max_download_speed pr) data_rate
      else 0)"

section \<open>The request manager\<close>

record subpiece_packet =
  from_end_point :: endpoint
  answered_transaction :: nat
  subpiece_info :: live_subpiece
  content :: "u8 list"

definition answers :: "live_session \<Rightarrow> subpiece_packet \<Rightarrow> request_task \<Rightarrow> bool" where
  "answers s pk t =
     (peer_end_point (peer s (request_peer t)) = from_end_point pk \<and> request_transaction t = answered_transaction pk)"

fun timeouts :: "p2p_lib \<Rightarrow> p2p_env \<Rightarrow> nat list \<Rightarrow> live_session \<Rightarrow> live_session result" where
  "timeouts lib env [] s = Inr s"
| "timeouts lib env (p # ps) s = and_then (peer_OnSubPieceTimeout lib env p s) (timeouts lib env ps)"

text \<open>A lost request: the first with the same subpiece and the same transaction.\<close>

fun erase_request :: "live_subpiece \<Rightarrow> nat \<Rightarrow> (live_subpiece \<times> request_task) list \<Rightarrow> nat \<times> (live_subpiece \<times> request_task) list" where
  "erase_request sp tid [] = (0, [])"
| "erase_request sp tid (e # m) =
     (if fst e = sp \<and> request_transaction (snd e) = tid then (1, m)
      else case erase_request sp tid m of (n, m') \<Rightarrow> (n, e # m'))"

fun erase_lost :: "(nat \<times> live_subpiece) list \<Rightarrow> (live_subpiece \<times> request_task) list \<Rightarrow> nat \<times> (live_subpiece \<times> request_task) list" where
  "erase_lost [] m = (0, m)"
| "erase_lost ((tid, sp) # es) m =
     (case erase_request sp tid m of (n, m1) \<Rightarrow> case erase_lost es m1 of (k, m2) \<Rightarrow> (n + k, m2))"

definition request_age :: "p2p_env \<Rightarrow> request_task \<Rightarrow> nat" where
  "request_age env t = unat (elapsed (p2p_clock env) (request_time t) (p2p_now env))"

definition matched_received :: "p2p_lib \<Rightarrow> p2p_env \<Rightarrow> nat \<Rightarrow> request_task \<Rightarrow> live_session \<Rightarrow> live_session result" where
  "matched_received lib env tid t s =
     map_sum id (upd_peer (request_peer t) (UpdateLastReceived tid)) (peer_OnSubPiece lib env (request_age env t) (request_peer t) s)"

definition manager_OnSubPiece :: "p2p_lib \<Rightarrow> p2p_env \<Rightarrow> subpiece_packet \<Rightarrow> live_session \<Rightarrow> live_session result" where
  "manager_OnSubPiece lib env pk s =
     (let range = map snd (filter (\<lambda>e. fst e = subpiece_info pk) (request_tasks s));
          s1 = s\<lparr>request_tasks := filter (\<lambda>e. fst e \<noteq> subpiece_info pk) (request_tasks s)\<rparr>;
          matched = filter (answers s pk) range;
          unmatched = map request_peer (filter (\<lambda>t. \<not> answers s pk t) range)
      in if matched = [] then timeouts lib env unmatched s1
         else
           let t = last matched;
               (lost, s2) = DeleteLostPackets (answered_transaction pk) (request_peer t) s1
           in and_then (matched_received lib env (answered_transaction pk) t s2) (\<lambda>s3.
                and_then (timeouts lib env unmatched s3) (\<lambda>s4.
                  let (n, m) = erase_lost lost (request_tasks s4)
                  in timeouts lib env (replicate n (request_peer t)) (s4\<lparr>request_tasks := m\<rparr>))))"

text \<open>
  \<^verbatim>\<open>CheckExternalTimeout\<close>: a handler of a timed-out request may add requests to the map while it is walked.  These are new,
  so that they have not timed out when the walk meets them: the walk is over the requests at its start.
\<close>

definition request_IsTimeout :: "p2p_env \<Rightarrow> request_task \<Rightarrow> bool" where
  "request_IsTimeout env t = (request_age env t > request_timeout t)"

fun check_timeouts ::
    "p2p_lib \<Rightarrow> p2p_env \<Rightarrow> (live_subpiece \<times> request_task) list \<Rightarrow> live_session \<Rightarrow> live_session result" where
  "check_timeouts lib env [] s = Inr s"
| "check_timeouts lib env (e # es) s =
     (if request_IsTimeout env (snd e)
      then and_then (peer_OnSubPieceTimeout lib env (request_peer (snd e)) s) (\<lambda>s1.
             check_timeouts lib env es (s1\<lparr>request_tasks := remove1 e (request_tasks s1)\<rparr>))
      else check_timeouts lib env es s)"

definition manager_OnP2PTimer :: "p2p_lib \<Rightarrow> p2p_env \<Rightarrow> live_session \<Rightarrow> live_session result" where
  "manager_OnP2PTimer lib env s = check_timeouts lib env (request_tasks s) s"

section \<open>The connections\<close>

definition GetPeer :: "endpoint \<Rightarrow> live_session \<Rightarrow> nat option" where
  "GetPeer ep s = map_of (connected s) ep"

definition HasPeer :: "endpoint \<Rightarrow> live_session \<Rightarrow> bool" where
  "HasPeer ep s = (GetPeer ep s \<noteq> None)"

definition is_of_type :: "connect_type \<Rightarrow> endpoint \<Rightarrow> live_session \<Rightarrow> bool" where
  "is_of_type ct ep s = (case GetPeer ep s of None \<Rightarrow> False | Some p \<Rightarrow> peer_connect_type (peer s p) = ct)"

definition AddPeer :: "nat \<Rightarrow> live_session \<Rightarrow> live_session" where
  "AddPeer p s =
     (if GetPeer (peer_end_point (peer s p)) s = None
      then s\<lparr>connected := put_sorted (peer_end_point (peer s p)) p (connected s),
             udpserver_count := (if IsUdpServer (peer s p) then udpserver_count s + 1 else udpserver_count s)\<rparr>
      else s)"

definition DelPeer :: "endpoint \<Rightarrow> live_session \<Rightarrow> live_session result" where
  "DelPeer ep s =
     (case GetPeer ep s of
        None \<Rightarrow> Inr s
      | Some p \<Rightarrow>
          if IsUdpServer (peer s p) \<and> udpserver_count s = 0 then Inl AssertionFailed
          else
            let s1 = (if IsUdpServer (peer s p) then s\<lparr>udpserver_count := udpserver_count s - 1\<rparr> else s);
                s2 = peer_Stop p s1
            in Inr (s2\<lparr>connected := filter (\<lambda>e. fst e \<noteq> ep) (connected s2)\<rparr>))"

definition manager_Stop :: "live_session \<Rightarrow> live_session" where
  "manager_Stop s = (fold (\<lambda>e. peer_Stop (snd e)) (connected s) s)\<lparr>connected := []\<rparr>"

text \<open>A new connection, as \<^verbatim>\<open>PeerConnector::OnReConectPacket\<close> makes it for an endpoint that has none.\<close>

definition Connect :: "p2p_lib \<Rightarrow> p2p_env \<Rightarrow> peer_config \<Rightarrow> endpoint \<Rightarrow> connect_type \<Rightarrow> live_session \<Rightarrow> live_session" where
  "Connect lib env cfg ep ct s =
     (if HasPeer ep s then s
      else
        let p = length (peers s)
        in AddPeer p (peer_Start lib env p (s\<lparr>peers := peers s @ [peer_create env cfg ep ct]\<rparr>)))"

fun each_peer :: "(nat \<Rightarrow> live_session \<Rightarrow> live_session result) \<Rightarrow> nat list \<Rightarrow> live_session \<Rightarrow> live_session result" where
  "each_peer f [] s = Inr s"
| "each_peer f (p # ps) s = and_then (f p s) (each_peer f ps)"

definition connections_OnP2PTimer :: "p2p_lib \<Rightarrow> p2p_env \<Rightarrow> nat \<Rightarrow> live_session \<Rightarrow> live_session result" where
  "connections_OnP2PTimer lib env ticks s = each_peer (peer_OnP2PTimer lib env ticks) (map snd (connected s)) s"

definition OnAnnouncePacket :: "p2p_env \<Rightarrow> endpoint \<Rightarrow> announce \<Rightarrow> live_session \<Rightarrow> live_session result option" where
  "OnAnnouncePacket env ep a s = (case GetPeer ep s of None \<Rightarrow> Some (Inr s) | Some p \<Rightarrow> OnAnnounce env a p s)"

definition OnErrorPacket :: "endpoint \<Rightarrow> bool \<Rightarrow> live_session \<Rightarrow> live_session result" where
  "OnErrorPacket ep no_resource s = (if HasPeer ep s \<and> no_resource then DelPeer ep s else Inr s)"

definition OnPeerInfoPacket :: "endpoint \<Rightarrow> live_session \<Rightarrow> live_session" where
  "OnPeerInfoPacket ep s = (case GetPeer ep s of None \<Rightarrow> s | Some p \<Rightarrow> upd_peer p (\<lambda>q. q\<lparr>no_response_time := 0\<rparr>) s)"

definition OnCloseSession :: "endpoint \<Rightarrow> live_session \<Rightarrow> live_session result" where
  "OnCloseSession ep s = (if HasPeer ep s then DelPeer ep s else Inr s)"

definition connections_EliminateElapsed :: "p2p_env \<Rightarrow> nat \<Rightarrow> live_session \<Rightarrow> live_session" where
  "connections_EliminateElapsed env k s =
     fold (\<lambda>e. upd_peer (snd e) (EliminateElapsedBlockBitMap env k)) (connected s) s"

definition IsAheadOfMostPeers :: "live_session \<Rightarrow> bool" where
  "IsAheadOfMostPeers s =
     (length (filter (\<lambda>e. \<not> IsUdpServer (peer s (snd e)) \<and> length (block_bitmap (peer s (snd e))) > 1) (connected s)) < 2)"

definition GetDownloadablePeersCount :: "live_session \<Rightarrow> nat" where
  "GetDownloadablePeersCount s = length (filter (\<lambda>e. block_bitmap (peer s (snd e)) \<noteq> []) (connected s))"

definition GetUdpServerEndpoints :: "live_session \<Rightarrow> endpoint list" where
  "GetUdpServerEndpoints s = map fst (filter (\<lambda>e. IsUdpServer (peer s (snd e))) (connected s))"

definition LongTimeNoResponse :: "live_peer \<Rightarrow> bool" where
  "LongTimeNoResponse pr = (no_response_time pr > 10 * 1000)"

definition GetNoResponsePeers :: "live_session \<Rightarrow> (endpoint \<times> nat) list" where
  "GetNoResponsePeers s = filter (\<lambda>e. LongTimeNoResponse (peer s (snd e))) (connected s)"

text \<open>A subpiece that arrives, in \<^verbatim>\<open>OnUdpRecv\<close>: it answers its request, and is stored if it is new.\<close>

definition OnSubPiecePacket :: "protocol_lib \<Rightarrow> p2p_lib \<Rightarrow> p2p_env \<Rightarrow> subpiece_packet \<Rightarrow> live_session \<Rightarrow> live_session result" where
  "OnSubPiecePacket plib lib env pk s =
     and_then (manager_OnSubPiece lib env pk s) (\<lambda>s1.
       let (k, i) = subpiece_info pk
       in if cache_HasSubPiece k i (session_cache s1) then Inr s1
          else and_then (cache_AddSubPiece plib k i (content pk) (session_cache s1)) (\<lambda>(added, c).
                 Inr (s1\<lparr>session_cache := c\<rparr>)))"

section \<open>Everything that can happen\<close>

datatype p2p_event =
    PeerConnects peer_config endpoint connect_type
  | SubPieceArrives subpiece_packet
  | AnnounceArrives endpoint announce
  | ErrorArrives endpoint bool
  | PeerInfoArrives endpoint
  | SessionCloses endpoint
  | RequestTimer
  | ConnectionTimer nat
  | SubPieceAssigned live_subpiece nat
  | QueueCleared nat
  | PositionMoves
  | CacheChanges live_cache

fun p2p_step :: "protocol_lib \<Rightarrow> p2p_lib \<Rightarrow> p2p_env \<Rightarrow> p2p_event \<Rightarrow> live_session \<Rightarrow> live_session result option" where
  "p2p_step plib lib env (PeerConnects cfg ep ct) s = Some (Inr (Connect lib env cfg ep ct s))"
| "p2p_step plib lib env (SubPieceArrives pk) s = Some (OnSubPiecePacket plib lib env pk s)"
| "p2p_step plib lib env (AnnounceArrives ep a) s = OnAnnouncePacket env ep a s"
| "p2p_step plib lib env (ErrorArrives ep b) s = Some (OnErrorPacket ep b s)"
| "p2p_step plib lib env (PeerInfoArrives ep) s = Some (Inr (OnPeerInfoPacket ep s))"
| "p2p_step plib lib env (SessionCloses ep) s = Some (OnCloseSession ep s)"
| "p2p_step plib lib env RequestTimer s = Some (manager_OnP2PTimer lib env s)"
| "p2p_step plib lib env (ConnectionTimer n) s = Some (connections_OnP2PTimer lib env n s)"
| "p2p_step plib lib env (SubPieceAssigned sp p) s = Some (Inr (AddAssignedSubPiece lib sp p s))"
| "p2p_step plib lib env (QueueCleared p) s = Some (Inr (ClearTaskQueue p s))"
| "p2p_step plib lib env PositionMoves s =
     Some (Inr (connections_EliminateElapsed env (playing_block_id env)
       (EliminateElapsedSubPieceCountMap (playing_block_id env) s)))"
| "p2p_step plib lib env (CacheChanges c) s = Some (Inr (s\<lparr>session_cache := c\<rparr>))"

definition config_ok :: "peer_config \<Rightarrow> bool" where
  "config_ok c \<longleftrightarrow>
     minimum_window c \<le> maximum_window c \<and> minimum_window c \<le> udpserver_maximum_window c \<and> 0 < udpserver_maximum_requests c"

text \<open>
  An announcement from which \<^verbatim>\<open>OnAnnounce\<close> returns: it has bit maps when it says so, and the first is not so near to
  \<open>2^32\<close> that the ids of the loop wrap.
\<close>

definition announce_ok :: "live_session \<Rightarrow> announce \<Rightarrow> bool" where
  "announce_ok s a \<longleftrightarrow>
     (block_info_count a > 0 \<longrightarrow>
        subpiece_map a \<noteq> [] \<and> fst (hd (subpiece_map a)) + live_interval (session_cache s) \<le> 2 ^ 32)"

fun possible :: "protocol_lib \<Rightarrow> p2p_event \<Rightarrow> live_session \<Rightarrow> bool" where
  "possible plib (PeerConnects cfg ep ct) s \<longleftrightarrow> config_ok cfg"
| "possible plib (SubPieceArrives pk) s \<longleftrightarrow>
     fst (subpiece_info pk) < 2 ^ 32 \<and> addable plib (snd (subpiece_info pk)) (content pk) (target (fst (subpiece_info pk)) (session_cache s))"
| "possible plib (AnnounceArrives ep a) s \<longleftrightarrow> announce_ok s a"
| "possible plib (SubPieceAssigned sp p) s \<longleftrightarrow> p < length (peers s)"
| "possible plib (CacheChanges c) s \<longleftrightarrow> cache_ok plib c"
| "possible plib ev s \<longleftrightarrow> True"

definition session_new :: "live_cache \<Rightarrow> live_session" where
  "session_new c =
     \<lparr>peers = [], connected = [], udpserver_count = 0, request_tasks = [], subpiece_count_map = [], session_cache = c,
      transactions = 0, sent_packets = []\<rparr>"

inductive p2p_reachable :: "protocol_lib \<Rightarrow> p2p_lib \<Rightarrow> live_session \<Rightarrow> bool" for plib lib where
  created: "cache_ok plib c \<Longrightarrow> p2p_reachable plib lib (session_new c)"
| stepped: "p2p_reachable plib lib s \<Longrightarrow> possible plib ev s \<Longrightarrow> p2p_step plib lib env ev s = Some (Inr t) \<Longrightarrow>
    p2p_reachable plib lib t"

section \<open>Counting requests\<close>

definition outstanding :: "live_session \<Rightarrow> nat \<Rightarrow> nat" where
  "outstanding s p = length (filter (\<lambda>e. request_peer (snd e) = p) (request_tasks s))"

definition known_id :: "p2p_lib \<Rightarrow> live_session \<Rightarrow> nat \<Rightarrow> bool" where
  "known_id lib s tid = (tid \<in> transaction_id lib ` {..<transactions s})"

text \<open>
  The requests agree with the connections: a transaction belongs to one connection, and a running connection counts its
  requests, \<open>due p\<close> being how often connection \<open>p\<close> still has to be told that a request of its has ended.
\<close>

definition owned :: "p2p_lib \<Rightarrow> (nat \<Rightarrow> nat) \<Rightarrow> live_session \<Rightarrow> bool" where
  "owned lib own s \<longleftrightarrow>
     (\<forall>e\<in>set (request_tasks s). request_peer (snd e) < length (peers s) \<and> known_id lib s (request_transaction (snd e)) \<and>
        own (request_transaction (snd e)) = request_peer (snd e)) \<and>
     distinct (map (\<lambda>e. (fst e, request_transaction (snd e))) (request_tasks s)) \<and>
     (\<forall>p<length (peers s). \<forall>x\<in>set (request_map (peer s p)). known_id lib s (fst x) \<and> own (fst x) = p)"

definition counted :: "(nat \<Rightarrow> int) \<Rightarrow> live_session \<Rightarrow> bool" where
  "counted due s \<longleftrightarrow>
     (\<forall>p<length (peers s). peer_running (peer s p) \<longrightarrow> requesting_count (peer s p) = int (outstanding s p) + due p)"

definition tasks_ok :: "p2p_lib \<Rightarrow> (nat \<Rightarrow> int) \<Rightarrow> live_session \<Rightarrow> bool" where
  "tasks_ok lib due s \<longleftrightarrow> (\<exists>own. owned lib own s) \<and> counted due s"

definition greatest_window :: "live_peer \<Rightarrow> nat" where
  "greatest_window q =
     max 25 (if IsUdpServer q then udpserver_maximum_window (peer_config q) else maximum_window (peer_config q))"

definition peer_ok :: "live_peer \<Rightarrow> bool" where
  "peer_ok q \<longleftrightarrow>
     distinct (task_set q) \<and> config_ok (peer_config q) \<and> window_size q \<le> int (greatest_window q) \<and>
     requesting_count q < int (greatest_window q + request_batch q)"

definition connections_ok :: "live_session \<Rightarrow> bool" where
  "connections_ok s \<longleftrightarrow>
     sorted_wrt (<) (map fst (connected s)) \<and>
     (\<forall>e\<in>set (connected s). snd e < length (peers s) \<and> peer_end_point (peer s (snd e)) = fst e \<and> peer_running (peer s (snd e))) \<and>
     udpserver_count s = length (filter (\<lambda>e. IsUdpServer (peer s (snd e))) (connected s))"

definition session_ok :: "protocol_lib \<Rightarrow> p2p_lib \<Rightarrow> (nat \<Rightarrow> int) \<Rightarrow> live_session \<Rightarrow> bool" where
  "session_ok plib lib due s \<longleftrightarrow>
     cache_ok plib (session_cache s) \<and> tasks_ok lib due s \<and> (\<forall>q\<in>set (peers s). peer_ok q) \<and> connections_ok s"

lemma multi_insert_facts [simp]:
  "set (multi_insert lt k v m) = insert (k, v) (set m)"
  "length (filter P (multi_insert lt k v m)) = length (filter P m) + (if P (k, v) then 1 else 0)"
  "distinct (map f (multi_insert lt k v m)) \<longleftrightarrow> f (k, v) \<notin> f ` set m \<and> distinct (map f m)"
  by (induction m) auto

lemma insert_before_facts:
  "set (insert_before lt x xs) = insert x (set xs)" "distinct (insert_before lt x xs) \<longleftrightarrow> x \<notin> set xs \<and> distinct xs"
  by (induction xs) auto

lemma set_insert_facts [simp]:
  "set (set_insert lt x xs) = insert x (set xs)" "distinct (set_insert lt x xs) \<longleftrightarrow> distinct xs"
  by (auto simp: set_insert_def insert_before_facts)

lemma fold_map_insert [simp]:
  "set (fold (\<lambda>sp. multi_insert lt tid sp) sps m) = set m \<union> {tid} \<times> set sps"
  by (induction sps arbitrary: m) auto

definition the_task :: "p2p_env \<Rightarrow> nat \<Rightarrow> nat \<Rightarrow> nat \<Rightarrow> request_task" where
  "the_task env timeout p tid =
     \<lparr>request_timeout = timeout, request_peer = p, request_time = p2p_now env, request_transaction = tid\<rparr>"

lemma the_task_simps [simp]:
  "request_timeout (the_task env t p tid) = t" "request_peer (the_task env t p tid) = p"
  "request_time (the_task env t p tid) = p2p_now env" "request_transaction (the_task env t p tid) = tid"
  by (simp_all add: the_task_def)

lemma AddRequest_tasks [simp]:
  "request_tasks (AddRequest lib env sp t p tid s) = multi_insert (subpiece_less lib) sp (the_task env t p tid) (request_tasks s)"
  by (simp add: AddRequest_def the_task_def)

abbreviation AddRequests ::
    "p2p_lib \<Rightarrow> p2p_env \<Rightarrow> nat \<Rightarrow> nat \<Rightarrow> nat \<Rightarrow> live_subpiece list \<Rightarrow> live_session \<Rightarrow> live_session" where
  "AddRequests lib env tm p tid sps \<equiv> fold (\<lambda>sp. AddRequest lib env sp tm p tid) sps"

lemma AddRequests_tasks:
  shows "set (request_tasks (AddRequests lib env tm p tid sps s)) = set (request_tasks s) \<union> (\<lambda>sp. (sp, the_task env tm p tid)) ` set sps"
    "length (filter P (request_tasks (AddRequests lib env tm p tid sps s))) =
       length (filter P (request_tasks s)) + length (filter (\<lambda>sp. P (sp, the_task env tm p tid)) sps)"
    "distinct (map f (request_tasks s)) \<Longrightarrow> distinct sps \<Longrightarrow>
     (\<And>sp. sp \<in> set sps \<Longrightarrow> f (sp, the_task env tm p tid) \<notin> f ` set (request_tasks s)) \<Longrightarrow>
     inj_on (\<lambda>sp. f (sp, the_task env tm p tid)) (set sps) \<Longrightarrow> distinct (map f (request_tasks (AddRequests lib env tm p tid sps s)))"
proof (induction sps arbitrary: s)
  case (Cons sp sps)
  { case 1 show ?case using Cons.IH(1) by auto }
  { case 2 show ?case using Cons.IH(2) by simp }
  { case 3
    have "f (x, the_task env tm p tid) \<notin> f ` insert (sp, the_task env tm p tid) (set (request_tasks s))" if "x \<in> set sps" for x
      using 3 that by (auto simp: inj_on_def)
    moreover have "inj_on (\<lambda>sp. f (sp, the_task env tm p tid)) (set sps)" using 3(4) by (simp add: inj_on_def)
    ultimately show ?case using 3 Cons.IH(3) [of "AddRequest lib env sp tm p tid s"] by simp }
qed simp_all

text \<open>What a request changes.\<close>

definition ask_timeout :: "p2p_env \<Rightarrow> live_peer \<Rightarrow> nat" where
  "ask_timeout env pr = (rtt_avg pr + GetTimeoutAdjustment env pr) mod 2 ^ 32"

definition sending :: "nat \<Rightarrow> p2p_packet \<Rightarrow> live_session \<Rightarrow> live_session" where
  "sending n pk s = s\<lparr>transactions := transactions s + 1, sent_packets := sent_packets s @ replicate n pk\<rparr>"

lemma sending_simps [simp]:
  "peers (sending n pk s) = peers s" "connected (sending n pk s) = connected s" "udpserver_count (sending n pk s) = udpserver_count s"
  "request_tasks (sending n pk s) = request_tasks s" "subpiece_count_map (sending n pk s) = subpiece_count_map s"
  "session_cache (sending n pk s) = session_cache s" "transactions (sending n pk s) = transactions s + 1"
  "peer (sending n pk s) q = peer s q"
  by (simp_all add: sending_def peer_def)

lemma peer_AddRequests [simp]: "peer (AddRequests lib env tm p tid sps s) q = peer s q"
  by (simp add: peer_def)

lemma AddRequests_only_tasks:
  "request_tasks u = request_tasks v \<Longrightarrow>
   request_tasks (AddRequests lib env tm p tid sps u) = request_tasks (AddRequests lib env tm p tid sps v)"
  by (induction sps arbitrary: u v) simp_all

lemma RequestSubPieces_eq:
  assumes "peer_running (peer s p)" "n \<noteq> 0" "task_set (peer s p) \<noteq> []"
  shows "\<exists>k pk. RequestSubPieces lib env n False p s =
     upd_peer p (peer_asked env (take n (task_set (peer s p))) (transaction_id lib (transactions s)) n)
       (AddRequests lib env (ask_timeout env (peer s p)) p (transaction_id lib (transactions s)) (take n (task_set (peer s p)))
         (sending k pk s))"
proof -
  have "asked s False n (peer s p) = take n (task_set (peer s p))" by (simp add: asked_def)
  with assms show ?thesis unfolding RequestSubPieces_def Let_def ask_timeout_def sending_def by auto
qed

lemma request_changes:
  fixes lib :: p2p_lib and env :: p2p_env
  assumes "p < length (peers s)" "peer_running (peer s p)" "n \<noteq> 0" "task_set (peer s p) \<noteq> []"
  defines "t \<equiv> RequestSubPieces lib env n False p s"
    and "sps \<equiv> take n (task_set (peer s p))" and "tid \<equiv> transaction_id lib (transactions s)"
  shows "peer t p = peer_asked env sps tid n (peer s p)" "transactions t = transactions s + 1"
    "connected t = connected s" "udpserver_count t = udpserver_count s" "session_cache t = session_cache s"
    "subpiece_count_map t = subpiece_count_map s"
    "request_tasks t = request_tasks (AddRequests lib env (ask_timeout env (peer s p)) p tid sps s)"
    "\<And>q. q \<noteq> p \<Longrightarrow> peer t q = peer s q" "length (peers t) = length (peers s)"
proof -
  obtain k pk where "t = upd_peer p (peer_asked env sps tid n)
      (AddRequests lib env (ask_timeout env (peer s p)) p tid sps (sending k pk s))"
    using RequestSubPieces_eq [OF assms(2-4), of lib env] unfolding t_def sps_def tid_def by blast
  then show "peer t p = peer_asked env sps tid n (peer s p)" "transactions t = transactions s + 1"
    "connected t = connected s" "udpserver_count t = udpserver_count s" "session_cache t = session_cache s"
    "subpiece_count_map t = subpiece_count_map s"
    "request_tasks t = request_tasks (AddRequests lib env (ask_timeout env (peer s p)) p tid sps s)"
    "\<And>q. q \<noteq> p \<Longrightarrow> peer t q = peer s q" "length (peers t) = length (peers s)"
    using assms(1) AddRequests_only_tasks [of "sending k pk s" s] by simp_all
qed

lemma known_id_next:
  "known_id lib s tid \<Longrightarrow> transactions t = transactions s + 1 \<Longrightarrow> known_id lib t tid"
  "transactions t = transactions s + 1 \<Longrightarrow> known_id lib t (transaction_id lib (transactions s))"
  by (auto simp: known_id_def)

lemma known_id_fresh:
  "inj (transaction_id lib) \<Longrightarrow> \<not> known_id lib s (transaction_id lib (transactions s))"
  by (auto simp: known_id_def inj_def)

lemma owned_request:
  assumes "owned lib own s" "inj (transaction_id lib)" "p < length (peers s)" "peer_running (peer s p)" "n \<noteq> 0"
    "task_set (peer s p) \<noteq> []" "distinct (task_set (peer s p))"
  shows "owned lib (own(transaction_id lib (transactions s) := p)) (RequestSubPieces lib env n False p s)"
proof -
  let ?tid = "transaction_id lib (transactions s)" and ?t = "RequestSubPieces lib env n False p s"
  let ?sps = "take n (task_set (peer s p))"
  note c = request_changes [OF assms(3-6), where lib = lib and env = env]
  note fresh = known_id_fresh [OF assms(2), of s]
  have o: "\<And>e. e \<in> set (request_tasks s) \<Longrightarrow> request_peer (snd e) < length (peers s) \<and>
      known_id lib s (request_transaction (snd e)) \<and> own (request_transaction (snd e)) = request_peer (snd e)"
    "distinct (map (\<lambda>e. (fst e, request_transaction (snd e))) (request_tasks s))"
    "\<And>q x. q < length (peers s) \<Longrightarrow> x \<in> set (request_map (peer s q)) \<Longrightarrow> known_id lib s (fst x) \<and> own (fst x) = q"
    using assms(1) by (auto simp: owned_def)
  have tasks: "request_peer (snd e) < length (peers ?t) \<and> known_id lib ?t (request_transaction (snd e)) \<and>
      (own(?tid := p)) (request_transaction (snd e)) = request_peer (snd e)" if "e \<in> set (request_tasks ?t)" for e
  proof (cases "e \<in> set (request_tasks s)")
    case True
    then have "request_transaction (snd e) \<noteq> ?tid" using o(1) fresh by metis
    with o(1) [OF True] show ?thesis using known_id_next(1) [OF _ c(2)] c(9) by simp
  next
    case False
    then have "request_peer (snd e) = p \<and> request_transaction (snd e) = ?tid"
      using that by (auto simp: c(7) AddRequests_tasks(1))
    then show ?thesis using known_id_next(2) [OF c(2)] c(9) assms(3) by simp
  qed
  have keys: "distinct (map (\<lambda>e. (fst e, request_transaction (snd e))) (request_tasks ?t))"
    unfolding c(7)
  proof (rule AddRequests_tasks(3) [OF o(2)])
    show "distinct ?sps" using assms(7) by simp
    show "(fst (sp, the_task env (ask_timeout env (peer s p)) p ?tid),
        request_transaction (snd (sp, the_task env (ask_timeout env (peer s p)) p ?tid)))
      \<notin> (\<lambda>e. (fst e, request_transaction (snd e))) ` set (request_tasks s)" for sp
      using o(1) fresh by fastforce
  qed (simp add: inj_on_def)
  have maps: "known_id lib ?t (fst x) \<and> (own(?tid := p)) (fst x) = q"
    if q: "q < length (peers ?t)" and x: "x \<in> set (request_map (peer ?t q))" for q x
  proof (cases "q = p \<and> x \<notin> set (request_map (peer s q))")
    case True
    then have "fst x = ?tid" using x by (auto simp: c(1) peer_asked_def split: if_splits)
    then show ?thesis using True known_id_next(2) [OF c(2)] by simp
  next
    case False
    then have "x \<in> set (request_map (peer s q))" using x c(8) by (cases "q = p") auto
    with o(3) [of q x] q c(9) have k: "known_id lib s (fst x)" "own (fst x) = q" by auto
    then have "fst x \<noteq> ?tid" using fresh by metis
    then show ?thesis using k known_id_next(1) [OF k(1) c(2)] by simp
  qed
  show ?thesis using tasks keys maps by (simp add: owned_def)
qed

lemma counted_request:
  assumes "counted due s" "p < length (peers s)" "peer_running (peer s p)" "n \<noteq> 0" "task_set (peer s p) \<noteq> []"
  shows "counted due (RequestSubPieces lib env n False p s)"
proof -
  let ?t = "RequestSubPieces lib env n False p s"
  note c = request_changes [OF assms(2-5), where lib = lib and env = env]
  have n: "outstanding ?t q = outstanding s q + (if q = p then length (take n (task_set (peer s p))) else 0)" for q
    by (simp add: outstanding_def c(7) AddRequests_tasks(2))
  have "requesting_count (peer ?t q) = int (outstanding ?t q) + due q" if "q < length (peers ?t)" "peer_running (peer ?t q)" for q
  proof (cases "q = p")
    case True
    then show ?thesis using assms(1-3) by (simp add: counted_def n c(1) peer_asked_def)
  next
    case False
    then show ?thesis using assms(1) that by (simp add: counted_def n c(8,9))
  qed
  then show ?thesis by (simp add: counted_def)
qed

text \<open>What handlers of requests leave alone.\<close>

definition same_connection :: "live_peer \<Rightarrow> live_peer \<Rightarrow> bool" where
  "same_connection q r \<longleftrightarrow>
     peer_end_point r = peer_end_point q \<and> peer_connect_type r = peer_connect_type q \<and> peer_config r = peer_config q \<and>
     peer_running r = peer_running q \<and> block_bitmap r = block_bitmap q"

definition frame :: "live_session \<Rightarrow> live_session \<Rightarrow> bool" where
  "frame s t \<longleftrightarrow>
     length (peers t) = length (peers s) \<and> connected t = connected s \<and> udpserver_count t = udpserver_count s \<and>
     session_cache t = session_cache s \<and> subpiece_count_map t = subpiece_count_map s \<and>
     (\<forall>q. same_connection (peer s q) (peer t q))"

lemma frame_refl [simp]: "frame s s"
  by (simp add: frame_def same_connection_def)

lemma frame_trans: "frame s t \<Longrightarrow> frame t u \<Longrightarrow> frame s u"
  by (simp add: frame_def same_connection_def)

lemma frameD:
  assumes "frame s t"
  shows "length (peers t) = length (peers s)" "connected t = connected s" "session_cache t = session_cache s"
    "peer_running (peer t q) = peer_running (peer s q)" "peer_end_point (peer t q) = peer_end_point (peer s q)"
    "block_bitmap (peer t q) = block_bitmap (peer s q)" "IsUdpServer (peer t q) = IsUdpServer (peer s q)"
    "subpiece_count_map t = subpiece_count_map s" "udpserver_count t = udpserver_count s"
    "peer_config (peer t q) = peer_config (peer s q)"
  using assms by (auto simp: frame_def same_connection_def IsUdpServer_def)

lemma frame_upd_peer:
  assumes "p < length (peers s)" "same_connection (peer s p) (f (peer s p))"
  shows "frame s (upd_peer p f s)"
proof -
  have "same_connection (peer s q) (peer (upd_peer p f s) q)" for q
    using assms by (cases "q = p") (simp_all add: same_connection_def)
  then show ?thesis by (simp add: frame_def)
qed

lemma frame_connections: "frame s t \<Longrightarrow> connections_ok s \<Longrightarrow> connections_ok t"
  by (simp add: connections_ok_def frameD)

lemma all_peers: "(\<forall>q\<in>set (peers s). P q) \<longleftrightarrow> (\<forall>p<length (peers s). P (peer s p))"
  by (simp add: peer_def all_set_conv_all_nth)

lemma session_okD:
  assumes "session_ok plib lib due s"
  shows "cache_ok plib (session_cache s)" "tasks_ok lib due s" "connections_ok s"
    "\<And>p. p < length (peers s) \<Longrightarrow> peer_ok (peer s p)"
  using assms by (auto simp: session_ok_def all_peers)

lemma session_okI:
  assumes "session_ok plib lib due s" "frame s t" "tasks_ok lib due' t"
    "\<And>p. p < length (peers s) \<Longrightarrow> peer_ok (peer s p) \<Longrightarrow> peer_ok (peer t p)"
  shows "session_ok plib lib due' t"
  using session_okD [OF assms(1)] frameD(1,3) [OF assms(2)] frame_connections [OF assms(2)] assms(3,4)
  by (simp add: session_ok_def all_peers)

definition grown :: "p2p_lib \<Rightarrow> p2p_env \<Rightarrow> live_session \<Rightarrow> live_session \<Rightarrow> bool" where
  "grown lib env s t \<longleftrightarrow>
     transactions s \<le> transactions t \<and> set (request_tasks s) \<subseteq> set (request_tasks t) \<and>
     (\<forall>e\<in>set (request_tasks t). e \<in> set (request_tasks s) \<or>
        \<not> known_id lib s (request_transaction (snd e)) \<and> request_time (snd e) = p2p_now env)"

lemma known_id_mono: "known_id lib s tid \<Longrightarrow> transactions s \<le> transactions t \<Longrightarrow> known_id lib t tid"
  by (auto simp: known_id_def)

lemma grown_refl [simp]: "grown lib env s s"
  by (simp add: grown_def)

lemma grown_trans: "grown lib env s t \<Longrightarrow> grown lib env t u \<Longrightarrow> grown lib env s u"
  unfolding grown_def using known_id_mono [of lib s _ t] by fastforce

lemma grown_cong:
  "grown lib env s t \<Longrightarrow> request_tasks s' = request_tasks s \<Longrightarrow> transactions s' = transactions s \<Longrightarrow> grown lib env s' t"
  by (simp add: grown_def known_id_def)

lemma grown_request:
  assumes "inj (transaction_id lib)" "p < length (peers s)" "peer_running (peer s p)" "n \<noteq> 0" "task_set (peer s p) \<noteq> []"
  shows "grown lib env s (RequestSubPieces lib env n False p s)"
  using request_changes(2,7) [OF assms(2-5), where lib = lib and env = env] known_id_fresh [OF assms(1), of s]
  by (auto simp: grown_def AddRequests_tasks(1))

definition fully_asked :: "live_peer \<Rightarrow> bool" where
  "fully_asked q \<longleftrightarrow> window_size q \<le> requesting_count q \<or> task_set q = []"

lemma peer_asked_ok:
  assumes "peer_ok q" "requesting_count q < window_size q" "length sps \<le> request_batch q"
  shows "peer_ok (peer_asked env sps tid n q)"
  using assms by (auto simp: peer_ok_def peer_asked_def request_batch_def greatest_window_def IsUdpServer_def)

lemma request_batch_pos: "peer_ok q \<Longrightarrow> request_batch q \<noteq> 0"
  by (simp add: peer_ok_def request_batch_def config_ok_def)

lemma till_full_ok:
  assumes "session_ok plib lib due s" "inj (transaction_id lib)" "p < length (peers s)" "peer_running (peer s p)"
  shows "\<exists>t. till_full lib env p s = Inr t \<and> session_ok plib lib due t \<and> frame s t \<and> fully_asked (peer t p) \<and>
    (\<forall>q. q \<noteq> p \<longrightarrow> peer t q = peer s q) \<and> set (task_set (peer t p)) \<subseteq> set (task_set (peer s p)) \<and> grown lib env s t"
  using assms
proof (induction lib env p s rule: till_full.induct)
  case (1 lib env p s)
  let ?c = "requesting_count (peer s p) < window_size (peer s p) \<and> task_set (peer s p) \<noteq> []"
  let ?u = "RequestSubPieces lib env (request_batch (peer s p)) False p s"
  show ?case
  proof (cases ?c)
    case False
    then have "till_full lib env p s = Inr s" by (subst till_full.simps) (simp only: if_False)
    moreover have "fully_asked (peer s p)" using False by (auto simp: fully_asked_def)
    ultimately show ?thesis using 1(2) by auto
  next
    case True
    note ok = session_okD [OF 1(2)]
    note pk = ok(4) [OF 1(4)]
    note c = request_changes [OF 1(4,5) request_batch_pos [OF pk], where lib = lib and env = env]
    have ts: "task_set (peer s p) \<noteq> []" using True by simp
    obtain own where own: "owned lib own s" and cn: "counted due s" using ok(2) by (auto simp: tasks_ok_def)
    have "distinct (task_set (peer s p))" using pk by (simp add: peer_ok_def)
    then have tk: "tasks_ok lib due ?u"
      using owned_request [OF own 1(3-5) request_batch_pos [OF pk] ts] counted_request [OF cn 1(4,5) request_batch_pos [OF pk] ts]
      by (auto simp: tasks_ok_def)
    have "same_connection (peer s q) (peer ?u q)" for q
      using c(1,8) [OF ts] by (cases "q = p") (simp_all add: same_connection_def peer_asked_def)
    then have fr: "frame s ?u" using c(3,4,5,6,9) [OF ts] by (simp add: frame_def)
    have pok: "peer_ok (peer ?u q)" if "peer_ok (peer s q)" for q
    proof (cases "q = p")
      case True
      have "peer_ok (peer_asked env (take (request_batch (peer s p)) (task_set (peer s p)))
          (transaction_id lib (transactions s)) (request_batch (peer s p)) (peer s p))"
        by (rule peer_asked_ok [OF pk]) (use \<open>?c\<close> in auto)
      then show ?thesis by (simp add: True c(1) [OF ts])
    next
      case False
      then show ?thesis using that by (simp add: c(8) [OF ts])
    qed
    have uk: "session_ok plib lib due ?u" by (rule session_okI [OF 1(2) fr tk pok])
    have ne: "requesting_count (peer ?u p) \<noteq> requesting_count (peer s p)"
      using c(1) [OF ts] ts request_batch_pos [OF pk] by (simp add: peer_asked_def)
    have sub: "set (task_set (peer ?u p)) \<subseteq> set (task_set (peer s p))"
      using c(1) [OF ts] by (simp add: peer_asked_def set_drop_subset)
    have "p < length (peers ?u)" "peer_running (peer ?u p)" using 1(4,5) frameD(1,4) [OF fr] by simp_all
    with 1(1) [OF True ne uk 1(3)] obtain t where t: "till_full lib env p ?u = Inr t" "session_ok plib lib due t" "frame ?u t"
      "fully_asked (peer t p)" "\<forall>q. q \<noteq> p \<longrightarrow> peer t q = peer ?u q" "set (task_set (peer t p)) \<subseteq> set (task_set (peer ?u p))"
      "grown lib env ?u t" by auto
    have "till_full lib env p s = Inr t"
      by (subst till_full.simps) (simp only: if_P [OF True] if_not_P [OF ne] t(1))
    moreover have "\<forall>q. q \<noteq> p \<longrightarrow> peer t q = peer s q" using t(5) c(8) [OF ts] by simp
    moreover have "grown lib env s t"
      using grown_trans [OF grown_request [OF 1(3-5) request_batch_pos [OF pk] ts] t(7)] .
    ultimately show ?thesis using t(2,4,6) sub frame_trans [OF fr t(3)] by auto
  qed
qed

lemma RequestTillFullWindow_ok:
  assumes "session_ok plib lib due s" "inj (transaction_id lib)" "p < length (peers s)"
  shows "\<exists>t. RequestTillFullWindow lib env p s = Inr t \<and> session_ok plib lib due t \<and> frame s t \<and>
    (peer_running (peer s p) \<longrightarrow> fully_asked (peer t p)) \<and> (\<forall>q. q \<noteq> p \<longrightarrow> peer t q = peer s q) \<and>
    set (task_set (peer t p)) \<subseteq> set (task_set (peer s p)) \<and> grown lib env s t"
  using till_full_ok [OF assms, of env] assms(1) by (cases "peer_running (peer s p)") (auto simp: RequestTillFullWindow_def)

lemma count_down:
  assumes "session_ok plib lib due s" "p < length (peers s)" "same_connection (peer s p) (f (peer s p))"
    "requesting_count (f (peer s p)) = requesting_count (peer s p) - 1" "task_set (f (peer s p)) = task_set (peer s p)"
    "window_size (f (peer s p)) = window_size (peer s p)" "request_map (f (peer s p)) = request_map (peer s p)"
  shows "session_ok plib lib (due(p := due p - 1)) (upd_peer p f s)"
proof (rule session_okI [OF assms(1) frame_upd_peer [where f = f, OF assms(2,3)]])
  obtain own where own: "owned lib own s" and cn: "counted due s" using session_okD(2) [OF assms(1)] by (auto simp: tasks_ok_def)
  have "request_map (peer (upd_peer p f s) q) = request_map (peer s q)" for q
    using assms(2,7) by (cases "q = p") simp_all
  then have "owned lib own (upd_peer p f s)" using own by (simp add: owned_def known_id_def)
  moreover have "requesting_count (peer (upd_peer p f s) q) = int (outstanding (upd_peer p f s) q) + (due(p := due p - 1)) q"
    if "q < length (peers s)" "peer_running (peer (upd_peer p f s) q)" for q
    using that cn assms(2,3,4) by (cases "q = p") (simp_all add: counted_def outstanding_def same_connection_def)
  ultimately show "tasks_ok lib (due(p := due p - 1)) (upd_peer p f s)" by (auto simp: tasks_ok_def counted_def)
  show "peer_ok (peer (upd_peer p f s) q)" if "q < length (peers s)" "peer_ok (peer s q)" for q
    using that assms(2-6) by (cases "q = p")
      (auto simp: peer_ok_def same_connection_def greatest_window_def request_batch_def IsUdpServer_def)
qed

lemma not_running_due:
  assumes "session_ok plib lib due s" "\<not> peer_running (peer s p)"
  shows "session_ok plib lib (due(p := d)) s"
  using assms by (auto simp: session_ok_def tasks_ok_def counted_def)

lemma ended_ok:
  assumes "session_ok plib lib due s" "inj (transaction_id lib)" "p < length (peers s)"
  shows "\<exists>t. peer_OnSubPieceTimeout lib env p s = Inr t \<and> session_ok plib lib (due(p := due p - 1)) t \<and> frame s t \<and>
      (peer_running (peer s p) \<longrightarrow> fully_asked (peer t p)) \<and> (\<forall>q. q \<noteq> p \<longrightarrow> peer t q = peer s q) \<and>
      set (task_set (peer t p)) \<subseteq> set (task_set (peer s p)) \<and> grown lib env s t"
    "\<exists>t. peer_OnSubPiece lib env rtt p s = Inr t \<and> session_ok plib lib (due(p := due p - 1)) t \<and> frame s t \<and>
      (peer_running (peer s p) \<longrightarrow> fully_asked (peer t p)) \<and> (\<forall>q. q \<noteq> p \<longrightarrow> peer t q = peer s q) \<and>
      set (task_set (peer t p)) \<subseteq> set (task_set (peer s p)) \<and> grown lib env s t"
proof -
  have main: "\<exists>t. (if \<not> peer_running (peer s p) then Inr s else RequestTillFullWindow lib env p (upd_peer p f s)) = Inr t \<and>
      session_ok plib lib (due(p := due p - 1)) t \<and> frame s t \<and>
      (peer_running (peer s p) \<longrightarrow> fully_asked (peer t p)) \<and> (\<forall>q. q \<noteq> p \<longrightarrow> peer t q = peer s q) \<and>
      set (task_set (peer t p)) \<subseteq> set (task_set (peer s p)) \<and> grown lib env s t"
    if f: "same_connection (peer s p) (f (peer s p))" "requesting_count (f (peer s p)) = requesting_count (peer s p) - 1"
      "task_set (f (peer s p)) = task_set (peer s p)" "window_size (f (peer s p)) = window_size (peer s p)"
      "request_map (f (peer s p)) = request_map (peer s p)" for f
  proof (cases "peer_running (peer s p)")
    case True
    let ?u = "upd_peer p f s"
    have fr: "frame s ?u" by (rule frame_upd_peer [where f = f, OF assms(3) f(1)])
    have run: "peer_running (peer ?u p)" using True frameD(4) [OF fr] by simp
    have l: "p < length (peers ?u)" using assms(3) by simp
    from RequestTillFullWindow_ok [OF count_down [where f = f, OF assms(1,3) f] assms(2) l, of env] run obtain t where t:
      "RequestTillFullWindow lib env p ?u = Inr t" "session_ok plib lib (due(p := due p - 1)) t" "frame ?u t" "fully_asked (peer t p)"
      "\<forall>q. q \<noteq> p \<longrightarrow> peer t q = peer ?u q" "set (task_set (peer t p)) \<subseteq> set (task_set (peer ?u p))" "grown lib env ?u t" by auto
    have "grown lib env s t" by (rule grown_cong [OF t(7)]) simp_all
    then show ?thesis using True t frame_trans [OF fr t(3)] f(3) assms(3) by auto
  next
    case False
    then show ?thesis using not_running_due [OF assms(1) False] by simp
  qed
  show "\<exists>t. peer_OnSubPieceTimeout lib env p s = Inr t \<and> session_ok plib lib (due(p := due p - 1)) t \<and> frame s t \<and>
      (peer_running (peer s p) \<longrightarrow> fully_asked (peer t p)) \<and> (\<forall>q. q \<noteq> p \<longrightarrow> peer t q = peer s q) \<and>
      set (task_set (peer t p)) \<subseteq> set (task_set (peer s p)) \<and> grown lib env s t"
    unfolding peer_OnSubPieceTimeout_def by (rule main) (simp_all add: same_connection_def)
  show "\<exists>t. peer_OnSubPiece lib env rtt p s = Inr t \<and> session_ok plib lib (due(p := due p - 1)) t \<and> frame s t \<and>
      (peer_running (peer s p) \<longrightarrow> fully_asked (peer t p)) \<and> (\<forall>q. q \<noteq> p \<longrightarrow> peer t q = peer s q) \<and>
      set (task_set (peer t p)) \<subseteq> set (task_set (peer s p)) \<and> grown lib env s t"
    unfolding peer_OnSubPiece_def by (rule main) (simp_all add: same_connection_def received_one_def)
qed

lemma timeouts_ok:
  assumes "session_ok plib lib due s" "inj (transaction_id lib)" "set ps \<subseteq> {..<length (peers s)}"
  shows "\<exists>t. timeouts lib env ps s = Inr t \<and> session_ok plib lib (\<lambda>q. due q - int (count_list ps q)) t \<and> frame s t \<and>
    grown lib env s t"
  using assms
proof (induction ps arbitrary: s due)
  case (Cons p ps)
  then have p: "p < length (peers s)" by simp
  from ended_ok(1) [OF Cons.prems(1,2) p, of env] obtain u where u: "peer_OnSubPieceTimeout lib env p s = Inr u"
    "session_ok plib lib (due(p := due p - 1)) u" "frame s u" "grown lib env s u" by auto
  have "set ps \<subseteq> {..<length (peers u)}" using Cons.prems(3) frameD(1) [OF u(3)] by simp
  from Cons.IH [OF u(2) Cons.prems(2) this] obtain t where t: "timeouts lib env ps u = Inr t"
    "session_ok plib lib (\<lambda>q. (due(p := due p - 1)) q - int (count_list ps q)) t" "frame u t" "grown lib env u t" by auto
  have "(\<lambda>q. (due(p := due p - 1)) q - int (count_list ps q)) = (\<lambda>q. due q - int (count_list (p # ps) q))"
    by (auto simp: fun_eq_iff)
  with t u show ?case using frame_trans grown_trans by (fastforce simp: and_then_def)
qed simp

text \<open>Erasing requests.\<close>

lemma distinct_map_subset:
  assumes "mset m' \<subseteq># mset m" "distinct (map f m)"
  shows "distinct (map f m')"
proof -
  have "count (mset (map f m')) a \<le> 1" for a
  proof -
    have "mset (map f m') \<subseteq># mset (map f m)" using image_mset_subseteq_mono [OF assms(1)] by (simp flip: mset_map)
    then have "count (mset (map f m')) a \<le> count (mset (map f m)) a" by (simp add: subseteq_mset_def)
    also have "\<dots> \<le> 1" using assms(2) by (simp add: distinct_count_atmost_1 del: mset_map)
    finally show ?thesis .
  qed
  then show ?thesis unfolding distinct_count_atmost_1
    by (metis count_eq_zero_iff le_eq_less_or_eq less_one set_mset_mset)
qed

lemma erase_ok:
  assumes "session_ok plib lib due s" "mset m \<subseteq># mset (request_tasks s)"
    "\<And>p. p < length (peers s) \<Longrightarrow> due' p = due p + int (outstanding s p) - int (outstanding (s\<lparr>request_tasks := m\<rparr>) p)"
  shows "session_ok plib lib due' (s\<lparr>request_tasks := m\<rparr>)" "frame s (s\<lparr>request_tasks := m\<rparr>)"
proof -
  let ?t = "s\<lparr>request_tasks := m\<rparr>"
  obtain own where own: "owned lib own s" and cn: "counted due s" using session_okD(2) [OF assms(1)] by (auto simp: tasks_ok_def)
  have sub: "set m \<subseteq> set (request_tasks s)" using set_mset_mono [OF assms(2)] by simp
  show fr: "frame s ?t" by (simp add: frame_def same_connection_def peer_def)
  have "owned lib own ?t"
    using own sub distinct_map_subset [OF assms(2)] by (auto simp: owned_def known_id_def peer_def)
  moreover have "counted due' ?t" using cn assms(3) by (simp add: counted_def peer_def)
  ultimately have "tasks_ok lib due' ?t" by (auto simp: tasks_ok_def)
  then show "session_ok plib lib due' ?t" by (rule session_okI [OF assms(1) fr]) (simp add: peer_def)
qed

definition requests_of :: "nat \<Rightarrow> (live_subpiece \<times> request_task) list \<Rightarrow> nat" where
  "requests_of p m = length (filter (\<lambda>e. request_peer (snd e) = p) m)"

lemma requests_of_simps [simp]:
  "requests_of p [] = 0" "requests_of p (e # m) = (if request_peer (snd e) = p then 1 else 0) + requests_of p m"
  by (simp_all add: requests_of_def)

lemma requests_of_remove1:
  "e \<in> set m \<Longrightarrow> requests_of q m = requests_of q (remove1 e m) + (if q = request_peer (snd e) then 1 else 0)"
  by (induction m) auto

lemma erase_request_peer:
  assumes "erase_request sp tid m = (n, m')" "\<forall>e\<in>set m. request_transaction (snd e) = tid \<longrightarrow> request_peer (snd e) = p"
  shows "mset m' \<subseteq># mset m \<and> requests_of q m = requests_of q m' + (if q = p then n else 0)"
  using assms
proof (induction m arbitrary: n m')
  case (Cons e m)
  show ?case
  proof (cases "fst e = sp \<and> request_transaction (snd e) = tid")
    case False
    obtain n1 m1 where r: "erase_request sp tid m = (n1, m1)" by (cases "erase_request sp tid m")
    with Cons.prems False have "n1 = n" "m' = e # m1" by auto
    with Cons.IH [OF r] Cons.prems(2) show ?thesis by auto
  qed (use Cons.prems in auto)
qed simp

lemma erase_lost_peer:
  assumes "erase_lost es m = (n, m')"
    "\<forall>x\<in>set es. \<forall>e\<in>set m. request_transaction (snd e) = fst x \<longrightarrow> request_peer (snd e) = p"
  shows "mset m' \<subseteq># mset m \<and> requests_of q m = requests_of q m' + (if q = p then n else 0)"
  using assms
proof (induction es arbitrary: m n m')
  case (Cons x es)
  obtain tid sp where x: "x = (tid, sp)" by (cases x)
  obtain k m1 where r: "erase_request sp tid m = (k, m1)" by (cases "erase_request sp tid m")
  obtain l m2 where l: "erase_lost es m1 = (l, m2)" by (cases "erase_lost es m1")
  have e: "n = k + l" "m' = m2" using Cons.prems(1) by (simp_all add: x r l)
  have a: "mset m1 \<subseteq># mset m \<and> requests_of q m = requests_of q m1 + (if q = p then k else 0)"
    using erase_request_peer [OF r, of p q] Cons.prems(2) by (simp add: x)
  then have "set m1 \<subseteq> set m" using set_mset_mono by fastforce
  with Cons.prems(2) have "\<forall>x\<in>set es. \<forall>e\<in>set m1. request_transaction (snd e) = fst x \<longrightarrow> request_peer (snd e) = p" by auto
  from Cons.IH [OF l this] a show ?case by (auto simp: e)
qed simp

text \<open>The two handlers of the request manager.\<close>

lemma outstanding_of: "outstanding s p = requests_of p (request_tasks s)"
  by (simp add: outstanding_def requests_of_def)

lemma requests_of_split: "requests_of p m = requests_of p (filter P m) + requests_of p (filter (\<lambda>e. \<not> P e) m)"
  by (induction m) auto

lemma requests_of_count: "requests_of p m = count_list (map (\<lambda>e. request_peer (snd e)) m) p"
  by (induction m) auto

lemma check_timeouts_ok:
  assumes "session_ok plib lib (\<lambda>_. 0) s" "inj (transaction_id lib)" "set es \<subseteq> set (request_tasks s)" "distinct es"
  shows "\<exists>t. check_timeouts lib env es s = Inr t \<and> session_ok plib lib (\<lambda>_. 0) t \<and> frame s t \<and>
    {e \<in> set (request_tasks s). e \<notin> set es \<or> \<not> request_IsTimeout env (snd e)} \<subseteq> set (request_tasks t) \<and>
    (\<forall>e\<in>set (request_tasks t). e \<in> set (request_tasks s) \<and> (e \<notin> set es \<or> \<not> request_IsTimeout env (snd e)) \<or>
       request_time (snd e) = p2p_now env)"
  using assms
proof (induction es arbitrary: s)
  case (Cons e es)
  show ?case
  proof (cases "request_IsTimeout env (snd e)")
    case False
    have "set es \<subseteq> set (request_tasks s)" "distinct es" using Cons.prems by auto
    from Cons.IH [OF Cons.prems(1,2) this] obtain t where t: "check_timeouts lib env es s = Inr t" "session_ok plib lib (\<lambda>_. 0) t"
      "frame s t" "{e \<in> set (request_tasks s). e \<notin> set es \<or> \<not> request_IsTimeout env (snd e)} \<subseteq> set (request_tasks t)"
      "\<forall>e\<in>set (request_tasks t). e \<in> set (request_tasks s) \<and> (e \<notin> set es \<or> \<not> request_IsTimeout env (snd e)) \<or>
         request_time (snd e) = p2p_now env" by blast
    then show ?thesis using False by (intro exI [of _ t]) auto
  next
    case True
    let ?p = "request_peer (snd e)"
    obtain own where own: "owned lib own s" using session_okD(2) [OF Cons.prems(1)] by (auto simp: tasks_ok_def)
    have p: "?p < length (peers s)" and kn: "\<And>f. f \<in> set (request_tasks s) \<Longrightarrow> known_id lib s (request_transaction (snd f))"
      using own Cons.prems(3) by (auto simp: owned_def)
    from ended_ok(1) [OF Cons.prems(1,2) p, of env] obtain u where u: "peer_OnSubPieceTimeout lib env ?p s = Inr u"
      "session_ok plib lib ((\<lambda>_. 0)(?p := 0 - 1)) u" "frame s u" "grown lib env s u" by auto
    let ?v = "u\<lparr>request_tasks := remove1 e (request_tasks u)\<rparr>"
    have eu: "e \<in> set (request_tasks u)" using u(4) Cons.prems(3) by (auto simp: grown_def)
    have sub: "mset (remove1 e (request_tasks u)) \<subseteq># mset (request_tasks u)" by simp
    have "requests_of q (request_tasks u) = requests_of q (remove1 e (request_tasks u)) + (if q = ?p then 1 else 0)" for q
      by (rule requests_of_remove1 [OF eu])
    then have v: "session_ok plib lib (\<lambda>_. 0) ?v" "frame u ?v"
      using erase_ok [OF u(2) sub, of "\<lambda>_. 0"] by (auto simp: outstanding_of)
    have du: "distinct (request_tasks u)"
      using session_okD(2) [OF u(2)] by (auto simp: tasks_ok_def owned_def distinct_map)
    then have sv: "set (request_tasks ?v) = set (request_tasks u) - {e}" by simp
    have es: "set es \<subseteq> set (request_tasks ?v)" "distinct es" using Cons.prems(3,4) u(4) sv by (auto simp: grown_def)
    from Cons.IH [OF v(1) Cons.prems(2) es] obtain t where t: "check_timeouts lib env es ?v = Inr t" "session_ok plib lib (\<lambda>_. 0) t"
      "frame ?v t" "{e \<in> set (request_tasks ?v). e \<notin> set es \<or> \<not> request_IsTimeout env (snd e)} \<subseteq> set (request_tasks t)"
      "\<forall>e\<in>set (request_tasks t). e \<in> set (request_tasks ?v) \<and> (e \<notin> set es \<or> \<not> request_IsTimeout env (snd e)) \<or>
         request_time (snd e) = p2p_now env" by blast
    have "check_timeouts lib env (e # es) s = Inr t" using True u(1) t(1) by (simp add: and_then_def)
    moreover have "{f \<in> set (request_tasks s). f \<notin> set (e # es) \<or> \<not> request_IsTimeout env (snd f)} \<subseteq> set (request_tasks t)"
      using t(4) sv u(4) True by (auto simp: grown_def)
    moreover have "\<forall>f\<in>set (request_tasks t). f \<in> set (request_tasks s) \<and> (f \<notin> set (e # es) \<or> \<not> request_IsTimeout env (snd f)) \<or>
         request_time (snd f) = p2p_now env"
    proof
      fix f assume "f \<in> set (request_tasks t)"
      with t(5) consider "f \<in> set (request_tasks ?v)" "f \<notin> set es \<or> \<not> request_IsTimeout env (snd f)" | "request_time (snd f) = p2p_now env"
        by blast
      then show "f \<in> set (request_tasks s) \<and> (f \<notin> set (e # es) \<or> \<not> request_IsTimeout env (snd f)) \<or> request_time (snd f) = p2p_now env"
      proof cases
        case 1
        then have "f \<in> set (request_tasks s) \<or> request_time (snd f) = p2p_now env" "f \<noteq> e"
          using sv u(4) by (auto simp: grown_def)
        with 1(2) show ?thesis by auto
      qed simp
    qed
    ultimately show ?thesis using t(2) frame_trans [OF frame_trans [OF u(3) v(2)] t(3)] by blast
  qed
qed auto

lemma count_list_split:
  "count_list (map f xs) q = count_list (map f (filter P xs)) q + count_list (map f (filter (\<lambda>x. \<not> P x) xs)) q"
  by (induction xs) auto

lemma peer_ok_same:
  assumes "same_connection q r" "requesting_count r = requesting_count q" "task_set r = task_set q" "window_size r = window_size q"
  shows "peer_ok q \<Longrightarrow> peer_ok r"
proof -
  have "greatest_window r = greatest_window q" "request_batch r = request_batch q"
    using assms(1) by (simp_all add: same_connection_def greatest_window_def request_batch_def IsUdpServer_def)
  then show "peer_ok q \<Longrightarrow> peer_ok r" using assms by (simp add: peer_ok_def same_connection_def)
qed

lemma frame_same: "frame s t \<Longrightarrow> same_connection (peer s q) (peer t q)"
  by (simp add: frame_def)

lemma at_most_one:
  assumes "distinct (map f xs)" "\<And>x y. x \<in> set xs \<Longrightarrow> y \<in> set xs \<Longrightarrow> f x = f y"
  shows "xs = [] \<or> (\<exists>x. xs = [x])"
proof (cases xs)
  case (Cons x ys)
  show ?thesis
  proof (cases ys)
    case (Cons y zs)
    with \<open>xs = x # ys\<close> have "f x = f y" by (intro assms(2)) simp_all
    with assms(1) \<open>xs = x # ys\<close> Cons show ?thesis by simp
  qed (use \<open>xs = x # ys\<close> in simp)
qed simp

lemma matched_received_ok:
  assumes "session_ok plib lib due s" "inj (transaction_id lib)" "request_peer t < length (peers s)"
  shows "\<exists>u. matched_received lib env tid t s = Inr u \<and>
    session_ok plib lib (due(request_peer t := due (request_peer t) - 1)) u \<and> frame s u \<and> grown lib env s u"
proof -
  let ?p = "request_peer t"
  from ended_ok(2) [OF assms, of env "request_age env t"] obtain v where v:
    "peer_OnSubPiece lib env (request_age env t) ?p s = Inr v" "session_ok plib lib (due(?p := due ?p - 1)) v" "frame s v"
    "grown lib env s v" by auto
  let ?u = "upd_peer ?p (UpdateLastReceived tid) v"
  have l: "?p < length (peers v)" using assms(3) frameD(1) [OF v(3)] by simp
  have fr: "frame v ?u" by (rule frame_upd_peer [OF l]) (simp add: same_connection_def UpdateLastReceived_def)
  have same: "requesting_count (peer ?u q) = requesting_count (peer v q)" "request_map (peer ?u q) = request_map (peer v q)"
    "task_set (peer ?u q) = task_set (peer v q)" "window_size (peer ?u q) = window_size (peer v q)" for q
    using l by (cases "q = ?p"; simp add: UpdateLastReceived_def)+
  obtain own where own: "owned lib own v" and cn: "counted (due(?p := due ?p - 1)) v"
    using session_okD(2) [OF v(2)] by (auto simp: tasks_ok_def)
  have "owned lib own ?u" using own by (simp add: owned_def known_id_def same)
  moreover have "counted (due(?p := due ?p - 1)) ?u"
    using cn by (simp add: counted_def same outstanding_def frameD(4) [OF fr])
  ultimately have "tasks_ok lib (due(?p := due ?p - 1)) ?u" by (auto simp: tasks_ok_def)
  then have "session_ok plib lib (due(?p := due ?p - 1)) ?u"
  proof (rule session_okI [OF v(2) fr])
    show "peer_ok (peer ?u q)" if "peer_ok (peer v q)" for q
      by (rule peer_ok_same [OF frame_same [OF fr] same(1,3,4) that])
  qed
  moreover have "grown lib env s ?u" using v(4) by (simp add: grown_def)
  ultimately show ?thesis using v(1) frame_trans [OF v(3) fr] by (simp add: matched_received_def)
qed

lemma DeleteLostPackets_ok:
  assumes "session_ok plib lib due s" "p < length (peers s)" "DeleteLostPackets tid p s = (lost, t)"
  shows "session_ok plib lib due t" "frame s t" "request_tasks t = request_tasks s" "transactions t = transactions s"
    "\<And>x e. x \<in> set lost \<Longrightarrow> known_id lib s (fst x) \<and>
       (e \<in> set (request_tasks s) \<longrightarrow> request_transaction (snd e) = fst x \<longrightarrow> request_peer (snd e) = p)"
proof -
  let ?f = "\<lambda>q. q\<lparr>request_map := dropWhile (\<lambda>e. fst e < tid) (request_map q)\<rparr>"
  have t: "t = upd_peer p ?f s" and lost: "lost = takeWhile (\<lambda>e. fst e < tid) (request_map (peer s p))"
    using assms(3) by (auto simp: DeleteLostPackets_def)
  show fr: "frame s t" unfolding t by (rule frame_upd_peer [OF assms(2)]) (simp add: same_connection_def)
  show tk: "request_tasks t = request_tasks s" "transactions t = transactions s" by (simp_all add: t)
  obtain own where own: "owned lib own s" and cn: "counted due s" using session_okD(2) [OF assms(1)] by (auto simp: tasks_ok_def)
  have same: "requesting_count (peer t q) = requesting_count (peer s q)" "task_set (peer t q) = task_set (peer s q)"
    "window_size (peer t q) = window_size (peer s q)" "set (request_map (peer t q)) \<subseteq> set (request_map (peer s q))" for q
    using assms(2) by (cases "q = p"; auto simp: t dest: set_dropWhileD)+
  have "known_id lib t (fst x) \<and> own (fst x) = q" if "q < length (peers s)" "x \<in> set (request_map (peer t q))" for q x
    using own that(1) subsetD [OF same(4) that(2)] by (simp add: owned_def known_id_def tk)
  then have "owned lib own t" using own frameD(1) [OF fr] by (simp add: owned_def known_id_def tk)
  moreover have "counted due t" using cn by (simp add: counted_def same outstanding_def tk frameD(1,4) [OF fr])
  ultimately have "tasks_ok lib due t" by (auto simp: tasks_ok_def)
  then show "session_ok plib lib due t"
  proof (rule session_okI [OF assms(1) fr])
    show "peer_ok (peer t q)" if "peer_ok (peer s q)" for q
      by (rule peer_ok_same [OF frame_same [OF fr] same(1-3) that])
  qed
  show "known_id lib s (fst x) \<and>
       (e \<in> set (request_tasks s) \<longrightarrow> request_transaction (snd e) = fst x \<longrightarrow> request_peer (snd e) = p)" if "x \<in> set lost" for x e
  proof -
    have "x \<in> set (request_map (peer s p))" using that by (auto simp: lost dest: set_takeWhileD)
    with own assms(2) have x: "known_id lib s (fst x)" "own (fst x) = p" by (auto simp: owned_def)
    then show ?thesis using own unfolding owned_def by metis
  qed
qed

lemma manager_OnSubPiece_ok:
  assumes "session_ok plib lib (\<lambda>_. 0) s" "inj (transaction_id lib)"
  shows "\<exists>t. manager_OnSubPiece lib env pk s = Inr t \<and> session_ok plib lib (\<lambda>_. 0) t \<and> frame s t"
proof -
  let ?sp = "subpiece_info pk"
  let ?here = "filter (\<lambda>e. fst e = ?sp) (request_tasks s)" and ?rest = "filter (\<lambda>e. fst e \<noteq> ?sp) (request_tasks s)"
  let ?range = "map snd ?here"
  let ?s1 = "s\<lparr>request_tasks := ?rest\<rparr>"
  let ?matched = "filter (answers s pk) ?range" and ?un = "map request_peer (filter (\<lambda>t. \<not> answers s pk t) ?range)"
  obtain own where own: "owned lib own s" using session_okD(2) [OF assms(1)] by (auto simp: tasks_ok_def)
  have inside: "request_peer t < length (peers s)" if "t \<in> set ?range" for t
    using own that by (auto simp: owned_def)
  have sub: "mset ?rest \<subseteq># mset (request_tasks s)" by simp
  have "int (outstanding s q) - int (outstanding ?s1 q) = int (count_list (map request_peer ?range) q)" for q
    using requests_of_split [of q "request_tasks s" "\<lambda>e. fst e = ?sp"]
    by (simp add: outstanding_of requests_of_count [of q ?here] comp_def)
  then have s1: "session_ok plib lib (\<lambda>q. int (count_list (map request_peer ?range) q)) ?s1" "frame s ?s1"
    using erase_ok [OF assms(1) sub, of "\<lambda>q. int (count_list (map request_peer ?range) q)"] by auto
  have split: "count_list (map request_peer ?range) q = count_list (map request_peer ?matched) q + count_list ?un q" for q
    by (rule count_list_split)
  have un: "set ?un \<subseteq> {..<length (peers s)}" using inside by auto
  have "distinct (map (\<lambda>t. (?sp, request_transaction t)) ?matched)"
  proof -
    have "distinct (map (\<lambda>e. (fst e, request_transaction (snd e))) ?here)" using own by (simp add: owned_def distinct_map_filter)
    moreover have "map (\<lambda>t. (?sp, request_transaction t)) ?range = map (\<lambda>e. (fst e, request_transaction (snd e))) ?here" by auto
    ultimately have "distinct (map (\<lambda>t. (?sp, request_transaction t)) ?range)" by metis
    then show ?thesis by (rule distinct_map_filter)
  qed
  then have "?matched = [] \<or> (\<exists>t. ?matched = [t])" by (rule at_most_one) (auto simp: answers_def)
  then show ?thesis
  proof
    assume m: "?matched = []"
    have due: "(\<lambda>q. int (count_list (map request_peer ?range) q) - int (count_list ?un q)) = (\<lambda>_. 0)"
      using split by (simp add: m)
    have "set ?un \<subseteq> {..<length (peers ?s1)}" using un by simp
    from timeouts_ok [OF s1(1) assms(2) this, of env] obtain t where t: "timeouts lib env ?un ?s1 = Inr t"
      "session_ok plib lib (\<lambda>_. 0) t" "frame ?s1 t" unfolding due by blast
    then show ?thesis using m frame_trans [OF s1(2) t(3)] by (auto simp: manager_OnSubPiece_def Let_def)
  next
    assume "\<exists>t. ?matched = [t]"
    then obtain t where m: "?matched = [t]" ..
    let ?p = "request_peer t"
    have "t \<in> set ?matched" by (simp add: m)
    then have "t \<in> set ?range" by simp
    then have p: "?p < length (peers s)" by (rule inside)
    then have p1: "?p < length (peers ?s1)" by simp
    obtain lost s2 where l: "DeleteLostPackets (answered_transaction pk) ?p ?s1 = (lost, s2)" by (cases "DeleteLostPackets (answered_transaction pk) ?p ?s1")
    note d = DeleteLostPackets_ok [OF s1(1) p1 l]
    have p2: "?p < length (peers s2)" using p1 frameD(1) [OF d(2)] by simp
    from matched_received_ok [OF d(1) assms(2) p2, of env "answered_transaction pk"] obtain s3 where s3:
      "matched_received lib env (answered_transaction pk) t s2 = Inr s3"
      "session_ok plib lib ((\<lambda>q. int (count_list (map request_peer ?range) q))
         (?p := int (count_list (map request_peer ?range) ?p) - 1)) s3" "frame s2 s3" "grown lib env s2 s3" by blast
    have due: "(\<lambda>q. ((\<lambda>q. int (count_list (map request_peer ?range) q))
         (?p := int (count_list (map request_peer ?range) ?p) - 1)) q - int (count_list ?un q)) = (\<lambda>_. 0)"
      using split by (auto simp: m)
    have "set ?un \<subseteq> {..<length (peers s3)}" using un frameD(1) [OF d(2)] frameD(1) [OF s3(3)] by simp
    from timeouts_ok [OF s3(2) assms(2) this, of env] obtain s4 where s4: "timeouts lib env ?un s3 = Inr s4"
      "session_ok plib lib (\<lambda>_. 0) s4" "frame s3 s4" "grown lib env s3 s4" unfolding due by blast
    obtain n m' where e: "erase_lost lost (request_tasks s4) = (n, m')" by (cases "erase_lost lost (request_tasks s4)")
    have gr: "grown lib env ?s1 s4"
      by (rule grown_cong [OF grown_trans [OF s3(4) s4(4)]]) (simp_all add: d(3,4))
    have "\<forall>x\<in>set lost. \<forall>e\<in>set (request_tasks s4). request_transaction (snd e) = fst x \<longrightarrow> request_peer (snd e) = ?p"
    proof (intro ballI impI)
      fix x e assume xe: "x \<in> set lost" "e \<in> set (request_tasks s4)" "request_transaction (snd e) = fst x"
      note k = d(5) [OF xe(1), of e]
      have "e \<in> set (request_tasks ?s1)" using gr xe(2,3) k unfolding grown_def by metis
      then show "request_peer (snd e) = ?p" using k xe(3) by blast
    qed
    note el = erase_lost_peer [OF e this]
    let ?s5 = "s4\<lparr>request_tasks := m'\<rparr>"
    have "int (if q = ?p then n else 0) = 0 + int (outstanding s4 q) - int (outstanding ?s5 q)" for q
      using el [of q] by (simp add: outstanding_of)
    then have s5: "session_ok plib lib (\<lambda>q. int (if q = ?p then n else 0)) ?s5" "frame s4 ?s5"
      using erase_ok [OF s4(2), of m' "\<lambda>q. int (if q = ?p then n else 0)"] el by auto
    have due: "(\<lambda>q. int (if q = ?p then n else 0) - int (count_list (replicate n ?p) q)) = (\<lambda>_. 0)"
    proof -
      have "count_list (replicate n ?p) q = (if q = ?p then n else 0)" for q by (induction n) auto
      then show ?thesis by auto
    qed
    have fr: "frame s s4" using frame_trans [OF frame_trans [OF s1(2) d(2)] frame_trans [OF s3(3) s4(3)]] .
    have "set (replicate n ?p) \<subseteq> {..<length (peers ?s5)}" using p frameD(1) [OF fr] by auto
    from timeouts_ok [OF s5(1) assms(2) this, of env] obtain u where u: "timeouts lib env (replicate n ?p) ?s5 = Inr u"
      "session_ok plib lib (\<lambda>_. 0) u" "frame ?s5 u" unfolding due by blast
    have "manager_OnSubPiece lib env pk s = Inr u"
      using m l s3(1) s4(1) e u(1) by (simp add: manager_OnSubPiece_def Let_def and_then_def)
    then show ?thesis using u(2) frame_trans [OF fr frame_trans [OF s5(2) u(3)]] by blast
  qed
qed

section \<open>Every handler keeps the requests in order\<close>

text \<open>Handlers that neither ask nor end a request.\<close>

definition same_work :: "live_peer \<Rightarrow> live_peer \<Rightarrow> bool" where
  "same_work q r \<longleftrightarrow>
     peer_end_point r = peer_end_point q \<and> peer_connect_type r = peer_connect_type q \<and> peer_config r = peer_config q \<and>
     peer_running r = peer_running q \<and> task_set r = task_set q \<and> window_size r = window_size q \<and>
     requesting_count r = requesting_count q \<and> request_map r = request_map q"

definition silent :: "live_session \<Rightarrow> live_session \<Rightarrow> bool" where
  "silent s t \<longleftrightarrow>
     length (peers t) = length (peers s) \<and> connected t = connected s \<and> udpserver_count t = udpserver_count s \<and>
     session_cache t = session_cache s \<and> request_tasks t = request_tasks s \<and> transactions s \<le> transactions t \<and>
     (\<forall>q. same_work (peer s q) (peer t q))"

lemma silent_refl [simp]: "silent s s"
  by (simp add: silent_def same_work_def)

lemma silent_trans: "silent s t \<Longrightarrow> silent t u \<Longrightarrow> silent s u"
  by (simp add: silent_def same_work_def)

lemma silentD:
  assumes "silent s t"
  shows "length (peers t) = length (peers s)" "connected t = connected s" "udpserver_count t = udpserver_count s"
    "session_cache t = session_cache s" "request_tasks t = request_tasks s" "transactions s \<le> transactions t"
    "peer_end_point (peer t q) = peer_end_point (peer s q)" "peer_running (peer t q) = peer_running (peer s q)"
    "peer_config (peer t q) = peer_config (peer s q)" "IsUdpServer (peer t q) = IsUdpServer (peer s q)"
    "task_set (peer t q) = task_set (peer s q)" "window_size (peer t q) = window_size (peer s q)"
    "requesting_count (peer t q) = requesting_count (peer s q)" "request_map (peer t q) = request_map (peer s q)"
  using assms by (auto simp: silent_def same_work_def IsUdpServer_def)

lemma silent_upd_peer:
  assumes "\<And>q. same_work q (f q)"
  shows "silent s (upd_peer p f s)"
proof -
  have "same_work (peer s q) (peer (upd_peer p f s) q)" for q
  proof (cases "q = p \<and> p < length (peers s)")
    case False
    then have "peer (upd_peer p f s) q = peer s q" by (auto simp: peer_def upd_peer_def list_update_beyond)
    then show ?thesis by (simp add: same_work_def)
  qed (simp add: assms)
  then show ?thesis by (simp add: silent_def)
qed

lemma silent_ok:
  assumes "session_ok plib lib due s" "silent s t"
  shows "session_ok plib lib due t"
proof -
  note d = silentD [OF assms(2)]
  obtain own where own: "owned lib own s" and cn: "counted due s" using session_okD(2) [OF assms(1)] by (auto simp: tasks_ok_def)
  have "owned lib own t" using own known_id_mono [OF _ d(6)] by (simp add: owned_def d(1,5,14))
  moreover have "counted due t" using cn by (simp add: counted_def outstanding_def d(1,5,8,13))
  moreover have "peer_ok (peer t q)" if "peer_ok (peer s q)" for q
  proof -
    have "greatest_window (peer t q) = greatest_window (peer s q)" "request_batch (peer t q) = request_batch (peer s q)"
      by (simp_all add: greatest_window_def request_batch_def d(9,10))
    with that show ?thesis by (simp add: peer_ok_def d(9,11-13))
  qed
  moreover have "connections_ok t" using session_okD(3) [OF assms(1)] by (simp add: connections_ok_def d(1-3,7,8,10))
  ultimately show ?thesis using session_okD(1,4) [OF assms(1)] by (auto simp: session_ok_def all_peers tasks_ok_def d(1,4))
qed

lemma silent_sending: "silent s (sending n pk s)"
  by (simp add: silent_def same_work_def)

lemma silent_DoAnnounce: "silent s (DoAnnounce lib env p s)"
proof (cases "peer_running (peer s p)")
  case True
  then obtain n pk where "DoAnnounce lib env p s = upd_peer p (\<lambda>q. q\<lparr>announce_requests := announce_requests q + 1\<rparr>) (sending n pk s)"
    by (simp add: DoAnnounce_def Let_def sending_def)
  moreover have "silent u (upd_peer p (\<lambda>q. q\<lparr>announce_requests := announce_requests q + 1\<rparr>) u)" for u
    by (rule silent_upd_peer) (simp add: same_work_def)
  ultimately show ?thesis using silent_trans [OF silent_sending [of s n pk]] by metis
qed (simp add: DoAnnounce_def)

lemma silent_fold: "(\<And>x s. silent s (f x s)) \<Longrightarrow> silent s (fold f xs s)"
  by (induction xs arbitrary: s) (auto intro: silent_trans)

lemma silent_Eliminate: "silent s (connections_EliminateElapsed env k (EliminateElapsedSubPieceCountMap k s))"
proof -
  have "silent s (EliminateElapsedSubPieceCountMap k s)"
    by (simp add: silent_def same_work_def EliminateElapsedSubPieceCountMap_def peer_def)
  moreover have "silent u (connections_EliminateElapsed env k u)" for u
    unfolding connections_EliminateElapsed_def
    by (intro silent_fold silent_upd_peer) (simp add: same_work_def EliminateElapsedBlockBitMap_def note_empty_def)
  ultimately show ?thesis by (blast intro: silent_trans)
qed

lemma drop_elapsed_returns:
  assumes "first + interval \<le> 2 ^ 32" "0 < interval"
  shows "\<exists>m'. drop_elapsed interval first k m = Some m'"
proof (induction "first - k" arbitrary: k m rule: less_induct)
  case less
  show ?case
  proof (cases "k < first")
    case True
    then have n: "(k + interval) mod 4294967296 = k + interval" using assms(1) by simp
    show ?thesis using less [of "k + interval" "filter (\<lambda>e. fst e \<noteq> k) m"] True assms(2)
      by (subst drop_elapsed.simps) (simp add: n)
  qed (simp add: drop_elapsed.simps)
qed

lemma OnAnnounce_silent:
  assumes "session_ok plib lib due s" "announce_ok s a"
  shows "\<exists>t. OnAnnounce env a p s = Some (Inr t) \<and> silent s t"
proof (cases "peer_running (peer s p)")
  case True
  have iv: "0 < live_interval (session_cache s)" using session_okD(1) [OF assms(1)] by (simp add: cache_ok_def)
  let ?s1 = "upd_peer p (\<lambda>q. q\<lparr>announce_responses := announce_responses q + 1, receive_announce_time := p2p_now env\<rparr>) s"
  have s1: "silent s ?s1" by (rule silent_upd_peer) (simp add: same_work_def)
  have set: "silent u (SetSubPieceCountMap k ns u)" for u k ns
    by (simp add: silent_def same_work_def SetSubPieceCountMap_def peer_def)
  have finish: "silent u (upd_peer p (\<lambda>q. (note_empty env b (q\<lparr>block_bitmap := m\<rparr>))\<lparr>no_response_time := 0\<rparr>) u)" for u b m
    by (rule silent_upd_peer) (simp add: same_work_def note_empty_def)
  show ?thesis
  proof (cases "block_info_count a > 0")
    case False
    then show ?thesis using True silent_trans [OF s1 finish] by (simp add: OnAnnounce_def Let_def)
  next
    case more: True
    obtain m where "drop_elapsed (live_interval (session_cache s)) (fst (hd (subpiece_map a))) (request_block_id a)
        (block_bitmap (peer ?s1 p)) = Some m"
      using drop_elapsed_returns [OF _ iv] assms(2) more by (fastforce simp: announce_ok_def)
    then show ?thesis using True more assms(2) silent_trans [OF silent_trans [OF s1 set] finish]
      by (simp add: OnAnnounce_def Let_def announce_ok_def)
  qed
qed (simp add: OnAnnounce_def)

definition with_peer :: "live_peer \<Rightarrow> live_session \<Rightarrow> live_session" where
  "with_peer r s = s\<lparr>peers := peers s @ [r]\<rparr>"

lemma with_peer_simps [simp]:
  "length (peers (with_peer r s)) = Suc (length (peers s))" "connected (with_peer r s) = connected s"
  "udpserver_count (with_peer r s) = udpserver_count s" "request_tasks (with_peer r s) = request_tasks s"
  "transactions (with_peer r s) = transactions s" "session_cache (with_peer r s) = session_cache s"
  "q < length (peers s) \<Longrightarrow> peer (with_peer r s) q = peer s q" "peer (with_peer r s) (length (peers s)) = r"
  by (simp_all add: with_peer_def peer_def nth_append)

lemma with_peer_ok:
  assumes "session_ok plib lib (\<lambda>_. 0) s" "peer_ok r" "requesting_count r = 0" "request_map r = []"
  shows "session_ok plib lib (\<lambda>_. 0) (with_peer r s)"
proof -
  note d = session_okD [OF assms(1)]
  obtain own where own: "owned lib own s" and cn: "counted (\<lambda>_. 0) s" using d(2) by (auto simp: tasks_ok_def)
  have inside: "request_peer (snd e) < length (peers s)" if "e \<in> set (request_tasks s)" for e
    using own that by (simp add: owned_def)
  have none: "outstanding s (length (peers s)) = 0"
    using inside by (fastforce simp: outstanding_def filter_empty_conv)
  have maps: "known_id lib s (fst x) \<and> own (fst x) = q"
    if "q < Suc (length (peers s))" "x \<in> set (request_map (peer (with_peer r s) q))" for q x
    using that assms(4) own by (cases "q < length (peers s)") (auto simp: owned_def less_Suc_eq)
  have kn: "known_id lib (with_peer r s) = known_id lib s" by (simp add: known_id_def fun_eq_iff)
  have "owned lib own (with_peer r s)" using own inside maps by (simp add: owned_def kn less_Suc_eq)
  moreover have "requesting_count (peer (with_peer r s) q) = int (outstanding (with_peer r s) q)"
    if "q < Suc (length (peers s))" "peer_running (peer (with_peer r s) q)" for q
    using that cn none assms(3)
    by (cases "q < length (peers s)") (simp_all add: counted_def outstanding_def less_Suc_eq)
  then have "counted (\<lambda>_. 0) (with_peer r s)" by (simp add: counted_def)
  moreover have "peer_ok (peer (with_peer r s) q)" if "q < Suc (length (peers s))" for q
    using that d(4) assms(2) by (cases "q < length (peers s)") (simp_all add: less_Suc_eq)
  moreover have "connections_ok (with_peer r s)"
  proof -
    have "filter (\<lambda>e. IsUdpServer (peer (with_peer r s) (snd e))) (connected s) = filter (\<lambda>e. IsUdpServer (peer s (snd e))) (connected s)"
      by (rule filter_cong) (use d(3) in \<open>simp_all add: connections_ok_def\<close>)
    then show ?thesis using d(3) by (simp add: connections_ok_def less_Suc_eq)
  qed
  ultimately show ?thesis using d(1) by (auto simp: session_ok_def tasks_ok_def all_peers)
qed

lemma put_sorted_new:
  assumes "k \<notin> fst ` set m"
  shows "set (put_sorted k v m) = insert (k, v) (set m)"
    "length (filter P (put_sorted k v m)) = (if P (k, v) then 1 else 0) + length (filter P m)"
  using assms by (induction m) (auto split: if_splits)

lemma session_AddPeer_ok:
  assumes "session_ok plib lib due s" "p < length (peers s)" "peer_running (peer s p)" "GetPeer (peer_end_point (peer s p)) s = None"
  shows "session_ok plib lib due (AddPeer p s)"
proof -
  let ?t = "AddPeer p s" and ?ep = "peer_end_point (peer s p)"
  note d = session_okD [OF assms(1)]
  have ac: "connected ?t = put_sorted ?ep p (connected s)" "peer ?t q = peer s q" "peers ?t = peers s"
    "request_tasks ?t = request_tasks s" "transactions ?t = transactions s" "session_cache ?t = session_cache s"
    "udpserver_count ?t = (if IsUdpServer (peer s p) then udpserver_count s + 1 else udpserver_count s)" for q
    using assms(4) by (simp_all add: AddPeer_def peer_def)
  have keys: "?ep \<notin> fst ` set (connected s)" using assms(4) by (simp add: GetPeer_def map_of_eq_None_iff)
  have "connections_ok ?t"
    using d(3) put_sorted_new(1) [OF keys, of p] put_sorted_new(2) [OF keys, of "\<lambda>e. IsUdpServer (peer s (snd e))" p]
      sorted_put_sorted [of "connected s" ?ep p] assms(2,3) by (simp add: connections_ok_def ac)
  moreover have "tasks_ok lib due ?t"
    using d(2) by (simp add: tasks_ok_def owned_def counted_def known_id_def outstanding_def ac)
  ultimately show ?thesis using d(1,4) by (simp add: session_ok_def all_peers ac)
qed

definition fresh_peer :: "p2p_env \<Rightarrow> peer_config \<Rightarrow> endpoint \<Rightarrow> connect_type \<Rightarrow> live_peer" where
  "fresh_peer env cfg ep ct = (peer_create env cfg ep ct)\<lparr>peer_running := True, receive_announce_time := p2p_now env\<rparr>"

lemma fresh_peer_simps [simp]:
  "requesting_count (fresh_peer env cfg ep ct) = 0" "request_map (fresh_peer env cfg ep ct) = []"
  "peer_end_point (fresh_peer env cfg ep ct) = ep" "peer_running (fresh_peer env cfg ep ct)"
  "config_ok cfg \<Longrightarrow> peer_ok (fresh_peer env cfg ep ct)"
  by (simp_all add: fresh_peer_def peer_create_def peer_ok_def greatest_window_def request_batch_def IsUdpServer_def)

lemma connect_ok:
  assumes "session_ok plib lib (\<lambda>_. 0) s" "config_ok cfg"
  shows "session_ok plib lib (\<lambda>_. 0) (Connect lib env cfg ep ct s)"
proof (cases "HasPeer ep s")
  case False
  let ?p = "length (peers s)" and ?a = "with_peer (fresh_peer env cfg ep ct) s"
  have a: "session_ok plib lib (\<lambda>_. 0) ?a" by (rule with_peer_ok [OF assms(1)]) (use assms(2) in simp_all)
  let ?c = "upd_peer ?p (\<lambda>q. q\<lparr>connect_time := p2p_now env\<rparr>) (DoAnnounce lib env ?p ?a)"
  have sil: "silent ?a ?c"
    by (rule silent_trans [OF silent_DoAnnounce silent_upd_peer]) (simp add: same_work_def)
  have "upd_peer ?p (\<lambda>q. q\<lparr>peer_running := True, receive_announce_time := p2p_now env\<rparr>) (s\<lparr>peers := peers s @ [peer_create env cfg ep ct]\<rparr>) = ?a"
    by (simp add: upd_peer_def with_peer_def fresh_peer_def)
  then have t: "Connect lib env cfg ep ct s = AddPeer ?p ?c" using False by (simp add: Connect_def Let_def peer_Start_def)
  have pc: "peer_end_point (peer ?c ?p) = ep" "peer_running (peer ?c ?p)" "?p < length (peers ?c)" "connected ?c = connected s"
    using silentD(7,8) [OF sil, of ?p] silentD(1,2) [OF sil] by simp_all
  have "GetPeer (peer_end_point (peer ?c ?p)) ?c = None" using False unfolding pc(1) GetPeer_def pc(4) by (simp add: HasPeer_def GetPeer_def)
  with session_AddPeer_ok [OF silent_ok [OF a sil] pc(3,2)] show ?thesis by (simp add: t)
qed (use assms in \<open>simp add: Connect_def\<close>)

lemma filter_key_count:
  fixes m :: "(nat \<times> 'v) list"
  assumes "sorted_wrt (<) (map fst m)" "(k, v) \<in> set m"
  shows "length (filter P m) = length (filter P (filter (\<lambda>e. fst e \<noteq> k) m)) + (if P (k, v) then 1 else 0)"
  using assms
proof (induction m)
  case (Cons e m)
  show ?case
  proof (cases "e = (k, v)")
    case True
    have "\<forall>x\<in>set m. k < fst x" using Cons.prems(1) True by simp
    then have "filter (\<lambda>e. fst e \<noteq> k) m = m" by (intro filter_True) auto
    then show ?thesis using True by simp
  next
    case False
    then have m: "(k, v) \<in> set m" using Cons.prems(2) by simp
    then have "fst e \<noteq> k" using Cons.prems(1) by force
    then show ?thesis using Cons.IH [OF _ m] Cons.prems(1) by simp
  qed
qed simp

text \<open>A connection is stopped and taken out of the map.\<close>

definition without_peer :: "endpoint \<Rightarrow> nat \<Rightarrow> live_session \<Rightarrow> live_session" where
  "without_peer ep p s =
     (let s1 = (if IsUdpServer (peer s p) then s\<lparr>udpserver_count := udpserver_count s - 1\<rparr> else s)
      in (peer_Stop p s1)\<lparr>connected := filter (\<lambda>e. fst e \<noteq> ep) (connected s)\<rparr>)"

lemma without_peer_simps [simp]:
  "length (peers (without_peer ep p s)) = length (peers s)" "request_tasks (without_peer ep p s) = request_tasks s"
  "transactions (without_peer ep p s) = transactions s" "session_cache (without_peer ep p s) = session_cache s"
  "connected (without_peer ep p s) = filter (\<lambda>e. fst e \<noteq> ep) (connected s)"
  "udpserver_count (without_peer ep p s) = udpserver_count s - (if IsUdpServer (peer s p) then 1 else 0)"
  "p < length (peers s) \<Longrightarrow> peer (without_peer ep p s) p = (peer s p)\<lparr>peer_running := False\<rparr>"
  "q \<noteq> p \<Longrightarrow> peer (without_peer ep p s) q = peer s q"
  by (auto simp: without_peer_def peer_Stop_def Let_def upd_peer_def peer_def)

lemma DelPeer_ok:
  assumes "session_ok plib lib (\<lambda>_. 0) s"
  shows "\<exists>t. DelPeer ep s = Inr t \<and> session_ok plib lib (\<lambda>_. 0) t \<and> (t = s \<or> (\<exists>p. t = without_peer ep p s))"
proof (cases "GetPeer ep s")
  case (Some p)
  let ?t = "without_peer ep p s"
  note d = session_okD [OF assms]
  have mem: "(ep, p) \<in> set (connected s)" using Some by (auto simp: GetPeer_def dest: map_of_SomeD)
  then have p: "p < length (peers s)" "peer_end_point (peer s p) = ep" using d(3) by (auto simp: connections_ok_def)
  have sorted: "sorted_wrt (<) (map fst (connected s))" using d(3) by (simp add: connections_ok_def)
  have others: "snd e \<noteq> p" if "e \<in> set (connected s)" "fst e \<noteq> ep" for e
    using d(3) that p(2) by (auto simp: connections_ok_def)
  have same: "requesting_count (peer ?t q) = requesting_count (peer s q)" "request_map (peer ?t q) = request_map (peer s q)"
    "task_set (peer ?t q) = task_set (peer s q)" "window_size (peer ?t q) = window_size (peer s q)"
    "peer_config (peer ?t q) = peer_config (peer s q)" "IsUdpServer (peer ?t q) = IsUdpServer (peer s q)"
    "peer_running (peer ?t q) \<Longrightarrow> peer_running (peer s q)" for q
    using p(1) by (cases "q = p"; simp add: IsUdpServer_def)+
  have kn: "known_id lib ?t = known_id lib s" by (simp add: known_id_def fun_eq_iff)
  obtain own where "owned lib own s" and cn: "counted (\<lambda>_. 0) s" using d(2) by (auto simp: tasks_ok_def)
  then have "owned lib own ?t" by (simp add: owned_def kn same(2))
  moreover have "counted (\<lambda>_. 0) ?t" using cn same(1,7) by (simp add: counted_def outstanding_def)
  ultimately have tk: "tasks_ok lib (\<lambda>_. 0) ?t" by (auto simp: tasks_ok_def)
  have pk: "peer_ok (peer ?t q)" if "peer_ok (peer s q)" for q
  proof -
    have "greatest_window (peer ?t q) = greatest_window (peer s q)" "request_batch (peer ?t q) = request_batch (peer s q)"
      by (simp_all add: greatest_window_def request_batch_def same(5,6))
    with that show ?thesis by (simp add: peer_ok_def same)
  qed
  have u: "udpserver_count s = length (filter (\<lambda>e. IsUdpServer (peer s (snd e))) (filter (\<lambda>e. fst e \<noteq> ep) (connected s))) +
      (if IsUdpServer (peer s p) then 1 else 0)"
    using d(3) filter_key_count [OF sorted mem, of "\<lambda>e. IsUdpServer (peer s (snd e))"] by (simp add: connections_ok_def)
  have "sorted_wrt (<) (map fst (connected ?t))" using sorted by (simp add: sorted_wrt_map sorted_wrt_filter)
  moreover have "snd e < length (peers ?t) \<and> peer_end_point (peer ?t (snd e)) = fst e \<and> peer_running (peer ?t (snd e))"
    if "e \<in> set (connected ?t)" for e
    using that d(3) others [of e] by (simp add: connections_ok_def)
  ultimately have "connections_ok ?t" using u by (simp add: connections_ok_def same(6))
  with tk pk have ok: "session_ok plib lib (\<lambda>_. 0) ?t" using d(1,4) by (simp add: session_ok_def all_peers)
  have "DelPeer ep s = Inr ?t" using Some u by (auto simp: DelPeer_def without_peer_def peer_Stop_def Let_def)
  with ok show ?thesis by blast
qed (use assms in \<open>simp add: DelPeer_def\<close>)

lemma limit_window_ok:
  assumes "peer_ok q"
  shows "\<exists>w'. limit_window q w = Inr w' \<and> int (minimum_window (peer_config q)) \<le> w' \<and> w' \<le> int (greatest_window q)"
proof -
  let ?c = "peer_config q"
  let ?hi = "if IsUdpServer q then udpserver_maximum_window ?c else maximum_window ?c"
  have "minimum_window ?c \<le> ?hi" using assms by (simp add: peer_ok_def config_ok_def)
  moreover have "?hi \<le> greatest_window q" by (simp add: greatest_window_def)
  ultimately show ?thesis by (auto simp: limit_window_def Let_def limit_min_max_def)
qed

lemma set_window_ok:
  assumes "session_ok plib lib due s" "p < length (peers s)" "w \<le> int (greatest_window (peer s p))"
  shows "session_ok plib lib due (upd_peer p (\<lambda>q. q\<lparr>max_download_speed := d, window_size := w\<rparr>) s)"
proof -
  let ?f = "\<lambda>q. q\<lparr>max_download_speed := d, window_size := w\<rparr>"
  let ?t = "upd_peer p ?f s"
  have fr: "frame s ?t" by (rule frame_upd_peer [OF assms(2)]) (simp add: same_connection_def)
  have same: "requesting_count (peer ?t q) = requesting_count (peer s q)" "request_map (peer ?t q) = request_map (peer s q)" for q
    using assms(2) by (cases "q = p"; simp)+
  have "tasks_ok lib due ?t"
    using session_okD(2) [OF assms(1)] frameD(4) [OF fr] by (simp add: tasks_ok_def owned_def counted_def known_id_def outstanding_def same)
  then show ?thesis
  proof (rule session_okI [OF assms(1) fr])
    show "peer_ok (peer ?t q)" if "q < length (peers s)" "peer_ok (peer s q)" for q
    proof (cases "q = p")
      case True
      have "greatest_window (?f (peer s p)) = greatest_window (peer s p)" "request_batch (?f (peer s p)) = request_batch (peer s p)"
        by (simp_all add: greatest_window_def request_batch_def IsUdpServer_def)
      then show ?thesis using that(2) assms(2,3) True by (simp add: peer_ok_def)
    qed (use that in simp)
  qed
qed

lemma announce_if_due_silent:
  "silent s (announce_if_due lib env p s) \<and> (\<forall>q. q \<noteq> p \<longrightarrow> peer (announce_if_due lib env p s) q = peer s q)"
proof -
  let ?s1 = "upd_peer p (\<lambda>q. q\<lparr>no_response_time := (no_response_time q + 1000) mod 2 ^ 32\<rparr>) s"
  have s1: "silent s ?s1" by (rule silent_upd_peer) (simp add: same_work_def)
  have only: "peer (DoAnnounce lib env p u) q = peer u q" if "q \<noteq> p" for u q
    using that by (simp add: DoAnnounce_def Let_def) (simp add: peer_def)
  have "announce_if_due lib env p s = ?s1 \<or> announce_if_due lib env p s = DoAnnounce lib env p ?s1"
    unfolding announce_if_due_def Let_def by metis
  then show ?thesis
  proof
    assume a: "announce_if_due lib env p s = ?s1"
    show ?thesis unfolding a using s1 by simp
  next
    assume a: "announce_if_due lib env p s = DoAnnounce lib env p ?s1"
    show ?thesis unfolding a using silent_trans [OF s1 silent_DoAnnounce] only by simp
  qed
qed

lemma peer_timer_ok:
  assumes "session_ok plib lib (\<lambda>_. 0) s" "inj (transaction_id lib)" "p < length (peers s)"
  shows "\<exists>t. peer_OnP2PTimer lib env n p s = Inr t \<and> session_ok plib lib (\<lambda>_. 0) t \<and> length (peers t) = length (peers s) \<and>
    connected t = connected s \<and> (peer_running (peer s p) \<longrightarrow> fully_asked (peer t p)) \<and> (\<forall>q. q \<noteq> p \<longrightarrow> peer t q = peer s q) \<and>
    (\<forall>q. peer_running (peer t q) = peer_running (peer s q))"
proof (cases "peer_running (peer s p)")
  case run: True
  have finish: "\<exists>t. RequestTillFullWindow lib env p u = Inr t \<and> session_ok plib lib (\<lambda>_. 0) t \<and> length (peers t) = length (peers s) \<and>
      connected t = connected s \<and> fully_asked (peer t p) \<and> (\<forall>q. q \<noteq> p \<longrightarrow> peer t q = peer s q) \<and>
      (\<forall>q. peer_running (peer t q) = peer_running (peer s q))"
    if u: "session_ok plib lib (\<lambda>_. 0) u" "length (peers u) = length (peers s)" "connected u = connected s"
      "\<forall>q. peer_running (peer u q) = peer_running (peer s q)" "\<forall>q. q \<noteq> p \<longrightarrow> peer u q = peer s q" for u
  proof -
    have "p < length (peers u)" using assms(3) u(2) by simp
    from RequestTillFullWindow_ok [OF u(1) assms(2) this, of env] obtain t where t:
      "RequestTillFullWindow lib env p u = Inr t" "session_ok plib lib (\<lambda>_. 0) t" "frame u t"
      "peer_running (peer u p) \<longrightarrow> fully_asked (peer t p)" "\<forall>q. q \<noteq> p \<longrightarrow> peer t q = peer u q" by blast
    then show ?thesis using u run frameD(1,2,4) [OF t(3)] by auto
  qed
  show ?thesis
  proof (cases "n mod 4 = 0")
    case False
    then show ?thesis using run finish [OF assms(1)] by (simp add: peer_OnP2PTimer_def and_then_def)
  next
    case True
    let ?s2 = "announce_if_due lib env p s"
    have sil: "silent s ?s2" and other: "\<forall>q. q \<noteq> p \<longrightarrow> peer ?s2 q = peer s q"
      using announce_if_due_silent by blast+
    note ok2 = silent_ok [OF assms(1) sil]
    have p2: "p < length (peers ?s2)" using assms(3) silentD(1) [OF sil] by simp
    obtain w where w: "limit_window (peer ?s2 p) (next_window (now_speed env p) (window_size (peer ?s2 p))) = Inr w"
      "w \<le> int (greatest_window (peer ?s2 p))"
      using limit_window_ok [OF session_okD(4) [OF ok2 p2]] by blast
    let ?s3 = "upd_peer p (\<lambda>q. q\<lparr>max_download_speed := max (max_download_speed (peer ?s2 p)) (now_speed env p), window_size := w\<rparr>) ?s2"
    have ok3: "session_ok plib lib (\<lambda>_. 0) ?s3" by (rule set_window_ok [OF ok2 p2 w(2)])
    have run3: "\<forall>q. peer_running (peer ?s3 q) = peer_running (peer s q)"
    proof
      show "peer_running (peer ?s3 q) = peer_running (peer s q)" for q
        using silentD(8) [OF sil, of q] p2 by (cases "q = p") simp_all
    qed
    have oth3: "\<forall>q. q \<noteq> p \<longrightarrow> peer ?s3 q = peer s q" using other by simp
    have "length (peers ?s3) = length (peers s)" "connected ?s3 = connected s" using silentD(1,2) [OF sil] by simp_all
    from finish [OF ok3 this run3 oth3] obtain t where "RequestTillFullWindow lib env p ?s3 = Inr t"
      "session_ok plib lib (\<lambda>_. 0) t \<and> length (peers t) = length (peers s) \<and> connected t = connected s \<and>
       fully_asked (peer t p) \<and> (\<forall>q. q \<noteq> p \<longrightarrow> peer t q = peer s q) \<and> (\<forall>q. peer_running (peer t q) = peer_running (peer s q))" by blast
    then show ?thesis using run True w(1) by (simp add: peer_OnP2PTimer_def Let_def and_then_def)
  qed
qed (use assms in \<open>simp add: peer_OnP2PTimer_def\<close>)

lemma each_peer_timer_ok:
  assumes "session_ok plib lib (\<lambda>_. 0) s" "inj (transaction_id lib)" "set ps \<subseteq> {..<length (peers s)}" "distinct ps"
  shows "\<exists>t. each_peer (peer_OnP2PTimer lib env n) ps s = Inr t \<and> session_ok plib lib (\<lambda>_. 0) t \<and> connected t = connected s \<and>
    length (peers t) = length (peers s) \<and>
    (\<forall>p\<in>set ps. peer_running (peer s p) \<longrightarrow> fully_asked (peer t p)) \<and> (\<forall>q. q \<notin> set ps \<longrightarrow> peer t q = peer s q)"
  using assms
proof (induction ps arbitrary: s)
  case (Cons p ps)
  then have p: "p < length (peers s)" by simp
  from peer_timer_ok [OF Cons.prems(1,2) p, of env n] obtain u where u: "peer_OnP2PTimer lib env n p s = Inr u"
    "session_ok plib lib (\<lambda>_. 0) u" "length (peers u) = length (peers s)" "connected u = connected s"
    "peer_running (peer s p) \<longrightarrow> fully_asked (peer u p)" "\<forall>q. q \<noteq> p \<longrightarrow> peer u q = peer s q"
    "\<forall>q. peer_running (peer u q) = peer_running (peer s q)" by blast
  have "set ps \<subseteq> {..<length (peers u)}" "distinct ps" using Cons.prems(3,4) u(3) by simp_all
  from Cons.IH [OF u(2) Cons.prems(2) this] obtain t where t: "each_peer (peer_OnP2PTimer lib env n) ps u = Inr t"
    "session_ok plib lib (\<lambda>_. 0) t" "connected t = connected u" "length (peers t) = length (peers u)"
    "\<forall>p\<in>set ps. peer_running (peer u p) \<longrightarrow> fully_asked (peer t p)" "\<forall>q. q \<notin> set ps \<longrightarrow> peer t q = peer u q" by blast
  have "peer t p = peer u p" using t(6) Cons.prems(4) by simp
  with t u show ?case by (auto simp: and_then_def)
qed simp

lemma connected_pointers:
  assumes "connections_ok s"
  shows "set (map snd (connected s)) \<subseteq> {..<length (peers s)}" "distinct (map snd (connected s))"
    "p \<in> set (map snd (connected s)) \<Longrightarrow> peer_running (peer s p)"
proof -
  show "set (map snd (connected s)) \<subseteq> {..<length (peers s)}"
    "p \<in> set (map snd (connected s)) \<Longrightarrow> peer_running (peer s p)" using assms by (auto simp: connections_ok_def)
  have "distinct (map fst (connected s))"
    using assms by (simp add: connections_ok_def strict_sorted_iff)
  moreover have "map fst (connected s) = map (\<lambda>e. peer_end_point (peer s (snd e))) (connected s)"
    using assms by (simp add: connections_ok_def)
  ultimately have "distinct (map (\<lambda>p. peer_end_point (peer s p)) (map snd (connected s)))" by (simp add: comp_def)
  then show "distinct (map snd (connected s))" by (simp only: distinct_map)
qed

lemma tasks_change_ok:
  assumes "session_ok plib lib due s" "distinct ts" "p < length (peers s)"
  shows "session_ok plib lib due (upd_peer p (\<lambda>q. q\<lparr>task_set := ts\<rparr>) s)"
proof -
  let ?t = "upd_peer p (\<lambda>q. q\<lparr>task_set := ts\<rparr>) s"
  have fr: "frame s ?t" by (rule frame_upd_peer [OF assms(3)]) (simp add: same_connection_def)
  have same: "requesting_count (peer ?t q) = requesting_count (peer s q)" "request_map (peer ?t q) = request_map (peer s q)" for q
    using assms(3) by (cases "q = p"; simp)+
  have "tasks_ok lib due ?t"
    using session_okD(2) [OF assms(1)] frameD(4) [OF fr] by (simp add: tasks_ok_def owned_def counted_def known_id_def outstanding_def same)
  then show ?thesis
  proof (rule session_okI [OF assms(1) fr])
    show "peer_ok (peer ?t q)" if "q < length (peers s)" "peer_ok (peer s q)" for q
    proof (cases "q = p")
      case True
      have "greatest_window (peer ?t p) = greatest_window (peer s p)" "request_batch (peer ?t p) = request_batch (peer s p)"
        using assms(3) by (simp_all add: greatest_window_def request_batch_def IsUdpServer_def)
      then show ?thesis using that(2) assms(2,3) True by (simp add: peer_ok_def)
    qed (use that in simp)
  qed
qed

lemma p2p_step_ok:
  assumes "session_ok plib lib (\<lambda>_. 0) s" "inj (transaction_id lib)" "possible plib ev s"
  shows "\<exists>t. p2p_step plib lib env ev s = Some (Inr t) \<and> session_ok plib lib (\<lambda>_. 0) t"
proof (cases ev)
  case (PeerConnects cfg ep ct)
  then show ?thesis using connect_ok [OF assms(1)] assms(3) by simp
next
  case (SubPieceArrives pk)
  obtain k i where ki: "subpiece_info pk = (k, i)" by (cases "subpiece_info pk")
  from manager_OnSubPiece_ok [OF assms(1,2), of env pk] obtain u where u: "manager_OnSubPiece lib env pk s = Inr u"
    "session_ok plib lib (\<lambda>_. 0) u" "frame s u" by blast
  have c: "session_cache u = session_cache s" by (rule frameD(3) [OF u(3)])
  have co: "cache_ok plib (session_cache u)" using session_okD(1) [OF u(2)] .
  have ad: "k < 2 ^ 32" "addable plib i (content pk) (target k (session_cache u))" using assms(3) SubPieceArrives ki by (simp_all add: c)
  show ?thesis
  proof (cases "cache_HasSubPiece k i (session_cache u)")
    case True
    then show ?thesis using u SubPieceArrives ki by (simp add: OnSubPiecePacket_def and_then_def)
  next
    case False
    from cache_AddSubPiece_ok [OF co ad] obtain b c' where
      "cache_AddSubPiece plib k i (content pk) (session_cache u) = Inr (b, c')" "cache_ok plib c'" by blast
    moreover from this(2) have "session_ok plib lib (\<lambda>_. 0) (u\<lparr>session_cache := c'\<rparr>)"
      using u(2) by (simp add: session_ok_def tasks_ok_def owned_def counted_def known_id_def outstanding_def connections_ok_def peer_def)
    ultimately show ?thesis using u(1) SubPieceArrives ki False by (simp add: OnSubPiecePacket_def and_then_def)
  qed
next
  case (AnnounceArrives ep a)
  show ?thesis
  proof (cases "GetPeer ep s")
    case (Some p)
    from OnAnnounce_silent [OF assms(1), of a env p] assms(3) AnnounceArrives
    obtain t where "OnAnnounce env a p s = Some (Inr t)" "silent s t" by auto
    then show ?thesis using silent_ok [OF assms(1)] AnnounceArrives Some by (simp add: OnAnnouncePacket_def)
  qed (use assms(1) AnnounceArrives in \<open>simp add: OnAnnouncePacket_def\<close>)
next
  case (ErrorArrives ep b)
  then show ?thesis using DelPeer_ok [OF assms(1), of ep] assms(1) by (auto simp: OnErrorPacket_def)
next
  case (PeerInfoArrives ep)
  have "silent s (upd_peer p (\<lambda>q. q\<lparr>no_response_time := 0\<rparr>) s)" for p by (rule silent_upd_peer) (simp add: same_work_def)
  then show ?thesis using PeerInfoArrives silent_ok [OF assms(1)] assms(1) by (simp add: OnPeerInfoPacket_def split: option.split)
next
  case (SessionCloses ep)
  then show ?thesis using DelPeer_ok [OF assms(1), of ep] assms(1) by (auto simp: OnCloseSession_def)
next
  case RequestTimer
  have "distinct (request_tasks s)" using session_okD(2) [OF assms(1)] by (auto simp: tasks_ok_def owned_def distinct_map)
  from check_timeouts_ok [OF assms(1,2) subset_refl this, of env] RequestTimer show ?thesis
    by (auto simp: manager_OnP2PTimer_def)
next
  case (ConnectionTimer n)
  note cp = connected_pointers(1,2) [OF session_okD(3) [OF assms(1)]]
  from each_peer_timer_ok [OF assms(1,2) cp, of env n] ConnectionTimer show ?thesis
    by (auto simp: connections_OnP2PTimer_def)
next
  case (SubPieceAssigned sp p)
  have p: "p < length (peers s)" using assms(3) SubPieceAssigned by simp
  have "AddAssignedSubPiece lib sp p s = upd_peer p (\<lambda>q. q\<lparr>task_set := set_insert (subpiece_less lib) sp (task_set (peer s p))\<rparr>) s"
    by (simp add: AddAssignedSubPiece_def upd_peer_def peer_def)
  moreover have "distinct (set_insert (subpiece_less lib) sp (task_set (peer s p)))"
    using session_okD(4) [OF assms(1) p] by (simp add: peer_ok_def)
  ultimately show ?thesis using SubPieceAssigned tasks_change_ok [OF assms(1) _ p] by simp
next
  case (QueueCleared p)
  show ?thesis
  proof (cases "p < length (peers s)")
    case True
    then show ?thesis using QueueCleared tasks_change_ok [OF assms(1) _ True, of "[]"] by (simp add: ClearTaskQueue_def)
  next
    case False
    then have "ClearTaskQueue p s = s" by (simp add: ClearTaskQueue_def upd_peer_def list_update_beyond)
    then show ?thesis using QueueCleared assms(1) by simp
  qed
next
  case PositionMoves
  then show ?thesis using silent_ok [OF assms(1) silent_Eliminate] by simp
next
  case (CacheChanges c)
  then have "session_ok plib lib (\<lambda>_. 0) (s\<lparr>session_cache := c\<rparr>)"
    using assms(1,3) by (simp add: session_ok_def tasks_ok_def owned_def counted_def known_id_def outstanding_def connections_ok_def peer_def)
  with CacheChanges show ?thesis by simp
qed

lemma p2p_reachable_ok:
  assumes "p2p_reachable plib lib s" "inj (transaction_id lib)"
  shows "session_ok plib lib (\<lambda>_. 0) s"
  using assms(1)
proof induction
  case (created c)
  then show ?case
    by (simp add: session_new_def session_ok_def tasks_ok_def owned_def counted_def connections_ok_def)
next
  case (stepped s ev env t)
  from p2p_step_ok [OF stepped.IH assms(2) stepped.hyps(2), of env] stepped.hyps(3) show ?case by simp
qed

section \<open>Properties\<close>


text \<open>C17: No peer is ever asked for more than its window and one more packet: the requests that are under way with a peer
  are fewer than the largest window its configuration allows (or the first window, 25) and the subpieces of one request.\<close>

theorem requests_within_window:
  assumes "p2p_reachable plib lib s" "inj (transaction_id lib)" "GetPeer ep s = Some p"
  shows "outstanding s p < greatest_window (peer s p) + request_batch (peer s p)"
proof -
  note d = session_okD [OF p2p_reachable_ok [OF assms(1,2)]]
  have "(ep, p) \<in> set (connected s)" using assms(3) by (auto simp: GetPeer_def dest: map_of_SomeD)
  then have p: "p < length (peers s)" "peer_running (peer s p)" using d(3) by (auto simp: connections_ok_def)
  then have "requesting_count (peer s p) = int (outstanding s p)" using d(2) by (auto simp: tasks_ok_def counted_def)
  moreover have "requesting_count (peer s p) < int (greatest_window (peer s p) + request_batch (peer s p))"
    using d(4) [OF p(1)] by (simp add: peer_ok_def)
  ultimately show ?thesis by simp
qed


lemma connection_timer_fills:
  assumes "session_ok plib lib (\<lambda>_. 0) s" "inj (transaction_id lib)"
  shows "\<exists>t. connections_OnP2PTimer lib env n s = Inr t \<and> connected t = connected s \<and>
    (\<forall>ep p. GetPeer ep t = Some p \<longrightarrow> window_size (peer t p) \<le> int (outstanding t p) \<or> task_set (peer t p) = [])"
proof -
  note cp = connected_pointers [OF session_okD(3) [OF assms(1)]]
  from each_peer_timer_ok [OF assms cp(1,2), of env n] obtain t where t:
    "each_peer (peer_OnP2PTimer lib env n) (map snd (connected s)) s = Inr t" "session_ok plib lib (\<lambda>_. 0) t"
    "connected t = connected s" "\<forall>p\<in>set (map snd (connected s)). peer_running (peer s p) \<longrightarrow> fully_asked (peer t p)" by blast
  have "window_size (peer t p) \<le> int (outstanding t p) \<or> task_set (peer t p) = []" if "GetPeer ep t = Some p" for ep p
  proof -
    have "(ep, p) \<in> set (connected s)" using that t(3) by (auto simp: GetPeer_def dest: map_of_SomeD)
    then have mem: "p \<in> set (map snd (connected s))" by force
    have "fully_asked (peer t p)" using t(4) mem cp(3) [OF mem] by blast
    moreover have "requesting_count (peer t p) = int (outstanding t p)"
      using session_okD(2) [OF t(2)] connected_pointers(1) [OF session_okD(3) [OF t(2)]]
        connected_pointers(3) [OF session_okD(3) [OF t(2)], of p] mem t(3) by (auto simp: tasks_ok_def counted_def)
    ultimately show ?thesis by (simp add: fully_asked_def)
  qed
  then show ?thesis using t(1,3) by (simp add: connections_OnP2PTimer_def)
qed

text \<open>No connection is left idle: after the timer of the connections every connected peer has as many requests under way
  as its window allows, or nothing is left that was assigned to it.\<close>

theorem connections_are_kept_busy:
  assumes "p2p_reachable plib lib s" "inj (transaction_id lib)"
  shows "\<exists>t. p2p_step plib lib env (ConnectionTimer n) s = Some (Inr t) \<and>
    (\<forall>ep p. GetPeer ep t = Some p \<longrightarrow> window_size (peer t p) \<le> int (outstanding t p) \<or> task_set (peer t p) = [])"
  using connection_timer_fills [OF p2p_reachable_ok [OF assms] assms(2), of env n] by auto

section \<open>Announcements\<close>

lemma map_of_put [simp]: "map_of (put_sorted k v m) = (map_of m)(k \<mapsto> v)"
  by (induction m) auto

lemma map_of_unannounced:
  "k \<notin> fst ` set es \<Longrightarrow> map_of (fold (\<lambda>(k, v). put_sorted k v) es m) k = map_of m k"
  by (induction es arbitrary: m) (auto split: prod.split)

lemma map_of_announced:
  "distinct (map fst es) \<Longrightarrow> (k, v) \<in> set es \<Longrightarrow> map_of (fold (\<lambda>(k, v). put_sorted k v) es m) k = Some v"
proof (induction es arbitrary: m)
  case (Cons e es)
  show ?case
  proof (cases "e = (k, v)")
    case True
    then have "k \<notin> fst ` set es" using Cons.prems(1) by simp
    then show ?thesis using map_of_unannounced [of k es "put_sorted k v m"] True by simp
  next
    case False
    then show ?thesis using Cons by simp
  qed
qed simp

lemma map_of_map_insert: "map_of (map_insert k v m) j = (if j = k \<and> map_of m k = None then Some v else map_of m j)"
  by (simp add: map_insert_def)

lemma insert_counts_keeps: "map_of m j = Some x \<Longrightarrow> map_of (insert_counts iv k ns m) j = Some x"
proof (induction ns arbitrary: k m)
  case (Cons n ns)
  from Cons.prems have "map_of (map_insert k n m) j = Some x" by (auto simp: map_of_map_insert)
  from Cons.IH [OF this] show ?case by simp
qed simp

lemma insert_counts_new:
  assumes "i < length ns" "k + i * iv < 2 ^ 32" "0 < iv"
  shows "map_of (insert_counts iv k ns m) (k + i * iv) =
    Some (case map_of m (k + i * iv) of Some x \<Rightarrow> x | None \<Rightarrow> ns ! i)"
  using assms(1,2)
proof (induction ns arbitrary: k m i)
  case (Cons n ns)
  show ?case
  proof (cases i)
    case 0
    then have "map_of (map_insert k n m) k = Some (case map_of m k of Some x \<Rightarrow> x | None \<Rightarrow> n)"
      by (simp add: map_of_map_insert split: option.split)
    from insert_counts_keeps [OF this, of iv "(k + iv) mod 2 ^ 32" ns] show ?thesis using 0 by (simp split: option.split)
  next
    case (Suc i')
    have "k + iv < 2 ^ 32" using Cons.prems(2) Suc by simp
    then have m: "(k + iv) mod 2 ^ 32 = k + iv" by simp
    have "k + iv + i' * iv = k + i * iv" using Suc by simp
    moreover have "map_of (map_insert k n m) (k + i * iv) = map_of m (k + i * iv)" using Suc assms(3) by (simp add: map_of_map_insert)
    moreover have "map_of (insert_counts iv (k + iv) ns (map_insert k n m)) (k + iv + i' * iv) =
        Some (case map_of (map_insert k n m) (k + iv + i' * iv) of None \<Rightarrow> ns ! i' | Some x \<Rightarrow> x)"
      by (rule Cons.IH) (use Cons.prems Suc in simp_all)
    ultimately show ?thesis unfolding insert_counts.simps m using Suc by (metis nth_Cons_Suc)
  qed
qed simp

lemma OnAnnounce_result:
  assumes "cache_ok plib (session_cache s)" "announce_ok s a" "p < length (peers s)" "peer_running (peer s p)"
    "block_info_count a > 0" "distinct (map fst (subpiece_map a))"
  shows "\<exists>t. OnAnnounce env a p s = Some (Inr t) \<and>
    (\<forall>k bits. (k, bits) \<in> set (subpiece_map a) \<longrightarrow> map_of (block_bitmap (peer t p)) k = Some bits) \<and>
    subpiece_count_map t = insert_counts (live_interval (session_cache s)) (fst (hd (subpiece_map a))) (map snd (subpiece_nos a))
      (subpiece_count_map s)"
proof -
  have iv: "0 < live_interval (session_cache s)" using assms(1) by (simp add: cache_ok_def)
  let ?s1 = "upd_peer p (\<lambda>q. q\<lparr>announce_responses := announce_responses q + 1, receive_announce_time := p2p_now env\<rparr>) s"
  let ?first = "fst (hd (subpiece_map a))"
  let ?s2 = "SetSubPieceCountMap ?first (map snd (subpiece_nos a)) ?s1"
  have ne: "subpiece_map a \<noteq> []" using assms(2,5) by (auto simp: announce_ok_def)
  obtain m where m: "drop_elapsed (live_interval (session_cache s)) ?first (request_block_id a) (block_bitmap (peer ?s1 p)) = Some m"
    using drop_elapsed_returns [OF _ iv] assms(2,5) by (fastforce simp: announce_ok_def)
  define b where "b = (block_bitmap (peer ?s1 p) = [])"
  define m' where "m' = fold (\<lambda>(k, bits). put_sorted k bits) (subpiece_map a) m"
  define t where "t = upd_peer p (\<lambda>q. (note_empty env b (q\<lparr>block_bitmap := m'\<rparr>))\<lparr>no_response_time := 0\<rparr>) ?s2"
  have "OnAnnounce env a p s = Some (Inr t)"
    using assms(4,5) ne m by (simp add: OnAnnounce_def Let_def t_def b_def m'_def)
  moreover have "p < length (peers ?s2)" using assms(3) by (simp add: SetSubPieceCountMap_def)
  then have "block_bitmap (peer t p) = m'" by (simp add: t_def note_empty_def)
  then have "map_of (block_bitmap (peer t p)) k = Some bits" if "(k, bits) \<in> set (subpiece_map a)" for k bits
    using map_of_announced [OF assms(6) that] by (simp add: m'_def)
  moreover have "subpiece_count_map t = insert_counts (live_interval (session_cache s)) ?first (map snd (subpiece_nos a)) (subpiece_count_map s)"
    by (simp add: t_def SetSubPieceCountMap_def)
  ultimately show ?thesis by blast
qed

lemma connected_running:
  assumes "p2p_reachable plib lib s" "inj (transaction_id lib)" "GetPeer ep s = Some p"
  shows "p < length (peers s)" "peer_running (peer s p)"
proof -
  have "(ep, p) \<in> set (connected s)" using assms(3) by (auto simp: GetPeer_def dest: map_of_SomeD)
  then show "p < length (peers s)" "peer_running (peer s p)"
    using session_okD(3) [OF p2p_reachable_ok [OF assms(1,2)]] by (auto simp: connections_ok_def)
qed

text \<open>C19: What a peer announces is what we can ask it for.  When an announcement that a peer has built from its cache
  (\<^verbatim>\<open>LiveAnnouceMapBuilder::Build\<close>) arrives, the number of subpieces of every announced block is known, and the question
  whether the peer has a subpiece is answered without a fault: the header and exactly the subpieces of the pieces that are
  complete in its cache.\<close>

theorem announced_subpieces_are_offered:
  assumes "p2p_reachable plib lib s" "inj (transaction_id lib)" "GetPeer ep s = Some p"
    "cache_ok plib c" "live_interval (session_cache s) = live_interval c" "request \<le> GetCacheLastBlockId c"
    "GetCacheLastBlockId c + live_interval c < 2 ^ 32" "Build plib request c a0 = Some (Inr (c', a))" "subpiece_map a \<noteq> []"
  shows "\<exists>t. OnAnnouncePacket env ep a s = Some (Inr t) \<and>
    (\<forall>k bits i. (k, bits) \<in> set (subpiece_map a) \<and> i < count_of c k \<longrightarrow>
       HasSubPieceInBitmap (k, i) (peer t p) = Inr (i = 0 \<or> piece_ready k ((i - 1) div 16) c) \<and>
       GetSubPieceCount k t = (if HasSubPieceCount k s then GetSubPieceCount k s else count_of c k))"
proof -
  note run = connected_running [OF assms(1-3)]
  have co: "cache_ok plib (session_cache s)" by (rule session_okD(1) [OF p2p_reachable_ok [OF assms(1,2)]])
  have iv: "0 < live_interval c" using assms(4) by (simp add: cache_ok_def)
  have "\<not> cache_IsEmpty c"
  proof
    assume "cache_IsEmpty c"
    then have "a = ResetState c a0" using assms(8) by (auto simp: Build_def Let_def)
    with assms(9) show False by (simp add: ResetState_def)
  qed
  from Build_result [OF assms(4) this assms(6,7), of a0] obtain k0 n where
    "loop_end c (GetCacheLastBlockId c) k0 n a" using assms(8) by (auto split: if_splits)
  then have h: "holds_blocks c (blocks_from c k0 n) a" "\<forall>j\<in>set (blocks_from c k0 n). has_header j c \<and> j \<le> GetCacheLastBlockId c"
    by (auto simp: loop_end_def Let_def building_def)
  let ?ks = "blocks_from c k0 n"
  have maps: "subpiece_map a = map (\<lambda>k. (k, bits_of c k)) ?ks" "map snd (subpiece_nos a) = map (count_of c) ?ks"
    "block_info_count a = n"
    using h(1) by (simp_all add: holds_blocks_def blocks_from_def comp_def)
  have n: "0 < n" using assms(9) maps(1) by (cases n) (simp_all add: blocks_from_def)
  then have k0: "fst (hd (subpiece_map a)) = k0" by (simp add: maps(1) blocks_from_def hd_map)
  have le: "k0 + j * live_interval c \<le> GetCacheLastBlockId c" if "j < n" for j using h(2) that by (auto simp: blocks_from_def)
  have aok: "announce_ok s a" using n le [of 0] assms(5,7,9) by (simp add: announce_ok_def k0)
  have "distinct ?ks" using iv by (simp add: blocks_from_def distinct_map inj_on_def)
  then have di: "distinct (map fst (subpiece_map a))" by (simp add: maps(1) comp_def)
  from OnAnnounce_result [OF co aok run _ di, of env] n obtain t where t: "OnAnnounce env a p s = Some (Inr t)"
    "\<forall>k bits. (k, bits) \<in> set (subpiece_map a) \<longrightarrow> map_of (block_bitmap (peer t p)) k = Some bits"
    "subpiece_count_map t = insert_counts (live_interval c) k0 (map (count_of c) ?ks) (subpiece_count_map s)"
    by (auto simp: maps(2,3) k0 assms(5))
  have "HasSubPieceInBitmap (k, i) (peer t p) = Inr (i = 0 \<or> piece_ready k ((i - 1) div 16) c) \<and>
       GetSubPieceCount k t = (if HasSubPieceCount k s then GetSubPieceCount k s else count_of c k)"
    if kb: "(k, bits) \<in> set (subpiece_map a)" and i: "i < count_of c k" for k bits i
  proof
    have bits: "bits = bits_of c k" and k: "k \<in> set ?ks" using kb by (auto simp: maps(1))
    have "(i - 1) div 16 < (count_of c k + 14) div 16" if "i \<noteq> 0"
      using div_le_mono [of "i - 1 + 16" "count_of c k + 14" 16] i that by simp
    then show "HasSubPieceInBitmap (k, i) (peer t p) = Inr (i = 0 \<or> piece_ready k ((i - 1) div 16) c)"
      using t(2) kb by (auto simp: HasSubPieceInBitmap_def bits bits_of_def Let_def)
    obtain j where j: "j < n" "k = k0 + j * live_interval c" using k by (auto simp: blocks_from_def)
    have nth: "map (count_of c) ?ks ! j = count_of c k" "length (map (count_of c) ?ks) = n" using j by (simp_all add: blocks_from_def)
    have "k0 + j * live_interval c < 2 ^ 32" using le [OF j(1)] assms(7) by simp
    from insert_counts_new [of j "map (count_of c) ?ks", OF _ this iv, of "subpiece_count_map s"] j nth
    show "GetSubPieceCount k t = (if HasSubPieceCount k s then GetSubPieceCount k s else count_of c k)"
      by (auto simp: GetSubPieceCount_def HasSubPieceCount_def t(3) split: option.splits)
  qed
  then show ?thesis using t(1) assms(3) by (auto simp: OnAnnouncePacket_def)
qed

lemma drop_elapsed_even:
  assumes "drop_elapsed interval first k m = Some r" "first = 2 ^ 32 - 1" "even interval" "even k" "k < 2 ^ 32"
  shows False
proof -
  have "first = 2 ^ 32 - 1 \<longrightarrow> even interval \<longrightarrow> even k \<longrightarrow> k < 2 ^ 32 \<longrightarrow> False"
  proof (rule drop_elapsed.raw_induct [OF _ assms(1)])
    fix rec and interval first k :: nat and m r :: "(nat \<times> bool list) list"
    assume ih: "\<And>interval first k m r. rec interval first k m = Some r \<Longrightarrow>
        first = 2 ^ 32 - 1 \<longrightarrow> even interval \<longrightarrow> even k \<longrightarrow> k < 2 ^ 32 \<longrightarrow> False"
      and r: "(if k < first then rec interval first ((k + interval) mod 2 ^ 32) (filter (\<lambda>e. fst e \<noteq> k) m) else Some m) = Some r"
    show "first = 2 ^ 32 - 1 \<longrightarrow> even interval \<longrightarrow> even k \<longrightarrow> k < 2 ^ 32 \<longrightarrow> False"
    proof (intro impI)
      assume a: "first = 2 ^ 32 - 1" "even interval" "even k" "k < 2 ^ 32"
      have "k \<noteq> 2 ^ 32 - 1" using a(3) by auto
      with a(1,4) have "k < first" by simp
      with r have "rec interval first ((k + interval) mod 2 ^ 32) (filter (\<lambda>e. fst e \<noteq> k) m) = Some r" by simp
      from ih [OF this] a(1,2) have "even ((k + interval) mod 2 ^ 32) \<longrightarrow> (k + interval) mod 2 ^ 32 < 2 ^ 32 \<longrightarrow> False" by simp
      moreover have "even ((k + interval) mod 2 ^ 32)" using a(2,3) by (simp add: dvd_mod_iff)
      moreover have "(k + interval) mod 2 ^ 32 < 2 ^ 32" by simp
      ultimately show False by simp
    qed
  qed
  with assms(2-) show False by simp
qed

text \<open>C34: An announcement can hang the program.  The loop of \<^verbatim>\<open>OnAnnounce\<close> steps with 32-bit ids from the requested block to
  the first announced one; when that is \<open>2^32 - 1\<close>, and the interval and the requested id are even, it never gets there:
  a peer can stop the program with one packet.\<close>

theorem announcement_can_hang:
  assumes "p2p_reachable plib lib s" "inj (transaction_id lib)" "GetPeer ep s = Some p"
    "block_info_count a > 0" "subpiece_map a \<noteq> []" "fst (hd (subpiece_map a)) = 2 ^ 32 - 1"
    "even (live_interval (session_cache s))" "even (request_block_id a)" "request_block_id a < 2 ^ 32"
  shows "p2p_step plib lib env (AnnounceArrives ep a) s = None"
proof -
  note run = connected_running [OF assms(1-3)]
  have "drop_elapsed (live_interval (session_cache s)) (fst (hd (subpiece_map a))) (request_block_id a) m = None" for m
    using drop_elapsed_even [OF _ assms(6-9)] by (cases "drop_elapsed (live_interval (session_cache s)) (fst (hd (subpiece_map a))) (request_block_id a) m") auto
  then show ?thesis using assms(3-5) run by (simp add: OnAnnouncePacket_def OnAnnounce_def Let_def)
qed

text \<open>C35: The number of subpieces of a block is what the first peer says.  It is never corrected: when it is too large for the
  bit map of a peer that announces the block later, the question whether that peer has the last subpiece, which the assigner
  asks of every subpiece up to the number, fails its assertion.\<close>

theorem first_count_is_final:
  assumes "p2p_reachable plib lib s" "inj (transaction_id lib)" "GetPeer ep s = Some p" "announce_ok s a"
    "block_info_count a > 0" "distinct (map fst (subpiece_map a))" "(k, bits) \<in> set (subpiece_map a)"
    "HasSubPieceCount k s" "16 * (length bits - 1) + 1 < GetSubPieceCount k s"
  shows "\<exists>t. OnAnnouncePacket env ep a s = Some (Inr t) \<and> GetSubPieceCount k t = GetSubPieceCount k s \<and>
    HasSubPieceInBitmap (k, GetSubPieceCount k t - 1) (peer t p) = Inl AssertionFailed"
proof -
  note run = connected_running [OF assms(1-3)]
  have co: "cache_ok plib (session_cache s)" by (rule session_okD(1) [OF p2p_reachable_ok [OF assms(1,2)]])
  from OnAnnounce_result [OF co assms(4) run assms(5,6), of env] assms(7) obtain t where t: "OnAnnounce env a p s = Some (Inr t)"
    "map_of (block_bitmap (peer t p)) k = Some bits" "subpiece_count_map t =
     insert_counts (live_interval (session_cache s)) (fst (hd (subpiece_map a))) (map snd (subpiece_nos a)) (subpiece_count_map s)" by blast
  obtain n where n: "map_of (subpiece_count_map s) k = Some n" using assms(8) by (auto simp: HasSubPieceCount_def)
  have c: "GetSubPieceCount k t = n" "GetSubPieceCount k s = n"
    using n insert_counts_keeps [OF n] by (simp_all add: GetSubPieceCount_def t(3))
  have "\<not> (n - 1 - 1) div 16 + 1 < length bits" "n - 1 \<noteq> 0" using assms(9) by (auto simp: c)
  then have "HasSubPieceInBitmap (k, n - 1) (peer t p) = Inl AssertionFailed"
    using t(2) by (simp add: HasSubPieceInBitmap_def Let_def)
  then show ?thesis using t(1) assms(3) by (simp add: OnAnnouncePacket_def c)
qed

section \<open>Witnesses\<close>

definition sample_ids :: p2p_lib where
  "sample_ids = \<lparr>subpiece_less = \<lambda>a b. fst a < fst b \<or> fst a = fst b \<and> snd a < snd b, transaction_id = \<lambda>n. n\<rparr>"

definition sample_p2p_env :: "moment \<Rightarrow> p2p_env" where
  "sample_p2p_env t =
     \<lparr>p2p_clock = plain_clock, p2p_now = t, tick_milliseconds = t, playing_block_id = 5, rest_seconds = 20, upload_limit = 100,
      upload_bandwidth = 200, enhanced_announce_threshold = 5000, enhanced_announce_copies = 2, udpserver_announce_interval = 3,
      lost_prejudge = True, now_speed = \<lambda>_. 20480, minute_speed = \<lambda>_. 0\<rparr>"

definition sample_config :: peer_config where
  "sample_config = \<lparr>minimum_window = 10, maximum_window = 40, udpserver_maximum_window = 40, udpserver_maximum_requests = 6\<rparr>"

definition sample_connected :: live_session where
  "sample_connected = Connect sample_ids (sample_p2p_env 0) sample_config 7 ConnectLivePeer (session_new sample_cache)"

lemma sample_ids_inj: "inj (transaction_id sample_ids)"
  by (simp add: sample_ids_def)

lemma sample_connected_reachable: "p2p_reachable sample_lib sample_ids sample_connected"
proof (rule stepped [OF created [OF sample_cache_ok]])
  show "possible sample_lib (PeerConnects sample_config 7 ConnectLivePeer) (session_new sample_cache)"
    by (simp add: config_ok_def sample_config_def)
  show "p2p_step sample_lib sample_ids (sample_p2p_env 0) (PeerConnects sample_config 7 ConnectLivePeer) (session_new sample_cache) =
      Some (Inr sample_connected)" by (simp add: sample_connected_def)
qed

lemma sample_connected_eval:
  "GetPeer 7 sample_connected = Some 0" "length (peers sample_connected) = 1" "session_cache sample_connected = sample_cache"
  "subpiece_count_map sample_connected = []" "peer_running (peer sample_connected 0)" "request_tasks sample_connected = []"
  by (simp_all add: sample_connected_def Connect_def HasPeer_def GetPeer_def session_new_def AddPeer_def peer_Start_def DoAnnounce_def
      peer_create_def Let_def IsUdpServer_def peer_def upd_peer_def)


theorem requests_within_window_witness: "outstanding sample_connected 0 < 46"
  using requests_within_window [OF sample_connected_reachable sample_ids_inj sample_connected_eval(1)]
    sample_connected_eval(6) by (simp add: outstanding_def)

text \<open>A state with a request under way, and its answer in time or not.\<close>

definition sample_assigned :: live_session where
  "sample_assigned = AddAssignedSubPiece sample_ids (10, 0) 0 sample_connected"

lemma sample_assigned_reachable: "p2p_reachable sample_lib sample_ids sample_assigned"
  by (rule stepped [OF sample_connected_reachable, of "SubPieceAssigned (10, 0) 0" "sample_p2p_env 0"])
    (simp_all add: sample_connected_eval sample_assigned_def)

lemma sample_assigned_peer:
  "connected sample_assigned = [(7, 0)]" "length (peers sample_assigned) = 1" "peer_running (peer sample_assigned 0)"
  "requesting_count (peer sample_assigned 0) = 0" "window_size (peer sample_assigned 0) = 25"
  "task_set (peer sample_assigned 0) = [(10, 0)]" "request_batch (peer sample_assigned 0) = 6" "rtt_avg (peer sample_assigned 0) = 3000"
  "request_tasks sample_assigned = []" "transactions sample_assigned = 1"
  by (simp_all add: sample_assigned_def AddAssignedSubPiece_def sample_connected_def Connect_def HasPeer_def GetPeer_def session_new_def
      AddPeer_def peer_Start_def DoAnnounce_def peer_create_def Let_def IsUdpServer_def peer_def upd_peer_def request_batch_def
      set_insert_def)

lemma sample_asked:
  obtains s where "p2p_reachable sample_lib sample_ids s" "request_tasks s = [((10, 0), the_task (sample_p2p_env 0) 5500 0 1)]"
proof -
  let ?env = "sample_p2p_env 0"
  let ?t = "RequestSubPieces sample_ids ?env 6 False 0 sample_assigned"
  have p: "0 < length (peers sample_assigned)" by (simp add: sample_assigned_peer)
  have ne: "task_set (peer sample_assigned 0) \<noteq> []" by (simp add: sample_assigned_peer)
  note c = request_changes [OF p sample_assigned_peer(3) _ ne, of 6, where lib = sample_ids and env = ?env]
  have rt: "request_tasks ?t = [((10, 0), the_task ?env 5500 0 1)]"
    using c(7) by (simp add: sample_assigned_peer ask_timeout_def GetTimeoutAdjustment_def) (simp add: sample_p2p_env_def sample_ids_def)
  have pt: "requesting_count (peer ?t 0) = 1" "task_set (peer ?t 0) = []"
    using c(1) by (simp_all add: sample_assigned_peer peer_asked_def)
  have "till_full sample_ids ?env 0 ?t = Inr ?t" by (simp add: till_full.simps [of _ _ _ ?t] pt(2))
  then have "till_full sample_ids ?env 0 sample_assigned = Inr ?t"
    using pt(1) by (simp add: till_full.simps [of _ _ _ sample_assigned] sample_assigned_peer)
  then have "p2p_step sample_lib sample_ids ?env (ConnectionTimer 1) sample_assigned = Some (Inr ?t)"
    by (simp add: connections_OnP2PTimer_def sample_assigned_peer peer_OnP2PTimer_def RequestTillFullWindow_def and_then_def)
  then have "p2p_reachable sample_lib sample_ids ?t" by (rule stepped [OF sample_assigned_reachable, rotated]) simp
  with rt that show ?thesis by blast
qed


theorem connections_are_kept_busy_witness:
  "\<exists>t. p2p_step sample_lib sample_ids (sample_p2p_env 1000) (ConnectionTimer 1) sample_connected = Some (Inr t)"
  using connections_are_kept_busy [OF sample_connected_reachable sample_ids_inj] by blast

theorem announced_subpieces_are_offered_witness:
  "\<exists>a' t. Build sample_lib 5 sample_cache sample_announce = Some (Inr (sample_cache, a')) \<and>
     OnAnnouncePacket (sample_p2p_env 0) 7 a' sample_connected = Some (Inr t) \<and>
     HasSubPieceInBitmap (5, 0) (peer t 0) = Inr True \<and> GetSubPieceCount 5 t = 2"
proof -
  obtain a' where a': "Build sample_lib 5 sample_cache sample_announce = Some (Inr (sample_cache, a'))" "subpiece_map a' \<noteq> []"
    "subpiece_map a' = [(5, bits_of sample_cache 5)]" using sample_cache_Build by blast
  have "live_interval (session_cache sample_connected) = live_interval sample_cache" by (simp add: sample_connected_eval)
  moreover have "5 \<le> GetCacheLastBlockId sample_cache" "GetCacheLastBlockId sample_cache + live_interval sample_cache < 2 ^ 32"
    by (simp_all add: GetCacheLastBlockId_def sample_cache_def)
  ultimately obtain t where t: "OnAnnouncePacket (sample_p2p_env 0) 7 a' sample_connected = Some (Inr t)"
    "\<forall>k bits i. (k, bits) \<in> set (subpiece_map a') \<and> i < count_of sample_cache k \<longrightarrow>
       HasSubPieceInBitmap (k, i) (peer t 0) = Inr (i = 0 \<or> piece_ready k ((i - 1) div 16) sample_cache) \<and>
       GetSubPieceCount k t = (if HasSubPieceCount k sample_connected then GetSubPieceCount k sample_connected else count_of sample_cache k)"
    using announced_subpieces_are_offered [OF sample_connected_reachable sample_ids_inj sample_connected_eval(1) sample_cache_ok _ _ _ a'(1,2)]
    by blast
  have "count_of sample_cache 5 = 2" by (rule sample_cache_count)
  with t(2) [rule_format, of 5 "bits_of sample_cache 5" 0] a'(3) have "HasSubPieceInBitmap (5, 0) (peer t 0) = Inr True"
    "GetSubPieceCount 5 t = 2" by (simp_all add: HasSubPieceCount_def sample_connected_eval)
  with a'(1) t(1) show ?thesis by blast
qed

text \<open>Two announcements that honest peers do not send.\<close>

definition endless_announce :: announce where
  "endless_announce = \<lparr>request_block_id = 6, block_info_count = 1, announce_interval = 10, subpiece_nos = [(2 ^ 32 - 1, 2)],
     subpiece_map = [(2 ^ 32 - 1, [True])], accumulated_packet_size = 0, additional_bits = 0\<rparr>"

definition even_cache :: live_cache where
  "even_cache = sample_cache\<lparr>live_interval := 10\<rparr>"

lemma even_cache_ok: "cache_ok sample_lib even_cache"
  using sample_cache_ok by (simp add: cache_ok_def even_cache_def node_def sample_cache_def)

theorem announcement_can_hang_witness:
  "p2p_step sample_lib sample_ids (sample_p2p_env 0) (AnnounceArrives 7 endless_announce) (sample_connected\<lparr>session_cache := even_cache\<rparr>) = None"
proof -
  let ?s = "sample_connected\<lparr>session_cache := even_cache\<rparr>"
  have r: "p2p_reachable sample_lib sample_ids ?s"
    by (rule stepped [OF sample_connected_reachable, of "CacheChanges even_cache" "sample_p2p_env 0"]) (simp_all add: even_cache_ok)
  have g: "GetPeer 7 ?s = Some 0" using sample_connected_eval(1) by (simp add: GetPeer_def)
  show ?thesis
    by (rule announcement_can_hang [OF r sample_ids_inj g]) (simp_all add: endless_announce_def even_cache_def)
qed

definition large_announce :: announce where
  "large_announce = \<lparr>request_block_id = 5, block_info_count = 1, announce_interval = 5, subpiece_nos = [(10, 1000)],
     subpiece_map = [(10, [True])], accumulated_packet_size = 0, additional_bits = 0\<rparr>"

definition small_announce :: announce where
  "small_announce = \<lparr>request_block_id = 5, block_info_count = 1, announce_interval = 5, subpiece_nos = [(10, 20)],
     subpiece_map = [(10, [True, True, False])], accumulated_packet_size = 0, additional_bits = 0\<rparr>"

theorem first_count_is_final_witness:
  "\<exists>s t u. OnAnnouncePacket (sample_p2p_env 0) 7 large_announce s = Some (Inr t) \<and>
     OnAnnouncePacket (sample_p2p_env 0) 7 small_announce t = Some (Inr u) \<and>
     HasSubPieceInBitmap (10, 999) (peer u 0) = Inl AssertionFailed"
proof -
  have run: "0 < length (peers sample_connected)" by (simp add: sample_connected_eval)
  have ok: "announce_ok sample_connected large_announce" "block_info_count large_announce > 0" "distinct (map fst (subpiece_map large_announce))"
    by (simp_all add: announce_ok_def large_announce_def sample_connected_eval sample_cache_def)
  have cc: "cache_ok sample_lib (session_cache sample_connected)" by (simp add: sample_connected_eval sample_cache_ok)
  from OnAnnounce_result [OF cc ok(1) run sample_connected_eval(5) ok(2,3), of "sample_p2p_env 0"] obtain t where t:
    "OnAnnounce (sample_p2p_env 0) large_announce 0 sample_connected = Some (Inr t)"
    "subpiece_count_map t = insert_counts (live_interval (session_cache sample_connected)) (fst (hd (subpiece_map large_announce)))
       (map snd (subpiece_nos large_announce)) (subpiece_count_map sample_connected)" by blast
  then have c: "subpiece_count_map t = [(10, 1000)]"
    by (simp add: sample_connected_eval large_announce_def map_insert_def)
  have p: "OnAnnouncePacket (sample_p2p_env 0) 7 large_announce sample_connected = Some (Inr t)"
    using t(1) by (simp add: OnAnnouncePacket_def sample_connected_eval)
  have r: "p2p_reachable sample_lib sample_ids t"
    by (rule stepped [OF sample_connected_reachable, of "AnnounceArrives 7 large_announce" "sample_p2p_env 0"]) (simp_all add: ok p)
  from OnAnnounce_silent [OF p2p_reachable_ok [OF sample_connected_reachable sample_ids_inj] ok(1), of "sample_p2p_env 0" 0] t(1)
  have sil: "silent sample_connected t" by simp
  have g: "GetPeer 7 t = Some 0" using silentD(2) [OF sil] sample_connected_eval(1) by (simp add: GetPeer_def)
  have o: "announce_ok t small_announce"
    using silentD(4) [OF sil] by (simp add: announce_ok_def small_announce_def sample_connected_eval sample_cache_def)
  have n: "GetSubPieceCount 10 t = 1000" "HasSubPieceCount 10 t" by (simp_all add: GetSubPieceCount_def HasSubPieceCount_def c)
  from first_count_is_final [OF r sample_ids_inj g o, of 10 "[True, True, False]" "sample_p2p_env 0"] n
  obtain u where "OnAnnouncePacket (sample_p2p_env 0) 7 small_announce t = Some (Inr u)"
    "HasSubPieceInBitmap (10, 999) (peer u 0) = Inl AssertionFailed" by (auto simp: small_announce_def)
  with p show ?thesis by blast
qed

end
