(* ===== verification/LiveAssign.thy ===== *)
theory LiveAssign
  imports LiveTasks LivePeers
begin

text \<open>
  The work of a live channel is divided among its peers: \<^verbatim>\<open>p2sp::LiveAssigner\<close> (\<^verbatim>\<open>p2sp/p2p/LiveAssigner.h/.cpp\<close>), which
  brings together the block tasks of theory \<open>LiveTasks\<close> and the connections of theory \<open>LivePeers\<close>.

  \<^item> \<open>work\<close> is the stream with the block tasks of the P2P downloader (\<^verbatim>\<open>block_tasks_\<close> is \<open>p2p_tasks\<close>), \<open>session\<close> its
    connections and requests.  Both see the same instance: \<open>same_cache\<close>.
  \<^item> \<^verbatim>\<open>recv_time\<close> is 32 bits wide; the list of peers is a list of times and pointers.
  \<^item> The loop that asks for more blocks may run forever, and then its result is \<open>None\<close>.
\<close>

section \<open>State and operations\<close>

record live_download =
  work :: live_stream
  session :: live_session
  urgent :: bool
  assign_deque :: "live_subpiece list"
  reassign_set :: "live_subpiece set"
  recvtime_list :: "(nat \<times> nat) list"

definition has_subpiece :: "live_subpiece \<Rightarrow> live_download \<Rightarrow> bool" where
  "has_subpiece sp d = cache_HasSubPiece (fst sp) (snd sp) (stream_cache (work d))"

definition known_subpieces :: "nat \<Rightarrow> live_download \<Rightarrow> live_subpiece list" where
  "known_subpieces k d =
     (if HasSubPieceCount k (session d) then map (\<lambda>i. (k, i)) [0..<GetSubPieceCount k (session d)] else [])"

definition assignable :: "bool \<Rightarrow> live_subpiece \<Rightarrow> live_download \<Rightarrow> bool" where
  "assignable ignore_requesting sp d =
     (let requesting = GetRequestingCount sp (session d)
      in requesting = 0 \<or> (ignore_requesting \<and> requesting < 3))"

definition AssignForMissingSubPieces :: "nat \<Rightarrow> bool \<Rightarrow> live_download \<Rightarrow> nat \<times> live_download" where
  "AssignForMissingSubPieces k ignore_requesting d =
     (let sps = filter (\<lambda>sp. \<not> has_subpiece sp d \<and> assignable ignore_requesting sp d) (known_subpieces k d)
      in (length sps,
          d\<lparr>assign_deque := assign_deque d @ sps,
            reassign_set := (if ignore_requesting then reassign_set d \<union> set sps else reassign_set d)\<rparr>))"

definition CountMissingSubPieces :: "nat \<Rightarrow> live_download \<Rightarrow> nat" where
  "CountMissingSubPieces k d = length (filter (\<lambda>sp. \<not> has_subpiece sp d) (known_subpieces k d))"

text \<open>Whether block number \<open>n\<close> of the tasks is asked for a second time; \<open>first\<close> says that the first one is, in a hurry.\<close>

definition urgent_reassign :: "nat \<Rightarrow> nat \<Rightarrow> bool \<Rightarrow> live_download \<Rightarrow> bool" where
  "urgent_reassign n missing first d = (urgent d \<and> (if n = 0 \<and> missing < 32 then True else first \<and> n = 1 \<and> missing < 16))"

definition needs_reassign :: "nat \<Rightarrow> nat \<Rightarrow> bool \<Rightarrow> live_download \<Rightarrow> bool" where
  "needs_reassign n missing first d =
     (urgent_reassign n missing first d \<or> (n = 0 \<and> missing \<le> 2) \<or> (n = 1 \<and> missing \<le> 1))"

fun assign_map_loop :: "nat \<Rightarrow> bool \<Rightarrow> nat list \<Rightarrow> live_download \<Rightarrow> nat \<times> live_download" where
  "assign_map_loop n first [] d = (0, d)"
| "assign_map_loop n first (k # ks) d =
     (let (c, d1) = AssignForMissingSubPieces k False d;
          missing = CountMissingSubPieces k d1;
          first1 = (first \<or> (urgent d1 \<and> n = 0 \<and> missing < 32));
          d2 = (if needs_reassign n missing first d1 then snd (AssignForMissingSubPieces k True d1) else d1);
          (c', d3) = assign_map_loop (n + 1) first1 ks d2
      in (c + c', d3))"

definition block_ids :: "live_download \<Rightarrow> nat list" where
  "block_ids d = map fst (p2p_tasks (p2p (work d)))"

definition CaclSubPieceAssignMap :: "live_download \<Rightarrow> nat \<times> live_download" where
  "CaclSubPieceAssignMap d = assign_map_loop 0 False (block_ids d) (d\<lparr>assign_deque := [], reassign_set := {}\<rparr>)"

definition last_block_unknown :: "live_download \<Rightarrow> bool" where
  "last_block_unknown d =
     (let ts = p2p_tasks (p2p (work d)) in ts \<noteq> [] \<and> \<not> HasSubPieceCount (fst (snd (last ts))) (session d))"

partial_function (option) CalcSubpieceTillCapacity :: "task_env \<Rightarrow> live_download \<Rightarrow> live_download outcome" where
  "CalcSubpieceTillCapacity env d =
     (let (n, d1) = CaclSubPieceAssignMap d
      in if n \<ge> 150 \<or> last_block_unknown d1 then Some (Inr d1)
         else
           (case stream_RequestNextBlock env P2PDownloader (work d1) of
              None \<Rightarrow> None
            | Some (Inl e) \<Rightarrow> Some (Inl e)
            | Some (Inr (found, w)) \<Rightarrow>
                if \<not> found then Some (Inr (d1\<lparr>work := w\<rparr>)) else CalcSubpieceTillCapacity env (d1\<lparr>work := w\<rparr>)))"

declare CalcSubpieceTillCapacity.simps [code]

definition CaclPeerConnectionRecvTimeMap :: "live_download \<Rightarrow> live_download" where
  "CaclPeerConnectionRecvTimeMap d =
     (let s = session d; ps = map snd (connected s)
      in d\<lparr>session := fold ClearTaskQueue ps s, recvtime_list := sort_key fst (map (\<lambda>p. (avg_delta_time (peer s p), p)) ps)\<rparr>)"

text \<open>The first peer of the list that can be given the subpiece, with the entries before and after it.\<close>

fun find_peer ::
    "(live_peer \<Rightarrow> bool) \<Rightarrow> live_subpiece \<Rightarrow> live_session \<Rightarrow> (nat \<times> nat) list \<Rightarrow>
     ((nat \<times> nat) list \<times> (nat \<times> nat) \<times> (nat \<times> nat) list) option result" where
  "find_peer allowed sp s [] = Inr None"
| "find_peer allowed sp s (e # es) =
     and_then (if allowed (peer s (snd e)) then HasSubPieceInBitmap sp (peer s (snd e)) else Inr False) (\<lambda>b.
       if b \<and> \<not> HasSubPieceInTaskSet sp (peer s (snd e)) then Inr (Some ([], e, es))
       else map_sum id (map_option (\<lambda>(before, x, after). (e # before, x, after))) (find_peer allowed sp s es))"

fun insert_recvtime :: "nat \<times> nat \<Rightarrow> (nat \<times> nat) list \<Rightarrow> (nat \<times> nat) list" where
  "insert_recvtime x [] = [x]"
| "insert_recvtime x (y # ys) = (if fst x < fst y then x # y # ys else y # insert_recvtime x ys)"

definition give_to :: "p2p_lib \<Rightarrow> live_subpiece \<Rightarrow> (nat \<times> nat) list \<times> (nat \<times> nat) \<times> (nat \<times> nat) list \<Rightarrow> live_download \<Rightarrow> live_download" where
  "give_to lib sp r d =
     (case r of (before, (time, p), after) \<Rightarrow>
        let s = AddAssignedSubPiece lib sp p (session d)
        in d\<lparr>session := s, recvtime_list := before @ insert_recvtime ((time + avg_delta_time (peer s p)) mod 2 ^ 32, p) after\<rparr>)"

definition assign_subpiece :: "p2p_lib \<Rightarrow> bool \<Rightarrow> live_subpiece \<Rightarrow> live_download \<Rightarrow> live_download result" where
  "assign_subpiece lib use_udpserver sp d =
     (let again = (use_udpserver \<and> sp \<in> reassign_set d)
      in and_then (if again then find_peer IsUdpServer sp (session d) (recvtime_list d) else Inr None) (\<lambda>r1.
           let d1 = (if again then d\<lparr>reassign_set := reassign_set d - {sp}\<rparr> else d)
           in and_then
                (case r1 of
                   Some x \<Rightarrow> Inr r1
                 | None \<Rightarrow> find_peer (\<lambda>q. use_udpserver \<or> \<not> IsUdpServer q) sp (session d1) (recvtime_list d1)) (\<lambda>r.
                case r of None \<Rightarrow> Inr d1 | Some x \<Rightarrow> Inr (give_to lib sp x d1))))"

fun assign_subpieces :: "p2p_lib \<Rightarrow> bool \<Rightarrow> live_subpiece list \<Rightarrow> live_download \<Rightarrow> live_download result" where
  "assign_subpieces lib use_udpserver [] d = Inr d"
| "assign_subpieces lib use_udpserver (sp # sps) d =
     and_then (assign_subpiece lib use_udpserver sp d) (assign_subpieces lib use_udpserver sps)"

definition AssignerPeers :: "p2p_lib \<Rightarrow> bool \<Rightarrow> live_download \<Rightarrow> live_download result" where
  "AssignerPeers lib use_udpserver d = assign_subpieces lib use_udpserver (assign_deque d) d"

definition assigner_OnP2PTimer ::
    "p2p_lib \<Rightarrow> task_env \<Rightarrow> nat \<Rightarrow> bool \<Rightarrow> bool \<Rightarrow> bool \<Rightarrow> live_download \<Rightarrow> live_download outcome" where
  "assigner_OnP2PTimer lib env ticks is_urgent use_udpserver pausing d =
     call (CheckBlockComplete (work d)) (\<lambda>w.
       let d1 = d\<lparr>work := w\<rparr>
       in if pausing \<or> ticks mod 2 = 0 then Some (Inr d1)
          else
            call (CalcSubpieceTillCapacity env (d1\<lparr>urgent := is_urgent\<rparr>)) (\<lambda>d2.
              Some (AssignerPeers lib use_udpserver (CaclPeerConnectionRecvTimeMap d2))))"

section \<open>What is to be assigned\<close>

text \<open>The work that a plan does not change.\<close>

definition same_download :: "live_download \<Rightarrow> live_download \<Rightarrow> bool" where
  "same_download d e \<longleftrightarrow> work e = work d \<and> session e = session d \<and> urgent e = urgent d \<and> recvtime_list e = recvtime_list d"

lemma same_download_simps:
  assumes "same_download d e"
  shows "has_subpiece sp e = has_subpiece sp d" "known_subpieces k e = known_subpieces k d" "block_ids e = block_ids d"
    "assignable b sp e = assignable b sp d" "last_block_unknown e = last_block_unknown d" "work e = work d" "session e = session d"
    "CountMissingSubPieces k e = CountMissingSubPieces k d"
  using assms
  by (simp_all add: same_download_def has_subpiece_def known_subpieces_def block_ids_def assignable_def last_block_unknown_def
      CountMissingSubPieces_def)

lemma same_download_trans: "same_download d e \<Longrightarrow> same_download e f \<Longrightarrow> same_download d f"
  by (simp add: same_download_def)

text \<open>The subpieces of a block that are missing, and how often each may be under way.\<close>

definition missing_in :: "nat list \<Rightarrow> live_download \<Rightarrow> live_subpiece \<Rightarrow> bool" where
  "missing_in ks d sp \<longleftrightarrow> fst sp \<in> set ks \<and> sp \<in> set (known_subpieces (fst sp) d) \<and> \<not> has_subpiece sp d"

lemma known_subpieces_id: "sp \<in> set (known_subpieces k d) \<Longrightarrow> fst sp = k"
  by (auto simp: known_subpieces_def split: if_splits)

lemma missing_in_same: "same_download d e \<Longrightarrow> missing_in ks e sp = missing_in ks d sp"
  by (simp add: missing_in_def same_download_simps)

definition planned :: "nat list \<Rightarrow> live_download \<Rightarrow> live_download \<Rightarrow> bool" where
  "planned ks d e \<longleftrightarrow>
     same_download d e \<and> set (assign_deque d) \<subseteq> set (assign_deque e) \<and>
     (\<forall>sp\<in>set (assign_deque e) - set (assign_deque d). missing_in ks d sp \<and> GetRequestingCount sp (session d) < 3) \<and>
     (\<forall>sp. missing_in ks d sp \<and> GetRequestingCount sp (session d) = 0 \<longrightarrow> sp \<in> set (assign_deque e))"

lemma Assign_effect:
  assumes "AssignForMissingSubPieces k again d = (n, e)"
  obtains sps where "same_download d e" "n = length sps" "assign_deque e = assign_deque d @ sps"
    "reassign_set e = (if again then reassign_set d \<union> set sps else reassign_set d)"
    "\<And>sp. sp \<in> set sps \<longleftrightarrow> missing_in [k] d sp \<and> assignable again sp d"
proof -
  let ?sps = "filter (\<lambda>sp. \<not> has_subpiece sp d \<and> assignable again sp d) (known_subpieces k d)"
  have "sp \<in> set ?sps \<longleftrightarrow> missing_in [k] d sp \<and> assignable again sp d" for sp
    using known_subpieces_id [of sp k d] by (auto simp: missing_in_def)
  with assms that [of ?sps] show ?thesis by (auto simp: AssignForMissingSubPieces_def same_download_def Let_def)
qed

lemma Assign_planned:
  assumes "AssignForMissingSubPieces k again d = (n, e)"
  shows "planned [k] d e"
proof -
  obtain sps where e: "same_download d e" "assign_deque e = assign_deque d @ sps"
    "reassign_set e = (if again then reassign_set d \<union> set sps else reassign_set d)"
    "\<And>sp. sp \<in> set sps \<longleftrightarrow> missing_in [k] d sp \<and> assignable again sp d"
    by (rule Assign_effect [OF assms]) blast
  have "missing_in [k] d sp \<and> GetRequestingCount sp (session d) < 3"
    if "sp \<in> set (assign_deque e) - set (assign_deque d)" for sp
  proof -
    have "sp \<in> set sps" using that e(2) by auto
    then show ?thesis using e(4) [of sp] by (auto simp: assignable_def Let_def)
  qed
  moreover have "sp \<in> set (assign_deque e)" if "missing_in [k] d sp \<and> GetRequestingCount sp (session d) = 0" for sp
    using that e(2,4) by (auto simp: assignable_def)
  moreover have "set (assign_deque d) \<subseteq> set (assign_deque e)" using e(2) by auto
  ultimately show ?thesis unfolding planned_def using e(1) by blast
qed

lemma planned_more:
  assumes "planned ks d e" "planned js e f"
  shows "planned (ks @ js) d f"
proof -
  have a: "same_download d e" "set (assign_deque d) \<subseteq> set (assign_deque e)"
    "\<And>sp. sp \<in> set (assign_deque e) - set (assign_deque d) \<Longrightarrow> missing_in ks d sp \<and> GetRequestingCount sp (session d) < 3"
    "\<And>sp. missing_in ks d sp \<and> GetRequestingCount sp (session d) = 0 \<Longrightarrow> sp \<in> set (assign_deque e)"
    using assms(1) unfolding planned_def by blast+
  have sd: "same_download d e" "session e = session d" using a(1) by (simp_all add: same_download_def)
  have b: "same_download e f" "set (assign_deque e) \<subseteq> set (assign_deque f)"
    "\<And>sp. sp \<in> set (assign_deque f) - set (assign_deque e) \<Longrightarrow> missing_in js e sp \<and> GetRequestingCount sp (session d) < 3"
    "\<And>sp. missing_in js e sp \<and> GetRequestingCount sp (session d) = 0 \<Longrightarrow> sp \<in> set (assign_deque f)"
    using assms(2) unfolding planned_def sd(2) by blast+
  have m: "missing_in (ks @ js) d sp \<longleftrightarrow> missing_in ks d sp \<or> missing_in js e sp" for sp
    unfolding missing_in_same [OF sd(1)] by (auto simp: missing_in_def)
  have "same_download d f" by (rule same_download_trans [OF a(1) b(1)])
  moreover have "missing_in (ks @ js) d sp \<and> GetRequestingCount sp (session d) < 3"
    if "sp \<in> set (assign_deque f) - set (assign_deque d)" for sp
    using that a(3) [of sp] b(3) [of sp] m [of sp] by (cases "sp \<in> set (assign_deque e)") simp_all
  moreover have "sp \<in> set (assign_deque f)" if "missing_in (ks @ js) d sp \<and> GetRequestingCount sp (session d) = 0" for sp
    using that a(4) [of sp] b(2) b(4) [of sp] m [of sp] by (cases "missing_in ks d sp") auto
  moreover have "set (assign_deque d) \<subseteq> set (assign_deque f)" using a(2) b(2) by simp
  ultimately show ?thesis unfolding planned_def by blast
qed

lemma planned_again:
  assumes "planned [k] d e" "planned [k] e f"
  shows "planned [k] d f"
proof -
  have "missing_in ([k] @ [k]) d = missing_in [k] d" by (simp add: missing_in_def fun_eq_iff)
  then have "planned ([k] @ [k]) d f = planned [k] d f" unfolding planned_def by (rule arg_cong)
  with planned_more [OF assms] show ?thesis by blast
qed

lemma assign_map_planned:
  "assign_map_loop n first ks d = (c, e) \<Longrightarrow> planned ks d e"
proof (induction ks arbitrary: n first d c e)
  case Nil
  then show ?case by (simp add: planned_def same_download_def missing_in_def)
next
  case (Cons k ks)
  obtain c1 d1 where a: "AssignForMissingSubPieces k False d = (c1, d1)" by fastforce
  define d2 where "d2 = (if needs_reassign n (CountMissingSubPieces k d1) first d1 then snd (AssignForMissingSubPieces k True d1) else d1)"
  define f1 where "f1 = (first \<or> (urgent d1 \<and> n = 0 \<and> CountMissingSubPieces k d1 < 32))"
  obtain c2 d3 where l: "assign_map_loop (n + 1) f1 ks d2 = (c2, d3)" by fastforce
  have "planned [k] d d2"
  proof (cases "needs_reassign n (CountMissingSubPieces k d1) first d1")
    case True
    have "planned [k] d1 d2" using Assign_planned [of k True d1 "fst (AssignForMissingSubPieces k True d1)" d2] True by (simp add: d2_def)
    then show ?thesis using planned_again [OF Assign_planned [OF a]] by blast
  qed (use Assign_planned [OF a] in \<open>simp add: d2_def\<close>)
  from planned_more [OF this Cons.IH [OF l]] show ?case
    using Cons.prems a l by (simp add: d2_def f1_def Let_def)
qed

lemma assign_map_length:
  "assign_map_loop n first ks d = (c, e) \<Longrightarrow> c + length (assign_deque d) \<le> length (assign_deque e)"
proof (induction ks arbitrary: n first d c e)
  case (Cons k ks)
  obtain c1 d1 where a: "AssignForMissingSubPieces k False d = (c1, d1)" by fastforce
  define d2 where "d2 = (if needs_reassign n (CountMissingSubPieces k d1) first d1 then snd (AssignForMissingSubPieces k True d1) else d1)"
  define f1 where "f1 = (first \<or> (urgent d1 \<and> n = 0 \<and> CountMissingSubPieces k d1 < 32))"
  obtain c2 d3 where l: "assign_map_loop (n + 1) f1 ks d2 = (c2, d3)" by fastforce
  have "c1 + length (assign_deque d) = length (assign_deque d1)" using a by (auto simp: AssignForMissingSubPieces_def Let_def)
  moreover have "length (assign_deque d1) \<le> length (assign_deque d2)" by (simp add: d2_def AssignForMissingSubPieces_def Let_def)
  ultimately show ?case using Cons.IH [OF l] Cons.prems a l by (simp add: d2_def f1_def Let_def)
qed simp

text \<open>A plan asks for what is missing and not under way, and for nothing that is under way three times.\<close>

definition plan_ok :: "live_download \<Rightarrow> bool" where
  "plan_ok d \<longleftrightarrow>
     (\<forall>sp\<in>set (assign_deque d). missing_in (block_ids d) d sp \<and> GetRequestingCount sp (session d) < 3) \<and>
     (\<forall>sp. missing_in (block_ids d) d sp \<and> GetRequestingCount sp (session d) = 0 \<longrightarrow> sp \<in> set (assign_deque d))"

lemma map_plan_ok:
  assumes "CaclSubPieceAssignMap d = (n, e)"
  shows "plan_ok e" "same_download d e" "n \<le> length (assign_deque e)"
proof -
  have p: "planned (block_ids d) (d\<lparr>assign_deque := [], reassign_set := {}\<rparr>) e"
    using assign_map_planned assms unfolding CaclSubPieceAssignMap_def by blast
  then show s: "same_download d e" by (simp add: planned_def same_download_def)
  have m: "missing_in ks (d\<lparr>assign_deque := [], reassign_set := {}\<rparr>) sp = missing_in ks e sp" for ks sp
    using missing_in_same [of "d\<lparr>assign_deque := [], reassign_set := {}\<rparr>" e] p by (simp add: planned_def)
  show "plan_ok e" using p unfolding planned_def plan_ok_def m same_download_simps(3,7) [OF s] by simp
  show "n \<le> length (assign_deque e)"
    using assign_map_length [of 0 False "block_ids d"] assms unfolding CaclSubPieceAssignMap_def by fastforce
qed

section \<open>Asking for enough blocks\<close>

lemma next_p2p_block:
  assumes "tasks_inv lib w" "stream_running w" "few_blocks w" "env_ok env"
    "playing_block env + 2 ^ 16 * live_interval (stream_cache w) \<le> 2 ^ 32"
  shows "stream_RequestNextBlock env P2PDownloader w = Some (Inr (False, w)) \<and> left_capacity env \<noteq> None \<or>
    (\<exists>n i. let k = playing_block env + n * live_interval (stream_cache w) in
       stream_RequestNextBlock env P2PDownloader w = Some (Inr (True, taken env (k, i) P2PDownloader w)) \<and>
       k < 2 ^ 32 \<and> k \<notin> p2p_ids w)"
proof -
  note ti = tasks_invD [OF assms(1,2)]
  from stream_next_block [OF assms(1-4), of P2PDownloader] obtain n i where r:
    "stream_RequestNextBlock env P2PDownloader w =
      Some (Inr (if pool_exhausted env (nth_id (playing_block env) n (stream_cache w)) then (False, w)
                 else (True, taken env (nth_id (playing_block env) n (stream_cache w), i) P2PDownloader w)))"
    "stops_at env P2PDownloader w (nth_id (playing_block env) n (stream_cache w))"
    "\<forall>j<n. \<not> stops_at env P2PDownloader w (nth_id (playing_block env) j (stream_cache w))" by blast
  have n: "n < 2 ^ 16" using walk_short [OF ti(1) assms(3) r(3)] assms(3) by (simp add: few_blocks_def)
  have iv: "0 < live_interval (stream_cache w)" using ti(1) by (simp add: cache_ok_def)
  have "playing_block env + n * live_interval (stream_cache w) < playing_block env + 2 ^ 16 * live_interval (stream_cache w)"
    using n iv by (intro add_strict_left_mono mult_strict_right_mono) simp_all
  then have lt: "playing_block env + n * live_interval (stream_cache w) < 2 ^ 32" using assms(5) by linarith
  then have k: "nth_id (playing_block env) n (stream_cache w) = playing_block env + n * live_interval (stream_cache w)"
    by (simp add: nth_id_def)
  show ?thesis
  proof (cases "pool_exhausted env (nth_id (playing_block env) n (stream_cache w))")
    case True
    then show ?thesis using r(1) by (auto simp: pool_exhausted_def split: option.splits)
  next
    case False
    then have "may_take env P2PDownloader (nth_id (playing_block env) n (stream_cache w)) w" using r(2) by (simp add: stops_at_def)
    then have "nth_id (playing_block env) n (stream_cache w) \<notin> p2p_ids w"
      by (auto simp: map_inv_ids [OF ti(4)] may_take_def manager_IsTimeout_def task_IsTimeout_def holder_def IsRequesting_def
          split: option.splits)
    with False r(1) lt show ?thesis by (auto simp: k Let_def)
  qed
qed

lemma taken_p2p:
  fixes env :: task_env and i :: nat
  assumes "tasks_inv lib w" "stream_running w" "k < 2 ^ 32"
  defines "v \<equiv> taken env (k, i) P2PDownloader w"
  shows "tasks_inv lib v" "stream_running v" "stream_cache v = stream_cache w" "p2p_ids v = insert k (p2p_ids w)"
    "length (requesting_map v) \<le> Suc (length (requesting_map w))" "has_p2p v = has_p2p w"
proof -
  note ti = tasks_invD [OF assms(1,2)]
  note t = taken_inv [OF ti(4,5), of P2PDownloader "(k, i)" env, simplified]
  show "tasks_inv lib v" unfolding v_def by (rule taken_ok [OF assms(1,2)]) (use assms(3) in simp_all)
  show "stream_running v" "stream_cache v = stream_cache w" "has_p2p v = has_p2p w" using t(3,4,7) assms(2,3) by (simp_all add: v_def)
  have "j \<in> p2p_ids v \<longleftrightarrow> j \<in> insert k (p2p_ids w)" for j
    using t(8) [of j] assms(3) by (simp add: v_def map_inv_ids [OF ti(4)] map_inv_ids [OF t(1)])
  then show "p2p_ids v = insert k (p2p_ids w)" by blast
  have "length (requesting_map v) \<le> Suc (length (requesting_map (if IsRequesting k w then removed k w else w)))"
    by (simp add: v_def taken_def length_put_sorted)
  also have "\<dots> \<le> Suc (length (requesting_map w))" by simp
  finally show "length (requesting_map v) \<le> Suc (length (requesting_map w))" .
qed

text \<open>
  The loop ends: every round adds a block of the walk; the number of subpieces is known of none from \<open>playing + L * interval\<close>
  on, and a last block of which it is not known stops the loop.
\<close>

definition counts_near :: "task_env \<Rightarrow> nat \<Rightarrow> live_download \<Rightarrow> bool" where
  "counts_near env L d \<longleftrightarrow>
     (\<forall>k. HasSubPieceCount k (session d) \<longrightarrow> k < playing_block env + L * live_interval (stream_cache (work d)))"

definition free_steps :: "task_env \<Rightarrow> nat \<Rightarrow> live_stream \<Rightarrow> nat" where
  "free_steps env L w = card {n. n < L \<and> playing_block env + n * live_interval (stream_cache w) \<notin> p2p_ids w}"

definition download_ok :: "protocol_lib \<Rightarrow> live_download \<Rightarrow> bool" where
  "download_ok lib d \<longleftrightarrow>
     tasks_inv lib (work d) \<and> stream_running (work d) \<and> stream_cache (work d) = session_cache (session d)"

text \<open>What the loop leaves: a plan for the blocks, and enough of it unless no more can be known or had.\<close>

definition planned_till_capacity :: "protocol_lib \<Rightarrow> task_env \<Rightarrow> live_download \<Rightarrow> live_download \<Rightarrow> bool" where
  "planned_till_capacity lib env d e \<longleftrightarrow>
     download_ok lib e \<and> plan_ok e \<and> session e = session d \<and> stream_cache (work e) = stream_cache (work d) \<and>
     p2p_ids (work d) \<subseteq> p2p_ids (work e) \<and>
     (length (assign_deque e) \<ge> 150 \<or> last_block_unknown e \<or> left_capacity env \<noteq> None)"

lemma last_is_greatest:
  assumes "map_inv w" "p2p_tasks (p2p w) \<noteq> []" "k \<in> p2p_ids w"
  shows "k \<le> fst (snd (last (p2p_tasks (p2p w))))"
proof -
  let ?ts = "p2p_tasks (p2p w)"
  have so: "sorted_wrt (<) (map fst ?ts)" and eq: "\<forall>e\<in>set ?ts. fst (snd e) = fst e" using assms(1) by (simp_all add: map_inv_def)
  have "sorted (map fst ?ts)" using so by (rule strict_sorted_imp_sorted)
  then have "sorted (map fst (butlast ?ts) @ [fst (last ?ts)])"
    using assms(2) append_butlast_last_id [of ?ts] by (metis list.simps(8,9) map_append)
  then have le: "\<forall>x\<in>set (butlast ?ts). fst x \<le> fst (last ?ts)" by (simp add: sorted_append)
  obtain x where x: "x \<in> set ?ts" "k = fst x" using assms(3) by (auto simp: p2p_ids_def)
  have "set ?ts = insert (last ?ts) (set (butlast ?ts))"
    using append_butlast_last_id [OF assms(2)] by (metis list.simps(15) rotate1.simps(2) set_rotate1)
  then have "fst x \<le> fst (last ?ts)" using x(1) le by auto
  moreover have "fst (snd (last ?ts)) = fst (last ?ts)" using eq assms(2) by simp
  ultimately show ?thesis using x(2) by simp
qed

lemma far_block_unknown:
  assumes "download_ok lib d" "counts_near env L d" "k \<in> p2p_ids (work d)"
    "playing_block env + L * live_interval (stream_cache (work d)) \<le> k"
  shows "last_block_unknown d"
proof -
  have mi: "map_inv (work d)" using assms(1) by (simp add: download_ok_def tasks_inv_def)
  have ne: "p2p_tasks (p2p (work d)) \<noteq> []" using assms(3) by (auto simp: p2p_ids_def)
  have "\<not> HasSubPieceCount (fst (snd (last (p2p_tasks (p2p (work d)))))) (session d)"
    using assms(2,4) last_is_greatest [OF mi ne assms(3)] unfolding counts_near_def by fastforce
  with ne show ?thesis by (simp add: last_block_unknown_def Let_def)
qed

lemma capacity_returns:
  assumes "download_ok lib d" "env_ok env" "counts_near env L d"
    "playing_block env + 2 ^ 16 * live_interval (stream_cache (work d)) \<le> 2 ^ 32"
    "length (block_nodes (stream_cache (work d))) + length (requesting_map (work d)) + free_steps env L (work d) + 2 < 2 ^ 16"
  shows "\<exists>e. CalcSubpieceTillCapacity env d = Some (Inr e) \<and> planned_till_capacity lib env d e"
  using assms
proof (induction "free_steps env L (work d)" arbitrary: d rule: less_induct)
  case less
  obtain n d1 where m: "CaclSubPieceAssignMap d = (n, d1)" by fastforce
  note mp = map_plan_ok [OF m] and eq = same_download_simps [OF map_plan_ok(2) [OF m]]
  have unfold: "CalcSubpieceTillCapacity env d =
    (if n \<ge> 150 \<or> last_block_unknown d then Some (Inr d1)
     else (case stream_RequestNextBlock env P2PDownloader (work d) of
              None \<Rightarrow> None | Some (Inl e) \<Rightarrow> Some (Inl e)
            | Some (Inr (found, w)) \<Rightarrow>
                if \<not> found then Some (Inr (d1\<lparr>work := w\<rparr>)) else CalcSubpieceTillCapacity env (d1\<lparr>work := w\<rparr>)))"
    using m by (subst CalcSubpieceTillCapacity.simps) (simp add: eq)
  have d1: "planned_till_capacity lib env d d1"
    if "n \<ge> 150 \<or> last_block_unknown d \<or> left_capacity env \<noteq> None"
    using that less.prems(1) mp(1,3) by (auto simp: planned_till_capacity_def download_ok_def eq)
  show ?case
  proof (cases "n \<ge> 150 \<or> last_block_unknown d")
    case True
    then show ?thesis using unfold d1 by auto
  next
    case False
    have ti: "tasks_inv lib (work d)" "stream_running (work d)" using less.prems(1) by (simp_all add: download_ok_def)
    have few: "few_blocks (work d)" using less.prems(5) by (simp add: few_blocks_def)
    consider (refused) "stream_RequestNextBlock env P2PDownloader (work d) = Some (Inr (False, work d))" "left_capacity env \<noteq> None"
      | (found) j i k where "k = playing_block env + j * live_interval (stream_cache (work d))" "k < 2 ^ 32" "k \<notin> p2p_ids (work d)"
          "stream_RequestNextBlock env P2PDownloader (work d) = Some (Inr (True, taken env (k, i) P2PDownloader (work d)))"
      using next_p2p_block [OF ti few less.prems(2,4)] unfolding Let_def by blast
    then show ?thesis
    proof cases
      case refused
      have "d1\<lparr>work := work d\<rparr> = d1" using eq(6) by simp
      then show ?thesis using unfold False refused d1 by simp
    next
      case found
      let ?w = "taken env (k, i) P2PDownloader (work d)" and ?d2 = "d1\<lparr>work := taken env (k, i) P2PDownloader (work d)\<rparr>"
      note t = taken_p2p [OF ti found(2), of env i]
      have step: "CalcSubpieceTillCapacity env d = CalcSubpieceTillCapacity env ?d2" using unfold False found(4) by simp
      have ok2: "download_ok lib ?d2" using t less.prems(1) by (simp add: download_ok_def eq)
      have near2: "counts_near env L ?d2" using less.prems(3) t(3) by (simp add: counts_near_def eq)
      have weaken: "planned_till_capacity lib env d e" if "planned_till_capacity lib env ?d2 e" for e
        using that t(3,4) by (auto simp: planned_till_capacity_def eq)
      show ?thesis
      proof (cases "j < L")
        case True
        let ?F = "\<lambda>w. {n. n < L \<and> playing_block env + n * live_interval (stream_cache w) \<notin> p2p_ids w}"
        have "?F ?w = ?F (work d) - {n. playing_block env + n * live_interval (stream_cache (work d)) = k}" using t(3,4) by auto
        moreover have "j \<in> ?F (work d)" "j \<in> {n. playing_block env + n * live_interval (stream_cache (work d)) = k}"
          using True found(1,3) by auto
        ultimately have "?F ?w \<subset> ?F (work d)" by blast
        then have lt: "free_steps env L ?w < free_steps env L (work d)"
          unfolding free_steps_def by (rule psubset_card_mono [rotated]) simp
        have "length (block_nodes (stream_cache (work ?d2))) + length (requesting_map (work ?d2)) + free_steps env L (work ?d2) + 2 < 2 ^ 16"
          using less.prems(5) t(3,5) lt by simp
        with less.hyps [of ?d2, OF _ ok2 less.prems(2) near2] lt less.prems(4) t(3) weaken step show ?thesis by auto
      next
        case False
        have "playing_block env + L * live_interval (stream_cache (work ?d2)) \<le> k" using False t(3) by (simp add: found(1))
        with far_block_unknown [OF ok2 near2, of k] t(4) have last: "last_block_unknown ?d2" by simp
        obtain n' d3 where m3: "CaclSubPieceAssignMap ?d2 = (n', d3)" by fastforce
        note mp3 = map_plan_ok [OF m3] and eq3 = same_download_simps [OF map_plan_ok(2) [OF m3]]
        have "CalcSubpieceTillCapacity env ?d2 = Some (Inr d3)"
          using m3 last by (subst CalcSubpieceTillCapacity.simps) (simp add: eq3)
        moreover have "planned_till_capacity lib env ?d2 d3"
          using ok2 mp3 last by (simp add: planned_till_capacity_def download_ok_def eq3)
        ultimately show ?thesis using weaken step by auto
      qed
    qed
  qed
qed

section \<open>Dividing the work\<close>

text \<open>What assigning leaves as it is: all but the queues of the peers.\<close>

definition queues_only :: "live_session \<Rightarrow> live_session \<Rightarrow> bool" where
  "queues_only s t \<longleftrightarrow>
     length (peers t) = length (peers s) \<and> connected t = connected s \<and> request_tasks t = request_tasks s \<and>
     session_cache t = session_cache s \<and> subpiece_count_map t = subpiece_count_map s \<and>
     (\<forall>p. \<exists>ts. peer t p = (peer s p)\<lparr>task_set := ts\<rparr>)"

definition offers :: "live_session \<Rightarrow> nat \<Rightarrow> live_subpiece \<Rightarrow> bool" where
  "offers s p sp \<longleftrightarrow> HasSubPieceInBitmap sp (peer s p) = Inr True"

definition no_doubt :: "live_session \<Rightarrow> nat \<Rightarrow> live_subpiece \<Rightarrow> bool" where
  "no_doubt s p sp \<longleftrightarrow> (\<exists>b. HasSubPieceInBitmap sp (peer s p) = Inr b)"

lemma queues_only_refl [simp]: "queues_only s s"
proof -
  have "\<exists>ts. peer s p = (peer s p)\<lparr>task_set := ts\<rparr>" for p by (rule exI [of _ "task_set (peer s p)"]) simp
  then show ?thesis by (simp add: queues_only_def)
qed

lemma queues_only_trans: "queues_only s t \<Longrightarrow> queues_only t u \<Longrightarrow> queues_only s u"
  unfolding queues_only_def by (simp, metis live_peer.update_convs(5) live_peer.surjective)

lemma queuesD:
  assumes "queues_only s t"
  shows "HasSubPieceInBitmap sp (peer t p) = HasSubPieceInBitmap sp (peer s p)" "IsUdpServer (peer t p) = IsUdpServer (peer s p)"
    "avg_delta_time (peer t p) = avg_delta_time (peer s p)" "offers t p sp = offers s p sp" "no_doubt t p sp = no_doubt s p sp"
    "GetRequestingCount sp t = GetRequestingCount sp s" "HasSubPieceCount k t = HasSubPieceCount k s"
    "GetSubPieceCount k t = GetSubPieceCount k s" "length (peers t) = length (peers s)" "connected t = connected s"
    "session_cache t = session_cache s" "request_tasks t = request_tasks s"
proof -
  have p: "\<exists>ts. peer t p = (peer s p)\<lparr>task_set := ts\<rparr>" using assms by (simp add: queues_only_def)
  then show b: "HasSubPieceInBitmap sp (peer t p) = HasSubPieceInBitmap sp (peer s p)" for sp by (auto simp: HasSubPieceInBitmap_def)
  show "IsUdpServer (peer t p) = IsUdpServer (peer s p)" "avg_delta_time (peer t p) = avg_delta_time (peer s p)"
    using p by (auto simp: IsUdpServer_def)
  show "offers t p sp = offers s p sp" "no_doubt t p sp = no_doubt s p sp" using b by (simp_all add: offers_def no_doubt_def)
  show "GetRequestingCount sp t = GetRequestingCount sp s" "HasSubPieceCount k t = HasSubPieceCount k s"
    "GetSubPieceCount k t = GetSubPieceCount k s" "length (peers t) = length (peers s)" "connected t = connected s"
    "session_cache t = session_cache s" "request_tasks t = request_tasks s"
    using assms by (simp_all add: queues_only_def GetRequestingCount_def HasSubPieceCount_def GetSubPieceCount_def)
qed

lemma queues_upd: "queues_only s (upd_peer p (\<lambda>q. q\<lparr>task_set := f q\<rparr>) s)"
proof -
  have "\<exists>ts. peer (upd_peer p (\<lambda>q. q\<lparr>task_set := f q\<rparr>) s) r = (peer s r)\<lparr>task_set := ts\<rparr>" for r
  proof (cases "r = p \<and> p < length (peers s)")
    case False
    then have "peer (upd_peer p (\<lambda>q. q\<lparr>task_set := f q\<rparr>) s) r = peer s r" by (auto simp: peer_def upd_peer_def list_update_beyond)
    then show ?thesis by (intro exI [of _ "task_set (peer s r)"]) simp
  qed auto
  then show ?thesis by (simp add: queues_only_def)
qed

lemma queues_Add: "queues_only s (AddAssignedSubPiece lib sp p s)"
  unfolding AddAssignedSubPiece_def by (rule queues_upd)

lemma Add_tasks:
  "p < length (peers s) \<Longrightarrow>
   set (task_set (peer (AddAssignedSubPiece lib sp p s) q)) = (if q = p then insert sp (set (task_set (peer s q))) else set (task_set (peer s q)))"
  by (simp add: AddAssignedSubPiece_def)

text \<open>The search in the list of peers.\<close>

definition busy :: "(live_peer \<Rightarrow> bool) \<Rightarrow> live_subpiece \<Rightarrow> live_session \<Rightarrow> nat \<times> nat \<Rightarrow> bool" where
  "busy allowed sp s e \<longleftrightarrow>
     (allowed (peer s (snd e)) \<and> offers s (snd e) sp \<longrightarrow> sp \<in> set (task_set (peer s (snd e))))"

fun found_in ::
    "(live_peer \<Rightarrow> bool) \<Rightarrow> live_subpiece \<Rightarrow> live_session \<Rightarrow> (nat \<times> nat) list \<Rightarrow>
     ((nat \<times> nat) list \<times> (nat \<times> nat) \<times> (nat \<times> nat) list) option \<Rightarrow> bool" where
  "found_in allowed sp s es None \<longleftrightarrow> (\<forall>e\<in>set es. busy allowed sp s e)"
| "found_in allowed sp s es (Some (before, x, after)) \<longleftrightarrow>
     es = before @ x # after \<and> \<not> busy allowed sp s x \<and> (\<forall>e\<in>set before. busy allowed sp s e)"

lemma find_peer_spec:
  assumes "\<forall>e\<in>set es. no_doubt s (snd e) sp"
  shows "\<exists>r. find_peer allowed sp s es = Inr r \<and> found_in allowed sp s es r"
  using assms
proof (induction es)
  case (Cons e es)
  obtain b where b: "HasSubPieceInBitmap sp (peer s (snd e)) = Inr b" using Cons.prems by (auto simp: no_doubt_def)
  obtain r where r: "find_peer allowed sp s es = Inr r" "found_in allowed sp s es r" using Cons by auto
  show ?case
  proof (cases "busy allowed sp s e")
    case False
    then show ?thesis using b
      by (intro exI [of _ "Some ([], e, es)"]) (auto simp: busy_def HasSubPieceInTaskSet_def offers_def)
  next
    case True
    then have "find_peer allowed sp s (e # es) = Inr (map_option (\<lambda>(before, x, after). (e # before, x, after)) r)"
      using b r(1) by (auto simp: HasSubPieceInTaskSet_def busy_def offers_def and_then_def)
    moreover have "found_in allowed sp s (e # es) (map_option (\<lambda>(before, x, after). (e # before, x, after)) r)"
    proof (cases r)
      case (Some a)
      obtain before x after where a: "a = (before, x, after)" by (cases a) auto
      show ?thesis using r(2) True unfolding Some a by simp
    qed (use r(2) True in simp)
    ultimately show ?thesis by blast
  qed
qed simp

lemma insert_recvtime_set [simp]: "set (insert_recvtime x ys) = insert x (set ys)"
  by (induction ys) auto

lemma insert_recvtime_sorted:
  "sorted (map fst ys) \<Longrightarrow> sorted (map fst (insert_recvtime x ys))"
  by (induction ys) (auto simp: less_imp_le not_less intro: order_trans)

lemma moved_sorted:
  assumes "sorted (map fst (before @ x # after))" "fst x \<le> t"
  shows "sorted (map fst (before @ insert_recvtime (t, p) after))"
  using assms insert_recvtime_sorted [of after "(t, p)"] by (fastforce simp: sorted_append)

definition may_ask :: "bool \<Rightarrow> live_peer \<Rightarrow> bool" where
  "may_ask use_udpserver q \<longleftrightarrow> use_udpserver \<or> \<not> IsUdpServer q"

lemma assign_subpiece_result:
  assumes "\<forall>e\<in>set (recvtime_list d). no_doubt (session d) (snd e) sp"
  shows "\<exists>r allowed R. assign_subpiece lib udp sp d =
      Inr (case r of None \<Rightarrow> d\<lparr>reassign_set := R\<rparr> | Some x \<Rightarrow> give_to lib sp x (d\<lparr>reassign_set := R\<rparr>)) \<and>
    found_in allowed sp (session d) (recvtime_list d) r \<and> (\<forall>q. allowed q \<longrightarrow> may_ask udp q) \<and> (r = None \<longrightarrow> allowed = may_ask udp)"
proof -
  have m: "(\<lambda>q. udp \<or> \<not> IsUdpServer q) = may_ask udp" by (simp add: may_ask_def fun_eq_iff)
  obtain r2 where r2: "find_peer (may_ask udp) sp (session d) (recvtime_list d) = Inr r2"
    "found_in (may_ask udp) sp (session d) (recvtime_list d) r2" using find_peer_spec [OF assms] by blast
  obtain r1 where r1: "find_peer IsUdpServer sp (session d) (recvtime_list d) = Inr r1"
    "found_in IsUdpServer sp (session d) (recvtime_list d) r1" using find_peer_spec [OF assms] by blast
  show ?thesis
  proof (cases "udp \<and> sp \<in> reassign_set d")
    case False
    have same: "d\<lparr>reassign_set := reassign_set d\<rparr> = d" by simp
    have "assign_subpiece lib udp sp d = Inr (case r2 of None \<Rightarrow> d | Some x \<Rightarrow> give_to lib sp x d)"
      using False r2(1) [folded m] by (auto simp: assign_subpiece_def and_then_def split: option.split)
    then show ?thesis using r2(2) same by (intro exI [of _ r2] exI [of _ "may_ask udp"] exI [of _ "reassign_set d"]) (simp only: same, simp)
  next
    case again: True
    let ?d1 = "d\<lparr>reassign_set := reassign_set d - {sp}\<rparr>"
    show ?thesis
    proof (cases r1)
      case None
      have "assign_subpiece lib udp sp d = Inr (case r2 of None \<Rightarrow> ?d1 | Some x \<Rightarrow> give_to lib sp x ?d1)"
        using again None r1(1) r2(1) [folded m] by (auto simp: assign_subpiece_def and_then_def split: option.split)
      then show ?thesis using r2(2) by (intro exI [of _ r2] exI [of _ "may_ask udp"] exI [of _ "reassign_set d - {sp}"]) simp
    next
      case (Some x)
      have "assign_subpiece lib udp sp d = Inr (give_to lib sp x ?d1)"
        using again Some r1(1) by (simp add: assign_subpiece_def and_then_def)
      then show ?thesis using r1(2) Some again
        by (intro exI [of _ "Some x"] exI [of _ IsUdpServer] exI [of _ "reassign_set d - {sp}"]) (simp add: may_ask_def)
    qed
  qed
qed

lemma give_to_simps:
  assumes "x = (before, (t, p), after)"
  shows "work (give_to lib sp x d) = work d" "session (give_to lib sp x d) = AddAssignedSubPiece lib sp p (session d)"
    "assign_deque (give_to lib sp x d) = assign_deque d"
    "recvtime_list (give_to lib sp x d) = before @ insert_recvtime ((t + avg_delta_time (peer (session d) p)) mod 2 ^ 32, p) after"
  using queuesD(3) [OF queues_Add, of lib sp p "session d" p] assms by (simp_all add: give_to_def Let_def)

text \<open>The work of \<open>sps\<close> has been divided among the peers of the list, starting from \<open>d\<close>.\<close>

definition listed :: "live_download \<Rightarrow> nat set" where
  "listed d = snd ` set (recvtime_list d)"

definition queue :: "live_download \<Rightarrow> nat \<Rightarrow> live_subpiece set" where
  "queue d p = set (task_set (peer (session d) p))"

definition divided :: "p2p_lib \<Rightarrow> bool \<Rightarrow> live_subpiece set \<Rightarrow> live_download \<Rightarrow> live_download \<Rightarrow> bool" where
  "divided lib udp sps d e \<longleftrightarrow>
     work e = work d \<and> queues_only (session d) (session e) \<and> listed e = listed d \<and> assign_deque e = assign_deque d \<and>
     (\<forall>p. queue d p \<subseteq> queue e p) \<and>
     (\<forall>plib. p2p_reachable plib lib (session d) \<longrightarrow> p2p_reachable plib lib (session e)) \<and>
     (\<forall>p sp. sp \<in> queue e p - queue d p \<longrightarrow>
        p \<in> listed d \<and> sp \<in> sps \<and> offers (session d) p sp \<and> may_ask udp (peer (session d) p)) \<and>
     (\<forall>sp\<in>sps. (\<exists>p\<in>listed d. offers (session d) p sp \<and> may_ask udp (peer (session d) p)) \<longrightarrow>
        (\<exists>p\<in>listed d. sp \<in> queue e p \<and> may_ask udp (peer (session d) p)))"

lemma may_ask_same: "queues_only s t \<Longrightarrow> may_ask udp (peer t p) = may_ask udp (peer s p)"
  by (simp add: may_ask_def queuesD(2))

lemma assign_divides:
  assumes "\<forall>p\<in>listed d. no_doubt (session d) p sp" "listed d \<subseteq> {..<length (peers (session d))}"
  shows "\<exists>e. assign_subpiece lib udp sp d = Inr e \<and> divided lib udp {sp} d e"
proof -
  have nd: "\<forall>e\<in>set (recvtime_list d). no_doubt (session d) (snd e) sp" using assms(1) by (simp add: listed_def)
  obtain r allowed R where r: "assign_subpiece lib udp sp d =
      Inr (case r of None \<Rightarrow> d\<lparr>reassign_set := R\<rparr> | Some x \<Rightarrow> give_to lib sp x (d\<lparr>reassign_set := R\<rparr>))"
    "found_in allowed sp (session d) (recvtime_list d) r" "\<forall>q. allowed q \<longrightarrow> may_ask udp q" "r = None \<longrightarrow> allowed = may_ask udp"
    using assign_subpiece_result [OF nd] by blast
  show ?thesis
  proof (cases r)
    case None
    let ?e = "d\<lparr>reassign_set := R\<rparr>"
    have busy: "\<forall>e\<in>set (recvtime_list d). busy (may_ask udp) sp (session d) e" using r(2,4) None by simp
    have "divided lib udp {sp} d ?e"
      unfolding divided_def using busy by (auto simp: listed_def queue_def busy_def)
    then show ?thesis using r(1) None by simp
  next
    case (Some x)
    obtain before t p after where x: "x = (before, (t, p), after)" by (cases x) auto
    let ?e = "give_to lib sp x (d\<lparr>reassign_set := R\<rparr>)"
    have f: "recvtime_list d = before @ (t, p) # after" "allowed (peer (session d) p)" "offers (session d) p sp"
      using r(2) unfolding Some x by (simp_all add: busy_def)
    note g = give_to_simps [OF x, of lib sp "d\<lparr>reassign_set := R\<rparr>", simplified]
    have pl: "p \<in> listed d" using f(1) by (simp add: listed_def)
    then have lt: "p < length (peers (session d))" using assms(2) by auto
    have q: "queue ?e q = (if q = p then insert sp (queue d q) else queue d q)" for q
      by (simp add: queue_def g(2) Add_tasks [OF lt])
    have mp: "may_ask udp (peer (session d) p)" using f(2) r(3) by blast
    have "listed ?e = listed d" by (simp add: listed_def g(4) f(1) image_Un)
    moreover have "queues_only (session d) (session ?e)" unfolding g(2) by (rule queues_Add)
    moreover have "work ?e = work d" "assign_deque ?e = assign_deque d" by (rule g(1), rule g(3))
    moreover have "sp' \<in> queue ?e q - queue d q \<longrightarrow> q \<in> listed d \<and> sp' \<in> {sp} \<and> offers (session d) q sp' \<and> may_ask udp (peer (session d) q)" for q sp'
      using pl mp f(3) by (auto simp: q)
    moreover have "p2p_reachable plib lib (session ?e)" if "p2p_reachable plib lib (session d)" for plib
      using stepped [OF that, of "SubPieceAssigned sp p"] lt by (simp add: g(2))
    moreover have "\<exists>q\<in>listed d. sp \<in> queue ?e q \<and> may_ask udp (peer (session d) q)"
      using pl mp by (intro bexI [of _ p]) (simp_all add: q)
    ultimately have "divided lib udp {sp} d ?e" unfolding divided_def using q by auto
    then show ?thesis using r(1) Some by simp
  qed
qed

lemma divided_more:
  assumes "divided lib udp A d e" "divided lib udp B e f"
  shows "divided lib udp (A \<union> B) d f"
proof -
  have a: "queues_only (session d) (session e)" "listed e = listed d" "\<And>p. queue d p \<subseteq> queue e p"
    "\<And>p sp. sp \<in> queue e p - queue d p \<Longrightarrow> p \<in> listed d \<and> sp \<in> A \<and> offers (session d) p sp \<and> may_ask udp (peer (session d) p)"
    "\<And>sp p. sp \<in> A \<Longrightarrow> p \<in> listed d \<Longrightarrow> offers (session d) p sp \<Longrightarrow> may_ask udp (peer (session d) p) \<Longrightarrow>
       \<exists>p\<in>listed d. sp \<in> queue e p \<and> may_ask udp (peer (session d) p)"
    using assms(1) unfolding divided_def by blast+
  have b: "queues_only (session e) (session f)" "listed f = listed e" "\<And>p. queue e p \<subseteq> queue f p"
    "\<And>p sp. sp \<in> queue f p - queue e p \<Longrightarrow> p \<in> listed e \<and> sp \<in> B \<and> offers (session e) p sp \<and> may_ask udp (peer (session e) p)"
    "\<And>sp p. sp \<in> B \<Longrightarrow> p \<in> listed e \<Longrightarrow> offers (session e) p sp \<Longrightarrow> may_ask udp (peer (session e) p) \<Longrightarrow>
       \<exists>p\<in>listed e. sp \<in> queue f p \<and> may_ask udp (peer (session e) p)"
    using assms(2) unfolding divided_def by blast+
  note same = queuesD(4) [OF a(1)] may_ask_same [OF a(1)]
  note b' = b(4,5) [unfolded same a(2)]
  have "work f = work d \<and> assign_deque f = assign_deque d" using assms by (simp add: divided_def)
  moreover have "\<forall>plib. p2p_reachable plib lib (session d) \<longrightarrow> p2p_reachable plib lib (session f)"
    using assms by (simp add: divided_def)
  moreover have "queues_only (session d) (session f)" by (rule queues_only_trans [OF a(1) b(1)])
  moreover have "p \<in> listed d \<and> sp \<in> A \<union> B \<and> offers (session d) p sp \<and> may_ask udp (peer (session d) p)"
    if "sp \<in> queue f p - queue d p" for p sp
    using that a(4) [of sp p] b'(1) [of sp p] by blast
  moreover have "\<exists>p\<in>listed d. sp \<in> queue f p \<and> may_ask udp (peer (session d) p)"
    if "sp \<in> A \<union> B" "p \<in> listed d" "offers (session d) p sp" "may_ask udp (peer (session d) p)" for sp p
    using that a(5) [of sp p] b(3) b'(2) [of sp p] by blast
  moreover have "\<And>p. queue d p \<subseteq> queue f p" using a(3) b(3) by blast
  moreover have "listed f = listed d" using a(2) b(2) by simp
  ultimately show ?thesis unfolding divided_def by blast
qed

lemma assign_all_divides:
  assumes "\<forall>sp\<in>set sps. \<forall>p\<in>listed d. no_doubt (session d) p sp" "listed d \<subseteq> {..<length (peers (session d))}"
  shows "\<exists>e. assign_subpieces lib udp sps d = Inr e \<and> divided lib udp (set sps) d e"
  using assms
proof (induction sps arbitrary: d)
  case Nil
  have "divided lib udp {} d d" by (simp add: divided_def)
  then show ?case by simp
next
  case (Cons sp sps)
  from assign_divides [of d sp lib udp] Cons.prems obtain e where e: "assign_subpiece lib udp sp d = Inr e" "divided lib udp {sp} d e" by auto
  have q: "queues_only (session d) (session e)" "listed e = listed d" using e(2) by (simp_all add: divided_def)
  have "\<forall>x\<in>set sps. \<forall>p\<in>listed e. no_doubt (session e) p x" "listed e \<subseteq> {..<length (peers (session e))}"
    using Cons.prems by (simp_all add: q(2) queuesD(5,9) [OF q(1)])
  from Cons.IH [OF this] obtain f where f: "assign_subpieces lib udp sps e = Inr f" "divided lib udp (set sps) e f" by blast
  have "divided lib udp (set (sp # sps)) d f" using divided_more [OF e(2) f(2)] by simp
  then show ?case using e(1) f(1) by simp
qed

lemma clear_queues: "queues_only s (fold ClearTaskQueue ps s)"
proof (induction ps arbitrary: s)
  case (Cons q ps)
  have "queues_only s (ClearTaskQueue q s)" unfolding ClearTaskQueue_def by (rule queues_upd)
  from queues_only_trans [OF this Cons.IH] show ?case by (simp only: fold_Cons comp_apply)
qed simp

lemma cleared_peer:
  "peer (fold ClearTaskQueue ps s) p = (if p \<in> set ps \<and> p < length (peers s) then (peer s p)\<lparr>task_set := []\<rparr> else peer s p)"
proof (induction ps arbitrary: s)
  case (Cons q ps)
  have p: "peer (ClearTaskQueue q s) p = (if p = q \<and> p < length (peers s) then (peer s p)\<lparr>task_set := []\<rparr> else peer s p)"
    by (cases "p = q \<and> p < length (peers s)") (auto simp: ClearTaskQueue_def peer_def upd_peer_def list_update_beyond)
  have "length (peers (ClearTaskQueue q s)) = length (peers s)" by (simp add: ClearTaskQueue_def)
  then show ?case using Cons.IH [of "ClearTaskQueue q s"] p by (auto split: if_splits)
qed simp

lemma cleared_reachable: "p2p_reachable plib lib s \<Longrightarrow> p2p_reachable plib lib (fold ClearTaskQueue ps s)"
proof (induction ps arbitrary: s)
  case (Cons q ps)
  have "p2p_reachable plib lib (ClearTaskQueue q s)" using stepped [OF Cons.prems, of "QueueCleared q"] by simp
  from Cons.IH [OF this] show ?case by (simp only: fold_Cons comp_apply)
qed simp

lemma recvtime_map_facts:
  assumes "connections_ok (session d)"
  defines "e \<equiv> CaclPeerConnectionRecvTimeMap d"
  shows "work e = work d" "queues_only (session d) (session e)" "assign_deque e = assign_deque d"
    "listed e = set (map snd (connected (session d)))" "sorted (map fst (recvtime_list e))"
    "p \<in> listed e \<Longrightarrow> queue e p = {}" "p2p_reachable plib lib (session d) \<Longrightarrow> p2p_reachable plib lib (session e)"
proof -
  let ?ps = "map snd (connected (session d))"
  have s: "session e = fold ClearTaskQueue ?ps (session d)" by (simp add: e_def CaclPeerConnectionRecvTimeMap_def Let_def)
  show "work e = work d" "assign_deque e = assign_deque d" by (simp_all add: e_def CaclPeerConnectionRecvTimeMap_def Let_def)
  show "queues_only (session d) (session e)" unfolding s by (rule clear_queues)
  show l: "listed e = set ?ps"
    by (simp add: e_def CaclPeerConnectionRecvTimeMap_def Let_def listed_def image_image)
  show "sorted (map fst (recvtime_list e))" by (simp add: e_def CaclPeerConnectionRecvTimeMap_def Let_def)
  show "queue e p = {}" if "p \<in> listed e"
  proof -
    have "p \<in> set ?ps" "p < length (peers (session d))" using that l connected_pointers(1) [OF assms(1)] by auto
    then show ?thesis by (simp add: queue_def s cleared_peer)
  qed
  show "p2p_reachable plib lib (session d) \<Longrightarrow> p2p_reachable plib lib (session e)" unfolding s by (rule cleared_reachable)
qed

text \<open>
  The hypotheses of a tick.  No peer has announced fewer subpieces of a block than the session has noted
  (\<open>first_count_is_final\<close> shows what happens otherwise), and there is room for the blocks of which subpieces are known.
\<close>

definition counts_fit :: "live_session \<Rightarrow> bool" where
  "counts_fit s \<longleftrightarrow>
     (\<forall>(ep, p)\<in>set (connected s). \<forall>(k, bits)\<in>set (block_bitmap (peer s p)).
        0 < length bits \<and> GetSubPieceCount k s \<le> 16 * (length bits - 1) + 1)"

definition tick_room :: "task_env \<Rightarrow> nat \<Rightarrow> live_download \<Rightarrow> bool" where
  "tick_room env L d \<longleftrightarrow>
     counts_near env L d \<and> playing_block env + 2 ^ 16 * live_interval (stream_cache (work d)) \<le> 2 ^ 32 \<and>
     length (block_nodes (stream_cache (work d))) + length (requesting_map (work d)) + L < 65000"

lemma fitting_no_doubt:
  assumes "counts_fit s" "p \<in> set (map snd (connected s))" "i < GetSubPieceCount k s"
  shows "no_doubt s p (k, i)"
proof (cases "map_of (block_bitmap (peer s p)) k")
  case (Some bits)
  then have "0 < length bits \<and> GetSubPieceCount k s \<le> 16 * (length bits - 1) + 1"
    using assms(1,2) map_of_SomeD [OF Some] by (fastforce simp: counts_fit_def)
  then have "(if i = 0 then 0 else (i - 1) div 16 + 1) < length bits" using assms(3) by auto
  then show ?thesis using Some by (simp add: no_doubt_def HasSubPieceInBitmap_def Let_def split: if_splits)
next
  case None
  then have "HasSubPieceInBitmap (k, i) (peer s p) = Inr False" by (simp add: HasSubPieceInBitmap_def)
  then show ?thesis unfolding no_doubt_def by (rule exI)
qed

lemma removed_p2p_ids: "p2p_ids (removed k w) = p2p_ids w - {k}"
  by (auto simp: removed_def p2p_ids_def fst_filter)

lemma RemoveBlockTasks_work:
  assumes "tasks_inv lib w" "stream_running w"
  shows "\<exists>v. RemoveBlockTasks ks w = Some (Inr v) \<and> tasks_inv lib v \<and> stream_running v \<and> stream_cache v = stream_cache w \<and>
    length (requesting_map v) \<le> length (requesting_map w) \<and> p2p_ids v = p2p_ids w - set ks"
  using assms
proof (induction ks arbitrary: w)
  case (Cons k ks)
  note ti = tasks_invD [OF Cons.prems]
  have r: "RemoveBlockTask k w = Some (Inr (removed k w))" by (rule RemoveBlockTask_removed [OF ti(4,5)])
  have "stream_running (removed k w)" using Cons.prems(2) by simp
  from Cons.IH [OF removed_ok(1) [OF Cons.prems] this] obtain v where v: "RemoveBlockTasks ks (removed k w) = Some (Inr v)"
    "tasks_inv lib v" "stream_running v" "stream_cache v = stream_cache (removed k w)"
    "length (requesting_map v) \<le> length (requesting_map (removed k w))" "p2p_ids v = p2p_ids (removed k w) - set ks" by blast
  have "length (requesting_map (removed k w)) \<le> length (requesting_map w)" by simp
  with v(5) have "length (requesting_map v) \<le> length (requesting_map w)" by (rule order_trans)
  moreover have "p2p_ids v = p2p_ids w - set (k # ks)" using v(6) by (auto simp: removed_p2p_ids)
  ultimately show ?case using r v(1-4) by simp
qed simp

text \<open>One tick, and what it leaves.\<close>

definition ticked :: "protocol_lib \<Rightarrow> p2p_lib \<Rightarrow> task_env \<Rightarrow> bool \<Rightarrow> live_download \<Rightarrow> live_download \<Rightarrow> bool" where
  "ticked lib ids env udp d e \<longleftrightarrow>
     download_ok lib e \<and> queues_only (session d) (session e) \<and> p2p_reachable lib ids (session e) \<and>
     (length (assign_deque e) \<ge> 150 \<or> last_block_unknown e \<or> left_capacity env \<noteq> None) \<and>
     (\<forall>p\<in>set (map snd (connected (session e))). \<forall>sp\<in>queue e p.
        offers (session e) p sp \<and> may_ask udp (peer (session e) p) \<and> missing_in (block_ids e) e sp \<and>
        GetRequestingCount sp (session e) < 3) \<and>
     (\<forall>sp. missing_in (block_ids e) e sp \<and> GetRequestingCount sp (session e) = 0 \<and>
        (\<exists>p\<in>set (map snd (connected (session e))). offers (session e) p sp \<and> may_ask udp (peer (session e) p)) \<longrightarrow>
        (\<exists>p\<in>set (map snd (connected (session e))). sp \<in> queue e p))"

lemma missing_in_queues:
  assumes "work e = work d" "queues_only (session d) (session e)"
  shows "missing_in ks e sp = missing_in ks d sp" "block_ids e = block_ids d" "last_block_unknown e = last_block_unknown d"
  using assms(1) queuesD(7,8) [OF assms(2)]
  by (simp_all add: missing_in_def has_subpiece_def known_subpieces_def block_ids_def last_block_unknown_def)

lemma counts_fit_queues:
  assumes "queues_only s t"
  shows "counts_fit t = counts_fit s"
proof -
  have "block_bitmap (peer t p) = block_bitmap (peer s p)" for p
  proof -
    obtain ts where "peer t p = (peer s p)\<lparr>task_set := ts\<rparr>" using assms unfolding queues_only_def by blast
    then show ?thesis by simp
  qed
  then show ?thesis by (simp add: counts_fit_def queuesD(8,10) [OF assms])
qed

lemma plan_no_doubt:
  assumes "plan_ok d" "counts_fit (session d)" "sp \<in> set (assign_deque d)" "p \<in> set (map snd (connected (session d)))"
  shows "no_doubt (session d) p sp"
proof -
  obtain k i where sp: "sp = (k, i)" by fastforce
  have "sp \<in> set (known_subpieces (fst sp) d)" using assms(1,3) by (auto simp: plan_ok_def missing_in_def)
  then have "i < GetSubPieceCount k (session d)" by (auto simp: sp known_subpieces_def split: if_splits)
  from fitting_no_doubt [OF assms(2,4) this] show ?thesis by (simp add: sp)
qed

lemma free_steps_le: "free_steps env L w \<le> L"
proof -
  have "free_steps env L w \<le> card {..<L}" unfolding free_steps_def by (rule card_mono) auto
  then show ?thesis by simp
qed

lemma dividing_ticks:
  assumes "download_ok lib d2" "plan_ok d2" "p2p_reachable lib ids (session d2)" "inj (transaction_id ids)" "counts_fit (session d2)"
    "length (assign_deque d2) \<ge> 150 \<or> last_block_unknown d2 \<or> left_capacity env \<noteq> None"
  shows "\<exists>e. AssignerPeers ids udp (CaclPeerConnectionRecvTimeMap d2) = Inr e \<and> ticked lib ids env udp d2 e \<and> work e = work d2"
proof -
  let ?d3 = "CaclPeerConnectionRecvTimeMap d2" and ?ps = "set (map snd (connected (session d2)))"
  note co = session_okD(3) [OF p2p_reachable_ok [OF assms(3,4)]]
  note f = recvtime_map_facts [OF co]
  note q3 = queuesD [OF f(2)] and m3 = missing_in_queues [OF f(1,2)]
  have sub: "listed ?d3 \<subseteq> {..<length (peers (session ?d3))}" using connected_pointers(1) [OF co] by (simp add: f(4) q3(9))
  have "\<forall>sp\<in>set (assign_deque ?d3). \<forall>p\<in>listed ?d3. no_doubt (session ?d3) p sp"
    using plan_no_doubt [OF assms(2,5)] by (simp add: f(3,4) q3(5))
  from assign_all_divides [OF this sub, of ids udp] obtain e where e:
    "assign_subpieces ids udp (assign_deque ?d3) ?d3 = Inr e" "divided ids udp (set (assign_deque ?d3)) ?d3 e" by blast
  have w: "work e = work ?d3" "queues_only (session ?d3) (session e)" "assign_deque e = assign_deque ?d3"
    "p2p_reachable lib ids (session ?d3) \<longrightarrow> p2p_reachable lib ids (session e)"
    using e(2) by (simp_all add: divided_def)
  have w2: "work e = work d2" using w(1) f(1) by simp
  have qo: "queues_only (session d2) (session e)" by (rule queues_only_trans [OF f(2) w(2)])
  note q = queuesD [OF qo] and m = missing_in_queues [OF w2 qo] and qe = queuesD [OF w(2)]
  have conn: "set (map snd (connected (session e))) = ?ps" by (simp add: q(10))
  have plan: "missing_in (block_ids d2) d2 sp \<and> GetRequestingCount sp (session d2) < 3" if "sp \<in> set (assign_deque d2)" for sp
    using assms(2) that by (auto simp: plan_ok_def)
  have dok: "download_ok lib e" using assms(1) w2 q(11) by (simp add: download_ok_def)
  have reach: "p2p_reachable lib ids (session e)" using w(4) f(7) [OF assms(3)] by blast
  have enough: "length (assign_deque e) \<ge> 150 \<or> last_block_unknown e \<or> left_capacity env \<noteq> None"
    using assms(6) w(3) f(3) m(3) by simp
  have only: "offers (session e) p sp \<and> may_ask udp (peer (session e) p) \<and> missing_in (block_ids e) e sp \<and>
      GetRequestingCount sp (session e) < 3" if p: "p \<in> ?ps" and sp: "sp \<in> queue e p" for p sp
  proof -
    have "p \<in> listed ?d3" using p by (simp add: f(4))
    then have "sp \<in> queue e p - queue ?d3 p" using sp f(6) by simp
    then have "sp \<in> set (assign_deque ?d3) \<and> offers (session ?d3) p sp \<and> may_ask udp (peer (session ?d3) p)"
      using e(2) unfolding divided_def by blast
    then show ?thesis using plan [of sp] f(3) by (simp add: m q q3 qe may_ask_def)
  qed
  have all: "\<exists>p\<in>?ps. sp \<in> queue e p"
    if sp: "missing_in (block_ids e) e sp" "GetRequestingCount sp (session e) = 0"
      and p: "p \<in> ?ps" "offers (session e) p sp" "may_ask udp (peer (session e) p)" for sp p
  proof -
    have "missing_in (block_ids d2) d2 sp" "GetRequestingCount sp (session d2) = 0" using sp by (simp_all add: m q)
    then have "sp \<in> set (assign_deque d2)" using assms(2) unfolding plan_ok_def by blast
    then have "sp \<in> set (assign_deque ?d3)" by (simp add: f(3))
    moreover have "p \<in> listed ?d3" "offers (session ?d3) p sp" "may_ask udp (peer (session ?d3) p)"
      using p by (simp_all add: f(4) qe may_ask_def)
    ultimately have "\<exists>p\<in>listed ?d3. sp \<in> queue e p" using e(2) unfolding divided_def by blast
    then show ?thesis by (simp add: f(4))
  qed
  have "ticked lib ids env udp d2 e"
    unfolding ticked_def conn using dok qo reach enough only all by blast
  then show ?thesis using e(1) w2 by (simp add: AssignerPeers_def)
qed

lemma tick_ok:
  assumes "download_ok lib d" "env_ok env" "p2p_reachable lib ids (session d)" "inj (transaction_id ids)" "tick_room env L d"
    "counts_fit (session d)"
  shows "\<exists>e. assigner_OnP2PTimer ids env ticks urg udp pausing d = Some (Inr e) \<and>
    (\<forall>k\<in>p2p_ids (work d). \<not> HasCompleteBlock k (stream_cache (work d)) \<longrightarrow> k \<in> p2p_ids (work e)) \<and>
    (if pausing \<or> ticks mod 2 = 0 then session e = session d else ticked lib ids env udp d e)"
proof -
  have ti: "tasks_inv lib (work d)" "stream_running (work d)" using assms(1) by (simp_all add: download_ok_def)
  obtain w where w: "CheckBlockComplete (work d) = Some (Inr w)" "tasks_inv lib w" "stream_running w"
    "stream_cache w = stream_cache (work d)" "length (requesting_map w) \<le> length (requesting_map (work d))"
    "p2p_ids w = p2p_ids (work d) - set (map (\<lambda>e. fst (snd e))
       (filter (\<lambda>e. HasCompleteBlock (fst e) (stream_cache (work d))) (p2p_tasks (p2p (work d)))))"
    using RemoveBlockTasks_work [OF ti] unfolding CheckBlockComplete_def by blast
  have "\<forall>e\<in>set (p2p_tasks (p2p (work d))). fst (snd e) = fst e" using tasks_invD(4) [OF ti] by (simp add: map_inv_def)
  then have unfinished: "k \<in> p2p_ids w" if "k \<in> p2p_ids (work d)" "\<not> HasCompleteBlock k (stream_cache (work d))" for k
    using that w(6) by auto
  show ?thesis
  proof (cases "pausing \<or> ticks mod 2 = 0")
    case True
    then show ?thesis using w(1) unfinished by (auto simp: assigner_OnP2PTimer_def Let_def)
  next
    case False
    let ?d1 = "d\<lparr>work := w, urgent := urg\<rparr>"
    have ok1: "download_ok lib ?d1" using assms(1) w by (simp add: download_ok_def)
    have near: "counts_near env L ?d1" using assms(5) w(4) by (simp add: tick_room_def counts_near_def)
    have room: "playing_block env + 2 ^ 16 * live_interval (stream_cache (work ?d1)) \<le> 2 ^ 32"
      using assms(5) w(4) by (simp add: tick_room_def)
    have few: "length (block_nodes (stream_cache (work ?d1))) + length (requesting_map (work ?d1)) + free_steps env L (work ?d1) + 2 < 2 ^ 16"
      using assms(5) w(4,5) free_steps_le [of env L w] by (simp add: tick_room_def)
    from capacity_returns [OF ok1 assms(2) near room few] obtain d2 where d2: "CalcSubpieceTillCapacity env ?d1 = Some (Inr d2)"
      "planned_till_capacity lib env ?d1 d2" by blast
    have s2: "session d2 = session d" using d2(2) by (simp add: planned_till_capacity_def)
    have "\<exists>e. AssignerPeers ids udp (CaclPeerConnectionRecvTimeMap d2) = Inr e \<and> ticked lib ids env udp d2 e \<and> work e = work d2"
      by (rule dividing_ticks) (use d2(2) assms(3,4,6) s2 in \<open>simp_all add: planned_till_capacity_def\<close>)
    then obtain e where "AssignerPeers ids udp (CaclPeerConnectionRecvTimeMap d2) = Inr e" "ticked lib ids env udp d2 e"
      "work e = work d2" by blast
    moreover from this(2) have "ticked lib ids env udp d e" by (simp add: ticked_def s2)
    moreover have "p2p_ids w \<subseteq> p2p_ids (work d2)" using d2(2) by (simp add: planned_till_capacity_def)
    ultimately show ?thesis using False w(1) d2(1) unfinished by (auto simp: assigner_OnP2PTimer_def)
  qed
qed

section \<open>Asking for what was assigned\<close>

text \<open>Nothing that was assigned is lost: it stays in the queue, or is under way.\<close>

definition kept :: "live_session \<Rightarrow> live_session \<Rightarrow> bool" where
  "kept s t \<longleftrightarrow>
     length (peers t) = length (peers s) \<and> set (request_tasks s) \<subseteq> set (request_tasks t) \<and>
     (\<forall>p. set (task_set (peer s p)) \<subseteq> set (task_set (peer t p)) \<union> fst ` set (request_tasks t))"

lemma kept_refl: "kept s s"
  by (auto simp: kept_def)

lemma kept_trans: "kept s t \<Longrightarrow> kept t u \<Longrightarrow> kept s u"
  unfolding kept_def by (simp, blast)

lemma kept_silent: "silent s t \<Longrightarrow> kept s t"
  by (auto simp: kept_def silentD)

lemma kept_request:
  assumes "p < length (peers s)"
  shows "kept s (RequestSubPieces lib env n False p s)"
proof (cases "peer_running (peer s p) \<and> n \<noteq> 0 \<and> task_set (peer s p) \<noteq> []")
  case True
  let ?t = "RequestSubPieces lib env n False p s"
  note c = request_changes [OF assms, of n, where lib = lib and env = env]
  have run: "peer_running (peer s p)" "n \<noteq> 0" "task_set (peer s p) \<noteq> []" using True by blast+
  have tasks: "set (request_tasks ?t) = set (request_tasks s) \<union>
      (\<lambda>sp. (sp, the_task env (ask_timeout env (peer s p)) p (transaction_id lib (transactions s)))) ` set (take n (task_set (peer s p)))"
    using c(7) [OF run] by (simp add: AddRequests_tasks(1))
  have "set (task_set (peer s q)) \<subseteq> set (task_set (peer ?t q)) \<union> fst ` set (request_tasks ?t)" for q
  proof (cases "q = p")
    case True
    have "set (task_set (peer s p)) = set (take n (task_set (peer s p))) \<union> set (drop n (task_set (peer s p)))"
      by (metis append_take_drop_id set_append)
    moreover have "task_set (peer ?t p) = drop n (task_set (peer s p))" using c(1) [OF run] by (simp add: peer_asked_def)
    ultimately show ?thesis unfolding True tasks by force
  qed (simp add: c(8) [OF run])
  then show ?thesis using c(9) [OF run] tasks by (simp add: kept_def)
next
  case False
  then have "RequestSubPieces lib env n False p s = s" by (auto simp: RequestSubPieces_def Let_def)
  then show ?thesis by (simp add: kept_refl)
qed

lemma kept_till_full:
  "p < length (peers s) \<Longrightarrow> till_full lib env p s = Inr t \<Longrightarrow> kept s t"
proof (induction lib env p s rule: till_full.induct)
  case (1 lib env p s)
  let ?u = "RequestSubPieces lib env (request_batch (peer s p)) False p s"
  let ?c = "requesting_count (peer s p) < window_size (peer s p) \<and> task_set (peer s p) \<noteq> []"
  show ?case
  proof (cases ?c)
    case False
    then have "till_full lib env p s = Inr s" by (subst till_full.simps) (simp only: if_False)
    then show ?thesis using 1(3) by (simp add: kept_refl)
  next
    case True
    show ?thesis
    proof (cases "requesting_count (peer ?u p) = requesting_count (peer s p)")
      case same: True
      have "till_full lib env p s = Inl AssertionFailed" by (subst till_full.simps) (simp only: if_P [OF True] if_P [OF same])
      then show ?thesis using 1(3) by simp
    next
      case ne: False
      have "till_full lib env p s = till_full lib env p ?u" by (subst till_full.simps) (simp only: if_P [OF True] if_not_P [OF ne])
      then have "kept ?u t" using 1(1) [OF True ne] 1(2,3) by (simp add: peers_request)
      then show ?thesis using kept_trans [OF kept_request [OF 1(2)]] by blast
    qed
  qed
qed

lemma kept_peer_timer:
  assumes "p < length (peers s)" "peer_OnP2PTimer lib env n p s = Inr t"
  shows "kept s t"
proof (cases "peer_running (peer s p)")
  case run: True
  have full: "kept u v" if "RequestTillFullWindow lib env p u = Inr v" "p < length (peers u)" for u v
    using that kept_till_full [of p u lib env v] by (auto simp: RequestTillFullWindow_def kept_refl split: if_splits)
  show ?thesis
  proof (cases "n mod 4 = 0")
    case False
    then show ?thesis using full [of s t] assms run by (simp add: peer_OnP2PTimer_def and_then_def)
  next
    case True
    let ?s2 = "announce_if_due lib env p s"
    have sil: "silent s ?s2" using announce_if_due_silent by blast
    from assms(2) run True obtain w where t: "RequestTillFullWindow lib env p
        (upd_peer p (\<lambda>q. q\<lparr>max_download_speed := max (max_download_speed (peer ?s2 p)) (now_speed env p), window_size := w\<rparr>) ?s2) = Inr t"
      by (auto simp: peer_OnP2PTimer_def Let_def and_then_def split: sum.splits)
    let ?s3 = "upd_peer p (\<lambda>q. q\<lparr>max_download_speed := max (max_download_speed (peer ?s2 p)) (now_speed env p), window_size := w\<rparr>) ?s2"
    have p2: "p < length (peers ?s2)" using assms(1) silentD(1) [OF sil] by simp
    have "task_set (peer ?s3 q) = task_set (peer ?s2 q)" for q using p2 by (cases "q = p") simp_all
    then have "kept ?s2 ?s3" by (auto simp: kept_def)
    then have "kept s ?s3" by (rule kept_trans [OF kept_silent [OF sil]])
    moreover have "kept ?s3 t" using full [OF t] p2 by simp
    ultimately show ?thesis by (rule kept_trans)
  qed
qed (use assms in \<open>simp add: peer_OnP2PTimer_def kept_refl\<close>)

lemma kept_each_peer:
  assumes "set ps \<subseteq> {..<length (peers s)}" "each_peer (peer_OnP2PTimer lib env n) ps s = Inr t"
  shows "kept s t"
  using assms
proof (induction ps arbitrary: s)
  case (Cons p ps)
  from Cons.prems(2) obtain u where u: "peer_OnP2PTimer lib env n p s = Inr u" "each_peer (peer_OnP2PTimer lib env n) ps u = Inr t"
    by (auto simp: and_then_eq_Inr)
  have k: "kept s u" by (rule kept_peer_timer [OF _ u(1)]) (use Cons.prems(1) in simp)
  then have "set ps \<subseteq> {..<length (peers u)}" using Cons.prems(1) by (simp add: kept_def)
  from kept_trans [OF k Cons.IH [OF this u(2)]] show ?case .
qed (simp add: kept_refl)

section \<open>Properties\<close>

text \<open>A channel that is being downloaded: its tasks and its connections have come about in some way, with one cache.\<close>

definition downloading ::
    "protocol_lib \<Rightarrow> (task_env \<Rightarrow> bool) \<Rightarrow> p2p_lib \<Rightarrow> live_download \<Rightarrow> bool" where
  "downloading lib E ids d \<longleftrightarrow>
     task_reachable lib E (work d) \<and> (\<forall>env. E env \<longrightarrow> env_ok env) \<and> stream_running (work d) \<and>
     p2p_reachable lib ids (session d) \<and> inj (transaction_id ids) \<and> stream_cache (work d) = session_cache (session d)"

lemma downloadingD:
  assumes "downloading lib E ids d"
  shows "download_ok lib d" "p2p_reachable lib ids (session d)" "inj (transaction_id ids)" "E env \<Longrightarrow> env_ok env"
    "session_ok lib ids (\<lambda>_. 0) (session d)"
proof -
  have "tasks_inv lib (work d)" using reachable_inv [of lib E "work d"] assms by (auto simp: downloading_def)
  then show "download_ok lib d" using assms by (simp add: downloading_def download_ok_def)
  show "p2p_reachable lib ids (session d)" "inj (transaction_id ids)" "E env \<Longrightarrow> env_ok env"
    using assms by (simp_all add: downloading_def)
  then show "session_ok lib ids (\<lambda>_. 0) (session d)" by (simp add: p2p_reachable_ok)
qed

lemma connected_pointer: "GetPeer ep s = Some p \<Longrightarrow> p \<in> set (map snd (connected s))"
  by (force simp: GetPeer_def dest: map_of_SomeD)

lemma connected_end_point:
  assumes "session_ok plib lib due s" "p \<in> set (map snd (connected s))"
  shows "\<exists>ep. GetPeer ep s = Some p"
proof -
  obtain ep where ep: "(ep, p) \<in> set (connected s)" using assms(2) by auto
  have "distinct (map fst (connected s))" using session_okD(3) [OF assms(1)] by (simp add: connections_ok_def strict_sorted_iff)
  with ep show ?thesis by (auto simp: GetPeer_def)
qed



lemma offered_is_queued:
  assumes "downloading lib E ids d" "E env" "tick_room env L d" "counts_fit (session d)" "ticks mod 2 = 1"
    "k \<in> p2p_ids (work d)" "\<not> HasCompleteBlock k (stream_cache (work d))" "i < GetSubPieceCount k (session d)"
    "\<not> cache_HasSubPiece k i (stream_cache (work d))" "GetPeer ep (session d) = Some p"
    "HasSubPieceInBitmap (k, i) (peer (session d) p) = Inr True" "udp \<or> \<not> IsUdpServer (peer (session d) p)"
  shows "\<exists>e. assigner_OnP2PTimer ids env ticks urg udp False d = Some (Inr e) \<and> ticked lib ids env udp d e \<and>
    (GetRequestingCount (k, i) (session e) = 0 \<longrightarrow> (\<exists>r\<in>set (map snd (connected (session e))). (k, i) \<in> queue e r))"
proof -
  from tick_ok [OF downloadingD(1) [OF assms(1)] downloadingD(4) [OF assms(1,2)] downloadingD(2,3) [OF assms(1)] assms(3,4),
      of ticks urg udp False] assms(5-7)
  obtain e where e: "assigner_OnP2PTimer ids env ticks urg udp False d = Some (Inr e)" "k \<in> p2p_ids (work e)"
    "ticked lib ids env udp d e" by auto
  have qo: "queues_only (session d) (session e)" using e(3) by (simp add: ticked_def)
  note q = queuesD [OF qo]
  have cache: "stream_cache (work e) = stream_cache (work d)"
    using e(3) downloadingD(1) [OF assms(1)] q(11) by (simp add: ticked_def download_ok_def)
  have "i < GetSubPieceCount k (session e)" using assms(8) by (simp add: q(8))
  then have "(k, i) \<in> set (known_subpieces k e)"
    by (auto simp: known_subpieces_def HasSubPieceCount_def GetSubPieceCount_def split: option.splits)
  then have "missing_in (block_ids e) e (k, i)"
    using e(2) assms(9) cache by (simp add: missing_in_def block_ids_def p2p_ids_def has_subpiece_def)
  moreover have "p \<in> set (map snd (connected (session e)))" using connected_pointer [OF assms(10)] by (simp add: q(10))
  moreover have "offers (session e) p (k, i)" "may_ask udp (peer (session e) p)"
    using assms(11,12) by (simp_all add: offers_def may_ask_def q)
  ultimately show ?thesis using e(1,3) unfolding ticked_def by blast
qed


text \<open>A subpiece goes to the peer that is expected to have it first.  As long as the times do not wrap, the list of peers
  is in the order of their times, and of the peers that have announced the subpiece, may be asked and are not to deliver
  it yet, one with the least time gets it; its time grows by the time it takes for one subpiece.\<close>

theorem work_goes_to_least_loaded:
  assumes "sorted (map fst (recvtime_list d))" "\<not> (udp \<and> sp \<in> reassign_set d)"
    "\<forall>x\<in>set (recvtime_list d). snd x < length (peers (session d)) \<and> no_doubt (session d) (snd x) sp \<and>
       fst x + avg_delta_time (peer (session d) (snd x)) < 2 ^ 32"
    "(t, p) \<in> set (recvtime_list d)" "offers (session d) p sp" "may_ask udp (peer (session d) p)"
    "sp \<notin> set (task_set (peer (session d) p))"
  shows "\<exists>e u q. assign_subpiece ids udp sp d = Inr e \<and> (u, q) \<in> set (recvtime_list d) \<and> u \<le> t \<and>
    sp \<notin> set (task_set (peer (session d) q)) \<and> session e = AddAssignedSubPiece ids sp q (session d) \<and>
    (u + avg_delta_time (peer (session d) q), q) \<in> set (recvtime_list e) \<and> sorted (map fst (recvtime_list e))"
proof -
  have nd: "\<forall>x\<in>set (recvtime_list d). no_doubt (session d) (snd x) sp" using assms(3) by blast
  have m: "(\<lambda>q. udp \<or> \<not> IsUdpServer q) = may_ask udp" by (simp add: may_ask_def fun_eq_iff)
  obtain r where r: "find_peer (may_ask udp) sp (session d) (recvtime_list d) = Inr r"
    "found_in (may_ask udp) sp (session d) (recvtime_list d) r" using find_peer_spec [OF nd] by blast
  have free: "\<not> busy (may_ask udp) sp (session d) (t, p)" using assms(5-7) by (simp add: busy_def)
  then have "r \<noteq> None" using r(2) assms(4) by (cases r) auto
  then obtain before u q after where x: "r = Some (before, (u, q), after)" by auto
  have f: "recvtime_list d = before @ (u, q) # after" "\<not> busy (may_ask udp) sp (session d) (u, q)"
    "\<forall>y\<in>set before. busy (may_ask udp) sp (session d) y" using r(2) unfolding x by simp_all
  define e where "e = give_to ids sp (before, (u, q), after) d"
  have "assign_subpiece ids udp sp d = Inr e"
    using assms(2) r(1) [folded m] by (auto simp: assign_subpiece_def and_then_def x e_def)
  moreover have "(t, p) = (u, q) \<or> (t, p) \<in> set after" using assms(4) f(1,3) free by auto
  then have "u \<le> t" using assms(1) f(1) by (auto simp: sorted_append)
  moreover have g: "session e = AddAssignedSubPiece ids sp q (session d)"
    "recvtime_list e = before @ insert_recvtime ((u + avg_delta_time (peer (session d) q)) mod 2 ^ 32, q) after"
    using give_to_simps [of "(before, (u, q), after)", OF refl] by (simp_all add: e_def)
  moreover have w: "(u + avg_delta_time (peer (session d) q)) mod 2 ^ 32 = u + avg_delta_time (peer (session d) q)"
    using assms(3) f(1) by simp
  moreover have "sorted (map fst (recvtime_list e))"
    unfolding g(2) w using moved_sorted [of before "(u, q)" after] assms(1) f(1) by simp
  moreover have "sp \<notin> set (task_set (peer (session d) q))" "(u, q) \<in> set (recvtime_list d)" using f(1,2) by (auto simp: busy_def)
  moreover have "(u + avg_delta_time (peer (session d) q), q) \<in> set (recvtime_list e)" unfolding g(2) w by simp
  ultimately show ?thesis by blast
qed

section \<open>Witnesses\<close>

text \<open>A channel of which the P2P downloader has block 10; a peer has announced 20 subpieces of it, the first 17 complete.\<close>

definition sample_work :: live_stream where
  "sample_work = taken (sample_env 0 False) (10, 0) P2PDownloader sample_stream"

lemma sample_work_step: "task_step sample_lib (sample_env 0 False) P2PRequest sample_stream = Some (Inr sample_work)"
  using sample_next
  by (simp add: sample_work_def stream_RequestNextBlock_def next_block_loop.simps taken_def added_def AddBlockTask_def
      p2p_PutBlockTask_def new_task_def pool_exhausted_def sample_env_def sample_stream_def stream_new_def http_new_def
      IsRequesting_def Let_def)

lemma sample_work_simps:
  "stream_running sample_work" "stream_cache sample_work = sample_cache" "p2p_tasks (p2p sample_work) = [(10, (10, 0))]"
  "length (requesting_map sample_work) = 1"
  by (simp_all add: sample_work_def taken_def added_def sample_stream_def stream_new_def IsRequesting_def Let_def)

lemma sample_work_reachable: "task_reachable sample_lib sample_E sample_work"
  by (rule happened [OF sample_started sample_E_ok(2) sample_simps(3) _ sample_work_step]) (simp add: sample_simps)

definition sample_announced :: live_session where
  "sample_announced =
     upd_peer 0 (\<lambda>q. q\<lparr>announce_responses := 1, receive_announce_time := p2p_now (sample_p2p_env 0),
       block_bitmap := [(10, [True, True, False])], no_response_time := 0\<rparr>) (sample_connected\<lparr>subpiece_count_map := [(10, 20)]\<rparr>)"

lemma sample_announced_step:
  "p2p_step sample_lib sample_ids (sample_p2p_env 0) (AnnounceArrives 7 small_announce) sample_connected = Some (Inr sample_announced)"
  by (simp add: OnAnnouncePacket_def GetPeer_def sample_connected_def Connect_def HasPeer_def session_new_def AddPeer_def peer_Start_def
      DoAnnounce_def peer_create_def Let_def IsUdpServer_def peer_def upd_peer_def OnAnnounce_def small_announce_def
      SetSubPieceCountMap_def map_insert_def drop_elapsed.simps sample_cache_def note_empty_def sample_announced_def sample_p2p_env_def)

lemma sample_announced_simps:
  "session_cache sample_announced = sample_cache" "connected sample_announced = [(7, 0)]" "length (peers sample_announced) = 1"
  "subpiece_count_map sample_announced = [(10, 20)]" "block_bitmap (peer sample_announced 0) = [(10, [True, True, False])]"
  "task_set (peer sample_announced 0) = []" "avg_delta_time (peer sample_announced 0) = 100" "\<not> IsUdpServer (peer sample_announced 0)"
  "request_tasks sample_announced = []"
  by (simp_all add: sample_announced_def sample_connected_def Connect_def HasPeer_def GetPeer_def session_new_def AddPeer_def
      peer_Start_def DoAnnounce_def peer_create_def Let_def IsUdpServer_def peer_def upd_peer_def)

definition sample_download :: live_download where
  "sample_download = \<lparr>work = sample_work, session = sample_announced, urgent = False, assign_deque = [], reassign_set = {},
     recvtime_list = [(100, 0)]\<rparr>"

lemma sample_downloading: "downloading sample_lib sample_E sample_ids sample_download"
proof -
  have "p2p_reachable sample_lib sample_ids sample_announced"
    by (rule stepped [OF sample_connected_reachable _ sample_announced_step])
      (simp add: announce_ok_def small_announce_def sample_connected_eval sample_cache_def)
  then show ?thesis
    using sample_work_reachable sample_E_ok(1) sample_ids_inj
    by (simp add: downloading_def sample_download_def sample_work_simps sample_announced_simps)
qed

lemma sample_room: "tick_room (sample_env 0 False) 1 sample_download" "counts_fit (session sample_download)"
  by (auto simp: tick_room_def counts_near_def counts_fit_def sample_download_def sample_work_simps sample_announced_simps
      HasSubPieceCount_def GetSubPieceCount_def sample_cache_def sample_env_def split: if_splits)


lemma sample_offer:
  "10 \<in> p2p_ids (work sample_download)" "\<not> HasCompleteBlock 10 (stream_cache (work sample_download))"
  "16 < GetSubPieceCount 10 (session sample_download)" "\<not> cache_HasSubPiece 10 16 (stream_cache (work sample_download))"
  "GetPeer 7 (session sample_download) = Some 0" "HasSubPieceInBitmap (10, 16) (peer (session sample_download) 0) = Inr True"
  "\<not> IsUdpServer (peer (session sample_download) 0)"
  using sample_next(1)
  by (simp_all add: sample_download_def sample_work_simps sample_announced_simps p2p_ids_def HasCompleteBlock_def
      GetSubPieceCount_def cache_HasSubPiece_def GetPeer_def HasSubPieceInBitmap_def)


theorem work_goes_to_least_loaded_witness:
  "\<exists>e. assign_subpiece sample_ids False (10, 16) sample_download = Inr e \<and>
     session e = AddAssignedSubPiece sample_ids (10, 16) 0 (session sample_download) \<and> (200, 0) \<in> set (recvtime_list e)"
proof -
  have l: "recvtime_list sample_download = [(100, 0)]" "sorted (map fst (recvtime_list sample_download))"
    "avg_delta_time (peer (session sample_download) 0) = 100" "length (peers (session sample_download)) = 1"
    "(10, 16) \<notin> set (task_set (peer (session sample_download) 0))"
    by (simp_all add: sample_download_def sample_announced_simps)
  have o: "offers (session sample_download) 0 (10, 16)" "may_ask False (peer (session sample_download) 0)"
    using sample_offer(6,7) by (simp_all add: offers_def may_ask_def)
  then have "no_doubt (session sample_download) 0 (10, 16)" unfolding no_doubt_def offers_def by blast
  with o work_goes_to_least_loaded [OF l(2), of False "(10, 16)" 100 0 sample_ids] l show ?thesis by auto
qed


end
