(* ===== verification/Spec2Isabelle.thy ===== *)
theory Spec2Isabelle
  imports SwitchController LiveSwitch Measure MemoryQuota LiveTime ResourceStore ResourceConfig IpPool LiveAssign
begin

text \<open>
  A verification development for the PPLive peer (\<^verbatim>\<open>just-p2p-peer-peer\<close>), a program that downloads films and live
  channels for a local player, from HTTP servers and from other peers at the same time, and uploads to other peers what
  it has.  Paths below are relative to \<^verbatim>\<open>src/\<close>.

  \<^bold>\<open>The program and its parts.\<close>  A download is run by a driver (\<^verbatim>\<open>p2sp/download/DownloadDriver.cpp\<close>, for live
  channels \<^verbatim>\<open>LiveDownloadDriver.cpp\<close> with one \<^verbatim>\<open>LiveStream\<close> for each data rate).  The driver owns HTTP downloaders
  (\<^verbatim>\<open>p2sp/p2s\<close>) and a P2P downloader (\<^verbatim>\<open>p2sp/p2p\<close>), and a switch controller that decides once a second which of the two
  sources runs, from the speeds that speed meters (\<^verbatim>\<open>measure\<close>) report, the seconds of media the player still has, and the
  number of connected peers.  The downloaders ask a request manager what to download next, and store what arrives in an
  instance (\<^verbatim>\<open>storage\<close>): a film in a \<^verbatim>\<open>SubPieceManager\<close> of \<^verbatim>\<open>BlockNode\<close>s, whose blocks are written to disk and described
  in a configuration file; a live channel in a \<^verbatim>\<open>LiveCacheManager\<close> of \<^verbatim>\<open>LiveBlockNode\<close>s, which check every piece against
  the checksums of the block's header, push what can be played to the streams and tell other peers what they can ask for.
  A monitor divides the memory among the live channels.  The P2P downloader takes the peers it connects from an \<^verbatim>\<open>IpPool\<close>.

  \<^bold>\<open>Theories and sources.\<close>  Every definition that models code carries the name of its function or member, with a prefix
  where several classes have the same (\<^verbatim>\<open>dl_\<close>, \<^verbatim>\<open>vid_\<close>, \<^verbatim>\<open>live_\<close>, \<^verbatim>\<open>cache_\<close>, \<^verbatim>\<open>spm_\<close>, \<^verbatim>\<open>http_\<close>, \<^verbatim>\<open>p2p_\<close>, \<^verbatim>\<open>peer_\<close>, \<^verbatim>\<open>pool_\<close>).

  \<^item> \<open>Prelude\<close>: words, faults, sequences of actions, loops, and the locales every part uses.
  \<^item> \<open>SwitchBase\<close>, \<open>DownloadMode\<close>, \<open>PushMode\<close>, \<open>VideoMode\<close>, \<open>SwitchController\<close>: the switch controller of films
    (\<^verbatim>\<open>p2sp/download/SwitchController*.h/.cpp\<close>) and its three modes; \<open>HttpTargets\<close>: \<^verbatim>\<open>HttpTargetsManager.h/.cpp\<close>.
  \<^item> \<open>LiveDriver\<close>, \<open>LiveSwitch\<close>: the live switch controller (\<^verbatim>\<open>LiveSwitchController.h/.cpp\<close>) and what it uses of
    \<^verbatim>\<open>LiveDownloadDriver.h/.cpp\<close>, \<^verbatim>\<open>LiveStream.cpp\<close> and \<^verbatim>\<open>LiveDataRateManager.cpp\<close>.
  \<^item> \<open>LiveTasks\<close>: which downloader has which block of a live channel (\<^verbatim>\<open>LiveBlockRequestManager.h/.cpp\<close>,
    \<^verbatim>\<open>LiveStream::RequestNextBlock\<close>, \<^verbatim>\<open>p2s/LiveHttpDownloader.h/.cpp\<close>, the tasks of \<^verbatim>\<open>p2p/LiveAssigner.cpp\<close>).
  \<^item> \<open>LiveBlock\<close>, \<open>LiveCache\<close>, \<open>LiveAnnounce\<close>, \<open>LivePlay\<close>, \<open>LiveTime\<close>: the storage of a live channel
    (\<^verbatim>\<open>storage/LiveBlockNode\<close>, \<^verbatim>\<open>HeaderSubPiece\<close>, \<^verbatim>\<open>LiveCacheManager\<close>, \<^verbatim>\<open>LiveAnnounceMapBuilder\<close>, \<^verbatim>\<open>LiveInstance\<close>,
    \<^verbatim>\<open>LivePosition\<close>, \<^verbatim>\<open>LivePointTracker\<close>) and \<^verbatim>\<open>p2sp/download/LiveRestTimeTracker\<close>.
  \<^item> \<open>LiveMemory\<close>, \<open>MemoryQuota\<close>: \<^verbatim>\<open>storage/LiveInstanceMemoryConsumer\<close>, \<^verbatim>\<open>MemoryQuotaAssigner\<close>,
    \<^verbatim>\<open>MemoryConsumptionMonitor\<close>.
  \<^item> \<open>BlockNode\<close>, \<open>SubPieceManager\<close>, \<open>ResourceStore\<close>, \<open>ResourceConfig\<close>: the storage of a film
    (\<^verbatim>\<open>storage/BlockNode\<close>, \<^verbatim>\<open>SubPieceManager\<close>, the check of \<^verbatim>\<open>Instance::AsyncAddSubPiece\<close>), in the builds with and without
    \<^verbatim>\<open>DISK_MODE\<close>; the last two hold the refinement to a store that loses nothing and the round trip of the configuration.
  \<^item> \<open>Measure\<close>: \<^verbatim>\<open>measure/ByteSpeedMeter\<close> and \<^verbatim>\<open>CycleBuffer\<close>.
  \<^item> \<open>OrderedMap\<close>, \<open>IpPool\<close>: \<^verbatim>\<open>std::map\<close> with a comparison of its own, and the pool of peers with its three indexes
    (\<^verbatim>\<open>p2sp/p2p/IpPool.h/.cpp\<close>, \<^verbatim>\<open>IpPoolIndex.h/.cpp\<close>).

  \<^bold>\<open>How code is modelled.\<close>

  \<^item> A class is a \<^verbatim>\<open>record\<close> of its members; a member function is a function of the object (a later argument) that returns
    the new object, with its value when it has one.  Objects that call one another share one record (\<open>live_stream\<close>,
    the state of \<open>LiveSwitch\<close>); objects that several containers share are a store of objects and places in it (\<open>IpPool\<close>).
  \<^item> The program is the build with assertions: a failed \<^verbatim>\<open>assert\<close>, a call through an empty pointer, an access outside a
    container or a division by 0 is a \<open>fault\<close>, the left side of \<open>fault + 'a\<close>.  That no fault occurs is always a conclusion.
  \<^item> A loop that may run forever is a \<^verbatim>\<open>partial_function (option)\<close> or \<open>run_loop\<close>, and \<open>None\<close> is the loop that does not
    end; that the code returns is a theorem with the result \<open>Some (Inr _)\<close>.  There is no fuel anywhere.
  \<^item> Words are used where wrapping matters (\<open>LiveTime\<close>, \<open>Measure\<close>, counters of \<open>IpPool\<close> and of \<open>LiveTasks\<close>); elsewhere
    numbers are natural, with the reduction written out where a computation can leave its type.
  \<^item> What an activation of a timer reads from the rest of the program is a record of inputs (\<open>env\<close>, \<open>task_env\<close>), constant
    during one activation and arbitrary between activations, up to the stated conditions.
  \<^item> Code outside the repository is a parameter: \<open>protocol_lib\<close> and \<open>resource_lib\<close> (sizes, checksums, MD5, \<^verbatim>\<open>BlockMap\<close>,
    the order of subpieces), the tick counters of the framework (\<open>clock_ok\<close>: milliseconds as long as they fit in 32 bits),
    the order and the hash of addresses, the truncated product of a \<^verbatim>\<open>double\<close>.  What is assumed of each is a named
    definition, and the witnesses give concrete instances of them.
  \<^item> Logging and statistics that nothing reads are left out.

  \<^bold>\<open>Interfaces.\<close>  The locales, each interpreted on the model's own definitions:

  \<^item> \<open>control_loop\<close>: the body of a \<^verbatim>\<open>while (true)\<close> loop that keeps an invariant and lowers a rank; gives that the loop
    returns.  Interpreted by the three control modes.
  \<^item> \<open>control_mode_class\<close>: the virtual functions a switch controller calls on its mode; the controller is proved once and
    interpreted with the three modes.
  \<^item> \<open>request_loop\<close>: asking and adding one item lowers the number of those that are missing; gives that as many requests
    complete the container.  Interpreted by block nodes, live blocks, files, and the turns of the peers of a pool.
  \<^item> \<open>forward_simulation\<close>: every operation is matched by one of the abstract specification; interpreted by the speed
    meter (a log), the cycle buffer (a list) and the managed resource with its disk (a store that loses nothing).
  \<^item> \<open>memory_consumer\<close>: what the memory monitor relies on; interpreted by the live channels.
  \<^item> \<open>map_order\<close>: a strict weak order, as \<^verbatim>\<open>std::map\<close> requires it; interpreted by the comparisons of the pool.

  \<^bold>\<open>What is shown.\<close>

  \<^item> Switch controllers: every activation from a reachable state returns without a fault and leaves the recorded state and
    the downloaders in agreement; the policies (when HTTP gives way to P2P and back, how long HTTP may run).
  \<^item> Live channel: only data that agrees with the header's checksums is played or offered to other peers; the searches for
    what is missing end, find the first gap, and requests to an honest source complete a block; the clocks refine the
    history of announcements and of playing; every block is downloaded by one downloader, what arrives over HTTP is stored
    under the block it was asked for, and HTTP is never idle while it is meant to run.
  \<^item> Memory: quotas respect the priorities, and blocks the players need are never dropped.
  \<^item> Film: requests complete the file, with a disk nothing that arrived is lost and without one it is requested again, the
    description of a resource is read back; positions and subpieces agree.
  \<^item> Pool of peers: the three indexes always agree with the peers, the best peer is offered, every peer gets its turn.
  \<^item> Errors of the code, as theorems about what it does: peers that are retried without the growing delays the code
    computes, progress that never reaches 100 percent, a report of a bad block that is taken for a programming error, an order
    to pause that is overridden, a failed connection that ends in an assertion, and others named in the theories.

  \<^bold>\<open>Bounds.\<close>  A live block has fewer than \<open>2^16\<close> subpieces (the header's 16-bit piece count is checked by the code); a cache
  is searched as long as it has fewer than \<open>2^16\<close> blocks, since block ids wrap in 32 bits and intervals have 16 bits
  (\<open>roomy\<close> in \<open>LiveTasks\<close> asks for 65000 blocks and tasks together); the round trip of the configuration holds up to 4096
  blocks, where the buffer the code allocates suffices.

  \<^bold>\<open>Not modelled.\<close>  The sockets, packets and sessions with peers and servers (connections, trackers, index, stun, upload),
  the HTTP client and the HTTP service to the player, files and the storage thread, parsers of container formats, push tasks,
  statistics and the start of the program: they are mostly input and output, or orchestration of asynchronous objects, and
  the modelled parts know them as inputs and as events in any order.  Of the drivers only what their switch controllers read
  and do is modelled.
\<close>

end
